(* ===== verification/RPrelude.thy ===== *)
theory RPrelude
  imports "HOL-Library.Word" "HOL-Library.Monad_Syntax"
begin

text \<open>
  The shared base of the development: bytes and little-endian integers, raw memory as a
  byte list with checked reads and writes, the ranges and conversions of C's integer types,
  and the lemma collections the component theories use.

  Conventions of the whole library.
  \<^item> A C name that starts with underscores is written with the prefix \<open>u_\<close>, so
    \<^verbatim>\<open>_dictInit\<close> is \<open>u_dictInit\<close>.
  \<^item> An operation that the C standard leaves undefined (a read or write outside the
    allocated block, an unsatisfied assertion) has the result \<open>None\<close> of an option type.
    A theorem that an operation returns \<open>Some\<close> is a memory-safety theorem.
  \<^item> A byte the allocator returns and nobody has written is \<open>undefined\<close>: one fixed
    unknown byte, on which no theorem can depend.
\<close>

unbundle bit_operations_syntax

section \<open>Lemma collections\<close>

named_theorems mem_simps \<open>rewriting of checked memory accesses\<close>
named_theorems len_simps \<open>lengths of byte lists built by the encoders\<close>

section \<open>Bytes and little-endian integers\<close>

type_synonym byte = "8 word"

fun le_bytes :: "nat \<Rightarrow> int \<Rightarrow> byte list" where
  "le_bytes 0 v = []"
| "le_bytes (Suc n) v = word_of_int v # le_bytes n (v div 256)"

fun le_uint :: "byte list \<Rightarrow> int" where
  "le_uint [] = 0"
| "le_uint (b # bs) = uint b + 256 * le_uint bs"

definition le_sint :: "byte list \<Rightarrow> int" where
  "le_sint bs =
     (let u = le_uint bs; m = 256 ^ length bs in if 2 * u < m then u else u - m)"

lemma le_bytes_numeral [simp]:
  "le_bytes (numeral k) v = word_of_int v # le_bytes (pred_numeral k) (v div 256)"
  by (simp add: numeral_eq_Suc)

lemma length_le_bytes [simp, len_simps]: "length (le_bytes n v) = n"
  by (induction n arbitrary: v) auto

lemma le_bytes_0_iff [simp]: "le_bytes n v = [] \<longleftrightarrow> n = 0"
  by (cases n) auto

lemma le_uint_nonneg [simp]: "0 \<le> le_uint bs"
  by (induction bs) auto

lemma le_uint_less: "le_uint bs < 256 ^ length bs"
proof (induction bs)
  case (Cons b bs)
  have "uint b < 256"
    using uint_lt2p [of b] by simp
  with Cons show ?case by simp
qed simp

lemma le_uint_le_bytes: "le_uint (le_bytes n v) = v mod 256 ^ n"
proof (induction n arbitrary: v)
  case (Suc n)
  have "v mod (256 * 256 ^ n) = 256 * (v div 256 mod 256 ^ n) + v mod 256"
    by (rule zmod_zmult2_eq) simp
  with Suc show ?case
    by (simp add: uint_word_of_int)
qed simp

lemma byte_256_zero [simp]: "(256 :: byte) = 0"
  by simp

lemma le_bytes_le_uint [simp]: "le_bytes (length bs) (le_uint bs) = bs"
proof (induction bs)
  case (Cons b bs)
  have b: "0 \<le> uint b" "uint b < 256"
    using uint_lt2p [of b] by simp_all
  then have "(uint b + 256 * le_uint bs) div 256 = le_uint bs"
    by simp
  with Cons show ?case by simp
qed simp

lemma le_uint_inject: "length as = length bs \<Longrightarrow> le_uint as = le_uint bs \<Longrightarrow> as = bs"
  by (metis le_bytes_le_uint)

lemma le_uint_le_bytes_id: "0 \<le> v \<Longrightarrow> v < 256 ^ n \<Longrightarrow> le_uint (le_bytes n v) = v"
  by (simp add: le_uint_le_bytes)

lemma le_bytes_mod: "le_bytes n (v mod 256 ^ n) = le_bytes n v"
  by (rule le_uint_inject) (simp_all add: le_uint_le_bytes)

lemma le_sint_range:
  "- (256 ^ length bs) \<le> 2 * le_sint bs" "2 * le_sint bs < 256 ^ length bs"
  using le_uint_less [of bs] le_uint_nonneg [of bs]
  by (auto simp: le_sint_def Let_def simp del: le_uint_nonneg)

lemma le_sint_le_bytes:
  assumes "- (256 ^ n) \<le> 2 * v" and "2 * v < 256 ^ n"
  shows "le_sint (le_bytes n v) = v"
proof (cases "0 \<le> v")
  case True
  with assms have "v mod 256 ^ n = v" by simp
  with assms show ?thesis
    by (simp add: le_sint_def Let_def le_uint_le_bytes)
next
  case False
  with assms have "v mod 256 ^ n = v + 256 ^ n"
    by (smt (verit) mod_add_self2 mod_pos_pos_trivial)
  with assms False show ?thesis
    by (simp add: le_sint_def Let_def le_uint_le_bytes)
qed

lemma le_sint_mod: "(le_sint bs - le_uint bs) mod 256 ^ length bs = 0"
  by (simp add: le_sint_def Let_def)

lemma le_bytes_le_sint [simp]: "le_bytes (length bs) (le_sint bs) = bs"
proof -
  have "le_sint bs mod 256 ^ length bs = le_uint bs"
    using le_uint_less [of bs] by (auto simp: le_sint_def Let_def)
  then show ?thesis
    by (metis le_bytes_le_uint le_bytes_mod)
qed

section \<open>Checked memory: reads, writes, memmove\<close>

text \<open>
  A block of memory is a byte list. Every access carries its bounds check; C's
  \<^verbatim>\<open>memcpy\<close> from a source in another block is \<open>mem_write\<close> of the bytes read there, and
  \<^verbatim>\<open>memmove\<close> inside one block is \<open>mem_move\<close>. \<^verbatim>\<open>zrealloc\<close> keeps the common prefix.
\<close>

definition mem_read :: "byte list \<Rightarrow> nat \<Rightarrow> nat \<Rightarrow> byte list option" where
  "mem_read m off n = (if off + n \<le> length m then Some (take n (drop off m)) else None)"

definition mem_byte :: "byte list \<Rightarrow> nat \<Rightarrow> byte option" where
  "mem_byte m off = (if off < length m then Some (m ! off) else None)"

definition mem_write :: "byte list \<Rightarrow> nat \<Rightarrow> byte list \<Rightarrow> byte list option" where
  "mem_write m off xs =
     (if off + length xs \<le> length m then Some (take off m @ xs @ drop (off + length xs) m)
      else None)"

definition mem_move :: "byte list \<Rightarrow> nat \<Rightarrow> nat \<Rightarrow> nat \<Rightarrow> byte list option" where
  "mem_move m dst src n = do { xs \<leftarrow> mem_read m src n; mem_write m dst xs }"

text \<open>The contents of new memory: one byte of which nothing is known. A model that branched on it would
  have no provable result.\<close>

definition uninit :: byte where
  "uninit = undefined"

definition zmalloc :: "nat \<Rightarrow> byte list" where
  "zmalloc n = replicate n uninit"

definition zrealloc :: "byte list \<Rightarrow> nat \<Rightarrow> byte list" where
  "zrealloc m n = take n m @ replicate (n - length m) uninit"

lemma length_zmalloc [simp]: "length (zmalloc n) = n"
  by (simp add: zmalloc_def)

lemma length_zrealloc [simp]: "length (zrealloc m n) = n"
  by (simp add: zrealloc_def)

lemma take_zrealloc: "k \<le> n \<Longrightarrow> k \<le> length m \<Longrightarrow> take k (zrealloc m n) = take k m"
  by (simp add: zrealloc_def min_def)

lemma nth_zrealloc: "i < n \<Longrightarrow> i < length m \<Longrightarrow> zrealloc m n ! i = m ! i"
  by (simp add: zrealloc_def nth_append)

lemma mem_write_Some:
  "mem_write m off xs = Some m' \<longleftrightarrow>
     off + length xs \<le> length m \<and> m' = take off m @ xs @ drop (off + length xs) m"
  by (auto simp: mem_write_def)

lemma mem_write_length: "mem_write m off xs = Some m' \<Longrightarrow> length m' = length m"
  by (auto simp: mem_write_def split: if_splits)

lemma mem_read_append [mem_simps]:
  "length pre = off \<Longrightarrow> length xs = n \<Longrightarrow> mem_read (pre @ xs @ post) off n = Some xs"
  by (simp add: mem_read_def)

lemma mem_read_append_end [mem_simps]:
  "length pre = off \<Longrightarrow> length xs = n \<Longrightarrow> mem_read (pre @ xs) off n = Some xs"
  by (simp add: mem_read_def)

lemma mem_byte_append [mem_simps]:
  "length pre = off \<Longrightarrow> mem_byte (pre @ b # post) off = Some b"
  by (auto simp: mem_byte_def)

lemma mem_byte_Cons [simp]:
  "mem_byte (b # m) 0 = Some b"
  "mem_byte (b # m) (Suc n) = mem_byte m n"
  "mem_byte (b # m) (numeral k) = mem_byte m (pred_numeral k)"
  by (simp_all add: mem_byte_def numeral_eq_Suc)

lemma mem_byte_at [simp]:
  "mem_byte (pre @ m) (length pre) = mem_byte m 0"
  "mem_byte (pre @ m) (length pre + n) = mem_byte m n"
  "mem_byte (pre @ m) (Suc (length pre)) = mem_byte m 1"
  "mem_byte (pre @ m) (Suc (Suc (length pre))) = mem_byte m 2"
  "mem_byte (pre @ m) (Suc (Suc (Suc (length pre)))) = mem_byte m 3"
  by (simp_all add: mem_byte_def nth_append)

lemma mem_write_append [mem_simps]:
  "length pre = off \<Longrightarrow> length xs = length ys \<Longrightarrow>
     mem_write (pre @ ys @ post) off xs = Some (pre @ xs @ post)"
  by (simp add: mem_write_def)

text \<open>Reading a word-sized slot of a buffer that holds an array of equal slots.\<close>

definition slot :: "nat \<Rightarrow> byte list \<Rightarrow> nat \<Rightarrow> byte list" where
  "slot w m i = take w (drop (i * w) m)"

lemma length_slot: "Suc i * w \<le> length m \<Longrightarrow> length (slot w m i) = w"
  by (simp add: slot_def)

lemma mem_read_slot: "Suc i * w \<le> length m \<Longrightarrow> mem_read m (i * w) w = Some (slot w m i)"
  by (simp add: mem_read_def slot_def add.commute)

section \<open>C integer types\<close>

text \<open>
  Signed and unsigned integers are modelled as \<open>int\<close> with the conversion to a width
  written out where the C code converts or can wrap.
\<close>

definition to_u32 :: "int \<Rightarrow> int" where "to_u32 x = x mod 2 ^ 32"
definition to_u64 :: "int \<Rightarrow> int" where "to_u64 x = x mod 2 ^ 64"
definition to_s32 :: "int \<Rightarrow> int" where "to_s32 x = (x + 2 ^ 31) mod 2 ^ 32 - 2 ^ 31"
definition to_s64 :: "int \<Rightarrow> int" where "to_s64 x = (x + 2 ^ 63) mod 2 ^ 64 - 2 ^ 63"

definition INT16_MIN :: int where "INT16_MIN = - (2 ^ 15)"
definition INT16_MAX :: int where "INT16_MAX = 2 ^ 15 - 1"
definition INT32_MIN :: int where "INT32_MIN = - (2 ^ 31)"
definition INT32_MAX :: int where "INT32_MAX = 2 ^ 31 - 1"
definition LLONG_MIN :: int where "LLONG_MIN = - (2 ^ 63)"
definition LLONG_MAX :: int where "LLONG_MAX = 2 ^ 63 - 1"
definition ULLONG_MAX :: int where "ULLONG_MAX = 2 ^ 64 - 1"

text \<open>A length or index that an \<^verbatim>\<open>int\<close> can hold.\<close>

definition fits_int :: "nat \<Rightarrow> bool" where
  "fits_int n \<longleftrightarrow> n \<le> 2147483647"

lemmas c_limits = INT16_MIN_def INT16_MAX_def INT32_MIN_def INT32_MAX_def
  LLONG_MIN_def LLONG_MAX_def ULLONG_MAX_def

lemma to_u32_id [simp]: "0 \<le> x \<Longrightarrow> x < 4294967296 \<Longrightarrow> to_u32 x = x"
  by (simp add: to_u32_def)

lemma to_u64_id [simp]: "0 \<le> x \<Longrightarrow> x < 18446744073709551616 \<Longrightarrow> to_u64 x = x"
  by (simp add: to_u64_def)

lemma to_s32_id [simp]: "- 2147483648 \<le> x \<Longrightarrow> x < 2147483648 \<Longrightarrow> to_s32 x = x"
  by (simp add: to_s32_def)

lemma to_s64_id [simp]:
  "- 9223372036854775808 \<le> x \<Longrightarrow> x < 9223372036854775808 \<Longrightarrow> to_s64 x = x"
  by (simp add: to_s64_def)

section \<open>Option monad\<close>

lemma bind_Some_iff:
  "Option.bind m f = Some y \<longleftrightarrow> (\<exists>x. m = Some x \<and> f x = Some y)"
  by (cases m) auto

lemma bindE:
  assumes "Option.bind m f = Some y"
  obtains x where "m = Some x" and "f x = Some y"
  using assms by (cases m) auto

lemma assert_option:
  "(if P then Some x else None) = Some y \<longleftrightarrow> P \<and> x = y"
  by auto

definition require :: "bool \<Rightarrow> unit option" where
  "require P = (if P then Some () else None)"

lemma require_Some [simp]: "require P = Some u \<longleftrightarrow> P"
  by (simp add: require_def)

lemma require_bind [simp]: "P \<Longrightarrow> Option.bind (require P) f = f ()"
  by (simp add: require_def)

end
