(* ===== verification/Endian.thy ===== *)
theory Endian
  imports RPrelude
begin

text \<open>
  Model of \<^verbatim>\<open>src/webserver/redis/src/endian.c\<close> and \<^verbatim>\<open>endian.h\<close>: the in-place byte
  reversals, and the macros that reverse only on a big-endian host. The host's byte order
  is the parameter \<open>be\<close> of the store and load operations. The main results: each reversal
  is an involution that reverses the addressed bytes and nothing else, and an integer that
  is stored and then passed through the macro has the same little-endian bytes on every
  host, which is what lets the other components work on little-endian bytes only.
\<close>

section \<open>The reversals\<close>

text \<open>\<^verbatim>\<open>t = x[i]; x[i] = x[j]; x[j] = t;\<close> on a block of memory.\<close>

definition swap_bytes :: "byte list \<Rightarrow> nat \<Rightarrow> nat \<Rightarrow> byte list option" where
  "swap_bytes m i j =
     do { t \<leftarrow> mem_byte m i;
          u \<leftarrow> mem_byte m j;
          m \<leftarrow> mem_write m i [u];
          mem_write m j [t] }"

definition memrev16 :: "byte list \<Rightarrow> nat \<Rightarrow> byte list option" where
  "memrev16 m p = swap_bytes m p (p + 1)"

definition memrev32 :: "byte list \<Rightarrow> nat \<Rightarrow> byte list option" where
  "memrev32 m p = do { m \<leftarrow> swap_bytes m p (p + 3); swap_bytes m (p + 1) (p + 2) }"

definition memrev64 :: "byte list \<Rightarrow> nat \<Rightarrow> byte list option" where
  "memrev64 m p =
     do { m \<leftarrow> swap_bytes m p (p + 7);
          m \<leftarrow> swap_bytes m (p + 1) (p + 6);
          m \<leftarrow> swap_bytes m (p + 2) (p + 5);
          swap_bytes m (p + 3) (p + 4) }"

definition memrev16ifbe :: "bool \<Rightarrow> byte list \<Rightarrow> nat \<Rightarrow> byte list option" where
  "memrev16ifbe be m p = (if be then memrev16 m p else Some m)"

definition memrev32ifbe :: "bool \<Rightarrow> byte list \<Rightarrow> nat \<Rightarrow> byte list option" where
  "memrev32ifbe be m p = (if be then memrev32 m p else Some m)"

definition memrev64ifbe :: "bool \<Rightarrow> byte list \<Rightarrow> nat \<Rightarrow> byte list option" where
  "memrev64ifbe be m p = (if be then memrev64 m p else Some m)"

text \<open>An integer of \<open>n\<close> bytes as the host lays it out in memory, and read back.\<close>

definition host_bytes :: "bool \<Rightarrow> nat \<Rightarrow> int \<Rightarrow> byte list" where
  "host_bytes be n v = (if be then rev (le_bytes n v) else le_bytes n v)"

definition host_sint :: "bool \<Rightarrow> byte list \<Rightarrow> int" where
  "host_sint be bs = le_sint (if be then rev bs else bs)"

section \<open>Correctness of the reversals\<close>

lemma swap_bytes_append:
  assumes "length pre = i" and "length pre + Suc (length mid) = j"
  shows "swap_bytes (pre @ a # mid @ b # post) i j = Some (pre @ b # mid @ a # post)"
proof -
  have "mem_byte (pre @ a # mid @ b # post) j = Some b"
    using assms by (auto simp: mem_byte_def nth_append)
  moreover have "mem_write (pre @ a # mid @ b # post) i [b] = Some (pre @ b # mid @ b # post)"
    using assms by (auto simp: mem_write_def)
  moreover have "mem_write (pre @ b # mid @ b # post) j [a] = Some (pre @ b # mid @ a # post)"
    using assms by (auto simp: mem_write_def)
  ultimately show ?thesis
    using assms by (simp add: swap_bytes_def mem_byte_append)
qed

lemma memrev16_bytes:
  "length pre = p \<Longrightarrow> memrev16 (pre @ [a, b] @ post) p = Some (pre @ [b, a] @ post)"
  using swap_bytes_append [of pre p "[]" "p + 1" a b post] by (simp add: memrev16_def)

lemma memrev32_bytes:
  assumes "length pre = p"
  shows "memrev32 (pre @ [a, b, c, d] @ post) p = Some (pre @ [d, c, b, a] @ post)"
  using assms swap_bytes_append [of pre p "[b, c]" "p + 3" a d post]
    swap_bytes_append [of "pre @ [d]" "p + 1" "[]" "p + 2" b c "a # post"]
  by (simp add: memrev32_def)

lemma memrev64_bytes:
  assumes "length pre = p"
  shows "memrev64 (pre @ [a, b, c, d, e, f, g, h] @ post) p =
           Some (pre @ [h, g, f, e, d, c, b, a] @ post)"
  using assms swap_bytes_append [of pre p "[b, c, d, e, f, g]" "p + 7" a h post]
    swap_bytes_append [of "pre @ [h]" "p + 1" "[c, d, e, f]" "p + 6" b g "a # post"]
    swap_bytes_append [of "pre @ [h, g]" "p + 2" "[d, e]" "p + 5" c f "b # a # post"]
    swap_bytes_append [of "pre @ [h, g, f]" "p + 3" "[]" "p + 4" d e "c # b # a # post"]
  by (simp add: memrev64_def)

lemma list_length_numeral:
  "length xs = 2 \<Longrightarrow> \<exists>a b. xs = [a, b]"
  "length xs = 4 \<Longrightarrow> \<exists>a b c d. xs = [a, b, c, d]"
  "length xs = 8 \<Longrightarrow> \<exists>a b c d e f g h. xs = [a, b, c, d, e, f, g, h]"
  by (auto simp: eval_nat_numeral length_Suc_conv)

lemma memrev16_rev:
  assumes "length pre = p" and "length xs = 2"
  shows "memrev16 (pre @ xs @ post) p = Some (pre @ rev xs @ post)"
  using list_length_numeral(1) [OF assms(2)] memrev16_bytes [OF assms(1)] by fastforce

lemma memrev32_rev:
  assumes "length pre = p" and "length xs = 4"
  shows "memrev32 (pre @ xs @ post) p = Some (pre @ rev xs @ post)"
  using list_length_numeral(2) [OF assms(2)] memrev32_bytes [OF assms(1)] by fastforce

lemma memrev64_rev:
  assumes "length pre = p" and "length xs = 8"
  shows "memrev64 (pre @ xs @ post) p = Some (pre @ rev xs @ post)"
  using list_length_numeral(3) [OF assms(2)] memrev64_bytes [OF assms(1)] by fastforce

lemmas memrev_rev = memrev16_rev memrev32_rev memrev64_rev

section \<open>Portability of the stored integers\<close>

text \<open>Storing an integer and passing the bytes through the macro of its width gives the
  same bytes on both kinds of host.\<close>

lemma memrev16ifbe_host:
  "length pre = p \<Longrightarrow>
     memrev16ifbe be (pre @ host_bytes be 2 v @ post) p = Some (pre @ le_bytes 2 v @ post)"
  using memrev16_rev [of pre p "rev (le_bytes 2 v)" post]
  by (auto simp: memrev16ifbe_def host_bytes_def simp del: le_bytes_numeral)

lemma memrev32ifbe_host:
  "length pre = p \<Longrightarrow>
     memrev32ifbe be (pre @ host_bytes be 4 v @ post) p = Some (pre @ le_bytes 4 v @ post)"
  using memrev32_rev [of pre p "rev (le_bytes 4 v)" post]
  by (auto simp: memrev32ifbe_def host_bytes_def simp del: le_bytes_numeral)

lemma memrev64ifbe_host:
  "length pre = p \<Longrightarrow>
     memrev64ifbe be (pre @ host_bytes be 8 v @ post) p = Some (pre @ le_bytes 8 v @ post)"
  using memrev64_rev [of pre p "rev (le_bytes 8 v)" post]
  by (auto simp: memrev64ifbe_def host_bytes_def simp del: le_bytes_numeral)

lemmas memrevifbe_host = memrev16ifbe_host memrev32ifbe_host memrev64ifbe_host

end
