(* ===== verification/Interfaces.thy ===== *)
theory Interfaces
  imports RPrelude
begin

text \<open>
  The contracts between components, as locales: what a client of a container may rely on,
  whichever representation provides it. Every operation returns an option (\<open>None\<close> is
  undefined behaviour of the C code), so each law is also a safety promise. The lemmas
  inside a locale are proved once and hold for every representation that interprets it.
\<close>

section \<open>Sets\<close>

text \<open>
  The contract of a set representation: \<open>add\<close> and \<open>remove\<close> return whether they changed
  the set; \<open>member\<close> may change the representation (a hash table rehashes when it is searched), but not the set. \<open>valid\<close> are the values the representation can hold and \<open>cap\<close> bounds the
  number of elements.
\<close>

fun add_all :: "('s \<Rightarrow> 'a \<Rightarrow> ('s \<times> bool) option) \<Rightarrow> 's \<Rightarrow> 'a list \<Rightarrow> 's option" where
  "add_all add s [] = Some s"
| "add_all add s (v # vs) = do { (s, _) \<leftarrow> add s v; add_all add s vs }"

locale set_impl =
  fixes add :: "'s \<Rightarrow> 'a \<Rightarrow> ('s \<times> bool) option"
    and remove :: "'s \<Rightarrow> 'a \<Rightarrow> ('s \<times> bool) option"
    and member :: "'s \<Rightarrow> 'a \<Rightarrow> ('s \<times> bool) option"
    and empty :: 's
    and invar :: "'s \<Rightarrow> bool"
    and elems :: "'s \<Rightarrow> 'a set"
    and valid :: "'a \<Rightarrow> bool"
    and cap :: nat
  assumes empty_law: "invar empty" "elems empty = {}"
    and fin_law: "invar s \<Longrightarrow> finite (elems s)"
    and add_law: "invar s \<Longrightarrow> valid v \<Longrightarrow> card (elems s) + 1 < cap \<Longrightarrow>
      \<exists>s'. add s v = Some (s', v \<notin> elems s) \<and> invar s' \<and> elems s' = insert v (elems s)"
    and remove_law: "invar s \<Longrightarrow> valid v \<Longrightarrow> card (elems s) < cap \<Longrightarrow>
      \<exists>s'. remove s v = Some (s', v \<in> elems s) \<and> invar s' \<and> elems s' = elems s - {v}"
    and member_law: "invar s \<Longrightarrow> valid v \<Longrightarrow> card (elems s) < cap \<Longrightarrow>
      \<exists>s'. member s v = Some (s', v \<in> elems s) \<and> invar s' \<and> elems s' = elems s"
begin

lemma add_all_law:
  "invar s \<Longrightarrow> list_all valid vs \<Longrightarrow> card (elems s) + length vs < cap \<Longrightarrow>
     \<exists>s'. add_all add s vs = Some s' \<and> invar s' \<and> elems s' = elems s \<union> set vs"
proof (induction vs arbitrary: s)
  case (Cons v vs)
  then obtain s1 where s1: "add s v = Some (s1, v \<notin> elems s)" "invar s1"
      "elems s1 = insert v (elems s)"
    using add_law [of s v] by auto
  have "card (elems s1) \<le> card (elems s) + 1"
    using s1(3) fin_law [OF Cons.prems(1)] by (simp add: card_insert_if)
  with Cons s1 obtain s' where "add_all add s1 vs = Some s'" "invar s'"
      "elems s' = elems s1 \<union> set vs"
    using Cons.IH [of s1] by auto
  with s1 show ?case by simp
qed simp

lemma remove_added:
  assumes "invar s" and "valid v" and "v \<notin> elems s" and "card (elems s) + 1 < cap"
  shows "\<exists>s1 s2. add s v = Some (s1, True) \<and> remove s1 v = Some (s2, True) \<and>
           invar s2 \<and> elems s2 = elems s"
proof -
  from add_law [OF assms(1,2,4)] assms(3) obtain s1 where s1: "add s v = Some (s1, True)"
    "invar s1" "elems s1 = insert v (elems s)" by auto
  then have "card (elems s1) < cap"
    using assms fin_law [OF assms(1)] by simp
  from remove_law [OF s1(2) assms(2) this] s1 assms(3) show ?thesis by auto
qed

lemma built_member:
  assumes "list_all valid vs" and "valid v" and "length vs < cap"
  shows "\<exists>s s'. add_all add empty vs = Some s \<and> member s v = Some (s', v \<in> set vs)"
proof -
  obtain s where s: "add_all add empty vs = Some s" "invar s" "elems s = set vs"
    using add_all_law [of empty vs] empty_law assms by auto
  moreover have "card (elems s) < cap"
    using s(3) card_length [of vs] assms(3) by simp
  ultimately show ?thesis
    using member_law [OF s(2) assms(2)] by auto
qed

end

section \<open>Maps\<close>

text \<open>
  The contract of a map representation. Keys with the same canonical form \<open>canon\<close> are the
  same key. \<open>weight\<close> is what an instance occupies, \<open>cost\<close> what one more binding may
  add, and \<open>cap\<close> the bound below which the representation works. \<open>update\<close> returns
  whether the key is new, \<open>delete\<close> whether it was there.
\<close>

fun update_all ::
  "('s \<Rightarrow> 'k \<Rightarrow> 'v \<Rightarrow> ('s \<times> bool) option) \<Rightarrow> 's \<Rightarrow> ('k \<times> 'v) list \<Rightarrow> 's option" where
  "update_all upd s [] = Some s"
| "update_all upd s ((k, v) # kvs) = do { (s, _) \<leftarrow> upd s k v; update_all upd s kvs }"

locale map_impl =
  fixes lookup :: "'s \<Rightarrow> 'k \<Rightarrow> ('s \<times> 'v option) option"
    and update :: "'s \<Rightarrow> 'k \<Rightarrow> 'v \<Rightarrow> ('s \<times> bool) option"
    and delete :: "'s \<Rightarrow> 'k \<Rightarrow> ('s \<times> bool) option"
    and empty :: 's
    and invar :: "'s \<Rightarrow> bool"
    and abs :: "'s \<Rightarrow> 'c \<Rightarrow> 'v option"
    and canon :: "'k \<Rightarrow> 'c"
    and valid :: "'k \<Rightarrow> 'v \<Rightarrow> bool"
    and valid_key :: "'k \<Rightarrow> bool"
    and weight :: "'s \<Rightarrow> nat"
    and cost :: "'k \<Rightarrow> 'v \<Rightarrow> nat"
    and cap :: nat
  assumes empty_law: "invar empty" "abs empty = Map.empty"
    and update_law: "invar s \<Longrightarrow> valid k v \<Longrightarrow> weight s + cost k v < cap \<Longrightarrow>
      \<exists>s'. update s k v = Some (s', abs s (canon k) = None) \<and> invar s' \<and>
        abs s' = (abs s)(canon k \<mapsto> v) \<and> weight s' \<le> weight s + cost k v"
    and lookup_law: "invar s \<Longrightarrow> valid_key k \<Longrightarrow>
      \<exists>s'. lookup s k = Some (s', abs s (canon k)) \<and> invar s' \<and> abs s' = abs s"
    and delete_law: "invar s \<Longrightarrow> valid_key k \<Longrightarrow>
      \<exists>s'. delete s k = Some (s', abs s (canon k) \<noteq> None) \<and> invar s' \<and>
        abs s' = (abs s)(canon k := None)"
begin

definition total_cost :: "('k \<times> 'v) list \<Rightarrow> nat" where
  "total_cost kvs = sum_list (map (\<lambda>(k, v). cost k v) kvs)"

lemma update_all_law:
  "invar s \<Longrightarrow> \<forall>(k, v) \<in> set kvs. valid k v \<Longrightarrow> weight s + total_cost kvs < cap \<Longrightarrow>
     \<exists>s'. update_all update s kvs = Some s' \<and> invar s' \<and>
       abs s' = abs s ++ map_of (rev (map (\<lambda>(k, v). (canon k, v)) kvs))"
proof (induction kvs arbitrary: s)
  case (Cons kv kvs)
  obtain k v where kv: "kv = (k, v)" by (cases kv) auto
  have "weight s + cost k v < cap" "valid k v"
    using Cons.prems(2,3) kv by (auto simp: total_cost_def)
  from update_law [OF Cons.prems(1) this(2,1)] obtain s1 where
    s1: "update s k v = Some (s1, abs s (canon k) = None)" "invar s1"
      "abs s1 = (abs s)(canon k \<mapsto> v)" "weight s1 \<le> weight s + cost k v" by blast
  have "weight s1 + total_cost kvs < cap"
    using s1(4) Cons.prems(3) kv by (simp add: total_cost_def)
  from Cons.IH [OF s1(2) _ this] Cons.prems(2) obtain s' where
    "update_all update s1 kvs = Some s'" "invar s'"
    "abs s' = abs s1 ++ map_of (rev (map (\<lambda>(k, v). (canon k, v)) kvs))" by auto
  then show ?case using s1 kv by (simp add: map_add_upd_left map_add_def fun_eq_iff split: option.splits)
qed simp

text \<open>A lookup after any sequence of updates returns the last value given to the key.\<close>

lemma built_lookup:
  assumes "\<forall>(k, v) \<in> set kvs. valid k v" and "valid_key k"
    and "weight empty + total_cost kvs < cap"
  shows "\<exists>s s'. update_all update empty kvs = Some s \<and>
    lookup s k = Some (s', map_of (rev (map (\<lambda>(k, v). (canon k, v)) kvs)) (canon k))"
proof -
  from update_all_law [OF empty_law(1) assms(1,3)] obtain s where
    s: "update_all update empty kvs = Some s" "invar s"
      "abs s = map_of (rev (map (\<lambda>(k, v). (canon k, v)) kvs))"
    using empty_law(2) by auto
  with lookup_law [OF s(2) assms(2)] show ?thesis by auto
qed

lemma delete_then_lookup:
  assumes "invar s" and "valid_key k" and "valid_key k'"
  shows "\<exists>s1 s2 b. delete s k = Some (s1, b) \<and>
    lookup s1 k' = Some (s2, if canon k' = canon k then None else abs s (canon k'))"
proof -
  from delete_law [OF assms(1,2)] obtain s1 where
    s1: "delete s k = Some (s1, abs s (canon k) \<noteq> None)" "invar s1" "abs s1 = (abs s)(canon k := None)"
    by blast
  with lookup_law [OF s1(2) assms(3)] show ?thesis by auto
qed

end

end
