(* ===== verification/Util.thy ===== *)
theory Util
  imports RPrelude
begin

text \<open>
  Model of the number conversions of \<^verbatim>\<open>src/webserver/redis/src/util.c\<close>:
  \<^verbatim>\<open>ll2string\<close>, \<^verbatim>\<open>string2ll\<close>, \<^verbatim>\<open>string2l\<close> and \<^verbatim>\<open>memtoll\<close>. Strings are byte lists
  without the terminating NUL. The reference is \<open>dec_repr\<close>, the canonical decimal
  representation: \<open>ll2string\<close> writes it, and \<open>string2ll\<close> accepts a string if and only if
  it is the canonical representation of a number that fits a \<^verbatim>\<open>long long\<close>.
\<close>

section \<open>Characters\<close>

abbreviation ch_minus :: byte where "ch_minus \<equiv> 45"
abbreviation ch_zero :: byte where "ch_zero \<equiv> 48"
abbreviation ch_nine :: byte where "ch_nine \<equiv> 57"

definition isdigit :: "byte \<Rightarrow> bool" where
  "isdigit c \<longleftrightarrow> 48 \<le> c \<and> c \<le> 57"

definition isspace :: "byte \<Rightarrow> bool" where
  "isspace c \<longleftrightarrow> c = 32 \<or> 9 \<le> c \<and> c \<le> 13"

definition digit_val :: "byte \<Rightarrow> int" where
  "digit_val c = uint c - 48"

definition digit_char :: "int \<Rightarrow> byte" where
  "digit_char d = word_of_int (48 + d)"

text \<open>\<^verbatim>\<open>tolower\<close> and \<^verbatim>\<open>toupper\<close> of the C locale.\<close>

definition tolower :: "byte \<Rightarrow> byte" where
  "tolower c = (if 65 \<le> c \<and> c \<le> 90 then c + 32 else c)"

definition toupper :: "byte \<Rightarrow> byte" where
  "toupper c = (if 97 \<le> c \<and> c \<le> 122 then c - 32 else c)"

section \<open>ll2string\<close>

text \<open>
  The \<^verbatim>\<open>do .. while\<close> loop: \<open>acc\<close> is what stands in \<^verbatim>\<open>buf\<close> to the right of \<^verbatim>\<open>p\<close>.
\<close>

function ll_digits :: "int \<Rightarrow> byte list \<Rightarrow> byte list" where
  "ll_digits v acc =
     (let acc = digit_char (v mod 10) # acc; v' = v div 10
      in if v' \<le> 0 then acc else ll_digits v' acc)"
  by pat_completeness auto
termination
  by (relation "measure (\<lambda>(v, acc). nat v)") auto

declare ll_digits.simps [simp del]

text \<open>
  The result is the text written to \<^verbatim>\<open>s\<close> (without the NUL) and the return value is its
  length. Negating \<^verbatim>\<open>LLONG_MIN\<close> overflows, which C leaves undefined.
\<close>

definition ll2string :: "nat \<Rightarrow> int \<Rightarrow> byte list option" where
  "ll2string len value =
     (if len = 0 then Some []
      else do {
        require (value \<noteq> LLONG_MIN);
        v \<leftarrow> Some (to_u64 (if value < 0 then - value else value));
        p \<leftarrow> Some (ll_digits v []);
        p \<leftarrow> Some (if value < 0 then ch_minus # p else p);
        require (length p \<le> 32);
        l \<leftarrow> Some (if length p + 1 > len then len - 1 else length p);
        Some (take l p) })"

section \<open>string2ll\<close>

text \<open>
  The digit loop. \<open>None\<close> is the early return on overflow, \<open>Some (v, rest)\<close> the value and
  the characters left when the loop ends.
\<close>

fun string2ll_loop :: "int \<Rightarrow> byte list \<Rightarrow> (int \<times> byte list) option" where
  "string2ll_loop v [] = Some (v, [])"
| "string2ll_loop v (c # p) =
     (if isdigit c then
        if v > ULLONG_MAX div 10 then None
        else
          let v = to_u64 (v * 10) in
          if v > ULLONG_MAX - digit_val c then None
          else string2ll_loop (to_u64 (v + digit_val c)) p
      else Some (v, c # p))"

text \<open>\<open>None\<close> is the return value 0, \<open>Some v\<close> the return value 1 with \<^verbatim>\<open>*value = v\<close>.\<close>

definition string2ll :: "byte list \<Rightarrow> int option" where
  "string2ll s =
     (case s of
        [] \<Rightarrow> None
      | c0 # _ \<Rightarrow>
          if length s = 1 \<and> c0 = ch_zero then Some 0
          else
            let negative = (c0 = ch_minus); p = (if negative then tl s else s) in
            case p of
              [] \<Rightarrow> None
            | c # p' \<Rightarrow>
                if 49 \<le> c \<and> c \<le> 57 then
                  case string2ll_loop (digit_val c) p' of
                    None \<Rightarrow> None
                  | Some (v, rest) \<Rightarrow>
                      if rest \<noteq> [] then None
                      else if negative then
                        if v > to_u64 (- (LLONG_MIN + 1)) + 1 then None
                        else Some (to_s64 (to_u64 (- v)))
                      else if v > LLONG_MAX then None
                      else Some v
                else if c = ch_zero \<and> length s = 1 then Some 0
                else None)"

text \<open>\<open>lmin\<close> and \<open>lmax\<close> are the platform's \<^verbatim>\<open>LONG_MIN\<close> and \<^verbatim>\<open>LONG_MAX\<close>.\<close>

definition string2l :: "int \<Rightarrow> int \<Rightarrow> byte list \<Rightarrow> int option" where
  "string2l lmin lmax s =
     (case string2ll s of
        None \<Rightarrow> None
      | Some llval \<Rightarrow> if llval < lmin \<or> llval > lmax then None else Some llval)"

section \<open>The canonical decimal representation\<close>

fun dec_nat :: "nat \<Rightarrow> byte list" where
  "dec_nat n = (if n < 10 then [digit_char (int n)]
                else dec_nat (n div 10) @ [digit_char (int (n mod 10))])"

declare dec_nat.simps [simp del]

definition dec_repr :: "int \<Rightarrow> byte list" where
  "dec_repr v = (if v < 0 then ch_minus # dec_nat (nat (- v)) else dec_nat (nat v))"

definition dval :: "int \<Rightarrow> byte list \<Rightarrow> int" where
  "dval v s = foldl (\<lambda>a c. 10 * a + digit_val c) v s"

lemma dval_simps [simp]:
  "dval v [] = v" "dval v (c # s) = dval (10 * v + digit_val c) s"
  "dval v (s @ t) = dval (dval v s) t"
  by (simp_all add: dval_def)

lemma uint_digit_char: "0 \<le> d \<Longrightarrow> d \<le> 9 \<Longrightarrow> uint (digit_char d) = 48 + d"
  unfolding digit_char_def by (subst uint_word_of_int) simp

lemma digit_val_char: "0 \<le> d \<Longrightarrow> d \<le> 9 \<Longrightarrow> digit_val (digit_char d) = d"
  by (simp add: digit_val_def uint_digit_char)

lemma isdigit_char: "0 \<le> d \<Longrightarrow> d \<le> 9 \<Longrightarrow> isdigit (digit_char d)"
  by (simp add: isdigit_def word_le_def uint_digit_char)

lemma isdigit_val: "isdigit c \<Longrightarrow> 0 \<le> digit_val c \<and> digit_val c \<le> 9"
  by (simp add: isdigit_def digit_val_def word_le_def)

lemma digit_char_val: "digit_char (digit_val c) = c"
  by (simp add: digit_val_def digit_char_def)

lemma digit_val_zero_iff: "digit_val c = 0 \<longleftrightarrow> c = ch_zero"
proof
  assume "digit_val c = 0"
  then have "digit_char (digit_val c) = digit_char 0" by simp
  then show "c = ch_zero" by (simp add: digit_char_val) (simp add: digit_char_def)
qed (simp add: digit_val_def)

lemma dec_nat_digits: "list_all isdigit (dec_nat n)"
proof (induction n rule: dec_nat.induct)
  case (1 n)
  then show ?case
    by (subst dec_nat.simps) (auto intro: isdigit_char)
qed

lemma dec_nat_dval: "dval 0 (dec_nat n) = int n"
proof (induction n rule: dec_nat.induct)
  case (1 n)
  show ?case
  proof (cases "n < 10")
    case True
    then show ?thesis
      by (subst dec_nat.simps) (simp add: digit_val_char)
  next
    case False
    with 1 have "dval 0 (dec_nat (n div 10)) = int (n div 10)" by simp
    with False show ?thesis
      by (subst dec_nat.simps) (simp add: digit_val_char, presburger)
  qed
qed

lemma dec_nat_nonempty [simp]: "dec_nat n \<noteq> []"
  by (subst dec_nat.simps) simp

lemma dec_nat_hd: "0 < n \<Longrightarrow> hd (dec_nat n) \<noteq> ch_zero"
proof (induction n rule: dec_nat.induct)
  case (1 n)
  show ?case
  proof (cases "n < 10")
    case True
    with "1.prems" have "digit_val (digit_char (int n)) \<noteq> 0"
      by (simp add: digit_val_char)
    with True show ?thesis
      by (subst dec_nat.simps) (auto simp: digit_val_zero_iff)
  next
    case False
    then have "0 < n div 10" by linarith
    with 1 False show ?thesis
      by (subst dec_nat.simps) (simp add: hd_append)
  qed
qed

lemma dval_mono: "list_all isdigit s \<Longrightarrow> 0 \<le> v \<Longrightarrow> v \<le> dval v s"
proof (induction s arbitrary: v)
  case (Cons c s)
  have "v \<le> 10 * v + digit_val c" "0 \<le> 10 * v + digit_val c"
    using Cons.prems isdigit_val [of c] by auto
  with Cons show ?case by fastforce
qed simp

text \<open>A digit string without a leading zero is the representation of its value.\<close>

lemma dec_nat_unique:
  assumes "list_all isdigit (c # s)" and "c \<noteq> ch_zero"
  shows "dec_nat (nat (dval 0 (c # s))) = c # s"
  using assms(1)
proof (induction s rule: rev_induct)
  case Nil
  then have "0 \<le> digit_val c" "digit_val c \<le> 9"
    using isdigit_val [of c] by auto
  then show ?case
    by (subst dec_nat.simps) (simp add: digit_char_val)
next
  case (snoc d s)
  let ?v = "dval 0 (c # s)"
  have d: "0 \<le> digit_val d" "digit_val d \<le> 9"
    and IH: "dec_nat (nat ?v) = c # s"
    using snoc isdigit_val [of d] by auto
  have "0 < digit_val c"
    using snoc.prems assms(2) isdigit_val [of c] digit_val_zero_iff [of c] by auto
  then have v: "0 < ?v"
    using dval_mono [of s "digit_val c"] snoc.prems by simp
  have "nat (dval 0 (c # s @ [d])) = 10 * nat ?v + nat (digit_val d)"
    using v d by (simp add: nat_add_distrib nat_mult_distrib)
  moreover have "(10 * nat ?v + nat (digit_val d)) div 10 = nat ?v"
    "(10 * nat ?v + nat (digit_val d)) mod 10 = nat (digit_val d)"
    using d by auto
  moreover have "\<not> 10 * nat ?v + nat (digit_val d) < 10"
    using v by linarith
  ultimately show ?case
    using IH d by (subst dec_nat.simps) (simp add: digit_char_val)
qed

section \<open>Correctness of the loops\<close>

lemma string2ll_loop_correct:
  assumes "0 \<le> v" and "v \<le> ULLONG_MAX"
  shows "string2ll_loop v s = Some (v', []) \<longleftrightarrow>
           list_all isdigit s \<and> v' = dval v s \<and> dval v s \<le> ULLONG_MAX"
  using assms
proof (induction s arbitrary: v)
  case (Cons c s)
  show ?case
  proof (cases "isdigit c")
    case True
    let ?d = "digit_val c"
    have d: "0 \<le> ?d" "?d \<le> 9"
      using isdigit_val [OF True] by simp_all
    show ?thesis
    proof (cases "10 * v + ?d \<le> ULLONG_MAX")
      case fits: True
      then have "\<not> v > ULLONG_MAX div 10" and "to_u64 (v * 10) = v * 10"
        and "\<not> v * 10 > ULLONG_MAX - ?d" and "to_u64 (v * 10 + ?d) = 10 * v + ?d"
        using Cons.prems d by (auto simp: ULLONG_MAX_def)
      then have "string2ll_loop v (c # s) = string2ll_loop (10 * v + ?d) s"
        using True by (simp add: Let_def)
      then show ?thesis
        using Cons.IH [of "10 * v + ?d"] fits Cons.prems d True by simp
    next
      case over: False
      have "string2ll_loop v (c # s) = None"
      proof (cases "v > ULLONG_MAX div 10")
        case False
        then have "to_u64 (v * 10) = v * 10" and "v * 10 > ULLONG_MAX - ?d"
          using Cons.prems over by (auto simp: ULLONG_MAX_def)
        then show ?thesis
          using True False by (simp add: Let_def)
      qed (use True in simp)
      moreover have "dval v (c # s) > ULLONG_MAX" if "list_all isdigit s"
        using dval_mono [OF that, of "10 * v + ?d"] over Cons.prems d by simp
      ultimately show ?thesis by auto
    qed
  qed simp
qed auto

lemma ll_digits_dec_nat: "0 \<le> v \<Longrightarrow> ll_digits v acc = dec_nat (nat v) @ acc"
proof (induction v acc rule: ll_digits.induct)
  case (1 v acc)
  have m: "int (nat v mod 10) = v mod 10" "nat v div 10 = nat (v div 10)"
    using "1.prems" by (simp_all add: zmod_int nat_div_distrib)
  show ?case
  proof (cases "v < 10")
    case True
    then have "nat v < 10" by linarith
    with True show ?thesis
      using "1.prems" by (subst ll_digits.simps, subst dec_nat.simps) simp
  next
    case False
    then have "ll_digits (v div 10) (digit_char (v mod 10) # acc) =
        dec_nat (nat (v div 10)) @ digit_char (v mod 10) # acc"
      using 1 by simp
    moreover have "dec_nat (nat v) = dec_nat (nat (v div 10)) @ [digit_char (v mod 10)]"
      using False m by (subst dec_nat.simps) simp
    ultimately show ?thesis
      using False by (subst ll_digits.simps) (simp add: Let_def)
  qed
qed

lemma length_dec_nat: "n < 10 ^ k \<Longrightarrow> 0 < k \<Longrightarrow> length (dec_nat n) \<le> k"
proof (induction k arbitrary: n)
  case (Suc k)
  show ?case
  proof (cases "n < 10")
    case True
    then show ?thesis by (subst dec_nat.simps) simp
  next
    case False
    with Suc.prems have "n div 10 < 10 ^ k" and "0 < k"
      by (auto intro: gr0I)
    with Suc.IH [of "n div 10"] False show ?thesis
      by (subst dec_nat.simps) simp
  qed
qed simp

lemma length_dec_repr: "LLONG_MIN \<le> v \<Longrightarrow> v \<le> LLONG_MAX \<Longrightarrow> length (dec_repr v) \<le> 20"
proof -
  assume v: "LLONG_MIN \<le> v" "v \<le> LLONG_MAX"
  then have "nat v < 10 ^ 19" "nat (- v) < 10 ^ 19"
    by (auto simp: c_limits)
  then have "length (dec_nat (nat v)) \<le> 19" "length (dec_nat (nat (- v))) \<le> 19"
    by (auto intro: length_dec_nat)
  then show ?thesis
    by (auto simp: dec_repr_def)
qed

lemma ll2string_dec_repr:
  assumes "LLONG_MIN < val" and "val \<le> LLONG_MAX"
  shows "ll2string len val = Some (take (len - 1) (dec_repr val))"
proof (cases "len = 0")
  case False
  have "to_u64 (if val < 0 then - val else val) = \<bar>val\<bar>"
    using assms by (auto simp: c_limits)
  moreover have "length (dec_repr val) \<le> 32"
    using length_dec_repr [of val] assms by simp
  ultimately show ?thesis
    using False assms
    by (auto simp: ll2string_def ll_digits_dec_nat dec_repr_def require_def not_less
        min_def simp flip: nat_minus_as_int)
qed (simp add: ll2string_def)

lemma leading_digit: "49 \<le> c \<and> c \<le> 57 \<longleftrightarrow> isdigit c \<and> c \<noteq> ch_zero"
proof -
  have "c = ch_zero \<longleftrightarrow> uint c = 48"
    by (simp add: word_uint_eq_iff)
  then show ?thesis
    by (auto simp: isdigit_def word_le_def)
qed

lemma string2ll_loop_dec_nat:
  assumes "49 \<le> c \<and> c \<le> 57"
  shows "string2ll_loop (digit_val c) p = Some (n, []) \<longleftrightarrow>
           0 < n \<and> n \<le> ULLONG_MAX \<and> c # p = dec_nat (nat n)"
proof -
  have c: "isdigit c" "c \<noteq> ch_zero"
    using assms by (simp_all add: leading_digit)
  have d: "0 < digit_val c" "digit_val c \<le> ULLONG_MAX" "digit_val c \<le> 9"
    using c isdigit_val [of c] digit_val_zero_iff [of c] by (auto simp: ULLONG_MAX_def)
  have loop: "string2ll_loop (digit_val c) p = Some (n, []) \<longleftrightarrow>
      list_all isdigit p \<and> n = dval 0 (c # p) \<and> n \<le> ULLONG_MAX"
    using string2ll_loop_correct [of "digit_val c" p n] d by auto
  show ?thesis
  proof
    assume l: "string2ll_loop (digit_val c) p = Some (n, [])"
    then have "list_all isdigit (c # p)" and n: "n = dval 0 (c # p)" and "n \<le> ULLONG_MAX"
      using loop c by auto
    moreover have "0 < n"
      using n dval_mono [of p "digit_val c"] d l loop by simp
    ultimately show "0 < n \<and> n \<le> ULLONG_MAX \<and> c # p = dec_nat (nat n)"
      using dec_nat_unique [of c p] c by simp
  next
    assume r: "0 < n \<and> n \<le> ULLONG_MAX \<and> c # p = dec_nat (nat n)"
    then have "list_all isdigit (c # p)" and "dval 0 (c # p) = n"
      using dec_nat_digits [of "nat n"] dec_nat_dval [of "nat n"] by simp_all
    then have "list_all isdigit p" and "n = dval 0 (c # p)"
      by simp_all
    moreover have "n \<le> ULLONG_MAX" using r by blast
    ultimately show "string2ll_loop (digit_val c) p = Some (n, [])"
      using loop by blast
  qed
qed

lemma dec_nat_pos_Cons: "0 < n \<Longrightarrow> \<exists>c p. dec_nat n = c # p \<and> 49 \<le> c \<and> c \<le> 57"
  using dec_nat_digits [of n] dec_nat_hd [of n] leading_digit
  by (cases "dec_nat n") auto

lemma dec_nat_0: "dec_nat 0 = [ch_zero]"
  by (subst dec_nat.simps) (simp add: digit_char_def)

lemma dec_nat_zero_iff: "dec_nat n = [ch_zero] \<longleftrightarrow> n = 0"
  using dec_nat_dval [of n] dec_nat_0 digit_val_zero_iff by force

lemma string2ll_negative:
  "string2ll (ch_minus # p) = Some v \<longleftrightarrow> v < 0 \<and> LLONG_MIN \<le> v \<and> p = dec_nat (nat (- v))"
proof (cases p)
  case (Cons c p')
  show ?thesis
  proof (cases "49 \<le> c \<and> c \<le> 57")
    case True
    have "string2ll (ch_minus # p) = Some v \<longleftrightarrow>
        (\<exists>n. string2ll_loop (digit_val c) p' = Some (n, []) \<and> n \<le> 2 ^ 63 \<and>
          v = to_s64 (to_u64 (- n)))"
      using Cons True
      by (auto simp: string2ll_def LLONG_MIN_def split: option.splits if_splits)
    also have "\<dots> \<longleftrightarrow> (\<exists>n. 0 < n \<and> n \<le> 2 ^ 63 \<and> p = dec_nat (nat n) \<and> v = - n)"
    proof -
      have "to_s64 (to_u64 (- n)) = - n" if "0 < n" "n \<le> 2 ^ 63" for n
        using that by (simp add: to_s64_def to_u64_def mod_simps)
      then show ?thesis
        by (auto simp: string2ll_loop_dec_nat [OF True] Cons ULLONG_MAX_def)
    qed
    also have "\<dots> \<longleftrightarrow> v < 0 \<and> LLONG_MIN \<le> v \<and> p = dec_nat (nat (- v))"
      by (auto simp: LLONG_MIN_def intro!: exI [of _ "- v"])
    finally show ?thesis .
  next
    case False
    then have "string2ll (ch_minus # p) = None"
      using Cons by (auto simp: string2ll_def Let_def)
    moreover have "p \<noteq> dec_nat (nat (- v))" if "v < 0"
      using dec_nat_pos_Cons [of "nat (- v)"] that False Cons by auto
    ultimately show ?thesis by auto
  qed
qed (simp add: string2ll_def dec_nat_nonempty [symmetric] del: dec_nat_nonempty)

lemma string2ll_positive:
  assumes "c \<noteq> ch_minus"
  shows "string2ll (c # p) = Some v \<longleftrightarrow> 0 \<le> v \<and> v \<le> LLONG_MAX \<and> c # p = dec_nat (nat v)"
proof (cases "49 \<le> c \<and> c \<le> 57")
  case True
  then have nz: "c \<noteq> ch_zero"
    by (simp add: leading_digit)
  have "string2ll (c # p) = Some v \<longleftrightarrow>
      string2ll_loop (digit_val c) p = Some (v, []) \<and> v \<le> LLONG_MAX"
    using True assms nz
    by (auto simp: string2ll_def Let_def split: option.splits if_splits)
  moreover have "v \<noteq> 0" if "c # p = dec_nat (nat v)"
    using that nz dec_nat_0 by auto
  ultimately show ?thesis
    by (auto simp: string2ll_loop_dec_nat [OF True] c_limits)
next
  case False
  have nd: "c # p = dec_nat (nat v) \<longleftrightarrow> nat v = 0 \<and> c = ch_zero \<and> p = []"
    using dec_nat_pos_Cons [of "nat v"] dec_nat_0 False by (cases "nat v = 0") auto
  have "string2ll (c # p) = Some v \<longleftrightarrow> c = ch_zero \<and> p = [] \<and> v = 0"
    using assms False by (auto simp: string2ll_def Let_def)
  then show ?thesis
    using nd by (auto simp: c_limits)
qed

lemma string2ll_dec_repr:
  "string2ll s = Some v \<longleftrightarrow> LLONG_MIN \<le> v \<and> v \<le> LLONG_MAX \<and> s = dec_repr v"
proof (cases s)
  case Nil
  then show ?thesis
    using dec_nat_nonempty by (auto simp: string2ll_def dec_repr_def dest: sym)
next
  case (Cons c p)
  have digit: "dec_nat n \<noteq> ch_minus # q" for n q
    using dec_nat_digits [of n] by (auto simp: isdigit_def)
  show ?thesis
  proof (cases "c = ch_minus")
    case True
    then show ?thesis
      using string2ll_negative [of p v] digit [of "nat v" p] Cons
      by (auto simp: dec_repr_def c_limits)
  next
    case False
    then show ?thesis
      using string2ll_positive [OF False, of p v] Cons
      by (auto simp: dec_repr_def c_limits)
  qed
qed

section \<open>memtoll\<close>

text \<open>
  \<^verbatim>\<open>strcasecmp(u, lit) == 0\<close>, and \<^verbatim>\<open>strtoll\<close> on a buffer that holds an optional minus
  sign followed by digits only: it converts the digits and clamps the result.
\<close>

definition strcaseeq :: "byte list \<Rightarrow> byte list \<Rightarrow> bool" where
  "strcaseeq s t \<longleftrightarrow> map tolower s = map tolower t"

definition strtoll_digits :: "byte list \<Rightarrow> int" where
  "strtoll_digits buf =
     (let neg = (buf \<noteq> [] \<and> hd buf = ch_minus);
          n = dval 0 (if neg then tl buf else buf);
          v = (if neg then - n else n)
      in max LLONG_MIN (min LLONG_MAX v))"

text \<open>
  The result is the returned number and the final \<^verbatim>\<open>*err\<close>. The product of the number and
  its unit can overflow, which C leaves undefined.
\<close>

definition memtoll :: "byte list \<Rightarrow> (int \<times> bool) option" where
  "memtoll p =
     (let sign = (if p \<noteq> [] \<and> hd p = ch_minus then 1 else 0);
          ndig = length (takeWhile isdigit (drop sign p));
          u = drop (sign + ndig) p;
          unit = (if u = [] \<or> strcaseeq u [98] then Some 1
                  else if strcaseeq u [107] then Some 1000
                  else if strcaseeq u [107, 98] then Some 1024
                  else if strcaseeq u [109] then Some (1000 * 1000)
                  else if strcaseeq u [109, 98] then Some (1024 * 1024)
                  else if strcaseeq u [103] then Some (1000 * 1000 * 1000)
                  else if strcaseeq u [103, 98] then Some (1024 * 1024 * 1024)
                  else None);
          err = (unit = None);
          mul = (case unit of None \<Rightarrow> 1 | Some m \<Rightarrow> m);
          digits = sign + ndig
      in if digits \<ge> 128 then Some (LLONG_MAX, True)
         else
           let val = strtoll_digits (take digits p) in
           do { require (LLONG_MIN \<le> val * mul \<and> val * mul \<le> LLONG_MAX);
                Some (val * mul, err) })"

section \<open>Properties\<close>

text \<open>C28: \<open>string2ll\<close> accepts exactly the canonical decimal representations of the numbers
  that fit a \<open>long long\<close>, and returns the number: no leading zeros, no plus sign, no
  blanks, no overflow, and nothing that \<open>ll2string\<close> would print differently.\<close>

theorem string2ll_canonical:
  "string2ll s = Some v \<longleftrightarrow> LLONG_MIN \<le> v \<and> v \<le> LLONG_MAX \<and> s = dec_repr v"
  by (rule string2ll_dec_repr)

text \<open>C29: Printing any \<open>long long\<close> but the least into a buffer of at least 22 bytes stays
  inside the internal 32-byte buffer, and \<open>string2ll\<close> reads the number back.\<close>

theorem ll2string_string2ll:
  assumes "LLONG_MIN < v" and "v \<le> LLONG_MAX" and "22 \<le> len"
  shows "\<exists>s. ll2string len v = Some s \<and> length s \<le> 20 \<and> string2ll s = Some v"
proof -
  have l: "length (dec_repr v) \<le> 20"
    using assms by (intro length_dec_repr) simp_all
  then have "ll2string len v = Some (dec_repr v)"
    using ll2string_dec_repr [OF assms(1,2), of len] assms(3) by simp
  then show ?thesis
    using l assms by (simp add: string2ll_dec_repr)
qed

theorem ll2string_string2ll_witness:
  "\<exists>s. ll2string 32 (- 1024) = Some s \<and> length s \<le> 20 \<and> string2ll s = Some (- 1024)"
  using ll2string_string2ll [of "- 1024" 32] by (simp add: c_limits)

text \<open>Printing the least \<open>long long\<close> negates it, which overflows: the behaviour of
  \<open>ll2string\<close> is undefined there, although \<open>string2ll\<close> accepts its representation.\<close>

theorem ll2string_LLONG_MIN:
  "ll2string 32 LLONG_MIN = None \<and> string2ll (dec_repr LLONG_MIN) = Some LLONG_MIN"
  by (simp add: ll2string_def require_def string2ll_dec_repr) (simp add: c_limits)

text \<open>The example of the comment above \<^verbatim>\<open>memtoll\<close> (``1Gi is 1024*1024*1024'') is not
  accepted: the unit is unknown and the error flag is set. The accepted spelling is gb.\<close>

lemma memtoll_1Gi: "memtoll [49, 71, 105] = Some (1, True)"
  by (simp add: memtoll_def isdigit_def strcaseeq_def tolower_def strtoll_digits_def
      digit_val_def require_def c_limits)

lemma memtoll_1gb: "memtoll [49, 103, 98] = Some (1024 * 1024 * 1024, False)"
  by (simp add: memtoll_def isdigit_def strcaseeq_def tolower_def strtoll_digits_def
      digit_val_def require_def c_limits)

end
