(* ===== verification/Glob.thy ===== *)
theory Glob
  imports Util
begin

text \<open>
  The glob matcher \<open>stringmatchlen\<close> of \<^verbatim>\<open>src/webserver/redis/src/util.c\<close>, behind
  \<^verbatim>\<open>KEYS\<close>, \<^verbatim>\<open>PSUBSCRIBE\<close> and \<^verbatim>\<open>CONFIG GET\<close>. Pattern and string are blocks with checked
  reads, the two pointers are offsets, and the two lengths are integers, since the C code can
  drive both below zero. Moving a pointer beyond one past the end of its block is undefined.
  The parameter \<open>sg\<close> says whether \<^verbatim>\<open>char\<close> is signed on the host.

  The specification parses a pattern into tokens and matches those. The main theorem shows
  that the C code implements it, but for an empty string and a first token that accepts the NUL
  byte behind it; the last lemmas show what the code does there, and on the patterns that have
  no tokens.
\<close>

section \<open>The program\<close>

definition char_int :: "bool \<Rightarrow> byte \<Rightarrow> int" where
  "char_int sg c = (if sg then sint c else uint c)"

definition tolower_int :: "int \<Rightarrow> int" where
  "tolower_int c = (if 65 \<le> c \<and> c \<le> 90 then c + 32 else c)"

text \<open>\<^verbatim>\<open>while (pattern[1] == '*')\<close>\<close>

function star_run :: "byte list \<Rightarrow> nat \<Rightarrow> int \<Rightarrow> (nat \<times> int) option" where
  "star_run pat pi plen =
     (case mem_byte pat (pi + 1) of
        None \<Rightarrow> None
      | Some c \<Rightarrow> if c = 42 then star_run pat (pi + 1) (plen - 1) else Some (pi, plen))"
  by pat_completeness auto
termination
  by (relation "measure (\<lambda>(pat, pi, plen). length pat - pi)") (auto simp: mem_byte_def split: if_splits)

text \<open>\<^verbatim>\<open>while (*pattern == '*')\<close>\<close>

function skip_stars :: "byte list \<Rightarrow> nat \<Rightarrow> int \<Rightarrow> (nat \<times> int) option" where
  "skip_stars pat pi plen =
     (case mem_byte pat pi of
        None \<Rightarrow> None
      | Some c \<Rightarrow> if c = 42 then skip_stars pat (pi + 1) (plen - 1) else Some (pi, plen))"
  by pat_completeness auto
termination
  by (relation "measure (\<lambda>(pat, pi, plen). length pat - pi)") (auto simp: mem_byte_def split: if_splits)

text \<open>\<^verbatim>\<open>pattern[1] == '-' && patternLen >= 3\<close>\<close>

definition at_range :: "byte list \<Rightarrow> nat \<Rightarrow> int \<Rightarrow> bool option" where
  "at_range pat pi plen = do { d \<leftarrow> mem_byte pat (pi + 1); Some (d = 45 \<and> plen \<ge> 3) }"

definition range_match :: "bool \<Rightarrow> bool \<Rightarrow> byte \<Rightarrow> byte \<Rightarrow> byte \<Rightarrow> bool" where
  "range_match sg nocase a b ch =
     (let start = char_int sg a; en = char_int sg b; c = char_int sg ch;
          (start, en) = (if start > en then (en, start) else (start, en));
          (start, en, c) = (if nocase then (tolower_int start, tolower_int en, tolower_int c)
                            else (start, en, c))
      in c \<ge> start \<and> c \<le> en)"

definition char_match :: "bool \<Rightarrow> bool \<Rightarrow> byte \<Rightarrow> byte \<Rightarrow> bool" where
  "char_match sg nocase a ch =
     (if \<not> nocase then a = ch
      else tolower_int (char_int sg a) = tolower_int (char_int sg ch))"

text \<open>The loop over a character class, from behind \<^verbatim>\<open>[\<close> or \<^verbatim>\<open>[^\<close>.\<close>

function class_loop ::
  "bool \<Rightarrow> byte list \<Rightarrow> nat \<Rightarrow> int \<Rightarrow> byte list \<Rightarrow> nat \<Rightarrow> bool \<Rightarrow> bool \<Rightarrow> (nat \<times> int \<times> bool) option"
where
  "class_loop sg pat pi plen str si nocase mat =
     (case mem_byte pat pi of
        None \<Rightarrow> None
      | Some c \<Rightarrow>
          if c = 92 then
            (case (mem_byte pat (pi + 1), mem_byte str si) of
               (Some a, Some ch) \<Rightarrow>
                 class_loop sg pat (pi + 2) (plen - 2) str si nocase (mat \<or> a = ch)
             | _ \<Rightarrow> None)
          else if c = 93 then Some (pi, plen, mat)
          else if plen = 0 then (if pi = 0 then None else Some (pi - 1, plen + 1, mat))
          else
            (case at_range pat pi plen of
               None \<Rightarrow> None
             | Some True \<Rightarrow>
                 (case (mem_byte pat (pi + 2), mem_byte str si) of
                    (Some b, Some ch) \<Rightarrow>
                      class_loop sg pat (pi + 3) (plen - 3) str si nocase
                        (mat \<or> range_match sg nocase c b ch)
                  | _ \<Rightarrow> None)
             | Some False \<Rightarrow>
                 (case mem_byte str si of
                    None \<Rightarrow> None
                  | Some ch \<Rightarrow>
                      class_loop sg pat (pi + 1) (plen - 1) str si nocase
                        (mat \<or> char_match sg nocase c ch))))"
  by pat_completeness auto
termination
  by (relation "measure (\<lambda>(sg, pat, pi, plen, str, si, nocase, mat). length pat - pi)")
    (auto simp: mem_byte_def split: if_splits)

declare star_run.simps [simp del] skip_stars.simps [simp del] class_loop.simps [simp del]

text \<open>
  The switch, all cases but \<^verbatim>\<open>*\<close>, up to the advance of the pattern: \<open>NoMatch\<close> for
  \<^verbatim>\<open>return 0\<close>, or the new pointers and lengths.
\<close>

datatype one_result = NoMatch | Advance nat int nat int

definition glob_class ::
  "bool \<Rightarrow> byte list \<Rightarrow> nat \<Rightarrow> int \<Rightarrow> byte list \<Rightarrow> nat \<Rightarrow> int \<Rightarrow> bool \<Rightarrow> one_result option"
where
  "glob_class sg pat pi plen str si slen nocase =
     do { c \<leftarrow> mem_byte pat (pi + 1);
          neg \<leftarrow> Some (c = 94);
          (pi, plen) \<leftarrow> Some (if neg then (pi + 2, plen - 2) else (pi + 1, plen - 1));
          (pi, plen, mat) \<leftarrow> class_loop sg pat pi plen str si nocase False;
          if (if neg then mat else \<not> mat) then Some NoMatch
          else do { require (si < length str); Some (Advance pi plen (si + 1) (slen - 1)) } }"

definition glob_literal ::
  "bool \<Rightarrow> byte list \<Rightarrow> nat \<Rightarrow> int \<Rightarrow> byte list \<Rightarrow> nat \<Rightarrow> int \<Rightarrow> bool \<Rightarrow> one_result option"
where
  "glob_literal sg pat pi plen str si slen nocase =
     do { a \<leftarrow> mem_byte pat pi;
          ch \<leftarrow> mem_byte str si;
          if \<not> char_match sg nocase a ch then Some NoMatch
          else Some (Advance pi plen (si + 1) (slen - 1)) }"

definition glob_one ::
  "bool \<Rightarrow> byte list \<Rightarrow> nat \<Rightarrow> int \<Rightarrow> byte list \<Rightarrow> nat \<Rightarrow> int \<Rightarrow> bool \<Rightarrow> one_result option"
where
  "glob_one sg pat pi plen str si slen nocase =
     do { c \<leftarrow> mem_byte pat pi;
          if c = 63 then
            (if slen = 0 then Some NoMatch
             else do { require (si < length str); Some (Advance pi plen (si + 1) (slen - 1)) })
          else if c = 91 then glob_class sg pat pi plen str si slen nocase
          else if c = 92 \<and> plen \<ge> 2 then
            glob_literal sg pat (pi + 1) (plen - 1) str si slen nocase
          else glob_literal sg pat pi plen str si slen nocase }"

lemma class_loop_mono:
  "class_loop sg pat pi plen str si nocase mat = Some (pi', plen', mat') \<Longrightarrow> pi \<le> pi' + 1"
proof (induction "length pat - pi" arbitrary: pi plen mat rule: less_induct)
  case less
  have IH: "pi \<le> Suc pi'"
    if "class_loop sg pat p2 q str si nocase m = Some (pi', plen', mat')" "pi < p2" "pi < length pat"
    for p2 q m
    using less.hyps [OF _ that(1)] that(2,3) by linarith
  show ?case
  proof (cases "mem_byte pat pi")
    case None
    then show ?thesis using less.prems by (simp add: class_loop.simps [of sg pat pi])
  next
    case (Some c)
    then have "pi < length pat" by (simp add: mem_byte_def split: if_splits)
    with Some show ?thesis
      using less.prems unfolding class_loop.simps [of sg pat pi]
      by (auto split: option.split_asm if_split_asm bool.split_asm dest: IH)
  qed
qed

lemma star_run_mono: "star_run pat pi plen = Some (pi', plen') \<Longrightarrow> pi \<le> pi' \<and> pi' < length pat"
proof (induction "length pat - pi" arbitrary: pi plen rule: less_induct)
  case less
  show ?case
  proof (cases "mem_byte pat (pi + 1)")
    case None
    then show ?thesis using less.prems by (simp add: star_run.simps [of pat pi])
  next
    case (Some c)
    then have "pi + 1 < length pat" by (simp add: mem_byte_def split: if_splits)
    with Some show ?thesis
      using less.prems less.hyps [of "pi + 1" "plen - 1"] \<open>pi + 1 < length pat\<close>
      by (fastforce simp: star_run.simps [of pat pi] split: if_split_asm)
  qed
qed

lemma glob_one_mono:
  "glob_one sg pat pi plen str si slen nocase = Some (Advance pi' plen' si' slen') \<Longrightarrow>
     pi \<le> pi' \<and> pi < length pat"
  by (auto simp: glob_one_def glob_class_def glob_literal_def bind_Some_iff mem_byte_def
      split: if_splits dest!: class_loop_mono)

text \<open>
  The outer loop, and the loop of the case \<^verbatim>\<open>*\<close> over the suffixes of the string. The
  latter needs a valid pointer behind the star.
\<close>

function (sequential) glob ::
    "bool \<Rightarrow> byte list \<Rightarrow> nat \<Rightarrow> int \<Rightarrow> byte list \<Rightarrow> nat \<Rightarrow> int \<Rightarrow> bool \<Rightarrow> bool option"
  and glob_star ::
    "bool \<Rightarrow> byte list \<Rightarrow> nat \<Rightarrow> int \<Rightarrow> byte list \<Rightarrow> nat \<Rightarrow> int \<Rightarrow> bool \<Rightarrow> bool option"
where
  "glob sg pat pi plen str si slen nocase =
     (if plen = 0 then Some (plen = 0 \<and> slen = 0)
      else
        (case mem_byte pat pi of
           None \<Rightarrow> None
         | Some c \<Rightarrow>
             if c = 42 then
               (case star_run pat pi plen of
                  None \<Rightarrow> None
                | Some (pi', plen') \<Rightarrow>
                    if plen' = 1 then Some True
                    else glob_star sg pat pi' plen' str si slen nocase)
             else
               (case glob_one sg pat pi plen str si slen nocase of
                  None \<Rightarrow> None
                | Some NoMatch \<Rightarrow> Some False
                | Some (Advance pi' plen' si' slen') \<Rightarrow>
                    if slen' = 0 then
                      (case skip_stars pat (pi' + 1) (plen' - 1) of
                         None \<Rightarrow> None
                       | Some (pi'', plen'') \<Rightarrow> Some (plen'' = 0 \<and> slen' = 0))
                    else glob sg pat (pi' + 1) (plen' - 1) str si' slen' nocase)))"
| "glob_star sg pat pi plen str si slen nocase =
     (if slen = 0 then Some False
      else if length pat \<le> pi then None
      else
        (case glob sg pat (pi + 1) (plen - 1) str si slen nocase of
           None \<Rightarrow> None
         | Some True \<Rightarrow> Some True
         | Some False \<Rightarrow>
             if si < length str then glob_star sg pat pi plen str (si + 1) (slen - 1) nocase
             else None))"
  by pat_completeness auto
termination
  by (relation "measures [
      (\<lambda>x. case x of Inl (sg, pat, pi, plen, str, si, slen, nocase) \<Rightarrow> length pat - pi
                  | Inr (sg, pat, pi, plen, str, si, slen, nocase) \<Rightarrow> length pat - pi),
      (\<lambda>x. case x of Inl _ \<Rightarrow> 1 | Inr _ \<Rightarrow> 0),
      (\<lambda>x. case x of Inl _ \<Rightarrow> 0
                  | Inr (sg, pat, pi, plen, str, si, slen, nocase) \<Rightarrow> length str - si)]")
    (auto dest!: star_run_mono glob_one_mono)

declare glob.simps [simp del] glob_star.simps [simp del]

definition stringmatchlen :: "bool \<Rightarrow> byte list \<Rightarrow> int \<Rightarrow> byte list \<Rightarrow> int \<Rightarrow> bool \<Rightarrow> bool option" where
  "stringmatchlen sg pat plen str slen nocase = glob sg pat 0 plen str 0 slen nocase"

text \<open>\<^verbatim>\<open>strlen\<close> of a block.\<close>

definition c_strlen :: "byte list \<Rightarrow> nat option" where
  "c_strlen b = (if 0 \<in> set b then Some (length (takeWhile (\<lambda>c. c \<noteq> 0) b)) else None)"

definition stringmatch :: "bool \<Rightarrow> byte list \<Rightarrow> byte list \<Rightarrow> bool \<Rightarrow> bool option" where
  "stringmatch sg pat str nocase =
     do { pl \<leftarrow> c_strlen pat; sl \<leftarrow> c_strlen str;
          stringmatchlen sg pat (int pl) str (int sl) nocase }"

section \<open>The specification\<close>

datatype item = Exact byte | Char byte | Range byte byte
datatype tok = Star | Any | Lit byte | Class bool "item list"

text \<open>The items of a class and the pattern behind its closing bracket. A class that is not
  closed ends with the pattern; one that ends in a backslash has no meaning.\<close>

fun items :: "byte list \<Rightarrow> (item list \<times> byte list) option" where
  "items [] = Some ([], [])"
| "items (c # p) =
     (if c = 92 then
        (case p of [] \<Rightarrow> None | a # q \<Rightarrow> map_option (\<lambda>(is, r). (Exact a # is, r)) (items q))
      else if c = 93 then Some ([], p)
      else
        (case p of
           d # b # q \<Rightarrow>
             if d = 45 then map_option (\<lambda>(is, r). (Range c b # is, r)) (items q)
             else map_option (\<lambda>(is, r). (Char c # is, r)) (items p)
         | _ \<Rightarrow> map_option (\<lambda>(is, r). (Char c # is, r)) (items p)))"

lemma items_suffix: "items p = Some (is, r) \<Longrightarrow> \<exists>v. p = v @ r"
proof (induction "length p" arbitrary: p "is" rule: less_induct)
  case less
  have IH: "\<exists>v. q = v @ r" if "items q = Some (is', r)" "length q < length p" for q is'
    using less.hyps [OF that(2,1)] .
  show ?case
  proof (cases p)
    case (Cons c q)
    have "items (c # q) = Some (is, r)" using less.prems Cons by simp
    then show ?thesis
      unfolding items.simps(2) Cons
      by (auto simp del: items.simps(2) split: if_split_asm list.split_asm dest!: IH [unfolded Cons]
          intro: append_Cons [symmetric])
  qed (use less.prems in simp)
qed

lemma items_shorter: "items p = Some (is, r) \<Longrightarrow> length r \<le> length p"
  using items_suffix by fastforce

definition class_head :: "byte list \<Rightarrow> bool \<times> byte list" where
  "class_head p = (case p of c # q \<Rightarrow> if c = 94 then (True, q) else (False, p) | [] \<Rightarrow> (False, p))"

lemma class_head_shorter: "class_head p = (n, q) \<Longrightarrow> length q \<le> length p"
  by (auto simp: class_head_def split: list.splits if_splits)

function tokens :: "byte list \<Rightarrow> tok list option" where
  "tokens [] = Some []"
| "tokens (c # p) =
     (if c = 42 then map_option (Cons Star) (tokens p)
      else if c = 63 then map_option (Cons Any) (tokens p)
      else if c = 91 then
        (case items (snd (class_head p)) of
           None \<Rightarrow> None
         | Some (is, r) \<Rightarrow> map_option (Cons (Class (fst (class_head p)) is)) (tokens r))
      else if c = 92 \<and> p \<noteq> [] then map_option (Cons (Lit (hd p))) (tokens (tl p))
      else map_option (Cons (Lit c)) (tokens p))"
  by pat_completeness auto
termination
proof (relation "measure length")
  fix c p x "is" r
  assume "items (snd (class_head p)) = Some x" "(is, r) = x"
  then have "length r \<le> length (snd (class_head p))"
    using items_shorter by blast
  also have "\<dots> \<le> length p"
    by (rule class_head_shorter [OF prod.collapse [symmetric]])
  finally show "(r, c # p) \<in> measure length"
    by simp
qed auto

text \<open>A character as it is compared. The ends of a range are ordered first, and folded to lower case then.\<close>

definition folded :: "bool \<Rightarrow> int \<Rightarrow> int" where
  "folded nocase c = (if nocase then tolower_int c else c)"

fun item_match :: "bool \<Rightarrow> bool \<Rightarrow> item \<Rightarrow> byte \<Rightarrow> bool" where
  "item_match sg nocase (Exact a) ch = (a = ch)"
| "item_match sg nocase (Char a) ch = (folded nocase (char_int sg a) = folded nocase (char_int sg ch))"
| "item_match sg nocase (Range a b) ch =
     (folded nocase (min (char_int sg a) (char_int sg b)) \<le> folded nocase (char_int sg ch) \<and>
      folded nocase (char_int sg ch) \<le> folded nocase (max (char_int sg a) (char_int sg b)))"

fun tok_match :: "bool \<Rightarrow> bool \<Rightarrow> tok \<Rightarrow> byte \<Rightarrow> bool" where
  "tok_match sg nocase Star ch = True"
| "tok_match sg nocase Any ch = True"
| "tok_match sg nocase (Lit a) ch = (folded nocase (char_int sg a) = folded nocase (char_int sg ch))"
| "tok_match sg nocase (Class neg is) ch = (neg \<noteq> list_ex (\<lambda>i. item_match sg nocase i ch) is)"

fun gmatch :: "bool \<Rightarrow> bool \<Rightarrow> tok list \<Rightarrow> byte list \<Rightarrow> bool" where
  "gmatch sg nocase [] s = (s = [])"
| "gmatch sg nocase (t # ts) [] = (t = Star \<and> gmatch sg nocase ts [])"
| "gmatch sg nocase (t # ts) (c # s) =
     (if t = Star then gmatch sg nocase ts (c # s) \<or> gmatch sg nocase (t # ts) s
      else tok_match sg nocase t c \<and> gmatch sg nocase ts s)"

text \<open>A literal or class that does not match the terminating NUL of the string.\<close>

fun rejects_nul :: "bool \<Rightarrow> bool \<Rightarrow> tok \<Rightarrow> bool" where
  "rejects_nul sg nocase Star = True"
| "rejects_nul sg nocase Any = True"
| "rejects_nul sg nocase t = (\<not> tok_match sg nocase t 0)"

section \<open>The program implements the specification\<close>

lemma char_int_inj: "char_int sg a = char_int sg b \<longleftrightarrow> a = b"
  using signed_word_eqI [of a b] word_uint_eqI [of a b] by (auto simp: char_int_def)

lemma item_match_code:
  "item_match sg nocase (Char a) ch = char_match sg nocase a ch"
  "item_match sg nocase (Range a b) ch = range_match sg nocase a b ch"
  "tok_match sg nocase (Lit a) ch = char_match sg nocase a ch"
  by (auto simp: folded_def char_match_def range_match_def char_int_inj min_def max_def Let_def)

declare item_match.simps(2,3) [simp del] tok_match.simps(3) [simp del] item_match_code [simp]

lemma class_loop_items:
  "items p = Some (is, r) \<Longrightarrow> pat = pre @ p @ 0 # post \<Longrightarrow> pre \<noteq> [] \<Longrightarrow> str = spre @ ch # spost \<Longrightarrow>
     \<exists>pi'. class_loop sg pat (length pre) (int (length p)) str (length spre) nocase m =
         Some (pi', int (length r) + 1, m \<or> list_ex (\<lambda>i. item_match sg nocase i ch) is) \<and>
       pi' + 1 + length r = length pre + length p"
proof (induction "length p" arbitrary: p "is" pre m rule: less_induct)
  case less
  have IH: "\<exists>pi'. class_loop sg pat (length pre2) (int (length q)) str (length spre) nocase m2 =
         Some (pi', int (length r) + 1, m2 \<or> list_ex (\<lambda>i. item_match sg nocase i ch) is2) \<and>
       pi' + 1 + length r = length pre2 + length q"
    if "length q < length p" "items q = Some (is2, r)" "pat = pre2 @ q @ 0 # post" "pre2 \<noteq> []" for q is2 pre2 m2
    by (rule less.hyps [OF that less.prems(4)])
  have s: "mem_byte str (length spre) = Some ch" using less.prems(4) by simp
  show ?case
  proof (cases p)
    case Nil
    then show ?thesis
      using less.prems(1-3) by (auto simp: class_loop.simps [of sg "pre @ 0 # post" "length pre"])
  next
    case (Cons c q)
    then have pat: "pat = pre @ c # q @ 0 # post" using less.prems(2) by simp
    consider "c = 92" | "c = 93" | (range) b q' where "c \<noteq> 92" "c \<noteq> 93" "q = 45 # b # q'"
      | (char) "c \<noteq> 92" "c \<noteq> 93" "\<nexists>b q'. q = 45 # b # q'" by blast
    then show ?thesis
    proof cases
      case 1
      then obtain a q' is' where q: "q = a # q'" "items q' = Some (is', r)" "is = Exact a # is'"
        using less.prems(1) Cons by (auto split: list.split_asm)
      have "class_loop sg pat (length pre) (int (length p)) str (length spre) nocase m =
          class_loop sg pat (length (pre @ [c, a])) (int (length q')) str (length spre) nocase (m \<or> a = ch)"
        using 1 Cons q pat s by (simp add: class_loop.simps [of sg _ "length pre"])
      then show ?thesis
        using IH [of q' is' "pre @ [c, a]" "m \<or> a = ch"] Cons q pat by (auto simp: disj_ac)
    next
      case 2
      then show ?thesis
        using less.prems(1) Cons pat by (auto simp: class_loop.simps [of sg _ "length pre"])
    next
      case range
      then obtain is' where q: "items q' = Some (is', r)" "is = Range c b # is'"
        using less.prems(1) Cons by auto
      have "class_loop sg pat (length pre) (int (length p)) str (length spre) nocase m =
          class_loop sg pat (length pre + 3) (int (length q')) str (length spre) nocase
            (m \<or> range_match sg nocase c b ch)"
        using range Cons q pat s
        by (simp add: class_loop.simps [of sg _ "length pre"] at_range_def)
      moreover have l3: "length (pre @ [c, 45, b]) = length pre + 3" by simp
      moreover have "length q' < length p" "pat = (pre @ [c, 45, b]) @ q' @ 0 # post" "pre @ [c, 45, b] \<noteq> []"
        using range Cons pat by simp_all
      note step = IH [OF this(1) q(1) this(2,3), of "m \<or> range_match sg nocase c b ch"]
      from step
      obtain pi' where "class_loop sg pat (length pre + 3) (int (length q')) str (length spre) nocase
          (m \<or> range_match sg nocase c b ch) = Some (pi', int (length r) + 1,
            (m \<or> range_match sg nocase c b ch) \<or> list_ex (\<lambda>i. item_match sg nocase i ch) is')"
        "pi' + 1 + length r = length pre + 3 + length q'"
        unfolding l3 by (elim exE conjE) (rule that)
      ultimately show ?thesis
        using q(2) range(3) Cons by (intro exI [of _ pi']) simp
    next
      case char
      have "items (c # q) = Some (is, r)" using less.prems(1) Cons by simp
      then obtain is' where q: "items q = Some (is', r)" "is = Char c # is'"
        using char unfolding items.simps(2)
        by (auto simp del: items.simps(2) split: list.split_asm if_split_asm)
      have "at_range pat (length pre) (int (length p)) = Some False"
        using char(3) Cons pat by (cases q; cases "tl q") (auto simp: at_range_def)
      then have "class_loop sg pat (length pre) (int (length p)) str (length spre) nocase m =
          class_loop sg pat (length (pre @ [c])) (int (length q)) str (length spre) nocase
            (m \<or> char_match sg nocase c ch)"
        using char Cons q pat s by (simp add: class_loop.simps [of sg _ "length pre"])
      then show ?thesis
        using IH [of q is' "pre @ [c]" "m \<or> char_match sg nocase c ch"] Cons q pat
        by (auto simp: disj_ac)
    qed
  qed
qed

text \<open>Running over the stars of a pattern does not change what it matches.\<close>

abbreviation unstar :: "byte list \<Rightarrow> byte list" where
  "unstar p \<equiv> dropWhile (\<lambda>c. c = 42) p"

lemma skip_stars_correct:
  "pat = pre @ p @ 0 # post \<Longrightarrow>
     \<exists>pi'. skip_stars pat (length pre) (int (length p)) = Some (pi', int (length (unstar p)))"
proof (induction p arbitrary: pre)
  case Nil
  then show ?case by (simp add: skip_stars.simps [of _ "length pre"])
next
  case (Cons c p)
  then show ?case
    using Cons.IH [of "pre @ [c]"] by (auto simp: skip_stars.simps [of _ "length pre"])
qed

lemma star_run_correct:
  "pat = pre @ 42 # q @ 0 # post \<Longrightarrow>
     \<exists>u. q = u @ unstar q \<and>
       star_run pat (length pre) (1 + int (length q)) =
         Some (length pre + length u, int (length (unstar q)) + 1)"
proof (induction q arbitrary: pre)
  case Nil
  then show ?case by (simp add: star_run.simps [of _ "length pre"])
next
  case (Cons c q)
  show ?case
  proof (cases "c = 42")
    case True
    then obtain u where "q = u @ unstar q" "star_run pat (length (pre @ [42])) (1 + int (length q)) =
        Some (length (pre @ [42]) + length u, int (length (unstar q)) + 1)"
      using Cons.IH [of "pre @ [42]"] Cons.prems by auto
    then show ?thesis
      using True Cons.prems
      by (intro exI [of _ "c # u"]) (simp add: star_run.simps [of _ "length pre"])
  next
    case False
    then show ?thesis
      using Cons.prems by (simp add: star_run.simps [of _ "length pre"])
  qed
qed

lemma gmatch_star_star: "gmatch sg nocase (Star # Star # ts) s = gmatch sg nocase (Star # ts) s"
  by (induction s) auto

lemma gmatch_only_stars: "\<forall>t \<in> set ts. t = Star \<Longrightarrow> gmatch sg nocase (Star # ts) s"
proof (induction s)
  case Nil
  then show ?case by (induction ts) auto
qed simp

lemma tokens_unstar:
  "tokens p = Some ts \<Longrightarrow> \<exists>us. tokens (unstar p) = Some us \<and> set us \<subseteq> set ts \<and>
     (gmatch sg nocase (Star # ts) s \<longleftrightarrow> gmatch sg nocase (Star # us) s) \<and>
     (gmatch sg nocase ts [] \<longleftrightarrow> unstar p = [])"
proof (induction p arbitrary: ts)
  case (Cons c p)
  show ?case
  proof (cases "c = 42")
    case True
    then obtain ts' where "tokens p = Some ts'" "ts = Star # ts'"
      using Cons.prems by auto
    then show ?thesis
      using Cons.IH [of ts'] True by (auto simp: gmatch_star_star simp del: gmatch.simps(3))
  next
    case False
    then show ?thesis
      using Cons.prems by (auto split: if_split_asm option.split_asm)
  qed
qed auto

text \<open>One token that is not a star: the switch moves behind it, or rejects.\<close>

lemma glob_one_tok:
  assumes tk: "tokens p = Some (t # ts)" and t: "t \<noteq> Star" "s \<noteq> [] \<or> rejects_nul sg nocase t"
    and pat: "pat = pre @ p @ 0 # post" and str: "str = spre @ s @ 0 # spost"
  shows "\<exists>u r. p = u @ r \<and> u \<noteq> [] \<and> tokens r = Some ts \<and> hd p \<noteq> 42 \<and>
    glob_one sg pat (length pre) (int (length p)) str (length spre) (int (length s)) nocase =
      Some (if s = [] \<or> \<not> tok_match sg nocase t (hd s) then NoMatch
            else Advance (length (pre @ u) - 1) (int (length r) + 1) (length spre + 1)
              (int (length s) - 1))"
proof -
  obtain ch spost' where s: "str = spre @ ch # spost'" "ch = (if s = [] then 0 else hd s)"
    using str by (cases s) auto
  have room: "length spre < length str" using s(1) by simp
  have one: "(if s = [] \<or> \<not> tok_match sg nocase t (hd s) then NoMatch else R) =
      (if t \<noteq> Any \<and> \<not> tok_match sg nocase t ch \<or> t = Any \<and> s = [] then NoMatch else R)" for R
    using t s(2) by (cases "s = []"; cases t) auto
  obtain c q where p: "p = c # q" using tk by (cases p) auto
  have c: "c \<noteq> 42" using tk t(1) p by auto
  consider (any) "c = 63" | (cls) "c = 91" | (esc) a q' where "c = 92" "q = a # q'"
    | (lit) "c \<noteq> 63" "c \<noteq> 91" "c = 92 \<Longrightarrow> q = []" by (cases q) auto
  then show ?thesis
  proof cases
    case any
    then have "t = Any" "tokens q = Some ts" using tk p by auto
    then show ?thesis
      using any p pat room unfolding one
      by (intro exI [of _ "[c]"] exI [of _ q]) (auto simp: glob_one_def)
  next
    case esc
    then have "t = Lit a" "tokens q' = Some ts" using tk p by auto
    then show ?thesis
      using esc p pat s(1) unfolding one
      by (intro exI [of _ "[c, a]"] exI [of _ q']) (auto simp: glob_one_def glob_literal_def)
  next
    case lit
    then have "t = Lit c" "tokens q = Some ts" using tk p c by (cases "c = 92"; simp)+
    then show ?thesis
      using lit c p pat s(1) unfolding one
      by (intro exI [of _ "[c]"] exI [of _ q]) (auto simp: glob_one_def glob_literal_def)
  next
    case cls
    obtain neg q1 where hd: "class_head q = (neg, q1)" by (cases "class_head q") auto
    obtain "is" r where r: "items q1 = Some (is, r)" "t = Class neg is" "tokens r = Some ts"
      using tk p cls hd by (auto split: option.split_asm)
    define h where "h = (if neg then [91, 94] else [91 :: byte])"
    have h: "p = h @ q1" "c = 91"
      using hd p cls by (auto simp: class_head_def h_def split: list.split_asm if_split_asm)
    obtain pi' where loop: "class_loop sg pat (length (pre @ h)) (int (length q1)) str (length spre) nocase False =
        Some (pi', int (length r) + 1, list_ex (\<lambda>i. item_match sg nocase i ch) is)"
      and pi': "pi' + 1 + length r = length (pre @ h) + length q1"
      using class_loop_items [OF r(1), of pat "pre @ h" post str spre ch spost' sg nocase False] pat h s(1)
      by (cases neg) (auto simp: h_def)
    obtain v where v: "q1 = v @ r" using items_suffix [OF r(1)] by blast
    have pos: "pi' = length (pre @ h @ v) - 1" using pi' v h by simp
    have "glob_class sg pat (length pre) (int (length p)) str (length spre) (int (length s)) nocase =
        Some (if tok_match sg nocase t ch
              then Advance pi' (int (length r) + 1) (length spre + 1) (int (length s) - 1) else NoMatch)"
      using loop room h hd pat p r(2)
      by (cases neg) (auto simp: glob_class_def h_def class_head_def split: list.split_asm if_split_asm)
    then show ?thesis
      using cls p pat h v pos r(2,3) unfolding one
      by (intro exI [of _ "h @ v"] exI [of _ r]) (auto simp: glob_one_def h_def)
  qed
qed

lemma glob_star_correct:
  assumes rec: "\<And>spre s. str = spre @ s @ 0 # spost \<Longrightarrow> s \<noteq> [] \<Longrightarrow>
      glob sg pat (pi + 1) plen str (length spre) (int (length s)) nocase = Some (gmatch sg nocase us s)"
    and nul: "\<not> gmatch sg nocase us []" and pi: "pi < length pat"
  shows "str = spre @ s @ 0 # spost \<Longrightarrow>
    glob_star sg pat pi (plen + 1) str (length spre) (int (length s)) nocase =
      Some (gmatch sg nocase (Star # us) s)"
proof (induction s arbitrary: spre)
  case Nil
  then show ?case using nul by (simp add: glob_star.simps)
next
  case (Cons c s)
  have "glob sg pat (pi + 1) plen str (length spre) (int (length (c # s))) nocase =
      Some (gmatch sg nocase us (c # s))"
    by (rule rec [OF Cons.prems]) simp
  moreover have "glob_star sg pat pi (plen + 1) str (length spre + 1) (int (length s)) nocase =
      Some (gmatch sg nocase (Star # us) s)"
    using Cons.IH [of "spre @ [c]"] Cons.prems by simp
  moreover have "length spre < length str" using Cons.prems by simp
  ultimately show ?case
    using pi by (subst glob_star.simps) (simp split: bool.split)
qed

lemma glob_correct:
  "tokens p = Some ts \<Longrightarrow> s \<noteq> [] \<or> ts = [] \<or> rejects_nul sg nocase (hd ts) \<Longrightarrow> pat = pre @ p @ 0 # post \<Longrightarrow>
     str = spre @ s @ 0 # spost \<Longrightarrow>
     glob sg pat (length pre) (int (length p)) str (length spre) (int (length s)) nocase =
       Some (gmatch sg nocase ts s)"
proof (induction "length p" arbitrary: p ts pre s spre rule: less_induct)
  case less
  show ?case
  proof (cases p)
    case Nil
    then show ?thesis using less.prems by (simp add: glob.simps)
  next
    case (Cons c q)
    then obtain t ts' where ts: "ts = t # ts'"
      using less.prems(1) by (auto split: if_split_asm option.split_asm)
    show ?thesis
    proof (cases "c = 42")
      case True
      then have t: "tokens q = Some ts'" "t = Star" using less.prems(1) Cons ts by auto
      obtain u where u: "q = u @ unstar q" "star_run pat (length pre) (1 + int (length q)) =
          Some (length pre + length u, int (length (unstar q)) + 1)"
        using star_run_correct [of pat pre q post] less.prems(3) Cons True by auto
      obtain us where us: "tokens (unstar q) = Some us" "set us \<subseteq> set ts'"
          "gmatch sg nocase (Star # ts') s \<longleftrightarrow> gmatch sg nocase (Star # us) s"
        using tokens_unstar [OF t(1)] by blast
      have run: "glob sg pat (length pre) (int (length p)) str (length spre) (int (length s)) nocase =
          (if unstar q = [] then Some True
           else glob_star sg pat (length pre + length u) (int (length (unstar q)) + 1) str
             (length spre) (int (length s)) nocase)"
        using u(2) less.prems(3) Cons True by (subst glob.simps) simp
      show ?thesis
      proof (cases "unstar q = []")
        case True
        have "us = []" using us(1) unfolding True by simp
        then have "gmatch sg nocase (Star # us) s" by (intro gmatch_only_stars) simp
        then show ?thesis using run True us(3) ts t by simp
      next
        case False
        have nul: "\<not> gmatch sg nocase us []"
          using tokens_unstar [OF us(1)] False by (auto simp: dropWhile_idem)
        let ?pre = "pre @ 42 # u"
        have pat: "pat = ?pre @ unstar q @ 0 # post"
          using less.prems(3) Cons \<open>c = 42\<close> u(1) by simp
        have lt: "length (unstar q) < length p"
          using Cons by (simp add: le_imp_less_Suc length_dropWhile_le)
        have "glob_star sg pat (length pre + length u) (int (length (unstar q)) + 1) str
             (length spre) (int (length s)) nocase = Some (gmatch sg nocase (Star # us) s)"
          using less.hyps [OF lt us(1) _ pat]
          by (intro glob_star_correct [OF _ nul _ less.prems(4)]) (use pat in simp_all)
        then show ?thesis
          unfolding run if_not_P [OF False] using us(3) ts t by simp
      qed
    next
      case False
      have t: "t \<noteq> Star" "s \<noteq> [] \<or> rejects_nul sg nocase t" "tokens p = Some (t # ts')"
        using less.prems(1,2) Cons False ts by (auto split: option.split_asm if_split_asm)
      from glob_one_tok [OF t(3,1,2) less.prems(3,4)] obtain u r where
        u: "p = u @ r" "u \<noteq> []" "tokens r = Some ts'"
        and one: "glob_one sg pat (length pre) (int (length p)) str (length spre) (int (length s)) nocase =
          Some (if s = [] \<or> \<not> tok_match sg nocase t (hd s) then NoMatch
                else Advance (length (pre @ u) - 1) (int (length r) + 1) (length spre + 1)
                  (int (length s) - 1))"
        by blast
      have c: "mem_byte pat (length pre) = Some c" using less.prems(3) Cons by simp
      show ?thesis
      proof (cases "s = [] \<or> \<not> tok_match sg nocase t (hd s)")
        case True
        then have "\<not> gmatch sg nocase ts s" using ts t(1) by (cases s) auto
        then show ?thesis
          using c one True Cons False by (subst glob.simps) simp
      next
        case match: False
        then obtain d s' where s: "s = d # s'" by (cases s) auto
        have pat: "pat = (pre @ u) @ r @ 0 # post" and str: "str = (spre @ [d]) @ s' @ 0 # spost"
          using less.prems(3,4) u(1) s by simp_all
        have pos: "length (pre @ u) - 1 + 1 = length (pre @ u)" using u(2) by (cases u) auto
        have g: "gmatch sg nocase ts s = gmatch sg nocase ts' s'"
          using match s ts t(1) by simp
        show ?thesis
        proof (cases "s' = []")
          case True
          obtain pi' where "skip_stars pat (length (pre @ u)) (int (length r)) = Some (pi', int (length (unstar r)))"
            using skip_stars_correct [OF pat] by blast
          moreover have "gmatch sg nocase ts' [] \<longleftrightarrow> unstar r = []"
            using tokens_unstar [OF u(3)] by blast
          ultimately show ?thesis
            using c one match Cons False s True pos unfolding g by (subst glob.simps) simp
        next
          case ne: False
          have "length r < length p" using u by (cases u) auto
          then have "glob sg pat (length (pre @ u)) (int (length r)) str (length (spre @ [d])) (int (length s')) nocase =
              Some (gmatch sg nocase ts' s')"
            using ne by (intro less.hyps [OF _ u(3) _ pat str]) auto
          then show ?thesis
            using c one match Cons False s ne pos unfolding g by (subst glob.simps) simp
        qed
      qed
    qed
  qed
qed

text \<open>C31: \<open>stringmatchlen\<close> decides the glob language: for every pattern that has tokens
  (it has none if a class ends in a backslash behind which the pattern ends) and every string,
  it reads only inside its two arguments and the NUL bytes behind them, and returns whether the
  tokens match the string. Excluded is one case, the one of C32: an empty string and a pattern
  whose first token accepts the NUL byte behind it (a negated class, or a class or literal with
  a NUL in it). Later tokens, and all tokens on strings that are not empty, may be anything:
  the loop ends, and the star does not recurse, when the string is used up.\<close>

theorem stringmatchlen_correct:
  assumes "tokens p = Some ts" and "s \<noteq> [] \<or> ts = [] \<or> rejects_nul sg nocase (hd ts)"
  shows "stringmatchlen sg (p @ [0]) (int (length p)) (s @ [0]) (int (length s)) nocase =
    Some (gmatch sg nocase ts s)"
  using glob_correct [OF assms, of "p @ [0]" "[]" "[]" "s @ [0]" "[]" "[]"]
  by (simp add: stringmatchlen_def)

text \<open>The pattern \<open>*[a-c]?[^a]\<close> on the texts \<open>xbzb\<close>, which it matches, and \<open>xbz\<close>, where the
  negated class has no character left.\<close>

lemma stringmatchlen_correct_witness:
  "stringmatchlen True ([42, 91, 97, 45, 99, 93, 63, 91, 94, 97, 93] @ [0])
     (int (length [42 :: byte, 91, 97, 45, 99, 93, 63, 91, 94, 97, 93]))
     ([120, 98, 122, 98] @ [0]) (int (length [120 :: byte, 98, 122, 98])) False = Some True \<and>
   stringmatchlen True ([42, 91, 97, 45, 99, 93, 63, 91, 94, 97, 93] @ [0])
     (int (length [42 :: byte, 91, 97, 45, 99, 93, 63, 91, 94, 97, 93]))
     ([120, 98, 122] @ [0]) (int (length [120 :: byte, 98, 122])) False = Some False"
proof -
  let ?ts = "[Star, Class False [Range 97 99], Any, Class True [Char 97]]"
  have tk: "tokens [42, 91, 97, 45, 99, 93, 63, 91, 94, 97, 93] = Some ?ts"
    by (simp add: class_head_def)
  have m: "gmatch True False ?ts [120, 98, 122, 98]" "\<not> gmatch True False ?ts [120, 98, 122]"
    by (simp_all add: range_match_def char_match_def char_int_def)
  show ?thesis
    using stringmatchlen_correct [OF tk, of "[120, 98, 122, 98]" True False]
      stringmatchlen_correct [OF tk, of "[120, 98, 122]" True False] m by simp
qed

text \<open>C32: A negated class accepts the NUL behind an empty string; the code then steps past
  it and answers that the pattern \<open>[^a]*\<close>, which needs a character, matches the empty
  string, and reads outside the string for the pattern \<open>[^a]b\<close>.\<close>

theorem stringmatchlen_negated_class_overrun:
  "stringmatchlen sg [91, 94, 97, 93, 42, 0] 5 [0] 0 nocase = Some True \<and>
   (\<exists>ts. tokens [91, 94, 97, 93, 42] = Some ts \<and> \<not> gmatch sg nocase ts []) \<and>
   stringmatchlen sg [91, 94, 97, 93, 98, 0] 5 [0] 0 nocase = None"
proof (intro conjI)
  have a: "tolower_int (char_int sg 97) \<noteq> tolower_int (char_int sg 0)"
    by (simp add: tolower_int_def char_int_def)
  show "stringmatchlen sg [91, 94, 97, 93, 42, 0] 5 [0] 0 nocase = Some True"
    using a by (simp add: stringmatchlen_def glob.simps glob_one_def glob_class_def class_loop.simps
        at_range_def char_match_def star_run.simps)
  show "stringmatchlen sg [91, 94, 97, 93, 98, 0] 5 [0] 0 nocase = None"
    using a by (simp add: stringmatchlen_def glob.simps glob_one_def glob_class_def class_loop.simps
        at_range_def char_match_def glob_literal_def mem_byte_def)
  show "\<exists>ts. tokens [91, 94, 97, 93, 42] = Some ts \<and> \<not> gmatch sg nocase ts []"
    by (simp add: class_head_def)
qed

text \<open>\<^verbatim>\<open>stringmatch\<close> on C strings: the blocks end at their first NUL.\<close>

lemma c_strlen_append [simp]: "0 \<notin> set xs \<Longrightarrow> c_strlen (xs @ 0 # r) = Some (length xs)"
  by (induction xs) (auto simp: c_strlen_def)

text \<open>A pattern that ends in a backslash inside a class is read behind its end: the loop steps
  over the backslash and the NUL byte together, and the length is then negative.\<close>

lemma stringmatchlen_open_escape:
  "stringmatchlen sg [91, 92, 0] 2 [97, 0] 1 nocase = None"
  by (simp add: stringmatchlen_def glob.simps glob_one_def glob_class_def class_loop.simps
      at_range_def char_match_def mem_byte_def)

end
