(* ===== verification/Sds.thy ===== *)
theory Sds
  imports Util
begin

text \<open>
  Model of \<^verbatim>\<open>src/webserver/redis/src/sds.c\<close> and \<^verbatim>\<open>sds.h\<close>: the dynamic strings every
  other component stores its text in. The record has the fields of \<^verbatim>\<open>struct sdshdr\<close>;
  \<open>sds_buf\<close> is the whole allocated character array. \<open>sds_ok\<close> is the invariant (the array
  has room for \<open>len + free\<close> characters and a terminating NUL, and the NUL is there) and
  \<open>sds_str\<close> the abstraction to the binary-safe string. Arguments of type \<^verbatim>\<open>char *\<close> that C
  treats as NUL-terminated are byte lists without the NUL. A length that does not fit the
  \<^verbatim>\<open>int\<close> fields has no result in the model.
\<close>

section \<open>Data and allocation\<close>

record sds =
  sds_len :: nat
  sds_free :: nat
  sds_buf :: "byte list"

definition SDS_MAX_PREALLOC :: nat where "SDS_MAX_PREALLOC = 1024 * 1024"

definition sdsnewlen :: "byte list option \<Rightarrow> nat \<Rightarrow> sds option" where
  "sdsnewlen init initlen =
     do { require (fits_int initlen);
          src \<leftarrow> (case init of Some b \<Rightarrow> mem_read b 0 initlen | None \<Rightarrow> Some (replicate initlen 0));
          buf \<leftarrow> mem_write (zmalloc (initlen + 1)) 0 src;
          buf \<leftarrow> mem_write buf initlen [0];
          Some \<lparr>sds_len = initlen, sds_free = 0, sds_buf = buf\<rparr> }"

definition sdsempty :: "sds option" where
  "sdsempty = sdsnewlen (Some []) 0"

definition sdsnew :: "byte list option \<Rightarrow> sds option" where
  "sdsnew init = sdsnewlen init (case init of None \<Rightarrow> 0 | Some s \<Rightarrow> length s)"

definition sdsdup :: "sds \<Rightarrow> sds option" where
  "sdsdup s = sdsnewlen (Some (sds_buf s)) (sds_len s)"

text \<open>\<^verbatim>\<open>strlen\<close> of the buffer: undefined when no NUL is in the block.\<close>

definition buf_strlen :: "byte list \<Rightarrow> nat option" where
  "buf_strlen b = (if 0 \<in> set b then Some (length (takeWhile (\<lambda>c. c \<noteq> 0) b)) else None)"

definition sdsupdatelen :: "sds \<Rightarrow> sds option" where
  "sdsupdatelen s =
     do { reallen \<leftarrow> buf_strlen (sds_buf s);
          require (reallen \<le> sds_free s + sds_len s);
          Some (s\<lparr>sds_free := sds_free s + sds_len s - reallen, sds_len := reallen\<rparr>) }"

definition sdsclear :: "sds \<Rightarrow> sds option" where
  "sdsclear s =
     do { b \<leftarrow> mem_write (sds_buf s) 0 [0];
          Some (s\<lparr>sds_free := sds_free s + sds_len s, sds_len := 0, sds_buf := b\<rparr>) }"

definition sdsMakeRoomFor :: "sds \<Rightarrow> nat \<Rightarrow> sds option" where
  "sdsMakeRoomFor s addlen =
     (if sds_free s \<ge> addlen then Some s
      else
        let len = sds_len s;
            newlen = len + addlen;
            newlen = (if newlen < SDS_MAX_PREALLOC then newlen * 2 else newlen + SDS_MAX_PREALLOC)
        in do { require (fits_int newlen);
                Some (s\<lparr>sds_buf := zrealloc (sds_buf s) (newlen + 1), sds_free := newlen - len\<rparr>) })"

definition sdsgrowzero :: "sds \<Rightarrow> nat \<Rightarrow> sds option" where
  "sdsgrowzero s len =
     (let curlen = sds_len s in
      if len \<le> curlen then Some s
      else do {
        s \<leftarrow> sdsMakeRoomFor s (len - curlen);
        b \<leftarrow> mem_write (sds_buf s) curlen (replicate (len - curlen + 1) 0);
        totlen \<leftarrow> Some (sds_len s + sds_free s);
        Some (s\<lparr>sds_buf := b, sds_len := len, sds_free := totlen - len\<rparr>) })"

definition sdscatlen :: "sds \<Rightarrow> byte list \<Rightarrow> nat \<Rightarrow> sds option" where
  "sdscatlen s t len =
     (let curlen = sds_len s in do {
        s \<leftarrow> sdsMakeRoomFor s len;
        src \<leftarrow> mem_read t 0 len;
        b \<leftarrow> mem_write (sds_buf s) curlen src;
        require (len \<le> sds_free s);
        b \<leftarrow> mem_write b (curlen + len) [0];
        Some (s\<lparr>sds_len := curlen + len, sds_free := sds_free s - len, sds_buf := b\<rparr>) })"

definition sdscat :: "sds \<Rightarrow> byte list \<Rightarrow> sds option" where
  "sdscat s t = sdscatlen s t (length t)"

definition sdscatsds :: "sds \<Rightarrow> sds \<Rightarrow> sds option" where
  "sdscatsds s t = sdscatlen s (sds_buf t) (sds_len t)"

definition sdscpylen :: "sds \<Rightarrow> byte list \<Rightarrow> nat \<Rightarrow> sds option" where
  "sdscpylen s t len =
     do { s \<leftarrow> (if sds_free s + sds_len s < len then sdsMakeRoomFor s (len - sds_len s) else Some s);
          totlen \<leftarrow> Some (sds_free s + sds_len s);
          src \<leftarrow> mem_read t 0 len;
          b \<leftarrow> mem_write (sds_buf s) 0 src;
          b \<leftarrow> mem_write b len [0];
          require (len \<le> totlen);
          Some (s\<lparr>sds_len := len, sds_free := totlen - len, sds_buf := b\<rparr>) }"

definition sdscpy :: "sds \<Rightarrow> byte list \<Rightarrow> sds option" where
  "sdscpy s t = sdscpylen s t (length t)"

text \<open>
  \<open>out\<close> is the text the format and its arguments stand for, which \<^verbatim>\<open>vsnprintf\<close> of the C
  library produces; \<open>vsnprintf_buf\<close> is what a call leaves in a buffer of \<open>n\<close> bytes. The
  loop doubles the buffer until the last but one byte is still the NUL it was set to.
\<close>

definition vsnprintf_buf :: "byte list \<Rightarrow> nat \<Rightarrow> byte list" where
  "vsnprintf_buf out n =
     (let b = (zmalloc n)[n - 2 := 0]; w = take (n - 1) out @ [0] in w @ drop (length w) b)"

lemma vsnprintf_short: "2 \<le> n \<Longrightarrow> length out \<le> n - 2 \<Longrightarrow> vsnprintf_buf out n ! (n - 2) = 0"
proof -
  assume "2 \<le> n" "length out \<le> n - 2"
  then obtain k where "n = k + 2" "length out \<le> k"
    by (metis add.commute le_add_diff_inverse)
  then show ?thesis
    by (cases "length out = k") (simp_all add: vsnprintf_buf_def Let_def nth_append)
qed

function printf_loop :: "byte list \<Rightarrow> nat \<Rightarrow> byte list option" where
  "printf_loop out buflen =
     (if buflen < 2 then None
      else
        let buf = vsnprintf_buf out buflen
        in if buf ! (buflen - 2) \<noteq> 0 then printf_loop out (buflen * 2) else Some buf)"
  by pat_completeness auto
termination
proof (relation "measure (\<lambda>(out, buflen). length out + 2 - buflen)")
  fix out :: "byte list" and buflen buf
  assume *: "\<not> buflen < 2" "buf = vsnprintf_buf out buflen" "buf ! (buflen - 2) \<noteq> 0"
  then have "\<not> length out \<le> buflen - 2"
    using vsnprintf_short [of buflen out] by auto
  with * show "((out, buflen * 2), out, buflen) \<in> measure (\<lambda>(out, buflen). length out + 2 - buflen)"
    by simp
qed simp

declare printf_loop.simps [simp del]

definition sdscatvprintf :: "sds \<Rightarrow> byte list \<Rightarrow> sds option" where
  "sdscatvprintf s out =
     do { buf \<leftarrow> printf_loop out 16;
          n \<leftarrow> buf_strlen buf;
          sdscat s (take n buf) }"

definition sdscatprintf :: "sds \<Rightarrow> byte list \<Rightarrow> sds option" where
  "sdscatprintf s out = sdscatvprintf s out"

section \<open>Trimming and slicing\<close>

text \<open>\<^verbatim>\<open>strchr(cset, c) != NULL\<close>: the search includes the terminating NUL of \<^verbatim>\<open>cset\<close>.\<close>

definition in_cset :: "byte list \<Rightarrow> byte \<Rightarrow> bool" where
  "in_cset cset c \<longleftrightarrow> c \<in> set cset \<or> c = 0"

text \<open>The two pointer loops of \<^verbatim>\<open>sdstrim\<close>; the pointers are offsets into the buffer.\<close>

function trim_left :: "byte list \<Rightarrow> byte list \<Rightarrow> nat \<Rightarrow> int \<Rightarrow> nat option" where
  "trim_left buf cset sp en =
     (if int sp \<le> en then
        case mem_byte buf sp of
          None \<Rightarrow> None
        | Some c \<Rightarrow> if in_cset cset c then trim_left buf cset (sp + 1) en else Some sp
      else Some sp)"
  by pat_completeness auto
termination
  by (relation "measure (\<lambda>(buf, cset, sp, en). nat (en + 1 - int sp))") auto

fun trim_right :: "byte list \<Rightarrow> byte list \<Rightarrow> nat \<Rightarrow> nat option" where
  "trim_right buf cset ep =
     (if ep > 0 then
        case mem_byte buf ep of
          None \<Rightarrow> None
        | Some c \<Rightarrow> if in_cset cset c then trim_right buf cset (ep - 1) else Some ep
      else Some ep)"

declare trim_left.simps [simp del] trim_right.simps [simp del]

definition sdstrim :: "sds \<Rightarrow> byte list \<Rightarrow> sds option" where
  "sdstrim s cset =
     (let en = int (sds_len s) - 1 in do {
        sp \<leftarrow> trim_left (sds_buf s) cset 0 en;
        ep \<leftarrow> (if en > 0 then map_option int (trim_right (sds_buf s) cset (nat en)) else Some en);
        len \<leftarrow> Some (if int sp > ep then 0 else nat (ep - int sp + 1));
        b \<leftarrow> (if sp \<noteq> 0 then mem_move (sds_buf s) 0 sp len else Some (sds_buf s));
        b \<leftarrow> mem_write b len [0];
        require (len \<le> sds_free s + sds_len s);
        Some (s\<lparr>sds_buf := b, sds_free := sds_free s + sds_len s - len, sds_len := len\<rparr>) })"

definition sdsrange :: "sds \<Rightarrow> int \<Rightarrow> int \<Rightarrow> sds option" where
  "sdsrange s start en =
     (let len = int (sds_len s) in
      if len = 0 then Some s
      else
        let start = (if start < 0 then (if len + start < 0 then 0 else len + start) else start);
            en = (if en < 0 then (if len + en < 0 then 0 else len + en) else en)
        in do {
          require (start > en \<or> en - start + 1 \<le> INT32_MAX);
          newlen \<leftarrow> Some (if start > en then 0 else en - start + 1);
          (start, newlen) \<leftarrow> Some
              (if newlen \<noteq> 0 then
                 if start \<ge> len then (start, 0)
                 else if en \<ge> len then (start, if start > len - 1 then 0 else len - 1 - start + 1)
                 else (start, newlen)
               else (0, newlen));
          b \<leftarrow> (if start \<noteq> 0 \<and> newlen \<noteq> 0 then mem_move (sds_buf s) 0 (nat start) (nat newlen)
                else Some (sds_buf s));
          b \<leftarrow> mem_write b (nat newlen) [0];
          require (nat newlen \<le> sds_free s + sds_len s);
          Some (s\<lparr>sds_buf := b, sds_free := sds_free s + sds_len s - nat newlen,
                  sds_len := nat newlen\<rparr>) })"

text \<open>The case loops write back every character of the string.\<close>

definition sds_map :: "(byte \<Rightarrow> byte) \<Rightarrow> sds \<Rightarrow> sds option" where
  "sds_map f s =
     do { cs \<leftarrow> mem_read (sds_buf s) 0 (sds_len s);
          b \<leftarrow> mem_write (sds_buf s) 0 (map f cs);
          Some (s\<lparr>sds_buf := b\<rparr>) }"

definition sdstolower :: "sds \<Rightarrow> sds option" where
  "sdstolower s = sds_map tolower s"

definition sdstoupper :: "sds \<Rightarrow> sds option" where
  "sdstoupper s = sds_map toupper s"

text \<open>\<^verbatim>\<open>memcmp\<close> of two blocks of the same length: only the sign of its result is fixed.\<close>

fun memcmp :: "byte list \<Rightarrow> byte list \<Rightarrow> int" where
  "memcmp (a # as) (b # bs) = (if a = b then memcmp as bs else if a < b then -1 else 1)"
| "memcmp _ _ = 0"

definition sdscmp :: "sds \<Rightarrow> sds \<Rightarrow> int option" where
  "sdscmp s1 s2 =
     (let l1 = sds_len s1; l2 = sds_len s2; minlen = (if l1 < l2 then l1 else l2) in do {
        a \<leftarrow> mem_read (sds_buf s1) 0 minlen;
        b \<leftarrow> mem_read (sds_buf s2) 0 minlen;
        Some (if memcmp a b = 0 then int l1 - int l2 else memcmp a b) })"

section \<open>Invariant and abstraction\<close>

definition sds_str :: "sds \<Rightarrow> byte list" where
  "sds_str s = take (sds_len s) (sds_buf s)"

definition sds_ok :: "sds \<Rightarrow> bool" where
  "sds_ok s \<longleftrightarrow>
     length (sds_buf s) = sds_len s + sds_free s + 1 \<and> sds_buf s ! sds_len s = 0"

text \<open>\<open>sds_rep s xs\<close>: the string \<open>s\<close> is valid and holds \<open>xs\<close>.\<close>

definition sds_rep :: "sds \<Rightarrow> byte list \<Rightarrow> bool" where
  "sds_rep s xs \<longleftrightarrow>
     sds_len s = length xs \<and> (\<exists>r. sds_buf s = xs @ 0 # r \<and> length r = sds_free s)"

lemma sds_rep_iff: "sds_rep s xs \<longleftrightarrow> sds_ok s \<and> sds_str s = xs"
proof
  assume "sds_ok s \<and> sds_str s = xs"
  then have ok: "length (sds_buf s) = sds_len s + sds_free s + 1" "sds_buf s ! sds_len s = 0"
    and xs: "xs = take (sds_len s) (sds_buf s)"
    by (simp_all add: sds_ok_def sds_str_def)
  then have "sds_buf s = xs @ 0 # drop (Suc (sds_len s)) (sds_buf s)"
    by (metis id_take_nth_drop less_add_one less_add_Suc1 Suc_eq_plus1)
  then show "sds_rep s xs"
    using ok xs by (auto simp: sds_rep_def)
qed (auto simp: sds_rep_def sds_ok_def sds_str_def)

lemma sds_repD: "sds_rep s xs \<Longrightarrow> sds_len s = length xs"
  by (simp add: sds_rep_def)

lemma sds_repI:
  "sds_buf s = xs @ 0 # r \<Longrightarrow> length r = sds_free s \<Longrightarrow> sds_len s = length xs \<Longrightarrow> sds_rep s xs"
  by (auto simp: sds_rep_def)

lemma sds_repE:
  assumes "sds_rep s xs"
  obtains r where "sds_buf s = xs @ 0 # r" "sds_free s = length r" "sds_len s = length xs"
  using assms by (auto simp: sds_rep_def)

section \<open>Functional behaviour\<close>

lemma sdsnewlen_rep:
  "length b = n \<Longrightarrow> fits_int n \<Longrightarrow> \<exists>s. sdsnewlen (Some b) n = Some s \<and> sds_rep s b \<and> sds_free s = 0"
  by (auto simp: sdsnewlen_def mem_read_def mem_write_def sds_rep_def)

lemma sdsMakeRoomFor_rep:
  assumes "sds_rep s xs" and "int (length xs) + int n < 2 ^ 30"
  shows "\<exists>s'. sdsMakeRoomFor s n = Some s' \<and> sds_rep s' xs \<and> n \<le> sds_free s'"
proof (cases "n \<le> sds_free s")
  case True
  then show ?thesis
    using assms(1) by (simp add: sdsMakeRoomFor_def)
next
  case False
  define newlen where "newlen = (let l = length xs + n in
    if l < SDS_MAX_PREALLOC then l * 2 else l + SDS_MAX_PREALLOC)"
  obtain r where r: "sds_buf s = xs @ 0 # r" "sds_free s = length r" "sds_len s = length xs"
    using assms(1) by (rule sds_repE)
  have n: "length xs + n \<le> newlen" "fits_int newlen"
    using assms(2) by (auto simp: newlen_def fits_int_def SDS_MAX_PREALLOC_def Let_def)
  have "Suc (length xs + length r) \<le> newlen + 1"
    using n False r by simp
  then have "zrealloc (sds_buf s) (newlen + 1) =
      xs @ 0 # (r @ replicate (newlen - length xs - length r) uninit)"
    using r by (simp add: zrealloc_def)
  then show ?thesis
    using False n r assms(1)
    by (auto simp: sdsMakeRoomFor_def Let_def newlen_def [unfolded Let_def, symmetric]
        intro!: sds_repI)
qed

lemma sdscatlen_rep:
  assumes "sds_rep s xs" and "length t \<ge> n" and "int (length xs) + int n < 2 ^ 30"
  shows "\<exists>s'. sdscatlen s t n = Some s' \<and> sds_rep s' (xs @ take n t)"
proof -
  obtain s1 where s1: "sdsMakeRoomFor s n = Some s1" "sds_rep s1 xs" "n \<le> sds_free s1"
    using sdsMakeRoomFor_rep [OF assms(1,3)] by blast
  then obtain r where r: "sds_buf s1 = xs @ 0 # r" "sds_free s1 = length r"
    by (auto elim: sds_repE)
  then have "mem_write (sds_buf s1) (length xs) (take n t) =
      Some (xs @ take n t @ drop n (0 # r))"
    using assms(2) s1(3) by (simp add: mem_write_def)
  moreover have "mem_write (xs @ take n t @ drop n (0 # r)) (length xs + n) [0] =
      Some (xs @ take n t @ 0 # drop n r)"
    using assms(2) s1(3) r by (simp add: mem_write_def)
  ultimately show ?thesis
    using assms s1 r sds_repD [OF assms(1)]
    by (auto simp: sdscatlen_def Let_def mem_read_def require_def intro!: sds_repI)
qed

lemma sdscat_rep:
  "sds_rep s xs \<Longrightarrow> int (length xs) + int (length t) < 2 ^ 30 \<Longrightarrow>
     \<exists>s'. sdscat s t = Some s' \<and> sds_rep s' (xs @ t)"
  using sdscatlen_rep [of s xs "length t" t] by (simp add: sdscat_def)

text \<open>\<open>sdscatsds\<close> appends the second string to the first, growing the buffer when
  needed, and the result satisfies the string invariant.\<close>

lemma sdscatsds_rep:
  assumes "sds_rep s xs" and "sds_rep t ys" and "int (length xs) + int (length ys) < 2 ^ 30"
  shows "\<exists>s'. sdscatsds s t = Some s' \<and> sds_rep s' (xs @ ys)"
  using sdscatlen_rep [OF assms(1), of "length ys" "sds_buf t"] assms
  by (auto simp: sdscatsds_def elim: sds_repE)

lemma sdscatsds_rep_witness:
  "\<exists>s'. sdscatsds \<lparr>sds_len = 1, sds_free = 0, sds_buf = [7, 0]\<rparr>
      \<lparr>sds_len = 2, sds_free = 1, sds_buf = [0, 9, 0, 5]\<rparr> = Some s' \<and> sds_rep s' ([7] @ [0, 9])"
  by (rule sdscatsds_rep) (simp_all add: sds_rep_def)

lemma sdscpylen_rep:
  assumes rep: "sds_rep s xs" and "length t \<ge> n" and "int (length xs) + int n < 2 ^ 30"
  shows "\<exists>s'. sdscpylen s t n = Some s' \<and> sds_rep s' (take n t)"
proof -
  have len: "sds_len s = length xs" by (rule sds_repD [OF rep])
  have "\<exists>s1. (if sds_free s + sds_len s < n then sdsMakeRoomFor s (n - sds_len s) else Some s) =
      Some s1 \<and> sds_rep s1 xs \<and> n \<le> sds_free s1 + length xs"
  proof (cases "sds_free s + sds_len s < n")
    case True
    then show ?thesis
      using sdsMakeRoomFor_rep [OF rep, of "n - sds_len s"] assms(3) len by auto
  next
    case False
    then show ?thesis using rep len by auto
  qed
  then obtain s1 where
    s1: "(if sds_free s + sds_len s < n then sdsMakeRoomFor s (n - sds_len s) else Some s) = Some s1"
      "sds_rep s1 xs" "n \<le> sds_free s1 + length xs"
    by blast
  obtain r where r: "sds_buf s1 = xs @ 0 # r" "sds_free s1 = length r" "sds_len s1 = length xs"
    using s1(2) by (rule sds_repE)
  have "mem_write (sds_buf s1) 0 (take n t) = Some (take n t @ drop n (xs @ 0 # r))"
    using assms(2) s1(3) r by (simp add: mem_write_def)
  moreover have "mem_write (take n t @ drop n m) n [0] = Some (take n t @ 0 # drop (Suc n) m)"
    if "n < length m" for m :: "byte list"
    using assms(2) that by (simp add: mem_write_def)
  then have "mem_write (take n t @ drop n (xs @ 0 # r)) n [0] =
      Some (take n t @ 0 # drop (Suc n) (xs @ 0 # r))"
    using s1(3) r by (simp del: drop_append)
  ultimately show ?thesis
    using s1 r assms(2) by (auto simp: sdscpylen_def mem_read_def require_def intro!: sds_repI)
qed

lemma sdsdup_rep:
  assumes "sds_rep s xs" and "fits_int (length xs)"
  shows "\<exists>s'. sdsdup s = Some s' \<and> sds_rep s' xs"
proof -
  have "sdsdup s = sdsnewlen (Some xs) (length xs)"
    using assms by (auto simp: sdsdup_def sdsnewlen_def mem_read_def elim: sds_repE)
  then show ?thesis
    using sdsnewlen_rep [OF refl assms(2)] by auto
qed

lemma sdsclear_rep: "sds_rep s xs \<Longrightarrow> \<exists>s'. sdsclear s = Some s' \<and> sds_rep s' []"
  by (erule sds_repE, cases xs) (auto simp: sdsclear_def mem_write_def sds_rep_def)

lemma sdsgrowzero_rep:
  assumes "sds_rep s xs" and "int n < 2 ^ 30"
  shows "\<exists>s'. sdsgrowzero s n = Some s' \<and>
    sds_rep s' (xs @ replicate (n - length xs) 0)"
proof (cases "n \<le> length xs")
  case True
  then show ?thesis
    using assms sds_repD [OF assms(1)] by (simp add: sdsgrowzero_def)
next
  case False
  let ?k = "n - length xs"
  obtain s1 where s1: "sdsMakeRoomFor s ?k = Some s1" "sds_rep s1 xs" "?k \<le> sds_free s1"
    using sdsMakeRoomFor_rep [OF assms(1), of ?k] assms(2) False by auto
  then obtain r where r: "sds_buf s1 = xs @ 0 # r" "sds_free s1 = length r" "sds_len s1 = length xs"
    by (auto elim: sds_repE)
  then have "mem_write (sds_buf s1) (length xs) (replicate (?k + 1) 0) =
      Some (xs @ replicate ?k 0 @ 0 # drop ?k r)"
    using s1(3) by (simp add: mem_write_def replicate_append_same flip: replicate_Suc)
  then show ?thesis
    using False s1 r sds_repD [OF assms(1)]
    by (auto simp: sdsgrowzero_def Let_def intro!: sds_repI)
qed

lemma sdsupdatelen_rep:
  assumes "sds_rep s xs"
  shows "\<exists>s'. sdsupdatelen s = Some s' \<and> sds_rep s' (takeWhile (\<lambda>c. c \<noteq> 0) xs)"
proof -
  obtain r where r: "sds_buf s = xs @ 0 # r" "sds_free s = length r" "sds_len s = length xs"
    using assms by (rule sds_repE)
  have split: "\<exists>r'. xs @ 0 # r = takeWhile (\<lambda>c. c \<noteq> 0) xs @ 0 # r'" for xs r :: "byte list"
    by (induction xs) auto
  define ys where "ys = takeWhile (\<lambda>c. c \<noteq> 0) xs"
  obtain r' where r': "sds_buf s = ys @ 0 # r'"
    using split [of xs r] r(1) by (auto simp: ys_def)
  have "buf_strlen (sds_buf s) = Some (length ys)"
    using r' by (simp add: buf_strlen_def ys_def takeWhile_append takeWhile_idem)
  moreover have "length ys + length r' = length xs + length r"
    using arg_cong [OF r', of length] r by simp
  ultimately show ?thesis
    unfolding ys_def [symmetric]
    using r(2,3) r' by (auto simp: sdsupdatelen_def require_def intro!: sds_repI)
qed


section \<open>Trimming, slicing, comparing\<close>

lemma mem_move_front:
  "p + n \<le> length b \<Longrightarrow> mem_move b 0 p n = Some (take n (drop p b) @ drop n b)"
  by (simp add: mem_move_def mem_read_def mem_write_def)

text \<open>Moving \<open>n\<close> characters to the front and terminating there leaves a valid string.\<close>

lemma sds_rep_front:
  assumes "sds_rep s xs" and "p + n \<le> length xs"
  shows "\<exists>b1 b2. mem_move (sds_buf s) 0 p n = Some b1 \<and> mem_write b1 n [0] = Some b2 \<and>
    sds_rep (s\<lparr>sds_buf := b2, sds_free := sds_free s + sds_len s - n, sds_len := n\<rparr>)
      (take n (drop p xs))"
proof -
  let ?t = "take n (drop p xs)"
  obtain r where r: "sds_buf s = xs @ 0 # r" "sds_free s = length r" "sds_len s = length xs"
    using assms(1) by (rule sds_repE)
  have t: "take n (drop p (sds_buf s)) = ?t" "length ?t = n"
    using assms(2) r by simp_all
  have mv: "mem_move (sds_buf s) 0 p n = Some (?t @ drop n (sds_buf s))"
    using assms(2) r t by (simp add: mem_move_front)
  have len: "n < length (sds_buf s)" "length (sds_buf s) = length xs + length r + 1"
    using assms(2) r by simp_all
  have wr: "mem_write (?t @ drop n m) n [0] = Some (?t @ 0 # drop (Suc n) m)" if "n < length m" for m
    using t(2) that by (simp add: mem_write_def)
  show ?thesis
  proof (intro exI conjI)
    show "mem_write (?t @ drop n (sds_buf s)) n [0] = Some (?t @ 0 # drop (Suc n) (sds_buf s))"
      by (rule wr [OF len(1)])
    show "sds_rep (s\<lparr>sds_buf := ?t @ 0 # drop (Suc n) (sds_buf s),
        sds_free := sds_free s + sds_len s - n, sds_len := n\<rparr>) ?t"
      using len t(2) r(2,3) by (intro sds_repI [where r = "drop (Suc n) (sds_buf s)"]) simp_all
  qed (rule mv)
qed

lemma sds_rep_cut:
  assumes "sds_rep s xs" and "n \<le> length xs"
  shows "\<exists>b. mem_write (sds_buf s) n [0] = Some b \<and>
    sds_rep (s\<lparr>sds_buf := b, sds_free := sds_free s + sds_len s - n, sds_len := n\<rparr>) (take n xs)"
proof -
  obtain r where r: "sds_buf s = xs @ 0 # r"
    using assms(1) by (rule sds_repE)
  have "mem_move (sds_buf s) 0 0 n = Some (sds_buf s)"
    using assms(2) r by (simp add: mem_move_front)
  then show ?thesis
    using sds_rep_front [OF assms(1), of 0 n] assms(2) by auto
qed

lemma trim_left_correct:
  "sp \<le> length xs \<Longrightarrow>
     trim_left (xs @ r) cset sp (int (length xs) - 1) =
       Some (sp + length (takeWhile (in_cset cset) (drop sp xs)))"
proof (induction "length xs - sp" arbitrary: sp)
  case 0
  then show ?case by (simp add: trim_left.simps)
next
  case (Suc k)
  then have lt: "sp < length xs" by simp
  then have d: "drop sp xs = xs ! sp # drop (Suc sp) xs"
    by (simp add: Cons_nth_drop_Suc)
  have "mem_byte (xs @ r) sp = Some (xs ! sp)"
    using lt by (simp add: mem_byte_def nth_append)
  with lt d Suc.hyps(1) [of "Suc sp"] Suc.hyps(2) show ?case
    by (subst trim_left.simps) (simp add: d)
qed

lemma trim_right_correct:
  "ep < length b \<Longrightarrow>
     \<exists>e. trim_right b cset ep = Some e \<and> e \<le> ep \<and> (\<forall>i. e < i \<and> i \<le> ep \<longrightarrow> in_cset cset (b ! i)) \<and>
       (e = 0 \<or> \<not> in_cset cset (b ! e))"
proof (induction ep)
  case (Suc ep)
  then obtain e where e: "trim_right b cset ep = Some e" "e \<le> ep"
    "\<forall>i. e < i \<and> i \<le> ep \<longrightarrow> in_cset cset (b ! i)" "e = 0 \<or> \<not> in_cset cset (b ! e)" by auto
  have b: "mem_byte b (Suc ep) = Some (b ! Suc ep)"
    using Suc.prems by (simp add: mem_byte_def)
  show ?case
  proof (cases "in_cset cset (b ! Suc ep)")
    case True
    then show ?thesis
      using e b by (intro exI [of _ e]) (auto simp: trim_right.simps [of b cset "Suc ep"] le_Suc_eq)
  next
    case False
    then show ?thesis
      using b by (auto simp: trim_right.simps [of b cset "Suc ep"])
  qed
qed (simp add: trim_right.simps)

definition trimmed :: "byte list \<Rightarrow> byte list \<Rightarrow> byte list" where
  "trimmed cset xs = rev (dropWhile (in_cset cset) (rev (dropWhile (in_cset cset) xs)))"

lemma rev_dropWhile_last:
  "\<forall>x \<in> set zs. P x \<Longrightarrow> \<not> P y \<Longrightarrow> rev (dropWhile P (rev (ys @ y # zs))) = ys @ [y]"
  by (simp add: dropWhile_append3)

lemma trimmed_bounds:
  assumes sp: "sp = length (takeWhile (in_cset cset) xs)" and e: "e < length xs"
    and tail: "\<forall>i. e < i \<and> i < length xs \<longrightarrow> in_cset cset (xs ! i)"
    and stop: "e = 0 \<or> \<not> in_cset cset (xs ! e)"
  shows "trimmed cset xs = (if e < sp then [] else take (e - sp + 1) (drop sp xs))"
proof -
  let ?P = "in_cset cset"
  have drop: "dropWhile ?P xs = drop sp xs" by (simp add: sp dropWhile_eq_drop)
  have at: "\<not> ?P (xs ! sp)" if "sp < length xs"
    using that nth_length_takeWhile [of ?P xs] sp by simp
  show ?thesis
  proof (cases "e < sp")
    case True
    have "?P x" if x: "x \<in> set xs" for x
    proof -
      obtain i where i: "i < length xs" "xs ! i = x"
        using x by (auto simp: in_set_conv_nth)
      show ?thesis
      proof (cases "i < sp")
        case True
        then show ?thesis using i sp by (metis set_takeWhileD nth_mem takeWhile_nth)
      next
        case False
        then show ?thesis using i tail \<open>e < sp\<close> by auto
      qed
    qed
    then show ?thesis using True by (auto simp: trimmed_def dest: set_dropWhileD)
  next
    case False
    then have y: "\<not> ?P (xs ! e)" using stop at e by (cases "e = 0") auto
    let ?ys = "take (e - sp) (drop sp xs)" and ?zs = "drop (Suc e) xs"
    have "drop sp xs ! (e - sp) = xs ! e" "Suc (e - sp) + sp = Suc e"
      using False e by simp_all
    then have "drop sp xs = ?ys @ xs ! e # ?zs"
      using id_take_nth_drop [of "e - sp" "drop sp xs"] False e by simp
    moreover have "\<forall>x \<in> set ?zs. ?P x"
      using tail by (auto simp: in_set_conv_nth)
    moreover have "take (e - sp + 1) (drop sp xs) = ?ys @ [xs ! e]"
      using False e by (simp add: take_Suc_conv_app_nth)
    ultimately show ?thesis
      using rev_dropWhile_last [of ?zs ?P "xs ! e" ?ys] y False drop by (simp add: trimmed_def)
  qed
qed

text \<open>\<open>sdstrim\<close> removes the longest prefix and suffix of characters of the set (and of
  NUL bytes, which \<^verbatim>\<open>strchr\<close> finds at the end of every set) without leaving the buffer.\<close>

lemma sdstrim_rep:
  assumes rep: "sds_rep s xs"
  shows "\<exists>s'. sdstrim s cset = Some s' \<and> sds_rep s' (trimmed cset xs)"
proof -
  obtain r where r: "sds_buf s = xs @ 0 # r" "sds_free s = length r" "sds_len s = length xs"
    using rep by (rule sds_repE)
  let ?sp = "length (takeWhile (in_cset cset) xs)"
  have sp: "trim_left (sds_buf s) cset 0 (int (sds_len s) - 1) = Some ?sp" "?sp \<le> length xs"
    using trim_left_correct [of 0 xs "0 # r" cset] r by (simp_all add: length_takeWhile_le)
  show ?thesis
  proof (cases "xs = []")
    case True
    then show ?thesis
      using sp r rep sds_rep_cut [OF rep, of 0]
      by (auto simp: sdstrim_def Let_def trimmed_def require_def)
  next
    case False
    have "length xs - 1 < length (sds_buf s)" using r by simp
    then obtain e where e: "trim_right (sds_buf s) cset (length xs - 1) = Some e" "e \<le> length xs - 1"
        "\<forall>i. e < i \<and> i \<le> length xs - 1 \<longrightarrow> in_cset cset (sds_buf s ! i)"
        "e = 0 \<or> \<not> in_cset cset (sds_buf s ! e)"
      using trim_right_correct [of "length xs - 1" "sds_buf s" cset] by blast
    have ep: "(if int (sds_len s) - 1 > 0
        then map_option int (trim_right (sds_buf s) cset (nat (int (sds_len s) - 1)))
        else Some (int (sds_len s) - 1)) = Some (int e)"
    proof (cases "length xs = 1")
      case True
      then show ?thesis using e(2) r by simp
    next
      case False
      have "nat (int (sds_len s) - 1) = length xs - 1" using r by simp
      then show ?thesis using e(1) r False \<open>xs \<noteq> []\<close> by (cases xs) simp_all
    qed
    define n where "n = (if e < ?sp then 0 else e - ?sp + 1)"
    have n: "nat (int e - int ?sp + 1) = n" if "\<not> e < ?sp" using that by (simp add: n_def)
    have lt: "e < length xs" using e(2) False by (cases xs) auto
    have "trimmed cset xs = (if e < ?sp then [] else take (e - ?sp + 1) (drop ?sp xs))"
      using e lt r by (intro trimmed_bounds) (auto simp: nth_append)
    then have tr: "trimmed cset xs = take n (drop ?sp xs)" by (simp add: n_def)
    have le: "?sp + n \<le> length xs" using sp(2) lt by (auto simp: n_def)
    have mv: "(if ?sp \<noteq> 0 then mem_move (sds_buf s) 0 ?sp n else Some (sds_buf s)) =
        mem_move (sds_buf s) 0 ?sp n"
      using le r by (auto simp: mem_move_front)
    have nn: "(if int ?sp > int e then 0 else nat (int e - int ?sp + 1)) = n"
      using n by (simp add: n_def)
    have le': "n \<le> sds_free s + sds_len s" using le r by simp
    have "sdstrim s cset = do {
        b \<leftarrow> mem_move (sds_buf s) 0 ?sp n;
        b \<leftarrow> mem_write b n [0];
        Some (s\<lparr>sds_buf := b, sds_free := sds_free s + sds_len s - n, sds_len := n\<rparr>) }"
      using le' unfolding sdstrim_def Let_def sp(1) ep
      by (simp only: Option.bind.simps bind_assoc nn mv require_bind)
    then show ?thesis
      using sds_rep_front [OF rep le] tr by auto
  qed
qed

lemma sdstrim_rep_witness:
  "\<exists>s'. sdstrim \<lparr>sds_len = 3, sds_free = 0, sds_buf = [120, 65, 120, 0]\<rparr> [120] = Some s' \<and>
     sds_rep s' (trimmed [120] [120, 65, 120])"
  by (rule sdstrim_rep) (simp add: sds_rep_def)

text \<open>The slice \<open>start\<close> to \<open>en\<close>, both inclusive and counted from the end when negative.\<close>

definition slice :: "int \<Rightarrow> int \<Rightarrow> 'a list \<Rightarrow> 'a list" where
  "slice start en xs =
     (let n = int (length xs);
          a = (if start < 0 then max 0 (n + start) else start);
          b = (if en < 0 then max 0 (n + en) else en)
      in take (nat (b - a + 1)) (drop (nat a) xs))"

lemma sdsrange_slices:
  assumes rep: "sds_rep s xs" and i: "INT32_MIN \<le> start" "start \<le> INT32_MAX" "INT32_MIN \<le> en"
    "en < INT32_MAX" and len: "fits_int (length xs)"
  shows "\<exists>s'. sdsrange s start en = Some s' \<and> sds_rep s' (slice start en xs)"
proof (cases "xs = []")
  case True
  then show ?thesis using rep sds_repD [OF rep] by (simp add: sdsrange_def slice_def)
next
  case False
  define n where "n = int (length xs)"
  define a where "a = (if start < 0 then max 0 (n + start) else start)"
  define b where "b = (if en < 0 then max 0 (n + en) else en)"
  have ab: "0 \<le> a" "0 \<le> b" "b - a + 1 \<le> INT32_MAX"
    using i len by (auto simp: a_def b_def n_def fits_int_def c_limits)
  have max: "(if x < 0 then (if n + x < 0 then 0 else n + x) else x) =
      (if x < 0 then max 0 (n + x) else x)" for x :: int by simp
  have n: "int (sds_len s) = n" using sds_repD [OF rep] by (simp add: n_def)
  have sl: "slice start en xs = take (nat (b - a + 1)) (drop (nat a) xs)"
    by (simp add: slice_def Let_def a_def b_def n_def)
  define m where "m = (if a > b \<or> a \<ge> n then 0 else if b \<ge> n then n - a else b - a + 1)"
  have m: "0 \<le> m" "m \<noteq> 0 \<Longrightarrow> nat a + nat m \<le> length xs" "nat m \<le> length xs"
    using ab by (auto simp: m_def n_def)
  have slm: "slice start en xs = take (nat m) (drop (nat a) xs)"
    using ab unfolding sl m_def n_def by (auto simp: nat_diff_distrib')
  let ?na = "if a > b then 0 else b - a + 1"
  obtain a' where a': "(if ?na \<noteq> 0 then
                 if a \<ge> n then (a, 0)
                 else if b \<ge> n then (a, if a > n - 1 then 0 else n - 1 - a + 1)
                 else (a, ?na)
               else (0, ?na)) = (a', m)" and am: "m \<noteq> 0 \<Longrightarrow> a' = a"
    by (cases "a > b"; cases "a \<ge> n"; cases "b \<ge> n") (auto simp: m_def)
  have room: "nat m \<le> sds_free s + sds_len s" using m(3) sds_repD [OF rep] by simp
  have req: "require (a > b \<or> b - a + 1 \<le> INT32_MAX) = Some ()"
    using ab(3) by (simp add: require_def)
  have n0: "n \<noteq> 0" using False by (simp add: n_def)
  have run: "sdsrange s start en = do {
      buf \<leftarrow> (if a' \<noteq> 0 \<and> m \<noteq> 0 then mem_move (sds_buf s) 0 (nat a') (nat m) else Some (sds_buf s));
      buf \<leftarrow> mem_write buf (nat m) [0];
      Some (s\<lparr>sds_buf := buf, sds_free := sds_free s + sds_len s - nat m, sds_len := nat m\<rparr>) }"
    using room n0 unfolding sdsrange_def Let_def n max a_def [symmetric] b_def [symmetric] req
    by (simp only: Option.bind.simps bind_assoc if_False a' prod.case require_bind)
  show ?thesis
  proof (cases "m \<noteq> 0 \<and> a \<noteq> 0")
    case True
    then show ?thesis
      using sds_rep_front [OF rep, of "nat a" "nat m"] m(2) am unfolding slm run by auto
  next
    case f: False
    then have "slice start en xs = take (nat m) xs" using slm by auto
    moreover have "\<not> (a' \<noteq> 0 \<and> m \<noteq> 0)" using f am by auto
    ultimately show ?thesis
      using sds_rep_cut [OF rep m(3)] unfolding run by auto
  qed
qed

lemma sdsrange_drop:
  assumes "sds_rep s xs" and "n \<le> length xs" and "fits_int (length xs)"
  shows "\<exists>s'. sdsrange s (int n) (-1) = Some s' \<and> sds_rep s' (drop n xs)"
proof -
  have "slice (int n) (-1) xs = drop n xs"
    using assms(2) by (cases "xs = []") (auto simp: slice_def Let_def)
  then show ?thesis
    using sdsrange_slices [OF assms(1), of "int n" "-1"] assms(2,3) by (simp add: fits_int_def c_limits)
qed

text \<open>\<open>sdsrange\<close> keeps the slice between two indices, inclusive, negative ones counted
  from the end and those outside the string clipped.\<close>

lemma sdsrange_rep:
  assumes rep: "sds_rep s xs" and i: "INT32_MIN \<le> start" "start \<le> INT32_MAX" "INT32_MIN \<le> en"
    "en < INT32_MAX" and len: "fits_int (length xs)"
  shows "\<exists>s'. sdsrange s start en = Some s' \<and> sds_rep s' (slice start en xs)"
  by (rule sdsrange_slices [OF assms])

lemma sdsrange_rep_witness:
  "\<exists>s'. sdsrange \<lparr>sds_len = 3, sds_free = 0, sds_buf = [1, 2, 3, 0]\<rparr> 1 (-1) = Some s' \<and>
     sds_rep s' (slice 1 (-1) [1, 2, 3])"
  by (rule sdsrange_rep) (simp_all add: sds_rep_def c_limits fits_int_def)

lemma sds_map_rep:
  assumes "sds_rep s xs"
  shows "\<exists>s'. sds_map f s = Some s' \<and> sds_rep s' (map f xs)"
proof -
  obtain r where r: "sds_buf s = xs @ 0 # r" "sds_free s = length r" "sds_len s = length xs"
    using assms by (rule sds_repE)
  then have "mem_read (sds_buf s) 0 (sds_len s) = Some xs"
    "mem_write (sds_buf s) 0 (map f xs) = Some (map f xs @ 0 # r)"
    by (simp_all add: mem_read_def mem_write_def)
  with r show ?thesis
    by (auto simp: sds_map_def intro!: sds_repI)
qed

text \<open>\<^verbatim>\<open>memcmp\<close> orders by the first differing byte, \<^verbatim>\<open>sdscmp\<close> then by length.\<close>

lemma memcmp_values: "memcmp xs ys \<in> {-1, 0, 1}"
  by (induction xs ys rule: memcmp.induct) auto

lemma memcmp_0: "length xs = length ys \<Longrightarrow> memcmp xs ys = 0 \<longleftrightarrow> xs = ys"
  by (induction xs ys rule: list_induct2) auto

lemma cmp_spec:
  fixes xs ys :: "byte list"
  defines "m \<equiv> min (length xs) (length ys)"
  defines "c \<equiv> memcmp (take m xs) (take m ys)"
  defines "r \<equiv> (if c = 0 then int (length xs) - int (length ys) else c)"
  shows "(r < 0 \<longleftrightarrow> ord_class.lexordp xs ys) \<and> (r = 0 \<longleftrightarrow> xs = ys)"
  unfolding r_def c_def m_def
proof (induction xs ys rule: memcmp.induct)
  case (1 a as b bs)
  then show ?case by (cases a b rule: linorder_cases) auto
qed (auto simp: neq_Nil_conv)

text \<open>\<open>sdscmp\<close> orders strings lexicographically by unsigned bytes, a proper prefix first,
  and is zero only for equal strings.\<close>

lemma sdscmp_rep:
  assumes "sds_rep s xs" and "sds_rep t ys"
  shows "\<exists>r. sdscmp s t = Some r \<and> (r < 0 \<longleftrightarrow> ord_class.lexordp xs ys) \<and> (r = 0 \<longleftrightarrow> xs = ys)"
proof -
  let ?m = "if length xs < length ys then length xs else length ys"
  have m: "?m = min (length xs) (length ys)" by simp
  obtain p where p: "sds_buf s = xs @ 0 # p" "sds_len s = length xs"
    using assms(1) by (rule sds_repE)
  obtain q where q: "sds_buf t = ys @ 0 # q" "sds_len t = length ys"
    using assms(2) by (rule sds_repE)
  have "mem_read (sds_buf s) 0 ?m = Some (take ?m xs)" "mem_read (sds_buf t) 0 ?m = Some (take ?m ys)"
    using p q by (simp_all add: mem_read_def)
  then show ?thesis
    using cmp_spec [of xs ys] p(2) q(2) by (simp add: sdscmp_def Let_def m)
qed

lemma sdscmp_rep_witness:
  "\<exists>r. sdscmp \<lparr>sds_len = 1, sds_free = 0, sds_buf = [200, 0]\<rparr>
      \<lparr>sds_len = 2, sds_free = 0, sds_buf = [200, 1, 0]\<rparr> = Some r \<and>
    (r < 0 \<longleftrightarrow> ord_class.lexordp [200 :: byte] [200, 1]) \<and> (r = 0 \<longleftrightarrow> [200 :: byte] = [200, 1])"
  by (rule sdscmp_rep) (simp_all add: sds_rep_def)

end
