(* ===== verification/SdsText.thy ===== *)
theory SdsText
  imports Sds
begin

text \<open>
  The text functions of \<^verbatim>\<open>src/webserver/redis/src/sds.c\<close>: splitting by a separator
  (\<open>sdssplitlen\<close>), number printing (\<open>sdsfromlonglong\<close>), and the quoted form of a string,
  which \<open>sdscatrepr\<close> writes and \<open>sdssplitargs\<close> reads back. The C strings given to
  these functions are blocks with checked reads; the line of \<open>sdssplitargs\<close> contains its
  terminating NUL.
\<close>

section \<open>Splitting by a separator\<close>

text \<open>
  The token array is the list of the tokens stored so far, of which at most \<open>slots\<close> fit.
  The two tests of a match are in the order of the C condition.
\<close>

definition sep_match :: "byte list \<Rightarrow> nat \<Rightarrow> byte list \<Rightarrow> nat \<Rightarrow> bool option" where
  "sep_match s j sep seplen =
     do { one \<leftarrow> (if seplen = 1
                then do { c \<leftarrow> mem_byte s j; d \<leftarrow> mem_byte sep 0; Some (c = d) } else Some False);
          if one then Some True
          else do {
            a \<leftarrow> mem_read s j seplen;
            b \<leftarrow> mem_read sep 0 seplen;
            Some (memcmp a b = 0) } }"

definition put_token :: "nat \<Rightarrow> sds list \<Rightarrow> sds \<Rightarrow> sds list option" where
  "put_token slots tokens t = do { require (length tokens < slots); Some (tokens @ [t]) }"

function split_loop ::
  "byte list \<Rightarrow> nat \<Rightarrow> byte list \<Rightarrow> nat \<Rightarrow> nat \<Rightarrow> nat \<Rightarrow> nat \<Rightarrow> sds list \<Rightarrow> (nat \<times> nat \<times> sds list) option"
where
  "split_loop s len sep seplen j start slots tokens =
     (if seplen = 0 then None
      else if int j < int len - (int seplen - 1) then do {
        slots \<leftarrow> (if slots < length tokens + 2
                  then do { require (fits_int (slots * 2)); Some (slots * 2) } else Some slots);
        hit \<leftarrow> sep_match s j sep seplen;
        if hit then do {
          t \<leftarrow> sdsnewlen (Some (drop start s)) (j - start);
          tokens \<leftarrow> put_token slots tokens t;
          split_loop s len sep seplen (j + seplen - 1 + 1) (j + seplen) slots tokens }
        else split_loop s len sep seplen (j + 1) start slots tokens }
      else Some (start, slots, tokens))"
  by pat_completeness auto
termination
  by (relation "measure (\<lambda>(s, len, sep, seplen, j, start, slots, tokens). len - j)") auto

declare split_loop.simps [simp del]

text \<open>The result \<open>None\<close> inside \<open>Some\<close> is the \<^verbatim>\<open>NULL\<close> of the C function.\<close>

definition sdssplitlen :: "byte list \<Rightarrow> int \<Rightarrow> byte list \<Rightarrow> int \<Rightarrow> sds list option option" where
  "sdssplitlen s len sep seplen =
     (if seplen < 1 \<or> len < 0 then Some None
      else if len = 0 then Some (Some [])
      else do {
        (start, slots, tokens) \<leftarrow> split_loop s (nat len) sep (nat seplen) 0 0 5 [];
        t \<leftarrow> sdsnewlen (Some (drop start s)) (nat len - start);
        tokens \<leftarrow> put_token slots tokens t;
        Some (Some tokens) })"

text \<open>What splitting promises: the tokens, joined by the separator, give the text back,
  and the separator occurs in no token.\<close>

fun join :: "'a list \<Rightarrow> 'a list list \<Rightarrow> 'a list" where
  "join sep [] = []"
| "join sep [t] = t"
| "join sep (t # ts) = t @ sep @ join sep ts"

definition occurs_at :: "'a list \<Rightarrow> nat \<Rightarrow> 'a list \<Rightarrow> bool" where
  "occurs_at sep i xs \<longleftrightarrow> i + length sep \<le> length xs \<and> take (length sep) (drop i xs) = sep"

lemma join_snoc: "ts \<noteq> [] \<Longrightarrow> join sep (ts @ [t]) = join sep ts @ sep @ t"
  by (induction sep ts rule: join.induct) (auto simp: neq_Nil_conv)

lemma occurs_at_slice:
  "occurs_at sep i (take k (drop a xs)) \<Longrightarrow> a \<le> length xs \<Longrightarrow> occurs_at sep (a + i) xs"
  by (auto simp: occurs_at_def min_def add.commute drop_take split: if_splits)

lemma sep_match_correct:
  assumes "j + length sep \<le> length xs" and "sep \<noteq> []"
  shows "sep_match xs j sep (length sep) = Some (occurs_at sep j xs)"
proof -
  have "memcmp (take (length sep) (drop j xs)) sep = 0 \<longleftrightarrow> take (length sep) (drop j xs) = sep"
    using assms by (intro memcmp_0) simp
  moreover have "length sep = 1 \<Longrightarrow> occurs_at sep j xs \<longleftrightarrow> xs ! j = sep ! 0"
    using assms by (cases sep) (auto simp: occurs_at_def take_Suc drop_Suc hd_drop_conv_nth)
  ultimately show ?thesis
    using assms by (auto simp: sep_match_def mem_byte_def mem_read_def occurs_at_def)
qed

text \<open>The state of the scan: tokens \<open>ts\<close> taken, the current one begins at \<open>start\<close>, no match
  begins in \<open>start\<close> to \<open>j\<close>.\<close>

definition split_inv ::
  "byte list \<Rightarrow> byte list \<Rightarrow> nat \<Rightarrow> nat \<Rightarrow> nat \<Rightarrow> sds list \<Rightarrow> byte list list \<Rightarrow> bool" where
  "split_inv xs sep j start slots toks ts \<longleftrightarrow>
     start \<le> j \<and> start \<le> length xs \<and> list_all2 sds_rep toks ts \<and> length ts < slots \<and>
     length ts * length sep \<le> start \<and>
     (\<forall>t. join sep (ts @ [t]) = take start xs @ t) \<and>
     (\<forall>t \<in> set ts. \<forall>i. \<not> occurs_at sep i t) \<and>
     (\<forall>i. start \<le> i \<and> i < j \<longrightarrow> \<not> occurs_at sep i xs)"


lemma take_extend:
  "a \<le> j \<Longrightarrow> occurs_at sep j xs \<Longrightarrow>
     take (j + length sep) xs = take a xs @ take (j - a) (drop a xs) @ sep"
  using take_add [of a "j - a" xs] take_add [of j "length sep" xs] by (simp add: occurs_at_def)

lemma split_inv_hit:
  assumes inv: "split_inv xs sep j start slots toks ts" and hit: "occurs_at sep j xs"
    and t: "sds_rep t (take (j - start) (drop start xs))" and "sep \<noteq> []"
    and room: "length ts + 1 < slots'"
  shows "split_inv xs sep (j + length sep) (j + length sep) slots' (toks @ [t])
           (ts @ [take (j - start) (drop start xs)])" (is "split_inv _ _ _ _ _ _ (ts @ [?u])")
proof -
  have le: "start \<le> j" "start \<le> length xs" "j + length sep \<le> length xs"
    using inv hit by (auto simp: split_inv_def occurs_at_def)
  have "\<not> occurs_at sep i ?u" for i
  proof
    assume occ: "occurs_at sep i ?u"
    then have "start + i < j"
      using \<open>sep \<noteq> []\<close> le by (cases sep) (auto simp: occurs_at_def)
    moreover have "occurs_at sep (start + i) xs"
      using occurs_at_slice [OF occ] le by simp
    ultimately show False using inv by (auto simp: split_inv_def)
  qed
  moreover have "join sep ((ts @ [?u]) @ [v]) = take (j + length sep) xs @ v" for v
  proof -
    have "join sep ((ts @ [?u]) @ [v]) = join sep (ts @ [?u]) @ sep @ v"
      by (rule join_snoc) simp
    also have "join sep (ts @ [?u]) = take start xs @ ?u"
      using inv unfolding split_inv_def by blast
    finally show ?thesis
      using take_extend [OF le(1) hit] by simp
  qed
  moreover have "length ts * length sep + length sep \<le> j + length sep"
    using inv le by (simp add: split_inv_def)
  ultimately show ?thesis
    using inv t room le by (auto simp: split_inv_def list_all2_appendI)
qed

lemma sdsnewlen_take:
  "n \<le> length b \<Longrightarrow> fits_int n \<Longrightarrow> \<exists>s. sdsnewlen (Some b) n = Some s \<and> sds_rep s (take n b)"
  by (auto simp: sdsnewlen_def mem_read_def mem_write_def sds_rep_def)

lemma split_loop_correct:
  assumes "sep \<noteq> []" and "int (length xs) < 2 ^ 30"
  shows "split_inv xs sep j start slots toks ts \<Longrightarrow>
    \<exists>j' start' slots' toks' ts'.
      split_loop xs (length xs) sep (length sep) j start slots toks = Some (start', slots', toks') \<and>
      split_inv xs sep j' start' slots' toks' ts' \<and> length xs < j' + length sep"
proof (induction "length xs - j" arbitrary: j start slots toks ts rule: less_induct)
  case less
  note inv = less.prems
  show ?case
  proof (cases "int j < int (length xs) - (int (length sep) - 1)")
    case False
    then have "split_loop xs (length xs) sep (length sep) j start slots toks = Some (start, slots, toks)"
      using assms(1) by (simp add: split_loop.simps)
    moreover have "length xs < j + length sep" using False by linarith
    ultimately show ?thesis using inv by blast
  next
    case True
    then have j: "j + length sep \<le> length xs" by linarith
    have sep: "0 < length sep" using assms(1) by simp
    have toks: "length toks = length ts" "length ts < slots" "start \<le> j"
      using inv by (auto simp: split_inv_def dest: list_all2_lengthD)
    have "length ts * 1 \<le> length ts * length sep"
      by (rule mult_le_mono2) (use sep in linarith)
    then have few: "length ts \<le> j"
      using inv toks(3) unfolding split_inv_def by linarith
    define sl where "sl = (if slots < length toks + 2 then slots * 2 else slots)"
    have fit: "fits_int (slots * 2)" if "slots < length toks + 2"
    proof -
      have "int (length xs) < 1073741824" using assms(2) by simp
      then show ?thesis using that few j toks(1) sep unfolding fits_int_def by linarith
    qed
    have slots: "(if slots < length toks + 2
        then do { require (fits_int (slots * 2)); Some (slots * 2) } else Some slots) = Some sl"
      using fit by (simp add: sl_def)
    have sl: "length ts + 1 < sl" using toks by (auto simp: sl_def)
    have step: "split_loop xs (length xs) sep (length sep) j start slots toks =
        (if occurs_at sep j xs
         then do { t \<leftarrow> sdsnewlen (Some (drop start xs)) (j - start);
                   toks \<leftarrow> put_token sl toks t;
                   split_loop xs (length xs) sep (length sep) (j + length sep - 1 + 1) (j + length sep) sl toks }
         else split_loop xs (length xs) sep (length sep) (j + 1) start sl toks)"
      using True sep sep_match_correct [OF j assms(1)] slots
      by (subst split_loop.simps) (simp only: Option.bind.simps, simp)
    show ?thesis
    proof (cases "occurs_at sep j xs")
      case hit: True
      obtain t where t: "sdsnewlen (Some (drop start xs)) (j - start) = Some t"
          "sds_rep t (take (j - start) (drop start xs))"
      proof -
        have "j - start \<le> length (drop start xs)" "fits_int (j - start)"
          using j toks assms(2) by (simp_all add: fits_int_def)
        from sdsnewlen_take [OF this] show ?thesis using that by blast
      qed
      have "j + length sep - 1 + 1 = j + length sep" using sep by simp
      moreover have "put_token sl toks t = Some (toks @ [t])"
        using sl toks by (simp add: put_token_def)
      ultimately have run: "split_loop xs (length xs) sep (length sep) j start slots toks =
          split_loop xs (length xs) sep (length sep) (j + length sep) (j + length sep) sl (toks @ [t])"
        using step hit t by simp
      have lt: "length xs - (j + length sep) < length xs - j" using j sep by linarith
      show ?thesis
        unfolding run by (rule less.hyps [OF lt split_inv_hit [OF inv hit t(2) assms(1) sl]])
    next
      case miss: False
      have "split_inv xs sep (j + 1) start sl toks ts"
        using inv miss sl by (auto simp: split_inv_def less_Suc_eq)
      moreover have "length xs - (j + 1) < length xs - j" using j sep by linarith
      ultimately show ?thesis
        using less.hyps [of "j + 1"] step miss by auto
    qed
  qed
qed

text \<open>\<open>sdssplitlen\<close> of a non-empty text by a non-empty separator never writes outside its
  token array or reads outside its arguments; joined by the separator the tokens give the
  text back, and no token contains the separator.\<close>

theorem sdssplitlen_join:
  assumes "sep \<noteq> []" and "xs \<noteq> []" and "int (length xs) < 2 ^ 30"
  shows "\<exists>toks ts. sdssplitlen xs (int (length xs)) sep (int (length sep)) = Some (Some toks) \<and>
    list_all2 sds_rep toks ts \<and> join sep ts = xs \<and> (\<forall>t \<in> set ts. \<forall>i. \<not> occurs_at sep i t)"
proof -
  have "split_inv xs sep 0 0 5 [] []" by (simp add: split_inv_def)
  from split_loop_correct [OF assms(1,3) this] obtain j start slots toks ts where
    run: "split_loop xs (length xs) sep (length sep) 0 0 5 [] = Some (start, slots, toks)"
    and inv: "split_inv xs sep j start slots toks ts" and j: "length xs < j + length sep"
    by blast
  let ?u = "take (length xs - start) (drop start xs)"
  have st: "start \<le> length xs" "length toks = length ts"
    using inv by (auto simp: split_inv_def dest: list_all2_lengthD)
  have "fits_int (length xs - start)" using assms(3) by (simp add: fits_int_def)
  from sdsnewlen_take [OF _ this, of "drop start xs"]
  obtain t where t: "sdsnewlen (Some (drop start xs)) (length xs - start) = Some t" "sds_rep t ?u"
    by auto
  have "\<not> occurs_at sep i ?u" for i
  proof
    assume occ: "occurs_at sep i ?u"
    then have "start + i < j" using j st by (auto simp: occurs_at_def)
    then show False
      using occurs_at_slice [OF occ st(1)] inv by (auto simp: split_inv_def)
  qed
  moreover have "join sep (ts @ [?u]) = xs" using inv by (simp add: split_inv_def)
  moreover have "list_all2 sds_rep (toks @ [t]) (ts @ [?u])"
    using inv t(2) by (simp add: split_inv_def list_all2_appendI)
  moreover have "sdssplitlen xs (int (length xs)) sep (int (length sep)) = Some (Some (toks @ [t]))"
  proof -
    have "\<not> int (length sep) < 1" "put_token slots toks t = Some (toks @ [t])"
      using assms(1) inv st by (auto simp: put_token_def split_inv_def not_less Suc_le_eq)
    then show ?thesis
      using assms(2) run t(1) by (simp add: sdssplitlen_def)
  qed
  ultimately show ?thesis
    using inv by (intro exI [of _ "toks @ [t]"] exI [of _ "ts @ [?u]"]) (auto simp: split_inv_def)
qed

lemma sdssplitlen_join_witness:
  "\<exists>toks ts. sdssplitlen [1, 9, 9, 2] 4 [9] 1 = Some (Some toks) \<and>
    list_all2 sds_rep toks ts \<and> join [9] ts = [1, 9, 9, 2] \<and>
    (\<forall>t \<in> set ts. \<forall>i. \<not> occurs_at [9] i t)"
  using sdssplitlen_join [of "[9]" "[1, 9, 9, 2]"] by simp

section \<open>Printing integers\<close>

text \<open>The negation of \<^verbatim>\<open>LLONG_MIN\<close> is undefined in C. The digits fill the end of a 32-byte
  buffer, of which \<^verbatim>\<open>p\<close> is the first used byte.\<close>

definition sdsfromlonglong :: "int \<Rightarrow> sds option" where
  "sdsfromlonglong v =
     (if v = LLONG_MIN then None
      else
        let digits = ll_digits (if v < 0 then - v else v) [];
            p = (if v < 0 then 45 # digits else digits)
        in sdsnewlen (Some p) (length p))"

section \<open>Quoting\<close>

definition isprint :: "byte \<Rightarrow> bool" where
  "isprint c \<longleftrightarrow> 32 \<le> c \<and> c \<le> 126"

text \<open>The character of a hexadecimal digit, as \<^verbatim>\<open>%x\<close> prints it.\<close>

definition hex_char :: "byte \<Rightarrow> byte" where
  "hex_char d = (if d < 10 then 48 + d else 87 + d)"

text \<open>One round of the loop of \<open>sdscatrepr\<close>: the switch on the character.\<close>

definition catrepr_char :: "sds \<Rightarrow> byte \<Rightarrow> sds option" where
  "catrepr_char s c =
     (if c = 92 \<or> c = 34 then sdscatprintf s [92, c]
      else if c = 10 then sdscatlen s [92, 110] 2
      else if c = 13 then sdscatlen s [92, 114] 2
      else if c = 9 then sdscatlen s [92, 116] 2
      else if c = 7 then sdscatlen s [92, 97] 2
      else if c = 8 then sdscatlen s [92, 98] 2
      else if isprint c then sdscatprintf s [c]
      else sdscatprintf s [92, 120, hex_char (c div 16), hex_char (c mod 16)])"

fun catrepr_loop :: "sds \<Rightarrow> byte list \<Rightarrow> nat \<Rightarrow> nat \<Rightarrow> sds option" where
  "catrepr_loop s b p 0 = Some s"
| "catrepr_loop s b p (Suc len) =
     do { c \<leftarrow> mem_byte b p; s \<leftarrow> catrepr_char s c; catrepr_loop s b (p + 1) len }"

definition sdscatrepr :: "sds \<Rightarrow> byte list \<Rightarrow> nat \<Rightarrow> sds option" where
  "sdscatrepr s p len =
     do { s \<leftarrow> sdscatlen s [34] 1; s \<leftarrow> catrepr_loop s p 0 len; sdscatlen s [34] 1 }"

section \<open>Reading arguments back\<close>

definition is_hex_digit :: "byte \<Rightarrow> bool" where
  "is_hex_digit c \<longleftrightarrow> 48 \<le> c \<and> c \<le> 57 \<or> 97 \<le> c \<and> c \<le> 102 \<or> 65 \<le> c \<and> c \<le> 70"

definition hex_digit_to_int :: "byte \<Rightarrow> byte" where
  "hex_digit_to_int c =
     (if 48 \<le> c \<and> c \<le> 57 then c - 48
      else if 97 \<le> c \<and> c \<le> 102 then c - 87
      else if 65 \<le> c \<and> c \<le> 70 then c - 55
      else 0)"

function skip_blanks :: "byte list \<Rightarrow> nat \<Rightarrow> nat option" where
  "skip_blanks line p =
     (case mem_byte line p of
        None \<Rightarrow> None
      | Some c \<Rightarrow> if c \<noteq> 0 \<and> isspace c then skip_blanks line (p + 1) else Some p)"
  by pat_completeness auto
termination
  by (relation "measure (\<lambda>(line, p). length line - p)") (auto simp: mem_byte_def split: if_splits)

declare skip_blanks.simps [simp del]

text \<open>
  One round of the token loop of \<open>sdssplitargs\<close>, up to the final advance. The result is
  \<open>ArgErr\<close> (the jump to \<^verbatim>\<open>err\<close>) or the new pointer, the flags \<^verbatim>\<open>inq\<close>, \<^verbatim>\<open>insq\<close>, \<^verbatim>\<open>done\<close>
  and the token. The reads stop where the C conditions stop.
\<close>

datatype arg_result = ArgErr | ArgNext nat bool bool bool sds

text \<open>\<^verbatim>\<open>*p == '\\' && *(p+1) == 'x' && is_hex_digit(*(p+2)) && is_hex_digit(*(p+3))\<close>\<close>

definition at_hex_escape :: "byte list \<Rightarrow> nat \<Rightarrow> bool option" where
  "at_hex_escape line p =
     do { c0 \<leftarrow> mem_byte line p;
          if c0 \<noteq> 92 then Some False else do {
          c1 \<leftarrow> mem_byte line (p + 1);
          if c1 \<noteq> 120 then Some False else do {
          c2 \<leftarrow> mem_byte line (p + 2);
          if \<not> is_hex_digit c2 then Some False else do {
          c3 \<leftarrow> mem_byte line (p + 3);
          Some (is_hex_digit c3) } } } }"

text \<open>\<^verbatim>\<open>*(p+1) && !isspace(*(p+1))\<close>, the check behind a closing quote.\<close>

definition bad_after_quote :: "byte list \<Rightarrow> nat \<Rightarrow> bool option" where
  "bad_after_quote line p = do { c \<leftarrow> mem_byte line (p + 1); Some (c \<noteq> 0 \<and> \<not> isspace c) }"

definition unescape :: "byte \<Rightarrow> byte" where
  "unescape c =
     (if c = 110 then 10 else if c = 114 then 13 else if c = 116 then 9
      else if c = 98 then 8 else if c = 97 then 7 else c)"

definition arg_inq :: "byte list \<Rightarrow> nat \<Rightarrow> bool \<Rightarrow> sds \<Rightarrow> arg_result option" where
  "arg_inq line p insq cur =
     do { hex \<leftarrow> at_hex_escape line p;
          c \<leftarrow> mem_byte line p;
          if hex then do {
            h \<leftarrow> mem_byte line (p + 2);
            l \<leftarrow> mem_byte line (p + 3);
            cur \<leftarrow> sdscatlen cur [hex_digit_to_int h * 16 + hex_digit_to_int l] 1;
            Some (ArgNext (p + 3) True insq False cur) }
          else do {
            esc \<leftarrow> (if c = 92 then do { d \<leftarrow> mem_byte line (p + 1); Some (d \<noteq> 0) } else Some False);
            if esc then do {
              d \<leftarrow> mem_byte line (p + 1);
              cur \<leftarrow> sdscatlen cur [unescape d] 1;
              Some (ArgNext (p + 1) True insq False cur) }
            else if c = 34 then do {
              bad \<leftarrow> bad_after_quote line p;
              if bad then Some ArgErr else Some (ArgNext p True insq True cur) }
            else if c = 0 then Some ArgErr
            else do { cur \<leftarrow> sdscatlen cur [c] 1; Some (ArgNext p True insq False cur) } } }"

definition arg_insq :: "byte list \<Rightarrow> nat \<Rightarrow> sds \<Rightarrow> arg_result option" where
  "arg_insq line p cur =
     do { c \<leftarrow> mem_byte line p;
          esc \<leftarrow> (if c = 92 then do { d \<leftarrow> mem_byte line (p + 1); Some (d = 39) } else Some False);
          if esc then do {
            cur \<leftarrow> sdscatlen cur [39] 1;
            Some (ArgNext (p + 1) False True False cur) }
          else if c = 39 then do {
            bad \<leftarrow> bad_after_quote line p;
            if bad then Some ArgErr else Some (ArgNext p False True True cur) }
          else if c = 0 then Some ArgErr
          else do { cur \<leftarrow> sdscatlen cur [c] 1; Some (ArgNext p False True False cur) } }"

definition arg_plain :: "byte list \<Rightarrow> nat \<Rightarrow> sds \<Rightarrow> arg_result option" where
  "arg_plain line p cur =
     do { c \<leftarrow> mem_byte line p;
          if c = 32 \<or> c = 10 \<or> c = 13 \<or> c = 9 \<or> c = 0 then Some (ArgNext p False False True cur)
          else if c = 34 then Some (ArgNext p True False False cur)
          else if c = 39 then Some (ArgNext p False True False cur)
          else do { cur \<leftarrow> sdscatlen cur [c] 1; Some (ArgNext p False False False cur) } }"

definition arg_step :: "byte list \<Rightarrow> nat \<Rightarrow> bool \<Rightarrow> bool \<Rightarrow> sds \<Rightarrow> arg_result option" where
  "arg_step line p inq insq cur =
     (if inq then arg_inq line p insq cur
      else if insq then arg_insq line p cur
      else arg_plain line p cur)"

text \<open>The pointer never moves back, and stops on a NUL only when the token is done.\<close>

lemma arg_step_progress:
  assumes "arg_step line p inq insq cur = Some (ArgNext p' inq' insq' d cur')"
    and "mem_byte line p' = Some c"
  shows "p \<le> p' \<and> p' < length line \<and> (\<not> d \<longrightarrow> c \<noteq> 0)"
proof -
  have hex0: "is_hex_digit b \<Longrightarrow> b \<noteq> 0" for b by (auto simp: is_hex_digit_def)
  show ?thesis
    using assms
    by (auto simp: arg_step_def arg_inq_def arg_insq_def arg_plain_def at_hex_escape_def
        bind_Some_iff mem_byte_def hex0 split: if_splits)
qed

function arg_loop :: "byte list \<Rightarrow> nat \<Rightarrow> bool \<Rightarrow> bool \<Rightarrow> sds \<Rightarrow> (nat \<times> sds) option option" where
  "arg_loop line p inq insq cur =
     (case arg_step line p inq insq cur of
        None \<Rightarrow> None
      | Some ArgErr \<Rightarrow> Some None
      | Some (ArgNext p' inq' insq' d cur') \<Rightarrow>
          (case mem_byte line p' of
             None \<Rightarrow> None
           | Some c \<Rightarrow>
               let p'' = (if c \<noteq> 0 then p' + 1 else p')
               in if d then Some (Some (p'', cur')) else arg_loop line p'' inq' insq' cur'))"
  by pat_completeness auto
termination
proof (relation "measure (\<lambda>(line, p, inq, insq, cur). length line - p)")
  fix line p inq insq cur x p' inq' insq' d cur' c p''
  assume "arg_step line p inq insq cur = Some x" "x = ArgNext p' inq' insq' d cur'"
    "mem_byte line p' = Some c" "p'' = (if c \<noteq> 0 then p' + 1 else p')" "\<not> d"
  then show "((line, p'', inq', insq', cur'), line, p, inq, insq, cur) \<in>
      measure (\<lambda>(line, p, inq, insq, cur). length line - p)"
    using arg_step_progress [of line p inq insq cur p' inq' insq' d cur' c] by auto
qed simp

declare arg_loop.simps [simp del]

lemma arg_loop_mono:
  "arg_loop line p inq insq cur = Some (Some (p', cur')) \<Longrightarrow> p \<le> p'"
proof (induction line p inq insq cur rule: arg_loop.induct)
  case (1 line p inq insq cur)
  show ?case
    using 1(2) arg_step_progress [of line p inq insq cur] 1(1)
    by (subst (asm) arg_loop.simps)
      (fastforce split: option.splits arg_result.splits if_splits simp: Let_def)
qed

lemma arg_loop_progress:
  assumes "arg_loop line p inq insq cur = Some (Some (p', cur'))" and "mem_byte line p = Some c"
    and "c \<noteq> 0"
  shows "p < p'"
proof -
  from assms(1) obtain p1 i1 s1 d c1 cur1 where
    step: "arg_step line p inq insq cur = Some (ArgNext p1 i1 s1 d cur1)"
    and c1: "mem_byte line p1 = Some c1"
    and res: "if d then p' = (if c1 \<noteq> 0 then p1 + 1 else p1)
      else arg_loop line (if c1 \<noteq> 0 then p1 + 1 else p1) i1 s1 cur1 = Some (Some (p', cur'))"
    by (subst (asm) arg_loop.simps) (auto split: option.splits arg_result.splits if_splits simp: Let_def)
  have "p \<le> p1" "\<not> d \<longrightarrow> c1 \<noteq> 0"
    using arg_step_progress [OF step c1] by auto
  moreover have "p < p1 \<or> c1 \<noteq> 0"
    using assms(2,3) c1 \<open>p \<le> p1\<close> by (cases "p = p1") auto
  ultimately have "p < (if c1 \<noteq> 0 then p1 + 1 else p1)" by auto
  then show ?thesis
    using res arg_loop_mono [of line _ i1 s1 cur1 p' cur'] by (cases d) fastforce+
qed

lemma skip_blanks_mono: "skip_blanks line p = Some q \<Longrightarrow> p \<le> q"
proof (induction line p rule: skip_blanks.induct)
  case (1 line p)
  then show ?case
    by (subst (asm) (2) skip_blanks.simps) (fastforce split: option.splits if_splits)
qed

text \<open>
  The outer loop: \<^verbatim>\<open>argc\<close> and the vector it returns. \<^verbatim>\<open>NULL\<close>, the result for a line without
  arguments and for a syntax error, is \<open>None\<close>; the jump to \<^verbatim>\<open>err\<close> leaves \<^verbatim>\<open>argc\<close> at -1.
\<close>

function splitargs_loop :: "byte list \<Rightarrow> nat \<Rightarrow> sds list \<Rightarrow> (int \<times> sds list option) option" where
  "splitargs_loop line p vec =
     (case skip_blanks line p of
        None \<Rightarrow> None
      | Some q \<Rightarrow>
          (case mem_byte line q of
             None \<Rightarrow> None
           | Some c \<Rightarrow>
               if c \<noteq> 0 then
                 (case sdsempty of
                    None \<Rightarrow> None
                  | Some cur \<Rightarrow>
                      (case arg_loop line q False False cur of
                         None \<Rightarrow> None
                       | Some None \<Rightarrow> Some (-1, None)
                       | Some (Some (q', cur')) \<Rightarrow>
                           splitargs_loop line q' (vec @ [cur'])))
               else Some (int (length vec), if vec = [] then None else Some vec)))"
  by pat_completeness auto
termination
  by (relation "measure (\<lambda>(line, p, vec). length line - p)")
    (auto dest!: skip_blanks_mono arg_loop_progress simp: mem_byte_def split: if_splits)

declare splitargs_loop.simps [simp del]

definition sdssplitargs :: "byte list \<Rightarrow> (int \<times> sds list option) option" where
  "sdssplitargs line = splitargs_loop line 0 []"

section \<open>The quoted form\<close>

definition esc :: "byte \<Rightarrow> byte list" where
  "esc c =
     (if c = 92 \<or> c = 34 then [92, c] else if c = 10 then [92, 110] else if c = 13 then [92, 114]
      else if c = 9 then [92, 116] else if c = 7 then [92, 97] else if c = 8 then [92, 98]
      else if isprint c then [c]
      else [92, 120, hex_char (c div 16), hex_char (c mod 16)])"

definition quoted :: "byte list \<Rightarrow> byte list" where
  "quoted xs = 34 # concat (map esc xs) @ [34]"

lemma printf_loop_correct:
  "0 \<notin> set out \<Longrightarrow> 2 \<le> n \<Longrightarrow> \<exists>r. printf_loop out n = Some (out @ 0 # r)"
proof (induction out n rule: printf_loop.induct)
  case (1 out n)
  show ?case
  proof (cases "length out \<le> n - 2")
    case True
    then have "vsnprintf_buf out n ! (n - 2) = 0" "take (n - 1) out = out"
      using vsnprintf_short "1.prems" by auto
    then show ?thesis
      using "1.prems" by (subst printf_loop.simps) (simp add: vsnprintf_buf_def Let_def)
  next
    case False
    then have "vsnprintf_buf out n ! (n - 2) = out ! (n - 2)" "n - 2 < length out"
      using "1.prems" by (auto simp: vsnprintf_buf_def Let_def nth_append)
    then have "vsnprintf_buf out n ! (n - 2) \<noteq> 0"
      using "1.prems" by (metis nth_mem)
    then show ?thesis
      using "1.prems" "1.IH" by (subst printf_loop.simps) (simp add: Let_def)
  qed
qed

lemma sdscatprintf_rep:
  assumes "sds_rep s xs" and "0 \<notin> set out" and "int (length xs) + int (length out) < 2 ^ 30"
  shows "\<exists>s'. sdscatprintf s out = Some s' \<and> sds_rep s' (xs @ out)"
proof -
  obtain r where r: "printf_loop out 16 = Some (out @ 0 # r)"
    using printf_loop_correct [OF assms(2), of 16] by auto
  have "takeWhile (\<lambda>c. c \<noteq> 0) (out @ 0 # r) = out"
    using assms(2) by (induction out) auto
  then have "buf_strlen (out @ 0 # r) = Some (length out)"
    by (simp add: buf_strlen_def)
  then show ?thesis
    using r sdscat_rep [OF assms(1,3)] by (simp add: sdscatprintf_def sdscatvprintf_def)
qed

text \<open>Facts about the 16 digits and the halves of a byte, by their numeric value.\<close>

lemma less_16_cases: "(d :: byte) < 16 \<Longrightarrow> d \<in> {0, 1, 2, 3, 4, 5, 6, 7, 8, 9, 10, 11, 12, 13, 14, 15}"
proof -
  assume "d < 16"
  then have "unat d \<in> set [0..<16]" by (simp add: word_less_nat_alt)
  then have "of_nat (unat d) \<in> set (map of_nat [0..<16] :: byte list)"
    unfolding set_map by (rule imageI)
  then show ?thesis by (simp add: upt_rec)
qed

lemma hex_char_facts:
  assumes "d < 16"
  shows "hex_digit_to_int (hex_char d) = d \<and> is_hex_digit (hex_char d) \<and> hex_char d \<noteq> 0"
  using less_16_cases [OF assms]
  by (elim insertE emptyE) (simp_all add: hex_digit_to_int_def hex_char_def is_hex_digit_def)

lemma byte_halves: "(c :: byte) div 16 < 16" "c mod 16 < 16" "(c div 16) * 16 + c mod 16 = c"
proof -
  have "unat c < 256" using unsigned_less [of c, where 'a = nat] by simp
  then show "c div 16 < 16" by (simp add: word_less_nat_alt unat_div less_mult_imp_div_less)
qed (simp_all add: word_less_nat_alt unat_mod div_mult_mod_eq)


lemma sdscatlen_all:
  "sds_rep s xs \<Longrightarrow> length t = n \<Longrightarrow> int (length xs) + int n < 2 ^ 30 \<Longrightarrow>
     \<exists>s'. sdscatlen s t n = Some s' \<and> sds_rep s' (xs @ t)"
  using sdscatlen_rep [of s xs n t] by simp

lemma catrepr_char_rep:
  assumes "sds_rep s xs" and "int (length xs) + 4 < 2 ^ 30"
  shows "\<exists>s'. catrepr_char s c = Some s' \<and> sds_rep s' (xs @ esc c)"
  using assms hex_char_facts [OF byte_halves(1)] hex_char_facts [OF byte_halves(2)]
  by (auto simp: catrepr_char_def esc_def isprint_def intro!: sdscatlen_all sdscatprintf_rep)

lemma length_esc: "1 \<le> length (esc c) \<and> length (esc c) \<le> 4"
  by (simp add: esc_def)

lemma length_escs: "length (concat (map esc xs)) \<le> 4 * length xs"
proof (induction xs)
  case (Cons x xs)
  then show ?case using length_esc [of x] by simp
qed simp

lemma catrepr_loop_rep:
  "sds_rep s xs \<Longrightarrow> b = pre @ ys @ post \<Longrightarrow> p = length pre \<Longrightarrow> n = length ys \<Longrightarrow>
     int (length xs) + 4 * int (length ys) + 4 < 2 ^ 30 \<Longrightarrow>
     \<exists>s'. catrepr_loop s b p n = Some s' \<and> sds_rep s' (xs @ concat (map esc ys))"
proof (induction ys arbitrary: s xs pre p n)
  case (Cons y ys)
  obtain s1 where s1: "catrepr_char s y = Some s1" "sds_rep s1 (xs @ esc y)"
    using catrepr_char_rep [OF Cons.prems(1)] Cons.prems(5) by fastforce
  have size: "int (length (xs @ esc y)) + 4 * int (length ys) + 4 < 2 ^ 30"
    using Cons.prems(5) length_esc [of y] by simp
  show ?case
    using Cons.IH [OF s1(2) _ _ _ size, of "pre @ [y]" "p + 1" "length ys"] s1(1) Cons.prems(2-4)
    by simp
qed simp

text \<open>\<open>sdscatrepr\<close> appends the quoted form of its argument to the string.\<close>

theorem sdscatrepr_quotes:
  assumes "sds_rep s xs" and "int (length xs) + 4 * int (length ys) + 8 < 2 ^ 30"
  shows "\<exists>s'. sdscatrepr s (ys @ post) (length ys) = Some s' \<and> sds_rep s' (xs @ quoted ys)"
proof -
  obtain s1 where s1: "sdscatlen s [34] 1 = Some s1" "sds_rep s1 (xs @ [34])"
    using sdscatlen_all [OF assms(1), of "[34]" 1] assms(2) by auto
  obtain s2 where s2: "catrepr_loop s1 (ys @ post) 0 (length ys) = Some s2"
      "sds_rep s2 ((xs @ [34]) @ concat (map esc ys))"
    using catrepr_loop_rep [OF s1(2), of "ys @ post" "[]" ys post] assms(2) by auto
  have "int (length ((xs @ [34]) @ concat (map esc ys))) + int 1 < 2 ^ 30"
    using assms(2) length_escs [of ys] by simp
  from sdscatlen_all [OF s2(2) _ this, of "[34]"] show ?thesis
    using s1(1) s2(1) by (simp add: sdscatrepr_def quoted_def)
qed

lemma sdscatrepr_quotes_witness:
  "\<exists>s'. sdscatrepr \<lparr>sds_len = 1, sds_free = 0, sds_buf = [62, 0]\<rparr> ([10, 34, 200] @ [0]) (length [10, 34, 200 :: byte]) = Some s' \<and>
     sds_rep s' ([62] @ quoted [10, 34, 200])"
  by (rule sdscatrepr_quotes) (simp_all add: sds_rep_def)

text \<open>Reading one escaped character inside double quotes.\<close>

lemma arg_inq_esc:
  assumes line: "line = pre @ esc y @ post" and rep: "sds_rep cur xs" "int (length xs) + 1 < 2 ^ 30"
  shows "\<exists>cur' c. arg_inq line (length pre) False cur =
      Some (ArgNext (length pre + length (esc y) - 1) True False False cur') \<and>
    sds_rep cur' (xs @ [y]) \<and> mem_byte line (length pre + length (esc y) - 1) = Some c \<and> c \<noteq> 0"
proof -
  obtain cur' where cur': "sdscatlen cur [y] 1 = Some cur'" "sds_rep cur' (xs @ [y])"
    using sdscatlen_all [OF rep(1), of "[y]" 1] rep(2) by auto
  consider "y \<in> {92, 34, 10, 13, 9, 7, 8}" | "isprint y" "y \<notin> {92, 34}"
    | "\<not> isprint y" "y \<notin> {92, 34, 10, 13, 9, 7, 8}" by blast
  then show ?thesis
  proof cases
    case 1
    then show ?thesis
      using cur' unfolding line
      by (elim insertE emptyE)
        (simp_all add: arg_inq_def esc_def at_hex_escape_def unescape_def)
  next
    case 2
    then have "esc y = [y]" "y \<noteq> 0" "y \<noteq> 92" "y \<noteq> 34"
      by (auto simp: esc_def isprint_def)
    then show ?thesis
      using cur' unfolding line by (simp add: arg_inq_def at_hex_escape_def)
  next
    case 3
    then have "esc y = [92, 120, hex_char (y div 16), hex_char (y mod 16)]"
      by (simp add: esc_def)
    then show ?thesis
      using cur' hex_char_facts [OF byte_halves(1)] hex_char_facts [OF byte_halves(2)] byte_halves(3) [of y]
      unfolding line by (simp add: arg_inq_def at_hex_escape_def)
  qed
qed

lemma arg_loop_quoted:
  "line = pre @ concat (map esc ys) @ 34 # c # post \<Longrightarrow> p = length pre \<Longrightarrow> c = 0 \<or> isspace c \<Longrightarrow>
     sds_rep cur xs \<Longrightarrow> int (length xs) + int (length ys) < 2 ^ 30 \<Longrightarrow>
     \<exists>cur'. arg_loop line p True False cur =
       Some (Some (p + length (concat (map esc ys)) + 1, cur')) \<and> sds_rep cur' (xs @ ys)"
proof (induction ys arbitrary: pre p cur xs)
  case Nil
  then have "arg_inq line p False cur = Some (ArgNext p True False True cur)"
    by (auto simp: arg_inq_def at_hex_escape_def bad_after_quote_def)
  then show ?case
    using Nil by (subst arg_loop.simps) (simp add: arg_step_def)
next
  case (Cons y ys)
  let ?post = "concat (map esc ys) @ 34 # c # post"
  have line: "line = pre @ esc y @ ?post" using Cons.prems(1) by simp
  have "int (length xs) + 1 < 2 ^ 30" using Cons.prems(5) by simp
  from arg_inq_esc [OF line Cons.prems(4) this] obtain cur1 b where
    step: "arg_inq line p False cur = Some (ArgNext (p + length (esc y) - 1) True False False cur1)"
    and cur1: "sds_rep cur1 (xs @ [y])" and b: "mem_byte line (p + length (esc y) - 1) = Some b" "b \<noteq> 0"
    using Cons.prems(2) by auto
  have p: "p + length (esc y) - 1 + 1 = length (pre @ esc y)"
    using length_esc [of y] Cons.prems(2) unfolding length_append by linarith
  have run: "arg_loop line p True False cur = arg_loop line (length (pre @ esc y)) True False cur1"
    using step b p by (subst arg_loop.simps) (simp add: arg_step_def)
  show ?case
    unfolding run
    using Cons.IH [of "pre @ esc y" "length (pre @ esc y)" cur1 "xs @ [y]"] line Cons.prems cur1
    by (auto simp: ac_simps)
qed

lemma arg_loop_arg:
  assumes "line = pre @ quoted ys @ c # post" and "p = length pre" and "c = 0 \<or> isspace c"
    and "sds_rep cur []" and "int (length ys) < 2 ^ 30"
  shows "\<exists>cur'. arg_loop line p False False cur = Some (Some (p + length (quoted ys), cur')) \<and>
    sds_rep cur' ys"
proof -
  have line: "line = (pre @ [34]) @ concat (map esc ys) @ 34 # c # post" and p: "p + 1 = length (pre @ [34])"
    using assms by (simp_all add: quoted_def)
  obtain cur' where cur': "arg_loop line (p + 1) True False cur =
      Some (Some (p + 1 + length (concat (map esc ys)) + 1, cur'))" "sds_rep cur' ys"
    using arg_loop_quoted [OF line p assms(3,4)] assms(5) by auto
  have "arg_step line p False False cur = Some (ArgNext p True False False cur)"
    "mem_byte line p = Some 34"
    using assms(1,2) by (simp_all add: arg_step_def arg_plain_def quoted_def)
  then have "arg_loop line p False False cur = arg_loop line (p + 1) True False cur"
    by (subst arg_loop.simps) simp
  then show ?thesis using cur' by (auto simp: quoted_def)
qed

definition spaced :: "byte list list \<Rightarrow> byte list" where
  "spaced xss = concat (map (\<lambda>xs. 32 # quoted xs) xss)"

lemma sdsempty_rep: "\<exists>s. sdsempty = Some s \<and> sds_rep s []"
  by (auto simp: sdsempty_def sdsnewlen_def mem_read_def mem_write_def fits_int_def sds_rep_def zmalloc_def)

lemma skip_blanks_stop: "mem_byte line p = Some c \<Longrightarrow> c = 0 \<or> \<not> isspace c \<Longrightarrow> skip_blanks line p = Some p"
  by (subst skip_blanks.simps) auto

lemma skip_blanks_space:
  "mem_byte line p = Some 32 \<Longrightarrow> mem_byte line (p + 1) = Some c \<Longrightarrow> c = 0 \<or> \<not> isspace c \<Longrightarrow>
     skip_blanks line p = Some (p + 1)"
  by (subst skip_blanks.simps) (auto simp: isspace_def skip_blanks_stop)

text \<open>One argument: from a pointer that reaches the opening quote by skipping blanks.\<close>

lemma splitargs_arg:
  assumes line: "line = pre @ quoted xs @ c # post" and "c = 0 \<or> isspace c"
    and skip: "skip_blanks line p = Some (length pre)" and "int (length xs) < 2 ^ 30"
  shows "\<exists>t. splitargs_loop line p vec = splitargs_loop line (length (pre @ quoted xs)) (vec @ [t]) \<and>
    sds_rep t xs"
proof -
  obtain e where e: "sdsempty = Some e" "sds_rep e []"
    using sdsempty_rep by blast
  obtain t where t: "arg_loop line (length pre) False False e =
      Some (Some (length pre + length (quoted xs), t))" "sds_rep t xs"
    using arg_loop_arg [OF line refl assms(2) e(2) assms(4)] by blast
  have "mem_byte line (length pre) = Some 34"
    using line by (simp add: quoted_def)
  then show ?thesis
    using t(2) by (subst splitargs_loop.simps) (auto simp: skip e(1) t(1))
qed

lemma splitargs_spaced:
  "line = pre @ spaced xss @ 0 # post \<Longrightarrow> p = length pre \<Longrightarrow> \<forall>xs \<in> set xss. int (length xs) < 2 ^ 30 \<Longrightarrow>
     vec \<noteq> [] \<Longrightarrow>
     \<exists>toks. splitargs_loop line p vec = Some (int (length (vec @ toks)), Some (vec @ toks)) \<and>
       list_all2 sds_rep toks xss"
proof (induction xss arbitrary: pre p vec)
  case Nil
  then have "mem_byte line p = Some 0" by (simp add: spaced_def)
  then show ?case
    using Nil(4) skip_blanks_stop [of line p 0] by (subst splitargs_loop.simps) simp
next
  case (Cons xs xss)
  obtain c post' where c: "spaced xss @ 0 # post = c # post'" "c = 0 \<or> isspace c"
    by (cases xss) (auto simp: spaced_def isspace_def)
  have line: "line = (pre @ [32]) @ quoted xs @ c # post'"
    using Cons.prems(1) c(1) by (simp add: spaced_def)
  have "skip_blanks line p = Some (p + 1)"
    using Cons.prems(2) by (intro skip_blanks_space [of _ _ 34]) (simp_all add: line quoted_def isspace_def)
  then have skip: "skip_blanks line p = Some (length (pre @ [32]))" using Cons.prems(2) by simp
  obtain t where t: "splitargs_loop line p vec =
      splitargs_loop line (length ((pre @ [32]) @ quoted xs)) (vec @ [t])" "sds_rep t xs"
    using splitargs_arg [OF line c(2) skip] Cons.prems(3) by auto
  have "line = ((pre @ [32]) @ quoted xs) @ spaced xss @ 0 # post"
    using line c(1) by simp
  from Cons.IH [OF this refl, of "vec @ [t]"] Cons.prems(3) t show ?case
    by fastforce
qed

text \<open>C30: \<open>sdssplitargs\<close> reads a line of quoted strings back: the line that holds the
  quoted forms of \<open>xss\<close>, separated by blanks, yields exactly the strings \<open>xss\<close>, whatever
  bytes they contain.\<close>

theorem sdssplitargs_quoted:
  assumes "sds_rep line (join [32] (map quoted xss))" and "xss \<noteq> []"
    and "\<forall>xs \<in> set xss. int (length xs) < 2 ^ 30"
  shows "\<exists>toks. sdssplitargs (sds_buf line) = Some (int (length xss), Some toks) \<and>
    list_all2 sds_rep toks xss"
proof -
  obtain x yss where xss: "xss = x # yss" using assms(2) by (cases xss) auto
  have join: "join [32] (map quoted (x # ys)) = quoted x @ spaced ys" for x ys
    by (induction ys arbitrary: x) (auto simp: spaced_def)
  obtain post where buf: "sds_buf line = [] @ quoted x @ spaced yss @ 0 # post"
    using assms(1) unfolding xss join by (auto elim: sds_repE)
  obtain c post' where c: "spaced yss @ 0 # post = c # post'" "c = 0 \<or> isspace c"
    by (cases yss) (auto simp: spaced_def isspace_def)
  have line: "sds_buf line = [] @ quoted x @ c # post'" using buf c by simp
  have "skip_blanks (sds_buf line) 0 = Some (length ([] :: byte list))"
    unfolding line by (simp add: skip_blanks_stop [of _ _ 34] quoted_def isspace_def)
  from splitargs_arg [OF line c(2) this, of "[]"] assms(3) xss obtain t where
    t: "splitargs_loop (sds_buf line) 0 [] = splitargs_loop (sds_buf line) (length (quoted x)) [t]"
      "sds_rep t x"
    by auto
  obtain toks where "splitargs_loop (sds_buf line) (length (quoted x)) [t] =
      Some (int (length ([t] @ toks)), Some ([t] @ toks))" "list_all2 sds_rep toks yss"
    using splitargs_spaced [of "sds_buf line" "quoted x" yss post "length (quoted x)" "[t]"] buf assms(3) xss
    by auto
  then show ?thesis
    using t by (auto simp: sdssplitargs_def xss dest: list_all2_lengthD)
qed

lemma sdssplitargs_quoted_witness:
  "\<exists>toks. sdssplitargs [34, 92, 110, 34, 32, 34, 92, 92, 34, 0] = Some (2, Some toks) \<and>
    list_all2 sds_rep toks [[10], [92]]"
proof -
  have "sds_rep \<lparr>sds_len = 9, sds_free = 0, sds_buf = [34, 92, 110, 34, 32, 34, 92, 92, 34, 0]\<rparr>
      (join [32] (map quoted [[10], [92]]))"
    by (simp add: sds_rep_def quoted_def esc_def)
  from sdssplitargs_quoted [OF this] show ?thesis by simp
qed

end
