(* ===== verification/Intset.thy ===== *)
theory Intset
  imports Endian Interfaces
begin

text \<open>
  Model of \<^verbatim>\<open>src/webserver/redis/src/intset.c\<close>: the sorted array of integers that
  small Redis sets use. The record has the fields of \<^verbatim>\<open>struct intset\<close>; \<open>contents\<close> is the
  flexible array member as raw bytes, read and written at the width of the current
  encoding (2, 4 or 8 bytes), on a little-endian host or through the \<^verbatim>\<open>memrev..ifbe\<close>
  macros (theory \<open>Endian\<close> shows that both give these bytes).

  The invariant \<open>intset_ok\<close> says that the block has exactly the announced size and that
  the decoded values are strictly increasing; \<open>intset_vals\<close> is the abstraction to a list
  of integers. The lemmas show that every operation stays inside its block, keeps the
  invariant, and is the corresponding operation on sorted lists and on sets, whichever
  is_encoding is in use, the upgrade to a wider encoding included.
\<close>

section \<open>Data and operations\<close>

record intset =
  is_encoding :: nat
  is_length :: nat
  is_contents :: "byte list"

definition INTSET_ENC_INT16 :: nat where "INTSET_ENC_INT16 = 2"
definition INTSET_ENC_INT32 :: nat where "INTSET_ENC_INT32 = 4"
definition INTSET_ENC_INT64 :: nat where "INTSET_ENC_INT64 = 8"

definition u_intsetValueEncoding :: "int \<Rightarrow> nat" where
  "u_intsetValueEncoding v =
     (if v < INT32_MIN \<or> v > INT32_MAX then INTSET_ENC_INT64
      else if v < INT16_MIN \<or> v > INT16_MAX then INTSET_ENC_INT32
      else INTSET_ENC_INT16)"

definition u_intsetGetEncoded :: "intset \<Rightarrow> nat \<Rightarrow> nat \<Rightarrow> int option" where
  "u_intsetGetEncoded is pos enc =
     (if enc = INTSET_ENC_INT64 then map_option le_sint (mem_read (is_contents is) (pos * 8) 8)
      else if enc = INTSET_ENC_INT32 then map_option le_sint (mem_read (is_contents is) (pos * 4) 4)
      else map_option le_sint (mem_read (is_contents is) (pos * 2) 2))"

definition u_intsetGet :: "intset \<Rightarrow> nat \<Rightarrow> int option" where
  "u_intsetGet is pos = u_intsetGetEncoded is pos (is_encoding is)"

definition u_intsetSet :: "intset \<Rightarrow> nat \<Rightarrow> int \<Rightarrow> intset option" where
  "u_intsetSet is pos v =
     do { c \<leftarrow> (if is_encoding is = INTSET_ENC_INT64
                then mem_write (is_contents is) (pos * 8) (le_bytes 8 v)
                else if is_encoding is = INTSET_ENC_INT32
                then mem_write (is_contents is) (pos * 4) (le_bytes 4 v)
                else mem_write (is_contents is) (pos * 2) (le_bytes 2 v));
          Some (is\<lparr>is_contents := c\<rparr>) }"

definition intsetNew :: intset where
  "intsetNew = \<lparr>is_encoding = INTSET_ENC_INT16, is_length = 0, is_contents = []\<rparr>"

text \<open>\<^verbatim>\<open>uint32_t size = len*is->encoding\<close> can wrap around.\<close>

definition intsetResize :: "intset \<Rightarrow> nat \<Rightarrow> intset" where
  "intsetResize is len =
     is\<lparr>is_contents := zrealloc (is_contents is) (len * is_encoding is mod 2 ^ 32)\<rparr>"

text \<open>
  The loop of \<^verbatim>\<open>intsetSearch\<close>. Its state is \<^verbatim>\<open>(min, max, mid, cur)\<close>; the indices are C
  \<^verbatim>\<open>int\<close>s, and the sum \<^verbatim>\<open>min+max\<close> must not overflow.
\<close>

function intset_search_loop ::
  "intset \<Rightarrow> int \<Rightarrow> int \<Rightarrow> int \<Rightarrow> int \<Rightarrow> int \<Rightarrow> (int \<times> int \<times> int) option" where
  "intset_search_loop is v mn mx mid cur =
     (if mx \<ge> mn then
        if mn < 0 \<or> mn + mx > INT32_MAX then None
        else
          let mid = (mn + mx) div 2 in
          case u_intsetGet is (nat mid) of
            None \<Rightarrow> None
          | Some cur \<Rightarrow>
              if v > cur then intset_search_loop is v (mid + 1) mx mid cur
              else if v < cur then intset_search_loop is v mn (mid - 1) mid cur
              else Some (mn, mid, cur)
      else Some (mn, mid, cur))"
  by pat_completeness auto
termination
  by (relation "measure (\<lambda>(is, v, mn, mx, mid, cur). nat (mx - mn + 1))") auto

text \<open>The result is the C return value and the position written through \<^verbatim>\<open>pos\<close>.\<close>

definition intsetSearch :: "intset \<Rightarrow> int \<Rightarrow> (bool \<times> nat) option" where
  "intsetSearch is v =
     (if is_length is = 0 then Some (False, 0)
      else do {
        hi \<leftarrow> u_intsetGet is (is_length is - 1);
        if v > hi then Some (False, is_length is)
        else do {
          lo \<leftarrow> u_intsetGet is 0;
          if v < lo then Some (False, 0)
          else do {
            (mn, mid, cur) \<leftarrow> intset_search_loop is v 0 (int (is_length is) - 1) (-1) (-1);
            if v = cur then Some (True, nat mid) else Some (False, nat mn) } } })"

fun intset_upgrade_loop :: "nat \<Rightarrow> nat \<Rightarrow> nat \<Rightarrow> intset \<Rightarrow> intset option" where
  "intset_upgrade_loop 0 curenc prepend is = Some is"
| "intset_upgrade_loop (Suc len) curenc prepend is =
     do { v \<leftarrow> u_intsetGetEncoded is len curenc;
          is \<leftarrow> u_intsetSet is (len + prepend) v;
          intset_upgrade_loop len curenc prepend is }"

definition intsetUpgradeAndAdd :: "intset \<Rightarrow> int \<Rightarrow> intset option" where
  "intsetUpgradeAndAdd is v =
     (let curenc = is_encoding is;
          newenc = u_intsetValueEncoding v;
          len = is_length is;
          prepend = (if v < 0 then 1 else 0);
          is = is\<lparr>is_encoding := newenc\<rparr>;
          is = intsetResize is (is_length is + 1)
      in do {
        is \<leftarrow> intset_upgrade_loop len curenc prepend is;
        is \<leftarrow> (if prepend = 1 then u_intsetSet is 0 v else u_intsetSet is (is_length is) v);
        Some (is\<lparr>is_length := is_length is + 1\<rparr>) })"

definition intsetMoveTail :: "intset \<Rightarrow> nat \<Rightarrow> nat \<Rightarrow> intset option" where
  "intsetMoveTail is from to =
     (let w = (if is_encoding is = INTSET_ENC_INT64 then 8
               else if is_encoding is = INTSET_ENC_INT32 then 4 else 2);
          bytes = (is_length is - from) * w mod 2 ^ 32
      in do { c \<leftarrow> mem_move (is_contents is) (to * w) (from * w) bytes;
              Some (is\<lparr>is_contents := c\<rparr>) })"

definition intsetAdd :: "intset \<Rightarrow> int \<Rightarrow> (intset \<times> bool) option" where
  "intsetAdd is v =
     (if u_intsetValueEncoding v > is_encoding is
      then do { is \<leftarrow> intsetUpgradeAndAdd is v; Some (is, True) }
      else do {
        (found, pos) \<leftarrow> intsetSearch is v;
        if found then Some (is, False)
        else do {
          is \<leftarrow> Some (intsetResize is (is_length is + 1));
          is \<leftarrow> (if pos < is_length is then intsetMoveTail is pos (pos + 1) else Some is);
          is \<leftarrow> u_intsetSet is pos v;
          Some (is\<lparr>is_length := is_length is + 1\<rparr>, True) } })"

definition intsetRemove :: "intset \<Rightarrow> int \<Rightarrow> (intset \<times> bool) option" where
  "intsetRemove is v =
     (if u_intsetValueEncoding v \<le> is_encoding is then do {
        (found, pos) \<leftarrow> intsetSearch is v;
        if found then do {
          is \<leftarrow> (if pos < is_length is - 1 then intsetMoveTail is (pos + 1) pos else Some is);
          is \<leftarrow> Some (intsetResize is (is_length is - 1));
          Some (is\<lparr>is_length := is_length is - 1\<rparr>, True) }
        else Some (is, False) }
      else Some (is, False))"

definition intsetFind :: "intset \<Rightarrow> int \<Rightarrow> bool option" where
  "intsetFind is v =
     (if u_intsetValueEncoding v \<le> is_encoding is
      then map_option fst (intsetSearch is v) else Some False)"

text \<open>\<^verbatim>\<open>intsetRandom\<close> takes the value that \<^verbatim>\<open>rand()\<close> returned; the remainder by zero is
  undefined in C.\<close>

definition intsetRandom :: "nat \<Rightarrow> intset \<Rightarrow> int option" where
  "intsetRandom rnd is =
     (if is_length is = 0 then None else u_intsetGet is (rnd mod is_length is))"

text \<open>\<open>intsetGet\<close>: the outer option is memory safety, the inner one the return code.\<close>

definition intsetGet :: "intset \<Rightarrow> nat \<Rightarrow> int option option" where
  "intsetGet is pos =
     (if pos < is_length is then map_option Some (u_intsetGet is pos) else Some None)"

definition intsetLen :: "intset \<Rightarrow> nat" where
  "intsetLen is = is_length is"

text \<open>The product is one of \<^verbatim>\<open>uint32_t\<close> values.\<close>

definition intsetBlobLen :: "intset \<Rightarrow> nat" where
  "intsetBlobLen is = 8 + is_length is * is_encoding is mod 2 ^ 32"

section \<open>Representation\<close>

definition fits :: "nat \<Rightarrow> int \<Rightarrow> bool" where
  "fits w v \<longleftrightarrow> - (256 ^ w) \<le> 2 * v \<and> 2 * v < 256 ^ w"

definition enc_list :: "nat \<Rightarrow> int list \<Rightarrow> byte list" where
  "enc_list w xs = concat (map (le_bytes w) xs)"

definition intset_vals :: "intset \<Rightarrow> int list" where
  "intset_vals is =
     map (\<lambda>i. le_sint (slot (is_encoding is) (is_contents is) i)) [0..<is_length is]"

definition intset_ok :: "intset \<Rightarrow> bool" where
  "intset_ok is \<longleftrightarrow>
     is_encoding is \<in> {INTSET_ENC_INT16, INTSET_ENC_INT32, INTSET_ENC_INT64} \<and>
     length (is_contents is) = is_length is * is_encoding is \<and>
     sorted_wrt (<) (intset_vals is)"

definition intset_rep :: "intset \<Rightarrow> int list \<Rightarrow> bool" where
  "intset_rep is xs \<longleftrightarrow>
     is_encoding is \<in> {2, 4, 8} \<and> is_length is = length xs \<and>
     is_contents is = enc_list (is_encoding is) xs \<and>
     (\<forall>x \<in> set xs. fits (is_encoding is) x) \<and> sorted_wrt (<) xs"

lemmas INTSET_ENC_defs = INTSET_ENC_INT16_def INTSET_ENC_INT32_def INTSET_ENC_INT64_def

lemma enc_list_simps [simp]:
  "enc_list w [] = []"
  "enc_list w (x # xs) = le_bytes w x @ enc_list w xs"
  "enc_list w (xs @ ys) = enc_list w xs @ enc_list w ys"
  by (simp_all add: enc_list_def)

lemma length_enc_list [simp, len_simps]: "length (enc_list w xs) = length xs * w"
  by (induction xs) auto

lemma slot_enc_list:
  "i < length xs \<Longrightarrow> slot w (enc_list w xs @ post) i = le_bytes w (xs ! i)"
proof (induction xs arbitrary: i)
  case (Cons x xs)
  then show ?case
    by (cases i) (simp_all add: slot_def)
qed simp

lemma enc_list_split:
  "length m = n * w \<Longrightarrow> m = enc_list w (map (\<lambda>i. le_sint (slot w m i)) [0..<n])"
proof (induction n arbitrary: m)
  case (Suc n)
  let ?a = "take (n * w) m" and ?b = "drop (n * w) m"
  have la: "length ?a = n * w" and lb: "length ?b = w"
    using Suc.prems by simp_all
  have "slot w m i = slot w ?a i" if "i < n" for i
  proof -
    have "Suc i * w \<le> n * w"
      using that by (simp del: mult_Suc)
    then show ?thesis
      by (simp add: slot_def drop_take min_def)
  qed
  then have "map (\<lambda>i. le_sint (slot w m i)) [0..<n] = map (\<lambda>i. le_sint (slot w ?a i)) [0..<n]"
    by simp
  then have "enc_list w (map (\<lambda>i. le_sint (slot w m i)) [0..<n]) = ?a"
    using Suc.IH [OF la] by metis
  moreover have "slot w m n = ?b"
    using lb by (simp add: slot_def)
  then have "le_bytes w (le_sint (slot w m n)) = ?b"
    using lb le_bytes_le_sint [of ?b] by simp
  ultimately show ?case
    by simp
qed simp

lemma fits_slot: "length bs = w \<Longrightarrow> fits w (le_sint bs)"
  using le_sint_range [of bs] by (auto simp: fits_def)

lemma fits_le_sint: "fits w v \<Longrightarrow> le_sint (le_bytes w v) = v"
  by (simp add: fits_def le_sint_le_bytes)

lemma fits_mono: "fits w v \<Longrightarrow> w \<le> w' \<Longrightarrow> fits w' v"
  unfolding fits_def using power_increasing [of w w' "256 :: int"] by linarith

lemma fits_valenc: "w \<in> {2, 4, 8} \<Longrightarrow> - (2 ^ 63) \<le> v \<Longrightarrow> v < 2 ^ 63 \<Longrightarrow>
    fits w v \<longleftrightarrow> u_intsetValueEncoding v \<le> w"
  by (auto simp: fits_def u_intsetValueEncoding_def c_limits INTSET_ENC_defs)

lemma valenc_cases: "u_intsetValueEncoding v \<in> {2, 4, 8}"
  by (simp add: u_intsetValueEncoding_def INTSET_ENC_defs)

lemma intset_repD:
  assumes "intset_rep is xs"
  shows "intset_vals is = xs" and "intset_ok is"
proof -
  have "le_sint (slot (is_encoding is) (is_contents is) i) = xs ! i" if "i < length xs" for i
    using assms that slot_enc_list [of i xs "is_encoding is" "[]"]
    by (auto simp: intset_rep_def fits_le_sint)
  then show vals: "intset_vals is = xs"
    using assms by (auto simp: intset_vals_def intset_rep_def intro!: nth_equalityI)
  show "intset_ok is"
    using assms vals by (auto simp: intset_ok_def intset_rep_def INTSET_ENC_defs)
qed

lemma intset_ok_rep: "intset_ok is \<Longrightarrow> intset_rep is (intset_vals is)"
proof -
  assume ok: "intset_ok is"
  let ?w = "is_encoding is" and ?m = "is_contents is" and ?n = "is_length is"
  have len: "length ?m = ?n * ?w"
    using ok by (simp add: intset_ok_def)
  have "fits ?w (le_sint (slot ?w ?m i))" if "i < ?n" for i
  proof -
    have "Suc i * ?w \<le> ?n * ?w"
      using that by (simp del: mult_Suc)
    then show ?thesis
      using len by (intro fits_slot length_slot) simp
  qed
  then have "\<forall>x \<in> set (intset_vals is). fits ?w x"
    by (auto simp: intset_vals_def)
  moreover have "?m = enc_list ?w (intset_vals is)"
    unfolding intset_vals_def by (rule enc_list_split [OF len])
  moreover have "?w \<in> {2, 4, 8}" and "sorted_wrt (<) (intset_vals is)"
    using ok by (simp_all add: intset_ok_def INTSET_ENC_defs)
  moreover have "?n = length (intset_vals is)"
    by (simp add: intset_vals_def)
  ultimately show ?thesis
    unfolding intset_rep_def by blast
qed

lemma intset_repE:
  assumes "intset_rep is xs"
  obtains "is_encoding is = 2" | "is_encoding is = 4" | "is_encoding is = 8"
  using assms by (auto simp: intset_rep_def)

section \<open>Access\<close>

lemma u_intsetGetEncoded_width:
  "enc \<in> {2, 4, 8} \<Longrightarrow>
     u_intsetGetEncoded is pos enc = map_option le_sint (mem_read (is_contents is) (pos * enc) enc)"
  by (auto simp: u_intsetGetEncoded_def INTSET_ENC_defs)

lemma u_intsetSet_width:
  "is_encoding is \<in> {2, 4, 8} \<Longrightarrow>
     u_intsetSet is pos v =
       map_option (\<lambda>c. is\<lparr>is_contents := c\<rparr>)
         (mem_write (is_contents is) (pos * is_encoding is) (le_bytes (is_encoding is) v))"
  by (auto simp: u_intsetSet_def INTSET_ENC_defs map_option_case
      simp del: le_bytes_numeral split: option.splits)

lemma intsetMoveTail_width:
  "is_encoding is \<in> {2, 4, 8} \<Longrightarrow>
     intsetMoveTail is from to =
       map_option (\<lambda>c. is\<lparr>is_contents := c\<rparr>)
         (mem_move (is_contents is) (to * is_encoding is) (from * is_encoding is)
            ((is_length is - from) * is_encoding is mod 2 ^ 32))"
  by (auto simp: intsetMoveTail_def INTSET_ENC_defs Let_def map_option_case
      split: option.splits)

lemma u_intsetGet_rep:
  assumes "intset_rep is xs" and "i < length xs"
  shows "u_intsetGet is i = Some (xs ! i)"
proof -
  have len: "Suc i * is_encoding is \<le> length xs * is_encoding is"
    using assms(2) by (simp del: mult_Suc)
  then show ?thesis
    using assms slot_enc_list [of i xs "is_encoding is" "[]"]
    by (simp add: u_intsetGet_def intset_rep_def u_intsetGetEncoded_width mem_read_slot
        fits_le_sint)
qed

section \<open>Binary search\<close>

declare intset_search_loop.simps [simp del]

text \<open>What the loop knows: everything left of \<open>mn\<close> is smaller, everything right of
  \<open>mx\<close> is larger, and \<open>cur\<close> is not the value unless there is still a step to do.\<close>

definition search_inv :: "int list \<Rightarrow> int \<Rightarrow> int \<Rightarrow> int \<Rightarrow> bool" where
  "search_inv xs v mn mx \<longleftrightarrow>
     0 \<le> mn \<and> mn \<le> mx + 1 \<and> mx < int (length xs) \<and>
     (\<forall>i < length xs. int i < mn \<longrightarrow> xs ! i < v) \<and>
     (\<forall>i < length xs. int i > mx \<longrightarrow> xs ! i > v)"

definition search_post :: "int list \<Rightarrow> int \<Rightarrow> int \<times> int \<times> int \<Rightarrow> bool" where
  "search_post xs v r \<longleftrightarrow>
     (case r of (mn, mid, cur) \<Rightarrow>
        if cur = v then 0 \<le> mid \<and> nat mid < length xs \<and> xs ! nat mid = v
        else search_inv xs v mn (mn - 1))"

lemma search_inv_right:
  assumes "sorted_wrt (<) xs" and "search_inv xs v mn mx"
    and "mn \<le> mid" and "mid \<le> mx" and "xs ! nat mid < v"
  shows "search_inv xs v (mid + 1) mx"
proof -
  have mid: "0 \<le> mid" "nat mid < length xs"
    using assms by (auto simp: search_inv_def)
  have "xs ! i < v" if "i < length xs" "int i < mid + 1" for i
  proof (cases "i = nat mid")
    case False
    then have "i < nat mid"
      using that mid by linarith
    then have "xs ! i < xs ! nat mid"
      using assms(1) mid by (simp add: sorted_wrt_iff_nth_less)
    then show ?thesis
      using assms(5) by simp
  qed (use assms in simp)
  then show ?thesis
    using assms mid by (auto simp: search_inv_def)
qed

lemma search_inv_left:
  assumes "sorted_wrt (<) xs" and "search_inv xs v mn mx"
    and "mn \<le> mid" and "mid \<le> mx" and "v < xs ! nat mid"
  shows "search_inv xs v mn (mid - 1)"
proof -
  have mid: "0 \<le> mid" "nat mid < length xs"
    using assms by (auto simp: search_inv_def)
  have "v < xs ! i" if "i < length xs" "mid - 1 < int i" for i
  proof (cases "i = nat mid")
    case False
    then have "nat mid < i"
      using that mid by linarith
    then have "xs ! nat mid < xs ! i"
      using assms(1) that by (simp add: sorted_wrt_iff_nth_less)
    then show ?thesis
      using assms(5) by simp
  qed (use assms in simp)
  then show ?thesis
    using assms mid by (auto simp: search_inv_def)
qed

lemma intset_search_loop_correct:
  assumes "sorted_wrt (<) xs" and "int (length xs) < 2 ^ 30"
    and get: "\<And>i. i < length xs \<Longrightarrow> u_intsetGet is i = Some (xs ! i)"
    and "search_inv xs v mn mx" and "mn \<le> mx \<or> cur \<noteq> v"
  shows "\<exists>r. intset_search_loop is v mn mx mid cur = Some r \<and> search_post xs v r"
  using get assms(4,5)
proof (induction "is" v mn mx mid cur rule: intset_search_loop.induct)
  case (1 "is" v mn mx mid0 cur0)
  note inv = \<open>search_inv xs v mn mx\<close>
  show ?case
  proof (cases "mn \<le> mx")
    case False
    with "1.prems" have "mx = mn - 1" and "cur0 \<noteq> v"
      by (auto simp: search_inv_def)
    with False inv show ?thesis
      by (subst intset_search_loop.simps) (simp add: search_post_def)
  next
    case True
    define mid where "mid = (mn + mx) div 2"
    have mid: "mn \<le> mid" "mid \<le> mx" "0 \<le> mid" "nat mid < length xs"
      and ok: "\<not> (mn < 0 \<or> mn + mx > INT32_MAX)"
      using True inv assms(2) by (auto simp: mid_def search_inv_def INT32_MAX_def)
    have read: "u_intsetGet is (nat mid) = Some (xs ! nat mid)"
      using "1.prems"(1) mid(4) by blast
    have step: "intset_search_loop is v mn mx mid0 cur0 =
        (if v > xs ! nat mid then intset_search_loop is v (mid + 1) mx mid (xs ! nat mid)
         else if v < xs ! nat mid then intset_search_loop is v mn (mid - 1) mid (xs ! nat mid)
         else Some (mn, mid, xs ! nat mid))"
      using True ok read by (subst intset_search_loop.simps) (simp add: mid_def Let_def)
    note IH = "1.IH" [OF True ok mid_def read]
    consider "v > xs ! nat mid" | "v < xs ! nat mid" | "v = xs ! nat mid"
      by linarith
    then show ?thesis
    proof cases
      case 1
      then show ?thesis
        using IH(1) [OF 1 "1.prems"(1) search_inv_right [OF assms(1) inv mid(1,2) 1]] step
        by simp
    next
      case 2
      then show ?thesis
        using IH(2) [OF _ 2 "1.prems"(1) search_inv_left [OF assms(1) inv mid(1,2) 2]] step
        by simp
    next
      case 3
      then show ?thesis
        using step mid by (simp add: search_post_def)
    qed
  qed
qed

text \<open>The position where a value belongs in a sorted list.\<close>

definition insert_pos :: "int list \<Rightarrow> int \<Rightarrow> nat" where
  "insert_pos xs v = length (takeWhile (\<lambda>x. x < v) xs)"

lemma insert_pos_le: "insert_pos xs v \<le> length xs"
  by (simp add: insert_pos_def length_takeWhile_le)

lemma insert_pos_eqI:
  assumes "p \<le> length xs" and "\<And>i. i < p \<Longrightarrow> xs ! i < v" and "p < length xs \<Longrightarrow> \<not> xs ! p < v"
  shows "insert_pos xs v = p"
proof -
  have "takeWhile (\<lambda>x. x < v) xs = take p xs"
    using assms by (intro takeWhile_eq_take_P_nth) auto
  then show ?thesis
    using assms(1) by (simp add: insert_pos_def)
qed

lemma intsetSearch_correct:
  assumes rep: "intset_rep is xs" and len: "int (length xs) < 2 ^ 30"
  shows "intsetSearch is v = Some (v \<in> set xs, insert_pos xs v)"
proof (cases "xs = []")
  case True
  then show ?thesis
    using rep by (simp add: intsetSearch_def intset_rep_def insert_pos_def)
next
  case False
  let ?n = "length xs"
  have n: "is_length is = ?n" and sorted: "sorted_wrt (<) xs"
    using rep by (simp_all add: intset_rep_def)
  have hi: "u_intsetGet is (?n - 1) = Some (xs ! (?n - 1))"
    and lo: "u_intsetGet is 0 = Some (xs ! 0)"
    using u_intsetGet_rep [OF rep] False by simp_all
  have mono: "i < j \<Longrightarrow> j < ?n \<Longrightarrow> xs ! i < xs ! j" for i j
    using sorted by (simp add: sorted_wrt_iff_nth_less)
  consider "v > xs ! (?n - 1)" | "v \<le> xs ! (?n - 1)" "v < xs ! 0"
    | "v \<le> xs ! (?n - 1)" "xs ! 0 \<le> v"
    by linarith
  then show ?thesis
  proof cases
    case 1
    have below: "xs ! i < v" if "i < ?n" for i
    proof (cases "i = ?n - 1")
      case False
      then have "xs ! i < xs ! (?n - 1)"
        using that by (intro mono) linarith+
      then show ?thesis using 1 by linarith
    qed (use 1 in simp)
    have "v \<notin> set xs" and "insert_pos xs v = ?n"
      using below by (auto simp: in_set_conv_nth intro!: insert_pos_eqI)
    then show ?thesis
      using 1 hi n False by (simp add: intsetSearch_def)
  next
    case 2
    then have above: "v < xs ! i" if "i < ?n" for i
      using that mono [of 0 i] by (cases "i = 0") auto
    have "v \<notin> set xs"
      using above by (force simp: in_set_conv_nth)
    moreover have "insert_pos xs v = 0"
      using above by (intro insert_pos_eqI) force+
    ultimately show ?thesis
      using 2 hi lo n False by (simp add: intsetSearch_def)
  next
    case 3
    have "search_inv xs v 0 (int ?n - 1)"
      using False by (auto simp: search_inv_def)
    then obtain mn mid cur where
      loop: "intset_search_loop is v 0 (int ?n - 1) (-1) (-1) = Some (mn, mid, cur)"
      and post: "search_post xs v (mn, mid, cur)"
      using intset_search_loop_correct [OF sorted len u_intsetGet_rep [OF rep]] False
      by (metis One_nat_def diff_ge_0_iff_ge int_one_le_iff_zero_less length_greater_0_conv
          of_nat_0_less_iff prod_cases3)
    show ?thesis
    proof (cases "cur = v")
      case True
      with post have mid: "nat mid < ?n" "xs ! nat mid = v"
        by (auto simp: search_post_def)
      then have "insert_pos xs v = nat mid"
        using mono by (intro insert_pos_eqI) auto
      moreover have "v \<in> set xs"
        using mid nth_mem by blast
      ultimately show ?thesis
        using 3 True hi lo loop n False by (simp add: intsetSearch_def)
    next
      case False
      with post have inv: "search_inv xs v mn (mn - 1)"
        by (auto simp: search_post_def)
      then have "v \<notin> set xs"
        by (force simp: search_inv_def in_set_conv_nth)
      moreover have "insert_pos xs v = nat mn"
      proof (rule insert_pos_eqI)
        assume "nat mn < ?n"
        with inv have "v < xs ! nat mn"
          by (simp add: search_inv_def)
        then show "\<not> xs ! nat mn < v" by simp
      qed (use inv in \<open>auto simp: search_inv_def\<close>)
      ultimately show ?thesis
        using 3 False hi lo loop n \<open>xs \<noteq> []\<close> by (simp add: intsetSearch_def)
    qed
  qed
qed

section \<open>Insertion and removal\<close>

definition insert_at :: "nat \<Rightarrow> 'a \<Rightarrow> 'a list \<Rightarrow> 'a list" where
  "insert_at p v xs = take p xs @ v # drop p xs"

lemma sorted_insert_pos:
  assumes "sorted_wrt (<) xs" and "v \<notin> set xs"
  shows "sorted_wrt (<) (insert_at (insert_pos xs v) v xs)"
proof -
  let ?p = "insert_pos xs v"
  have t: "takeWhile (\<lambda>x. x < v) xs = take ?p xs" and d: "dropWhile (\<lambda>x. x < v) xs = drop ?p xs"
    unfolding insert_pos_def by (rule takeWhile_eq_take, rule dropWhile_eq_drop)
  have split: "xs = take ?p xs @ drop ?p xs"
    by simp
  have below: "\<forall>x \<in> set (take ?p xs). x < v"
    using t by (metis set_takeWhileD)
  have s: "sorted_wrt (<) (take ?p xs)" "sorted_wrt (<) (drop ?p xs)"
    using assms(1) by (metis split sorted_wrt_append)+
  have above: "\<forall>x \<in> set (drop ?p xs). v < x"
  proof (cases "drop ?p xs")
    case (Cons y ys)
    with d have "\<not> y < v" by (metis dropWhile_eq_Cons_conv)
    moreover have "y \<noteq> v"
      using assms(2) Cons by (metis in_set_dropD list.set_intros(1))
    ultimately show ?thesis
      using s(2) Cons by force
  qed simp
  then show ?thesis
    using s below unfolding insert_at_def sorted_wrt_append sorted_wrt.simps by fastforce
qed

lemma set_insert_at [simp]: "set (insert_at p v xs) = insert v (set xs)"
  by (metis append_take_drop_id insert_at_def list.simps(15) set_append Un_insert_right)

lemma length_insert_at [simp]: "p \<le> length xs \<Longrightarrow> length (insert_at p v xs) = Suc (length xs)"
  by (simp add: insert_at_def)

lemma zrealloc_grow: "zrealloc m (length m + k) = m @ zmalloc k"
  by (simp add: zrealloc_def zmalloc_def)

lemma zrealloc_shrink: "zrealloc (m @ x) (length m) = m"
  by (simp add: zrealloc_def)

lemma zmalloc_add: "zmalloc (a + b) = zmalloc a @ zmalloc b"
  by (simp add: zmalloc_def replicate_add)

lemma mem_move_up:
  assumes "length A = a" and "length B = b" and "length R = r"
  shows "mem_move (A @ B @ R) (a + r) a b = Some (A @ take r (B @ R) @ B)"
  using assms by (simp add: mem_move_def mem_read_def mem_write_def)

lemma mem_move_down:
  assumes "length A = a" and "length B = b" and "length R = r"
  shows "mem_move (A @ R @ B) a (a + r) b = Some (A @ B @ drop b (R @ B))"
  using assms by (simp add: mem_move_def mem_read_def mem_write_def add.commute)

lemma no_wrap_32: "w \<in> {2, 4, 8} \<Longrightarrow> int k < 2 ^ 29 \<Longrightarrow> k * w mod 2 ^ 32 = k * w"
  by auto

lemma intsetAdd_insert:
  assumes rep: "intset_rep is xs" and len: "int (length xs) + 1 < 2 ^ 29"
    and fit: "fits (is_encoding is) v" and new: "v \<notin> set xs" and p: "p = insert_pos xs v"
  defines "is' \<equiv> is\<lparr>is_contents := enc_list (is_encoding is) (insert_at p v xs)\<rparr>"
  shows "do { is \<leftarrow> Some (intsetResize is (is_length is + 1));
              is \<leftarrow> (if p < is_length is then intsetMoveTail is p (p + 1) else Some is);
              is \<leftarrow> u_intsetSet is p v;
              Some (is\<lparr>is_length := is_length is + 1\<rparr>, True) } =
         Some (is'\<lparr>is_length := length xs + 1\<rparr>, True)"
proof -
  let ?w = "is_encoding is"
  define A B where "A = enc_list ?w (take p xs)" and "B = enc_list ?w (drop p xs)"
  have w: "?w \<in> {2, 4, 8}" and n: "is_length is = length xs"
    and c: "is_contents is = A @ B"
    using rep by (simp_all add: intset_rep_def A_def B_def flip: enc_list_simps(3))
  have ple: "p \<le> length xs"
    using p insert_pos_le by simp
  have lA: "length A = p * ?w" and lB: "length B = (length xs - p) * ?w"
    using ple by (simp_all add: A_def B_def)
  have lAB: "length (A @ B) = length xs * ?w"
    using ple by (simp add: lA lB flip: add_mult_distrib)
  have "(length xs + 1) * ?w mod 2 ^ 32 = length (A @ B) + ?w"
    using no_wrap_32 [OF w, of "length xs + 1"] len lAB by simp
  then have resize: "intsetResize is (is_length is + 1) = is\<lparr>is_contents := A @ B @ zmalloc ?w\<rparr>"
    using zrealloc_grow [of "A @ B" ?w] by (simp only: intsetResize_def n c append_assoc)
  have wr: "u_intsetSet (is\<lparr>is_contents := A @ X @ B\<rparr>) p v = Some is'"
    if "length X = ?w" for X
  proof -
    have "mem_write (A @ X @ B) (p * ?w) (le_bytes ?w v) = Some (A @ le_bytes ?w v @ B)"
      using lA that by (simp add: mem_write_append)
    then show ?thesis
      using w by (simp add: u_intsetSet_width is'_def A_def B_def insert_at_def)
  qed
  have move: "intsetMoveTail (is\<lparr>is_contents := A @ B @ zmalloc ?w\<rparr>) p (p + 1) =
      Some (is\<lparr>is_contents := A @ take ?w (B @ zmalloc ?w) @ B\<rparr>)"
    using mem_move_up [OF lA lB length_zmalloc] w n len no_wrap_32 [OF w, of "length xs - p"]
    by (simp add: intsetMoveTail_width algebra_simps)
  show ?thesis
  proof (cases "p < length xs")
    case True
    have "length (take ?w (B @ zmalloc ?w)) = ?w" by simp
    from wr [OF this] show ?thesis
      using True n resize move by (simp add: is'_def)
  next
    case False
    then have "B = []" by (simp add: B_def)
    then show ?thesis
      using False n resize wr [of "zmalloc ?w"] by (simp add: is'_def)
  qed
qed

definition delete_at :: "nat \<Rightarrow> 'a list \<Rightarrow> 'a list" where
  "delete_at p xs = take p xs @ drop (Suc p) xs"

lemma insert_pos_member:
  assumes "sorted_wrt (<) xs" and "v \<in> set xs"
  shows "insert_pos xs v < length xs" and "xs ! insert_pos xs v = v"
proof -
  obtain i where i: "i < length xs" "xs ! i = v"
    using assms(2) by (auto simp: in_set_conv_nth)
  have "insert_pos xs v = i"
    using i assms(1) by (intro insert_pos_eqI) (auto simp: sorted_wrt_iff_nth_less)
  with i show "insert_pos xs v < length xs" and "xs ! insert_pos xs v = v"
    by simp_all
qed

lemma sorted_delete_at:
  assumes "sorted_wrt (<) xs"
  shows "sorted_wrt (<) (delete_at p xs)"
proof -
  have "sorted_wrt (<) (take p xs @ drop p xs)"
    using assms by simp
  then have "sorted_wrt (<) (take p xs)" "sorted_wrt (<) (drop p xs)"
    and cross: "\<forall>x \<in> set (take p xs). \<forall>y \<in> set (drop p xs). x < y"
    unfolding sorted_wrt_append by blast+
  moreover have "drop (Suc p) xs = tl (drop p xs)"
    by (simp add: drop_Suc tl_drop)
  then have "sorted_wrt (<) (drop (Suc p) xs)" and "set (drop (Suc p) xs) \<subseteq> set (drop p xs)"
    using \<open>sorted_wrt (<) (drop p xs)\<close> by (cases "drop p xs"; auto)+
  ultimately show ?thesis
    unfolding delete_at_def sorted_wrt_append by blast
qed

lemma set_delete_at:
  fixes xs :: "int list"
  assumes "sorted_wrt (<) xs" and "p < length xs"
  shows "set (delete_at p xs) = set xs - {xs ! p}"
proof -
  have xs: "xs = take p xs @ xs ! p # drop (Suc p) xs"
    using assms(2) by (rule id_take_nth_drop)
  have "distinct xs"
    using assms(1) by (simp add: strict_sorted_iff)
  then have "distinct (take p xs @ xs ! p # drop (Suc p) xs)"
    by (simp only: xs [symmetric])
  then have "xs ! p \<notin> set (take p xs) \<union> set (drop (Suc p) xs)"
    by auto
  moreover have "set (take p xs @ xs ! p # drop (Suc p) xs) = insert (xs ! p) (set (delete_at p xs))"
    by (auto simp: delete_at_def)
  then have "set xs = insert (xs ! p) (set (delete_at p xs))"
    by (simp only: xs [symmetric])
  ultimately show ?thesis
    by (auto simp: delete_at_def)
qed

lemma length_delete_at [simp]: "p < length xs \<Longrightarrow> length (delete_at p xs) = length xs - 1"
  by (simp add: delete_at_def)

lemma intsetRemove_delete:
  assumes rep: "intset_rep is xs" and len: "int (length xs) < 2 ^ 29"
    and p: "p < length xs"
  defines "is' \<equiv> is\<lparr>is_contents := enc_list (is_encoding is) (delete_at p xs)\<rparr>"
  shows "do { is \<leftarrow> (if p < is_length is - 1 then intsetMoveTail is (p + 1) p else Some is);
              is \<leftarrow> Some (intsetResize is (is_length is - 1));
              Some (is\<lparr>is_length := is_length is - 1\<rparr>, True) } =
         Some (is'\<lparr>is_length := length xs - 1\<rparr>, True)"
proof -
  let ?w = "is_encoding is"
  define A R B where "A = enc_list ?w (take p xs)" and "R = le_bytes ?w (xs ! p)"
    and "B = enc_list ?w (drop (Suc p) xs)"
  have w: "?w \<in> {2, 4, 8}" and n: "is_length is = length xs"
    using rep by (simp_all add: intset_rep_def)
  have "xs = take p xs @ xs ! p # drop (Suc p) xs"
    using p by (rule id_take_nth_drop)
  then have c: "is_contents is = A @ R @ B"
    using rep unfolding A_def R_def B_def intset_rep_def
    by (metis enc_list_simps(2,3))
  have lA: "length A = p * ?w" and lR: "length R = ?w" and lB: "length B = (length xs - Suc p) * ?w"
    using p by (simp_all add: A_def B_def R_def)
  have "length A + length B = (p + (length xs - Suc p)) * ?w"
    by (simp only: lA lB add_mult_distrib)
  also have "p + (length xs - Suc p) = length xs - 1"
    using p by simp
  finally have lAB: "length (A @ B) = (length xs - 1) * ?w"
    by simp
  have nowrap: "(length xs - 1) * ?w mod 2 ^ 32 = (length xs - 1) * ?w"
    using no_wrap_32 [OF w, of "length xs - 1"] len by simp
  have resize: "intsetResize (is\<lparr>is_contents := A @ B @ X\<rparr>) (length xs - 1) = is'" for X
  proof -
    have "zrealloc (A @ B @ X) ((length xs - 1) * ?w mod 2 ^ 32) = A @ B"
      using zrealloc_shrink [of "A @ B" X] by (simp only: nowrap lAB append_assoc)
    then show ?thesis
      unfolding intsetResize_def by (simp add: is'_def delete_at_def A_def B_def)
  qed
  have move: "intsetMoveTail is (p + 1) p =
      Some (is\<lparr>is_contents := A @ B @ drop (length B) (R @ B)\<rparr>)"
    using mem_move_down [OF lA lB lR] w n len p no_wrap_32 [OF w, of "length xs - Suc p"] c
    by (simp add: intsetMoveTail_width lB algebra_simps)
  show ?thesis
  proof (cases "p < length xs - 1")
    case True
    then show ?thesis
      using n resize move by (simp add: is'_def)
  next
    case False
    then have "B = []" using p by (simp add: B_def)
    then have "is = is\<lparr>is_contents := A @ B @ R\<rparr>"
      using c by simp
    then have "intsetResize is (length xs - 1) = is'"
      using resize by metis
    then show ?thesis
      using False n by (simp add: is'_def)
  qed
qed

section \<open>The upgrade to a wider encoding\<close>

text \<open>
  Going back to front, the values \<open>ys\<close> not yet moved still stand at the old width at the
  start of the block, the values \<open>zs\<close> already moved stand at the new width at the end of
  their range, and \<open>J\<close> between them is whatever was there.
\<close>

lemma intset_upgrade_loop_correct:
  assumes "c \<in> {2, 4, 8}" and "is_encoding is \<in> {2, 4, 8}" and "c \<le> is_encoding is"
    and "\<forall>y \<in> set ys. fits c y"
    and "is_contents is = enc_list c ys @ J @ enc_list (is_encoding is) zs @ R"
    and "length (enc_list c ys @ J) = (length ys + pp) * is_encoding is"
  shows "\<exists>J'. length J' = pp * is_encoding is \<and>
    intset_upgrade_loop (length ys) c pp is =
      Some (is\<lparr>is_contents := J' @ enc_list (is_encoding is) (ys @ zs) @ R\<rparr>)"
  using assms
proof (induction ys arbitrary: "is" J zs rule: rev_induct)
  case Nil
  then show ?case
    by (intro exI [of _ J]) simp
next
  case (snoc y ys)
  let ?w = "is_encoding is" and ?k = "length ys"
  define J1 where "J1 = le_bytes c y @ J"
  have c: "is_contents is = enc_list c ys @ J1 @ enc_list ?w zs @ R"
    using snoc.prems(5) by (simp add: J1_def)
  have len: "length (enc_list c ys @ J1) = (?k + pp) * ?w + ?w"
    using snoc.prems(6) by (simp add: J1_def algebra_simps)
  have le: "?k * c \<le> (?k + pp) * ?w"
    using snoc.prems(3) by (simp add: mult_le_mono)
  define J2 where "J2 = take ((?k + pp) * ?w - ?k * c) J1"
  have t: "take ((?k + pp) * ?w) (enc_list c ys @ J1) = enc_list c ys @ J2"
    using le by (simp add: J2_def)
  have read: "u_intsetGetEncoded is ?k c = Some y"
    using snoc.prems(1,4) c unfolding J1_def
    by (simp add: u_intsetGetEncoded_width mem_read_append fits_le_sint)
  have "mem_write (is_contents is) ((?k + pp) * ?w) (le_bytes ?w y) =
      Some (enc_list c ys @ J2 @ le_bytes ?w y @ enc_list ?w zs @ R)"
    using len t unfolding c mem_write_def
    by (simp del: enc_list_simps length_enc_list flip: append_assoc)
  then have wr: "u_intsetSet is (?k + pp) y =
      Some (is\<lparr>is_contents := enc_list c ys @ J2 @ enc_list ?w (y # zs) @ R\<rparr>)"
    using snoc.prems(2) by (simp add: u_intsetSet_width)
  have "length (enc_list c ys @ J2) = (?k + pp) * ?w"
    using len t by (metis add_leD1 length_take min.absorb2 nle_le le_add1)
  then obtain J' where "length J' = pp * ?w"
    and "intset_upgrade_loop ?k c pp (is\<lparr>is_contents := enc_list c ys @ J2 @ enc_list ?w (y # zs) @ R\<rparr>) =
      Some (is\<lparr>is_contents := J' @ enc_list ?w (ys @ y # zs) @ R\<rparr>)"
    using snoc.IH [of "is\<lparr>is_contents := enc_list c ys @ J2 @ enc_list ?w (y # zs) @ R\<rparr>" J2 "y # zs"]
      snoc.prems by auto
  then show ?case
    using read wr by (intro exI [of _ J']) simp
qed

lemma intsetUpgradeAndAdd_rep:
  assumes rep: "intset_rep is xs" and len: "int (length xs) + 1 < 2 ^ 29"
    and v: "- (2 ^ 63) \<le> v" "v < 2 ^ 63" and up: "u_intsetValueEncoding v > is_encoding is"
  shows "\<exists>is'. intsetUpgradeAndAdd is v = Some is' \<and>
           intset_rep is' (if v < 0 then v # xs else xs @ [v])"
proof -
  let ?c = "is_encoding is" and ?w = "u_intsetValueEncoding v" and ?n = "length xs"
  define pp :: nat where "pp = (if v < 0 then 1 else 0)"
  have c: "?c \<in> {2, 4, 8}" and n: "is_length is = ?n" and cont: "is_contents is = enc_list ?c xs"
    and fits: "\<forall>x \<in> set xs. fits ?c x" and sorted: "sorted_wrt (<) xs"
    using rep by (simp_all add: intset_rep_def)
  have w: "?w \<in> {2, 4, 8}" by (rule valenc_cases)
  define grow where "grow = (?n + 1) * ?w - ?n * ?c"
  have le: "?n * ?c \<le> ?n * ?w"
    using up by (intro mult_le_mono2) simp
  then have "?n * ?c \<le> (?n + 1) * ?w"
    by (rule order_trans) simp
  then have lsum: "length (enc_list ?c xs) + grow = (?n + 1) * ?w"
    unfolding grow_def length_enc_list by (rule le_add_diff_inverse)
  define is1 where "is1 = intsetResize (is\<lparr>is_encoding := ?w\<rparr>) (?n + 1)"
  have is1: "is1 = is\<lparr>is_encoding := ?w, is_contents := enc_list ?c xs @ zmalloc grow\<rparr>"
    using zrealloc_grow [of "enc_list ?c xs" grow] no_wrap_32 [OF w, of "?n + 1"] len lsum
    by (simp add: is1_def intsetResize_def cont del: length_enc_list)
  define J R where "J = zmalloc (?n * ?w + pp * ?w - ?n * ?c)" and "R = zmalloc ((1 - pp) * ?w)"
  have "grow = (?n * ?w + pp * ?w - ?n * ?c) + (1 - pp) * ?w"
    using le by (auto simp: grow_def pp_def)
  then have JR: "zmalloc grow = J @ R"
    by (simp add: J_def R_def zmalloc_add)
  have e1: "is_encoding is1 = ?w" by (simp add: is1)
  have c1: "is_contents is1 = enc_list ?c xs @ J @ enc_list (is_encoding is1) [] @ R"
    by (simp add: is1 JR)
  have l1: "length (enc_list ?c xs @ J) = (?n + pp) * is_encoding is1"
    using le unfolding J_def e1 add_mult_distrib length_append length_enc_list length_zmalloc
    by linarith
  obtain J' where J': "length J' = pp * ?w" and loop: "intset_upgrade_loop ?n ?c pp is1 =
      Some (is1\<lparr>is_contents := J' @ enc_list ?w xs @ R\<rparr>)"
    using intset_upgrade_loop_correct [OF c _ _ fits c1 l1] w up by (auto simp: e1)
  let ?is2 = "is1\<lparr>is_contents := J' @ enc_list ?w xs @ R\<rparr>"
  let ?xs' = "if v < 0 then v # xs else xs @ [v]"
  have fitv: "fits ?w v"
    using fits_valenc [OF w v] by simp
  have fit': "\<forall>x \<in> set ?xs'. fits ?w x"
    using fits up fitv fits_mono by auto
  have range: "if v < 0 then x > v else x < v" if "x \<in> set xs" for x
  proof -
    have "fits ?c x" and "\<not> fits ?c v"
      using fits that fits_valenc [OF c v] up by auto
    then show ?thesis
      by (auto simp: fits_def)
  qed
  have sorted': "sorted_wrt (<) ?xs'"
    using sorted range by (auto simp: sorted_wrt_append)
  have set: "(if pp = 1 then u_intsetSet ?is2 0 v else u_intsetSet ?is2 (is_length ?is2) v) =
      Some (is1\<lparr>is_contents := enc_list ?w ?xs'\<rparr>)"
  proof (cases "v < 0")
    case True
    then have "length J' = ?w" and "R = []"
      using J' by (simp_all add: pp_def R_def zmalloc_def)
    then have "mem_write (J' @ enc_list ?w xs) 0 (le_bytes ?w v) = Some (enc_list ?w (v # xs))"
      by (simp add: mem_write_def)
    then show ?thesis
      using True \<open>R = []\<close> w by (simp add: u_intsetSet_width is1 pp_def)
  next
    case False
    then have "J' = []" and "length R = ?w"
      using J' by (simp_all add: pp_def R_def)
    then have "mem_write (enc_list ?w xs @ R) (?n * ?w) (le_bytes ?w v) = Some (enc_list ?w (xs @ [v]))"
      by (simp add: mem_write_def)
    then show ?thesis
      using False \<open>J' = []\<close> w n by (simp add: u_intsetSet_width is1 pp_def)
  qed
  let ?is' = "is1\<lparr>is_contents := enc_list ?w ?xs', is_length := ?n + 1\<rparr>"
  have "intsetUpgradeAndAdd is v = Option.bind (intset_upgrade_loop ?n ?c pp is1)
      (\<lambda>is. Option.bind (if pp = 1 then u_intsetSet is 0 v else u_intsetSet is (is_length is) v)
        (\<lambda>is. Some (is\<lparr>is_length := is_length is + 1\<rparr>)))"
    by (simp add: intsetUpgradeAndAdd_def Let_def pp_def n is1_def)
  also have "\<dots> = Some ?is'"
    by (simp only: loop Option.bind.bind_lunit set) (simp add: is1 n)
  finally have "intsetUpgradeAndAdd is v = Some ?is'" .
  moreover have "intset_rep ?is' ?xs'"
    using w fit' sorted' by (auto simp: intset_rep_def is1)
  ultimately show ?thesis by blast
qed

section \<open>The operations on the abstraction\<close>

text \<open>The range of an \<^verbatim>\<open>int64_t\<close> argument.\<close>

definition is_int64 :: "int \<Rightarrow> bool" where
  "is_int64 v \<longleftrightarrow> LLONG_MIN \<le> v \<and> v \<le> LLONG_MAX"

lemma is_int64_bounds: "is_int64 v \<longleftrightarrow> - (2 ^ 63) \<le> v \<and> v < 2 ^ 63"
  by (auto simp: is_int64_def c_limits)

lemma intset_rep_New: "intset_rep intsetNew []"
  by (simp add: intset_rep_def intsetNew_def INTSET_ENC_defs)

lemma intset_rep_unfit:
  "intset_rep is xs \<Longrightarrow> is_int64 v \<Longrightarrow> is_encoding is < u_intsetValueEncoding v \<Longrightarrow> v \<notin> set xs"
  using fits_valenc [of "is_encoding is" v] by (auto simp: intset_rep_def is_int64_bounds)

lemma insert_pos_upgrade:
  assumes rep: "intset_rep is xs" and v: "is_int64 v"
    and up: "is_encoding is < u_intsetValueEncoding v"
  shows "insert_at (insert_pos xs v) v xs = (if v < 0 then v # xs else xs @ [v])"
proof -
  have c: "is_encoding is \<in> {2, 4, 8}" using rep by (simp add: intset_rep_def)
  have out: "if v < 0 then x > v else x < v" if "x \<in> set xs" for x
  proof -
    have "fits (is_encoding is) x" and "\<not> fits (is_encoding is) v"
      using rep that fits_valenc [OF c] v up by (auto simp: intset_rep_def is_int64_bounds)
    then show ?thesis by (auto simp: fits_def)
  qed
  have "insert_pos xs v = (if v < 0 then 0 else length xs)"
    using out [OF nth_mem] by (intro insert_pos_eqI) (force split: if_splits)+
  then show ?thesis by (simp add: insert_at_def)
qed

lemma intsetAdd_rep:
  assumes rep: "intset_rep is xs" and len: "int (length xs) + 1 < 2 ^ 29" and v: "is_int64 v"
  shows "\<exists>is'. intsetAdd is v = Some (is', v \<notin> set xs) \<and>
    intset_rep is' (if v \<in> set xs then xs else insert_at (insert_pos xs v) v xs)"
proof (cases "is_encoding is < u_intsetValueEncoding v")
  case True
  then obtain is' where "intsetUpgradeAndAdd is v = Some is'"
    and "intset_rep is' (if v < 0 then v # xs else xs @ [v])"
    using intsetUpgradeAndAdd_rep [OF rep len] v by (auto simp: is_int64_bounds)
  then show ?thesis
    using True intset_rep_unfit [OF rep v True] insert_pos_upgrade [OF rep v True]
    by (simp add: intsetAdd_def)
next
  case False
  have search: "intsetSearch is v = Some (v \<in> set xs, insert_pos xs v)"
    using intsetSearch_correct [OF rep] len by simp
  show ?thesis
  proof (cases "v \<in> set xs")
    case True
    then show ?thesis
      using False search rep by (simp add: intsetAdd_def)
  next
    case new: False
    have fit: "fits (is_encoding is) v"
      using False v rep by (simp add: fits_valenc is_int64_bounds intset_rep_def)
    define is' where "is' = is\<lparr>is_contents := enc_list (is_encoding is)
      (insert_at (insert_pos xs v) v xs), is_length := length xs + 1\<rparr>"
    have "intsetAdd is v = Some (is', True)"
      using intsetAdd_insert [OF rep len fit new refl] False new search
      by (simp add: intsetAdd_def is'_def)
    moreover have "intset_rep is' (insert_at (insert_pos xs v) v xs)"
      using rep fit new insert_pos_le sorted_insert_pos
      by (auto simp: intset_rep_def is'_def)
    ultimately show ?thesis
      using new by auto
  qed
qed

lemma intsetRemove_rep:
  assumes rep: "intset_rep is xs" and len: "int (length xs) < 2 ^ 29" and v: "is_int64 v"
  shows "\<exists>is'. intsetRemove is v = Some (is', v \<in> set xs) \<and>
    intset_rep is' (if v \<in> set xs then delete_at (insert_pos xs v) xs else xs)"
proof (cases "is_encoding is < u_intsetValueEncoding v")
  case True
  then show ?thesis
    using rep intset_rep_unfit [OF rep v True] by (auto simp: intsetRemove_def)
next
  case False
  let ?p = "insert_pos xs v"
  have search: "intsetSearch is v = Some (v \<in> set xs, ?p)"
    using intsetSearch_correct [OF rep] len by simp
  show ?thesis
  proof (cases "v \<in> set xs")
    case new: False
    then show ?thesis
      using False search rep by (simp add: intsetRemove_def)
  next
    case True
    have sorted: "sorted_wrt (<) xs" using rep by (simp add: intset_rep_def)
    note p = insert_pos_member [OF sorted True]
    define is' where "is' = is\<lparr>is_contents := enc_list (is_encoding is) (delete_at ?p xs),
      is_length := length xs - 1\<rparr>"
    have "intsetRemove is v = Some (is', True)"
      using intsetRemove_delete [OF rep len p(1)] False True search
      by (simp add: intsetRemove_def is'_def)
    moreover have "intset_rep is' (delete_at ?p xs)"
      using rep p sorted_delete_at [OF sorted] set_delete_at [OF sorted p(1)]
      by (auto simp: intset_rep_def is'_def)
    ultimately show ?thesis
      using True by auto
  qed
qed

lemma intsetFind_rep:
  assumes "intset_rep is xs" and "int (length xs) < 2 ^ 29" and "is_int64 v"
  shows "intsetFind is v = Some (v \<in> set xs)"
  using intsetSearch_correct [OF assms(1)] assms(2) intset_rep_unfit [OF assms(1,3)]
  by (auto simp: intsetFind_def)

lemma intset_ok_New: "intset_ok intsetNew" "intset_vals intsetNew = []"
  using intset_repD [OF intset_rep_New] by simp_all

lemma length_intset_vals [simp]: "length (intset_vals is) = is_length is"
  by (simp add: intset_vals_def)

lemma card_intset_vals: "intset_ok is \<Longrightarrow> card (set (intset_vals is)) = is_length is"
  using distinct_card [of "intset_vals is"]
  by (simp add: intset_ok_def strict_sorted_iff)

lemma intset_add_ok:
  assumes "intset_ok is" and "is_length is + 1 < 2 ^ 29" and "is_int64 v"
  shows "\<exists>is'. intsetAdd is v = Some (is', v \<notin> set (intset_vals is)) \<and> intset_ok is' \<and>
    set (intset_vals is') = insert v (set (intset_vals is))"
proof -
  obtain is' where "intsetAdd is v = Some (is', v \<notin> set (intset_vals is))"
    and r: "intset_rep is' (if v \<in> set (intset_vals is) then intset_vals is
      else insert_at (insert_pos (intset_vals is) v) v (intset_vals is))"
    using intsetAdd_rep [OF intset_ok_rep [OF assms(1)] _ assms(3)] assms(2) by auto
  then show ?thesis
    using intset_repD [OF r] by (auto simp: insert_absorb)
qed

lemma intset_remove_ok:
  assumes "intset_ok is" and "is_length is < 2 ^ 29" and "is_int64 v"
  shows "\<exists>is'. intsetRemove is v = Some (is', v \<in> set (intset_vals is)) \<and> intset_ok is' \<and>
    set (intset_vals is') = set (intset_vals is) - {v}"
proof -
  let ?xs = "intset_vals is"
  obtain is' where e: "intsetRemove is v = Some (is', v \<in> set ?xs)"
    and r: "intset_rep is' (if v \<in> set ?xs then delete_at (insert_pos ?xs v) ?xs else ?xs)"
    using intsetRemove_rep [OF intset_ok_rep [OF assms(1)] _ assms(3)] assms(2) by auto
  have sorted: "sorted_wrt (<) ?xs" using assms(1) by (simp add: intset_ok_def)
  have "set (if v \<in> set ?xs then delete_at (insert_pos ?xs v) ?xs else ?xs) = set ?xs - {v}"
    using set_delete_at [OF sorted, of "insert_pos ?xs v"] insert_pos_member [OF sorted] by auto
  then show ?thesis
    using e intset_repD [OF r] by auto
qed

lemma intset_find_ok:
  "intset_ok is \<Longrightarrow> is_length is < 2 ^ 29 \<Longrightarrow> is_int64 v \<Longrightarrow>
     intsetFind is v = Some (v \<in> set (intset_vals is))"
  using intsetFind_rep [OF intset_ok_rep, of "is" v] by simp

interpretation intset_set: set_impl intsetAdd intsetRemove "\<lambda>is v. map_option (Pair is) (intsetFind is v)" intsetNew intset_ok
  "\<lambda>is. set (intset_vals is)" is_int64 "2 ^ 29"
  by unfold_locales
    (use intset_ok_New intset_add_ok intset_remove_ok intset_find_ok in
      \<open>auto simp: card_intset_vals\<close>)

section \<open>Properties\<close>

text \<open>A concrete set for the witnesses: the values 5 and 9 at two bytes each.\<close>

definition demo_intset :: intset where
  "demo_intset = \<lparr>is_encoding = 2, is_length = 2, is_contents = [5, 0, 9, 0]\<rparr>"

lemma demo_intset_vals: "intset_vals demo_intset = [5, 9]"
  by (simp add: intset_vals_def demo_intset_def slot_def le_sint_def upt_rec)

lemma demo_intset_ok: "intset_ok demo_intset" "is_length demo_intset = 2"
  by (simp_all add: intset_ok_def demo_intset_vals) (simp_all add: demo_intset_def INTSET_ENC_defs)

text \<open>C9: Adding to a valid intset never leaves the block, reports whether the value was
  new, keeps the invariant, and the values afterwards are the old sorted list with the
  value inserted at its place, whether or not the encoding had to be widened.\<close>

theorem intsetAdd_correct:
  assumes "intset_ok is" and "is_length is + 1 < 2 ^ 29" and "is_int64 v"
  shows "\<exists>is'. intsetAdd is v = Some (is', v \<notin> set (intset_vals is)) \<and> intset_ok is' \<and>
    intset_vals is' = (if v \<in> set (intset_vals is) then intset_vals is
      else insort v (intset_vals is))"
proof -
  obtain is' where is': "intsetAdd is v = Some (is', v \<notin> set (intset_vals is))" "intset_ok is'"
      "set (intset_vals is') = insert v (set (intset_vals is))"
    using intset_add_ok [OF assms] by blast
  have "sorted (intset_vals is)" "distinct (intset_vals is)"
    "sorted (intset_vals is')" "distinct (intset_vals is')"
    using assms(1) is'(2) by (simp_all add: intset_ok_def strict_sorted_iff)
  with is'(3) have "intset_vals is' = (if v \<in> set (intset_vals is) then intset_vals is
      else insort v (intset_vals is))"
    by (intro sorted_distinct_set_unique)
       (auto simp: sorted_insort set_insort_key distinct_insort insert_absorb)
  with is' show ?thesis by blast
qed

theorem intsetAdd_witness:
  "\<exists>is'. intsetAdd demo_intset 70000 = Some (is', True) \<and> intset_ok is' \<and>
     intset_vals is' = [5, 9, 70000]"
  using intsetAdd_correct [OF demo_intset_ok(1), of 70000]
  by (simp add: demo_intset_ok demo_intset_vals is_int64_bounds)

text \<open>C23: Removing a value from a valid intset is safe, reports whether it was there, keeps
  the invariant, and removes exactly that value.\<close>

theorem intsetRemove_correct:
  assumes "intset_ok is" and "is_length is < 2 ^ 29" and "is_int64 v"
  shows "\<exists>is'. intsetRemove is v = Some (is', v \<in> set (intset_vals is)) \<and> intset_ok is' \<and>
    intset_vals is' = remove1 v (intset_vals is)"
proof -
  obtain is' where is': "intsetRemove is v = Some (is', v \<in> set (intset_vals is))" "intset_ok is'"
      "set (intset_vals is') = set (intset_vals is) - {v}"
    using intset_remove_ok [OF assms] by blast
  have "sorted (intset_vals is)" "distinct (intset_vals is)"
    "sorted (intset_vals is')" "distinct (intset_vals is')"
    using assms(1) is'(2) by (simp_all add: intset_ok_def strict_sorted_iff)
  with is'(3) have "intset_vals is' = remove1 v (intset_vals is)"
    by (intro sorted_distinct_set_unique) (auto simp: sorted_remove1)
  with is' show ?thesis by blast
qed

theorem intsetRemove_witness:
  "\<exists>is'. intsetRemove demo_intset 5 = Some (is', True) \<and> intset_ok is' \<and> intset_vals is' = [9]"
  using intsetRemove_correct [OF demo_intset_ok(1), of 5]
  by (simp add: demo_intset_ok demo_intset_vals is_int64_bounds)

text \<open>A set built by adding any list of 64-bit integers to the empty intset answers
  membership exactly: \<open>intsetFind\<close> agrees with list membership, through every change of
  encoding on the way.\<close>

theorem intset_built_find:
  assumes "list_all is_int64 vs" and "is_int64 v" and "length vs < 2 ^ 29"
  shows "\<exists>is. add_all intsetAdd intsetNew vs = Some is \<and> intsetFind is v = Some (v \<in> set vs)"
  using intset_set.built_member [OF assms] by auto

theorem intset_built_find_witness:
  "\<exists>is. add_all intsetAdd intsetNew [7, -70000, 5000000000, 7] = Some is \<and>
     intsetFind is (-70000) = Some True"
  using intset_built_find [of "[7, -70000, 5000000000, 7]" "-70000"]
  by (simp add: is_int64_bounds)

end
