(* ===== verification/Dict.thy ===== *)
theory Dict
  imports Interfaces Util "HOL-Library.Multiset"
begin

text \<open>
  Model of \<^verbatim>\<open>src/webserver/redis/src/dict.c\<close> and \<^verbatim>\<open>dict.h\<close>: the chained hash table with
  incremental rehashing behind the key space, hashes, sets and sorted sets.

  A table is the list of its chains, a chain the list of its entries from the head; the
  \<^verbatim>\<open>NULL\<close> table of a reset \<^verbatim>\<open>dictht\<close> is the empty list. A pointer to an entry is the
  triple of table number, bucket and position (\<open>eref\<close>). \<^verbatim>\<open>dictType\<close> has the client's
  functions, \<open>None\<close> for \<^verbatim>\<open>NULL\<close>. The calls of the two destructors are recorded, in
  order, in the field \<open>d_freed\<close>. The static \<^verbatim>\<open>dict_can_resize\<close> is the parameter \<open>cr\<close>
  of the operations that read it. An access outside a table, an unsigned counter that
  would wrap and an index that does not fit an \<^verbatim>\<open>int\<close> have no result (\<open>None\<close>).
\<close>

section \<open>Data\<close>

record ('k, 'v) dictType =
  hashFunction :: "'k \<Rightarrow> 32 word"
  keyDup :: "('k \<Rightarrow> 'k) option"
  valDup :: "('v \<Rightarrow> 'v) option"
  keyCompare :: "('k \<Rightarrow> 'k \<Rightarrow> bool) option"
  keyDestructor :: bool
  valDestructor :: bool

record ('k, 'v) dictht =
  ht_table :: "('k \<times> 'v) list list"
  ht_size :: nat
  ht_mask :: nat
  ht_used :: nat

datatype ('k, 'v) freed = FreeKey 'k | FreeVal 'v

record ('k, 'v) dict =
  ht0 :: "('k, 'v) dictht"
  ht1 :: "('k, 'v) dictht"
  rehashidx :: int
  iterators :: int
  d_freed :: "('k, 'v) freed list"

datatype dict_rc = DICT_OK | DICT_ERR

type_synonym eref = "nat \<times> nat \<times> nat"

definition DICT_HT_INITIAL_SIZE :: nat where "DICT_HT_INITIAL_SIZE = 4"
definition dict_force_resize_ratio :: nat where "dict_force_resize_ratio = 5"
definition LONG_MAX :: nat where "LONG_MAX = 2 ^ 63 - 1"

definition dictCompareHashKeys :: "('k, 'v) dictType \<Rightarrow> 'k \<Rightarrow> 'k \<Rightarrow> bool" where
  "dictCompareHashKeys ty a b = (case keyCompare ty of Some f \<Rightarrow> f a b | None \<Rightarrow> a = b)"

definition dictHashKey :: "('k, 'v) dictType \<Rightarrow> 'k \<Rightarrow> nat" where
  "dictHashKey ty k = unat (hashFunction ty k)"

definition dictSetHashKey :: "('k, 'v) dictType \<Rightarrow> 'k \<Rightarrow> 'k" where
  "dictSetHashKey ty k = (case keyDup ty of Some f \<Rightarrow> f k | None \<Rightarrow> k)"

definition dictSetHashVal :: "('k, 'v) dictType \<Rightarrow> 'v \<Rightarrow> 'v" where
  "dictSetHashVal ty v = (case valDup ty of Some f \<Rightarrow> f v | None \<Rightarrow> v)"

definition dictFreeEntryKey :: "('k, 'v) dictType \<Rightarrow> 'k \<times> 'v \<Rightarrow> ('k, 'v) freed list" where
  "dictFreeEntryKey ty e = (if keyDestructor ty then [FreeKey (fst e)] else [])"

definition dictFreeEntryVal :: "('k, 'v) dictType \<Rightarrow> 'k \<times> 'v \<Rightarrow> ('k, 'v) freed list" where
  "dictFreeEntryVal ty e = (if valDestructor ty then [FreeVal (snd e)] else [])"

definition dictSlots :: "('k, 'v) dict \<Rightarrow> nat" where
  "dictSlots d = ht_size (ht0 d) + ht_size (ht1 d)"

definition dictSize :: "('k, 'v) dict \<Rightarrow> nat" where
  "dictSize d = ht_used (ht0 d) + ht_used (ht1 d)"

definition dictIsRehashing :: "('k, 'v) dict \<Rightarrow> bool" where
  "dictIsRehashing d \<longleftrightarrow> rehashidx d \<noteq> -1"

text \<open>\<^verbatim>\<open>d->ht[t]\<close>, and access to one bucket of a table.\<close>

definition ht :: "('k, 'v) dict \<Rightarrow> nat \<Rightarrow> ('k, 'v) dictht" where
  "ht d t = (if t = 0 then ht0 d else ht1 d)"

definition set_ht :: "('k, 'v) dict \<Rightarrow> nat \<Rightarrow> ('k, 'v) dictht \<Rightarrow> ('k, 'v) dict" where
  "set_ht d t h = (if t = 0 then d\<lparr>ht0 := h\<rparr> else d\<lparr>ht1 := h\<rparr>)"

definition bucket :: "('k, 'v) dictht \<Rightarrow> nat \<Rightarrow> ('k \<times> 'v) list option" where
  "bucket h i = (if i < length (ht_table h) then Some (ht_table h ! i) else None)"

definition set_bucket ::
  "('k, 'v) dictht \<Rightarrow> nat \<Rightarrow> ('k \<times> 'v) list \<Rightarrow> ('k, 'v) dictht option" where
  "set_bucket h i b =
     (if i < length (ht_table h) then Some (h\<lparr>ht_table := (ht_table h)[i := b]\<rparr>) else None)"

section \<open>Hash functions\<close>

definition dictIntHashFunction :: "32 word \<Rightarrow> 32 word" where
  "dictIntHashFunction key =
     (let key = key + NOT (push_bit 15 key);
          key = key XOR drop_bit 10 key;
          key = key + push_bit 3 key;
          key = key XOR drop_bit 6 key;
          key = key + NOT (push_bit 11 key);
          key = key XOR drop_bit 16 key
      in key)"

definition dictIdentityHashFunction :: "32 word \<Rightarrow> 32 word" where
  "dictIdentityHashFunction key = key"

fun gen_hash :: "(byte \<Rightarrow> byte) \<Rightarrow> 32 word \<Rightarrow> byte list \<Rightarrow> nat \<Rightarrow> 32 word option" where
  "gen_hash f hash buf 0 = Some hash"
| "gen_hash f hash buf (Suc len) =
     (case buf of
        [] \<Rightarrow> None
      | c # buf \<Rightarrow> gen_hash f (push_bit 5 hash + hash + ucast (f c)) buf len)"

definition dictGenHashFunction :: "byte list \<Rightarrow> nat \<Rightarrow> 32 word option" where
  "dictGenHashFunction buf len = gen_hash (\<lambda>c. c) 5381 buf len"

definition dictGenCaseHashFunction :: "byte list \<Rightarrow> nat \<Rightarrow> 32 word option" where
  "dictGenCaseHashFunction buf len = gen_hash tolower 5381 buf len"

section \<open>Creation, expansion\<close>

definition u_dictReset :: "('k, 'v) dictht" where
  "u_dictReset = \<lparr>ht_table = [], ht_size = 0, ht_mask = 0, ht_used = 0\<rparr>"

definition u_dictInit :: "('k, 'v) dict" where
  "u_dictInit = \<lparr>ht0 = u_dictReset, ht1 = u_dictReset, rehashidx = -1, iterators = 0, d_freed = []\<rparr>"

definition dictCreate :: "('k, 'v) dict" where
  "dictCreate = u_dictInit"

text \<open>The doubling loop starts at 4; the test for 0 only makes the recursion total.\<close>

function next_power_loop :: "nat \<Rightarrow> nat \<Rightarrow> nat" where
  "next_power_loop i sz = (if i \<ge> sz \<or> i = 0 then i else next_power_loop (i * 2) sz)"
  by pat_completeness auto
termination
  by (relation "measure (\<lambda>(i, sz). sz - i)") auto

declare next_power_loop.simps [simp del]

definition u_dictNextPower :: "nat \<Rightarrow> nat" where
  "u_dictNextPower sz =
     (if sz \<ge> LONG_MAX then LONG_MAX else next_power_loop DICT_HT_INITIAL_SIZE sz)"

definition dictExpand :: "('k, 'v) dict \<Rightarrow> nat \<Rightarrow> ('k, 'v) dict \<times> dict_rc" where
  "dictExpand d sz =
     (let realsize = u_dictNextPower sz in
      if dictIsRehashing d \<or> ht_used (ht0 d) > sz then (d, DICT_ERR)
      else
        let n = \<lparr>ht_table = replicate realsize [], ht_size = realsize, ht_mask = realsize - 1,
                 ht_used = 0\<rparr>
        in if ht_table (ht0 d) = [] then (d\<lparr>ht0 := n\<rparr>, DICT_OK)
           else (d\<lparr>ht1 := n, rehashidx := 0\<rparr>, DICT_OK))"

definition dictResize :: "bool \<Rightarrow> ('k, 'v) dict \<Rightarrow> ('k, 'v) dict \<times> dict_rc" where
  "dictResize cr d =
     (if \<not> cr \<or> dictIsRehashing d then (d, DICT_ERR)
      else
        let minimal = to_s32 (int (ht_used (ht0 d)));
            minimal = (if minimal < int DICT_HT_INITIAL_SIZE then int DICT_HT_INITIAL_SIZE else minimal)
        in dictExpand d (nat minimal))"

section \<open>Incremental rehashing\<close>

text \<open>\<^verbatim>\<open>while(d->ht[0].table[d->rehashidx] == NULL) d->rehashidx++\<close>\<close>

function skip_empty :: "('k \<times> 'v) list list \<Rightarrow> nat \<Rightarrow> nat option" where
  "skip_empty t i =
     (if i < length t then (if t ! i = [] then skip_empty t (i + 1) else Some i) else None)"
  by pat_completeness auto
termination
  by (relation "measure (\<lambda>(t, i). length t - i)") auto

declare skip_empty.simps [simp del]

definition dec_used :: "('k, 'v) dictht \<Rightarrow> ('k, 'v) dictht option" where
  "dec_used h = (if 0 < ht_used h then Some (h\<lparr>ht_used := ht_used h - 1\<rparr>) else None)"

text \<open>The loop over the entries of one bucket: each becomes the head of its new chain.\<close>

fun move_chain ::
  "('k, 'v) dictType \<Rightarrow> ('k \<times> 'v) list \<Rightarrow> ('k, 'v) dictht \<Rightarrow> ('k, 'v) dictht \<Rightarrow>
     (('k, 'v) dictht \<times> ('k, 'v) dictht) option"
where
  "move_chain ty [] h0 h1 = Some (h0, h1)"
| "move_chain ty (e # es) h0 h1 =
     (let h = dictHashKey ty (fst e) AND ht_mask h1 in do {
        b \<leftarrow> bucket h1 h;
        h1 \<leftarrow> set_bucket h1 h (e # b);
        h0 \<leftarrow> dec_used h0;
        move_chain ty es h0 (h1\<lparr>ht_used := ht_used h1 + 1\<rparr>) })"

fun rehash_loop :: "('k, 'v) dictType \<Rightarrow> ('k, 'v) dict \<Rightarrow> nat \<Rightarrow> (('k, 'v) dict \<times> bool) option" where
  "rehash_loop ty d 0 = Some (d, True)"
| "rehash_loop ty d (Suc n) =
     (if ht_used (ht0 d) = 0 then Some (d\<lparr>ht0 := ht1 d, ht1 := u_dictReset, rehashidx := -1\<rparr>, False)
      else do {
        i \<leftarrow> skip_empty (ht_table (ht0 d)) (nat (rehashidx d));
        require (int i + 1 \<le> INT32_MAX);
        chain \<leftarrow> bucket (ht0 d) i;
        (h0, h1) \<leftarrow> move_chain ty chain (ht0 d) (ht1 d);
        h0 \<leftarrow> set_bucket h0 i [];
        rehash_loop ty (d\<lparr>ht0 := h0, ht1 := h1, rehashidx := int i + 1\<rparr>) n })"

definition dictRehash :: "('k, 'v) dictType \<Rightarrow> ('k, 'v) dict \<Rightarrow> nat \<Rightarrow> (('k, 'v) dict \<times> bool) option" where
  "dictRehash ty d n = (if \<not> dictIsRehashing d then Some (d, False) else rehash_loop ty d n)"

text \<open>The clock: \<open>elapsed\<close> lists the milliseconds since the start that the successive calls of
  \<^verbatim>\<open>timeInMilliseconds\<close> see.\<close>

fun rehash_ms_loop ::
  "('k, 'v) dictType \<Rightarrow> ('k, 'v) dict \<Rightarrow> int list \<Rightarrow> int \<Rightarrow> int \<Rightarrow> (('k, 'v) dict \<times> int) option"
where
  "rehash_ms_loop ty d elapsed ms rehashes =
     do { (d, more) \<leftarrow> dictRehash ty d 100;
          if \<not> more then Some (d, rehashes)
          else (case elapsed of
              [] \<Rightarrow> None
            | t # ts \<Rightarrow> if t > ms then Some (d, rehashes + 100)
                       else rehash_ms_loop ty d ts ms (rehashes + 100)) }"

definition dictRehashMilliseconds ::
  "('k, 'v) dictType \<Rightarrow> ('k, 'v) dict \<Rightarrow> int list \<Rightarrow> int \<Rightarrow> (('k, 'v) dict \<times> int) option" where
  "dictRehashMilliseconds ty d elapsed ms = rehash_ms_loop ty d elapsed ms 0"

definition u_dictRehashStep :: "('k, 'v) dictType \<Rightarrow> ('k, 'v) dict \<Rightarrow> ('k, 'v) dict option" where
  "u_dictRehashStep ty d =
     (if iterators d = 0 then map_option fst (dictRehash ty d 1) else Some d)"

text \<open>\<^verbatim>\<open>if (dictIsRehashing(d)) _dictRehashStep(d)\<close>\<close>

definition step_if_rehashing :: "('k, 'v) dictType \<Rightarrow> ('k, 'v) dict \<Rightarrow> ('k, 'v) dict option" where
  "step_if_rehashing ty d = (if dictIsRehashing d then u_dictRehashStep ty d else Some d)"

section \<open>Lookup and update\<close>

definition u_dictExpandIfNeeded :: "bool \<Rightarrow> ('k, 'v) dict \<Rightarrow> ('k, 'v) dict \<times> dict_rc" where
  "u_dictExpandIfNeeded cr d =
     (if dictIsRehashing d then (d, DICT_OK)
      else if ht_size (ht0 d) = 0 then dictExpand d DICT_HT_INITIAL_SIZE
      else if ht_used (ht0 d) \<ge> ht_size (ht0 d) \<and>
              (cr \<or> ht_used (ht0 d) div ht_size (ht0 d) > dict_force_resize_ratio)
        then dictExpand d ((if ht_size (ht0 d) > ht_used (ht0 d) then ht_size (ht0 d)
                            else ht_used (ht0 d)) * 2)
      else (d, DICT_OK))"

text \<open>The position in a chain of the first entry whose key compares equal.\<close>

fun chain_find :: "('k, 'v) dictType \<Rightarrow> 'k \<Rightarrow> ('k \<times> 'v) list \<Rightarrow> nat option" where
  "chain_find ty key [] = None"
| "chain_find ty key (e # es) =
     (if dictCompareHashKeys ty key (fst e) then Some 0 else map_option Suc (chain_find ty key es))"

text \<open>One round of the loops over the two tables: the bucket of the key and the position.\<close>

definition probe ::
  "('k, 'v) dictType \<Rightarrow> ('k, 'v) dict \<Rightarrow> 'k \<Rightarrow> nat \<Rightarrow> (nat \<times> nat option) option" where
  "probe ty d key t =
     (let idx = dictHashKey ty key AND ht_mask (ht d t) in do {
        b \<leftarrow> bucket (ht d t) idx;
        Some (idx, chain_find ty key b) })"

text \<open>The loop over the tables: the reference of the entry, if any, and the last bucket seen.\<close>

definition search_tables ::
  "('k, 'v) dictType \<Rightarrow> ('k, 'v) dict \<Rightarrow> 'k \<Rightarrow> (nat \<times> eref option) option" where
  "search_tables ty d key =
     do { (idx, p) \<leftarrow> probe ty d key 0;
          case p of
            Some n \<Rightarrow> Some (idx, Some (0, idx, n))
          | None \<Rightarrow>
              if \<not> dictIsRehashing d then Some (idx, None)
              else do {
                (idx, p) \<leftarrow> probe ty d key 1;
                Some (idx, map_option (\<lambda>n. (1, idx, n)) p) } }"

definition u_dictKeyIndex ::
  "('k, 'v) dictType \<Rightarrow> bool \<Rightarrow> ('k, 'v) dict \<Rightarrow> 'k \<Rightarrow> (('k, 'v) dict \<times> nat option) option" where
  "u_dictKeyIndex ty cr d key =
     (case u_dictExpandIfNeeded cr d of
        (d, DICT_ERR) \<Rightarrow> Some (d, None)
      | (d, DICT_OK) \<Rightarrow> do {
          (idx, r) \<leftarrow> search_tables ty d key;
          if r = None then do { require (fits_int idx); Some (d, Some idx) } else Some (d, None) })"

definition dictAdd ::
  "('k, 'v) dictType \<Rightarrow> bool \<Rightarrow> ('k, 'v) dict \<Rightarrow> 'k \<Rightarrow> 'v \<Rightarrow> (('k, 'v) dict \<times> dict_rc) option" where
  "dictAdd ty cr d key val =
     do { d \<leftarrow> step_if_rehashing ty d;
          (d, index) \<leftarrow> u_dictKeyIndex ty cr d key;
          case index of
            None \<Rightarrow> Some (d, DICT_ERR)
          | Some i \<Rightarrow>
              let t = (if dictIsRehashing d then 1 else 0) in do {
                b \<leftarrow> bucket (ht d t) i;
                h \<leftarrow> set_bucket (ht d t) i ((dictSetHashKey ty key, dictSetHashVal ty val) # b);
                Some (set_ht d t (h\<lparr>ht_used := ht_used h + 1\<rparr>), DICT_OK) } }"

definition dictFind ::
  "('k, 'v) dictType \<Rightarrow> ('k, 'v) dict \<Rightarrow> 'k \<Rightarrow> (('k, 'v) dict \<times> eref option) option" where
  "dictFind ty d key =
     (if ht_size (ht0 d) = 0 then Some (d, None)
      else do {
        d \<leftarrow> step_if_rehashing ty d;
        (idx, r) \<leftarrow> search_tables ty d key;
        Some (d, r) })"

text \<open>Dereferencing an entry pointer.\<close>

definition entry_at :: "('k, 'v) dict \<Rightarrow> eref \<Rightarrow> ('k \<times> 'v) option" where
  "entry_at d r =
     (case r of (t, i, n) \<Rightarrow> do {
        b \<leftarrow> bucket (ht d t) i; if n < length b then Some (b ! n) else None })"

definition dictFetchValue ::
  "('k, 'v) dictType \<Rightarrow> ('k, 'v) dict \<Rightarrow> 'k \<Rightarrow> (('k, 'v) dict \<times> 'v option) option" where
  "dictFetchValue ty d key =
     do { (d, r) \<leftarrow> dictFind ty d key;
          case r of None \<Rightarrow> Some (d, None)
          | Some r \<Rightarrow> do { e \<leftarrow> entry_at d r; Some (d, Some (snd e)) } }"

definition set_entry_val :: "('k, 'v) dict \<Rightarrow> eref \<Rightarrow> 'v \<Rightarrow> ('k, 'v) dict option" where
  "set_entry_val d r v =
     (case r of (t, i, n) \<Rightarrow> do {
        b \<leftarrow> bucket (ht d t) i;
        require (n < length b);
        h \<leftarrow> set_bucket (ht d t) i (b[n := (fst (b ! n), v)]);
        Some (set_ht d t h) })"

definition dictReplace ::
  "('k, 'v) dictType \<Rightarrow> bool \<Rightarrow> ('k, 'v) dict \<Rightarrow> 'k \<Rightarrow> 'v \<Rightarrow> (('k, 'v) dict \<times> bool) option" where
  "dictReplace ty cr d key val =
     do { (d, rc) \<leftarrow> dictAdd ty cr d key val;
          if rc = DICT_OK then Some (d, True)
          else do {
            (d, r) \<leftarrow> dictFind ty d key;
            case r of None \<Rightarrow> None
            | Some r \<Rightarrow> do {
                auxentry \<leftarrow> entry_at d r;
                d \<leftarrow> set_entry_val d r (dictSetHashVal ty val);
                Some (d\<lparr>d_freed := d_freed d @ dictFreeEntryVal ty auxentry\<rparr>, False) } } }"

text \<open>Deletion. The search ends at the first match, which is unlinked and released.\<close>

definition dictGenericDelete ::
  "('k, 'v) dictType \<Rightarrow> ('k, 'v) dict \<Rightarrow> 'k \<Rightarrow> bool \<Rightarrow> (('k, 'v) dict \<times> dict_rc) option" where
  "dictGenericDelete ty d key nofree =
     (if ht_size (ht0 d) = 0 then Some (d, DICT_ERR)
      else do {
        d \<leftarrow> step_if_rehashing ty d;
        (_, r) \<leftarrow> search_tables ty d key;
        case r of
          None \<Rightarrow> Some (d, DICT_ERR)
        | Some (t, i, n) \<Rightarrow> do {
            b \<leftarrow> bucket (ht d t) i;
            h \<leftarrow> set_bucket (ht d t) i (take n b @ drop (Suc n) b);
            h \<leftarrow> dec_used h;
            d \<leftarrow> Some (set_ht d t h);
            Some (if nofree then d
                  else d\<lparr>d_freed := d_freed d @ dictFreeEntryKey ty (b ! n) @ dictFreeEntryVal ty (b ! n)\<rparr>,
                  DICT_OK) } })"

definition dictDelete ::
  "('k, 'v) dictType \<Rightarrow> ('k, 'v) dict \<Rightarrow> 'k \<Rightarrow> (('k, 'v) dict \<times> dict_rc) option" where
  "dictDelete ty d key = dictGenericDelete ty d key False"

definition dictDeleteNoFree ::
  "('k, 'v) dictType \<Rightarrow> ('k, 'v) dict \<Rightarrow> 'k \<Rightarrow> (('k, 'v) dict \<times> dict_rc) option" where
  "dictDeleteNoFree ty d key = dictGenericDelete ty d key True"

section \<open>Clearing\<close>

definition free_entry :: "('k, 'v) dictType \<Rightarrow> 'k \<times> 'v \<Rightarrow> ('k, 'v) freed list" where
  "free_entry ty e = dictFreeEntryKey ty e @ dictFreeEntryVal ty e"

text \<open>The loop over the buckets stops when the table is exhausted or no entry is left; the
  result is what was released, and the count of entries left.\<close>

fun clear_loop ::
  "('k, 'v) dictType \<Rightarrow> ('k \<times> 'v) list list \<Rightarrow> nat \<Rightarrow> ('k, 'v) freed list option"
where
  "clear_loop ty [] used = Some []"
| "clear_loop ty (b # bs) used =
     (if used = 0 then Some []
      else if used < length b then None
      else map_option ((@) (concat (map (free_entry ty) b))) (clear_loop ty bs (used - length b)))"

definition u_dictClear ::
  "('k, 'v) dictType \<Rightarrow> ('k, 'v) dictht \<Rightarrow> (('k, 'v) dictht \<times> ('k, 'v) freed list) option" where
  "u_dictClear ty h =
     do { require (ht_size h \<le> length (ht_table h));
          fs \<leftarrow> clear_loop ty (take (ht_size h) (ht_table h)) (ht_used h);
          Some (u_dictReset, fs) }"

text \<open>\<^verbatim>\<open>dictRelease\<close>: what the client's destructors see before the dictionary is gone.\<close>

definition dictRelease :: "('k, 'v) dictType \<Rightarrow> ('k, 'v) dict \<Rightarrow> ('k, 'v) freed list option" where
  "dictRelease ty d =
     do { (_, f0) \<leftarrow> u_dictClear ty (ht0 d);
          (_, f1) \<leftarrow> u_dictClear ty (ht1 d);
          Some (d_freed d @ f0 @ f1) }"

definition dictEmpty :: "('k, 'v) dictType \<Rightarrow> ('k, 'v) dict \<Rightarrow> ('k, 'v) dict option" where
  "dictEmpty ty d =
     do { (h0, f0) \<leftarrow> u_dictClear ty (ht0 d);
          (h1, f1) \<leftarrow> u_dictClear ty (ht1 d);
          Some (d\<lparr>ht0 := h0, ht1 := h1, rehashidx := -1, iterators := 0,
                  d_freed := d_freed d @ f0 @ f1\<rparr>) }"

section \<open>Iterators\<close>

text \<open>
  The two entry pointers of an iterator are modelled by the part of a chain that begins
  at the entry, \<open>[]\<close> for \<^verbatim>\<open>NULL\<close>, as it was when the pointer was taken.
\<close>

record ('k, 'v) dictIterator =
  it_table :: nat
  it_index :: int
  it_safe :: bool
  it_entry :: "('k \<times> 'v) list"
  it_nextEntry :: "('k \<times> 'v) list"

definition dictGetIterator :: "('k, 'v) dictIterator" where
  "dictGetIterator =
     \<lparr>it_table = 0, it_index = -1, it_safe = False, it_entry = [], it_nextEntry = []\<rparr>"

definition dictGetSafeIterator :: "('k, 'v) dictIterator" where
  "dictGetSafeIterator = dictGetIterator\<lparr>it_safe := True\<rparr>"

text \<open>The branch \<^verbatim>\<open>iter->entry == NULL\<close> of \<open>dictNext\<close>: \<open>None\<close> inside \<open>Some\<close> is the
  \<^verbatim>\<open>break\<close> out of the loop.\<close>

definition next_bucket ::
  "('k, 'v) dict \<Rightarrow> ('k, 'v) dictIterator \<Rightarrow>
     (('k, 'v) dict \<times> ('k, 'v) dictIterator \<times> bool) option"
where
  "next_bucket d it =
     (let d = (if it_safe it \<and> it_index it = -1 \<and> it_table it = 0
               then d\<lparr>iterators := iterators d + 1\<rparr> else d);
          it = it\<lparr>it_index := it_index it + 1\<rparr>
      in if it_index it \<ge> int (ht_size (ht d (it_table it))) then
           (if dictIsRehashing d \<and> it_table it = 0 then do {
              b \<leftarrow> bucket (ht d 1) 0;
              Some (d, it\<lparr>it_table := 1, it_index := 0, it_entry := b\<rparr>, True) }
            else Some (d, it, False))
         else do {
           b \<leftarrow> bucket (ht d (it_table it)) (nat (it_index it));
           Some (d, it\<lparr>it_entry := b\<rparr>, True) })"

function dictNext ::
  "('k, 'v) dict \<Rightarrow> ('k, 'v) dictIterator \<Rightarrow>
     (('k, 'v) dict \<times> ('k, 'v) dictIterator \<times> ('k \<times> 'v) option) option"
where
  "dictNext d it =
     (if it_entry it = [] then
        (case next_bucket d it of
           None \<Rightarrow> None
         | Some (d', it', False) \<Rightarrow> Some (d', it', None)
         | Some (d', it', True) \<Rightarrow>
             (case it_entry it' of
                [] \<Rightarrow> dictNext d' it'
              | e # es \<Rightarrow> Some (d', it'\<lparr>it_nextEntry := es\<rparr>, Some e)))
      else
        (case it_nextEntry it of
           [] \<Rightarrow> dictNext d (it\<lparr>it_entry := []\<rparr>)
         | e # es \<Rightarrow> Some (d, it\<lparr>it_entry := e # es, it_nextEntry := es\<rparr>, Some e)))"
  by pat_completeness auto
termination
proof (relation "measures [\<lambda>(d, it). 1 - it_table it,
    \<lambda>(d, it). nat (int (ht_size (ht d (it_table it))) - it_index it), \<lambda>(d, it). length (it_entry it)]")
qed (auto simp: next_bucket_def Let_def ht_def bind_Some_iff split: if_splits)

declare dictNext.simps [simp del]

definition dictReleaseIterator :: "('k, 'v) dict \<Rightarrow> ('k, 'v) dictIterator \<Rightarrow> ('k, 'v) dict" where
  "dictReleaseIterator d it =
     (if it_safe it \<and> \<not> (it_index it = -1 \<and> it_table it = 0)
      then d\<lparr>iterators := iterators d - 1\<rparr> else d)"

section \<open>Random keys\<close>

text \<open>
  \<open>rnd\<close> lists the numbers that the successive calls of \<^verbatim>\<open>random\<close> return; the model has no
  result when the loop is still running at the end of the list.
\<close>

fun random_bucket ::
  "('k, 'v) dict \<Rightarrow> nat list \<Rightarrow> (('k \<times> 'v) list \<times> nat list) option" where
  "random_bucket d [] = None"
| "random_bucket d (r # rnd) =
     do { b \<leftarrow> (if dictIsRehashing d then
                 let h = r mod (ht_size (ht0 d) + ht_size (ht1 d)) in
                 if h \<ge> ht_size (ht0 d) then bucket (ht1 d) (h - ht_size (ht0 d)) else bucket (ht0 d) h
               else bucket (ht0 d) (r AND ht_mask (ht0 d)));
          if b = [] then random_bucket d rnd else Some (b, rnd) }"

definition dictGetRandomKey ::
  "('k, 'v) dictType \<Rightarrow> ('k, 'v) dict \<Rightarrow> nat list \<Rightarrow> (('k, 'v) dict \<times> ('k \<times> 'v) option) option" where
  "dictGetRandomKey ty d rnd =
     (if dictSize d = 0 then Some (d, None)
      else do {
        d \<leftarrow> step_if_rehashing ty d;
        (b, rnd) \<leftarrow> random_bucket d rnd;
        case rnd of [] \<Rightarrow> None | r # _ \<Rightarrow> Some (d, Some (b ! (r mod length b))) })"

section \<open>Laws of the client, invariant, abstraction\<close>

text \<open>
  What the dictionary relies on: keys compare equal when they have the same canonical
  form, equal keys hash alike, and the copy of a key equals it.
\<close>

definition dict_law :: "('k, 'v) dictType \<Rightarrow> ('k \<Rightarrow> 'c) \<Rightarrow> bool" where
  "dict_law ty cn \<longleftrightarrow>
     (\<forall>a b. dictCompareHashKeys ty a b \<longleftrightarrow> cn a = cn b) \<and>
     (\<forall>a b. cn a = cn b \<longrightarrow> hashFunction ty a = hashFunction ty b) \<and>
     (\<forall>k. cn (dictSetHashKey ty k) = cn k)"

lemma dict_lawD:
  assumes "dict_law ty cn"
  shows "dictCompareHashKeys ty a b \<longleftrightarrow> cn a = cn b" "cn (dictSetHashKey ty k) = cn k"
  using assms unfolding dict_law_def by blast+

lemma dict_law_hash: "dict_law ty cn \<Longrightarrow> cn a = cn b \<Longrightarrow> dictHashKey ty a = dictHashKey ty b"
  unfolding dict_law_def dictHashKey_def by metis

definition ents :: "('k, 'v) dictht \<Rightarrow> ('k \<times> 'v) list" where
  "ents h = concat (ht_table h)"

definition ht_ok :: "('k, 'v) dictType \<Rightarrow> ('k, 'v) dictht \<Rightarrow> bool" where
  "ht_ok ty h \<longleftrightarrow>
     (\<exists>m \<le> 30. ht_size h = 2 ^ m) \<and> ht_mask h = ht_size h - 1 \<and>
     length (ht_table h) = ht_size h \<and> ht_used h = length (ents h) \<and>
     (\<forall>i < ht_size h. \<forall>e \<in> set (ht_table h ! i). dictHashKey ty (fst e) mod ht_size h = i)"

definition dict_ents :: "('k, 'v) dict \<Rightarrow> ('k \<times> 'v) list" where
  "dict_ents d = ents (ht0 d) @ ents (ht1 d)"

definition tables_ok :: "('k, 'v) dictType \<Rightarrow> ('k, 'v) dict \<Rightarrow> bool" where
  "tables_ok ty d \<longleftrightarrow>
     (if dictIsRehashing d then
        0 \<le> rehashidx d \<and> ht_ok ty (ht0 d) \<and> ht_ok ty (ht1 d) \<and>
        (\<forall>i < nat (rehashidx d). i < ht_size (ht0 d) \<longrightarrow> ht_table (ht0 d) ! i = [])
      else ht1 d = u_dictReset \<and> (ht0 d = u_dictReset \<or> ht_ok ty (ht0 d)))"

definition dict_ok :: "('k, 'v) dictType \<Rightarrow> ('k \<Rightarrow> 'c) \<Rightarrow> ('k, 'v) dict \<Rightarrow> bool" where
  "dict_ok ty cn d \<longleftrightarrow> tables_ok ty d \<and> distinct (map (\<lambda>e. cn (fst e)) (dict_ents d))"

definition dict_map :: "('k \<Rightarrow> 'c) \<Rightarrow> ('k, 'v) dict \<Rightarrow> 'c \<rightharpoonup> 'v" where
  "dict_map cn d = map_of (map (\<lambda>e. (cn (fst e), snd e)) (dict_ents d))"

section \<open>Buckets\<close>

lemma ents_reset [simp]: "ents u_dictReset = []"
  by (simp add: ents_def u_dictReset_def)

lemma reset_simps [simp]:
  "ht_table u_dictReset = []" "ht_size u_dictReset = 0" "ht_used u_dictReset = 0"
  by (simp_all add: u_dictReset_def)

lemma ht_ok_size: "ht_ok ty h \<Longrightarrow> 0 < ht_size h \<and> ht_size h \<le> 2 ^ 30"
proof -
  assume "ht_ok ty h"
  then obtain m where "m \<le> 30" "ht_size h = 2 ^ m" by (auto simp: ht_ok_def)
  then show ?thesis using power_increasing [of m 30 "2 :: nat"] by simp
qed

lemma ht_okD:
  assumes "ht_ok ty h"
  shows "ht_mask h = ht_size h - 1" "length (ht_table h) = ht_size h" "ht_used h = length (ents h)"
  using assms unfolding ht_ok_def by blast+

lemma ht_ok_hash:
  "ht_ok ty h \<Longrightarrow> i < ht_size h \<Longrightarrow> e \<in> set (ht_table h ! i) \<Longrightarrow> dictHashKey ty (fst e) mod ht_size h = i"
  unfolding ht_ok_def by blast

lemma hash_index:
  assumes "ht_ok ty h"
  shows "n AND ht_mask h = n mod ht_size h"
proof -
  obtain m where m: "ht_size h = 2 ^ m" "ht_mask h = 2 ^ m - 1"
    using assms by (auto simp: ht_ok_def)
  have "n AND (2 ^ m - 1) = take_bit m n"
    by (simp only: take_bit_eq_mask mask_eq_exp_minus_1)
  then show ?thesis
    unfolding m by (simp only: take_bit_eq_mod)
qed

lemma mset_concat_update:
  "i < length t \<Longrightarrow> mset (concat (t[i := b])) + mset (t ! i) = mset (concat t) + mset b"
proof -
  assume i: "i < length t"
  have "mset (concat t) = mset (concat (take i t)) + mset (t ! i) + mset (concat (drop (Suc i) t))"
    by (subst id_take_nth_drop [OF i]) (simp only: concat_append concat.simps mset_append union_assoc)
  moreover have "mset (concat (t[i := b])) =
      mset (concat (take i t)) + mset b + mset (concat (drop (Suc i) t))"
    using i by (simp add: upd_conv_take_nth_drop)
  ultimately show ?thesis by simp
qed

lemma set_bucket_ok:
  assumes ok: "ht_ok ty h" and i: "i < ht_size h"
    and b: "\<forall>e \<in> set b. dictHashKey ty (fst e) mod ht_size h = i"
    and u: "u + length (ht_table h ! i) = ht_used h + length b"
  shows "\<exists>h'. set_bucket h i b = Some h' \<and> ht_ok ty (h'\<lparr>ht_used := u\<rparr>) \<and>
    mset (ents h') + mset (ht_table h ! i) = mset (ents h) + mset b \<and>
    ht_table h' = (ht_table h)[i := b] \<and> ht_size h' = ht_size h \<and> ht_used h' = ht_used h"
proof -
  have len: "length (ht_table h) = ht_size h" by (rule ht_okD [OF ok])
  have m: "mset (concat ((ht_table h)[i := b])) + mset (ht_table h ! i) = mset (ents h) + mset b"
    using mset_concat_update [of i "ht_table h" b] i len by (simp add: ents_def)
  then have "length (concat ((ht_table h)[i := b])) + length (ht_table h ! i) = length (ents h) + length b"
    by (metis size_mset size_union)
  then have "u = length (concat ((ht_table h)[i := b]))"
    using u ht_okD [OF ok] by simp
  then show ?thesis
    using ok i b m len unfolding ht_ok_def set_bucket_def
    by (simp add: ents_def nth_list_update)
qed

lemma bucket_ok: "ht_ok ty h \<Longrightarrow> i < ht_size h \<Longrightarrow> bucket h i = Some (ht_table h ! i)"
  by (simp add: bucket_def ht_okD(2))

lemma key_bucket:
  assumes "dict_law ty cn" and ok: "ht_ok ty h" and e: "e \<in> set (ents h)" "cn (fst e) = cn k"
  shows "e \<in> set (ht_table h ! (dictHashKey ty k mod ht_size h))"
proof -
  obtain b where b: "b \<in> set (ht_table h)" "e \<in> set b"
    using e(1) by (auto simp: ents_def)
  then obtain i where i: "i < length (ht_table h)" "ht_table h ! i = b"
    by (metis in_set_conv_nth)
  then have "dictHashKey ty (fst e) mod ht_size h = i"
    using ht_ok_hash [OF ok, of i e] ht_okD(2) [OF ok] b(2) by simp
  moreover have "dictHashKey ty (fst e) = dictHashKey ty k"
    by (rule dict_law_hash [OF assms(1) e(2)])
  ultimately show ?thesis
    using i b(2) by simp
qed

lemma bucket_ents: "ht_ok ty h \<Longrightarrow> i < ht_size h \<Longrightarrow> e \<in> set (ht_table h ! i) \<Longrightarrow> e \<in> set (ents h)"
  using nth_mem [of i "ht_table h"] ht_okD(2) [of ty h] by (auto simp: ents_def simp del: nth_mem)

lemma chain_find_cases:
  assumes "dict_law ty cn"
  shows "(\<exists>n. chain_find ty k b = Some n \<and> n < length b \<and> cn (fst (b ! n)) = cn k) \<or>
    chain_find ty k b = None \<and> (\<forall>e \<in> set b. cn (fst e) \<noteq> cn k)"
  by (induction b) (auto simp: dict_lawD [OF assms])

section \<open>Searching\<close>

lemma probe_ok:
  fixes k :: 'k
  assumes law: "dict_law ty cn" and ok: "ht_ok ty (ht d t)"
  defines "i \<equiv> dictHashKey ty k mod ht_size (ht d t)"
  shows "i < ht_size (ht d t) \<and>
    ((\<exists>n. probe ty d k t = Some (i, Some n) \<and> n < length (ht_table (ht d t) ! i) \<and>
        cn (fst (ht_table (ht d t) ! i ! n)) = cn k) \<or>
     probe ty d k t = Some (i, None) \<and> (\<forall>e \<in> set (ents (ht d t)). cn (fst e) \<noteq> cn k))"
proof -
  have i: "i < ht_size (ht d t)" using ht_ok_size [OF ok] by (simp add: i_def)
  have p: "probe ty d k t = Some (i, chain_find ty k (ht_table (ht d t) ! i))"
    using bucket_ok [OF ok i] hash_index [OF ok] by (simp add: probe_def Let_def i_def)
  from chain_find_cases [OF law, of k "ht_table (ht d t) ! i"] show ?thesis
  proof
    assume "\<exists>n. chain_find ty k (ht_table (ht d t) ! i) = Some n \<and>
      n < length (ht_table (ht d t) ! i) \<and> cn (fst (ht_table (ht d t) ! i ! n)) = cn k"
    then show ?thesis using p i by auto
  next
    assume "chain_find ty k (ht_table (ht d t) ! i) = None \<and>
      (\<forall>e \<in> set (ht_table (ht d t) ! i). cn (fst e) \<noteq> cn k)"
    then show ?thesis using p i key_bucket [OF law ok] unfolding i_def by metis
  qed
qed

text \<open>\<open>r\<close> points to an entry with the key \<open>k\<close>.\<close>

definition points_to :: "('k, 'v) dictType \<Rightarrow> ('k \<Rightarrow> 'c) \<Rightarrow> ('k, 'v) dict \<Rightarrow> 'k \<Rightarrow> eref \<Rightarrow> bool" where
  "points_to ty cn d k r \<longleftrightarrow>
     (\<exists>t i n. r = (t, i, n) \<and> t \<le> 1 \<and> (t = 1 \<longrightarrow> dictIsRehashing d) \<and> ht_ok ty (ht d t) \<and>
        i < ht_size (ht d t) \<and> n < length (ht_table (ht d t) ! i) \<and>
        cn (fst (ht_table (ht d t) ! i ! n)) = cn k)"

lemma tables_ok_ht:
  assumes "tables_ok ty d" and "ht_size (ht0 d) \<noteq> 0"
  shows "ht_ok ty (ht d 0)" "dictIsRehashing d \<Longrightarrow> ht_ok ty (ht d 1)"
    "\<not> dictIsRehashing d \<Longrightarrow> ents (ht1 d) = []"
  using assms by (auto simp: tables_ok_def ht_def split: if_splits)

lemma search_tables_ok:
  assumes law: "dict_law ty cn" and ok: "tables_ok ty d" and sz: "ht_size (ht0 d) \<noteq> 0"
  defines "t \<equiv> if dictIsRehashing d then 1 else 0"
  shows "(\<exists>i r. search_tables ty d k = Some (i, Some r) \<and> points_to ty cn d k r) \<or>
    (\<exists>i. search_tables ty d k = Some (i, None) \<and> (\<forall>e \<in> set (dict_ents d). cn (fst e) \<noteq> cn k) \<and>
       ht_ok ty (ht d t) \<and> i = dictHashKey ty k mod ht_size (ht d t) \<and> i < ht_size (ht d t))"
proof -
  note h = tables_ok_ht [OF ok sz]
  from probe_ok [OF law h(1), of k] show ?thesis
  proof (elim conjE disjE exE)
    fix n
    assume "probe ty d k 0 = Some (dictHashKey ty k mod ht_size (ht d 0), Some n)"
      "n < length (ht_table (ht d 0) ! (dictHashKey ty k mod ht_size (ht d 0)))"
      "dictHashKey ty k mod ht_size (ht d 0) < ht_size (ht d 0)"
      "cn (fst (ht_table (ht d 0) ! (dictHashKey ty k mod ht_size (ht d 0)) ! n)) = cn k"
    then show ?thesis
      using h(1) by (intro disjI1) (auto simp: search_tables_def points_to_def)
  next
    assume p0: "probe ty d k 0 = Some (dictHashKey ty k mod ht_size (ht d 0), None)"
      "\<forall>e \<in> set (ents (ht d 0)). cn (fst e) \<noteq> cn k"
      "dictHashKey ty k mod ht_size (ht d 0) < ht_size (ht d 0)"
    show ?thesis
    proof (cases "dictIsRehashing d")
      case False
      then show ?thesis
        using p0 h by (intro disjI2) (auto simp: search_tables_def t_def dict_ents_def ht_def)
    next
      case True
      from probe_ok [OF law h(2) [OF True], of k] show ?thesis
      proof (elim conjE disjE exE)
        fix n
        assume "probe ty d k 1 = Some (dictHashKey ty k mod ht_size (ht d 1), Some n)"
          "n < length (ht_table (ht d 1) ! (dictHashKey ty k mod ht_size (ht d 1)))"
          "dictHashKey ty k mod ht_size (ht d 1) < ht_size (ht d 1)"
          "cn (fst (ht_table (ht d 1) ! (dictHashKey ty k mod ht_size (ht d 1)) ! n)) = cn k"
        then show ?thesis
          using p0(1) h(2) True by (intro disjI1) (simp add: search_tables_def points_to_def)
      next
        assume "probe ty d k 1 = Some (dictHashKey ty k mod ht_size (ht d 1), None)"
          "\<forall>e \<in> set (ents (ht d 1)). cn (fst e) \<noteq> cn k"
          "dictHashKey ty k mod ht_size (ht d 1) < ht_size (ht d 1)"
        then show ?thesis
          using p0 h(2) True
          by (intro disjI2) (auto simp: search_tables_def t_def dict_ents_def ht_def)
      qed
    qed
  qed
qed

lemma search_tables_found:
  assumes law: "dict_law ty cn" and ok: "tables_ok ty d" and sz: "ht_size (ht0 d) \<noteq> 0"
  shows "(\<exists>i r. search_tables ty d k = Some (i, Some r) \<and> points_to ty cn d k r) \<or>
    (\<exists>i. search_tables ty d k = Some (i, None) \<and> (\<forall>e \<in> set (dict_ents d). cn (fst e) \<noteq> cn k))"
  using search_tables_ok [OF assms, of k] by blast

section \<open>Rehashing\<close>

lemma skip_empty_ok:
  "i \<le> j \<Longrightarrow> j < length t \<Longrightarrow> t ! j \<noteq> [] \<Longrightarrow>
     \<exists>m. skip_empty t i = Some m \<and> i \<le> m \<and> m < length t \<and> (\<forall>l. i \<le> l \<and> l < m \<longrightarrow> t ! l = [])"
proof (induction "length t - i" arbitrary: i rule: less_induct)
  case less
  show ?case
  proof (cases "t ! i = []")
    case False
    then show ?thesis using less.prems by (subst skip_empty.simps) auto
  next
    case True
    then have "i \<noteq> j" using less.prems(3) by auto
    then have "length t - (i + 1) < length t - i" "i + 1 \<le> j" using less.prems by auto
    from less.hyps [OF this less.prems(2,3)] obtain m where
      m: "skip_empty t (i + 1) = Some m" "i + 1 \<le> m" "m < length t"
        "\<forall>l. i + 1 \<le> l \<and> l < m \<longrightarrow> t ! l = []" by blast
    have "skip_empty t i = Some m"
      using m(1) True less.prems by (subst skip_empty.simps) auto
    moreover have "\<forall>l. i \<le> l \<and> l < m \<longrightarrow> t ! l = []"
      using m(4) True by (metis Suc_eq_plus1 Suc_leI le_neq_implies_less)
    ultimately show ?thesis using m by auto
  qed
qed

lemma move_chain_ok:
  "ht_ok ty h1 \<Longrightarrow> length es \<le> ht_used h0 \<Longrightarrow>
     \<exists>h1'. move_chain ty es h0 h1 = Some (h0\<lparr>ht_used := ht_used h0 - length es\<rparr>, h1') \<and>
       ht_ok ty h1' \<and> mset (ents h1') = mset (ents h1) + mset es \<and> ht_size h1' = ht_size h1"
proof (induction es arbitrary: h0 h1)
  case (Cons e es)
  let ?i = "dictHashKey ty (fst e) mod ht_size h1"
  have i: "?i < ht_size h1" using ht_ok_size [OF Cons.prems(1)] by simp
  have "\<forall>x \<in> set (e # ht_table h1 ! ?i). dictHashKey ty (fst x) mod ht_size h1 = ?i"
    using ht_ok_hash [OF Cons.prems(1) i] by simp
  from set_bucket_ok [OF Cons.prems(1) i this, of "ht_used h1 + 1"] obtain h where
    h: "set_bucket h1 ?i (e # ht_table h1 ! ?i) = Some h" "ht_ok ty (h\<lparr>ht_used := ht_used h1 + 1\<rparr>)"
      "mset (ents h) + mset (ht_table h1 ! ?i) = mset (ents h1) + mset (e # ht_table h1 ! ?i)"
      "ht_size h = ht_size h1" "ht_used h = ht_used h1"
    by auto
  have m: "mset (ents h) = mset (ents h1) + {#e#}" using h(3) by simp
  have used: "0 < ht_used h0" "length es \<le> ht_used (h0\<lparr>ht_used := ht_used h0 - 1\<rparr>)"
    using Cons.prems(2) by simp_all
  from Cons.IH [OF h(2) used(2)] obtain h' where
    "move_chain ty es (h0\<lparr>ht_used := ht_used h0 - 1\<rparr>) (h\<lparr>ht_used := ht_used h1 + 1\<rparr>) =
      Some (h0\<lparr>ht_used := ht_used h0 - 1 - length es\<rparr>, h')"
    "ht_ok ty h'" "mset (ents h') = mset (ents h) + mset es" "ht_size h' = ht_size h"
    by (auto simp: ents_def)
  then show ?case
    using h m used bucket_ok [OF Cons.prems(1) i] hash_index [OF Cons.prems(1)]
    by (simp add: Let_def dec_used_def)
qed simp

text \<open>\<open>same d d'\<close>: only the layout differs.\<close>

definition same :: "('k, 'v) dict \<Rightarrow> ('k, 'v) dict \<Rightarrow> bool" where
  "same d d' \<longleftrightarrow> mset (dict_ents d') = mset (dict_ents d) \<and> iterators d' = iterators d \<and>
     d_freed d' = d_freed d"

lemma same_refl [simp]: "same d d"
  by (simp add: same_def)

lemma same_trans: "same a b \<Longrightarrow> same b c \<Longrightarrow> same a c"
  by (simp add: same_def)

lemma rehash_done:
  assumes "tables_ok ty d" and "dictIsRehashing d" and "ht_used (ht0 d) = 0"
  defines "d' \<equiv> d\<lparr>ht0 := ht1 d, ht1 := u_dictReset, rehashidx := -1\<rparr>"
  shows "tables_ok ty d' \<and> same d d' \<and> ht_size (ht0 d') \<noteq> 0 \<and> \<not> dictIsRehashing d'"
proof -
  have ok: "ht_ok ty (ht0 d)" "ht_ok ty (ht1 d)"
    using assms by (simp_all add: tables_ok_def)
  have "ents (ht0 d) = []" using ht_okD(3) [OF ok(1)] assms(3) by simp
  then show ?thesis
    using ok ht_ok_size [OF ok(2)]
    by (simp add: d'_def tables_ok_def dictIsRehashing_def same_def dict_ents_def)
qed

lemma rehash_bucket:
  assumes ok: "tables_ok ty d" and re: "dictIsRehashing d" and used: "ht_used (ht0 d) \<noteq> 0"
  shows "\<exists>i chain h0 h0' h1. skip_empty (ht_table (ht0 d)) (nat (rehashidx d)) = Some i \<and>
    int i + 1 \<le> INT32_MAX \<and> bucket (ht0 d) i = Some chain \<and>
    nat (rehashidx d) \<le> i \<and> i < ht_size (ht0 d) \<and> ht_size h0' = ht_size (ht0 d) \<and>
    move_chain ty chain (ht0 d) (ht1 d) = Some (h0, h1) \<and> set_bucket h0 i [] = Some h0' \<and>
    tables_ok ty (d\<lparr>ht0 := h0', ht1 := h1, rehashidx := int i + 1\<rparr>) \<and>
    same d (d\<lparr>ht0 := h0', ht1 := h1, rehashidx := int i + 1\<rparr>)"
proof -
  have oks: "ht_ok ty (ht0 d)" "ht_ok ty (ht1 d)" "0 \<le> rehashidx d"
    and below: "\<And>i. i < nat (rehashidx d) \<Longrightarrow> i < ht_size (ht0 d) \<Longrightarrow> ht_table (ht0 d) ! i = []"
    using ok re by (simp_all add: tables_ok_def)
  note D = ht_okD [OF oks(1)]
  have "ents (ht0 d) \<noteq> []" using used D(3) by auto
  then obtain j where j: "j < length (ht_table (ht0 d))" "ht_table (ht0 d) ! j \<noteq> []"
    unfolding ents_def by (auto simp: concat_eq_Nil_conv in_set_conv_nth)
  have "nat (rehashidx d) \<le> j"
  proof (rule ccontr)
    assume "\<not> nat (rehashidx d) \<le> j"
    then have "j < nat (rehashidx d)" by simp
    from below [OF this] j D(2) show False by simp
  qed
  from skip_empty_ok [OF this j] obtain i where
    i: "skip_empty (ht_table (ht0 d)) (nat (rehashidx d)) = Some i" "nat (rehashidx d) \<le> i"
      "i < ht_size (ht0 d)" "\<forall>l. nat (rehashidx d) \<le> l \<and> l < i \<longrightarrow> ht_table (ht0 d) ! l = []"
    unfolding D(2) by blast
  let ?chain = "ht_table (ht0 d) ! i"
  let ?h0 = "(ht0 d)\<lparr>ht_used := ht_used (ht0 d) - length ?chain\<rparr>"
  have le: "length ?chain \<le> ht_used (ht0 d)"
  proof -
    have "mset (concat ((ht_table (ht0 d))[i := []])) + mset ?chain = mset (ents (ht0 d))"
      using mset_concat_update [of i "ht_table (ht0 d)" "[]"] i(3) D(2) by (simp add: ents_def)
    then have "length ?chain \<le> length (ents (ht0 d))"
      by (metis le_add2 size_mset size_union)
    then show ?thesis using D(3) by simp
  qed
  from move_chain_ok [OF oks(2) le] obtain h1 where
    h1: "move_chain ty ?chain (ht0 d) (ht1 d) = Some (?h0, h1)" "ht_ok ty h1"
      "mset (ents h1) = mset (ents (ht1 d)) + mset ?chain"
    by blast
  from set_bucket_ok [OF oks(1) i(3), of "[]" "ht_used (ht0 d) - length ?chain"] le obtain h where
    h: "set_bucket (ht0 d) i [] = Some h" "ht_ok ty (h\<lparr>ht_used := ht_used (ht0 d) - length ?chain\<rparr>)"
      "mset (ents h) + mset ?chain = mset (ents (ht0 d))"
      "ht_table h = (ht_table (ht0 d))[i := []]" "ht_size h = ht_size (ht0 d)"
    by auto
  let ?h0' = "h\<lparr>ht_used := ht_used (ht0 d) - length ?chain\<rparr>"
  have s0: "set_bucket ?h0 i [] = Some ?h0'"
    using h(1) by (auto simp: set_bucket_def split: if_splits)
  have empty: "ht_table ?h0' ! l = []" if "l < nat (int i + 1)" "l < ht_size ?h0'" for l
  proof (cases "l = i")
    case True
    then show ?thesis using h(4) i(3) D(2) by simp
  next
    case False
    then have l: "l < i" "l < ht_size (ht0 d)" using that h(5) by auto
    then have "ht_table (ht0 d) ! l = []"
      using below [of l] i(4) by (cases "l < nat (rehashidx d)") auto
    then show ?thesis using h(4) False by simp
  qed
  let ?d = "d\<lparr>ht0 := ?h0', ht1 := h1, rehashidx := int i + 1\<rparr>"
  have "tables_ok ty ?d"
    using h(2) h1(2) empty by (simp add: tables_ok_def dictIsRehashing_def)
  moreover have "ents ?h0' = ents h" by (simp add: ents_def)
  then have "mset (dict_ents ?d) = mset (dict_ents d)"
    using h(3) h1(3) by (simp add: dict_ents_def)
  then have "same d ?d" by (simp add: same_def)
  moreover have "int i + 1 \<le> INT32_MAX"
    using i(3) ht_ok_size [OF oks(1)] by (simp add: c_limits)
  ultimately show ?thesis
    using i(1-3) bucket_ok [OF oks(1) i(3)] h1(1) s0 h(5)
    by (intro exI [of _ i] exI [of _ ?chain] exI [of _ ?h0] exI [of _ ?h0'] exI [of _ h1]) simp
qed

lemma rehash_loop_ok:
  "tables_ok ty d \<Longrightarrow> dictIsRehashing d \<Longrightarrow>
     \<exists>d' more. rehash_loop ty d n = Some (d', more) \<and> tables_ok ty d' \<and> same d d' \<and>
       ht_size (ht0 d') \<noteq> 0 \<and> (more \<longleftrightarrow> dictIsRehashing d')"
proof (induction n arbitrary: d)
  case 0
  then show ?case
    using ht_ok_size [of ty "ht0 d"] by (auto simp: tables_ok_def)
next
  case (Suc n)
  show ?case
  proof (cases "ht_used (ht0 d) = 0")
    case True
    then show ?thesis using rehash_done [OF Suc.prems True] by auto
  next
    case False
    from rehash_bucket [OF Suc.prems False] obtain i chain h0 h0' h1 where
      r: "skip_empty (ht_table (ht0 d)) (nat (rehashidx d)) = Some i" "int i + 1 \<le> INT32_MAX"
        "bucket (ht0 d) i = Some chain" "move_chain ty chain (ht0 d) (ht1 d) = Some (h0, h1)"
        "set_bucket h0 i [] = Some h0'"
      and d: "tables_ok ty (d\<lparr>ht0 := h0', ht1 := h1, rehashidx := int i + 1\<rparr>)"
        "same d (d\<lparr>ht0 := h0', ht1 := h1, rehashidx := int i + 1\<rparr>)"
      by blast
    let ?d = "d\<lparr>ht0 := h0', ht1 := h1, rehashidx := int i + 1\<rparr>"
    have "dictIsRehashing ?d" by (simp add: dictIsRehashing_def)
    from Suc.IH [OF d(1) this] obtain d' more where
      "rehash_loop ty ?d n = Some (d', more)" "tables_ok ty d'" "same ?d d'"
      "ht_size (ht0 d') \<noteq> 0" "more \<longleftrightarrow> dictIsRehashing d'" by blast
    then show ?thesis
      using False r same_trans [OF d(2)] by simp
  qed
qed

lemma step_ok:
  assumes "tables_ok ty d" and "ht_size (ht0 d) \<noteq> 0"
  shows "\<exists>d'. step_if_rehashing ty d = Some d' \<and> tables_ok ty d' \<and> same d d' \<and> ht_size (ht0 d') \<noteq> 0"
proof (cases "dictIsRehashing d \<and> iterators d = 0")
  case True
  then show ?thesis
    using rehash_loop_ok [OF assms(1), of 1]
    by (auto simp: step_if_rehashing_def u_dictRehashStep_def dictRehash_def)
next
  case False
  then show ?thesis
    using assms by (auto simp: step_if_rehashing_def u_dictRehashStep_def)
qed

section \<open>The abstract map\<close>

lemma map_of_mset:
  assumes "distinct (map fst xs)" and "mset xs = mset ys"
  shows "map_of xs = map_of ys"
proof -
  have "mset (map fst xs) = mset (map fst ys)" using assms(2) by simp
  then have "distinct (map fst ys)" using assms(1) mset_eq_imp_distinct_iff by blast
  then show ?thesis
    using assms map_of_inject_set mset_eq_setD by blast
qed

definition keyed :: "('k \<Rightarrow> 'c) \<Rightarrow> ('k \<times> 'v) list \<Rightarrow> ('c \<times> 'v) list" where
  "keyed cn es = map (\<lambda>e. (cn (fst e), snd e)) es"

lemma keyed_fst: "map fst (keyed cn es) = map (\<lambda>e. cn (fst e)) es"
  by (simp add: keyed_def)

lemma dict_map_keyed: "dict_map cn d = map_of (keyed cn (dict_ents d))"
  by (simp add: dict_map_def keyed_def)

lemma mset_keyed: "mset es = mset fs \<Longrightarrow> mset (keyed cn es) = mset (keyed cn fs)"
  by (simp add: keyed_def)

lemma dict_okI:
  "tables_ok ty d \<Longrightarrow> mset (dict_ents d) = mset es \<Longrightarrow> distinct (map (\<lambda>e. cn (fst e)) es) \<Longrightarrow>
     dict_ok ty cn d \<and> dict_map cn d = map_of (keyed cn es)"
proof -
  assume *: "tables_ok ty d" "mset (dict_ents d) = mset es" "distinct (map (\<lambda>e. cn (fst e)) es)"
  have m: "mset (keyed cn (dict_ents d)) = mset (keyed cn es)" by (rule mset_keyed [OF *(2)])
  have "distinct (map fst (keyed cn es))" using *(3) by (simp add: keyed_fst)
  then have di: "distinct (map fst (keyed cn (dict_ents d)))"
    using m by (metis mset_eq_imp_distinct_iff mset_map)
  then have "dict_ok ty cn d" using *(1) by (simp add: dict_ok_def keyed_fst)
  moreover have "dict_map cn d = map_of (keyed cn es)"
    unfolding dict_map_keyed by (rule map_of_mset [OF di m])
  ultimately show ?thesis by simp
qed

lemma dict_ok_tables: "dict_ok ty cn d \<Longrightarrow> tables_ok ty d"
  by (simp add: dict_ok_def)

lemma dict_ok_same:
  "dict_ok ty cn d \<Longrightarrow> same d d' \<Longrightarrow> tables_ok ty d' \<Longrightarrow>
     dict_ok ty cn d' \<and> dict_map cn d' = dict_map cn d"
  using dict_okI [of ty d' "dict_ents d" cn] by (simp add: dict_ok_def same_def dict_map_keyed)

lemma dict_map_None:
  "dict_map cn d c = None \<longleftrightarrow> (\<forall>e \<in> set (dict_ents d). cn (fst e) \<noteq> c)"
  by (auto simp: dict_map_def map_of_eq_None_iff image_image)

lemma dict_map_entry:
  "dict_ok ty cn d \<Longrightarrow> e \<in> set (dict_ents d) \<Longrightarrow> dict_map cn d (cn (fst e)) = Some (snd e)"
  by (auto simp: dict_map_keyed dict_ok_def keyed_def comp_def intro!: map_of_is_SomeI)

lemma size_zero_ents: "tables_ok ty d \<Longrightarrow> ht_size (ht0 d) = 0 \<Longrightarrow> dict_ents d = []"
  using ht_ok_size [of ty "ht0 d"] by (auto simp: tables_ok_def dict_ents_def split: if_splits)

lemma dictSize_ents: "tables_ok ty d \<Longrightarrow> dictSize d = length (dict_ents d)"
  by (auto simp: tables_ok_def dictSize_def dict_ents_def ht_okD split: if_splits)

text \<open>An entry that is pointed to, with the rest of its chain and of the dictionary.\<close>

lemma points_toE:
  assumes "points_to ty cn d k r"
  obtains t i n b where "r = (t, i, n)" "t = 0 \<or> t = 1" "t = 1 \<Longrightarrow> dictIsRehashing d"
    "ht_ok ty (ht d t)" "i < ht_size (ht d t)" "b = ht_table (ht d t) ! i" "n < length b"
    "bucket (ht d t) i = Some b" "cn (fst (b ! n)) = cn k"
proof -
  from assms obtain t i n where *: "r = (t, i, n)" "t \<le> 1" "t = 1 \<longrightarrow> dictIsRehashing d"
    "ht_ok ty (ht d t)" "i < ht_size (ht d t)" "n < length (ht_table (ht d t) ! i)"
    "cn (fst (ht_table (ht d t) ! i ! n)) = cn k"
    unfolding points_to_def by blast
  show thesis
    by (rule that [OF *(1) _ _ *(4,5) refl *(6) bucket_ok [OF *(4,5)] *(7)]) (use *(2,3) in auto)
qed

lemma points_to_entry:
  assumes "points_to ty cn d k r"
  shows "\<exists>e. entry_at d r = Some e \<and> e \<in> set (dict_ents d) \<and> cn (fst e) = cn k"
  using assms
proof (rule points_toE)
  fix t i n b
  assume *: "r = (t, i, n)" "t = 0 \<or> t = 1" "ht_ok ty (ht d t)" "i < ht_size (ht d t)"
    "b = ht_table (ht d t) ! i" "n < length b" "bucket (ht d t) i = Some b" "cn (fst (b ! n)) = cn k"
  have "b ! n \<in> set (ents (ht d t))"
    using bucket_ents [OF *(3,4), of "b ! n"] *(5,6) by simp
  then have "b ! n \<in> set (dict_ents d)"
    using *(2) by (auto simp: dict_ents_def ht_def)
  then show ?thesis
    using * by (auto simp: entry_at_def)
qed

section \<open>Growing\<close>

lemma next_power_loop_ok:
  "\<exists>m. next_power_loop (2 ^ a) sz = 2 ^ m \<and> sz \<le> 2 ^ m \<and> (m = a \<or> 2 ^ m < 2 * sz) \<and> a \<le> m"
proof (induction "sz - 2 ^ a" arbitrary: a rule: less_induct)
  case less
  show ?case
  proof (cases "sz \<le> 2 ^ a")
    case True
    then show ?thesis by (subst next_power_loop.simps) auto
  next
    case False
    moreover have "0 < (2 :: nat) ^ a" "(2 :: nat) ^ Suc a = 2 * 2 ^ a" by simp_all
    ultimately have "sz - 2 ^ Suc a < sz - 2 ^ a" by linarith
    from less [OF this] obtain m where
      "next_power_loop (2 ^ Suc a) sz = 2 ^ m" "sz \<le> 2 ^ m" "m = Suc a \<or> 2 ^ m < 2 * sz" "Suc a \<le> m"
      by blast
    moreover have "next_power_loop (2 ^ a) sz = next_power_loop (2 ^ Suc a) sz"
      using False by (subst next_power_loop.simps) (simp add: mult.commute)
    ultimately show ?thesis using False by auto
  qed
qed

lemma dictNextPower_ok:
  assumes "sz \<le> 2 ^ 29"
  shows "\<exists>m \<le> 30. u_dictNextPower sz = 2 ^ m \<and> sz \<le> 2 ^ m \<and> 2 \<le> m"
proof -
  from next_power_loop_ok [of 2 sz] obtain m where
    m: "next_power_loop (2 ^ 2) sz = 2 ^ m" "sz \<le> 2 ^ m" "m = 2 \<or> 2 ^ m < 2 * sz" "2 \<le> m" by blast
  have "m \<le> 30"
  proof (rule ccontr)
    assume "\<not> m \<le> 30"
    then have "(2 :: nat) ^ 31 \<le> 2 ^ m" by (intro power_increasing) auto
    then show False using m(3) assms \<open>\<not> m \<le> 30\<close> by auto
  qed
  moreover have "sz < LONG_MAX" using assms by (simp add: LONG_MAX_def)
  then have "u_dictNextPower sz = next_power_loop (2 ^ 2) sz"
    by (simp add: u_dictNextPower_def DICT_HT_INITIAL_SIZE_def)
  ultimately show ?thesis using m by auto
qed

lemma fresh_table_ok:
  "m \<le> 30 \<Longrightarrow> ht_ok ty \<lparr>ht_table = replicate (2 ^ m) [], ht_size = 2 ^ m, ht_mask = 2 ^ m - 1, ht_used = 0\<rparr>"
  by (auto simp: ht_ok_def ents_def)

lemma dictExpand_ok:
  assumes ok: "tables_ok ty d" and "\<not> dictIsRehashing d" and "ht_used (ht0 d) \<le> sz" and "sz \<le> 2 ^ 29"
  shows "\<exists>d'. dictExpand d sz = (d', DICT_OK) \<and> tables_ok ty d' \<and> same d d' \<and> ht_size (ht0 d') \<noteq> 0 \<and>
    (ht_size (ht0 d) \<noteq> 0 \<longrightarrow> dictIsRehashing d' \<and> sz \<le> ht_size (ht1 d'))"
proof -
  obtain m where m: "m \<le> 30" "u_dictNextPower sz = 2 ^ m" "sz \<le> 2 ^ m"
    using dictNextPower_ok [OF assms(4)] by blast
  note n = fresh_table_ok [OF m(1), of ty]
  have ne: "ents \<lparr>ht_table = replicate k [], ht_size = l, ht_mask = i, ht_used = j\<rparr> = []" for k l i j
    by (simp add: ents_def)
  show ?thesis
  proof (cases "ht_table (ht0 d) = []")
    case True
    have z: "ht0 d = u_dictReset" "ht1 d = u_dictReset"
      using ok assms(2) True ht_ok_size [of ty "ht0 d"] ht_okD(2) [of ty "ht0 d"]
      by (auto simp: tables_ok_def)
    then show ?thesis
      using True m n assms(2,3)
      by (simp add: dictExpand_def Let_def tables_ok_def dictIsRehashing_def same_def dict_ents_def ne)
  next
    case False
    then have "ht_ok ty (ht0 d)" "ents (ht1 d) = []"
      using ok assms(2) by (auto simp: tables_ok_def)
    then show ?thesis
      using False m n assms(2,3) ht_ok_size [of ty "ht0 d"]
      by (simp add: dictExpand_def Let_def tables_ok_def dictIsRehashing_def same_def dict_ents_def ne)
  qed
qed

lemma expandIfNeeded_ok:
  assumes ok: "tables_ok ty d" and sz: "dictSize d < 2 ^ 28"
  shows "\<exists>d'. u_dictExpandIfNeeded cr d = (d', DICT_OK) \<and> tables_ok ty d' \<and> same d d' \<and>
    ht_size (ht0 d') \<noteq> 0"
proof (cases "dictIsRehashing d")
  case True
  then have "ht_ok ty (ht0 d)" using ok by (simp add: tables_ok_def)
  then show ?thesis
    using True ok ht_ok_size by (auto simp: u_dictExpandIfNeeded_def)
next
  case c1: False
  show ?thesis
  proof (cases "ht_size (ht0 d) = 0")
    case True
    then have "dict_ents d = []" using size_zero_ents [OF ok] by simp
    then have "ht_used (ht0 d) \<le> DICT_HT_INITIAL_SIZE"
      using dictSize_ents [OF ok] by (simp add: dictSize_def)
    moreover have "DICT_HT_INITIAL_SIZE \<le> 2 ^ 29" by (simp add: DICT_HT_INITIAL_SIZE_def)
    ultimately show ?thesis
      using dictExpand_ok [OF ok c1] True c1 unfolding u_dictExpandIfNeeded_def by auto
  next
    case c2: False
    let ?cond = "ht_used (ht0 d) \<ge> ht_size (ht0 d) \<and>
         (cr \<or> ht_used (ht0 d) div ht_size (ht0 d) > dict_force_resize_ratio)"
    let ?sz = "(if ht_size (ht0 d) > ht_used (ht0 d) then ht_size (ht0 d) else ht_used (ht0 d)) * 2"
    show ?thesis
    proof (cases ?cond)
      case c3: True
      have "ht_used (ht0 d) \<le> ?sz" "?sz \<le> 2 ^ 29"
        using c3 sz by (simp_all add: dictSize_def)
      from dictExpand_ok [OF ok c1 this] obtain d' where
        "dictExpand d ?sz = (d', DICT_OK)" "tables_ok ty d'" "same d d'" "ht_size (ht0 d') \<noteq> 0"
        by blast
      moreover have "u_dictExpandIfNeeded cr d = dictExpand d ?sz"
        unfolding u_dictExpandIfNeeded_def if_not_P [OF c1] if_not_P [OF c2] if_P [OF c3] ..
      ultimately show ?thesis by simp
    next
      case c3: False
      have "u_dictExpandIfNeeded cr d = (d, DICT_OK)"
        unfolding u_dictExpandIfNeeded_def if_not_P [OF c1] if_not_P [OF c2] if_not_P [OF c3] ..
      then show ?thesis using ok c2 by simp
    qed
  qed
qed

section \<open>Updating one chain\<close>

lemma update_bucket_ok:
  assumes ok: "tables_ok ty d" and t: "t = 0 \<or> t = 1" "t = 1 \<Longrightarrow> dictIsRehashing d"
    and h: "ht_ok ty (ht d t)" "i < ht_size (ht d t)" and b: "b = ht_table (ht d t) ! i"
    and b': "\<forall>e \<in> set b'. dictHashKey ty (fst e) mod ht_size (ht d t) = i"
    and u: "u + length b = ht_used (ht d t) + length b'"
    and idx: "t = 0 \<Longrightarrow> dictIsRehashing d \<Longrightarrow> b \<noteq> []"
  shows "\<exists>h'. set_bucket (ht d t) i b' = Some h' \<and> ht_used h' = ht_used (ht d t) \<and>
    tables_ok ty (set_ht d t (h'\<lparr>ht_used := u\<rparr>)) \<and>
    mset (dict_ents (set_ht d t (h'\<lparr>ht_used := u\<rparr>))) + mset b = mset (dict_ents d) + mset b'"
proof -
  from set_bucket_ok [OF h b', of u] u b obtain h' where
    h': "set_bucket (ht d t) i b' = Some h'" "ht_ok ty (h'\<lparr>ht_used := u\<rparr>)"
      "mset (ents h') + mset b = mset (ents (ht d t)) + mset b'"
      "ht_table h' = (ht_table (ht d t))[i := b']" "ht_size h' = ht_size (ht d t)"
      "ht_used h' = ht_used (ht d t)" by auto
  have m: "mset (ents (h'\<lparr>ht_used := u\<rparr>)) + mset b = mset (ents (ht d t)) + mset b'"
    using h'(3) by (simp add: ents_def)
  have "tables_ok ty (set_ht d t (h'\<lparr>ht_used := u\<rparr>))"
  proof (cases "dictIsRehashing d")
    case True
    then have r: "0 \<le> rehashidx d" "ht_ok ty (ht0 d)" "ht_ok ty (ht1 d)"
      "\<And>j. j < nat (rehashidx d) \<Longrightarrow> j < ht_size (ht0 d) \<Longrightarrow> ht_table (ht0 d) ! j = []"
      using ok by (simp_all add: tables_ok_def)
    show ?thesis
    proof (cases "t = 0")
      case t0: True
      have "ht_table h' ! j = []" if "j < nat (rehashidx d)" "j < ht_size (ht0 d)" for j
        using r(4) [OF that] idx [OF t0 True] b h'(4) t0 that ht_okD(2) [OF r(2)]
        by (cases "j = i") (auto simp: ht_def)
      then show ?thesis
        using True r h' t0 by (auto simp: tables_ok_def set_ht_def dictIsRehashing_def ht_def)
    next
      case False
      then show ?thesis
        using True r h' by (auto simp: tables_ok_def set_ht_def dictIsRehashing_def ht_def)
    qed
  next
    case False
    then show ?thesis
      using ok t h' by (auto simp: tables_ok_def set_ht_def dictIsRehashing_def)
  qed
  moreover have "mset (dict_ents (set_ht d t (h'\<lparr>ht_used := u\<rparr>))) + mset b = mset (dict_ents d) + mset b'"
    using m t(1) by (auto simp: dict_ents_def set_ht_def ht_def ac_simps)
  ultimately show ?thesis using h' by blast
qed

lemma set_ht_simps [simp]:
  "iterators (set_ht d t h) = iterators d" "d_freed (set_ht d t h) = d_freed d"
  "dictIsRehashing (set_ht d t h) = dictIsRehashing d"
  by (simp_all add: set_ht_def dictIsRehashing_def)

lemma step_any_ok:
  assumes "tables_ok ty d"
  shows "\<exists>d'. step_if_rehashing ty d = Some d' \<and> tables_ok ty d' \<and> same d d'"
proof (cases "ht_size (ht0 d) = 0")
  case True
  then have "\<not> dictIsRehashing d"
    using assms ht_ok_size [of ty "ht0 d"] by (auto simp: tables_ok_def)
  then show ?thesis using assms by (simp add: step_if_rehashing_def)
next
  case False
  then show ?thesis using step_ok [OF assms False] by blast
qed

lemma same_size: "same d d' \<Longrightarrow> tables_ok ty d \<Longrightarrow> tables_ok ty d' \<Longrightarrow> dictSize d' = dictSize d"
  by (simp add: dictSize_ents same_def) (metis size_mset)

lemma keyed_Cons: "keyed cn (e # es) = (cn (fst e), snd e) # keyed cn es"
  by (simp add: keyed_def)

section \<open>Correctness of the operations\<close>

lemma dictAdd_ok:
  assumes law: "dict_law ty cn" and ok: "dict_ok ty cn d" and sz: "dictSize d < 2 ^ 28"
  shows "\<exists>d'. dictAdd ty cr d k v =
      Some (d', if dict_map cn d (cn k) = None then DICT_OK else DICT_ERR) \<and>
    dict_ok ty cn d' \<and> d_freed d' = d_freed d \<and> iterators d' = iterators d \<and> ht_size (ht0 d') \<noteq> 0 \<and>
    dict_map cn d' =
      (if dict_map cn d (cn k) = None then (dict_map cn d)(cn k \<mapsto> dictSetHashVal ty v)
       else dict_map cn d)"
proof -
  have t0: "tables_ok ty d" by (rule dict_ok_tables [OF ok])
  obtain d1 where d1: "step_if_rehashing ty d = Some d1" "tables_ok ty d1" "same d d1"
    using step_any_ok [OF t0] by blast
  have "dictSize d1 < 2 ^ 28" using same_size [OF d1(3) t0 d1(2)] sz by simp
  from expandIfNeeded_ok [OF d1(2) this] obtain d2 where
    d2: "u_dictExpandIfNeeded cr d1 = (d2, DICT_OK)" "tables_ok ty d2" "same d1 d2" "ht_size (ht0 d2) \<noteq> 0"
    by blast
  have sm: "same d d2" by (rule same_trans [OF d1(3) d2(3)])
  have m2: "dict_ok ty cn d2" "dict_map cn d2 = dict_map cn d"
    using dict_ok_same [OF ok sm d2(2)] by simp_all
  let ?t = "if dictIsRehashing d2 then 1 else 0 :: nat"
  from search_tables_ok [OF law d2(2,4), of k] show ?thesis
  proof (elim disjE exE conjE)
    fix i r assume r: "search_tables ty d2 k = Some (i, Some r)" "points_to ty cn d2 k r"
    then obtain e where "e \<in> set (dict_ents d2)" "cn (fst e) = cn k"
      using points_to_entry [OF r(2)] by blast
    then have "dict_map cn d (cn k) \<noteq> None" using m2(2) dict_map_None [of cn d2 "cn k"] by auto
    then show ?thesis
      using d1(1) d2(1,4) r(1) m2 sm
      by (simp add: dictAdd_def u_dictKeyIndex_def same_def)
  next
    fix i assume r: "search_tables ty d2 k = Some (i, None)"
      and new: "\<forall>e \<in> set (dict_ents d2). cn (fst e) \<noteq> cn k"
      and h: "ht_ok ty (ht d2 ?t)" and i: "i = dictHashKey ty k mod ht_size (ht d2 ?t)" "i < ht_size (ht d2 ?t)"
    let ?b = "ht_table (ht d2 ?t) ! i"
    let ?e = "(dictSetHashKey ty k, dictSetHashVal ty v)"
    have none: "dict_map cn d (cn k) = None" using new m2(2) dict_map_None [of cn d2 "cn k"] by auto
    have "dictHashKey ty (dictSetHashKey ty k) = dictHashKey ty k"
      by (rule dict_law_hash [OF law dict_lawD(2) [OF law]])
    then have b': "\<forall>e \<in> set (?e # ?b). dictHashKey ty (fst e) mod ht_size (ht d2 ?t) = i"
      using ht_ok_hash [OF h i(2)] i(1) by simp
    have "\<exists>h'. set_bucket (ht d2 ?t) i (?e # ?b) = Some h' \<and> ht_used h' = ht_used (ht d2 ?t) \<and>
      tables_ok ty (set_ht d2 ?t (h'\<lparr>ht_used := ht_used (ht d2 ?t) + 1\<rparr>)) \<and>
      mset (dict_ents (set_ht d2 ?t (h'\<lparr>ht_used := ht_used (ht d2 ?t) + 1\<rparr>))) + mset ?b =
        mset (dict_ents d2) + mset (?e # ?b)"
      by (rule update_bucket_ok [OF d2(2) _ _ h i(2) refl b']) (auto split: if_splits)
    then obtain h' where h': "set_bucket (ht d2 ?t) i (?e # ?b) = Some h'" "ht_used h' = ht_used (ht d2 ?t)"
      "tables_ok ty (set_ht d2 ?t (h'\<lparr>ht_used := ht_used (ht d2 ?t) + 1\<rparr>))"
      "mset (dict_ents (set_ht d2 ?t (h'\<lparr>ht_used := ht_used (ht d2 ?t) + 1\<rparr>))) + mset ?b =
        mset (dict_ents d2) + mset (?e # ?b)"
      by blast
    let ?d = "set_ht d2 ?t (h'\<lparr>ht_used := ht_used (ht d2 ?t) + 1\<rparr>)"
    have ms: "mset (dict_ents ?d) = mset (?e # dict_ents d2)" using h'(4) by simp
    have "distinct (map (\<lambda>e. cn (fst e)) (?e # dict_ents d2))"
      using new m2(1) dict_lawD(2) [OF law] by (auto simp: dict_ok_def)
    from dict_okI [OF h'(3) ms this]
    have res: "dict_ok ty cn ?d" "dict_map cn ?d = (dict_map cn d2)(cn k \<mapsto> dictSetHashVal ty v)"
      by (simp_all add: keyed_Cons dict_map_keyed dict_lawD(2) [OF law])
    have "fits_int i" using i(2) ht_ok_size [OF h] by (simp add: fits_int_def)
    then have "dictAdd ty cr d k v = Some (?d, DICT_OK)"
      using d1(1) d2(1) r bucket_ok [OF h i(2)] h'(1,2)
      by (simp add: dictAdd_def u_dictKeyIndex_def Let_def)
    moreover have "ht_size (ht0 ?d) \<noteq> 0"
      using d2(4) h'(1) by (auto simp: set_ht_def ht_def set_bucket_def split: if_splits)
    ultimately show ?thesis using res m2(2) none sm by (simp add: same_def)
  qed
qed

lemma dictFind_ok:
  assumes law: "dict_law ty cn" and ok: "dict_ok ty cn d"
  shows "\<exists>d' r. dictFind ty d k = Some (d', r) \<and> dict_ok ty cn d' \<and> dict_map cn d' = dict_map cn d \<and>
    same d d' \<and>
    (case r of None \<Rightarrow> dict_map cn d (cn k) = None
     | Some r \<Rightarrow> points_to ty cn d' k r \<and>
         (\<exists>e. entry_at d' r = Some e \<and> dict_map cn d (cn k) = Some (snd e)))"
proof (cases "ht_size (ht0 d) = 0")
  case True
  then have "dict_ents d = []" by (rule size_zero_ents [OF dict_ok_tables [OF ok]])
  then show ?thesis using True ok by (simp add: dictFind_def dict_map_def)
next
  case False
  obtain d1 where d1: "step_if_rehashing ty d = Some d1" "tables_ok ty d1" "same d d1" "ht_size (ht0 d1) \<noteq> 0"
    using step_ok [OF dict_ok_tables [OF ok] False] by blast
  have m: "dict_ok ty cn d1" "dict_map cn d1 = dict_map cn d"
    using dict_ok_same [OF ok d1(3,2)] by simp_all
  from search_tables_found [OF law d1(2,4), of k] show ?thesis
  proof (elim disjE exE conjE)
    fix i r assume r: "search_tables ty d1 k = Some (i, Some r)" "points_to ty cn d1 k r"
    obtain e where e: "entry_at d1 r = Some e" "e \<in> set (dict_ents d1)" "cn (fst e) = cn k"
      using points_to_entry [OF r(2)] by blast
    have "dict_map cn d (cn k) = Some (snd e)"
      using dict_map_entry [OF m(1) e(2)] e(3) m(2) by simp
    then show ?thesis
      using False d1 m r e by (cases e) (simp add: dictFind_def)
  next
    fix i assume r: "search_tables ty d1 k = Some (i, None)" "\<forall>e \<in> set (dict_ents d1). cn (fst e) \<noteq> cn k"
    then have "dict_map cn d1 (cn k) = None" by (simp add: dict_map_None)
    then show ?thesis
      using False d1 m r by (simp add: dictFind_def)
  qed
qed

lemma mset_remove_nth: "n < length b \<Longrightarrow> mset (take n b @ drop (Suc n) b) + {#b ! n#} = mset b"
proof -
  assume "n < length b"
  then have "b = take n b @ b ! n # drop (Suc n) b" by (rule id_take_nth_drop)
  then have "mset b = mset (take n b @ b ! n # drop (Suc n) b)" by simp
  then show ?thesis by simp
qed

lemma mset_swap: "A + B = D + C \<Longrightarrow> C + {#x#} = B \<Longrightarrow> A + {#x#} = D"
  by (drule sym [of "C + {#x#}" B]) simp

lemma dict_map_remove:
  assumes "tables_ok ty d'" and ok: "dict_ok ty cn d" and m: "mset (dict_ents d') + {#e#} = mset (dict_ents d)"
  shows "dict_ok ty cn d' \<and> dict_map cn d' = (dict_map cn d)(cn (fst e) := None) \<and>
    dict_map cn d (cn (fst e)) = Some (snd e)"
proof -
  have ms: "mset (e # dict_ents d') = mset (dict_ents d)" using m by simp
  from mset_keyed [OF ms, of cn] have mk: "mset (keyed cn (dict_ents d)) = mset (keyed cn (e # dict_ents d'))" ..
  have "distinct (map fst (keyed cn (dict_ents d)))"
    using ok by (simp add: dict_ok_def keyed_fst)
  then have d1: "distinct (map fst (keyed cn (e # dict_ents d')))"
    using mk by (metis mset_eq_imp_distinct_iff mset_map)
  then have d2: "distinct (map (\<lambda>e. cn (fst e)) (dict_ents d'))"
    by (simp add: keyed_Cons keyed_fst)
  have "dict_map cn d = map_of (keyed cn (e # dict_ents d'))"
    unfolding dict_map_keyed by (rule map_of_mset [OF _ mk]) (use ok in \<open>simp add: dict_ok_def keyed_fst\<close>)
  then have map: "dict_map cn d = (dict_map cn d')(cn (fst e) \<mapsto> snd e)"
    by (simp add: keyed_Cons dict_map_keyed)
  have "dict_map cn d' (cn (fst e)) = None"
  proof -
    have "cn (fst e) \<notin> (\<lambda>e. cn (fst e)) ` set (dict_ents d')"
      using d1 by (simp add: keyed_Cons keyed_fst)
    moreover have "cn (fst x) \<in> (\<lambda>e. cn (fst e)) ` set (dict_ents d')" if "x \<in> set (dict_ents d')" for x
      using that by (rule imageI)
    ultimately show ?thesis unfolding dict_map_None by metis
  qed
  then show ?thesis
    using map dict_okI [OF assms(1) refl d2] by (auto simp: fun_upd_idem_iff)
qed

lemma dictGenericDelete_ok:
  assumes law: "dict_law ty cn" and ok: "dict_ok ty cn d"
  shows "\<exists>d'. dictGenericDelete ty d k nofree =
      Some (d', if dict_map cn d (cn k) = None then DICT_ERR else DICT_OK) \<and>
    dict_ok ty cn d' \<and> dict_map cn d' = (dict_map cn d)(cn k := None) \<and>
    (\<exists>fs. d_freed d' = d_freed d @ fs \<and>
       (dict_map cn d (cn k) = None \<or> nofree \<longrightarrow> fs = []) \<and>
       (\<forall>v. dict_map cn d (cn k) = Some v \<and> \<not> nofree \<longrightarrow>
          (\<exists>k'. cn k' = cn k \<and> fs = free_entry ty (k', v))))"
proof (cases "ht_size (ht0 d) = 0")
  case True
  then have "dict_ents d = []" by (rule size_zero_ents [OF dict_ok_tables [OF ok]])
  then show ?thesis using True ok by (simp add: dictGenericDelete_def dict_map_def)
next
  case False
  obtain d1 where d1: "step_if_rehashing ty d = Some d1" "tables_ok ty d1" "same d d1" "ht_size (ht0 d1) \<noteq> 0"
    using step_ok [OF dict_ok_tables [OF ok] False] by blast
  have m: "dict_ok ty cn d1" "dict_map cn d1 = dict_map cn d"
    using dict_ok_same [OF ok d1(3,2)] by simp_all
  from search_tables_found [OF law d1(2,4), of k] show ?thesis
  proof (elim disjE exE conjE)
    fix i assume r: "search_tables ty d1 k = Some (i, None)" "\<forall>e \<in> set (dict_ents d1). cn (fst e) \<noteq> cn k"
    then have none: "dict_map cn d (cn k) = None" using dict_map_None [of cn d1] m(2) by simp
    then have "(dict_map cn d)(cn k := None) = dict_map cn d" by (rule fun_upd_idem)
    then show ?thesis
      using False d1 m none r(1) by (simp add: dictGenericDelete_def same_def)
  next
    fix j r assume r: "search_tables ty d1 k = Some (j, Some r)" "points_to ty cn d1 k r"
    from r(2) show ?thesis
    proof (rule points_toE)
      fix t i n b
      assume p: "r = (t, i, n)" "t = 0 \<or> t = 1" "t = 1 \<Longrightarrow> dictIsRehashing d1"
        "ht_ok ty (ht d1 t)" "i < ht_size (ht d1 t)" "b = ht_table (ht d1 t) ! i" "n < length b"
        "bucket (ht d1 t) i = Some b" "cn (fst (b ! n)) = cn k"
      let ?b = "take n b @ drop (Suc n) b"
      have b': "\<forall>e \<in> set ?b. dictHashKey ty (fst e) mod ht_size (ht d1 t) = i"
        using ht_ok_hash [OF p(4,5)] unfolding p(6) [symmetric]
        by (auto dest: in_set_takeD in_set_dropD)
      have mb: "mset ?b + {#b ! n#} = mset b" by (rule mset_remove_nth [OF p(7)])
      have "b ! n \<in> set (ents (ht d1 t))"
        using bucket_ents [OF p(4,5), of "b ! n"] p(6,7) by simp
      then have used: "0 < ht_used (ht d1 t)" using ht_okD(3) [OF p(4)] by (cases "ents (ht d1 t)") auto
      let ?u = "ht_used (ht d1 t) - 1"
      have u: "?u + length b = ht_used (ht d1 t) + length ?b" using used p(7) by simp
      have "\<exists>h'. set_bucket (ht d1 t) i ?b = Some h' \<and> ht_used h' = ht_used (ht d1 t) \<and>
          tables_ok ty (set_ht d1 t (h'\<lparr>ht_used := ?u\<rparr>)) \<and>
          mset (dict_ents (set_ht d1 t (h'\<lparr>ht_used := ?u\<rparr>))) + mset b = mset (dict_ents d1) + mset ?b"
        by (rule update_bucket_ok [OF d1(2) p(2,3,4,5,6) b' u]) (use p(7) in auto)
      then obtain h' where h': "set_bucket (ht d1 t) i ?b = Some h'" "ht_used h' = ht_used (ht d1 t)"
        "tables_ok ty (set_ht d1 t (h'\<lparr>ht_used := ?u\<rparr>))"
        "mset (dict_ents (set_ht d1 t (h'\<lparr>ht_used := ?u\<rparr>))) + mset b = mset (dict_ents d1) + mset ?b"
        by blast
      let ?d = "set_ht d1 t (h'\<lparr>ht_used := ?u\<rparr>)"
      let ?d' = "if nofree then ?d else ?d\<lparr>d_freed := d_freed ?d @ free_entry ty (b ! n)\<rparr>"
      have "mset (dict_ents ?d) + {#b ! n#} = mset (dict_ents d1)"
        by (rule mset_swap [OF h'(4) mb])
      from dict_map_remove [OF h'(3) m(1) this]
      have res: "dict_ok ty cn ?d" "dict_map cn ?d = (dict_map cn d)(cn k := None)"
        "dict_map cn d (cn k) = Some (snd (b ! n))"
        using p(9) m(2) by simp_all
      have eq: "dict_ok ty cn (x\<lparr>d_freed := fs\<rparr>) = dict_ok ty cn x"
        "dict_map cn (x\<lparr>d_freed := fs\<rparr>) = dict_map cn x" for x fs
        by (simp_all add: dict_ok_def tables_ok_def dict_ents_def dict_map_def dictIsRehashing_def)
      have "dictGenericDelete ty d k nofree = Some (?d', DICT_OK)"
        using False d1(1) r(1) p(1,8) h'(1,2) used
        by (simp add: dictGenericDelete_def dec_used_def free_entry_def)
      moreover have "d_freed ?d = d_freed d" using d1(3) by (simp add: same_def)
      moreover have "free_entry ty (b ! n) = free_entry ty (fst (b ! n), snd (b ! n))" by simp
      ultimately show ?thesis
        using res p(9) by (auto simp: eq)
    qed
  qed
qed

lemma dict_map_replace:
  assumes "tables_ok ty d'" and ok: "dict_ok ty cn d" and e: "e \<in> set (dict_ents d)"
    and m: "mset (dict_ents d') + {#e#} = mset (dict_ents d) + {#(fst e, v)#}"
  shows "dict_ok ty cn d' \<and> dict_map cn d' = (dict_map cn d)(cn (fst e) \<mapsto> v)"
proof -
  obtain es where es: "mset (dict_ents d) = mset (e # es)"
    using e by (metis mset.simps(2) multi_member_split in_multiset_in_set ex_mset)
  then have d': "mset (dict_ents d') = mset ((fst e, v) # es)" using m by simp
  have "mset (map (\<lambda>e. cn (fst e)) (e # es)) = mset (map (\<lambda>e. cn (fst e)) (dict_ents d))"
    using es by simp
  then have di: "distinct (map (\<lambda>e. cn (fst e)) (e # es))"
    using ok mset_eq_imp_distinct_iff unfolding dict_ok_def by blast
  have map: "dict_map cn d = map_of (keyed cn (e # es))"
    unfolding dict_map_keyed
    by (rule map_of_mset [OF _ mset_keyed [OF es]]) (use ok in \<open>simp add: dict_ok_def keyed_fst\<close>)
  have "distinct (map (\<lambda>e. cn (fst e)) ((fst e, v) # es))" using di by simp
  from dict_okI [OF assms(1) d' this] show ?thesis
    by (simp add: map keyed_Cons)
qed

lemma mset_list_update: "n < length b \<Longrightarrow> mset (b[n := x]) + {#b ! n#} = mset b + {#x#}"
proof -
  assume n: "n < length b"
  have "mset (b[n := x]) = mset (take n b @ drop (Suc n) b) + {#x#}"
    using n by (simp add: upd_conv_take_nth_drop)
  then show ?thesis using mset_remove_nth [OF n] by simp
qed

lemma mset_swap2:
  assumes "A + B = D + C" and "C + {#x#} = B + {#y#}"
  shows "A + {#x#} = D + {#y#}"
proof -
  have "A + {#x#} + B = (A + B) + {#x#}" by (simp only: ac_simps)
  also have "\<dots> = D + (C + {#x#})" unfolding assms(1) by (simp only: ac_simps)
  also have "\<dots> = D + {#y#} + B" unfolding assms(2) by (simp only: ac_simps)
  finally show ?thesis by simp
qed

lemma set_entry_val_ok:
  assumes law: "dict_law ty cn" and ok: "dict_ok ty cn d" and pt: "points_to ty cn d k r"
  shows "\<exists>d'. set_entry_val d r v = Some d' \<and> dict_ok ty cn d' \<and>
    dict_map cn d' = (dict_map cn d)(cn k \<mapsto> v) \<and> d_freed d' = d_freed d \<and> iterators d' = iterators d"
  using pt
proof (rule points_toE)
  fix t i n b
  assume p: "r = (t, i, n)" "t = 0 \<or> t = 1" "t = 1 \<Longrightarrow> dictIsRehashing d"
    "ht_ok ty (ht d t)" "i < ht_size (ht d t)" "b = ht_table (ht d t) ! i" "n < length b"
    "bucket (ht d t) i = Some b" "cn (fst (b ! n)) = cn k"
  let ?b = "b[n := (fst (b ! n), v)]"
  have "b ! n \<in> set b" using p(7) by simp
  then have "dictHashKey ty (fst (b ! n)) mod ht_size (ht d t) = i"
    using ht_ok_hash [OF p(4,5)] p(6) by simp
  then have b': "\<forall>e \<in> set ?b. dictHashKey ty (fst e) mod ht_size (ht d t) = i"
    using ht_ok_hash [OF p(4,5)] unfolding p(6) [symmetric] by (auto dest!: set_update_subset_insert [THEN subsetD])
  have "\<exists>h'. set_bucket (ht d t) i ?b = Some h' \<and> ht_used h' = ht_used (ht d t) \<and>
      tables_ok ty (set_ht d t (h'\<lparr>ht_used := ht_used (ht d t)\<rparr>)) \<and>
      mset (dict_ents (set_ht d t (h'\<lparr>ht_used := ht_used (ht d t)\<rparr>))) + mset b = mset (dict_ents d) + mset ?b"
    by (rule update_bucket_ok [OF dict_ok_tables [OF ok] p(2,3,4,5,6) b']) (use p(7) in auto)
  then obtain h' where h': "set_bucket (ht d t) i ?b = Some h'" "ht_used h' = ht_used (ht d t)"
    "tables_ok ty (set_ht d t (h'\<lparr>ht_used := ht_used (ht d t)\<rparr>))"
    "mset (dict_ents (set_ht d t (h'\<lparr>ht_used := ht_used (ht d t)\<rparr>))) + mset b = mset (dict_ents d) + mset ?b"
    by blast
  have h: "h'\<lparr>ht_used := ht_used (ht d t)\<rparr> = h'" using h'(2) by simp
  have ms: "mset (dict_ents (set_ht d t h')) + {#b ! n#} = mset (dict_ents d) + {#(fst (b ! n), v)#}"
    by (rule mset_swap2 [OF h'(4) [unfolded h] mset_list_update [OF p(7)]])
  have "b ! n \<in> set (ents (ht d t))"
    using bucket_ents [OF p(4,5), of "b ! n"] p(6,7) by simp
  then have mem: "b ! n \<in> set (dict_ents d)" using p(2) by (auto simp: dict_ents_def ht_def)
  have "set_entry_val d r v = Some (set_ht d t h')"
    using p(1,7,8) h'(1) by (simp add: set_entry_val_def)
  then show ?thesis
    using dict_map_replace [OF h'(3) [unfolded h] ok mem ms] p(9) by simp
qed

lemma dictReplace_ok:
  assumes law: "dict_law ty cn" and ok: "dict_ok ty cn d" and sz: "dictSize d < 2 ^ 28"
  shows "\<exists>d'. dictReplace ty cr d k v = Some (d', dict_map cn d (cn k) = None) \<and> dict_ok ty cn d' \<and>
    dict_map cn d' = (dict_map cn d)(cn k \<mapsto> dictSetHashVal ty v) \<and>
    d_freed d' = d_freed d @
      (case dict_map cn d (cn k) of None \<Rightarrow> []
       | Some old \<Rightarrow> if valDestructor ty then [FreeVal old] else [])"
proof -
  from dictAdd_ok [OF assms, of cr k v] obtain d1 where
    d1: "dictAdd ty cr d k v = Some (d1, if dict_map cn d (cn k) = None then DICT_OK else DICT_ERR)"
      "dict_ok ty cn d1" "d_freed d1 = d_freed d"
      "dict_map cn d1 = (if dict_map cn d (cn k) = None then (dict_map cn d)(cn k \<mapsto> dictSetHashVal ty v)
        else dict_map cn d)" by blast
  show ?thesis
  proof (cases "dict_map cn d (cn k)")
    case None
    then show ?thesis using d1 by (simp add: dictReplace_def)
  next
    case (Some old)
    then have m1: "dict_map cn d1 = dict_map cn d" using d1(4) by simp
    from dictFind_ok [OF law d1(2), of k] Some m1 obtain d2 r where
      d2: "dictFind ty d1 k = Some (d2, Some r)" "dict_ok ty cn d2" "dict_map cn d2 = dict_map cn d"
        "same d1 d2" "points_to ty cn d2 k r"
      and e: "\<exists>e. entry_at d2 r = Some e \<and> Some old = Some (snd e)"
      by (auto split: option.splits)
    from e obtain e where e: "entry_at d2 r = Some e" "snd e = old" by auto
    from set_entry_val_ok [OF law d2(2,5)] obtain d3 where
      d3: "set_entry_val d2 r (dictSetHashVal ty v) = Some d3" "dict_ok ty cn d3"
        "dict_map cn d3 = (dict_map cn d2)(cn k \<mapsto> dictSetHashVal ty v)" "d_freed d3 = d_freed d2" by blast
    have eq: "dict_ok ty cn (x\<lparr>d_freed := fs\<rparr>) = dict_ok ty cn x"
      "dict_map cn (x\<lparr>d_freed := fs\<rparr>) = dict_map cn x" for x fs
      by (simp_all add: dict_ok_def tables_ok_def dict_ents_def dict_map_def dictIsRehashing_def)
    show ?thesis
      using Some d1(1,3) d2 e d3 by (simp add: dictReplace_def eq same_def dictFreeEntryVal_def)
  qed
qed

lemma rehash_loop_finishes:
  "tables_ok ty d \<Longrightarrow> dictIsRehashing d \<Longrightarrow> ht_size (ht0 d) - nat (rehashidx d) < n \<Longrightarrow>
     \<exists>d'. rehash_loop ty d n = Some (d', False)"
proof (induction n arbitrary: d)
  case (Suc n)
  show ?case
  proof (cases "ht_used (ht0 d) = 0")
    case False
    from rehash_bucket [OF Suc.prems(1,2) False] obtain i chain h0 h0' h1 where
      r: "skip_empty (ht_table (ht0 d)) (nat (rehashidx d)) = Some i" "int i + 1 \<le> INT32_MAX"
        "bucket (ht0 d) i = Some chain" "move_chain ty chain (ht0 d) (ht1 d) = Some (h0, h1)"
        "set_bucket h0 i [] = Some h0'" "nat (rehashidx d) \<le> i" "i < ht_size (ht0 d)"
        "ht_size h0' = ht_size (ht0 d)"
      and d: "tables_ok ty (d\<lparr>ht0 := h0', ht1 := h1, rehashidx := int i + 1\<rparr>)"
      by blast
    have "\<exists>d'. rehash_loop ty (d\<lparr>ht0 := h0', ht1 := h1, rehashidx := int i + 1\<rparr>) n = Some (d', False)"
      using r(6-8) Suc.prems(3) by (intro Suc.IH [OF d]) (auto simp: dictIsRehashing_def)
    then show ?thesis using False r by simp
  qed simp
qed simp

text \<open>C35: Incremental rehashing terminates: a call of \<open>dictRehash\<close> with as many steps as
  the old table has buckets, plus one, from any point of a rehashing on, leaves a dictionary
  that is not rehashing, with the same entries.\<close>

theorem dictRehash_completes:
  assumes "dict_ok ty cn d" and "ht_size (ht0 d) < n"
  shows "\<exists>d'. dictRehash ty d n = Some (d', False) \<and> \<not> dictIsRehashing d' \<and> dict_ok ty cn d' \<and>
    dict_map cn d' = dict_map cn d"
proof (cases "dictIsRehashing d")
  case True
  note ok = dict_ok_tables [OF assms(1)]
  have "\<exists>d'. rehash_loop ty d n = Some (d', False)"
    using assms(2) by (intro rehash_loop_finishes [OF ok True]) simp
  with rehash_loop_ok [OF ok True, of n] obtain d' where
    "rehash_loop ty d n = Some (d', False)" "tables_ok ty d'" "same d d'" "\<not> dictIsRehashing d'"
    by auto
  then show ?thesis
    using True dict_ok_same [OF assms(1)] by (auto simp: dictRehash_def)
next
  case False
  then show ?thesis using assms(1) by (simp add: dictRehash_def)
qed

section \<open>Clearing and iterating\<close>

lemma clear_loop_ok: "clear_loop ty bs (length (concat bs)) = Some (concat (map (free_entry ty) (concat bs)))"
proof (induction bs)
  case (Cons b bs)
  show ?case
  proof (cases "length (concat (b # bs)) = 0")
    case True
    then have "concat (b # bs) = []" by (simp only: length_0_conv)
    then show ?thesis by auto
  next
    case False
    then have "clear_loop ty (b # bs) (length (concat (b # bs))) =
        map_option ((@) (concat (map (free_entry ty) b))) (clear_loop ty bs (length (concat bs)))"
      by (simp only: clear_loop.simps if_False) simp
    then show ?thesis using Cons by simp
  qed
qed simp

lemma dictClear_ok:
  assumes "h = u_dictReset \<or> ht_ok ty h"
  shows "u_dictClear ty h = Some (u_dictReset, concat (map (free_entry ty) (ents h)))"
  using assms
proof
  assume ok: "ht_ok ty h"
  then show ?thesis
    using clear_loop_ok [of ty "ht_table h"] ht_okD [OF ok] by (simp add: u_dictClear_def ents_def)
qed (simp add: u_dictClear_def)

lemma dictEmpty_ok:
  assumes "dict_ok ty cn d"
  shows "\<exists>d'. dictEmpty ty d = Some d' \<and> dict_ok ty cn d' \<and> dict_map cn d' = Map.empty \<and>
    d_freed d' = d_freed d @ concat (map (free_entry ty) (dict_ents d))"
proof -
  have h: "ht0 d = u_dictReset \<or> ht_ok ty (ht0 d)" "ht1 d = u_dictReset \<or> ht_ok ty (ht1 d)"
    using dict_ok_tables [OF assms] by (auto simp: tables_ok_def split: if_splits)
  show ?thesis
    using dictClear_ok [OF h(1)] dictClear_ok [OF h(2)]
    by (simp add: dictEmpty_def dict_ok_def tables_ok_def dictIsRehashing_def dict_map_def dict_ents_def)
qed

definition iter_ok :: "('k, 'v) dict \<Rightarrow> ('k, 'v) dictIterator \<Rightarrow> bool" where
  "iter_ok d it \<longleftrightarrow> it_table it \<le> 1 \<and> (it_table it = 1 \<longrightarrow> dictIsRehashing d \<and> 0 \<le> it_index it) \<and>
     -1 \<le> it_index it"

definition iter_rest :: "('k, 'v) dict \<Rightarrow> ('k, 'v) dictIterator \<Rightarrow> ('k \<times> 'v) list" where
  "iter_rest d it =
     (if it_entry it = [] then [] else it_nextEntry it) @
     concat (drop (nat (it_index it + 1)) (ht_table (ht d (it_table it)))) @
     (if it_table it = 0 then ents (ht1 d) else [])"

text \<open>The same dictionary but for the count of running iterators.\<close>

definition only_iterators :: "('k, 'v) dict \<Rightarrow> ('k, 'v) dict \<Rightarrow> bool" where
  "only_iterators d d' \<longleftrightarrow> (\<exists>n. d' = d\<lparr>iterators := n\<rparr>)"

lemma only_iterators_simps:
  assumes "only_iterators d d'"
  shows "ht d' t = ht d t" "ht0 d' = ht0 d" "ht1 d' = ht1 d" "dictIsRehashing d' = dictIsRehashing d"
    "tables_ok ty d' = tables_ok ty d" "iter_rest d' it = iter_rest d it" "iter_ok d' it = iter_ok d it"
  using assms
  by (auto simp: only_iterators_def ht_def dictIsRehashing_def tables_ok_def iter_rest_def iter_ok_def)

lemma only_iterators_trans: "only_iterators a b \<Longrightarrow> only_iterators b c \<Longrightarrow> only_iterators a c"
  by (auto simp: only_iterators_def)

lemma only_iterators_refl: "only_iterators a a"
  unfolding only_iterators_def by (rule exI [of _ "iterators a"]) simp

lemma dictIsRehashing_iterators [simp]: "dictIsRehashing (d\<lparr>iterators := n\<rparr>) = dictIsRehashing d"
  by (simp add: dictIsRehashing_def)

lemma next_bucket_ok:
  assumes ok: "tables_ok ty d" and it: "iter_ok d it" "it_entry it = []"
  shows "(\<exists>d' it'. next_bucket d it = Some (d', it', True) \<and> only_iterators d d' \<and> iter_ok d' it' \<and>
      it_entry it' @ iter_rest d' (it'\<lparr>it_entry := []\<rparr>) = iter_rest d it) \<or>
    (\<exists>d' it'. next_bucket d it = Some (d', it', False) \<and> only_iterators d d' \<and> iter_rest d it = [])"
proof -
  let ?t = "it_table it" and ?i = "it_index it + 1"
  let ?d = "if it_safe it \<and> it_index it = -1 \<and> ?t = 0 then d\<lparr>iterators := iterators d + 1\<rparr> else d"
  have dd: "only_iterators d ?d" by (auto simp: only_iterators_def intro: only_iterators_refl [unfolded only_iterators_def])
  note S = only_iterators_simps [OF dd]
  have i: "0 \<le> ?i" using it(1) by (simp add: iter_ok_def)
  have len: "length (ht_table (ht d t)) = ht_size (ht d t)" for t
    using ok ht_okD(2) by (auto simp: tables_ok_def ht_def split: if_splits)
  show ?thesis
  proof (cases "?i \<ge> int (ht_size (ht d ?t))")
    case past: True
    then have none: "drop (nat ?i) (ht_table (ht d ?t)) = []"
      using len [of ?t] i by simp
    show ?thesis
    proof (cases "dictIsRehashing d \<and> ?t = 0")
      case True
      then have ok1: "ht_ok ty (ht d 1)" using ok by (simp add: tables_ok_def ht_def)
      have pos: "0 < ht_size (ht d 1)" using ht_ok_size [OF ok1] by simp
      obtain b bs where b: "ht_table (ht d 1) = b # bs"
        using pos len [of 1] by (cases "ht_table (ht d 1)") auto
      have "next_bucket d it = Some (?d, it\<lparr>it_index := 0, it_table := 1, it_entry := b\<rparr>, True)"
        using past True bucket_ok [OF ok1 pos] b S by (simp add: next_bucket_def Let_def)
      moreover have "iter_rest d it = b @ concat bs"
        using none True it(2) b by (simp add: iter_rest_def ents_def ht_def)
      moreover have "iter_rest ?d (it\<lparr>it_index := 0, it_table := 1, it_entry := []\<rparr>) = concat bs"
        using b by (simp add: iter_rest_def S)
      ultimately show ?thesis
        using dd True by (intro disjI1) (auto simp: iter_ok_def S)
    next
      case False
      then have "ents (ht1 d) = [] \<or> ?t \<noteq> 0"
        using ok by (auto simp: tables_ok_def)
      then have "iter_rest d it = []"
        using none it(2) by (auto simp: iter_rest_def)
      moreover have "next_bucket d it = Some (?d, it\<lparr>it_index := ?i\<rparr>, False)"
        using past False S by (auto simp: next_bucket_def Let_def)
      ultimately show ?thesis using dd by blast
    qed
  next
    case False
    then have lt: "nat ?i < ht_size (ht d ?t)" using i by simp
    then have "ht_ok ty (ht d ?t)"
      using ok it(1) by (auto simp: tables_ok_def ht_def iter_ok_def split: if_splits)
    from bucket_ok [OF this lt]
    have "next_bucket d it = Some (?d, it\<lparr>it_index := ?i, it_entry := ht_table (ht d ?t) ! nat ?i\<rparr>, True)"
      using False S by (simp add: next_bucket_def Let_def)
    moreover have "drop (nat ?i) (ht_table (ht d ?t)) =
        ht_table (ht d ?t) ! nat ?i # drop (Suc (nat ?i)) (ht_table (ht d ?t))"
      using lt len [of ?t] by (simp add: Cons_nth_drop_Suc)
    moreover have "nat (?i + 1) = Suc (nat ?i)" using i by simp
    ultimately show ?thesis
      using dd it i by (intro disjI1) (auto simp: iter_rest_def iter_ok_def S)
  qed
qed

text \<open>What a call of \<open>dictNext\<close> must return, given the entries still to come.\<close>

definition next_spec ::
  "('k, 'v) dict \<Rightarrow> ('k, 'v) dictIterator \<Rightarrow> ('k \<times> 'v) list \<Rightarrow>
     (('k, 'v) dict \<times> ('k, 'v) dictIterator \<times> ('k \<times> 'v) option) option \<Rightarrow> bool"
where
  "next_spec d it rest res \<longleftrightarrow>
     (\<exists>d' it'. only_iterators d d' \<and>
        (case rest of
           [] \<Rightarrow> res = Some (d', it', None)
         | e # es \<Rightarrow> res = Some (d', it', Some e) \<and> iter_ok d' it' \<and> iter_rest d' it' = es))"

lemma next_spec_mono: "next_spec d' it' r res \<Longrightarrow> only_iterators d d' \<Longrightarrow> next_spec d it r res"
  unfolding next_spec_def using only_iterators_trans by blast

lemma dictNext_ok:
  "tables_ok ty d \<Longrightarrow> iter_ok d it \<Longrightarrow> next_spec d it (iter_rest d it) (dictNext d it)"
proof (induction d it rule: dictNext.induct)
  case (1 d it)
  have IH1: "next_spec d' it' (iter_rest d' it') (dictNext d' it')"
    if "it_entry it = []" "next_bucket d it = Some (d', it', True)" "it_entry it' = []"
      "tables_ok ty d'" "iter_ok d' it'" for d' it'
    using 1(1) that by fastforce
  have IH2: "next_spec d (it\<lparr>it_entry := []\<rparr>) (iter_rest d (it\<lparr>it_entry := []\<rparr>)) (dictNext d (it\<lparr>it_entry := []\<rparr>))"
    if "it_entry it \<noteq> []" "it_nextEntry it = []" "iter_ok d (it\<lparr>it_entry := []\<rparr>)"
    using 1(2) that 1(3) by fastforce
  show ?case
  proof (cases "it_entry it = []")
    case True
    from next_bucket_ok [OF 1(3,4) True] show ?thesis
    proof (elim disjE exE conjE)
      fix d' it' assume n: "next_bucket d it = Some (d', it', True)" "only_iterators d d'" "iter_ok d' it'"
        "it_entry it' @ iter_rest d' (it'\<lparr>it_entry := []\<rparr>) = iter_rest d it"
      note S = only_iterators_simps [OF n(2)]
      show ?thesis
      proof (cases "it_entry it'")
        case Nil
        then have "it'\<lparr>it_entry := []\<rparr> = it'" by simp
        then have "iter_rest d' it' = iter_rest d it" using n(4) Nil by (metis append_Nil)
        then have "next_spec d' it' (iter_rest d it) (dictNext d' it')"
          using IH1 [OF True n(1) Nil _ n(3)] 1(3) S(5) [of ty] by simp
        moreover have "dictNext d it = dictNext d' it'"
          using True n(1) Nil by (subst dictNext.simps) simp
        ultimately show ?thesis
          using next_spec_mono [OF _ n(2)] by simp
      next
        case (Cons e es)
        then have "dictNext d it = Some (d', it'\<lparr>it_nextEntry := es\<rparr>, Some e)"
          using True n(1) by (subst dictNext.simps) simp
        moreover have "iter_rest d' (it'\<lparr>it_nextEntry := es\<rparr>) = es @ iter_rest d' (it'\<lparr>it_entry := []\<rparr>)"
          using Cons by (simp add: iter_rest_def)
        moreover have "iter_rest d it = e # es @ iter_rest d' (it'\<lparr>it_entry := []\<rparr>)"
          using n(4) Cons by simp
        ultimately show ?thesis
          using n(2,3) by (auto simp: next_spec_def iter_ok_def)
      qed
    next
      fix d' it' assume "next_bucket d it = Some (d', it', False)" "only_iterators d d'" "iter_rest d it = []"
      then show ?thesis
        using True by (subst dictNext.simps) (auto simp: next_spec_def)
    qed
  next
    case False
    show ?thesis
    proof (cases "it_nextEntry it")
      case Nil
      then have "iter_rest d (it\<lparr>it_entry := []\<rparr>) = iter_rest d it"
        by (simp add: iter_rest_def)
      moreover have "dictNext d it = dictNext d (it\<lparr>it_entry := []\<rparr>)"
        using False Nil by (subst dictNext.simps) simp
      moreover have "iter_ok d (it\<lparr>it_entry := []\<rparr>)" using 1(4) by (simp add: iter_ok_def)
      ultimately show ?thesis
        using IH2 [OF False Nil] by (simp add: next_spec_def)
    next
      case (Cons e es)
      have "iter_rest d it = e # iter_rest d (it\<lparr>it_entry := e # es, it_nextEntry := es\<rparr>)"
        using False Cons by (simp add: iter_rest_def)
      moreover have "iter_ok d (it\<lparr>it_entry := e # es, it_nextEntry := es\<rparr>)"
        using 1(4) by (simp add: iter_ok_def)
      moreover have "dictNext d it = Some (d, it\<lparr>it_entry := e # es, it_nextEntry := es\<rparr>, Some e)"
        using False Cons by (subst dictNext.simps) simp
      ultimately show ?thesis
        using only_iterators_refl by (auto simp: next_spec_def)
    qed
  qed
qed

text \<open>The loop \<^verbatim>\<open>while((de = dictNext(di)) != NULL)\<close> of the clients, with \<open>n\<close> rounds.\<close>

fun dict_walk ::
  "('k, 'v) dict \<Rightarrow> ('k, 'v) dictIterator \<Rightarrow> nat \<Rightarrow> (('k \<times> 'v) list \<times> bool) option" where
  "dict_walk d it 0 = Some ([], False)"
| "dict_walk d it (Suc n) =
     do { (d, it, r) \<leftarrow> dictNext d it;
          case r of None \<Rightarrow> Some ([], True)
          | Some e \<Rightarrow> map_option (\<lambda>(es, b). (e # es, b)) (dict_walk d it n) }"

lemma dict_walk_ok:
  "tables_ok ty d \<Longrightarrow> iter_ok d it \<Longrightarrow> length (iter_rest d it) < n \<Longrightarrow>
     dict_walk d it n = Some (iter_rest d it, True)"
proof (induction n arbitrary: d it)
  case (Suc n)
  note spec = dictNext_ok [OF Suc.prems(1,2)]
  show ?case
  proof (cases "iter_rest d it")
    case Nil
    then show ?thesis using spec by (auto simp: next_spec_def)
  next
    case (Cons e es)
    then obtain d' it' where n: "only_iterators d d'" "dictNext d it = Some (d', it', Some e)"
      "iter_ok d' it'" "iter_rest d' it' = es"
      using spec by (auto simp: next_spec_def)
    then have "dict_walk d' it' n = Some (es, True)"
      using Suc.IH [of d' it'] Suc.prems only_iterators_simps(5) [OF n(1), of ty] Cons by simp
    then show ?thesis using n Cons by simp
  qed
qed simp

text \<open>C36: An iteration, safe or not, visits every entry of an unmodified dictionary
  exactly once, whether or not it is rehashing, and then ends.\<close>

theorem dictNext_visits_all:
  assumes "dict_ok ty cn d"
  shows "dict_walk d dictGetIterator (dictSize d + 1) = Some (dict_ents d, True) \<and>
    dict_walk d dictGetSafeIterator (dictSize d + 1) = Some (dict_ents d, True)"
proof -
  note ok = dict_ok_tables [OF assms]
  have it: "iter_ok d dictGetIterator" "iter_ok d dictGetSafeIterator"
    by (simp_all add: iter_ok_def dictGetIterator_def dictGetSafeIterator_def)
  have r: "iter_rest d dictGetIterator = dict_ents d" "iter_rest d dictGetSafeIterator = dict_ents d"
    by (simp_all add: iter_rest_def dictGetIterator_def dictGetSafeIterator_def dict_ents_def ents_def ht_def)
  show ?thesis
    using dict_walk_ok [OF ok it(1), of "dictSize d + 1"] dict_walk_ok [OF ok it(2), of "dictSize d + 1"]
    by (simp add: r dictSize_ents [OF ok])
qed

section \<open>Refinement: any sequence of operations behaves as on a map\<close>

definition dictEnableResize :: bool where "dictEnableResize = True"
definition dictDisableResize :: bool where "dictDisableResize = False"

text \<open>The state of a run is the value of \<^verbatim>\<open>dict_can_resize\<close> and the dictionary.\<close>

datatype ('k, 'v) dict_op =
    OpAdd 'k 'v | OpReplace 'k 'v | OpDelete 'k | OpFetch 'k | OpResize | OpRehash nat
  | OpEmpty | OpEnable | OpDisable

datatype 'v dict_out = OutBool bool | OutVal "'v option" | OutNone

fun dict_exec ::
  "('k, 'v) dictType \<Rightarrow> ('k, 'v) dict_op \<Rightarrow> bool \<times> ('k, 'v) dict \<Rightarrow>
     ((bool \<times> ('k, 'v) dict) \<times> 'v dict_out) option"
where
  "dict_exec ty (OpAdd k v) (cr, d) =
     do { (d, rc) \<leftarrow> dictAdd ty cr d k v; Some ((cr, d), OutBool (rc = DICT_OK)) }"
| "dict_exec ty (OpReplace k v) (cr, d) =
     do { (d, new) \<leftarrow> dictReplace ty cr d k v; Some ((cr, d), OutBool new) }"
| "dict_exec ty (OpDelete k) (cr, d) =
     do { (d, rc) \<leftarrow> dictDelete ty d k; Some ((cr, d), OutBool (rc = DICT_OK)) }"
| "dict_exec ty (OpFetch k) (cr, d) =
     do { (d, v) \<leftarrow> dictFetchValue ty d k; Some ((cr, d), OutVal v) }"
| "dict_exec ty OpResize (cr, d) = Some ((cr, fst (dictResize cr d)), OutNone)"
| "dict_exec ty (OpRehash n) (cr, d) = do { (d, _) \<leftarrow> dictRehash ty d n; Some ((cr, d), OutNone) }"
| "dict_exec ty OpEmpty (cr, d) = do { d \<leftarrow> dictEmpty ty d; Some ((cr, d), OutNone) }"
| "dict_exec ty OpEnable (cr, d) = Some ((dictEnableResize, d), OutNone)"
| "dict_exec ty OpDisable (cr, d) = Some ((dictDisableResize, d), OutNone)"

fun map_exec ::
  "('k, 'v) dictType \<Rightarrow> ('k \<Rightarrow> 'c) \<Rightarrow> ('k, 'v) dict_op \<Rightarrow> ('c \<rightharpoonup> 'v) \<Rightarrow> ('c \<rightharpoonup> 'v) \<times> 'v dict_out"
where
  "map_exec ty cn (OpAdd k v) m =
     (if m (cn k) = None then (m(cn k \<mapsto> dictSetHashVal ty v), OutBool True) else (m, OutBool False))"
| "map_exec ty cn (OpReplace k v) m =
     (m(cn k \<mapsto> dictSetHashVal ty v), OutBool (m (cn k) = None))"
| "map_exec ty cn (OpDelete k) m = (m(cn k := None), OutBool (m (cn k) \<noteq> None))"
| "map_exec ty cn (OpFetch k) m = (m, OutVal (m (cn k)))"
| "map_exec ty cn OpEmpty m = (Map.empty, OutNone)"
| "map_exec ty cn _ m = (m, OutNone)"

fun dict_run ::
  "('k, 'v) dictType \<Rightarrow> ('k, 'v) dict_op list \<Rightarrow> bool \<times> ('k, 'v) dict \<Rightarrow>
     ((bool \<times> ('k, 'v) dict) \<times> 'v dict_out list) option"
where
  "dict_run ty [] s = Some (s, [])"
| "dict_run ty (op # ops) s =
     do { (s, r) \<leftarrow> dict_exec ty op s; (s, rs) \<leftarrow> dict_run ty ops s; Some (s, r # rs) }"

fun map_run ::
  "('k, 'v) dictType \<Rightarrow> ('k \<Rightarrow> 'c) \<Rightarrow> ('k, 'v) dict_op list \<Rightarrow> ('c \<rightharpoonup> 'v) \<Rightarrow> ('c \<rightharpoonup> 'v) \<times> 'v dict_out list"
where
  "map_run ty cn [] m = (m, [])"
| "map_run ty cn (op # ops) m =
     (let (m, r) = map_exec ty cn op m; (m, rs) = map_run ty cn ops m in (m, r # rs))"

lemma dictSize_card: "dict_ok ty cn d \<Longrightarrow> dictSize d = card (dom (dict_map cn d))"
proof -
  assume ok: "dict_ok ty cn d"
  have "dom (dict_map cn d) = set (map (\<lambda>e. cn (fst e)) (dict_ents d))"
    by (auto simp: dict_map_keyed dom_map_of_conv_image_fst keyed_def image_image)
  then show ?thesis
    using ok distinct_card [of "map (\<lambda>e. cn (fst e)) (dict_ents d)"] dictSize_ents [of ty d]
    by (simp add: dict_ok_def)
qed

lemma finite_dict_map: "finite (dom (dict_map cn d))"
  by (simp add: dict_map_def finite_dom_map_of)

lemma dictResize_ok:
  assumes ok: "dict_ok ty cn d" and sz: "dictSize d < 2 ^ 28"
  shows "dict_ok ty cn (fst (dictResize cr d)) \<and> dict_map cn (fst (dictResize cr d)) = dict_map cn d"
proof (cases "\<not> cr \<or> dictIsRehashing d")
  case True
  then show ?thesis using ok by (simp add: dictResize_def)
next
  case False
  let ?u = "ht_used (ht0 d)"
  have u: "?u < 2 ^ 28" using sz by (simp add: dictSize_def)
  then have "to_s32 (int ?u) = int ?u" by simp
  then have run: "dictResize cr d = dictExpand d (if ?u < DICT_HT_INITIAL_SIZE then DICT_HT_INITIAL_SIZE else ?u)"
    using False by (simp add: dictResize_def Let_def)
  have "\<exists>d'. dictResize cr d = (d', DICT_OK) \<and> tables_ok ty d' \<and> same d d'"
    unfolding run
    using dictExpand_ok [OF dict_ok_tables [OF ok], of "if ?u < DICT_HT_INITIAL_SIZE then DICT_HT_INITIAL_SIZE else ?u"]
      False u by (auto simp: DICT_HT_INITIAL_SIZE_def)
  then show ?thesis using dict_ok_same [OF ok] by auto
qed

lemma card_dom_upd: "card (dom (m(c \<mapsto> v))) \<le> card (dom m) + 1"
  by (cases "finite (dom m)") (simp_all add: card_insert_if)

lemma card_dom_del: "finite (dom m) \<Longrightarrow> card (dom (m(c := None))) \<le> card (dom m) + 1"
  by (auto simp: card_Diff_singleton_if intro: le_SucI)

lemma dict_exec_ok:
  assumes law: "dict_law ty cn" and ok: "dict_ok ty cn (snd s)" and sz: "dictSize (snd s) < 2 ^ 28"
  shows "\<exists>s' r. dict_exec ty op s = Some (s', r) \<and> dict_ok ty cn (snd s') \<and>
    (dict_map cn (snd s'), r) = map_exec ty cn op (dict_map cn (snd s)) \<and>
    dictSize (snd s') \<le> dictSize (snd s) + 1"
proof -
  obtain cr d where s: "s = (cr, d)" by (cases s) auto
  have "\<exists>s' r. dict_exec ty op s = Some (s', r) \<and> dict_ok ty cn (snd s') \<and>
    (dict_map cn (snd s'), r) = map_exec ty cn op (dict_map cn (snd s))"
  proof (cases op)
    case (OpAdd k v)
    then show ?thesis
      using dictAdd_ok [OF law ok sz, of cr k v] s by auto
  next
    case (OpReplace k v)
    then show ?thesis
      using dictReplace_ok [OF law ok sz, of cr k v] s by auto
  next
    case (OpDelete k)
    then show ?thesis
      using dictGenericDelete_ok [OF law ok, of k False] s by (auto simp: dictDelete_def)
  next
    case (OpFetch k)
    then show ?thesis
      using dictFind_ok [OF law ok, of k] s by (auto simp: dictFetchValue_def split: option.splits)
  next
    case OpResize
    then show ?thesis using dictResize_ok [of ty cn d cr] ok sz s by simp
  next
    case (OpRehash n)
    show ?thesis
    proof (cases "dictIsRehashing d")
      case True
      with rehash_loop_ok [OF dict_ok_tables [OF ok], of n] s OpRehash show ?thesis
        using dict_ok_same [of ty cn d] ok by (auto simp: dictRehash_def)
    next
      case False
      then show ?thesis using s ok OpRehash by (simp add: dictRehash_def)
    qed
  next
    case OpEmpty
    then show ?thesis using dictEmpty_ok [OF ok] s by auto
  qed (use s ok in simp_all)
  then obtain s' r where
    r: "dict_exec ty op s = Some (s', r)" "dict_ok ty cn (snd s')"
      "(dict_map cn (snd s'), r) = map_exec ty cn op (dict_map cn (snd s))" by blast
  have fin: "finite (dom (dict_map cn (snd s)))" by (rule finite_dict_map)
  have "card (dom (fst (map_exec ty cn op m))) \<le> card (dom m) + 1" if "finite (dom m)" for m :: "'c \<rightharpoonup> 'b"
    using card_dom_upd [of m] card_dom_del [OF that] by (cases op) auto
  from this [OF fin] have "dictSize (snd s') \<le> dictSize (snd s) + 1"
    using r(2,3) ok by (metis dictSize_card fst_conv)
  then show ?thesis using r by blast
qed

lemma dict_run_ok:
  "dict_law ty cn \<Longrightarrow> dict_ok ty cn (snd s) \<Longrightarrow> dictSize (snd s) + length ops < 2 ^ 28 \<Longrightarrow>
     \<exists>s' rs. dict_run ty ops s = Some (s', rs) \<and> dict_ok ty cn (snd s') \<and>
       (dict_map cn (snd s'), rs) = map_run ty cn ops (dict_map cn (snd s))"
proof (induction ops arbitrary: s)
  case (Cons op ops)
  have "dictSize (snd s) < 2 ^ 28" using Cons.prems(3) by simp
  from dict_exec_ok [OF Cons.prems(1,2) this, of op] obtain s1 r where
    s1: "dict_exec ty op s = Some (s1, r)" "dict_ok ty cn (snd s1)"
      "map_exec ty cn op (dict_map cn (snd s)) = (dict_map cn (snd s1), r)"
      "dictSize (snd s1) \<le> dictSize (snd s) + 1" by auto
  then have "dictSize (snd s1) + length ops < 2 ^ 28" using Cons.prems(3) by simp
  from Cons.IH [OF Cons.prems(1) s1(2) this] obtain s2 rs where
    "dict_run ty ops s1 = Some (s2, rs)" "dict_ok ty cn (snd s2)"
    "map_run ty cn ops (dict_map cn (snd s1)) = (dict_map cn (snd s2), rs)" by auto
  then show ?case using s1 by auto
qed simp

lemma dictCreate_ok:
  "d = dictCreate \<Longrightarrow> dict_ok ty cn d \<and> dict_map cn d = Map.empty \<and> dictSize d = 0"
  by (simp add: dictCreate_def u_dictInit_def dict_ok_def tables_ok_def dictIsRehashing_def
      dict_ents_def dict_map_def dictSize_def)

lemma dictSize_create [simp]: "dictSize dictCreate = 0"
  using dictCreate_ok [OF refl] by blast

text \<open>C34: The hash table implements a finite map: any sequence of fewer than \<open>2^28\<close>
  operations on a fresh dictionary (insertions, replacements, deletions, lookups, resizes,
  rehashing steps, clearing, switching resizing on and off) runs without undefined
  behaviour and returns what the same operations on a map return.\<close>

theorem dict_refines_map:
  assumes "dict_law ty cn" and "length ops < 2 ^ 28"
  shows "\<exists>cr' d' rs. dict_run ty ops (cr, dictCreate) = Some ((cr', d'), rs) \<and>
    (dict_map cn d', rs) = map_run ty cn ops Map.empty"
  using dict_run_ok [OF assms(1), of "(cr, dictCreate)" ops] assms(2) dictCreate_ok [OF refl, of ty cn] by auto

definition word_dict :: "(32 word, nat) dictType" where
  "word_dict = \<lparr>hashFunction = dictIntHashFunction, keyDup = None, valDup = None, keyCompare = None,
     keyDestructor = False, valDestructor = True\<rparr>"

lemma word_dict_law: "dict_law word_dict (\<lambda>k. k)"
  by (simp add: dict_law_def word_dict_def dictCompareHashKeys_def dictSetHashKey_def)

lemma dict_refines_map_witness:
  "\<exists>s'. dict_run word_dict [OpAdd 1 10, OpAdd 5 20, OpReplace 1 11, OpDelete 5, OpFetch 1, OpFetch 5]
      (True, dictCreate) =
    Some (s', [OutBool True, OutBool True, OutBool False, OutBool True, OutVal (Some 11), OutVal None])"
  using dict_refines_map [OF word_dict_law,
      of "[OpAdd 1 10, OpAdd 5 20, OpReplace 1 11, OpDelete 5, OpFetch 1, OpFetch 5]" True]
  by (auto simp: word_dict_def dictSetHashVal_def)

text \<open>\<open>dictDelete\<close> removes exactly the key, says whether it was there, and releases
  exactly one key and the removed value.\<close>

theorem dictDelete_releases:
  assumes "dict_law ty cn" and "dict_ok ty cn d" and "dict_map cn d (cn k) = Some v"
  shows "\<exists>d' k'. dictDelete ty d k = Some (d', DICT_OK) \<and> dict_ok ty cn d' \<and>
    dict_map cn d' = (dict_map cn d)(cn k := None) \<and> cn k' = cn k \<and>
    d_freed d' = d_freed d @ free_entry ty (k', v)"
  using dictGenericDelete_ok [OF assms(1,2), of k False] assms(3) by (auto simp: dictDelete_def)

definition word_dict1 :: "(32 word, nat) dict" where
  "word_dict1 = \<lparr>ht0 = \<lparr>ht_table = [[], [], [(2, 7)], []], ht_size = 4, ht_mask = 3, ht_used = 1\<rparr>,
     ht1 = u_dictReset, rehashidx = -1, iterators = 0, d_freed = []\<rparr>"

definition word_dict_id :: "(32 word, nat) dictType" where
  "word_dict_id = word_dict\<lparr>hashFunction := dictIdentityHashFunction\<rparr>"

lemma word_dict1_ok: "dict_law word_dict_id (\<lambda>k. k)" "dict_ok word_dict_id (\<lambda>k. k) word_dict1"
proof -
  have m: "\<exists>m \<le> (30 :: nat). (4 :: nat) = 2 ^ m" by (rule exI [of _ 2]) simp
  have i: "i = 0 \<or> i = 1 \<or> i = 2 \<or> i = 3" if "i < 4" for i :: nat using that by auto
  have "\<forall>i < 4. \<forall>e \<in> set ([[], [], [(2, 7)], []] ! i). dictHashKey word_dict_id (fst e) mod 4 = i"
    by (auto dest!: i simp: dictHashKey_def word_dict_id_def dictIdentityHashFunction_def)
  then have "ht_ok word_dict_id (ht0 word_dict1)"
    using m by (simp add: ht_ok_def word_dict1_def ents_def)
  then show "dict_ok word_dict_id (\<lambda>k. k) word_dict1"
    by (simp add: dict_ok_def tables_ok_def dictIsRehashing_def dict_ents_def)
      (simp add: word_dict1_def ents_def)
qed (simp add: dict_law_def word_dict_id_def word_dict_def dictCompareHashKeys_def dictSetHashKey_def)

lemma dictDelete_releases_witness:
  "\<exists>d' k'. dictDelete word_dict_id word_dict1 2 = Some (d', DICT_OK) \<and> dict_ok word_dict_id (\<lambda>k. k) d' \<and>
    dict_map (\<lambda>k. k) d' = (dict_map (\<lambda>k. k) word_dict1)(2 := None) \<and> k' = 2 \<and>
    d_freed d' = d_freed word_dict1 @ free_entry word_dict_id (k', 7)"
  by (rule dictDelete_releases [OF word_dict1_ok]) (simp add: dict_map_def dict_ents_def ents_def word_dict1_def)

text \<open>A dictionary in the middle of a rehashing from 4 to 8 buckets: bucket 0 was moved (key 12),
  the chain of the keys 5 and 1 in bucket 1 and the key 3 in bucket 3 were not.\<close>

definition word_dict2 :: "(32 word, nat) dict" where
  "word_dict2 =
     \<lparr>ht0 = \<lparr>ht_table = [[], [(5, 50), (1, 10)], [], [(3, 30)]], ht_size = 4, ht_mask = 3, ht_used = 3\<rparr>,
      ht1 = \<lparr>ht_table = [[], [], [], [], [(12, 120)], [], [], []], ht_size = 8, ht_mask = 7, ht_used = 1\<rparr>,
      rehashidx = 1, iterators = 0, d_freed = []\<rparr>"

lemma less_enum: "(\<forall>i < 4 :: nat. P i) \<longleftrightarrow> P 0 \<and> P 1 \<and> P 2 \<and> P 3"
  "(\<forall>i < 8 :: nat. P i) \<longleftrightarrow> P 0 \<and> P 1 \<and> P 2 \<and> P 3 \<and> P 4 \<and> P 5 \<and> P 6 \<and> P 7"
  by (simp_all add: All_less_Suc2 numeral_eq_Suc)

lemma word_dict2_ok: "dict_ok word_dict_id (\<lambda>k. k) word_dict2"
proof -
  have m: "\<exists>m \<le> (30 :: nat). (4 :: nat) = 2 ^ m" "\<exists>m \<le> (30 :: nat). (8 :: nat) = 2 ^ m"
    by (rule exI [of _ 2], simp) (rule exI [of _ 3], simp)
  have h: "dictHashKey word_dict_id k = unat k" for k :: "32 word"
    by (simp add: dictHashKey_def word_dict_id_def dictIdentityHashFunction_def)
  have "ht_ok word_dict_id (ht0 word_dict2)" "ht_ok word_dict_id (ht1 word_dict2)"
    using m by (simp_all add: ht_ok_def word_dict2_def ents_def less_enum h)
  then show ?thesis
    by (simp add: dict_ok_def tables_ok_def dictIsRehashing_def dict_ents_def)
      (simp add: word_dict2_def ents_def less_Suc_eq)
qed

text \<open>Five steps move both remaining chains and end the rehashing: every key is found in the
  table that is now the only one.\<close>

lemma dictRehash_completes_witness:
  "dictIsRehashing word_dict2 \<and> dict_map (\<lambda>k. k) word_dict2 = [5 \<mapsto> 50, 1 \<mapsto> 10, 3 \<mapsto> 30, 12 \<mapsto> 120] \<and>
   (\<exists>d'. dictRehash word_dict_id word_dict2 5 = Some (d', False) \<and> \<not> dictIsRehashing d' \<and>
      dict_ok word_dict_id (\<lambda>k. k) d' \<and>
      dict_map (\<lambda>k. k) d' = [5 \<mapsto> 50, 1 \<mapsto> 10, 3 \<mapsto> 30, 12 \<mapsto> 120])"
proof -
  have m: "dict_map (\<lambda>k. k) word_dict2 = [5 \<mapsto> 50, 1 \<mapsto> 10, 3 \<mapsto> 30, 12 \<mapsto> 120]"
    by (auto simp: dict_map_def dict_ents_def ents_def word_dict2_def)
  have "dictIsRehashing word_dict2" by (simp add: dictIsRehashing_def word_dict2_def)
  moreover have "ht_size (ht0 word_dict2) < 5" by (simp add: word_dict2_def)
  ultimately show ?thesis using dictRehash_completes [OF word_dict2_ok] m by metis
qed

lemma dictNext_visits_all_witness:
  "dict_walk word_dict2 dictGetIterator (dictSize word_dict2 + 1) =
     Some ([(5, 50), (1, 10), (3, 30), (12, 120)], True) \<and>
   dict_walk word_dict2 dictGetSafeIterator (dictSize word_dict2 + 1) =
     Some ([(5, 50), (1, 10), (3, 30), (12, 120)], True)"
  using dictNext_visits_all [OF word_dict2_ok]
  by (simp add: dict_ents_def ents_def word_dict2_def)

end
