(* ===== verification/Object.thy ===== *)
theory Object
  imports Util
begin

text \<open>
  Model of the string objects of \<^verbatim>\<open>src/webserver/redis/src/object.c\<close>: creation, reference
  counts, the integer encoding, decoding, comparison, conversion to numbers.

  An object of type \<^verbatim>\<open>REDIS_STRING\<close> is either raw (its pointer is an sds, of which the
  model keeps the contents; a NUL follows them) or integer-encoded (the pointer holds a
  \<^verbatim>\<open>long\<close> of 64 bits). Virtual memory, which the server can move values to, is off. The
  shared integer objects are named by their value.
\<close>

section \<open>Data\<close>

datatype obj_ptr = PtrSds "byte list" | PtrLong int

datatype obj_type = REDIS_STRING | REDIS_LIST | REDIS_SET | REDIS_ZSET | REDIS_HASH

record robj =
  o_type :: obj_type
  o_ptr :: obj_ptr
  o_refcount :: int
  o_lru :: int

text \<open>A pointer to an object: a shared integer, or an object of its own.\<close>

datatype obj_ref = SharedInt int | Own robj

definition REDIS_SHARED_INTEGERS :: int where "REDIS_SHARED_INTEGERS = 10000"
definition REDIS_LRU_CLOCK_MAX :: int where "REDIS_LRU_CLOCK_MAX = 2 ^ 21 - 1"
definition REDIS_LRU_CLOCK_RESOLUTION :: int where "REDIS_LRU_CLOCK_RESOLUTION = 10"

definition encoding_raw :: "robj \<Rightarrow> bool" where
  "encoding_raw ob \<longleftrightarrow> (case o_ptr ob of PtrSds _ \<Rightarrow> True | PtrLong _ \<Rightarrow> False)"

section \<open>Creation and reference counts\<close>

definition createObject :: "int \<Rightarrow> obj_type \<Rightarrow> obj_ptr \<Rightarrow> robj" where
  "createObject lruclock ty ptr =
     \<lparr>o_type = ty, o_ptr = ptr, o_refcount = 1, o_lru = lruclock\<rparr>"

definition createStringObject :: "int \<Rightarrow> byte list \<Rightarrow> robj" where
  "createStringObject lruclock s = createObject lruclock REDIS_STRING (PtrSds s)"

text \<open>\<^verbatim>\<open>shared.integers[v]\<close>: the array holds the objects of 0 to 9999, any other index is an
  access outside of it. \<open>main\<close> says whether the caller is the main thread.\<close>

definition shared_integer :: "int \<Rightarrow> obj_ref option" where
  "shared_integer v = (if 0 \<le> v \<and> v < REDIS_SHARED_INTEGERS then Some (SharedInt v) else None)"

declare shared_integer_def [simp]

definition createStringObjectFromLongLong :: "bool \<Rightarrow> int \<Rightarrow> int \<Rightarrow> obj_ref option" where
  "createStringObjectFromLongLong main lruclock v =
     (if v \<ge> 0 \<and> v < REDIS_SHARED_INTEGERS \<and> main then shared_integer v
      else if v \<ge> LLONG_MIN \<and> v \<le> LLONG_MAX then
        Some (Own (createObject lruclock REDIS_STRING (PtrLong v)))
      else map_option (\<lambda>s. Own (createObject lruclock REDIS_STRING (PtrSds s))) (ll2string 32 v))"

definition dupStringObject :: "int \<Rightarrow> robj \<Rightarrow> robj option" where
  "dupStringObject lruclock ob =
     (case o_ptr ob of PtrSds s \<Rightarrow> Some (createStringObject lruclock s) | PtrLong _ \<Rightarrow> None)"

definition incrRefCount :: "robj \<Rightarrow> robj" where
  "incrRefCount ob = ob\<lparr>o_refcount := o_refcount ob + 1\<rparr>"

text \<open>\<open>None\<close> inside \<open>Some\<close>: the object was released; \<open>None\<close>: a panic.\<close>

definition decrRefCount :: "robj \<Rightarrow> robj option option" where
  "decrRefCount ob =
     (if o_refcount ob \<le> 0 then None
      else if o_refcount ob = 1 then Some None
      else Some (Some (ob\<lparr>o_refcount := o_refcount ob - 1\<rparr>)))"

definition checkType :: "robj \<Rightarrow> obj_type \<Rightarrow> bool" where
  "checkType ob ty \<longleftrightarrow> o_type ob \<noteq> ty"

section \<open>Encoding and decoding\<close>

definition isObjectRepresentableAsLongLong :: "robj \<Rightarrow> int option option" where
  "isObjectRepresentableAsLongLong ob =
     (if o_type ob \<noteq> REDIS_STRING then None
      else Some (case o_ptr ob of PtrLong n \<Rightarrow> Some n | PtrSds s \<Rightarrow> string2ll s))"

definition tryObjectEncoding :: "bool \<Rightarrow> int \<Rightarrow> robj \<Rightarrow> obj_ref option" where
  "tryObjectEncoding main maxmemory ob =
     (case o_ptr ob of
        PtrLong _ \<Rightarrow> Some (Own ob)
      | PtrSds s \<Rightarrow>
          if o_refcount ob > 1 then Some (Own ob)
          else if o_type ob \<noteq> REDIS_STRING then None
          else
            (case string2l LLONG_MIN LLONG_MAX s of
               None \<Rightarrow> Some (Own ob)
             | Some v \<Rightarrow>
                 if maxmemory = 0 \<and> v \<ge> 0 \<and> v < REDIS_SHARED_INTEGERS \<and> main then shared_integer v
                 else Some (Own (ob\<lparr>o_ptr := PtrLong v\<rparr>))))"

text \<open>\<^verbatim>\<open>strlen\<close> of what \<open>ll2string\<close> wrote is its length, as digits are not NUL.\<close>

definition getDecodedObject :: "int \<Rightarrow> robj \<Rightarrow> robj option" where
  "getDecodedObject lruclock ob =
     (case o_ptr ob of
        PtrSds _ \<Rightarrow> Some (incrRefCount ob)
      | PtrLong n \<Rightarrow>
          if o_type ob = REDIS_STRING then map_option (createStringObject lruclock) (ll2string 32 n)
          else None)"

section \<open>Comparison\<close>

text \<open>The part of a block before its first NUL, and \<^verbatim>\<open>strcmp\<close> of two such parts.\<close>

definition c_str :: "byte list \<Rightarrow> byte list" where
  "c_str s = takeWhile (\<lambda>c. c \<noteq> 0) s"

fun list_cmp :: "byte list \<Rightarrow> byte list \<Rightarrow> int" where
  "list_cmp [] [] = 0"
| "list_cmp [] (b # bs) = -1"
| "list_cmp (a # as) [] = 1"
| "list_cmp (a # as) (b # bs) = (if a = b then list_cmp as bs else if a < b then -1 else 1)"

definition strcmp :: "byte list \<Rightarrow> byte list \<Rightarrow> int" where
  "strcmp s t = list_cmp (c_str s) (c_str t)"

text \<open>\<^verbatim>\<open>sdscmp\<close> of two sds with these contents has the sign of \<open>list_cmp\<close>. \<open>same\<close> says
  whether the two arguments are the same pointer.\<close>

definition compareStringObjects :: "bool \<Rightarrow> robj \<Rightarrow> robj \<Rightarrow> int option" where
  "compareStringObjects same a b =
     (if o_type a \<noteq> REDIS_STRING \<or> o_type b \<noteq> REDIS_STRING then None
      else if same then Some 0
      else do {
        (astr, asds) \<leftarrow> (case o_ptr a of
            PtrLong n \<Rightarrow> map_option (\<lambda>s. (s, False)) (ll2string 128 n) | PtrSds s \<Rightarrow> Some (s, True));
        (bstr, bsds) \<leftarrow> (case o_ptr b of
            PtrLong n \<Rightarrow> map_option (\<lambda>s. (s, False)) (ll2string 128 n) | PtrSds s \<Rightarrow> Some (s, True));
        Some (if asds \<and> bsds then list_cmp astr bstr else strcmp astr bstr) })"

definition equalStringObjects :: "bool \<Rightarrow> robj \<Rightarrow> robj \<Rightarrow> bool option" where
  "equalStringObjects same a b =
     (case (o_ptr a, o_ptr b) of
        (PtrLong m, PtrLong n) \<Rightarrow> Some (m = n)
      | _ \<Rightarrow> map_option (\<lambda>c. c = 0) (compareStringObjects same a b))"

definition stringObjectLen :: "robj \<Rightarrow> nat option" where
  "stringObjectLen ob =
     (if o_type ob \<noteq> REDIS_STRING then None
      else (case o_ptr ob of PtrSds s \<Rightarrow> Some (length s) | PtrLong n \<Rightarrow> map_option length (ll2string 32 n)))"

section \<open>Conversion to numbers\<close>

text \<open>
  \<^verbatim>\<open>strtoll(s, &eptr, 10)\<close> of the C library: the clamped value, the number of characters
  consumed, and whether \<^verbatim>\<open>errno\<close> is set to \<^verbatim>\<open>ERANGE\<close>.
\<close>

definition strtoll :: "byte list \<Rightarrow> int \<times> nat \<times> bool" where
  "strtoll s =
     (let ws = length (takeWhile isspace s);
          r = drop ws s;
          neg = (r \<noteq> [] \<and> hd r = 45);
          sgn = (if r \<noteq> [] \<and> (hd r = 45 \<or> hd r = 43) then 1 else 0);
          ds = takeWhile isdigit (drop sgn r);
          n = (if neg then - dval 0 ds else dval 0 ds)
      in if ds = [] then (0, 0, False)
         else if n < LLONG_MIN then (LLONG_MIN, ws + sgn + length ds, True)
         else if n > LLONG_MAX then (LLONG_MAX, ws + sgn + length ds, True)
         else (n, ws + sgn + length ds, False))"

text \<open>
  \<open>erange\<close>: whether \<^verbatim>\<open>errno\<close> is \<^verbatim>\<open>ERANGE\<close> before the call, which the function does not
  reset. The \<^verbatim>\<open>NULL\<close> object is \<open>None\<close>. The result \<open>None\<close> inside \<open>Some\<close> is \<^verbatim>\<open>REDIS_ERR\<close>.
\<close>

definition getLongLongFromObject :: "bool \<Rightarrow> robj option \<Rightarrow> int option option" where
  "getLongLongFromObject erange obj =
     (case obj of
        None \<Rightarrow> Some (Some 0)
      | Some ob \<Rightarrow>
          if o_type ob \<noteq> REDIS_STRING then None
          else
            (case o_ptr ob of
               PtrLong n \<Rightarrow> Some (Some n)
             | PtrSds s \<Rightarrow>
                 (case strtoll s of
                    (v, k, ov) \<Rightarrow>
                      if (s @ [0]) ! k \<noteq> 0 then Some None
                      else if (erange \<or> ov) \<and> (v = LLONG_MIN \<or> v = LLONG_MAX) then Some None
                      else Some (Some v))))"

text \<open>The replying variants: the value, or the error message that is sent to the client.\<close>

datatype conv_reply = ConvOk int | ErrNotInteger | ErrOutOfRange | ErrCustom "byte list"

definition getLongLongFromObjectOrReply ::
  "bool \<Rightarrow> robj option \<Rightarrow> byte list option \<Rightarrow> conv_reply option" where
  "getLongLongFromObjectOrReply erange obj msg =
     (case getLongLongFromObject erange obj of
        None \<Rightarrow> None
      | Some (Some v) \<Rightarrow> Some (ConvOk v)
      | Some None \<Rightarrow> Some (case msg of Some m \<Rightarrow> ErrCustom m | None \<Rightarrow> ErrNotInteger))"

definition getLongFromObjectOrReply ::
  "int \<Rightarrow> int \<Rightarrow> bool \<Rightarrow> robj option \<Rightarrow> byte list option \<Rightarrow> conv_reply option" where
  "getLongFromObjectOrReply lmin lmax erange obj msg =
     (case getLongLongFromObjectOrReply erange obj msg of
        Some (ConvOk v) \<Rightarrow>
          if v < lmin \<or> v > lmax
          then Some (case msg of Some m \<Rightarrow> ErrCustom m | None \<Rightarrow> ErrOutOfRange)
          else Some (ConvOk v)
      | r \<Rightarrow> r)"

definition estimateObjectIdleTime :: "int \<Rightarrow> robj \<Rightarrow> int" where
  "estimateObjectIdleTime lruclock ob =
     (if lruclock \<ge> o_lru ob then (lruclock - o_lru ob) * REDIS_LRU_CLOCK_RESOLUTION
      else ((REDIS_LRU_CLOCK_MAX - o_lru ob) + lruclock) * REDIS_LRU_CLOCK_RESOLUTION)"

section \<open>Correctness\<close>

text \<open>The text an object stands for.\<close>

definition obj_bytes :: "robj \<Rightarrow> byte list" where
  "obj_bytes ob = (case o_ptr ob of PtrSds s \<Rightarrow> s | PtrLong n \<Rightarrow> dec_repr n)"

definition obj_ok :: "robj \<Rightarrow> bool" where
  "obj_ok ob \<longleftrightarrow> o_type ob = REDIS_STRING \<and>
     (case o_ptr ob of PtrSds s \<Rightarrow> True | PtrLong n \<Rightarrow> LLONG_MIN < n \<and> n \<le> LLONG_MAX)"

fun ref_bytes :: "obj_ref \<Rightarrow> byte list" where
  "ref_bytes (SharedInt n) = dec_repr n"
| "ref_bytes (Own ob) = obj_bytes ob"

lemma string2l_long: "string2l LLONG_MIN LLONG_MAX s = string2ll s"
proof (cases "string2ll s")
  case (Some v)
  then have "LLONG_MIN \<le> v \<and> v \<le> LLONG_MAX" using string2ll_dec_repr by blast
  then show ?thesis using Some by (simp add: string2l_def)
qed (simp add: string2l_def)

lemma string2ll_None:
  "string2ll s = None \<Longrightarrow> LLONG_MIN \<le> v \<Longrightarrow> v \<le> LLONG_MAX \<Longrightarrow> s \<noteq> dec_repr v"
  using string2ll_dec_repr [of s v] by auto

lemma dec_repr_inject:
  "LLONG_MIN \<le> v \<Longrightarrow> v \<le> LLONG_MAX \<Longrightarrow> LLONG_MIN \<le> w \<Longrightarrow> w \<le> LLONG_MAX \<Longrightarrow>
     dec_repr v = dec_repr w \<longleftrightarrow> v = w"
  by (metis option.inject string2ll_dec_repr)

text \<open>C39: A string object with one owner (\<open>o_refcount\<close> at most 1) that is the canonical
  decimal text of a \<^verbatim>\<open>long\<close> is encoded: as the shared object of that number exactly if no memory
  limit is set, the number is from 0 to 9999 and the caller is the main thread (so the array of
  shared objects is never read outside of it), else as the same object holding the number.
  Every other string object, one with more owners too, is returned as it is. In every case the
  text it stands for is the same.\<close>

theorem tryObjectEncoding_correct:
  assumes "o_type ob = REDIS_STRING"
  shows "\<exists>r. tryObjectEncoding main maxmem ob = Some r \<and> ref_bytes r = obj_bytes ob \<and>
    (\<forall>v. o_ptr ob = PtrSds (dec_repr v) \<and> LLONG_MIN \<le> v \<and> v \<le> LLONG_MAX \<and> o_refcount ob \<le> 1 \<longrightarrow>
       r = (if main \<and> maxmem = 0 \<and> 0 \<le> v \<and> v < 10000 then SharedInt v
            else Own (ob\<lparr>o_ptr := PtrLong v\<rparr>))) \<and>
    ((\<nexists>v. o_ptr ob = PtrSds (dec_repr v) \<and> LLONG_MIN \<le> v \<and> v \<le> LLONG_MAX) \<or> 1 < o_refcount ob \<longrightarrow>
       r = Own ob)"
proof (cases "o_ptr ob")
  case (PtrLong n)
  then show ?thesis by (simp add: tryObjectEncoding_def)
next
  case (PtrSds s)
  show ?thesis
  proof (cases "o_refcount ob > 1 \<or> string2ll s = None")
    case True
    then have none: "\<not> (o_ptr ob = PtrSds (dec_repr v) \<and> LLONG_MIN \<le> v \<and> v \<le> LLONG_MAX \<and> o_refcount ob \<le> 1)" for v
      using PtrSds string2ll_None [of s v] by auto
    have "tryObjectEncoding main maxmem ob = Some (Own ob)"
      using True PtrSds assms by (auto simp: tryObjectEncoding_def string2l_long)
    then show ?thesis using none by auto
  next
    case False
    then obtain v where v: "string2ll s = Some v" by auto
    then have d: "LLONG_MIN \<le> v" "v \<le> LLONG_MAX" "s = dec_repr v"
      using string2ll_dec_repr by blast+
    have inj: "w = v" if "dec_repr w = dec_repr v" "LLONG_MIN \<le> w" "w \<le> LLONG_MAX" for w
      using string2ll_dec_repr [of "dec_repr v" w] v d(3) that by simp
    show ?thesis
      using PtrSds assms False v d inj
      by (auto simp: tryObjectEncoding_def string2l_long obj_bytes_def REDIS_SHARED_INTEGERS_def)
  qed
qed

text \<open>At the end of the array: 9999 is shared and 10000 is not, nor is 9999 in another thread
  or under a memory limit.\<close>

lemma tryObjectEncoding_correct_witness:
  "tryObjectEncoding True 0 (createStringObject 0 (dec_repr 9999)) = Some (SharedInt 9999) \<and>
   tryObjectEncoding True 0 (createStringObject 0 (dec_repr 10000)) =
     Some (Own (createObject 0 REDIS_STRING (PtrLong 10000))) \<and>
   tryObjectEncoding False 0 (createStringObject 0 (dec_repr 9999)) =
     Some (Own (createObject 0 REDIS_STRING (PtrLong 9999))) \<and>
   tryObjectEncoding True 4096 (createStringObject 0 (dec_repr 9999)) =
     Some (Own (createObject 0 REDIS_STRING (PtrLong 9999)))"
proof -
  have lim: "LLONG_MIN \<le> 9999" "9999 \<le> LLONG_MAX" "LLONG_MIN \<le> 10000" "10000 \<le> LLONG_MAX" by (simp_all add: c_limits)
  have "tryObjectEncoding main maxmem (createStringObject 0 (dec_repr v)) =
      Some (if main \<and> maxmem = 0 \<and> 0 \<le> v \<and> v < 10000 then SharedInt v
            else Own (createObject 0 REDIS_STRING (PtrLong v)))"
    if "LLONG_MIN \<le> v" "v \<le> LLONG_MAX" for main maxmem v
    using tryObjectEncoding_correct [of "createStringObject 0 (dec_repr v)" main maxmem] that
    by (auto simp: createStringObject_def createObject_def)
  then show ?thesis using lim by simp
qed

lemma dec_repr_digits: "list_all (\<lambda>c. c = 45 \<or> isdigit c) (dec_repr v)"
proof -
  have "list_all (\<lambda>c. c = 45 \<or> isdigit c) (dec_nat n)" for n
    using dec_nat_digits [of n] by (auto simp: list_all_iff)
  then show ?thesis by (auto simp: dec_repr_def)
qed

lemma dec_repr_no_nul: "0 \<notin> set (dec_repr v)"
  using dec_repr_digits [of v] by (auto simp: list_all_iff isdigit_def)

lemma c_str_id: "0 \<notin> set s \<Longrightarrow> c_str s = s"
  unfolding c_str_def by (induction s) auto

lemma ll2string_full:
  "LLONG_MIN < v \<Longrightarrow> v \<le> LLONG_MAX \<Longrightarrow> 21 \<le> n \<Longrightarrow> ll2string n v = Some (dec_repr v)"
  using ll2string_dec_repr [of v n] length_dec_repr [of v] by simp

lemma list_cmp_spec:
  "(list_cmp xs ys < 0 \<longleftrightarrow> ord_class.lexordp xs ys) \<and> (list_cmp xs ys = 0 \<longleftrightarrow> xs = ys)"
  by (induction xs ys rule: list_cmp.induct) auto

lemma getDecodedObject_bytes:
  assumes "obj_ok ob"
  shows "\<exists>d. getDecodedObject lru ob = Some d \<and> obj_bytes d = obj_bytes ob \<and> encoding_raw d"
  using assms
  by (cases "o_ptr ob")
    (auto simp: getDecodedObject_def obj_ok_def obj_bytes_def encoding_raw_def ll2string_full
      createStringObject_def createObject_def incrRefCount_def)

lemma compare_text:
  assumes "obj_ok a" and "obj_ok b"
    and "encoding_raw a \<and> encoding_raw b \<or> 0 \<notin> set (obj_bytes a) \<and> 0 \<notin> set (obj_bytes b)"
  shows "compareStringObjects False a b = Some (list_cmp (obj_bytes a) (obj_bytes b))"
  using assms dec_repr_no_nul
  by (cases "o_ptr a"; cases "o_ptr b")
    (auto simp: compareStringObjects_def obj_ok_def obj_bytes_def encoding_raw_def ll2string_full
      strcmp_def c_str_id)

lemma equal_text:
  assumes "obj_ok a" and "obj_ok b"
    and "encoding_raw a \<and> encoding_raw b \<or> 0 \<notin> set (obj_bytes a) \<and> 0 \<notin> set (obj_bytes b)"
  shows "equalStringObjects False a b = Some (obj_bytes a = obj_bytes b)"
  using compare_text [OF assms] list_cmp_spec [of "obj_bytes a" "obj_bytes b"] assms(1,2)
  by (cases "o_ptr a"; cases "o_ptr b")
    (auto simp: equalStringObjects_def obj_bytes_def obj_ok_def dec_repr_inject)

text \<open>Decoding returns a raw object with the same text, and the comparison of two
  string objects is the lexicographic order of their texts when both are raw, or when no
  raw one contains a NUL byte; in that case \<open>equalStringObjects\<close> decides their equality.\<close>

theorem compareStringObjects_correct:
  assumes "obj_ok a" and "obj_ok b"
    and "encoding_raw a \<and> encoding_raw b \<or> 0 \<notin> set (obj_bytes a) \<and> 0 \<notin> set (obj_bytes b)"
  shows "\<exists>r. compareStringObjects False a b = Some r \<and>
    (r < 0 \<longleftrightarrow> ord_class.lexordp (obj_bytes a) (obj_bytes b)) \<and> (r = 0 \<longleftrightarrow> obj_bytes a = obj_bytes b) \<and>
    equalStringObjects False a b = Some (obj_bytes a = obj_bytes b)"
  using compare_text [OF assms] equal_text [OF assms] list_cmp_spec by auto

lemma compareStringObjects_correct_witness:
  "\<exists>r. compareStringObjects False (createStringObject 0 [49, 48, 0]) (createStringObject 0 [49, 48]) = Some r \<and>
    (r < 0 \<longleftrightarrow> ord_class.lexordp [49, 48, 0] [49, 48 :: byte]) \<and> (r = 0 \<longleftrightarrow> [49, 48, 0] = [49, 48 :: byte]) \<and>
    equalStringObjects False (createStringObject 0 [49, 48, 0]) (createStringObject 0 [49, 48]) =
      Some ([49, 48, 0] = [49, 48 :: byte])"
  using compareStringObjects_correct
      [of "createStringObject 0 [49, 48, 0]" "createStringObject 0 [49, 48]"]
  by (simp add: obj_ok_def createStringObject_def createObject_def obj_bytes_def encoding_raw_def)

text \<open>C40: Between an integer-encoded and a raw object the comparison stops at the first NUL
  byte: the raw string \<open>10\<close>, NUL, \<open>x\<close> is reported equal to the integer 10, although the
  texts differ.\<close>

theorem equalStringObjects_embedded_nul:
  "equalStringObjects False (createObject 0 REDIS_STRING (PtrLong 10))
      (createStringObject 0 [49, 48, 0, 120]) = Some True \<and>
   obj_bytes (createObject 0 REDIS_STRING (PtrLong 10)) \<noteq> obj_bytes (createStringObject 0 [49, 48, 0, 120])"
proof -
  have d: "dec_repr 10 = [49, 48]"
    by (simp add: dec_repr_def dec_nat.simps digit_char_def)
  have "ll2string 128 10 = Some [49, 48]"
    using ll2string_full [of 10 128] d by (simp add: c_limits)
  then show ?thesis
    by (simp add: equalStringObjects_def compareStringObjects_def createStringObject_def
        createObject_def strcmp_def c_str_def obj_bytes_def d)
qed

lemma isdigit_not: "isdigit c \<Longrightarrow> \<not> isspace c \<and> c \<noteq> 45 \<and> c \<noteq> 43 \<and> c \<noteq> 0"
  by (auto simp: isdigit_def isspace_def word_le_def)

lemma takeWhile_digits: "list_all isdigit ds \<Longrightarrow> takeWhile isdigit ds = ds"
  by (induction ds) auto

lemma strtoll_dec_repr:
  assumes "LLONG_MIN \<le> v" and "v \<le> LLONG_MAX"
  shows "strtoll (dec_repr v) = (v, length (dec_repr v), False)"
proof -
  obtain c p where cp: "dec_nat (nat \<bar>v\<bar>) = c # p" by (cases "dec_nat (nat \<bar>v\<bar>)") auto
  then have dig: "list_all isdigit (c # p)" using dec_nat_digits by metis
  then have c: "\<not> isspace c" "c \<noteq> 45" "c \<noteq> 43" using isdigit_not [of c] by auto
  have val: "dval 0 (c # p) = \<bar>v\<bar>" using dec_nat_dval [of "nat \<bar>v\<bar>"] cp by simp
  have tw: "takeWhile isdigit (c # p) = c # p" by (rule takeWhile_digits [OF dig])
  have tw': "takeWhile isdigit p = p" using dig by (intro takeWhile_digits) simp
  have dc: "isdigit c" using dig by simp
  have m: "\<not> isspace 45" by (simp add: isspace_def)
  show ?thesis
  proof (cases "v < 0")
    case True
    then have "dec_repr v = 45 # c # p" using cp by (simp add: dec_repr_def)
    then show ?thesis
      using True val dc m assms by (simp add: strtoll_def Let_def tw')
  next
    case False
    then have "dec_repr v = c # p" using cp by (simp add: dec_repr_def)
    then show ?thesis
      using False val tw c assms by (simp add: strtoll_def Let_def)
  qed
qed

text \<open>A string object that holds a canonical decimal integer, raw or encoded, converts
  to that integer; for the two extreme values only when \<^verbatim>\<open>errno\<close> was not \<^verbatim>\<open>ERANGE\<close>
  before, because the function does not reset it.\<close>

theorem getLongLongFromObject_decimal:
  assumes "obj_ok ob" and "obj_bytes ob = dec_repr v" and "LLONG_MIN < v" and "v \<le> LLONG_MAX"
  shows "getLongLongFromObject False (Some ob) = Some (Some v) \<and>
    (v \<noteq> LLONG_MAX \<longrightarrow> getLongLongFromObject True (Some ob) = Some (Some v)) \<and>
    (encoding_raw ob \<longrightarrow> v = LLONG_MAX \<longrightarrow> getLongLongFromObject True (Some ob) = Some None)"
proof (cases "o_ptr ob")
  case (PtrSds s)
  then have "s = dec_repr v" using assms(2) by (simp add: obj_bytes_def)
  then show ?thesis
    using PtrSds assms strtoll_dec_repr [of v] strtoll_dec_repr [of LLONG_MAX]
    by (auto simp: getLongLongFromObject_def obj_ok_def nth_append)
next
  case (PtrLong n)
  then have "n = v"
    using assms dec_repr_inject [of n v] by (simp add: obj_bytes_def obj_ok_def)
  then show ?thesis
    using PtrLong assms(1) by (simp add: getLongLongFromObject_def obj_ok_def encoding_raw_def)
qed

lemma getLongLongFromObject_decimal_witness:
  "getLongLongFromObject False (Some (createStringObject 0 (dec_repr 77))) = Some (Some 77)"
  using getLongLongFromObject_decimal [of "createStringObject 0 (dec_repr 77)" 77]
  by (simp add: obj_ok_def obj_bytes_def createStringObject_def createObject_def c_limits)

end
