(* ===== verification/DictTypes.thy ===== *)
theory DictTypes
  imports Dict Object Sds
begin

text \<open>
  The dictionary types of \<^verbatim>\<open>src/webserver/redis/src/redis.c\<close>: the hash and comparison
  functions of the key space, of sets, hashes and of the command table, the laws they
  satisfy, and the resizing policy of the server. An sds key is its contents; the object
  keys of sets and hashes are valid string objects (\<open>key_obj\<close>).
\<close>

section \<open>Hash and comparison functions\<close>

text \<open>The hash functions read exactly the length of the string, so they always return.\<close>

definition dictSdsHash :: "byte list \<Rightarrow> 32 word" where
  "dictSdsHash k = (case dictGenHashFunction k (length k) of Some h \<Rightarrow> h | None \<Rightarrow> 0)"

definition dictSdsCaseHash :: "byte list \<Rightarrow> 32 word" where
  "dictSdsCaseHash k = (case dictGenCaseHashFunction k (length k) of Some h \<Rightarrow> h | None \<Rightarrow> 0)"

definition dictSdsKeyCompare :: "byte list \<Rightarrow> byte list \<Rightarrow> bool" where
  "dictSdsKeyCompare k1 k2 = (if length k1 \<noteq> length k2 then False else memcmp k1 k2 = 0)"

text \<open>\<^verbatim>\<open>strcasecmp\<close> of the two blocks: it stops at the first NUL.\<close>

definition dictSdsKeyCaseCompare :: "byte list \<Rightarrow> byte list \<Rightarrow> bool" where
  "dictSdsKeyCaseCompare k1 k2 = strcaseeq (c_str k1) (c_str k2)"

text \<open>The sds of a raw object.\<close>

definition obj_sds :: "robj \<Rightarrow> byte list" where
  "obj_sds ob = (case o_ptr ob of PtrSds s \<Rightarrow> s | PtrLong _ \<Rightarrow> [])"

definition dictObjKeyCompare :: "robj \<Rightarrow> robj \<Rightarrow> bool" where
  "dictObjKeyCompare o1 o2 = dictSdsKeyCompare (obj_sds o1) (obj_sds o2)"

definition dictObjHash :: "robj \<Rightarrow> 32 word" where
  "dictObjHash ob = dictSdsHash (obj_sds ob)"

definition dictEncObjKeyCompare :: "robj \<Rightarrow> robj \<Rightarrow> bool option" where
  "dictEncObjKeyCompare o1 o2 =
     (case (o_ptr o1, o_ptr o2) of
        (PtrLong m, PtrLong n) \<Rightarrow> Some (m = n)
      | _ \<Rightarrow> do { d1 \<leftarrow> getDecodedObject 0 o1;
                 d2 \<leftarrow> getDecodedObject 0 o2;
                 Some (dictSdsKeyCompare (obj_sds d1) (obj_sds d2)) })"

definition dictEncObjHash :: "robj \<Rightarrow> 32 word option" where
  "dictEncObjHash ob =
     (case o_ptr ob of
        PtrSds s \<Rightarrow> dictGenHashFunction s (length s)
      | PtrLong n \<Rightarrow> do { buf \<leftarrow> ll2string 32 n; dictGenHashFunction buf (length buf) })"

section \<open>The types\<close>

typedef key_obj = "{ob :: robj. obj_ok ob}" morphisms obj_of_key key_of_obj
proof
  show "createStringObject 0 [] \<in> {ob. obj_ok ob}"
    by (simp add: createStringObject_def createObject_def obj_ok_def)
qed

definition key_hash :: "key_obj \<Rightarrow> 32 word" where
  "key_hash k = (case dictEncObjHash (obj_of_key k) of Some h \<Rightarrow> h | None \<Rightarrow> 0)"

definition key_compare :: "key_obj \<Rightarrow> key_obj \<Rightarrow> bool" where
  "key_compare k1 k2 = (dictEncObjKeyCompare (obj_of_key k1) (obj_of_key k2) = Some True)"

definition setDictType :: "(key_obj, 'v) dictType" where
  "setDictType = \<lparr>hashFunction = key_hash, keyDup = None, valDup = None,
     keyCompare = Some key_compare, keyDestructor = True, valDestructor = False\<rparr>"

definition zsetDictType :: "(key_obj, 'v) dictType" where
  "zsetDictType = \<lparr>hashFunction = key_hash, keyDup = None, valDup = None,
     keyCompare = Some key_compare, keyDestructor = True, valDestructor = False\<rparr>"

definition dbDictType :: "(byte list, 'v) dictType" where
  "dbDictType = \<lparr>hashFunction = dictSdsHash, keyDup = None, valDup = None,
     keyCompare = Some dictSdsKeyCompare, keyDestructor = True, valDestructor = True\<rparr>"

definition keyptrDictType :: "(byte list, 'v) dictType" where
  "keyptrDictType = \<lparr>hashFunction = dictSdsHash, keyDup = None, valDup = None,
     keyCompare = Some dictSdsKeyCompare, keyDestructor = False, valDestructor = False\<rparr>"

definition commandTableDictType :: "(byte list, 'v) dictType" where
  "commandTableDictType = \<lparr>hashFunction = dictSdsCaseHash, keyDup = None, valDup = None,
     keyCompare = Some dictSdsKeyCaseCompare, keyDestructor = True, valDestructor = False\<rparr>"

definition hashDictType :: "(key_obj, 'v) dictType" where
  "hashDictType = \<lparr>hashFunction = key_hash, keyDup = None, valDup = None,
     keyCompare = Some key_compare, keyDestructor = True, valDestructor = True\<rparr>"

definition keylistDictType :: "(robj, 'v) dictType" where
  "keylistDictType = \<lparr>hashFunction = dictObjHash, keyDup = None, valDup = None,
     keyCompare = Some dictObjKeyCompare, keyDestructor = True, valDestructor = True\<rparr>"

section \<open>Resizing policy\<close>

definition REDIS_HT_MINFILL :: int where "REDIS_HT_MINFILL = 10"

definition htNeedsResize :: "('k, 'v) dict \<Rightarrow> bool" where
  "htNeedsResize d =
     (let sz = int (dictSlots d); used = int (dictSize d)
      in sz \<noteq> 0 \<and> used \<noteq> 0 \<and> sz > int DICT_HT_INITIAL_SIZE \<and> used * 100 div sz < REDIS_HT_MINFILL)"

text \<open>The databases: for each the key space and the expires.\<close>

fun tryResizeHashTables ::
  "bool \<Rightarrow> (('k, 'v) dict \<times> ('k, 'w) dict) list \<Rightarrow> (('k, 'v) dict \<times> ('k, 'w) dict) list" where
  "tryResizeHashTables cr [] = []"
| "tryResizeHashTables cr ((d, e) # dbs) =
     (if htNeedsResize d then fst (dictResize cr d) else d,
      if htNeedsResize e then fst (dictResize cr e) else e) # tryResizeHashTables cr dbs"

text \<open>Only the first database that is rehashing gets its millisecond.\<close>

fun incrementallyRehash ::
  "('k, 'v) dictType \<Rightarrow> int list \<Rightarrow> ('k, 'v) dict list \<Rightarrow> ('k, 'v) dict list option" where
  "incrementallyRehash ty elapsed [] = Some []"
| "incrementallyRehash ty elapsed (d # dbs) =
     (if dictIsRehashing d then do { (d, _) \<leftarrow> dictRehashMilliseconds ty d elapsed 1; Some (d # dbs) }
      else map_option ((#) d) (incrementallyRehash ty elapsed dbs))"

definition updateDictResizePolicy :: "int \<Rightarrow> int \<Rightarrow> bool" where
  "updateDictResizePolicy bgsavechildpid bgrewritechildpid =
     (if bgsavechildpid = -1 \<and> bgrewritechildpid = -1 then dictEnableResize else dictDisableResize)"

section \<open>Laws\<close>

lemma memcmp_eq: "length xs = length ys \<Longrightarrow> memcmp xs ys = 0 \<longleftrightarrow> xs = ys"
  by (rule memcmp_0)

lemma dictSdsKeyCompare_eq: "dictSdsKeyCompare a b \<longleftrightarrow> a = b"
  by (auto simp: dictSdsKeyCompare_def memcmp_eq)

lemma db_law: "dict_law dbDictType (\<lambda>k. k)"
  unfolding dict_law_def
  by (simp add: dbDictType_def dictCompareHashKeys_def dictSetHashKey_def dictSdsKeyCompare_eq)

definition key_text :: "key_obj \<Rightarrow> byte list" where
  "key_text k = obj_bytes (obj_of_key k)"

lemma obj_of_key_ok: "obj_ok (obj_of_key k)"
  using obj_of_key by simp

lemma encObjKeyCompare_text:
  "obj_ok a \<Longrightarrow> obj_ok b \<Longrightarrow> dictEncObjKeyCompare a b = Some (obj_bytes a = obj_bytes b)"
  by (cases "o_ptr a"; cases "o_ptr b")
    (auto simp: dictEncObjKeyCompare_def getDecodedObject_def obj_ok_def obj_bytes_def ll2string_full
      createStringObject_def createObject_def incrRefCount_def dictSdsKeyCompare_eq obj_sds_def
      dec_repr_inject)

lemma encObjHash_text:
  "obj_ok a \<Longrightarrow> dictEncObjHash a = dictGenHashFunction (obj_bytes a) (length (obj_bytes a))"
  by (cases "o_ptr a") (auto simp: dictEncObjHash_def obj_ok_def obj_bytes_def ll2string_full)

lemma hash_law: "dict_law hashDictType key_text"
  unfolding dict_law_def
  using encObjKeyCompare_text [OF obj_of_key_ok obj_of_key_ok] encObjHash_text [OF obj_of_key_ok]
  by (simp add: hashDictType_def dictCompareHashKeys_def dictSetHashKey_def key_compare_def
      key_hash_def key_text_def)

lemma set_law: "dict_law setDictType key_text"
  unfolding dict_law_def
  using encObjKeyCompare_text [OF obj_of_key_ok obj_of_key_ok] encObjHash_text [OF obj_of_key_ok]
  by (simp add: setDictType_def dictCompareHashKeys_def dictSetHashKey_def key_compare_def
      key_hash_def key_text_def)

section \<open>The key space and hashes are maps\<close>

text \<open>\<open>dictDelete\<close> as a boolean: whether the key was there.\<close>

definition dict_remove ::
  "('k, 'v) dictType \<Rightarrow> ('k, 'v) dict \<Rightarrow> 'k \<Rightarrow> (('k, 'v) dict \<times> bool) option" where
  "dict_remove ty d k = map_option (\<lambda>(d, rc). (d, rc = DICT_OK)) (dictDelete ty d k)"

lemma dict_map_laws:
  assumes law: "dict_law ty cn" and dup: "valDup ty = None"
  shows "map_impl (dictFetchValue ty) (dictReplace ty cr) (dict_remove ty) dictCreate
    (dict_ok ty cn) (dict_map cn) cn (\<lambda>_ _. True) (\<lambda>_. True) dictSize (\<lambda>_ _. 1) (2 ^ 28)"
proof (standard, goal_cases)
  case 1
  then show ?case using dictCreate_ok [OF refl, of ty cn] by blast
next
  case 2
  then show ?case using dictCreate_ok [OF refl, of ty cn] by blast
next
  case (3 d k v)
  then have *: "dict_ok ty cn d" "dictSize d + 1 < 2 ^ 28" by simp_all
  have "dictSetHashVal ty v = v" using dup by (simp add: dictSetHashVal_def)
  with * dictReplace_ok [OF law *(1), of cr k v] obtain d' where
    d': "dictReplace ty cr d k v = Some (d', dict_map cn d (cn k) = None)" "dict_ok ty cn d'"
      "dict_map cn d' = (dict_map cn d)(cn k \<mapsto> v)" by auto
  moreover have "dictSize d' \<le> dictSize d + 1"
    using dictSize_card [OF d'(2)] dictSize_card [OF *(1)] card_dom_upd [of "dict_map cn d"] d'(3) by metis
  ultimately show ?case by blast
next
  case (4 d k)
  then show ?case
    using dictFind_ok [OF law, of d k] by (auto simp: dictFetchValue_def split: option.splits)
next
  case (5 d k)
  then show ?case
    using dictGenericDelete_ok [OF law, of d k False]
    by (auto simp: dict_remove_def dictDelete_def)
qed

interpretation db_dict: map_impl "dictFetchValue dbDictType" "dictReplace dbDictType True"
  "dict_remove dbDictType" dictCreate "dict_ok dbDictType (\<lambda>k. k)" "dict_map (\<lambda>k. k)" "\<lambda>k. k"
  "\<lambda>_ _. True" "\<lambda>_. True" dictSize "\<lambda>_ _. 1" "2 ^ 28"
  by (rule dict_map_laws [OF db_law]) (simp add: dbDictType_def)

interpretation hash_dict: map_impl "dictFetchValue hashDictType" "dictReplace hashDictType True"
  "dict_remove hashDictType" dictCreate "dict_ok hashDictType key_text" "dict_map key_text" key_text
  "\<lambda>_ _. True" "\<lambda>_. True" dictSize "\<lambda>_ _. 1" "2 ^ 28"
  by (rule dict_map_laws [OF hash_law]) (simp add: hashDictType_def)

text \<open>C37: A key space built by any sequence of \<open>dictReplace\<close> calls, rehashing as it grows,
  returns for a key the value of the last call with exactly that key.\<close>

theorem db_built_fetch:
  assumes "length kvs < 2 ^ 28"
  shows "\<exists>d d'. update_all (dictReplace dbDictType True) dictCreate kvs = Some d \<and>
    dictFetchValue dbDictType d k = Some (d', map_of (rev kvs) k)"
proof -
  have len: "db_dict.total_cost kvs = length kvs"
    unfolding db_dict.total_cost_def by (induction kvs) auto
  have id: "map (\<lambda>(k, v). (k, v)) kvs = kvs" by (induction kvs) auto
  show ?thesis
    using db_dict.built_lookup [of kvs k, unfolded len id] assms by auto
qed

lemma db_built_fetch_witness:
  "\<exists>d d'. update_all (dictReplace dbDictType True) dictCreate [([97], 1 :: nat), ([98], 2), ([97], 3)] = Some d \<and>
    dictFetchValue dbDictType d [97] = Some (d', Some 3)"
  using db_built_fetch [of "[([97], 1 :: nat), ([98], 2), ([97], 3)]" "[97]"] by simp

text \<open>C38: Hashes and sets identify keys by their text: an integer-encoded object and a raw
  object with the same decimal text compare equal and have the same hash, so either finds
  the other.\<close>

theorem encObj_keys_by_text:
  assumes "obj_ok a" and "obj_ok b"
  shows "dictEncObjKeyCompare a b = Some (obj_bytes a = obj_bytes b) \<and>
    (obj_bytes a = obj_bytes b \<longrightarrow> dictEncObjHash a = dictEncObjHash b)"
  using encObjKeyCompare_text [OF assms] encObjHash_text [OF assms(1)] encObjHash_text [OF assms(2)]
  by simp

lemma encObj_keys_by_text_witness:
  "dictEncObjKeyCompare (createObject 0 REDIS_STRING (PtrLong 7)) (createStringObject 0 (dec_repr 7)) = Some True"
  using encObj_keys_by_text [of "createObject 0 REDIS_STRING (PtrLong 7)" "createStringObject 0 (dec_repr 7)"]
  by (simp add: obj_ok_def createObject_def createStringObject_def obj_bytes_def c_limits)

lemma gen_hash_map: "gen_hash f h xs (length xs) = gen_hash (\<lambda>c. c) h (map f xs) (length xs)"
  by (induction xs arbitrary: h) auto

text \<open>The command table compares names only up to the first NUL byte but hashes them
  in full, so its comparison and its hash disagree on the names \<open>get\<close> and \<open>get\<close>, NUL,
  \<open>x\<close>; on names without NUL bytes they agree.\<close>

theorem commandTable_nul_mismatch:
  "dictSdsKeyCaseCompare [103, 101, 116] [103, 101, 116, 0, 120] \<and>
   dictSdsCaseHash [103, 101, 116] \<noteq> dictSdsCaseHash [103, 101, 116, 0, 120] \<and>
   (\<forall>a b. 0 \<notin> set a \<longrightarrow> 0 \<notin> set b \<longrightarrow>
      (dictSdsKeyCaseCompare a b \<longleftrightarrow> map tolower a = map tolower b) \<and>
      (dictSdsKeyCaseCompare a b \<longrightarrow> dictSdsCaseHash a = dictSdsCaseHash b))"
proof (intro conjI allI impI)
  show "dictSdsKeyCaseCompare [103, 101, 116] [103, 101, 116, 0, 120]"
    by (simp add: dictSdsKeyCaseCompare_def c_str_def strcaseeq_def)
  show "dictSdsCaseHash [103, 101, 116] \<noteq> dictSdsCaseHash [103, 101, 116, 0, 120]"
    by (simp add: dictSdsCaseHash_def dictGenCaseHashFunction_def tolower_def)
  fix a b :: "byte list"
  assume "0 \<notin> set a" "0 \<notin> set b"
  then show cmp: "dictSdsKeyCaseCompare a b \<longleftrightarrow> map tolower a = map tolower b"
    by (simp add: dictSdsKeyCaseCompare_def c_str_id strcaseeq_def)
  assume "dictSdsKeyCaseCompare a b"
  then have m: "map tolower a = map tolower b" using cmp by simp
  then have "length a = length b" by (metis length_map)
  then show "dictSdsCaseHash a = dictSdsCaseHash b"
    using m gen_hash_map [of tolower 5381 a] gen_hash_map [of tolower 5381 b]
    by (simp add: dictSdsCaseHash_def dictGenCaseHashFunction_def)
qed

end
