(* ===== verification/Ziplist.thy ===== *)
theory Ziplist
  imports Util Endian
begin

text \<open>
  Model of \<^verbatim>\<open>src/webserver/redis/src/ziplist.c\<close>: the doubly linked list of strings and
  integers in one block of memory. A ziplist is the byte list of its block, a pointer into it
  is an offset, and every read and write is checked against the block. The header fields are
  read and written in place as the macros do, in the byte order of a little-endian host; the
  two functions that store and load the integers take the byte order as a parameter.

  The theories \<open>ZiplistRep\<close> to \<open>ZiplistSpec\<close> give the block a meaning as a list of byte
  strings and show which operations of the list these functions are.

  The printer \<^verbatim>\<open>ziplistRepr\<close> and the self test are not modelled.
\<close>

section \<open>Constants and header fields\<close>

definition ZIP_END :: byte where "ZIP_END = 255"
definition ZIP_BIGLEN :: nat where "ZIP_BIGLEN = 254"

definition ZIP_STR_06B :: byte where "ZIP_STR_06B = push_bit 6 0"
definition ZIP_STR_14B :: byte where "ZIP_STR_14B = push_bit 6 1"
definition ZIP_STR_32B :: byte where "ZIP_STR_32B = push_bit 6 2"
definition ZIP_INT_16B :: byte where "ZIP_INT_16B = 0xc0 OR push_bit 4 0"
definition ZIP_INT_32B :: byte where "ZIP_INT_32B = 0xc0 OR push_bit 4 1"
definition ZIP_INT_64B :: byte where "ZIP_INT_64B = 0xc0 OR push_bit 4 2"

definition ZIP_IS_STR :: "byte \<Rightarrow> bool" where
  "ZIP_IS_STR enc \<longleftrightarrow> enc AND 0xc0 < 0xc0"

definition ZIP_IS_INT :: "byte \<Rightarrow> bool" where
  "ZIP_IS_INT enc \<longleftrightarrow> \<not> ZIP_IS_STR enc \<and> enc AND 0x30 < 0x30"

definition ZIPLIST_HEADER_SIZE :: nat where "ZIPLIST_HEADER_SIZE = 4 * 2 + 2"
definition UINT16_MAX :: nat where "UINT16_MAX = 65535"

text \<open>A field of the header as an unsigned integer, and the assignment to it, which truncates.\<close>

definition get_field :: "byte list \<Rightarrow> nat \<Rightarrow> nat \<Rightarrow> nat option" where
  "get_field zl off w = map_option (\<lambda>bs. nat (le_uint bs)) (mem_read zl off w)"

definition set_field :: "byte list \<Rightarrow> nat \<Rightarrow> nat \<Rightarrow> int \<Rightarrow> byte list option" where
  "set_field zl off w v = mem_write zl off (le_bytes w v)"

definition ZIPLIST_BYTES :: "byte list \<Rightarrow> nat option" where
  "ZIPLIST_BYTES zl = get_field zl 0 4"

definition ZIPLIST_TAIL_OFFSET :: "byte list \<Rightarrow> nat option" where
  "ZIPLIST_TAIL_OFFSET zl = get_field zl 4 4"

definition ZIPLIST_LENGTH :: "byte list \<Rightarrow> nat option" where
  "ZIPLIST_LENGTH zl = get_field zl 8 2"

definition set_ZIPLIST_BYTES :: "byte list \<Rightarrow> int \<Rightarrow> byte list option" where
  "set_ZIPLIST_BYTES zl v = set_field zl 0 4 v"

definition set_ZIPLIST_TAIL_OFFSET :: "byte list \<Rightarrow> int \<Rightarrow> byte list option" where
  "set_ZIPLIST_TAIL_OFFSET zl v = set_field zl 4 4 v"

definition set_ZIPLIST_LENGTH :: "byte list \<Rightarrow> int \<Rightarrow> byte list option" where
  "set_ZIPLIST_LENGTH zl v = set_field zl 8 2 v"

definition ZIPLIST_ENTRY_HEAD :: nat where
  "ZIPLIST_ENTRY_HEAD = ZIPLIST_HEADER_SIZE"

definition ZIPLIST_ENTRY_TAIL :: "byte list \<Rightarrow> nat option" where
  "ZIPLIST_ENTRY_TAIL zl = ZIPLIST_TAIL_OFFSET zl"

definition ZIPLIST_ENTRY_END :: "byte list \<Rightarrow> nat option" where
  "ZIPLIST_ENTRY_END zl = do { n \<leftarrow> ZIPLIST_BYTES zl; require (1 \<le> n); Some (n - 1) }"

definition ZIPLIST_INCR_LENGTH :: "byte list \<Rightarrow> int \<Rightarrow> byte list option" where
  "ZIPLIST_INCR_LENGTH zl incr =
     do { n \<leftarrow> ZIPLIST_LENGTH zl;
          if n < UINT16_MAX then set_ZIPLIST_LENGTH zl (int n + incr) else Some zl }"

text \<open>\<^verbatim>\<open>memmove\<close> with pointers and a size computed by signed arithmetic.\<close>

definition memmove :: "byte list \<Rightarrow> int \<Rightarrow> int \<Rightarrow> int \<Rightarrow> byte list option" where
  "memmove m dst src n =
     (if dst < 0 \<or> src < 0 \<or> n < 0 then None else mem_move m (nat dst) (nat src) (nat n))"

section \<open>Entry headers\<close>

record zlentry =
  ze_prevrawlensize :: nat
  ze_prevrawlen :: nat
  ze_lensize :: nat
  ze_len :: nat
  ze_headersize :: nat
  ze_encoding :: byte
  ze_p :: nat

definition zipEntryEncoding :: "byte list \<Rightarrow> nat \<Rightarrow> byte option" where
  "zipEntryEncoding zl p =
     do { c \<leftarrow> mem_byte zl p;
          let b = c AND 0xc0 in if b < 0xc0 then Some b else Some (c AND 0xf0) }"

definition zipIntSize :: "byte \<Rightarrow> nat option" where
  "zipIntSize enc =
     (if enc = ZIP_INT_16B then Some 2
      else if enc = ZIP_INT_32B then Some 4
      else if enc = ZIP_INT_64B then Some 8
      else None)"

text \<open>The result is the length and the size of its encoding.\<close>

definition zipDecodeLength :: "byte list \<Rightarrow> nat \<Rightarrow> (nat \<times> nat) option" where
  "zipDecodeLength zl p =
     do { enc \<leftarrow> zipEntryEncoding zl p;
          if ZIP_IS_STR enc then
            (if enc = ZIP_STR_06B then do {
               b0 \<leftarrow> mem_byte zl p;
               Some (unat (b0 AND 0x3f), 1) }
             else if enc = ZIP_STR_14B then do {
               b0 \<leftarrow> mem_byte zl p;
               b1 \<leftarrow> mem_byte zl (p + 1);
               Some (unat (push_bit 8 (ucast (b0 AND 0x3f) :: 32 word) OR ucast b1), 2) }
             else if enc = ZIP_STR_32B then do {
               b1 \<leftarrow> mem_byte zl (p + 1);
               b2 \<leftarrow> mem_byte zl (p + 2);
               b3 \<leftarrow> mem_byte zl (p + 3);
               b4 \<leftarrow> mem_byte zl (p + 4);
               Some (unat (push_bit 24 (ucast b1 :: 32 word) OR push_bit 16 (ucast b2)
                       OR push_bit 8 (ucast b3) OR ucast b4), 5) }
             else None)
          else do { n \<leftarrow> zipIntSize enc; Some (n, 1) } }"

text \<open>The bytes that \<^verbatim>\<open>zipEncodeLength\<close> stores; called with a null pointer it only returns
  their number.\<close>

definition zipEncodeLength :: "byte \<Rightarrow> nat \<Rightarrow> byte list" where
  "zipEncodeLength enc rawlen =
     (let r = word_of_nat rawlen :: 32 word in
      if ZIP_IS_STR enc then
        (if rawlen \<le> 0x3f then [ZIP_STR_06B OR ucast r]
         else if rawlen \<le> 0x3fff then
           [ZIP_STR_14B OR ucast (drop_bit 8 r AND 0x3f), ucast (r AND 0xff)]
         else
           [ZIP_STR_32B, ucast (drop_bit 24 r AND 0xff), ucast (drop_bit 16 r AND 0xff),
            ucast (drop_bit 8 r AND 0xff), ucast (r AND 0xff)])
      else [enc])"

definition zipPrevDecodeLength :: "byte list \<Rightarrow> nat \<Rightarrow> (nat \<times> nat) option" where
  "zipPrevDecodeLength zl p =
     do { b \<leftarrow> mem_byte zl p;
          if unat b < ZIP_BIGLEN then Some (unat b, 1)
          else do { n \<leftarrow> get_field zl (p + 1) 4; Some (n, 1 + 4) } }"

definition zipPrevEncodeLengthForceLarge :: "nat \<Rightarrow> byte list" where
  "zipPrevEncodeLengthForceLarge n = word_of_nat ZIP_BIGLEN # le_bytes 4 (int n)"

definition zipPrevEncodeLength :: "nat \<Rightarrow> byte list" where
  "zipPrevEncodeLength n =
     (if n < ZIP_BIGLEN then [word_of_nat n]
      else word_of_nat ZIP_BIGLEN # le_bytes 4 (int n))"

text \<open>The sizes returned for a null pointer.\<close>

definition zipPrevEncodeLength_size :: "nat \<Rightarrow> nat" where
  "zipPrevEncodeLength_size n = (if n < ZIP_BIGLEN then 1 else 4 + 1)"

definition zipEncodeLength_size :: "byte \<Rightarrow> nat \<Rightarrow> nat" where
  "zipEncodeLength_size enc rawlen =
     (if ZIP_IS_STR enc then
        (if rawlen \<le> 0x3f then 1 else if rawlen \<le> 0x3fff then 1 + 1 else 1 + 4)
      else 1)"

definition zipPrevLenByteDiff :: "byte list \<Rightarrow> nat \<Rightarrow> nat \<Rightarrow> int option" where
  "zipPrevLenByteDiff zl p n =
     do { (_, prevlensize) \<leftarrow> zipPrevDecodeLength zl p;
          Some (int (zipPrevEncodeLength_size n) - int prevlensize) }"

definition zipTryEncoding :: "byte list \<Rightarrow> (int \<times> byte) option" where
  "zipTryEncoding s =
     (if length s \<ge> 32 \<or> length s = 0 then None
      else case string2ll s of
        None \<Rightarrow> None
      | Some value \<Rightarrow>
          Some (value,
            if value \<ge> INT16_MIN \<and> value \<le> INT16_MAX then ZIP_INT_16B
            else if value \<ge> INT32_MIN \<and> value \<le> INT32_MAX then ZIP_INT_32B
            else ZIP_INT_64B))"

text \<open>The bytes that \<^verbatim>\<open>zipSaveInteger\<close> leaves at \<open>p\<close>: the integer in the byte order of the
  host (\<open>be\<close> says whether it is big-endian), reversed in place by the macro.\<close>

definition zipSaveInteger :: "bool \<Rightarrow> byte list \<Rightarrow> nat \<Rightarrow> int \<Rightarrow> byte \<Rightarrow> byte list option" where
  "zipSaveInteger be zl p value enc =
     (if enc = ZIP_INT_16B then do {
        zl \<leftarrow> mem_write zl p (host_bytes be 2 value); memrev16ifbe be zl p }
      else if enc = ZIP_INT_32B then do {
        zl \<leftarrow> mem_write zl p (host_bytes be 4 value); memrev32ifbe be zl p }
      else if enc = ZIP_INT_64B then do {
        zl \<leftarrow> mem_write zl p (host_bytes be 8 value); memrev64ifbe be zl p }
      else None)"

text \<open>\<^verbatim>\<open>zipLoadInteger\<close> applies the 16-bit macro to the integers of every width.\<close>

definition zipLoadInteger :: "bool \<Rightarrow> byte list \<Rightarrow> nat \<Rightarrow> byte \<Rightarrow> int option" where
  "zipLoadInteger be zl p enc =
     (if enc = ZIP_INT_16B then do {
        i \<leftarrow> mem_read zl p 2; i \<leftarrow> memrev16ifbe be i 0; Some (host_sint be i) }
      else if enc = ZIP_INT_32B then do {
        i \<leftarrow> mem_read zl p 4; i \<leftarrow> memrev16ifbe be i 0; Some (host_sint be i) }
      else if enc = ZIP_INT_64B then do {
        i \<leftarrow> mem_read zl p 8; i \<leftarrow> memrev16ifbe be i 0; Some (host_sint be i) }
      else None)"

definition zipEntry :: "byte list \<Rightarrow> nat \<Rightarrow> zlentry option" where
  "zipEntry zl p =
     do { (prl, prlsize) \<leftarrow> zipPrevDecodeLength zl p;
          (n, nsize) \<leftarrow> zipDecodeLength zl (p + prlsize);
          enc \<leftarrow> zipEntryEncoding zl (p + prlsize);
          Some \<lparr>ze_prevrawlensize = prlsize, ze_prevrawlen = prl, ze_lensize = nsize, ze_len = n,
            ze_headersize = prlsize + nsize, ze_encoding = enc, ze_p = p\<rparr> }"

text \<open>Sums of \<^verbatim>\<open>unsigned int\<close>s wrap around.\<close>

definition ze_rawlen :: "zlentry \<Rightarrow> nat" where
  "ze_rawlen e = (ze_headersize e + ze_len e) mod 2 ^ 32"

definition zipRawEntryLength :: "byte list \<Rightarrow> nat \<Rightarrow> nat option" where
  "zipRawEntryLength zl p = map_option ze_rawlen (zipEntry zl p)"

section \<open>Operations on the block\<close>

definition ziplistNew :: "byte list option" where
  "ziplistNew =
     (let bytes = ZIPLIST_HEADER_SIZE + 1 in do {
        zl \<leftarrow> set_ZIPLIST_BYTES (zmalloc bytes) (int bytes);
        zl \<leftarrow> set_ZIPLIST_TAIL_OFFSET zl (int ZIPLIST_HEADER_SIZE);
        zl \<leftarrow> set_ZIPLIST_LENGTH zl 0;
        mem_write zl (bytes - 1) [ZIP_END] })"

text \<open>The new size is an \<^verbatim>\<open>unsigned int\<close>.\<close>

definition ziplistResize :: "byte list \<Rightarrow> int \<Rightarrow> byte list option" where
  "ziplistResize zl n =
     (let n = nat (to_u32 n) in do {
        zl \<leftarrow> set_ZIPLIST_BYTES (zrealloc zl n) (int n);
        require (1 \<le> n);
        mem_write zl (n - 1) [ZIP_END] })"

text \<open>
  The loop of \<^verbatim>\<open>__ziplistCascadeUpdate\<close> with the state \<^verbatim>\<open>(zl, p, curlen)\<close>. A run that
  does not end has the result \<open>None\<close>.
\<close>

partial_function (option) cascade_loop :: "byte list \<Rightarrow> nat \<Rightarrow> nat \<Rightarrow> byte list option" where
  "cascade_loop zl p curlen =
     do { c \<leftarrow> mem_byte zl p;
          if c = ZIP_END then Some zl else do {
            cur \<leftarrow> zipEntry zl p;
            rl \<leftarrow> Some (ze_rawlen cur);
            rlsize \<leftarrow> Some (zipPrevEncodeLength_size rl);
            c \<leftarrow> mem_byte zl (p + rl);
            if c = ZIP_END then Some zl else do {
              nxt \<leftarrow> zipEntry zl (p + rl);
              if ze_prevrawlen nxt = rl then Some zl
              else if ze_prevrawlensize nxt < rlsize then do {
                extra \<leftarrow> Some (rlsize - ze_prevrawlensize nxt);
                zl \<leftarrow> ziplistResize zl (int curlen + int extra);
                np \<leftarrow> Some (p + rl);
                tail \<leftarrow> ZIPLIST_TAIL_OFFSET zl;
                zl \<leftarrow> (if tail \<noteq> np then set_ZIPLIST_TAIL_OFFSET zl (int tail + int extra) else Some zl);
                zl \<leftarrow> memmove zl (int np + int rlsize) (int np + int (ze_prevrawlensize nxt))
                       (int curlen - int np - int (ze_prevrawlensize nxt) - 1);
                zl \<leftarrow> mem_write zl np (zipPrevEncodeLength rl);
                cascade_loop zl np (curlen + extra) }
              else if ze_prevrawlensize nxt > rlsize then
                mem_write zl (p + rl) (zipPrevEncodeLengthForceLarge rl)
              else mem_write zl (p + rl) (zipPrevEncodeLength rl) } } }"

declare cascade_loop.simps [code]

definition u_ziplistCascadeUpdate :: "byte list \<Rightarrow> nat \<Rightarrow> byte list option" where
  "u_ziplistCascadeUpdate zl p = do { curlen \<leftarrow> ZIPLIST_BYTES zl; cascade_loop zl p curlen }"

text \<open>The loop of \<^verbatim>\<open>__ziplistDelete\<close> that skips up to \<open>num\<close> entries, counting them.\<close>

fun skip_entries :: "byte list \<Rightarrow> nat \<Rightarrow> nat \<Rightarrow> (nat \<times> nat) option" where
  "skip_entries zl p 0 = Some (p, 0)"
| "skip_entries zl p (Suc num) =
     do { c \<leftarrow> mem_byte zl p;
          if c = ZIP_END then Some (p, 0)
          else do {
            n \<leftarrow> zipRawEntryLength zl p;
            (q, deleted) \<leftarrow> skip_entries zl (p + n) num;
            Some (q, deleted + 1) } }"

definition u_ziplistDelete :: "byte list \<Rightarrow> nat \<Rightarrow> nat \<Rightarrow> byte list option" where
  "u_ziplistDelete zl p num =
     do { first \<leftarrow> zipEntry zl p;
          (p, deleted) \<leftarrow> skip_entries zl p num;
          totlen \<leftarrow> Some ((p - ze_p first) mod 2 ^ 32);
          if totlen > 0 then do {
            c \<leftarrow> mem_byte zl p;
            (zl, nextdiff) \<leftarrow>
              (if c \<noteq> ZIP_END then do {
                 nextdiff \<leftarrow> zipPrevLenByteDiff zl p (ze_prevrawlen first);
                 require (0 \<le> int p - nextdiff);
                 zl \<leftarrow> mem_write zl (nat (int p - nextdiff)) (zipPrevEncodeLength (ze_prevrawlen first));
                 t \<leftarrow> ZIPLIST_TAIL_OFFSET zl;
                 zl \<leftarrow> set_ZIPLIST_TAIL_OFFSET zl (int t - int totlen);
                 tail \<leftarrow> zipEntry zl p;
                 c \<leftarrow> mem_byte zl (p + ze_rawlen tail);
                 zl \<leftarrow> (if c \<noteq> ZIP_END then do {
                          t \<leftarrow> ZIPLIST_TAIL_OFFSET zl;
                          set_ZIPLIST_TAIL_OFFSET zl (int t + nextdiff) }
                        else Some zl);
                 bytes \<leftarrow> ZIPLIST_BYTES zl;
                 zl \<leftarrow> memmove zl (int (ze_p first)) (int p - nextdiff)
                        (int bytes - int p - 1 + nextdiff);
                 Some (zl, nextdiff) }
               else do {
                 zl \<leftarrow> set_ZIPLIST_TAIL_OFFSET zl (int (ze_p first) - int (ze_prevrawlen first));
                 Some (zl, 0) });
            bytes \<leftarrow> ZIPLIST_BYTES zl;
            zl \<leftarrow> ziplistResize zl (int bytes - int totlen + nextdiff);
            zl \<leftarrow> ZIPLIST_INCR_LENGTH zl (- int deleted);
            if nextdiff \<noteq> 0 then u_ziplistCascadeUpdate zl (ze_p first) else Some zl }
          else Some zl }"

text \<open>What \<^verbatim>\<open>__ziplistInsert\<close> learns from \<^verbatim>\<open>zipTryEncoding\<close>: the integer, the encoding and the size of
  the payload. The variable \<^verbatim>\<open>encoding\<close> stays 0 when the string is not an integer.\<close>

definition ins_value :: "byte list \<Rightarrow> (int \<times> byte \<times> nat) option" where
  "ins_value s =
     (case zipTryEncoding s of
        Some (value, enc) \<Rightarrow> map_option (\<lambda>n. (value, enc, n)) (zipIntSize enc)
      | None \<Rightarrow> Some (123456789, 0, length s))"

definition u_ziplistInsert :: "byte list \<Rightarrow> nat \<Rightarrow> byte list \<Rightarrow> byte list option" where
  "u_ziplistInsert zl p s =
     do { curlen \<leftarrow> ZIPLIST_BYTES zl;
          c \<leftarrow> mem_byte zl p;
          prevlen \<leftarrow>
            (if c \<noteq> ZIP_END then map_option ze_prevrawlen (zipEntry zl p)
             else do {
               ptail \<leftarrow> ZIPLIST_ENTRY_TAIL zl;
               c \<leftarrow> mem_byte zl ptail;
               if c \<noteq> ZIP_END then zipRawEntryLength zl ptail else Some 0 });
          (value, enc, reqlen) \<leftarrow> ins_value s;
          reqlen \<leftarrow> Some (reqlen + zipPrevEncodeLength_size prevlen + zipEncodeLength_size enc (length s));
          nextdiff \<leftarrow> (if c \<noteq> ZIP_END then zipPrevLenByteDiff zl p (reqlen mod 2 ^ 32) else Some 0);
          zl \<leftarrow> ziplistResize zl (int curlen + int reqlen + nextdiff);
          c \<leftarrow> mem_byte zl p;
          zl \<leftarrow>
            (if c \<noteq> ZIP_END then do {
               zl \<leftarrow> memmove zl (int p + int reqlen) (int p - nextdiff)
                      (int curlen - int p - 1 + nextdiff);
               zl \<leftarrow> mem_write zl (p + reqlen) (zipPrevEncodeLength (reqlen mod 2 ^ 32));
               t \<leftarrow> ZIPLIST_TAIL_OFFSET zl;
               zl \<leftarrow> set_ZIPLIST_TAIL_OFFSET zl (int t + int reqlen);
               tail \<leftarrow> zipEntry zl (p + reqlen);
               c \<leftarrow> mem_byte zl (p + reqlen + ze_headersize tail + ze_len tail);
               if c \<noteq> ZIP_END then do {
                 t \<leftarrow> ZIPLIST_TAIL_OFFSET zl;
                 set_ZIPLIST_TAIL_OFFSET zl (int t + nextdiff) }
               else Some zl }
             else set_ZIPLIST_TAIL_OFFSET zl (int p));
          zl \<leftarrow> (if nextdiff \<noteq> 0 then u_ziplistCascadeUpdate zl (p + reqlen) else Some zl);
          zl \<leftarrow> mem_write zl p (zipPrevEncodeLength prevlen);
          p \<leftarrow> Some (p + zipPrevEncodeLength_size prevlen);
          zl \<leftarrow> mem_write zl p (zipEncodeLength enc (length s));
          p \<leftarrow> Some (p + zipEncodeLength_size enc (length s));
          zl \<leftarrow> (if ZIP_IS_STR enc then mem_write zl p s else zipSaveInteger False zl p value enc);
          ZIPLIST_INCR_LENGTH zl 1 }"

section \<open>The interface\<close>

definition ziplistPush :: "byte list \<Rightarrow> byte list \<Rightarrow> bool \<Rightarrow> byte list option" where
  "ziplistPush zl s to_head =
     do { p \<leftarrow> (if to_head then Some ZIPLIST_ENTRY_HEAD else ZIPLIST_ENTRY_END zl);
          u_ziplistInsert zl p s }"

text \<open>The two loops of \<^verbatim>\<open>ziplistIndex\<close>: the pointer where the loop stops and the index that
  is left, -1 when the loop stopped because the index ran out.\<close>

fun index_backward :: "byte list \<Rightarrow> nat \<Rightarrow> nat \<Rightarrow> zlentry \<Rightarrow> (nat \<times> int) option" where
  "index_backward zl 0 p e = Some (p, if ze_prevrawlen e > 0 then -1 else 0)"
| "index_backward zl (Suc index) p e =
     (if ze_prevrawlen e > 0 then do {
        require (ze_prevrawlen e \<le> p);
        p \<leftarrow> Some (p - ze_prevrawlen e);
        e \<leftarrow> zipEntry zl p;
        index_backward zl index p e }
      else Some (p, int (Suc index)))"

fun index_forward :: "byte list \<Rightarrow> nat \<Rightarrow> nat \<Rightarrow> (nat \<times> int) option" where
  "index_forward zl index p =
     do { c \<leftarrow> mem_byte zl p;
          if c = ZIP_END then Some (p, int index)
          else (case index of
              0 \<Rightarrow> Some (p, -1)
            | Suc index \<Rightarrow> do { n \<leftarrow> zipRawEntryLength zl p; index_forward zl index (p + n) }) }"

definition ziplistIndex :: "byte list \<Rightarrow> int \<Rightarrow> nat option option" where
  "ziplistIndex zl index =
     do { (p, index) \<leftarrow>
            (if index < 0 then do {
               require (index > INT32_MIN);
               index \<leftarrow> Some (nat ((- index) - 1));
               p \<leftarrow> ZIPLIST_ENTRY_TAIL zl;
               c \<leftarrow> mem_byte zl p;
               if c \<noteq> ZIP_END then do { e \<leftarrow> zipEntry zl p; index_backward zl index p e }
               else Some (p, int index) }
             else index_forward zl (nat index) ZIPLIST_ENTRY_HEAD);
          c \<leftarrow> mem_byte zl p;
          Some (if c = ZIP_END \<or> index > 0 then None else Some p) }"

definition ziplistNext :: "byte list \<Rightarrow> nat \<Rightarrow> nat option option" where
  "ziplistNext zl p =
     do { c \<leftarrow> mem_byte zl p;
          if c = ZIP_END then Some None
          else do {
            n \<leftarrow> zipRawEntryLength zl p;
            p \<leftarrow> Some (p + n);
            c \<leftarrow> mem_byte zl p;
            Some (if c = ZIP_END then None else Some p) } }"

definition ziplistPrev :: "byte list \<Rightarrow> nat \<Rightarrow> nat option option" where
  "ziplistPrev zl p =
     do { c \<leftarrow> mem_byte zl p;
          if c = ZIP_END then do {
            p \<leftarrow> ZIPLIST_ENTRY_TAIL zl;
            c \<leftarrow> mem_byte zl p;
            Some (if c = ZIP_END then None else Some p) }
          else if p = ZIPLIST_ENTRY_HEAD then Some None
          else do {
            entry \<leftarrow> zipEntry zl p;
            require (ze_prevrawlen entry > 0 \<and> ze_prevrawlen entry \<le> p);
            Some (Some (p - ze_prevrawlen entry)) } }"

text \<open>What \<^verbatim>\<open>ziplistGet\<close> stores through its pointers: a string or an integer.\<close>

datatype zval = ZStr "byte list" | ZInt int

definition ziplistGet :: "byte list \<Rightarrow> nat option \<Rightarrow> zval option option" where
  "ziplistGet zl p =
     (case p of
        None \<Rightarrow> Some None
      | Some p \<Rightarrow> do {
          c \<leftarrow> mem_byte zl p;
          if c = ZIP_END then Some None
          else do {
            entry \<leftarrow> zipEntry zl p;
            if ZIP_IS_STR (ze_encoding entry)
            then map_option (\<lambda>s. Some (ZStr s)) (mem_read zl (p + ze_headersize entry) (ze_len entry))
            else map_option (\<lambda>v. Some (ZInt v))
                   (zipLoadInteger False zl (p + ze_headersize entry) (ze_encoding entry)) } })"

definition ziplistInsert :: "byte list \<Rightarrow> nat \<Rightarrow> byte list \<Rightarrow> byte list option" where
  "ziplistInsert zl p s = u_ziplistInsert zl p s"

text \<open>The pointer \<^verbatim>\<open>*p\<close> keeps its offset.\<close>

definition ziplistDelete :: "byte list \<Rightarrow> nat \<Rightarrow> (byte list \<times> nat) option" where
  "ziplistDelete zl p = map_option (\<lambda>zl. (zl, p)) (u_ziplistDelete zl p 1)"

text \<open>The unsigned index is passed as an \<^verbatim>\<open>int\<close>.\<close>

definition ziplistDeleteRange :: "byte list \<Rightarrow> int \<Rightarrow> nat \<Rightarrow> byte list option" where
  "ziplistDeleteRange zl index num =
     do { p \<leftarrow> ziplistIndex zl (to_s32 index);
          case p of None \<Rightarrow> Some zl | Some p \<Rightarrow> u_ziplistDelete zl p num }"

definition ziplistCompare :: "byte list \<Rightarrow> nat \<Rightarrow> byte list \<Rightarrow> bool option" where
  "ziplistCompare zl p s =
     do { c \<leftarrow> mem_byte zl p;
          if c = ZIP_END then Some False
          else do {
            entry \<leftarrow> zipEntry zl p;
            if ZIP_IS_STR (ze_encoding entry) then
              (if ze_len entry = length s
               then map_option (\<lambda>t. t = s) (mem_read zl (p + ze_headersize entry) (length s))
               else Some False)
            else (case zipTryEncoding s of
                None \<Rightarrow> Some False
              | Some (sval, sencoding) \<Rightarrow>
                  if ze_encoding entry = sencoding
                  then map_option (\<lambda>zval. zval = sval)
                         (zipLoadInteger False zl (p + ze_headersize entry) (ze_encoding entry))
                  else Some False) } }"

partial_function (option) len_loop :: "byte list \<Rightarrow> nat \<Rightarrow> nat \<Rightarrow> nat option" where
  "len_loop zl p n =
     do { c \<leftarrow> mem_byte zl p;
          if c = ZIP_END then Some n
          else do { r \<leftarrow> zipRawEntryLength zl p; len_loop zl (p + r) (n + 1) } }"

declare len_loop.simps [code]

text \<open>\<^verbatim>\<open>ziplistLen\<close> may write the recomputed length back.\<close>

definition ziplistLen :: "byte list \<Rightarrow> (byte list \<times> nat) option" where
  "ziplistLen zl =
     do { n \<leftarrow> ZIPLIST_LENGTH zl;
          if n < UINT16_MAX then Some (zl, n)
          else do {
            n \<leftarrow> len_loop zl ZIPLIST_HEADER_SIZE 0;
            zl \<leftarrow> (if n < UINT16_MAX then set_ZIPLIST_LENGTH zl (int n) else Some zl);
            Some (zl, n) } }"

definition ziplistBlobLen :: "byte list \<Rightarrow> nat option" where
  "ziplistBlobLen zl = ZIPLIST_BYTES zl"


end
