(* ===== verification/ZiplistRep.thy ===== *)
theory ZiplistRep
  imports Ziplist
begin

text \<open>
  The meaning of a ziplist block. An entry is a pair of a flag (its length field takes five
  bytes) and a value; \<open>ebytes\<close> is its encoding and \<open>eb\<close> that of a chain of entries, each
  recording the size of the one before. The lemmas show that the code's parser reads back
  these encodings, what its header macros and memory moves do to a block, and that
  \<^verbatim>\<open>__ziplistCascadeUpdate\<close> repairs a chain whose first link is stale.
\<close>

section \<open>Entries as values\<close>

text \<open>The payload of an entry, the encoding and the bytes of its length field.\<close>

definition zint_enc :: "int \<Rightarrow> byte" where
  "zint_enc v =
     (if v \<ge> INT16_MIN \<and> v \<le> INT16_MAX then ZIP_INT_16B
      else if v \<ge> INT32_MIN \<and> v \<le> INT32_MAX then ZIP_INT_32B
      else ZIP_INT_64B)"

definition zint_width :: "int \<Rightarrow> nat" where
  "zint_width v =
     (if v \<ge> INT16_MIN \<and> v \<le> INT16_MAX then 2
      else if v \<ge> INT32_MIN \<and> v \<le> INT32_MAX then 4 else 8)"

fun payload :: "zval \<Rightarrow> byte list" where
  "payload (ZStr s) = s"
| "payload (ZInt v) = le_bytes (zint_width v) v"

fun zhead :: "zval \<Rightarrow> byte list" where
  "zhead (ZStr s) = zipEncodeLength 0 (length s)"
| "zhead (ZInt v) = [zint_enc v]"

text \<open>The length of the previous entry, in the small or the large form.\<close>

definition prev_field :: "nat \<Rightarrow> bool \<Rightarrow> byte list" where
  "prev_field pl big = (if big then zipPrevEncodeLengthForceLarge pl else [word_of_nat pl])"

fun ebytes :: "nat \<Rightarrow> bool \<times> zval \<Rightarrow> byte list" where
  "ebytes pl (big, c) = prev_field pl big @ zhead c @ payload c"

fun esize :: "bool \<times> zval \<Rightarrow> nat" where
  "esize (big, c) = (if big then 5 else 1) + length (zhead c) + length (payload c)"

lemma le_uint_lt: "nat (le_uint bs) < 256 ^ length bs"
  using le_uint_less [of bs] by (metis le_uint_nonneg nat_less_iff of_nat_numeral of_nat_power)

lemma length_prev_field: "length (prev_field pl big) = (if big then 5 else 1)"
  by (simp add: prev_field_def zipPrevEncodeLengthForceLarge_def)

lemma length_ebytes [simp]: "length (ebytes pl e) = esize e"
  by (cases e) (simp add: length_prev_field)

lemma length_zipEncodeLength: "length (zipEncodeLength enc n) = zipEncodeLength_size enc n"
  by (simp add: zipEncodeLength_def zipEncodeLength_size_def Let_def)

lemma zipPrevEncodeLength_field: "zipPrevEncodeLength n = prev_field n (\<not> n < ZIP_BIGLEN)"
  by (simp add: zipPrevEncodeLength_def prev_field_def zipPrevEncodeLengthForceLarge_def)

lemma zipPrevEncodeLength_size_field: "zipPrevEncodeLength_size n = (if n < ZIP_BIGLEN then 1 else 5)"
  by (simp add: zipPrevEncodeLength_size_def)

lemma get_field_append:
  "length pre = off \<Longrightarrow> length bs = w \<Longrightarrow> get_field (pre @ bs @ post) off w = Some (nat (le_uint bs))"
  by (simp add: get_field_def mem_read_append)

lemma zipPrevDecodeLength_field:
  assumes "length pre = p" and "\<not> big \<Longrightarrow> pl < ZIP_BIGLEN" and "pl < 2 ^ 32"
  shows "zipPrevDecodeLength (pre @ prev_field pl big @ post) p = Some (pl, if big then 5 else 1)"
proof (cases big)
  case True
  have "get_field ((pre @ [254]) @ le_bytes 4 (int pl) @ post) (p + 1) 4 = Some (nat (le_uint (le_bytes 4 (int pl))))"
    using assms(1) by (intro get_field_append) (simp_all del: le_bytes_numeral)
  moreover have "nat (le_uint (le_bytes 4 (int pl))) = pl"
    using assms(3) by (subst le_uint_le_bytes_id) simp_all
  ultimately show ?thesis
    using True assms(1) by (simp add: zipPrevDecodeLength_def prev_field_def ZIP_BIGLEN_def
      zipPrevEncodeLengthForceLarge_def mem_byte_append del: le_bytes_numeral)
next
  case False
  then show ?thesis
    using assms by (simp add: zipPrevDecodeLength_def prev_field_def ZIP_BIGLEN_def mem_byte_append
      unat_of_nat)
qed

lemmas zip_encs = ZIP_STR_06B_def ZIP_STR_14B_def ZIP_STR_32B_def ZIP_INT_16B_def ZIP_INT_32B_def
  ZIP_INT_64B_def

lemma byte_eqI:
  fixes a b :: byte
  assumes "bit a 0 = bit b 0" "bit a 1 = bit b 1" "bit a 2 = bit b 2" "bit a 3 = bit b 3"
    "bit a 4 = bit b 4" "bit a 5 = bit b 5" "bit a 6 = bit b 6" "bit a 7 = bit b 7"
  shows "a = b"
proof (rule bit_word_eqI)
  fix n assume "n < LENGTH(8)"
  then have "n = 0 \<or> n = 1 \<or> n = 2 \<or> n = 3 \<or> n = 4 \<or> n = 5 \<or> n = 6 \<or> n = 7" by auto
  then show "bit a n = bit b n" using assms by auto
qed

lemma len_06B:
  assumes "n \<le> 0x3f" and "b = ZIP_STR_06B OR (ucast (word_of_nat n :: 32 word) :: byte)"
  shows "b AND 0xc0 = 0" "unat (b AND 0x3f) = n"
proof -
  have b: "b = word_of_nat n" using assms by (simp add: zip_encs unsigned_of_nat take_bit_nat_eq_self)
  have lt: "b < 2 ^ 6" using assms(1) unfolding b by (simp add: word_less_nat_alt unat_of_nat)
  have hi: "\<not> bit b i" if "6 \<le> i" for i using lt that
    by (metis bit_take_bit_iff leD less_mask_eq take_bit_eq_mask)
  show "b AND 0xc0 = 0" by (rule byte_eqI) (simp_all add: bit_simps hi)
  have "b AND 0x3f = b" by (rule byte_eqI) (simp_all add: bit_simps hi)
  then show "unat (b AND 0x3f) = n" using assms(1) by (simp add: b unat_of_nat)
qed


lemma ucast_byte_eq: "ucast (r AND 0xff :: 32 word) = (ucast r :: byte)"
  by (rule bit_word_eqI) (auto simp: bit_simps less_Suc_eq numeral_eq_Suc)

lemma len_14B:
  assumes "n \<le> 0x3fff" and r: "r = (word_of_nat n :: 32 word)"
    and b0: "b0 = ZIP_STR_14B OR (ucast (drop_bit 8 r AND 0x3f) :: byte)" and b1: "b1 = (ucast r :: byte)"
  shows "b0 AND 0xc0 = ZIP_STR_14B"
    "unat (push_bit 8 (ucast (b0 AND 0x3f) :: 32 word) OR ucast b1) = n"
proof -
  have lt: "r < 2 ^ 14" using assms(1) unfolding r by (simp add: word_less_nat_alt unat_of_nat)
  have hi: "\<not> bit r i" if "14 \<le> i" for i using lt that
    by (metis bit_take_bit_iff leD less_mask_eq take_bit_eq_mask)
  show "b0 AND 0xc0 = ZIP_STR_14B" unfolding b0 zip_encs
    by (rule byte_eqI) (simp_all add: bit_simps)
  have "b0 AND 0x3f = ucast (drop_bit 8 r)" unfolding b0 zip_encs
    by (rule byte_eqI) (simp_all add: bit_simps hi)
  moreover have "push_bit 8 (ucast (ucast (drop_bit 8 r) :: byte) :: 32 word) OR ucast b1 = r"
    unfolding b1
  proof (rule bit_word_eqI)
    fix i assume "i < LENGTH(32)"
    show "bit (push_bit 8 (ucast (ucast (drop_bit 8 r) :: byte) :: 32 word) OR ucast (ucast r :: byte)) i = bit r i"
      using hi [of i] \<open>i < LENGTH(32)\<close> by (cases "i < 8"; cases "i < 14") (auto simp: bit_simps)
  qed
  ultimately show "unat (push_bit 8 (ucast (b0 AND 0x3f) :: 32 word) OR ucast b1) = n"
    using assms(1) by (simp add: r unat_of_nat)
qed

lemma bytes_32:
  fixes r :: "32 word"
  shows "push_bit 24 (ucast (ucast (drop_bit 24 r) :: byte) :: 32 word) OR
      push_bit 16 (ucast (ucast (drop_bit 16 r) :: byte)) OR
      push_bit 8 (ucast (ucast (drop_bit 8 r) :: byte)) OR ucast (ucast r :: byte) = r"
proof (rule bit_word_eqI)
  fix i assume "i < LENGTH(32)"
  then consider "i < 8" | "8 \<le> i" "i < 16" | "16 \<le> i" "i < 24" | "24 \<le> i" "i < 32" by fastforce
  then show "bit (push_bit 24 (ucast (ucast (drop_bit 24 r) :: byte) :: 32 word) OR
      push_bit 16 (ucast (ucast (drop_bit 16 r) :: byte)) OR
      push_bit 8 (ucast (ucast (drop_bit 8 r) :: byte)) OR ucast (ucast r :: byte)) i = bit r i"
    by cases (auto simp: bit_simps)
qed

lemma is_str [simp]:
  "ZIP_IS_STR 0" "ZIP_IS_STR ZIP_STR_06B" "ZIP_IS_STR ZIP_STR_14B" "ZIP_IS_STR ZIP_STR_32B"
  "\<not> ZIP_IS_STR ZIP_INT_16B" "\<not> ZIP_IS_STR ZIP_INT_32B" "\<not> ZIP_IS_STR ZIP_INT_64B"
  by (simp_all add: ZIP_IS_STR_def zip_encs)

lemma enc_neq [simp]:
  "ZIP_STR_06B \<noteq> ZIP_STR_14B" "ZIP_STR_06B \<noteq> ZIP_STR_32B" "ZIP_STR_14B \<noteq> ZIP_STR_32B"
  "ZIP_STR_14B \<noteq> ZIP_STR_06B" "ZIP_STR_32B \<noteq> ZIP_STR_06B" "ZIP_STR_32B \<noteq> ZIP_STR_14B"
  "ZIP_INT_16B \<noteq> ZIP_INT_32B" "ZIP_INT_16B \<noteq> ZIP_INT_64B" "ZIP_INT_32B \<noteq> ZIP_INT_64B"
  "ZIP_INT_32B \<noteq> ZIP_INT_16B" "ZIP_INT_64B \<noteq> ZIP_INT_16B" "ZIP_INT_64B \<noteq> ZIP_INT_32B"
  by (simp_all add: zip_encs)

lemma not_str_zint_enc [simp]: "\<not> ZIP_IS_STR (zint_enc v)"
  by (simp add: zint_enc_def)

lemma zipIntSize_zint_enc [simp]: "zipIntSize (zint_enc v) = Some (zint_width v)"
  by (simp add: zint_enc_def zint_width_def zipIntSize_def)

text \<open>What the header of an entry says.\<close>

fun zenc :: "zval \<Rightarrow> byte" where
  "zenc (ZStr s) =
     (if length s \<le> 0x3f then ZIP_STR_06B else if length s \<le> 0x3fff then ZIP_STR_14B else ZIP_STR_32B)"
| "zenc (ZInt v) = zint_enc v"

lemma zipEntryEncoding_int:
  "length pre = p \<Longrightarrow> zipEntryEncoding (pre @ zint_enc v # post) p = Some (zint_enc v)"
  by (auto simp: zipEntryEncoding_def mem_byte_append zint_enc_def zip_encs)

lemma zhead_decode:
  assumes "length pre = p" and "length (payload c) < 2 ^ 32"
  shows "zipEntryEncoding (pre @ zhead c @ post) p = Some (zenc c) \<and>
    zipDecodeLength (pre @ zhead c @ post) p = Some (length (payload c), length (zhead c))"
proof (cases c)
  case (ZInt v)
  then show ?thesis
    using zipEntryEncoding_int [OF assms(1), of v post] by (simp add: zipDecodeLength_def)
next
  case (ZStr s)
  define n where "n = length s"
  define r where "r = (word_of_nat n :: 32 word)"
  have pl: "length (payload c) = n" using ZStr by (simp add: n_def)
  consider "n \<le> 0x3f" | "\<not> n \<le> 0x3f" "n \<le> 0x3fff" | "\<not> n \<le> 0x3f" "\<not> n \<le> 0x3fff" by blast
  then show ?thesis
  proof cases
    case 1
    define b where "b = ZIP_STR_06B OR (ucast r :: byte)"
    have h: "zhead c = [b]" using ZStr 1 by (simp add: zipEncodeLength_def b_def r_def n_def)
    note * = len_06B [OF 1 b_def [unfolded r_def]]
    have e: "zipEntryEncoding (pre @ [b] @ post) p = Some ZIP_STR_06B"
      using assms(1) * by (simp add: zipEntryEncoding_def mem_byte_append) (simp add: zip_encs)
    have "zipDecodeLength (pre @ [b] @ post) p = Some (n, 1)"
      unfolding zipDecodeLength_def e using assms(1) * by (simp add: mem_byte_append)
    then show ?thesis using e 1 ZStr unfolding h pl by (simp add: n_def)
  next
    case 2
    define b0 where "b0 = ZIP_STR_14B OR (ucast (drop_bit 8 r AND 0x3f) :: byte)"
    define b1 where "b1 = (ucast r :: byte)"
    have h: "zhead c = [b0, b1]"
      using ZStr 2 by (simp add: zipEncodeLength_def Let_def b0_def b1_def r_def n_def ucast_byte_eq)
    note * = len_14B [OF 2(2) r_def b0_def b1_def]
    have e: "zipEntryEncoding (pre @ [b0, b1] @ post) p = Some ZIP_STR_14B"
      using assms(1) * by (simp add: zipEntryEncoding_def mem_byte_append) (simp add: zip_encs)
    have "zipDecodeLength (pre @ [b0, b1] @ post) p = Some (n, 2)"
      unfolding zipDecodeLength_def e using assms(1) * by (auto simp: mem_byte_append)
    then show ?thesis using e 2 ZStr unfolding h pl by (simp add: n_def)
  next
    case 3
    let ?bs = "[ZIP_STR_32B, ucast (drop_bit 24 r), ucast (drop_bit 16 r), ucast (drop_bit 8 r), ucast r :: byte]"
    have h: "zhead c = ?bs"
      using ZStr 3 by (simp add: zipEncodeLength_def Let_def r_def n_def ucast_byte_eq)
    have e: "zipEntryEncoding (pre @ ?bs @ post) p = Some ZIP_STR_32B"
      using assms(1) by (simp add: zipEntryEncoding_def mem_byte_append) (simp add: zip_encs)
    have u: "unat r = n" using assms(2) pl by (simp add: r_def unat_of_nat)
    have m: "mem_byte (pre @ ?bs @ post) (p + 1) = Some (ucast (drop_bit 24 r))"
      "mem_byte (pre @ ?bs @ post) (p + 2) = Some (ucast (drop_bit 16 r))"
      "mem_byte (pre @ ?bs @ post) (p + 3) = Some (ucast (drop_bit 8 r))"
      "mem_byte (pre @ ?bs @ post) (p + 4) = Some (ucast r)"
      using assms(1) by auto
    have "zipDecodeLength (pre @ ?bs @ post) p = Some (n, 5)"
      unfolding zipDecodeLength_def e using bytes_32 [of r] u by (simp only: Option.bind.simps m is_str enc_neq) simp
    then show ?thesis using e 3 ZStr unfolding h pl by (simp add: n_def)
  qed
qed


section \<open>The block as a list of entries\<close>

fun eb :: "nat \<Rightarrow> (bool \<times> zval) list \<Rightarrow> byte list" where
  "eb pl [] = []"
| "eb pl (e # es) = ebytes pl e @ eb (esize e) es"

definition sizes :: "(bool \<times> zval) list \<Rightarrow> nat" where
  "sizes es = sum_list (map esize es)"

text \<open>A value in the form the code gives it, and the text it stands for.\<close>

definition zval_of :: "byte list \<Rightarrow> zval" where
  "zval_of s = (case zipTryEncoding s of Some (v, _) \<Rightarrow> ZInt v | None \<Rightarrow> ZStr s)"

fun zval_ok :: "zval \<Rightarrow> bool" where
  "zval_ok (ZStr s) \<longleftrightarrow> zipTryEncoding s = None"
| "zval_ok (ZInt v) \<longleftrightarrow> LLONG_MIN \<le> v \<and> v \<le> LLONG_MAX"

fun ztext :: "zval \<Rightarrow> byte list" where
  "ztext (ZStr s) = s"
| "ztext (ZInt v) = dec_repr v"

fun ents_ok :: "nat \<Rightarrow> (bool \<times> zval) list \<Rightarrow> bool" where
  "ents_ok pl [] \<longleftrightarrow> True"
| "ents_ok pl (e # es) \<longleftrightarrow> (\<not> fst e \<longrightarrow> pl < ZIP_BIGLEN) \<and> zval_ok (snd e) \<and> ents_ok (esize e) es"

text \<open>The size of the last of some entries, which the next entry records.\<close>

definition last_size :: "nat \<Rightarrow> (bool \<times> zval) list \<Rightarrow> nat" where
  "last_size pl es = (if es = [] then pl else esize (last es))"

definition zl_hdr :: "nat \<Rightarrow> nat \<Rightarrow> nat \<Rightarrow> byte list" where
  "zl_hdr b t n = le_bytes 4 (int b) @ le_bytes 4 (int t) @ le_bytes 2 (int n)"

definition zl_rep :: "byte list \<Rightarrow> (bool \<times> zval) list \<Rightarrow> bool" where
  "zl_rep zl es \<longleftrightarrow> ents_ok 0 es \<and> (es \<noteq> [] \<longrightarrow> \<not> fst (hd es)) \<and> length zl < 2 ^ 32 \<and>
     (\<exists>n. (n = UINT16_MAX \<or> n = length es) \<and> n \<le> UINT16_MAX \<and>
       zl = zl_hdr (length zl) (10 + sizes (butlast es)) n @ eb 0 es @ [ZIP_END])"

lemma sizes_simps [simp]:
  "sizes [] = 0" "sizes (e # es) = esize e + sizes es" "sizes (xs @ ys) = sizes xs + sizes ys"
  by (simp_all add: sizes_def)

lemma length_eb [simp]: "length (eb pl es) = sizes es"
  by (induction es arbitrary: pl) auto

lemma last_size_simps [simp]:
  "last_size pl [] = pl" "last_size pl (e # es) = last_size (esize e) es"
  "last_size pl (xs @ [e]) = esize e"
  by (auto simp: last_size_def)

lemma eb_append: "eb pl (xs @ ys) = eb pl xs @ eb (last_size pl xs) ys"
  by (induction xs arbitrary: pl) auto

lemma ents_ok_append: "ents_ok pl (xs @ ys) \<longleftrightarrow> ents_ok pl xs \<and> ents_ok (last_size pl xs) ys"
  by (induction xs arbitrary: pl) auto

lemma zhead_nonempty: "1 \<le> length (zhead c)"
  by (cases c) (simp_all add: length_zipEncodeLength zipEncodeLength_size_def)

lemma esize_ge: "2 \<le> esize e"
  using zhead_nonempty [of "snd e"] by (cases e) auto

lemma esize_pos [simp]: "0 < esize e"
  using esize_ge [of e] by linarith

lemma sizes_ge: "2 * length es \<le> sizes es"
proof (induction es)
  case (Cons e es)
  then show ?case using esize_ge [of e] by (simp del: esize.simps)
qed simp

lemma sizes_0 [simp]: "sizes es = 0 \<longleftrightarrow> es = []"
  by (cases es) auto

lemma sizes_butlast: "es \<noteq> [] \<Longrightarrow> sizes (butlast es) = sizes es - esize (last es)"
  using append_butlast_last_id [of es] sizes_simps(3) [of "butlast es" "[last es]"] by simp

lemma length_zl_hdr [simp]: "length (zl_hdr b t n) = 10"
  by (simp add: zl_hdr_def del: le_bytes_numeral)

lemma esize_parts:
  "esize e = length (prev_field pl (fst e)) + length (zhead (snd e)) + length (payload (snd e))"
  by (cases e) (simp add: length_prev_field)

text \<open>The first byte of an entry is not the end mark.\<close>

lemma ebytes_hd:
  assumes "\<not> fst e \<Longrightarrow> pl < ZIP_BIGLEN"
  shows "\<exists>c cs. ebytes pl e = c # cs \<and> c \<noteq> ZIP_END"
proof (cases "fst e")
  case True
  then show ?thesis
    by (cases e) (auto simp: prev_field_def zipPrevEncodeLengthForceLarge_def ZIP_END_def ZIP_BIGLEN_def)
next
  case False
  with assms have lt: "pl < 254" by (simp add: ZIP_BIGLEN_def)
  have "(word_of_nat pl :: byte) \<noteq> 255"
  proof
    assume "(word_of_nat pl :: byte) = 255"
    then have "unat (word_of_nat pl :: byte) = unat (255 :: byte)" by simp
    then show False using lt by (simp add: unat_of_nat)
  qed
  with False show ?thesis
    by (cases e) (auto simp: prev_field_def ZIP_END_def)
qed

lemma mem_byte_ebytes:
  assumes "length pre = p" and "\<not> fst e \<Longrightarrow> pl < ZIP_BIGLEN"
  obtains c where "mem_byte (pre @ ebytes pl e @ post) p = Some c" "c \<noteq> ZIP_END"
proof -
  obtain c cs where "ebytes pl e = c # cs" "c \<noteq> ZIP_END" using ebytes_hd [OF assms(2)] by blast
  then show thesis using assms(1) that by (simp add: mem_byte_append)
qed

text \<open>Parsing an entry whose first field says that it is small or large.\<close>

lemma zipEntry_any:
  assumes "length pre = p" and "zipPrevDecodeLength (pre @ w @ zhead c @ payload c @ post) p = Some (pl, length w)"
    and "length (payload c) < 2 ^ 32"
  shows "\<exists>e. zipEntry (pre @ w @ zhead c @ payload c @ post) p = Some e \<and> ze_prevrawlen e = pl \<and>
    ze_prevrawlensize e = length w \<and> ze_headersize e = length w + length (zhead c) \<and>
    ze_len e = length (payload c) \<and> ze_encoding e = zenc c \<and> ze_p e = p"
proof -
  have "zipEntryEncoding ((pre @ w) @ zhead c @ (payload c @ post)) (p + length w) = Some (zenc c)"
    "zipDecodeLength ((pre @ w) @ zhead c @ (payload c @ post)) (p + length w) =
       Some (length (payload c), length (zhead c))"
    using zhead_decode [of "pre @ w" "p + length w" c "payload c @ post"] assms(1,3) by simp_all
  then show ?thesis
    using assms(2) by (simp add: zipEntry_def)
qed

lemma zipEntry_ebytes:
  assumes "length pre = p" and "\<not> fst e \<Longrightarrow> pl < ZIP_BIGLEN" and "pl < 2 ^ 32"
    and "esize e < 2 ^ 32"
  shows "\<exists>en. zipEntry (pre @ ebytes pl e @ post) p = Some en \<and> ze_prevrawlen en = pl \<and>
    ze_prevrawlensize en = (if fst e then 5 else 1) \<and> ze_headersize en = (if fst e then 5 else 1) + length (zhead (snd e)) \<and>
    ze_len en = length (payload (snd e)) \<and> ze_encoding en = zenc (snd e) \<and> ze_p en = p \<and> ze_rawlen en = esize e"
proof -
  obtain big c where e: "e = (big, c)" by (cases e)
  have "zipPrevDecodeLength (pre @ prev_field pl big @ (zhead c @ payload c @ post)) p = Some (pl, length (prev_field pl big))"
    using zipPrevDecodeLength_field [OF assms(1) _ assms(3), of big] assms(2) by (simp add: e length_prev_field)
  from zipEntry_any [OF assms(1) this] show ?thesis
    using assms(4) by (auto simp: e length_prev_field ze_rawlen_def)
qed

section \<open>Header access and memory moves\<close>

lemma ZIPLIST_fields:
  "b < 2 ^ 32 \<Longrightarrow> ZIPLIST_BYTES (zl_hdr b t n @ xs) = Some b"
  "t < 2 ^ 32 \<Longrightarrow> ZIPLIST_TAIL_OFFSET (zl_hdr b t n @ xs) = Some t"
  "n < 2 ^ 16 \<Longrightarrow> ZIPLIST_LENGTH (zl_hdr b t n @ xs) = Some n"
proof -
  show "ZIPLIST_BYTES (zl_hdr b t n @ xs) = Some b" if "b < 2 ^ 32"
    using get_field_append [of "[]" 0 "le_bytes 4 (int b)" 4 "le_bytes 4 (int t) @ le_bytes 2 (int n) @ xs"] that
    by (simp add: ZIPLIST_BYTES_def zl_hdr_def le_uint_le_bytes_id del: le_bytes_numeral)
  show "ZIPLIST_TAIL_OFFSET (zl_hdr b t n @ xs) = Some t" if "t < 2 ^ 32"
    using get_field_append [of "le_bytes 4 (int b)" 4 "le_bytes 4 (int t)" 4 "le_bytes 2 (int n) @ xs"] that
    by (simp add: ZIPLIST_TAIL_OFFSET_def zl_hdr_def le_uint_le_bytes_id del: le_bytes_numeral)
  show "ZIPLIST_LENGTH (zl_hdr b t n @ xs) = Some n" if "n < 2 ^ 16"
    using get_field_append [of "le_bytes 4 (int b) @ le_bytes 4 (int t)" 8 "le_bytes 2 (int n)" 2 xs] that
    by (simp add: ZIPLIST_LENGTH_def zl_hdr_def le_uint_le_bytes_id del: le_bytes_numeral)
qed

lemma set_ZIPLIST_fields:
  "v = int b' \<Longrightarrow> set_ZIPLIST_BYTES (zl_hdr b t n @ xs) v = Some (zl_hdr b' t n @ xs)"
  "v = int t' \<Longrightarrow> set_ZIPLIST_TAIL_OFFSET (zl_hdr b t n @ xs) v = Some (zl_hdr b t' n @ xs)"
  "v = int n' \<Longrightarrow> set_ZIPLIST_LENGTH (zl_hdr b t n @ xs) v = Some (zl_hdr b t n' @ xs)"
  using mem_write_append [of "[]" 0 "le_bytes 4 v" "le_bytes 4 (int b)" "le_bytes 4 (int t) @ le_bytes 2 (int n) @ xs"]
    mem_write_append [of "le_bytes 4 (int b)" 4 "le_bytes 4 v" "le_bytes 4 (int t)" "le_bytes 2 (int n) @ xs"]
    mem_write_append [of "le_bytes 4 (int b) @ le_bytes 4 (int t)" 8 "le_bytes 2 v" "le_bytes 2 (int n)" xs]
  by (auto simp: set_ZIPLIST_BYTES_def set_ZIPLIST_TAIL_OFFSET_def set_ZIPLIST_LENGTH_def set_field_def
      zl_hdr_def simp del: le_bytes_numeral)

text \<open>Resizing keeps what fits and puts the end mark in the last byte.\<close>

lemma ziplistResize_hdr:
  assumes "v = int b'" and "10 < b'" and "b' < 2 ^ 32"
  shows "ziplistResize (zl_hdr b t n @ xs) v =
    Some (zl_hdr b' t n @ take (b' - 11) (zrealloc xs (b' - 10)) @ [ZIP_END])"
proof -
  have r: "zrealloc (zl_hdr b t n @ xs) b' = zl_hdr b t n @ zrealloc xs (b' - 10)"
    using assms(2) by (simp add: zrealloc_def)
  have "to_u32 v = int b'" using assms by simp
  moreover have "mem_write (zl_hdr b' t n @ zrealloc xs (b' - 10)) (b' - 1) [ZIP_END] =
      Some (zl_hdr b' t n @ take (b' - 11) (zrealloc xs (b' - 10)) @ [ZIP_END])"
    using assms(2) by (simp add: mem_write_def)
  ultimately show ?thesis
    using assms(2) by (simp add: ziplistResize_def r set_ZIPLIST_fields)
qed

lemma mem_write_twice:
  assumes "off + length xs + length ys \<le> length m"
  shows "Option.bind (mem_write m (off + length xs) ys) (\<lambda>m. mem_write m off xs) = mem_write m off (xs @ ys)"
  using assms by (auto simp: mem_write_def min_def add.assoc)


lemma memmove_int: "memmove m (int dst) (int src) (int k) = mem_move m dst src k"
  by (simp add: memmove_def)

lemma move_and_write:
  assumes "length H = np" and "mem_read (H @ Y) src k = Some Q" and "length F + k \<le> length Y"
    and "dst = np + length F"
  shows "Option.bind (memmove (H @ Y) (int dst) (int src) (int k)) (\<lambda>m. mem_write m np F) =
    Some (H @ F @ Q @ drop (length F + k) Y)"
proof -
  have k: "length Q = k" using assms(2) by (auto simp: mem_read_def split: if_splits)
  have "mem_write (H @ Y) np (F @ Q) = Some (H @ F @ Q @ drop (length F + k) Y)"
    using assms k by (simp add: mem_write_def)
  then show ?thesis
    using mem_write_twice [of np F Q "H @ Y"] assms k
    by (simp only: memmove_int mem_move_def assms(2,4) Option.bind.simps length_append)
qed

text \<open>The growth of a one-byte field to five bytes, with everything behind it.\<close>

lemma ziplistResize_grow:
  assumes "b = 10 + length xs + 1" and "b + k < 2 ^ 32" and "0 < k"
  shows "\<exists>zs. length zs = k - 1 \<and> ziplistResize (zl_hdr b t n @ xs @ [ZIP_END]) (int b + int k) =
    Some (zl_hdr (b + k) t n @ xs @ [ZIP_END] @ zs @ [ZIP_END])"
proof -
  have "take (b + k - 11) (zrealloc (xs @ [ZIP_END]) (b + k - 10)) = (xs @ [ZIP_END]) @ replicate (k - 1) uninit"
    using assms by (cases k) (simp_all add: zrealloc_def replicate_append_same [symmetric])
  then show ?thesis
    using ziplistResize_hdr [of "int b + int k" "b + k" b t n "xs @ [ZIP_END]"] assms by auto
qed

lemma grow_field:
  assumes "length w = 1" and "length F = 5" and "b = 10 + length P + length w + length Q + 1"
    and "b + 4 < 2 ^ 32" and "np = 10 + length P" and "t < 2 ^ 32" and "t + 4 < 2 ^ 32"
  shows "do { zl \<leftarrow> ziplistResize (zl_hdr b t n @ P @ w @ Q @ [ZIP_END]) (int b + int 4);
              tail \<leftarrow> ZIPLIST_TAIL_OFFSET zl;
              zl \<leftarrow> (if tail \<noteq> np then set_ZIPLIST_TAIL_OFFSET zl (int tail + int 4) else Some zl);
              zl \<leftarrow> memmove zl (int np + int 5) (int np + int 1) (int b - int np - int 1 - 1);
              zl \<leftarrow> mem_write zl np F;
              f zl } =
         f (zl_hdr (b + 4) (if t \<noteq> np then t + 4 else t) n @ P @ F @ Q @ [ZIP_END])"
proof -
  obtain zs where zs: "length zs = 3"
    "ziplistResize (zl_hdr b t n @ (P @ w @ Q) @ [ZIP_END]) (int b + int 4) =
       Some (zl_hdr (b + 4) t n @ (P @ w @ Q) @ [ZIP_END] @ zs @ [ZIP_END])"
    using ziplistResize_grow [of b "P @ w @ Q" 4 t n] assms by auto
  let ?t = "if t \<noteq> np then t + 4 else t"
  let ?H = "zl_hdr (b + 4) ?t n @ P" and ?Y = "w @ Q @ [ZIP_END] @ zs @ [ZIP_END]"
  have "mem_read (?H @ ?Y) (np + 1) (length Q) = Some Q"
    using mem_read_append [of "?H @ w" "np + 1" Q "length Q" "[ZIP_END] @ zs @ [ZIP_END]"] assms by simp
  then have "Option.bind (memmove (?H @ ?Y) (int (np + 5)) (int (np + 1)) (int (length Q))) (\<lambda>m. mem_write m np F) =
    Some (?H @ F @ Q @ drop (length F + length Q) ?Y)"
    using assms zs by (intro move_and_write) auto
  moreover have "drop (length F + length Q) ?Y = [ZIP_END]"
    using assms zs by simp
  moreover have "int b - int np - int 1 - 1 = int (length Q)" "int np + int 5 = int (np + 5)"
    "int np + int 1 = int (np + 1)" using assms by simp_all
  ultimately have mv: "Option.bind (memmove (?H @ ?Y) (int np + int 5) (int np + int 1) (int b - int np - int 1 - 1))
      (\<lambda>m. Option.bind (mem_write m np F) f) = f (?H @ F @ Q @ [ZIP_END])"
    by (simp only: bind_assoc [symmetric]) (simp add: bind_assoc)
  have tl: "(if t \<noteq> np then set_ZIPLIST_TAIL_OFFSET (zl_hdr (b + 4) t n @ xs) (int t + int 4)
      else Some (zl_hdr (b + 4) t n @ xs)) = Some (zl_hdr (b + 4) ?t n @ xs)" for xs
    by (simp add: set_ZIPLIST_fields)
  show ?thesis
    using mv by (simp only: zs(2) [unfolded append_assoc] Option.bind.simps ZIPLIST_fields(2) [OF assms(6)] tl append_assoc)
qed


section \<open>The cascade\<close>

lemma mem_byte_END: "length pre = p \<Longrightarrow> mem_byte (pre @ [ZIP_END]) p = Some ZIP_END"
  by (simp add: mem_byte_def nth_append)

lemma butlast_sizes_Cons: "es \<noteq> [] \<Longrightarrow> sizes (butlast (e # es)) = esize e + sizes (butlast es)"
  by simp

lemma map_snd_Nil: "map snd es = map snd es' \<Longrightarrow> es = [] \<longleftrightarrow> es' = []"
  by (metis map_is_Nil_conv)

text \<open>Every entry records the size of the one before it, but the entry after \<open>e\<close> may still
  record the size \<open>pl'\<close> that \<open>e\<close> had; the cascade repairs the chain and changes no value.\<close>

lemma cascade_ok:
  assumes "ents_ok pl' es" and "\<not> fst e \<Longrightarrow> pl < ZIP_BIGLEN" and "pl < 2 ^ 32" and "pl' < 2 ^ 32"
    and "b = 10 + length A + esize e + sizes es + 1" and "b + 4 * length es < 2 ^ 32"
    and "t = 10 + length A + sizes (butlast (e # es))"
  shows "\<exists>es'. cascade_loop (zl_hdr b t n @ A @ ebytes pl e @ eb pl' es @ [ZIP_END]) (10 + length A) b =
      Some (zl_hdr (b + (sizes es' - sizes es)) (10 + length A + sizes (butlast (e # es'))) n @
        A @ ebytes pl e @ eb (esize e) es' @ [ZIP_END]) \<and>
    map snd es' = map snd es \<and> ents_ok (esize e) es' \<and>
    sizes es \<le> sizes es' \<and> sizes es' \<le> sizes es + 4 * length es \<and>
    (es \<noteq> [] \<and> fst (hd es) \<or> esize e < ZIP_BIGLEN \<longrightarrow> es' = es)"
  using assms
proof (induction es arbitrary: A e pl pl' b t)
  case Nil
  let ?zl = "zl_hdr b t n @ A @ ebytes pl e @ [ZIP_END]"
  have s: "esize e < 2 ^ 32" using Nil by simp
  obtain c where c: "mem_byte ?zl (10 + length A) = Some c" "c \<noteq> ZIP_END"
    using mem_byte_ebytes [of "zl_hdr b t n @ A" "10 + length A" e pl "[ZIP_END]"] Nil(2) by auto
  obtain en where en: "zipEntry ?zl (10 + length A) = Some en" "ze_rawlen en = esize e"
    using zipEntry_ebytes [of "zl_hdr b t n @ A" "10 + length A" e pl "[ZIP_END]"] Nil(2,3) s by auto
  have "mem_byte ?zl (10 + length A + esize e) = Some ZIP_END"
    using mem_byte_END [of "zl_hdr b t n @ A @ ebytes pl e"] by (simp add: add.assoc)
  then have "cascade_loop ?zl (10 + length A) b = Some ?zl"
    using c en by (subst cascade_loop.simps) simp
  then show ?case using Nil by (intro exI [of _ "[]"]) simp
next
  case (Cons e2 rest)
  obtain b2 c2 where e2: "e2 = (b2, c2)" by (cases e2)
  let ?p = "10 + length A" and ?np = "10 + length A + esize e"
  let ?Q = "zhead c2 @ payload c2 @ eb (esize e2) rest"
  let ?P = "A @ ebytes pl e" and ?w = "prev_field pl' b2"
  let ?zl = "zl_hdr b t n @ A @ ebytes pl e @ eb pl' (e2 # rest) @ [ZIP_END]"
  have zl: "?zl = zl_hdr b t n @ ?P @ ?w @ ?Q @ [ZIP_END]" by (simp add: e2)
  have s: "esize e < 2 ^ 32" "esize e2 < 2 ^ 32" "b < 2 ^ 32" "b + 4 < 2 ^ 32" using Cons.prems(5,6) by simp_all
  have tb: "t < b" using Cons.prems(5,7) esize_ge [of e2]
    by (cases "rest = []") (simp_all add: sizes_butlast)
  have ok2: "\<not> b2 \<Longrightarrow> pl' < ZIP_BIGLEN" "ents_ok (esize e2) rest" "zval_ok c2"
    using Cons.prems(1) by (auto simp: e2)
  obtain c where c: "mem_byte ?zl ?p = Some c" "c \<noteq> ZIP_END"
    using mem_byte_ebytes [of "zl_hdr b t n @ A" ?p e pl "eb pl' (e2 # rest) @ [ZIP_END]"]
      Cons.prems(2) by auto
  obtain en where en: "zipEntry ?zl ?p = Some en" "ze_rawlen en = esize e"
    using zipEntry_ebytes [of "zl_hdr b t n @ A" ?p e pl "eb pl' (e2 # rest) @ [ZIP_END]"]
      Cons.prems(2,3) s(1) by auto
  obtain c' where c': "mem_byte ?zl ?np = Some c'" "c' \<noteq> ZIP_END"
    using mem_byte_ebytes [of "zl_hdr b t n @ ?P" ?np e2 pl' "eb (esize e2) rest @ [ZIP_END]"] ok2(1)
    by (auto simp: e2)
  obtain nx where nx: "zipEntry ?zl ?np = Some nx" "ze_prevrawlen nx = pl'"
      "ze_prevrawlensize nx = (if b2 then 5 else 1)"
    using zipEntry_ebytes [of "zl_hdr b t n @ ?P" ?np e2 pl' "eb (esize e2) rest @ [ZIP_END]"] ok2(1)
      Cons.prems(4) s(2) by (auto simp: e2)
  have run: "cascade_loop ?zl ?p b =
      (if pl' = esize e then Some ?zl
       else if (if b2 then 5 else 1) < zipPrevEncodeLength_size (esize e) then do {
         zl \<leftarrow> ziplistResize ?zl (int b + int (zipPrevEncodeLength_size (esize e) - (if b2 then 5 else 1)));
         tail \<leftarrow> ZIPLIST_TAIL_OFFSET zl;
         zl \<leftarrow> (if tail \<noteq> ?np then set_ZIPLIST_TAIL_OFFSET zl
                 (int tail + int (zipPrevEncodeLength_size (esize e) - (if b2 then 5 else 1))) else Some zl);
         zl \<leftarrow> memmove zl (int ?np + int (zipPrevEncodeLength_size (esize e))) (int ?np + int (if b2 then 5 else 1))
                (int b - int ?np - int (if b2 then 5 else 1) - 1);
         zl \<leftarrow> mem_write zl ?np (zipPrevEncodeLength (esize e));
         cascade_loop zl ?np (b + (zipPrevEncodeLength_size (esize e) - (if b2 then 5 else 1))) }
       else if (if b2 then 5 else 1) > zipPrevEncodeLength_size (esize e)
         then mem_write ?zl ?np (zipPrevEncodeLengthForceLarge (esize e))
       else mem_write ?zl ?np (zipPrevEncodeLength (esize e)))"
    using c c' by (subst cascade_loop.simps) (simp only: en nx Option.bind.simps if_False)
  have stop: ?case if "cascade_loop ?zl ?p b = Some (zl_hdr b t n @ A @ ebytes pl e @ eb (esize e) (e2 # rest) @ [ZIP_END])"
    "\<not> b2 \<Longrightarrow> esize e < ZIP_BIGLEN"
    using that ok2 Cons.prems(7)
    by (intro exI [of _ "e2 # rest"]) (simp add: e2 del: esize.simps ebytes.simps butlast.simps)
  have put: "mem_write ?zl ?np (prev_field (esize e) b2) =
      Some (zl_hdr b t n @ A @ ebytes pl e @ eb (esize e) (e2 # rest) @ [ZIP_END])"
    using mem_write_append [of "zl_hdr b t n @ ?P" ?np "prev_field (esize e) b2" ?w "?Q @ [ZIP_END]"]
    by (simp add: zl e2 length_prev_field)
  consider "pl' = esize e" | "pl' \<noteq> esize e" "\<not> b2" "\<not> esize e < ZIP_BIGLEN"
    | "pl' \<noteq> esize e" "b2 \<or> esize e < ZIP_BIGLEN" by blast
  then show ?case
  proof cases
    case 1
    then show ?thesis using run ok2(1) by (intro stop) auto
  next
    case 3
    then have "cascade_loop ?zl ?p b = mem_write ?zl ?np (prev_field (esize e) b2)"
      unfolding run by (auto simp: zipPrevEncodeLength_size_field zipPrevEncodeLength_field prev_field_def)
    then show ?thesis using put 3 by (intro stop) auto
  next
    case 2
    let ?e2 = "(True, c2)"
    have grow: "cascade_loop ?zl ?p b =
      cascade_loop (zl_hdr (b + 4) (if t \<noteq> ?np then t + 4 else t) n @ ?P @ prev_field (esize e) True @ ?Q @ [ZIP_END]) ?np (b + 4)"
    proof -
      have sz: "zipPrevEncodeLength_size (esize e) = 5" "zipPrevEncodeLength (esize e) = prev_field (esize e) True"
        using 2 by (simp_all add: zipPrevEncodeLength_size_field zipPrevEncodeLength_field)
      have nb: "(if b2 then 5 else 1 :: nat) = 1" and d: "(1 :: nat) < 5 \<longleftrightarrow> True" "(5 :: nat) - 1 = 4"
        using 2 by simp_all
      have l: "length ?w = 1" "length (prev_field (esize e) True) = 5" "?np = 10 + length ?P"
        "b = 10 + length ?P + length ?w + length ?Q + 1" "t < 2 ^ 32" "t + 4 < 2 ^ 32"
        using 2 Cons.prems(5) tb s by (simp_all add: e2 length_prev_field)
      note g = grow_field [OF l(1,2,4) s(4) l(3,5,6), of n "\<lambda>zl. cascade_loop zl ?np (b + 4)"]
      show ?thesis
        using 2(1) by (subst run) (simp only: sz nb d zl if_False if_True g)
    qed
    have t2: "(if t \<noteq> ?np then t + 4 else t) = 10 + length ?P + sizes (butlast (?e2 # rest))"
      using Cons.prems(7) 2 by (auto simp: e2)
    have ih: "\<exists>es'. cascade_loop (zl_hdr (b + 4) (if t \<noteq> ?np then t + 4 else t) n @ ?P @ ebytes (esize e) ?e2 @
          eb (esize e2) rest @ [ZIP_END]) (10 + length ?P) (b + 4) =
        Some (zl_hdr (b + 4 + (sizes es' - sizes rest)) (10 + length ?P + sizes (butlast (?e2 # es'))) n @
          ?P @ ebytes (esize e) ?e2 @ eb (esize ?e2) es' @ [ZIP_END]) \<and>
      map snd es' = map snd rest \<and> ents_ok (esize ?e2) es' \<and>
      sizes rest \<le> sizes es' \<and> sizes es' \<le> sizes rest + 4 * length rest \<and>
      (rest \<noteq> [] \<and> fst (hd rest) \<or> esize ?e2 < ZIP_BIGLEN \<longrightarrow> es' = rest)"
      using Cons.prems(5,6) 2 s by (intro Cons.IH [OF ok2(2) _ _ _ _ _ t2]) (simp_all add: e2)
    then obtain es' where ih': "cascade_loop (zl_hdr (b + 4) (if t \<noteq> ?np then t + 4 else t) n @ ?P @ ebytes (esize e) ?e2 @
          eb (esize e2) rest @ [ZIP_END]) (10 + length ?P) (b + 4) =
        Some (zl_hdr (b + 4 + (sizes es' - sizes rest)) (10 + length ?P + sizes (butlast (?e2 # es'))) n @
          ?P @ ebytes (esize e) ?e2 @ eb (esize ?e2) es' @ [ZIP_END])"
      "map snd es' = map snd rest" "ents_ok (esize ?e2) es'"
      "sizes rest \<le> sizes es'" "sizes es' \<le> sizes rest + 4 * length rest" by blast
    have "cascade_loop ?zl ?p b =
        Some (zl_hdr (b + 4 + (sizes es' - sizes rest)) (10 + length ?P + sizes (butlast (?e2 # es'))) n @
          ?P @ ebytes (esize e) ?e2 @ eb (esize ?e2) es' @ [ZIP_END])"
      using ih'(1) unfolding grow by (simp add: add.assoc)
    note es' = this ih'(2-)
    have "b + 4 + (sizes es' - sizes rest) = b + (sizes (?e2 # es') - sizes (e2 # rest))"
      using es'(4) 2 by (simp add: e2)
    moreover have "10 + length ?P + sizes (butlast (?e2 # es')) = ?p + sizes (butlast (e # ?e2 # es'))"
      by simp
    ultimately show ?thesis
      using es' 2 ok2(3) by (intro exI [of _ "?e2 # es'"]) (simp add: e2 add.assoc)
  qed
qed


end
