(* ===== verification/ZiplistOps.thy ===== *)
theory ZiplistOps
  imports ZiplistRep
begin

text \<open>
  The operations of the ziplist on its meaning as a list of values: insertion, deletion,
  lookup by index from both ends, traversal, comparison, and the length.
\<close>

section \<open>Insertion\<close>

lemma ll_bounds_width:
  assumes "LLONG_MIN \<le> v" and "v \<le> LLONG_MAX"
  shows "- (256 ^ zint_width v) \<le> 2 * v" "2 * v < 256 ^ zint_width v"
  using assms by (auto simp: zint_width_def c_limits)

lemma zipSaveInteger_write: "zipSaveInteger False zl p v (zint_enc v) = mem_write zl p (le_bytes (zint_width v) v)"
  by (simp add: zipSaveInteger_def zint_enc_def zint_width_def host_bytes_def memrev16ifbe_def
      memrev32ifbe_def memrev64ifbe_def del: le_bytes_numeral)

lemma zipTryEncoding_Some:
  "zipTryEncoding s = Some (v, enc) \<Longrightarrow> enc = zint_enc v \<and> LLONG_MIN \<le> v \<and> v \<le> LLONG_MAX \<and> s = dec_repr v"
  using string2ll_dec_repr [of s v] by (auto simp: zipTryEncoding_def zint_enc_def split: if_splits option.splits)

lemma zval_of_ok: "zval_ok (zval_of s)"
  using zipTryEncoding_Some [of s] by (auto simp: zval_of_def split: option.splits)

lemma ztext_zval_of [simp]: "ztext (zval_of s) = s"
  using zipTryEncoding_Some [of s] by (auto simp: zval_of_def split: option.splits)

lemma zipTryEncoding_dec:
  assumes "LLONG_MIN \<le> v" and "v \<le> LLONG_MAX"
  shows "zipTryEncoding (dec_repr v) = Some (v, zint_enc v)"
proof -
  have "length (dec_repr v) \<le> 20" using length_dec_repr assms by blast
  moreover have "string2ll (dec_repr v) = Some v" using string2ll_dec_repr assms by blast
  moreover have "dec_repr v \<noteq> []" using calculation(2) by (auto simp: string2ll_def)
  ultimately show ?thesis by (auto simp: zipTryEncoding_def zint_enc_def)
qed

lemma zval_of_ztext: "zval_ok c \<Longrightarrow> zval_of (ztext c) = c"
  using zipTryEncoding_dec by (cases c) (auto simp: zval_of_def)

lemma ins_value_zval:
  "\<exists>value enc. ins_value s = Some (value, enc, length (payload (zval_of s))) \<and>
    zipEncodeLength enc (length s) = zhead (zval_of s) \<and>
    zipEncodeLength_size enc (length s) = length (zhead (zval_of s)) \<and>
    (\<forall>m p. (if ZIP_IS_STR enc then mem_write m p s else zipSaveInteger False m p value enc) =
       mem_write m p (payload (zval_of s)))"
proof (cases "zipTryEncoding s")
  case None
  then show ?thesis by (simp add: ins_value_def zval_of_def length_zipEncodeLength)
next
  case (Some ve)
  obtain v enc where ve: "ve = (v, enc)" by (cases ve)
  with Some zipTryEncoding_Some have enc: "enc = zint_enc v" by blast
  show ?thesis
    using Some by (simp add: ins_value_def zval_of_def ve enc zipSaveInteger_write zipEncodeLength_size_def
      zipEncodeLength_def)
qed

lemma mem_write_part:
  assumes "length H = p" and "length xs \<le> length G"
  shows "mem_write (H @ G @ R) p xs = Some (H @ xs @ drop (length xs) G @ R)"
  using assms by (simp add: mem_write_def)

lemma write_entry:
  assumes "length H = p" and "length G = esize (\<not> pl < ZIP_BIGLEN, c)"
  shows "do { zl \<leftarrow> mem_write (H @ G @ R) p (zipPrevEncodeLength pl);
              zl \<leftarrow> mem_write zl (p + zipPrevEncodeLength_size pl) (zhead c);
              zl \<leftarrow> mem_write zl (p + zipPrevEncodeLength_size pl + length (zhead c)) (payload c);
              f zl } = f (H @ ebytes pl (\<not> pl < ZIP_BIGLEN, c) @ R)"
proof -
  let ?F = "prev_field pl (\<not> pl < ZIP_BIGLEN)"
  let ?G = "drop (length ?F) G"
  have l: "length ?F = zipPrevEncodeLength_size pl"
    by (simp add: length_prev_field zipPrevEncodeLength_size_field)
  have G: "length G = length ?F + length (zhead c) + length (payload c)"
    using assms(2) by (simp add: length_prev_field)
  have 1: "mem_write (H @ G @ R) p ?F = Some (H @ ?F @ ?G @ R)"
    using assms(1) G by (intro mem_write_part) simp_all
  have 2: "mem_write (H @ ?F @ ?G @ R) (p + length ?F) (zhead c) =
      Some (H @ ?F @ zhead c @ drop (length (zhead c)) ?G @ R)"
    using mem_write_part [of "H @ ?F" "p + length ?F" "zhead c" ?G R] assms(1) G by simp
  have 3: "mem_write (H @ ?F @ zhead c @ drop (length (zhead c)) ?G @ R) (p + length ?F + length (zhead c)) (payload c) =
      Some (H @ ?F @ zhead c @ payload c @ R)"
    using mem_write_part [of "H @ ?F @ zhead c" "p + length ?F + length (zhead c)" "payload c" "drop (length (zhead c)) ?G" R]
      assms(1) G by simp
  show ?thesis
    by (simp only: zipPrevEncodeLength_field 1 l [symmetric] 2 3 Option.bind.simps ebytes.simps append_assoc)
qed

lemma ZIPLIST_INCR_LENGTH_hdr:
  assumes "n \<le> UINT16_MAX" and "n < UINT16_MAX \<Longrightarrow> int n + i = int n'"
  shows "ZIPLIST_INCR_LENGTH (zl_hdr b t n @ xs) i = Some (zl_hdr b t (if n < UINT16_MAX then n' else n) @ xs)"
proof -
  have "ZIPLIST_LENGTH (zl_hdr b t n @ xs) = Some n"
    using assms(1) by (intro ZIPLIST_fields(3)) (simp add: UINT16_MAX_def)
  then show ?thesis
    using set_ZIPLIST_fields(3) [of "int n + i" n' b t n xs] assms(2)
    by (simp add: ZIPLIST_INCR_LENGTH_def)
qed

lemma incr_length:
  assumes "n = UINT16_MAX \<or> n = k" and "n \<le> UINT16_MAX"
  shows "\<exists>n'. ZIPLIST_INCR_LENGTH (zl_hdr b t n @ xs) 1 = Some (zl_hdr b t n' @ xs) \<and>
    (n' = UINT16_MAX \<or> n' = k + 1) \<and> n' \<le> UINT16_MAX"
proof -
  have "ZIPLIST_INCR_LENGTH (zl_hdr b t n @ xs) 1 = Some (zl_hdr b t (if n < UINT16_MAX then n + 1 else n) @ xs)"
    using assms(2) by (rule ZIPLIST_INCR_LENGTH_hdr) simp
  then show ?thesis
    using assms by (intro exI [of _ "if n < UINT16_MAX then n + 1 else n"]) auto
qed

lemma decr_length:
  assumes "n = UINT16_MAX \<or> n = k" and "n \<le> UINT16_MAX" and "d \<le> k"
  shows "\<exists>n'. ZIPLIST_INCR_LENGTH (zl_hdr b t n @ xs) (- int d) = Some (zl_hdr b t n' @ xs) \<and>
    (n' = UINT16_MAX \<or> n' = k - d) \<and> n' \<le> UINT16_MAX"
proof -
  have d: "n < UINT16_MAX \<Longrightarrow> d \<le> n" using assms(1,3) by auto
  have "ZIPLIST_INCR_LENGTH (zl_hdr b t n @ xs) (- int d) = Some (zl_hdr b t (if n < UINT16_MAX then n - d else n) @ xs)"
    by (rule ZIPLIST_INCR_LENGTH_hdr [OF assms(2)]) (use d in simp)
  moreover have "(if n < UINT16_MAX then n - d else n) = UINT16_MAX \<or> (if n < UINT16_MAX then n - d else n) = k - d"
    "(if n < UINT16_MAX then n - d else n) \<le> UINT16_MAX"
    using assms by auto
  ultimately show ?thesis by blast
qed


text \<open>The block as the header, the entries before a position, and the rest.\<close>

lemma zl_repE:
  assumes "zl_rep zl (xs @ ys)"
  obtains b n where "zl = zl_hdr b (10 + sizes (butlast (xs @ ys))) n @ eb 0 xs @ eb (last_size 0 xs) ys @ [ZIP_END]"
    "b = 10 + sizes xs + sizes ys + 1" "b = length zl" "b < 2 ^ 32" "n = UINT16_MAX \<or> n = length xs + length ys" "n \<le> UINT16_MAX"
    "ents_ok 0 xs" "ents_ok (last_size 0 xs) ys" "xs = [] \<longrightarrow> ys \<noteq> [] \<longrightarrow> \<not> fst (hd ys)"
    "last_size 0 xs \<le> sizes xs"
proof -
  from assms obtain n where n: "n = UINT16_MAX \<or> n = length (xs @ ys)" "n \<le> UINT16_MAX"
    "zl = zl_hdr (length zl) (10 + sizes (butlast (xs @ ys))) n @ eb 0 (xs @ ys) @ [ZIP_END]"
    "length zl < 2 ^ 32" by (auto simp: zl_rep_def)
  have "length zl = 10 + sizes xs + sizes ys + 1"
    using n(3) by (metis add.assoc length_append length_append_singleton length_eb length_zl_hdr sizes_simps(3) Suc_eq_plus1)
  moreover have "last_size 0 xs \<le> sizes xs"
  proof (cases xs rule: rev_cases)
    case (snoc as a)
    then show ?thesis by simp
  qed simp
  moreover have "ents_ok 0 (xs @ ys)" "xs @ ys \<noteq> [] \<longrightarrow> \<not> fst (hd (xs @ ys))"
    using assms by (auto simp: zl_rep_def)
  moreover have "xs = [] \<longrightarrow> ys \<noteq> [] \<longrightarrow> \<not> fst (hd ys)"
    using assms by (auto simp: zl_rep_def)
  ultimately show thesis
    using n by (intro that [of "length zl" n]) (simp_all add: eb_append ents_ok_append)
qed

lemma zl_repI:
  assumes "zl = zl_hdr b t n @ eb 0 es @ [ZIP_END]" and "b = 10 + sizes es + 1" and "b < 2 ^ 32"
    and "t = 10 + sizes (butlast es)" and "n = UINT16_MAX \<or> n = length es" and "n \<le> UINT16_MAX"
    and "ents_ok 0 es" and "es \<noteq> [] \<Longrightarrow> \<not> fst (hd es)"
  shows "zl_rep zl es"
proof -
  have "length zl = b" using assms(1,2) by simp
  then show ?thesis using assms unfolding zl_rep_def by auto
qed

text \<open>The size recorded by a new entry.\<close>

lemma insert_prevlen:
  assumes rep: "zl_rep zl (xs @ ys)"
  shows "\<exists>c. mem_byte zl (10 + sizes xs) = Some c \<and> (c = ZIP_END \<longleftrightarrow> ys = []) \<and>
    (if c \<noteq> ZIP_END then map_option ze_prevrawlen (zipEntry zl (10 + sizes xs))
     else do { ptail \<leftarrow> ZIPLIST_ENTRY_TAIL zl; c \<leftarrow> mem_byte zl ptail;
               if c \<noteq> ZIP_END then zipRawEntryLength zl ptail else Some 0 }) = Some (last_size 0 xs)"
proof -
  obtain b n where zl: "zl = zl_hdr b (10 + sizes (butlast (xs @ ys))) n @ eb 0 xs @ eb (last_size 0 xs) ys @ [ZIP_END]"
    "b = 10 + sizes xs + sizes ys + 1" "b < 2 ^ 32" "ents_ok 0 xs" "ents_ok (last_size 0 xs) ys" "last_size 0 xs \<le> sizes xs"
    by (rule zl_repE [OF rep])
  let ?pl = "last_size 0 xs"
  show ?thesis
  proof (cases ys)
    case (Cons y rest)
    let ?pre = "zl_hdr b (10 + sizes (butlast (xs @ ys))) n @ eb 0 xs"
    have ok: "\<not> fst y \<Longrightarrow> ?pl < ZIP_BIGLEN" using zl(5) Cons by auto
    have z: "zl = ?pre @ ebytes ?pl y @ eb (esize y) rest @ [ZIP_END]" using zl(1) Cons by simp
    have p: "length ?pre = 10 + sizes xs" by simp
    have lt: "?pl < 2 ^ 32" "esize y < 2 ^ 32" using zl(2,3,6) Cons by simp_all
    obtain c where "mem_byte zl (10 + sizes xs) = Some c" "c \<noteq> ZIP_END"
      using mem_byte_ebytes [OF p ok, where post = "eb (esize y) rest @ [ZIP_END]"] unfolding z by blast
    moreover obtain en where "zipEntry zl (10 + sizes xs) = Some en" "ze_prevrawlen en = ?pl"
      using zipEntry_ebytes [OF p ok lt, where post = "eb (esize y) rest @ [ZIP_END]"] unfolding z by blast
    ultimately show ?thesis using Cons by simp
  next
    case Nil
    have c: "mem_byte zl (10 + sizes xs) = Some ZIP_END"
      using mem_byte_END [of "zl_hdr b (10 + sizes (butlast xs)) n @ eb 0 xs" "10 + sizes xs"] zl(1) Nil by simp
    have t: "ZIPLIST_ENTRY_TAIL zl = Some (10 + sizes (butlast xs))"
      using zl(1,2,3) Nil by (cases "xs = []") (simp_all add: ZIPLIST_ENTRY_TAIL_def ZIPLIST_fields sizes_butlast)
    show ?thesis
    proof (cases xs rule: rev_cases)
      case Nil2: Nil
      then show ?thesis using c t Nil by simp
    next
      case (snoc as a)
      let ?pre = "zl_hdr b (10 + sizes as) n @ eb 0 as"
      have ok: "\<not> fst a \<Longrightarrow> last_size 0 as < ZIP_BIGLEN" using zl(4) snoc by (auto simp: ents_ok_append)
      have z: "zl = ?pre @ ebytes (last_size 0 as) a @ [ZIP_END]" using zl(1) Nil snoc by (simp add: eb_append)
      have p: "length ?pre = 10 + sizes as" by simp
      have "last_size 0 as \<le> sizes as" by (cases as rule: rev_cases) simp_all
      then have lt: "last_size 0 as < 2 ^ 32" "esize a < 2 ^ 32" using zl(2,3) snoc by simp_all
      obtain c' where "mem_byte zl (10 + sizes as) = Some c'" "c' \<noteq> ZIP_END"
        using mem_byte_ebytes [OF p ok, where post = "[ZIP_END]"] unfolding z by blast
      moreover obtain en where "zipEntry zl (10 + sizes as) = Some en" "ze_rawlen en = esize a"
        using zipEntry_ebytes [OF p ok lt, where post = "[ZIP_END]"] unfolding z by blast
      ultimately show ?thesis using c t snoc Nil by (simp add: zipRawEntryLength_def)
    qed
  qed
qed


lemma esize_bound: "esize (big, zval_of s) \<le> length s + 14"
proof (cases "zval_of s")
  case (ZStr t)
  then have "t = s" using ztext_zval_of [of s] by simp
  then show ?thesis by (simp add: ZStr length_zipEncodeLength zipEncodeLength_size_def)
next
  case (ZInt v)
  then show ?thesis by (simp add: zint_width_def)
qed

lemma insert_end_ok:
  assumes rep: "zl_rep zl xs" and bd: "length zl + length s + 14 < 2 ^ 32"
  shows "\<exists>zl'. u_ziplistInsert zl (10 + sizes xs) s = Some zl' \<and>
    zl_rep zl' (xs @ [(\<not> last_size 0 xs < ZIP_BIGLEN, zval_of s)])"
proof -
  define pl where "pl = last_size 0 xs"
  define p where "p = 10 + sizes xs"
  let ?c = "zval_of s"
  let ?e = "(\<not> pl < ZIP_BIGLEN, ?c)"
  define r where "r = esize ?e"
  obtain b n where zl: "zl = zl_hdr b (10 + sizes (butlast xs)) n @ eb 0 xs @ [ZIP_END]"
    "b = 10 + sizes xs + 1" "b = length zl" "b < 2 ^ 32" "n = UINT16_MAX \<or> n = length xs" "n \<le> UINT16_MAX"
    "ents_ok 0 xs" "last_size 0 xs \<le> sizes xs" using zl_repE [of zl xs "[]"] rep by auto
  let ?t = "10 + sizes (butlast xs)"
  from insert_prevlen [of zl xs "[]"] rep have c: "mem_byte zl p = Some ZIP_END" and
    pv: "do { ptail \<leftarrow> ZIPLIST_ENTRY_TAIL zl; c \<leftarrow> mem_byte zl ptail;
              if c \<noteq> ZIP_END then zipRawEntryLength zl ptail else Some 0 } = Some pl"
    by (auto simp: p_def pl_def)
  obtain v enc where iv: "ins_value s = Some (v, enc, length (payload ?c))"
    "zipEncodeLength enc (length s) = zhead ?c" "zipEncodeLength_size enc (length s) = length (zhead ?c)"
    "\<And>m p. (if ZIP_IS_STR enc then mem_write m p s else zipSaveInteger False m p v enc) = mem_write m p (payload ?c)"
    using ins_value_zval [of s] by auto
  have r: "length (payload ?c) + zipPrevEncodeLength_size pl + length (zhead ?c) = r"
    by (simp add: r_def zipPrevEncodeLength_size_field)
  have rb: "0 < r" "b + r < 2 ^ 32" using bd zl(3) esize_bound [of "\<not> pl < ZIP_BIGLEN" s] by (simp_all add: r_def del: esize.simps)
  have B: "ZIPLIST_BYTES zl = Some b" using zl(1,4) ZIPLIST_fields(1) by simp
  obtain zs where zs: "length zs = r - 1"
    "ziplistResize zl (int b + int r + 0) = Some (zl_hdr (b + r) ?t n @ eb 0 xs @ [ZIP_END] @ zs @ [ZIP_END])"
    using ziplistResize_grow [of b "eb 0 xs" r ?t n] zl(1,2) rb by auto
  have c2: "mem_byte (zl_hdr (b + r) ?t n @ eb 0 xs @ [ZIP_END] @ zs @ [ZIP_END]) p = Some ZIP_END"
    using mem_byte_append [of "zl_hdr (b + r) ?t n @ eb 0 xs" p ZIP_END "zs @ [ZIP_END]"] by (simp add: p_def)
  have tl: "set_ZIPLIST_TAIL_OFFSET (zl_hdr (b + r) ?t n @ eb 0 xs @ [ZIP_END] @ zs @ [ZIP_END]) (int p) =
      Some (zl_hdr (b + r) p n @ eb 0 xs @ [ZIP_END] @ zs @ [ZIP_END])"
    by (rule set_ZIPLIST_fields) simp
  have wr: "do { zl \<leftarrow> mem_write (zl_hdr (b + r) p n @ eb 0 xs @ [ZIP_END] @ zs @ [ZIP_END]) p (zipPrevEncodeLength pl);
              zl \<leftarrow> mem_write zl (p + zipPrevEncodeLength_size pl) (zhead ?c);
              zl \<leftarrow> mem_write zl (p + zipPrevEncodeLength_size pl + length (zhead ?c)) (payload ?c);
              f zl } = f (zl_hdr (b + r) p n @ eb 0 xs @ ebytes pl ?e @ [ZIP_END])" for f :: "byte list \<Rightarrow> byte list option"
    using write_entry [of "zl_hdr (b + r) p n @ eb 0 xs" p "[ZIP_END] @ zs" pl ?c "[ZIP_END]" f] zs(1) rb
    by (simp add: p_def r_def)
  obtain n' where n': "ZIPLIST_INCR_LENGTH (zl_hdr (b + r) p n @ eb 0 xs @ ebytes pl ?e @ [ZIP_END]) 1 =
      Some (zl_hdr (b + r) p n' @ eb 0 xs @ ebytes pl ?e @ [ZIP_END])"
    "n' = UINT16_MAX \<or> n' = length xs + 1" "n' \<le> UINT16_MAX"
    using incr_length [OF zl(5,6)] by blast
  have "u_ziplistInsert zl p s = Some (zl_hdr (b + r) p n' @ eb 0 xs @ ebytes pl ?e @ [ZIP_END])"
    unfolding u_ziplistInsert_def
    by (simp only: B c pv iv r Option.bind.simps prod.case simp_thms if_False zs(2) c2 tl wr [of "\<lambda>zl. ZIPLIST_INCR_LENGTH zl 1"] n'(1))
  moreover have "zl_rep (zl_hdr (b + r) p n' @ eb 0 xs @ ebytes pl ?e @ [ZIP_END]) (xs @ [?e])"
    using zl(2,7) rb n'(2,3) rep
    by (intro zl_repI [of _ "b + r" p n']) (auto simp: eb_append pl_def p_def r_def ents_ok_append zval_of_ok zl_rep_def
      hd_append ZIP_BIGLEN_def simp del: esize.simps)
  ultimately show ?thesis by (auto simp: p_def pl_def)
qed


text \<open>After an insertion or deletion the entry \<open>(b1, c0)\<close> has the right length field, whose
  size may differ from the one it had.\<close>

lemma relink_ok:
  assumes "ents_ok (esize (b0, c0)) rest" and "\<not> b1 \<Longrightarrow> pl < ZIP_BIGLEN" and "pl < 2 ^ 32"
    and "b = 10 + length A + esize (b1, c0) + sizes rest + 1"
    and "b + 4 + 4 * length rest < 2 ^ 32" and "t = 10 + length A + sizes (butlast ((b1, c0) # rest))"
    and "d = (if b1 then 5 else 1) - (if b0 then 5 else (1 :: int))" and "zl = zl_hdr b t n @ A @
      ebytes pl (b1, c0) @ eb (esize (b0, c0)) rest @ [ZIP_END]"
  shows "\<exists>b' t' es'. (if d \<noteq> 0 then u_ziplistCascadeUpdate zl (10 + length A) else Some zl) =
      Some (zl_hdr b' t' n @ A @ ebytes pl (b1, c0) @ eb (esize (b1, c0)) es' @ [ZIP_END]) \<and>
    map snd es' = map snd rest \<and> ents_ok (esize (b1, c0)) es' \<and> t' = 10 + length A + sizes (butlast ((b1, c0) # es')) \<and>
    b' = 10 + length A + esize (b1, c0) + sizes es' + 1 \<and> sizes es' \<le> sizes rest + 4 * length rest \<and>
    (rest \<noteq> [] \<and> fst (hd rest) \<or> esize (b1, c0) < ZIP_BIGLEN \<longrightarrow> es' = rest)"
proof (cases "d = 0")
  case True
  then have "b1 = b0" using assms(7) by (auto split: if_splits)
  then show ?thesis using True assms by (intro exI [of _ b] exI [of _ t] exI [of _ rest]) (simp del: esize.simps)
next
  case False
  have sz: "esize (b0, c0) < 2 ^ 32" "b < 2 ^ 32" "b + 4 * length rest < 2 ^ 32"
    using assms(4,5) by (auto split: if_splits)
  have pr: "\<not> fst (b1, c0) \<Longrightarrow> pl < ZIP_BIGLEN" using assms(2) by simp
  obtain es' where es': "cascade_loop zl (10 + length A) b =
      Some (zl_hdr (b + (sizes es' - sizes rest)) (10 + length A + sizes (butlast ((b1, c0) # es'))) n @
        A @ ebytes pl (b1, c0) @ eb (esize (b1, c0)) es' @ [ZIP_END])"
    "map snd es' = map snd rest" "ents_ok (esize (b1, c0)) es'" "sizes rest \<le> sizes es'"
    "sizes es' \<le> sizes rest + 4 * length rest" "rest \<noteq> [] \<and> fst (hd rest) \<or> esize (b1, c0) < ZIP_BIGLEN \<longrightarrow> es' = rest"
    using cascade_ok [OF assms(1) pr assms(3) sz(1) assms(4) sz(3) assms(6), of n] unfolding assms(8) by blast
  have "ZIPLIST_BYTES zl = Some b" unfolding assms(8) by (rule ZIPLIST_fields) (rule sz)
  then have "u_ziplistCascadeUpdate zl (10 + length A) = cascade_loop zl (10 + length A) b"
    by (simp add: u_ziplistCascadeUpdate_def)
  then show ?thesis
    using False es' assms(4)
    by (intro exI [of _ "b + (sizes es' - sizes rest)"] exI [of _ "10 + length A + sizes (butlast ((b1, c0) # es'))"]
      exI [of _ es']) (simp del: esize.simps butlast.simps)
qed

lemma mem_write_over:
  assumes "length xs = length ys" and "off + length ys + length zs \<le> length m"
  shows "Option.bind (mem_write m off (xs @ zs)) (\<lambda>m. mem_write m off ys) = mem_write m off (ys @ zs)"
proof -
  have "min (length m) off = off" using assms(2) by simp
  then show ?thesis using assms by (simp add: mem_write_def)
qed

text \<open>Room for the new entry: the next entry and all behind it move up, with a field of \<open>F\<close>'s size.\<close>

lemma make_room:
  assumes "length H = p" and "4 \<le> p" and "1 \<le> length F" and "length F \<le> 5" and "1 \<le> length w"
    and "length w \<le> r + length F" and "length zs = r + length F - length w"
    and "d = int (length F) - int (length w)" and "k = int (length w + length R) + d"
  shows "\<exists>G. length G = r \<and>
    Option.bind (memmove (H @ w @ R @ zs @ [ZIP_END]) (int p + int r) (int p - d) k) (\<lambda>m. mem_write m (p + r) F) =
      Some (H @ G @ F @ R @ [ZIP_END])"
proof -
  let ?m = "H @ w @ R @ zs @ [ZIP_END]" and ?src = "p + length w - length F"
  have src: "int p - d = int ?src" and k: "k = int (length F + length R)" and dst: "int p + int r = int (p + r)"
    using assms by simp_all
  have lm: "length ?m = p + r + length F + length R + 1" using assms by simp
  define J where "J = take (length F) (drop ?src ?m)"
  have J: "length J = length F" using lm assms by (simp add: J_def)
  have "drop (length F) (drop ?src ?m) = R @ zs @ [ZIP_END]"
    using assms by (simp add: add.commute)
  then have "drop ?src ?m = J @ R @ zs @ [ZIP_END]"
    using append_take_drop_id [of "length F" "drop ?src ?m"] by (simp add: J_def)
  then have "mem_read ?m ?src (length F + length R) = Some (J @ R)"
    using J lm assms by (simp add: mem_read_def)
  then have "memmove ?m (int p + int r) (int p - d) k = mem_write ?m (p + r) (J @ R)"
    unfolding src k dst memmove_int by (simp add: mem_move_def)
  moreover have "mem_write ?m (p + r) (F @ R) = Some (take (p + r) ?m @ F @ R @ drop (p + r + length F + length R) ?m)"
    using lm by (simp add: mem_write_def add.assoc)
  moreover have "drop (p + r + length F + length R) ?m = [ZIP_END]"
    using assms by simp
  moreover have "take (p + r) ?m = H @ take r (w @ R @ zs @ [ZIP_END])"
    using assms(1) by simp
  ultimately show ?thesis
    using mem_write_over [OF J, of "p + r" R ?m] lm assms
    by (intro exI [of _ "take r (w @ R @ zs @ [ZIP_END])"]) simp
qed


lemma ziplistResize_more:
  assumes "b = 10 + length xs + 1" and "b + k < 2 ^ 32"
  shows "\<exists>zs. length zs = k \<and> ziplistResize (zl_hdr b t n @ xs @ [ZIP_END]) (int b + int k) =
    Some (zl_hdr (b + k) t n @ xs @ zs @ [ZIP_END])"
proof -
  have "take (b + k - 11) (zrealloc (xs @ [ZIP_END]) (b + k - 10)) = xs @ take k (ZIP_END # replicate k uninit)"
    using assms by (simp add: zrealloc_def)
  then show ?thesis
    using ziplistResize_hdr [of "int b + int k" "b + k" b t n "xs @ [ZIP_END]"] assms
    by (intro exI [of _ "take k (ZIP_END # replicate k uninit)"]) auto
qed

lemma zipPrevLenByteDiff_entry:
  assumes "length pre = p" and "\<not> big \<Longrightarrow> pl < ZIP_BIGLEN" and "pl < 2 ^ 32"
  shows "zipPrevLenByteDiff (pre @ prev_field pl big @ post) p m =
    Some ((if m < ZIP_BIGLEN then 1 else 5) - (if big then 5 else 1))"
  using zipPrevDecodeLength_field [OF assms] by (simp add: zipPrevLenByteDiff_def zipPrevEncodeLength_size_field)

text \<open>Is the byte behind the first entry of a chain the end mark?\<close>

lemma mem_byte_chain:
  assumes "length pre = p" and "ents_ok pl es"
  shows "\<exists>c. mem_byte (pre @ eb pl es @ [ZIP_END]) p = Some c \<and> (c = ZIP_END \<longleftrightarrow> es = [])"
proof (cases es)
  case Nil
  then show ?thesis using mem_byte_END [OF assms(1)] by simp
next
  case (Cons e es')
  with assms(2) have "\<not> fst e \<Longrightarrow> pl < ZIP_BIGLEN" by auto
  from mem_byte_ebytes [OF assms(1) this, where post = "eb (esize e) es' @ [ZIP_END]"] show ?thesis
    using Cons by (metis append_assoc eb.simps(2) list.distinct(1))
qed

text \<open>The tail offset after the entry at \<open>p\<close> got a field of another size.\<close>

lemma fix_tail:
  assumes t: "t = 10 + length A + sizes (butlast ((b0, c0) # rest))" and lt: "t < 2 ^ 32"
    and ok: "ents_ok (esize (b0, c0)) rest" "\<not> b1 \<Longrightarrow> pl < ZIP_BIGLEN" "pl < 2 ^ 32" "esize (b1, c0) < 2 ^ 32"
    and zl: "zl = zl_hdr b t n @ A @ ebytes pl (b1, c0) @ eb (esize (b0, c0)) rest @ [ZIP_END]"
    and d: "d = (if b1 then 5 else 1) - (if b0 then 5 else (1 :: int))"
  shows "do { tail \<leftarrow> zipEntry zl (10 + length A);
              c \<leftarrow> mem_byte zl (10 + length A + ze_headersize tail + ze_len tail);
              zl \<leftarrow> (if c \<noteq> ZIP_END then do { t \<leftarrow> ZIPLIST_TAIL_OFFSET zl; set_ZIPLIST_TAIL_OFFSET zl (int t + d) }
                else Some zl);
              f zl } =
    f (zl_hdr b (10 + length A + sizes (butlast ((b1, c0) # rest))) n @ A @ ebytes pl (b1, c0) @ eb (esize (b0, c0)) rest @ [ZIP_END])"
proof -
  let ?R = "A @ ebytes pl (b1, c0) @ eb (esize (b0, c0)) rest @ [ZIP_END]"
  have p: "length (zl_hdr b t n @ A) = 10 + length A" by simp
  have ok2: "\<not> fst (b1, c0) \<Longrightarrow> pl < ZIP_BIGLEN" using ok(2) by simp
  obtain tail where tail: "zipEntry zl (10 + length A) = Some tail"
    "10 + length A + ze_headersize tail + ze_len tail = 10 + length A + esize (b1, c0)"
    using zipEntry_ebytes [OF p ok2 ok(3,4), where post = "eb (esize (b0, c0)) rest @ [ZIP_END]"] unfolding zl by auto
  have "length (zl_hdr b t n @ A @ ebytes pl (b1, c0)) = 10 + length A + esize (b1, c0)"
    by (simp del: esize.simps ebytes.simps)
  from mem_byte_chain [OF this ok(1)] obtain c where
    c: "mem_byte zl (10 + length A + esize (b1, c0)) = Some c" "c = ZIP_END \<longleftrightarrow> rest = []"
    unfolding zl append_assoc by blast
  have "(if c \<noteq> ZIP_END then do { t \<leftarrow> ZIPLIST_TAIL_OFFSET zl; set_ZIPLIST_TAIL_OFFSET zl (int t + d) } else Some zl) =
      Some (zl_hdr b (10 + length A + sizes (butlast ((b1, c0) # rest))) n @ ?R)"
  proof (cases "rest = []")
    case True
    then show ?thesis using c t zl by simp
  next
    case False
    then have "int t + d = int (10 + length A + sizes (butlast ((b1, c0) # rest)))"
      unfolding t d by simp
    moreover have "ZIPLIST_TAIL_OFFSET zl = Some t" unfolding zl by (rule ZIPLIST_fields) (rule lt)
    moreover have "set_ZIPLIST_TAIL_OFFSET zl (int t + d) =
        Some (zl_hdr b (10 + length A + sizes (butlast ((b1, c0) # rest))) n @ ?R)"
      unfolding zl by (rule set_ZIPLIST_fields(2) [OF calculation(1)])
    ultimately show ?thesis using False c(2) by (simp del: esize.simps ebytes.simps butlast.simps)
  qed
  then show ?thesis by (simp only: tail c(1) Option.bind.simps)
qed


text \<open>The middle part of \<^verbatim>\<open>__ziplistInsert\<close>: from the resized block to the one in which the
  next entry has moved up by \<open>r\<close> and records that size.\<close>

lemma insert_shift:
  assumes b: "b = 10 + length A + esize (b0, c0) + sizes rest + 1" and t: "t = 10 + length A + sizes (butlast ((b0, c0) # rest))"
    and ok: "\<not> b0 \<Longrightarrow> pl < ZIP_BIGLEN" "ents_ok (esize (b0, c0)) rest"
    and b1: "b1 \<longleftrightarrow> \<not> r < ZIP_BIGLEN" and d: "d = (if b1 then 5 else 1) - (if b0 then 5 else (1 :: int))"
    and r: "1 \<le> r" "b0 \<longrightarrow> 4 \<le> r" and lt: "b + r + 4 < 2 ^ 32" and k: "int k = int r + d"
  shows "\<exists>G. length G = r \<and> (\<forall>f. do {
      zl \<leftarrow> ziplistResize (zl_hdr b t n @ A @ ebytes pl (b0, c0) @ eb (esize (b0, c0)) rest @ [ZIP_END]) (int b + int r + d);
      c \<leftarrow> mem_byte zl (10 + length A);
      zl \<leftarrow> (if c \<noteq> ZIP_END then do {
               zl \<leftarrow> memmove zl (int (10 + length A) + int r) (int (10 + length A) - d) (int b - int (10 + length A) - 1 + d);
               zl \<leftarrow> mem_write zl (10 + length A + r) (zipPrevEncodeLength r);
               t \<leftarrow> ZIPLIST_TAIL_OFFSET zl;
               zl \<leftarrow> set_ZIPLIST_TAIL_OFFSET zl (int t + int r);
               tail \<leftarrow> zipEntry zl (10 + length A + r);
               c \<leftarrow> mem_byte zl (10 + length A + r + ze_headersize tail + ze_len tail);
               if c \<noteq> ZIP_END then do {
                 t \<leftarrow> ZIPLIST_TAIL_OFFSET zl; set_ZIPLIST_TAIL_OFFSET zl (int t + d) }
               else Some zl }
             else set_ZIPLIST_TAIL_OFFSET zl (int (10 + length A)));
      f zl } = (f (zl_hdr (b + k) (10 + length A + r + sizes (butlast ((b1, c0) # rest))) n @
        A @ G @ ebytes r (b1, c0) @ eb (esize (b0, c0)) rest @ [ZIP_END]) :: byte list option))"
proof -
  define p where "p = 10 + length A"
  define w F R where "w = prev_field pl b0" and "F = prev_field r b1" and "R = zhead c0 @ payload c0 @ eb (esize (b0, c0)) rest"
  have lens: "length w = (if b0 then 5 else 1)" "length F = (if b1 then 5 else 1)"
    by (simp_all add: length_prev_field w_def F_def)
  have k': "length w \<le> r + length F" "k = r + length F - length w" "d = int (length F) - int (length w)"
    using r k unfolding d lens by (auto split: if_splits)
  have len: "b = 10 + length (A @ w @ R) + 1" unfolding b by (simp add: lens R_def)
  have "k \<le> r + 4" using k unfolding d by (auto split: if_splits)
  then have bk: "b + k < 2 ^ 32" using lt by linarith
  obtain zs where zs: "length zs = k"
    "ziplistResize (zl_hdr b t n @ (A @ w @ R) @ [ZIP_END]) (int b + int k) =
       Some (zl_hdr (b + k) t n @ (A @ w @ R) @ zs @ [ZIP_END])"
    using ziplistResize_more [OF len bk] by blast
  define H where "H = zl_hdr (b + k) t n @ A"
  have zl1: "zl_hdr (b + k) t n @ (A @ w @ R) @ zs @ [ZIP_END] = H @ w @ R @ zs @ [ZIP_END]" by (simp add: H_def)
  have Hp: "length H = p" "4 \<le> p" by (simp_all add: H_def p_def)
  have zl0: "zl_hdr b t n @ A @ ebytes pl (b0, c0) @ eb (esize (b0, c0)) rest @ [ZIP_END] = zl_hdr b t n @ (A @ w @ R) @ [ZIP_END]"
    by (simp add: w_def R_def del: esize.simps)
  have ib: "int b + int r + d = int b + int k" using k by simp
  have we: "H @ w @ R @ zs @ [ZIP_END] = H @ ebytes pl (b0, c0) @ eb (esize (b0, c0)) rest @ zs @ [ZIP_END]"
    by (simp add: w_def R_def del: esize.simps)
  have ok': "\<not> fst (b0, c0) \<Longrightarrow> pl < ZIP_BIGLEN" using ok(1) by simp
  obtain c where c: "mem_byte (H @ w @ R @ zs @ [ZIP_END]) p = Some c" "c \<noteq> ZIP_END"
    using mem_byte_ebytes [OF Hp(1) ok', where post = "eb (esize (b0, c0)) rest @ zs @ [ZIP_END]"] unfolding we by blast
  have kk: "int b - int p - 1 + d = int (length w + length R) + d" using len by (simp add: p_def)
  have F1: "1 \<le> length F" "length F \<le> 5" "1 \<le> length w" by (simp_all add: lens)
  obtain G where G: "length G = r"
    "Option.bind (memmove (H @ w @ R @ zs @ [ZIP_END]) (int p + int r) (int p - d) (int b - int p - 1 + d))
       (\<lambda>m. mem_write m (p + r) F) = Some (H @ G @ F @ R @ [ZIP_END])"
    using make_room [OF Hp F1 k'(1) _ k'(3) kk, of zs] zs(1) k'(2) by blast
  have G': "Option.bind (memmove (H @ w @ R @ zs @ [ZIP_END]) (int p + int r) (int p - d) (int b - int p - 1 + d))
      (\<lambda>m. Option.bind (mem_write m (p + r) (zipPrevEncodeLength r)) f) = f (H @ G @ F @ R @ [ZIP_END])"
    for f :: "byte list \<Rightarrow> byte list option"
    using G(2) unfolding zipPrevEncodeLength_field b1 [symmetric] F_def [symmetric]
    by (simp only: bind_assoc [symmetric] Option.bind.simps)
  have tb: "t < b" using b t by (cases rest rule: rev_cases) (auto simp: butlast_append)
  have T: "ZIPLIST_TAIL_OFFSET (H @ X) = Some t"
    "set_ZIPLIST_TAIL_OFFSET (H @ X) (int t + int r) = Some (zl_hdr (b + k) (t + r) n @ A @ X)" for X
    using tb lt ZIPLIST_fields(2) [of t "b + k" n "A @ X"] set_ZIPLIST_fields(2) [of "int t + int r" "t + r" "b + k" t n "A @ X"]
    by (simp_all add: H_def)
  have GF: "A @ G @ F @ R @ [ZIP_END] = A @ G @ ebytes r (b1, c0) @ eb (esize (b0, c0)) rest @ [ZIP_END]"
    by (simp add: F_def R_def del: esize.simps)
  have ft: "t + r = 10 + length (A @ G) + sizes (butlast ((b0, c0) # rest))" "10 + length (A @ G) = p + r"
    using t by (simp_all add: G(1) p_def del: butlast.simps)
  have l2: "t + r < 2 ^ 32" "r < 2 ^ 32" "esize (b1, c0) < 2 ^ 32" using tb lt b by (auto split: if_splits)
  have b1': "\<not> b1 \<Longrightarrow> r < ZIP_BIGLEN" using b1 by simp
  note tail = fix_tail [OF ft(1) l2(1) ok(2) b1' l2(2,3) refl d, of "b + k" n, unfolded ft(2) append_assoc]
  show ?thesis
    unfolding p_def [symmetric]
    by (intro exI [of _ G] conjI allI G(1))
      (simp only: zl0 ib zs(2) zl1 Option.bind.simps c G' T GF tail simp_thms if_True bind_assoc)
qed


lemma insert_mid_ok:
  assumes rep: "zl_rep zl (xs @ y # rest)"
    and safe: "\<not> (fst y \<and> esize (\<not> last_size 0 xs < ZIP_BIGLEN, zval_of s) < 4)"
    and bd: "length zl + length s + 30 + 4 * length rest < 2 ^ 32"
  shows "\<exists>zl' y' rest'. u_ziplistInsert zl (10 + sizes xs) s = Some zl' \<and>
    zl_rep zl' (xs @ (\<not> last_size 0 xs < ZIP_BIGLEN, zval_of s) # y' # rest') \<and>
    map snd (y' # rest') = map snd (y # rest) \<and> length zl' \<le> length zl + length s + 18 + 4 * length rest \<and>
    fst y' = (\<not> esize (\<not> last_size 0 xs < ZIP_BIGLEN, zval_of s) < ZIP_BIGLEN) \<and> (esize y' < ZIP_BIGLEN \<longrightarrow> rest' = rest)"
proof -
  obtain b0 c0 where y: "y = (b0, c0)" by (cases y)
  define pl p where "pl = last_size 0 xs" and "p = 10 + sizes xs"
  define e r where "e = (\<not> pl < ZIP_BIGLEN, zval_of s)" and "r = esize e"
  define b1 d where "b1 \<longleftrightarrow> \<not> r < ZIP_BIGLEN" and "d = (if b1 then 5 else 1) - (if b0 then 5 else (1 :: int))"
  obtain b n where zl: "zl = zl_hdr b (10 + sizes (butlast (xs @ y # rest))) n @ eb 0 xs @ eb (last_size 0 xs) (y # rest) @ [ZIP_END]"
    "b = 10 + sizes xs + sizes (y # rest) + 1" "b = length zl" "b < 2 ^ 32"
    "n = UINT16_MAX \<or> n = length xs + length (y # rest)" "n \<le> UINT16_MAX"
    "ents_ok 0 xs" "ents_ok (last_size 0 xs) (y # rest)" "xs = [] \<longrightarrow> y # rest \<noteq> [] \<longrightarrow> \<not> fst (hd (y # rest))"
    "last_size 0 xs \<le> sizes xs" by (rule zl_repE [OF rep])
  define t where "t = 10 + sizes (butlast (xs @ y # rest))"
  have tp: "t = 10 + length (eb 0 xs) + sizes (butlast ((b0, c0) # rest))" by (simp add: t_def butlast_append y)
  have zl': "zl = zl_hdr b t n @ eb 0 xs @ ebytes pl (b0, c0) @ eb (esize (b0, c0)) rest @ [ZIP_END]"
    using zl(1) by (simp add: y pl_def t_def del: esize.simps ebytes.simps)
  have bb: "b = 10 + length (eb 0 xs) + esize (b0, c0) + sizes rest + 1" using zl(2) y by simp
  have r: "2 \<le> r" "r \<le> length s + 14"
    unfolding r_def by (rule esize_ge) (unfold e_def, rule esize_bound)
  have r4: "b0 \<longrightarrow> 4 \<le> r" using safe by (auto simp: y r_def e_def pl_def simp del: esize.simps)
  have bd2: "b + r + 8 + 4 * length rest < 2 ^ 32" "r < 2 ^ 32" "pl < 2 ^ 32"
    using bd r(2) zl(2,3,10) unfolding pl_def by simp_all
  have ok: "\<not> b0 \<Longrightarrow> pl < ZIP_BIGLEN" "zval_ok c0" "ents_ok (esize (b0, c0)) rest"
    using zl(8) by (simp_all add: y pl_def del: esize.simps)
  have b1': "\<not> b1 \<Longrightarrow> r < ZIP_BIGLEN" by (simp add: b1_def)
  define k where "k = nat (int r + d)"
  have k: "int k = int r + d" "k \<le> r + 4" using r(1) r4 by (auto simp: k_def d_def split: if_splits)
  from insert_prevlen [OF rep] obtain c where c: "mem_byte zl p = Some c" "c \<noteq> ZIP_END" and
    pv: "map_option ze_prevrawlen (zipEntry zl p) = Some pl" by (auto simp: p_def pl_def)
  obtain v enc where iv: "ins_value s = Some (v, enc, length (payload (zval_of s)))"
    "zipEncodeLength enc (length s) = zhead (zval_of s)" "zipEncodeLength_size enc (length s) = length (zhead (zval_of s))"
    "\<And>m p. (if ZIP_IS_STR enc then mem_write m p s else zipSaveInteger False m p v enc) = mem_write m p (payload (zval_of s))"
    using ins_value_zval [of s] by auto
  have rq: "length (payload (zval_of s)) + zipPrevEncodeLength_size pl + length (zhead (zval_of s)) = r"
    by (simp add: r_def e_def zipPrevEncodeLength_size_field)
  have rm: "r mod 2 ^ 32 = r" using bd2(2) by simp
  have B: "ZIPLIST_BYTES zl = Some b" unfolding zl' by (rule ZIPLIST_fields) (rule zl(4))
  have nd: "zipPrevLenByteDiff zl p r = Some d"
    using zipPrevLenByteDiff_entry [OF _ ok(1) bd2(3), where pre = "zl_hdr b t n @ eb 0 xs" and p = p and
      post = "zhead c0 @ payload c0 @ eb (esize (b0, c0)) rest @ [ZIP_END]" and m = r]
    unfolding zl' by (simp add: p_def d_def b1_def del: esize.simps)
  have pA: "10 + length (eb 0 xs) = p" by (simp add: p_def)
  have lt: "b + r + 4 < 2 ^ 32" "1 \<le> r" using bd2 r by linarith+
  obtain G where G: "length G = r" and shift: "\<And>f. do {
      zl \<leftarrow> ziplistResize zl (int b + int r + d);
      c \<leftarrow> mem_byte zl p;
      zl \<leftarrow> (if c \<noteq> ZIP_END then do {
               zl \<leftarrow> memmove zl (int p + int r) (int p - d) (int b - int p - 1 + d);
               zl \<leftarrow> mem_write zl (p + r) (zipPrevEncodeLength r);
               t \<leftarrow> ZIPLIST_TAIL_OFFSET zl;
               zl \<leftarrow> set_ZIPLIST_TAIL_OFFSET zl (int t + int r);
               tail \<leftarrow> zipEntry zl (p + r);
               c \<leftarrow> mem_byte zl (p + r + ze_headersize tail + ze_len tail);
               if c \<noteq> ZIP_END then do {
                 t \<leftarrow> ZIPLIST_TAIL_OFFSET zl; set_ZIPLIST_TAIL_OFFSET zl (int t + d) }
               else Some zl }
             else set_ZIPLIST_TAIL_OFFSET zl (int p));
      f zl } = (f (zl_hdr (b + k) (p + r + sizes (butlast ((b1, c0) # rest))) n @
        eb 0 xs @ G @ ebytes r (b1, c0) @ eb (esize (b0, c0)) rest @ [ZIP_END]) :: byte list option)"
    using insert_shift [OF bb tp ok(1,3) b1_def d_def lt(2) r4 lt(1) k(1), of n, folded zl', unfolded pA] by blast
  define z2 where "z2 = zl_hdr (b + k) (p + r + sizes (butlast ((b1, c0) # rest))) n @
        eb 0 xs @ G @ ebytes r (b1, c0) @ eb (esize (b0, c0)) rest @ [ZIP_END]"
  have z2': "z2 = zl_hdr (b + k) (p + r + sizes (butlast ((b1, c0) # rest))) n @
      (eb 0 xs @ G) @ ebytes r (b1, c0) @ eb (esize (b0, c0)) rest @ [ZIP_END]" by (simp add: z2_def)
  have l: "b + k = 10 + length (eb 0 xs @ G) + esize (b1, c0) + sizes rest + 1"
    "p + r + sizes (butlast ((b1, c0) # rest)) = 10 + length (eb 0 xs @ G) + sizes (butlast ((b1, c0) # rest))"
    "b + k + 4 + 4 * length rest < 2 ^ 32" "10 + length (eb 0 xs @ G) = p + r"
    using bb k bd2(1) unfolding d_def by (auto simp: G p_def split: if_splits)
  obtain b' t' es' where link: "(if d \<noteq> 0 then u_ziplistCascadeUpdate z2 (p + r) else Some z2) =
      Some (zl_hdr b' t' n @ eb 0 xs @ G @ ebytes r (b1, c0) @ eb (esize (b1, c0)) es' @ [ZIP_END])"
    "map snd es' = map snd rest" "ents_ok (esize (b1, c0)) es'" "t' = p + r + sizes (butlast ((b1, c0) # es'))"
    "b' = p + r + esize (b1, c0) + sizes es' + 1" "sizes es' \<le> sizes rest + 4 * length rest"
    "esize (b1, c0) < ZIP_BIGLEN \<longrightarrow> es' = rest"
    using relink_ok [OF ok(3) b1' bd2(2) l(1,3,2) d_def z2', unfolded l(4)] by auto
  let ?R = "ebytes r (b1, c0) @ eb (esize (b1, c0)) es' @ [ZIP_END]"
  have H: "length (zl_hdr b' t' n @ eb 0 xs) = p" "length G = esize (\<not> pl < ZIP_BIGLEN, zval_of s)"
    by (simp_all add: p_def G r_def e_def del: esize.simps)
  note wr = write_entry [OF H, of ?R "\<lambda>zl. ZIPLIST_INCR_LENGTH zl 1", unfolded append_assoc, folded e_def]
  obtain n' where n': "ZIPLIST_INCR_LENGTH (zl_hdr b' t' n @ eb 0 xs @ ebytes pl e @ ?R) 1 =
      Some (zl_hdr b' t' n' @ eb 0 xs @ ebytes pl e @ ?R)"
    "n' = UINT16_MAX \<or> n' = length xs + length (y # rest) + 1" "n' \<le> UINT16_MAX"
    using incr_length [OF zl(5,6)] by blast
  have "u_ziplistInsert zl p s = Some (zl_hdr b' t' n' @ eb 0 xs @ ebytes pl e @ ?R)"
    unfolding u_ziplistInsert_def
    by (simp only: B c pv iv rq rm nd shift z2_def [symmetric] link(1) wr n'(1) Option.bind.simps prod.case
      simp_thms if_True)
  moreover have "zl_rep (zl_hdr b' t' n' @ eb 0 xs @ ebytes pl e @ ?R) (xs @ e # (b1, c0) # es')"
  proof (rule zl_repI)
    show "zl_hdr b' t' n' @ eb 0 xs @ ebytes pl e @ ?R = zl_hdr b' t' n' @ eb 0 (xs @ e # (b1, c0) # es') @ [ZIP_END]"
      by (simp add: eb_append pl_def r_def del: esize.simps ebytes.simps)
    show "b' = 10 + sizes (xs @ e # (b1, c0) # es') + 1"
      using link(5) by (simp add: p_def r_def del: esize.simps)
    show "b' < 2 ^ 32" using link(5,6) l(1,3) by (simp add: p_def G del: esize.simps)
    show "t' = 10 + sizes (butlast (xs @ e # (b1, c0) # es'))"
      using link(4) by (simp add: p_def r_def butlast_append del: esize.simps)
    show "n' = UINT16_MAX \<or> n' = length (xs @ e # (b1, c0) # es')"
      using n'(2) map_eq_imp_length_eq [OF link(2)] by auto
    show "ents_ok 0 (xs @ e # (b1, c0) # es')"
      using zl(7) link(3) ok(2) b1' zval_of_ok [of s]
      by (simp add: ents_ok_append pl_def [symmetric] e_def r_def del: esize.simps)
    show "\<not> fst (hd (xs @ e # (b1, c0) # es'))"
      using rep by (cases xs) (simp_all add: e_def pl_def zl_rep_def ZIP_BIGLEN_def)
  qed (rule n'(3))
  moreover have "length (zl_hdr b' t' n' @ eb 0 xs @ ebytes pl e @ ?R) \<le> length zl + length s + 18 + 4 * length rest"
    using link(5,6) l(1) zl(3) k(2) r(2) by (simp add: G p_def r_def del: esize.simps ebytes.simps)
  moreover have "map snd ((b1, c0) # es') = map snd (y # rest)" using link(2) y by simp
  moreover have "fst (b1, c0) = (\<not> esize e < ZIP_BIGLEN)" by (simp add: b1_def r_def del: esize.simps)
  ultimately have "\<exists>zl' y' rest'. u_ziplistInsert zl p s = Some zl' \<and> zl_rep zl' (xs @ e # y' # rest') \<and>
    map snd (y' # rest') = map snd (y # rest) \<and> length zl' \<le> length zl + length s + 18 + 4 * length rest \<and>
    fst y' = (\<not> esize e < ZIP_BIGLEN) \<and> (esize y' < ZIP_BIGLEN \<longrightarrow> rest' = rest)"
    using link(7) by blast
  then show ?thesis unfolding p_def e_def pl_def .
qed

end
