(* ===== verification/ZiplistDel.thy ===== *)
theory ZiplistDel
  imports ZiplistOps
begin

text \<open>
  Deletion from a ziplist: the entries that follow the deleted ones move down, the first of
  them gets the length field of the first deleted entry, and the cascade repairs the chain.
\<close>

section \<open>Deletion\<close>

lemma ze_rawlen_ebytes:
  assumes "length pre = p" and "\<not> fst e \<Longrightarrow> pl < ZIP_BIGLEN" and "pl < 2 ^ 32" and "esize e < 2 ^ 32"
  shows "zipRawEntryLength (pre @ ebytes pl e @ post) p = Some (esize e)"
  using zipEntry_ebytes [OF assms, where post = post] by (auto simp: zipRawEntryLength_def)

lemma last_le_sizes: "xs \<noteq> [] \<Longrightarrow> esize (last xs) \<le> sizes xs"
  by (cases xs rule: rev_cases) simp_all

lemma skip_entries_ok:
  assumes "length pre = p" and "ents_ok pl ys" and "pl < 2 ^ 32" and "sizes ys < 2 ^ 32"
  shows "skip_entries (pre @ eb pl ys @ [ZIP_END]) p num = Some (p + sizes (take num ys), min num (length ys))"
  using assms
proof (induction num arbitrary: pre p pl ys)
  case (Suc num)
  show ?case
  proof (cases ys)
    case Nil
    then show ?thesis using mem_byte_END [OF Suc.prems(1)] by simp
  next
    case (Cons y rest)
    have ok: "\<not> fst y \<Longrightarrow> pl < ZIP_BIGLEN" "ents_ok (esize y) rest" using Suc.prems(2) Cons by auto
    have s: "esize y < 2 ^ 32" "sizes rest < 2 ^ 32" using Suc.prems(4) Cons by simp_all
    obtain c where c: "mem_byte (pre @ eb pl ys @ [ZIP_END]) p = Some c" "c \<noteq> ZIP_END"
      using mem_byte_chain [OF Suc.prems(1,2)] Cons by auto
    have r: "zipRawEntryLength (pre @ eb pl ys @ [ZIP_END]) p = Some (esize y)"
      using ze_rawlen_ebytes [OF Suc.prems(1) ok(1) Suc.prems(3) s(1), where post = "eb (esize y) rest @ [ZIP_END]"] Cons by simp
    have "skip_entries ((pre @ ebytes pl y) @ eb (esize y) rest @ [ZIP_END]) (p + esize y) num =
        Some (p + esize y + sizes (take num rest), min num (length rest))"
      using Suc.prems(1) s ok(2) by (intro Suc.IH) simp_all
    then show ?thesis using c r Cons by (simp add: add.assoc)
  qed
qed simp

text \<open>The length field left of the moved entry after the write still has the size it had.\<close>

lemma stale_field:
  assumes "length pre = p" and "length w = (if b0 then 5 else 1)" and "length F = (if b1 then 5 else 1)"
    and "F = prev_field pl b1" and "w = prev_field pl0 b0" and "\<not> b1 \<Longrightarrow> pl < ZIP_BIGLEN" and "\<not> b0 \<Longrightarrow> pl0 < ZIP_BIGLEN"
    and "pl < 2 ^ 31" and "length D = length Dx" and "Dx @ wx = take (length D + length w - length F) (D @ w) @ F"
    and "b1 \<longrightarrow> 4 \<le> length D"
  shows "\<exists>m. zipPrevDecodeLength (pre @ wx @ post) p = Some (m, length w)"
proof -
  have lwx: "length wx = length w"
    using arg_cong [OF assms(10), of length] assms(2,3,9,11) by (auto split: if_splits)
  have wx: "wx = drop (length D) (take (length D + length w - length F) (D @ w) @ F)"
    using assms(9,10) by (metis append_eq_conv_conj)
  consider "b0 = b1" | "b0" "\<not> b1" | "\<not> b0" b1 by blast
  then show ?thesis
  proof cases
    case 1
    then have "wx = F" using assms(2,3) unfolding wx by simp
    then show ?thesis
      using zipPrevDecodeLength_field [OF assms(1,6), where post = post] assms(2,4,8) 1 by simp
  next
    case 2
    then have "wx = take 4 w @ F" using assms(2,3) unfolding wx by simp
    then have "\<exists>ws. wx = 254 # ws \<and> length ws = 4"
      using 2 assms(3) by (auto simp: assms(5) prev_field_def zipPrevEncodeLengthForceLarge_def ZIP_BIGLEN_def)
    then obtain ws where ws: "wx = 254 # ws" "length ws = 4" by blast
    have "get_field ((pre @ [254]) @ ws @ post) (p + 1) 4 = Some (nat (le_uint ws))"
      using assms(1) ws(2) by (intro get_field_append) simp_all
    then show ?thesis
      using ws assms(1,2) 2 by (simp add: zipPrevDecodeLength_def mem_byte_append ZIP_BIGLEN_def)
  next
    case 3
    then have "wx = drop 4 F" using assms(2,3,11) unfolding wx by simp
    then have "wx = [word_of_int (int pl div 16777216)]"
      using 3 by (simp add: assms(4) prev_field_def zipPrevEncodeLengthForceLarge_def zdiv_zmult2_eq [symmetric])
    moreover have "0 \<le> int pl div 16777216" "int pl div 16777216 < 128" using assms(8) by (simp_all add: div_less_iff_less_mult)
    moreover have "unat (word_of_int (int pl div 16777216) :: byte) = nat (int pl div 16777216)"
      using calculation(2,3) by (simp add: unat_eq_nat_uint uint_word_of_int)
    ultimately show ?thesis
      using assms(1,2) 3 by (simp add: zipPrevDecodeLength_def mem_byte_append ZIP_BIGLEN_def nat_less_iff)
  qed
qed


text \<open>Resizing to a smaller block.\<close>

lemma ziplistResize_less:
  assumes "v = int (10 + length xs + 1)" and "10 + length xs + 1 < 2 ^ 32" and "1 \<le> length junk"
  shows "ziplistResize (zl_hdr b t n @ xs @ junk) v = Some (zl_hdr (10 + length xs + 1) t n @ xs @ [ZIP_END])"
proof -
  have "take (10 + length xs + 1 - 11) (zrealloc (xs @ junk) (10 + length xs + 1 - 10)) = xs"
    using assms(3) by (simp add: zrealloc_def)
  then show ?thesis using ziplistResize_hdr [OF assms(1) _ assms(2), of b t n "xs @ junk"] by simp
qed

lemma mem_move_low:
  assumes "length H = p" and "length D = m"
  shows "mem_move (H @ D @ X @ Y) p (p + m) (length X) = Some (H @ X @ drop (length X) (D @ X @ Y))"
proof -
  have "mem_read ((H @ D) @ X @ Y) (p + m) (length X) = Some X"
    using assms by (intro mem_read_append) simp_all
  then show ?thesis using assms by (simp add: mem_move_def mem_write_def)
qed

text \<open>The middle part of \<^verbatim>\<open>__ziplistDelete\<close>: the entries behind the deleted bytes \<open>D\<close> move down.\<close>

lemma delete_shift:
  assumes p: "p = 10 + length A" and q: "q = p + length D" and D: "b1 \<longrightarrow> 4 \<le> length D"
    and b: "b = q + esize (b0, c0) + sizes rest + 1" "b < 2 ^ 32" and t: "t = q + sizes (butlast ((b0, c0) # rest))"
    and ok: "\<not> b0 \<Longrightarrow> pl0 < ZIP_BIGLEN" "ents_ok (esize (b0, c0)) rest" "pl < 2 ^ 31"
    and b1: "b1 \<longleftrightarrow> \<not> pl < ZIP_BIGLEN" and d: "d = (if b1 then 5 else 1) - (if b0 then 5 else (1 :: int))"
    and zl: "zl = zl_hdr b t n @ A @ D @ ebytes pl0 (b0, c0) @ eb (esize (b0, c0)) rest @ [ZIP_END]"
  shows "\<exists>junk. 1 \<le> length junk \<and> (\<forall>f. do {
      zl \<leftarrow> mem_write zl (nat (int q - d)) (zipPrevEncodeLength pl);
      t \<leftarrow> ZIPLIST_TAIL_OFFSET zl;
      zl \<leftarrow> set_ZIPLIST_TAIL_OFFSET zl (int t - int (length D));
      tail \<leftarrow> zipEntry zl q;
      c \<leftarrow> mem_byte zl (q + ze_rawlen tail);
      zl \<leftarrow> (if c \<noteq> ZIP_END then do {
               t \<leftarrow> ZIPLIST_TAIL_OFFSET zl; set_ZIPLIST_TAIL_OFFSET zl (int t + d) }
             else Some zl);
      bytes \<leftarrow> ZIPLIST_BYTES zl;
      zl \<leftarrow> memmove zl (int p) (int q - d) (int bytes - int q - 1 + d);
      f zl } = (f (zl_hdr b (p + sizes (butlast ((b1, c0) # rest))) n @
        (A @ ebytes pl (b1, c0) @ eb (esize (b0, c0)) rest) @ junk) :: (byte list \<times> int) option))"
proof -
  define w F R where "w = prev_field pl0 b0" and "F = prev_field pl b1" and "R = zhead c0 @ payload c0 @ eb (esize (b0, c0)) rest"
  have lens: "length w = (if b0 then 5 else 1)" "length F = (if b1 then 5 else 1)"
    by (simp_all add: length_prev_field w_def F_def)
  define D2 where "D2 = take (length D + length w - length F) (D @ w)"
  have lD2: "length D2 + length F = length D + length w" using D lens unfolding D2_def by (auto split: if_splits)
  have zl1: "zl = zl_hdr b t n @ A @ (D @ w) @ R @ [ZIP_END]" unfolding zl by (simp add: w_def R_def del: esize.simps)
  have pos: "nat (int q - d) = q + length w - length F" "int q - d = int (q + length w - length F)"
    using q D unfolding d lens by (auto split: if_splits)
  have w1: "mem_write zl (nat (int q - d)) (zipPrevEncodeLength pl) = Some (zl_hdr b t n @ A @ D2 @ F @ R @ [ZIP_END])"
  proof -
    have sp: "D @ w = D2 @ drop (length D + length w - length F) (D @ w)" by (simp only: D2_def append_take_drop_id)
    have at: "length (zl_hdr b t n @ A @ D2) = q + length w - length F" using lD2 by (simp add: p q)
    have lw: "length F = length (drop (length D + length w - length F) (D @ w))" using lens D by simp
    have "zl = (zl_hdr b t n @ A @ D2) @ drop (length D + length w - length F) (D @ w) @ R @ [ZIP_END]"
      unfolding zl1 by (subst sp) simp
    then show ?thesis
      using mem_write_append [OF at lw, of "R @ [ZIP_END]"]
      unfolding zipPrevEncodeLength_field pos(1) b1 [symmetric] F_def [symmetric] by simp
  qed
  have tb: "t < b" using b t by (cases rest rule: rev_cases) (auto simp: butlast_append)
  have tD: "length D \<le> t" using t q by simp
  have T: "ZIPLIST_TAIL_OFFSET (zl_hdr b t n @ X) = Some t"
    "set_ZIPLIST_TAIL_OFFSET (zl_hdr b t n @ X) (int t - int (length D)) = Some (zl_hdr b (t - length D) n @ X)" for X
    using tb b(2) tD by (auto intro!: ZIPLIST_fields set_ZIPLIST_fields)
  define Dx wx where "Dx = take (length D) (D2 @ F)" and "wx = drop (length D) (D2 @ F)"
  have DF: "D2 @ F = Dx @ wx" by (simp only: Dx_def wx_def append_take_drop_id)
  have lx: "length Dx = length D" "length wx = length w" using lD2 by (simp_all add: Dx_def wx_def lens)
  let ?pre = "zl_hdr b (t - length D) n @ A @ Dx"
  have zq: "zl_hdr b (t - length D) n @ A @ D2 @ F @ R @ [ZIP_END] =
      ?pre @ wx @ zhead c0 @ payload c0 @ eb (esize (b0, c0)) rest @ [ZIP_END]"
  proof -
    have "zl_hdr b (t - length D) n @ A @ D2 @ F @ R @ [ZIP_END] = zl_hdr b (t - length D) n @ A @ (D2 @ F) @ R @ [ZIP_END]"
      by simp
    also have "\<dots> = zl_hdr b (t - length D) n @ A @ (Dx @ wx) @ R @ [ZIP_END]" by (simp only: DF)
    finally show ?thesis by (simp add: R_def del: esize.simps)
  qed
  have lpre: "length ?pre = q" using lx p q by simp
  have b1': "\<not> b1 \<Longrightarrow> pl < ZIP_BIGLEN" using b1 by simp
  obtain m where "zipPrevDecodeLength (?pre @ wx @ zhead c0 @ payload c0 @ eb (esize (b0, c0)) rest @ [ZIP_END]) q = Some (m, length wx)"
    using stale_field [OF lpre lens F_def w_def b1' ok(1,3) lx(1) [symmetric] DF [symmetric, unfolded D2_def] D] lx(2) by metis
  from zipEntry_any [OF lpre this] obtain tail where
    tail: "zipEntry (zl_hdr b (t - length D) n @ A @ D2 @ F @ R @ [ZIP_END]) q = Some tail" "ze_rawlen tail = esize (b0, c0)"
    using b unfolding zq ze_rawlen_def by (auto simp: lx(2) lens)
  have "length (?pre @ wx @ zhead c0 @ payload c0) = q + esize (b0, c0)"
    using lpre by (simp add: lx(2) lens)
  from mem_byte_chain [OF this ok(2)] obtain c where
    c: "mem_byte (zl_hdr b (t - length D) n @ A @ D2 @ F @ R @ [ZIP_END]) (q + esize (b0, c0)) = Some c" "c = ZIP_END \<longleftrightarrow> rest = []"
    unfolding zq append_assoc by blast
  define t2 where "t2 = p + sizes (butlast ((b1, c0) # rest))"
  have tl: "(if c \<noteq> ZIP_END then do { u \<leftarrow> ZIPLIST_TAIL_OFFSET (zl_hdr b (t - length D) n @ X);
      set_ZIPLIST_TAIL_OFFSET (zl_hdr b (t - length D) n @ X) (int u + d) } else Some (zl_hdr b (t - length D) n @ X)) =
      Some (zl_hdr b t2 n @ X)" for X
  proof (cases "rest = []")
    case True
    then show ?thesis using c(2) t q by (simp add: t2_def)
  next
    case False
    then have "int (t - length D) + d = int t2" unfolding t t2_def q d by simp
    moreover have "ZIPLIST_TAIL_OFFSET (zl_hdr b (t - length D) n @ X) = Some (t - length D)"
      using tb b(2) by (intro ZIPLIST_fields) simp
    ultimately show ?thesis using False c(2) set_ZIPLIST_fields(2) by simp
  qed
  have B: "ZIPLIST_BYTES (zl_hdr b t2 n @ X) = Some b" for X by (rule ZIPLIST_fields) (rule b(2))
  have mv: "memmove (zl_hdr b t2 n @ A @ D2 @ F @ R @ [ZIP_END]) (int p) (int q - d) (int b - int q - 1 + d) =
      Some (zl_hdr b t2 n @ (A @ ebytes pl (b1, c0) @ eb (esize (b0, c0)) rest) @ drop (length (F @ R)) (D2 @ (F @ R) @ [ZIP_END]))"
  proof -
    have src: "int q - d = int (p + length D2)" using pos(2) q lD2 by simp
    have k: "int b - int q - 1 + d = int (length (F @ R))" using b(1) by (simp add: d R_def lens)
    have "mem_move ((zl_hdr b t2 n @ A) @ D2 @ (F @ R) @ [ZIP_END]) p (p + length D2) (length (F @ R)) =
        Some ((zl_hdr b t2 n @ A) @ (F @ R) @ drop (length (F @ R)) (D2 @ (F @ R) @ [ZIP_END]))"
      using p by (intro mem_move_low) simp_all
    then show ?thesis
      unfolding src k memmove_int by (simp add: F_def R_def del: esize.simps)
  qed
  have run: "do {
      zl \<leftarrow> mem_write zl (nat (int q - d)) (zipPrevEncodeLength pl);
      t \<leftarrow> ZIPLIST_TAIL_OFFSET zl;
      zl \<leftarrow> set_ZIPLIST_TAIL_OFFSET zl (int t - int (length D));
      tail \<leftarrow> zipEntry zl q;
      c \<leftarrow> mem_byte zl (q + ze_rawlen tail);
      zl \<leftarrow> (if c \<noteq> ZIP_END then do {
               t \<leftarrow> ZIPLIST_TAIL_OFFSET zl; set_ZIPLIST_TAIL_OFFSET zl (int t + d) }
             else Some zl);
      bytes \<leftarrow> ZIPLIST_BYTES zl;
      zl \<leftarrow> memmove zl (int p) (int q - d) (int bytes - int q - 1 + d);
      f zl } = f (zl_hdr b t2 n @ (A @ ebytes pl (b1, c0) @ eb (esize (b0, c0)) rest) @
        drop (length (F @ R)) (D2 @ (F @ R) @ [ZIP_END]))" for f :: "byte list \<Rightarrow> (byte list \<times> int) option"
    by (simp only: w1 T tail c(1) tl B mv Option.bind.simps)
  show ?thesis
    by (intro exI [of _ "drop (length (F @ R)) (D2 @ (F @ R) @ [ZIP_END])"] conjI allI)
      (simp, rule run [unfolded t2_def])
qed


text \<open>What the first part of \<^verbatim>\<open>__ziplistDelete\<close> learns.\<close>

lemma delete_prefix:
  assumes rep: "zl_rep zl (xs @ y # ys)" and p: "p = 10 + sizes xs"
  shows "\<exists>first. zipEntry zl p = Some first \<and> ze_p first = p \<and> ze_prevrawlen first = last_size 0 xs \<and>
    skip_entries zl p num = Some (p + sizes (take num (y # ys)), min num (length (y # ys)))"
proof -
  obtain b n where zl: "zl = zl_hdr b (10 + sizes (butlast (xs @ y # ys))) n @ eb 0 xs @ eb (last_size 0 xs) (y # ys) @ [ZIP_END]"
    "b = 10 + sizes xs + sizes (y # ys) + 1" "b < 2 ^ 32" "ents_ok (last_size 0 xs) (y # ys)" "last_size 0 xs \<le> sizes xs"
    by (rule zl_repE [OF rep])
  let ?pre = "zl_hdr b (10 + sizes (butlast (xs @ y # ys))) n @ eb 0 xs"
  have lp: "length ?pre = p" by (simp add: p)
  have lt: "last_size 0 xs < 2 ^ 32" "sizes (y # ys) < 2 ^ 32" "esize y < 2 ^ 32" using zl(2,3,5) by simp_all
  have ok: "\<not> fst y \<Longrightarrow> last_size 0 xs < ZIP_BIGLEN" using zl(4) by simp
  have z: "zl = ?pre @ eb (last_size 0 xs) (y # ys) @ [ZIP_END]" using zl(1) by simp
  have "skip_entries zl p num = Some (p + sizes (take num (y # ys)), min num (length (y # ys)))"
    unfolding z by (rule skip_entries_ok [OF lp zl(4) lt(1,2)])
  moreover obtain first where "zipEntry zl p = Some first" "ze_p first = p" "ze_prevrawlen first = last_size 0 xs"
    using zipEntry_ebytes [OF lp ok lt(1,3), where post = "eb (esize y) ys @ [ZIP_END]"] unfolding z eb.simps append_assoc by blast
  ultimately show ?thesis by blast
qed

lemma delete_end_ok:
  assumes rep: "zl_rep zl (xs @ y # ys)" and num: "length (y # ys) \<le> num"
  shows "\<exists>zl'. u_ziplistDelete zl (10 + sizes xs) num = Some zl' \<and> zl_rep zl' xs \<and> length zl' \<le> length zl"
proof -
  define p pl where "p = 10 + sizes xs" and "pl = last_size 0 xs"
  obtain b n where zl: "zl = zl_hdr b (10 + sizes (butlast (xs @ y # ys))) n @ eb 0 xs @ eb (last_size 0 xs) (y # ys) @ [ZIP_END]"
    "b = 10 + sizes xs + sizes (y # ys) + 1" "b = length zl" "b < 2 ^ 32" "n = UINT16_MAX \<or> n = length xs + length (y # ys)" "n \<le> UINT16_MAX"
    "ents_ok 0 xs" by (rule zl_repE [OF rep])
  define t D where "t = 10 + sizes (butlast (xs @ y # ys))" and "D = eb (last_size 0 xs) (y # ys)"
  have z: "zl = zl_hdr b t n @ eb 0 xs @ D @ [ZIP_END]" using zl(1) by (simp only: t_def D_def append_assoc)
  have lD: "length D = sizes (y # ys)" by (simp only: D_def length_eb)
  obtain first where first: "zipEntry zl p = Some first" "ze_p first = p" "ze_prevrawlen first = pl"
    "skip_entries zl p num = Some (p + length D, length (y # ys))"
    using delete_prefix [OF rep p_def, of num] num lD by (auto simp: pl_def)
  have tot: "(p + length D - p) mod 2 ^ 32 = length D" using zl(2,4) lD by simp
  have pos: "length D > 0" by (simp add: lD)
  have c: "mem_byte zl (p + length D) = Some ZIP_END"
    using mem_byte_END [of "zl_hdr b t n @ eb 0 xs @ D" "p + length D"] unfolding z by (simp add: p_def)
  define t2 where "t2 = 10 + sizes (butlast xs)"
  have pt: "int p - int pl = int t2"
    using last_le_sizes [of xs] by (cases "xs = []") (simp_all add: p_def pl_def t2_def sizes_butlast last_size_def)
  have T: "set_ZIPLIST_TAIL_OFFSET zl (int p - int pl) = Some (zl_hdr b t2 n @ eb 0 xs @ D @ [ZIP_END])"
    unfolding z by (rule set_ZIPLIST_fields) (rule pt)
  have B: "ZIPLIST_BYTES (zl_hdr b t2 n @ eb 0 xs @ D @ [ZIP_END]) = Some b" by (rule ZIPLIST_fields) (rule zl(4))
  have R: "ziplistResize (zl_hdr b t2 n @ eb 0 xs @ D @ [ZIP_END]) (int b - int (length D) + 0) =
      Some (zl_hdr (10 + length (eb 0 xs) + 1) t2 n @ eb 0 xs @ [ZIP_END])"
    using zl(2,4) lD by (intro ziplistResize_less) simp_all
  obtain n' where n': "ZIPLIST_INCR_LENGTH (zl_hdr (10 + length (eb 0 xs) + 1) t2 n @ eb 0 xs @ [ZIP_END]) (- int (length (y # ys))) =
      Some (zl_hdr (10 + length (eb 0 xs) + 1) t2 n' @ eb 0 xs @ [ZIP_END])" "n' = UINT16_MAX \<or> n' = length xs" "n' \<le> UINT16_MAX"
    using decr_length [OF zl(5,6) le_add2, of "10 + length (eb 0 xs) + 1" t2 "eb 0 xs @ [ZIP_END]"] by (metis add_diff_cancel_right')
  have "u_ziplistDelete zl p num = Some (zl_hdr (10 + length (eb 0 xs) + 1) t2 n' @ eb 0 xs @ [ZIP_END])"
    unfolding u_ziplistDelete_def
    by (simp only: first tot c pos T B R n'(1) Option.bind.simps prod.case simp_thms if_True if_False)
  moreover have "zl_rep (zl_hdr (10 + length (eb 0 xs) + 1) t2 n' @ eb 0 xs @ [ZIP_END]) xs"
  proof (rule zl_repI [OF refl])
    show "xs \<noteq> [] \<Longrightarrow> \<not> fst (hd xs)" using rep by (cases xs) (auto simp: zl_rep_def)
  qed (use zl(2,4,7) n'(2,3) in \<open>simp_all add: t2_def\<close>)
  ultimately show ?thesis using zl(2,3) by (auto simp: p_def)
qed

lemma delete_mid_ok:
  assumes rep: "zl_rep zl (xs @ del @ y # rest)" and del: "del \<noteq> []"
    and bd: "length zl + 4 * length rest + 12 < 2 ^ 31"
  shows "\<exists>zl' y' rest'. u_ziplistDelete zl (10 + sizes xs) (length del) = Some zl' \<and>
    zl_rep zl' (xs @ y' # rest') \<and> map snd (y' # rest') = map snd (y # rest) \<and> length zl' \<le> length zl + 4 * length rest + 4 \<and>
    fst y' = (\<not> last_size 0 xs < ZIP_BIGLEN) \<and> (rest \<noteq> [] \<and> fst (hd rest) \<or> esize y' < ZIP_BIGLEN \<longrightarrow> rest' = rest)"
proof -
  obtain b0 c0 where y: "y = (b0, c0)" by (cases y)
  define p pl pl0 where "p = 10 + sizes xs" and "pl = last_size 0 xs" and "pl0 = last_size pl del"
  define b1 d where "b1 \<longleftrightarrow> \<not> pl < ZIP_BIGLEN" and "d = (if b1 then 5 else 1) - (if b0 then 5 else (1 :: int))"
  obtain b n where zl: "zl = zl_hdr b (10 + sizes (butlast (xs @ del @ y # rest))) n @ eb 0 xs @ eb (last_size 0 xs) (del @ y # rest) @ [ZIP_END]"
    "b = 10 + sizes xs + sizes (del @ y # rest) + 1" "b = length zl" "b < 2 ^ 32"
    "n = UINT16_MAX \<or> n = length xs + length (del @ y # rest)" "n \<le> UINT16_MAX"
    "ents_ok 0 xs" "ents_ok (last_size 0 xs) (del @ y # rest)" "last_size 0 xs \<le> sizes xs"
    by (rule zl_repE [OF rep])
  define D t where "D = eb pl del" and "t = 10 + sizes (butlast (xs @ del @ y # rest))"
  have z: "zl = zl_hdr b t n @ eb 0 xs @ D @ ebytes pl0 (b0, c0) @ eb (esize (b0, c0)) rest @ [ZIP_END]"
    using zl(1) by (simp add: eb_append D_def pl_def pl0_def t_def y del: esize.simps ebytes.simps)
  have lD: "length D = sizes del" by (simp add: D_def)
  obtain e1 del' where del': "del = e1 # del'" using del by (cases del) auto
  have e1: "\<not> b1 \<or> fst e1" using zl(8) by (auto simp: del' b1_def pl_def)
  obtain first where first: "zipEntry zl p = Some first" "ze_p first = p" "ze_prevrawlen first = pl"
    "skip_entries zl p (length del) = Some (p + length D, length del)"
    using delete_prefix [of zl xs e1 "del' @ y # rest" p "length del"] rep lD by (auto simp: del' p_def pl_def)
  have D4: "b1 \<longrightarrow> 4 \<le> length D" using e1 by (cases e1) (auto simp: lD del')
  have D1: "0 < length D" using del sizes_0 [of del] lD by linarith
  have tot: "(p + length D - p) mod 2 ^ 32 = length D" using zl(2,4) lD by simp
  define q where "q = p + length D"
  have b: "b = q + esize (b0, c0) + sizes rest + 1" using zl(2) by (simp add: q_def p_def lD y)
  have t: "t = q + sizes (butlast ((b0, c0) # rest))" by (simp add: t_def q_def p_def lD y butlast_append)
  have ok: "\<not> b0 \<Longrightarrow> pl0 < ZIP_BIGLEN" "zval_ok c0" "ents_ok (esize (b0, c0)) rest"
    using zl(8) by (simp_all add: y pl_def pl0_def ents_ok_append del: esize.simps)
  have ltb: "pl < 2 ^ 31" "pl < 2 ^ 32" "pl0 < 2 ^ 32"
    using bd zl(2,3,9) last_le_sizes [OF del] del unfolding pl_def pl0_def by (simp_all add: last_size_def)
  have pA: "p = 10 + length (eb 0 xs)" by (simp add: p_def)
  have nd: "zipPrevLenByteDiff zl q pl = Some d"
    using zipPrevLenByteDiff_entry [OF _ ok(1) ltb(3), where pre = "zl_hdr b t n @ eb 0 xs @ D" and p = q and
      post = "zhead c0 @ payload c0 @ eb (esize (b0, c0)) rest @ [ZIP_END]" and m = pl]
    unfolding z by (simp add: q_def p_def d_def b1_def del: esize.simps)
  have qd: "0 \<le> int q - d" by (simp add: q_def p_def d_def)
  have "length (zl_hdr b t n @ eb 0 xs @ D) = q" by (simp add: q_def p_def)
  then obtain c where c: "mem_byte zl q = Some c" "c \<noteq> ZIP_END"
    using mem_byte_ebytes [of "zl_hdr b t n @ eb 0 xs @ D" q "(b0, c0)" pl0 "eb (esize (b0, c0)) rest @ [ZIP_END]"]
      ok(1) unfolding z append_assoc fst_conv by metis
  define t2 where "t2 = p + sizes (butlast ((b1, c0) # rest))"
  let ?X = "eb 0 xs @ ebytes pl (b1, c0) @ eb (esize (b0, c0)) rest"
  obtain junk where junk: "1 \<le> length junk" and shift: "\<And>f. do {
      zl \<leftarrow> mem_write zl (nat (int q - d)) (zipPrevEncodeLength pl);
      t \<leftarrow> ZIPLIST_TAIL_OFFSET zl;
      zl \<leftarrow> set_ZIPLIST_TAIL_OFFSET zl (int t - int (length D));
      tail \<leftarrow> zipEntry zl q;
      c \<leftarrow> mem_byte zl (q + ze_rawlen tail);
      zl \<leftarrow> (if c \<noteq> ZIP_END then do {
               t \<leftarrow> ZIPLIST_TAIL_OFFSET zl; set_ZIPLIST_TAIL_OFFSET zl (int t + d) }
             else Some zl);
      bytes \<leftarrow> ZIPLIST_BYTES zl;
      zl \<leftarrow> memmove zl (int p) (int q - d) (int bytes - int q - 1 + d);
      f zl } = (f (zl_hdr b t2 n @ ?X @ junk) :: (byte list \<times> int) option)"
    using delete_shift [OF pA q_def D4 b zl(4) t ok(1,3) ltb(1) b1_def d_def z] unfolding t2_def by blast
  define b' where "b' = 10 + length ?X + 1"
  have B: "ZIPLIST_BYTES (zl_hdr b t2 n @ ?X @ junk) = Some b" by (rule ZIPLIST_fields) (rule zl(4))
  have bd': "int b - int (length D) + d = int b'" using b pA by (simp add: b'_def q_def d_def length_prev_field)
  have bb: "b' \<le> b + 4" using bd' D1 by (auto simp: d_def split: if_splits)
  then have b32: "b' + 4 + 4 * length rest < 2 ^ 32" using bd zl(3) by simp
  then have b32': "10 + length ?X + 1 < 2 ^ 32" unfolding b'_def by linarith
  have R: "ziplistResize (zl_hdr b t2 n @ ?X @ junk) (int b - int (length D) + d) = Some (zl_hdr b' t2 n @ ?X @ [ZIP_END])"
    unfolding bd' unfolding b'_def by (rule ziplistResize_less [OF refl b32' junk])
  have dl: "length del \<le> length xs + length (del @ y # rest)" by simp
  obtain n' where n': "ZIPLIST_INCR_LENGTH (zl_hdr b' t2 n @ ?X @ [ZIP_END]) (- int (length del)) = Some (zl_hdr b' t2 n' @ ?X @ [ZIP_END])"
    "n' = UINT16_MAX \<or> n' = length xs + length (del @ y # rest) - length del" "n' \<le> UINT16_MAX"
    using decr_length [OF zl(5,6) dl, of b' t2 "?X @ [ZIP_END]"] unfolding append_assoc by blast
  define z2 where "z2 = zl_hdr b' t2 n' @ ?X @ [ZIP_END]"
  have z2': "z2 = zl_hdr b' t2 n' @ eb 0 xs @ ebytes pl (b1, c0) @ eb (esize (b0, c0)) rest @ [ZIP_END]" by (simp only: z2_def append_assoc)
  have l: "b' = 10 + length (eb 0 xs) + esize (b1, c0) + sizes rest + 1"
    "t2 = 10 + length (eb 0 xs) + sizes (butlast ((b1, c0) # rest))" "10 + length (eb 0 xs) = p" "\<not> b1 \<Longrightarrow> pl < ZIP_BIGLEN"
    by (simp_all add: b'_def t2_def p_def b1_def del: esize.simps ebytes.simps)
  obtain b2 t3 es' where link: "(if d \<noteq> 0 then u_ziplistCascadeUpdate z2 p else Some z2) =
      Some (zl_hdr b2 t3 n' @ eb 0 xs @ ebytes pl (b1, c0) @ eb (esize (b1, c0)) es' @ [ZIP_END])"
    "map snd es' = map snd rest" "ents_ok (esize (b1, c0)) es'" "t3 = p + sizes (butlast ((b1, c0) # es'))"
    "b2 = p + esize (b1, c0) + sizes es' + 1" "sizes es' \<le> sizes rest + 4 * length rest"
    "rest \<noteq> [] \<and> fst (hd rest) \<or> esize (b1, c0) < ZIP_BIGLEN \<longrightarrow> es' = rest"
    using relink_ok [OF ok(3) l(4) ltb(2) l(1) b32 l(2) d_def z2', unfolded l(3)] by auto
  have "u_ziplistDelete zl p (length del) = Some (zl_hdr b2 t3 n' @ eb 0 xs @ ebytes pl (b1, c0) @ eb (esize (b1, c0)) es' @ [ZIP_END])"
    unfolding u_ziplistDelete_def
    by (simp only: first tot [folded q_def] D1 q_def [symmetric] c nd qd require_bind shift B R n'(1) z2_def [symmetric] link(1)
      Option.bind.simps prod.case simp_thms if_True)
  moreover have "zl_rep (zl_hdr b2 t3 n' @ eb 0 xs @ ebytes pl (b1, c0) @ eb (esize (b1, c0)) es' @ [ZIP_END]) (xs @ (b1, c0) # es')"
  proof (rule zl_repI)
    show "b2 < 2 ^ 32" using link(5,6) l(1) b32 by (simp add: p_def del: esize.simps)
    show "n' = UINT16_MAX \<or> n' = length (xs @ (b1, c0) # es')"
      using n'(2) map_eq_imp_length_eq [OF link(2)] by auto
    show "\<not> fst (hd (xs @ (b1, c0) # es'))"
      using rep by (cases xs) (simp_all add: b1_def pl_def zl_rep_def ZIP_BIGLEN_def)
  qed (use link zl(7) ok(2) l(4) n'(3) in
    \<open>simp_all add: eb_append pl_def [symmetric] p_def butlast_append ents_ok_append add.assoc del: esize.simps ebytes.simps\<close>)
  moreover have "length (zl_hdr b2 t3 n' @ eb 0 xs @ ebytes pl (b1, c0) @ eb (esize (b1, c0)) es' @ [ZIP_END]) \<le> length zl + 4 * length rest + 4"
    using link(5,6) l(1) zl(3) bb by (simp add: p_def del: esize.simps ebytes.simps)
  moreover have "map snd ((b1, c0) # es') = map snd (y # rest)" using link(2) y by simp
  moreover have "fst (b1, c0) = (\<not> last_size 0 xs < ZIP_BIGLEN)" by (simp add: b1_def pl_def)
  ultimately show ?thesis using link(7) unfolding p_def [symmetric] by blast
qed

end
