(* ===== verification/ZiplistList.thy ===== *)
theory ZiplistList
  imports ZiplistDel
begin

text \<open>
  The ziplist as a list of byte strings: lookup by index from both ends, traversal in both
  directions, reading, comparison and the length; and the refinement of the interface by the
  operations on lists. The last section shows the one case in which an insertion corrupts
  the list.
\<close>

section \<open>Positions\<close>

definition zl_pos :: "(bool \<times> zval) list \<Rightarrow> nat \<Rightarrow> nat" where
  "zl_pos es n = 10 + sizes (take n es)"

definition texts :: "(bool \<times> zval) list \<Rightarrow> byte list list" where
  "texts es = map (\<lambda>e. ztext (snd e)) es"

lemma length_texts [simp]: "length (texts es) = length es"
  by (simp add: texts_def)

lemma texts_simps [simp]:
  "texts [] = []" "texts (e # es) = ztext (snd e) # texts es" "texts (xs @ ys) = texts xs @ texts ys"
  by (simp_all add: texts_def)

lemma texts_map_snd: "map snd es = map snd es' \<Longrightarrow> texts es = texts es'"
proof -
  assume "map snd es = map snd es'"
  then have "map ztext (map snd es) = map ztext (map snd es')" by simp
  then show ?thesis by (simp add: texts_def comp_def)
qed

lemma split_at:
  assumes "n < length es"
  obtains xs y rest where "es = xs @ y # rest" "length xs = n" "take n es = xs" "drop n es = y # rest" "es ! n = y"
proof (rule that [of "take n es" "es ! n" "drop (Suc n) es"])
  show "es = take n es @ es ! n # drop (Suc n) es" by (rule id_take_nth_drop [OF assms])
  show "drop n es = es ! n # drop (Suc n) es" using assms by (simp add: Cons_nth_drop_Suc)
qed (use assms in simp_all)

text \<open>What can be read at the position of an entry, and at the end.\<close>

lemma at_entry:
  assumes rep: "zl_rep zl (xs @ y # rest)" and p: "p = 10 + sizes xs"
  shows "\<exists>c e. mem_byte zl p = Some c \<and> c \<noteq> ZIP_END \<and> zipEntry zl p = Some e \<and>
    ze_prevrawlen e = last_size 0 xs \<and> ze_rawlen e = esize y \<and> ze_encoding e = zenc (snd y) \<and>
    ze_len e = length (payload (snd y)) \<and>
    mem_read zl (p + ze_headersize e) (length (payload (snd y))) = Some (payload (snd y)) \<and> zval_ok (snd y)"
proof -
  obtain b n where zl: "zl = zl_hdr b (10 + sizes (butlast (xs @ y # rest))) n @ eb 0 xs @ eb (last_size 0 xs) (y # rest) @ [ZIP_END]"
    "b = 10 + sizes xs + sizes (y # rest) + 1" "b < 2 ^ 32" "ents_ok (last_size 0 xs) (y # rest)" "last_size 0 xs \<le> sizes xs"
    by (rule zl_repE [OF rep])
  let ?pre = "zl_hdr b (10 + sizes (butlast (xs @ y # rest))) n @ eb 0 xs"
  have lp: "length ?pre = p" by (simp add: p)
  have lt: "last_size 0 xs < 2 ^ 32" "esize y < 2 ^ 32" using zl(2,3,5) by simp_all
  have ok: "\<not> fst y \<Longrightarrow> last_size 0 xs < ZIP_BIGLEN" using zl(4) by simp
  have z: "zl = ?pre @ ebytes (last_size 0 xs) y @ eb (esize y) rest @ [ZIP_END]" using zl(1) by simp
  obtain c where "mem_byte zl p = Some c" "c \<noteq> ZIP_END"
    using mem_byte_ebytes [OF lp ok, where post = "eb (esize y) rest @ [ZIP_END]"] unfolding z by blast
  moreover obtain e where "zipEntry zl p = Some e" "ze_prevrawlen e = last_size 0 xs" "ze_rawlen e = esize y"
    "ze_encoding e = zenc (snd y)" "ze_len e = length (payload (snd y))"
    "ze_headersize e = (if fst y then 5 else 1) + length (zhead (snd y))"
    using zipEntry_ebytes [OF lp ok lt, where post = "eb (esize y) rest @ [ZIP_END]"] unfolding z by blast
  moreover have "mem_read zl (p + ((if fst y then 5 else 1) + length (zhead (snd y)))) (length (payload (snd y))) =
      Some (payload (snd y))"
    using mem_read_append [of "?pre @ prev_field (last_size 0 xs) (fst y) @ zhead (snd y)"
      "p + ((if fst y then 5 else 1) + length (zhead (snd y)))" "payload (snd y)" _ "eb (esize y) rest @ [ZIP_END]"]
    unfolding z by (cases y) (simp add: length_prev_field p)
  moreover have "zval_ok (snd y)" using zl(4) by simp
  ultimately show ?thesis by auto
qed

lemma at_end: "zl_rep zl es \<Longrightarrow> mem_byte zl (10 + sizes es) = Some ZIP_END"
  using insert_prevlen [of zl es "[]"] by auto

lemma zl_repE1:
  assumes "zl_rep zl es"
  obtains n where "zl = zl_hdr (11 + sizes es) (10 + sizes (butlast es)) n @ eb 0 es @ [ZIP_END]"
    "n = UINT16_MAX \<or> n = length es" "n \<le> UINT16_MAX" "11 + sizes es < 2 ^ 32" "length zl = 11 + sizes es"
proof -
  from assms obtain n where n: "n = UINT16_MAX \<or> n = length es" "n \<le> UINT16_MAX"
    "zl = zl_hdr (length zl) (10 + sizes (butlast es)) n @ eb 0 es @ [ZIP_END]" "length zl < 2 ^ 32"
    unfolding zl_rep_def by blast
  have l: "length zl = 11 + sizes es" using arg_cong [OF n(3), of length] by simp
  then show thesis using n by (intro that [of n]) simp_all
qed

lemma zl_bytes: "zl_rep zl es \<Longrightarrow> ZIPLIST_BYTES zl = Some (11 + sizes es)"
  by (erule zl_repE1) (simp add: ZIPLIST_fields)

lemma zl_length: "zl_rep zl es \<Longrightarrow> length zl = 11 + sizes es \<and> 11 + sizes es < 2 ^ 32"
  by (erule zl_repE1) simp

lemma zl_tail:
  assumes "zl_rep zl es"
  shows "ZIPLIST_TAIL_OFFSET zl = Some (10 + sizes (butlast es))"
proof (rule zl_repE1 [OF assms])
  fix n assume z: "zl = zl_hdr (11 + sizes es) (10 + sizes (butlast es)) n @ eb 0 es @ [ZIP_END]" "11 + sizes es < 2 ^ 32"
  have "10 + sizes (butlast es) < 2 ^ 32" using z(2) by (cases es rule: rev_cases) simp_all
  then show ?thesis unfolding z(1) by (rule ZIPLIST_fields)
qed

section \<open>Lookup by index\<close>

lemma index_forward_ok:
  "zl_rep zl (xs @ ys) \<Longrightarrow> index_forward zl i (10 + sizes xs) =
     Some (if i < length ys then (10 + sizes (xs @ take i ys), -1) else (10 + sizes (xs @ ys), int (i - length ys)))"
proof (induction i arbitrary: xs ys)
  case 0
  then show ?case
    using at_end [of zl xs] at_entry [of zl xs "hd ys" "tl ys" "10 + sizes xs"] by (cases ys) auto
next
  case (Suc i)
  show ?case
  proof (cases ys)
    case Nil
    then show ?thesis using at_end [of zl xs] Suc.prems by simp
  next
    case (Cons y rest)
    obtain c e where "mem_byte zl (10 + sizes xs) = Some c" "c \<noteq> ZIP_END" "zipEntry zl (10 + sizes xs) = Some e"
      "ze_rawlen e = esize y" using at_entry [of zl xs y rest "10 + sizes xs"] Suc.prems Cons by auto
    moreover have "zl_rep zl ((xs @ [y]) @ rest)" using Suc.prems Cons by simp
    note Suc.IH [OF this]
    ultimately show ?thesis using Cons by (simp add: zipRawEntryLength_def add.assoc)
  qed
qed

lemma last_size_0: "last_size 0 xs = 0 \<longleftrightarrow> xs = []"
  using esize_pos by (cases xs rule: rev_cases) (auto simp del: esize.simps)

lemma index_backward_ok:
  "zl_rep zl (xs @ y # rest) \<Longrightarrow> zipEntry zl (10 + sizes xs) = Some e \<Longrightarrow>
     \<exists>k. index_backward zl i (10 + sizes xs) e = Some (10 + sizes (take (length xs - i) xs), k) \<and>
       (k > 0 \<longleftrightarrow> length xs < i)"
proof (induction i arbitrary: xs y rest e)
  case 0
  then show ?case by simp
next
  case (Suc i)
  have e: "ze_prevrawlen e = last_size 0 xs" using at_entry [OF Suc.prems(1) refl] Suc.prems(2) by auto
  show ?case
  proof (cases xs rule: rev_cases)
    case Nil
    then show ?thesis using e by simp
  next
    case (snoc as a)
    have rep: "zl_rep zl (as @ a # y # rest)" using Suc.prems(1) snoc by simp
    obtain e' where e': "zipEntry zl (10 + sizes as) = Some e'" using at_entry [OF rep refl] by auto
    from Suc.IH [OF rep e'] obtain k where k: "index_backward zl i (10 + sizes as) e' =
      Some (10 + sizes (take (length as - i) as), k)" "k > 0 \<longleftrightarrow> length as < i" by blast
    have "index_backward zl (Suc i) (10 + sizes xs) e = index_backward zl i (10 + sizes as) e'"
      using e e' snoc by (simp del: esize.simps)
    then show ?thesis using k snoc by auto
  qed
qed

text \<open>The position an index stands for; negative indices count from the end.\<close>

definition index_pos :: "nat \<Rightarrow> int \<Rightarrow> nat option" where
  "index_pos len i =
     (if 0 \<le> i then (if i < int len then Some (nat i) else None)
      else if - i \<le> int len then Some (nat (int len + i)) else None)"

lemma ziplistIndex_ok:
  assumes rep: "zl_rep zl es" and i: "INT32_MIN < i"
  shows "ziplistIndex zl i = Some (map_option (zl_pos es) (index_pos (length es) i))"
proof (cases "0 \<le> i")
  case True
  have f: "index_forward zl (nat i) ZIPLIST_ENTRY_HEAD =
      Some (if nat i < length es then (10 + sizes (take (nat i) es), -1) else (10 + sizes es, int (nat i - length es)))"
    using index_forward_ok [of zl "[]" es "nat i"] rep by (simp add: ZIPLIST_ENTRY_HEAD_def ZIPLIST_HEADER_SIZE_def)
  show ?thesis
  proof (cases "nat i < length es")
    case lt: True
    then obtain xs y rest where sp: "es = xs @ y # rest" "take (nat i) es = xs" by (rule split_at)
    have "zl_rep zl (xs @ y # rest)" using rep sp(1) by simp
    from at_entry [OF this refl] obtain c where "mem_byte zl (10 + sizes (take (nat i) es)) = Some c" "c \<noteq> ZIP_END"
      unfolding sp(2) by blast
    then show ?thesis using f lt True by (simp add: ziplistIndex_def index_pos_def zl_pos_def)
  next
    case False
    then show ?thesis using f at_end [OF rep] True by (simp add: ziplistIndex_def index_pos_def)
  qed
next
  case False
  define j where "j = nat (- i - 1)"
  show ?thesis
  proof (cases es rule: rev_cases)
    case Nil
    then show ?thesis
      using at_end [OF rep] zl_tail [OF rep] False i
      by (simp add: ziplistIndex_def index_pos_def ZIPLIST_ENTRY_TAIL_def)
  next
    case (snoc xs y)
    have rep': "zl_rep zl (xs @ y # [])" using rep snoc by simp
    from at_entry [OF this refl] obtain c e where c: "mem_byte zl (10 + sizes xs) = Some c" "c \<noteq> ZIP_END"
      "zipEntry zl (10 + sizes xs) = Some e" by auto
    obtain k where k: "index_backward zl j (10 + sizes xs) e = Some (10 + sizes (take (length xs - j) xs), k)"
      "k > 0 \<longleftrightarrow> length xs < j" using index_backward_ok [OF rep' c(3)] by blast
    have "\<exists>c. mem_byte zl (10 + sizes (take (length xs - j) xs)) = Some c \<and> c \<noteq> ZIP_END"
    proof -
      have "length xs - j < length es" using snoc by simp
      then obtain as a rest where sp: "es = as @ a # rest" "take (length xs - j) es = as" by (rule split_at)
      have "zl_rep zl (as @ a # rest)" using rep sp(1) by simp
      moreover have "take (length xs - j) xs = as" using sp(2) snoc by simp
      ultimately show ?thesis using at_entry [OF _ refl] by blast
    qed
    moreover have "Suc (length xs) - nat (- i) = nat (1 + int (length xs) + i)" using False by linarith
    ultimately show ?thesis
      using False i c k zl_tail [OF rep] snoc
      by (auto simp: ziplistIndex_def index_pos_def ZIPLIST_ENTRY_TAIL_def j_def [symmetric] zl_pos_def)
        (auto simp: j_def nat_diff_distrib)
  qed
qed


section \<open>Reading, comparing, traversing, counting\<close>

lemma zenc_str [simp]: "ZIP_IS_STR (zenc (ZStr s))"
  by simp

lemma zint_cases:
  "zint_enc v = ZIP_INT_16B \<and> zint_width v = 2 \<or> zint_enc v = ZIP_INT_32B \<and> zint_width v = 4 \<or>
   zint_enc v = ZIP_INT_64B \<and> zint_width v = 8"
  by (simp add: zint_enc_def zint_width_def)

lemma zipLoadInteger_payload:
  assumes "mem_read zl p (zint_width v) = Some (le_bytes (zint_width v) v)" and "LLONG_MIN \<le> v" and "v \<le> LLONG_MAX"
  shows "zipLoadInteger False zl p (zint_enc v) = Some v"
proof -
  consider "zint_enc v = ZIP_INT_16B" "zint_width v = 2" | "zint_enc v = ZIP_INT_32B" "zint_width v = 4"
    | "zint_enc v = ZIP_INT_64B" "zint_width v = 8" using zint_cases [of v] by blast
  then show ?thesis
    using assms(1) le_sint_le_bytes [OF ll_bounds_width [OF assms(2,3)]]
    by cases (simp_all add: zipLoadInteger_def memrev16ifbe_def host_sint_def del: le_bytes_numeral)
qed

lemma ziplistGet_ok:
  assumes "zl_rep zl es" and "n < length es"
  shows "ziplistGet zl (Some (zl_pos es n)) = Some (Some (snd (es ! n)))"
proof -
  obtain xs y rest where sp: "es = xs @ y # rest" "take n es = xs" "es ! n = y" by (rule split_at [OF assms(2)])
  have "zl_rep zl (xs @ y # rest)" using assms(1) sp(1) by simp
  from at_entry [OF this refl] obtain c e where *: "mem_byte zl (10 + sizes xs) = Some c" "c \<noteq> ZIP_END"
    "zipEntry zl (10 + sizes xs) = Some e" "ze_encoding e = zenc (snd y)" "ze_len e = length (payload (snd y))"
    "mem_read zl (10 + sizes xs + ze_headersize e) (length (payload (snd y))) = Some (payload (snd y))" "zval_ok (snd y)"
    by blast
  show ?thesis
  proof (cases "snd y")
    case (ZStr s)
    then show ?thesis using * by (simp add: ziplistGet_def zl_pos_def sp(2,3) del: zenc.simps)
  next
    case (ZInt v)
    then show ?thesis
      using * zipLoadInteger_payload [of zl "10 + sizes xs + ze_headersize e" v]
      by (simp add: ziplistGet_def zl_pos_def sp(2,3))
  qed
qed

lemma ziplistCompare_ok:
  assumes "zl_rep zl es" and "n < length es"
  shows "ziplistCompare zl (zl_pos es n) s = Some (texts es ! n = s)"
proof -
  obtain xs y rest where sp: "es = xs @ y # rest" "take n es = xs" "es ! n = y" by (rule split_at [OF assms(2)])
  have "zl_rep zl (xs @ y # rest)" using assms(1) sp(1) by simp
  from at_entry [OF this refl] obtain c e where *: "mem_byte zl (10 + sizes xs) = Some c" "c \<noteq> ZIP_END"
    "zipEntry zl (10 + sizes xs) = Some e" "ze_encoding e = zenc (snd y)" "ze_len e = length (payload (snd y))"
    "mem_read zl (10 + sizes xs + ze_headersize e) (length (payload (snd y))) = Some (payload (snd y))" "zval_ok (snd y)"
    by blast
  have t: "texts es ! n = ztext (snd y)" using assms(2) sp(3) by (simp add: texts_def)
  show ?thesis
  proof (cases "snd y")
    case (ZStr u)
    then show ?thesis
      using *(1-6) unfolding t ziplistCompare_def zl_pos_def sp(2)
      by (cases "length u = length s") (auto simp del: zenc.simps)
  next
    case (ZInt v)
    have v: "LLONG_MIN \<le> v" "v \<le> LLONG_MAX" using *(7) ZInt by simp_all
    have load: "zipLoadInteger False zl (10 + sizes xs + ze_headersize e) (ze_encoding e) = Some v"
      using zipLoadInteger_payload [of zl "10 + sizes xs + ze_headersize e" v] * v ZInt by simp
    show ?thesis
    proof (cases "zipTryEncoding s")
      case None
      then have "dec_repr v \<noteq> s" using zipTryEncoding_dec [OF v] by force
      then show ?thesis
        using *(1-4) None ZInt unfolding t ziplistCompare_def zl_pos_def sp(2) by simp
    next
      case (Some ve)
      obtain w enc where ve: "ve = (w, enc)" by (cases ve)
      have w: "enc = zint_enc w" "s = dec_repr w" using zipTryEncoding_Some Some ve by auto
      have "dec_repr v = s \<longleftrightarrow> v = w"
      proof
        assume "dec_repr v = s"
        then show "v = w" using zipTryEncoding_dec [OF v] Some ve by simp
      qed (simp add: w(2))
      moreover have "v = w \<Longrightarrow> ze_encoding e = enc" "\<not> ZIP_IS_STR (ze_encoding e)" using * ZInt w(1) by simp_all
      ultimately show ?thesis
        using *(1-3) load ZInt unfolding t ziplistCompare_def zl_pos_def sp(2) Some ve
        by (cases "ze_encoding e = enc") auto
    qed
  qed
qed

lemma ziplistNext_ok:
  assumes "zl_rep zl es" and "n < length es"
  shows "ziplistNext zl (zl_pos es n) = Some (if Suc n < length es then Some (zl_pos es (Suc n)) else None)"
proof -
  obtain xs y rest where sp: "es = xs @ y # rest" "length xs = n" "take n es = xs" "es ! n = y" by (rule split_at [OF assms(2)])
  have rep: "zl_rep zl (xs @ y # rest)" "zl_rep zl ((xs @ [y]) @ rest)" using assms(1) sp(1) by simp_all
  from at_entry [OF rep(1) refl] obtain c e where *: "mem_byte zl (10 + sizes xs) = Some c" "c \<noteq> ZIP_END"
    "zipEntry zl (10 + sizes xs) = Some e" "ze_rawlen e = esize y" by blast
  have p: "10 + sizes xs + esize y = 10 + sizes (xs @ [y])" by simp
  obtain c' where "mem_byte zl (10 + sizes (xs @ [y])) = Some c'" "c' = ZIP_END \<longleftrightarrow> rest = []"
    using insert_prevlen [OF rep(2)] by blast
  then show ?thesis
    using * sp(2,3) p by (auto simp: ziplistNext_def zl_pos_def zipRawEntryLength_def sp(1) add.assoc)
qed

lemma ziplistPrev_ok:
  assumes "zl_rep zl es" and "n \<le> length es"
  shows "ziplistPrev zl (zl_pos es n) = Some (if n = 0 then None else Some (zl_pos es (n - 1)))"
proof (cases "n < length es")
  case True
  then obtain xs y rest where sp: "es = xs @ y # rest" "length xs = n" "take n es = xs" "es ! n = y" by (rule split_at)
  have rep: "zl_rep zl (xs @ y # rest)" using assms(1) sp(1) by simp
  from at_entry [OF rep refl] obtain c e where *: "mem_byte zl (10 + sizes xs) = Some c" "c \<noteq> ZIP_END"
    "zipEntry zl (10 + sizes xs) = Some e" "ze_prevrawlen e = last_size 0 xs" by blast
  have pos: "zl_pos es n = 10 + sizes xs" by (simp add: zl_pos_def sp(3))
  show ?thesis
  proof (cases xs rule: rev_cases)
    case Nil
    then show ?thesis
      using * sp(2) unfolding pos by (simp add: ziplistPrev_def ZIPLIST_ENTRY_HEAD_def ZIPLIST_HEADER_SIZE_def)
  next
    case (snoc as a)
    have "zl_pos es (n - 1) = 10 + sizes as" using sp(1,2) snoc by (auto simp: zl_pos_def)
    moreover have "10 + sizes xs - esize a = 10 + sizes as" "esize a \<le> 10 + sizes xs" "10 + sizes xs \<noteq> 10"
      "ze_prevrawlen e = esize a" using snoc * by simp_all
    ultimately show ?thesis
      using * sp(2) snoc esize_pos [of a] unfolding pos
      by (simp add: ziplistPrev_def ZIPLIST_ENTRY_HEAD_def ZIPLIST_HEADER_SIZE_def require_def del: esize_pos esize.simps)
  qed
next
  case False
  then have n: "n = length es" using assms(2) by simp
  have e: "mem_byte zl (zl_pos es n) = Some ZIP_END" using at_end [OF assms(1)] n by (simp add: zl_pos_def)
  show ?thesis
  proof (cases es rule: rev_cases)
    case Nil
    then show ?thesis using e n zl_tail [OF assms(1)] at_end [OF assms(1)]
      by (simp add: ziplistPrev_def ZIPLIST_ENTRY_TAIL_def)
  next
    case (snoc as a)
    have rep: "zl_rep zl (as @ a # [])" using assms(1) snoc by simp
    from at_entry [OF rep refl] obtain c where "mem_byte zl (10 + sizes as) = Some c" "c \<noteq> ZIP_END" by blast
    then show ?thesis using e n zl_tail [OF assms(1)] snoc
      by (simp add: ziplistPrev_def ZIPLIST_ENTRY_TAIL_def zl_pos_def)
  qed
qed

lemma len_loop_ok: "zl_rep zl (xs @ ys) \<Longrightarrow> len_loop zl (10 + sizes xs) k = Some (k + length ys)"
proof (induction ys arbitrary: xs k)
  case Nil
  then show ?case using at_end [of zl xs] by (subst len_loop.simps) simp
next
  case (Cons y rest)
  obtain c e where *: "mem_byte zl (10 + sizes xs) = Some c" "c \<noteq> ZIP_END"
    "zipEntry zl (10 + sizes xs) = Some e" "ze_rawlen e = esize y" using at_entry [OF Cons.prems refl] by blast
  have "zl_rep zl ((xs @ [y]) @ rest)" using Cons.prems by simp
  from Cons.IH [OF this, of "k + 1"] show ?case
    using * by (subst len_loop.simps) (simp add: zipRawEntryLength_def add.assoc)
qed

lemma ziplistLen_ok:
  assumes rep: "zl_rep zl es"
  shows "\<exists>zl'. ziplistLen zl = Some (zl', length es) \<and> zl_rep zl' es"
proof -
  obtain n where n: "zl = zl_hdr (11 + sizes es) (10 + sizes (butlast es)) n @ eb 0 es @ [ZIP_END]"
    "n = UINT16_MAX \<or> n = length es" "n \<le> UINT16_MAX" "11 + sizes es < 2 ^ 32" using rep by (rule zl_repE1)
  have l: "ZIPLIST_LENGTH zl = Some n" unfolding n(1) using n(3) by (intro ZIPLIST_fields) (simp add: UINT16_MAX_def)
  show ?thesis
  proof (cases "n < UINT16_MAX")
    case True
    then show ?thesis using l n rep by (simp add: ziplistLen_def)
  next
    case False
    have ll: "len_loop zl ZIPLIST_HEADER_SIZE 0 = Some (length es)"
      using len_loop_ok [of zl "[]" es 0] rep by (simp add: ZIPLIST_HEADER_SIZE_def)
    let ?zl = "zl_hdr (11 + sizes es) (10 + sizes (butlast es)) (length es) @ eb 0 es @ [ZIP_END]"
    have st: "set_ZIPLIST_LENGTH zl (int (length es)) = Some ?zl" unfolding n(1) by (rule set_ZIPLIST_fields) simp
    show ?thesis
    proof (cases "length es < UINT16_MAX")
      case True
      have "zl_rep ?zl es"
      proof (rule zl_repI [OF refl])
        show "es \<noteq> [] \<Longrightarrow> \<not> fst (hd es)" "ents_ok 0 es" using rep by (auto simp: zl_rep_def)
      qed (use n(4) True in simp_all)
      then show ?thesis using l ll st False True by (simp add: ziplistLen_def)
    next
      case False2: False
      then show ?thesis using l ll False rep by (simp add: ziplistLen_def)
    qed
  qed
qed

end
