(* ===== verification/ZiplistSpec.thy ===== *)
theory ZiplistSpec
  imports ZiplistList
begin

text \<open>
  The contract of the ziplist: its interface, run from an empty list, answers as lists of
  byte strings do; insertion in the middle does too, except before an entry whose length
  field is wider than needed, where a very small new entry destroys a byte of the last entry.
\<close>

section \<open>Sizes\<close>

definition zl_cost :: "byte list list \<Rightarrow> nat" where
  "zl_cost ts = sum_list (map (\<lambda>t. length t + 14) ts)"

lemma zl_cost_simps [simp]:
  "zl_cost [] = 0" "zl_cost (t # ts) = length t + 14 + zl_cost ts" "zl_cost (ts @ us) = zl_cost ts + zl_cost us"
  by (simp_all add: zl_cost_def)

lemma zl_cost_take_drop: "zl_cost (take n ts @ drop m ts) \<le> zl_cost ts" if "n \<le> m"
proof -
  have "zl_cost ts = zl_cost (take n ts) + zl_cost (take (m - n) (drop n ts)) + zl_cost (drop m ts)"
    using that by (metis append_take_drop_id zl_cost_simps(3) drop_drop le_add_diff_inverse2 add.assoc)
  then show ?thesis by simp
qed

lemma esize_le: "zval_ok (snd e) \<Longrightarrow> esize e \<le> length (ztext (snd e)) + 14"
  using esize_bound [of "fst e" "ztext (snd e)"] zval_of_ztext [of "snd e"] by (simp del: esize.simps)

lemma sizes_le: "ents_ok pl es \<Longrightarrow> sizes es \<le> zl_cost (texts es)"
proof (induction es arbitrary: pl)
  case (Cons e es)
  then show ?case using esize_le [of e] Cons.IH [of "esize e"] by (simp del: esize.simps)
qed simp

lemma zl_rep_ok: "zl_rep zl es \<Longrightarrow> ents_ok 0 es"
  by (simp add: zl_rep_def)

lemma zl_rep_cost: "zl_rep zl es \<Longrightarrow> length zl \<le> 11 + zl_cost (texts es) \<and> 14 * length es \<le> zl_cost (texts es)"
proof
  show "zl_rep zl es \<Longrightarrow> length zl \<le> 11 + zl_cost (texts es)"
    using sizes_le [OF zl_rep_ok, of zl es] zl_length [of zl es] by simp
  have "14 * length ts \<le> zl_cost ts" for ts by (induction ts) auto
  from this [of "texts es"] show "14 * length es \<le> zl_cost (texts es)" by simp
qed

lemma ziplistNew_ok: "\<exists>zl. ziplistNew = Some zl \<and> zl_rep zl []"
proof -
  have 1: "set_ZIPLIST_BYTES (zmalloc 11) 11 = Some (le_bytes 4 11 @ replicate 7 uninit)"
    by (simp add: set_ZIPLIST_BYTES_def set_field_def mem_write_def zmalloc_def del: le_bytes_numeral)
  have 2: "set_ZIPLIST_TAIL_OFFSET (le_bytes 4 11 @ replicate 7 uninit) 10 =
      Some (le_bytes 4 11 @ le_bytes 4 10 @ replicate 3 uninit)"
    by (simp add: set_ZIPLIST_TAIL_OFFSET_def set_field_def mem_write_def del: le_bytes_numeral)
  have 3: "set_ZIPLIST_LENGTH (le_bytes 4 11 @ le_bytes 4 10 @ replicate 3 uninit) 0 =
      Some (le_bytes 4 11 @ le_bytes 4 10 @ le_bytes 2 0 @ replicate 1 uninit)"
    by (simp add: set_ZIPLIST_LENGTH_def set_field_def mem_write_def del: le_bytes_numeral)
  have 4: "mem_write (le_bytes 4 11 @ le_bytes 4 10 @ le_bytes 2 0 @ replicate 1 uninit) 10 [ZIP_END] =
      Some (zl_hdr 11 10 0 @ [ZIP_END])"
    by (simp add: mem_write_def zl_hdr_def del: le_bytes_numeral)
  have "ziplistNew = Some (zl_hdr 11 10 0 @ [ZIP_END])"
    using 1 2 3 4 by (simp add: ziplistNew_def ZIPLIST_HEADER_SIZE_def del: le_bytes_numeral replicate_Suc)
  moreover have "zl_rep (zl_hdr 11 10 0 @ [ZIP_END]) []"
    by (rule zl_repI [of _ 11 10 0]) (simp_all add: UINT16_MAX_def)
  ultimately show ?thesis by blast
qed

section \<open>Insertion and deletion on texts\<close>

text \<open>The size of a new entry at a position.\<close>

definition new_size :: "(bool \<times> zval) list \<Rightarrow> nat \<Rightarrow> byte list \<Rightarrow> nat" where
  "new_size es n s = esize (\<not> last_size 0 (take n es) < ZIP_BIGLEN, zval_of s)"

text \<open>A list of short texts without wide length fields: no entry is large enough to need one.\<close>

definition slim :: "(bool \<times> zval) list \<Rightarrow> bool" where
  "slim es \<longleftrightarrow> (\<forall>e \<in> set es. \<not> fst e \<and> length (ztext (snd e)) \<le> 239)"

lemma slim_simps [simp]:
  "slim []" "slim (e # es) \<longleftrightarrow> \<not> fst e \<and> length (ztext (snd e)) \<le> 239 \<and> slim es" "slim (xs @ ys) \<longleftrightarrow> slim xs \<and> slim ys"
  by (auto simp: slim_def)

lemma esize_slim: "zval_ok (snd e) \<Longrightarrow> length (ztext (snd e)) \<le> 239 \<Longrightarrow> esize e < ZIP_BIGLEN"
  using esize_le [of e] by (simp add: ZIP_BIGLEN_def del: esize.simps)

lemma last_size_slim: "ents_ok pl xs \<Longrightarrow> slim xs \<Longrightarrow> pl < ZIP_BIGLEN \<Longrightarrow> last_size pl xs < ZIP_BIGLEN"
proof (induction xs arbitrary: pl)
  case (Cons e xs)
  then show ?case using esize_slim [of e] by (simp del: esize.simps)
qed simp

lemma rep_slim:
  assumes "zl_rep zl (xs @ ys)" and "slim xs"
  shows "last_size 0 xs < ZIP_BIGLEN"
  using assms zl_rep_ok [OF assms(1)] last_size_slim [of 0 xs] by (simp add: ents_ok_append ZIP_BIGLEN_def)

lemma slim_new: "zl_rep zl (xs @ ys) \<Longrightarrow> slim xs \<Longrightarrow> length s \<le> 239 \<Longrightarrow>
    slim [(\<not> last_size 0 xs < ZIP_BIGLEN, zval_of s)] \<and> esize (\<not> last_size 0 xs < ZIP_BIGLEN, zval_of s) < ZIP_BIGLEN"
  using rep_slim [of zl xs ys] esize_slim [of "(\<not> last_size 0 xs < ZIP_BIGLEN, zval_of s)"] zval_of_ok [of s]
  by (simp del: esize.simps)

lemma slim_next:
  assumes "zl_rep zl (xs @ y' # rest')" and "map snd (y' # rest') = map snd (y # rest)" and "\<not> fst y'"
    and "esize y' < ZIP_BIGLEN \<longrightarrow> rest' = rest" and "slim (y # rest)"
  shows "slim (y' # rest')"
proof -
  have "zval_ok (snd y')" using zl_rep_ok [OF assms(1)] by (simp add: ents_ok_append)
  moreover have "length (ztext (snd y')) \<le> 239" using assms(2,5) by simp
  ultimately show ?thesis using assms esize_slim [of y'] by (simp del: esize.simps)
qed

lemma insert_ok:
  assumes rep: "zl_rep zl es" and n: "n \<le> length es"
    and safe: "n < length es \<Longrightarrow> fst (es ! n) \<Longrightarrow> 4 \<le> new_size es n s"
    and bd: "2 * zl_cost (texts es) + length s + 64 < 2 ^ 32"
  shows "\<exists>zl' es'. u_ziplistInsert zl (zl_pos es n) s = Some zl' \<and> zl_rep zl' es' \<and>
    texts es' = take n (texts es) @ s # drop n (texts es) \<and> (slim es \<and> length s \<le> 239 \<longrightarrow> slim es')"
proof -
  have l: "length zl \<le> 11 + zl_cost (texts es)" "14 * length es \<le> zl_cost (texts es)" using zl_rep_cost [OF rep] by auto
  show ?thesis
  proof (cases "n < length es")
    case True
    then obtain xs y rest where sp: "es = xs @ y # rest" "length xs = n" "take n es = xs" "es ! n = y" by (rule split_at)
    have rep': "zl_rep zl (xs @ y # rest)" using rep sp(1) by simp
    have s: "\<not> (fst y \<and> esize (\<not> last_size 0 xs < ZIP_BIGLEN, zval_of s) < 4)"
      using safe True sp(3,4) unfolding new_size_def by (auto simp del: esize.simps)
    have "length zl + length s + 30 + 4 * length rest < 2 ^ 32" using l bd sp(1) by simp
    from insert_mid_ok [OF rep' s this] obtain zl' y' rest' where *:
      "u_ziplistInsert zl (10 + sizes xs) s = Some zl'"
      "zl_rep zl' (xs @ (\<not> last_size 0 xs < ZIP_BIGLEN, zval_of s) # y' # rest')" "map snd (y' # rest') = map snd (y # rest)"
      "fst y' = (\<not> esize (\<not> last_size 0 xs < ZIP_BIGLEN, zval_of s) < ZIP_BIGLEN)" "esize y' < ZIP_BIGLEN \<longrightarrow> rest' = rest"
      by blast
    let ?e = "(\<not> last_size 0 xs < ZIP_BIGLEN, zval_of s)"
    have "slim (xs @ ?e # y' # rest')" if "slim es" "length s \<le> 239"
    proof -
      have "slim xs" "slim (y # rest)" using that(1) sp(1) by simp_all
      have ls: "last_size 0 xs < ZIP_BIGLEN" using rep_slim [OF rep' \<open>slim xs\<close>] .
      have nw: "length (ztext (zval_of s)) \<le> 239" "esize (False, zval_of s) < ZIP_BIGLEN"
        using slim_new [OF rep' \<open>slim xs\<close> that(2)] ls by (simp_all del: esize.simps)
      have "zl_rep zl' ((xs @ [?e]) @ y' # rest')" using *(2) by simp
      from slim_next [OF this *(3) _ *(5) \<open>slim (y # rest)\<close>] show ?thesis using nw *(4) \<open>slim xs\<close> ls by (simp del: esize.simps)
    qed
    then show ?thesis
      using texts_map_snd [OF *(3)] sp(1,2,3) * by (intro exI [of _ zl'] exI [of _ "xs @ ?e # y' # rest'"]) (auto simp: zl_pos_def simp del: slim_simps)
  next
    case False
    have "length zl + length s + 14 < 2 ^ 32" using l bd by simp
    from insert_end_ok [OF rep this] obtain zl' where "u_ziplistInsert zl (10 + sizes es) s = Some zl'"
      "zl_rep zl' (es @ [(\<not> last_size 0 es < ZIP_BIGLEN, zval_of s)])" by blast
    moreover have "slim es \<and> length s \<le> 239 \<longrightarrow> slim (es @ [(\<not> last_size 0 es < ZIP_BIGLEN, zval_of s)])"
      using slim_new [of zl es "[]" s] rep by (simp del: esize.simps)
    ultimately show ?thesis using False n by (intro exI [of _ zl'] exI conjI) (auto simp: zl_pos_def)
  qed
qed

lemma delete_ok:
  assumes rep: "zl_rep zl es" and n: "n < length es" and bd: "2 * zl_cost (texts es) + 64 < 2 ^ 31"
  shows "\<exists>zl' es'. u_ziplistDelete zl (zl_pos es n) num = Some zl' \<and> zl_rep zl' es' \<and>
    texts es' = take n (texts es) @ drop (n + num) (texts es) \<and> take n es' = take n es \<and>
    (slim es \<longrightarrow> slim es')"
proof -
  have l: "length zl \<le> 11 + zl_cost (texts es)" "14 * length es \<le> zl_cost (texts es)" using zl_rep_cost [OF rep] by auto
  obtain xs y ys where sp: "es = xs @ y # ys" "length xs = n" "take n es = xs" by (rule split_at [OF n])
  have rep': "zl_rep zl (xs @ y # ys)" using rep sp(1) by simp
  have pos: "zl_pos es n = 10 + sizes xs" by (simp add: zl_pos_def sp(3))
  consider "num = 0" | "length (y # ys) \<le> num" | "0 < num" "num < length (y # ys)" by linarith
  then show ?thesis
  proof cases
    case 1
    obtain first where "zipEntry zl (zl_pos es n) = Some first" "ze_p first = zl_pos es n" "ze_prevrawlen first = last_size 0 xs"
      "skip_entries zl (zl_pos es n) 0 = Some (zl_pos es n + sizes (take 0 (y # ys)), min 0 (length (y # ys)))"
      using delete_prefix [OF rep' pos, of 0] by blast
    then have "u_ziplistDelete zl (zl_pos es n) 0 = Some zl" by (simp add: u_ziplistDelete_def)
    then show ?thesis using 1 rep by auto
  next
    case 2
    from delete_end_ok [OF rep' this] obtain zl' where "u_ziplistDelete zl (10 + sizes xs) num = Some zl'" "zl_rep zl' xs" by blast
    then show ?thesis using 2 sp pos by (intro exI [of _ zl'] exI [of _ xs]) auto
  next
    case 3
    define del where "del = take num (y # ys)"
    have "drop num (y # ys) \<noteq> []" using 3(2) by simp
    then obtain z rest where zr: "drop num (y # ys) = z # rest" by (meson neq_Nil_conv)
    have ys: "y # ys = del @ z # rest" using append_take_drop_id [of num "y # ys"] zr by (simp add: del_def)
    have d: "del \<noteq> []" "length del = num" using 3 by (simp_all add: del_def)
    have rep2: "zl_rep zl (xs @ del @ z # rest)" using rep' ys by simp
    have "length rest \<le> length es" using sp(1) ys by simp
    then have "length zl + 4 * length rest + 12 < 2 ^ 31" using l bd by simp
    from delete_mid_ok [OF rep2 d(1) this] obtain zl' y' rest' where *: "u_ziplistDelete zl (10 + sizes xs) (length del) = Some zl'"
      "zl_rep zl' (xs @ y' # rest')" "map snd (y' # rest') = map snd (z # rest)"
      "fst y' = (\<not> last_size 0 xs < ZIP_BIGLEN)" "esize y' < ZIP_BIGLEN \<longrightarrow> rest' = rest" by blast
    have sl: "slim (xs @ y' # rest')" if "slim es"
    proof -
      have "slim xs" "slim (z # rest)" using that sp(1) ys by simp_all
      then show ?thesis using slim_next [OF *(2,3) _ *(5)] rep_slim [OF rep'] *(4) by simp
    qed
    have "texts es = texts xs @ texts del @ texts (z # rest)" using sp(1) ys by simp
    then have "take n (texts es) @ drop (n + num) (texts es) = texts xs @ texts (z # rest)"
      using sp(2) d(2) by simp
    then show ?thesis using * texts_map_snd [OF *(3)] pos d(2) sp(2,3) sl
      by (intro exI [of _ zl'] exI [of _ "xs @ y' # rest'"]) (auto simp del: slim_simps)
  qed
qed

text \<open>C11: Inserting at any position of a ziplist gives the list with the string inserted there,
  whatever sizes change behind it, unless the entry at the position has a length field wider
  than needed and the new entry takes fewer than four bytes.\<close>

theorem ziplistInsert_inserts:
  assumes "zl_rep zl es" and "n \<le> length es"
    and "n < length es \<Longrightarrow> fst (es ! n) \<Longrightarrow> 4 \<le> new_size es n s"
    and "2 * zl_cost (texts es) + length s + 64 < 2 ^ 32"
  shows "\<exists>zl' es'. ziplistInsert zl (zl_pos es n) s = Some zl' \<and> zl_rep zl' es' \<and>
    texts es' = take n (texts es) @ s # drop n (texts es)"
  using insert_ok [OF assms] by (auto simp: ziplistInsert_def)

section \<open>The interface as a list of byte strings\<close>

datatype zl_op = ZPush "byte list" bool | ZDelete int nat | ZAt int | ZIs int "byte list" | ZCount

datatype zl_out = OUnit | OVal "byte list option" | OBool bool | ONum nat

fun zl_exec :: "byte list \<Rightarrow> zl_op \<Rightarrow> (byte list \<times> zl_out) option" where
  "zl_exec zl (ZPush s to_head) = map_option (\<lambda>zl. (zl, OUnit)) (ziplistPush zl s to_head)"
| "zl_exec zl (ZDelete i num) = map_option (\<lambda>zl. (zl, OUnit)) (ziplistDeleteRange zl i num)"
| "zl_exec zl (ZAt i) = do { p \<leftarrow> ziplistIndex zl i; v \<leftarrow> ziplistGet zl p; Some (zl, OVal (map_option ztext v)) }"
| "zl_exec zl (ZIs i s) = do { p \<leftarrow> ziplistIndex zl i;
     case p of None \<Rightarrow> Some (zl, OBool False)
     | Some p \<Rightarrow> do { b \<leftarrow> ziplistCompare zl p s; Some (zl, OBool b) } }"
| "zl_exec zl ZCount = map_option (\<lambda>(zl, n). (zl, ONum n)) (ziplistLen zl)"

fun list_exec :: "byte list list \<Rightarrow> zl_op \<Rightarrow> byte list list \<times> zl_out" where
  "list_exec ts (ZPush s to_head) = (if to_head then s # ts else ts @ [s], OUnit)"
| "list_exec ts (ZDelete i num) = (case index_pos (length ts) i of
     None \<Rightarrow> (ts, OUnit) | Some n \<Rightarrow> (take n ts @ drop (n + num) ts, OUnit))"
| "list_exec ts (ZAt i) = (ts, OVal (map_option (\<lambda>n. ts ! n) (index_pos (length ts) i)))"
| "list_exec ts (ZIs i s) = (ts, OBool (case index_pos (length ts) i of None \<Rightarrow> False | Some n \<Rightarrow> ts ! n = s))"
| "list_exec ts ZCount = (ts, ONum (length ts))"

fun zl_run :: "byte list \<Rightarrow> zl_op list \<Rightarrow> (byte list \<times> zl_out list) option" where
  "zl_run zl [] = Some (zl, [])"
| "zl_run zl (op # ops) = do { (zl, out) \<leftarrow> zl_exec zl op; (zl, outs) \<leftarrow> zl_run zl ops; Some (zl, out # outs) }"

fun list_run :: "byte list list \<Rightarrow> zl_op list \<Rightarrow> byte list list \<times> zl_out list" where
  "list_run ts [] = (ts, [])"
| "list_run ts (op # ops) =
     (let (ts, out) = list_exec ts op; (ts, outs) = list_run ts ops in (ts, out # outs))"

text \<open>The indices are C \<^verbatim>\<open>int\<close>s other than the least.\<close>

fun op_ok :: "zl_op \<Rightarrow> bool" where
  "op_ok (ZDelete i _) \<longleftrightarrow> INT32_MIN < i \<and> i \<le> INT32_MAX"
| "op_ok (ZAt i) \<longleftrightarrow> INT32_MIN < i \<and> i \<le> INT32_MAX"
| "op_ok (ZIs i _) \<longleftrightarrow> INT32_MIN < i \<and> i \<le> INT32_MAX"
| "op_ok _ \<longleftrightarrow> True"

fun op_cost :: "zl_op \<Rightarrow> nat" where
  "op_cost (ZPush s _) = length s + 14"
| "op_cost _ = 0"

lemma index_pos_less: "index_pos len i = Some n \<Longrightarrow> n < len"
  by (auto simp: index_pos_def split: if_splits)

lemma push_ok:
  assumes rep: "zl_rep zl es" and bd: "2 * zl_cost (texts es) + length s + 64 < 2 ^ 32"
  shows "\<exists>zl' es'. ziplistPush zl s to_head = Some zl' \<and> zl_rep zl' es' \<and>
    texts es' = (if to_head then s # texts es else texts es @ [s]) \<and> (slim es \<and> length s \<le> 239 \<longrightarrow> slim es')"
proof (cases to_head)
  case True
  have "\<not> fst (es ! 0)" if "0 < length es" using rep that by (auto simp: zl_rep_def hd_conv_nth)
  then show ?thesis
    using insert_ok [OF rep, of 0 s] bd True
    by (auto simp: ziplistPush_def ZIPLIST_ENTRY_HEAD_def ZIPLIST_HEADER_SIZE_def zl_pos_def)
next
  case False
  have "ZIPLIST_ENTRY_END zl = Some (zl_pos es (length es))"
    using zl_bytes [OF rep] by (simp add: ZIPLIST_ENTRY_END_def zl_pos_def require_def)
  then show ?thesis
    using insert_ok [OF rep, of "length es" s] bd False by (auto simp: ziplistPush_def)
qed

lemma zl_exec_ok:
  assumes rep: "zl_rep zl es" and ok: "op_ok op" and bd: "2 * zl_cost (texts es) + 2 * op_cost op + 64 < 2 ^ 31"
  shows "\<exists>zl' es' out. zl_exec zl op = Some (zl', out) \<and> zl_rep zl' es' \<and> list_exec (texts es) op = (texts es', out) \<and>
    zl_cost (texts es') \<le> zl_cost (texts es) + op_cost op"
proof (cases op)
  case (ZPush s h)
  have "2 * zl_cost (texts es) + length s + 64 < 2 ^ 32" using bd ZPush by simp
  from push_ok [OF rep this] obtain zl' es' where p: "ziplistPush zl s h = Some zl'" "zl_rep zl' es'"
    "texts es' = (if h then s # texts es else texts es @ [s])" by blast
  have "zl_cost (texts es') \<le> zl_cost (texts es) + op_cost op" using p(3) ZPush by simp
  moreover have "list_exec (texts es) op = (texts es', OUnit)" using p(3) ZPush by simp
  moreover have "zl_exec zl op = Some (zl', OUnit)" using p(1) ZPush by simp
  ultimately show ?thesis using p(2) by blast
next
  case (ZDelete i num)
  have i: "INT32_MIN < i" "to_s32 i = i" using ok ZDelete by (simp_all add: c_limits)
  show ?thesis
  proof (cases "index_pos (length es) i")
    case None
    then show ?thesis using ZDelete i ziplistIndex_ok [OF rep i(1)] rep by (auto simp: ziplistDeleteRange_def)
  next
    case (Some n)
    have "2 * zl_cost (texts es) + 64 < 2 ^ 31" using bd by simp
    from delete_ok [OF rep index_pos_less [OF Some] this, of num] obtain zl' es' where
      d: "u_ziplistDelete zl (zl_pos es n) num = Some zl'" "zl_rep zl' es'"
      "texts es' = take n (texts es) @ drop (n + num) (texts es)" by blast
    then show ?thesis
      using ZDelete i ziplistIndex_ok [OF rep i(1)] Some zl_cost_take_drop [of n "n + num" "texts es"]
      by (auto simp: ziplistDeleteRange_def)
  qed
next
  case (ZAt i)
  have i: "INT32_MIN < i" using ok ZAt by simp
  show ?thesis
  proof (cases "index_pos (length es) i")
    case None
    then show ?thesis using ZAt ziplistIndex_ok [OF rep i] rep by (auto simp: ziplistGet_def)
  next
    case (Some n)
    then show ?thesis
      using ZAt ziplistIndex_ok [OF rep i] ziplistGet_ok [OF rep index_pos_less [OF Some]] index_pos_less [OF Some] rep
      by (auto simp: texts_def)
  qed
next
  case (ZIs i s)
  have i: "INT32_MIN < i" using ok ZIs by simp
  show ?thesis
  proof (cases "index_pos (length es) i")
    case None
    then show ?thesis using ZIs ziplistIndex_ok [OF rep i] rep by auto
  next
    case (Some n)
    then show ?thesis
      using ZIs ziplistIndex_ok [OF rep i] ziplistCompare_ok [OF rep index_pos_less [OF Some], of s] rep by auto
  qed
next
  case ZCount
  then show ?thesis using ziplistLen_ok [OF rep] by auto
qed

lemma zl_run_ok:
  assumes "zl_rep zl es" and "list_all op_ok ops" and "2 * (zl_cost (texts es) + sum_list (map op_cost ops)) + 64 < 2 ^ 31"
  shows "\<exists>zl' es' outs. zl_run zl ops = Some (zl', outs) \<and> zl_rep zl' es' \<and> list_run (texts es) ops = (texts es', outs)"
  using assms
proof (induction ops arbitrary: zl es)
  case (Cons op ops)
  then have "op_ok op" "2 * zl_cost (texts es) + 2 * op_cost op + 64 < 2 ^ 31" by simp_all
  from zl_exec_ok [OF Cons.prems(1) this] obtain zl1 es1 out where
    1: "zl_exec zl op = Some (zl1, out)" "zl_rep zl1 es1" "list_exec (texts es) op = (texts es1, out)"
      "zl_cost (texts es1) \<le> zl_cost (texts es) + op_cost op" by blast
  have "2 * (zl_cost (texts es1) + sum_list (map op_cost ops)) + 64 < 2 ^ 31" using 1(4) Cons.prems(3) by simp
  from Cons.IH [OF 1(2) _ this] Cons.prems(2) obtain zl' es' outs where
    "zl_run zl1 ops = Some (zl', outs)" "zl_rep zl' es'" "list_run (texts es1) ops = (texts es', outs)" by auto
  then show ?case using 1 by auto
qed auto

text \<open>C10: From an empty ziplist, any sequence of pushes at either end, deletions of ranges,
  reads and comparisons by index from either end, and length queries, whose strings are
  within 500 MB in all, stays inside the block and answers as the list of byte strings does.\<close>

theorem ziplist_refines_list:
  assumes "list_all op_ok ops" and "sum_list (map op_cost ops) < 2 ^ 29"
  shows "\<exists>zl zl' es outs. ziplistNew = Some zl \<and> zl_run zl ops = Some (zl', outs) \<and> zl_rep zl' es \<and>
    list_run [] ops = (texts es, outs)"
proof -
  obtain zl where zl: "ziplistNew = Some zl" "zl_rep zl []" using ziplistNew_ok by blast
  from zl_run_ok [OF zl(2) assms(1)] assms(2) show ?thesis using zl(1) by auto
qed

lemma ziplist_refines_list_witness:
  "\<exists>zl zl' outs. ziplistNew = Some zl \<and>
    zl_run zl [ZPush [49, 50] True, ZPush [65] False, ZPush [66] True, ZDelete 0 1, ZAt (- 1), ZCount] = Some (zl', outs) \<and>
    outs = [OUnit, OUnit, OUnit, OUnit, OVal (Some [65]), ONum 2]"
proof -
  let ?ops = "[ZPush [49, 50] True, ZPush [65] False, ZPush [66] True, ZDelete 0 1, ZAt (- 1), ZCount]"
  have l: "list_run [] ?ops = ([[49, 50], [65]], [OUnit, OUnit, OUnit, OUnit, OVal (Some [65]), ONum 2])"
    by (simp add: index_pos_def)
  have "list_all op_ok ?ops" "sum_list (map op_cost ?ops) < 2 ^ 29" by (simp_all add: c_limits)
  from ziplist_refines_list [OF this] show ?thesis unfolding l by blast
qed


section \<open>The insertion that loses a byte\<close>

text \<open>A one-byte string is inserted before a last entry that holds a one-byte string with a
  wide length field: the block first shrinks by one byte, which cuts off the byte \<open>a\<close>, and the
  bytes that move up include the new end mark instead.\<close>

lemma insert_loses_byte:
  assumes c: "zipTryEncoding [c] = None" and pl: "pl < ZIP_BIGLEN" and b: "b = 18 + length A" "b < 2 ^ 32"
    and n: "n \<le> UINT16_MAX" and p: "p = 10 + length A" and z: "zl = zl_hdr b p n @ A @ ebytes pl (True, ZStr [a]) @ [ZIP_END]"
  shows "u_ziplistInsert zl p [c] = Some (zl_hdr (b - 1) (p + 3) (if n < UINT16_MAX then n + 1 else n) @ A @
    ebytes pl (False, ZStr [c]) @ ebytes 3 (False, ZStr [255]) @ [ZIP_END])"
proof -
  obtain l0 l1 l2 l3 where l: "le_bytes 4 (int pl) = [l0, l1, l2, l3]"
    by (simp add: eval_nat_numeral)
  define H where "H = (\<lambda>b t. zl_hdr b t n @ A)"
  have lH: "length (H b t) = p" for b t by (simp add: H_def p)
  have one: "zipEncodeLength 0 (Suc 0) = [1]" by (simp add: zipEncodeLength_def zip_encs)
  have e: "ebytes pl (True, ZStr [a]) = [254, l0, l1, l2, l3, 1, a]"
    using l by (simp add: prev_field_def zipPrevEncodeLengthForceLarge_def ZIP_BIGLEN_def one del: le_bytes_numeral)
  have z1: "zl = H b p @ [254, l0, l1, l2, l3, 1, a, ZIP_END]" unfolding z e by (simp add: H_def)
  have B: "ZIPLIST_BYTES zl = Some b" unfolding z by (rule ZIPLIST_fields) (rule b(2))
  have c1: "mem_byte zl p = Some 254" unfolding z1 by (rule mem_byte_append [OF lH])
  have en: "map_option ze_prevrawlen (zipEntry zl p) = Some pl"
    using zipEntry_ebytes [of "H b p" p "(True, ZStr [a])" pl "[ZIP_END]"] lH pl
    unfolding z by (auto simp: H_def length_zipEncodeLength zipEncodeLength_size_def ZIP_BIGLEN_def)
  have iv: "ins_value [c] = Some (123456789, 0, 1)" using c by (simp add: ins_value_def)
  have sz: "1 + zipPrevEncodeLength_size pl + zipEncodeLength_size 0 (length [c]) = 3" "(3 :: nat) mod 2 ^ 32 = 3" "(1 :: nat) + 1 + 1 = 3"
    "zipPrevEncodeLength_size pl = 1" "zipEncodeLength_size 0 (length [c]) = 1" "zipEncodeLength 0 (length [c]) = [1]"
    "zipPrevEncodeLength pl = [word_of_nat pl]" "zipPrevEncodeLength 3 = [3]"
    using pl one by (simp_all add: zipPrevEncodeLength_size_def zipEncodeLength_size_def zipPrevEncodeLength_def ZIP_BIGLEN_def)
  have nd: "zipPrevLenByteDiff zl p 3 = Some (- 4)"
    using zipPrevLenByteDiff_entry [of "H b p" p True pl "[1, a, ZIP_END]" 3] lH pl l
    unfolding z1 by (simp add: prev_field_def zipPrevEncodeLengthForceLarge_def ZIP_BIGLEN_def del: le_bytes_numeral)
  have "int b + int 3 + (- 4) = int (b - 1)" using b(1) by simp
  then have R: "ziplistResize zl (int b + int 3 + (- 4)) = Some (H (b - 1) p @ [254, l0, l1, l2, l3, 1, ZIP_END])"
    using ziplistResize_hdr [of "int b + int 3 + (- 4)" "b - 1" b p n "A @ [254, l0, l1, l2, l3, 1, a, ZIP_END]"] b
    unfolding z1 by (simp add: H_def zrealloc_def)
  have c2: "mem_byte (H (b - 1) p @ [254, l0, l1, l2, l3, 1, ZIP_END]) p = Some 254"
    by (rule mem_byte_append [OF lH])
  have k: "int b - int p - 1 + - 4 = int 3" "int p + int 3 = int (p + 3)" "int p - - 4 = int (p + 4)" using b p by simp_all
  have rd: "mem_read (H (b - 1) p @ [254, l0, l1, l2, l3, 1, ZIP_END]) (p + 4) 3 = Some [l3, 1, ZIP_END]"
    using mem_read_append_end [of "H (b - 1) p @ [254, l0, l1, l2]" "p + 4" "[l3, 1, ZIP_END]" 3] lH by simp
  have mv: "memmove (H (b - 1) p @ [254, l0, l1, l2, l3, 1, ZIP_END]) (int p + int 3) (int p - - 4) (int b - int p - 1 + - 4) =
      Some (H (b - 1) p @ [254, l0, l1, l3, 1, ZIP_END, ZIP_END])"
    using mem_write_append [of "H (b - 1) p @ [254, l0, l1]" "p + 3" "[l3, 1, ZIP_END]" "[l2, l3, 1]" "[ZIP_END]"] lH rd
    unfolding k memmove_int by (simp add: mem_move_def)
  have w1: "mem_write (H (b - 1) p @ [254, l0, l1, l3, 1, ZIP_END, ZIP_END]) (p + 3) [3] =
      Some (H (b - 1) p @ [254, l0, l1, 3, 1, ZIP_END, ZIP_END])"
    using mem_write_append [of "H (b - 1) p @ [254, l0, l1]" "p + 3" "[3]" "[l3]" "[1, ZIP_END, ZIP_END]"] lH by simp
  have T: "ZIPLIST_TAIL_OFFSET (H (b - 1) p @ X) = Some p"
    "set_ZIPLIST_TAIL_OFFSET (H (b - 1) p @ X) (int p + int 3) = Some (H (b - 1) (p + 3) @ X)" for X
    using b p by (auto simp: H_def intro!: ZIPLIST_fields set_ZIPLIST_fields)
  let ?z3 = "H (b - 1) (p + 3) @ [254, l0, l1, 3, 1, ZIP_END, ZIP_END]"
  have e3: "ebytes 3 (False, ZStr [255]) = [3, 1, ZIP_END]" by (simp add: prev_field_def one ZIP_END_def)
  have z3: "?z3 = (H (b - 1) (p + 3) @ [254, l0, l1]) @ ebytes 3 (False, ZStr [255]) @ [ZIP_END]" unfolding e3 by simp
  obtain tail where tail: "zipEntry ?z3 (p + 3) = Some tail" "p + 3 + ze_headersize tail + ze_len tail = p + 6" "ze_rawlen tail = 3"
    using zipEntry_ebytes [of "H (b - 1) (p + 3) @ [254, l0, l1]" "p + 3" "(False, ZStr [255])" 3 "[ZIP_END]"] lH
    unfolding z3 by (auto simp: length_zipEncodeLength zipEncodeLength_size_def ZIP_BIGLEN_def)
  have cE: "mem_byte ?z3 (p + 6) = Some ZIP_END" "mem_byte ?z3 (p + 3) = Some 3" "mem_byte ?z3 (p + 3 + 3) = Some ZIP_END"
    using mem_byte_append [of "H (b - 1) (p + 3) @ [254, l0, l1, 3, 1, ZIP_END]" "p + 6" ZIP_END "[]"]
      mem_byte_append [of "H (b - 1) (p + 3) @ [254, l0, l1]" "p + 3" 3 "[1, ZIP_END, ZIP_END]"] lH
    by (simp_all add: add.commute)
  have B3: "ZIPLIST_BYTES ?z3 = Some (b - 1)" using b by (auto simp: H_def intro!: ZIPLIST_fields)
  have n3: "((3 :: byte) = ZIP_END) = False" by (simp add: ZIP_END_def)
  have cas: "u_ziplistCascadeUpdate ?z3 (p + 3) = Some ?z3"
    unfolding u_ziplistCascadeUpdate_def B3 Option.bind.simps
    by (subst cascade_loop.simps) (simp only: cE tail n3 Option.bind.simps simp_thms if_True if_False)
  have w: "mem_write ?z3 p [word_of_nat pl] = Some (H (b - 1) (p + 3) @ [word_of_nat pl, l0, l1, 3, 1, ZIP_END, ZIP_END])"
    "mem_write (H (b - 1) (p + 3) @ [word_of_nat pl, l0, l1, 3, 1, ZIP_END, ZIP_END]) (p + 1) [1] =
       Some (H (b - 1) (p + 3) @ [word_of_nat pl, 1, l1, 3, 1, ZIP_END, ZIP_END])"
    "mem_write (H (b - 1) (p + 3) @ [word_of_nat pl, 1, l1, 3, 1, ZIP_END, ZIP_END]) (p + 1 + 1) [c] =
       Some (H (b - 1) (p + 3) @ [word_of_nat pl, 1, c, 3, 1, ZIP_END, ZIP_END])"
    using mem_write_append [of "H (b - 1) (p + 3)" p "[word_of_nat pl]" "[254]"]
      mem_write_append [of "H (b - 1) (p + 3) @ [word_of_nat pl]" "p + 1" "[1]" "[l0]"]
      mem_write_append [of "H (b - 1) (p + 3) @ [word_of_nat pl, 1]" "p + 1 + 1" "[c]" "[l1]"] lH by simp_all
  have inc: "ZIPLIST_INCR_LENGTH (H (b - 1) (p + 3) @ X) 1 = Some (zl_hdr (b - 1) (p + 3) (if n < UINT16_MAX then n + 1 else n) @ A @ X)" for X
    using ZIPLIST_INCR_LENGTH_hdr [of n 1 "n + 1" "b - 1" "p + 3" "A @ X"] n by (simp add: H_def)
  have n255: "(254 = ZIP_END) = False" "(- (4 :: int) = 0) = False" by (simp_all add: ZIP_END_def)
  have "u_ziplistInsert zl p [c] = Some (zl_hdr (b - 1) (p + 3) (if n < UINT16_MAX then n + 1 else n) @ A @ [word_of_nat pl, 1, c, 3, 1, ZIP_END, ZIP_END])"
    unfolding u_ziplistInsert_def
    by (simp only: B c1 en iv sz nd R c2 mv w1 T tail(1,2) cE cas w inc n255 is_str Option.bind.simps prod.case simp_thms if_True if_False)
  then show ?thesis by (simp add: prev_field_def one ZIP_END_def)
qed


lemma push_end_exact:
  assumes "zl_rep zl es" and "sizes es + length s + 25 < 2 ^ 32"
  shows "\<exists>zl'. ziplistPush zl s False = Some zl' \<and> zl_rep zl' (es @ [(\<not> last_size 0 es < ZIP_BIGLEN, zval_of s)])"
  using insert_end_ok [OF assms(1), of s] zl_bytes [OF assms(1)] zl_length [OF assms(1)] assms(2)
  by (simp add: ziplistPush_def ZIPLIST_ENTRY_END_def require_def)

lemma zval_of_long: "32 \<le> length s \<Longrightarrow> zval_of s = ZStr s"
  by (simp add: zval_of_def zipTryEncoding_def)

lemma zval_of_letters: "zval_of [65] = ZStr [65]" "zipTryEncoding [66] = None" "zipTryEncoding [65] = None" "zipTryEncoding [255] = None"
  by (simp_all add: zval_of_def zipTryEncoding_def string2ll_def)

text \<open>After a long first string is deleted, the field of the entry after the next stays wide.\<close>

lemma wide_history:
  assumes lx: "length x = 300" "length y = 247"
  shows "\<exists>zl. do { zl \<leftarrow> ziplistNew; zl \<leftarrow> ziplistPush zl x False; zl \<leftarrow> ziplistPush zl y False;
      zl \<leftarrow> ziplistPush zl [65] False; ziplistDeleteRange zl 0 1 } = Some zl \<and> zl_rep zl [(False, ZStr y), (True, ZStr [65])]"
proof -
  have zv: "zval_of x = ZStr x" "zval_of y = ZStr y" using lx by (simp_all add: zval_of_long)
  have te: "zipTryEncoding y = None" using lx by (simp add: zipTryEncoding_def)
  have sz: "esize (False, ZStr x) = 303" "esize (True, ZStr y) = 254" "esize (False, ZStr y) = 250" "esize (True, ZStr [65]) = 7"
    "esize (False, ZStr [66]) = 3" "esize (False, ZStr [255]) = 3"
    using lx by (simp_all add: length_zipEncodeLength zipEncodeLength_size_def)
  obtain z0 where z0: "ziplistNew = Some z0" "zl_rep z0 []" using ziplistNew_ok by blast
  obtain z1 where z1: "ziplistPush z0 x False = Some z1" "zl_rep z1 [(False, ZStr x)]"
    using push_end_exact [OF z0(2), of x] lx zv by (simp add: ZIP_BIGLEN_def) blast
  obtain z2 where z2: "ziplistPush z1 y False = Some z2" "zl_rep z2 [(False, ZStr x), (True, ZStr y)]"
    using push_end_exact [OF z1(2), of y] lx zv sz by (simp add: ZIP_BIGLEN_def del: esize.simps) blast
  obtain z3 where z3: "ziplistPush z2 [65] False = Some z3" "zl_rep z3 [(False, ZStr x), (True, ZStr y), (True, ZStr [65])]"
    using push_end_exact [OF z2(2), of "[65]"] sz zval_of_letters(1) by (simp add: ZIP_BIGLEN_def del: esize.simps) blast
  have rep3: "zl_rep z3 ([] @ [(False, ZStr x)] @ (True, ZStr y) # [(True, ZStr [65])])" using z3(2) by simp
  have "length z3 + 4 * length [(True, ZStr [65])] + 12 < 2 ^ 31"
    using zl_length [OF z3(2)] sz by (simp del: esize.simps)
  from delete_mid_ok [OF rep3 _ this] obtain z4 y' where d4:
    "u_ziplistDelete z3 (10 + sizes []) (length [(False, ZStr x)]) = Some z4" "zl_rep z4 ([] @ y' # [(True, ZStr [65])])"
    "map snd (y' # [(True, ZStr [65])]) = map snd [(True, ZStr y), (True, ZStr [65])]" "fst y' = (\<not> last_size 0 [] < ZIP_BIGLEN)"
    by (simp only: list.sel fst_conv list.simps simp_thms) blast
  have y': "y' = (False, ZStr y)" using d4(3,4) by (cases y') (simp add: ZIP_BIGLEN_def)
  have z4: "u_ziplistDelete z3 10 1 = Some z4" "zl_rep z4 [(False, ZStr y), (True, ZStr [65])]"
    using d4(1,2) unfolding y' by simp_all
  have "ziplistIndex z3 0 = Some (Some 10)"
    using ziplistIndex_ok [OF z3(2), of 0] by (simp add: c_limits index_pos_def zl_pos_def)
  then have d: "ziplistDeleteRange z3 0 1 = Some z4" using z4(1) by (simp add: ziplistDeleteRange_def)
  have "do { zl \<leftarrow> ziplistNew; zl \<leftarrow> ziplistPush zl x False; zl \<leftarrow> ziplistPush zl y False;
      zl \<leftarrow> ziplistPush zl [65] False; ziplistDeleteRange zl 0 1 } = Some z4"
    by (simp only: z0(1) z1(1) z2(1) z3(1) d Option.bind.simps)
  then show ?thesis using z4(2) by blast
qed

lemma ziplistInsert_inserts_witness:
  "\<exists>zl zl' es'. do { zl \<leftarrow> ziplistNew; zl \<leftarrow> ziplistPush zl (replicate 300 120) False; zl \<leftarrow> ziplistPush zl (replicate 247 121) False;
      zl \<leftarrow> ziplistPush zl [65] False; ziplistDeleteRange zl 0 1 } = Some zl \<and>
    zl_rep zl [(False, ZStr (replicate 247 121)), (True, ZStr [65])] \<and>
    ziplistInsert zl 260 [66, 67] = Some zl' \<and> zl_rep zl' es' \<and> texts es' = [replicate 247 121, [66, 67], [65]]"
proof -
  define y :: "byte list" where "y = replicate 247 121"
  have ly: "length y = 247" by (simp add: y_def)
  let ?es = "[(False, ZStr y), (True, ZStr [65])]"
  obtain zl where zl: "do { zl \<leftarrow> ziplistNew; zl \<leftarrow> ziplistPush zl (replicate 300 120) False; zl \<leftarrow> ziplistPush zl y False;
      zl \<leftarrow> ziplistPush zl [65] False; ziplistDeleteRange zl 0 1 } = Some zl" "zl_rep zl ?es"
    using wide_history [of "replicate 300 120" y] ly by auto
  have p: "zl_pos ?es 1 = 260" using ly by (simp add: zl_pos_def length_zipEncodeLength zipEncodeLength_size_def)
  have big: "4 \<le> new_size ?es 1 [66, 67]"
    by (simp add: new_size_def zval_of_def zipTryEncoding_def string2ll_def length_zipEncodeLength zipEncodeLength_size_def)
  have r: "\<exists>zl' es'. ziplistInsert zl (zl_pos ?es 1) [66, 67] = Some zl' \<and> zl_rep zl' es' \<and>
      texts es' = take 1 (texts ?es) @ [66, 67] # drop 1 (texts ?es)"
    by (rule ziplistInsert_inserts [OF zl(2) _ big]) (use ly in simp_all)
  have "take 1 (texts ?es) @ [66, 67] # drop 1 (texts ?es) = [y, [66, 67], [65]]" by simp
  with r [unfolded p] obtain zl' es' where "ziplistInsert zl 260 [66, 67] = Some zl'" "zl_rep zl' es'" "texts es' = [y, [66, 67], [65]]"
    by metis
  then show ?thesis using zl unfolding y_def by blast
qed

lemma insert_loses_byte_history:
  assumes lx: "length x = 300" "length y = 247"
  shows "\<exists>zl p zl' es es'. do { zl \<leftarrow> ziplistNew; zl \<leftarrow> ziplistPush zl x False; zl \<leftarrow> ziplistPush zl y False;
      zl \<leftarrow> ziplistPush zl [65] False; ziplistDeleteRange zl 0 1 } = Some zl \<and>
    zl_rep zl es \<and> texts es = [y, [65]] \<and> ziplistIndex zl 1 = Some (Some p) \<and>
    ziplistInsert zl p [66] = Some zl' \<and> zl_rep zl' es' \<and> texts es' = [y, [66], [255]]"
proof -
  obtain z4 where z4: "do { zl \<leftarrow> ziplistNew; zl \<leftarrow> ziplistPush zl x False; zl \<leftarrow> ziplistPush zl y False;
      zl \<leftarrow> ziplistPush zl [65] False; ziplistDeleteRange zl 0 1 } = Some z4" "zl_rep z4 [(False, ZStr y), (True, ZStr [65])]"
    using wide_history [OF lx] by blast
  have te: "zipTryEncoding y = None" using lx by (simp add: zipTryEncoding_def)
  have sz: "esize (False, ZStr y) = 250" "esize (True, ZStr [65]) = 7" "esize (False, ZStr [66]) = 3" "esize (False, ZStr [255]) = 3"
    using lx by (simp_all add: length_zipEncodeLength zipEncodeLength_size_def)
  have ix: "ziplistIndex z4 1 = Some (Some 260)"
    using ziplistIndex_ok [OF z4(2), of 1] sz by (simp add: c_limits index_pos_def zl_pos_def del: esize.simps)
  let ?e = "(False, ZStr y)"
  have s4: "11 + sizes [?e, (True, ZStr [65])] = 268" "10 + sizes (butlast [?e, (True, ZStr [65])]) = 260"
    "eb 0 [?e, (True, ZStr [65])] = ebytes 0 ?e @ ebytes 250 (True, ZStr [65])"
    using sz by (simp_all del: esize.simps ebytes.simps)
  obtain n where n: "z4 = zl_hdr 268 260 n @ eb 0 [?e, (True, ZStr [65])] @ [ZIP_END]"
    "n = UINT16_MAX \<or> n = length [?e, (True, ZStr [65])]" "n \<le> UINT16_MAX"
    by (rule zl_repE1 [OF z4(2)]) (simp only: s4(1,2))
  note n(1) [unfolded s4(3) append_assoc]
  let ?z5 = "zl_hdr 267 263 (if n < UINT16_MAX then n + 1 else n) @ ebytes 0 ?e @ ebytes 250 (False, ZStr [66]) @
    ebytes 3 (False, ZStr [255]) @ [ZIP_END]"
  have "u_ziplistInsert z4 260 [66] = Some ?z5"
    using insert_loses_byte [of 66 250 268 "ebytes 0 ?e" n 260 z4 65] n(1,3) sz zval_of_letters s4(3)
    by (simp add: ZIP_BIGLEN_def del: esize.simps ebytes.simps)
  moreover have "zl_rep ?z5 [?e, (False, ZStr [66]), (False, ZStr [255])]"
  proof (rule zl_repI)
    show "?z5 = zl_hdr 267 263 (if n < UINT16_MAX then n + 1 else n) @ eb 0 [?e, (False, ZStr [66]), (False, ZStr [255])] @ [ZIP_END]"
      using sz by (simp del: ebytes.simps esize.simps)
    show "(267 :: nat) = 10 + sizes [?e, (False, ZStr [66]), (False, ZStr [255])] + 1"
      "(263 :: nat) = 10 + sizes (butlast [?e, (False, ZStr [66]), (False, ZStr [255])])"
      using sz by (simp_all del: ebytes.simps esize.simps)
    show "ents_ok 0 [?e, (False, ZStr [66]), (False, ZStr [255])]"
      using sz te lx zval_of_letters by (simp add: ZIP_BIGLEN_def del: ebytes.simps esize.simps)
    show "(if n < UINT16_MAX then n + 1 else n) = UINT16_MAX \<or>
        (if n < UINT16_MAX then n + 1 else n) = length [?e, (False, ZStr [66]), (False, ZStr [255])]"
      "(if n < UINT16_MAX then n + 1 else n) \<le> UINT16_MAX"
      using n(2,3) by auto
  qed simp_all
  ultimately show ?thesis
    using z4 ix
    by (rule_tac x = z4 in exI, rule_tac x = 260 in exI, rule_tac x = ?z5 in exI, rule_tac x = "[?e, (True, ZStr [65])]" in exI,
      rule_tac x = "[?e, (False, ZStr [66]), (False, ZStr [255])]" in exI) (simp add: ziplistInsert_def del: ebytes.simps)
qed

text \<open>C33: An insertion can corrupt a ziplist that was built by pushes and a deletion: after
  deleting a long first string, inserting the one-byte string B before the one-byte string A
  succeeds, and the last string of the result is no longer A but the byte 255.\<close>

theorem ziplistInsert_loses_a_byte:
  "\<exists>zl p zl' es es'. do { zl \<leftarrow> ziplistNew; zl \<leftarrow> ziplistPush zl (replicate 300 120) False;
      zl \<leftarrow> ziplistPush zl (replicate 247 121) False; zl \<leftarrow> ziplistPush zl [65] False; ziplistDeleteRange zl 0 1 } = Some zl \<and>
    zl_rep zl es \<and> texts es = [replicate 247 121, [65]] \<and> ziplistIndex zl 1 = Some (Some p) \<and>
    ziplistInsert zl p [66] = Some zl' \<and> zl_rep zl' es' \<and> texts es' = [replicate 247 121, [66], [255]]"
  by (rule insert_loses_byte_history) (rule length_replicate)+

end
