(* ===== verification/LzfSpec.thy ===== *)
theory LzfSpec
  imports Lzf
begin

text \<open>
  The compressed format as a list of tokens, and the proofs that the decompressor is safe and
  interprets it, and that the compressor writes it.
\<close>

section \<open>The decompressor stays inside its blocks\<close>

lemma lit_copy_ok:
  assumes "ip + n \<le> length inp" and "p + n \<le> length out"
  shows "lit_copy inp ip out p n = Some (take p out @ take n (drop ip inp) @ drop (p + n) out)"
  using assms
proof (induction n arbitrary: ip p out)
  case (Suc n)
  let ?o = "take p out @ inp ! ip # drop (p + 1) out"
  have l: "p < length out" "ip < length inp" using Suc.prems by simp_all
  have "lit_copy inp (ip + 1) ?o (p + 1) n = Some (take (p + 1) ?o @ take n (drop (ip + 1) inp) @ drop (p + 1 + n) ?o)"
    using Suc.prems by (intro Suc.IH) simp_all
  moreover have "take (p + 1) ?o = take p out @ [inp ! ip]" using l by simp
  moreover have "drop (p + 1 + n) ?o = drop (p + Suc n) out" using l by (simp add: ac_simps)
  moreover have "take (Suc n) (drop ip inp) = inp ! ip # take n (drop (ip + 1) inp)"
    using l by (simp add: Cons_nth_drop_Suc [symmetric])
  ultimately show ?case using l by (simp add: mem_byte_def mem_write_def)
qed simp

text \<open>What a back reference appends: byte by byte, each read \<open>off + 1\<close> bytes back.\<close>

fun rep_copy :: "byte list \<Rightarrow> nat \<Rightarrow> nat \<Rightarrow> byte list" where
  "rep_copy xs off 0 = xs"
| "rep_copy xs off (Suc n) = rep_copy (xs @ [xs ! (length xs - 1 - off)]) off n"

lemma length_rep_copy [simp]: "length (rep_copy xs off n) = length xs + n"
  by (induction n arbitrary: xs) auto

lemma take_rep_copy [simp]: "take (length xs) (rep_copy xs off n) = xs"
proof (induction n arbitrary: xs)
  case (Suc n)
  let ?ys = "xs @ [xs ! (length xs - 1 - off)]"
  have "take (length xs) (rep_copy ?ys off n) = take (length xs) (take (length ?ys) (rep_copy ?ys off n))"
    by (simp only: take_take min_def) simp
  then show ?case by (simp only: Suc.IH rep_copy.simps) simp
qed simp

lemma ref_copy_ok:
  assumes "off < length xs" and "n \<le> length ys"
  shows "ref_copy (xs @ ys) (length xs - 1 - off) (length xs) n = Some (rep_copy xs off n @ drop n ys)"
  using assms
proof (induction n arbitrary: xs ys)
  case (Suc n)
  obtain y ys' where ys: "ys = y # ys'" using Suc.prems(2) by (cases ys) auto
  let ?c = "xs ! (length xs - 1 - off)"
  have r: "mem_byte (xs @ ys) (length xs - 1 - off) = Some ?c"
  proof -
    have "length xs - 1 - off < length xs" using Suc.prems(1) by linarith
    then show ?thesis by (simp add: mem_byte_def nth_append)
  qed
  have w: "mem_write (xs @ ys) (length xs) [?c] = Some ((xs @ [?c]) @ ys')" by (simp add: ys mem_write_def)
  have i: "length xs - 1 - off + 1 = length (xs @ [?c]) - 1 - off" using Suc.prems by simp
  have "ref_copy ((xs @ [?c]) @ ys') (length (xs @ [?c]) - 1 - off) (length (xs @ [?c])) n =
      Some (rep_copy (xs @ [?c]) off n @ drop n ys')"
    using Suc.prems ys by (intro Suc.IH) simp_all
  then show ?case unfolding ref_copy.simps r Option.bind.simps w i by (simp add: ys)
qed simp

text \<open>A result that stays in the block: its length and what lies after \<open>out_len\<close> are kept.\<close>

definition in_block :: "nat \<Rightarrow> byte list \<Rightarrow> byte list \<Rightarrow> bool" where
  "in_block n out out' \<longleftrightarrow> length out' = length out \<and> drop n out' = drop n out"

lemma in_block_trans: "in_block n a b \<Longrightarrow> in_block n b c \<Longrightarrow> in_block n a c"
  by (simp add: in_block_def)

lemma literal_run_safe:
  assumes "in_len \<le> length inp" and "out_len \<le> length out"
  shows "\<exists>out' r. literal_run inp in_len out out_len ctrl ip p = Some (out', r) \<and> in_block out_len out out' \<and>
    (\<forall>ip' p'. r = Inr (ip', p') \<longrightarrow> p' \<le> out_len)"
proof (cases "p + (ctrl + 1) \<le> out_len \<and> ip + (ctrl + 1) \<le> in_len")
  case True
  with assms show ?thesis
    using lit_copy_ok [of ip "ctrl + 1" inp p out] by (auto simp: literal_run_def Let_def in_block_def)
qed (auto simp: literal_run_def Let_def in_block_def)

lemma ref_length_safe:
  assumes "in_len \<le> length inp"
  shows "\<exists>l. ref_length inp in_len ctrl ip = Some l \<and> (\<forall>len ip'. l = Some (len, ip') \<longrightarrow> ip' < in_len)"
  using assms by (auto simp: ref_length_def Let_def mem_byte_def)

lemma back_reference_safe:
  assumes "in_len \<le> length inp" and "out_len \<le> length out" and "p \<le> out_len"
  shows "\<exists>out' r. back_reference inp in_len out out_len ctrl ip p = Some (out', r) \<and> in_block out_len out out' \<and>
    (\<forall>ip' p'. r = Inr (ip', p') \<longrightarrow> p' \<le> out_len)"
proof -
  obtain l where l: "ref_length inp in_len ctrl ip = Some l" "\<And>len ip'. l = Some (len, ip') \<Longrightarrow> ip' < in_len"
    using ref_length_safe [OF assms(1)] by blast
  show ?thesis
  proof (cases l)
    case None
    then show ?thesis using l by (simp add: back_reference_def in_block_def)
  next
    case (Some q)
    then obtain len ip' where q: "l = Some (len, ip')" by (cases q) simp
    then have b: "mem_byte inp ip' = Some (inp ! ip')" using l(2) assms(1) by (simp add: mem_byte_def)
    define ref where "ref = int p - int (ctrl mod 2 ^ 5 * 2 ^ 8) - 1 - int (unat (inp ! ip'))"
    have B: "back_reference inp in_len out out_len ctrl ip p =
        (if p + len + 2 > out_len then Some (out, Inl E2BIG) else if ref < 0 then Some (out, Inl EINVAL)
         else do { out' \<leftarrow> ref_copy out (nat ref) p (len + 2); Some (out', Inr (ip' + 1, p + len + 2)) })"
      using l(1) q b by (simp add: back_reference_def Let_def ref_def)
    show ?thesis
    proof (cases "p + len + 2 \<le> out_len \<and> 0 \<le> ref")
      case True
      define off where "off = p - 1 - nat ref"
      have "ref < int p" unfolding ref_def by linarith
      then have o: "off < length (take p out)" "nat ref = length (take p out) - 1 - off" "length (take p out) = p"
        using True assms by (auto simp: off_def)
      have l2: "len + 2 \<le> length (drop p out)" using conjunct1 [OF True] assms(2) by simp
      have "ref_copy out (nat ref) p (len + 2) = Some (rep_copy (take p out) off (len + 2) @ drop (len + 2) (drop p out))"
        using ref_copy_ok [OF o(1) l2] unfolding append_take_drop_id by (simp only: o(2,3))
      moreover have "in_block out_len out (rep_copy (take p out) off (len + 2) @ drop (len + 2) (drop p out))"
      proof -
        have "Suc (Suc (out_len - 2)) = out_len" "Suc (Suc (length out - 2)) = length out" "p + len + 2 \<le> out_len"
          using True assms(2) by arith+
        then show ?thesis using o(3) assms(2) by (simp add: in_block_def del: rep_copy.simps)
      qed
      ultimately show ?thesis using True by (simp add: B del: rep_copy.simps ref_copy.simps)
    next
      case False
      then show ?thesis unfolding B by (auto simp: in_block_def)
    qed
  qed
qed

lemma decompress_step_safe:
  assumes "ip < in_len" and "in_len \<le> length inp" and "p \<le> out_len" and "out_len \<le> length out"
  obtains out' r where "decompress_step inp in_len out out_len ip p = Some (out', r)" "in_block out_len out out'"
    "\<And>ip' p'. r = Inr (ip', p') \<Longrightarrow> p' \<le> out_len"
proof -
  have "mem_byte inp ip = Some (inp ! ip)" using assms by (simp add: mem_byte_def)
  then show thesis
    using that literal_run_safe [OF assms(2,4), of "unat (inp ! ip)" "ip + 1" p]
      back_reference_safe [OF assms(2,4,3), of "unat (inp ! ip)" "ip + 1"]
    by (cases "unat (inp ! ip) < 2 ^ 5") (simp_all add: decompress_step_def, blast+)
qed

lemma decompress_loop_safe:
  assumes "ip < in_len" and "in_len \<le> length inp" and "p \<le> out_len" and "out_len \<le> length out"
  shows "\<exists>out' r. decompress_loop inp in_len out out_len ip p = Some (out', r) \<and> in_block out_len out out' \<and>
    (\<forall>n. r = Inr n \<longrightarrow> n \<le> out_len)"
  using assms
proof (induction inp in_len out out_len ip p rule: decompress_loop.induct)
  case (1 inp in_len out out_len ip p)
  obtain out' r where s: "decompress_step inp in_len out out_len ip p = Some (out', r)" "in_block out_len out out'"
    "\<And>ip' p'. r = Inr (ip', p') \<Longrightarrow> p' \<le> out_len" by (rule decompress_step_safe [OF 1(2-5)]) blast
  show ?case
  proof (cases r)
    case (Inl e)
    then show ?thesis using s by (subst decompress_loop.simps) simp
  next
    case (Inr q)
    then obtain ip' p' where q: "r = Inr (ip', p')" by (cases q) simp
    have p': "p' \<le> out_len" by (rule s(3) [OF q])
    show ?thesis
    proof (cases "ip' < in_len")
      case True
      have "out_len \<le> length out'" using s(2) 1(5) by (simp add: in_block_def)
      from 1(1) [OF s(1) refl q refl True True 1(3) p' this] obtain out'' r' where
        "decompress_loop inp in_len out' out_len ip' p' = Some (out'', r')" "in_block out_len out' out''"
        "\<forall>n. r' = Inr n \<longrightarrow> n \<le> out_len" by blast
      then show ?thesis using s(1) q True in_block_trans [OF s(2)] by (subst decompress_loop.simps) simp
    next
      case False
      then show ?thesis using s(1,2) q p' by (subst decompress_loop.simps) simp
    qed
  qed
qed

text \<open>C13: On any input of at least one byte, however corrupt, the decompressor reads only the input and writes only
  the first \<open>out_len\<close> bytes of its output block, and reports at most that many. On an empty input it is not safe: the
  loop reads a control byte before it compares the input pointer with the end of the input.\<close>

theorem lzf_decompress_safe:
  assumes "in_len \<le> length inp" and "out_len \<le> length out"
  shows "(0 < in_len \<longrightarrow> (\<exists>out' r. lzf_decompress inp in_len out out_len = Some (out', r) \<and>
      length out' = length out \<and> drop out_len out' = drop out_len out \<and> (\<forall>n. r = Inr n \<longrightarrow> n \<le> out_len))) \<and>
    (inp = [] \<longrightarrow> lzf_decompress inp in_len out out_len = None)"
proof -
  have "lzf_decompress [] in_len out out_len = None"
    by (simp add: lzf_decompress_def decompress_step_def mem_byte_def)
  then show ?thesis
    using decompress_loop_safe [of 0 in_len inp 0 out_len out] assms by (auto simp: lzf_decompress_def in_block_def)
qed

lemma lzf_decompress_safe_witness:
  "(\<exists>out' r. lzf_decompress [224, 255, 3] 3 [0, 0, 0, 7] 3 = Some (out', r) \<and> length out' = 4 \<and> drop 3 out' = [7]) \<and>
   lzf_decompress [] 0 [0, 0, 0, 7] 3 = None"
  using lzf_decompress_safe [of 3 "[224, 255, 3]" 3 "[0, 0, 0, 7]"] lzf_decompress_safe [of 0 "[]" 3 "[0, 0, 0, 7]"] by auto

section \<open>Tokens\<close>

text \<open>A back reference of a length and an offset as they are stored: \<open>len + 2\<close> bytes, read
  from \<open>off + 1\<close> bytes back.\<close>

datatype lzf_tok = Lit "byte list" | Back nat nat

fun apply_tok :: "byte list \<Rightarrow> lzf_tok \<Rightarrow> byte list" where
  "apply_tok xs (Lit bs) = xs @ bs"
| "apply_tok xs (Back off len) = rep_copy xs off (len + 2)"

fun tok_ok :: "byte list \<Rightarrow> lzf_tok \<Rightarrow> bool" where
  "tok_ok xs (Lit bs) \<longleftrightarrow> 0 < length bs \<and> length bs \<le> 32"
| "tok_ok xs (Back off len) \<longleftrightarrow> off < 2 ^ 13 \<and> off < length xs \<and> 0 < len \<and> len \<le> 262"

fun toks_ok :: "byte list \<Rightarrow> lzf_tok list \<Rightarrow> bool" where
  "toks_ok xs [] \<longleftrightarrow> True"
| "toks_ok xs (t # ts) \<longleftrightarrow> tok_ok xs t \<and> toks_ok (apply_tok xs t) ts"

definition back_head :: "nat \<Rightarrow> nat \<Rightarrow> byte list" where
  "back_head off len =
     (if len < 7 then [word_of_nat (off div 2 ^ 8 + len * 2 ^ 5)]
      else [word_of_nat (off div 2 ^ 8 + 7 * 2 ^ 5), word_of_nat (len - 7)])"

fun enc_tok :: "lzf_tok \<Rightarrow> byte list" where
  "enc_tok (Lit bs) = word_of_nat (length bs - 1) # bs"
| "enc_tok (Back off len) = back_head off len @ [word_of_nat off]"

definition enc_toks :: "lzf_tok list \<Rightarrow> byte list" where
  "enc_toks ts = concat (map enc_tok ts)"

definition expand :: "lzf_tok list \<Rightarrow> byte list" where
  "expand ts = foldl apply_tok [] ts"

lemma enc_toks_simps [simp]:
  "enc_toks [] = []" "enc_toks (t # ts) = enc_tok t @ enc_toks ts" "enc_toks (ts @ us) = enc_toks ts @ enc_toks us"
  by (simp_all add: enc_toks_def)

lemma expand_simps [simp]: "expand [] = []" "expand (ts @ [t]) = apply_tok (expand ts) t"
  by (simp_all add: expand_def)

lemma toks_ok_append: "toks_ok xs (ts @ us) \<longleftrightarrow> toks_ok xs ts \<and> toks_ok (foldl apply_tok xs ts) us"
  by (induction ts arbitrary: xs) auto

lemma toks_ok_snoc [simp]: "toks_ok [] (ts @ [t]) \<longleftrightarrow> toks_ok [] ts \<and> tok_ok (expand ts) t"
  by (simp add: toks_ok_append expand_def)

lemma enc_tok_nonempty: "enc_tok t \<noteq> []"
  by (cases t) (auto simp: back_head_def)

lemma apply_tok_prefix: "take (length xs) (apply_tok xs t) = xs" "length xs \<le> length (apply_tok xs t)"
  by (cases t, simp_all del: rep_copy.simps)+

lemma foldl_apply_length: "length xs \<le> length (foldl apply_tok xs ts)"
proof (induction ts arbitrary: xs)
  case (Cons t ts)
  then show ?case using apply_tok_prefix(2) [of xs t] by (metis foldl_Cons order_trans)
qed simp

section \<open>The decompressor interprets the tokens\<close>

lemma unat_small: "n < 256 \<Longrightarrow> unat (word_of_nat n :: byte) = n"
  by (simp add: unat_of_nat)

lemma drop_append_extend:
  assumes "length (ys :: byte list) = n" and "k = length xs + n"
  shows "drop k (xs @ ys @ zs) = zs"
  using assms by simp

lemma decompress_step_lit:
  assumes "0 < length bs" and "length bs \<le> 32" and "inp = pre @ enc_tok (Lit bs) @ post" and "in_len = length inp"
    and "length xs + length bs \<le> out_len" and "out_len \<le> length xs + length ys"
  shows "decompress_step inp in_len (xs @ ys) out_len (length pre) (length xs) =
    Some ((xs @ bs) @ drop (length bs) ys, Inr (length pre + length (enc_tok (Lit bs)), length xs + length bs))"
proof -
  let ?c = "word_of_nat (length bs - 1) :: byte"
  have c: "unat ?c = length bs - 1" using assms by (intro unat_small) simp
  have b: "mem_byte inp (length pre) = Some ?c" using assms by simp
  have "lit_copy inp (length pre + 1) (xs @ ys) (length xs) (length bs) =
      Some (take (length xs) (xs @ ys) @ take (length bs) (drop (length pre + 1) inp) @ drop (length xs + length bs) (xs @ ys))"
    using assms by (intro lit_copy_ok) simp_all
  then have l: "lit_copy inp (length pre + 1) (xs @ ys) (length xs) (length bs) = Some (xs @ bs @ drop (length bs) ys)"
    using assms(3) by simp
  have k: "length bs - 1 + 1 = length bs" using assms(1) by simp
  have f: "(length bs - 1 < 2 ^ 5) = True" "(length xs + length bs > out_len) = False" "(length pre + 1 + length bs > in_len) = False"
    using assms by simp_all
  show ?thesis
    unfolding decompress_step_def b Option.bind.simps f if_True literal_run_def Let_def c k f if_False l by (simp add: assms(3))
qed

lemma back_head_read:
  assumes "off < 2 ^ 13" and "len \<le> 262" and "0 < len" and "inp = pre @ back_head off len @ b # post"
  shows "\<exists>c. mem_byte inp (length pre) = Some c \<and> \<not> unat c < 2 ^ 5 \<and> unat c mod 2 ^ 5 = off div 2 ^ 8 \<and>
    ref_length inp (length inp) (unat c) (length pre + 1) = Some (Some (len, length pre + length (back_head off len)))"
proof (cases "len < 7")
  case True
  have d: "off div 256 < 32" using assms(1) by simp
  let ?c = "word_of_nat (off div 2 ^ 8 + len * 2 ^ 5) :: byte"
  have c: "unat ?c = off div 256 + len * 32" using True d by (subst unat_small) simp_all
  then have "unat ?c div 2 ^ 5 = len" "unat ?c mod 2 ^ 5 = off div 2 ^ 8" "\<not> unat ?c < 2 ^ 5"
    using d assms(3) by simp_all
  then show ?thesis using True assms(4) by (intro exI [of _ ?c]) (simp add: back_head_def ref_length_def)
next
  case False
  have d: "off div 256 < 32" using assms(1) by simp
  have mod_32: "(q + 224) mod 32 = q \<and> (q + 224) div 32 = 7" if "q < 32" for q :: nat
    using that mod_mult_self1 [of q 7 32] div_mult_self1 [of 32 q 7] by simp
  note m = conjunct1 [OF mod_32 [OF d]] conjunct2 [OF mod_32 [OF d]]
  have p: "(2 :: nat) ^ 5 = 32" "(2 :: nat) ^ 8 = 256" by simp_all
  let ?c = "word_of_nat (off div 2 ^ 8 + 7 * 2 ^ 5) :: byte"
  have c: "unat ?c = off div 256 + 224" using d by (subst unat_small) simp_all
  then have "unat ?c div 2 ^ 5 = 7" "unat ?c mod 2 ^ 5 = off div 2 ^ 8" "\<not> unat ?c < 2 ^ 5"
    unfolding p by (simp_all only: c m)
  moreover have "unat (word_of_nat (len - 7) :: byte) = len - 7" using assms(2) by (intro unat_small) simp
  ultimately show ?thesis using False assms(4)
    by (intro exI [of _ ?c]) (simp add: back_head_def ref_length_def)
qed

lemma decompress_step_back:
  assumes "tok_ok xs (Back off len)" and "inp = pre @ enc_tok (Back off len) @ post" and "in_len = length inp"
    and "length (apply_tok xs (Back off len)) \<le> out_len" and "out_len \<le> length xs + length ys"
  shows "decompress_step inp in_len (xs @ ys) out_len (length pre) (length xs) =
    Some (apply_tok xs (Back off len) @ drop (len + 2) ys,
      Inr (length pre + length (enc_tok (Back off len)), length (apply_tok xs (Back off len))))"
proof -
  have i: "inp = pre @ back_head off len @ word_of_nat off # post" using assms(2) by simp
  obtain c where c: "mem_byte inp (length pre) = Some c" "\<not> unat c < 2 ^ 5" "unat c mod 2 ^ 5 = off div 2 ^ 8"
    "ref_length inp in_len (unat c) (length pre + 1) = Some (Some (len, length pre + length (back_head off len)))"
    using back_head_read [OF _ _ _ i] assms(1,3) by auto
  have b: "mem_byte inp (length pre + length (back_head off len)) = Some (word_of_nat off)"
    using mem_byte_append [of "pre @ back_head off len"] unfolding i by simp
  have u: "unat (word_of_nat off :: byte) = off mod 256" by (simp add: unat_of_nat)
  have e: "int off = int (off div 256) * 256 + int (off mod 256)"
    by (metis div_mult_mod_eq of_nat_add of_nat_mult of_nat_numeral)
  have r: "int (length xs) - int (unat c mod 2 ^ 5 * 2 ^ 8) - 1 - int (unat (word_of_nat off :: byte)) = int (length xs - 1 - off)"
    unfolding c(3) u using assms(1) by (simp add: of_nat_diff) (use e in linarith)
  have cp: "ref_copy (xs @ ys) (length xs - 1 - off) (length xs) (len + 2) = Some (rep_copy xs off (len + 2) @ drop (len + 2) ys)"
    using assms by (intro ref_copy_ok) simp_all
  have f: "(length xs + len + 2 > out_len) = False" "(int (length xs - 1 - off) < 0) = False" "(unat c < 2 ^ 5) = False"
    using assms(4) c(2) by simp_all
  show ?thesis
    unfolding decompress_step_def c(1) Option.bind.simps f if_False back_reference_def c(4) option.case prod.case b Let_def r f nat_int cp
    by (simp add: i)
qed

lemma decompress_step_tok:
  assumes "tok_ok xs t" and "inp = pre @ enc_tok t @ post" and "in_len = length inp"
    and "length (apply_tok xs t) \<le> out_len" and "out_len \<le> length xs + length ys"
  shows "\<exists>ys'. decompress_step inp in_len (xs @ ys) out_len (length pre) (length xs) =
    Some (apply_tok xs t @ ys', Inr (length pre + length (enc_tok t), length (apply_tok xs t))) \<and>
    length (apply_tok xs t @ ys') = length (xs @ ys)"
proof (cases t)
  case (Lit bs)
  then show ?thesis using decompress_step_lit [of bs inp pre post in_len xs out_len ys] assms by auto
next
  case (Back off len)
  then show ?thesis using decompress_step_back [of xs off len inp pre post in_len out_len ys] assms
    by (auto simp del: rep_copy.simps)
qed

lemma decompress_loop_toks:
  assumes "toks_ok xs (t # ts)" and "inp = pre @ enc_toks (t # ts)" and "in_len = length inp"
    and "length (foldl apply_tok xs (t # ts)) \<le> out_len" and "out_len \<le> length xs + length ys"
  shows "\<exists>ys'. decompress_loop inp in_len (xs @ ys) out_len (length pre) (length xs) =
    Some (foldl apply_tok xs (t # ts) @ ys', Inr (length (foldl apply_tok xs (t # ts))))"
  using assms
proof (induction ts arbitrary: t xs ys pre)
  case Nil
  obtain ys' where "decompress_step inp in_len (xs @ ys) out_len (length pre) (length xs) =
      Some (apply_tok xs t @ ys', Inr (length pre + length (enc_tok t), length (apply_tok xs t)))"
    using decompress_step_tok [of xs t inp pre "[]" in_len out_len ys] Nil by auto
  then show ?case using Nil by (subst decompress_loop.simps) simp
next
  case (Cons u us)
  have l: "length (apply_tok xs t) \<le> out_len"
    using Cons.prems(4) foldl_apply_length [of "apply_tok xs t" "u # us"] by simp
  obtain ys' where s: "decompress_step inp in_len (xs @ ys) out_len (length pre) (length xs) =
      Some (apply_tok xs t @ ys', Inr (length pre + length (enc_tok t), length (apply_tok xs t)))"
    "length (apply_tok xs t @ ys') = length (xs @ ys)"
    using decompress_step_tok [of xs t inp pre "enc_toks (u # us)" in_len out_len ys] Cons.prems l by auto
  have i: "inp = (pre @ enc_tok t) @ enc_toks (u # us)" using Cons.prems by simp
  obtain ys'' where "decompress_loop inp in_len (apply_tok xs t @ ys') out_len (length (pre @ enc_tok t)) (length (apply_tok xs t)) =
      Some (foldl apply_tok (apply_tok xs t) (u # us) @ ys'', Inr (length (foldl apply_tok (apply_tok xs t) (u # us))))"
    using Cons.IH [OF _ i Cons.prems(3), of "apply_tok xs t" ys'] Cons.prems s(2) by auto
  moreover have "length pre + length (enc_tok t) < in_len" using Cons.prems(3) enc_tok_nonempty [of u] by (simp add: i)
  ultimately show ?case using s(1) by (subst decompress_loop.simps) simp
qed

lemma lzf_decompress_toks:
  assumes "toks_ok [] ts" and "ts \<noteq> []" and "inp = enc_toks ts @ junk" and "in_len = length (enc_toks ts)"
    and "length (expand ts) \<le> out_len" and "out_len \<le> length out"
  shows "\<exists>out'. lzf_decompress (take in_len inp) in_len out out_len = Some (out', Inr (length (expand ts))) \<and>
    take (length (expand ts)) out' = expand ts"
  using decompress_loop_toks [of "[]" "hd ts" "tl ts" "take in_len inp" "[]" in_len out_len out] assms
  by (auto simp: lzf_decompress_def expand_def)

end
