(* ===== verification/LzfRound.thy ===== *)
theory LzfRound
  imports LzfSpec
begin

text \<open>
  The compressor writes tokens that expand to its input, stays within one byte after its output
  block, and does use that byte.
\<close>

section \<open>The state between two steps\<close>

text \<open>The block holds the tokens \<open>ts\<close> for the input up to the current literal run, one byte for
  the length of the run, and the run. \<open>cap\<close> is the size of the block.\<close>

definition z_open :: "byte list \<Rightarrow> nat \<Rightarrow> lzf_tok list \<Rightarrow> lzf_state \<Rightarrow> bool" where
  "z_open inp cap ts st \<longleftrightarrow>
     toks_ok [] ts \<and> z_lit st \<le> z_ip st \<and> z_ip st \<le> length inp \<and> z_lit st < 32 \<and>
     expand ts = take (z_ip st - z_lit st) inp \<and>
     (\<exists>h rest. z_out st = enc_toks ts @ h # take (z_lit st) (drop (z_ip st - z_lit st) inp) @ rest) \<and>
     z_op st = length (enc_toks ts) + 1 + z_lit st \<and> length (z_out st) = cap \<and> (\<forall>i. z_htab st i < 2 ^ 63)"

text \<open>The same without a run in progress.\<close>

definition z_closed :: "byte list \<Rightarrow> nat \<Rightarrow> lzf_tok list \<Rightarrow> lzf_state \<Rightarrow> bool" where
  "z_closed inp cap ts st \<longleftrightarrow>
     toks_ok [] ts \<and> z_ip st \<le> length inp \<and> expand ts = take (z_ip st) inp \<and>
     (\<exists>rest. z_out st = enc_toks ts @ rest) \<and> z_op st = length (enc_toks ts) \<and> length (z_out st) = cap \<and>
     (\<forall>i. z_htab st i < 2 ^ 63)"

lemma take_add_drop: "k \<le> n \<Longrightarrow> n \<le> length xs \<Longrightarrow> take (n - k) xs @ take k (drop (n - k) xs) = take n xs"
  by (metis le_add_diff_inverse2 take_add)

lemma close_run:
  assumes "z_open inp cap ts st"
  obtains st1 ts1 where "stop_run st = Some st1" "z_closed inp cap ts1 (undo_run st1)" "z_ip st1 = z_ip st"
    "z_htab st1 = z_htab st" "z_op (undo_run st1) = z_op st - (if z_lit st = 0 then 1 else 0)"
proof -
  from assms obtain h rest where o: "toks_ok [] ts" "z_lit st \<le> z_ip st" "z_ip st \<le> length inp" "z_lit st < 32"
    "expand ts = take (z_ip st - z_lit st) inp" "z_op st = length (enc_toks ts) + 1 + z_lit st" "length (z_out st) = cap"
    "\<And>i. z_htab st i < 2 ^ 63" "z_out st = enc_toks ts @ h # take (z_lit st) (drop (z_ip st - z_lit st) inp) @ rest"
    unfolding z_open_def by blast
  define bs where "bs = take (z_lit st) (drop (z_ip st - z_lit st) inp)"
  have lb: "length bs = z_lit st" using o by (simp add: bs_def)
  define v where "v = (word_of_int (int (z_lit st) - 1) :: byte)"
  have w: "mem_write (z_out st) (z_op st - z_lit st - 1) [v] = Some (enc_toks ts @ v # bs @ rest)"
    using mem_write_append [of "enc_toks ts" _ "[v]" "[h]" "bs @ rest"] unfolding o(6,9) bs_def [symmetric] by simp
  let ?st1 = "st\<lparr>z_out := enc_toks ts @ v # bs @ rest\<rparr>"
  have s: "stop_run st = Some ?st1" using w o(6) by (simp add: stop_run_def v_def)
  have cap: "length (enc_toks ts @ v # bs @ rest) = cap" using o(7,9) by (simp add: bs_def)
  show thesis
  proof (cases "z_lit st = 0")
    case True
    then have "bs = []" using lb by simp
    then show thesis using o True cap \<open>bs = []\<close>
      by (intro that [OF s, of ts]) (simp_all add: undo_run_def z_closed_def)
  next
    case False
    have v: "v # bs = enc_tok (Lit bs)" using False lb by (simp add: v_def of_nat_diff)
    have e: "expand ts @ bs = take (z_ip st) inp" using take_add_drop o by (simp add: bs_def)
    have "z_closed inp cap (ts @ [Lit bs]) (undo_run ?st1)"
      using o e False lb cap v by (simp add: z_closed_def undo_run_def)
    then show thesis using False by (intro that [OF s, of "ts @ [Lit bs]"]) (simp_all add: undo_run_def)
  qed
qed

lemma put_literal_ok:
  assumes "z_open inp cap ts st" and "z_ip st < length inp" and "z_op st + 2 \<le> cap"
  obtains st' ts' where "put_literal inp st = Some st'" "z_open inp cap ts' st'" "z_ip st' = z_ip st + 1"
    "z_op st' = z_op st + 1 \<or> z_op st' = z_op st + 2 \<and> z_lit st' = 0"
proof -
  from assms(1) obtain h rest where o: "toks_ok [] ts" "z_lit st \<le> z_ip st" "z_ip st \<le> length inp" "z_lit st < 32"
    "expand ts = take (z_ip st - z_lit st) inp" "z_op st = length (enc_toks ts) + 1 + z_lit st" "length (z_out st) = cap"
    "\<And>i. z_htab st i < 2 ^ 63" "z_out st = enc_toks ts @ h # take (z_lit st) (drop (z_ip st - z_lit st) inp) @ rest"
    unfolding z_open_def by blast
  define bs where "bs = take (z_lit st) (drop (z_ip st - z_lit st) inp)"
  define c where "c = inp ! z_ip st"
  have lb: "length bs = z_lit st" using o by (simp add: bs_def)
  have bs': "bs @ [c] = take (z_lit st + 1) (drop (z_ip st - z_lit st) inp)"
    using o(2) assms(2) by (simp add: bs_def c_def take_Suc_conv_app_nth)
  obtain r0 r1 rest' where rest: "rest = r0 # r1 # rest'"
    using assms(3) o(6,7,9) lb unfolding bs_def [symmetric] by (cases rest; cases "tl rest") auto
  let ?out = "enc_toks ts @ h # (bs @ [c]) @ r1 # rest'"
  have w: "mem_write (z_out st) (z_op st) [c] = Some ?out"
    using mem_write_append [of "enc_toks ts @ h # bs" _ "[c]" "[r0]" "r1 # rest'"] lb
    unfolding o(6,9) bs_def [symmetric] rest by simp
  let ?st1 = "st\<lparr>z_lit := z_lit st + 1, z_ip := z_ip st + 1, z_out := ?out, z_op := z_op st + 1\<rparr>"
  have m: "mem_byte inp (z_ip st) = Some c" using assms(2) by (simp add: mem_byte_def c_def)
  have p: "put_literal inp st = (if z_lit st + 1 = 32 then do { st \<leftarrow> stop_run ?st1; Some (start_run st) } else Some ?st1)"
    using w by (simp add: put_literal_def put_byte_def m MAX_LIT_def)
  have cap: "length ?out = cap" using o(7,9) rest by (simp add: bs_def)
  show thesis
  proof (cases "z_lit st + 1 = 32")
    case False
    have "z_open inp cap ts ?st1" unfolding z_open_def using o assms(2) bs' cap False by (simp add: exI [of _ h])
    then show thesis using p False by (intro that [of ?st1 ts]) simp_all
  next
    case True
    define v where "v = (word_of_nat 31 :: byte)"
    have "mem_write ?out (length (enc_toks ts)) [v] = Some (enc_toks ts @ v # (bs @ [c]) @ r1 # rest')"
      using mem_write_append [of "enc_toks ts" _ "[v]" "[h]" "(bs @ [c]) @ r1 # rest'"] by simp
    then have s: "stop_run ?st1 = Some (?st1\<lparr>z_out := enc_toks ts @ v # (bs @ [c]) @ r1 # rest'\<rparr>)"
      using True o(6) by (simp add: stop_run_def v_def)
    let ?st2 = "start_run (?st1\<lparr>z_out := enc_toks ts @ v # (bs @ [c]) @ r1 # rest'\<rparr>)"
    let ?ts = "ts @ [Lit (bs @ [c])]"
    have "z_ip st + 1 - 32 = z_ip st - z_lit st" using True o(2) by simp
    then have e: "expand ts @ bs @ [c] = take (z_ip st + 1) inp"
      using take_add_drop [of 32 "z_ip st + 1" inp] o(2,5) assms(2) bs' True by simp
    have "z_open inp cap ?ts ?st2"
      unfolding z_open_def using o(1,2,6,8) e assms(2) cap True lb by (simp add: start_run_def v_def)
    then show thesis using p s True by (intro that [of ?st2 ?ts]) (simp_all add: start_run_def)
  qed
qed

section \<open>Matches\<close>

text \<open>The \<open>n\<close> bytes at \<open>ip\<close> repeat those at \<open>ref\<close>.\<close>

definition repeats :: "byte list \<Rightarrow> nat \<Rightarrow> nat \<Rightarrow> nat \<Rightarrow> bool" where
  "repeats inp ref ip n \<longleftrightarrow> ip + n \<le> length inp \<and> (\<forall>k < n. inp ! (ref + k) = inp ! (ip + k))"

lemma repeats_Suc:
  "repeats inp ref ip n \<Longrightarrow> ip + n < length inp \<Longrightarrow> inp ! (ref + n) = inp ! (ip + n) \<Longrightarrow> repeats inp ref ip (n + 1)"
  by (auto simp: repeats_def less_Suc_eq)

lemma repeats_mono: "repeats inp ref ip n \<Longrightarrow> m \<le> n \<Longrightarrow> repeats inp ref ip m"
  by (auto simp: repeats_def)

lemma rep_copy_repeats:
  assumes "repeats inp (ip - 1 - off) ip n" and "off < ip"
  shows "rep_copy (take ip inp) off n = take (ip + n) inp"
  using assms
proof (induction n arbitrary: ip)
  case (Suc n)
  have l: "ip < length inp" and eq: "\<And>k. k < Suc n \<Longrightarrow> inp ! (ip - 1 - off + k) = inp ! (ip + k)"
    using Suc.prems by (auto simp: repeats_def)
  have "ip - 1 - off < ip" using Suc.prems(2) by linarith
  then have "take ip inp @ [take ip inp ! (length (take ip inp) - 1 - off)] = take (ip + 1) inp"
    using l eq [of 0] by (simp add: take_Suc_conv_app_nth)
  moreover have "rep_copy (take (ip + 1) inp) off n = take (ip + 1 + n) inp"
  proof (rule Suc.IH)
    have "inp ! (ip + 1 - 1 - off + k) = inp ! (ip + 1 + k)" if "k < n" for k
      using eq [of "Suc k"] that Suc.prems(2) by (simp add: Suc_diff_Suc)
    then show "repeats inp (ip + 1 - 1 - off) (ip + 1) n" using Suc.prems(1) by (simp add: repeats_def)
  qed (use Suc.prems in simp)
  ultimately show ?case by simp
qed simp

lemma match_off_small:
  assumes "match_off ip ref < MAX_OFF" and "0 < ref" and "ref < 2 ^ 63" and "ip < 2 ^ 32"
  shows "ref < int ip" "match_off ip ref = int ip - ref - 1"
proof -
  have r: "ref < int ip"
  proof (rule ccontr)
    assume "\<not> ref < int ip"
    then have b: "0 \<le> int ip - ref - 1 + 2 ^ 64" "int ip - ref - 1 + 2 ^ 64 < 2 ^ 64" "2 ^ 13 \<le> int ip - ref - 1 + 2 ^ 64"
      using assms(3) by simp_all
    have "match_off ip ref = (int ip - ref - 1 + 2 ^ 64) mod 2 ^ 64"
      unfolding match_off_def to_u64_def by (rule mod_add_self2 [symmetric])
    also have "\<dots> = int ip - ref - 1 + 2 ^ 64" by (rule mod_pos_pos_trivial [OF b(1,2)])
    finally show False using assms(1) b(3) by (simp only: MAX_OFF_def)
  qed
  then show "ref < int ip" .
  show "match_off ip ref = int ip - ref - 1" using r assms(2,4) by (simp add: match_off_def)
qed

lemma is_match_ok:
  assumes "ip + 2 < length inp" and "length inp < 2 ^ 32" and "ref < 2 ^ 63"
  obtains m where "is_match inp (length inp) ip ref = Some m"
    "m \<Longrightarrow> 0 < ref \<and> ref < int ip \<and> match_off ip ref = int ip - ref - 1 \<and> int ip - ref - 1 < 2 ^ 13 \<and>
       ip + 4 < length inp \<and> repeats inp (nat ref) ip 3"
proof (cases "match_off ip ref < MAX_OFF \<and> ip + 4 < length inp \<and> 0 < ref")
  case True
  then have r: "ref < int ip" "match_off ip ref = int ip - ref - 1"
    using match_off_small [of ip ref] assms by simp_all
  have n: "nat ref < ip" using r True by linarith
  have rd: "mem_read inp i 2 = Some [inp ! i, inp ! (i + 1)]" "mem_byte inp (i + 2) = Some (inp ! (i + 2))"
    "mem_byte inp (Suc (Suc i)) = Some (inp ! Suc (Suc i))" if "i + 2 < length inp" for i
    using that by (simp_all add: mem_read_def mem_byte_def numeral_2_eq_2 Cons_nth_drop_Suc [symmetric])
  show thesis
  proof (rule that)
    show "is_match inp (length inp) ip ref = Some ([inp ! nat ref, inp ! (nat ref + 1)] = [inp ! ip, inp ! (ip + 1)] \<and> inp ! (nat ref + 2) = inp ! (ip + 2))"
      using True n assms(1) by (simp add: is_match_def rd del: One_nat_def)
    assume "[inp ! nat ref, inp ! (nat ref + 1)] = [inp ! ip, inp ! (ip + 1)] \<and> inp ! (nat ref + 2) = inp ! (ip + 2)"
    then have "repeats inp (nat ref) ip 3" using assms(1) by (auto simp: repeats_def less_Suc_eq numeral_3_eq_3 numeral_2_eq_2)
    then show "0 < ref \<and> ref < int ip \<and> match_off ip ref = int ip - ref - 1 \<and> int ip - ref - 1 < 2 ^ 13 \<and>
       ip + 4 < length inp \<and> repeats inp (nat ref) ip 3"
      using True r by (simp add: MAX_OFF_def)
  qed
qed (intro that [of False], auto simp: is_match_def)

declare match_tail.simps [simp del]

lemma match_unrolled_ok:
  assumes "repeats inp ref ip (len + 1)" and "ip + len + n < length inp" and "ref < ip"
  obtains l b where "match_unrolled inp ref ip n len = Some (l, b)" "repeats inp ref ip (if b then l else l + 1)"
    "len \<le> l" "l \<le> len + n" "b \<Longrightarrow> len < l" "\<not> b \<Longrightarrow> l = len + n"
  using assms
proof (induction n arbitrary: len thesis)
  case (Suc n)
  have b: "mem_byte inp (ref + (len + 1)) = Some (inp ! (ref + (len + 1)))"
    "mem_byte inp (ip + (len + 1)) = Some (inp ! (ip + (len + 1)))"
    using Suc.prems(3,4) by (simp_all add: mem_byte_def)
  show ?case
  proof (cases "inp ! (ref + (len + 1)) = inp ! (ip + (len + 1))")
    case False
    then show ?thesis using b Suc.prems(2) by (intro Suc.prems(1) [of "len + 1" True]) simp_all
  next
    case True
    have r: "repeats inp ref ip (len + 1 + 1)"
      using Suc.prems(3) True by (intro repeats_Suc [OF Suc.prems(2)]) simp_all
    obtain l b' where *: "match_unrolled inp ref ip n (len + 1) = Some (l, b')" "repeats inp ref ip (if b' then l else l + 1)"
      "len + 1 \<le> l" "l \<le> len + 1 + n" "b' \<Longrightarrow> len + 1 < l" "\<not> b' \<Longrightarrow> l = len + 1 + n"
      using Suc.IH [OF _ r] Suc.prems(3,4) by auto
    show ?thesis using * b True by (intro Suc.prems(1) [of l b']) simp_all
  qed
next
  case 0
  show ?case using 0(2) by (intro 0(1) [of len False]) simp_all
qed

lemma match_tail_ok:
  assumes "repeats inp ref ip (len + 1)" and "ip + maxlen + 2 \<le> length inp" and "ref < ip"
  obtains l where "match_tail inp ref ip maxlen len = Some l" "repeats inp ref ip l" "len < l" "l \<le> max maxlen (len + 1)"
  using assms
proof (induction inp ref ip maxlen len arbitrary: thesis rule: match_tail.induct)
  case (1 inp ref ip maxlen len)
  show ?case
  proof (cases "len + 1 < maxlen")
    case False
    then show ?thesis using 1(3) by (intro 1(2) [of "len + 1"]) (subst match_tail.simps, simp_all)
  next
    case True
    have b: "mem_byte inp (ref + (len + 1)) = Some (inp ! (ref + (len + 1)))"
      "mem_byte inp (ip + (len + 1)) = Some (inp ! (ip + (len + 1)))"
      using 1(4,5) True by (simp_all add: mem_byte_def)
    show ?thesis
    proof (cases "inp ! (ref + (len + 1)) = inp ! (ip + (len + 1))")
      case False
      then show ?thesis using 1(3) True b
        by (intro 1(2) [of "len + 1"]) (subst match_tail.simps, simp_all)
    next
      case eq: True
      have r: "repeats inp ref ip (len + 1 + 1)" using 1(4) True eq by (intro repeats_Suc [OF 1(3)]) simp_all
      obtain l where *: "match_tail inp ref ip maxlen (len + 1) = Some l" "repeats inp ref ip l" "len + 1 < l" "l \<le> max maxlen (len + 1 + 1)"
        using 1(1) [OF True b eq _ r 1(4,5)] by blast
      show ?thesis using * b eq True by (intro 1(2) [of l]) (subst match_tail.simps, simp_all)
    qed
  qed
qed

lemma match_length_ok:
  assumes "repeats inp ref ip 3" and "ip + 4 < length inp" and "ref < ip"
  obtains n where "match_length inp (length inp) ref ip = Some n" "repeats inp ref ip n" "3 \<le> n" "n \<le> 264"
proof -
  define maxlen where "maxlen = min (length inp - ip - 2) MAX_REF"
  have m: "ip + maxlen + 2 \<le> length inp" "3 \<le> maxlen" "maxlen \<le> 264" using assms(2) by (auto simp: maxlen_def MAX_REF_def)
  have M: "match_length inp (length inp) ref ip = (if maxlen > 16 then
      do { r \<leftarrow> match_unrolled inp ref ip 16 2;
           case r of (len, True) \<Rightarrow> Some len | (len, False) \<Rightarrow> match_tail inp ref ip maxlen len }
      else match_tail inp ref ip maxlen 2)"
    unfolding match_length_def maxlen_def Let_def by (rule refl)
  show thesis
  proof (cases "maxlen > 16")
    case True
    have r: "repeats inp ref ip (2 + 1)" using assms(1) by simp
    obtain l b where u: "match_unrolled inp ref ip 16 2 = Some (l, b)" "repeats inp ref ip (if b then l else l + 1)"
      "2 \<le> l" "l \<le> 2 + 16" "b \<Longrightarrow> 2 < l" "\<not> b \<Longrightarrow> l = 2 + 16"
      using match_unrolled_ok [OF r, of 16] m True assms(3) by auto
    show thesis
    proof (cases b)
      case True
      then show thesis using u m \<open>maxlen > 16\<close> by (intro that [of l]) (simp_all add: M)
    next
      case False
      obtain l' where *: "match_tail inp ref ip maxlen l = Some l'" "repeats inp ref ip l'" "l < l'" "l' \<le> max maxlen (l + 1)"
        using match_tail_ok [of inp ref ip l maxlen] u(2) False m assms(3) by auto
      show thesis using * u False m True by (intro that [of l']) (simp_all add: M)
    qed
  next
    case False
    obtain l' where *: "match_tail inp ref ip maxlen 2 = Some l'" "repeats inp ref ip l'" "2 < l'" "l' \<le> max maxlen (2 + 1)"
      using match_tail_ok [of inp ref ip 2 maxlen] m assms(1,3) by auto
    show thesis using * m False by (intro that [of l']) (simp_all add: M)
  qed
qed

lemma put_byte_at:
  assumes "z_out st = pre @ r # rest" and "z_op st = length pre"
  shows "put_byte v st = Some (st\<lparr>z_out := (pre @ [word_of_int v]) @ rest, z_op := length pre + 1\<rparr>)"
  using assms mem_write_append [of pre "length pre" "[word_of_int v]" "[r]" rest] by (simp add: put_byte_def)

lemma emit_match_ok:
  assumes "z_out st = pre @ rest" and "z_op st = length pre" and "4 \<le> length rest" and "off < 2 ^ 13" and "len \<le> 262"
  obtains h rest' where "emit_match (int off) len st = Some (st\<lparr>z_out := pre @ enc_tok (Back off len) @ h # rest',
      z_op := length pre + length (enc_tok (Back off len)) + 1, z_lit := 0\<rparr>)"
    "length (pre @ enc_tok (Back off len) @ h # rest') = length (pre @ rest)"
proof -
  obtain r0 r1 r2 r3 rest' where rest: "rest = r0 # r1 # r2 # r3 # rest'"
    using assms(3) by (cases rest; cases "tl rest"; cases "tl (tl rest)"; cases "tl (tl (tl rest))") auto
  show thesis
  proof (cases "len < 7")
    case True
    have "int off div 2 ^ 8 + int len * 2 ^ 5 = int (off div 2 ^ 8 + len * 2 ^ 5)" by (simp add: zdiv_int)
    then have b: "(word_of_int (int off div 2 ^ 8 + int len * 2 ^ 5) :: byte) = word_of_nat (off div 2 ^ 8 + len * 2 ^ 5)"
      by (simp only: of_int_of_nat_eq)
    let ?p = "pre @ [word_of_int (int off div 2 ^ 8 + int len * 2 ^ 5)]"
    have e: "emit_match (int off) len st = Some (start_run (st\<lparr>z_out := (?p @ [word_of_int (int off)]) @ r2 # r3 # rest', z_op := length ?p + 1\<rparr>))"
      using True assms(1,2) put_byte_at [of st pre r0 "r1 # r2 # r3 # rest'"]
        put_byte_at [of "st\<lparr>z_out := ?p @ r1 # r2 # r3 # rest', z_op := length pre + 1\<rparr>" ?p r1 "r2 # r3 # rest'"]
      unfolding rest by (simp add: emit_match_def)
    show thesis using e True unfolding b by (intro that [of r2 "r3 # rest'"]) (simp_all add: start_run_def back_head_def rest)
  next
    case False
    have "int off div 2 ^ 8 + 7 * 2 ^ 5 = int (off div 2 ^ 8 + 7 * 2 ^ 5)" "int len - 7 = int (len - 7)" using False by (simp_all add: zdiv_int)
    then have b: "(word_of_int (int off div 2 ^ 8 + 7 * 2 ^ 5) :: byte) = word_of_nat (off div 2 ^ 8 + 7 * 2 ^ 5)"
      "(word_of_int (int len - 7) :: byte) = word_of_nat (len - 7)"
      by (simp_all only: of_int_of_nat_eq)
    let ?p = "pre @ [word_of_int (int off div 2 ^ 8 + 7 * 2 ^ 5)]"
    let ?q = "?p @ [word_of_int (int len - 7)]"
    have e: "emit_match (int off) len st = Some (start_run (st\<lparr>z_out := (?q @ [word_of_int (int off)]) @ r3 # rest', z_op := length ?q + 1\<rparr>))"
      using False assms(1,2) put_byte_at [of st pre r0 "r1 # r2 # r3 # rest'"]
        put_byte_at [of "st\<lparr>z_out := ?p @ r1 # r2 # r3 # rest', z_op := length pre + 1\<rparr>" ?p r1 "r2 # r3 # rest'"]
        put_byte_at [of "st\<lparr>z_out := ?q @ r2 # r3 # rest', z_op := length ?p + 1\<rparr>" ?q r2 "r3 # rest'"]
      unfolding rest by (simp add: emit_match_def)
    show thesis using e False unfolding b by (intro that [of r3 rest']) (simp_all add: start_run_def back_head_def rest)
  qed
qed

section \<open>Steps\<close>

text \<open>The outcome of a step: a full block of the same size, or a state with the input encoded
  up to its position.\<close>

definition step_ok :: "byte list \<Rightarrow> nat \<Rightarrow> nat \<Rightarrow> lzf_next \<Rightarrow> bool" where
  "step_ok inp cap out_len r =
     (case r of Full st \<Rightarrow> length (z_out st) = cap
      | Leave st \<Rightarrow> (\<exists>ts. z_open inp cap ts st) \<and> z_op st \<le> out_len + 1 \<and> length inp \<le> z_ip st + 2
      | Continue st \<Rightarrow> (\<exists>ts. z_open inp cap ts st) \<and> z_op st \<le> out_len + 1)"

lemma rehash_ok:
  assumes i: "z_ip st = i + 2" "i + 4 < length inp" and "\<And>j. z_htab st j < 2 ^ 63" and "length inp < 2 ^ 32"
  obtains t v where "do { h \<leftarrow> FRST inp (z_ip st - 1 - 1); st \<leftarrow> hash_here inp (st\<lparr>z_ip := z_ip st - 1 - 1, z_hval := h\<rparr>);
      st \<leftarrow> hash_here inp st; Some (Continue st) } = Some (Continue (st\<lparr>z_htab := t, z_hval := v\<rparr>))" "\<And>j. t j < 2 ^ 63"
proof -
  have b: "mem_byte inp (i + k) = Some (inp ! (i + k))" if "k < 4" for k using i(2) that by (simp add: mem_byte_def)
  have b': "mem_byte inp i = Some (inp ! i)" "mem_byte inp (Suc i) = Some (inp ! Suc i)" "mem_byte inp (Suc (Suc i)) = Some (inp ! Suc (Suc i))"
    "mem_byte inp (Suc (Suc (Suc i))) = Some (inp ! Suc (Suc (Suc i)))"
    using b [of 0] b [of 1] b [of 2] b [of 3] by (simp_all add: numeral_2_eq_2 numeral_3_eq_3)
  have st: "st\<lparr>z_hval := v, z_htab := t, z_ip := Suc (Suc i)\<rparr> = st\<lparr>z_htab := t, z_hval := v\<rparr>" for t v
    using i(1) by simp
  show thesis
    by (rule that, use i assms(3,4) in \<open>simp add: FRST_def hash_here_def NEXT_def b' st\<close>, use i assms(3,4) in simp)
qed

lemma match_step_ok:
  assumes "z_open inp cap ts st" and "length inp < 2 ^ 32" and "out_len + 1 \<le> cap" and "z_op st \<le> out_len + 1"
    and ref: "0 < ref" "ref < int (z_ip st)" "match_off (z_ip st) ref = int (z_ip st) - ref - 1" "int (z_ip st) - ref - 1 < 2 ^ 13"
      "z_ip st + 4 < length inp" "repeats inp (nat ref) (z_ip st) 3"
  shows "\<exists>r. match_step inp (length inp) out_len ref st = Some r \<and> step_ok inp cap out_len r"
proof -
  obtain st1 ts1 where c: "stop_run st = Some st1" "z_closed inp cap ts1 (undo_run st1)" "z_ip st1 = z_ip st" "z_htab st1 = z_htab st"
    "z_op (undo_run st1) = z_op st - (if z_lit st = 0 then 1 else 0)" by (rule close_run [OF assms(1)])
  define st2 where "st2 = undo_run st1"
  have ip2: "z_ip st2 = z_ip st" "z_htab st2 = z_htab st1" by (simp_all add: st2_def undo_run_def c(3))
  show ?thesis
  proof (cases "z_op st2 + 3 + 1 \<ge> out_len")
    case True
    then show ?thesis using c(1,2) by (simp add: match_step_def Let_def step_ok_def st2_def z_closed_def)
  next
    case False
    have rn: "nat ref < z_ip st" using ref(1,2) by linarith
    obtain n where n: "match_length inp (length inp) (nat ref) (z_ip st) = Some n" "repeats inp (nat ref) (z_ip st) n" "3 \<le> n" "n \<le> 264"
      by (rule match_length_ok [OF ref(6,5) rn])
    define off where "off = z_ip st - 1 - nat ref"
    have off: "match_off (z_ip st) ref = int off" "off < 2 ^ 13" "off < z_ip st" "nat ref = z_ip st - 1 - off"
      using ref(1-4) rn by (auto simp: off_def)
    obtain rest where z: "toks_ok [] ts1" "expand ts1 = take (z_ip st) inp" "z_out st2 = enc_toks ts1 @ rest" "z_op st2 = length (enc_toks ts1)"
      "length (z_out st2) = cap" "\<And>i. z_htab st2 i < 2 ^ 63"
      using c(2) ip2 unfolding z_closed_def st2_def by auto
    have n262: "n - 2 \<le> 262" using n(4) by simp
    have "4 \<le> length rest" using z(3-5) False assms(3) by simp
    then have em: "4 \<le> length rest" "z_out (st2\<lparr>z_ip := z_ip st + 1\<rparr>) = enc_toks ts1 @ rest"
      "z_op (st2\<lparr>z_ip := z_ip st + 1\<rparr>) = length (enc_toks ts1)" "length (enc_toks ts1 @ rest) = cap" using z(3-5) by simp_all
    obtain h rest' where e: "emit_match (int off) (n - 2) (st2\<lparr>z_ip := z_ip st + 1\<rparr>) = Some (st2\<lparr>z_ip := z_ip st + 1,
        z_out := enc_toks ts1 @ enc_tok (Back off (n - 2)) @ h # rest', z_op := length (enc_toks ts1) + length (enc_tok (Back off (n - 2))) + 1, z_lit := 0\<rparr>)"
      "length (enc_toks ts1 @ enc_tok (Back off (n - 2)) @ h # rest') = cap"
      using emit_match_ok [OF em(2,3,1) off(2) n262] unfolding em(4) by blast
    define E where "E = st2\<lparr>z_ip := z_ip st + 1, z_out := enc_toks ts1 @ enc_tok (Back off (n - 2)) @ h # rest',
      z_op := length (enc_toks ts1) + length (enc_tok (Back off (n - 2))) + 1, z_lit := 0\<rparr>"
    define st3 where "st3 = st2\<lparr>z_ip := z_ip st + n, z_out := enc_toks ts1 @ enc_tok (Back off (n - 2)) @ h # rest',
      z_op := length (enc_toks ts1) + length (enc_tok (Back off (n - 2))) + 1, z_lit := 0\<rparr>"
    have rc: "rep_copy (take (z_ip st) inp) off n = take (z_ip st + n) inp"
      using n(2) unfolding off(4) by (rule rep_copy_repeats [OF _ off(3)])
    have n2: "n - 2 + 2 = n" using n(3) by simp
    have at: "apply_tok (take (z_ip st) inp) (Back off (n - 2)) = take (z_ip st + n) inp"
      by (simp only: apply_tok.simps n2 rc)
    have o3: "z_open inp cap (ts1 @ [Back off (n - 2)]) (st3\<lparr>z_htab := t, z_hval := v\<rparr>)" if "\<And>i. t i < 2 ^ 63" for t v
      unfolding z_open_def using z off n e(2) that ref(5)
      by (simp add: st3_def at repeats_def del: apply_tok.simps enc_tok.simps)
    have st3: "E\<lparr>z_ip := z_ip E + (n - 2 + 1)\<rparr> = st3"
      using n(3) by (simp add: st3_def E_def del: enc_tok.simps)
    have op3: "z_op st3 \<le> out_len + 1" using False z(4) by (simp add: st3_def back_head_def)
    have f: "(z_op st2 + 3 + 1 \<ge> out_len) = False" using False by simp
    have M: "match_step inp (length inp) out_len ref st = (if z_ip st3 + 2 \<ge> length inp then Some (Leave st3)
        else do { h \<leftarrow> FRST inp (z_ip st3 - 1 - 1); st \<leftarrow> hash_here inp (st3\<lparr>z_ip := z_ip st3 - 1 - 1, z_hval := h\<rparr>);
                  st \<leftarrow> hash_here inp st; Some (Continue st) })"
      unfolding match_step_def c(1) Option.bind.simps Let_def st2_def [symmetric] ip2(1) f if_False n(1) off(1)
        e(1) [folded E_def] st3 by simp
    show ?thesis
    proof (cases "length inp \<le> z_ip st3 + 2")
      case True
      then show ?thesis using o3 [of "z_htab st3" "z_hval st3"] op3 z(6) unfolding M
        by (auto simp: step_ok_def st3_def)
    next
      case False
      define i where "i = z_ip st3 - 2"
      have i: "z_ip st3 = i + 2" "i + 4 < length inp" using False n(3) by (simp_all add: i_def st3_def)
      have "z_htab st3 k < 2 ^ 63" for k using z(6) by (simp add: st3_def)
      from rehash_ok [OF i this assms(2)] obtain t v where
        "match_step inp (length inp) out_len ref st = Some (Continue (st3\<lparr>z_htab := t, z_hval := v\<rparr>))" "\<And>j. t j < 2 ^ 63"
        unfolding M if_not_P [OF False] by blast
      then show ?thesis using o3 op3 by (auto simp: step_ok_def)
    qed
  qed
qed

lemma z_open_htab:
  "z_open inp cap ts st \<Longrightarrow> int (z_ip st) < 2 ^ 63 \<Longrightarrow> z_open inp cap ts (st\<lparr>z_hval := v, z_htab := (z_htab st)(k := int (z_ip st))\<rparr>)"
  by (auto simp: z_open_def)

lemma compress_step_ok:
  assumes "z_open inp cap ts st" and "z_ip st + 2 < length inp" and "length inp < 2 ^ 32" and "out_len + 1 \<le> cap"
    and "z_op st \<le> out_len + 1"
  shows "\<exists>r. compress_step inp (length inp) out_len st = Some r \<and> step_ok inp cap out_len r"
proof -
  obtain h where h: "NEXT (z_hval st) inp (z_ip st) = Some h" using assms(2) by (simp add: NEXT_def mem_byte_def)
  define ref where "ref = z_htab st (IDX h)"
  define st1 where "st1 = st\<lparr>z_hval := h, z_htab := (z_htab st)(IDX h := int (z_ip st))\<rparr>"
  have st1: "z_open inp cap ts st1" "z_ip st1 = z_ip st" "z_op st1 = z_op st"
    using z_open_htab [OF assms(1)] assms(2,3) by (simp_all add: st1_def)
  have "ref < 2 ^ 63" using assms(1) by (simp add: ref_def z_open_def)
  from is_match_ok [OF assms(2,3) this] obtain m where m: "is_match inp (length inp) (z_ip st) ref = Some m"
    "m \<Longrightarrow> 0 < ref \<and> ref < int (z_ip st) \<and> match_off (z_ip st) ref = int (z_ip st) - ref - 1 \<and>
       int (z_ip st) - ref - 1 < 2 ^ 13 \<and> z_ip st + 4 < length inp \<and> repeats inp (nat ref) (z_ip st) 3" by blast
  have C: "compress_step inp (length inp) out_len st =
      (if m then match_step inp (length inp) out_len ref st1 else if z_op st \<ge> out_len then Some (Full st1)
       else do { st \<leftarrow> put_literal inp st1; Some (Continue st) })"
    unfolding compress_step_def h Option.bind.simps Let_def ref_def [symmetric] st1_def [symmetric] st1(2,3) m(1) by (rule refl)
  show ?thesis
  proof (cases m)
    case True
    then show ?thesis unfolding C using match_step_ok [OF st1(1) assms(3,4), of ref] m(2) st1(2,3) assms(5) by simp
  next
    case False
    show ?thesis
    proof (cases "z_op st \<ge> out_len")
      case True
      then show ?thesis using False st1(1) unfolding C by (simp add: step_ok_def z_open_def)
    next
      case room: False
      have "z_ip st1 < length inp" "z_op st1 + 2 \<le> cap" using assms st1 room by simp_all
      then obtain st' ts' where "put_literal inp st1 = Some st'" "z_open inp cap ts' st'"
        "z_op st' = z_op st1 + 1 \<or> z_op st' = z_op st1 + 2 \<and> z_lit st' = 0"
        using put_literal_ok [OF st1(1)] by metis
      then show ?thesis using False room st1(3) unfolding C by (auto simp: step_ok_def)
    qed
  qed
qed

declare compress_loop.simps [simp del]

lemma compress_loop_ok:
  assumes "z_open inp cap ts st" and "length inp < 2 ^ 32" and "out_len + 1 \<le> cap" and "z_op st \<le> out_len + 1"
  shows "\<exists>r. compress_loop inp (length inp) out_len st = Some r \<and> step_ok inp cap out_len r \<and> (\<forall>st'. r \<noteq> Continue st')"
  using assms
proof (induction inp "length inp" out_len st arbitrary: ts rule: compress_loop.induct)
  case (1 inp out_len st)
  show ?case
  proof (cases "z_ip st + 2 < length inp")
    case False
    then show ?thesis using "1.prems" by (subst compress_loop.simps) (auto simp: step_ok_def)
  next
    case True
    obtain r where r: "compress_step inp (length inp) out_len st = Some r" "step_ok inp cap out_len r"
      using compress_step_ok [OF "1.prems"(1) True "1.prems"(2-4)] by blast
    show ?thesis
    proof (cases r)
      case (Continue st')
      then obtain ts' where "z_open inp cap ts' st'" "z_op st' \<le> out_len + 1" using r(2) by (auto simp: step_ok_def)
      with 1(1) [OF True r(1) Continue this(1) "1.prems"(2,3) this(2)] show ?thesis
        using r(1) Continue True by (subst compress_loop.simps) simp
    qed (use r True in \<open>subst compress_loop.simps, simp\<close>)+
  qed
qed

lemma last_literals_ok:
  assumes "z_open inp cap ts st" and "z_ip st + n \<le> length inp" and "n \<le> 2" and "z_op st + 3 \<le> out_len" and "out_len + 1 \<le> cap"
  obtains st' ts' where "last_literals inp n st = Some st'" "z_open inp cap ts' st'" "z_ip st' = z_ip st + n"
    "z_op st' \<le> out_len \<or> z_op st' = out_len + 1 \<and> z_lit st' = 0"
proof -
  have one: "\<exists>st' ts'. put_literal inp st = Some st' \<and> z_open inp cap ts' st' \<and> z_ip st' = z_ip st + 1 \<and>
      (z_op st' = z_op st + 1 \<or> z_op st' = z_op st + 2 \<and> z_lit st' = 0)"
    if "z_open inp cap ts st" "z_ip st < length inp" "z_op st + 2 \<le> cap" for ts st
    using put_literal_ok [OF that] by metis
  consider "n = 0" | "n = 1" | "n = 2" using assms(3) by linarith
  then show thesis
  proof cases
    case 1
    then show thesis using assms by (intro that [of st ts]) simp_all
  next
    case 2
    then obtain st1 ts1 where "put_literal inp st = Some st1" "z_open inp cap ts1 st1" "z_ip st1 = z_ip st + 1" "z_op st1 \<le> z_op st + 2"
      using one [OF assms(1)] assms(2,4,5) by force
    then show thesis using 2 assms(4) by (intro that [of st1 ts1]) simp_all
  next
    case 3
    then obtain st1 ts1 where s1: "put_literal inp st = Some st1" "z_open inp cap ts1 st1" "z_ip st1 = z_ip st + 1" "z_op st1 \<le> z_op st + 2"
      using one [OF assms(1)] assms(2,4,5) by force
    have "z_ip st1 < length inp" "z_op st1 + 2 \<le> cap" using s1 3 assms by simp_all
    from one [OF s1(2) this] obtain st2 ts2 where "put_literal inp st1 = Some st2" "z_open inp cap ts2 st2" "z_ip st2 = z_ip st1 + 1"
      "z_op st2 = z_op st1 + 1 \<or> z_op st2 = z_op st1 + 2 \<and> z_lit st2 = 0" by blast
    moreover from this(4) have "z_op st2 \<le> out_len \<or> z_op st2 = out_len + 1 \<and> z_lit st2 = 0"
      using s1(4) assms(4) by arith
    ultimately show thesis using 3 s1 by (intro that [of st2 ts2]) (simp_all add: numeral_2_eq_2)
  qed
qed

lemma lzf_finish_ok:
  assumes "z_open inp cap ts st" and "length inp \<le> z_ip st + 2" and "out_len + 1 \<le> cap"
  shows "\<exists>out n. lzf_finish inp (length inp) out_len st = Some (out, n) \<and> length out = cap \<and> n \<le> out_len \<and>
    (0 < n \<longrightarrow> (\<exists>ts rest. toks_ok [] ts \<and> expand ts = inp \<and> out = enc_toks ts @ rest \<and> n = length (enc_toks ts)))"
proof (cases "z_op st + 3 \<le> out_len")
  case False
  then show ?thesis using assms(1) by (auto simp: lzf_finish_def z_open_def)
next
  case True
  have ip: "z_ip st \<le> length inp" using assms(1) by (simp add: z_open_def)
  have p: "z_ip st + (length inp - z_ip st) \<le> length inp" "length inp - z_ip st \<le> 2" using assms(2) ip by simp_all
  obtain st1 ts1 where s1: "last_literals inp (length inp - z_ip st) st = Some st1" "z_open inp cap ts1 st1"
    "z_ip st1 = z_ip st + (length inp - z_ip st)" "z_op st1 \<le> out_len \<or> z_op st1 = out_len + 1 \<and> z_lit st1 = 0"
    using last_literals_ok [OF assms(1) p True assms(3)] by blast
  obtain st2 ts2 where s2: "stop_run st1 = Some st2" "z_closed inp cap ts2 (undo_run st2)" "z_ip st2 = z_ip st1"
    "z_op (undo_run st2) = z_op st1 - (if z_lit st1 = 0 then 1 else 0)" using close_run [OF s1(2)] by metis
  have "z_ip (undo_run st2) = length inp" "z_out (undo_run st2) = z_out st2" using s1(3) s2(3) ip by (simp_all add: undo_run_def)
  then show ?thesis using True s1 s2 by (auto simp: lzf_finish_def z_closed_def)
qed

lemma lzf_compress_ok:
  assumes "2 \<le> length inp" and "length inp < 2 ^ 32" and "out_len + 1 \<le> length out" and "\<And>i. htab i < 2 ^ 63"
  shows "\<exists>out' n. lzf_compress inp (length inp) htab out out_len = Some (out', n) \<and> length out' = length out \<and> n \<le> out_len \<and>
    (0 < n \<longrightarrow> (\<exists>ts rest. toks_ok [] ts \<and> expand ts = inp \<and> out' = enc_toks ts @ rest \<and> n = length (enc_toks ts)))"
proof (cases "out_len = 0")
  case True
  then show ?thesis by (simp add: lzf_compress_def)
next
  case False
  have ne: "inp \<noteq> []" using assms(1) by auto
  have "0 < length inp" "1 < length inp" using assms(1) by linarith+
  then have "mem_byte inp 0 = Some (inp ! 0)" "mem_byte inp 1 = Some (inp ! 1)" by (simp_all add: mem_byte_def)
  then obtain h where h: "FRST inp 0 = Some h" by (simp add: FRST_def)
  let ?st = "\<lparr>z_ip = 0, z_op = 1, z_lit = 0, z_out = out, z_htab = htab, z_hval = h\<rparr>"
  have "out = hd out # tl out" using assms(3) by (cases out) auto
  then have o: "z_open inp (length out) [] ?st" using assms(4) by (auto simp: z_open_def)
  obtain r where r: "compress_loop inp (length inp) out_len ?st = Some r" "step_ok inp (length out) out_len r" "\<forall>st'. r \<noteq> Continue st'"
    using compress_loop_ok [OF o assms(2,3)] False by auto
  have C: "lzf_compress inp (length inp) htab out out_len = (case r of Full st \<Rightarrow> Some (z_out st, 0)
      | Leave st \<Rightarrow> lzf_finish inp (length inp) out_len st | Continue st \<Rightarrow> lzf_finish inp (length inp) out_len st)"
    using False ne h r(1) by (simp add: lzf_compress_def)
  show ?thesis
  proof (cases r)
    case (Full st)
    then show ?thesis using r(2) C by (simp add: step_ok_def)
  next
    case (Leave st)
    then obtain ts where "z_open inp (length out) ts st" "length inp \<le> z_ip st + 2" using r(2) by (auto simp: step_ok_def)
    from lzf_finish_ok [OF this assms(3)] show ?thesis using C Leave by simp
  qed (use r(3) in simp)
qed

section \<open>Round trip\<close>

lemma decompress_compressed:
  assumes "2 \<le> length inp" and "length inp < 2 ^ 32" and "out_len + 1 \<le> length out" and "\<And>i. htab i < 2 ^ 63"
    and "length buf = length inp"
  shows "\<exists>out' n. lzf_compress inp (length inp) htab out out_len = Some (out', n) \<and> n \<le> out_len \<and> length out' = length out \<and>
    (0 < n \<longrightarrow> lzf_decompress (take n out') n buf (length inp) = Some (inp, Inr (length inp)))"
proof -
  obtain out' n where c: "lzf_compress inp (length inp) htab out out_len = Some (out', n)" "length out' = length out" "n \<le> out_len"
    "0 < n \<Longrightarrow> \<exists>ts rest. toks_ok [] ts \<and> expand ts = inp \<and> out' = enc_toks ts @ rest \<and> n = length (enc_toks ts)"
    using lzf_compress_ok [where htab = htab, OF assms(1-3)] assms(4) by blast
  have "lzf_decompress (take n out') n buf (length inp) = Some (inp, Inr (length inp))" if pos: "0 < n"
  proof -
    obtain ts rest where ts: "toks_ok [] ts" "expand ts = inp" "out' = enc_toks ts @ rest" "n = length (enc_toks ts)"
      using c(4) [OF pos] by blast
    have ne: "ts \<noteq> []" using ts(4) pos by auto
    have len: "0 < n" "n \<le> length (take n out')" "length inp \<le> length buf" using pos ts(3,4) assms(5) by simp_all
    obtain buf' where b: "lzf_decompress (take n out') n buf (length inp) = Some (buf', Inr (length inp))" "take (length inp) buf' = inp"
      using lzf_decompress_toks [OF ts(1) ne ts(3,4), of "length inp" buf] ts(2) assms(5) by auto
    moreover have "length buf' = length buf"
      using decompress_loop_safe [OF len(1,2) _ len(3), of 0] b(1) by (auto simp: lzf_decompress_def in_block_def)
    ultimately show ?thesis using assms(5) by simp
  qed
  then show ?thesis using c(1,2,3) by blast
qed

text \<open>C12: Take an input of at least two bytes and an output block with room for at least one byte more than \<open>out_len\<close>,
  as the callers give it (with a block of \<open>out_len\<close> bytes the compressor can overrun it). Whatever
  the uninitialised hash table holds, the compressor stays inside its input and that block, reports at most \<open>out_len\<close>
  bytes, and if it does not give up (result 0) the decompressor, given those bytes and the input's length, returns the
  input.\<close>

theorem lzf_roundtrip:
  assumes "2 \<le> length inp" and "length inp < 2 ^ 32" and "out_len + 1 \<le> length out" and "\<And>i. htab i < 2 ^ 63"
    and "length buf = length inp"
  shows "\<exists>out' n. lzf_compress inp (length inp) htab out out_len = Some (out', n) \<and> n \<le> out_len \<and> length out' = length out \<and>
    (0 < n \<longrightarrow> lzf_decompress (take n out') n buf (length inp) = Some (inp, Inr (length inp)))"
  using decompress_compressed [where htab = htab, OF assms(1-3) _ assms(5)] assms(4) by blast

lemma length_12: "length [a, b, c, d, e, f, g, h, i, j, k, l] = 12"
  by simp

text \<open>Twelve bytes, compressed to eight with a back reference.\<close>

lemma last_literals_2: "last_literals inp 2 st = do { st \<leftarrow> put_literal inp st; put_literal inp st }"
proof -
  have z: "last_literals inp 0 = Some" by (rule ext) simp
  have "last_literals inp (Suc 0) = put_literal inp" by (rule ext) (simp add: z)
  then show ?thesis by (simp add: numeral_2_eq_2)
qed

lemma compress_sevens:
  "lzf_compress [7, 7, 7, 7, 7, 7, 7, 7, 7, 7, 7, 7] 12 (\<lambda>_. - 9) [0, 0, 0, 0, 0, 0, 0, 0, 0, 0, 0, 0] 11 =
     Some ([1, 7, 7, 192, 0, 1, 7, 7, 0, 0, 0, 0], 8)"
  by (simp add: lzf_compress_def FRST_def NEXT_def mem_byte_def compress_loop.simps compress_step_def is_match_def match_off_def
      MAX_OFF_def MAX_LIT_def match_step_def stop_run_def undo_run_def put_literal_def put_byte_def start_run_def emit_match_def
      hash_here_def match_length_def match_tail.simps MAX_REF_def lzf_finish_def last_literals_2 IDX_def HLOG_def HSIZE_def
      mem_write_def mem_read_def require_def Let_def c_limits)

lemma lzf_roundtrip_witness:
  "lzf_compress [7, 7, 7, 7, 7, 7, 7, 7, 7, 7, 7, 7] 12 (\<lambda>_. - 9) [0, 0, 0, 0, 0, 0, 0, 0, 0, 0, 0, 0] 11 =
     Some ([1, 7, 7, 192, 0, 1, 7, 7, 0, 0, 0, 0], 8) \<and>
   lzf_decompress [1, 7, 7, 192, 0, 1, 7, 7] 8 [0, 0, 0, 0, 0, 0, 0, 0, 0, 0, 0, 0] 12 = Some ([7, 7, 7, 7, 7, 7, 7, 7, 7, 7, 7, 7], Inr 12)"
  using lzf_roundtrip [of "[7, 7, 7, 7, 7, 7, 7, 7, 7, 7, 7, 7]" 11 "[0, 0, 0, 0, 0, 0, 0, 0, 0, 0, 0, 0]" "\<lambda>_. - 9"
      "[0, 0, 0, 0, 0, 0, 0, 0, 0, 0, 0, 0]"] compress_sevens
  unfolding length_12 by simp

section \<open>The byte after the block\<close>

text \<open>An input whose first 32 bytes differ and whose 32nd byte repeats, so that the literal run
  is full exactly when the first match is found.\<close>

definition overrun_input :: "byte list" where
  "overrun_input = map word_of_nat [0..<31] @ replicate 9 31"

lemma overrun_nth: "j < 31 \<Longrightarrow> overrun_input ! j = word_of_nat j" "31 \<le> j \<Longrightarrow> j < 40 \<Longrightarrow> overrun_input ! j = 31"
  by (simp_all add: overrun_input_def nth_append)

lemma overrun_mem: "i < 40 \<Longrightarrow> mem_byte overrun_input i = Some (overrun_input ! i)"
  by (simp add: mem_byte_def overrun_input_def)

lemma overrun_distinct:
  assumes "j < k" and "k \<le> 31"
  shows "overrun_input ! j \<noteq> overrun_input ! k"
proof -
  have "unat (overrun_input ! i) = i" if "i \<le> 31" for i
    using that overrun_nth by (cases "i = 31") (simp_all add: unat_of_nat)
  from this [of j] this [of k] show ?thesis using assms by auto
qed

fun hval_at :: "nat \<Rightarrow> 32 word" where
  "hval_at 0 = 1"
| "hval_at (Suc k) = push_bit 8 (hval_at k) OR ucast (overrun_input ! (k + 2))"

declare hval_at.simps [simp del]

lemma shift_out: "push_bit 8 (push_bit 8 (push_bit 8 (push_bit 8 x OR a) OR b) OR c) OR d =
    push_bit 24 a OR push_bit 16 b OR push_bit 8 c OR (d :: 32 word)"
  by (rule bit_eqI) (auto simp: bit_or_iff bit_push_bit_iff)

lemma hval_at_step: "hval_at (numeral k) = push_bit 8 (hval_at (pred_numeral k)) OR ucast (overrun_input ! (pred_numeral k + 2))"
  by (simp add: numeral_eq_Suc hval_at.simps(2))

lemma hval_at_idx: "IDX (hval_at 33) = IDX (hval_at 32)"
proof -
  have b: "(ucast (overrun_input ! 31) :: 32 word) = 31" "(ucast (overrun_input ! 32) :: 32 word) = 31"
    "(ucast (overrun_input ! 33) :: 32 word) = 31" "(ucast (overrun_input ! 34) :: 32 word) = 31" "(ucast (overrun_input ! 30) :: 32 word) = 30"
    by (simp_all add: overrun_nth)
  have "hval_at 32 = push_bit 8 (push_bit 8 (push_bit 8 (push_bit 8 (hval_at 28) OR 30) OR 31) OR 31) OR 31"
    "hval_at 33 = push_bit 8 (push_bit 8 (push_bit 8 (push_bit 8 (hval_at 29) OR 31) OR 31) OR 31) OR 31"
    using b by (simp_all add: hval_at_step [of "num.Bit0 _"] hval_at_step [of "num.Bit1 _"] del: push_bit_or)
  then show ?thesis unfolding shift_out by (simp add: IDX_def HLOG_def HSIZE_def)
qed

text \<open>The state after \<open>k\<close> literals.\<close>

definition lit_run :: "nat \<Rightarrow> lzf_state \<Rightarrow> bool" where
  "lit_run k st \<longleftrightarrow> z_ip st = k \<and> z_lit st = k \<and> z_op st = k + 1 \<and> z_hval st = hval_at k \<and> length (z_out st) = 33 \<and>
     (\<forall>i. z_htab st i \<le> 0 \<or> z_htab st i < int k)"

lemma overrun_no_match:
  assumes "k \<le> 31" and "ref \<le> 0 \<or> ref < int k"
  shows "is_match overrun_input 40 k ref = Some False"
proof (cases "match_off k ref < MAX_OFF \<and> k + 4 < 40 \<and> 0 < ref")
  case True
  have rd: "mem_read overrun_input i 2 = Some [overrun_input ! i, overrun_input ! Suc i]" if "i + 2 < 40" for i
  proof -
    have "length overrun_input = 40" by (simp add: overrun_input_def)
    then show ?thesis using that by (simp add: mem_read_def numeral_2_eq_2 Cons_nth_drop_Suc [symmetric])
  qed
  have n: "nat ref < k" using True assms(2) by linarith
  have "mem_byte overrun_input (nat ref + 2) = Some (overrun_input ! (nat ref + 2))" "mem_byte overrun_input (k + 2) = Some (overrun_input ! (k + 2))"
    using n assms(1) by (intro overrun_mem, simp)+
  then show ?thesis using True n assms(1) overrun_distinct [of "nat ref" k] unfolding is_match_def by (simp add: rd)
qed (auto simp: is_match_def)

lemma lit_run_NEXT: "lit_run k st \<Longrightarrow> k \<le> 32 \<Longrightarrow> NEXT (z_hval st) overrun_input (z_ip st) = Some (hval_at (Suc k))"
  using overrun_mem [of "k + 2"] by (simp add: NEXT_def lit_run_def hval_at.simps(2))

lemma mem_write_fits: "off < length m \<Longrightarrow> \<exists>m'. mem_write m off [v] = Some m' \<and> length m' = length m"
  by (auto simp: mem_write_def)

lemma lit_run_step:
  assumes "lit_run k st" and "k < 31"
  shows "\<exists>st'. compress_step overrun_input 40 33 st = Some (Continue st') \<and> lit_run (Suc k) st'"
proof -
  have f: "z_ip st = k" "z_lit st = k" "z_op st = k + 1" "length (z_out st) = 33" "\<And>i. z_htab st i \<le> 0 \<or> z_htab st i < int k"
    using assms(1) by (simp_all add: lit_run_def)
  note nx = lit_run_NEXT [OF assms(1)]
  have m: "is_match overrun_input 40 k (z_htab st (IDX (hval_at (Suc k)))) = Some False"
    using f(5) assms(2) by (intro overrun_no_match) auto
  obtain out where "mem_write (z_out st) (Suc k) [overrun_input ! k] = Some out" "length out = 33"
    using mem_write_fits [of "Suc k" "z_out st"] f(4) assms(2) by auto
  moreover have "z_htab st i \<le> 0 \<or> z_htab st i < int (Suc k)" for i using f(5) [of i] by auto
  ultimately show ?thesis using nx m f overrun_mem [of k] assms(2)
    by (simp add: compress_step_def put_literal_def put_byte_def MAX_LIT_def lit_run_def)
qed

lemma lit_run_loop:
  assumes "lit_run k st" and "k \<le> 31"
  shows "\<exists>st'. compress_loop overrun_input 40 33 st = compress_loop overrun_input 40 33 st' \<and> lit_run 31 st'"
  using assms
proof (induction "31 - k" arbitrary: k st)
  case (Suc d)
  then have "k < 31" by simp
  with lit_run_step [OF Suc.prems(1)] obtain st1 where "compress_step overrun_input 40 33 st = Some (Continue st1)" "lit_run (Suc k) st1" by blast
  moreover have "d = 31 - Suc k" "Suc k \<le> 31" using Suc.hyps(2) \<open>k < 31\<close> by simp_all
  from Suc.hyps(1) [OF this(1) calculation(2) this(2)] obtain st' where
    "compress_loop overrun_input 40 33 st1 = compress_loop overrun_input 40 33 st'" "lit_run 31 st'" by blast
  ultimately show ?case using Suc.prems(1) \<open>k < 31\<close>
    by (intro exI [of _ st']) (subst compress_loop.simps, simp add: lit_run_def)
qed auto

lemma lit_run_full:
  assumes "lit_run 31 st"
  shows "\<exists>st'. compress_step overrun_input 40 33 st = Some (Continue st') \<and> z_ip st' = 32 \<and> z_lit st' = 0 \<and> z_op st' = 34 \<and>
    z_hval st' = hval_at 32 \<and> length (z_out st') = 33 \<and> z_htab st' (IDX (hval_at 32)) = 31"
proof -
  have f: "z_ip st = 31" "z_lit st = 31" "z_op st = 32" "length (z_out st) = 33" "\<And>i. z_htab st i \<le> 0 \<or> z_htab st i < int 31"
    using assms(1) by (simp_all add: lit_run_def)
  have nx: "NEXT (z_hval st) overrun_input 31 = Some (hval_at 32)" using lit_run_NEXT [OF assms] f(1) by simp
  have m: "is_match overrun_input 40 31 (z_htab st (IDX (hval_at 32))) = Some False"
    using f(5) by (intro overrun_no_match) auto
  obtain out where o: "mem_write (z_out st) 32 [overrun_input ! 31] = Some out" "length out = 33"
    using mem_write_fits [of 32 "z_out st"] f(4) by auto
  obtain out' where "mem_write out 0 [31] = Some out'" "length out' = 33"
    using mem_write_fits [of 0 out] o(2) by auto
  then show ?thesis using nx m f o overrun_mem [of 31]
    by (simp add: compress_step_def put_literal_def put_byte_def stop_run_def start_run_def MAX_LIT_def)
qed

text \<open>C14: Given an output block of exactly \<open>out_len\<close> bytes, the compressor can write the byte
  after it: when a literal run of 32 bytes ends with the block and a match follows, the empty
  run that was started is closed before the room left is checked.\<close>

theorem lzf_compress_overruns:
  "lzf_compress (map word_of_nat [0..<31] @ replicate 9 31) 40 (\<lambda>_. 0) (replicate 33 0) 33 = None"
proof -
  let ?st = "\<lparr>z_ip = 0, z_op = 1, z_lit = 0, z_out = replicate 33 0, z_htab = (\<lambda>_. 0), z_hval = 1\<rparr>"
  have F: "FRST overrun_input 0 = Some 1"
    using overrun_mem [of 0] overrun_mem [of 1] by (simp add: FRST_def overrun_nth)
  have "lit_run 0 ?st" by (simp add: lit_run_def hval_at.simps)
  from lit_run_loop [OF this] obtain st31 where s31: "compress_loop overrun_input 40 33 ?st = compress_loop overrun_input 40 33 st31" "lit_run 31 st31"
    by auto
  from lit_run_full [OF s31(2)] obtain st32 where s32: "compress_step overrun_input 40 33 st31 = Some (Continue st32)" "z_ip st32 = 32"
    "z_lit st32 = 0" "z_op st32 = 34" "z_hval st32 = hval_at 32" "length (z_out st32) = 33" "z_htab st32 (IDX (hval_at 32)) = 31" by blast
  have nx: "NEXT (hval_at 32) overrun_input 32 = Some (hval_at 33)"
    using overrun_mem [of 34] by (simp add: NEXT_def hval_at_step [of "num.Bit1 _"])
  have "mem_read overrun_input 31 2 = Some [31, 31]" "mem_read overrun_input 32 2 = Some [31, 31]"
    by (simp_all add: mem_read_def overrun_input_def numeral_eq_Suc)
  then have m: "is_match overrun_input 40 32 31 = Some True"
    using overrun_mem [of 33] overrun_mem [of 34] by (simp add: is_match_def match_off_def MAX_OFF_def overrun_nth)
  have st: "compress_step overrun_input 40 33 st32 = None"
    using s32(2-) nx m by (simp add: compress_step_def match_step_def stop_run_def mem_write_def hval_at_idx)
  have "compress_loop overrun_input 40 33 st31 = compress_loop overrun_input 40 33 st32"
    using s31(2) s32(1) by (subst compress_loop.simps) (simp add: lit_run_def)
  also have "\<dots> = None" using st s32(2) by (subst compress_loop.simps) simp
  finally show ?thesis using F s31(1) unfolding overrun_input_def [symmetric] by (simp add: lzf_compress_def)
qed

end
