(* ===== verification/Reply.thy ===== *)
theory Reply
  imports Util
begin

text \<open>
  Model of the output side of a client connection,
  \<^verbatim>\<open>src/webserver/redis/src/networking.c\<close>: the static buffer, the list of reply objects, the
  functions that append to them (\<^verbatim>\<open>addReply\<close> and its variants) and the event handler that
  writes them to the socket.

  The objects live in a store, because the reply list shares objects with the rest of the
  server: a node may be appended to in place only when the list is the only owner. An object
  is a name into the store; its cell has the pointer (NULL, the contents of an sds, or an
  integer) and the reference count. The results of the system calls are part of the
  environment: \<open>os_ae\<close> lists the outcomes of the next registrations of a write event (they
  succeed after the list), and the handler is given the results of its \<^verbatim>\<open>write\<close> calls.

  Not modelled: the statistics \<^verbatim>\<open>reply_bytes\<close> and \<^verbatim>\<open>lastinteraction\<close>, and virtual memory.
\<close>

section \<open>Objects\<close>

datatype cell_ptr = CNull | CSds "byte list" | CLong int

record cell =
  cell_ptr :: cell_ptr
  cell_refs :: nat

record ostore =
  os_cells :: "nat \<Rightarrow> cell option"
  os_fresh :: nat
  os_ae :: "bool list"

definition new_cell :: "cell_ptr \<Rightarrow> ostore \<Rightarrow> nat \<times> ostore" where
  "new_cell p st =
     (os_fresh st, st\<lparr>os_cells := (os_cells st)(os_fresh st \<mapsto> \<lparr>cell_ptr = p, cell_refs = 1\<rparr>), os_fresh := os_fresh st + 1\<rparr>)"

definition cell_incr :: "nat \<Rightarrow> ostore \<Rightarrow> ostore option" where
  "cell_incr ob st =
     do { c \<leftarrow> os_cells st ob;
          Some (st\<lparr>os_cells := (os_cells st)(ob \<mapsto> c\<lparr>cell_refs := cell_refs c + 1\<rparr>)\<rparr>) }"

definition cell_decr :: "nat \<Rightarrow> ostore \<Rightarrow> ostore option" where
  "cell_decr ob st =
     do { c \<leftarrow> os_cells st ob;
          require (0 < cell_refs c);
          Some (st\<lparr>os_cells := (os_cells st)(ob := (if cell_refs c = 1 then None else Some (c\<lparr>cell_refs := cell_refs c - 1\<rparr>)))\<rparr>) }"

definition cell_set :: "nat \<Rightarrow> cell_ptr \<Rightarrow> ostore \<Rightarrow> ostore option" where
  "cell_set ob p st =
     do { c \<leftarrow> os_cells st ob; Some (st\<lparr>os_cells := (os_cells st)(ob \<mapsto> c\<lparr>cell_ptr := p\<rparr>)\<rparr>) }"

text \<open>The contents of the sds an object points to; undefined for another pointer.\<close>

definition cell_sds :: "nat \<Rightarrow> ostore \<Rightarrow> byte list option" where
  "cell_sds ob st = do { c \<leftarrow> os_cells st ob; case cell_ptr c of CSds s \<Rightarrow> Some s | _ \<Rightarrow> None }"

section \<open>The output side of a client\<close>

definition REDIS_REPLY_CHUNK_BYTES :: nat where "REDIS_REPLY_CHUNK_BYTES = 5 * 1500"
definition REDIS_MAX_WRITE_PER_EVENT :: nat where "REDIS_MAX_WRITE_PER_EVENT = 1024 * 64"
definition REDIS_REPL_NONE :: int where "REDIS_REPL_NONE = 0"
definition REDIS_REPL_ONLINE :: int where "REDIS_REPL_ONLINE = 6"

record rclient =
  r_fd :: int
  r_replstate :: int
  r_close :: bool
  r_master :: bool
  r_buf :: "byte list"
  r_bufpos :: nat
  r_reply :: "nat list"
  r_sentlen :: nat
  r_event :: bool

definition u_installWriteEvent :: "rclient \<Rightarrow> ostore \<Rightarrow> bool \<times> rclient \<times> ostore" where
  "u_installWriteEvent c st =
     (if r_fd c \<le> 0 then (False, c, st)
      else if r_bufpos c = 0 \<and> r_reply c = [] \<and> (r_replstate c = REDIS_REPL_NONE \<or> r_replstate c = REDIS_REPL_ONLINE) then
        (case os_ae st of
           False # aes \<Rightarrow> (False, c, st\<lparr>os_ae := aes\<rparr>)
         | True # aes \<Rightarrow> (True, c\<lparr>r_event := True\<rparr>, st\<lparr>os_ae := aes\<rparr>)
         | [] \<Rightarrow> (True, c\<lparr>r_event := True\<rparr>, st))
      else (True, c, st))"

definition dupStringCell :: "nat \<Rightarrow> ostore \<Rightarrow> (nat \<times> ostore) option" where
  "dupStringCell ob st = do { s \<leftarrow> cell_sds ob st; Some (new_cell (CSds s) st) }"

definition dupLastObjectIfNeeded :: "rclient \<Rightarrow> ostore \<Rightarrow> (nat \<times> rclient \<times> ostore) option" where
  "dupLastObjectIfNeeded c st =
     do { require (r_reply c \<noteq> []);
          let cur = last (r_reply c) in
          do { x \<leftarrow> os_cells st cur;
               if cell_refs x > 1 then
                 do { (new, st) \<leftarrow> dupStringCell cur st;
                      st \<leftarrow> cell_decr cur st;
                      Some (new, c\<lparr>r_reply := butlast (r_reply c) @ [new]\<rparr>, st) }
               else Some (cur, c, st) } }"

definition u_addReplyToBuffer :: "rclient \<Rightarrow> byte list \<Rightarrow> (bool \<times> rclient) option" where
  "u_addReplyToBuffer c s =
     (if r_close c then Some (True, c)
      else if r_reply c \<noteq> [] then Some (False, c)
      else if length s > REDIS_REPLY_CHUNK_BYTES - r_bufpos c then Some (False, c)
      else do { b \<leftarrow> mem_write (r_buf c) (r_bufpos c) s;
                Some (True, c\<lparr>r_buf := b, r_bufpos := r_bufpos c + length s\<rparr>) })"

text \<open>Appending \<open>s\<close> to the last object: the common branch of the three functions that follow.
  \<open>None\<close> inside \<open>Some\<close>: there is no room in it, or it is a deferred length.\<close>

definition glue_to_tail :: "rclient \<Rightarrow> ostore \<Rightarrow> byte list \<Rightarrow> (rclient \<times> ostore) option option" where
  "glue_to_tail c st s =
     do { let tail = last (r_reply c) in
          do { x \<leftarrow> os_cells st tail;
               if cell_ptr x = CNull then Some None
               else do { t \<leftarrow> cell_sds tail st;
                         if length t + length s \<le> REDIS_REPLY_CHUNK_BYTES then
                           do { (tail, c, st) \<leftarrow> dupLastObjectIfNeeded c st;
                                t \<leftarrow> cell_sds tail st;
                                st \<leftarrow> cell_set tail (CSds (t @ s)) st;
                                Some (Some (c, st)) }
                         else Some None } } }"

definition u_addReplyObjectToList :: "rclient \<Rightarrow> ostore \<Rightarrow> nat \<Rightarrow> (rclient \<times> ostore) option" where
  "u_addReplyObjectToList c st ob =
     (if r_close c then Some (c, st)
      else if r_reply c = [] then do { st \<leftarrow> cell_incr ob st; Some (c\<lparr>r_reply := r_reply c @ [ob]\<rparr>, st) }
      else do { s \<leftarrow> cell_sds ob st;
                g \<leftarrow> glue_to_tail c st s;
                case g of Some (c, st) \<Rightarrow> Some (c, st)
                | None \<Rightarrow> do { st \<leftarrow> cell_incr ob st; Some (c\<lparr>r_reply := r_reply c @ [ob]\<rparr>, st) } })"

definition u_addReplySdsToList :: "rclient \<Rightarrow> ostore \<Rightarrow> byte list \<Rightarrow> (rclient \<times> ostore) option" where
  "u_addReplySdsToList c st s =
     (if r_close c then Some (c, st)
      else if r_reply c = [] then
        (let (ob, st) = new_cell (CSds s) st in Some (c\<lparr>r_reply := r_reply c @ [ob]\<rparr>, st))
      else do { g \<leftarrow> glue_to_tail c st s;
                case g of Some (c, st) \<Rightarrow> Some (c, st)
                | None \<Rightarrow> (let (ob, st) = new_cell (CSds s) st in Some (c\<lparr>r_reply := r_reply c @ [ob]\<rparr>, st)) })"

definition u_addReplyStringToList :: "rclient \<Rightarrow> ostore \<Rightarrow> byte list \<Rightarrow> (rclient \<times> ostore) option" where
  "u_addReplyStringToList c st s =
     (if r_close c then Some (c, st)
      else if r_reply c = [] then
        (let (ob, st) = new_cell (CSds s) st in Some (c\<lparr>r_reply := r_reply c @ [ob]\<rparr>, st))
      else do { g \<leftarrow> glue_to_tail c st s;
                case g of Some (c, st) \<Rightarrow> Some (c, st)
                | None \<Rightarrow> (let (ob, st) = new_cell (CSds s) st in Some (c\<lparr>r_reply := r_reply c @ [ob]\<rparr>, st)) })"

section \<open>The functions commands call\<close>

definition addReply :: "rclient \<Rightarrow> ostore \<Rightarrow> nat \<Rightarrow> (rclient \<times> ostore) option" where
  "addReply c st ob =
     (case u_installWriteEvent c st of
        (False, c, st) \<Rightarrow> Some (c, st)
      | (True, c, st) \<Rightarrow>
          do { x \<leftarrow> os_cells st ob;
               case cell_ptr x of
                 CNull \<Rightarrow> None
               | CSds s \<Rightarrow>
                   do { (done, c) \<leftarrow> u_addReplyToBuffer c s;
                        if done then Some (c, st) else u_addReplyObjectToList c st ob }
               | CLong v \<Rightarrow>
                   do { s \<leftarrow> ll2string 32 v;
                        let (ob, st) = new_cell (CSds s) st in
                        do { (done, c) \<leftarrow> u_addReplyToBuffer c s;
                             (c, st) \<leftarrow> (if done then Some (c, st) else u_addReplyObjectToList c st ob);
                             st \<leftarrow> cell_decr ob st;
                             Some (c, st) } } })"

definition addReplySds :: "rclient \<Rightarrow> ostore \<Rightarrow> byte list \<Rightarrow> (rclient \<times> ostore) option" where
  "addReplySds c st s =
     (case u_installWriteEvent c st of
        (False, c, st) \<Rightarrow> Some (c, st)
      | (True, c, st) \<Rightarrow>
          do { (done, c) \<leftarrow> u_addReplyToBuffer c s;
               if done then Some (c, st) else u_addReplySdsToList c st s })"

definition addReplyString :: "rclient \<Rightarrow> ostore \<Rightarrow> byte list \<Rightarrow> (rclient \<times> ostore) option" where
  "addReplyString c st s =
     (case u_installWriteEvent c st of
        (False, c, st) \<Rightarrow> Some (c, st)
      | (True, c, st) \<Rightarrow>
          do { (done, c) \<leftarrow> u_addReplyToBuffer c s;
               if done then Some (c, st) else u_addReplyStringToList c st s })"

definition ascii :: "string \<Rightarrow> byte list" where
  "ascii = map of_char"

definition crlf :: "byte list" where
  "crlf = [13, 10]"

definition u_addReplyError :: "rclient \<Rightarrow> ostore \<Rightarrow> byte list \<Rightarrow> (rclient \<times> ostore) option" where
  "u_addReplyError c st s =
     do { (c, st) \<leftarrow> addReplyString c st (ascii ''-ERR '');
          (c, st) \<leftarrow> addReplyString c st s;
          addReplyString c st crlf }"

definition u_addReplyStatus :: "rclient \<Rightarrow> ostore \<Rightarrow> byte list \<Rightarrow> (rclient \<times> ostore) option" where
  "u_addReplyStatus c st s =
     do { (c, st) \<leftarrow> addReplyString c st (ascii ''+'');
          (c, st) \<leftarrow> addReplyString c st s;
          addReplyString c st crlf }"

text \<open>The message of the formatting variants is the text \<^verbatim>\<open>sdscatvprintf\<close> made.\<close>

definition addReplyError :: "rclient \<Rightarrow> ostore \<Rightarrow> byte list \<Rightarrow> (rclient \<times> ostore) option" where
  "addReplyError c st err = u_addReplyError c st err"

definition addReplyErrorFormat :: "rclient \<Rightarrow> ostore \<Rightarrow> byte list \<Rightarrow> (rclient \<times> ostore) option" where
  "addReplyErrorFormat c st s = u_addReplyError c st s"

definition addReplyStatus :: "rclient \<Rightarrow> ostore \<Rightarrow> byte list \<Rightarrow> (rclient \<times> ostore) option" where
  "addReplyStatus c st status = u_addReplyStatus c st status"

definition addReplyStatusFormat :: "rclient \<Rightarrow> ostore \<Rightarrow> byte list \<Rightarrow> (rclient \<times> ostore) option" where
  "addReplyStatusFormat c st s = u_addReplyStatus c st s"

definition addDeferredMultiBulkLength :: "rclient \<Rightarrow> ostore \<Rightarrow> nat option \<times> rclient \<times> ostore" where
  "addDeferredMultiBulkLength c st =
     (case u_installWriteEvent c st of
        (False, c, st) \<Rightarrow> (None, c, st)
      | (True, c, st) \<Rightarrow>
          (let (ob, st) = new_cell CNull st;
               c = c\<lparr>r_reply := r_reply c @ [ob]\<rparr>
           in (Some (length (r_reply c) - 1), c, st)))"

text \<open>A node is its position in the list: the list only grows at its end until it is sent.\<close>

definition setDeferredMultiBulkLength :: "rclient \<Rightarrow> ostore \<Rightarrow> nat option \<Rightarrow> int \<Rightarrow> (rclient \<times> ostore) option" where
  "setDeferredMultiBulkLength c st node len =
     (case node of
        None \<Rightarrow> Some (c, st)
      | Some i \<Rightarrow>
          do { require (i < length (r_reply c));
               let ob = r_reply c ! i; s = ascii ''*'' @ dec_repr len @ crlf in
               do { st \<leftarrow> cell_set ob (CSds s) st;
                    if i + 1 < length (r_reply c) then
                      do { let next = r_reply c ! (i + 1) in
                           do { x \<leftarrow> os_cells st next;
                                if cell_ptr x = CNull then Some (c, st)
                                else do { t \<leftarrow> cell_sds next st;
                                          st \<leftarrow> cell_set ob (CSds (s @ t)) st;
                                          st \<leftarrow> cell_decr next st;
                                          Some (c\<lparr>r_reply := take (i + 1) (r_reply c) @ drop (i + 2) (r_reply c)\<rparr>, st) } } }
                    else Some (c, st) } })"

definition u_addReplyLongLong :: "rclient \<Rightarrow> ostore \<Rightarrow> int \<Rightarrow> byte \<Rightarrow> (rclient \<times> ostore) option" where
  "u_addReplyLongLong c st ll prefix =
     do { s \<leftarrow> ll2string 127 ll; addReplyString c st (prefix # s @ crlf) }"

definition addReplyLongLong :: "nat \<Rightarrow> nat \<Rightarrow> rclient \<Rightarrow> ostore \<Rightarrow> int \<Rightarrow> (rclient \<times> ostore) option" where
  "addReplyLongLong czero cone c st ll =
     (if ll = 0 then addReply c st czero
      else if ll = 1 then addReply c st cone
      else u_addReplyLongLong c st ll 58)"

definition addReplyMultiBulkLen :: "rclient \<Rightarrow> ostore \<Rightarrow> int \<Rightarrow> (rclient \<times> ostore) option" where
  "addReplyMultiBulkLen c st len = u_addReplyLongLong c st len 42"

text \<open>The width of an integer in decimal: the loop divides by ten until zero, and the sign is
  counted once. C division truncates.\<close>

fun dec_width :: "nat \<Rightarrow> nat" where
  "dec_width n = (if n div 10 = 0 then 1 else 1 + dec_width (n div 10))"

definition addReplyBulkLen :: "rclient \<Rightarrow> ostore \<Rightarrow> nat \<Rightarrow> (rclient \<times> ostore) option" where
  "addReplyBulkLen c st ob =
     do { x \<leftarrow> os_cells st ob;
          len \<leftarrow> (case cell_ptr x of
              CNull \<Rightarrow> None
            | CSds s \<Rightarrow> Some (length s)
            | CLong n \<Rightarrow> do { require (n \<noteq> LLONG_MIN); Some ((if n < 0 then 1 else 0) + dec_width (nat \<bar>n\<bar>)) });
          u_addReplyLongLong c st (int len) 36 }"

definition addReplyBulk :: "nat \<Rightarrow> rclient \<Rightarrow> ostore \<Rightarrow> nat \<Rightarrow> (rclient \<times> ostore) option" where
  "addReplyBulk shared_crlf c st ob =
     do { (c, st) \<leftarrow> addReplyBulkLen c st ob;
          (c, st) \<leftarrow> addReply c st ob;
          addReply c st shared_crlf }"

definition addReplyBulkCBuffer :: "nat \<Rightarrow> rclient \<Rightarrow> ostore \<Rightarrow> byte list \<Rightarrow> (rclient \<times> ostore) option" where
  "addReplyBulkCBuffer shared_crlf c st p =
     do { (c, st) \<leftarrow> u_addReplyLongLong c st (int (length p)) 36;
          (c, st) \<leftarrow> addReplyString c st p;
          addReply c st shared_crlf }"

definition addReplyBulkCString :: "nat \<Rightarrow> nat \<Rightarrow> rclient \<Rightarrow> ostore \<Rightarrow> byte list option \<Rightarrow> (rclient \<times> ostore) option" where
  "addReplyBulkCString nullbulk shared_crlf c st s =
     (case s of None \<Rightarrow> addReply c st nullbulk | Some s \<Rightarrow> addReplyBulkCBuffer shared_crlf c st s)"

definition addReplyBulkLongLong :: "nat \<Rightarrow> rclient \<Rightarrow> ostore \<Rightarrow> int \<Rightarrow> (rclient \<times> ostore) option" where
  "addReplyBulkLongLong shared_crlf c st ll =
     do { s \<leftarrow> ll2string 64 ll; addReplyBulkCBuffer shared_crlf c st s }"

fun cells_decr :: "nat list \<Rightarrow> ostore \<Rightarrow> ostore option" where
  "cells_decr [] st = Some st"
| "cells_decr (ob # obs) st = do { st \<leftarrow> cell_decr ob st; cells_decr obs st }"

fun cells_incr :: "nat list \<Rightarrow> ostore \<Rightarrow> ostore option" where
  "cells_incr [] st = Some st"
| "cells_incr (ob # obs) st = do { st \<leftarrow> cell_incr ob st; cells_incr obs st }"

definition copyClientOutputBuffer :: "rclient \<Rightarrow> rclient \<Rightarrow> ostore \<Rightarrow> (rclient \<times> ostore) option" where
  "copyClientOutputBuffer dst src st =
     do { st \<leftarrow> cells_decr (r_reply dst) st;
          st \<leftarrow> cells_incr (r_reply src) st;
          b \<leftarrow> mem_write (r_buf dst) 0 (take (r_bufpos src) (r_buf src));
          Some (dst\<lparr>r_reply := r_reply src, r_buf := b, r_bufpos := r_bufpos src\<rparr>, st) }"

section \<open>Writing to the socket\<close>

text \<open>What the next \<^verbatim>\<open>write\<close> call finds: room for some bytes in the socket (the call takes as
  many as fit), none (\<^verbatim>\<open>EAGAIN\<close>), or another error.\<close>

datatype write_result = Room nat | Again | Failed

text \<open>The result of writing a chunk: the loop stops with the result of the call, or it goes on
  with the number of bytes gone, those the peer was sent, and the results of later calls. After
  the list the socket is full. A master is sent nothing.\<close>

definition chunk_write :: "rclient \<Rightarrow> write_result list \<Rightarrow> byte list \<Rightarrow>
    (write_result + nat \<times> byte list \<times> write_result list) option" where
  "chunk_write c ws s =
     (if r_master c then Some (Inr (length s, [], ws))
      else case ws of
        [] \<Rightarrow> Some (Inl Again)
      | Room n # ws \<Rightarrow>
          (let nwritten = min n (length s) in
           if nwritten = 0 then Some (Inl (Room n)) else Some (Inr (nwritten, take nwritten s, ws)))
      | w # ws \<Rightarrow> Some (Inl w))"

datatype send_next =
  Stop write_result
| Sent nat "byte list" "write_result list" rclient ostore
| Skipped rclient ostore

definition send_step :: "write_result list \<Rightarrow> rclient \<Rightarrow> ostore \<Rightarrow> send_next option" where
  "send_step ws c st =
     (if r_bufpos c > 0 then
        do { require (r_sentlen c \<le> r_bufpos c);
             s \<leftarrow> mem_read (r_buf c) (r_sentlen c) (r_bufpos c - r_sentlen c);
             r \<leftarrow> chunk_write c ws s;
             case r of
               Inl w \<Rightarrow> Some (Stop w)
             | Inr (n, out, ws) \<Rightarrow>
                 (let sent = r_sentlen c + n in
                  Some (Sent n out ws
                    (if sent = r_bufpos c then c\<lparr>r_bufpos := 0, r_sentlen := 0\<rparr> else c\<lparr>r_sentlen := sent\<rparr>) st)) }
      else
        do { s \<leftarrow> cell_sds (hd (r_reply c)) st;
             if s = [] then
               do { st \<leftarrow> cell_decr (hd (r_reply c)) st; Some (Skipped (c\<lparr>r_reply := tl (r_reply c)\<rparr>) st) }
             else
               do { require (r_sentlen c \<le> length s);
                    r \<leftarrow> chunk_write c ws (drop (r_sentlen c) s);
                    case r of
                      Inl w \<Rightarrow> Some (Stop w)
                    | Inr (n, out, ws) \<Rightarrow>
                        (let sent = r_sentlen c + n in
                         if sent = length s then
                           do { st \<leftarrow> cell_decr (hd (r_reply c)) st;
                                Some (Sent n out ws (c\<lparr>r_reply := tl (r_reply c), r_sentlen := 0\<rparr>) st) }
                         else Some (Sent n out ws (c\<lparr>r_sentlen := sent\<rparr>) st)) } })"

definition send_todo :: "write_result list \<Rightarrow> rclient \<Rightarrow> nat" where
  "send_todo ws c = (if r_bufpos c > 0 then 1 else 0) + length (r_reply c) + length ws"

lemma send_step_progress:
  assumes "\<not> (r_bufpos c = 0 \<and> r_reply c = [])"
  shows "send_step ws c st = Some (Sent n out ws' c' st') \<Longrightarrow> send_todo ws' c' < send_todo ws c"
    and "send_step ws c st = Some (Skipped c' st') \<Longrightarrow> send_todo ws c' < send_todo ws c"
  using assms
  by (auto simp: send_step_def send_todo_def chunk_write_def Let_def mem_read_def elim!: bindE
    split: if_splits list.splits write_result.splits sum.splits)

text \<open>\<open>limited\<close>: the memory limit does not ask for more than \<open>REDIS_MAX_WRITE_PER_EVENT\<close> bytes to
  be sent. The result: the bytes the peer was sent, whether the last call failed, and the state.\<close>

function send_loop :: "bool \<Rightarrow> write_result list \<Rightarrow> nat \<Rightarrow> byte list \<Rightarrow> rclient \<Rightarrow> ostore \<Rightarrow>
    (byte list \<times> bool \<times> rclient \<times> ostore) option" where
  "send_loop limited ws tot out c st =
     (if r_bufpos c = 0 \<and> r_reply c = [] then Some (out, False, c, st)
      else case send_step ws c st of
        None \<Rightarrow> None
      | Some (Stop w) \<Rightarrow> Some (out, w = Failed, c, st)
      | Some (Sent n o' ws' c' st') \<Rightarrow>
          if tot + n > REDIS_MAX_WRITE_PER_EVENT \<and> limited then Some (out @ o', False, c', st')
          else send_loop limited ws' (tot + n) (out @ o') c' st'
      | Some (Skipped c' st') \<Rightarrow> send_loop limited ws tot out c' st')"
  by pat_completeness auto
termination
  by (relation "measure (\<lambda>(limited, ws, tot, out, c, st). send_todo ws c)")
    (auto intro: send_step_progress)

text \<open>The result: what the peer was sent, whether the connection was closed, and the state.\<close>

definition sendReplyToClient :: "bool \<Rightarrow> write_result list \<Rightarrow> rclient \<Rightarrow> ostore \<Rightarrow>
    (byte list \<times> bool \<times> rclient \<times> ostore) option" where
  "sendReplyToClient limited ws c st =
     do { (out, failed, c, st) \<leftarrow> send_loop limited ws 0 [] c st;
          if failed then Some (out, True, c, st)
          else if r_bufpos c = 0 \<and> r_reply c = [] then
            Some (out, r_close c, c\<lparr>r_sentlen := 0, r_event := False\<rparr>, st)
          else Some (out, False, c, st) }"

end
