(* ===== verification/ReplySpec.thy ===== *)
theory ReplySpec
  imports Reply
begin

text \<open>
  What the output side of a connection promises: the bytes the peer is sent, followed by the
  bytes still queued, are the replies in order; objects that others hold are never changed; and
  while bytes are queued the write event is registered.
\<close>

section \<open>The queued bytes\<close>

definition cont :: "ostore \<Rightarrow> nat \<Rightarrow> byte list" where
  "cont st ob = (case cell_sds ob st of Some s \<Rightarrow> s | None \<Rightarrow> [])"

definition conts :: "ostore \<Rightarrow> nat list \<Rightarrow> byte list" where
  "conts st obs = concat (map (cont st) obs)"

definition pending :: "rclient \<Rightarrow> ostore \<Rightarrow> byte list" where
  "pending c st =
     (if r_bufpos c > 0 then drop (r_sentlen c) (take (r_bufpos c) (r_buf c)) @ conts st (r_reply c)
      else drop (r_sentlen c) (conts st (r_reply c)))"

text \<open>\<open>ext\<close> counts the references that others hold.\<close>

definition cell_count :: "ostore \<Rightarrow> nat \<Rightarrow> nat" where
  "cell_count st ob = (case os_cells st ob of None \<Rightarrow> 0 | Some x \<Rightarrow> cell_refs x)"

definition refs_ok :: "(nat \<Rightarrow> nat) \<Rightarrow> nat list \<Rightarrow> ostore \<Rightarrow> bool" where
  "refs_ok ext obs st \<longleftrightarrow>
     (\<forall>ob. cell_count st ob = ext ob + count_list obs ob) \<and>
     (\<forall>ob x. os_cells st ob = Some x \<longrightarrow> 0 < cell_refs x) \<and>
     (\<forall>ob \<ge> os_fresh st. os_cells st ob = None) \<and>
     (\<forall>ob \<in> set obs. cell_sds ob st \<noteq> None)"

definition r_ok :: "(nat \<Rightarrow> nat) \<Rightarrow> rclient \<Rightarrow> ostore \<Rightarrow> bool" where
  "r_ok ext c st \<longleftrightarrow>
     length (r_buf c) = REDIS_REPLY_CHUNK_BYTES \<and> r_bufpos c \<le> REDIS_REPLY_CHUNK_BYTES \<and>
     (if r_bufpos c > 0 then r_sentlen c < r_bufpos c
      else case r_reply c of [] \<Rightarrow> r_sentlen c = 0 | ob # _ \<Rightarrow> r_sentlen c = 0 \<or> r_sentlen c < length (cont st ob)) \<and>
     refs_ok ext (r_reply c) st \<and>
     (0 < r_bufpos c \<or> r_reply c \<noteq> [] \<longrightarrow> r_event c) \<and>
     0 < r_fd c \<and> (r_replstate c = REDIS_REPL_NONE \<or> r_replstate c = REDIS_REPL_ONLINE)"

text \<open>The objects that others hold have the same contents.\<close>

definition kept :: "(nat \<Rightarrow> nat) \<Rightarrow> ostore \<Rightarrow> ostore \<Rightarrow> bool" where
  "kept ext st st' \<longleftrightarrow> (\<forall>ob. 0 < ext ob \<longrightarrow> map_option cell_ptr (os_cells st' ob) = map_option cell_ptr (os_cells st ob))"

lemma kept_refl [simp]: "kept ext st st"
  by (simp add: kept_def)

lemma kept_trans: "kept ext a b \<Longrightarrow> kept ext b c \<Longrightarrow> kept ext a c"
  by (simp add: kept_def)

lemma kept_sds: "kept ext st st' \<Longrightarrow> 0 < ext ob \<Longrightarrow> cell_sds ob st = Some s \<Longrightarrow> cell_sds ob st' = Some s"
  by (auto simp: kept_def cell_sds_def map_option_case split: option.splits elim!: allE [of _ ob] bindE)

lemma conts_simps [simp]: "conts st [] = []" "conts st (ob # obs) = cont st ob @ conts st obs"
  "conts st (xs @ ys) = conts st xs @ conts st ys"
  by (simp_all add: conts_def)

lemma conts_cong: "(\<And>ob. ob \<in> set obs \<Longrightarrow> cell_sds ob st' = cell_sds ob st) \<Longrightarrow> conts st' obs = conts st obs"
  by (induction obs) (auto simp: cont_def)

lemma sentlen_conts: "r_ok ext c st \<Longrightarrow> r_bufpos c = 0 \<Longrightarrow> r_sentlen c \<le> length (conts st (r_reply c))"
  by (cases "r_reply c") (auto simp: r_ok_def)

lemma cell_sds_upd:
  "cell_sds ob (st\<lparr>os_cells := (os_cells st)(k \<mapsto> x)\<rparr>) =
     (if ob = k then case cell_ptr x of CSds s \<Rightarrow> Some s | _ \<Rightarrow> None else cell_sds ob st)"
  by (simp add: cell_sds_def)

lemma cell_count_upd [simp]:
  "cell_count (st\<lparr>os_cells := (os_cells st)(k := v)\<rparr>) ob =
     (if ob = k then case v of None \<Rightarrow> 0 | Some x \<Rightarrow> cell_refs x else cell_count st ob)"
  "cell_count (st\<lparr>os_cells := m, os_fresh := n\<rparr>) ob = cell_count (st\<lparr>os_cells := m\<rparr>) ob"
  by (simp_all add: cell_count_def)

lemma cell_sdsD: "cell_sds ob st = Some s \<Longrightarrow> \<exists>x. os_cells st ob = Some x \<and> cell_ptr x = CSds s"
  by (auto simp: cell_sds_def split: cell_ptr.splits elim!: bindE)

lemma refs_okD:
  assumes "refs_ok ext obs st"
  shows "cell_count st ob = ext ob + count_list obs ob"
    and "os_cells st ob = Some x \<Longrightarrow> 0 < cell_refs x"
    and "ob \<in> set obs \<Longrightarrow> \<exists>s. cell_sds ob st = Some s"
    and "os_fresh st \<le> ob \<Longrightarrow> os_cells st ob = None"
  using assms by (auto simp: refs_ok_def)

section \<open>Changes of the list\<close>

lemma refs_new:
  assumes "refs_ok ext obs st" and "new_cell (CSds s) st = (ob, st')"
  shows "refs_ok ext (obs @ [ob]) st'" "cell_sds ob st' = Some s" "kept ext st st'"
    "k \<in> set obs \<Longrightarrow> cell_sds k st' = cell_sds k st" "os_ae st' = os_ae st"
proof -
  note D = refs_okD [OF assms(1)]
  have st': "ob = os_fresh st"
    "st' = st\<lparr>os_cells := (os_cells st)(ob \<mapsto> \<lparr>cell_ptr = CSds s, cell_refs = 1\<rparr>), os_fresh := ob + 1\<rparr>"
    using assms(2) by (auto simp: new_cell_def)
  have f: "cell_count st ob = 0" "ext ob = 0" "count_list obs ob = 0"
    using D(1) [of ob] D(4) [of ob] st'(1) by (simp_all add: cell_count_def)
  show "cell_sds ob st' = Some s" "os_ae st' = os_ae st" by (simp_all add: st'(2) cell_sds_def)
  have ne: "k \<noteq> ob" if "k \<in> set obs" for k using f(3) that count_list_0_iff [of obs ob] by auto
  show *: "k \<in> set obs \<Longrightarrow> cell_sds k st' = cell_sds k st" for k using ne [of k] by (simp add: st'(2) cell_sds_def)
  show "kept ext st st'" using f(2) by (auto simp: kept_def st'(2))
  show "refs_ok ext (obs @ [ob]) st'"
    unfolding refs_ok_def
  proof (intro conjI allI ballI impI)
    fix k show "cell_count st' k = ext k + count_list (obs @ [ob]) k" using D(1) [of k] f by (simp add: st'(2))
  next
    fix k x show "os_cells st' k = Some x \<Longrightarrow> 0 < cell_refs x" using D(2) [of k x] by (auto simp: st'(2) split: if_splits)
  next
    fix k show "os_fresh st' \<le> k \<Longrightarrow> os_cells st' k = None" using D(4) [of k] st' by simp
  next
    fix k assume "k \<in> set (obs @ [ob])"
    then show "cell_sds k st' \<noteq> None" using D(3) [of k] * [of k] \<open>cell_sds ob st' = Some s\<close> by auto
  qed
qed

lemma refs_share:
  assumes "refs_ok ext obs st" and "cell_sds ob st = Some s"
  shows "\<exists>st'. cell_incr ob st = Some st' \<and> refs_ok ext (obs @ [ob]) st' \<and> (\<forall>k. cell_sds k st' = cell_sds k st) \<and>
    kept ext st st' \<and> os_ae st' = os_ae st"
proof -
  note D = refs_okD [OF assms(1)]
  obtain x where x: "os_cells st ob = Some x" "cell_ptr x = CSds s" using cell_sdsD [OF assms(2)] by blast
  let ?st = "st\<lparr>os_cells := (os_cells st)(ob \<mapsto> x\<lparr>cell_refs := cell_refs x + 1\<rparr>)\<rparr>"
  have i: "cell_incr ob st = Some ?st" by (simp add: cell_incr_def x)
  have s: "cell_sds k ?st = cell_sds k st" for k by (simp add: cell_sds_upd x(2) assms(2))
  have "cell_refs x = ext ob + count_list obs ob" using D(1) [of ob] x(1) by (simp add: cell_count_def)
  then have "cell_count ?st k = ext k + count_list (obs @ [ob]) k" for k using D(1) [of k] by simp
  moreover have "0 < cell_refs y" if "os_cells ?st k = Some y" for k y
    using that D(2) [of k y] by (auto split: if_splits)
  moreover have "os_cells ?st k = None" if "os_fresh ?st \<le> k" for k using D(4) [of k] D(4) [of ob] x(1) that by auto
  moreover have "cell_sds k ?st \<noteq> None" if "k \<in> set (obs @ [ob])" for k using that D(3) [of k] s [of k] assms(2) by auto
  ultimately have "refs_ok ext (obs @ [ob]) ?st" unfolding refs_ok_def by blast
  moreover have "kept ext st ?st" using x by (auto simp: kept_def)
  ultimately show ?thesis using i s by auto
qed

text \<open>Dropping a node of the list.\<close>

lemma refs_drop:
  assumes "refs_ok ext (xs @ ob # ys) st"
  shows "\<exists>st'. cell_decr ob st = Some st' \<and> refs_ok ext (xs @ ys) st' \<and> (\<forall>k \<in> set (xs @ ys). cell_sds k st' = cell_sds k st) \<and>
    kept ext st st' \<and> os_ae st' = os_ae st \<and> (\<forall>k. 0 < ext k \<or> k \<in> set (xs @ ys) \<longrightarrow> os_cells st' k \<noteq> None)"
proof -
  note D = refs_okD [OF assms]
  obtain s where "cell_sds ob st = Some s" using D(3) [of ob] by auto
  then obtain x where x: "os_cells st ob = Some x" "cell_ptr x = CSds s" using cell_sdsD by blast
  have n: "cell_refs x = ext ob + count_list (xs @ ys) ob + 1" using D(1) [of ob] x(1) by (simp add: cell_count_def)
  let ?v = "if cell_refs x = 1 then None else Some (x\<lparr>cell_refs := cell_refs x - 1\<rparr>)"
  let ?st = "st\<lparr>os_cells := (os_cells st)(ob := ?v)\<rparr>"
  have i: "cell_decr ob st = Some ?st" using n by (simp add: cell_decr_def x)
  have v: "?v = None \<longleftrightarrow> ext ob = 0 \<and> count_list (xs @ ys) ob = 0" using n by auto
  have s: "cell_sds k ?st = cell_sds k st" if "k \<in> set (xs @ ys)" for k
    using that v x n count_list_0_iff [of "xs @ ys" ob] by (auto simp: cell_sds_def)
  have "cell_count ?st k = ext k + count_list (xs @ ys) k" for k using D(1) [of k] n by auto
  moreover have "0 < cell_refs y" if "os_cells ?st k = Some y" for k y
    using that D(2) [of k y] n by (auto split: if_splits)
  moreover have "os_cells ?st k = None" if "os_fresh ?st \<le> k" for k using D(4) [of k] D(4) [of ob] x(1) that by auto
  moreover have "cell_sds k ?st \<noteq> None" if "k \<in> set (xs @ ys)" for k using that D(3) [of k] s [of k] by auto
  ultimately have r: "refs_ok ext (xs @ ys) ?st" unfolding refs_ok_def by blast
  moreover have "kept ext st ?st" using x n by (auto simp: kept_def)
  moreover have "os_cells ?st k \<noteq> None" if "0 < ext k \<or> k \<in> set (xs @ ys)" for k
    using refs_okD(1) [OF r, of k] that count_list_0_iff [of "xs @ ys" k] by (auto simp: cell_count_def split: option.splits)
  ultimately show ?thesis using i s by auto
qed

lemma refs_set:
  assumes "refs_ok ext (xs @ [ob]) st" and "ext ob = 0" and "ob \<notin> set xs"
  shows "\<exists>st'. cell_set ob (CSds s) st = Some st' \<and> refs_ok ext (xs @ [ob]) st' \<and> (\<forall>k \<in> set xs. cell_sds k st' = cell_sds k st) \<and>
    cell_sds ob st' = Some s \<and> kept ext st st' \<and> os_ae st' = os_ae st"
proof -
  note D = refs_okD [OF assms(1)]
  obtain x where x: "os_cells st ob = Some x" using D(3) [of ob] cell_sdsD by fastforce
  let ?st = "st\<lparr>os_cells := (os_cells st)(ob \<mapsto> x\<lparr>cell_ptr := CSds s\<rparr>)\<rparr>"
  have i: "cell_set ob (CSds s) st = Some ?st" by (simp add: cell_set_def x)
  have s: "cell_sds k ?st = (if k = ob then Some s else cell_sds k st)" for k by (simp add: cell_sds_upd)
  have "cell_count ?st k = ext k + count_list (xs @ [ob]) k" for k using D(1) [of k] x by (auto simp: cell_count_def)
  moreover have "0 < cell_refs y" if "os_cells ?st k = Some y" for k y
    using that D(2) [of k y] D(2) [OF x] by (auto split: if_splits)
  moreover have "os_cells ?st k = None" if "os_fresh ?st \<le> k" for k using D(4) [of k] D(4) [of ob] x that by auto
  moreover have "cell_sds k ?st \<noteq> None" if "k \<in> set (xs @ [ob])" for k using that D(3) [of k] s [of k] by auto
  ultimately have "refs_ok ext (xs @ [ob]) ?st" unfolding refs_ok_def by blast
  moreover have "kept ext st ?st" using assms(2) by (auto simp: kept_def)
  ultimately show ?thesis using i s assms(3) by auto
qed

section \<open>Appending\<close>

lemma dupLast_ok:
  assumes "refs_ok ext (xs @ [cur]) st" and "cell_sds cur st = Some t" and "r_reply c = xs @ [cur]"
  shows "\<exists>f st'. dupLastObjectIfNeeded c st = Some (f, c\<lparr>r_reply := xs @ [f]\<rparr>, st') \<and> refs_ok ext (xs @ [f]) st' \<and>
    ext f = 0 \<and> f \<notin> set xs \<and> cell_sds f st' = Some t \<and> (\<forall>k \<in> set xs. cell_sds k st' = cell_sds k st) \<and> kept ext st st' \<and>
    os_ae st' = os_ae st"
proof -
  note D = refs_okD [OF assms(1)]
  obtain x where x: "os_cells st cur = Some x" "cell_ptr x = CSds t" using cell_sdsD [OF assms(2)] by blast
  have n: "cell_refs x = ext cur + count_list xs cur + 1" using D(1) [of cur] x(1) by (simp add: cell_count_def)
  show ?thesis
  proof (cases "cell_refs x > 1")
    case False
    then have "ext cur = 0" "count_list xs cur = 0" using n by simp_all
    moreover have "c = c\<lparr>r_reply := xs @ [cur]\<rparr>" using assms(3) by simp
    ultimately show ?thesis using False assms x n
      by (intro exI [of _ cur] exI [of _ st]) (simp add: dupLastObjectIfNeeded_def count_list_0_iff)
  next
    case True
    obtain f st1 where N: "new_cell (CSds t) st = (f, st1)" by (cases "new_cell (CSds t) st")
    note new = refs_new [OF assms(1) N]
    have f: "ext f = 0" "count_list (xs @ [cur]) f = 0"
      using D(1) [of f] D(4) [of f] N by (auto simp: new_cell_def cell_count_def)
    have "refs_ok ext (xs @ cur # [f]) st1" using new(1) by simp
    from refs_drop [OF this] obtain st2 where st2: "cell_decr cur st1 = Some st2" "refs_ok ext (xs @ [f]) st2"
      "\<And>k. k \<in> set (xs @ [f]) \<Longrightarrow> cell_sds k st2 = cell_sds k st1" "kept ext st1 st2" "os_ae st2 = os_ae st1" by blast
    have "dupLastObjectIfNeeded c st = Some (f, c\<lparr>r_reply := xs @ [f]\<rparr>, st2)"
      using True x st2(1) N assms(2,3) by (simp add: dupLastObjectIfNeeded_def dupStringCell_def)
    moreover have "f \<notin> set xs" using f(2) count_list_0_iff [of "xs @ [cur]" f] by auto
    moreover have "cell_sds f st2 = Some t" using st2(3) [of f] new(2) by simp
    moreover have "\<forall>k \<in> set xs. cell_sds k st2 = cell_sds k st" using st2(3) new(4) by simp
    ultimately show ?thesis using st2(2,4,5) f(1) new(5) kept_trans [OF new(3) st2(4)]
      by (intro exI [of _ f] exI [of _ st2]) simp
  qed
qed

lemma glue_ok:
  assumes "refs_ok ext (xs @ [cur]) st" and "cell_sds cur st = Some t" and "r_reply c = xs @ [cur]"
  shows "glue_to_tail c st s = Some None \<or>
    (\<exists>f st'. glue_to_tail c st s = Some (Some (c\<lparr>r_reply := xs @ [f]\<rparr>, st')) \<and> refs_ok ext (xs @ [f]) st' \<and>
       cell_sds f st' = Some (t @ s) \<and> (\<forall>k \<in> set xs. cell_sds k st' = cell_sds k st) \<and> kept ext st st' \<and> os_ae st' = os_ae st)"
proof -
  obtain x where x: "os_cells st cur = Some x" "cell_ptr x = CSds t" using cell_sdsD [OF assms(2)] by blast
  show ?thesis
  proof (cases "length t + length s \<le> REDIS_REPLY_CHUNK_BYTES")
    case False
    then show ?thesis using assms x by (simp add: glue_to_tail_def)
  next
    case True
    obtain f st1 where d: "dupLastObjectIfNeeded c st = Some (f, c\<lparr>r_reply := xs @ [f]\<rparr>, st1)" "refs_ok ext (xs @ [f]) st1"
      "ext f = 0" "f \<notin> set xs" "cell_sds f st1 = Some t" "\<forall>k \<in> set xs. cell_sds k st1 = cell_sds k st" "kept ext st st1"
      "os_ae st1 = os_ae st" using dupLast_ok [OF assms] by blast
    obtain st2 where "cell_set f (CSds (t @ s)) st1 = Some st2" "refs_ok ext (xs @ [f]) st2" "\<forall>k \<in> set xs. cell_sds k st2 = cell_sds k st1"
      "cell_sds f st2 = Some (t @ s)" "kept ext st1 st2" "os_ae st2 = os_ae st1"
      using refs_set [OF d(2-4), of "t @ s"] by blast
    then show ?thesis using True assms(2,3) x d kept_trans [OF d(7)]
      by (intro disjI2 exI [of _ f] exI [of _ st2]) (simp add: glue_to_tail_def)
  qed
qed

text \<open>\<open>s\<close> was added to the output of the client.\<close>

definition appended :: "(nat \<Rightarrow> nat) \<Rightarrow> rclient \<Rightarrow> ostore \<Rightarrow> byte list \<Rightarrow> rclient \<Rightarrow> ostore \<Rightarrow> bool" where
  "appended ext c st s c' st' \<longleftrightarrow>
     r_ok ext c' st' \<and> pending c' st' = pending c st @ s \<and> kept ext st st' \<and> r_close c' = r_close c \<and>
     r_master c' = r_master c \<and> os_ae st' = os_ae st"

lemma glue_appended:
  assumes "r_ok ext c st" and "r_reply c = xs @ [cur]" and "cell_sds cur st = Some t"
    and f: "refs_ok ext (xs @ [f]) st'" "cell_sds f st' = Some (t @ s)" "\<forall>k \<in> set xs. cell_sds k st' = cell_sds k st" "kept ext st st'"
      "os_ae st' = os_ae st"
  shows "appended ext c st s (c\<lparr>r_reply := xs @ [f]\<rparr>) st'"
proof -
  have "conts st' xs = conts st xs" using f(3) by (intro conts_cong) auto
  then have c: "conts st' (xs @ [f]) = conts st (r_reply c) @ s" using f(2) assms(2,3) by (simp add: cont_def)
  have h: "length (cont st (hd (xs @ [cur]))) \<le> length (cont st' (hd (xs @ [f])))"
    using f(2,3) assms(3) by (cases xs) (simp_all add: cont_def)
  have "pending (c\<lparr>r_reply := xs @ [f]\<rparr>) st' = pending c st @ s"
    using c sentlen_conts [OF assms(1)] by (cases "r_bufpos c = 0") (simp_all add: pending_def del: conts_simps)
  moreover have "r_ok ext (c\<lparr>r_reply := xs @ [f]\<rparr>) st'"
    using assms(1,2) f(1) h by (cases xs) (auto simp: r_ok_def)
  ultimately show ?thesis using f(4,5) by (simp add: appended_def)
qed

lemma push_appended:
  assumes "r_ok ext c st" and "r_event c" and "refs_ok ext (r_reply c @ [f]) st'" and "cell_sds f st' = Some s"
    and "\<forall>k \<in> set (r_reply c). cell_sds k st' = cell_sds k st" and "kept ext st st'" and "os_ae st' = os_ae st"
  shows "appended ext c st s (c\<lparr>r_reply := r_reply c @ [f]\<rparr>) st'"
proof -
  have c: "conts st' (r_reply c @ [f]) = conts st (r_reply c) @ s"
    using assms(4,5) conts_cong [of "r_reply c" st' st] by (simp add: cont_def)
  have "pending (c\<lparr>r_reply := r_reply c @ [f]\<rparr>) st' = pending c st @ s"
    using c sentlen_conts [OF assms(1)] by (cases "r_bufpos c = 0") (simp_all add: pending_def del: conts_simps)
  moreover have "r_ok ext (c\<lparr>r_reply := r_reply c @ [f]\<rparr>) st'"
    using assms by (cases "r_reply c") (auto simp: r_ok_def cont_def)
  ultimately show ?thesis using assms(6,7) by (simp add: appended_def)
qed

lemma new_appended:
  assumes "r_ok ext c st" and "r_event c"
  obtains c' st' where "(let (ob, st) = new_cell (CSds s) st in Some (c\<lparr>r_reply := r_reply c @ [ob]\<rparr>, st)) = Some (c', st')"
    "appended ext c st s c' st'"
proof -
  obtain f st1 where N: "new_cell (CSds s) st = (f, st1)" by (cases "new_cell (CSds s) st")
  have "refs_ok ext (r_reply c) st" using assms(1) by (simp add: r_ok_def)
  note new = refs_new [OF this N]
  show thesis using push_appended [OF assms new(1,2) _ new(3,5)] new(4) N by (intro that) auto
qed

lemma tail_cases:
  assumes "r_ok ext c st" and "r_reply c \<noteq> []"
  obtains xs cur t where "r_reply c = xs @ [cur]" "cell_sds cur st = Some t" "refs_ok ext (xs @ [cur]) st"
proof -
  have e: "r_reply c = butlast (r_reply c) @ [last (r_reply c)]" using assms(2) by simp
  have r: "refs_ok ext (r_reply c) st" using assms(1) by (simp add: r_ok_def)
  obtain t where "cell_sds (last (r_reply c)) st = Some t" using refs_okD(3) [OF r] assms(2) by (metis last_in_set)
  then show thesis using that [OF e] r e by metis
qed

lemma addString_list:
  assumes "r_ok ext c st" and "r_event c" and "\<not> r_close c"
  obtains c' st' where "u_addReplyStringToList c st s = Some (c', st')" "u_addReplySdsToList c st s = Some (c', st')" "appended ext c st s c' st'"
proof (cases "r_reply c = []")
  case True
  obtain c' st' where "(let (ob, st) = new_cell (CSds s) st in Some (c\<lparr>r_reply := r_reply c @ [ob]\<rparr>, st)) = Some (c', st')"
    "appended ext c st s c' st'" by (rule new_appended [OF assms(1,2)])
  then show thesis using that True assms(3) by (simp add: u_addReplyStringToList_def u_addReplySdsToList_def)
next
  case False
  obtain xs cur t where x: "r_reply c = xs @ [cur]" "cell_sds cur st = Some t" "refs_ok ext (xs @ [cur]) st"
    by (rule tail_cases [OF assms(1) False])
  consider "glue_to_tail c st s = Some None"
    | f st' where "glue_to_tail c st s = Some (Some (c\<lparr>r_reply := xs @ [f]\<rparr>, st'))" "appended ext c st s (c\<lparr>r_reply := xs @ [f]\<rparr>) st'"
    using glue_ok [OF x(3,2,1), of s] glue_appended [OF assms(1) x(1,2)] by blast
  then show thesis
  proof cases
    case 1
    obtain c' st' where "(let (ob, st) = new_cell (CSds s) st in Some (c\<lparr>r_reply := r_reply c @ [ob]\<rparr>, st)) = Some (c', st')"
      "appended ext c st s c' st'" by (rule new_appended [OF assms(1,2)])
    then show thesis using that False 1 assms(3) by (simp add: u_addReplyStringToList_def u_addReplySdsToList_def)
  next
    case 2
    then show thesis using that False assms(3) by (simp add: u_addReplyStringToList_def u_addReplySdsToList_def)
  qed
qed

lemma addObject_list:
  assumes "r_ok ext c st" and "r_event c" and "\<not> r_close c" and "cell_sds ob st = Some s"
  obtains c' st' where "u_addReplyObjectToList c st ob = Some (c', st')" "appended ext c st s c' st'"
proof -
  have r: "refs_ok ext (r_reply c) st" using assms(1) by (simp add: r_ok_def)
  obtain st1 where s1: "cell_incr ob st = Some st1" "refs_ok ext (r_reply c @ [ob]) st1" "\<forall>k. cell_sds k st1 = cell_sds k st"
    "kept ext st st1" "os_ae st1 = os_ae st" using refs_share [OF r assms(4)] by blast
  have p: "appended ext c st s (c\<lparr>r_reply := r_reply c @ [ob]\<rparr>) st1"
    using push_appended [OF assms(1,2) s1(2) _ _ s1(4,5)] s1(3) assms(4) by simp
  show thesis
  proof (cases "r_reply c = []")
    case True
    then show thesis using that p s1(1) assms(3) by (simp add: u_addReplyObjectToList_def)
  next
    case False
    obtain xs cur t where x: "r_reply c = xs @ [cur]" "cell_sds cur st = Some t" "refs_ok ext (xs @ [cur]) st"
      by (rule tail_cases [OF assms(1) False])
    consider "glue_to_tail c st s = Some None"
      | f st' where "glue_to_tail c st s = Some (Some (c\<lparr>r_reply := xs @ [f]\<rparr>, st'))" "appended ext c st s (c\<lparr>r_reply := xs @ [f]\<rparr>) st'"
      using glue_ok [OF x(3,2,1), of s] glue_appended [OF assms(1) x(1,2)] by blast
    then show thesis
      by cases (use that p s1(1) False assms(3,4) in \<open>simp_all add: u_addReplyObjectToList_def\<close>)
  qed
qed

lemma addBuffer:
  assumes "r_ok ext c st" and "r_event c" and "\<not> r_close c"
  obtains "u_addReplyToBuffer c s = Some (False, c)"
    | c' where "u_addReplyToBuffer c s = Some (True, c')" "appended ext c st s c' st"
proof (cases "r_reply c = [] \<and> length s \<le> REDIS_REPLY_CHUNK_BYTES - r_bufpos c")
  case True
  have b: "length (r_buf c) = REDIS_REPLY_CHUNK_BYTES" "r_bufpos c \<le> REDIS_REPLY_CHUNK_BYTES"
    "r_sentlen c \<le> r_bufpos c" "r_bufpos c = 0 \<Longrightarrow> r_sentlen c = 0" "0 < r_bufpos c \<Longrightarrow> r_sentlen c < r_bufpos c"
    using assms(1) True by (auto simp: r_ok_def split: if_splits)
  have fit: "r_reply c = []" "r_bufpos c + length s \<le> REDIS_REPLY_CHUNK_BYTES" using True b(2) by auto
  let ?b = "take (r_bufpos c) (r_buf c) @ s @ drop (r_bufpos c + length s) (r_buf c)"
  let ?c = "c\<lparr>r_buf := ?b, r_bufpos := r_bufpos c + length s\<rparr>"
  have w: "mem_write (r_buf c) (r_bufpos c) s = Some ?b" using b fit by (simp add: mem_write_def)
  have "take (r_bufpos c + length s) ?b = take (r_bufpos c) (r_buf c) @ s" using b by simp
  then have "pending ?c st = pending c st @ s" using b True by (auto simp: pending_def)
  moreover have "r_sentlen c < r_bufpos c + length s" if "s \<noteq> []"
  proof -
    have "0 < length s" using that by simp
    then show ?thesis using b(3) by linarith
  qed
  then have "r_ok ext ?c st" using assms(1,2) b fit by (auto simp: r_ok_def)
  ultimately show thesis using that(2) [of ?c] w True assms(3) by (simp add: u_addReplyToBuffer_def appended_def)
next
  case False
  then show thesis using that(1) assms(3) by (auto simp: u_addReplyToBuffer_def)
qed

lemma install:
  assumes "r_ok ext c st" and "os_ae st = []"
  obtains "u_installWriteEvent c st = (True, c\<lparr>r_event := True\<rparr>, st)"
  using assms by (cases "r_bufpos c = 0 \<and> r_reply c = []") (auto simp: u_installWriteEvent_def r_ok_def)

lemma install_ok: "r_ok ext c st \<Longrightarrow> r_ok ext (c\<lparr>r_event := True\<rparr>) st" "r_ok ext c st \<Longrightarrow> pending (c\<lparr>r_event := True\<rparr>) st = pending c st"
  by (auto simp: r_ok_def pending_def split: list.splits)

lemma addReplyString_ok:
  assumes "r_ok ext c st" and "os_ae st = []" and "\<not> r_close c"
  shows "\<exists>c' st'. addReplyString c st s = Some (c', st') \<and> addReplySds c st s = Some (c', st') \<and> appended ext c st s c' st'"
proof -
  let ?c = "c\<lparr>r_event := True\<rparr>"
  have i: "u_installWriteEvent c st = (True, ?c, st)" by (rule install [OF assms(1,2)])
  note ok = install_ok [OF assms(1)]
  have *: "appended ext ?c st s c' st' \<Longrightarrow> appended ext c st s c' st'" for c' st' by (simp add: appended_def ok(2))
  have e: "r_event ?c" "\<not> r_close ?c" using assms(3) by simp_all
  show ?thesis
  proof (rule addBuffer [OF ok(1) e, of s])
    fix c' assume "u_addReplyToBuffer ?c s = Some (True, c')" "appended ext ?c st s c' st"
    then show ?thesis using i * by (auto simp: addReplyString_def addReplySds_def)
  next
    assume b: "u_addReplyToBuffer ?c s = Some (False, ?c)"
    obtain c' st' where "u_addReplyStringToList ?c st s = Some (c', st')" "u_addReplySdsToList ?c st s = Some (c', st')"
      "appended ext ?c st s c' st'" by (rule addString_list [OF ok(1) e])
    then show ?thesis using i b * by (auto simp: addReplyString_def addReplySds_def)
  qed
qed

lemma refs_hold:
  "cell_sds ob st \<noteq> None \<Longrightarrow> refs_ok (ext(ob := ext ob + 1)) obs st \<longleftrightarrow> refs_ok ext (ob # obs) st"
  by (auto simp: refs_ok_def)

lemma refs_perm: "refs_ok ext (obs @ [ob]) st \<longleftrightarrow> refs_ok ext (ob # obs) st"
  by (auto simp: refs_ok_def)

lemma r_ok_cong:
  assumes "r_ok ext c st" and "refs_ok ext' (r_reply c) st'" and "\<forall>k \<in> set (r_reply c). cell_sds k st' = cell_sds k st"
  shows "r_ok ext' c st'" "pending c st' = pending c st"
proof -
  have "cont st' k = cont st k" if "k \<in> set (r_reply c)" for k using assms(3) that by (simp add: cont_def)
  then show "r_ok ext' c st'" using assms(1,2) by (cases "r_reply c") (auto simp: r_ok_def)
  show "pending c st' = pending c st" using assms(3) conts_cong [of "r_reply c" st' st] by (simp add: pending_def)
qed

lemma addReply_sds:
  assumes "r_ok ext c st" and "r_event c" and "\<not> r_close c" and "cell_sds ob st = Some s"
  obtains c' st' where "do { (done, c) \<leftarrow> u_addReplyToBuffer c s; if done then Some (c, st) else u_addReplyObjectToList c st ob } = Some (c', st')"
    "appended ext c st s c' st'"
proof (rule addBuffer [OF assms(1-3), of s])
  fix c' assume "u_addReplyToBuffer c s = Some (True, c')" "appended ext c st s c' st"
  then show thesis by (intro that) simp_all
next
  assume b: "u_addReplyToBuffer c s = Some (False, c)"
  obtain c' st' where "u_addReplyObjectToList c st ob = Some (c', st')" "appended ext c st s c' st'"
    by (rule addObject_list [OF assms])
  then show thesis using b by (intro that) simp_all
qed

lemma addReply_long:
  assumes "r_ok ext c st" and "r_event c" and "\<not> r_close c"
  obtains c' st' where "(let (ob, st) = new_cell (CSds s) st in
      do { (done, c) \<leftarrow> u_addReplyToBuffer c s;
           (c, st) \<leftarrow> (if done then Some (c, st) else u_addReplyObjectToList c st ob);
           st \<leftarrow> cell_decr ob st; Some (c, st) }) = Some (c', st')"
    "appended ext c st s c' st'"
proof -
  obtain f st1 where N: "new_cell (CSds s) st = (f, st1)" by (cases "new_cell (CSds s) st")
  have r: "refs_ok ext (r_reply c) st" using assms(1) by (simp add: r_ok_def)
  note new = refs_new [OF r N]
  let ?ext = "ext(f := ext f + 1)"
  have "refs_ok ?ext (r_reply c) st1" using new(1,2) refs_perm refs_hold by auto
  then have ok1: "r_ok ?ext c st1" "pending c st1 = pending c st" using r_ok_cong [OF assms(1)] new(4) by auto
  obtain c2 st2 where s2: "do { (done, c) \<leftarrow> u_addReplyToBuffer c s; if done then Some (c, st1) else u_addReplyObjectToList c st1 f } = Some (c2, st2)"
    "appended ?ext c st1 s c2 st2" by (rule addReply_sds [OF ok1(1) assms(2,3) new(2)])
  have kept2: "kept ?ext st1 st2" "kept ext st1 st2" using s2(2) by (auto simp: appended_def kept_def)
  have f2: "cell_sds f st2 = Some s" using kept_sds [OF kept2(1) _ new(2)] by simp
  have ok2: "r_ok ?ext c2 st2" using s2(2) by (simp add: appended_def)
  then have "refs_ok ext ([] @ f # r_reply c2) st2" using refs_hold [of f st2] f2 by (simp add: r_ok_def)
  from refs_drop [OF this] obtain st3 where st3: "cell_decr f st2 = Some st3" "refs_ok ext (r_reply c2) st3"
    "\<forall>k \<in> set (r_reply c2). cell_sds k st3 = cell_sds k st2" "kept ext st2 st3" "os_ae st3 = os_ae st2" by auto
  have ok3: "r_ok ext c2 st3" "pending c2 st3 = pending c2 st2" using r_ok_cong [OF ok2 st3(2,3)] by simp_all
  have "appended ext c st s c2 st3"
    using s2(2) ok1(2) ok3 st3(5) new(5) kept_trans [OF new(3) kept_trans [OF kept2(2) st3(4)]] by (simp add: appended_def)
  moreover obtain d c1 where "u_addReplyToBuffer c s = Some (d, c1)" "(if d then Some (c1, st1) else u_addReplyObjectToList c1 st1 f) = Some (c2, st2)"
    using s2(1) by (auto elim!: bindE split: prod.splits)
  ultimately show thesis using N st3(1) by (intro that) auto
qed

text \<open>What an object's reply is, and the result of \<open>addReply\<close>.\<close>

fun cell_text :: "cell_ptr \<Rightarrow> byte list" where
  "cell_text CNull = []"
| "cell_text (CSds s) = s"
| "cell_text (CLong v) = dec_repr v"

definition obj_text :: "ostore \<Rightarrow> nat \<Rightarrow> byte list" where
  "obj_text st ob = (case os_cells st ob of Some x \<Rightarrow> cell_text (cell_ptr x) | None \<Rightarrow> [])"

definition replyable :: "(nat \<Rightarrow> nat) \<Rightarrow> ostore \<Rightarrow> nat \<Rightarrow> bool" where
  "replyable ext st ob \<longleftrightarrow> 0 < ext ob \<and>
     (case os_cells st ob of Some x \<Rightarrow> (case cell_ptr x of CNull \<Rightarrow> False | CSds _ \<Rightarrow> True | CLong v \<Rightarrow> LLONG_MIN < v \<and> v \<le> LLONG_MAX)
      | None \<Rightarrow> False)"

lemma kept_replyable: "kept ext st st' \<Longrightarrow> replyable ext st ob \<Longrightarrow> replyable ext st' ob \<and> obj_text st' ob = obj_text st ob"
  by (auto simp: kept_def replyable_def obj_text_def split: option.splits elim!: allE [of _ ob])

lemma addReply_ok:
  assumes "r_ok ext c st" and "os_ae st = []" and "\<not> r_close c" and "replyable ext st ob"
  shows "\<exists>c' st'. addReply c st ob = Some (c', st') \<and> appended ext c st (obj_text st ob) c' st'"
proof -
  let ?c = "c\<lparr>r_event := True\<rparr>"
  have i: "u_installWriteEvent c st = (True, ?c, st)" by (rule install [OF assms(1,2)])
  note ok = install_ok [OF assms(1)]
  have *: "appended ext ?c st s c' st' \<Longrightarrow> appended ext c st s c' st'" for s c' st' by (simp add: appended_def ok(2))
  have e: "r_event ?c" "\<not> r_close ?c" using assms(3) by simp_all
  obtain x where x: "os_cells st ob = Some x" using assms(4) by (auto simp: replyable_def split: option.splits)
  show ?thesis
  proof (cases "cell_ptr x")
    case CNull
    then show ?thesis using assms(4) x by (simp add: replyable_def)
  next
    case (CSds s)
    then have "cell_sds ob st = Some s" using x by (simp add: cell_sds_def)
    from addReply_sds [OF ok(1) e this] obtain c' st' where
      "do { (done, c) \<leftarrow> u_addReplyToBuffer ?c s; if done then Some (c, st) else u_addReplyObjectToList c st ob } = Some (c', st')"
      "appended ext ?c st s c' st'" by blast
    then show ?thesis using i x CSds * by (auto simp: addReply_def obj_text_def)
  next
    case (CLong v)
    then have "LLONG_MIN < v" "v \<le> LLONG_MAX" using assms(4) x by (simp_all add: replyable_def)
    then have l: "ll2string 32 v = Some (dec_repr v)" using ll2string_dec_repr [of v 32] length_dec_repr [of v] by simp
    obtain c' st' where
      "(let (ob, st) = new_cell (CSds (dec_repr v)) st in
        do { (done, c) \<leftarrow> u_addReplyToBuffer ?c (dec_repr v);
             (c, st) \<leftarrow> (if done then Some (c, st) else u_addReplyObjectToList c st ob);
             st \<leftarrow> cell_decr ob st; Some (c, st) }) = Some (c', st')"
      "appended ext ?c st (dec_repr v) c' st'" by (rule addReply_long [OF ok(1) e])
    then show ?thesis using i x CLong l * by (auto simp: addReply_def obj_text_def)
  qed
qed

section \<open>Sending\<close>

text \<open>One pass of the loop took \<open>gone\<close> from the queue.\<close>

definition took :: "(nat \<Rightarrow> nat) \<Rightarrow> rclient \<Rightarrow> ostore \<Rightarrow> byte list \<Rightarrow> rclient \<Rightarrow> ostore \<Rightarrow> bool" where
  "took ext c st gone c' st' \<longleftrightarrow>
     r_ok ext c' st' \<and> pending c st = gone @ pending c' st' \<and> kept ext st st' \<and> r_close c' = r_close c \<and>
     r_master c' = r_master c \<and> os_ae st' = os_ae st"

lemma took_trans: "took ext c st a c1 st1 \<Longrightarrow> took ext c1 st1 b c2 st2 \<Longrightarrow> took ext c st (a @ b) c2 st2"
  by (auto simp: took_def intro: kept_trans)

text \<open>What a write takes from a chunk.\<close>

lemma chunk_write_cases:
  assumes "s \<noteq> []"
  obtains w where "chunk_write c ws s = Some (Inl w)" "\<not> r_master c" "w = Failed \<longrightarrow> ws \<noteq> [] \<and> hd ws = Failed"
      "ws \<noteq> [] \<longrightarrow> w = hd ws" "\<And>k. w = Room k \<Longrightarrow> k = 0"
    | n ws' where "chunk_write c ws s = Some (Inr (n, (if r_master c then [] else take n s), ws'))" "0 < n" "n \<le> length s"
      "r_master c \<and> ws' = ws \<or> (\<exists>k. ws = Room k # ws')"
proof (cases "r_master c")
  case True
  then show thesis using that(2) [of "length s" ws] assms by (simp add: chunk_write_def)
next
  case False
  show thesis
  proof (cases ws)
    case Nil
    then show thesis using that(1) [of Again] False by (simp add: chunk_write_def)
  next
    case (Cons w ws')
    show thesis
    proof (cases w)
      case (Room k)
      have m: "min k (length s) = 0 \<longleftrightarrow> k = 0" using assms by (cases s) (simp_all add: min_def)
      show thesis
      proof (cases "k = 0")
        case True
        show thesis by (rule that(1) [of "Room 0"]) (use True Room False Cons in \<open>simp_all add: chunk_write_def\<close>)
      next
        case k: False
        have "chunk_write c ws s = Some (Inr (min k (length s), take (min k (length s)) s, ws'))"
          using k m False Cons Room by (simp add: chunk_write_def Let_def)
        then show thesis using k m False Cons Room by (intro that(2) [of "min k (length s)" ws']) auto
      qed
    next
      case Again
      show thesis by (rule that(1) [of Again]) (use False Cons Again in \<open>simp_all add: chunk_write_def\<close>)
    next
      case Failed
      show thesis by (rule that(1) [of Failed]) (use False Cons Failed in \<open>simp_all add: chunk_write_def\<close>)
    qed
  qed
qed

lemma send_step_buf:
  assumes "r_ok ext c st" and "0 < r_bufpos c"
  defines "s \<equiv> drop (r_sentlen c) (take (r_bufpos c) (r_buf c))"
  shows "s \<noteq> []"
    and "chunk_write c ws s = Some (Inl w) \<Longrightarrow> send_step ws c st = Some (Stop w)"
    and "chunk_write c ws s = Some (Inr (n, out, ws')) \<Longrightarrow> 0 < n \<Longrightarrow> n \<le> length s \<Longrightarrow>
      \<exists>c'. send_step ws c st = Some (Sent n out ws' c' st) \<and> took ext c st (take n s) c' st"
proof -
  have b: "length (r_buf c) = REDIS_REPLY_CHUNK_BYTES" "r_bufpos c \<le> REDIS_REPLY_CHUNK_BYTES" "r_sentlen c < r_bufpos c"
    using assms(1,2) by (auto simp: r_ok_def)
  have ls: "length s = r_bufpos c - r_sentlen c" using b by (simp add: s_def)
  then show "s \<noteq> []" using b(3) by auto
  have r: "mem_read (r_buf c) (r_sentlen c) (r_bufpos c - r_sentlen c) = Some s"
    using b by (simp add: mem_read_def s_def take_drop)
  show "chunk_write c ws s = Some (Inl w) \<Longrightarrow> send_step ws c st = Some (Stop w)"
    using assms(2) b(3) r by (simp add: send_step_def)
  assume w: "chunk_write c ws s = Some (Inr (n, out, ws'))" "0 < n" "n \<le> length s"
  let ?c = "if r_sentlen c + n = r_bufpos c then c\<lparr>r_bufpos := 0, r_sentlen := 0\<rparr> else c\<lparr>r_sentlen := r_sentlen c + n\<rparr>"
  have st: "send_step ws c st = Some (Sent n out ws' ?c st)" using assms(2) b(3) r w(1) by (simp add: send_step_def)
  have p: "pending c st = s @ conts st (r_reply c)" using assms(2) by (simp add: pending_def s_def)
  have "pending ?c st = drop n s @ conts st (r_reply c)"
    using assms(2) w(3) ls by (auto simp: pending_def s_def add.commute)
  then have "pending c st = take n s @ pending ?c st" using p by simp
  moreover have "r_ok ext ?c st" using assms(1,2) w(2,3) ls b(3) by (auto simp: r_ok_def split: list.splits)
  ultimately have "took ext c st (take n s) ?c st" by (auto simp: took_def)
  with st show "\<exists>c'. send_step ws c st = Some (Sent n out ws' c' st) \<and> took ext c st (take n s) c' st" by blast
qed

lemma drop_head:
  assumes "r_ok ext c st" and "r_bufpos c = 0" and "r_reply c = ob # obs"
  shows "\<exists>st'. cell_decr ob st = Some st' \<and> r_ok ext (c\<lparr>r_reply := obs, r_sentlen := 0\<rparr>) st' \<and>
    pending (c\<lparr>r_reply := obs, r_sentlen := 0\<rparr>) st' = conts st obs \<and> kept ext st st' \<and> os_ae st' = os_ae st"
proof -
  have "refs_ok ext ([] @ ob # obs) st" using assms(1,3) by (simp add: r_ok_def)
  from refs_drop [OF this] obtain st' where s: "cell_decr ob st = Some st'" "refs_ok ext obs st'"
    "\<forall>k \<in> set obs. cell_sds k st' = cell_sds k st" "kept ext st st'" "os_ae st' = os_ae st" by auto
  have "conts st' obs = conts st obs" using s(3) by (intro conts_cong) auto
  then have "pending (c\<lparr>r_reply := obs, r_sentlen := 0\<rparr>) st' = conts st obs" using assms(2) by (simp add: pending_def)
  moreover have "r_ok ext (c\<lparr>r_reply := obs, r_sentlen := 0\<rparr>) st'" using assms s(2) by (auto simp: r_ok_def split: list.splits)
  ultimately show ?thesis using s by blast
qed

lemma send_step_list:
  assumes "r_ok ext c st" and "r_bufpos c = 0" and "r_reply c = ob # obs"
  defines "s \<equiv> drop (r_sentlen c) (cont st ob)"
  shows "cont st ob = [] \<Longrightarrow> \<exists>c' st'. send_step ws c st = Some (Skipped c' st') \<and> took ext c st [] c' st'"
    and "cont st ob \<noteq> [] \<Longrightarrow> s \<noteq> []"
    and "cont st ob \<noteq> [] \<Longrightarrow> chunk_write c ws s = Some (Inl w) \<Longrightarrow> send_step ws c st = Some (Stop w)"
    and "cont st ob \<noteq> [] \<Longrightarrow> chunk_write c ws s = Some (Inr (n, out, ws')) \<Longrightarrow> 0 < n \<Longrightarrow> n \<le> length s \<Longrightarrow>
      \<exists>c' st'. send_step ws c st = Some (Sent n out ws' c' st') \<and> took ext c st (take n s) c' st'"
proof -
  have r: "refs_ok ext (ob # obs) st" using assms(1,3) by (simp add: r_ok_def)
  obtain t where t: "cell_sds ob st = Some t" "cont st ob = t" using refs_okD(3) [OF r, of ob] by (auto simp: cont_def)
  have l: "r_sentlen c = 0 \<or> r_sentlen c < length t" using assms(1-3) t(2) by (auto simp: r_ok_def)
  have p: "pending c st = s @ conts st obs" using assms(2,3) l t(2) by (auto simp: pending_def s_def)
  obtain st1 where d: "cell_decr ob st = Some st1" "r_ok ext (c\<lparr>r_reply := obs, r_sentlen := 0\<rparr>) st1"
    "pending (c\<lparr>r_reply := obs, r_sentlen := 0\<rparr>) st1 = conts st obs" "kept ext st st1" "os_ae st1 = os_ae st"
    using drop_head [OF assms(1-3)] by blast
  show "cont st ob = [] \<Longrightarrow> \<exists>c' st'. send_step ws c st = Some (Skipped c' st') \<and> took ext c st [] c' st'"
  proof -
    assume e: "cont st ob = []"
    then have "r_sentlen c = 0" using l t(2) by auto
    then have "c\<lparr>r_reply := obs\<rparr> = c\<lparr>r_reply := obs, r_sentlen := 0\<rparr>" by simp
    then show ?thesis using d e t p assms(2,3) s_def
      by (intro exI [of _ "c\<lparr>r_reply := obs\<rparr>"] exI [of _ st1]) (simp add: send_step_def took_def)
  qed
  show ne: "cont st ob \<noteq> [] \<Longrightarrow> s \<noteq> []" using l t(2) by (auto simp: s_def)
  have q: "cont st ob \<noteq> [] \<Longrightarrow> r_sentlen c < length t" using l t(2) by auto
  show "cont st ob \<noteq> [] \<Longrightarrow> chunk_write c ws s = Some (Inl w) \<Longrightarrow> send_step ws c st = Some (Stop w)"
    using assms(2,3) t q by (simp add: send_step_def s_def)
  assume ne: "cont st ob \<noteq> []" and w: "chunk_write c ws s = Some (Inr (n, out, ws'))" "0 < n" "n \<le> length s"
  show "\<exists>c' st'. send_step ws c st = Some (Sent n out ws' c' st') \<and> took ext c st (take n s) c' st'"
  proof (cases "r_sentlen c + n = length t")
    case True
    then have "take n s = s" using t(2) by (simp add: s_def)
    then show ?thesis using True ne w(1) t q d p assms(2,3)
      by (intro exI [of _ "c\<lparr>r_reply := obs, r_sentlen := 0\<rparr>"] exI [of _ st1]) (simp add: send_step_def s_def took_def)
  next
    case False
    then have lt: "r_sentlen c + n < length t" using w(3) t(2) q [OF ne] by (simp add: s_def)
    have "pending (c\<lparr>r_sentlen := r_sentlen c + n\<rparr>) st = drop n s @ conts st obs"
      using assms(2,3) lt t(2) by (simp add: pending_def s_def add.commute)
    then have "pending c st = take n s @ pending (c\<lparr>r_sentlen := r_sentlen c + n\<rparr>) st" using p by simp
    moreover have "r_ok ext (c\<lparr>r_sentlen := r_sentlen c + n\<rparr>) st" using assms(1-3) lt t(2) by (simp add: r_ok_def)
    ultimately have "took ext c st (take n s) (c\<lparr>r_sentlen := r_sentlen c + n\<rparr>) st" by (simp add: took_def)
    then show ?thesis using False ne w(1) t q assms(2,3)
      by (intro exI [of _ "c\<lparr>r_sentlen := r_sentlen c + n\<rparr>"] exI [of _ st]) (simp add: send_step_def s_def)
  qed
qed

lemma pending_Nil: "r_ok ext c st \<Longrightarrow> r_bufpos c = 0 \<Longrightarrow> r_reply c = [] \<Longrightarrow> pending c st = []"
  by (simp add: pending_def)

text \<open>A step of the loop when output is queued.\<close>

lemma send_step_cases:
  assumes "r_ok ext c st" and "\<not> (r_bufpos c = 0 \<and> r_reply c = [])"
  obtains w where "send_step ws c st = Some (Stop w)" "pending c st \<noteq> []" "\<not> r_master c" "w = Failed \<longrightarrow> ws \<noteq> [] \<and> hd ws = Failed"
      "ws \<noteq> [] \<longrightarrow> w = hd ws" "\<And>k. w = Room k \<Longrightarrow> k = 0"
    | n gone ws' c' st' where "send_step ws c st = Some (Sent n (if r_master c then [] else gone) ws' c' st')" "took ext c st gone c' st'"
      "gone \<noteq> []" "r_master c \<and> ws' = ws \<or> (\<exists>k. ws = Room k # ws')"
    | c' st' where "send_step ws c st = Some (Skipped c' st')" "took ext c st [] c' st'"
proof (cases "0 < r_bufpos c")
  case True
  note B = send_step_buf [OF assms(1) True]
  show thesis
  proof (rule chunk_write_cases [OF B(1), of c ws], goal_cases)
    case (1 w)
    moreover have "pending c st \<noteq> []" using B(1) True by (simp add: pending_def)
    ultimately show thesis using that(1) B(2) by blast
  next
    case (2 n ws')
    show thesis using B(3) [OF 2(1-3)] 2(2,3,4) that(2) by (auto split: if_splits)
  qed
next
  case False
  then obtain ob obs where r: "r_bufpos c = 0" "r_reply c = ob # obs" using assms(2) by (cases "r_reply c") auto
  note L = send_step_list [OF assms(1) r]
  show thesis
  proof (cases "cont st ob = []")
    case True
    then show thesis using that(3) L(1) by blast
  next
    case ne: False
    show thesis
    proof (rule chunk_write_cases [OF L(2) [OF ne], of c ws], goal_cases)
      case (1 w)
      moreover have "pending c st \<noteq> []" using L(2) [OF ne] r by (auto simp: pending_def)
      ultimately show thesis using that(1) L(3) [OF ne] by blast
    next
      case (2 n ws')
      show thesis using L(4) [OF ne 2(1-3)] 2(2,3,4) that(2) by (auto split: if_splits)
    qed
  qed
qed

declare send_loop.simps [simp del]

lemma send_loop_ok:
  assumes "r_ok ext c st"
  shows "\<exists>out' failed c' st' gone. send_loop limited ws tot out c st = Some (out', failed, c', st') \<and>
    took ext c st gone c' st' \<and> out' = out @ (if r_master c then [] else gone)"
  using assms
proof (induction limited ws tot out c st rule: send_loop.induct)
  case (1 limited ws tot out c st)
  show ?case
  proof (cases "r_bufpos c = 0 \<and> r_reply c = []")
    case True
    then have "took ext c st [] c st" using "1.prems" by (simp add: took_def)
    then show ?thesis using True by (subst send_loop.simps) auto
  next
    case False
    show ?thesis
    proof (rule send_step_cases [OF "1.prems" False, of ws], goal_cases)
      case (1 w)
      have "took ext c st [] c st" using "1.prems" by (simp add: took_def)
      then show ?thesis using 1(1) False by (subst send_loop.simps) auto
    next
      case (2 n gone ws' c' st')
      have ok: "r_ok ext c' st'" "r_master c' = r_master c" using 2(2) by (simp_all add: took_def)
      show ?thesis
      proof (cases "tot + n > REDIS_MAX_WRITE_PER_EVENT \<and> limited")
        case True
        then show ?thesis using 2(1,2) False by (subst send_loop.simps) (auto split: if_splits)
      next
        case go: False
        from "1.IH"(1) [OF False 2(1) refl go ok(1)] obtain out' failed c'' st'' gone' where
          s: "send_loop limited ws' (tot + n) (out @ (if r_master c then [] else gone)) c' st' = Some (out', failed, c'', st'')"
          "took ext c' st' gone' c'' st''" "out' = (out @ (if r_master c then [] else gone)) @ (if r_master c' then [] else gone')" by blast
        have "send_loop limited ws tot out c st = Some (out', failed, c'', st'')"
          using s(1) by (subst send_loop.simps) (simp only: if_not_P [OF False] 2(1) option.case send_next.case if_not_P [OF go])
        moreover have "out' = out @ (if r_master c then [] else gone @ gone')" using s(3) ok(2) by simp
        ultimately show ?thesis using took_trans [OF 2(2) s(2)] by blast
      qed
    next
      case (3 c' st')
      have ok: "r_ok ext c' st'" "r_master c' = r_master c" using 3(2) by (simp_all add: took_def)
      from "1.IH"(2) [OF False 3(1) refl ok(1)] obtain out' failed c'' st'' gone' where
        s: "send_loop limited ws tot out c' st' = Some (out', failed, c'', st'')"
        "took ext c' st' gone' c'' st''" "out' = out @ (if r_master c' then [] else gone')" by blast
      have "send_loop limited ws tot out c st = Some (out', failed, c'', st'')"
        using s(1) by (subst send_loop.simps) (simp only: if_not_P [OF False] 3(1) option.case send_next.case)
      then show ?thesis using took_trans [OF 3(2) s(2)] s(3) ok(2) by auto
    qed
  qed
qed

lemma sendReplyToClient_ok:
  assumes "r_ok ext c st"
  shows "\<exists>out closed c' st' gone. sendReplyToClient limited ws c st = Some (out, closed, c', st') \<and>
    took ext c st gone c' st' \<and> out = (if r_master c then [] else gone)"
proof -
  obtain out failed c1 st1 gone where s: "send_loop limited ws 0 [] c st = Some (out, failed, c1, st1)"
    "took ext c st gone c1 st1" "out = (if r_master c then [] else gone)"
    using send_loop_ok [OF assms, of limited ws 0 "[]"] by auto
  have "took ext c1 st1 [] (c1\<lparr>r_sentlen := 0, r_event := False\<rparr>) st1" if "r_bufpos c1 = 0" "r_reply c1 = []"
    using s(2) that by (auto simp: took_def r_ok_def pending_def)
  then have "took ext c st gone (c1\<lparr>r_sentlen := 0, r_event := False\<rparr>) st1" if "r_bufpos c1 = 0" "r_reply c1 = []"
    using took_trans [OF s(2)] that by fastforce
  then show ?thesis using s by (auto simp: sendReplyToClient_def)
qed

section \<open>The output stream\<close>

text \<open>What commands and the event loop do to the output of a client.\<close>

datatype reply_op = AddObj nat | AddStr "byte list" | AddSds "byte list" | AddLong int | AddCBuf "byte list" | Write bool "write_result list"

fun reply_exec :: "nat \<Rightarrow> nat \<Rightarrow> nat \<Rightarrow> reply_op \<Rightarrow> rclient \<Rightarrow> ostore \<Rightarrow> (byte list \<times> rclient \<times> ostore) option" where
  "reply_exec czero cone crlf_ob (AddObj ob) c st = map_option (\<lambda>(c, st). ([], c, st)) (addReply c st ob)"
| "reply_exec czero cone crlf_ob (AddStr s) c st = map_option (\<lambda>(c, st). ([], c, st)) (addReplyString c st s)"
| "reply_exec czero cone crlf_ob (AddSds s) c st = map_option (\<lambda>(c, st). ([], c, st)) (addReplySds c st s)"
| "reply_exec czero cone crlf_ob (AddLong v) c st = map_option (\<lambda>(c, st). ([], c, st)) (addReplyLongLong czero cone c st v)"
| "reply_exec czero cone crlf_ob (AddCBuf s) c st = map_option (\<lambda>(c, st). ([], c, st)) (addReplyBulkCBuffer crlf_ob c st s)"
| "reply_exec czero cone crlf_ob (Write lim ws) c st =
     map_option (\<lambda>(out, closed, c, st). (out, c, st)) (sendReplyToClient lim ws c st)"

fun reply_run :: "nat \<Rightarrow> nat \<Rightarrow> nat \<Rightarrow> reply_op list \<Rightarrow> rclient \<Rightarrow> ostore \<Rightarrow> (byte list \<times> rclient \<times> ostore) option" where
  "reply_run czero cone crlf_ob [] c st = Some ([], c, st)"
| "reply_run czero cone crlf_ob (op # ops) c st =
     do { (out, c, st) \<leftarrow> reply_exec czero cone crlf_ob op c st;
          (out', c, st) \<leftarrow> reply_run czero cone crlf_ob ops c st;
          Some (out @ out', c, st) }"

text \<open>The protocol bytes of each.\<close>

fun op_text :: "ostore \<Rightarrow> reply_op \<Rightarrow> byte list" where
  "op_text st (AddObj ob) = obj_text st ob"
| "op_text st (AddStr s) = s"
| "op_text st (AddSds s) = s"
| "op_text st (AddLong v) = 58 # dec_repr v @ crlf"
| "op_text st (AddCBuf s) = 36 # dec_repr (int (length s)) @ crlf @ s @ crlf"
| "op_text st (Write _ _) = []"

fun reply_op_ok :: "(nat \<Rightarrow> nat) \<Rightarrow> ostore \<Rightarrow> reply_op \<Rightarrow> bool" where
  "reply_op_ok ext st (AddObj ob) \<longleftrightarrow> replyable ext st ob"
| "reply_op_ok ext st (AddLong v) \<longleftrightarrow> LLONG_MIN < v \<and> v \<le> LLONG_MAX"
| "reply_op_ok ext st (AddCBuf s) \<longleftrightarrow> int (length s) \<le> LLONG_MAX"
| "reply_op_ok ext st _ \<longleftrightarrow> True"

text \<open>The shared objects for the numbers 0 and 1 and the line end.\<close>

definition shared_ok :: "(nat \<Rightarrow> nat) \<Rightarrow> ostore \<Rightarrow> nat \<Rightarrow> nat \<Rightarrow> nat \<Rightarrow> bool" where
  "shared_ok ext st czero cone crlf_ob \<longleftrightarrow>
     replyable ext st czero \<and> obj_text st czero = [58, 48] @ crlf \<and>
     replyable ext st cone \<and> obj_text st cone = [58, 49] @ crlf \<and>
     replyable ext st crlf_ob \<and> obj_text st crlf_ob = crlf"

lemma shared_kept: "kept ext st st' \<Longrightarrow> shared_ok ext st z o1 cr \<Longrightarrow> shared_ok ext st' z o1 cr"
  by (simp add: shared_ok_def kept_replyable)

lemma appended_trans: "appended ext c st a c1 st1 \<Longrightarrow> appended ext c1 st1 b c2 st2 \<Longrightarrow> appended ext c st (a @ b) c2 st2"
  by (auto simp: appended_def intro: kept_trans)

lemma u_addReplyLongLong_ok:
  assumes "r_ok ext c st" and "os_ae st = []" and "\<not> r_close c" and "LLONG_MIN < v" and "v \<le> LLONG_MAX"
  shows "\<exists>c' st'. u_addReplyLongLong c st v p = Some (c', st') \<and> appended ext c st (p # dec_repr v @ crlf) c' st'"
  using addReplyString_ok [OF assms(1-3), of "p # dec_repr v @ crlf"] ll2string_dec_repr [OF assms(4,5), of 127]
    length_dec_repr [OF less_imp_le [OF assms(4)] assms(5)] by (auto simp: u_addReplyLongLong_def)

lemma addReplyBulkCBuffer_ok:
  assumes "r_ok ext c st" and "os_ae st = []" and "\<not> r_close c" and "int (length s) \<le> LLONG_MAX" and "shared_ok ext st z o1 cr"
  shows "\<exists>c' st'. addReplyBulkCBuffer cr c st s = Some (c', st') \<and> appended ext c st (36 # dec_repr (int (length s)) @ crlf @ s @ crlf) c' st'"
proof -
  have "LLONG_MIN < int (length s)" by (simp add: c_limits)
  from u_addReplyLongLong_ok [OF assms(1-3) this assms(4), of 36] obtain c1 st1 where
    1: "u_addReplyLongLong c st (int (length s)) 36 = Some (c1, st1)" "appended ext c st (36 # dec_repr (int (length s)) @ crlf) c1 st1" by blast
  then have a1: "r_ok ext c1 st1" "os_ae st1 = []" "\<not> r_close c1" "kept ext st st1" using assms(2,3) by (simp_all add: appended_def)
  from addReplyString_ok [OF a1(1-3), of s] obtain c2 st2 where
    2: "addReplyString c1 st1 s = Some (c2, st2)" "appended ext c1 st1 s c2 st2" by blast
  then have a2: "r_ok ext c2 st2" "os_ae st2 = []" "\<not> r_close c2" "kept ext st st2"
    using a1 kept_trans [OF a1(4)] by (simp_all add: appended_def)
  have "replyable ext st2 cr" "obj_text st2 cr = crlf" using shared_kept [OF a2(4) assms(5)] by (simp_all add: shared_ok_def)
  with addReply_ok [OF a2(1-3) this(1)] obtain c3 st3 where 3: "addReply c2 st2 cr = Some (c3, st3)" "appended ext c2 st2 crlf c3 st3" by auto
  show ?thesis using 1(1) 2(1) 3(1) appended_trans [OF appended_trans [OF 1(2) 2(2)] 3(2)]
    by (simp add: addReplyBulkCBuffer_def)
qed

lemma addReplyLongLong_ok:
  assumes "r_ok ext c st" and "os_ae st = []" and "\<not> r_close c" and "LLONG_MIN < v" and "v \<le> LLONG_MAX" and "shared_ok ext st z o1 cr"
  shows "\<exists>c' st'. addReplyLongLong z o1 c st v = Some (c', st') \<and> appended ext c st (58 # dec_repr v @ crlf) c' st'"
proof -
  have d: "dec_nat 0 = [48]" "dec_nat 1 = [49]" by (subst dec_nat.simps, simp add: digit_char_def dec_repr_def)+
  have s: "replyable ext st z" "obj_text st z = [58, 48] @ crlf" "replyable ext st o1" "obj_text st o1 = [58, 49] @ crlf"
    using assms(6) by (simp_all add: shared_ok_def)
  show ?thesis
    using addReply_ok [OF assms(1-3) s(1)] addReply_ok [OF assms(1-3) s(3)] u_addReplyLongLong_ok [OF assms(1-5), of 58] s(2,4) d
    by (auto simp: addReplyLongLong_def dec_repr_def)
qed

lemma reply_exec_ok:
  assumes "r_ok ext c st" and "os_ae st = []" and "\<not> r_close c" and "\<not> r_master c" and "reply_op_ok ext st op" and "shared_ok ext st z o1 cr"
  shows "\<exists>out c' st'. reply_exec z o1 cr op c st = Some (out, c', st') \<and> r_ok ext c' st' \<and> kept ext st st' \<and> os_ae st' = [] \<and>
    \<not> r_close c' \<and> \<not> r_master c' \<and> pending c st @ op_text st op = out @ pending c' st'"
proof (cases op)
  case (AddObj ob)
  then show ?thesis using addReply_ok [OF assms(1-3), of ob] assms by (auto simp: appended_def)
next
  case (AddStr s)
  then show ?thesis using addReplyString_ok [OF assms(1-3), of s] assms by (auto simp: appended_def)
next
  case (AddSds s)
  then show ?thesis using addReplyString_ok [OF assms(1-3), of s] assms by (auto simp: appended_def)
next
  case (AddLong v)
  then show ?thesis using addReplyLongLong_ok [OF assms(1-3) _ _ assms(6), of v] assms by (auto simp: appended_def)
next
  case (AddCBuf s)
  then show ?thesis using addReplyBulkCBuffer_ok [OF assms(1-3) _ assms(6), of s] assms by (auto simp: appended_def)
next
  case (Write lim ws)
  then show ?thesis using sendReplyToClient_ok [OF assms(1), of lim ws] assms by (auto simp: took_def)
qed

lemma reply_run_ok:
  assumes "r_ok ext c st" and "os_ae st = []" and "\<not> r_close c" and "\<not> r_master c" and "list_all (reply_op_ok ext st) ops" and "shared_ok ext st z o1 cr"
  shows "\<exists>out c' st'. reply_run z o1 cr ops c st = Some (out, c', st') \<and> r_ok ext c' st' \<and> kept ext st st' \<and>
    pending c st @ concat (map (op_text st) ops) = out @ pending c' st'"
  using assms
proof (induction ops arbitrary: c st)
  case (Cons op ops)
  obtain out c1 st1 where 1: "reply_exec z o1 cr op c st = Some (out, c1, st1)" "r_ok ext c1 st1" "kept ext st st1" "os_ae st1 = []"
    "\<not> r_close c1" "\<not> r_master c1" "pending c st @ op_text st op = out @ pending c1 st1"
    using reply_exec_ok [OF Cons.prems(1-4) _ Cons.prems(6), of op] Cons.prems(5) by auto
  have t: "reply_op_ok ext st1 x \<and> op_text st1 x = op_text st x" if "reply_op_ok ext st x" for x
    using that kept_replyable [OF 1(3)] by (cases x) auto
  have "list_all (reply_op_ok ext st1) ops" using Cons.prems(5) t by (auto simp: list_all_iff)
  from Cons.IH [OF 1(2,4-6) this shared_kept [OF 1(3) Cons.prems(6)]] obtain out' c2 st2 where
    2: "reply_run z o1 cr ops c1 st1 = Some (out', c2, st2)" "r_ok ext c2 st2" "kept ext st1 st2"
    "pending c1 st1 @ concat (map (op_text st1) ops) = out' @ pending c2 st2" by blast
  have m: "map (op_text st1) ops = map (op_text st) ops" using Cons.prems(5) t by (auto simp: list_all_iff)
  have "pending c st @ concat (map (op_text st) (op # ops)) = (out @ out') @ pending c2 st2"
    using arg_cong [OF 1(7), of "\<lambda>x. x @ concat (map (op_text st) ops)"] 2(4) unfolding m by simp
  then show ?case using 1(1) 2(1,2) kept_trans [OF 1(3) 2(3)] by auto
qed auto

text \<open>C15: Through any interleaving of replies and socket writes, however short, the bytes the
  peer is sent followed by those still queued are the queued bytes and then the replies, in
  order; objects that others hold keep their contents; and the invariant holds again: reference
  counts are exact and, while bytes are queued, the write event is registered.\<close>

theorem reply_stream:
  assumes "r_ok ext c st" and "os_ae st = []" and "\<not> r_close c" and "\<not> r_master c" and "list_all (reply_op_ok ext st) ops"
    and "shared_ok ext st czero cone crlf_ob"
  shows "\<exists>out c' st'. reply_run czero cone crlf_ob ops c st = Some (out, c', st') \<and>
    out @ pending c' st' = pending c st @ concat (map (op_text st) ops) \<and> r_ok ext c' st' \<and> kept ext st st'"
  using reply_run_ok [OF assms] by (metis (no_types, lifting))

text \<open>A connection with nothing queued, as \<^verbatim>\<open>createClient\<close> makes it, and a store with the shared
  objects of a line end and the numbers 0 and 1.\<close>

definition idle_client :: rclient where
  "idle_client = \<lparr>r_fd = 5, r_replstate = REDIS_REPL_NONE, r_close = False, r_master = False,
     r_buf = replicate REDIS_REPLY_CHUNK_BYTES 0, r_bufpos = 0, r_reply = [], r_sentlen = 0, r_event = False\<rparr>"

definition shared_store :: ostore where
  "shared_store = \<lparr>os_cells = [0 \<mapsto> \<lparr>cell_ptr = CSds [58, 48, 13, 10], cell_refs = 1\<rparr>,
     1 \<mapsto> \<lparr>cell_ptr = CSds [58, 49, 13, 10], cell_refs = 1\<rparr>, 2 \<mapsto> \<lparr>cell_ptr = CSds [13, 10], cell_refs = 1\<rparr>],
     os_fresh = 3, os_ae = []\<rparr>"

definition held :: "nat \<Rightarrow> nat" where
  "held ob = (if ob < 3 then 1 else 0)"

lemma idle_ok: "r_ok held idle_client shared_store" "shared_ok held shared_store 0 1 2" "os_ae shared_store = []"
  "\<not> r_close idle_client" "\<not> r_master idle_client" "pending idle_client shared_store = []"
  by (auto simp: r_ok_def idle_client_def refs_ok_def shared_store_def cell_count_def held_def shared_ok_def replyable_def
    obj_text_def crlf_def pending_def)

lemma reply_stream_witness:
  "\<exists>out c' st'. reply_run 0 1 2 [AddStr [43, 79, 75], Write False [Room 2], AddObj 2, AddLong 1, Write True [Room 3, Again]] idle_client shared_store
     = Some (out, c', st') \<and> out @ pending c' st' = [43, 79, 75, 13, 10, 58, 49, 13, 10]"
proof -
  let ?ops = "[AddStr [43, 79, 75], Write False [Room 2], AddObj 2, AddLong 1, Write True [Room 3, Again]]"
  have "list_all (reply_op_ok held shared_store) ?ops" using idle_ok(2) by (simp add: shared_ok_def c_limits)
  moreover have "obj_text shared_store 2 = [13, 10]" "dec_repr 1 = [49]"
    by (simp add: shared_store_def obj_text_def, simp add: dec_repr_def, subst dec_nat.simps, simp add: digit_char_def)
  ultimately show ?thesis
    using reply_stream [OF idle_ok(1,3,4,5) _ idle_ok(2), of ?ops] idle_ok(6) by (auto simp: crlf_def)
qed

section \<open>Everything queued is sent\<close>

text \<open>An event at which the socket takes at least one byte and no call fails: the loop sends something or has nothing left.\<close>

lemma send_loop_progress:
  assumes "r_ok ext c st" and "\<not> r_master c" and "Failed \<notin> set ws" and "send_loop limited ws tot out c st = Some (out', failed, c', st')"
  shows "\<not> failed \<and> ((\<exists>k ws0. ws = Room (Suc k) # ws0) \<longrightarrow> (r_bufpos c' = 0 \<and> r_reply c' = []) \<or> length out < length out')"
  using assms
proof (induction limited ws tot out c st rule: send_loop.induct)
  case (1 limited ws tot out c st)
  show ?case
  proof (cases "r_bufpos c = 0 \<and> r_reply c = []")
    case True
    then show ?thesis using "1.prems"(4) by (subst (asm) send_loop.simps) auto
  next
    case False
    show ?thesis
    proof (rule send_step_cases [OF "1.prems"(1) False, of ws], goal_cases)
      case (1 w)
      then have "w \<noteq> Failed" using "1.prems"(3) by (metis list.set_sel(1))
      then show ?thesis using "1.prems"(4) 1(1,5,6) False by (subst (asm) send_loop.simps) auto
    next
      case (2 n gone ws' c1 st1)
      have ok: "r_ok ext c1 st1" "r_master c1 = r_master c" using 2(2) by (simp_all add: took_def)
      have f: "Failed \<notin> set ws'" using 2(4) "1.prems"(2,3) by auto
      show ?thesis
      proof (cases "tot + n > REDIS_MAX_WRITE_PER_EVENT \<and> limited")
        case True
        then show ?thesis using "1.prems"(2,4) 2(1,3) False by (subst (asm) send_loop.simps) auto
      next
        case go: False
        have s: "send_loop limited ws' (tot + n) (out @ gone) c1 st1 = Some (out', failed, c', st')"
          using "1.prems"(2,4) by (subst (asm) send_loop.simps) (simp only: if_not_P [OF False] 2(1) option.case send_next.case if_not_P [OF go] if_False)
        have "\<not> r_master c1" using ok(2) "1.prems"(2) by simp
        from "1.IH"(1) [OF False 2(1) refl go ok(1) this f] s "1.prems"(2) have "\<not> failed" by simp
        moreover have "length (out @ gone) \<le> length out'" using send_loop_ok [OF ok(1), of limited ws' "tot + n" "out @ gone"] s by auto
        ultimately show ?thesis using 2(3) by (cases gone) auto
      qed
    next
      case (3 c1 st1)
      have ok: "r_ok ext c1 st1" "\<not> r_master c1" using 3(2) "1.prems"(2) by (simp_all add: took_def)
      have "send_loop limited ws tot out c1 st1 = Some (out', failed, c', st')"
        using "1.prems"(4) by (subst (asm) send_loop.simps) (simp only: if_not_P [OF False] 3(1) option.case send_next.case)
      then show ?thesis using "1.IH"(2) [OF False 3(1) refl ok "1.prems"(3)] by blast
    qed
  qed
qed

text \<open>What the event loop does with a client whose write event is registered: at each event it calls the handler, with what the
  socket takes then, until the event is removed or the connection closed.\<close>

fun write_events :: "(bool \<times> write_result list) list \<Rightarrow> rclient \<Rightarrow> ostore \<Rightarrow> (byte list \<times> bool \<times> rclient \<times> ostore) option" where
  "write_events [] c st = Some ([], False, c, st)"
| "write_events ((limited, ws) # es) c st =
     do { (out, closed, c, st) \<leftarrow> sendReplyToClient limited ws c st;
          if closed \<or> \<not> r_event c then Some (out, closed, c, st)
          else do { (out', closed, c, st) \<leftarrow> write_events es c st; Some (out @ out', closed, c, st) } }"

definition writable :: "write_result list \<Rightarrow> bool" where
  "writable ws \<longleftrightarrow> (case ws of Room (Suc k) # _ \<Rightarrow> True | _ \<Rightarrow> False) \<and> Failed \<notin> set ws"

lemma send_event:
  assumes ok: "r_ok ext c st" and m: "\<not> r_master c" and w: "writable ws"
  obtains c' st' where "sendReplyToClient limited ws c st = Some (pending c st, r_close c, c', st')" "pending c' st' = []" "\<not> r_event c'"
    | gone c' st' where "sendReplyToClient limited ws c st = Some (gone, False, c', st')" "took ext c st gone c' st'" "gone \<noteq> []" "r_event c'"
proof -
  obtain out failed c1 st1 gone where s: "send_loop limited ws 0 [] c st = Some (out, failed, c1, st1)" "took ext c st gone c1 st1" "out = gone"
    using send_loop_ok [OF ok, of limited ws 0 "[]"] m by auto
  obtain k ws0 where ws: "ws = Room (Suc k) # ws0" "Failed \<notin> set ws"
    using w by (auto simp: writable_def split: list.splits write_result.splits nat.splits)
  have p: "\<not> failed" "(r_bufpos c1 = 0 \<and> r_reply c1 = []) \<or> gone \<noteq> []"
    using send_loop_progress [OF ok m ws(2) s(1)] ws(1) s(3) by auto
  show thesis
  proof (cases "r_bufpos c1 = 0 \<and> r_reply c1 = []")
    case True
    then have "pending c st = gone" "r_close c1 = r_close c" using s(2) by (auto simp: took_def pending_def r_ok_def)
    then show thesis using that(1) s(1,3) p(1) True by (simp add: sendReplyToClient_def pending_def)
  next
    case False
    then have "r_event c1" using s(2) by (auto simp: took_def r_ok_def)
    then show thesis using that(2) s p False by (auto simp: sendReplyToClient_def)
  qed
qed

text \<open>C16: However few bytes the socket takes at a write event, and although the handler stops after \<^verbatim>\<open>REDIS_MAX_WRITE_PER_EVENT\<close>
  bytes (unless the memory limit is exceeded), more write events than bytes are queued send all of them in order and
  nothing else; then the event is removed, and the connection closed exactly when that was asked for. The client is not
  our master (which is sent nothing), the socket takes at least one byte at each event, and no write fails.\<close>

theorem sendReplyToClient_drains:
  assumes "r_ok ext c st" and "\<not> r_master c" and "\<forall>(limited, ws) \<in> set es. writable ws" and "length (pending c st) < length es"
  shows "\<exists>c' st'. write_events es c st = Some (pending c st, r_close c, c', st') \<and> pending c' st' = [] \<and> \<not> r_event c'"
  using assms
proof (induction es arbitrary: c st)
  case (Cons e es)
  obtain limited ws where e: "e = (limited, ws)" by (cases e)
  then have w: "writable ws" using Cons.prems(3) by simp
  show ?case
  proof (rule send_event [OF Cons.prems(1,2) w, of limited], goal_cases)
    case (1 c' st')
    then show ?thesis by (simp add: e)
  next
    case (2 gone c' st')
    have ok: "r_ok ext c' st'" "\<not> r_master c'" "r_close c' = r_close c" "pending c st = gone @ pending c' st'"
      using 2(2) Cons.prems(2) by (simp_all add: took_def)
    have "length (pending c' st') < length es" using ok(4) 2(3) Cons.prems(4) by (cases gone) auto
    then obtain c2 st2 where "write_events es c' st' = Some (pending c' st', r_close c', c2, st2)" "pending c2 st2 = []" "\<not> r_event c2"
      using Cons.IH [OF ok(1,2)] Cons.prems(3) by auto
    then show ?thesis using 2(1,4) ok(3,4) by (simp add: e)
  qed
qed simp

text \<open>The buffer holds three bytes and the list twice an object of 70000: although the socket takes all that is offered,
  the handler stops after the first object.\<close>

lemma writable_Room: "0 < n \<Longrightarrow> Failed \<notin> set ws \<Longrightarrow> writable (Room n # ws)"
  by (cases n) (simp_all add: writable_def)

lemma ex_length: "\<exists>xs :: byte list. length xs = n"
  by (rule exI [of _ "replicate n 0"]) simp

lemma sendReplyToClient_drains_witness:
  "\<exists>big c' st'. length big = 70000 \<and> write_events (replicate 140004 (True, [Room 3, Room 70000, Room 70000]))
     (idle_client\<lparr>r_buf := [1, 2, 3] @ replicate 7497 0, r_bufpos := 3, r_reply := [2, 2], r_event := True, r_close := True\<rparr>)
     (shared_store\<lparr>os_cells := (os_cells shared_store)(2 \<mapsto> \<lparr>cell_ptr = CSds big, cell_refs = 3\<rparr>)\<rparr>) =
       Some ([1, 2, 3] @ big @ big, True, c', st') \<and> pending c' st' = [] \<and> \<not> r_event c'"
proof -
  define es :: "(bool \<times> write_result list) list" where "es = replicate 140004 (True, [Room 3, Room 70000, Room 70000])"
  have es: "length es = 140004" "set es = {(True, [Room 3, Room 70000, Room 70000])}"
    unfolding es_def by (rule length_replicate, rule set_replicate) simp
  obtain big :: "byte list" where big: "length big = 70000" using ex_length by blast
  let ?c = "idle_client\<lparr>r_buf := [1, 2, 3] @ replicate 7497 0, r_bufpos := 3, r_reply := [2, 2], r_event := True, r_close := True\<rparr>"
  let ?st = "shared_store\<lparr>os_cells := (os_cells shared_store)(2 \<mapsto> \<lparr>cell_ptr = CSds big, cell_refs = 3\<rparr>)\<rparr>"
  have r: "r_ok held ?c ?st"
    using idle_ok(1) by (auto simp: r_ok_def idle_client_def REDIS_REPLY_CHUNK_BYTES_def refs_ok_def shared_store_def cell_count_def held_def
      cell_sds_def split: if_splits)
  have p: "pending ?c ?st = [1, 2, 3] @ big @ big" "\<not> r_master ?c" "r_close ?c = True"
    by (simp_all add: pending_def idle_client_def conts_def cont_def cell_sds_def)
  have w: "\<forall>(limited, ws) \<in> set es. writable ws" unfolding es(2) using writable_Room by simp
  have l: "length (pending ?c ?st) < length es" unfolding p(1) length_append big es(1) by simp
  show ?thesis using sendReplyToClient_drains [OF r p(2) w l] big unfolding p(1,3) es_def by blast
qed

end
