(* ===== verification/Protocol.thy ===== *)
theory Protocol
  imports SdsText
begin

text \<open>
  Model of the input side of a client connection,
  \<^verbatim>\<open>src/webserver/redis/src/networking.c\<close>: reading from the socket into the query buffer, and
  the two request parsers, which are resumed when more bytes come.

  The query buffer is an sds, as modelled in \<open>Sds\<close>; what the parsers read of it is checked
  against its block, its final NUL included. The arguments of a request are raw string
  objects, of which the model keeps the contents. The replies of a client are the stream of
  bytes queued for it, which \<open>ReplySpec\<close> shows the reply functions to maintain. Executing a
  command is a parameter: it is given the client and the rest of the server's state.
\<close>

section \<open>The client\<close>

datatype reqtype = ReqNone | ReqInline | ReqMultibulk

datatype client_flag = REDIS_SLAVE | REDIS_MASTER | REDIS_MONITOR | REDIS_MULTI | REDIS_BLOCKED
  | REDIS_IO_WAIT | REDIS_DIRTY_CAS | REDIS_CLOSE_AFTER_REPLY | REDIS_UNBLOCKED

record pclient =
  p_querybuf :: sds
  p_argv :: "byte list list"
  p_reqtype :: reqtype
  p_multibulklen :: int
  p_bulklen :: int
  p_flags :: "client_flag set"
  p_out :: "byte list"

definition REDIS_INLINE_MAX_SIZE :: nat where "REDIS_INLINE_MAX_SIZE = 1024 * 64"
definition REDIS_IOBUF_LEN :: nat where "REDIS_IOBUF_LEN = 1024 * 16"

definition ascii_text :: "string \<Rightarrow> byte list" where
  "ascii_text = map of_char"

definition queue_reply :: "byte list \<Rightarrow> 'a pclient_scheme \<Rightarrow> 'a pclient_scheme" where
  "queue_reply s c = (if REDIS_CLOSE_AFTER_REPLY \<in> p_flags c then c else c\<lparr>p_out := p_out c @ s\<rparr>)"

definition queue_error :: "byte list \<Rightarrow> 'a pclient_scheme \<Rightarrow> 'a pclient_scheme" where
  "queue_error s = queue_reply (ascii_text ''-ERR '' @ s @ [13, 10])"

section \<open>Searching the buffer\<close>

text \<open>\<^verbatim>\<open>strchr (s, '\r')\<close> and \<^verbatim>\<open>strstr (s, "\r\n")\<close>: the offset found, \<open>None\<close> inside \<open>Some\<close> when
  the string ends first, and no result when no NUL is left in the block.\<close>

fun strchr_cr :: "byte list \<Rightarrow> nat option option" where
  "strchr_cr [] = None"
| "strchr_cr (c # s) =
     (if c = 13 then Some (Some 0)
      else if c = 0 then Some None
      else map_option (map_option Suc) (strchr_cr s))"

fun strstr_crlf :: "byte list \<Rightarrow> nat option option" where
  "strstr_crlf [] = None"
| "strstr_crlf (c # s) =
     (if c = 0 then Some None
      else if c = 13 \<and> s \<noteq> [] \<and> hd s = 10 then Some (Some 0)
      else map_option (map_option Suc) (strstr_crlf s))"

section \<open>The parsers\<close>

definition resetClient :: "'a pclient_scheme \<Rightarrow> 'a pclient_scheme" where
  "resetClient c = c\<lparr>p_argv := [], p_reqtype := ReqNone, p_multibulklen := 0, p_bulklen := -1\<rparr>"

definition setProtocolError :: "'a pclient_scheme \<Rightarrow> nat \<Rightarrow> 'a pclient_scheme option" where
  "setProtocolError c pos =
     do { q \<leftarrow> sdsrange (p_querybuf c) (int pos) (-1);
          Some (c\<lparr>p_flags := insert REDIS_CLOSE_AFTER_REPLY (p_flags c), p_querybuf := q\<rparr>) }"

text \<open>The parsers return whether a request is ready (\<^verbatim>\<open>REDIS_OK\<close>).\<close>

definition processInlineBuffer :: "'a pclient_scheme \<Rightarrow> (bool \<times> 'a pclient_scheme) option" where
  "processInlineBuffer c =
     do { nl \<leftarrow> strstr_crlf (sds_buf (p_querybuf c));
          case nl of
            None \<Rightarrow>
              if sds_len (p_querybuf c) > REDIS_INLINE_MAX_SIZE then
                do { c \<leftarrow> setProtocolError (queue_error (ascii_text ''Protocol error: too big inline request'') c) 0;
                     Some (False, c) }
              else Some (False, c)
          | Some querylen \<Rightarrow>
              do { toks \<leftarrow> sdssplitlen (sds_buf (p_querybuf c)) (int querylen) [32] 1;
                   argv \<leftarrow> toks;
                   q \<leftarrow> sdsrange (p_querybuf c) (int querylen + 2) (-1);
                   Some (True, c\<lparr>p_querybuf := q, p_argv := map sds_str (filter (\<lambda>t. sds_len t \<noteq> 0) argv)\<rparr>) } }"

text \<open>The number after the marker at \<open>pos\<close>, up to \<open>newline\<close>.\<close>

definition read_number :: "sds \<Rightarrow> nat \<Rightarrow> nat \<Rightarrow> int option option" where
  "read_number q pos newline = map_option string2ll (mem_read (sds_buf q) (pos + 1) (newline - (pos + 1)))"

text \<open>Reading the length of the next argument. The outcomes: a \<^verbatim>\<open>return\<close> with an error, a
  \<^verbatim>\<open>break\<close> of the loop, or going on behind the line.\<close>

datatype 'c bulk_next = Return 'c | Break 'c | Go 'c nat

definition bulk_header :: "'a pclient_scheme \<Rightarrow> nat \<Rightarrow> 'a pclient_scheme bulk_next option" where
  "bulk_header c pos =
     do { let q = p_querybuf c in
          do { nl \<leftarrow> strchr_cr (drop pos (sds_buf q));
               case nl of
                 None \<Rightarrow>
                   if sds_len q > REDIS_INLINE_MAX_SIZE then
                     map_option Break (setProtocolError (queue_error (ascii_text ''Protocol error: too big bulk count string'') c) 0)
                   else Some (Break c)
               | Some k \<Rightarrow>
                   (let newline = pos + k in
                    if int newline > int (sds_len q) - 2 then Some (Break c)
                    else do { ch \<leftarrow> mem_byte (sds_buf q) pos;
                      if ch \<noteq> 36 then
                        map_option Return (setProtocolError
                          (queue_error (ascii_text ''Protocol error: expected '' @ [39, 36, 39] @ ascii_text '', got '' @ [39, ch, 39]) c) pos)
                      else do { ll \<leftarrow> read_number q pos newline;
                        case ll of
                          Some v \<Rightarrow>
                            if v < 0 \<or> v > 512 * 1024 * 1024 then
                              map_option Return (setProtocolError (queue_error (ascii_text ''Protocol error: invalid bulk length'') c) pos)
                            else Some (Go (c\<lparr>p_bulklen := v\<rparr>) (newline + 2))
                        | None \<Rightarrow>
                            map_option Return (setProtocolError (queue_error (ascii_text ''Protocol error: invalid bulk length'') c) pos) } }) } }"

text \<open>One pass of the loop: reading the length of the argument when unknown, then the argument.
  Unsigned arithmetic in the length test: the position is at most the length, and the bulk
  length is small.\<close>

datatype 'c bulk_pass = Returned 'c | Broke 'c nat | Passed 'c nat

definition bulk_pass :: "'a pclient_scheme \<Rightarrow> nat \<Rightarrow> 'a pclient_scheme bulk_pass option" where
  "bulk_pass c pos =
     do { h \<leftarrow> (if p_bulklen c = -1 then bulk_header c pos else Some (Go c pos));
          case h of
            Return c \<Rightarrow> Some (Returned c)
          | Break c \<Rightarrow> Some (Broke c pos)
          | Go c pos \<Rightarrow>
              do { require (pos \<le> sds_len (p_querybuf c) \<and> 0 \<le> p_bulklen c);
                   if int (sds_len (p_querybuf c) - pos) < p_bulklen c + 2 then Some (Broke c pos)
                   else do { arg \<leftarrow> mem_read (sds_buf (p_querybuf c)) pos (nat (p_bulklen c));
                             Some (Passed (c\<lparr>p_argv := p_argv c @ [arg], p_bulklen := -1,
                                             p_multibulklen := p_multibulklen c - 1\<rparr>)
                                    (pos + nat (p_bulklen c) + 2)) } } }"

lemma setProtocolError_multibulklen: "setProtocolError c pos = Some c' \<Longrightarrow> p_multibulklen c' = p_multibulklen c"
  by (auto simp: setProtocolError_def elim!: bindE)

lemma bulk_header_multibulklen: "bulk_header c pos = Some (Go c' pos') \<Longrightarrow> p_multibulklen c' = p_multibulklen c"
  by (auto simp: bulk_header_def Let_def elim!: bindE split: option.splits if_splits)

lemma bulk_pass_multibulklen: "bulk_pass c pos = Some (Passed c' pos') \<Longrightarrow> p_multibulklen c' = p_multibulklen c - 1"
  by (auto simp: bulk_pass_def elim!: bindE split: bulk_next.splits if_splits dest!: bulk_header_multibulklen)

text \<open>The loop: the client when the function has returned, or the client and the position.\<close>

function bulk_loop :: "'a pclient_scheme \<Rightarrow> nat \<Rightarrow> ('a pclient_scheme + 'a pclient_scheme \<times> nat) option" where
  "bulk_loop c pos =
     (if p_multibulklen c = 0 then Some (Inr (c, pos))
      else if p_multibulklen c < 0 then None
      else case bulk_pass c pos of
        None \<Rightarrow> None
      | Some (Returned c) \<Rightarrow> Some (Inl c)
      | Some (Broke c pos) \<Rightarrow> Some (Inr (c, pos))
      | Some (Passed c pos) \<Rightarrow> bulk_loop c pos)"
  by pat_completeness auto
termination
  by (relation "measure (\<lambda>(c, pos). nat (p_multibulklen c))") (auto dest: bulk_pass_multibulklen)

text \<open>Reading the number of arguments, when it is not known yet.\<close>

datatype 'c count_next = CReturn bool 'c | CGo 'c nat

definition multibulk_count :: "'a pclient_scheme \<Rightarrow> 'a pclient_scheme count_next option" where
  "multibulk_count c =
     do { require (p_argv c = []);
          nl \<leftarrow> strchr_cr (sds_buf (p_querybuf c));
          case nl of
            None \<Rightarrow>
              if sds_len (p_querybuf c) > REDIS_INLINE_MAX_SIZE then
                map_option (CReturn False)
                  (setProtocolError (queue_error (ascii_text ''Protocol error: too big mbulk count string'') c) 0)
              else Some (CReturn False c)
          | Some newline \<Rightarrow>
              if int newline > int (sds_len (p_querybuf c)) - 2 then Some (CReturn False c)
              else do { ch \<leftarrow> mem_byte (sds_buf (p_querybuf c)) 0;
                        require (ch = 42);
                        ll \<leftarrow> read_number (p_querybuf c) 0 newline;
                        case ll of
                          None \<Rightarrow> map_option (CReturn False)
                            (setProtocolError (queue_error (ascii_text ''Protocol error: invalid multibulk length'') c) 0)
                        | Some v \<Rightarrow>
                            if v > 1024 * 1024 then map_option (CReturn False)
                              (setProtocolError (queue_error (ascii_text ''Protocol error: invalid multibulk length'') c) 0)
                            else if v \<le> 0 then
                              do { q \<leftarrow> sdsrange (p_querybuf c) (int newline + 2) (-1);
                                   Some (CReturn True (c\<lparr>p_querybuf := q\<rparr>)) }
                            else Some (CGo (c\<lparr>p_multibulklen := v\<rparr>) (newline + 2)) } }"

definition processMultibulkBuffer :: "'a pclient_scheme \<Rightarrow> (bool \<times> 'a pclient_scheme) option" where
  "processMultibulkBuffer c =
     do { m \<leftarrow> (if p_multibulklen c = 0 then multibulk_count c else Some (CGo c 0));
          case m of
            CReturn ok c \<Rightarrow> Some (ok, c)
          | CGo c pos \<Rightarrow>
              do { require (p_multibulklen c > 0);
                   r \<leftarrow> bulk_loop c pos;
                   case r of
                     Inl c \<Rightarrow> Some (False, c)
                   | Inr (c, pos) \<Rightarrow>
                       do { q \<leftarrow> sdsrange (p_querybuf c) (int pos) (-1);
                            Some (p_multibulklen c = 0, c\<lparr>p_querybuf := q\<rparr>) } } }"

section \<open>Requests to commands\<close>

text \<open>\<open>processCommand\<close> returns whether the client is to be reset. What it leaves in the query
  buffer decides whether the loop ends, so the loop is a partial function.\<close>

definition request_type :: "'a pclient_scheme \<Rightarrow> 'a pclient_scheme option" where
  "request_type c =
     (if p_reqtype c = ReqNone then
        do { ch \<leftarrow> mem_byte (sds_buf (p_querybuf c)) 0;
             Some (c\<lparr>p_reqtype := (if ch = 42 then ReqMultibulk else ReqInline)\<rparr>) }
      else Some c)"

partial_function (option) processInputBuffer ::
  "('a pclient_scheme \<Rightarrow> 's \<Rightarrow> (bool \<times> 'a pclient_scheme \<times> 's) option) \<Rightarrow> 'a pclient_scheme \<Rightarrow> 's \<Rightarrow>
     ('a pclient_scheme \<times> 's) option" where
  [code]: "processInputBuffer processCommand c s =
     (if sds_len (p_querybuf c) = 0 then Some (c, s)
      else if REDIS_BLOCKED \<in> p_flags c \<or> REDIS_IO_WAIT \<in> p_flags c then Some (c, s)
      else if REDIS_CLOSE_AFTER_REPLY \<in> p_flags c then Some (c, s)
      else do {
        c \<leftarrow> request_type c;
        (ok, c) \<leftarrow> (if p_reqtype c = ReqInline then processInlineBuffer c else processMultibulkBuffer c);
        if \<not> ok then Some (c, s)
        else if p_argv c = [] then processInputBuffer processCommand (resetClient c) s
        else do {
          (ok, c, s) \<leftarrow> processCommand c s;
          processInputBuffer processCommand (if ok then resetClient c else c) s } })"

text \<open>What \<^verbatim>\<open>read\<close> on the socket gives, and the result: \<open>None\<close> inside \<open>Some\<close> when the client
  was freed.\<close>

datatype read_result = ReadData "byte list" | ReadEOF | ReadAgain | ReadError

definition readQueryFromClient ::
  "nat \<Rightarrow> ('a pclient_scheme \<Rightarrow> 's \<Rightarrow> (bool \<times> 'a pclient_scheme \<times> 's) option) \<Rightarrow> read_result \<Rightarrow> 'a pclient_scheme \<Rightarrow> 's \<Rightarrow>
     ('a pclient_scheme option \<times> 's) option" where
  "readQueryFromClient client_max_querybuf_len processCommand r c s =
     (case r of
        ReadError \<Rightarrow> Some (None, s)
      | ReadEOF \<Rightarrow> Some (None, s)
      | ReadAgain \<Rightarrow> Some (Some c, s)
      | ReadData buf \<Rightarrow>
          do { require (0 < length buf \<and> length buf \<le> REDIS_IOBUF_LEN);
               q \<leftarrow> sdscatlen (p_querybuf c) buf (length buf);
               if sds_len q > client_max_querybuf_len then Some (None, s)
               else do { (c, s) \<leftarrow> processInputBuffer processCommand (c\<lparr>p_querybuf := q\<rparr>) s; Some (Some c, s) } })"

end
