(* ===== verification/ProtocolSpec.thy ===== *)
theory ProtocolSpec
  imports Protocol
begin

text \<open>
  The request parser as the inverse of the encoding of requests: whatever the pieces in which
  the bytes of a sequence of requests arrive, the commands executed are those requests. One
  size limit is checked against more than it should be, which the last section shows.
\<close>

section \<open>Requests as clients send them\<close>

definition crlf_bytes :: "byte list" where "crlf_bytes = [13, 10]"

definition enc_arg :: "byte list \<Rightarrow> byte list" where
  "enc_arg a = 36 # dec_nat (length a) @ crlf_bytes @ a @ crlf_bytes"

definition enc_args :: "byte list list \<Rightarrow> byte list" where
  "enc_args as = concat (map enc_arg as)"

definition enc_cmd :: "byte list list \<Rightarrow> byte list" where
  "enc_cmd as = 42 # dec_nat (length as) @ crlf_bytes @ enc_args as"

definition enc_cmds :: "byte list list list \<Rightarrow> byte list" where
  "enc_cmds cs = concat (map enc_cmd cs)"

definition request_ok :: "byte list list \<Rightarrow> bool" where
  "request_ok as \<longleftrightarrow> as \<noteq> [] \<and> length (enc_cmd as) \<le> REDIS_INLINE_MAX_SIZE"

text \<open>What is still to come of a request, when its arguments from \<open>as\<close> on are missing and the
  length of the next one has been read or not.\<close>

fun need :: "int \<Rightarrow> byte list list \<Rightarrow> byte list" where
  "need bl [] = []"
| "need bl (a # as) = (if bl = -1 then enc_arg a else a @ crlf_bytes) @ enc_args as"

lemma enc_simps [simp]:
  "enc_args [] = []" "enc_args (a # as) = enc_arg a @ enc_args as" "enc_cmds [] = []" "enc_cmds (c # cs) = enc_cmd c @ enc_cmds cs"
  by (simp_all add: enc_args_def enc_cmds_def)

lemma need_args: "need (-1) as = enc_args as"
  by (cases as) auto

lemma enc_args_append: "enc_args (as @ bs) = enc_args as @ enc_args bs"
  by (simp add: enc_args_def)

lemma length_need_le: "length (need bl as) \<le> length (enc_args as)"
  by (cases as) (auto simp: enc_arg_def)

lemma length_enc_arg: "length a \<le> length (enc_arg a)"
  by (simp add: enc_arg_def)

lemma dec_nat_plain: "c \<in> set (dec_nat n) \<Longrightarrow> c \<noteq> 13 \<and> c \<noteq> 0"
  using dec_nat_digits [of n] by (auto simp: list_all_iff isdigit_def)

lemma string2ll_dec_nat: "n \<le> 2 ^ 62 \<Longrightarrow> string2ll (dec_nat n) = Some (int n)"
  using string2ll_dec_repr [of "dec_repr (int n)" "int n"] by (simp add: dec_repr_def c_limits)

section \<open>Lines of the query buffer\<close>

lemma strchr_cr_found: "\<forall>c \<in> set ds. c \<noteq> 13 \<and> c \<noteq> 0 \<Longrightarrow> strchr_cr (ds @ 13 # y) = Some (Some (length ds))"
  by (induction ds) auto

lemma strchr_cr_end: "\<forall>c \<in> set ds. c \<noteq> 13 \<and> c \<noteq> 0 \<Longrightarrow> strchr_cr (ds @ 0 # y) = Some None"
  by (induction ds) auto

lemma prefix_split: "x @ fut = l @ z \<Longrightarrow> length x \<le> length l \<Longrightarrow> \<exists>u. l = x @ u \<and> fut = u @ z"
  by (auto simp: append_eq_append_conv2)

text \<open>The part \<open>x\<close> of a line \<open>h\<close>, digits, line end that has arrived.\<close>

lemma line_cases:
  assumes "x @ fut = h # dec_nat n @ crlf_bytes @ y" and "h \<noteq> 13" and "h \<noteq> 0"
  obtains "strchr_cr (x @ 0 # r) = Some None" "length x \<le> length (dec_nat n) + 1"
    | "strchr_cr (x @ 0 # r) = Some (Some (length (dec_nat n) + 1))" "length x = length (dec_nat n) + 2"
    | x' where "strchr_cr (x @ 0 # r) = Some (Some (length (dec_nat n) + 1))" "x = h # dec_nat n @ crlf_bytes @ x'" "x' @ fut = y"
proof -
  let ?l = "h # dec_nat n"
  have p: "\<forall>c \<in> set ?l. c \<noteq> 13 \<and> c \<noteq> 0" using assms(2,3) dec_nat_plain by auto
  have e: "x @ fut = ?l @ 13 # 10 # y" using assms(1) by (simp add: crlf_bytes_def)
  consider "length x \<le> length ?l" | "length x = length ?l + 1" | "length ?l + 2 \<le> length x" by linarith
  then show thesis
  proof cases
    case 1
    have l: "length x \<le> length (dec_nat n) + 1" using 1 by simp
    obtain z where "?l = x @ z" "fut = z @ 13 # 10 # y" using prefix_split [OF e 1] by blast
    moreover from this p have "strchr_cr (x @ 0 # r) = Some None" by (intro strchr_cr_end) auto
    ultimately show thesis using l by (intro that(1)) blast+
  next
    case 2
    then have x: "x = ?l @ [13]" "fut = 10 # y" using e append_eq_append_conv [of x "?l @ [13]" fut "10 # y"] by simp_all
    then have "strchr_cr (x @ 0 # r) = Some (Some (length ?l))" using strchr_cr_found [OF p, of "0 # r"] by simp
    then show thesis using that(2) x by simp
  next
    case 3
    then obtain x' where x: "x = (?l @ [13, 10]) @ x'" "x' @ fut = y"
      using prefix_split [of "?l @ [13, 10]" y x fut] e 3 by auto
    then have "strchr_cr (x @ 0 # r) = Some (Some (length ?l))" using strchr_cr_found [OF p, of "10 # x' @ 0 # r"] by simp
    then show thesis using that(3) x by (simp add: crlf_bytes_def)
  qed
qed

section \<open>One argument\<close>

lemma enc_arg_line: "enc_arg a @ y = 36 # dec_nat (length a) @ crlf_bytes @ (a @ crlf_bytes @ y)"
  by (simp add: enc_arg_def)

lemma read_number_line:
  assumes "sds_rep q b" and "pos \<le> length b" and "drop pos b = h # dec_nat n @ crlf_bytes @ x'" and "n \<le> 2 ^ 62"
  shows "mem_byte (sds_buf q) pos = Some h" "read_number q pos (pos + (length (dec_nat n) + 1)) = Some (Some (int n))"
    "int (pos + (length (dec_nat n) + 1)) \<le> int (sds_len q) - 2" "drop (pos + (length (dec_nat n) + 1) + 2) b = x'"
    "pos + (length (dec_nat n) + 1) + 2 \<le> length b"
proof -
  obtain r where q: "sds_buf q = b @ 0 # r" "sds_len q = length b" using assms(1) by (auto elim: sds_repE)
  have b: "b = take pos b @ h # dec_nat n @ crlf_bytes @ x'" using assms(3) append_take_drop_id [of pos b] by simp
  have lp: "length (take pos b) = pos" using assms(2) unfolding length_take by linarith
  have sb: "sds_buf q = take pos b @ h # dec_nat n @ crlf_bytes @ x' @ 0 # r" using q(1) b by simp
  show "mem_byte (sds_buf q) pos = Some h" unfolding sb by (rule mem_byte_append [OF lp])
  have "mem_read ((take pos b @ [h]) @ dec_nat n @ crlf_bytes @ x' @ 0 # r) (pos + 1) (length (dec_nat n)) = Some (dec_nat n)"
    by (rule mem_read_append) (simp_all add: min_absorb2 assms(2))
  then show "read_number q pos (pos + (length (dec_nat n) + 1)) = Some (Some (int n))"
    using string2ll_dec_nat [OF assms(4)] by (simp add: read_number_def sb)
  have l: "length b = pos + 1 + length (dec_nat n) + 2 + length x'" using arg_cong [OF assms(3), of length] assms(2) by (simp add: crlf_bytes_def)
  then show "int (pos + (length (dec_nat n) + 1)) \<le> int (sds_len q) - 2" "pos + (length (dec_nat n) + 1) + 2 \<le> length b"
    using q(2) by simp_all
  have "pos + (length (dec_nat n) + 1) + 2 = length (dec_nat n) + 3 + pos" by simp
  then have "drop (pos + (length (dec_nat n) + 1) + 2) b = drop (length (dec_nat n) + 3) (drop pos b)" by (simp only: drop_drop)
  then show "drop (pos + (length (dec_nat n) + 1) + 2) b = x'" using assms(3) by (simp add: crlf_bytes_def numeral_3_eq_3)
qed

lemma bulk_header_ok:
  assumes q: "sds_rep (p_querybuf c) b" and pos: "pos \<le> length b" and "drop pos b @ fut = enc_arg a @ y"
    and "length a \<le> REDIS_INLINE_MAX_SIZE" and "pos + length (enc_arg a) \<le> REDIS_INLINE_MAX_SIZE"
  obtains "bulk_header c pos = Some (Break c)" "length (drop pos b) < length (enc_arg a)"
    | pos' where "bulk_header c pos = Some (Go (c\<lparr>p_bulklen := int (length a)\<rparr>) pos')" "pos' \<le> length b"
        "drop pos' b @ fut = a @ crlf_bytes @ y" "pos' + length a + 2 = pos + length (enc_arg a)"
proof -
  obtain r where q': "sds_buf (p_querybuf c) = b @ 0 # r" "sds_len (p_querybuf c) = length b" using q by (auto elim: sds_repE)
  have d: "drop pos (sds_buf (p_querybuf c)) = drop pos b @ 0 # r" using q'(1) pos by simp
  have n: "length a \<le> 2 ^ 62" "\<not> int (length a) > 512 * 1024 * 1024" using assms(4) by (simp_all add: REDIS_INLINE_MAX_SIZE_def)
  have e: "drop pos b @ fut = 36 # dec_nat (length a) @ crlf_bytes @ (a @ crlf_bytes @ y)" using assms(3) unfolding enc_arg_line .
  show thesis
  proof (rule line_cases [OF e, of r], goal_cases)
    case 3
    have "length b \<le> REDIS_INLINE_MAX_SIZE" using 3(2) assms(5) by (simp add: enc_arg_def crlf_bytes_def)
    then show thesis using that(1) 3 d q'(2) by (simp add: bulk_header_def enc_arg_def crlf_bytes_def)
  next
    case 4
    have "length b = pos + length (dec_nat (length a)) + 2" using 4(2) pos by simp
    then have "int (pos + (length (dec_nat (length a)) + 1)) > int (length b) - 2" by simp
    then show thesis using that(1) 4 d q'(2) by (simp add: bulk_header_def Let_def enc_arg_def crlf_bytes_def)
  next
    case (5 x')
    note R = read_number_line [OF q pos 5(2) n(1)]
    define p' where "p' = pos + (length (dec_nat (length a)) + 1)"
    note R' = R [folded p'_def]
    have "strchr_cr (drop pos (sds_buf (p_querybuf c))) = Some (Some (length (dec_nat (length a)) + 1))" using 5(1) d by simp
    then have h: "bulk_header c pos = Some (Go (c\<lparr>p_bulklen := int (length a)\<rparr>) (p' + 2))"
      using R'(1-3) n(2) unfolding bulk_header_def Let_def p'_def [symmetric]
      by (simp only: Option.bind.simps option.case p'_def [symmetric]) simp
    have l: "p' + 2 + length a + 2 = pos + length (enc_arg a)" by (simp add: enc_arg_def crlf_bytes_def p'_def)
    show thesis using R'(4,5) 5(3) h l by (intro that(2)) (simp_all only: )
  qed simp_all
qed

lemma bulk_pass_ok:
  assumes q: "sds_rep (p_querybuf c) b" and pos: "pos \<le> length b" and "drop pos b @ fut = need (p_bulklen c) (a # as) @ y"
    and "p_bulklen c = -1 \<or> p_bulklen c = int (length a)" and "pos + length (need (p_bulklen c) (a # as)) \<le> REDIS_INLINE_MAX_SIZE"
  obtains bl pos' where "bulk_pass c pos = Some (Broke (c\<lparr>p_bulklen := bl\<rparr>) pos')" "length (drop pos' b) < length (need bl (a # as))" "pos' \<le> length b"
      "drop pos' b @ fut = need bl (a # as) @ y" "bl = -1 \<or> bl = int (length a)"
    | pos' where "bulk_pass c pos = Some (Passed (c\<lparr>p_argv := p_argv c @ [a], p_bulklen := -1, p_multibulklen := p_multibulklen c - 1\<rparr>) pos')"
      "pos' \<le> length b" "drop pos' b @ fut = need (-1) as @ y"
      "pos' + length (need (-1) as) = pos + length (need (p_bulklen c) (a # as))"
proof -
  obtain r where q': "sds_buf (p_querybuf c) = b @ 0 # r" "sds_len (p_querybuf c) = length b" using q by (auto elim: sds_repE)
  note stuck = that(1) and passed = that(2)
  have go: thesis
    if h: "(if p_bulklen c = -1 then bulk_header c pos else Some (Go c pos)) = Some (Go (c\<lparr>p_bulklen := int (length a)\<rparr>) p)"
      and p: "p \<le> length b" "drop p b @ fut = a @ crlf_bytes @ enc_args as @ y"
        "p + length (a @ crlf_bytes @ enc_args as) = pos + length (need (p_bulklen c) (a # as))" for p
  proof (cases "length b - p < length a + 2")
    case True
    have "length (drop p b) < length (a @ crlf_bytes)" using True by (simp add: crlf_bytes_def)
    then have "length (drop p b) < length (need (int (length a)) (a # as))" by simp
    have T: "int (length b - p) < int (length a) + 2" using True by linarith
    have "bulk_pass c pos = Some (Broke (c\<lparr>p_bulklen := int (length a)\<rparr>) p)"
      using h p(1) q'(2) T by (simp add: bulk_pass_def)
    moreover have "drop p b @ fut = need (int (length a)) (a # as) @ y" using p(2) by simp
    ultimately show thesis using p(1) \<open>length (drop p b) < length (need (int (length a)) (a # as))\<close> by (intro stuck [of "int (length a)" p]) blast+
  next
    case False
    then have l: "length (a @ crlf_bytes) \<le> length (drop p b)" by (simp add: crlf_bytes_def)
    have F: "\<not> int (length b - p) < int (length a) + 2" using False by linarith
    define z where "z = drop (length (a @ crlf_bytes)) (drop p b)"
    have z: "drop p b = (a @ crlf_bytes) @ z" "z @ fut = enc_args as @ y"
    proof -
      have "take (length (a @ crlf_bytes)) (drop p b @ fut) = a @ crlf_bytes" unfolding p(2) by simp
      then have "take (length (a @ crlf_bytes)) (drop p b) = a @ crlf_bytes" using l by simp
      then show "drop p b = (a @ crlf_bytes) @ z" unfolding z_def by (metis append_take_drop_id)
      then show "z @ fut = enc_args as @ y" using p(2) by simp
    qed
    have b: "b = take p b @ a @ crlf_bytes @ z" using z(1) append_take_drop_id [of p b] by simp
    have rd: "mem_read (sds_buf (p_querybuf c)) p (length a) = Some a"
    proof -
      have "sds_buf (p_querybuf c) = take p b @ a @ crlf_bytes @ z @ 0 # r" using q'(1) b by (metis append_assoc)
      then show ?thesis using p(1) by (simp only:) (rule mem_read_append, simp_all add: min_absorb2)
    qed
    have "bulk_pass c pos = Some (Passed (c\<lparr>p_argv := p_argv c @ [a], p_bulklen := -1, p_multibulklen := p_multibulklen c - 1\<rparr>) (p + length a + 2))"
      using h p(1) q'(2) F rd by (simp add: bulk_pass_def)
    moreover have "drop (p + length a + 2) b = z"
    proof -
      have "drop (p + length a + 2) b = drop (length (a @ crlf_bytes)) (drop p b)" by (simp add: crlf_bytes_def ac_simps)
      then show ?thesis by (simp add: z_def)
    qed
    moreover have "p + length a + 2 \<le> length b" using False p(1) by simp
    ultimately show thesis using z(2) p(3) by (intro passed) (simp_all add: need_args crlf_bytes_def)
  qed
  show thesis
  proof (cases "p_bulklen c = -1")
    case False
    then have "p_bulklen c = int (length a)" using assms(4) by simp
    moreover from this have "c = c\<lparr>p_bulklen := int (length a)\<rparr>" by simp
    ultimately show thesis using go [of pos] pos assms(3) False by simp
  next
    case True
    have n: "drop pos b @ fut = enc_arg a @ (enc_args as @ y)" using assms(3) True by simp
    have m: "length a \<le> REDIS_INLINE_MAX_SIZE" "pos + length (enc_arg a) \<le> REDIS_INLINE_MAX_SIZE"
      using assms(5) True length_enc_arg [of a] by simp_all
    show thesis
    proof (rule bulk_header_ok [OF q pos n m], goal_cases)
      case 1
      have "c = c\<lparr>p_bulklen := -1\<rparr>" using True by simp
      then have "bulk_pass c pos = Some (Broke (c\<lparr>p_bulklen := -1\<rparr>) pos)" using 1 True by (simp add: bulk_pass_def)
      then show thesis using 1 pos n by (intro stuck [of "-1" pos]) simp_all
    next
      case (2 pos')
      show thesis using 2 True by (intro go [of pos']) (simp_all add: crlf_bytes_def)
    qed
  qed
qed

section \<open>One request\<close>

text \<open>The length read, if any, is that of the next argument.\<close>

definition next_len :: "int \<Rightarrow> byte list list \<Rightarrow> bool" where
  "next_len bl as \<longleftrightarrow> bl = -1 \<or> (as \<noteq> [] \<and> bl = int (length (hd as)))"

lemma next_len_simps [simp]: "next_len (-1) as" "next_len bl [] \<longleftrightarrow> bl = -1" "next_len bl (a # as) \<longleftrightarrow> bl = -1 \<or> bl = int (length a)"
  by (auto simp: next_len_def)

lemma bulk_loop_ok:
  assumes "sds_rep (p_querybuf c) b" and "pos \<le> length b" and "drop pos b @ fut = need (p_bulklen c) rs @ y"
    and "next_len (p_bulklen c) rs" and "p_multibulklen c = int (length rs)"
    and "pos + length (need (p_bulklen c) rs) \<le> REDIS_INLINE_MAX_SIZE"
  shows "(\<exists>pos'. bulk_loop c pos = Some (Inr (c\<lparr>p_argv := p_argv c @ rs, p_bulklen := -1, p_multibulklen := 0\<rparr>, pos')) \<and>
            pos' \<le> length b \<and> drop pos' b @ fut = y) \<or>
    (\<exists>ds rest bl pos'. bulk_loop c pos =
            Some (Inr (c\<lparr>p_argv := p_argv c @ ds, p_bulklen := bl, p_multibulklen := int (length rest)\<rparr>, pos')) \<and>
          rs = ds @ rest \<and> rest \<noteq> [] \<and> next_len bl rest \<and> length (drop pos' b) < length (need bl rest) \<and> pos' \<le> length b \<and> drop pos' b @ fut = need bl rest @ y)"
  using assms
proof (induction rs arbitrary: c pos)
  case Nil
  have "c\<lparr>p_argv := p_argv c @ [], p_bulklen := -1, p_multibulklen := 0\<rparr> = c" using Nil.prems(4,5) by simp
  then have "bulk_loop c pos = Some (Inr (c\<lparr>p_argv := p_argv c @ [], p_bulklen := -1, p_multibulklen := 0\<rparr>, pos))"
    using Nil.prems(5) by simp
  then show ?case using Nil.prems by auto
next
  case (Cons a as)
  have m: "p_multibulklen c \<noteq> 0" "\<not> p_multibulklen c < 0" using Cons.prems(5) by simp_all
  have bl: "p_bulklen c = -1 \<or> p_bulklen c = int (length a)" using Cons.prems(4) by simp
  show ?case
  proof (rule bulk_pass_ok [OF Cons.prems(1-3) bl Cons.prems(6)], goal_cases)
    case (1 bl pos')
    let ?c = "c\<lparr>p_argv := p_argv c @ [], p_bulklen := bl, p_multibulklen := int (length (a # as))\<rparr>"
    have "?c = c\<lparr>p_bulklen := bl\<rparr>" using Cons.prems(5) by simp
    then have "bulk_loop c pos = Some (Inr (?c, pos'))" using 1(1) m by (subst bulk_loop.simps) simp
    then show ?case using 1 by (intro disjI2 exI [of _ "[]"] exI [of _ "a # as"] exI [of _ bl]) auto
  next
    case (2 pos')
    let ?c = "c\<lparr>p_argv := p_argv c @ [a], p_bulklen := -1, p_multibulklen := p_multibulklen c - 1\<rparr>"
    have l: "bulk_loop c pos = bulk_loop ?c pos'" using 2(1) m by (subst bulk_loop.simps) simp
    have "sds_rep (p_querybuf ?c) b" "drop pos' b @ fut = need (p_bulklen ?c) as @ y" "next_len (p_bulklen ?c) as"
      "p_multibulklen ?c = int (length as)" "pos' + length (need (p_bulklen ?c) as) \<le> REDIS_INLINE_MAX_SIZE"
      using Cons.prems(1,5,6) 2(3,4) by simp_all
    from Cons.IH [OF this(1) 2(2) this(2-5)] show ?case
    proof (elim disjE exE conjE, goal_cases)
      case (1 p)
      then show ?case unfolding l by (intro disjI1 exI [of _ p]) simp
    next
      case (2 ds rest bl p)
      show ?case unfolding l
        by (intro disjI2, rule exI [of _ "a # ds"], rule exI [of _ rest], rule exI [of _ bl], rule exI [of _ p]) (use 2 in simp)
    qed
  qed
qed

text \<open>Where a client is within the request \<open>cmd\<close>, and what is still to come of it.\<close>

definition mid_request :: "'a pclient_scheme \<Rightarrow> byte list list \<Rightarrow> bool" where
  "mid_request c cmd \<longleftrightarrow>
     (if p_multibulklen c = 0 then p_argv c = [] \<and> p_bulklen c = -1
      else \<exists>rest. rest \<noteq> [] \<and> cmd = p_argv c @ rest \<and> p_multibulklen c = int (length rest) \<and> next_len (p_bulklen c) rest)"

definition expected :: "'a pclient_scheme \<Rightarrow> byte list list \<Rightarrow> byte list" where
  "expected c cmd = (if p_multibulklen c = 0 then enc_cmd cmd else need (p_bulklen c) (drop (length (p_argv c)) cmd))"

lemma enc_cmd_line: "enc_cmd as @ y = 42 # dec_nat (length as) @ crlf_bytes @ (enc_args as @ y)"
  by (simp add: enc_cmd_def)

lemma length_args_le: "length as \<le> length (enc_args as)"
  by (induction as) (auto simp: enc_arg_def)

lemma length_expected: "length (expected c cmd) \<le> length (enc_cmd cmd)"
proof -
  have "length (need (p_bulklen c) (drop k cmd)) \<le> length (enc_args cmd)" for k
  proof -
    have "length (enc_args (drop k cmd)) \<le> length (enc_args cmd)"
      using arg_cong [OF enc_args_append [of "take k cmd" "drop k cmd"], of length] by simp
    then show ?thesis using length_need_le [of "p_bulklen c" "drop k cmd"] by simp
  qed
  then show ?thesis by (auto simp: expected_def enc_cmd_def intro: le_SucI trans_le_add2 elim: order_trans)
qed

lemma multibulk_count_ok:
  assumes q: "sds_rep (p_querybuf c) b" and "p_argv c = []" and "b @ fut = enc_cmd cmd @ y" and "request_ok cmd"
  obtains "multibulk_count c = Some (CReturn False c)" "length b < length (enc_cmd cmd)"
    | pos where "multibulk_count c = Some (CGo (c\<lparr>p_multibulklen := int (length cmd)\<rparr>) pos)" "pos \<le> length b"
        "drop pos b @ fut = enc_args cmd @ y" "pos + length (enc_args cmd) \<le> REDIS_INLINE_MAX_SIZE"
proof -
  obtain r where q': "sds_buf (p_querybuf c) = b @ 0 # r" "sds_len (p_querybuf c) = length b" using q by (auto elim: sds_repE)
  have sz: "length (enc_cmd cmd) \<le> 65536" using assms(4) by (simp add: request_ok_def REDIS_INLINE_MAX_SIZE_def)
  have lc: "length cmd \<le> 65536" using sz length_args_le [of cmd] by (simp add: enc_cmd_def)
  have n: "length cmd \<le> 2 ^ 62" "\<not> int (length cmd) > 1024 * 1024" "\<not> int (length cmd) \<le> 0"
    using lc assms(4) by (simp_all add: request_ok_def)
  have e: "b @ fut = 42 # dec_nat (length cmd) @ crlf_bytes @ (enc_args cmd @ y)" using assms(3) unfolding enc_cmd_line .
  note wait = that(1) and go = that(2)
  show thesis
  proof (rule line_cases [OF e, of r], goal_cases)
    case 3
    have "length b \<le> REDIS_INLINE_MAX_SIZE" using 3(2) sz by (simp add: REDIS_INLINE_MAX_SIZE_def enc_cmd_def crlf_bytes_def)
    then show thesis using wait 3 q' assms(2) by (simp add: multibulk_count_def require_def enc_cmd_def crlf_bytes_def)
  next
    case 4
    then have "int (length (dec_nat (length cmd)) + 1) > int (length b) - 2" by simp
    then show thesis using wait 4 q' assms(2) by (simp add: multibulk_count_def require_def enc_cmd_def crlf_bytes_def)
  next
    case (5 x')
    define p where "p = length (dec_nat (length cmd)) + 1"
    have s: "strchr_cr (sds_buf (p_querybuf c)) = Some (Some p)" using 5(1) q'(1) by (simp add: p_def)
    have d0: "drop 0 b = 42 # dec_nat (length cmd) @ crlf_bytes @ x'" using 5(2) by simp
    note R = read_number_line [OF q le0 d0 n(1), unfolded add_0 p_def [symmetric]]
    have h: "multibulk_count c = Some (CGo (c\<lparr>p_multibulklen := int (length cmd)\<rparr>) (p + 2))"
      using R(1-3) n(2,3) s assms(2) by (simp add: multibulk_count_def require_def)
    have l: "p + 2 + length (enc_args cmd) \<le> REDIS_INLINE_MAX_SIZE"
      using sz by (simp add: p_def enc_cmd_def crlf_bytes_def REDIS_INLINE_MAX_SIZE_def)
    show thesis using R(4,5) 5(3) h l by (intro go) blast+
  qed simp_all
qed

text \<open>What the parser does with the bytes \<open>b\<close> there are: it completes the request and leaves
  the bytes behind it, or takes note of how far it has come.\<close>

lemma mid_request_idle: "mid_request c cmd \<Longrightarrow> p_multibulklen c = 0 \<Longrightarrow> p_argv c = [] \<and> p_bulklen c = -1"
  by (simp add: mid_request_def)

lemma processMultibulkBuffer_loop:
  assumes start: "(if p_multibulklen c0 = 0 then multibulk_count c0 else Some (CGo c0 0)) = Some (CGo c pos)"
    and q: "sds_rep (p_querybuf c) b" and pos: "pos \<le> length b" and b: "drop pos b @ fut = need (p_bulklen c) rs @ y"
    and bl: "next_len (p_bulklen c) rs" and m: "p_multibulklen c = int (length rs)" "rs \<noteq> []"
    and sz: "pos + length (need (p_bulklen c) rs) \<le> REDIS_INLINE_MAX_SIZE" and len: "fits_int (length b)"
    and cmd: "cmd = p_argv c @ rs"
  shows "(\<exists>q'. processMultibulkBuffer c0 = Some (True, c\<lparr>p_argv := cmd, p_bulklen := -1, p_multibulklen := 0, p_querybuf := q'\<rparr>) \<and>
            (\<exists>b'. sds_rep q' b' \<and> b' @ fut = y)) \<or>
    (\<exists>av bl ml q'. let c' = c\<lparr>p_argv := av, p_bulklen := bl, p_multibulklen := ml, p_querybuf := q'\<rparr> in
          processMultibulkBuffer c0 = Some (False, c') \<and> mid_request c' cmd \<and>
          (\<exists>b'. sds_rep q' b' \<and> b' @ fut = expected c' cmd @ y \<and> length b' < length (expected c' cmd)))"
proof -
  have m': "p_multibulklen c > 0" using m by simp
  show ?thesis
    using bulk_loop_ok [OF q pos b bl m(1) sz]
  proof (elim disjE exE conjE, goal_cases)
    case (1 p)
    obtain q' where "sdsrange (p_querybuf c) (int p) (-1) = Some q'" "sds_rep q' (drop p b)"
      using sdsrange_drop [OF q 1(2) len] by blast
    then show ?case using 1 m' start cmd
      by (intro disjI1 exI [of _ q']) (auto simp: processMultibulkBuffer_def require_def)
  next
    case (2 ds rest bl p)
    obtain q' where q': "sdsrange (p_querybuf c) (int p) (-1) = Some q'" "sds_rep q' (drop p b)"
      using sdsrange_drop [OF q 2(6) len] by blast
    let ?c = "c\<lparr>p_argv := p_argv c @ ds, p_bulklen := bl, p_multibulklen := int (length rest), p_querybuf := q'\<rparr>"
    have "processMultibulkBuffer c0 = Some (False, ?c)"
      using 2(1,3) q'(1) m' start by (simp add: processMultibulkBuffer_def require_def)
    moreover have "mid_request ?c cmd" using 2(2-4) cmd by (simp add: mid_request_def)
    moreover have "drop p b @ fut = expected ?c cmd @ y" using 2(2,3,7) cmd by (simp add: expected_def)
    moreover have "length (drop p b) < length (expected ?c cmd)" using 2(2,3,5) cmd by (simp add: expected_def)
    ultimately show ?case using q'(2) unfolding Let_def by (intro disjI2, fastforce)
  qed
qed

lemma processMultibulkBuffer_ok:
  assumes q: "sds_rep (p_querybuf c) b" and mid: "mid_request c cmd" and b: "b @ fut = expected c cmd @ y"
    and ok: "request_ok cmd" and len: "fits_int (length b)"
  shows "(\<exists>q'. processMultibulkBuffer c = Some (True, c\<lparr>p_argv := cmd, p_bulklen := -1, p_multibulklen := 0, p_querybuf := q'\<rparr>) \<and>
            (\<exists>b'. sds_rep q' b' \<and> b' @ fut = y)) \<or>
    (\<exists>av bl ml q'. let c' = c\<lparr>p_argv := av, p_bulklen := bl, p_multibulklen := ml, p_querybuf := q'\<rparr> in
          processMultibulkBuffer c = Some (False, c') \<and> mid_request c' cmd \<and>
          (\<exists>b'. sds_rep q' b' \<and> b' @ fut = expected c' cmd @ y \<and> length b' < length (expected c' cmd)))"
proof (cases "p_multibulklen c = 0")
  case True
  note i = mid_request_idle [OF mid True]
  have b': "b @ fut = enc_cmd cmd @ y" using b True by (simp add: expected_def)
  show ?thesis
  proof (rule multibulk_count_ok [OF q conjunct1 [OF i] b' ok], goal_cases)
    case 1
    have "length b < length (expected c cmd)" using 1(2) True by (simp add: expected_def)
    moreover have "processMultibulkBuffer c = Some (False, c)" using 1(1) True by (simp add: processMultibulkBuffer_def)
    moreover have "c\<lparr>p_argv := p_argv c, p_bulklen := p_bulklen c, p_multibulklen := p_multibulklen c, p_querybuf := p_querybuf c\<rparr> = c" by simp
    ultimately show ?case unfolding Let_def using mid q b
      by (intro disjI2, rule_tac x = "p_argv c" in exI, rule_tac x = "p_bulklen c" in exI, rule_tac x = "p_multibulklen c" in exI,
          rule_tac x = "p_querybuf c" in exI) auto
  next
    case (2 pos)
    let ?c = "c\<lparr>p_multibulklen := int (length cmd)\<rparr>"
    have "(if p_multibulklen c = 0 then multibulk_count c else Some (CGo c 0)) = Some (CGo ?c pos)" using True 2(1) by simp
    moreover have "drop pos b @ fut = need (p_bulklen ?c) cmd @ y" "pos + length (need (p_bulklen ?c) cmd) \<le> REDIS_INLINE_MAX_SIZE"
      using 2 i by (simp_all add: need_args)
    moreover have "next_len (p_bulklen ?c) cmd" "cmd \<noteq> []" "cmd = p_argv ?c @ cmd" using i ok by (simp_all add: request_ok_def)
    ultimately show ?case using processMultibulkBuffer_loop [of c ?c pos b fut cmd y cmd] q 2(2) len by simp
  qed
next
  case False
  then obtain rest where r: "rest \<noteq> []" "cmd = p_argv c @ rest" "p_multibulklen c = int (length rest)" "next_len (p_bulklen c) rest"
    using mid by (auto simp: mid_request_def)
  have "drop 0 b @ fut = need (p_bulklen c) rest @ y" using b False r(2) by (simp add: expected_def)
  moreover have "0 + length (need (p_bulklen c) rest) \<le> REDIS_INLINE_MAX_SIZE"
    using length_expected [of c cmd] ok False r(2) by (simp add: expected_def request_ok_def)
  ultimately show ?thesis
    using processMultibulkBuffer_loop [of c c 0 b fut rest y cmd] q False r len by simp
qed

section \<open>Any sequence of requests\<close>

text \<open>A client whose input is processed.\<close>

definition live :: "'a pclient_scheme \<Rightarrow> bool" where
  "live c \<longleftrightarrow> REDIS_BLOCKED \<notin> p_flags c \<and> REDIS_IO_WAIT \<notin> p_flags c \<and> REDIS_CLOSE_AFTER_REPLY \<notin> p_flags c"

text \<open>Executing the requests one after the other leads from \<open>s\<close> to \<open>s'\<close>: each returns \<^verbatim>\<open>REDIS_OK\<close>, leaves the
  query buffer alone, and neither blocks its client nor asks to close it.\<close>

fun runs :: "('a pclient_scheme \<Rightarrow> 's \<Rightarrow> (bool \<times> 'a pclient_scheme \<times> 's) option) \<Rightarrow> 's \<Rightarrow> byte list list list \<Rightarrow> 's \<Rightarrow> bool" where
  "runs processCommand s [] s' \<longleftrightarrow> s' = s"
| "runs processCommand s (cmd # cmds) s' \<longleftrightarrow>
     (\<exists>s1. (\<forall>c. live c \<and> p_argv c = cmd \<longrightarrow>
         (\<exists>c'. processCommand c s = Some (True, c', s1) \<and> p_querybuf c' = p_querybuf c \<and> live c')) \<and>
       runs processCommand s1 cmds s')"

text \<open>The client has the bytes of the requests \<open>todo\<close> up to those still to come, \<open>fut\<close>.\<close>

definition idle :: "'a pclient_scheme \<Rightarrow> bool" where
  "idle c \<longleftrightarrow> live c \<and> sds_rep (p_querybuf c) [] \<and> p_argv c = [] \<and> p_reqtype c = ReqNone \<and> p_multibulklen c = 0 \<and> p_bulklen c = -1"

definition awaits :: "'a pclient_scheme \<Rightarrow> byte list \<Rightarrow> byte list list list \<Rightarrow> bool" where
  "awaits c fut todo \<longleftrightarrow> live c \<and>
     (case todo of
        [] \<Rightarrow> idle c \<and> fut = []
      | cmd # cmds \<Rightarrow> mid_request c cmd \<and> (p_reqtype c = ReqMultibulk \<or> p_reqtype c = ReqNone \<and> p_multibulklen c = 0) \<and>
          (\<exists>b. sds_rep (p_querybuf c) b \<and> b @ fut = expected c cmd @ enc_cmds cmds))"

lemma expected_nonempty: "mid_request c cmd \<Longrightarrow> expected c cmd \<noteq> []"
proof (cases "p_multibulklen c = 0")
  case False
  moreover assume "mid_request c cmd"
  ultimately obtain rest where "rest \<noteq> []" "cmd = p_argv c @ rest" by (auto simp: mid_request_def)
  then show ?thesis using False by (cases rest) (auto simp: expected_def enc_arg_def crlf_bytes_def)
qed (simp add: expected_def enc_cmd_def)

lemma request_type_ok:
  assumes "sds_rep (p_querybuf c) b" and "b \<noteq> []" and "b @ fut = expected c cmd @ y"
    and "p_reqtype c = ReqMultibulk \<or> p_reqtype c = ReqNone \<and> p_multibulklen c = 0"
  shows "request_type c = Some (c\<lparr>p_reqtype := ReqMultibulk\<rparr>)"
proof (cases "p_reqtype c = ReqNone")
  case True
  obtain r where r: "sds_buf (p_querybuf c) = b @ 0 # r" using assms(1) by (auto elim: sds_repE)
  have "hd b = 42" using assms(2-4) True by (cases b) (auto simp: expected_def enc_cmd_def)
  then have "sds_buf (p_querybuf c) = [] @ 42 # tl b @ 0 # r" using assms(2) r by (cases b) auto
  then have "mem_byte (sds_buf (p_querybuf c)) 0 = Some 42" by (simp only:) (rule mem_byte_append, simp)
  then show ?thesis using True by (simp add: request_type_def)
next
  case False
  then have "c\<lparr>p_reqtype := ReqMultibulk\<rparr> = c" using assms(4) by simp
  then show ?thesis using False by (simp add: request_type_def)
qed

lemma expected_cong:
  "p_multibulklen c' = p_multibulklen c \<Longrightarrow> p_bulklen c' = p_bulklen c \<Longrightarrow> p_argv c' = p_argv c \<Longrightarrow>
     expected c' cmd = expected c cmd \<and> mid_request c' cmd = mid_request c cmd"
  by (simp add: expected_def mid_request_def)

lemma awaits_reset:
  assumes "live c" and "sds_rep (p_querybuf c) b" and "b @ fut = enc_cmds todo"
  shows "awaits (resetClient c) fut todo"
  using assms by (cases todo) (auto simp: awaits_def idle_def resetClient_def live_def mid_request_def expected_def)

text \<open>One pass of the loop at a request that has begun to arrive: it is executed, or the
  function returns.\<close>

lemma processInputBuffer_request:
  assumes pc: "runs pc s (cmd # cmds) s2" and w: "awaits c fut (cmd # cmds)" and ok: "request_ok cmd"
    and len: "fits_int (sds_len (p_querybuf c))" and ne: "sds_len (p_querybuf c) \<noteq> 0"
  shows "(\<exists>c' s1. processInputBuffer pc c s = processInputBuffer pc c' s1 \<and> runs pc s1 cmds s2 \<and> awaits c' fut cmds \<and>
            sds_len (p_querybuf c') \<le> sds_len (p_querybuf c)) \<or>
    (\<exists>c'. processInputBuffer pc c s = Some (c', s) \<and> awaits c' fut (cmd # cmds) \<and> fut \<noteq> [] \<and> sds_len (p_querybuf c') < REDIS_INLINE_MAX_SIZE)"
proof -
  obtain b where b: "sds_rep (p_querybuf c) b" "b @ fut = expected c cmd @ enc_cmds cmds" and mid: "mid_request c cmd"
    and rt: "p_reqtype c = ReqMultibulk \<or> p_reqtype c = ReqNone \<and> p_multibulklen c = 0" and lv: "live c"
    using w by (auto simp: awaits_def)
  have b0: "b \<noteq> []" "sds_len (p_querybuf c) = length b" using ne sds_repD [OF b(1)] by auto
  let ?c = "c\<lparr>p_reqtype := ReqMultibulk\<rparr>"
  have x: "expected ?c cmd = expected c cmd \<and> mid_request ?c cmd = mid_request c cmd" by (rule expected_cong) simp_all
  have step: "processInputBuffer pc c s = do {
      (ok, c) \<leftarrow> processMultibulkBuffer ?c;
      if \<not> ok then Some (c, s)
      else if p_argv c = [] then processInputBuffer pc (resetClient c) s
      else do { (ok, c, s) \<leftarrow> pc c s; processInputBuffer pc (if ok then resetClient c else c) s } }"
    using ne lv request_type_ok [OF b(1) b0(1) b(2) rt] by (subst processInputBuffer.simps) (simp add: live_def)
  have q: "sds_rep (p_querybuf ?c) b" "mid_request ?c cmd" "b @ fut = expected ?c cmd @ enc_cmds cmds" "fits_int (length b)"
    using b mid x len b0 by simp_all
  from processMultibulkBuffer_ok [OF q(1-3) ok q(4)] show ?thesis
  proof (elim disjE exE conjE, goal_cases)
    case (1 q' b')
    let ?d = "?c\<lparr>p_argv := cmd, p_bulklen := -1, p_multibulklen := 0, p_querybuf := q'\<rparr>"
    have "live ?d" using lv by (simp add: live_def)
    moreover have ne: "cmd \<noteq> []" using ok by (simp add: request_ok_def)
    ultimately obtain d s1 where d: "pc ?d s = Some (True, d, s1)" "p_querybuf d = q'" "live d" "runs pc s1 cmds s2"
      using pc by force
    have "processInputBuffer pc c s = processInputBuffer pc (resetClient d) s1"
      using 1(1) d(1) ne by (simp add: step)
    moreover have "awaits (resetClient d) fut cmds" using d(2,3) 1(2,3) by (intro awaits_reset) simp_all
    moreover have "length b' \<le> length b" using arg_cong [OF b(2), of length] arg_cong [OF 1(3), of length] by simp
    then have "sds_len (p_querybuf (resetClient d)) \<le> sds_len (p_querybuf c)"
      using d(2) sds_repD [OF 1(2)] b0(2) by (simp add: resetClient_def)
    ultimately show ?case using d(4) by blast
  next
    case (2 av bl ml q')
    let ?d = "?c\<lparr>p_argv := av, p_bulklen := bl, p_multibulklen := ml, p_querybuf := q'\<rparr>"
    obtain b' where d: "processMultibulkBuffer ?c = Some (False, ?d)" "mid_request ?d cmd" "sds_rep q' b'"
      "b' @ fut = expected ?d cmd @ enc_cmds cmds" "length b' < length (expected ?d cmd)" using 2 unfolding Let_def by blast
    have "processInputBuffer pc c s = Some (?d, s)" using d(1) by (simp add: step)
    moreover have "awaits ?d fut (cmd # cmds)" using d(2-4) lv unfolding awaits_def by (auto simp: live_def)
    moreover have "fut \<noteq> []" using arg_cong [OF d(4), of length] d(5) by auto
    moreover have "sds_len q' < REDIS_INLINE_MAX_SIZE"
      using sds_repD [OF d(3)] d(5) length_expected [of ?d cmd] ok by (simp add: request_ok_def)
    ultimately show ?case by (intro disjI2 exI [of _ ?d]) simp
  qed
qed

lemma processInputBuffer_ok:
  "runs pc s todo s2 \<Longrightarrow> awaits c fut todo \<Longrightarrow> list_all request_ok todo \<Longrightarrow> fits_int (sds_len (p_querybuf c)) \<Longrightarrow>
    \<exists>ds rest c' s1. processInputBuffer pc c s = Some (c', s1) \<and> runs pc s1 rest s2 \<and> todo = ds @ rest \<and> awaits c' fut rest \<and> (rest \<noteq> [] \<longrightarrow> fut \<noteq> []) \<and>
      sds_len (p_querybuf c') < REDIS_INLINE_MAX_SIZE"
proof (induction todo arbitrary: c s)
  case Nil
  then have "sds_len (p_querybuf c) = 0" by (auto simp: awaits_def idle_def dest: sds_repD)
  moreover from this have "processInputBuffer pc c s = Some (c, s)" by (subst processInputBuffer.simps) simp
  ultimately show ?case using Nil.prems(1,2) by (intro exI [of _ "[]"] exI [of _ c] exI [of _ s]) (simp add: REDIS_INLINE_MAX_SIZE_def)
next
  case (Cons cmd cmds)
  show ?case
  proof (cases "sds_len (p_querybuf c) = 0")
    case True
    then have "processInputBuffer pc c s = Some (c, s)" by (subst processInputBuffer.simps) simp
    moreover have "fut \<noteq> []" using True Cons.prems(2) expected_nonempty [of c cmd] by (auto simp: awaits_def dest: sds_repD)
    ultimately show ?thesis using True Cons.prems(1,2)
      by (intro exI [of _ "[]"] exI [of _ "cmd # cmds"] exI [of _ c] exI [of _ s]) (simp add: REDIS_INLINE_MAX_SIZE_def)
  next
    case False
    have ok: "request_ok cmd" "list_all request_ok cmds" using Cons.prems(3) by simp_all
    from processInputBuffer_request [OF Cons.prems(1,2) ok(1) Cons.prems(4) False] show ?thesis
    proof (elim disjE exE conjE, goal_cases)
      case (1 c' s1)
      have "fits_int (sds_len (p_querybuf c'))" using 1(4) Cons.prems(4) by (simp add: fits_int_def)
      from Cons.IH [OF 1(2,3) ok(2) this] obtain ds rest d s3 where
        "processInputBuffer pc c' s1 = Some (d, s3)" "runs pc s3 rest s2" "cmds = ds @ rest" "awaits d fut rest" "rest \<noteq> [] \<longrightarrow> fut \<noteq> []"
        "sds_len (p_querybuf d) < REDIS_INLINE_MAX_SIZE" by blast
      then show ?case unfolding 1(1) by (intro exI [of _ "cmd # ds"] exI [of _ rest] exI [of _ d] exI [of _ s3]) simp
    next
      case (2 c')
      then show ?case using Cons.prems(1) by (intro exI [of _ "[]"] exI [of _ "cmd # cmds"] exI [of _ c'] exI [of _ s]) simp
    qed
  qed
qed

lemma readQueryFromClient_ok:
  assumes pc: "runs pc s todo s2" and w: "awaits c (buf @ fut) todo" and ok: "list_all request_ok todo"
    and len: "sds_len (p_querybuf c) < REDIS_INLINE_MAX_SIZE" and buf: "buf \<noteq> []" "length buf \<le> REDIS_IOBUF_LEN"
    and max: "REDIS_INLINE_MAX_SIZE + REDIS_IOBUF_LEN \<le> maxlen"
  shows "\<exists>ds rest c' s1. readQueryFromClient maxlen pc (ReadData buf) c s = Some (Some c', s1) \<and> runs pc s1 rest s2 \<and> todo = ds @ rest \<and>
      awaits c' fut rest \<and> (rest \<noteq> [] \<longrightarrow> fut \<noteq> []) \<and> sds_len (p_querybuf c') < REDIS_INLINE_MAX_SIZE"
proof -
  obtain cmd cmds where t: "todo = cmd # cmds" using w buf(1) by (cases todo) (auto simp: awaits_def)
  obtain b where b: "sds_rep (p_querybuf c) b" "b @ buf @ fut = expected c cmd @ enc_cmds cmds" "mid_request c cmd"
    "p_reqtype c = ReqMultibulk \<or> p_reqtype c = ReqNone \<and> p_multibulklen c = 0" "live c"
    using w t by (auto simp: awaits_def)
  note sizes = REDIS_INLINE_MAX_SIZE_def REDIS_IOBUF_LEN_def
  have lb: "length b < REDIS_INLINE_MAX_SIZE" using len sds_repD [OF b(1)] by simp
  then obtain q where q: "sdscatlen (p_querybuf c) buf (length buf) = Some q" "sds_rep q (b @ buf)"
    using sdscatlen_rep [OF b(1), of "length buf" buf] buf(2) by (auto simp: sizes)
  let ?c = "c\<lparr>p_querybuf := q\<rparr>"
  have ql: "sds_len q = length b + length buf" using sds_repD [OF q(2)] by simp
  have x: "expected ?c cmd = expected c cmd \<and> mid_request ?c cmd = mid_request c cmd" by (rule expected_cong) simp_all
  have "awaits ?c fut todo" using b q(2) x by (auto simp: awaits_def t live_def intro!: exI [of _ "b @ buf"])
  moreover have "fits_int (sds_len (p_querybuf ?c))" using lb buf(2) ql by (simp add: fits_int_def c_limits sizes)
  ultimately obtain ds rest c' s1 where r: "processInputBuffer pc ?c s = Some (c', s1)" "runs pc s1 rest s2" "todo = ds @ rest" "awaits c' fut rest"
    "rest \<noteq> [] \<longrightarrow> fut \<noteq> []" "sds_len (p_querybuf c') < REDIS_INLINE_MAX_SIZE"
    using processInputBuffer_ok [OF pc _ ok] by blast
  have "\<not> maxlen < sds_len q" using max lb buf(2) ql by simp
  then have "readQueryFromClient maxlen pc (ReadData buf) c s = Some (Some c', s1)"
    using q(1) r(1) buf by (simp add: readQueryFromClient_def require_def)
  then show ?thesis using r by blast
qed

text \<open>Reading one packet after the other.\<close>

fun read_packets :: "nat \<Rightarrow> ('a pclient_scheme \<Rightarrow> 's \<Rightarrow> (bool \<times> 'a pclient_scheme \<times> 's) option) \<Rightarrow> byte list list \<Rightarrow>
    'a pclient_scheme \<Rightarrow> 's \<Rightarrow> ('a pclient_scheme option \<times> 's) option" where
  "read_packets maxlen pc [] c s = Some (Some c, s)"
| "read_packets maxlen pc (buf # bufs) c s =
     do { (r, s) \<leftarrow> readQueryFromClient maxlen pc (ReadData buf) c s;
          case r of None \<Rightarrow> Some (None, s) | Some c \<Rightarrow> read_packets maxlen pc bufs c s }"

lemma read_packets_ok:
  assumes max: "REDIS_INLINE_MAX_SIZE + REDIS_IOBUF_LEN \<le> maxlen"
  shows "runs pc s todo s2 \<Longrightarrow> awaits c (concat bufs) todo \<Longrightarrow> (todo \<noteq> [] \<Longrightarrow> concat bufs \<noteq> []) \<Longrightarrow> list_all request_ok todo \<Longrightarrow>
     sds_len (p_querybuf c) < REDIS_INLINE_MAX_SIZE \<Longrightarrow> list_all (\<lambda>buf. buf \<noteq> [] \<and> length buf \<le> REDIS_IOBUF_LEN) bufs \<Longrightarrow>
     \<exists>c'. read_packets maxlen pc bufs c s = Some (Some c', s2) \<and> idle c'"
proof (induction bufs arbitrary: c s todo)
  case Nil
  then have "todo = []" by auto
  then show ?case using Nil.prems(1,2) by (simp add: awaits_def)
next
  case (Cons buf bufs)
  have buf: "buf \<noteq> []" "length buf \<le> REDIS_IOBUF_LEN" and bufs: "list_all (\<lambda>buf. buf \<noteq> [] \<and> length buf \<le> REDIS_IOBUF_LEN) bufs"
    using Cons.prems(6) by simp_all
  have "awaits c (buf @ concat bufs) todo" using Cons.prems(2) by simp
  from readQueryFromClient_ok [OF Cons.prems(1) this Cons.prems(4,5) buf max] obtain ds rest c1 s1 where
    r: "readQueryFromClient maxlen pc (ReadData buf) c s = Some (Some c1, s1)" "runs pc s1 rest s2" "todo = ds @ rest" "awaits c1 (concat bufs) rest"
      "rest \<noteq> [] \<longrightarrow> concat bufs \<noteq> []" "sds_len (p_querybuf c1) < REDIS_INLINE_MAX_SIZE" by blast
  have "list_all request_ok rest" using Cons.prems(4) r(3) by simp
  from Cons.IH [OF r(2,4) _ this r(6) bufs] r(5) show ?case using r(1) by auto
qed

lemma packets_executed:
  assumes "runs processCommand s cmds s'" and "idle c" and "list_all request_ok cmds" and "concat packets = enc_cmds cmds"
    and "list_all (\<lambda>buf. buf \<noteq> [] \<and> length buf \<le> REDIS_IOBUF_LEN) packets"
    and "REDIS_INLINE_MAX_SIZE + REDIS_IOBUF_LEN \<le> client_max_querybuf_len"
  shows "\<exists>c'. read_packets client_max_querybuf_len processCommand packets c s = Some (Some c', s') \<and> idle c'"
proof (rule read_packets_ok [OF assms(6,1)])
  have q: "sds_rep (p_querybuf c) []" "live c" using assms(2) by (simp_all add: idle_def)
  have "cmds \<noteq> [] \<Longrightarrow> enc_cmds cmds \<noteq> []" by (cases cmds) (simp_all add: enc_cmd_def)
  then show "cmds \<noteq> [] \<Longrightarrow> concat packets \<noteq> []" using assms(4) by simp
  have "resetClient c = c" using assms(2) by (simp add: idle_def resetClient_def)
  then show "awaits c (concat packets) cmds" using awaits_reset [OF q(2,1), of "concat packets" cmds] assms(4) by simp
  show "sds_len (p_querybuf c) < REDIS_INLINE_MAX_SIZE" using sds_repD [OF q(1)] by (simp add: REDIS_INLINE_MAX_SIZE_def)
qed (use assms in simp_all)

definition new_pclient :: "byte list \<Rightarrow> pclient" where
  "new_pclient b = \<lparr>p_querybuf = \<lparr>sds_len = length b, sds_free = 0, sds_buf = b @ [0]\<rparr>, p_argv = [], p_reqtype = ReqNone,
     p_multibulklen = 0, p_bulklen = -1, p_flags = {}, p_out = []\<rparr>"

lemma idle_new: "idle (new_pclient [])"
  by (simp add: idle_def live_def new_pclient_def sds_rep_def)

section \<open>The limit on a line counts the argument before it\<close>

text \<open>The test for an overlong length line takes the length of the whole query buffer, of which
  the arguments parsed in this pass are still part.\<close>

lemma bulk_pass_take:
  assumes "sds_rep (p_querybuf c) (a @ crlf_bytes @ z)" and "p_bulklen c = int (length a)"
  shows "bulk_pass c 0 = Some (Passed (c\<lparr>p_argv := p_argv c @ [a], p_bulklen := -1, p_multibulklen := p_multibulklen c - 1\<rparr>) (length a + 2))"
proof -
  obtain r where r: "sds_buf (p_querybuf c) = a @ crlf_bytes @ z @ 0 # r" "sds_len (p_querybuf c) = length a + 2 + length z"
    using assms(1) by (auto elim: sds_repE simp: crlf_bytes_def)
  have "mem_read ([] @ a @ crlf_bytes @ z @ 0 # r) 0 (length a) = Some a" by (rule mem_read_append) simp_all
  then show ?thesis using r assms(2) by (simp add: bulk_pass_def require_def)
qed

lemma isdigit_plain: "isdigit d \<Longrightarrow> d \<noteq> 13 \<and> d \<noteq> 0"
  by (auto simp: isdigit_def)

text \<open>C18: A client that has sent an argument of at least 64 KB and only part of the line with the
  length of the next argument, a packet boundary being there, is answered with an error and its
  connection closed, although the line is not too long.\<close>

theorem bulk_count_counts_argument:
  assumes q: "sds_rep (p_querybuf c) (a @ crlf_bytes @ 36 # ds)" and ds: "\<forall>d \<in> set ds. isdigit d" and len: "fits_int (length a + length ds + 3)"
    and bl: "p_bulklen c = int (length a)" and ml: "p_multibulklen c > 1" and big: "REDIS_INLINE_MAX_SIZE \<le> length a" and lv: "live c"
  shows "\<exists>c'. processMultibulkBuffer c = Some (False, c') \<and> REDIS_CLOSE_AFTER_REPLY \<in> p_flags c' \<and>
      p_out c' = p_out c @ ascii_text ''-ERR Protocol error: too big bulk count string'' @ crlf_bytes"
proof -
  let ?b = "a @ crlf_bytes @ 36 # ds"
  let ?c = "c\<lparr>p_argv := p_argv c @ [a], p_bulklen := -1, p_multibulklen := p_multibulklen c - 1\<rparr>"
  let ?e = "queue_error (ascii_text ''Protocol error: too big bulk count string'') ?c"
  obtain r where r: "sds_buf (p_querybuf c) = ?b @ 0 # r" "sds_len (p_querybuf c) = length ?b" using q by (auto elim: sds_repE)
  have l: "fits_int (length ?b)" proof -
    have "length ?b = length a + length ds + 3" by (simp add: crlf_bytes_def)
    then show ?thesis using len by (simp only:)
  qed
  have s: "strchr_cr (drop (length a + 2) (sds_buf (p_querybuf c))) = Some None"
    using strchr_cr_end [of "36 # ds" r] ds isdigit_plain r(1) by (auto simp: crlf_bytes_def)
  have qe: "sds_rep (p_querybuf ?e) ?b" using q by (simp add: queue_error_def queue_reply_def)
  obtain q1 where q1: "sdsrange (p_querybuf ?e) (int 0) (-1) = Some q1" "sds_rep q1 (drop 0 ?b)"
    using sdsrange_drop [OF qe le0 l] by blast
  let ?d = "?e\<lparr>p_flags := insert REDIS_CLOSE_AFTER_REPLY (p_flags ?e), p_querybuf := q1\<rparr>"
  have "setProtocolError ?e 0 = Some ?d" using q1(1) by (simp add: setProtocolError_def)
  moreover have "sds_len (p_querybuf c) > REDIS_INLINE_MAX_SIZE" using r(2) big by simp
  ultimately have h: "bulk_pass ?c (length a + 2) = Some (Broke ?d (length a + 2))"
    using s by (simp add: bulk_pass_def bulk_header_def)
  have "bulk_loop c 0 = bulk_loop ?c (length a + 2)"
    using bulk_pass_take [OF q bl] ml by (subst bulk_loop.simps) simp
  also have "\<dots> = Some (Inr (?d, length a + 2))" using h ml by (subst bulk_loop.simps) simp
  finally have loop: "bulk_loop c 0 = Some (Inr (?d, length a + 2))" .
  have "sds_rep (p_querybuf ?d) ?b" "length a + 2 \<le> length ?b" using q1(2) by (simp_all add: crlf_bytes_def)
  from sdsrange_drop [OF this l] obtain q2 where q2: "sdsrange q1 (int (length a + 2)) (-1) = Some q2" by auto
  have "p_multibulklen ?e = p_multibulklen c - 1" "p_out ?e = p_out c @ ascii_text ''-ERR Protocol error: too big bulk count string'' @ crlf_bytes"
    using lv by (simp_all add: queue_error_def queue_reply_def live_def ascii_text_def crlf_bytes_def)
  then show ?thesis using loop q2 ml by (simp add: processMultibulkBuffer_def require_def)
qed

lemma bulk_count_counts_argument_witness:
  "\<exists>c'. processMultibulkBuffer ((new_pclient (replicate 65536 0 @ crlf_bytes @ 36 # [49]))\<lparr>p_multibulklen := 2, p_bulklen := 65536\<rparr>) = Some (False, c') \<and>
     REDIS_CLOSE_AFTER_REPLY \<in> p_flags c' \<and>
     p_out c' = [] @ ascii_text ''-ERR Protocol error: too big bulk count string'' @ crlf_bytes"
  using bulk_count_counts_argument [of "(new_pclient (replicate 65536 0 @ crlf_bytes @ 36 # [49]))\<lparr>p_multibulklen := 2, p_bulklen := 65536\<rparr>"
      "replicate 65536 0" "[49]"]
  by (simp add: new_pclient_def sds_rep_def fits_int_def c_limits REDIS_INLINE_MAX_SIZE_def live_def isdigit_def)
end
