(* ===== verification/Server.thy ===== *)
theory Server
  imports Object DictTypes Protocol
begin

text \<open>
  The state of the server that the command implementations share: the data bases, the clients,
  the command table, the propagation of commands (\<^verbatim>\<open>src/webserver/redis/src/redis.h\<close>,
  \<^verbatim>\<open>redis.c\<close>).

  A data base is modelled by the finite maps its hash tables implement (\<open>Dict\<close> shows that
  they do); its keys are byte strings. The values are objects; those of other types than
  strings are opaque. The key space is taken to hold the only reference to a value, as it does
  once the command that stored it has returned: where the code tests \<^verbatim>\<open>refcount\<close> before it
  modifies a value in place, both branches have the contents the model gives. A client is a
  number; its replies are the stream of bytes that \<open>ReplySpec\<close> shows the reply functions to
  queue. Virtual memory, access times and statistics are left out. \<^verbatim>\<open>time(NULL)\<close> is the field
  \<open>s_time\<close>, constant while a command runs.
\<close>

section \<open>Commands\<close>

text \<open>The functions that implement commands: those modelled, and the others by name.\<close>

datatype redisProc
  = GetCommand | SetCommand | SetnxCommand | SetexCommand | AppendCommand | StrlenCommand | DelCommand
    | ExistsCommand | SetbitCommand | GetbitCommand | SetrangeCommand | GetrangeCommand | IncrCommand
    | DecrCommand | MgetCommand | IncrbyCommand | DecrbyCommand | GetsetCommand | MsetCommand | MsetnxCommand
    | SelectCommand | MoveCommand | RenameCommand | RenamenxCommand | ExpireCommand | ExpireatCommand
    | DbsizeCommand | PingCommand | EchoCommand | TypeCommand | MultiCommand | ExecCommand | DiscardCommand
    | FlushdbCommand | FlushallCommand | TtlCommand | PersistCommand | WatchCommand | UnwatchCommand
  | OtherProc string

datatype cmd_flag = REDIS_CMD_DENYOOM | REDIS_CMD_FORCE_REPLICATION

datatype preloadProc = ZunionInterBlockClientOnSwappedKeys | ExecBlockClientOnSwappedKeys

record redisCommand =
  c_name :: string
  c_proc :: redisProc
  c_arity :: int
  c_flags :: "cmd_flag set"
  c_preload :: "preloadProc option"
  c_firstkey :: int
  c_lastkey :: int
  c_keystep :: int

definition redis_command :: "string \<Rightarrow> redisProc \<Rightarrow> int \<Rightarrow> cmd_flag set \<Rightarrow> preloadProc option \<Rightarrow> int \<Rightarrow> int \<Rightarrow> int \<Rightarrow> redisCommand" where
  "redis_command name proc arity flags preload firstkey lastkey keystep =
     \<lparr>c_name = name, c_proc = proc, c_arity = arity, c_flags = flags, c_preload = preload,
      c_firstkey = firstkey, c_lastkey = lastkey, c_keystep = keystep\<rparr>"

definition readonlyCommandTable :: "redisCommand list" where
  "readonlyCommandTable = [
    redis_command ''get'' GetCommand 2 {} None 1 1 1,
    redis_command ''set'' SetCommand 3 {REDIS_CMD_DENYOOM} None 0 0 0,
    redis_command ''setnx'' SetnxCommand 3 {REDIS_CMD_DENYOOM} None 0 0 0,
    redis_command ''setex'' SetexCommand 4 {REDIS_CMD_DENYOOM} None 0 0 0,
    redis_command ''append'' AppendCommand 3 {REDIS_CMD_DENYOOM} None 1 1 1,
    redis_command ''strlen'' StrlenCommand 2 {} None 1 1 1,
    redis_command ''del'' DelCommand (-2) {} None 0 0 0,
    redis_command ''exists'' ExistsCommand 2 {} None 1 1 1,
    redis_command ''setbit'' SetbitCommand 4 {REDIS_CMD_DENYOOM} None 1 1 1,
    redis_command ''getbit'' GetbitCommand 3 {} None 1 1 1,
    redis_command ''setrange'' SetrangeCommand 4 {REDIS_CMD_DENYOOM} None 1 1 1,
    redis_command ''getrange'' GetrangeCommand 4 {} None 1 1 1,
    redis_command ''substr'' GetrangeCommand 4 {} None 1 1 1,
    redis_command ''incr'' IncrCommand 2 {REDIS_CMD_DENYOOM} None 1 1 1,
    redis_command ''decr'' DecrCommand 2 {REDIS_CMD_DENYOOM} None 1 1 1,
    redis_command ''mget'' MgetCommand (-2) {} None 1 (-1) 1,
    redis_command ''rpush'' (OtherProc ''rpushCommand'') (-3) {REDIS_CMD_DENYOOM} None 1 1 1,
    redis_command ''lpush'' (OtherProc ''lpushCommand'') (-3) {REDIS_CMD_DENYOOM} None 1 1 1,
    redis_command ''rpushx'' (OtherProc ''rpushxCommand'') 3 {REDIS_CMD_DENYOOM} None 1 1 1,
    redis_command ''lpushx'' (OtherProc ''lpushxCommand'') 3 {REDIS_CMD_DENYOOM} None 1 1 1,
    redis_command ''linsert'' (OtherProc ''linsertCommand'') 5 {REDIS_CMD_DENYOOM} None 1 1 1,
    redis_command ''rpop'' (OtherProc ''rpopCommand'') 2 {} None 1 1 1,
    redis_command ''lpop'' (OtherProc ''lpopCommand'') 2 {} None 1 1 1,
    redis_command ''brpop'' (OtherProc ''brpopCommand'') (-3) {} None 1 1 1,
    redis_command ''brpoplpush'' (OtherProc ''brpoplpushCommand'') 4 {REDIS_CMD_DENYOOM} None 1 2 1,
    redis_command ''blpop'' (OtherProc ''blpopCommand'') (-3) {} None 1 1 1,
    redis_command ''llen'' (OtherProc ''llenCommand'') 2 {} None 1 1 1,
    redis_command ''lindex'' (OtherProc ''lindexCommand'') 3 {} None 1 1 1,
    redis_command ''lset'' (OtherProc ''lsetCommand'') 4 {REDIS_CMD_DENYOOM} None 1 1 1,
    redis_command ''lrange'' (OtherProc ''lrangeCommand'') 4 {} None 1 1 1,
    redis_command ''ltrim'' (OtherProc ''ltrimCommand'') 4 {} None 1 1 1,
    redis_command ''lrem'' (OtherProc ''lremCommand'') 4 {} None 1 1 1,
    redis_command ''rpoplpush'' (OtherProc ''rpoplpushCommand'') 3 {REDIS_CMD_DENYOOM} None 1 2 1,
    redis_command ''sadd'' (OtherProc ''saddCommand'') (-3) {REDIS_CMD_DENYOOM} None 1 1 1,
    redis_command ''srem'' (OtherProc ''sremCommand'') (-3) {} None 1 1 1,
    redis_command ''smove'' (OtherProc ''smoveCommand'') 4 {} None 1 2 1,
    redis_command ''sismember'' (OtherProc ''sismemberCommand'') 3 {} None 1 1 1,
    redis_command ''scard'' (OtherProc ''scardCommand'') 2 {} None 1 1 1,
    redis_command ''spop'' (OtherProc ''spopCommand'') 2 {} None 1 1 1,
    redis_command ''srandmember'' (OtherProc ''srandmemberCommand'') 2 {} None 1 1 1,
    redis_command ''sinter'' (OtherProc ''sinterCommand'') (-2) {REDIS_CMD_DENYOOM} None 1 (-1) 1,
    redis_command ''sinterstore'' (OtherProc ''sinterstoreCommand'') (-3) {REDIS_CMD_DENYOOM} None 2 (-1) 1,
    redis_command ''sunion'' (OtherProc ''sunionCommand'') (-2) {REDIS_CMD_DENYOOM} None 1 (-1) 1,
    redis_command ''sunionstore'' (OtherProc ''sunionstoreCommand'') (-3) {REDIS_CMD_DENYOOM} None 2 (-1) 1,
    redis_command ''sdiff'' (OtherProc ''sdiffCommand'') (-2) {REDIS_CMD_DENYOOM} None 1 (-1) 1,
    redis_command ''sdiffstore'' (OtherProc ''sdiffstoreCommand'') (-3) {REDIS_CMD_DENYOOM} None 2 (-1) 1,
    redis_command ''smembers'' (OtherProc ''sinterCommand'') 2 {} None 1 1 1,
    redis_command ''zadd'' (OtherProc ''zaddCommand'') (-4) {REDIS_CMD_DENYOOM} None 1 1 1,
    redis_command ''zincrby'' (OtherProc ''zincrbyCommand'') 4 {REDIS_CMD_DENYOOM} None 1 1 1,
    redis_command ''zrem'' (OtherProc ''zremCommand'') (-3) {} None 1 1 1,
    redis_command ''zremrangebyscore'' (OtherProc ''zremrangebyscoreCommand'') 4 {} None 1 1 1,
    redis_command ''zremrangebyrank'' (OtherProc ''zremrangebyrankCommand'') 4 {} None 1 1 1,
    redis_command ''zunionstore'' (OtherProc ''zunionstoreCommand'') (-4) {REDIS_CMD_DENYOOM} (Some ZunionInterBlockClientOnSwappedKeys) 0 0 0,
    redis_command ''zinterstore'' (OtherProc ''zinterstoreCommand'') (-4) {REDIS_CMD_DENYOOM} (Some ZunionInterBlockClientOnSwappedKeys) 0 0 0,
    redis_command ''zrange'' (OtherProc ''zrangeCommand'') (-4) {} None 1 1 1,
    redis_command ''zrangebyscore'' (OtherProc ''zrangebyscoreCommand'') (-4) {} None 1 1 1,
    redis_command ''zrevrangebyscore'' (OtherProc ''zrevrangebyscoreCommand'') (-4) {} None 1 1 1,
    redis_command ''zcount'' (OtherProc ''zcountCommand'') 4 {} None 1 1 1,
    redis_command ''zrevrange'' (OtherProc ''zrevrangeCommand'') (-4) {} None 1 1 1,
    redis_command ''zcard'' (OtherProc ''zcardCommand'') 2 {} None 1 1 1,
    redis_command ''zscore'' (OtherProc ''zscoreCommand'') 3 {} None 1 1 1,
    redis_command ''zrank'' (OtherProc ''zrankCommand'') 3 {} None 1 1 1,
    redis_command ''zrevrank'' (OtherProc ''zrevrankCommand'') 3 {} None 1 1 1,
    redis_command ''hset'' (OtherProc ''hsetCommand'') 4 {REDIS_CMD_DENYOOM} None 1 1 1,
    redis_command ''hsetnx'' (OtherProc ''hsetnxCommand'') 4 {REDIS_CMD_DENYOOM} None 1 1 1,
    redis_command ''hget'' (OtherProc ''hgetCommand'') 3 {} None 1 1 1,
    redis_command ''hmset'' (OtherProc ''hmsetCommand'') (-4) {REDIS_CMD_DENYOOM} None 1 1 1,
    redis_command ''hmget'' (OtherProc ''hmgetCommand'') (-3) {} None 1 1 1,
    redis_command ''hincrby'' (OtherProc ''hincrbyCommand'') 4 {REDIS_CMD_DENYOOM} None 1 1 1,
    redis_command ''hdel'' (OtherProc ''hdelCommand'') (-3) {} None 1 1 1,
    redis_command ''hlen'' (OtherProc ''hlenCommand'') 2 {} None 1 1 1,
    redis_command ''hkeys'' (OtherProc ''hkeysCommand'') 2 {} None 1 1 1,
    redis_command ''hvals'' (OtherProc ''hvalsCommand'') 2 {} None 1 1 1,
    redis_command ''hgetall'' (OtherProc ''hgetallCommand'') 2 {} None 1 1 1,
    redis_command ''hexists'' (OtherProc ''hexistsCommand'') 3 {} None 1 1 1,
    redis_command ''incrby'' IncrbyCommand 3 {REDIS_CMD_DENYOOM} None 1 1 1,
    redis_command ''decrby'' DecrbyCommand 3 {REDIS_CMD_DENYOOM} None 1 1 1,
    redis_command ''getset'' GetsetCommand 3 {REDIS_CMD_DENYOOM} None 1 1 1,
    redis_command ''mset'' MsetCommand (-3) {REDIS_CMD_DENYOOM} None 1 (-1) 2,
    redis_command ''msetnx'' MsetnxCommand (-3) {REDIS_CMD_DENYOOM} None 1 (-1) 2,
    redis_command ''randomkey'' (OtherProc ''randomkeyCommand'') 1 {} None 0 0 0,
    redis_command ''select'' SelectCommand 2 {} None 0 0 0,
    redis_command ''move'' MoveCommand 3 {} None 1 1 1,
    redis_command ''rename'' RenameCommand 3 {} None 1 1 1,
    redis_command ''renamenx'' RenamenxCommand 3 {} None 1 1 1,
    redis_command ''expire'' ExpireCommand 3 {} None 0 0 0,
    redis_command ''expireat'' ExpireatCommand 3 {} None 0 0 0,
    redis_command ''keys'' (OtherProc ''keysCommand'') 2 {} None 0 0 0,
    redis_command ''dbsize'' DbsizeCommand 1 {} None 0 0 0,
    redis_command ''auth'' (OtherProc ''authCommand'') 2 {} None 0 0 0,
    redis_command ''ping'' PingCommand 1 {} None 0 0 0,
    redis_command ''echo'' EchoCommand 2 {} None 0 0 0,
    redis_command ''save'' (OtherProc ''saveCommand'') 1 {} None 0 0 0,
    redis_command ''bgsave'' (OtherProc ''bgsaveCommand'') 1 {} None 0 0 0,
    redis_command ''bgrewriteaof'' (OtherProc ''bgrewriteaofCommand'') 1 {} None 0 0 0,
    redis_command ''shutdown'' (OtherProc ''shutdownCommand'') 1 {} None 0 0 0,
    redis_command ''lastsave'' (OtherProc ''lastsaveCommand'') 1 {} None 0 0 0,
    redis_command ''type'' TypeCommand 2 {} None 1 1 1,
    redis_command ''multi'' MultiCommand 1 {} None 0 0 0,
    redis_command ''exec'' ExecCommand 1 {REDIS_CMD_DENYOOM} (Some ExecBlockClientOnSwappedKeys) 0 0 0,
    redis_command ''discard'' DiscardCommand 1 {} None 0 0 0,
    redis_command ''sync'' (OtherProc ''syncCommand'') 1 {} None 0 0 0,
    redis_command ''flushdb'' FlushdbCommand 1 {} None 0 0 0,
    redis_command ''flushall'' FlushallCommand 1 {} None 0 0 0,
    redis_command ''sort'' (OtherProc ''sortCommand'') (-2) {REDIS_CMD_DENYOOM} None 1 1 1,
    redis_command ''info'' (OtherProc ''infoCommand'') 1 {} None 0 0 0,
    redis_command ''monitor'' (OtherProc ''monitorCommand'') 1 {} None 0 0 0,
    redis_command ''ttl'' TtlCommand 2 {} None 1 1 1,
    redis_command ''persist'' PersistCommand 2 {} None 1 1 1,
    redis_command ''slaveof'' (OtherProc ''slaveofCommand'') 3 {} None 0 0 0,
    redis_command ''debug'' (OtherProc ''debugCommand'') (-2) {} None 0 0 0,
    redis_command ''config'' (OtherProc ''configCommand'') (-2) {} None 0 0 0,
    redis_command ''subscribe'' (OtherProc ''subscribeCommand'') (-2) {} None 0 0 0,
    redis_command ''unsubscribe'' (OtherProc ''unsubscribeCommand'') (-1) {} None 0 0 0,
    redis_command ''psubscribe'' (OtherProc ''psubscribeCommand'') (-2) {} None 0 0 0,
    redis_command ''punsubscribe'' (OtherProc ''punsubscribeCommand'') (-1) {} None 0 0 0,
    redis_command ''publish'' (OtherProc ''publishCommand'') 3 {REDIS_CMD_FORCE_REPLICATION} None 0 0 0,
    redis_command ''watch'' WatchCommand (-2) {} None 0 0 0,
    redis_command ''unwatch'' UnwatchCommand 1 {} None 0 0 0,
    redis_command ''object'' (OtherProc ''objectCommand'') (-2) {} None 0 0 0,
    redis_command ''client'' (OtherProc ''clientCommand'') (-2) {} None 0 0 0,
    redis_command ''slowlog'' (OtherProc ''slowlogCommand'') (-2) {} None 0 0 0]"

section \<open>State\<close>

record redisDb =
  db_dict :: "byte list \<rightharpoonup> robj"
  db_expires :: "byte list \<rightharpoonup> int"
  db_watched :: "byte list \<rightharpoonup> nat list"

record multiCmd =
  m_cmd :: redisCommand
  m_argv :: "byte list list"

text \<open>A watched key is the key and the number of its data base.\<close>

record redisClient =
  k_db :: nat
  k_argv :: "byte list list"
  k_cmd :: "redisCommand option"
  k_flags :: "client_flag set"
  k_authenticated :: bool
  k_mstate :: "multiCmd list"
  k_watched :: "(byte list \<times> nat) list"
  k_subscriptions :: nat
  k_out :: "byte list"

text \<open>What was fed to the append only file, the slaves and the monitors: the data base and the
  arguments.\<close>

datatype feed = FeedAOF nat "byte list list" | FeedSlaves nat "byte list list" | FeedMonitors nat "byte list list"

record redisServer =
  s_db :: "redisDb list"
  s_clients :: "nat \<rightharpoonup> redisClient"
  s_commands :: "(byte list, redisCommand) dict"
  s_dirty :: int
  s_time :: int
  s_erange :: bool
  s_loading :: bool
  s_masterhost :: bool
  s_repl_connected :: bool
  s_serve_stale :: bool
  s_requirepass :: bool
  s_maxmemory :: int
  s_appendonly :: bool
  s_saveparams :: bool
  s_has_slaves :: bool
  s_has_monitors :: bool
  s_feeds :: "feed list"

section \<open>Access and replies\<close>

definition upd_client :: "nat \<Rightarrow> (redisClient \<Rightarrow> redisClient) \<Rightarrow> redisServer \<Rightarrow> redisServer" where
  "upd_client i f s = s\<lparr>s_clients := (s_clients s)(i := map_option f (s_clients s i))\<rparr>"

definition upd_db :: "nat \<Rightarrow> (redisDb \<Rightarrow> redisDb) \<Rightarrow> redisServer \<Rightarrow> redisServer" where
  "upd_db d f s = s\<lparr>s_db := (s_db s)[d := f (s_db s ! d)]\<rparr>"

definition add_dirty :: "int \<Rightarrow> redisServer \<Rightarrow> redisServer" where
  "add_dirty n s = s\<lparr>s_dirty := s_dirty s + n\<rparr>"

definition client_db :: "nat \<Rightarrow> redisServer \<Rightarrow> nat option" where
  "client_db i s = do { c \<leftarrow> s_clients s i; require (k_db c < length (s_db s)); Some (k_db c) }"

definition argc :: "nat \<Rightarrow> redisServer \<Rightarrow> nat option" where
  "argc i s = map_option (\<lambda>c. length (k_argv c)) (s_clients s i)"

definition argv :: "nat \<Rightarrow> nat \<Rightarrow> redisServer \<Rightarrow> byte list option" where
  "argv j i s = do { c \<leftarrow> s_clients s i; require (j < length (k_argv c)); Some (k_argv c ! j) }"

text \<open>\<^verbatim>\<open>addReply\<close> and its variants, on the stream of bytes.\<close>

definition addReply_bytes :: "byte list \<Rightarrow> nat \<Rightarrow> redisServer \<Rightarrow> redisServer" where
  "addReply_bytes b i = upd_client i (\<lambda>c. if REDIS_CLOSE_AFTER_REPLY \<in> k_flags c then c else c\<lparr>k_out := k_out c @ b\<rparr>)"

definition reply_line :: "string \<Rightarrow> byte list" where
  "reply_line s = ascii_text s @ [13, 10]"

definition reply_error :: "byte list \<Rightarrow> nat \<Rightarrow> redisServer \<Rightarrow> redisServer" where
  "reply_error msg = addReply_bytes (ascii_text ''-ERR '' @ msg @ [13, 10])"

definition reply_longlong :: "int \<Rightarrow> nat \<Rightarrow> redisServer \<Rightarrow> redisServer" where
  "reply_longlong n = addReply_bytes (58 # dec_repr n @ [13, 10])"

definition bulk_bytes :: "byte list \<Rightarrow> byte list" where
  "bulk_bytes b = 36 # dec_nat (length b) @ [13, 10] @ b @ [13, 10]"

definition reply_bulk :: "byte list \<Rightarrow> nat \<Rightarrow> redisServer \<Rightarrow> redisServer" where
  "reply_bulk b = addReply_bytes (bulk_bytes b)"

definition reply_multibulklen :: "nat \<Rightarrow> nat \<Rightarrow> redisServer \<Rightarrow> redisServer" where
  "reply_multibulklen n = addReply_bytes (42 # dec_nat n @ [13, 10])"

definition shared_ok :: "byte list" where "shared_ok = reply_line ''+OK''"
definition shared_czero :: "byte list" where "shared_czero = reply_line '':0''"
definition shared_cone :: "byte list" where "shared_cone = reply_line '':1''"
definition shared_nullbulk :: "byte list" where "shared_nullbulk = reply_line ''$-1''"
definition shared_emptybulk :: "byte list" where "shared_emptybulk = reply_line ''$0'' @ [13, 10]"
definition shared_nullmultibulk :: "byte list" where "shared_nullmultibulk = reply_line ''*-1''"
definition shared_pong :: "byte list" where "shared_pong = reply_line ''+PONG''"
definition shared_queued :: "byte list" where "shared_queued = reply_line ''+QUEUED''"
definition shared_wrongtypeerr :: "byte list" where
  "shared_wrongtypeerr = reply_line ''-ERR Operation against a key holding the wrong kind of value''"
definition shared_nokeyerr :: "byte list" where "shared_nokeyerr = reply_line ''-ERR no such key''"
definition shared_sameobjecterr :: "byte list" where
  "shared_sameobjecterr = reply_line ''-ERR source and destination objects are the same''"
definition shared_outofrangeerr :: "byte list" where "shared_outofrangeerr = reply_line ''-ERR index out of range''"
definition shared_loadingerr :: "byte list" where
  "shared_loadingerr = reply_line ''-LOADING Redis is loading the dataset in memory''"

text \<open>The bytes of a string object, as \<^verbatim>\<open>addReply\<close> and \<^verbatim>\<open>getDecodedObject\<close> give them.\<close>

definition object_text :: "robj \<Rightarrow> byte list option" where
  "object_text ob =
     do { dec \<leftarrow> getDecodedObject 0 ob;
          case o_ptr dec of PtrSds b \<Rightarrow> Some b | PtrLong _ \<Rightarrow> None }"

text \<open>Numbers in arguments. \<open>s_erange\<close> says whether \<^verbatim>\<open>errno\<close> is left at \<^verbatim>\<open>ERANGE\<close> when the command starts.
  \<^verbatim>\<open>atoi\<close> converts what \<^verbatim>\<open>strtol\<close> reads to \<^verbatim>\<open>int\<close>.\<close>

definition atoi :: "byte list \<Rightarrow> int" where
  "atoi b = to_s32 (fst (strtoll b))"

definition conv_error :: "conv_reply \<Rightarrow> byte list" where
  "conv_error r =
     (case r of
        ErrCustom m \<Rightarrow> m
      | ErrOutOfRange \<Rightarrow> ascii_text ''value is out of range''
      | _ \<Rightarrow> ascii_text ''value is not an integer or out of range'')"

end
