(* ===== verification/KeySpace.thy ===== *)
theory KeySpace
  imports Server
begin

text \<open>
  The key space, \<^verbatim>\<open>src/webserver/redis/src/db.c\<close>: access to the keys of a data base, expires, the
  hooks that tell the clients watching a key (from \<^verbatim>\<open>multi.c\<close>), and the commands that work on
  keys of any type. The model is of a server without virtual memory, which does not snapshot.

  A function of the code that works on a \<^verbatim>\<open>redisDb\<close> takes the number of the data base. The result
  \<open>None\<close> is a failed assertion or undefined behaviour. A command takes the number of the client.
\<close>

section \<open>Watched keys that are touched\<close>

definition mark_dirty :: "redisClient \<Rightarrow> redisClient" where
  "mark_dirty c = c\<lparr>k_flags := insert REDIS_DIRTY_CAS (k_flags c)\<rparr>"

text \<open>A client in the list that does not exist would be a dangling pointer.\<close>

definition touchWatchedKey :: "nat \<Rightarrow> byte list \<Rightarrow> redisServer \<Rightarrow> redisServer option" where
  "touchWatchedKey d k s =
     (case db_watched (s_db s ! d) k of
        None \<Rightarrow> Some s
      | Some clients \<Rightarrow>
          do { require (list_all (\<lambda>i. s_clients s i \<noteq> None) clients);
               Some (fold (\<lambda>i. upd_client i mark_dirty) clients s) })"

text \<open>The iteration over all clients, which only sets flags, is done at once.\<close>

definition flush_hits :: "int \<Rightarrow> redisServer \<Rightarrow> redisClient \<Rightarrow> bool" where
  "flush_hits dbid s c \<longleftrightarrow>
     list_ex (\<lambda>(k, d). (dbid = -1 \<or> int d = dbid) \<and> db_dict (s_db s ! d) k \<noteq> None) (k_watched c)"

definition touchWatchedKeysOnFlush :: "int \<Rightarrow> redisServer \<Rightarrow> redisServer" where
  "touchWatchedKeysOnFlush dbid s =
     s\<lparr>s_clients := (\<lambda>i. map_option (\<lambda>c. if flush_hits dbid s c then mark_dirty c else c) (s_clients s i))\<rparr>"

definition signalModifiedKey :: "nat \<Rightarrow> byte list \<Rightarrow> redisServer \<Rightarrow> redisServer option" where
  "signalModifiedKey d k s = touchWatchedKey d k s"

definition signalFlushedDb :: "int \<Rightarrow> redisServer \<Rightarrow> redisServer" where
  "signalFlushedDb dbid s = touchWatchedKeysOnFlush dbid s"

section \<open>Keys\<close>

definition lookupKey :: "nat \<Rightarrow> byte list \<Rightarrow> redisServer \<Rightarrow> robj option" where
  "lookupKey d k s = db_dict (s_db s ! d) k"

definition dbAdd :: "nat \<Rightarrow> byte list \<Rightarrow> robj \<Rightarrow> redisServer \<Rightarrow> redisServer option" where
  "dbAdd d k v s =
     do { require (db_dict (s_db s ! d) k = None);
          Some (upd_db d (\<lambda>db. db\<lparr>db_dict := (db_dict db)(k \<mapsto> v)\<rparr>) s) }"

definition dbOverwrite :: "nat \<Rightarrow> byte list \<Rightarrow> robj \<Rightarrow> redisServer \<Rightarrow> redisServer option" where
  "dbOverwrite d k v s =
     do { require (db_dict (s_db s ! d) k \<noteq> None);
          Some (upd_db d (\<lambda>db. db\<lparr>db_dict := (db_dict db)(k \<mapsto> v)\<rparr>) s) }"

definition dbExists :: "nat \<Rightarrow> byte list \<Rightarrow> redisServer \<Rightarrow> bool" where
  "dbExists d k s \<longleftrightarrow> db_dict (s_db s ! d) k \<noteq> None"

definition dbDelete :: "nat \<Rightarrow> byte list \<Rightarrow> redisServer \<Rightarrow> redisServer \<times> bool" where
  "dbDelete d k s =
     (upd_db d (\<lambda>db. db\<lparr>db_dict := (db_dict db)(k := None), db_expires := (db_expires db)(k := None)\<rparr>) s,
      db_dict (s_db s ! d) k \<noteq> None)"

definition emptyDb :: "redisServer \<Rightarrow> redisServer \<times> int" where
  "emptyDb s =
     (s\<lparr>s_db := map (\<lambda>db. db\<lparr>db_dict := Map.empty, db_expires := Map.empty\<rparr>) (s_db s)\<rparr>,
      sum_list (map (\<lambda>db. int (card (dom (db_dict db)))) (s_db s)))"

definition selectDb :: "nat \<Rightarrow> int \<Rightarrow> redisServer \<Rightarrow> redisServer option" where
  "selectDb i n s =
     (if n < 0 \<or> n \<ge> int (length (s_db s)) then None
      else Some (upd_client i (\<lambda>c. c\<lparr>k_db := nat n\<rparr>) s))"

section \<open>Expires\<close>

definition removeExpire :: "nat \<Rightarrow> byte list \<Rightarrow> redisServer \<Rightarrow> (redisServer \<times> bool) option" where
  "removeExpire d k s =
     do { require (db_dict (s_db s ! d) k \<noteq> None);
          Some (upd_db d (\<lambda>db. db\<lparr>db_expires := (db_expires db)(k := None)\<rparr>) s, db_expires (s_db s ! d) k \<noteq> None) }"

definition setExpire :: "nat \<Rightarrow> byte list \<Rightarrow> int \<Rightarrow> redisServer \<Rightarrow> redisServer option" where
  "setExpire d k when s =
     do { require (db_dict (s_db s ! d) k \<noteq> None);
          Some (upd_db d (\<lambda>db. db\<lparr>db_expires := (db_expires db)(k \<mapsto> when)\<rparr>) s) }"

definition getExpire :: "nat \<Rightarrow> byte list \<Rightarrow> redisServer \<Rightarrow> int option" where
  "getExpire d k s =
     (case db_expires (s_db s ! d) k of
        None \<Rightarrow> Some (-1)
      | Some when \<Rightarrow> do { require (db_dict (s_db s ! d) k \<noteq> None); Some when })"

definition add_feed :: "bool \<Rightarrow> feed \<Rightarrow> redisServer \<Rightarrow> redisServer" where
  "add_feed on f s = (if on then s\<lparr>s_feeds := s_feeds s @ [f]\<rparr> else s)"

definition propagateExpire :: "nat \<Rightarrow> byte list \<Rightarrow> redisServer \<Rightarrow> redisServer" where
  "propagateExpire d k s =
     (let av = [ascii_text ''DEL'', k] in
      add_feed (s_has_slaves s) (FeedSlaves d av) (add_feed (s_appendonly s) (FeedAOF d av) s))"

text \<open>The result says whether the key is expired, as the code's does.\<close>

definition expireIfNeeded :: "nat \<Rightarrow> byte list \<Rightarrow> redisServer \<Rightarrow> (redisServer \<times> bool) option" where
  "expireIfNeeded d k s =
     do { when \<leftarrow> getExpire d k s;
          if when < 0 then Some (s, False)
          else if s_loading s then Some (s, False)
          else if s_masterhost s then Some (s, s_time s > when)
          else if s_time s \<le> when then Some (s, False)
          else Some (dbDelete d k (propagateExpire d k s)) }"

definition lookupKeyRead :: "nat \<Rightarrow> byte list \<Rightarrow> redisServer \<Rightarrow> (redisServer \<times> robj option) option" where
  "lookupKeyRead d k s = do { (s, _) \<leftarrow> expireIfNeeded d k s; Some (s, lookupKey d k s) }"

definition lookupKeyWrite :: "nat \<Rightarrow> byte list \<Rightarrow> redisServer \<Rightarrow> (redisServer \<times> robj option) option" where
  "lookupKeyWrite d k s = do { (s, _) \<leftarrow> expireIfNeeded d k s; Some (s, lookupKey d k s) }"

definition lookupKeyReadOrReply :: "nat \<Rightarrow> byte list \<Rightarrow> byte list \<Rightarrow> redisServer \<Rightarrow> (redisServer \<times> robj option) option" where
  "lookupKeyReadOrReply i k msg s =
     do { d \<leftarrow> client_db i s;
          (s, ob) \<leftarrow> lookupKeyRead d k s;
          Some (if ob = None then addReply_bytes msg i s else s, ob) }"

definition lookupKeyWriteOrReply :: "nat \<Rightarrow> byte list \<Rightarrow> byte list \<Rightarrow> redisServer \<Rightarrow> (redisServer \<times> robj option) option" where
  "lookupKeyWriteOrReply i k msg s =
     do { d \<leftarrow> client_db i s;
          (s, ob) \<leftarrow> lookupKeyWrite d k s;
          Some (if ob = None then addReply_bytes msg i s else s, ob) }"

definition setKey :: "nat \<Rightarrow> byte list \<Rightarrow> robj \<Rightarrow> redisServer \<Rightarrow> redisServer option" where
  "setKey d k v s =
     do { (s, ob) \<leftarrow> lookupKeyWrite d k s;
          s \<leftarrow> (if ob = None then dbAdd d k v s else dbOverwrite d k v s);
          (s, _) \<leftarrow> removeExpire d k s;
          signalModifiedKey d k s }"

section \<open>Commands on keys of any type\<close>

definition flushdbCommand :: "nat \<Rightarrow> redisServer \<Rightarrow> redisServer option" where
  "flushdbCommand i s =
     do { d \<leftarrow> client_db i s;
          s \<leftarrow> Some (add_dirty (int (card (dom (db_dict (s_db s ! d))))) s);
          s \<leftarrow> Some (signalFlushedDb (int d) s);
          s \<leftarrow> Some (upd_db d (\<lambda>db. db\<lparr>db_dict := Map.empty, db_expires := Map.empty\<rparr>) s);
          Some (addReply_bytes shared_ok i s) }"

text \<open>When the data is saved, the count of changes is kept in an \<^verbatim>\<open>int\<close> meanwhile.\<close>

definition flushallCommand :: "nat \<Rightarrow> redisServer \<Rightarrow> redisServer option" where
  "flushallCommand i s =
     (case emptyDb (signalFlushedDb (-1) s) of
        (s, removed) \<Rightarrow>
          let s = addReply_bytes shared_ok i (add_dirty removed s);
              s = (if s_saveparams s then s\<lparr>s_dirty := to_s32 (s_dirty s)\<rparr> else s)
          in Some (add_dirty 1 s))"

fun del_loop :: "nat \<Rightarrow> byte list list \<Rightarrow> int \<Rightarrow> redisServer \<Rightarrow> (redisServer \<times> int) option" where
  "del_loop d [] deleted s = Some (s, deleted)"
| "del_loop d (k # ks) deleted s =
     (case dbDelete d k s of
        (s, True) \<Rightarrow> do { s \<leftarrow> signalModifiedKey d k s; del_loop d ks (deleted + 1) (add_dirty 1 s) }
      | (s, False) \<Rightarrow> del_loop d ks deleted s)"

definition args_from :: "nat \<Rightarrow> nat \<Rightarrow> redisServer \<Rightarrow> byte list list option" where
  "args_from j i s = map_option (\<lambda>c. drop j (k_argv c)) (s_clients s i)"

definition delCommand :: "nat \<Rightarrow> redisServer \<Rightarrow> redisServer option" where
  "delCommand i s =
     do { d \<leftarrow> client_db i s;
          ks \<leftarrow> args_from 1 i s;
          (s, deleted) \<leftarrow> del_loop d ks 0 s;
          Some (reply_longlong deleted i s) }"

definition existsCommand :: "nat \<Rightarrow> redisServer \<Rightarrow> redisServer option" where
  "existsCommand i s =
     do { d \<leftarrow> client_db i s;
          k \<leftarrow> argv 1 i s;
          (s, _) \<leftarrow> expireIfNeeded d k s;
          Some (addReply_bytes (if dbExists d k s then shared_cone else shared_czero) i s) }"

definition selectCommand :: "nat \<Rightarrow> redisServer \<Rightarrow> redisServer option" where
  "selectCommand i s =
     do { a \<leftarrow> argv 1 i s;
          Some (case selectDb i (atoi a) s of
            None \<Rightarrow> reply_error (ascii_text ''invalid DB index'') i s
          | Some s \<Rightarrow> addReply_bytes shared_ok i s) }"

definition dbsizeCommand :: "nat \<Rightarrow> redisServer \<Rightarrow> redisServer option" where
  "dbsizeCommand i s =
     do { d \<leftarrow> client_db i s; Some (reply_longlong (int (card (dom (db_dict (s_db s ! d))))) i s) }"

definition type_name :: "obj_type \<Rightarrow> string" where
  "type_name ty =
     (case ty of REDIS_STRING \<Rightarrow> ''string'' | REDIS_LIST \<Rightarrow> ''list'' | REDIS_SET \<Rightarrow> ''set''
      | REDIS_ZSET \<Rightarrow> ''zset'' | REDIS_HASH \<Rightarrow> ''hash'')"

definition typeCommand :: "nat \<Rightarrow> redisServer \<Rightarrow> redisServer option" where
  "typeCommand i s =
     do { d \<leftarrow> client_db i s;
          k \<leftarrow> argv 1 i s;
          (s, ob) \<leftarrow> lookupKeyRead d k s;
          Some (addReply_bytes (reply_line (CHR ''+'' # (case ob of None \<Rightarrow> ''none'' | Some ob \<Rightarrow> type_name (o_type ob)))) i s) }"

definition renameGenericCommand :: "bool \<Rightarrow> nat \<Rightarrow> redisServer \<Rightarrow> redisServer option" where
  "renameGenericCommand nx i s =
     do { d \<leftarrow> client_db i s;
          src \<leftarrow> argv 1 i s;
          dst \<leftarrow> argv 2 i s;
          if src = dst then Some (addReply_bytes shared_sameobjecterr i s)
          else do {
            (s, ob) \<leftarrow> lookupKeyWriteOrReply i src shared_nokeyerr s;
            case ob of
              None \<Rightarrow> Some s
            | Some ob \<Rightarrow> do {
                expire \<leftarrow> getExpire d src s;
                (s, old) \<leftarrow> lookupKeyWrite d dst s;
                if old \<noteq> None \<and> nx then Some (addReply_bytes shared_czero i s)
                else do {
                  s \<leftarrow> Some (if old \<noteq> None then fst (dbDelete d dst s) else s);
                  s \<leftarrow> dbAdd d dst ob s;
                  s \<leftarrow> (if expire \<noteq> -1 then setExpire d dst expire s else Some s);
                  s \<leftarrow> Some (fst (dbDelete d src s));
                  s \<leftarrow> signalModifiedKey d src s;
                  s \<leftarrow> signalModifiedKey d dst s;
                  Some (addReply_bytes (if nx then shared_cone else shared_ok) i (add_dirty 1 s)) } } } }"

definition renameCommand :: "nat \<Rightarrow> redisServer \<Rightarrow> redisServer option" where
  "renameCommand i s = renameGenericCommand False i s"

definition renamenxCommand :: "nat \<Rightarrow> redisServer \<Rightarrow> redisServer option" where
  "renamenxCommand i s = renameGenericCommand True i s"

definition moveCommand :: "nat \<Rightarrow> redisServer \<Rightarrow> redisServer option" where
  "moveCommand i s =
     do { src \<leftarrow> client_db i s;
          k \<leftarrow> argv 1 i s;
          n \<leftarrow> argv 2 i s;
          case selectDb i (atoi n) s of
            None \<Rightarrow> Some (addReply_bytes shared_outofrangeerr i s)
          | Some s \<Rightarrow> do {
              dst \<leftarrow> client_db i s;
              s \<leftarrow> selectDb i (int src) s;
              if src = dst then Some (addReply_bytes shared_sameobjecterr i s)
              else do {
                (s, ob) \<leftarrow> lookupKeyWrite src k s;
                case ob of
                  None \<Rightarrow> Some (addReply_bytes shared_czero i s)
                | Some ob \<Rightarrow> do {
                    (s, old) \<leftarrow> lookupKeyWrite dst k s;
                    if old \<noteq> None then Some (addReply_bytes shared_czero i s)
                    else do {
                      s \<leftarrow> dbAdd dst k ob s;
                      s \<leftarrow> Some (fst (dbDelete src k s));
                      Some (addReply_bytes shared_cone i (add_dirty 1 s)) } } } } }"

section \<open>Commands on expires\<close>

definition lookupCommand :: "byte list \<Rightarrow> redisServer \<Rightarrow> (redisServer \<times> redisCommand option) option" where
  "lookupCommand name s =
     do { (cmds, cmd) \<leftarrow> dictFetchValue commandTableDictType (s_commands s) name;
          Some (s\<lparr>s_commands := cmds\<rparr>, cmd) }"

definition rewriteClientCommandVector :: "byte list list \<Rightarrow> nat \<Rightarrow> redisServer \<Rightarrow> redisServer option" where
  "rewriteClientCommandVector av i s =
     do { (s, cmd) \<leftarrow> lookupCommand (hd av) s;
          require (cmd \<noteq> None);
          Some (upd_client i (\<lambda>c. c\<lparr>k_argv := av, k_cmd := cmd\<rparr>) s) }"

definition getLongFromArg :: "byte list option \<Rightarrow> byte list \<Rightarrow> redisServer \<Rightarrow> conv_reply option" where
  "getLongFromArg msg a s = getLongFromObjectOrReply LLONG_MIN LLONG_MAX (s_erange s) (Some (createStringObject 0 a)) msg"

text \<open>Signed arithmetic that would overflow has no result.\<close>

definition fits_long :: "int \<Rightarrow> bool" where
  "fits_long n \<longleftrightarrow> LLONG_MIN \<le> n \<and> n \<le> LLONG_MAX"

definition expireGenericCommand :: "byte list \<Rightarrow> byte list \<Rightarrow> int \<Rightarrow> nat \<Rightarrow> redisServer \<Rightarrow> redisServer option" where
  "expireGenericCommand k param offset i s =
     do { r \<leftarrow> getLongFromArg None param s;
          case r of
            ConvOk seconds \<Rightarrow> do {
              require (fits_long (seconds - offset));
              seconds \<leftarrow> Some (seconds - offset);
              d \<leftarrow> client_db i s;
              if \<not> dbExists d k s then Some (addReply_bytes shared_czero i s)
              else if seconds \<le> 0 \<and> \<not> s_loading s \<and> \<not> s_masterhost s then do {
                (s, deleted) \<leftarrow> Some (dbDelete d k s);
                require deleted;
                s \<leftarrow> rewriteClientCommandVector [ascii_text ''DEL'', k] i (add_dirty 1 s);
                s \<leftarrow> signalModifiedKey d k s;
                Some (addReply_bytes shared_cone i s) }
              else do {
                require (fits_long (s_time s + seconds));
                s \<leftarrow> setExpire d k (s_time s + seconds) s;
                s \<leftarrow> signalModifiedKey d k (addReply_bytes shared_cone i s);
                Some (add_dirty 1 s) } }
          | e \<Rightarrow> Some (reply_error (conv_error e) i s) }"

definition expireCommand :: "nat \<Rightarrow> redisServer \<Rightarrow> redisServer option" where
  "expireCommand i s = do { k \<leftarrow> argv 1 i s; a \<leftarrow> argv 2 i s; expireGenericCommand k a 0 i s }"

definition expireatCommand :: "nat \<Rightarrow> redisServer \<Rightarrow> redisServer option" where
  "expireatCommand i s = do { k \<leftarrow> argv 1 i s; a \<leftarrow> argv 2 i s; expireGenericCommand k a (s_time s) i s }"

definition ttlCommand :: "nat \<Rightarrow> redisServer \<Rightarrow> redisServer option" where
  "ttlCommand i s =
     do { d \<leftarrow> client_db i s;
          k \<leftarrow> argv 1 i s;
          expire \<leftarrow> getExpire d k s;
          ttl \<leftarrow> (if expire \<noteq> -1 then
                   do { require (fits_long (expire - s_time s));
                        Some (if expire - s_time s < 0 then -1 else expire - s_time s) }
                 else Some (-1));
          Some (reply_longlong ttl i s) }"

definition persistCommand :: "nat \<Rightarrow> redisServer \<Rightarrow> redisServer option" where
  "persistCommand i s =
     do { d \<leftarrow> client_db i s;
          k \<leftarrow> argv 1 i s;
          if \<not> dbExists d k s then Some (addReply_bytes shared_czero i s)
          else do {
            (s, removed) \<leftarrow> removeExpire d k s;
            Some (if removed then add_dirty 1 (addReply_bytes shared_cone i s) else addReply_bytes shared_czero i s) } }"

end
