(* ===== verification/TString.thy ===== *)
theory TString
  imports KeySpace
begin

text \<open>
  The string commands, \<^verbatim>\<open>src/webserver/redis/src/t_string.c\<close>. A string value that is modified in
  place is an sds of its contents, and the sds operations are those of \<open>Sds\<close>; a modification
  works on a raw copy when the value is integer-encoded, so it works on the text of the value.
  Sizes and offsets are computed at the widths of the code.
\<close>

section \<open>Values\<close>

definition sds_of :: "byte list \<Rightarrow> sds" where
  "sds_of b = \<lparr>sds_len = length b, sds_free = 0, sds_buf = b @ [0]\<rparr>"

definition raw_string :: "byte list \<Rightarrow> robj" where
  "raw_string b = createStringObject 0 b"

text \<open>An argument after \<^verbatim>\<open>tryObjectEncoding\<close>; a shared integer is an integer-encoded object.\<close>

definition encode_arg :: "byte list \<Rightarrow> redisServer \<Rightarrow> robj option" where
  "encode_arg a s =
     do { r \<leftarrow> tryObjectEncoding True (s_maxmemory s) (raw_string a);
          Some (case r of Own ob \<Rightarrow> ob | SharedInt n \<Rightarrow> createObject 0 REDIS_STRING (PtrLong n)) }"

definition getLongLongFromValue :: "byte list option \<Rightarrow> robj option \<Rightarrow> redisServer \<Rightarrow> conv_reply option" where
  "getLongLongFromValue msg ob s = getLongLongFromObjectOrReply (s_erange s) ob msg"

text \<open>The size is a \<^verbatim>\<open>long long\<close>: an unsigned sum of \<open>2 ^ 63\<close> or more is negative here.\<close>

definition checkStringLength :: "int \<Rightarrow> bool" where
  "checkStringLength n \<longleftrightarrow> to_s64 n \<le> 512 * 1024 * 1024"

definition too_long_error :: "byte list" where
  "too_long_error = ascii_text ''string exceeds maximum allowed size (512MB)''"

section \<open>Setting and getting\<close>

definition setGenericCommand :: "bool \<Rightarrow> byte list \<Rightarrow> robj \<Rightarrow> byte list option \<Rightarrow> nat \<Rightarrow> redisServer \<Rightarrow> redisServer option" where
  "setGenericCommand nx k v expire i s =
     do { r \<leftarrow> (case expire of None \<Rightarrow> Some (ConvOk 0) | Some a \<Rightarrow> getLongFromArg None a s);
          case r of
            ConvOk seconds \<Rightarrow>
              if expire \<noteq> None \<and> seconds \<le> 0 then
                Some (reply_error (ascii_text ''invalid expire time in SETEX'') i s)
              else do {
                d \<leftarrow> client_db i s;
                (s, old) \<leftarrow> lookupKeyWrite d k s;
                if old \<noteq> None \<and> nx then Some (addReply_bytes shared_czero i s)
                else do {
                  s \<leftarrow> setKey d k v s;
                  s \<leftarrow> Some (add_dirty 1 s);
                  s \<leftarrow> (if expire \<noteq> None then do { require (fits_long (s_time s + seconds)); setExpire d k (s_time s + seconds) s }
                       else Some s);
                  Some (addReply_bytes (if nx then shared_cone else shared_ok) i s) } }
          | e \<Rightarrow> Some (reply_error (conv_error e) i s) }"

definition setCommand :: "nat \<Rightarrow> redisServer \<Rightarrow> redisServer option" where
  "setCommand i s = do { k \<leftarrow> argv 1 i s; a \<leftarrow> argv 2 i s; v \<leftarrow> encode_arg a s; setGenericCommand False k v None i s }"

definition setnxCommand :: "nat \<Rightarrow> redisServer \<Rightarrow> redisServer option" where
  "setnxCommand i s = do { k \<leftarrow> argv 1 i s; a \<leftarrow> argv 2 i s; v \<leftarrow> encode_arg a s; setGenericCommand True k v None i s }"

definition setexCommand :: "nat \<Rightarrow> redisServer \<Rightarrow> redisServer option" where
  "setexCommand i s =
     do { k \<leftarrow> argv 1 i s; e \<leftarrow> argv 2 i s; a \<leftarrow> argv 3 i s; v \<leftarrow> encode_arg a s; setGenericCommand False k v (Some e) i s }"

text \<open>The result says whether the value is missing or a string (\<^verbatim>\<open>REDIS_OK\<close>).\<close>

definition getGenericCommand :: "nat \<Rightarrow> redisServer \<Rightarrow> (redisServer \<times> bool) option" where
  "getGenericCommand i s =
     do { k \<leftarrow> argv 1 i s;
          (s, ob) \<leftarrow> lookupKeyReadOrReply i k shared_nullbulk s;
          case ob of
            None \<Rightarrow> Some (s, True)
          | Some ob \<Rightarrow>
              if o_type ob \<noteq> REDIS_STRING then Some (addReply_bytes shared_wrongtypeerr i s, False)
              else do { b \<leftarrow> object_text ob; Some (reply_bulk b i s, True) } }"

definition getCommand :: "nat \<Rightarrow> redisServer \<Rightarrow> redisServer option" where
  "getCommand i s = map_option fst (getGenericCommand i s)"

definition getsetCommand :: "nat \<Rightarrow> redisServer \<Rightarrow> redisServer option" where
  "getsetCommand i s =
     do { (s, ok) \<leftarrow> getGenericCommand i s;
          if \<not> ok then Some s
          else do { k \<leftarrow> argv 1 i s; a \<leftarrow> argv 2 i s;
                    v \<leftarrow> encode_arg a s;
                    d \<leftarrow> client_db i s;
                    s \<leftarrow> setKey d k v s;
                    Some (add_dirty 1 s) } }"

section \<open>Bits\<close>

definition bit_offset_error :: "byte list" where
  "bit_offset_error = ascii_text ''bit offset is not an integer or out of range''"

text \<open>The offset, or the error.\<close>

definition getBitOffsetFromArgument :: "byte list \<Rightarrow> redisServer \<Rightarrow> conv_reply option" where
  "getBitOffsetFromArgument a s =
     do { r \<leftarrow> getLongLongFromValue (Some bit_offset_error) (Some (raw_string a)) s;
          Some (case r of
              ConvOk n \<Rightarrow> if n < 0 \<or> n div 8 \<ge> 512 * 1024 * 1024 then ErrCustom bit_offset_error else ConvOk n
            | e \<Rightarrow> e) }"

definition bit_mask :: "nat \<Rightarrow> byte" where
  "bit_mask off = push_bit (7 - off mod 8) 1"

definition set_bit_at :: "byte list \<Rightarrow> nat \<Rightarrow> bool \<Rightarrow> (byte list \<times> bool) option" where
  "set_bit_at b off on =
     do { q \<leftarrow> sdsgrowzero (sds_of b) (off div 8 + 1);
          b \<leftarrow> Some (sds_str q);
          byteval \<leftarrow> mem_byte b (off div 8);
          b' \<leftarrow> mem_write b (off div 8) [(byteval AND NOT (bit_mask off)) OR (if on then bit_mask off else 0)];
          Some (b', byteval AND bit_mask off \<noteq> 0) }"

definition setbitCommand :: "nat \<Rightarrow> redisServer \<Rightarrow> redisServer option" where
  "setbitCommand i s =
     do { k \<leftarrow> argv 1 i s; a \<leftarrow> argv 2 i s; o_arg \<leftarrow> argv 3 i s;
          r \<leftarrow> getBitOffsetFromArgument a s;
          case r of
            ConvOk off \<Rightarrow> do {
              r \<leftarrow> getLongFromArg (Some (ascii_text ''bit is not an integer or out of range'')) o_arg s;
              case r of
                ConvOk on \<Rightarrow>
                  if on \<noteq> 0 \<and> on \<noteq> 1 then Some (reply_error (ascii_text ''bit is not an integer or out of range'') i s)
                  else do {
                    d \<leftarrow> client_db i s;
                    (s, ob) \<leftarrow> lookupKeyWrite d k s;
                    if ob \<noteq> None \<and> o_type (the ob) \<noteq> REDIS_STRING then Some (addReply_bytes shared_wrongtypeerr i s)
                    else do {
                      b \<leftarrow> (case ob of None \<Rightarrow> Some [] | Some ob \<Rightarrow> object_text ob);
                      (b, was) \<leftarrow> set_bit_at b (nat off) (on = 1);
                      s \<leftarrow> (if ob = None then dbAdd d k (raw_string b) s else dbOverwrite d k (raw_string b) s);
                      s \<leftarrow> signalModifiedKey d k s;
                      Some (addReply_bytes (if was then shared_cone else shared_czero) i (add_dirty 1 s)) } }
              | e \<Rightarrow> Some (reply_error (conv_error e) i s) }
          | e \<Rightarrow> Some (reply_error (conv_error e) i s) }"

definition getbitCommand :: "nat \<Rightarrow> redisServer \<Rightarrow> redisServer option" where
  "getbitCommand i s =
     do { k \<leftarrow> argv 1 i s; a \<leftarrow> argv 2 i s;
          r \<leftarrow> getBitOffsetFromArgument a s;
          case r of
            ConvOk off \<Rightarrow> do {
              (s, ob) \<leftarrow> lookupKeyReadOrReply i k shared_czero s;
              case ob of
                None \<Rightarrow> Some s
              | Some ob \<Rightarrow>
                  if o_type ob \<noteq> REDIS_STRING then Some (addReply_bytes shared_wrongtypeerr i s)
                  else do {
                    b \<leftarrow> object_text ob;
                    bitval \<leftarrow> (if nat off div 8 < length b then
                                do { x \<leftarrow> mem_byte b (nat off div 8); Some (x AND bit_mask (nat off) \<noteq> 0) }
                              else Some False);
                    Some (addReply_bytes (if bitval then shared_cone else shared_czero) i s) } }
          | e \<Rightarrow> Some (reply_error (conv_error e) i s) }"

section \<open>Ranges\<close>

definition set_range_at :: "byte list \<Rightarrow> int \<Rightarrow> byte list \<Rightarrow> byte list option" where
  "set_range_at b offset value =
     do { q \<leftarrow> sdsgrowzero (sds_of b) (nat (to_u64 (offset + int (length value))));
          mem_write (sds_str q) (nat offset) value }"

definition setrangeCommand :: "nat \<Rightarrow> redisServer \<Rightarrow> redisServer option" where
  "setrangeCommand i s =
     do { k \<leftarrow> argv 1 i s; a \<leftarrow> argv 2 i s; value \<leftarrow> argv 3 i s;
          r \<leftarrow> getLongFromArg None a s;
          case r of
            ConvOk offset \<Rightarrow>
              if offset < 0 then Some (reply_error (ascii_text ''offset is out of range'') i s)
              else do {
                d \<leftarrow> client_db i s;
                (s, ob) \<leftarrow> lookupKeyWrite d k s;
                if ob \<noteq> None \<and> o_type (the ob) \<noteq> REDIS_STRING then Some (addReply_bytes shared_wrongtypeerr i s)
                else if value = [] then
                  (case ob of
                     None \<Rightarrow> Some (addReply_bytes shared_czero i s)
                   | Some ob \<Rightarrow> do { olen \<leftarrow> stringObjectLen ob; Some (reply_longlong (int olen) i s) })
                else if \<not> checkStringLength (to_u64 (offset + int (length value))) then
                  Some (reply_error too_long_error i s)
                else do {
                  b \<leftarrow> (case ob of None \<Rightarrow> Some [] | Some ob \<Rightarrow> object_text ob);
                  b \<leftarrow> set_range_at b offset value;
                  s \<leftarrow> (if ob = None then dbAdd d k (raw_string b) s else dbOverwrite d k (raw_string b) s);
                  s \<leftarrow> signalModifiedKey d k s;
                  Some (reply_longlong (int (length b)) i (add_dirty 1 s)) } }
          | e \<Rightarrow> Some (reply_error (conv_error e) i s) }"

text \<open>The indices after conversion. The end is compared after a conversion to \<^verbatim>\<open>unsigned\<close>, of 32 bits.\<close>

definition range_indices :: "int \<Rightarrow> int \<Rightarrow> int \<Rightarrow> int \<times> int" where
  "range_indices start en len =
     (let start = (if start < 0 then len + start else start);
          en = (if en < 0 then len + en else en);
          start = (if start < 0 then 0 else start);
          en = (if en < 0 then 0 else en);
          en = (if to_u32 en \<ge> len then len - 1 else en)
      in (start, en))"

text \<open>The bytes are read from the block of the string, which ends with a NUL.\<close>

definition getrangeCommand :: "nat \<Rightarrow> redisServer \<Rightarrow> redisServer option" where
  "getrangeCommand i s =
     do { k \<leftarrow> argv 1 i s; a \<leftarrow> argv 2 i s; e_arg \<leftarrow> argv 3 i s;
          r \<leftarrow> getLongFromArg None a s;
          case r of
            ConvOk start \<Rightarrow> do {
              r \<leftarrow> getLongFromArg None e_arg s;
              case r of
                ConvOk en \<Rightarrow> do {
                  (s, ob) \<leftarrow> lookupKeyReadOrReply i k shared_emptybulk s;
                  case ob of
                    None \<Rightarrow> Some s
                  | Some ob \<Rightarrow>
                      if o_type ob \<noteq> REDIS_STRING then Some (addReply_bytes shared_wrongtypeerr i s)
                      else do {
                        b \<leftarrow> object_text ob;
                        (start, en) \<leftarrow> Some (range_indices start en (int (length b)));
                        if start > en then Some (addReply_bytes shared_emptybulk i s)
                        else do { x \<leftarrow> mem_read (b @ [0]) (nat start) (nat (en - start + 1)); Some (reply_bulk x i s) } } }
              | e \<Rightarrow> Some (reply_error (conv_error e) i s) }
          | e \<Rightarrow> Some (reply_error (conv_error e) i s) }"

section \<open>Several keys\<close>

fun mget_loop :: "nat \<Rightarrow> byte list list \<Rightarrow> nat \<Rightarrow> redisServer \<Rightarrow> redisServer option" where
  "mget_loop d [] i s = Some s"
| "mget_loop d (k # ks) i s =
     do { (s, ob) \<leftarrow> lookupKeyRead d k s;
          s \<leftarrow> (case ob of
                None \<Rightarrow> Some (addReply_bytes shared_nullbulk i s)
              | Some ob \<Rightarrow>
                  if o_type ob \<noteq> REDIS_STRING then Some (addReply_bytes shared_nullbulk i s)
                  else do { b \<leftarrow> object_text ob; Some (reply_bulk b i s) });
          mget_loop d ks i s }"

definition mgetCommand :: "nat \<Rightarrow> redisServer \<Rightarrow> redisServer option" where
  "mgetCommand i s =
     do { d \<leftarrow> client_db i s;
          ks \<leftarrow> args_from 1 i s;
          mget_loop d ks i (reply_multibulklen (length ks) i s) }"

fun busy_loop :: "nat \<Rightarrow> byte list list \<Rightarrow> nat \<Rightarrow> redisServer \<Rightarrow> (redisServer \<times> nat) option" where
  "busy_loop d (k # v # kvs) busykeys s =
     do { (s, ob) \<leftarrow> lookupKeyWrite d k s; busy_loop d kvs (if ob \<noteq> None then busykeys + 1 else busykeys) s }"
| "busy_loop d kvs busykeys s = Some (s, busykeys)"

fun mset_loop :: "nat \<Rightarrow> byte list list \<Rightarrow> redisServer \<Rightarrow> redisServer option" where
  "mset_loop d (k # a # kvs) s = do { v \<leftarrow> encode_arg a s; s \<leftarrow> setKey d k v s; mset_loop d kvs s }"
| "mset_loop d kvs s = Some s"

definition msetGenericCommand :: "bool \<Rightarrow> nat \<Rightarrow> redisServer \<Rightarrow> redisServer option" where
  "msetGenericCommand nx i s =
     do { n \<leftarrow> argc i s;
          if n mod 2 = 0 then Some (reply_error (ascii_text ''wrong number of arguments for MSET'') i s)
          else do {
            d \<leftarrow> client_db i s;
            kvs \<leftarrow> args_from 1 i s;
            (s, busykeys) \<leftarrow> (if nx then busy_loop d kvs 0 s else Some (s, 0));
            if busykeys > 0 then Some (addReply_bytes shared_czero i s)
            else do {
              s \<leftarrow> mset_loop d kvs s;
              Some (addReply_bytes (if nx then shared_cone else shared_ok) i (add_dirty (int ((n - 1) div 2)) s)) } } }"

definition msetCommand :: "nat \<Rightarrow> redisServer \<Rightarrow> redisServer option" where
  "msetCommand i s = msetGenericCommand False i s"

definition msetnxCommand :: "nat \<Rightarrow> redisServer \<Rightarrow> redisServer option" where
  "msetnxCommand i s = msetGenericCommand True i s"

section \<open>Counting and appending\<close>

definition incr_overflows :: "int \<Rightarrow> int \<Rightarrow> bool" where
  "incr_overflows oldvalue incr \<longleftrightarrow>
     (incr < 0 \<and> oldvalue < 0 \<and> incr < LLONG_MIN - oldvalue) \<or>
     (incr > 0 \<and> oldvalue > 0 \<and> incr > LLONG_MAX - oldvalue)"

definition incrDecrCommand :: "int \<Rightarrow> nat \<Rightarrow> redisServer \<Rightarrow> redisServer option" where
  "incrDecrCommand incr i s =
     do { k \<leftarrow> argv 1 i s;
          d \<leftarrow> client_db i s;
          (s, ob) \<leftarrow> lookupKeyWrite d k s;
          if ob \<noteq> None \<and> o_type (the ob) \<noteq> REDIS_STRING then Some (addReply_bytes shared_wrongtypeerr i s)
          else do {
            r \<leftarrow> getLongLongFromValue None ob s;
            case r of
              ConvOk oldvalue \<Rightarrow>
                if incr_overflows oldvalue incr then
                  Some (reply_error (ascii_text ''increment or decrement would overflow'') i s)
                else do {
                  require (fits_long (oldvalue + incr));
                  new \<leftarrow> createStringObjectFromLongLong True 0 (oldvalue + incr);
                  v \<leftarrow> Some (case new of Own ob \<Rightarrow> ob | SharedInt n \<Rightarrow> createObject 0 REDIS_STRING (PtrLong n));
                  s \<leftarrow> (if ob \<noteq> None then dbOverwrite d k v s else dbAdd d k v s);
                  s \<leftarrow> signalModifiedKey d k s;
                  b \<leftarrow> object_text v;
                  Some (addReply_bytes (58 # b @ [13, 10]) i (add_dirty 1 s)) }
            | e \<Rightarrow> Some (reply_error (conv_error e) i s) } }"

definition incrCommand :: "nat \<Rightarrow> redisServer \<Rightarrow> redisServer option" where
  "incrCommand i s = incrDecrCommand 1 i s"

definition decrCommand :: "nat \<Rightarrow> redisServer \<Rightarrow> redisServer option" where
  "decrCommand i s = incrDecrCommand (-1) i s"

definition incrbyCommand :: "nat \<Rightarrow> redisServer \<Rightarrow> redisServer option" where
  "incrbyCommand i s =
     do { a \<leftarrow> argv 2 i s;
          r \<leftarrow> getLongLongFromValue None (Some (raw_string a)) s;
          case r of ConvOk incr \<Rightarrow> incrDecrCommand incr i s
          | e \<Rightarrow> Some (reply_error (conv_error e) i s) }"

text \<open>Negating the least \<^verbatim>\<open>long long\<close> is undefined.\<close>

definition decrbyCommand :: "nat \<Rightarrow> redisServer \<Rightarrow> redisServer option" where
  "decrbyCommand i s =
     do { a \<leftarrow> argv 2 i s;
          r \<leftarrow> getLongLongFromValue None (Some (raw_string a)) s;
          case r of ConvOk incr \<Rightarrow> do { require (incr \<noteq> LLONG_MIN); incrDecrCommand (- incr) i s }
          | e \<Rightarrow> Some (reply_error (conv_error e) i s) }"

definition append_text :: "byte list \<Rightarrow> byte list \<Rightarrow> byte list option" where
  "append_text b x = map_option sds_str (sdscatlen (sds_of b) x (length x))"

definition appendCommand :: "nat \<Rightarrow> redisServer \<Rightarrow> redisServer option" where
  "appendCommand i s =
     do { d \<leftarrow> client_db i s;
          k \<leftarrow> argv 1 i s; a \<leftarrow> argv 2 i s;
          (s, ob) \<leftarrow> lookupKeyWrite d k s;
          case ob of
            None \<Rightarrow> do {
              v \<leftarrow> encode_arg a s;
              s \<leftarrow> dbAdd d k v s;
              totlen \<leftarrow> stringObjectLen v;
              s \<leftarrow> signalModifiedKey d k s;
              Some (reply_longlong (int totlen) i (add_dirty 1 s)) }
          | Some ob \<Rightarrow>
              if o_type ob \<noteq> REDIS_STRING then Some (addReply_bytes shared_wrongtypeerr i s)
              else do {
                olen \<leftarrow> stringObjectLen ob;
                if \<not> checkStringLength (int (olen + length a)) then Some (reply_error too_long_error i s)
                else do {
                  b \<leftarrow> object_text ob;
                  b \<leftarrow> append_text b a;
                  s \<leftarrow> dbOverwrite d k (raw_string b) s;
                  s \<leftarrow> signalModifiedKey d k s;
                  Some (reply_longlong (int (length b)) i (add_dirty 1 s)) } } }"

definition strlenCommand :: "nat \<Rightarrow> redisServer \<Rightarrow> redisServer option" where
  "strlenCommand i s =
     do { k \<leftarrow> argv 1 i s;
          (s, ob) \<leftarrow> lookupKeyReadOrReply i k shared_czero s;
          case ob of
            None \<Rightarrow> Some s
          | Some ob \<Rightarrow>
              if o_type ob \<noteq> REDIS_STRING then Some (addReply_bytes shared_wrongtypeerr i s)
              else do { n \<leftarrow> stringObjectLen ob; Some (reply_longlong (int n) i s) } }"

end
