(* ===== verification/Multi.thy ===== *)
theory Multi
  imports TString
begin

text \<open>
  Command execution and transactions: \<^verbatim>\<open>call\<close> and \<^verbatim>\<open>processCommand\<close> of
  \<^verbatim>\<open>src/webserver/redis/src/redis.c\<close>, and MULTI, EXEC, DISCARD, WATCH and UNWATCH of \<^verbatim>\<open>multi.c\<close>.

  The commands of the other source files are the parameter \<open>oth\<close>, by the name of their function;
  \<open>evict\<close> is \<^verbatim>\<open>freeMemoryIfNeeded\<close>, with whether it failed. EXEC runs commands through \<^verbatim>\<open>call\<close>, which could run EXEC
  again; but EXEC is never queued (\<open>MultiSpec\<close> shows it), so here queued commands are run by a
  function that has no result for EXEC.
\<close>

section \<open>Queued commands\<close>

definition freeClientMultiState :: "nat \<Rightarrow> redisServer \<Rightarrow> redisServer" where
  "freeClientMultiState i = upd_client i (\<lambda>c. c\<lparr>k_mstate := []\<rparr>)"

definition initClientMultiState :: "nat \<Rightarrow> redisServer \<Rightarrow> redisServer" where
  "initClientMultiState i = upd_client i (\<lambda>c. c\<lparr>k_mstate := []\<rparr>)"

definition queueMultiCommand :: "nat \<Rightarrow> redisServer \<Rightarrow> redisServer option" where
  "queueMultiCommand i s =
     do { c \<leftarrow> s_clients s i;
          cmd \<leftarrow> k_cmd c;
          Some (upd_client i (\<lambda>c. c\<lparr>k_mstate := k_mstate c @ [\<lparr>m_cmd = cmd, m_argv = k_argv c\<rparr>]\<rparr>) s) }"

definition has_flag :: "client_flag \<Rightarrow> nat \<Rightarrow> redisServer \<Rightarrow> bool" where
  "has_flag f i s \<longleftrightarrow> (case s_clients s i of None \<Rightarrow> False | Some c \<Rightarrow> f \<in> k_flags c)"

definition clear_multi_flags :: "nat \<Rightarrow> redisServer \<Rightarrow> redisServer" where
  "clear_multi_flags i = upd_client i (\<lambda>c. c\<lparr>k_flags := k_flags c - {REDIS_MULTI, REDIS_DIRTY_CAS}\<rparr>)"

definition multiCommand :: "nat \<Rightarrow> redisServer \<Rightarrow> redisServer option" where
  "multiCommand i s =
     Some (if has_flag REDIS_MULTI i s then reply_error (ascii_text ''MULTI calls can not be nested'') i s
       else addReply_bytes shared_ok i (upd_client i (\<lambda>c. c\<lparr>k_flags := insert REDIS_MULTI (k_flags c)\<rparr>) s))"

section \<open>Watched keys\<close>

text \<open>The keys are raw objects, so \<^verbatim>\<open>equalStringObjects\<close> compares their bytes.\<close>

definition watchForKey :: "byte list \<Rightarrow> nat \<Rightarrow> redisServer \<Rightarrow> redisServer option" where
  "watchForKey k i s =
     do { c \<leftarrow> s_clients s i;
          d \<leftarrow> client_db i s;
          if (k, d) \<in> set (k_watched c) then Some s
          else do {
            clients \<leftarrow> Some (case db_watched (s_db s ! d) k of None \<Rightarrow> [] | Some l \<Rightarrow> l);
            s \<leftarrow> Some (upd_db d (\<lambda>db. db\<lparr>db_watched := (db_watched db)(k \<mapsto> clients @ [i])\<rparr>) s);
            Some (upd_client i (\<lambda>c. c\<lparr>k_watched := k_watched c @ [(k, d)]\<rparr>) s) } }"

text \<open>Removing the client from the list of the key, and the key when the list is empty. A client
  that is not in the list would give \<^verbatim>\<open>listDelNode\<close> a null pointer.\<close>

fun unwatch_loop :: "nat \<Rightarrow> (byte list \<times> nat) list \<Rightarrow> redisServer \<Rightarrow> redisServer option" where
  "unwatch_loop i [] s = Some s"
| "unwatch_loop i ((k, d) # ws) s =
     do { clients \<leftarrow> db_watched (s_db s ! d) k;
          require (i \<in> set clients);
          clients \<leftarrow> Some (remove1 i clients);
          s \<leftarrow> Some (upd_db d (\<lambda>db. db\<lparr>db_watched := (db_watched db)(k := if clients = [] then None else Some clients)\<rparr>) s);
          s \<leftarrow> Some (upd_client i (\<lambda>c. c\<lparr>k_watched := tl (k_watched c)\<rparr>) s);
          unwatch_loop i ws s }"

definition unwatchAllKeys :: "nat \<Rightarrow> redisServer \<Rightarrow> redisServer option" where
  "unwatchAllKeys i s = do { c \<leftarrow> s_clients s i; unwatch_loop i (k_watched c) s }"

fun watch_loop :: "byte list list \<Rightarrow> nat \<Rightarrow> redisServer \<Rightarrow> redisServer option" where
  "watch_loop [] i s = Some s"
| "watch_loop (k # ks) i s = do { s \<leftarrow> watchForKey k i s; watch_loop ks i s }"

definition watchCommand :: "nat \<Rightarrow> redisServer \<Rightarrow> redisServer option" where
  "watchCommand i s =
     (if has_flag REDIS_MULTI i s then Some (reply_error (ascii_text ''WATCH inside MULTI is not allowed'') i s)
      else do { ks \<leftarrow> args_from 1 i s; s \<leftarrow> watch_loop ks i s; Some (addReply_bytes shared_ok i s) })"

definition unwatchCommand :: "nat \<Rightarrow> redisServer \<Rightarrow> redisServer option" where
  "unwatchCommand i s =
     do { s \<leftarrow> unwatchAllKeys i s;
          s \<leftarrow> Some (upd_client i (\<lambda>c. c\<lparr>k_flags := k_flags c - {REDIS_DIRTY_CAS}\<rparr>) s);
          Some (addReply_bytes shared_ok i s) }"

definition discardCommand :: "nat \<Rightarrow> redisServer \<Rightarrow> redisServer option" where
  "discardCommand i s =
     (if \<not> has_flag REDIS_MULTI i s then Some (reply_error (ascii_text ''DISCARD without MULTI'') i s)
      else do {
        s \<leftarrow> Some (clear_multi_flags i (initClientMultiState i (freeClientMultiState i s)));
        s \<leftarrow> unwatchAllKeys i s;
        Some (addReply_bytes shared_ok i s) })"

section \<open>Running commands\<close>

definition pingCommand :: "nat \<Rightarrow> redisServer \<Rightarrow> redisServer option" where
  "pingCommand i s = Some (addReply_bytes shared_pong i s)"

definition echoCommand :: "nat \<Rightarrow> redisServer \<Rightarrow> redisServer option" where
  "echoCommand i s = do { a \<leftarrow> argv 1 i s; Some (reply_bulk a i s) }"

definition run_proc :: "(string \<Rightarrow> nat \<Rightarrow> redisServer \<Rightarrow> redisServer option) \<Rightarrow> redisProc \<Rightarrow> nat \<Rightarrow> redisServer \<Rightarrow> redisServer option" where
  "run_proc oth p =
     (case p of
        GetCommand \<Rightarrow> getCommand | SetCommand \<Rightarrow> setCommand | SetnxCommand \<Rightarrow> setnxCommand
      | SetexCommand \<Rightarrow> setexCommand | AppendCommand \<Rightarrow> appendCommand | StrlenCommand \<Rightarrow> strlenCommand
      | DelCommand \<Rightarrow> delCommand | ExistsCommand \<Rightarrow> existsCommand | SetbitCommand \<Rightarrow> setbitCommand
      | GetbitCommand \<Rightarrow> getbitCommand | SetrangeCommand \<Rightarrow> setrangeCommand | GetrangeCommand \<Rightarrow> getrangeCommand
      | IncrCommand \<Rightarrow> incrCommand | DecrCommand \<Rightarrow> decrCommand | MgetCommand \<Rightarrow> mgetCommand
      | IncrbyCommand \<Rightarrow> incrbyCommand | DecrbyCommand \<Rightarrow> decrbyCommand | GetsetCommand \<Rightarrow> getsetCommand
      | MsetCommand \<Rightarrow> msetCommand | MsetnxCommand \<Rightarrow> msetnxCommand | SelectCommand \<Rightarrow> selectCommand
      | MoveCommand \<Rightarrow> moveCommand | RenameCommand \<Rightarrow> renameCommand | RenamenxCommand \<Rightarrow> renamenxCommand
      | ExpireCommand \<Rightarrow> expireCommand | ExpireatCommand \<Rightarrow> expireatCommand | DbsizeCommand \<Rightarrow> dbsizeCommand
      | PingCommand \<Rightarrow> pingCommand | EchoCommand \<Rightarrow> echoCommand | TypeCommand \<Rightarrow> typeCommand
      | FlushdbCommand \<Rightarrow> flushdbCommand | FlushallCommand \<Rightarrow> flushallCommand | TtlCommand \<Rightarrow> ttlCommand
      | PersistCommand \<Rightarrow> persistCommand
      | MultiCommand \<Rightarrow> multiCommand | DiscardCommand \<Rightarrow> discardCommand
      | WatchCommand \<Rightarrow> watchCommand | UnwatchCommand \<Rightarrow> unwatchCommand
      | ExecCommand \<Rightarrow> (\<lambda>i s. None)
      | OtherProc n \<Rightarrow> oth n)"

text \<open>\<^verbatim>\<open>call\<close>, given how the function of a command is run.\<close>

definition call_with :: "(redisProc \<Rightarrow> nat \<Rightarrow> redisServer \<Rightarrow> redisServer option) \<Rightarrow> nat \<Rightarrow> redisServer \<Rightarrow> redisServer option" where
  "call_with run i s =
     do { c \<leftarrow> s_clients s i;
          cmd \<leftarrow> k_cmd c;
          dirty0 \<leftarrow> Some (s_dirty s);
          s \<leftarrow> run (c_proc cmd) i s;
          dirty \<leftarrow> Some (s_dirty s - dirty0);
          c \<leftarrow> s_clients s i;
          cmd \<leftarrow> k_cmd c;
          s \<leftarrow> Some (add_feed (s_appendonly s \<and> dirty > 0) (FeedAOF (k_db c) (k_argv c)) s);
          s \<leftarrow> Some (add_feed ((dirty > 0 \<or> REDIS_CMD_FORCE_REPLICATION \<in> c_flags cmd) \<and> s_has_slaves s)
                      (FeedSlaves (k_db c) (k_argv c)) s);
          Some (add_feed (s_has_monitors s) (FeedMonitors (k_db c) (k_argv c)) s) }"

definition execCommandReplicateMulti :: "nat \<Rightarrow> redisServer \<Rightarrow> redisServer option" where
  "execCommandReplicateMulti i s =
     do { c \<leftarrow> s_clients s i;
          s \<leftarrow> Some (add_feed (s_appendonly s) (FeedAOF (k_db c) [ascii_text ''MULTI'']) s);
          Some (add_feed (s_has_slaves s) (FeedSlaves (k_db c) [ascii_text ''MULTI'']) s) }"

text \<open>The queued commands in order; each puts its own arguments and command into the client.\<close>

fun exec_loop :: "(string \<Rightarrow> nat \<Rightarrow> redisServer \<Rightarrow> redisServer option) \<Rightarrow> multiCmd list \<Rightarrow> nat \<Rightarrow> redisServer \<Rightarrow> redisServer option" where
  "exec_loop oth [] i s = Some s"
| "exec_loop oth (m # ms) i s =
     do { s \<leftarrow> call_with (run_proc oth) i (upd_client i (\<lambda>c. c\<lparr>k_argv := m_argv m, k_cmd := Some (m_cmd m)\<rparr>) s);
          exec_loop oth ms i s }"

definition execCommand :: "(string \<Rightarrow> nat \<Rightarrow> redisServer \<Rightarrow> redisServer option) \<Rightarrow> nat \<Rightarrow> redisServer \<Rightarrow> redisServer option" where
  "execCommand oth i s =
     (if \<not> has_flag REDIS_MULTI i s then Some (reply_error (ascii_text ''EXEC without MULTI'') i s)
      else if has_flag REDIS_DIRTY_CAS i s then do {
        s \<leftarrow> Some (clear_multi_flags i (initClientMultiState i (freeClientMultiState i s)));
        s \<leftarrow> unwatchAllKeys i s;
        Some (addReply_bytes shared_nullmultibulk i s) }
      else do {
        s \<leftarrow> execCommandReplicateMulti i s;
        s \<leftarrow> unwatchAllKeys i s;
        c \<leftarrow> s_clients s i;
        s \<leftarrow> exec_loop oth (k_mstate c) i (reply_multibulklen (length (k_mstate c)) i s);
        s \<leftarrow> Some (upd_client i (\<lambda>c'. c'\<lparr>k_argv := k_argv c, k_cmd := k_cmd c\<rparr>) s);
        s \<leftarrow> Some (clear_multi_flags i (initClientMultiState i (freeClientMultiState i s)));
        Some (add_dirty 1 s) })"

definition run_command :: "(string \<Rightarrow> nat \<Rightarrow> redisServer \<Rightarrow> redisServer option) \<Rightarrow> redisProc \<Rightarrow> nat \<Rightarrow> redisServer \<Rightarrow> redisServer option" where
  "run_command oth p = (if p = ExecCommand then execCommand oth else run_proc oth p)"

definition call :: "(string \<Rightarrow> nat \<Rightarrow> redisServer \<Rightarrow> redisServer option) \<Rightarrow> nat \<Rightarrow> redisServer \<Rightarrow> redisServer option" where
  "call oth = call_with (run_command oth)"

section \<open>Requests\<close>

definition bad_arity :: "redisCommand \<Rightarrow> nat \<Rightarrow> bool" where
  "bad_arity cmd n \<longleftrightarrow> (c_arity cmd > 0 \<and> c_arity cmd \<noteq> int n) \<or> int n < - c_arity cmd"

text \<open>The tests before a command is run, in order: the error of the first that fails.\<close>

definition refusal :: "redisCommand \<Rightarrow> bool \<Rightarrow> redisClient \<Rightarrow> redisServer \<Rightarrow> byte list option" where
  "refusal cmd oom c s =
     (if s_requirepass s \<and> \<not> k_authenticated c \<and> c_proc cmd \<noteq> OtherProc ''authCommand'' then
        Some (reply_line ''-ERR operation not permitted'')
      else if oom then Some (ascii_text ''-ERR command not allowed when used memory > '' @ [39] @ ascii_text ''maxmemory'' @ [39, 13, 10])
      else if k_subscriptions c > 0 \<and>
          c_proc cmd \<notin> {OtherProc ''subscribeCommand'', OtherProc ''unsubscribeCommand'',
                        OtherProc ''psubscribeCommand'', OtherProc ''punsubscribeCommand''} then
        Some (reply_line ''-ERR only (P)SUBSCRIBE / (P)UNSUBSCRIBE / QUIT allowed in this context'')
      else if s_masterhost s \<and> \<not> s_repl_connected s \<and> \<not> s_serve_stale s \<and>
          c_proc cmd \<notin> {OtherProc ''infoCommand'', OtherProc ''slaveofCommand''} then
        Some (reply_line ''-ERR link with MASTER is down and slave-serve-stale-data is set to no'')
      else if s_loading s \<and> c_proc cmd \<noteq> OtherProc ''infoCommand'' then Some shared_loadingerr
      else None)"

text \<open>The memory test frees memory before its result is looked at, when the client may run
  commands at all.\<close>

definition memory_test :: "(redisServer \<Rightarrow> (redisServer \<times> bool) option) \<Rightarrow> redisCommand \<Rightarrow> redisClient \<Rightarrow> redisServer \<Rightarrow> (redisServer \<times> bool) option" where
  "memory_test evict cmd c s =
     (if s_requirepass s \<and> \<not> k_authenticated c \<and> c_proc cmd \<noteq> OtherProc ''authCommand'' then Some (s, False)
      else if s_maxmemory s \<noteq> 0 then
        do { (s, failed) \<leftarrow> evict s; Some (s, REDIS_CMD_DENYOOM \<in> c_flags cmd \<and> failed) }
      else Some (s, False))"

definition dispatch :: "(string \<Rightarrow> nat \<Rightarrow> redisServer \<Rightarrow> redisServer option) \<Rightarrow> redisCommand \<Rightarrow> nat \<Rightarrow> redisServer \<Rightarrow> redisServer option" where
  "dispatch oth cmd i s =
     (if has_flag REDIS_MULTI i s \<and> c_proc cmd \<notin> {ExecCommand, DiscardCommand, MultiCommand, WatchCommand} then
        do { s \<leftarrow> queueMultiCommand i s; Some (addReply_bytes shared_queued i s) }
      else call oth i s)"

text \<open>The result says whether the client is to be reset (\<^verbatim>\<open>REDIS_OK\<close>).\<close>

definition processCommand ::
  "(string \<Rightarrow> nat \<Rightarrow> redisServer \<Rightarrow> redisServer option) \<Rightarrow> (redisServer \<Rightarrow> (redisServer \<times> bool) option) \<Rightarrow>
     nat \<Rightarrow> redisServer \<Rightarrow> (bool \<times> redisServer) option" where
  "processCommand oth evict i s =
     do { name \<leftarrow> argv 0 i s;
          if dictSdsKeyCaseCompare name (ascii_text ''quit'') then
            Some (False, upd_client i (\<lambda>c. c\<lparr>k_flags := insert REDIS_CLOSE_AFTER_REPLY (k_flags c)\<rparr>) (addReply_bytes shared_ok i s))
          else do {
            (s, found) \<leftarrow> lookupCommand name s;
            s \<leftarrow> Some (upd_client i (\<lambda>c. c\<lparr>k_cmd := found\<rparr>) s);
            n \<leftarrow> argc i s;
            case found of
              None \<Rightarrow> Some (True, reply_error (ascii_text ''unknown command '' @ [39] @ c_str name @ [39]) i s)
            | Some cmd \<Rightarrow>
                if bad_arity cmd n then
                  Some (True, reply_error (ascii_text ''wrong number of arguments for '' @ [39] @ ascii_text (c_name cmd) @ [39] @ ascii_text '' command'') i s)
                else do {
                  c \<leftarrow> s_clients s i;
                  (s, oom) \<leftarrow> memory_test evict cmd c s;
                  case refusal cmd oom c s of
                    Some e \<Rightarrow> Some (True, addReply_bytes e i s)
                  | None \<Rightarrow> do { s \<leftarrow> dispatch oth cmd i s; Some (True, s) } } } }"

section \<open>Clients\<close>

definition new_client :: redisClient where
  "new_client = \<lparr>k_db = 0, k_argv = [], k_cmd = None, k_flags = {}, k_authenticated = False, k_mstate = [],
     k_watched = [], k_subscriptions = 0, k_out = []\<rparr>"

definition createClient :: "nat \<Rightarrow> redisServer \<Rightarrow> redisServer option" where
  "createClient i s = do { require (s_clients s i = None); Some (s\<lparr>s_clients := (s_clients s)(i \<mapsto> new_client)\<rparr>) }"

text \<open>Of \<^verbatim>\<open>freeClient\<close> the part that touches this state: the client stops watching and leaves the table of clients.
  Its subscriptions, blocked lists, replies, monitors and slaves are kept by code that is not modelled.\<close>

definition freeClient :: "nat \<Rightarrow> redisServer \<Rightarrow> redisServer option" where
  "freeClient i s = do { s \<leftarrow> unwatchAllKeys i s; Some (s\<lparr>s_clients := (s_clients s)(i := None)\<rparr>) }"

end
