(* ===== verification/KeySpec.thy ===== *)
theory KeySpec
  imports Multi
begin

text \<open>
  What the commands promise to clients that watch keys: a command tells every client watching a
  key whose value or expire it changes. The exceptions are shown at the end: MOVE and PERSIST.
\<close>

section \<open>Steps that tell\<close>

definition watches :: "redisServer \<Rightarrow> nat \<Rightarrow> nat \<Rightarrow> byte list \<Rightarrow> bool" where
  "watches s i d k \<longleftrightarrow> (\<exists>l. db_watched (s_db s ! d) k = Some l \<and> i \<in> set l)"

definition content :: "redisServer \<Rightarrow> nat \<Rightarrow> byte list \<Rightarrow> (robj \<times> int option) option" where
  "content s d k = map_option (\<lambda>v. (v, db_expires (s_db s ! d) k)) (db_dict (s_db s ! d) k)"

text \<open>The key had an expire, which has passed, and it is gone.\<close>

definition lapsed :: "redisServer \<Rightarrow> redisServer \<Rightarrow> nat \<Rightarrow> byte list \<Rightarrow> bool" where
  "lapsed s s' d k \<longleftrightarrow> content s' d k = None \<and> (\<exists>v w. content s d k = Some (v, Some w) \<and> w < s_time s')"

text \<open>What a command leaves alone.\<close>

definition client_quiet :: "nat \<Rightarrow> redisClient \<Rightarrow> redisClient \<Rightarrow> bool" where
  "client_quiet n c c' \<longleftrightarrow> (k_db c < n \<longrightarrow> k_db c' < n) \<and> k_watched c' = k_watched c \<and> k_mstate c' = k_mstate c \<and>
     (REDIS_MULTI \<in> k_flags c' \<longleftrightarrow> REDIS_MULTI \<in> k_flags c) \<and> (REDIS_DIRTY_CAS \<in> k_flags c \<longrightarrow> REDIS_DIRTY_CAS \<in> k_flags c')"

definition quiet :: "redisServer \<Rightarrow> redisServer \<Rightarrow> bool" where
  "quiet s s' \<longleftrightarrow> length (s_db s') = length (s_db s) \<and> s_time s' = s_time s \<and> s_maxmemory s' = s_maxmemory s \<and>
     (\<forall>d < length (s_db s). db_watched (s_db s' ! d) = db_watched (s_db s ! d)) \<and>
     (\<forall>i. rel_option (client_quiet (length (s_db s))) (s_clients s i) (s_clients s' i))"

text \<open>Keys in \<open>P\<close> may have changed without the clients having been told yet.\<close>

definition told :: "(nat \<times> byte list) set \<Rightarrow> redisServer \<Rightarrow> redisServer \<Rightarrow> bool" where
  "told P s s' \<longleftrightarrow> (\<forall>d < length (s_db s). \<forall>k. content s' d k = content s d k \<or> lapsed s s' d k \<or> (d, k) \<in> P \<or>
     (\<forall>i. watches s i d k \<longrightarrow> has_flag REDIS_DIRTY_CAS i s'))"

definition tells :: "(nat \<times> byte list) set \<Rightarrow> redisServer \<Rightarrow> redisServer \<Rightarrow> bool" where
  "tells P s s' \<longleftrightarrow> quiet s s' \<and> told P s s'"

named_theorems tell_intros \<open>steps of commands that keep the watching clients informed\<close>

lemma client_quiet_refl [simp]: "client_quiet n c c"
  by (simp add: client_quiet_def)

lemma quiet_refl: "quiet s s"
  by (simp add: quiet_def option.rel_refl)

lemma client_quiet_trans: "client_quiet n a b \<Longrightarrow> client_quiet n b c \<Longrightarrow> client_quiet n a c"
  by (auto simp: client_quiet_def)

lemma rel_quiet_trans: "rel_option (client_quiet n) x y \<Longrightarrow> rel_option (client_quiet n) y z \<Longrightarrow> rel_option (client_quiet n) x z"
  by (cases x; cases y; cases z) (auto intro: client_quiet_trans)

lemma quiet_trans: "quiet s s1 \<Longrightarrow> quiet s1 s2 \<Longrightarrow> quiet s s2"
  unfolding quiet_def using rel_quiet_trans by (metis (no_types, lifting))

lemma quiet_dirty: "quiet s s' \<Longrightarrow> has_flag REDIS_DIRTY_CAS i s \<Longrightarrow> has_flag REDIS_DIRTY_CAS i s'"
  by (cases "s_clients s i"; cases "s_clients s' i") (force simp: quiet_def has_flag_def client_quiet_def dest: spec [of _ i])+

lemma quiet_watches: "quiet s s' \<Longrightarrow> d < length (s_db s) \<Longrightarrow> watches s' i d k = watches s i d k"
  by (simp add: quiet_def watches_def)

lemma tells_refl [tell_intros]: "tells {} s s"
  by (simp add: tells_def quiet_refl told_def)

lemma tells_mono: "tells P s s' \<Longrightarrow> P \<subseteq> Q \<Longrightarrow> tells Q s s'"
  unfolding tells_def told_def by blast

text \<open>A further step that only replies, marks clients or changes the keys in \<open>Q\<close>.\<close>

definition touches :: "(nat \<times> byte list) set \<Rightarrow> redisServer \<Rightarrow> redisServer \<Rightarrow> bool" where
  "touches Q s s' \<longleftrightarrow> quiet s s' \<and> (\<forall>d < length (s_db s). \<forall>k. (d, k) \<notin> Q \<longrightarrow> content s' d k = content s d k)"

lemma tells_touches:
  assumes "tells P s0 s" and "touches Q s s'"
  shows "tells (P \<union> Q) s0 s'"
proof -
  have q: "quiet s0 s" "quiet s s'" using assms by (simp_all add: tells_def touches_def)
  have t: "s_time s' = s_time s" "length (s_db s) = length (s_db s0)" using q by (simp_all add: quiet_def)
  have "content s' d k = content s0 d k \<or> lapsed s0 s' d k \<or> (d, k) \<in> P \<union> Q \<or> (\<forall>i. watches s0 i d k \<longrightarrow> has_flag REDIS_DIRTY_CAS i s')"
    if d: "d < length (s_db s0)" for d k
  proof (cases "(d, k) \<in> Q")
    case False
    then have c: "content s' d k = content s d k" using assms(2) d t(2) by (simp add: touches_def)
    moreover have "content s d k = content s0 d k \<or> lapsed s0 s d k \<or> (d, k) \<in> P \<or> (\<forall>i. watches s0 i d k \<longrightarrow> has_flag REDIS_DIRTY_CAS i s)"
      using assms(1) d by (simp add: tells_def told_def)
    ultimately show ?thesis using quiet_dirty [OF q(2)] t(1) by (auto simp: lapsed_def)
  qed simp
  then show ?thesis using quiet_trans [OF q] by (simp add: tells_def told_def)
qed

lemma tells_same: "tells P s0 s \<Longrightarrow> touches {} s s' \<Longrightarrow> tells P s0 s'"
  using tells_touches [of P s0 s "{}" s'] by simp

section \<open>Primitive steps\<close>

lemma upd_client_simps [simp]:
  "s_db (upd_client i f s) = s_db s" "s_time (upd_client i f s) = s_time s" "s_maxmemory (upd_client i f s) = s_maxmemory s"
  "s_clients (upd_client i f s) j = (if i = j then map_option f (s_clients s i) else s_clients s j)"
  "s_feeds (upd_client i f s) = s_feeds s" "s_dirty (upd_client i f s) = s_dirty s" "s_masterhost (upd_client i f s) = s_masterhost s"
  "s_loading (upd_client i f s) = s_loading s" "s_commands (upd_client i f s) = s_commands s"
  by (simp_all add: upd_client_def)

lemma upd_db_simps [simp]:
  "length (s_db (upd_db d f s)) = length (s_db s)" "s_clients (upd_db d f s) = s_clients s" "s_time (upd_db d f s) = s_time s"
  "s_maxmemory (upd_db d f s) = s_maxmemory s" "d < length (s_db s) \<Longrightarrow> s_db (upd_db d f s) ! d = f (s_db s ! d)"
  "e \<noteq> d \<Longrightarrow> s_db (upd_db d f s) ! e = s_db s ! e" "s_masterhost (upd_db d f s) = s_masterhost s" "s_loading (upd_db d f s) = s_loading s"
  by (simp_all add: upd_db_def)

lemma touches_client:
  assumes "\<And>c. s_clients s i = Some c \<Longrightarrow> client_quiet (length (s_db s)) c (f c)"
  shows "touches {} s (upd_client i f s)"
  using assms by (cases "s_clients s i") (auto simp: touches_def quiet_def content_def option.rel_refl)

lemma touches_server:
  assumes "s_db s' = s_db s" "s_clients s' = s_clients s" "s_time s' = s_time s" "s_maxmemory s' = s_maxmemory s"
  shows "touches {} s s'"
  using assms by (simp add: touches_def quiet_def content_def option.rel_refl)

lemma touches_db:
  assumes "d < length (s_db s)" and "db_watched (f (s_db s ! d)) = db_watched (s_db s ! d)"
    and "\<And>j. j \<noteq> k \<Longrightarrow> db_dict (f (s_db s ! d)) j = db_dict (s_db s ! d) j \<and> db_expires (f (s_db s ! d)) j = db_expires (s_db s ! d) j"
  shows "touches {(d, k)} s (upd_db d f s)"
proof -
  have "db_watched (s_db (upd_db d f s) ! e) = db_watched (s_db s ! e)" for e using assms(1,2) by (cases "e = d") simp_all
  moreover have "content (upd_db d f s) e j = content s e j" if "(e, j) \<noteq> (d, k)" for e j
    using assms(1,3) that by (cases "e = d") (auto simp: content_def)
  ultimately show ?thesis by (auto simp: touches_def quiet_def option.rel_refl)
qed

lemma tells_reply [tell_intros]: "tells P s0 s \<Longrightarrow> tells P s0 (addReply_bytes b i s)"
  unfolding addReply_bytes_def by (erule tells_same) (rule touches_client, simp add: client_quiet_def)

lemma tells_replies [tell_intros]:
  "tells P s0 s \<Longrightarrow> tells P s0 (reply_error m i s)" "tells P s0 s \<Longrightarrow> tells P s0 (reply_longlong n i s)"
  "tells P s0 s \<Longrightarrow> tells P s0 (reply_bulk b i s)" "tells P s0 s \<Longrightarrow> tells P s0 (reply_multibulklen l i s)"
  by (simp_all add: reply_error_def reply_longlong_def reply_bulk_def reply_multibulklen_def tells_reply)

lemma tells_add_dirty [tell_intros]: "tells P s0 s \<Longrightarrow> tells P s0 (add_dirty n s)"
  by (erule tells_same) (rule touches_server, simp_all add: add_dirty_def)

lemma tells_add_feed [tell_intros]: "tells P s0 s \<Longrightarrow> tells P s0 (add_feed on f s)"
  by (erule tells_same) (rule touches_server, simp_all add: add_feed_def)

lemma tells_propagate [tell_intros]: "tells P s0 s \<Longrightarrow> tells P s0 (propagateExpire d k s)"
  by (simp add: propagateExpire_def Let_def tells_add_feed)

lemma tells_client [tell_intros]:
  "tells P s0 s \<Longrightarrow> tells P s0 (upd_client i (\<lambda>c. c\<lparr>k_argv := av, k_cmd := cmd\<rparr>) s)"
  "tells P s0 s \<Longrightarrow> tells P s0 (upd_client i (\<lambda>c. c\<lparr>k_cmd := cmd\<rparr>) s)"
  by (erule tells_same, rule touches_client, simp add: client_quiet_def)+

lemma tells_commands [tell_intros]: "tells P s0 s \<Longrightarrow> tells P s0 (s\<lparr>s_commands := cmds\<rparr>)"
  by (erule tells_same) (rule touches_server, simp_all)

section \<open>Changing a key and telling\<close>

lemma tells_length: "tells P s0 s \<Longrightarrow> length (s_db s) = length (s_db s0)"
  by (simp add: tells_def quiet_def)

lemma client_db_tells [tell_intros]: "client_db i s = Some d \<Longrightarrow> tells P s0 s \<Longrightarrow> d < length (s_db s0)"
  by (auto simp: client_db_def dest: tells_length elim!: bindE)

lemma tells_db:
  assumes "tells P s0 s" and "d < length (s_db s0)" and "\<And>db. db_watched (f db) = db_watched db"
    and "\<And>db j. j \<noteq> k \<Longrightarrow> db_dict (f db) j = db_dict db j \<and> db_expires (f db) j = db_expires db j"
  shows "tells (insert (d, k) P) s0 (upd_db d f s)"
  using tells_touches [OF assms(1) touches_db [of d s f k]] assms tells_length [OF assms(1)] by simp

lemma tells_dbAdd [tell_intros]: "dbAdd d k v s = Some s' \<Longrightarrow> tells P s0 s \<Longrightarrow> d < length (s_db s0) \<Longrightarrow> tells (insert (d, k) P) s0 s'"
  by (auto simp: dbAdd_def elim!: bindE intro!: tells_db)

lemma tells_dbOverwrite [tell_intros]:
  "dbOverwrite d k v s = Some s' \<Longrightarrow> tells P s0 s \<Longrightarrow> d < length (s_db s0) \<Longrightarrow> tells (insert (d, k) P) s0 s'"
  by (auto simp: dbOverwrite_def elim!: bindE intro!: tells_db)

lemma tells_dbDelete [tell_intros]: "tells P s0 s \<Longrightarrow> d < length (s_db s0) \<Longrightarrow> tells (insert (d, k) P) s0 (fst (dbDelete d k s))"
  by (auto simp: dbDelete_def intro!: tells_db)

lemma tells_removeExpire [tell_intros]:
  "removeExpire d k s = Some (s', b) \<Longrightarrow> tells P s0 s \<Longrightarrow> d < length (s_db s0) \<Longrightarrow> tells (insert (d, k) P) s0 s'"
  by (auto simp: removeExpire_def elim!: bindE intro!: tells_db)

lemma tells_setExpire [tell_intros]:
  "setExpire d k w s = Some s' \<Longrightarrow> tells P s0 s \<Longrightarrow> d < length (s_db s0) \<Longrightarrow> tells (insert (d, k) P) s0 s'"
  by (auto simp: setExpire_def elim!: bindE intro!: tells_db)

text \<open>Marking the clients in the list of a key.\<close>

lemma mark_mark [simp]: "map_option mark_dirty (map_option mark_dirty x) = map_option mark_dirty x"
  by (cases x) (simp_all add: mark_dirty_def)

lemma fold_mark:
  "s_db (fold (\<lambda>i. upd_client i mark_dirty) l s) = s_db s"
  "s_time (fold (\<lambda>i. upd_client i mark_dirty) l s) = s_time s"
  "s_maxmemory (fold (\<lambda>i. upd_client i mark_dirty) l s) = s_maxmemory s"
  "s_clients (fold (\<lambda>i. upd_client i mark_dirty) l s) j = (if j \<in> set l then map_option mark_dirty (s_clients s j) else s_clients s j)"
  by (induction l arbitrary: s) auto

lemma touches_mark: "touches {} s (fold (\<lambda>i. upd_client i mark_dirty) l s)"
proof -
  have "rel_option (client_quiet n) (s_clients s i) (s_clients (fold (\<lambda>i. upd_client i mark_dirty) l s) i)" for n i
    by (cases "s_clients s i") (auto simp: fold_mark client_quiet_def mark_dirty_def)
  then show ?thesis by (simp add: touches_def quiet_def content_def fold_mark)
qed

lemma touches_signal: "signalModifiedKey d k s = Some s' \<Longrightarrow> touches {} s s'"
  by (auto simp: signalModifiedKey_def touchWatchedKey_def touches_mark touches_server elim!: bindE split: option.splits)

lemma signal_marks:
  assumes "signalModifiedKey d k s = Some s'" and "watches s i d k"
  shows "has_flag REDIS_DIRTY_CAS i s'"
  using assms by (auto simp: signalModifiedKey_def touchWatchedKey_def watches_def has_flag_def fold_mark mark_dirty_def list_all_iff
      elim!: bindE split: option.splits)

lemma tells_signal:
  assumes "signalModifiedKey d k s = Some s'" and t: "tells P s0 s" and d: "d < length (s_db s0)"
  shows "tells (P - {(d, k)}) s0 s'"
proof -
  have s': "tells P s0 s'" using tells_same [OF t touches_signal [OF assms(1)]] .
  have "has_flag REDIS_DIRTY_CAS i s'" if "watches s0 i d k" for i
    using signal_marks [OF assms(1)] quiet_watches [of s0 s d] t d that by (simp add: tells_def)
  then show ?thesis using s' unfolding tells_def told_def by blast
qed

lemma tells_signal1 [tell_intros]:
  "signalModifiedKey d k s = Some s' \<Longrightarrow> tells (insert (d, k) P) s0 s \<Longrightarrow> d < length (s_db s0) \<Longrightarrow> tells (P - {(d, k)}) s0 s'"
  using tells_signal [of d k s s' "insert (d, k) P" s0] by simp

lemma tells_signal0: "signalModifiedKey d k s = Some s' \<Longrightarrow> tells {(d, k)} s0 s \<Longrightarrow> d < length (s_db s0) \<Longrightarrow> tells {} s0 s'"
  using tells_signal [of d k s s' "{(d, k)}" s0] by simp

text \<open>A key that has expired may be deleted without telling.\<close>

lemma tells_expire [tell_intros]:
  assumes "expireIfNeeded d k s = Some (s', b)" and t: "tells P s0 s" and d: "d < length (s_db s0)"
  shows "tells P s0 s'"
proof (cases "s' = s")
  case False
  then obtain v w where w: "content s d k = Some (v, Some w)" "w < s_time s"
    and s': "s' = fst (dbDelete d k (propagateExpire d k s))"
    using assms(1) by (auto simp: expireIfNeeded_def getExpire_def content_def elim!: bindE split: if_splits option.splits)
  let ?s = "propagateExpire d k s"
  have p: "tells P s0 ?s" "s_db ?s = s_db s" "s_time ?s = s_time s" "s_clients ?s = s_clients s"
    using tells_propagate [OF t] by (simp_all add: propagateExpire_def add_feed_def Let_def)
  have t': "tells (insert (d, k) P) s0 s'" using tells_dbDelete [OF p(1) d] s' by simp
  have c: "content s' d k = None" "s_time s' = s_time s" "s_clients s' = s_clients s"
    using s' p d tells_length [OF t] by (simp_all add: dbDelete_def content_def)
  have "content s d k = content s0 d k \<or> lapsed s0 s d k \<or> (d, k) \<in> P \<or> (\<forall>i. watches s0 i d k \<longrightarrow> has_flag REDIS_DIRTY_CAS i s)"
    using t d by (simp add: tells_def told_def)
  then have "lapsed s0 s' d k \<or> (d, k) \<in> P \<or> (\<forall>i. watches s0 i d k \<longrightarrow> has_flag REDIS_DIRTY_CAS i s')"
  proof (elim disjE)
    assume "content s d k = content s0 d k"
    then have "content s0 d k = Some (v, Some w)" using w(1) by simp
    then show ?thesis using w(2) c(1,2) by (auto simp: lapsed_def)
  qed (use c in \<open>simp_all add: lapsed_def has_flag_def\<close>)
  then show ?thesis using t' unfolding tells_def told_def by blast
qed (use t in simp)

lemma tells_lookup [tell_intros]:
  "lookupKeyRead d k s = Some (s', ob) \<Longrightarrow> tells P s0 s \<Longrightarrow> d < length (s_db s0) \<Longrightarrow> tells P s0 s'"
  "lookupKeyWrite d k s = Some (s', ob) \<Longrightarrow> tells P s0 s \<Longrightarrow> d < length (s_db s0) \<Longrightarrow> tells P s0 s'"
  "lookupKeyReadOrReply i k m s = Some (s', ob) \<Longrightarrow> tells P s0 s \<Longrightarrow> tells P s0 s'"
  "lookupKeyWriteOrReply i k m s = Some (s', ob) \<Longrightarrow> tells P s0 s \<Longrightarrow> tells P s0 s'"
proof -
  show r: "lookupKeyRead d k s = Some (s', ob) \<Longrightarrow> tells P s0 s \<Longrightarrow> d < length (s_db s0) \<Longrightarrow> tells P s0 s'" for d k s s' ob
    by (auto simp: lookupKeyRead_def elim!: bindE intro: tells_expire)
  show w: "lookupKeyWrite d k s = Some (s', ob) \<Longrightarrow> tells P s0 s \<Longrightarrow> d < length (s_db s0) \<Longrightarrow> tells P s0 s'" for d k s s' ob
    by (auto simp: lookupKeyWrite_def elim!: bindE intro: tells_expire)
  show "lookupKeyReadOrReply i k m s = Some (s', ob) \<Longrightarrow> tells P s0 s \<Longrightarrow> tells P s0 s'"
    by (auto simp: lookupKeyReadOrReply_def elim!: bindE intro!: tells_reply) (blast intro: client_db_tells r)+
  show "lookupKeyWriteOrReply i k m s = Some (s', ob) \<Longrightarrow> tells P s0 s \<Longrightarrow> tells P s0 s'"
    by (auto simp: lookupKeyWriteOrReply_def elim!: bindE intro!: tells_reply) (blast intro: client_db_tells w)+
qed

lemma tells_setKey [tell_intros]:
  assumes "setKey d k v s = Some s'" and t: "tells {} s0 s" and d: "d < length (s_db s0)"
  shows "tells {} s0 s'"
proof -
  obtain s1 ob s2 s3 b where r: "lookupKeyWrite d k s = Some (s1, ob)"
    "(if ob = None then dbAdd d k v s1 else dbOverwrite d k v s1) = Some s2"
    "removeExpire d k s2 = Some (s3, b)" "signalModifiedKey d k s3 = Some s'"
    using assms(1) by (auto simp: setKey_def elim!: bindE)
  have "tells {} s0 s1" using tells_lookup(2) [OF r(1) t d] .
  then have "tells {(d, k)} s0 s2" using r(2) d by (auto split: if_splits intro: tells_dbAdd tells_dbOverwrite)
  then have "tells {(d, k)} s0 s3" using tells_removeExpire [OF r(3) _ d, of "{(d, k)}"] by simp
  then show ?thesis using tells_signal0 [OF r(4) _ d] by simp
qed

section \<open>The commands\<close>

text \<open>The steps of a command after which no change is left untold.\<close>

lemma tells_change:
  "signalModifiedKey d k s1 = Some s' \<Longrightarrow> dbAdd d k v s = Some s1 \<Longrightarrow> tells {} s0 s \<Longrightarrow> d < length (s_db s0) \<Longrightarrow> tells {} s0 s'"
  "signalModifiedKey d k s1 = Some s' \<Longrightarrow> dbOverwrite d k v s = Some s1 \<Longrightarrow> tells {} s0 s \<Longrightarrow> d < length (s_db s0) \<Longrightarrow> tells {} s0 s'"
  using tells_signal0 tells_dbAdd tells_dbOverwrite by blast+

lemma setExpire_told:
  assumes "setKey d k v s = Some s1" and "setExpire d k w (add_dirty n s1) = Some s'" and "tells {} s0 s" and d: "d < length (s_db s0)"
  shows "tells {} s0 s'"
proof -
  have t1: "tells {} s0 s1" using tells_setKey assms(1,3) d by blast
  then have t: "tells {(d, k)} s0 s'" using tells_setExpire [OF assms(2) tells_add_dirty d] by simp
  obtain s2 where s2: "signalModifiedKey d k s2 = Some s1" "tells {(d, k)} s0 s2"
  proof -
    obtain sa ob sb s2 b where r: "lookupKeyWrite d k s = Some (sa, ob)"
      "(if ob = None then dbAdd d k v sa else dbOverwrite d k v sa) = Some sb"
      "removeExpire d k sb = Some (s2, b)" "signalModifiedKey d k s2 = Some s1"
      using assms(1) by (auto simp: setKey_def elim!: bindE)
    have "tells {} s0 sa" using tells_lookup(2) [OF r(1) assms(3) d] .
    then have "tells {(d, k)} s0 sb" using r(2) d by (auto split: if_splits intro: tells_dbAdd tells_dbOverwrite)
    then show thesis using that r(4) tells_removeExpire [OF r(3) _ d, of "{(d, k)}"] by simp
  qed
  have "has_flag REDIS_DIRTY_CAS i s'" if "watches s0 i d k" for i
  proof -
    have "has_flag REDIS_DIRTY_CAS i s1" using signal_marks [OF s2(1)] quiet_watches [of s0 s2 d] s2(2) d that by (simp add: tells_def)
    then show ?thesis using assms(2) by (auto simp: setExpire_def add_dirty_def has_flag_def elim!: bindE)
  qed
  then show ?thesis using t unfolding tells_def told_def by blast
qed


lemma getGeneric_tells: "getGenericCommand i s = Some (s', ok) \<Longrightarrow> tells {} s s'"
  by (auto simp: getGenericCommand_def elim!: bindE split: option.splits if_splits)
    (rule tells_refl tells_reply tells_replies | erule tells_lookup client_db_tells)+

lemma mget_loop_tells: "mget_loop d ks i s = Some s' \<Longrightarrow> tells {} s0 s \<Longrightarrow> d < length (s_db s0) \<Longrightarrow> tells {} s0 s'"
  by (induction ks arbitrary: s)
    (auto elim!: bindE split: option.splits if_splits dest!: tells_lookup(1), (metis tells_reply tells_replies(3))+)

lemma busy_loop_tells: "busy_loop d kvs n s = Some (s', m) \<Longrightarrow> tells {} s0 s \<Longrightarrow> d < length (s_db s0) \<Longrightarrow> tells {} s0 s'"
  by (induction kvs arbitrary: n s rule: induct_list012) (auto elim!: bindE split: if_splits dest!: tells_lookup(2))

lemma mset_loop_tells: "mset_loop d kvs s = Some s' \<Longrightarrow> tells {} s0 s \<Longrightarrow> d < length (s_db s0) \<Longrightarrow> tells {} s0 s'"
  by (induction kvs arbitrary: s rule: induct_list012) (auto elim!: bindE dest!: tells_setKey)

lemma not_tellsE: "\<not> tells P s s' \<Longrightarrow> tells P s s' \<Longrightarrow> False"
  by simp

lemmas string_command_defs = setGenericCommand_def getsetCommand_def setbitCommand_def getbitCommand_def setrangeCommand_def
  getrangeCommand_def mgetCommand_def msetGenericCommand_def incrDecrCommand_def appendCommand_def strlenCommand_def

lemma string_commands_tell:
  "setGenericCommand nx k v e i s = Some s' \<Longrightarrow> tells {} s s'"
  "getsetCommand i s = Some s' \<Longrightarrow> tells {} s s'"
  "setbitCommand i s = Some s' \<Longrightarrow> tells {} s s'"
  "getbitCommand i s = Some s' \<Longrightarrow> tells {} s s'"
  "setrangeCommand i s = Some s' \<Longrightarrow> tells {} s s'"
  "getrangeCommand i s = Some s' \<Longrightarrow> tells {} s s'"
  "mgetCommand i s = Some s' \<Longrightarrow> tells {} s s'"
  "msetGenericCommand nx i s = Some s' \<Longrightarrow> tells {} s s'"
  "incrDecrCommand n i s = Some s' \<Longrightarrow> tells {} s s'"
  "appendCommand i s = Some s' \<Longrightarrow> tells {} s s'"
  "strlenCommand i s = Some s' \<Longrightarrow> tells {} s s'"
  by (auto simp: string_command_defs elim!: bindE split: option.splits if_splits conv_reply.splits prod.splits)
    (rule tells_refl tells_reply tells_replies tells_add_dirty
      | erule tells_lookup tells_setKey client_db_tells getGeneric_tells mget_loop_tells busy_loop_tells mset_loop_tells
      | erule (1) tells_change setExpire_told | erule not_tellsE)+

section \<open>The commands on keys of any type\<close>

lemma tells_deleted: "signalModifiedKey d k (fst (dbDelete d k s)) = Some s' \<Longrightarrow> tells {} s0 s \<Longrightarrow> d < length (s_db s0) \<Longrightarrow> tells {} s0 s'"
  using tells_signal0 tells_dbDelete by blast

lemma tells_dbDelete_absent:
  assumes t: "tells {} s0 s" and d: "d < length (s_db s0)" and "db_dict (s_db s ! d) k = None"
  shows "tells {} s0 (fst (dbDelete d k s))"
proof -
  have "touches {(d, k)} s (fst (dbDelete d k s))"
    unfolding dbDelete_def fst_conv using d tells_length [OF t] by (intro touches_db) simp_all
  moreover have "content (fst (dbDelete d k s)) d k = content s d k"
    using assms tells_length [OF t] by (simp add: dbDelete_def content_def)
  ultimately have "touches {} s (fst (dbDelete d k s))" by (auto simp: touches_def)
  then show ?thesis using tells_same [OF t] by blast
qed

lemma del_loop_tells: "del_loop d ks n s = Some (s', m) \<Longrightarrow> tells {} s0 s \<Longrightarrow> d < length (s_db s0) \<Longrightarrow> tells {} s0 s'"
proof (induction ks arbitrary: n s)
  case (Cons k ks)
  show ?case
  proof (cases "db_dict (s_db s ! d) k = None")
    case True
    then have "del_loop d ks n (fst (dbDelete d k s)) = Some (s', m)" using Cons.prems(1) by (simp add: dbDelete_def)
    then show ?thesis using Cons.IH tells_dbDelete_absent [OF Cons.prems(2,3) True] Cons.prems(3) by blast
  next
    case False
    then obtain s1 where "signalModifiedKey d k (fst (dbDelete d k s)) = Some s1" "del_loop d ks (n + 1) (add_dirty 1 s1) = Some (s', m)"
      using Cons.prems(1) by (auto simp: dbDelete_def elim!: bindE)
    then show ?thesis using Cons.IH tells_add_dirty tells_deleted Cons.prems(2,3) by blast
  qed
qed simp

lemma tells_select: "selectDb i n s = Some s' \<Longrightarrow> tells P s0 s \<Longrightarrow> tells P s0 s'"
  by (erule tells_same) (auto simp: selectDb_def client_quiet_def split: if_splits intro!: touches_client)

text \<open>The steps of RENAME: until the two signals the destination has changed.\<close>

lemma tells_rename_tail:
  "signalModifiedKey d dst s3 = Some s' \<Longrightarrow> signalModifiedKey d src (fst (dbDelete d src s2)) = Some s3 \<Longrightarrow>
     tells {(d, dst)} s0 s2 \<Longrightarrow> d < length (s_db s0) \<Longrightarrow> tells {} s0 s'"
  using tells_signal [of d src "fst (dbDelete d src s2)" s3 "{(d, src), (d, dst)}" s0]
    tells_dbDelete [of "{(d, dst)}" s0 s2 d src] tells_signal0 [of d dst s3 s' s0] tells_mono [of _ s0 s3 "{(d, dst)}"] by blast

lemma tells_rename:
  "setExpire d k w s = Some s' \<Longrightarrow> tells {(d, k)} s0 s \<Longrightarrow> d < length (s_db s0) \<Longrightarrow> tells {(d, k)} s0 s'"
  "dbAdd d k v s = Some s' \<Longrightarrow> tells {(d, k)} s0 s \<Longrightarrow> d < length (s_db s0) \<Longrightarrow> tells {(d, k)} s0 s'"
  "tells {} s0 s \<Longrightarrow> d < length (s_db s0) \<Longrightarrow> tells {(d, k)} s0 (fst (dbDelete d k s))"
  "tells {} s0 s \<Longrightarrow> tells {(d, k)} s0 s"
  using tells_setExpire [of d k w s s' "{(d, k)}" s0] tells_dbAdd [of d k v s s' "{(d, k)}" s0] tells_dbDelete [of "{}" s0 s d k]
    tells_mono [of "{}" s0 s "{(d, k)}"] by simp_all

lemma tells_rewrite:
  "rewriteClientCommandVector av i s = Some s' \<Longrightarrow> tells P s0 s \<Longrightarrow> tells P s0 s'"
  by (auto simp: rewriteClientCommandVector_def lookupCommand_def elim!: bindE intro!: tells_client tells_commands)

lemma tells_expire_now:
  "signalModifiedKey d k s2 = Some s' \<Longrightarrow> rewriteClientCommandVector av i (add_dirty 1 s1) = Some s2 \<Longrightarrow> dbDelete d k s = (s1, b) \<Longrightarrow>
     tells {} s0 s \<Longrightarrow> d < length (s_db s0) \<Longrightarrow> tells {} s0 s'"
  using tells_signal0 tells_rewrite tells_add_dirty tells_dbDelete [of "{}" s0 s d k] by fastforce

lemma tells_expire_later:
  "signalModifiedKey d k (addReply_bytes m i s1) = Some s' \<Longrightarrow> setExpire d k w s = Some s1 \<Longrightarrow>
     tells {} s0 s \<Longrightarrow> d < length (s_db s0) \<Longrightarrow> tells {} s0 s'"
  using tells_signal0 tells_reply tells_setExpire by blast

lemmas key_command_defs = delCommand_def existsCommand_def selectCommand_def dbsizeCommand_def typeCommand_def
  renameGenericCommand_def expireGenericCommand_def expireCommand_def expireatCommand_def ttlCommand_def pingCommand_def echoCommand_def

lemma key_commands_tell:
  "delCommand i s = Some s' \<Longrightarrow> tells {} s s'"
  "existsCommand i s = Some s' \<Longrightarrow> tells {} s s'"
  "selectCommand i s = Some s' \<Longrightarrow> tells {} s s'"
  "dbsizeCommand i s = Some s' \<Longrightarrow> tells {} s s'"
  "typeCommand i s = Some s' \<Longrightarrow> tells {} s s'"
  "renameGenericCommand nx i s = Some s' \<Longrightarrow> tells {} s s'"
  "expireGenericCommand k a off i s = Some s' \<Longrightarrow> tells {} s s'"
  "ttlCommand i s = Some s' \<Longrightarrow> tells {} s s'"
  "pingCommand i s = Some s' \<Longrightarrow> tells {} s s'"
  "echoCommand i s = Some s' \<Longrightarrow> tells {} s s'"
  by (auto simp: key_command_defs elim!: bindE split: option.splits if_split_asm conv_reply.splits prod.splits)
    (rule tells_refl tells_reply tells_replies tells_add_dirty
      | erule tells_lookup tells_expire client_db_tells del_loop_tells tells_select
      | erule (1) tells_expire_later tells_rename_tail | erule (2) tells_expire_now | erule not_tellsE
      | erule tells_rename(1,2) | rule tells_rename(3,4))+

section \<open>Flushing\<close>

text \<open>The watch tables: the lists of the data bases and those of the clients say the same.\<close>

definition watch_ok :: "redisServer \<Rightarrow> bool" where
  "watch_ok s \<longleftrightarrow>
     (\<forall>d < length (s_db s). \<forall>k l. db_watched (s_db s ! d) k = Some l \<longrightarrow> l \<noteq> [] \<and> distinct l) \<and>
     (\<forall>d < length (s_db s). \<forall>k i. watches s i d k \<longleftrightarrow> (\<exists>c. s_clients s i = Some c \<and> (k, d) \<in> set (k_watched c))) \<and>
     (\<forall>i c. s_clients s i = Some c \<longrightarrow> k_db c < length (s_db s) \<and> distinct (k_watched c) \<and>
        (\<forall>(k, d) \<in> set (k_watched c). d < length (s_db s)))"

lemma watch_okD:
  "watch_ok s \<Longrightarrow> d < length (s_db s) \<Longrightarrow> watches s i d k \<Longrightarrow> \<exists>c. s_clients s i = Some c \<and> (k, d) \<in> set (k_watched c)"
  by (simp add: watch_ok_def)

lemma quiet_client:
  "quiet s s' \<Longrightarrow> s_clients s i = Some c \<Longrightarrow> \<exists>c'. s_clients s' i = Some c' \<and> client_quiet (length (s_db s)) c c' \<and> k_watched c' = k_watched c"
  unfolding quiet_def by (drule conjunct2, drule conjunct2, drule conjunct2, drule conjunct2, drule spec [of _ i])
    (auto simp: option_rel_Some1 client_quiet_def)

lemma tells_marked:
  assumes t: "tells P s0 s" and q: "quiet s s'"
    and m: "\<And>d k. d < length (s_db s0) \<Longrightarrow> content s' d k = content s d k \<or> (\<forall>i. watches s0 i d k \<longrightarrow> has_flag REDIS_DIRTY_CAS i s')"
  shows "tells P s0 s'"
proof -
  have "content s' d k = content s0 d k \<or> lapsed s0 s' d k \<or> (d, k) \<in> P \<or> (\<forall>i. watches s0 i d k \<longrightarrow> has_flag REDIS_DIRTY_CAS i s')"
    if d: "d < length (s_db s0)" for d k
  proof (cases "content s' d k = content s d k")
    case True
    moreover have "content s d k = content s0 d k \<or> lapsed s0 s d k \<or> (d, k) \<in> P \<or> (\<forall>i. watches s0 i d k \<longrightarrow> has_flag REDIS_DIRTY_CAS i s)"
      using t d by (simp add: tells_def told_def)
    moreover have "s_time s' = s_time s" using q by (simp add: quiet_def)
    ultimately show ?thesis using quiet_dirty [OF q] by (auto simp: lapsed_def)
  qed (use m [OF d] in blast)
  then have "told P s0 s'" by (simp add: told_def)
  then show ?thesis using t q quiet_trans [of s0 s s'] by (simp add: tells_def)
qed

lemma touches_onFlush: "touches {} s (touchWatchedKeysOnFlush n s)"
proof -
  have "rel_option (client_quiet m) (s_clients s i) (s_clients (touchWatchedKeysOnFlush n s) i)" for m i
    by (cases "s_clients s i") (auto simp: touchWatchedKeysOnFlush_def client_quiet_def mark_dirty_def)
  then show ?thesis by (simp add: touches_def quiet_def content_def touchWatchedKeysOnFlush_def)
qed

text \<open>Emptying data bases after the clients watching their keys have been marked.\<close>

lemma tells_flush:
  assumes t: "tells P s0 s" and ok: "watch_ok s0"
    and s': "s_clients s' = s_clients (touchWatchedKeysOnFlush n s)" "s_time s' = s_time s" "s_maxmemory s' = s_maxmemory s"
      "length (s_db s') = length (s_db s)"
    and db: "\<And>d. d < length (s_db s) \<Longrightarrow> db_watched (s_db s' ! d) = db_watched (s_db s ! d)"
      "\<And>d. d < length (s_db s) \<Longrightarrow> s_db s' ! d = s_db s ! d \<or> (n = -1 \<or> n = int d) \<and> db_dict (s_db s' ! d) = Map.empty"
  shows "tells P s0 s'"
proof -
  let ?s = "touchWatchedKeysOnFlush n s"
  have q: "quiet ?s s'" using s' db(1) by (simp add: quiet_def option.rel_refl touchWatchedKeysOnFlush_def)
  have q0: "quiet s0 s" and l: "length (s_db s0) = length (s_db s)" using t tells_length [OF t] by (simp_all add: tells_def)
  show ?thesis
  proof (rule tells_marked [OF tells_same [OF t touches_onFlush] q])
    fix d k assume d: "d < length (s_db s0)"
    show "content s' d k = content ?s d k \<or> (\<forall>i. watches s0 i d k \<longrightarrow> has_flag REDIS_DIRTY_CAS i s')"
    proof (cases "db_dict (s_db s ! d) k = None \<or> s_db s' ! d = s_db s ! d")
      case False
      then have n: "n = -1 \<or> n = int d" "db_dict (s_db s ! d) k \<noteq> None" using db(2) [of d] d l by auto
      have "has_flag REDIS_DIRTY_CAS i s'" if w: "watches s0 i d k" for i
      proof -
        obtain c where c: "s_clients s i = Some c" "(k, d) \<in> set (k_watched c)"
          using watch_okD [OF ok d w] quiet_client [OF q0] by fastforce
        then have "flush_hits n s c" using n unfolding flush_hits_def list_ex_iff by (intro bexI [of _ "(k, d)"]) auto
        then show ?thesis using c by (simp add: has_flag_def s'(1) touchWatchedKeysOnFlush_def mark_dirty_def)
      qed
      then show ?thesis by blast
    next
      case True
      then have "content s' d k = content s d k" using db(2) [of d] d l by (auto simp: content_def)
      then show ?thesis by (simp add: content_def touchWatchedKeysOnFlush_def)
    qed
  qed
qed

lemma flush_commands_tell:
  assumes "watch_ok s"
  shows "flushdbCommand i s = Some s' \<Longrightarrow> tells {} s s'" "flushallCommand i s = Some s' \<Longrightarrow> tells {} s s'"
proof -
  assume f: "flushdbCommand i s = Some s'"
  then obtain d s1 where d: "client_db i s = Some d" and s1: "s1 = touchWatchedKeysOnFlush (int d) (add_dirty (int (card (dom (db_dict (s_db s ! d))))) s)"
    and s': "s' = addReply_bytes shared_ok i (upd_db d (\<lambda>db. db\<lparr>db_dict := Map.empty, db_expires := Map.empty\<rparr>) s1)"
    by (auto simp: flushdbCommand_def signalFlushedDb_def elim!: bindE)
  have d': "d < length (s_db s)" using d by (auto simp: client_db_def elim!: bindE)
  let ?s = "add_dirty (int (card (dom (db_dict (s_db s ! d))))) s"
  have "tells {} s (upd_db d (\<lambda>db. db\<lparr>db_dict := Map.empty, db_expires := Map.empty\<rparr>) s1)"
  proof (rule tells_flush [OF _ assms, of "{}" ?s _ "int d"])
    show "tells {} s ?s" by (intro tells_add_dirty tells_refl)
    show "db_watched (s_db (upd_db d (\<lambda>db. db\<lparr>db_dict := Map.empty, db_expires := Map.empty\<rparr>) s1) ! e) = db_watched (s_db ?s ! e)" for e
      using d' by (cases "e = d") (simp_all add: s1 touchWatchedKeysOnFlush_def add_dirty_def)
    show "s_db (upd_db d (\<lambda>db. db\<lparr>db_dict := Map.empty, db_expires := Map.empty\<rparr>) s1) ! e = s_db ?s ! e \<or>
      (int d = -1 \<or> int d = int e) \<and> db_dict (s_db (upd_db d (\<lambda>db. db\<lparr>db_dict := Map.empty, db_expires := Map.empty\<rparr>) s1) ! e) = Map.empty" for e
      using d' by (cases "e = d") (simp_all add: s1 touchWatchedKeysOnFlush_def add_dirty_def)
  qed (simp_all add: s1 touchWatchedKeysOnFlush_def add_dirty_def)
  then show "tells {} s s'" unfolding s' by (rule tells_reply)
next
  assume f: "flushallCommand i s = Some s'"
  let ?e = "\<lambda>db :: redisDb. db\<lparr>db_dict := Map.empty, db_expires := Map.empty\<rparr>"
  define s1 where "s1 = (touchWatchedKeysOnFlush (-1) s)\<lparr>s_db := map ?e (s_db s)\<rparr>"
  obtain n where e: "emptyDb (signalFlushedDb (-1) s) = (s1, n)"
    by (simp add: emptyDb_def signalFlushedDb_def s1_def touchWatchedKeysOnFlush_def)
  define s2 where "s2 = addReply_bytes shared_ok i (add_dirty n s1)"
  have s': "s' = add_dirty 1 (if s_saveparams s2 then s2\<lparr>s_dirty := to_s32 (s_dirty s2)\<rparr> else s2)"
    using f unfolding flushallCommand_def e prod.case Let_def s2_def by simp
  have "tells {} s s1"
    by (rule tells_flush [OF tells_refl assms, of _ "-1"]) (simp_all add: s1_def touchWatchedKeysOnFlush_def)
  then have s2: "tells {} s s2" unfolding s2_def by (intro tells_add_dirty tells_reply)
  have "tells {} s (s2\<lparr>s_dirty := to_s32 (s_dirty s2)\<rparr>)" by (rule tells_same [OF s2 touches_server]) simp_all
  then show "tells {} s s'" using s2 unfolding s' by (cases "s_saveparams s2") (simp_all add: tells_add_dirty)
qed

section \<open>Every command but two\<close>

definition data_proc :: "redisProc \<Rightarrow> bool" where
  "data_proc p \<longleftrightarrow> p \<notin> {MoveCommand, PersistCommand, MultiCommand, ExecCommand, DiscardCommand, WatchCommand, UnwatchCommand} \<and>
     (\<forall>n. p \<noteq> OtherProc n)"

lemma getCommand_tells: "getCommand i s = Some s' \<Longrightarrow> tells {} s s'"
  by (auto simp: getCommand_def dest: getGeneric_tells)

lemma incr_commands_tell:
  "incrCommand i s = Some s' \<Longrightarrow> tells {} s s'" "decrCommand i s = Some s' \<Longrightarrow> tells {} s s'"
  "incrbyCommand i s = Some s' \<Longrightarrow> tells {} s s'" "decrbyCommand i s = Some s' \<Longrightarrow> tells {} s s'"
  by (auto simp: incrCommand_def decrCommand_def incrbyCommand_def decrbyCommand_def string_commands_tell(9)
      intro!: tells_replies(1) tells_refl elim!: bindE split: conv_reply.splits)

lemma wrapped_commands_tell:
  "setCommand i s = Some s' \<Longrightarrow> tells {} s s'" "setnxCommand i s = Some s' \<Longrightarrow> tells {} s s'" "setexCommand i s = Some s' \<Longrightarrow> tells {} s s'"
  "msetCommand i s = Some s' \<Longrightarrow> tells {} s s'" "msetnxCommand i s = Some s' \<Longrightarrow> tells {} s s'"
  "renameCommand i s = Some s' \<Longrightarrow> tells {} s s'" "renamenxCommand i s = Some s' \<Longrightarrow> tells {} s s'"
  "expireCommand i s = Some s' \<Longrightarrow> tells {} s s'" "expireatCommand i s = Some s' \<Longrightarrow> tells {} s s'"
  by (auto simp: setCommand_def setnxCommand_def setexCommand_def msetCommand_def msetnxCommand_def renameCommand_def renamenxCommand_def
      expireCommand_def expireatCommand_def elim!: bindE intro: string_commands_tell(1,8) key_commands_tell(6,7))

lemma data_proc_tells:
  assumes "data_proc p" and "watch_ok s" and "run_proc oth p i s = Some s'"
  shows "tells {} s s'"
  using assms by (cases p)
    (simp_all add: data_proc_def run_proc_def getCommand_tells incr_commands_tell wrapped_commands_tell string_commands_tell key_commands_tell flush_commands_tell)

text \<open>C3: A command that changes the value or the expire of a key marks every client that watches
  the key, so that its next EXEC fails, unless the change is that a key whose expire has passed
  is gone. This holds for all commands modelled but MOVE and PERSIST.\<close>

theorem modified_keys_told:
  assumes "data_proc p" and "watch_ok s" and "run_proc oth p i s = Some s'" and "d < length (s_db s)" and "watches s j d k"
  shows "content s' d k = content s d k \<or> lapsed s s' d k \<or> has_flag REDIS_DIRTY_CAS j s'"
  using data_proc_tells [OF assms(1-3)] assms(4,5) unfolding tells_def told_def by blast

text \<open>Two data bases; client 0 sends the request \<open>av\<close>, client 1 watches the key \<open>k\<close>.\<close>

definition demo_server :: "byte list list \<Rightarrow> int option \<Rightarrow> redisServer" where
  "demo_server av w =
     \<lparr>s_db = [\<lparr>db_dict = [[107] \<mapsto> raw_string [118]], db_expires = (\<lambda>k. if k = [107] then w else None), db_watched = [[107] \<mapsto> [1]]\<rparr>,
              \<lparr>db_dict = Map.empty, db_expires = Map.empty, db_watched = Map.empty\<rparr>],
      s_clients = [0 \<mapsto> new_client\<lparr>k_argv := av\<rparr>, 1 \<mapsto> new_client\<lparr>k_watched := [([107], 0)]\<rparr>],
      s_commands = dictCreate, s_dirty = 0, s_time = 1000, s_erange = False, s_loading = False, s_masterhost = False,
      s_repl_connected = False, s_serve_stale = True, s_requirepass = False, s_maxmemory = 0, s_appendonly = False, s_saveparams = False,
      s_has_slaves = False, s_has_monitors = False, s_feeds = []\<rparr>"

lemma demo_watch_ok: "watch_ok (demo_server av w)"
  by (auto simp: watch_ok_def demo_server_def watches_def new_client_def less_Suc_eq nth_Cons split: nat.splits if_splits)

lemma modified_keys_told_witness:
  "\<exists>s'. run_proc (\<lambda>n i s. None) DelCommand 0 (demo_server [[100, 101, 108], [107]] None) = Some s' \<and>
     content s' 0 [107] \<noteq> content (demo_server [[100, 101, 108], [107]] None) 0 [107] \<and> has_flag REDIS_DIRTY_CAS 1 s'"
proof -
  let ?s = "demo_server [[100, 101, 108], [107]] None"
  obtain s' where s': "run_proc (\<lambda>n i s. None) DelCommand 0 ?s = Some s'" "content s' 0 [107] = None"
    by (simp add: run_proc_def delCommand_def client_db_def args_from_def dbDelete_def signalModifiedKey_def touchWatchedKey_def
        demo_server_def new_client_def upd_db_def upd_client_def add_dirty_def mark_dirty_def reply_longlong_def addReply_bytes_def content_def require_def)
  have "content s' 0 [107] = content ?s 0 [107] \<or> lapsed ?s s' 0 [107] \<or> has_flag REDIS_DIRTY_CAS 1 s'"
    by (rule modified_keys_told [of DelCommand ?s, OF _ demo_watch_ok s'(1)]) (simp_all add: data_proc_def watches_def demo_server_def)
  moreover have "content ?s 0 [107] = Some (raw_string [118], None)" by (simp add: content_def demo_server_def)
  ultimately show ?thesis using s' by (simp add: lapsed_def)
qed

section \<open>MOVE and PERSIST do not tell\<close>

lemma expireIfNeeded_persistent: "db_expires (s_db s ! d) k = None \<Longrightarrow> expireIfNeeded d k s = Some (s, False)"
  by (simp add: expireIfNeeded_def getExpire_def)

text \<open>C4: MOVE takes a key out of a data base, or puts it into one, without marking any client,
  so that an EXEC of a client watching the key goes ahead.\<close>

theorem move_does_not_tell:
  assumes c: "s_clients s i = Some c" "k_argv c = [name, k, n]" and src: "k_db c = src" "src < length (s_db s)"
    and dst: "atoi n = int dst" "dst < length (s_db s)" "dst \<noteq> src"
    and v: "db_dict (s_db s ! src) k = Some v" "db_expires (s_db s ! src) k = None"
    and free: "db_dict (s_db s ! dst) k = None" "db_expires (s_db s ! dst) k = None"
  shows "\<exists>s'. moveCommand i s = Some s' \<and> content s' src k = None \<and> content s' dst k = Some (v, None) \<and>
      (\<forall>j. has_flag REDIS_DIRTY_CAS j s' = has_flag REDIS_DIRTY_CAS j s)"
proof -
  define s1 where "s1 = upd_client i (\<lambda>c. c\<lparr>k_db := src\<rparr>) (upd_client i (\<lambda>c. c\<lparr>k_db := dst\<rparr>) s)"
  define s2 where "s2 = upd_db dst (\<lambda>db. db\<lparr>db_dict := (db_dict db)(k \<mapsto> v)\<rparr>) s1"
  define s3 where "s3 = fst (dbDelete src k s2)"
  have s1: "s_db s1 = s_db s" "client_db i (upd_client i (\<lambda>c. c\<lparr>k_db := dst\<rparr>) s) = Some dst" "client_db i s = Some src"
    using c src dst by (simp_all add: s1_def client_db_def require_def)
  have e: "expireIfNeeded src k s1 = Some (s1, False)" "expireIfNeeded dst k s1 = Some (s1, False)"
    using v(2) free(2) by (simp_all add: expireIfNeeded_persistent s1(1))
  have "moveCommand i s = Some (addReply_bytes shared_cone i (add_dirty 1 s3))"
    using c src dst v free s1 e
    by (simp add: moveCommand_def argv_def selectDb_def lookupKeyWrite_def lookupKey_def dbAdd_def require_def
        flip: s1_def s2_def s3_def)
  moreover have "has_flag REDIS_DIRTY_CAS j (addReply_bytes shared_cone i (add_dirty 1 s3)) = has_flag REDIS_DIRTY_CAS j s" for j
    using c by (simp add: has_flag_def addReply_bytes_def add_dirty_def s3_def s2_def s1_def dbDelete_def split: option.splits)
  moreover have "content (addReply_bytes shared_cone i (add_dirty 1 s3)) src k = None"
    "content (addReply_bytes shared_cone i (add_dirty 1 s3)) dst k = Some (v, None)"
    using src dst free s1(1) by (simp_all add: content_def addReply_bytes_def add_dirty_def s3_def s2_def dbDelete_def)
  ultimately show ?thesis by blast
qed

lemma atoi_1: "atoi [49] = 1"
  by (simp add: atoi_def strtoll_def isspace_def isdigit_def digit_val_def c_limits)

lemma move_does_not_tell_witness:
  "\<exists>s'. moveCommand 0 (demo_server [[109], [107], [49]] None) = Some s' \<and> content s' 0 [107] = None \<and>
     content s' 1 [107] = Some (raw_string [118], None) \<and> (\<forall>j. has_flag REDIS_DIRTY_CAS j s' = has_flag REDIS_DIRTY_CAS j (demo_server [[109], [107], [49]] None))"
  by (rule move_does_not_tell [of _ _ "new_client\<lparr>k_argv := [[109], [107], [49]]\<rparr>" "[109]" "[107]" "[49]"])
    (simp_all add: demo_server_def new_client_def atoi_1)

lemma persist_does_not_tell:
  assumes "s_clients s i = Some c" "k_argv c = [name, k]" "k_db c < length (s_db s)"
    and "content s (k_db c) k = Some (v, Some w)"
  shows "\<exists>s'. persistCommand i s = Some s' \<and> content s' (k_db c) k = Some (v, None) \<and>
      (\<forall>j. has_flag REDIS_DIRTY_CAS j s' = has_flag REDIS_DIRTY_CAS j s)"
  using assms
  by (auto simp: persistCommand_def client_db_def argv_def dbExists_def removeExpire_def require_def content_def add_dirty_def addReply_bytes_def has_flag_def
      split: option.splits)
end
