(* ===== verification/Cron.thy ===== *)
theory Cron
  imports KeySpec
begin

text \<open>
  Active expiry, \<^verbatim>\<open>activeExpireCycle\<close> of \<^verbatim>\<open>src/webserver/redis/src/redis.c\<close>: it looks at random
  keys with an expire and deletes those whose time has passed.

  The random keys are given: \<open>draws\<close> are the keys \<^verbatim>\<open>dictGetRandomKey\<close> returns, in order, and there is no
  result when they run out or a key is drawn that has no expire. \<open>late\<close> says of a round whether the clock
  shows more than \<^verbatim>\<open>REDIS_EXPIRELOOKUPS_TIME_LIMIT\<close> milliseconds since the start.
\<close>

definition EXPIRELOOKUPS :: nat where
  "EXPIRELOOKUPS = 10"

text \<open>The inner loop: what is left of \<open>num\<close>, the draws, and how many keys have expired.\<close>

fun expire_lookups :: "nat \<Rightarrow> nat \<Rightarrow> byte list list \<Rightarrow> nat \<Rightarrow> redisServer \<Rightarrow> (redisServer \<times> nat \<times> byte list list) option" where
  "expire_lookups d 0 draws expired s = Some (s, expired, draws)"
| "expire_lookups d (Suc num) draws expired s =
     (if card (dom (db_expires (s_db s ! d))) = 0 then Some (s, expired, draws)
      else case draws of
        [] \<Rightarrow> None
      | k # draws \<Rightarrow>
          (case db_expires (s_db s ! d) k of
             None \<Rightarrow> None
           | Some t \<Rightarrow>
               if s_time s > t then
                 expire_lookups d num draws (expired + 1) (fst (dbDelete d k (propagateExpire d k s)))
               else expire_lookups d num draws expired s))"

lemma expire_lookups_draws:
  "expire_lookups d num draws expired s = Some (s', expired', draws') \<Longrightarrow> length draws' + expired' \<le> length draws + expired"
  by (induction d num draws expired s rule: expire_lookups.induct)
    (auto split: if_split_asm list.splits option.splits intro: le_SucI)

text \<open>The rounds of one data base. A round that goes on has used draws. The result says whether the
  time is over.\<close>

function (sequential) expire_rounds :: "nat \<Rightarrow> (nat \<Rightarrow> bool) \<Rightarrow> nat \<Rightarrow> byte list list \<Rightarrow> redisServer \<Rightarrow> (redisServer \<times> byte list list \<times> bool) option" where
  "expire_rounds d late iteration draws s =
     (case expire_lookups d (min (card (dom (db_expires (s_db s ! d)))) EXPIRELOOKUPS) draws 0 s of
        None \<Rightarrow> None
      | Some (s', expired, draws') \<Rightarrow>
          if (iteration + 1) mod 256 = 0 \<and> late (iteration + 1) then Some (s', draws', True)
          else if expired > EXPIRELOOKUPS div 4 then expire_rounds d late (iteration + 1) draws' s'
          else Some (s', draws', False))"
  by pat_completeness auto
termination
  by (relation "measure (\<lambda>(d, late, iteration, draws, s). length draws)") (auto dest: expire_lookups_draws)

declare expire_rounds.simps [simp del]

fun expire_dbs :: "nat list \<Rightarrow> (nat \<Rightarrow> nat \<Rightarrow> bool) \<Rightarrow> byte list list \<Rightarrow> redisServer \<Rightarrow> redisServer option" where
  "expire_dbs [] late draws s = Some s"
| "expire_dbs (d # ds) late draws s =
     do { (s, draws, stop) \<leftarrow> expire_rounds d (late d) 0 draws s;
          if stop then Some s else expire_dbs ds late draws s }"

definition activeExpireCycle :: "(nat \<Rightarrow> nat \<Rightarrow> bool) \<Rightarrow> byte list list \<Rightarrow> redisServer \<Rightarrow> redisServer option" where
  "activeExpireCycle late draws s = expire_dbs [0..<length (s_db s)] late draws s"

section \<open>Only keys whose time has passed are deleted\<close>

text \<open>A draw that is the same key again is not possible: it has no expire any more.\<close>

definition only_lapses :: "redisServer \<Rightarrow> redisServer \<Rightarrow> bool" where
  "only_lapses s s' \<longleftrightarrow> tells {} s s' \<and> (\<forall>d < length (s_db s). \<forall>k. content s' d k = content s d k \<or> lapsed s s' d k)"

lemma only_lapses_refl: "only_lapses s s"
  by (simp add: only_lapses_def tells_refl)

lemma only_lapses_trans:
  assumes "only_lapses s s1" and "only_lapses s1 s2"
  shows "only_lapses s s2"
proof -
  have q: "quiet s s1" "quiet s1 s2" using assms by (simp_all add: only_lapses_def tells_def)
  have "content s2 d k = content s d k \<or> lapsed s s2 d k" if "d < length (s_db s)" for d k
    using assms q that unfolding only_lapses_def lapsed_def quiet_def by (metis option.distinct(1))
  then show ?thesis using quiet_trans [OF q] unfolding only_lapses_def tells_def told_def by blast
qed

lemma only_lapses_delete:
  assumes d: "d < length (s_db s)" and t: "db_expires (s_db s ! d) k = Some t" "s_time s > t"
  shows "only_lapses s (fst (dbDelete d k (propagateExpire d k s)))"
proof -
  let ?s = "fst (dbDelete d k (propagateExpire d k s))"
  have p: "s_db (propagateExpire d k s) = s_db s" "s_time (propagateExpire d k s) = s_time s"
    by (simp_all add: propagateExpire_def add_feed_def Let_def)
  have "tells (insert (d, k) {}) s ?s" by (rule tells_dbDelete [OF tells_propagate [OF tells_refl] d])
  then have q: "quiet s ?s" by (simp add: tells_def)
  have "content ?s e m = content s e m \<or> lapsed s ?s e m" for e m
  proof (cases "e = d \<and> m = k")
    case True
    then show ?thesis using d t p by (cases "db_dict (s_db s ! d) k") (simp_all add: content_def lapsed_def dbDelete_def)
  next
    case False
    then show ?thesis using d p by (cases "e = d") (auto simp: content_def dbDelete_def)
  qed
  then show ?thesis using q unfolding only_lapses_def tells_def told_def by blast
qed

lemma only_lapses_length: "only_lapses s s' \<Longrightarrow> length (s_db s') = length (s_db s)"
  by (auto simp: only_lapses_def dest: tells_length)

lemma expire_lookups_lapses:
  "expire_lookups d num draws expired s = Some (s', expired', draws') \<Longrightarrow> d < length (s_db s) \<Longrightarrow> only_lapses s s'"
proof (induction d num draws expired s rule: expire_lookups.induct)
  case (2 d num draws expired s)
  show ?case
  proof (cases "card (dom (db_expires (s_db s ! d))) = 0")
    case True
    then show ?thesis using 2(3) by (simp add: only_lapses_refl)
  next
    case False
    then obtain k ds t where k: "draws = k # ds" "db_expires (s_db s ! d) k = Some t"
      using 2(3) by (auto split: list.splits option.splits)
    show ?thesis
    proof (cases "s_time s > t")
      case True
      note step = only_lapses_delete [OF 2(4) k(2) True]
      have "expire_lookups d num ds (expired + 1) (fst (dbDelete d k (propagateExpire d k s))) = Some (s', expired', draws')"
        using 2(3) False k True by simp
      from 2(1) [OF False k True this] only_lapses_length [OF step] 2(4) step show ?thesis
        by (metis only_lapses_trans)
    next
      case f: False
      then show ?thesis using 2(2) [OF False k] 2(3,4) False k by simp
    qed
  qed
qed (simp add: only_lapses_refl)

lemma expire_rounds_lapses:
  "expire_rounds d late iteration draws s = Some (s', draws', stop) \<Longrightarrow> d < length (s_db s) \<Longrightarrow> only_lapses s s'"
proof (induction d late iteration draws s rule: expire_rounds.induct)
  case (1 d late iteration draws s)
  obtain s1 n ds where l: "expire_lookups d (min (card (dom (db_expires (s_db s ! d)))) EXPIRELOOKUPS) draws 0 s = Some (s1, n, ds)"
    using 1(2) by (subst (asm) expire_rounds.simps) (auto split: option.splits)
  have o: "only_lapses s s1" using expire_lookups_lapses [OF l 1(3)] .
  show ?case
  proof (cases "((iteration + 1) mod 256 = 0 \<and> late (iteration + 1)) \<or> \<not> n > EXPIRELOOKUPS div 4")
    case True
    then show ?thesis using 1(2) o by (subst (asm) expire_rounds.simps) (auto simp: l split: if_splits)
  next
    case False
    have "expire_rounds d late (iteration + 1) ds s1 = Some (s', draws', stop)"
      using 1(2) False by (subst (asm) expire_rounds.simps) (auto simp: l split: if_splits)
    from 1(1) [OF l _ _ _ _ this] only_lapses_length [OF o] 1(3) False have "only_lapses s1 s'" by auto
    then show ?thesis using only_lapses_trans [OF o] by blast
  qed
qed

lemma expire_dbs_lapses:
  "expire_dbs ds late draws s = Some s' \<Longrightarrow> \<forall>d \<in> set ds. d < length (s_db s) \<Longrightarrow> only_lapses s s'"
proof (induction ds arbitrary: draws s)
  case (Cons d ds)
  obtain s1 draws1 stop where r: "expire_rounds d (late d) 0 draws s = Some (s1, draws1, stop)"
    and rest: "(if stop then Some s1 else expire_dbs ds late draws1 s1) = Some s'"
    using Cons.prems(1) by (auto elim!: bindE)
  have o: "only_lapses s s1" using expire_rounds_lapses [OF r] Cons.prems(2) by simp
  show ?case
  proof (cases stop)
    case True
    then show ?thesis using rest o by simp
  next
    case False
    then have "only_lapses s1 s'" using Cons.IH [of draws1 s1] rest Cons.prems(2) only_lapses_length [OF o] by simp
    then show ?thesis using only_lapses_trans [OF o] by blast
  qed
qed (simp add: only_lapses_refl)

lemma activeExpireCycle_lapses: "activeExpireCycle late draws s = Some s' \<Longrightarrow> only_lapses s s'"
  unfolding activeExpireCycle_def by (rule expire_dbs_lapses) auto

end
