(* ===== verification/MultiSpec.thy ===== *)
theory MultiSpec
  imports Cron
begin

text \<open>
  Transactions: the tables of watched keys stay consistent through any interleaving of the requests of
  clients, and a client that watches a key and is not told of a change finds it at its EXEC as it
  was when it began to watch it.
\<close>

section \<open>The watch tables\<close>

lemma watch_okI:
  assumes "\<And>d k l. d < length (s_db s) \<Longrightarrow> db_watched (s_db s ! d) k = Some l \<Longrightarrow> l \<noteq> [] \<and> distinct l"
    and "\<And>d k i. d < length (s_db s) \<Longrightarrow> watches s i d k \<longleftrightarrow> (\<exists>c. s_clients s i = Some c \<and> (k, d) \<in> set (k_watched c))"
    and "\<And>i c. s_clients s i = Some c \<Longrightarrow> k_db c < length (s_db s) \<and> distinct (k_watched c) \<and> (\<forall>(k, d) \<in> set (k_watched c). d < length (s_db s))"
  shows "watch_ok s"
  using assms unfolding watch_ok_def by blast

lemma watch_ok_client: "watch_ok s \<Longrightarrow> s_clients s i = Some c \<Longrightarrow>
    k_db c < length (s_db s) \<and> distinct (k_watched c) \<and> (\<forall>(k, d) \<in> set (k_watched c). d < length (s_db s))"
  unfolding watch_ok_def by blast

lemma watch_ok_list: "watch_ok s \<Longrightarrow> d < length (s_db s) \<Longrightarrow> db_watched (s_db s ! d) k = Some l \<Longrightarrow> l \<noteq> [] \<and> distinct l"
  unfolding watch_ok_def by blast

lemma watch_ok_iff: "watch_ok s \<Longrightarrow> d < length (s_db s) \<Longrightarrow> watches s i d k \<longleftrightarrow> (\<exists>c. s_clients s i = Some c \<and> (k, d) \<in> set (k_watched c))"
  unfolding watch_ok_def by blast

lemma quiet_back:
  "quiet s s' \<Longrightarrow> s_clients s' i = Some c' \<Longrightarrow> \<exists>c. s_clients s i = Some c \<and> client_quiet (length (s_db s)) c c' \<and> k_watched c' = k_watched c"
  unfolding quiet_def by (drule conjunct2, drule conjunct2, drule conjunct2, drule conjunct2, drule spec [of _ i])
    (auto simp: option_rel_Some2 client_quiet_def)

lemma quiet_watch_ok:
  assumes "quiet s s'" and ok: "watch_ok s"
  shows "watch_ok s'"
proof -
  have l: "length (s_db s') = length (s_db s)" "\<And>d. d < length (s_db s) \<Longrightarrow> db_watched (s_db s' ! d) = db_watched (s_db s ! d)"
    using assms(1) by (simp_all add: quiet_def)
  show ?thesis
  proof (rule watch_okI, unfold l(1), goal_cases)
    case (1 d k m) then show ?case using watch_ok_list [OF ok] l(2) by simp
  next
    case (2 d k i)
    have "(\<exists>c. s_clients s i = Some c \<and> (k, d) \<in> set (k_watched c)) \<longleftrightarrow> (\<exists>c. s_clients s' i = Some c \<and> (k, d) \<in> set (k_watched c))"
      using quiet_client [OF assms(1)] quiet_back [OF assms(1)] by metis
    then show ?case using watch_ok_iff [OF ok 2] quiet_watches [OF assms(1) 2] by simp
  next
    case (3 i c')
    then obtain c where "s_clients s i = Some c" "client_quiet (length (s_db s)) c c'" "k_watched c' = k_watched c"
      using quiet_back [OF assms(1)] by blast
    then show ?case using watch_ok_client [OF ok] by (simp add: client_quiet_def)
  qed
qed

text \<open>Changes of one client and one list at a time.\<close>

lemma watches_upd_client [simp]: "watches (upd_client i f s) j d k = watches s j d k"
  by (simp add: watches_def)

lemma watchForKey_ok:
  assumes ok: "watch_ok s" and w: "watchForKey k i s = Some s'"
  shows "watch_ok s'"
proof -
  obtain c where c: "s_clients s i = Some c" and dlen: "k_db c < length (s_db s)"
    using w by (auto simp: watchForKey_def client_db_def elim!: bindE)
  let ?d = "k_db c"
  show ?thesis
  proof (cases "(k, ?d) \<in> set (k_watched c)")
    case True
    then show ?thesis using w c dlen ok by (simp add: watchForKey_def client_db_def require_def)
  next
    case False
    define l where "l = (case db_watched (s_db s ! ?d) k of None \<Rightarrow> [] | Some l \<Rightarrow> l)"
    have s': "s' = upd_client i (\<lambda>c. c\<lparr>k_watched := k_watched c @ [(k, ?d)]\<rparr>)
        (upd_db ?d (\<lambda>db. db\<lparr>db_watched := (db_watched db)(k \<mapsto> l @ [i])\<rparr>) s)"
      using w c dlen False by (simp add: watchForKey_def client_db_def require_def l_def)
    have set_l: "j \<in> set l \<longleftrightarrow> watches s j ?d k" for j by (cases "db_watched (s_db s ! ?d) k") (simp_all add: l_def watches_def)
    have dl: "distinct l" "i \<notin> set l"
      using watch_ok_list [OF ok dlen, of k] watch_ok_iff [OF ok dlen, of i k] c False set_l
      by (auto simp: l_def split: option.splits)
    have wt: "db_watched (s_db s' ! e) m = (if e = ?d \<and> m = k then Some (l @ [i]) else db_watched (s_db s ! e) m)" for e m
      using dlen by (cases "e = ?d") (simp_all add: s')
    show ?thesis
    proof (rule watch_okI, goal_cases)
      case (1 e m x) then show ?case using watch_ok_list [OF ok, of e m x] dl wt [of e m] s' by (auto split: if_splits)
    next
      case (2 e m j)
      then have e: "e < length (s_db s)" by (simp add: s')
      have "watches s' j e m \<longleftrightarrow> watches s j e m \<or> (j = i \<and> e = ?d \<and> m = k)"
        using wt [of e m] set_l [of j] by (auto simp: watches_def)
      then show ?case using watch_ok_iff [OF ok e, of j m] c by (auto simp: s')
    next
      case (3 j c')
      then show ?case using watch_ok_client [OF ok, of j] c dlen False by (auto simp: s' split: if_splits)
    qed
  qed
qed

lemma watch_loop_ok: "watch_ok s \<Longrightarrow> watch_loop ks i s = Some s' \<Longrightarrow> watch_ok s'"
  by (induction ks arbitrary: s) (auto elim!: bindE intro: watchForKey_ok)

text \<open>Unwatching all keys: it never fails, and does nothing else.\<close>

definition unwatched :: "nat \<Rightarrow> redisServer \<Rightarrow> redisServer \<Rightarrow> bool" where
  "unwatched i s s' \<longleftrightarrow>
     (\<exists>dbs. s' = s\<lparr>s_db := dbs, s_clients := (s_clients s)(i := map_option (\<lambda>c. c\<lparr>k_watched := []\<rparr>) (s_clients s i))\<rparr> \<and>
        length dbs = length (s_db s) \<and>
        (\<forall>d < length (s_db s). db_dict (dbs ! d) = db_dict (s_db s ! d) \<and> db_expires (dbs ! d) = db_expires (s_db s ! d)) \<and>
        (\<forall>d < length (s_db s). \<forall>k j. j \<noteq> i \<longrightarrow> watches s' j d k = watches s j d k))"

lemma unwatch_one:
  assumes ok: "watch_ok s" and c: "s_clients s i = Some c" "k_watched c = (k, d) # ws"
  shows "\<exists>l. db_watched (s_db s ! d) k = Some l \<and> i \<in> set l \<and>
    (let s' = upd_client i (\<lambda>c. c\<lparr>k_watched := tl (k_watched c)\<rparr>)
       (upd_db d (\<lambda>db. db\<lparr>db_watched := (db_watched db)(k := if remove1 i l = [] then None else Some (remove1 i l))\<rparr>) s)
     in watch_ok s' \<and> (\<forall>e < length (s_db s). \<forall>m j. j \<noteq> i \<longrightarrow> watches s' j e m = watches s j e m))"
proof -
  have d: "d < length (s_db s)" "distinct ((k, d) # ws)" using watch_ok_client [OF ok c(1)] c(2) by simp_all
  then have "watches s i d k" using watch_ok_iff [OF ok d(1)] c by auto
  then obtain l where l: "db_watched (s_db s ! d) k = Some l" "i \<in> set l" by (auto simp: watches_def)
  have dl: "distinct l" using watch_ok_list [OF ok d(1) l(1)] by simp
  define s' where "s' = upd_client i (\<lambda>c. c\<lparr>k_watched := tl (k_watched c)\<rparr>)
    (upd_db d (\<lambda>db. db\<lparr>db_watched := (db_watched db)(k := if remove1 i l = [] then None else Some (remove1 i l))\<rparr>) s)"
  have wt: "db_watched (s_db s' ! e) m =
      (if e = d \<and> m = k then (if remove1 i l = [] then None else Some (remove1 i l)) else db_watched (s_db s ! e) m)" for e m
    using d by (cases "e = d") (simp_all add: s'_def)
  have w: "watches s' j e m \<longleftrightarrow> watches s j e m \<and> \<not> (j = i \<and> e = d \<and> m = k)" for j e m
  proof (cases "e = d \<and> m = k")
    case True
    have "watches s' j d k \<longleftrightarrow> j \<in> set (remove1 i l)" using wt [of d k] by (auto simp: watches_def split: if_splits)
    moreover have "watches s j d k \<longleftrightarrow> j \<in> set l" using l by (simp add: watches_def)
    ultimately show ?thesis using True dl by (auto simp: set_remove1_eq)
  qed (use wt [of e m] in \<open>auto simp: watches_def\<close>)
  have "watch_ok s'"
  proof (rule watch_okI, goal_cases)
    case (1 e m x)
    then show ?case using watch_ok_list [OF ok, of e m x] dl wt [of e m] s'_def by (auto split: if_splits)
  next
    case (2 e m j)
    then have e: "e < length (s_db s)" by (simp add: s'_def)
    show ?case using w [of j e m] watch_ok_iff [OF ok e, of j m] c d(2) by (auto simp: s'_def)
  next
    case (3 j c')
    then show ?case using watch_ok_client [OF ok, of j] c d by (auto simp: s'_def split: if_splits)
  qed
  then show ?thesis using l w unfolding s'_def [symmetric] Let_def by (intro exI [of _ l]) (simp flip: s'_def)
qed

lemma unwatched_trans:
  assumes "unwatched i s1 s2" and "s_clients s i = Some c"
    and "s1 = s\<lparr>s_db := dbs, s_clients := (s_clients s)(i \<mapsto> c\<lparr>k_watched := ws\<rparr>)\<rparr>" and "length dbs = length (s_db s)"
    and "\<And>d. d < length (s_db s) \<Longrightarrow> db_dict (dbs ! d) = db_dict (s_db s ! d) \<and> db_expires (dbs ! d) = db_expires (s_db s ! d)"
    and "\<And>d k j. d < length (s_db s) \<Longrightarrow> j \<noteq> i \<Longrightarrow> watches s1 j d k = watches s j d k"
  shows "unwatched i s s2"
proof -
  obtain dbs2 where "s2 = s1\<lparr>s_db := dbs2, s_clients := (s_clients s1)(i := map_option (\<lambda>c. c\<lparr>k_watched := []\<rparr>) (s_clients s1 i))\<rparr>"
    "length dbs2 = length (s_db s1)"
    "\<forall>d < length (s_db s1). db_dict (dbs2 ! d) = db_dict (s_db s1 ! d) \<and> db_expires (dbs2 ! d) = db_expires (s_db s1 ! d)"
    "\<forall>d < length (s_db s1). \<forall>k j. j \<noteq> i \<longrightarrow> watches s2 j d k = watches s1 j d k"
    using assms(1) unfolding unwatched_def by blast
  then show ?thesis unfolding unwatched_def by (intro exI [of _ dbs2]) (use assms(2-6) in simp)
qed

lemma unwatch_loop_ok:
  assumes "watch_ok s" and "s_clients s i = Some c" and "k_watched c = ws"
  shows "\<exists>s'. unwatch_loop i ws s = Some s' \<and> watch_ok s' \<and> unwatched i s s'"
  using assms
proof (induction ws arbitrary: s c)
  case Nil
  then have "s = s\<lparr>s_db := s_db s, s_clients := (s_clients s)(i := map_option (\<lambda>c. c\<lparr>k_watched := []\<rparr>) (s_clients s i))\<rparr>"
    by (simp add: fun_upd_idem)
  then have "unwatched i s s" unfolding unwatched_def by (intro exI [of _ "s_db s"]) simp
  then show ?case using Nil.prems(1) by simp
next
  case (Cons kd ws)
  obtain k d where kd: "kd = (k, d)" by fastforce
  obtain l where l: "db_watched (s_db s ! d) k = Some l" "i \<in> set l"
    and one: "let s' = upd_client i (\<lambda>c. c\<lparr>k_watched := tl (k_watched c)\<rparr>)
       (upd_db d (\<lambda>db. db\<lparr>db_watched := (db_watched db)(k := if remove1 i l = [] then None else Some (remove1 i l))\<rparr>) s)
     in watch_ok s' \<and> (\<forall>e < length (s_db s). \<forall>m j. j \<noteq> i \<longrightarrow> watches s' j e m = watches s j e m)"
    using unwatch_one [OF Cons.prems(1,2), of k d ws] Cons.prems(3) kd by auto
  have d: "d < length (s_db s)" using watch_ok_client [OF Cons.prems(1,2)] Cons.prems(3) kd by auto
  define dbs where "dbs = (s_db s)[d := (s_db s ! d)\<lparr>db_watched := (db_watched (s_db s ! d))(k := if remove1 i l = [] then None else Some (remove1 i l))\<rparr>]"
  define s1 where "s1 = s\<lparr>s_db := dbs, s_clients := (s_clients s)(i \<mapsto> c\<lparr>k_watched := ws\<rparr>)\<rparr>"
  have s1': "s1 = upd_client i (\<lambda>c. c\<lparr>k_watched := tl (k_watched c)\<rparr>)
       (upd_db d (\<lambda>db. db\<lparr>db_watched := (db_watched db)(k := if remove1 i l = [] then None else Some (remove1 i l))\<rparr>) s)"
    using Cons.prems by (simp add: s1_def dbs_def upd_client_def upd_db_def)
  have w1: "watch_ok s1" "\<And>e m j. e < length (s_db s) \<Longrightarrow> j \<noteq> i \<Longrightarrow> watches s1 j e m = watches s j e m"
    using one unfolding Let_def s1' [symmetric] by blast+
  have "s_clients s1 i = Some (c\<lparr>k_watched := ws\<rparr>)" by (simp add: s1_def)
  from Cons.IH [OF w1(1) this] obtain s2 where s2: "unwatch_loop i ws s1 = Some s2" "watch_ok s2" "unwatched i s1 s2" by auto
  have "unwatch_loop i (kd # ws) s = Some s2" using l s2(1) by (simp add: kd s1' require_def)
  moreover have "unwatched i s s2"
    by (rule unwatched_trans [OF s2(3) Cons.prems(2) s1_def]) (use d w1(2) in \<open>auto simp: dbs_def nth_list_update\<close>)
  ultimately show ?case using s2(2) by blast
qed

lemma unwatchAllKeys_ok:
  assumes "watch_ok s" and "s_clients s i \<noteq> None"
  shows "\<exists>s'. unwatchAllKeys i s = Some s' \<and> watch_ok s' \<and> unwatched i s s'"
proof -
  obtain c where "s_clients s i = Some c" using assms(2) by blast
  then show ?thesis using unwatch_loop_ok [OF assms(1)] by (simp add: unwatchAllKeys_def)
qed

section \<open>What a watching client is told\<close>

definition informed :: "nat \<Rightarrow> nat \<Rightarrow> byte list \<Rightarrow> redisServer \<Rightarrow> redisServer \<Rightarrow> bool" where
  "informed i d k s s' \<longleftrightarrow> (has_flag REDIS_DIRTY_CAS i s \<longrightarrow> has_flag REDIS_DIRTY_CAS i s') \<and>
     (content s' d k = content s d k \<or> lapsed s s' d k \<or> has_flag REDIS_DIRTY_CAS i s')"

definition same_config :: "redisServer \<Rightarrow> redisServer \<Rightarrow> bool" where
  "same_config s s' \<longleftrightarrow> length (s_db s') = length (s_db s) \<and> s_time s \<le> s_time s' \<and> s_maxmemory s' = s_maxmemory s"

definition queues_kept :: "redisServer \<Rightarrow> redisServer \<Rightarrow> bool" where
  "queues_kept s s' \<longleftrightarrow> (\<forall>i c'. s_clients s' i = Some c' \<longrightarrow> (\<exists>c. s_clients s i = Some c \<and> k_mstate c' \<in> {k_mstate c, []}))"

text \<open>Who watches a key after the step has watched it before; with \<open>strict\<close>, it has been told of changes.\<close>

definition sees :: "bool \<Rightarrow> redisServer \<Rightarrow> redisServer \<Rightarrow> bool" where
  "sees strict s s' \<longleftrightarrow> same_config s s' \<and> queues_kept s s' \<and>
     (\<forall>i d k. d < length (s_db s) \<longrightarrow> watches s' i d k \<longrightarrow> watches s i d k \<and> (strict \<longrightarrow> informed i d k s s'))"

lemma same_config_refl [simp]: "same_config s s"
  by (simp add: same_config_def)

lemma same_config_trans: "same_config s s1 \<Longrightarrow> same_config s1 s2 \<Longrightarrow> same_config s s2"
  by (simp add: same_config_def)

lemma queues_kept_refl [simp]: "queues_kept s s"
  by (simp add: queues_kept_def)

lemma queues_kept_trans: "queues_kept s s1 \<Longrightarrow> queues_kept s1 s2 \<Longrightarrow> queues_kept s s2"
  unfolding queues_kept_def by (metis insert_iff)

lemma queues_kept_client: "(\<And>c. k_mstate (f c) \<in> {k_mstate c, []}) \<Longrightarrow> queues_kept s (upd_client i f s)"
  by (auto simp: queues_kept_def upd_client_def)

lemma queues_kept_quiet: "quiet s s' \<Longrightarrow> queues_kept s s'"
  using quiet_back unfolding queues_kept_def client_quiet_def by (metis insertI1)

lemma informed_trans:
  assumes "informed i d k s s1" and "informed i d k s1 s2" and "same_config s1 s2"
  shows "informed i d k s s2"
proof -
  have "s_time s1 \<le> s_time s2" using assms(3) by (simp add: same_config_def)
  then show ?thesis using assms(1,2) unfolding informed_def lapsed_def by (metis option.distinct(1) order_less_le_trans)
qed

lemma sees_refl [simp]: "sees strict s s"
  by (simp add: sees_def informed_def)

lemma sees_trans: "sees strict s s1 \<Longrightarrow> sees strict s1 s2 \<Longrightarrow> sees strict s s2"
proof -
  assume a: "sees strict s s1" "sees strict s1 s2"
  then have c: "same_config s s1" "same_config s1 s2" "queues_kept s s1" "queues_kept s1 s2" by (simp_all add: sees_def)
  have "watches s i d k \<and> (strict \<longrightarrow> informed i d k s s2)" if "d < length (s_db s)" "watches s2 i d k" for i d k
  proof -
    have "watches s1 i d k \<and> (strict \<longrightarrow> informed i d k s1 s2)" using a(2) c(1) that by (simp add: sees_def same_config_def)
    moreover from this have "watches s i d k \<and> (strict \<longrightarrow> informed i d k s s1)" using a(1) that(1) by (simp add: sees_def)
    ultimately show ?thesis using informed_trans c(2) by blast
  qed
  then show ?thesis using same_config_trans [OF c(1,2)] queues_kept_trans [OF c(3,4)] by (simp add: sees_def)
qed

lemma tells_sees:
  assumes "tells {} s s'"
  shows "sees strict s s'"
proof -
  have q: "quiet s s'" and t: "told {} s s'" using assms by (simp_all add: tells_def)
  have "same_config s s'" using q by (simp add: same_config_def quiet_def)
  moreover have "watches s i d k \<and> informed i d k s s'" if "d < length (s_db s)" "watches s' i d k" for i d k
  proof -
    have "watches s i d k" using quiet_watches [OF q that(1)] that(2) by simp
    then show ?thesis using t that(1) quiet_dirty [OF q] unfolding told_def informed_def by blast
  qed
  ultimately show ?thesis using queues_kept_quiet [OF q] by (simp add: sees_def)
qed

lemma quiet_sees:
  assumes q: "quiet s s'"
  shows "sees False s s'"
  using queues_kept_quiet [OF q] quiet_watches [OF q] q by (auto simp: sees_def same_config_def quiet_def)

text \<open>A step that changes nothing for the others, and after which client \<open>j\<close> watches no key.\<close>

lemma sees_forget:
  assumes "same_config s s'" and "queues_kept s s'" and "\<And>d k. d < length (s_db s) \<Longrightarrow> content s' d k = content s d k"
    and "\<And>i. i \<noteq> j \<Longrightarrow> has_flag REDIS_DIRTY_CAS i s' = has_flag REDIS_DIRTY_CAS i s"
    and "\<And>i d k. i \<noteq> j \<Longrightarrow> d < length (s_db s) \<Longrightarrow> watches s' i d k = watches s i d k"
    and "\<And>d k. d < length (s_db s) \<Longrightarrow> \<not> watches s' j d k"
  shows "sees strict s s'"
  using assms unfolding sees_def informed_def by metis

lemma no_keys_watched: "watch_ok s \<Longrightarrow> map_option k_watched (s_clients s j) \<in> {None, Some []} \<Longrightarrow> d < length (s_db s) \<Longrightarrow> \<not> watches s j d k"
  using watch_ok_iff by fastforce

lemma watch_ok_upd:
  assumes "watch_ok s" and "\<And>c. k_watched (f c) = k_watched c" and "\<And>c. k_db (f c) = k_db c"
  shows "watch_ok (upd_client i f s)"
proof (rule watch_okI, goal_cases)
  case (1 d k l) then show ?case using watch_ok_list [OF assms(1)] by simp
next
  case (2 d k j)
  then show ?case using watch_ok_iff [OF assms(1), of d j k] assms(2) by (cases "s_clients s i") auto
next
  case (3 j c)
  then show ?case using watch_ok_client [OF assms(1), of j] assms(2,3) by (auto split: if_splits)
qed

lemma unwatched_facts:
  assumes "unwatched j s s'"
  shows "same_config s s'" "\<And>d k. d < length (s_db s) \<Longrightarrow> content s' d k = content s d k"
    "\<And>i. i \<noteq> j \<Longrightarrow> s_clients s' i = s_clients s i" "s_clients s' j = map_option (\<lambda>c. c\<lparr>k_watched := []\<rparr>) (s_clients s j)"
    "\<And>i d k. i \<noteq> j \<Longrightarrow> d < length (s_db s) \<Longrightarrow> watches s' i d k = watches s i d k" "length (s_db s') = length (s_db s)"
  using assms unfolding unwatched_def same_config_def content_def by auto

text \<open>Client \<open>j\<close> stops watching, and its own fields change before or after.\<close>

lemma queues_kept_unwatched: "unwatched j s s' \<Longrightarrow> queues_kept s s'"
  by (auto simp: unwatched_def queues_kept_def split: if_split_asm)

lemma sees_unwatched:
  assumes u: "unwatched j (upd_client j f s) s1" and ok: "watch_ok s1"
    and g: "\<And>c. k_watched (g c) = k_watched c" "\<And>c. k_db (g c) = k_db c"
    and m: "\<And>c. k_mstate (f c) \<in> {k_mstate c, []}" "\<And>c. k_mstate (g c) \<in> {k_mstate c, []}"
  shows "sees strict s (upd_client j g s1) \<and> watch_ok (upd_client j g s1)"
proof -
  have ok': "watch_ok (upd_client j g s1)" using watch_ok_upd [OF ok] g by blast
  have "sees strict s (upd_client j g s1)"
  proof (rule sees_forget [of _ _ j], goal_cases)
    case 1 then show ?case using unwatched_facts(1) [OF u] by (simp add: same_config_def)
  next
    case 2 show ?case
      by (rule queues_kept_trans [OF queues_kept_trans [OF queues_kept_client [of f, OF m(1)] queues_kept_unwatched [OF u]] queues_kept_client [of g, OF m(2)]])
  next
    case (3 d k) then show ?case using unwatched_facts(2) [OF u, of d k] by (simp add: content_def)
  next
    case (4 i) then show ?case using unwatched_facts(3) [OF u 4] by (simp add: has_flag_def)
  next
    case (5 i d k) then show ?case using unwatched_facts(5) [OF u, of i d k] by simp
  next
    case (6 d k)
    have "map_option k_watched (s_clients (upd_client j g s1) j) \<in> {None, Some []}"
      using unwatched_facts(4) [OF u] g by (cases "s_clients s j") auto
    then show ?case using no_keys_watched [OF ok'] 6 unwatched_facts(6) [OF u] by simp
  qed
  then show ?thesis using ok' by blast
qed

lemma upd_client_id [simp]: "upd_client j (\<lambda>c. c) s = s"
  by (simp add: upd_client_def option.map_ident)

lemma tells_watch_ok: "tells {} s s' \<Longrightarrow> watch_ok s \<Longrightarrow> watch_ok s'"
  using quiet_watch_ok by (auto simp: tells_def)

section \<open>Commands and requests\<close>

text \<open>The commands of this library: those of \<^verbatim>\<open>t_string.c\<close>, the commands on keys of \<^verbatim>\<open>db.c\<close> (but KEYS,
  RANDOMKEY and the like), those of \<^verbatim>\<open>multi.c\<close>, PING and ECHO. All of them but MOVE and PERSIST tell.\<close>

definition modelled :: "redisProc \<Rightarrow> bool" where
  "modelled p \<longleftrightarrow> (\<forall>n. p \<noteq> OtherProc n)"

definition telling :: "redisProc \<Rightarrow> bool" where
  "telling p \<longleftrightarrow> modelled p \<and> p \<noteq> MoveCommand \<and> p \<noteq> PersistCommand"

text \<open>The lemmas are for both, and with \<open>strict\<close> for commands that tell.\<close>

definition admits :: "bool \<Rightarrow> redisProc \<Rightarrow> bool" where
  "admits strict = (if strict then telling else modelled)"

lemma admits_simps [simp]: "admits True = telling" "admits False = modelled"
  by (simp_all add: admits_def)

lemma admits_modelled: "admits strict p \<Longrightarrow> p \<noteq> OtherProc n"
  by (auto simp: admits_def telling_def modelled_def split: if_splits)

text \<open>MOVE and PERSIST change keys without telling, and nothing else.\<close>

lemma tells_all:
  "tells {} s0 s \<Longrightarrow> tells UNIV s0 s"
  "dbAdd d k v s = Some s' \<Longrightarrow> tells UNIV s0 s \<Longrightarrow> d < length (s_db s0) \<Longrightarrow> tells UNIV s0 s'"
  "tells UNIV s0 s \<Longrightarrow> d < length (s_db s0) \<Longrightarrow> tells UNIV s0 (fst (dbDelete d k s))"
  "removeExpire d k s = Some (s', b) \<Longrightarrow> tells UNIV s0 s \<Longrightarrow> d < length (s_db s0) \<Longrightarrow> tells UNIV s0 s'"
  using tells_mono [of "{}" s0 s UNIV] tells_dbAdd [of d k v s s' UNIV s0] tells_dbDelete [of UNIV s0 s d k]
    tells_removeExpire [of d k s s' b UNIV s0] by simp_all

lemma move_persist_quiet:
  "moveCommand i s = Some s' \<Longrightarrow> tells UNIV s s'"
  "persistCommand i s = Some s' \<Longrightarrow> tells UNIV s s'"
  by (auto simp: moveCommand_def persistCommand_def elim!: bindE split: option.splits if_split_asm)
    (rule tells_all(1) [OF tells_refl] tells_reply tells_add_dirty tells_all(3)
      | erule tells_lookup(2) tells_select client_db_tells tells_all(2,4))+

definition queueable :: "redisProc \<Rightarrow> bool" where
  "queueable p \<longleftrightarrow> p \<notin> {ExecCommand, DiscardCommand, MultiCommand, WatchCommand}"

definition queue_ok :: "(redisProc \<Rightarrow> bool) \<Rightarrow> redisServer \<Rightarrow> bool" where
  "queue_ok allowed s \<longleftrightarrow> (\<forall>i c. s_clients s i = Some c \<longrightarrow> (\<forall>m \<in> set (k_mstate c). queueable (c_proc (m_cmd m)) \<and> allowed (c_proc (m_cmd m))))"

lemma unwatch_tells_ok:
  assumes ok: "watch_ok s" and u: "unwatchAllKeys i s = Some s1"
  shows "watch_ok s1" "unwatched i s s1" "sees strict s s1" "s_clients s i \<noteq> None"
proof -
  show c: "s_clients s i \<noteq> None" using u by (auto simp: unwatchAllKeys_def elim!: bindE)
  obtain s2 where "unwatchAllKeys i s = Some s2" "watch_ok s2" "unwatched i s s2" using unwatchAllKeys_ok [OF ok c] by blast
  then show w: "watch_ok s1" "unwatched i s s1" using u by simp_all
  show "sees strict s s1" using sees_unwatched [of i "\<lambda>c. c" s s1 "\<lambda>c. c"] w by simp
qed

lemma sees_then_tells: "sees strict s s1 \<Longrightarrow> watch_ok s1 \<Longrightarrow> tells {} s1 s2 \<Longrightarrow> sees strict s s2 \<and> watch_ok s2"
  using tells_sees tells_watch_ok sees_trans by blast

lemma run_queueable:
  assumes ok: "watch_ok s" and p: "admits strict p" "queueable p" and run: "run_proc oth p i s = Some s'"
  shows "sees strict s s' \<and> watch_ok s'"
proof (cases "p = UnwatchCommand")
  case True
  then obtain s1 where u: "unwatchAllKeys i s = Some s1"
    and s': "s' = addReply_bytes shared_ok i (upd_client i (\<lambda>c. c\<lparr>k_flags := k_flags c - {REDIS_DIRTY_CAS}\<rparr>) s1)"
    using run by (auto simp: run_proc_def unwatchCommand_def elim!: bindE)
  have w: "watch_ok s1" "unwatched i (upd_client i (\<lambda>c. c) s) s1" using unwatch_tells_ok [OF ok u] by simp_all
  have "sees strict s (upd_client i (\<lambda>c. c\<lparr>k_flags := k_flags c - {REDIS_DIRTY_CAS}\<rparr>) s1) \<and>
      watch_ok (upd_client i (\<lambda>c. c\<lparr>k_flags := k_flags c - {REDIS_DIRTY_CAS}\<rparr>) s1)"
    by (rule sees_unwatched [OF w(2,1)]) simp_all
  moreover have "tells {} (upd_client i (\<lambda>c. c\<lparr>k_flags := k_flags c - {REDIS_DIRTY_CAS}\<rparr>) s1) s'"
    unfolding s' by (intro tells_reply tells_refl)
  ultimately show ?thesis using sees_then_tells by blast
next
  case False
  have "sees strict s s' \<and> quiet s s'"
  proof (cases "telling p")
    case True
    then have "data_proc p" using False p(2) by (auto simp: data_proc_def telling_def modelled_def queueable_def)
    then show ?thesis using data_proc_tells ok run tells_sees by (metis tells_def)
  next
    case f: False
    then have "\<not> strict" and "p = MoveCommand \<or> p = PersistCommand"
      using p(1) by (auto simp: admits_def telling_def split: if_splits)
    then have "quiet s s'" using move_persist_quiet run by (auto simp: run_proc_def tells_def)
    then show ?thesis using quiet_sees \<open>\<not> strict\<close> by simp
  qed
  then show ?thesis using quiet_watch_ok ok by blast
qed

lemma call_with_steps:
  assumes "call_with run i s = Some s'" and "\<And>c. s_clients s i = Some c \<Longrightarrow> k_cmd c = Some cmd"
  obtains s1 where "run (c_proc cmd) i s = Some s1" "tells {} s1 s'"
proof -
  obtain s1 on1 on2 on3 f1 f2 f3 where "run (c_proc cmd) i s = Some s1"
    and s': "s' = add_feed on3 f3 (add_feed on2 f2 (add_feed on1 f1 s1))"
    using assms by (auto simp: call_with_def elim!: bindE)
  moreover have "tells {} s1 s'" unfolding s' by (intro tells_add_feed tells_refl)
  ultimately show ?thesis using that by blast
qed

lemma call_with_ok:
  assumes call: "call_with run i s = Some s'" and cmd: "\<And>c. s_clients s i = Some c \<Longrightarrow> k_cmd c = Some cmd"
    and run: "\<And>s1. run (c_proc cmd) i s = Some s1 \<Longrightarrow> sees strict s s1 \<and> watch_ok s1"
  shows "sees strict s s' \<and> watch_ok s'"
proof -
  obtain s1 where s1: "run (c_proc cmd) i s = Some s1" "tells {} s1 s'" by (rule call_with_steps [OF call cmd])
  then show ?thesis using run sees_then_tells by blast
qed

lemma exec_loop_ok:
  "exec_loop oth ms i s = Some s' \<Longrightarrow> watch_ok s \<Longrightarrow> \<forall>m \<in> set ms. queueable (c_proc (m_cmd m)) \<and> admits strict (c_proc (m_cmd m)) \<Longrightarrow>
    sees strict s s' \<and> watch_ok s'"
proof (induction ms arbitrary: s)
  case (Cons m ms)
  let ?s = "upd_client i (\<lambda>c. c\<lparr>k_argv := m_argv m, k_cmd := Some (m_cmd m)\<rparr>) s"
  obtain s1 where s1: "call_with (run_proc oth) i ?s = Some s1" "exec_loop oth ms i s1 = Some s'"
    using Cons.prems(1) by (auto elim!: bindE)
  have t: "tells {} s ?s" by (intro tells_client tells_refl)
  then have ok: "watch_ok ?s" using tells_watch_ok Cons.prems(2) by blast
  have "sees strict ?s s1 \<and> watch_ok s1"
  proof (rule call_with_ok [OF s1(1)])
    show "k_cmd c = Some (m_cmd m)" if "s_clients ?s i = Some c" for c using that by auto
    show "sees strict ?s s2 \<and> watch_ok s2" if "run_proc oth (c_proc (m_cmd m)) i ?s = Some s2" for s2
      using run_queueable [where strict = strict, OF ok _ _ that] Cons.prems(3) by simp
  qed
  then show ?case using Cons.IH [OF s1(2)] Cons.prems(3) sees_trans [OF tells_sees [OF t], of strict s1] sees_trans [of strict s s1 s'] by simp
qed simp

text \<open>Leaving the transaction: the queue and the flags of a client that watches nothing.\<close>

lemma leave_transaction:
  assumes ok: "watch_ok s" and none: "\<And>d k. d < length (s_db s) \<Longrightarrow> \<not> watches s i d k"
  shows "sees strict s (clear_multi_flags i (initClientMultiState i (freeClientMultiState i s))) \<and>
    watch_ok (clear_multi_flags i (initClientMultiState i (freeClientMultiState i s)))"
proof -
  have "watch_ok (clear_multi_flags i (initClientMultiState i (freeClientMultiState i s)))"
    unfolding clear_multi_flags_def initClientMultiState_def freeClientMultiState_def by (intro watch_ok_upd ok) simp_all
  moreover have "sees strict s (clear_multi_flags i (initClientMultiState i (freeClientMultiState i s)))"
    by (rule sees_forget [of _ _ i]; cases "s_clients s i"; use none in
      \<open>simp add: clear_multi_flags_def initClientMultiState_def freeClientMultiState_def queues_kept_def same_config_def content_def has_flag_def split: if_split_asm\<close>)
  ultimately show ?thesis by blast
qed

lemma abort_transaction:
  assumes ok: "watch_ok s" and u: "unwatchAllKeys i (clear_multi_flags i (initClientMultiState i (freeClientMultiState i s))) = Some s1"
  shows "sees strict s (addReply_bytes b i s1) \<and> watch_ok (addReply_bytes b i s1)"
proof -
  define f :: "redisClient \<Rightarrow> redisClient" where "f = (\<lambda>c. c\<lparr>k_mstate := [], k_flags := k_flags c - {REDIS_MULTI, REDIS_DIRTY_CAS}\<rparr>)"
  have s: "clear_multi_flags i (initClientMultiState i (freeClientMultiState i s)) = upd_client i f s"
    by (simp add: clear_multi_flags_def initClientMultiState_def freeClientMultiState_def upd_client_def f_def option.map_comp o_def)
  have ok': "watch_ok (upd_client i f s)" by (rule watch_ok_upd [OF ok]) (simp_all add: f_def)
  note w = unwatch_tells_ok [OF ok' u [unfolded s]]
  have "sees strict s (upd_client i (\<lambda>c. c) s1) \<and> watch_ok (upd_client i (\<lambda>c. c) s1)"
    by (rule sees_unwatched [OF w(2,1)]) (simp_all add: f_def)
  moreover have "tells {} s1 (addReply_bytes b i s1)" by (intro tells_reply tells_refl)
  ultimately show ?thesis unfolding upd_client_id using sees_then_tells by blast
qed

lemma execCommand_ok:
  assumes ok: "watch_ok s" and q: "queue_ok (admits strict) s" and exec: "execCommand oth i s = Some s'"
  shows "sees strict s s' \<and> watch_ok s'"
proof (cases "has_flag REDIS_MULTI i s")
  case False
  then have "tells {} s s'" using exec tells_replies(1) [OF tells_refl] by (auto simp: execCommand_def)
  then show ?thesis using tells_sees tells_watch_ok ok by blast
next
  case m: True
  show ?thesis
  proof (cases "has_flag REDIS_DIRTY_CAS i s")
    case True
    then show ?thesis using exec m abort_transaction [OF ok] by (auto simp: execCommand_def elim!: bindE)
  next
    case False
    obtain s1 s2 c s3 where s1: "execCommandReplicateMulti i s = Some s1" and s2: "unwatchAllKeys i s1 = Some s2" and c: "s_clients s2 i = Some c"
      and s3: "exec_loop oth (k_mstate c) i (reply_multibulklen (length (k_mstate c)) i s2) = Some s3"
      and s': "s' = add_dirty 1 (clear_multi_flags i (initClientMultiState i (freeClientMultiState i
          (upd_client i (\<lambda>c'. c'\<lparr>k_argv := k_argv c, k_cmd := k_cmd c\<rparr>) s3))))"
      using exec m False by (auto simp: execCommand_def elim!: bindE)
    have t1: "tells {} s s1" using s1 by (auto simp: execCommandReplicateMulti_def elim!: bindE intro!: tells_add_feed tells_refl)
    note w1 = unwatch_tells_ok [OF tells_watch_ok [OF t1 ok] s2]
    have cl: "s_clients s1 = s_clients s" using s1 by (auto simp: execCommandReplicateMulti_def add_feed_def elim!: bindE)
    have "s_clients s2 i = map_option (\<lambda>c. c\<lparr>k_watched := []\<rparr>) (s_clients s i)" using unwatched_facts(4) [OF w1(2)] cl by simp
    then obtain c0 where c0: "s_clients s i = Some c0" "c = c0\<lparr>k_watched := []\<rparr>" using c by (cases "s_clients s i") auto
    have none: "\<not> watches s2 i d k" if "d < length (s_db s2)" for d k using no_keys_watched [OF w1(1), of i d k] c c0 that by simp
    let ?s2 = "reply_multibulklen (length (k_mstate c)) i s2"
    have t2: "tells {} s2 ?s2" by (intro tells_replies tells_refl)
    have "\<forall>m \<in> set (k_mstate c). queueable (c_proc (m_cmd m)) \<and> admits strict (c_proc (m_cmd m))" using q c0 by (auto simp: queue_ok_def)
    from exec_loop_ok [OF s3 tells_watch_ok [OF t2 w1(1)] this] have w3: "sees strict ?s2 s3" "watch_ok s3" by blast+
    let ?s3 = "upd_client i (\<lambda>c'. c'\<lparr>k_argv := k_argv c, k_cmd := k_cmd c\<rparr>) s3"
    have t3: "tells {} s3 ?s3" by (intro tells_client tells_refl)
    have sees3: "sees strict s2 ?s3" using tells_sees [OF t2] w3(1) tells_sees [OF t3] sees_trans by blast
    have "\<not> watches ?s3 i d k" if "d < length (s_db ?s3)" for d k
      using sees3 none that unfolding sees_def same_config_def by (metis upd_client_simps(1))
    from leave_transaction [OF tells_watch_ok [OF t3 w3(2)] this]
    have "sees strict ?s3 (clear_multi_flags i (initClientMultiState i (freeClientMultiState i ?s3)))"
      "watch_ok (clear_multi_flags i (initClientMultiState i (freeClientMultiState i ?s3)))" by blast+
    moreover have "tells {} (clear_multi_flags i (initClientMultiState i (freeClientMultiState i ?s3))) s'"
      unfolding s' by (intro tells_add_dirty tells_refl)
    ultimately show ?thesis using sees_then_tells sees_trans [OF sees_trans [OF sees_trans [OF tells_sees [OF t1] w1(3)] sees3]] by blast
  qed
qed

section \<open>Steps of the server\<close>

text \<open>With \<open>strict\<close>, a client that watches a key before and after a step has been told of a change.\<close>

definition keeps :: "bool \<Rightarrow> redisServer \<Rightarrow> redisServer \<Rightarrow> bool" where
  "keeps strict s s' \<longleftrightarrow> same_config s s' \<and>
     (\<forall>i d k. d < length (s_db s) \<longrightarrow> watches s i d k \<longrightarrow> watches s' i d k \<longrightarrow> strict \<longrightarrow> informed i d k s s')"

text \<open>The invariant: every client that watches keys is in their lists and conversely, and a queue holds
  no command that EXEC cannot run, and only commands that are allowed.\<close>

definition state_ok :: "(redisProc \<Rightarrow> bool) \<Rightarrow> redisServer \<Rightarrow> bool" where
  "state_ok allowed s \<longleftrightarrow> s_db s \<noteq> [] \<and> watch_ok s \<and> queue_ok allowed s"

lemma sees_keeps: "sees strict s s' \<Longrightarrow> keeps strict s s'"
  by (simp add: sees_def keeps_def)

lemma queues_kept_ok: "queues_kept s s' \<Longrightarrow> queue_ok allowed s \<Longrightarrow> queue_ok allowed s'"
  unfolding queues_kept_def queue_ok_def by (metis empty_iff empty_set insert_iff)

lemma sees_ok: "sees strict s s' \<Longrightarrow> watch_ok s' \<Longrightarrow> state_ok allowed s \<Longrightarrow> keeps strict s s' \<and> state_ok allowed s'"
  using sees_keeps queues_kept_ok by (auto simp: sees_def state_ok_def same_config_def)

lemma tells_ok: "tells {} s s' \<Longrightarrow> state_ok allowed s \<Longrightarrow> keeps strict s s' \<and> state_ok allowed s'"
  using sees_ok [OF tells_sees tells_watch_ok, of s s' s allowed strict] by (simp add: state_ok_def)

text \<open>Further steps that only tell, after and before a step.\<close>

lemma keeps_tells:
  assumes k: "keeps strict s s1" and ok: "state_ok allowed s1" and t: "tells {} s1 s2"
  shows "keeps strict s s2 \<and> state_ok allowed s2"
proof -
  have q: "quiet s1 s2" using t by (simp add: tells_def)
  have l: "length (s_db s1) = length (s_db s)" using k by (simp add: keeps_def same_config_def)
  have "keeps strict s s2"
    using k tells_sees [OF t] l unfolding keeps_def sees_def by (metis informed_trans same_config_trans)
  then show ?thesis using tells_ok [OF t ok] by blast
qed

lemma tells_keeps:
  assumes t: "tells {} s s1" and k: "keeps strict s1 s2"
  shows "keeps strict s s2"
proof -
  have q: "quiet s s1" using t by (simp add: tells_def)
  have l: "length (s_db s1) = length (s_db s)" using q by (simp add: quiet_def)
  show ?thesis
    using k tells_sees [OF t] l quiet_watches [OF q] unfolding keeps_def sees_def by (metis informed_trans same_config_trans)
qed


text \<open>A step that changes neither data bases nor who is dirty, but perhaps who watches.\<close>

definition joins :: "redisServer \<Rightarrow> redisServer \<Rightarrow> bool" where
  "joins s s' \<longleftrightarrow> same_config s s' \<and> queues_kept s s' \<and> (\<forall>d < length (s_db s). \<forall>k. content s' d k = content s d k) \<and>
     (\<forall>i. has_flag REDIS_DIRTY_CAS i s \<longrightarrow> has_flag REDIS_DIRTY_CAS i s')"

lemma joins_refl [simp]: "joins s s"
  by (simp add: joins_def)

lemma joins_trans: "joins s s1 \<Longrightarrow> joins s1 s2 \<Longrightarrow> joins s s2"
  unfolding joins_def by (metis queues_kept_trans same_config_trans same_config_def)

lemma joins_ok: "joins s s' \<Longrightarrow> watch_ok s' \<Longrightarrow> state_ok allowed s \<Longrightarrow> keeps strict s s' \<and> state_ok allowed s'"
  using queues_kept_ok [of s s'] by (auto simp: joins_def keeps_def informed_def state_ok_def same_config_def)

lemma watchForKey_joins:
  assumes w: "watchForKey k i s = Some s'"
  shows "joins s s'"
proof -
  obtain c where c: "s_clients s i = Some c" and d: "k_db c < length (s_db s)"
    using w by (auto simp: watchForKey_def client_db_def elim!: bindE)
  show ?thesis
  proof (cases "(k, k_db c) \<in> set (k_watched c)")
    case True
    then show ?thesis using w c d by (simp add: watchForKey_def client_db_def require_def)
  next
    case False
    define l where "l = (case db_watched (s_db s ! k_db c) k of None \<Rightarrow> [] | Some l \<Rightarrow> l)"
    have s': "s' = upd_client i (\<lambda>c'. c'\<lparr>k_watched := k_watched c' @ [(k, k_db c)]\<rparr>)
        (upd_db (k_db c) (\<lambda>db. db\<lparr>db_watched := (db_watched db)(k \<mapsto> l @ [i])\<rparr>) s)"
      using w c d False by (simp add: watchForKey_def client_db_def require_def l_def)
    have "content s' e m = content s e m" for e m using d by (cases "e = k_db c") (simp_all add: s' content_def)
    moreover have "queues_kept s s'" by (auto simp: queues_kept_def s')
    ultimately show ?thesis by (simp add: joins_def same_config_def s' has_flag_def c)
  qed
qed

lemma watch_loop_joins: "watch_loop ks i s = Some s' \<Longrightarrow> joins s s'"
  by (induction ks arbitrary: s) (auto elim!: bindE dest!: watchForKey_joins intro: joins_trans)

section \<open>Requests keep the invariant\<close>

lemma run_command_ok:
  assumes ok: "state_ok (admits strict) s" and p: "admits strict p" and run: "run_command oth p i s = Some s'"
  shows "keeps strict s s' \<and> state_ok (admits strict) s'"
proof -
  have w: "watch_ok s" "queue_ok (admits strict) s" using ok by (simp_all add: state_ok_def)
  consider "p = ExecCommand" | "p = DiscardCommand" | "p = MultiCommand" | "p = WatchCommand" | "queueable p"
    by (auto simp: queueable_def)
  then show ?thesis
  proof cases
    case 1
    then show ?thesis using execCommand_ok [OF w, of oth i s'] run sees_ok [OF _ _ ok, of strict s'] by (simp add: run_command_def)
  next
    case 2
    show ?thesis
    proof (cases "has_flag REDIS_MULTI i s")
      case True
      then obtain s1 where "unwatchAllKeys i (clear_multi_flags i (initClientMultiState i (freeClientMultiState i s))) = Some s1"
        "s' = addReply_bytes shared_ok i s1"
        using run 2 by (auto simp: run_command_def run_proc_def discardCommand_def elim!: bindE)
      then show ?thesis using abort_transaction [OF w(1)] sees_ok ok by blast
    next
      case False
      then have "tells {} s s'" using run 2 tells_replies(1) [OF tells_refl]
        by (auto simp: run_command_def run_proc_def discardCommand_def)
      then show ?thesis using tells_ok ok by blast
    qed
  next
    case 3
    show ?thesis
    proof (cases "has_flag REDIS_MULTI i s")
      case True
      then have "tells {} s s'" using run 3 tells_replies(1) [OF tells_refl]
        by (auto simp: run_command_def run_proc_def multiCommand_def)
      then show ?thesis using tells_ok ok by blast
    next
      case False
      let ?s = "upd_client i (\<lambda>c. c\<lparr>k_flags := insert REDIS_MULTI (k_flags c)\<rparr>) s"
      have "joins s ?s" using queues_kept_client [of "\<lambda>c. c\<lparr>k_flags := insert REDIS_MULTI (k_flags c)\<rparr>" s i]
        by (auto simp: joins_def same_config_def content_def has_flag_def split: option.splits)
      moreover have "watch_ok ?s" by (rule watch_ok_upd [OF w(1)]) simp_all
      ultimately have "keeps strict s ?s" "state_ok (admits strict) ?s" using joins_ok ok by blast+
      moreover have "s' = addReply_bytes shared_ok i ?s" using run 3 False by (simp add: run_command_def run_proc_def multiCommand_def)
      ultimately show ?thesis using keeps_tells tells_reply [OF tells_refl] by blast
    qed
  next
    case 4
    show ?thesis
    proof (cases "has_flag REDIS_MULTI i s")
      case True
      then have "tells {} s s'" using run 4 tells_replies(1) [OF tells_refl]
        by (auto simp: run_command_def run_proc_def watchCommand_def)
      then show ?thesis using tells_ok ok by blast
    next
      case False
      then obtain ks s1 where s1: "watch_loop ks i s = Some s1" "s' = addReply_bytes shared_ok i s1"
        using run 4 by (auto simp: run_command_def run_proc_def watchCommand_def elim!: bindE)
      have "keeps strict s s1" "state_ok (admits strict) s1" using joins_ok [OF watch_loop_joins watch_loop_ok] s1(1) w ok by blast+
      then show ?thesis using keeps_tells tells_reply [OF tells_refl] s1(2) by blast
    qed
  next
    case 5
    then have "p \<noteq> ExecCommand" by (auto simp: queueable_def)
    then show ?thesis using run_queueable [OF w(1) p 5, of oth i s'] run sees_ok [OF _ _ ok, of strict s'] by (simp add: run_command_def)
  qed
qed

lemma queue_ok_add:
  assumes "state_ok (admits strict) s" and "queueable (c_proc cmd)" and "admits strict (c_proc cmd)"
  shows "state_ok (admits strict) (upd_client i (\<lambda>c. c\<lparr>k_mstate := k_mstate c @ [\<lparr>m_cmd = cmd, m_argv = k_argv c\<rparr>]\<rparr>) s)" (is "state_ok (admits strict) ?s")
    and "keeps strict s (upd_client i (\<lambda>c. c\<lparr>k_mstate := k_mstate c @ [\<lparr>m_cmd = cmd, m_argv = k_argv c\<rparr>]\<rparr>) s)"
proof -
  have "watch_ok ?s" by (rule watch_ok_upd) (use assms(1) in \<open>simp_all add: state_ok_def\<close>)
  moreover have "queue_ok (admits strict) ?s" using assms by (auto simp: queue_ok_def state_ok_def)
  ultimately show "state_ok (admits strict) ?s" using assms(1) by (simp add: state_ok_def)
  show "keeps strict s ?s" by (auto simp: keeps_def same_config_def informed_def content_def has_flag_def split: option.splits)
qed

lemma dispatch_ok:
  assumes ok: "state_ok (admits strict) s" and p: "admits strict (c_proc cmd)"
    and cmd: "\<And>c. s_clients s i = Some c \<Longrightarrow> k_cmd c = Some cmd" and run: "dispatch oth cmd i s = Some s'"
  shows "keeps strict s s' \<and> state_ok (admits strict) s'"
proof (cases "has_flag REDIS_MULTI i s \<and> queueable (c_proc cmd)")
  case True
  then obtain c where c: "s_clients s i = Some c" "k_cmd c = Some cmd"
    and s': "s' = addReply_bytes shared_queued i (upd_client i (\<lambda>c. c\<lparr>k_mstate := k_mstate c @ [\<lparr>m_cmd = cmd, m_argv = k_argv c\<rparr>]\<rparr>) s)"
    using run cmd by (auto simp: dispatch_def queueable_def queueMultiCommand_def elim!: bindE)
  show ?thesis unfolding s' using keeps_tells [OF queue_ok_add(2,1)] True ok p tells_reply [OF tells_refl] by blast
next
  case False
  then have "call oth i s = Some s'" using run by (auto simp: dispatch_def queueable_def)
  then obtain s1 where s1: "run_command oth (c_proc cmd) i s = Some s1" "tells {} s1 s'"
    unfolding call_def by (rule call_with_steps [OF _ cmd])
  then show ?thesis using run_command_ok [OF ok p s1(1)] keeps_tells by blast
qed

lemma memory_test_ok: "memory_test evict cmd c s = Some (s', b) \<Longrightarrow> s_maxmemory s = 0 \<Longrightarrow> s' = s"
  by (auto simp: memory_test_def split: if_split_asm)

text \<open>The procedure that the name in a request stands for.\<close>

definition requested :: "nat \<Rightarrow> redisServer \<Rightarrow> redisProc option" where
  "requested i s =
     do { name \<leftarrow> argv 0 i s;
          (s, found) \<leftarrow> lookupCommand name s;
          map_option c_proc found }"

lemma processCommand_ok:
  assumes ok: "state_ok (admits strict) s" and mem: "s_maxmemory s = 0"
    and tell: "\<And>p. requested i s = Some p \<Longrightarrow> admits strict p" and run: "processCommand oth evict i s = Some (r, s')"
  shows "keeps strict s s' \<and> state_ok (admits strict) s'"
proof -
  obtain name where name: "argv 0 i s = Some name" using run by (auto simp: processCommand_def elim!: bindE)
  show ?thesis
  proof (cases "dictSdsKeyCaseCompare name (ascii_text ''quit'')")
    case True
    let ?s1 = "addReply_bytes shared_ok i s"
    have "s' = upd_client i (\<lambda>c. c\<lparr>k_flags := insert REDIS_CLOSE_AFTER_REPLY (k_flags c)\<rparr>) ?s1"
      using run name True by (auto simp: processCommand_def)
    moreover have "tells {} s \<dots>" by (rule tells_same [OF tells_reply [OF tells_refl] touches_client]) (simp add: client_quiet_def)
    ultimately show ?thesis using tells_ok ok by blast
  next
    case False
    obtain cmds found where l: "lookupCommand name s = Some (s\<lparr>s_commands := cmds\<rparr>, found)"
      using run name False by (auto simp: processCommand_def lookupCommand_def elim!: bindE)
    define s1 where "s1 = upd_client i (\<lambda>c. c\<lparr>k_cmd := found\<rparr>) (s\<lparr>s_commands := cmds\<rparr>)"
    have t1: "tells {} s s1" unfolding s1_def by (intro tells_client tells_commands tells_refl)
    have m1: "s_maxmemory s1 = 0" using t1 mem by (simp add: tells_def quiet_def)
    have ok1: "state_ok (admits strict) s1" using tells_ok [OF t1 ok] by blast
    have k1: "\<And>c. s_clients s1 i = Some c \<Longrightarrow> k_cmd c = found" by (auto simp: s1_def)
    have answered: ?thesis if "s' = addReply_bytes e i s1" for e
      using tells_ok [OF tells_reply [OF t1] ok] that by blast
    show ?thesis
    proof (cases found)
      case None
      then show ?thesis using run name False l answered by (auto simp: processCommand_def s1_def reply_error_def elim!: bindE)
    next
      case (Some cmd)
      note s1' = s1_def [unfolded Some]
      have "admits strict (c_proc cmd)" using tell name l Some by (simp add: requested_def)
      from dispatch_ok [OF ok1 this _, of i] k1 Some
      have disp: "dispatch oth cmd i s1 = Some s' \<Longrightarrow> keeps strict s1 s' \<and> state_ok (admits strict) s'" by simp
      obtain n where n: "argc i s1 = Some n" using run name False l Some by (auto simp: processCommand_def s1_def elim!: bindE)
      have "(\<exists>e. s' = addReply_bytes e i s1) \<or> dispatch oth cmd i s1 = Some s'"
      proof (cases "bad_arity cmd n")
        case True
        then show ?thesis using run name False l Some n by (auto simp: processCommand_def reply_error_def simp flip: s1')
      next
        case f: False
        then obtain c s2 oom where "memory_test evict cmd c s1 = Some (s2, oom)"
          and res: "(case refusal cmd oom c s2 of Some e \<Rightarrow> Some (True, addReply_bytes e i s2)
            | None \<Rightarrow> do { s \<leftarrow> dispatch oth cmd i s2; Some (True, s) }) = Some (r, s')"
          using run name False l Some n by (auto simp: processCommand_def elim!: bindE simp flip: s1')
        then have "s2 = s1" using memory_test_ok m1 by blast
        then show ?thesis using res by (auto elim!: bindE split: option.splits)
      qed
      then show ?thesis using answered disp tells_keeps [OF t1] by blast
    qed
  qed
qed

end
