(* ===== verification/ServerRun.thy ===== *)
theory ServerRun
  imports MultiSpec
begin

text \<open>
  Runs of the server: clients come and go, send requests in any order, time passes and keys expire.
  The invariant of the watch tables holds in every state that can be reached, and a transaction only
  runs if the watched keys have not changed.
\<close>

section \<open>Runs of the server\<close>

lemma createClient_ok:
  assumes ok: "state_ok allowed s" and c: "createClient i s = Some s'"
  shows "keeps strict s s' \<and> state_ok allowed s'"
proof -
  have none: "s_clients s i = None" and s': "s' = s\<lparr>s_clients := (s_clients s)(i \<mapsto> new_client)\<rparr>"
    using c by (auto simp: createClient_def elim!: bindE)
  have w: "watch_ok s" using ok by (simp add: state_ok_def)
  have "watch_ok s'"
  proof (rule watch_okI, goal_cases)
    case (1 d k l) then show ?case using watch_ok_list [OF w] by (simp add: s')
  next
    case (2 d k j)
    then have "watches s j d k \<longleftrightarrow> (\<exists>c. s_clients s j = Some c \<and> (k, d) \<in> set (k_watched c))" using watch_ok_iff [OF w] by (simp add: s')
    then show ?case using none by (auto simp: s' watches_def new_client_def)
  next
    case (3 j c)
    then show ?case using watch_ok_client [OF w, of j] ok by (auto simp: s' new_client_def state_ok_def split: if_splits)
  qed
  moreover have "queue_ok allowed s'" using ok by (auto simp: s' state_ok_def queue_ok_def new_client_def)
  moreover have "keeps strict s s'" using none by (auto simp: s' keeps_def same_config_def informed_def content_def has_flag_def)
  ultimately show ?thesis using ok by (simp add: state_ok_def s')
qed

lemma freeClient_ok:
  assumes ok: "state_ok allowed s" and f: "freeClient i s = Some s'"
  shows "keeps strict s s' \<and> state_ok allowed s'"
proof -
  obtain s1 where u: "unwatchAllKeys i s = Some s1" and s': "s' = s1\<lparr>s_clients := (s_clients s1)(i := None)\<rparr>"
    using f by (auto simp: freeClient_def elim!: bindE)
  note w = unwatch_tells_ok [OF _ u]
  have w0: "watch_ok s" using ok by (simp add: state_ok_def)
  have none: "\<not> watches s1 i d k" if "d < length (s_db s1)" for d k
    using no_keys_watched [OF w(1) [OF w0], of i d k] unwatched_facts(4) [OF w(2) [OF w0]] that by (cases "s_clients s i") auto
  have wt: "watches s' j d k = watches s1 j d k" for j d k by (simp add: s' watches_def)
  have "watch_ok s'"
  proof (rule watch_okI, goal_cases)
    case (1 d k l) then show ?case using watch_ok_list [OF w(1) [OF w0]] by (simp add: s')
  next
    case (2 d k j)
    then show ?case using watch_ok_iff [OF w(1) [OF w0], of d j k] none [of d k] wt by (auto simp: s')
  next
    case (3 j c) then show ?case using watch_ok_client [OF w(1) [OF w0], of j] by (simp add: s' split: if_splits)
  qed
  moreover have "sees strict s s'"
  proof (rule sees_forget [of _ _ i], goal_cases)
    case 1 then show ?case using unwatched_facts(1) [OF w(2) [OF w0]] by (simp add: s' same_config_def)
  next
    case 2 then show ?case using queues_kept_unwatched [OF w(2) [OF w0]] by (auto simp: s' queues_kept_def)
  next
    case (3 d k) then show ?case using unwatched_facts(2) [OF w(2) [OF w0], of d k] by (simp add: s' content_def)
  next
    case (4 j) then show ?case using unwatched_facts(3) [OF w(2) [OF w0] 4] by (simp add: s' has_flag_def)
  next
    case (5 j d k) then show ?case using unwatched_facts(5) [OF w(2) [OF w0], of j d k] wt by simp
  next
    case (6 d k) then show ?case using none [of d k] wt unwatched_facts(6) [OF w(2) [OF w0]] by simp
  qed
  ultimately show ?thesis using sees_ok ok by blast
qed

text \<open>One step: a client's arguments are read, a request is executed, a client comes or goes, output is
  sent, time passes, or the cycle of active expiry runs. A request may be of any command, of this model or of the
  other files, that \<open>allowed\<close> admits.\<close>

inductive sys_step ::
  "(string \<Rightarrow> nat \<Rightarrow> redisServer \<Rightarrow> redisServer option) \<Rightarrow> (redisServer \<Rightarrow> (redisServer \<times> bool) option) \<Rightarrow>
     (redisProc \<Rightarrow> bool) \<Rightarrow> redisServer \<Rightarrow> redisServer \<Rightarrow> bool"
  for oth evict allowed where
  receive: "sys_step oth evict allowed s (upd_client i (\<lambda>c. c\<lparr>k_argv := av\<rparr>) s)"
| request: "processCommand oth evict i s = Some (r, s') \<Longrightarrow>
     (\<And>p. requested i s = Some p \<Longrightarrow> allowed p) \<Longrightarrow> sys_step oth evict allowed s s'"
| connect: "createClient i s = Some s' \<Longrightarrow> sys_step oth evict allowed s s'"
| disconnect: "freeClient i s = Some s' \<Longrightarrow> sys_step oth evict allowed s s'"
| sent: "sys_step oth evict allowed s (upd_client i (\<lambda>c. c\<lparr>k_out := drop n (k_out c)\<rparr>) s)"
| tick: "s_time s \<le> t \<Longrightarrow> sys_step oth evict allowed s (s\<lparr>s_time := t\<rparr>)"
| expire: "activeExpireCycle late draws s = Some s' \<Longrightarrow> sys_step oth evict allowed s s'"

inductive_cases sys_stepE: "sys_step oth evict allowed s s'"

definition started :: "redisServer \<Rightarrow> bool" where
  "started s \<longleftrightarrow> s_db s \<noteq> [] \<and> s_maxmemory s = 0 \<and> s_clients s = Map.empty \<and> (\<forall>db \<in> set (s_db s). db_watched db = Map.empty)"

inductive reachable ::
  "(string \<Rightarrow> nat \<Rightarrow> redisServer \<Rightarrow> redisServer option) \<Rightarrow> (redisServer \<Rightarrow> (redisServer \<times> bool) option) \<Rightarrow>
     (redisProc \<Rightarrow> bool) \<Rightarrow> redisServer \<Rightarrow> bool"
  for oth evict allowed where
  start: "started s \<Longrightarrow> reachable oth evict allowed s"
| step: "reachable oth evict allowed s \<Longrightarrow> sys_step oth evict allowed s s' \<Longrightarrow> reachable oth evict allowed s'"

text \<open>A run during which client \<open>i\<close> watches key \<open>k\<close> of data base \<open>d\<close>.\<close>

inductive watching_run ::
  "(string \<Rightarrow> nat \<Rightarrow> redisServer \<Rightarrow> redisServer option) \<Rightarrow> (redisServer \<Rightarrow> (redisServer \<times> bool) option) \<Rightarrow>
     (redisProc \<Rightarrow> bool) \<Rightarrow> nat \<Rightarrow> nat \<Rightarrow> byte list \<Rightarrow> redisServer \<Rightarrow> redisServer \<Rightarrow> bool"
  for oth evict allowed i d k s0 where
  here: "d < length (s_db s0) \<Longrightarrow> watches s0 i d k \<Longrightarrow> watching_run oth evict allowed i d k s0 s0"
| more: "watching_run oth evict allowed i d k s0 s \<Longrightarrow> sys_step oth evict allowed s s' \<Longrightarrow> watches s' i d k \<Longrightarrow> watching_run oth evict allowed i d k s0 s'"

lemma tells_client_out:
  "tells {} s (upd_client i (\<lambda>c. c\<lparr>k_argv := av\<rparr>) s)" "tells {} s (upd_client i (\<lambda>c. c\<lparr>k_out := drop n (k_out c)\<rparr>) s)"
  by (rule tells_same [OF tells_refl touches_client], simp add: client_quiet_def)+

lemma tick_ok:
  assumes "state_ok allowed s" and "s_time s \<le> t"
  shows "keeps strict s (s\<lparr>s_time := t\<rparr>) \<and> state_ok allowed (s\<lparr>s_time := t\<rparr>)"
proof (rule joins_ok)
  show "joins s (s\<lparr>s_time := t\<rparr>)" using assms by (simp add: joins_def same_config_def content_def has_flag_def queues_kept_def)
  show "watch_ok (s\<lparr>s_time := t\<rparr>)"
    by (rule watch_okI) (use assms watch_ok_list watch_ok_iff watch_ok_client in \<open>auto simp: state_ok_def watches_def\<close>)
qed (use assms in simp)

lemma sys_step_ok:
  assumes "sys_step oth evict (admits strict) s s'" and "state_ok (admits strict) s" and "s_maxmemory s = 0"
  shows "keeps strict s s' \<and> state_ok (admits strict) s'"
  using assms(1)
proof cases
  case (request i r)
  then show ?thesis using processCommand_ok [OF assms(2,3) request(2,1)] by blast
next
  case (expire late draws)
  then have "tells {} s s'" using activeExpireCycle_lapses by (simp add: only_lapses_def)
  then show ?thesis using tells_ok assms(2) by blast
next
  case (receive i av)
  then show ?thesis using tells_ok [OF tells_client_out(1) assms(2)] by simp
next
  case (sent i n)
  then show ?thesis using tells_ok [OF tells_client_out(2) assms(2)] by simp
next
  case (connect i)
  then show ?thesis using createClient_ok [OF assms(2)] by blast
next
  case (disconnect i)
  then show ?thesis using freeClient_ok [OF assms(2)] by blast
next
  case (tick t)
  then show ?thesis using tick_ok [OF assms(2)] by simp
qed

lemma started_ok: "started s \<Longrightarrow> state_ok allowed s"
  unfolding started_def state_ok_def by (auto simp: queue_ok_def watches_def intro!: watch_okI)

lemma keeps_mem: "keeps strict s s' \<Longrightarrow> s_maxmemory s' = s_maxmemory s"
  by (simp add: keeps_def same_config_def)

lemma reachable_ok:
  assumes "reachable oth evict (admits strict) s"
  shows "state_ok (admits strict) s \<and> s_maxmemory s = 0"
  using assms
proof induction
  case (start s)
  then show ?case using started_ok by (simp add: started_def)
next
  case (step s s')
  then show ?case using sys_step_ok [OF step(2)] keeps_mem [of strict s s'] by simp
qed

lemma watching_run_ok:
  assumes ok: "state_ok telling s0" "s_maxmemory s0 = 0" and run: "watching_run oth evict telling i d k s0 s"
  shows "state_ok telling s \<and> s_maxmemory s = 0 \<and> same_config s0 s \<and> watches s i d k \<and> d < length (s_db s0) \<and> informed i d k s0 s"
  using run
proof induction
  case here
  then show ?case using ok by (simp add: informed_def)
next
  case (more s s')
  then have st: "keeps True s s'" "state_ok telling s'" using sys_step_ok [where strict = True, unfolded admits_simps, OF more(2)] by auto
  have c: "same_config s s'" "same_config s0 s" using st(1) more by (simp_all add: keeps_def)
  have "informed i d k s s'" using st(1) more c by (simp add: keeps_def same_config_def)
  then have "informed i d k s0 s'" using more informed_trans c(1) by blast
  then show ?case using more st(2) keeps_mem [OF st(1)] same_config_trans [OF c(2,1)] by simp
qed

section \<open>Transactions\<close>

text \<open>EXEC in a transaction that is aborted: the client leaves it, its queue and its watched keys are gone, it
  gets the null reply, and nothing is run.\<close>

definition exec_aborted :: "nat \<Rightarrow> redisServer \<Rightarrow> redisServer \<Rightarrow> bool" where
  "exec_aborted i s s' \<longleftrightarrow>
     (\<forall>d < length (s_db s). \<forall>k. content s' d k = content s d k) \<and> s_dirty s' = s_dirty s \<and> s_feeds s' = s_feeds s \<and>
     (\<exists>c. s_clients s i = Some c \<and>
        s_clients s' i = Some (c\<lparr>k_mstate := [], k_watched := [], k_flags := k_flags c - {REDIS_MULTI, REDIS_DIRTY_CAS},
          k_out := k_out c @ (if REDIS_CLOSE_AFTER_REPLY \<in> k_flags c then [] else shared_nullmultibulk)\<rparr>))"

lemma execCommand_aborted:
  assumes ok: "watch_ok s" and f: "has_flag REDIS_MULTI i s" "has_flag REDIS_DIRTY_CAS i s"
  shows "\<exists>s'. execCommand oth i s = Some s' \<and> exec_aborted i s s'"
proof -
  obtain c where c: "s_clients s i = Some c" using f by (auto simp: has_flag_def split: option.splits)
  define s1 where "s1 = clear_multi_flags i (initClientMultiState i (freeClientMultiState i s))"
  have s1: "s_db s1 = s_db s" "s_dirty s1 = s_dirty s" "s_feeds s1 = s_feeds s"
    "s_clients s1 i = Some (c\<lparr>k_mstate := [], k_flags := k_flags c - {REDIS_MULTI, REDIS_DIRTY_CAS}\<rparr>)"
    by (simp_all add: s1_def clear_multi_flags_def initClientMultiState_def freeClientMultiState_def c)
  have "watch_ok s1"
    unfolding s1_def clear_multi_flags_def initClientMultiState_def freeClientMultiState_def by (intro watch_ok_upd ok) simp_all
  then obtain s2 where s2: "unwatchAllKeys i s1 = Some s2" "unwatched i s1 s2" using unwatchAllKeys_ok [of s1 i] s1(4) by auto
  have s2': "s_dirty s2 = s_dirty s" "s_feeds s2 = s_feeds s"
    "s_clients s2 i = Some (c\<lparr>k_mstate := [], k_watched := [], k_flags := k_flags c - {REDIS_MULTI, REDIS_DIRTY_CAS}\<rparr>)"
    "\<And>d k. d < length (s_db s) \<Longrightarrow> content s2 d k = content s d k"
    using s2(2) s1 unwatched_facts(2) [OF s2(2)] unfolding unwatched_def by (auto simp: content_def)
  have e: "execCommand oth i s = Some (addReply_bytes shared_nullmultibulk i s2)"
    using f s2(1) by (simp add: execCommand_def s1_def)
  have "exec_aborted i s (addReply_bytes shared_nullmultibulk i s2)"
    using s2' c by (simp add: exec_aborted_def addReply_bytes_def content_def)
  then show ?thesis using e by blast
qed

text \<open>C2: Start a server without a memory limit. In every state that requests for any of the modelled commands
  (MOVE and PERSIST, WATCH and EXEC among them), clients that come and go, the passing of time and active expiry lead to,
  in any order, the clients in the list of a watched key are exactly those that watch it, once each, and a list is never
  empty; a client is on a data base that exists; and no queue holds EXEC, DISCARD, MULTI or WATCH. Requests for
  commands of other files do not occur in these runs, so nothing is assumed of them.\<close>

theorem watch_tables_consistent:
  assumes "reachable oth evict modelled s"
  shows "(\<forall>d < length (s_db s). \<forall>k l. db_watched (s_db s ! d) k = Some l \<longrightarrow>
            l \<noteq> [] \<and> distinct l \<and> set l = {i. \<exists>c. s_clients s i = Some c \<and> (k, d) \<in> set (k_watched c)}) \<and>
         (\<forall>i c. s_clients s i = Some c \<longrightarrow> k_db c < length (s_db s) \<and> distinct (k_watched c) \<and>
            (\<forall>(k, d) \<in> set (k_watched c). d < length (s_db s) \<and> (\<exists>l. db_watched (s_db s ! d) k = Some l \<and> i \<in> set l)) \<and>
            (\<forall>m \<in> set (k_mstate c). c_proc (m_cmd m) \<notin> {ExecCommand, DiscardCommand, MultiCommand, WatchCommand}))"
proof -
  have w: "watch_ok s" "queue_ok modelled s" using reachable_ok [where strict = False, unfolded admits_simps, OF assms] by (simp_all add: state_ok_def)
  have "set l = {i. \<exists>c. s_clients s i = Some c \<and> (k, d) \<in> set (k_watched c)}"
    if "d < length (s_db s)" "db_watched (s_db s ! d) k = Some l" for d k l
    using watch_ok_iff [OF w(1) that(1), of _ k] that(2) by (auto simp: watches_def)
  moreover have "\<exists>l. db_watched (s_db s ! d) k = Some l \<and> i \<in> set l" if "s_clients s i = Some c" "(k, d) \<in> set (k_watched c)" for i c k d
    using watch_ok_iff [OF w(1), of d i k] watch_ok_client [OF w(1) that(1)] that by (auto simp: watches_def)
  moreover have "\<forall>m \<in> set (k_mstate c). c_proc (m_cmd m) \<notin> {ExecCommand, DiscardCommand, MultiCommand, WatchCommand}"
    if "s_clients s i = Some c" for i c
    using w(2) that unfolding queue_ok_def queueable_def by blast
  ultimately show ?thesis using watch_ok_list [OF w(1)] watch_ok_client [OF w(1)] by (auto, fastforce)
qed

text \<open>A server whose command table has one chain, of DEL, WATCH and MULTI.\<close>

definition demo_commands :: "(byte list, redisCommand) dict" where
  "demo_commands = dictCreate\<lparr>ht0 := \<lparr>ht_table = [[(ascii_text ''del'', redis_command ''del'' DelCommand (-2) {} None 0 0 0),
     (ascii_text ''watch'', redis_command ''watch'' WatchCommand (-2) {} None 0 0 0)]], ht_size = 1, ht_mask = 0, ht_used = 2\<rparr>\<rparr>"

definition demo_start :: redisServer where
  "demo_start = (demo_server [] None)
     \<lparr>s_commands := demo_commands, s_clients := Map.empty,
      s_db := [\<lparr>db_dict = [[107] \<mapsto> raw_string [118]], db_expires = Map.empty, db_watched = Map.empty\<rparr>]\<rparr>"

lemma demo_lookup:
  "s_commands s = demo_commands \<Longrightarrow> lookupCommand (ascii_text ''del'') s = Some (s, Some (redis_command ''del'' DelCommand (-2) {} None 0 0 0))"
  "s_commands s = demo_commands \<Longrightarrow> lookupCommand (ascii_text ''watch'') s = Some (s, Some (redis_command ''watch'' WatchCommand (-2) {} None 0 0 0))"
  by (simp_all add: lookupCommand_def dictFetchValue_def dictFind_def demo_commands_def step_if_rehashing_def dictIsRehashing_def
      dictCreate_def u_dictInit_def search_tables_def probe_def bucket_def ht_def dictCompareHashKeys_def commandTableDictType_def
      ascii_text_def entry_at_def dictSdsKeyCaseCompare_def c_str_def strcaseeq_def tolower_def)

lemma watch_tables_consistent_witness:
  "\<exists>s. reachable (\<lambda>n i s. None) (\<lambda>s. None) modelled s \<and> db_watched (s_db s ! 0) [107] = Some [5] \<and>
     {5} = {i. \<exists>c. s_clients s i = Some c \<and> ([107], 0) \<in> set (k_watched c)}"
proof -
  let ?R = "reachable (\<lambda>n i s. None) (\<lambda>s. None) modelled"
  have r0: "?R demo_start" by (rule start) (simp add: started_def demo_start_def demo_server_def)
  define s1 where "s1 = demo_start\<lparr>s_clients := [5 \<mapsto> new_client]\<rparr>"
  have "createClient 5 demo_start = Some s1" by (simp add: createClient_def demo_start_def s1_def require_def)
  then have r1: "?R s1" by (rule step [OF r0 connect])
  define s2 where "s2 = upd_client 5 (\<lambda>c. c\<lparr>k_argv := [ascii_text ''watch'', [107]]\<rparr>) s1"
  have r2: "?R s2" unfolding s2_def by (rule step [OF r1 receive])
  have l: "lookupCommand (ascii_text ''watch'') s2 = Some (s2, Some (redis_command ''watch'' WatchCommand (-2) {} None 0 0 0))"
    by (rule demo_lookup(2)) (simp add: s2_def s1_def demo_start_def)
  have a: "argv 0 5 s2 = Some (ascii_text ''watch'')" by (simp add: argv_def s2_def s1_def require_def)
  then have req: "requested 5 s2 = Some WatchCommand" using l by (simp add: requested_def redis_command_def)
  have "\<exists>s3. processCommand (\<lambda>n i s. None) (\<lambda>s. None) 5 s2 = Some (True, s3) \<and> db_watched (s_db s3 ! 0) [107] = Some [5]"
    using a l by (simp add: processCommand_def, simp add: s2_def s1_def demo_start_def demo_server_def new_client_def
        dictSdsKeyCaseCompare_def c_str_def strcaseeq_def tolower_def ascii_text_def argc_def bad_arity_def redis_command_def memory_test_def
        refusal_def dispatch_def has_flag_def call_def call_with_def run_command_def run_proc_def watchCommand_def args_from_def
        watchForKey_def client_db_def require_def upd_client_def upd_db_def addReply_bytes_def add_feed_def)
  then obtain s3 where s3: "processCommand (\<lambda>n i s. None) (\<lambda>s. None) 5 s2 = Some (True, s3)" "db_watched (s_db s3 ! 0) [107] = Some [5]"
    by blast
  have r3: "?R s3" by (rule step [OF r2 request [OF s3(1)]]) (simp_all add: req modelled_def)
  have "0 < length (s_db s3)" using reachable_ok [where strict = False, unfolded admits_simps, OF r3] by (simp add: state_ok_def)
  then show ?thesis using watch_tables_consistent [OF r3] r3 s3(2) by fastforce
qed

text \<open>C1: On a server without a memory limit (eviction deletes keys without telling), let a client watch a key while any other
  modelled commands but MOVE and PERSIST (which do not tell either) are run by any clients, clients come and go, time
  passes and keys expire, in any order. If the client has queued commands and calls EXEC, then the key is as it was
  when it was watched, or its expire has passed, or the transaction is aborted: nothing is run on a key that has
  changed unnoticed. Requests for commands of other files do not occur in these runs, so nothing is assumed of them.\<close>

theorem exec_only_if_unchanged:
  assumes "state_ok telling s0" and "s_maxmemory s0 = 0"
    and "watching_run oth evict telling i d k s0 s"
    and "has_flag REDIS_MULTI i s" and "execCommand oth i s = Some s'"
  shows "content s d k = content s0 d k \<or> lapsed s0 s d k \<or> exec_aborted i s s'"
proof -
  have r: "state_ok telling s" "informed i d k s0 s" using watching_run_ok [OF assms(1-3)] by simp_all
  show ?thesis
  proof (cases "has_flag REDIS_DIRTY_CAS i s")
    case True
    then show ?thesis using execCommand_aborted [of s i oth] assms(4,5) r(1) by (auto simp: state_ok_def)
  qed (use r(2) in \<open>auto simp: informed_def\<close>)
qed

definition demo_watcher :: redisServer where
  "demo_watcher = demo_start
     \<lparr>s_clients := [0 \<mapsto> new_client\<lparr>k_argv := [ascii_text ''del'', [107]]\<rparr>, 1 \<mapsto> new_client\<lparr>k_watched := [([107], 0)], k_flags := {REDIS_MULTI}\<rparr>],
      s_db := [\<lparr>db_dict = [[107] \<mapsto> raw_string [118]], db_expires = Map.empty, db_watched = [[107] \<mapsto> [1]]\<rparr>]\<rparr>"

lemma demo_watcher_ok: "state_ok telling demo_watcher" "s_maxmemory demo_watcher = 0"
proof -
  have "watch_ok demo_watcher"
    by (auto simp: watch_ok_def demo_watcher_def demo_start_def watches_def new_client_def split: if_splits)
  then show "state_ok telling demo_watcher"
    by (auto simp: state_ok_def queue_ok_def demo_watcher_def new_client_def split: if_splits)
  show "s_maxmemory demo_watcher = 0" by (simp add: demo_watcher_def demo_start_def demo_server_def)
qed

lemma exec_only_if_unchanged_witness:
  "\<exists>s s'. processCommand (\<lambda>n i s. None) (\<lambda>s. None) 0 demo_watcher = Some (True, s) \<and>
     content s 0 [107] = None \<and> content demo_watcher 0 [107] = Some (raw_string [118], None) \<and>
     execCommand (\<lambda>n i s. None) 1 s = Some s' \<and> exec_aborted 1 s s'"
proof -
  have l: "lookupCommand (ascii_text ''del'') demo_watcher = Some (demo_watcher, Some (redis_command ''del'' DelCommand (-2) {} None 0 0 0))"
    by (rule demo_lookup(1)) (simp add: demo_watcher_def demo_start_def)
  have a: "argv 0 0 demo_watcher = Some (ascii_text ''del'')" by (simp add: argv_def demo_watcher_def require_def)
  then have req: "requested 0 demo_watcher = Some DelCommand" using l by (simp add: requested_def redis_command_def)
  have "\<exists>s. processCommand (\<lambda>n i s. None) (\<lambda>s. None) 0 demo_watcher = Some (True, s) \<and> content s 0 [107] = None \<and>
      db_watched (s_db s ! 0) [107] = Some [1] \<and> has_flag REDIS_MULTI 1 s \<and> has_flag REDIS_DIRTY_CAS 1 s"
    using a l by (simp add: processCommand_def, simp add: demo_watcher_def demo_start_def demo_server_def new_client_def
        dictSdsKeyCaseCompare_def c_str_def strcaseeq_def tolower_def ascii_text_def argc_def bad_arity_def redis_command_def memory_test_def
        refusal_def dispatch_def has_flag_def call_def call_with_def run_command_def run_proc_def delCommand_def args_from_def
        client_db_def require_def upd_client_def upd_db_def addReply_bytes_def add_feed_def dbDelete_def signalModifiedKey_def
        touchWatchedKey_def mark_dirty_def add_dirty_def reply_longlong_def content_def)
  then obtain s where s: "processCommand (\<lambda>n i s. None) (\<lambda>s. None) 0 demo_watcher = Some (True, s)" "content s 0 [107] = None"
    "db_watched (s_db s ! 0) [107] = Some [1]" "has_flag REDIS_MULTI 1 s" "has_flag REDIS_DIRTY_CAS 1 s" by blast
  have w0: "watches demo_watcher 1 0 [107]" "0 < length (s_db demo_watcher)" "content demo_watcher 0 [107] = Some (raw_string [118], None)"
    by (simp_all add: watches_def demo_watcher_def content_def)
  have "sys_step (\<lambda>n i s. None) (\<lambda>s. None) telling demo_watcher s" by (rule request [OF s(1)]) (simp_all add: req telling_def modelled_def)
  then have run: "watching_run (\<lambda>n i s. None) (\<lambda>s. None) telling 1 0 [107] demo_watcher s"
    by (rule more [OF here [OF w0(2,1)]]) (simp add: watches_def s(3))
  obtain s' where s': "execCommand (\<lambda>n i s. None) 1 s = Some s'"
    using execCommand_aborted [OF _ s(4,5)] sys_step_ok [where strict = True, unfolded admits_simps, OF _ demo_watcher_ok] \<open>sys_step _ _ _ demo_watcher s\<close>
    unfolding state_ok_def by blast
  have "exec_aborted 1 s s'"
    using exec_only_if_unchanged [OF demo_watcher_ok run s(4) s'] s(2) w0(3) by (simp add: lapsed_def)
  then show ?thesis using s(1,2) w0(3) s' by blast
qed
end
