(* ===== verification/Store.thy ===== *)
theory Store
  imports KeySpec
begin

text \<open>
  The abstract store: a map from the live keys of a data base to their texts and expires, and the steps that
  commands are made of (looking a key up, changing it, telling the watching clients, replying) as
  steps on it. Integer encoding, shared integers, keys whose expire has passed but are still in the table, and clients
  that are marked cannot be seen in it.
\<close>

section \<open>The abstract store\<close>

type_synonym aval = "byte list + robj"
type_synonym astore = "byte list \<rightharpoonup> aval \<times> int option"

text \<open>A string is its text; values of the other types are not looked into.\<close>

definition abs_val :: "robj \<Rightarrow> aval" where
  "abs_val ob = (if o_type ob = REDIS_STRING then Inl (obj_bytes ob) else Inr ob)"

definition entry :: "int \<Rightarrow> (robj \<times> int option) option \<Rightarrow> (aval \<times> int option) option" where
  "entry t x = (case x of None \<Rightarrow> None | Some (v, e) \<Rightarrow> (if \<exists>w. e = Some w \<and> w < t then None else Some (abs_val v, e)))"

definition live :: "nat \<Rightarrow> redisServer \<Rightarrow> astore" where
  "live d s k = entry (s_time s) (content s d k)"

text \<open>Only keys have expires, and they are times; integer-encoded strings print without overflow.\<close>

definition db_ok :: "redisDb \<Rightarrow> bool" where
  "db_ok db \<longleftrightarrow> (\<forall>k. db_dict db k = None \<longrightarrow> db_expires db k = None) \<and>
     (\<forall>k v. db_dict db k = Some v \<longrightarrow> o_type v = REDIS_STRING \<longrightarrow> obj_ok v) \<and>
     (\<forall>k w. db_expires db k = Some w \<longrightarrow> 0 \<le> w)"

text \<open>A master that has loaded its data.\<close>

definition master :: "redisServer \<Rightarrow> bool" where
  "master s \<longleftrightarrow> \<not> s_masterhost s \<and> \<not> s_loading s \<and> \<not> s_erange s \<and> 0 \<le> s_time s \<and>
     (\<forall>d < length (s_db s). db_ok (s_db s ! d)) \<and>
     (\<forall>d < length (s_db s). \<forall>k l. db_watched (s_db s ! d) k = Some l \<longrightarrow> (\<forall>j \<in> set l. s_clients s j \<noteq> None))"

text \<open>Client \<open>i\<close>, on data base \<open>d\<close>, has come from \<open>s0\<close> to \<open>s\<close>, has been replied \<open>r\<close>, and the store is now \<open>st\<close>.\<close>

definition served :: "nat \<Rightarrow> nat \<Rightarrow> redisServer \<Rightarrow> byte list \<Rightarrow> astore \<Rightarrow> redisServer \<Rightarrow> bool" where
  "served d i s0 r st s \<longleftrightarrow> master s \<and> d < length (s_db s) \<and> live d s = st \<and>
     (\<exists>c0 c. s_clients s0 i = Some c0 \<and> s_clients s i = Some c \<and> REDIS_CLOSE_AFTER_REPLY \<notin> k_flags c \<and> k_db c = d \<and>
        k_argv c = k_argv c0 \<and> k_out c = k_out c0 @ r) \<and>
     (\<forall>j. j \<noteq> i \<longrightarrow> s_clients s j \<in> {s_clients s0 j, map_option mark_dirty (s_clients s0 j)}) \<and>
     s_time s = s_time s0 \<and> length (s_db s) = length (s_db s0) \<and> (\<forall>e < length (s_db s). e \<noteq> d \<longrightarrow> live e s = live e s0)"

named_theorems serve_rules \<open>steps of commands on the abstract store\<close>

lemma servedD:
  assumes "served d i s0 r st s"
  shows "master s" "d < length (s_db s)" "live d s = st" "client_db i s = Some d" "s_time s = s_time s0" "db_ok (s_db s ! d)"
    "\<not> s_erange s" "0 \<le> s_time s0"
  using assms by (auto simp: served_def client_db_def require_def master_def)

lemma served_argv: "served d i s0 r st s \<Longrightarrow> argv j i s = argv j i s0" "served d i s0 r st s \<Longrightarrow> argc i s = argc i s0"
    "served d i s0 r st s \<Longrightarrow> args_from j i s = args_from j i s0"
  by (auto simp: served_def argv_def argc_def args_from_def)

lemma served_start:
  assumes "master s" and "s_clients s i = Some c" and "REDIS_CLOSE_AFTER_REPLY \<notin> k_flags c" and "k_db c < length (s_db s)"
  shows "served (k_db c) i s [] (live (k_db c) s) s"
  using assms by (auto simp: served_def)

lemma served_reply [serve_rules]:
  assumes "served d i s0 r st s"
  shows "served d i s0 (r @ b) st (addReply_bytes b i s)"
proof -
  have "live e (addReply_bytes b i s) = live e s" for e by (auto simp: live_def content_def addReply_bytes_def)
  moreover have "master (addReply_bytes b i s)" using assms by (auto simp: served_def master_def addReply_bytes_def upd_client_def)
  moreover obtain c0 c where c: "s_clients s0 i = Some c0" "s_clients s i = Some c" "REDIS_CLOSE_AFTER_REPLY \<notin> k_flags c" "k_db c = d"
    "k_argv c = k_argv c0" "k_out c = k_out c0 @ r"
    using assms by (auto simp: served_def)
  moreover have "s_clients (addReply_bytes b i s) = (s_clients s)(i \<mapsto> c\<lparr>k_out := k_out c @ b\<rparr>)"
    using c by (auto simp: addReply_bytes_def)
  ultimately show ?thesis using assms unfolding served_def by (simp add: addReply_bytes_def)
qed

lemma served_reply_eq: "served d i s0 r st s \<Longrightarrow> r' = r @ b \<Longrightarrow> served d i s0 r' st (addReply_bytes b i s)"
  using served_reply by blast

lemma served_same:
  assumes "served d i s0 r st s" and "s_db s' = s_db s" "s_clients s' = s_clients s" "s_time s' = s_time s" "s_masterhost s' = s_masterhost s"
    "s_loading s' = s_loading s" "s_erange s' = s_erange s"
  shows "served d i s0 r st s'"
proof -
  have "live e s' = live e s" for e using assms(2,4) by (auto simp: live_def content_def)
  moreover have "master s'" using assms by (simp add: served_def master_def)
  ultimately show ?thesis using assms unfolding served_def by simp
qed

lemma served_dirty [serve_rules]: "served d i s0 r st s \<Longrightarrow> served d i s0 r st (add_dirty n s)"
  by (erule served_same) (simp_all add: add_dirty_def)

lemma served_signal:
  assumes a: "served d i s0 r st s"
  shows "\<exists>s'. signalModifiedKey d k s = Some s' \<and> served d i s0 r st s' \<and> s_db s' = s_db s"
proof (cases "db_watched (s_db s ! d) k")
  case None
  then show ?thesis using a by (simp add: signalModifiedKey_def touchWatchedKey_def)
next
  case (Some l)
  define s' where "s' = fold (\<lambda>i. upd_client i mark_dirty) l s"
  have e: "signalModifiedKey d k s = Some s'"
    using a Some by (auto simp: signalModifiedKey_def touchWatchedKey_def s'_def served_def master_def list_all_iff require_def)
  have flags: "s_masterhost s' = s_masterhost s" "s_loading s' = s_loading s" "s_erange s' = s_erange s"
    unfolding s'_def by (induction l arbitrary: s) (simp_all add: upd_client_def)
  have s': "s_db s' = s_db s" "s_time s' = s_time s"
    "\<And>j. s_clients s' j = (if j \<in> set l then map_option mark_dirty (s_clients s j) else s_clients s j)"
    by (simp_all add: s'_def fold_mark)
  have "live e s' = live e s" for e using s' by (auto simp: live_def content_def)
  moreover have "master s'" using a flags s' by (auto simp: served_def master_def)
  moreover have "s_clients s' j \<in> {s_clients s0 j, map_option mark_dirty (s_clients s0 j)}" if "j \<noteq> i" for j
    using a that s'(3) [of j] unfolding served_def by (cases "j \<in> set l") auto
  ultimately have "served d i s0 r st s'" using a s' unfolding served_def by (auto simp: mark_dirty_def)
  then show ?thesis using e s' by blast
qed

section \<open>Changes of one key\<close>

definition put :: "nat \<Rightarrow> byte list \<Rightarrow> (robj \<times> int option) option \<Rightarrow> redisServer \<Rightarrow> redisServer" where
  "put d k x = upd_db d (\<lambda>db. db\<lparr>db_dict := (db_dict db)(k := map_option fst x), db_expires := (db_expires db)(k := Option.bind x snd)\<rparr>)"

definition entry_ok :: "(robj \<times> int option) option \<Rightarrow> bool" where
  "entry_ok x \<longleftrightarrow> (\<forall>v e. x = Some (v, e) \<longrightarrow> (o_type v = REDIS_STRING \<longrightarrow> obj_ok v) \<and> (\<forall>w. e = Some w \<longrightarrow> 0 \<le> w))"

lemma upd_db_cong: "f (s_db s ! d) = g (s_db s ! d) \<Longrightarrow> upd_db d f s = upd_db d g s"
  by (simp add: upd_db_def)

lemma put_put [simp]: "put d k x (put d k y s) = put d k x s"
  by (cases "d < length (s_db s)") (simp_all add: put_def upd_db_def list_update_beyond)

lemma content_put: "d < length (s_db s) \<Longrightarrow> content (put d k x s) e m = (if e = d \<and> m = k then x else content s e m)"
  by (cases "e = d"; cases x) (auto simp: put_def content_def)

lemma db_dict_put [simp]: "d < length (s_db s) \<Longrightarrow> db_dict (s_db (put d k x s) ! d) k = map_option fst x"
    "d < length (s_db s) \<Longrightarrow> db_expires (s_db (put d k x s) ! d) k = Option.bind x snd"
    "length (s_db (put d k x s)) = length (s_db s)" "s_time (put d k x s) = s_time s"
  by (simp_all add: put_def)

lemma served_put [serve_rules]:
  assumes a: "served d i s0 r st s" and x: "entry_ok x"
  shows "served d i s0 r (st(k := entry (s_time s0) x)) (put d k x s)"
proof -
  have d: "d < length (s_db s)" "s_time s = s_time s0" using a by (simp_all add: served_def)
  have l: "live e (put d k x s) = (if e = d then (live d s)(k := entry (s_time s0) x) else live e s)" for e
    using d by (auto simp: live_def content_put fun_eq_iff)
  have "db_ok (s_db (put d k x s) ! e)" if "e < length (s_db s)" for e
  proof (cases "e = d")
    case True
    have "db_ok (s_db s ! d)" using a d by (simp add: served_def master_def)
    then show ?thesis using True d x by (cases x) (auto simp: put_def db_ok_def entry_ok_def)
  qed (use a that in \<open>simp add: served_def master_def put_def\<close>)
  moreover have "db_watched (s_db (put d k x s) ! e) = db_watched (s_db s ! e)" for e using d by (cases "e = d") (simp_all add: put_def)
  moreover have "s_masterhost (put d k x s) = s_masterhost s" "s_loading (put d k x s) = s_loading s" "s_erange (put d k x s) = s_erange s"
    "s_clients (put d k x s) = s_clients s" "s_time (put d k x s) = s_time s" "length (s_db (put d k x s)) = length (s_db s)"
    by (simp_all add: put_def upd_db_def)
  ultimately have "master (put d k x s)" using a unfolding served_def master_def by simp
  then show ?thesis using a l d by (auto simp: served_def put_def)
qed

lemma dbAdd_put: "d < length (s_db s) \<Longrightarrow> db_ok (s_db s ! d) \<Longrightarrow> db_dict (s_db s ! d) k = None \<Longrightarrow> dbAdd d k v s = Some (put d k (Some (v, None)) s)"
  by (auto simp: dbAdd_def put_def require_def db_ok_def fun_upd_idem intro: upd_db_cong)

lemma dbOverwrite_put:
  "d < length (s_db s) \<Longrightarrow> db_dict (s_db s ! d) k = Some ob \<Longrightarrow> dbOverwrite d k v s = Some (put d k (Some (v, db_expires (s_db s ! d) k)) s)"
  by (auto simp: dbOverwrite_def put_def require_def intro: upd_db_cong)

lemma dbDelete_put: "dbDelete d k s = (put d k None s, db_dict (s_db s ! d) k \<noteq> None)"
  by (simp add: dbDelete_def put_def)

lemma removeExpire_put:
  "d < length (s_db s) \<Longrightarrow> db_dict (s_db s ! d) k = Some v \<Longrightarrow>
     removeExpire d k s = Some (put d k (Some (v, None)) s, db_expires (s_db s ! d) k \<noteq> None)"
  by (auto simp: removeExpire_def put_def require_def fun_upd_idem intro: upd_db_cong)

lemma setExpire_put:
  "d < length (s_db s) \<Longrightarrow> db_dict (s_db s ! d) k = Some v \<Longrightarrow> setExpire d k w s = Some (put d k (Some (v, Some w)) s)"
  by (auto simp: setExpire_def put_def require_def fun_upd_idem intro: upd_db_cong)

section \<open>Looking keys up\<close>

lemma served_propagate: "served d i s0 r st s \<Longrightarrow> served d i s0 r st (propagateExpire d k s)"
  by (erule served_same) (simp_all add: propagateExpire_def add_feed_def Let_def)

definition found :: "nat \<Rightarrow> byte list \<Rightarrow> astore \<Rightarrow> redisServer \<Rightarrow> bool" where
  "found d k st s \<longleftrightarrow> st k = map_option (\<lambda>v. (abs_val v, db_expires (s_db s ! d) k)) (db_dict (s_db s ! d) k)"

lemma served_expire:
  assumes a: "served d i s0 r st s"
  shows "\<exists>s1 b. expireIfNeeded d k s = Some (s1, b) \<and> served d i s0 r st s1 \<and> found d k st s1"
proof -
  note m = servedD [OF a]
  have st: "st k = entry (s_time s) (content s d k)" using m(3) by (auto simp: live_def)
  show ?thesis
  proof (cases "db_expires (s_db s ! d) k")
    case None
    then have "expireIfNeeded d k s = Some (s, False)" by (simp add: expireIfNeeded_persistent)
    moreover have "found d k st s" using None st by (cases "db_dict (s_db s ! d) k") (simp_all add: found_def content_def entry_def)
    ultimately show ?thesis using a by blast
  next
    case (Some w)
    then have w: "0 \<le> w" and dict: "db_dict (s_db s ! d) k \<noteq> None" using m(6) by (auto simp: db_ok_def)
    have e: "expireIfNeeded d k s = (if s_time s \<le> w then Some (s, False) else Some (dbDelete d k (propagateExpire d k s)))"
      using Some w dict m(1) by (simp add: expireIfNeeded_def getExpire_def require_def master_def)
    show ?thesis
    proof (cases "s_time s \<le> w")
      case True
      have "found d k st s" using Some True st dict by (auto simp: found_def content_def entry_def)
      then show ?thesis using e True a by auto
    next
      case False
      let ?p = "propagateExpire d k s"
      have p: "served d i s0 r st ?p" using served_propagate [OF a] .
      have none: "st k = None" using Some False st dict by (auto simp: content_def entry_def)
      have "served d i s0 r (st(k := entry (s_time s0) None)) (put d k None ?p)"
        by (rule served_put [OF p]) (simp add: entry_ok_def)
      then have "served d i s0 r st (put d k None ?p)" using none by (simp add: entry_def fun_upd_idem)
      moreover have "found d k st (put d k None ?p)" using none servedD(2) [OF p] by (simp add: found_def)
      ultimately show ?thesis using e False by (auto simp: dbDelete_put)
    qed
  qed
qed

lemma served_lookup:
  assumes a: "served d i s0 r st s"
  shows "\<exists>s1. lookupKeyWrite d k s = Some (s1, db_dict (s_db s1 ! d) k) \<and> lookupKeyRead d k s = Some (s1, db_dict (s_db s1 ! d) k) \<and>
    served d i s0 r st s1 \<and> found d k st s1"
proof -
  obtain s1 b where "expireIfNeeded d k s = Some (s1, b)" "served d i s0 r st s1" "found d k st s1"
    using served_expire [OF a] by blast
  then show ?thesis by (simp add: lookupKeyWrite_def lookupKeyRead_def lookupKey_def)
qed

lemma served_lookupOrReply:
  assumes a: "served d i s0 r st s"
  shows "\<exists>s1. lookupKeyReadOrReply i k msg s = Some (s1, db_dict (s_db s1 ! d) k) \<and> lookupKeyWriteOrReply i k msg s = Some (s1, db_dict (s_db s1 ! d) k) \<and>
    served d i s0 (if st k = None then r @ msg else r) st s1 \<and> found d k st s1"
proof -
  obtain s1 where s1: "lookupKeyWrite d k s = Some (s1, db_dict (s_db s1 ! d) k)" "lookupKeyRead d k s = Some (s1, db_dict (s_db s1 ! d) k)"
    "served d i s0 r st s1" "found d k st s1"
    using served_lookup [OF a] by blast
  define s2 where "s2 = (if db_dict (s_db s1 ! d) k = None then addReply_bytes msg i s1 else s1)"
  have db: "s_db s2 = s_db s1" by (simp add: s2_def addReply_bytes_def)
  have n: "st k = None \<longleftrightarrow> db_dict (s_db s1 ! d) k = None" using s1(4) by (auto simp: found_def)
  have "served d i s0 (if st k = None then r @ msg else r) st s2" using n s1(3) served_reply by (auto simp: s2_def)
  moreover have "found d k st s2" using s1(4) by (simp add: found_def db)
  moreover have "lookupKeyReadOrReply i k msg s = Some (s2, db_dict (s_db s2 ! d) k)" "lookupKeyWriteOrReply i k msg s = Some (s2, db_dict (s_db s2 ! d) k)"
    using s1 servedD(4) [OF a] unfolding db by (auto simp: lookupKeyReadOrReply_def lookupKeyWriteOrReply_def s2_def)
  ultimately show ?thesis by blast
qed

text \<open>The object found, and its text.\<close>

lemma found_None: "found d k st s \<Longrightarrow> st k = None \<longleftrightarrow> db_dict (s_db s ! d) k = None"
  by (auto simp: found_def)

lemma found_Some:
  assumes "served d i s0 r st s" and "found d k st s" and "db_dict (s_db s ! d) k = Some ob"
  shows "st k = Some (abs_val ob, db_expires (s_db s ! d) k)" "o_type ob = REDIS_STRING \<Longrightarrow> obj_ok ob"
  using assms by (auto simp: found_def served_def master_def db_ok_def)

lemma object_text_ok: "obj_ok ob \<Longrightarrow> object_text ob = Some (obj_bytes ob)"
  by (cases "o_ptr ob") (auto simp: object_text_def getDecodedObject_def obj_ok_def obj_bytes_def ll2string_full createStringObject_def
      createObject_def incrRefCount_def)

lemma stringObjectLen_ok: "obj_ok ob \<Longrightarrow> stringObjectLen ob = Some (length (obj_bytes ob))"
  by (cases "o_ptr ob") (auto simp: stringObjectLen_def obj_ok_def obj_bytes_def ll2string_full)

lemma raw_string_ok [simp]: "obj_ok (raw_string b)" "obj_bytes (raw_string b) = b" "o_type (raw_string b) = REDIS_STRING"
    "abs_val (raw_string b) = Inl b"
  by (simp_all add: raw_string_def createStringObject_def createObject_def obj_ok_def obj_bytes_def abs_val_def)

lemma int_object_ok: "LLONG_MIN < n \<Longrightarrow> n \<le> LLONG_MAX \<Longrightarrow> obj_ok (createObject 0 REDIS_STRING (PtrLong n))"
    "obj_bytes (createObject 0 REDIS_STRING (PtrLong n)) = dec_repr n" "o_type (createObject 0 REDIS_STRING (PtrLong n)) = REDIS_STRING"
    "abs_val (createObject 0 REDIS_STRING (PtrLong n)) = Inl (dec_repr n)"
  by (simp_all add: createObject_def obj_ok_def obj_bytes_def abs_val_def)

lemma obj_ok_abs: "obj_ok ob \<Longrightarrow> abs_val ob = Inl (obj_bytes ob)"
  by (simp add: obj_ok_def abs_val_def)

text \<open>An argument is stored with its text. The text of the least \<^verbatim>\<open>long long\<close> is left out: an object that holds it
  as an integer cannot be printed without overflow.\<close>

definition storable :: "byte list \<Rightarrow> bool" where
  "storable a \<longleftrightarrow> a \<noteq> dec_repr LLONG_MIN"

lemma encode_arg_ok:
  assumes "storable a"
  shows "\<exists>v. encode_arg a s = Some v \<and> obj_ok v \<and> obj_bytes v = a"
proof (cases "string2ll a")
  case None
  then show ?thesis
    by (auto simp: encode_arg_def tryObjectEncoding_def raw_string_def createStringObject_def createObject_def string2l_long obj_ok_def obj_bytes_def)
next
  case (Some n)
  then have n: "LLONG_MIN \<le> n" "n \<le> LLONG_MAX" "a = dec_repr n" using string2ll_dec_repr by blast+
  then have "n \<noteq> LLONG_MIN" using assms by (auto simp: storable_def)
  then show ?thesis
    using Some n
    by (auto simp: encode_arg_def tryObjectEncoding_def raw_string_def createStringObject_def createObject_def string2l_long obj_ok_def obj_bytes_def)
qed

text \<open>What the store keeps of a string.\<close>

lemma entry_string: "obj_ok v \<Longrightarrow> entry t (Some (v, None)) = Some (Inl (obj_bytes v), None)"
    "obj_ok v \<Longrightarrow> t \<le> w \<Longrightarrow> entry t (Some (v, Some w)) = Some (Inl (obj_bytes v), Some w)"
  by (simp_all add: entry_def obj_ok_abs)

lemma entry_okI: "obj_ok v \<Longrightarrow> (\<And>w. e = Some w \<Longrightarrow> 0 \<le> w) \<Longrightarrow> entry_ok (Some (v, e))"
  by (simp add: entry_ok_def)

text \<open>A new value for a key that was looked up, and what is told of it.\<close>

lemma served_setKey:
  assumes a: "served d i s0 r st s" and v: "obj_ok v"
  shows "\<exists>s'. setKey d k v s = Some s' \<and> served d i s0 r (st(k \<mapsto> (Inl (obj_bytes v), None))) s' \<and> db_dict (s_db s' ! d) k = Some v"
proof -
  obtain s1 where s1: "lookupKeyWrite d k s = Some (s1, db_dict (s_db s1 ! d) k)" "served d i s0 r st s1"
    using served_lookup [OF a] by blast
  note d = servedD(2,6) [OF s1(2)]
  obtain e where add: "(if db_dict (s_db s1 ! d) k = None then dbAdd d k v s1 else dbOverwrite d k v s1) = Some (put d k (Some (v, e)) s1)"
    using d by (cases "db_dict (s_db s1 ! d) k") (auto simp: dbAdd_put dbOverwrite_put)
  have rm: "\<exists>b. removeExpire d k (put d k (Some (v, e)) s1) = Some (put d k (Some (v, None)) s1, b)"
    using d by (subst removeExpire_put [of _ _ _ v]) simp_all
  have p: "served d i s0 r (st(k \<mapsto> (Inl (obj_bytes v), None))) (put d k (Some (v, None)) s1)"
    using served_put [OF s1(2), of "Some (v, None)" k] v by (simp add: entry_ok_def entry_string)
  obtain s' where "signalModifiedKey d k (put d k (Some (v, None)) s1) = Some s'" "served d i s0 r (st(k \<mapsto> (Inl (obj_bytes v), None))) s'"
    "s_db s' = s_db (put d k (Some (v, None)) s1)" using served_signal [OF p] by blast
  then show ?thesis using s1 add rm d by (auto simp: setKey_def)
qed

lemma served_change:
  assumes a: "served d i s0 r st s" and f: "found d k st s" and v: "obj_ok v"
  shows "\<exists>s1 s'. (if db_dict (s_db s ! d) k = None then dbAdd d k v s else dbOverwrite d k v s) = Some s1 \<and>
    (db_dict (s_db s ! d) k = None \<longrightarrow> dbAdd d k v s = Some s1) \<and> (db_dict (s_db s ! d) k \<noteq> None \<longrightarrow> dbOverwrite d k v s = Some s1) \<and>
    signalModifiedKey d k s1 = Some s' \<and> served d i s0 r (st(k \<mapsto> (Inl (obj_bytes v), Option.bind (st k) snd))) s'"
proof -
  note d = servedD(2,6) [OF a]
  define e where "e = Option.bind (st k) snd"
  have add: "(if db_dict (s_db s ! d) k = None then dbAdd d k v s else dbOverwrite d k v s) = Some (put d k (Some (v, e)) s)"
    using d f by (cases "db_dict (s_db s ! d) k") (auto simp: dbAdd_put dbOverwrite_put found_def e_def)
  have e: "0 \<le> w" "s_time s0 \<le> w" if "e = Some w" for w
  proof -
    have st: "live d s k = st k" using servedD(3) [OF a] by simp
    note e' = that
    obtain v0 where "st k = Some (v0, Some w)" using e' by (cases "st k") (auto simp: e_def)
    then show "0 \<le> w" "s_time s0 \<le> w" using st servedD(5,8) [OF a] by (auto simp: live_def entry_def split: option.splits if_splits)
  qed
  have "entry (s_time s0) (Some (v, e)) = Some (Inl (obj_bytes v), e)" using e v by (cases e) (simp_all add: entry_string)
  moreover have "entry_ok (Some (v, e))" using e v by (intro entry_okI) auto
  ultimately have p: "served d i s0 r (st(k \<mapsto> (Inl (obj_bytes v), e))) (put d k (Some (v, e)) s)"
    using served_put [OF a, of "Some (v, e)" k] by simp
  obtain s' where "signalModifiedKey d k (put d k (Some (v, e)) s) = Some s'" "served d i s0 r (st(k \<mapsto> (Inl (obj_bytes v), e))) s'"
    using served_signal [OF p] by blast
  then show ?thesis using add unfolding e_def by (intro exI [of _ "put d k (Some (v, Option.bind (st k) snd)) s"] exI [of _ s']) auto
qed

end
