(* ===== verification/StringOps.thy ===== *)
theory StringOps
  imports Store
begin

text \<open>
  What each string command does, as a function of the abstract store (\<open>spec_get\<close>, \<open>spec_set\<close>, ...), and
  that the command of \<open>TString\<close> does it, on every branch.
\<close>

section \<open>What the commands do\<close>

text \<open>The number a text stands for, as \<^verbatim>\<open>strtoll\<close> reads it: nothing may follow the digits but a NUL.\<close>

definition number :: "byte list \<Rightarrow> int option" where
  "number b = (case strtoll b of (v, n, ov) \<Rightarrow> if (b @ [0]) ! n \<noteq> 0 \<or> ov then None else Some v)"

definition err_line :: "byte list \<Rightarrow> byte list" where
  "err_line msg = ascii_text ''-ERR '' @ msg @ [13, 10]"

definition int_line :: "int \<Rightarrow> byte list" where
  "int_line n = 58 # dec_repr n @ [13, 10]"

definition not_integer :: "byte list" where
  "not_integer = err_line (ascii_text ''value is not an integer or out of range'')"

definition wrong_type :: "(aval \<times> int option) option \<Rightarrow> bool" where
  "wrong_type x = (case x of Some (Inr v, e) \<Rightarrow> True | _ \<Rightarrow> False)"

definition old_text :: "(aval \<times> int option) option \<Rightarrow> byte list" where
  "old_text x = (case x of Some (Inl b, e) \<Rightarrow> b | _ \<Rightarrow> [])"

definition old_expire :: "(aval \<times> int option) option \<Rightarrow> int option" where
  "old_expire x = Option.bind x snd"

definition get_reply :: "(aval \<times> int option) option \<Rightarrow> byte list" where
  "get_reply x = (case x of None \<Rightarrow> shared_nullbulk | Some (Inl b, e) \<Rightarrow> bulk_bytes b | Some (Inr v, e) \<Rightarrow> shared_wrongtypeerr)"

text \<open>The reply and the new store; \<open>None\<close> where the behaviour is left open: undefined arithmetic, or an integer that cannot be printed.\<close>

definition spec_get :: "byte list \<Rightarrow> astore \<Rightarrow> (byte list \<times> astore) option" where
  "spec_get k st = Some (get_reply (st k), st)"

definition spec_set :: "bool \<Rightarrow> byte list \<Rightarrow> byte list \<Rightarrow> astore \<Rightarrow> (byte list \<times> astore) option" where
  "spec_set nx k v st =
     (if \<not> storable v then None
      else if nx \<and> st k \<noteq> None then Some (shared_czero, st)
      else Some (if nx then shared_cone else shared_ok, st(k \<mapsto> (Inl v, None))))"

definition spec_setex :: "int \<Rightarrow> byte list \<Rightarrow> byte list \<Rightarrow> byte list \<Rightarrow> astore \<Rightarrow> (byte list \<times> astore) option" where
  "spec_setex t k a v st =
     (if \<not> storable v then None
      else case number a of
        None \<Rightarrow> Some (not_integer, st)
      | Some n \<Rightarrow>
          if n \<le> 0 then Some (err_line (ascii_text ''invalid expire time in SETEX''), st)
          else if t + n > LLONG_MAX then None
          else Some (shared_ok, st(k \<mapsto> (Inl v, Some (t + n)))))"

definition spec_getset :: "byte list \<Rightarrow> byte list \<Rightarrow> astore \<Rightarrow> (byte list \<times> astore) option" where
  "spec_getset k v st =
     (if \<not> storable v then None
      else if wrong_type (st k) then Some (shared_wrongtypeerr, st)
      else Some (get_reply (st k), st(k \<mapsto> (Inl v, None))))"

definition spec_strlen :: "byte list \<Rightarrow> astore \<Rightarrow> (byte list \<times> astore) option" where
  "spec_strlen k st =
     Some (if wrong_type (st k) then shared_wrongtypeerr else int_line (int (length (old_text (st k)))), st)"

definition spec_exists :: "byte list \<Rightarrow> astore \<Rightarrow> (byte list \<times> astore) option" where
  "spec_exists k st = Some (if st k = None then shared_czero else shared_cone, st)"

definition spec_append :: "byte list \<Rightarrow> byte list \<Rightarrow> astore \<Rightarrow> (byte list \<times> astore) option" where
  "spec_append k v st =
     (let b = old_text (st k) @ v in
      if wrong_type (st k) then Some (shared_wrongtypeerr, st)
      else if st k = None \<and> \<not> storable v \<or> int (length b) \<ge> 2 ^ 63 then None
      else if st k \<noteq> None \<and> length b > 512 * 1024 * 1024 then Some (err_line too_long_error, st)
      else Some (int_line (int (length b)), st(k \<mapsto> (Inl b, old_expire (st k)))))"

definition spec_incr :: "int \<Rightarrow> byte list \<Rightarrow> astore \<Rightarrow> (byte list \<times> astore) option" where
  "spec_incr n k st =
     (if wrong_type (st k) then Some (shared_wrongtypeerr, st)
      else case (if st k = None then Some 0 else number (old_text (st k))) of
        None \<Rightarrow> Some (not_integer, st)
      | Some v \<Rightarrow>
          if \<not> fits_long (v + n) then Some (err_line (ascii_text ''increment or decrement would overflow''), st)
          else if v + n = LLONG_MIN then None
          else Some (int_line (v + n), st(k \<mapsto> (Inl (dec_repr (v + n)), old_expire (st k)))))"

definition spec_incrby :: "byte list \<Rightarrow> byte list \<Rightarrow> astore \<Rightarrow> (byte list \<times> astore) option" where
  "spec_incrby k a st = (case number a of None \<Rightarrow> Some (not_integer, st) | Some n \<Rightarrow> spec_incr n k st)"

definition spec_decrby :: "byte list \<Rightarrow> byte list \<Rightarrow> astore \<Rightarrow> (byte list \<times> astore) option" where
  "spec_decrby k a st =
     (case number a of None \<Rightarrow> Some (not_integer, st)
      | Some n \<Rightarrow> if n = LLONG_MIN then None else spec_incr (- n) k st)"

section \<open>Numbers\<close>

lemma number_range: "number b = Some n \<Longrightarrow> LLONG_MIN \<le> n \<and> n \<le> LLONG_MAX"
  by (auto simp: number_def strtoll_def Let_def c_limits split: if_splits)

lemma strtoll_overflow: "strtoll b = (v, n, True) \<Longrightarrow> v = LLONG_MIN \<or> v = LLONG_MAX"
  by (auto simp: strtoll_def Let_def split: if_splits)

lemma number_dec_repr: "LLONG_MIN \<le> n \<Longrightarrow> n \<le> LLONG_MAX \<Longrightarrow> number (dec_repr n) = Some n"
  by (simp add: number_def strtoll_dec_repr nth_append)

definition converted :: "byte list option \<Rightarrow> byte list \<Rightarrow> conv_reply" where
  "converted msg b = (case number b of Some n \<Rightarrow> ConvOk n | None \<Rightarrow> (case msg of Some m \<Rightarrow> ErrCustom m | None \<Rightarrow> ErrNotInteger))"

lemma getLongLong_ok:
  assumes "obj_ok ob"
  shows "getLongLongFromObjectOrReply False (Some ob) msg = Some (converted msg (obj_bytes ob))"
proof (cases "o_ptr ob")
  case (PtrLong n)
  then show ?thesis using assms number_dec_repr [of n]
    by (simp add: getLongLongFromObjectOrReply_def getLongLongFromObject_def obj_ok_def obj_bytes_def converted_def)
next
  case (PtrSds b)
  obtain v n ov where s: "strtoll b = (v, n, ov)" by (metis prod_cases3)
  then have "ov \<longrightarrow> v = LLONG_MIN \<or> v = LLONG_MAX" using strtoll_overflow by (cases ov) auto
  then show ?thesis using assms PtrSds s
    by (auto simp: getLongLongFromObjectOrReply_def getLongLongFromObject_def obj_ok_def obj_bytes_def converted_def number_def)
qed

lemma getLongFromArg_ok: "\<not> s_erange s \<Longrightarrow> getLongFromArg msg a s = Some (converted msg a)"
  using number_range [of a] getLongLong_ok [OF raw_string_ok(1), of a msg]
  by (auto simp: getLongFromArg_def getLongFromObjectOrReply_def raw_string_def createStringObject_def createObject_def obj_bytes_def
      converted_def c_limits split: option.splits)

lemma getLongLongFromValue_ok:
  "\<not> s_erange s \<Longrightarrow> obj_ok ob \<Longrightarrow> getLongLongFromValue msg (Some ob) s = Some (converted msg (obj_bytes ob))"
  by (simp add: getLongLongFromValue_def getLongLong_ok)

lemma getLongLongFromValue_absent: "getLongLongFromValue msg None s = Some (ConvOk 0)"
  by (simp add: getLongLongFromValue_def getLongLongFromObjectOrReply_def getLongLongFromObject_def)

lemma conv_error_plain: "conv_error ErrNotInteger = ascii_text ''value is not an integer or out of range''" "conv_error (ErrCustom m) = m"
  by (simp_all add: conv_error_def)

text \<open>Replies.\<close>

lemma served_error: "served d i s0 r st s \<Longrightarrow> served d i s0 (r @ err_line m) st (reply_error m i s)"
  unfolding reply_error_def err_line_def by (rule served_reply)

lemma served_int: "served d i s0 r st s \<Longrightarrow> served d i s0 (r @ int_line n) st (reply_longlong n i s)"
  unfolding reply_longlong_def int_line_def by (rule served_reply)

lemma served_bulk: "served d i s0 r st s \<Longrightarrow> served d i s0 (r @ bulk_bytes b) st (reply_bulk b i s)"
  unfolding reply_bulk_def by (rule served_reply)

lemma int_line_0: "int_line 0 = shared_czero"
  by (simp add: int_line_def shared_czero_def reply_line_def dec_repr_def dec_nat.simps digit_char_def ascii_text_def)

text \<open>What a found object means for the store.\<close>

lemma found_facts:
  assumes "served d i s0 r st s" and "found d k st s"
  shows "db_dict (s_db s ! d) k = None \<Longrightarrow> st k = None"
    "db_dict (s_db s ! d) k = Some ob \<Longrightarrow> o_type ob \<noteq> REDIS_STRING \<Longrightarrow> wrong_type (st k) \<and> get_reply (st k) = shared_wrongtypeerr \<and> st k \<noteq> None"
    "db_dict (s_db s ! d) k = Some ob \<Longrightarrow> o_type ob = REDIS_STRING \<Longrightarrow>
       obj_ok ob \<and> \<not> wrong_type (st k) \<and> get_reply (st k) = bulk_bytes (obj_bytes ob) \<and> old_text (st k) = obj_bytes ob \<and> st k \<noteq> None"
  using found_Some [OF assms] found_None [OF assms(2)]
  by (auto simp: wrong_type_def get_reply_def old_text_def abs_val_def)

lemma absent_facts [simp]: "wrong_type None = False" "get_reply None = shared_nullbulk" "old_text None = []" "old_expire None = None"
  by (simp_all add: wrong_type_def get_reply_def old_text_def old_expire_def)

section \<open>GET, SET and their relatives\<close>

text \<open>The beginning of a command that client \<open>i\<close> has sent.\<close>

definition asked :: "nat \<Rightarrow> nat \<Rightarrow> byte list list \<Rightarrow> astore \<Rightarrow> redisServer \<Rightarrow> bool" where
  "asked d i av st s \<longleftrightarrow> served d i s [] st s \<and> map_option k_argv (s_clients s i) = Some av"

lemma askedD:
  assumes "asked d i av st s"
  shows "served d i s [] st s" "j < length av \<Longrightarrow> argv j i s = Some (av ! j)" "argc i s = Some (length av)" "args_from j i s = Some (drop j av)"
    "\<not> s_erange s" "client_db i s = Some d" "0 \<le> s_time s"
  using assms servedD [of d i s "[]" st s] by (auto simp: asked_def argv_def argc_def args_from_def require_def)

lemma getGeneric_ok:
  assumes a: "served d i s0 r st s" and k: "argv 1 i s = Some k"
  shows "\<exists>s'. getGenericCommand i s = Some (s', \<not> wrong_type (st k)) \<and> served d i s0 (r @ get_reply (st k)) st s'"
proof -
  obtain s1 where s1: "lookupKeyReadOrReply i k shared_nullbulk s = Some (s1, db_dict (s_db s1 ! d) k)"
    "served d i s0 (if st k = None then r @ shared_nullbulk else r) st s1" "found d k st s1"
    using served_lookupOrReply [OF a] by blast
  show ?thesis
  proof (cases "db_dict (s_db s1 ! d) k")
    case None
    then show ?thesis using s1 k found_facts(1) [OF s1(2,3)] by (simp add: getGenericCommand_def)
  next
    case (Some ob)
    note f = found_facts(2,3) [OF s1(2,3) Some]
    show ?thesis
    proof (cases "o_type ob = REDIS_STRING")
      case True
      have sv: "served d i s0 r st s1" using s1(2) f(2) True by simp
      show ?thesis using s1(1) k Some True f(2) served_bulk [OF sv, of "obj_bytes ob"] by (simp add: getGenericCommand_def object_text_ok)
    next
      case False
      have sv: "served d i s0 r st s1" using s1(2) f(1) False by simp
      show ?thesis using s1(1) k Some False f(1) served_reply [OF sv, of shared_wrongtypeerr] by (simp add: getGenericCommand_def)
    qed
  qed
qed

lemma getCommand_ok:
  assumes a: "asked d i [n, k] st s" and sp: "spec_get k st = Some (r, st')"
  shows "\<exists>s'. getCommand i s = Some s' \<and> served d i s r st' s'"
  using getGeneric_ok [OF askedD(1) [OF a], of k] askedD(2) [OF a, of 1] sp by (auto simp: getCommand_def spec_get_def)

lemma served_argv_start: "served d i s r st s' \<Longrightarrow> argv j i s = x \<Longrightarrow> argv j i s' = x"
  by (simp add: served_argv)

lemma getsetCommand_ok:
  assumes a: "asked d i [n, k, v] st s" and sp: "spec_getset k v st = Some (r, st')"
  shows "\<exists>s'. getsetCommand i s = Some s' \<and> served d i s r st' s'"
proof -
  have av: "argv 1 i s = Some k" "argv 2 i s = Some v" using askedD(2) [OF a, of 1] askedD(2) [OF a, of 2] by simp_all
  obtain s1 where s1: "getGenericCommand i s = Some (s1, \<not> wrong_type (st k))" "served d i s (get_reply (st k)) st s1"
    using getGeneric_ok [OF askedD(1) [OF a] av(1)] by auto
  show ?thesis
  proof (cases "wrong_type (st k)")
    case True
    then have "get_reply (st k) = shared_wrongtypeerr" by (auto simp: wrong_type_def get_reply_def split: option.splits sum.splits)
    then show ?thesis using True s1 sp by (auto simp: getsetCommand_def spec_getset_def split: if_splits)
  next
    case False
    have v: "storable v" using sp by (auto simp: spec_getset_def split: if_splits)
    obtain x where x: "encode_arg v s1 = Some x" "obj_ok x" "obj_bytes x = v" using encode_arg_ok [OF v] by blast
    obtain s2 where s2: "setKey d k x s1 = Some s2" "served d i s (get_reply (st k)) (st(k \<mapsto> (Inl v, None))) s2"
      using served_setKey [OF s1(2) x(2), of k] x(3) by blast
    show ?thesis using False s1 s2 v x av servedD(4) [OF s1(2)] sp served_dirty [OF s2(2)]
      by (simp add: getsetCommand_def spec_getset_def served_argv [OF s1(2)])
  qed
qed

text \<open>SET, SETNX and SETEX share their body.\<close>

lemma setGeneric_ok:
  assumes a: "asked d i av st s" and v: "obj_ok x"
    and sp: "(case e of None \<Rightarrow> spec_set nx k (obj_bytes x) st | Some a \<Rightarrow> spec_setex (s_time s) k a (obj_bytes x) st) = Some (r, st')"
    and nx: "e \<noteq> None \<longrightarrow> \<not> nx"
  shows "\<exists>s'. setGenericCommand nx k x e i s = Some s' \<and> served d i s r st' s'"
proof -
  note s = askedD(1) [OF a]
  obtain s1 where s1: "lookupKeyWrite d k s = Some (s1, db_dict (s_db s1 ! d) k)" "served d i s [] st s1" "found d k st s1"
    using served_lookup [OF s] by blast
  obtain s2 where s2: "setKey d k x s1 = Some s2" "served d i s [] (st(k \<mapsto> (Inl (obj_bytes x), None))) s2" "db_dict (s_db s2 ! d) k = Some x"
    using served_setKey [OF s1(2) v, of k] by blast
  have d: "client_db i s = Some d" using askedD(6) [OF a] .
  show ?thesis
  proof (cases e)
    case None
    show ?thesis
    proof (cases "nx \<and> st k \<noteq> None")
      case True
      then show ?thesis using None sp d s1 found_None [OF s1(3)] served_reply [OF s1(2), of shared_czero]
        by (auto simp: setGenericCommand_def spec_set_def split: if_splits)
    next
      case False
      then show ?thesis
        using None sp d s1 s2 found_None [OF s1(3)] served_reply [OF served_dirty [OF s2(2), of 1], of "if nx then shared_cone else shared_ok"]
        by (auto simp: setGenericCommand_def spec_set_def split: if_splits)
    qed
  next
    case (Some b)
    have conv: "getLongFromArg None b s = Some (converted None b)" using getLongFromArg_ok askedD(5) [OF a] by blast
    show ?thesis
    proof (cases "number b")
      case None
      then show ?thesis using Some conv sp served_error [OF s, of "ascii_text ''value is not an integer or out of range''"]
        by (auto simp: setGenericCommand_def spec_setex_def converted_def not_integer_def conv_error_plain split: if_splits)
    next
      case n: (Some m)
      show ?thesis
      proof (cases "m \<le> 0")
        case True
        then show ?thesis using Some conv sp n served_error [OF s, of "ascii_text ''invalid expire time in SETEX''"]
          by (auto simp: setGenericCommand_def spec_setex_def converted_def split: if_splits)
      next
        case False
        then have st': "s_time s + m \<le> LLONG_MAX" "r = shared_ok" "st' = st(k \<mapsto> (Inl (obj_bytes x), Some (s_time s + m)))"
          using sp Some n by (auto simp: spec_setex_def split: if_splits)
        have t: "s_time (add_dirty 1 s2) = s_time s" using servedD(5) [OF s2(2)] by (simp add: add_dirty_def)
        have d2: "d < length (s_db s2)" using servedD(2) [OF s2(2)] .
        have ex: "setExpire d k (s_time s + m) (add_dirty 1 s2) = Some (put d k (Some (x, Some (s_time s + m))) (add_dirty 1 s2))"
          by (rule setExpire_put) (use s2(3) d2 in \<open>simp_all add: add_dirty_def\<close>)
        have "served d i s [] (st(k \<mapsto> (Inl (obj_bytes x), None), k := entry (s_time s) (Some (x, Some (s_time s + m)))))
            (put d k (Some (x, Some (s_time s + m))) (add_dirty 1 s2))"
          by (rule served_put [OF served_dirty [OF s2(2)]]) (use v False askedD(7) [OF a] in \<open>simp add: entry_ok_def\<close>)
        then have sv: "served d i s [] st' (put d k (Some (x, Some (s_time s + m))) (add_dirty 1 s2))"
          using v False st' by (simp add: entry_string)
        have nx': "\<not> nx" using nx Some by simp
        show ?thesis
          using Some conv n False nx' d s1(1) s2(1) t ex st' served_reply [OF sv, of shared_ok] askedD(7) [OF a]
          by (simp add: setGenericCommand_def converted_def require_def fits_long_def c_limits)
      qed
    qed
  qed
qed

lemma setCommands_ok:
  "asked d i [n, k, v] st s \<Longrightarrow> spec_set False k v st = Some (r, st') \<Longrightarrow> \<exists>s'. setCommand i s = Some s' \<and> served d i s r st' s'"
  "asked d i [n, k, v] st s \<Longrightarrow> spec_set True k v st = Some (r, st') \<Longrightarrow> \<exists>s'. setnxCommand i s = Some s' \<and> served d i s r st' s'"
  "asked d i [n, k, e, v] st s \<Longrightarrow> spec_setex (s_time s) k e v st = Some (r, st') \<Longrightarrow> \<exists>s'. setexCommand i s = Some s' \<and> served d i s r st' s'"
proof -
  have st: "storable v" if "spec_set nx k v st = Some (r, st')" for nx using that by (auto simp: spec_set_def split: if_splits)
  show "\<exists>s'. setCommand i s = Some s' \<and> served d i s r st' s'"
    if "asked d i [n, k, v] st s" "spec_set False k v st = Some (r, st')"
    using encode_arg_ok [OF st [OF that(2)], of s] setGeneric_ok [OF that(1), where e = None and nx = False and k = k] that
      askedD(2) [OF that(1), of 1] askedD(2) [OF that(1), of 2] by (fastforce simp: setCommand_def)
  show "\<exists>s'. setnxCommand i s = Some s' \<and> served d i s r st' s'"
    if "asked d i [n, k, v] st s" "spec_set True k v st = Some (r, st')"
    using encode_arg_ok [OF st [OF that(2)], of s] setGeneric_ok [OF that(1), where e = None and nx = True and k = k] that
      askedD(2) [OF that(1), of 1] askedD(2) [OF that(1), of 2] by (fastforce simp: setnxCommand_def)
  show "\<exists>s'. setexCommand i s = Some s' \<and> served d i s r st' s'"
    if "asked d i [n, k, e, v] st s" "spec_setex (s_time s) k e v st = Some (r, st')"
  proof -
    have "storable v" using that(2) by (auto simp: spec_setex_def split: if_splits)
    then show ?thesis using encode_arg_ok [of v s] setGeneric_ok [OF that(1), where e = "Some e" and nx = False and k = k] that
        askedD(2) [OF that(1), of 1] askedD(2) [OF that(1), of 2] askedD(2) [OF that(1), of 3] by (fastforce simp: setexCommand_def)
  qed
qed

lemma strlenCommand_ok:
  assumes a: "asked d i [n, k] st s" and sp: "spec_strlen k st = Some (r, st')"
  shows "\<exists>s'. strlenCommand i s = Some s' \<and> served d i s r st' s'"
proof -
  have av: "argv 1 i s = Some k" using askedD(2) [OF a, of 1] by simp
  obtain s1 where s1: "lookupKeyReadOrReply i k shared_czero s = Some (s1, db_dict (s_db s1 ! d) k)"
    "served d i s (if st k = None then [] @ shared_czero else []) st s1" "found d k st s1"
    using served_lookupOrReply [OF askedD(1) [OF a]] by blast
  have st': "st' = st" "r = (if wrong_type (st k) then shared_wrongtypeerr else int_line (int (length (old_text (st k)))))"
    using sp by (auto simp: spec_strlen_def)
  show ?thesis
  proof (cases "db_dict (s_db s1 ! d) k")
    case None
    then have n: "st k = None" using found_facts(1) [OF s1(2,3)] by simp
    then show ?thesis using None s1 av st' by (simp add: strlenCommand_def int_line_0)
  next
    case (Some ob)
    note f = found_facts(2,3) [OF s1(2,3) Some]
    show ?thesis
    proof (cases "o_type ob = REDIS_STRING")
      case True
      have sv: "served d i s [] st s1" using s1(2) f(2) True by simp
      show ?thesis using s1(1) av Some True f(2) st' served_int [OF sv, of "int (length (obj_bytes ob))"]
        by (simp add: strlenCommand_def stringObjectLen_ok)
    next
      case False
      have sv: "served d i s [] st s1" using s1(2) f(1) False by simp
      show ?thesis using s1(1) av Some False f(1) st' served_reply [OF sv, of shared_wrongtypeerr] by (simp add: strlenCommand_def)
    qed
  qed
qed

lemma existsCommand_ok:
  assumes a: "asked d i [n, k] st s" and sp: "spec_exists k st = Some (r, st')"
  shows "\<exists>s'. existsCommand i s = Some s' \<and> served d i s r st' s'"
proof -
  obtain s1 b where s1: "expireIfNeeded d k s = Some (s1, b)" "served d i s [] st s1" "found d k st s1"
    using served_expire [OF askedD(1) [OF a]] by blast
  have "argv 1 i s = Some k" using askedD(2) [OF a, of 1] by simp
  then show ?thesis using s1(1) askedD(6) [OF a] found_None [OF s1(3)] sp served_reply [OF s1(2), of r]
    by (auto simp: existsCommand_def spec_exists_def dbExists_def)
qed

text \<open>The common beginning of the commands that change a string in place.\<close>

lemma served_string:
  assumes a: "asked d i av st s"
  obtains s1 where "lookupKeyWrite d k s = Some (s1, db_dict (s_db s1 ! d) k)" "served d i s [] st s1" "found d k st s1"
    "wrong_type (st k) \<longleftrightarrow> (\<exists>ob. db_dict (s_db s1 ! d) k = Some ob \<and> o_type ob \<noteq> REDIS_STRING)"
    "\<not> wrong_type (st k) \<Longrightarrow> (case db_dict (s_db s1 ! d) k of None \<Rightarrow> Some [] | Some ob \<Rightarrow> object_text ob) = Some (old_text (st k))"
    "\<And>ob. \<not> wrong_type (st k) \<Longrightarrow> db_dict (s_db s1 ! d) k = Some ob \<Longrightarrow> obj_ok ob \<and> obj_bytes ob = old_text (st k)"
proof -
  obtain s1 where s1: "lookupKeyWrite d k s = Some (s1, db_dict (s_db s1 ! d) k)" "served d i s [] st s1" "found d k st s1"
    using served_lookup [OF askedD(1) [OF a]] by blast
  show ?thesis
  proof (rule that [OF s1])
    show w: "wrong_type (st k) \<longleftrightarrow> (\<exists>ob. db_dict (s_db s1 ! d) k = Some ob \<and> o_type ob \<noteq> REDIS_STRING)"
      using found_facts [OF s1(2,3)] by (cases "db_dict (s_db s1 ! d) k") auto
    show "(case db_dict (s_db s1 ! d) k of None \<Rightarrow> Some [] | Some ob \<Rightarrow> object_text ob) = Some (old_text (st k))" if "\<not> wrong_type (st k)"
      using that w found_facts [OF s1(2,3)] by (cases "db_dict (s_db s1 ! d) k") (auto simp: object_text_ok)
    show "obj_ok ob \<and> obj_bytes ob = old_text (st k)" if "\<not> wrong_type (st k)" "db_dict (s_db s1 ! d) k = Some ob" for ob
      using that w found_facts(3) [OF s1(2,3) that(2)] by auto
  qed
qed

lemma append_text_ok: "int (length b) + int (length x) < 2 ^ 30 \<Longrightarrow> append_text b x = Some (b @ x)"
  using sdscatlen_rep [of "sds_of b" b "length x" x]
  by (auto simp: append_text_def sds_rep_iff sds_of_def sds_ok_def sds_str_def)

lemma checkStringLength_ok: "n < 2 ^ 63 \<Longrightarrow> 0 \<le> n \<Longrightarrow> checkStringLength n \<longleftrightarrow> n \<le> 512 * 1024 * 1024"
  by (simp add: checkStringLength_def)

lemma appendCommand_ok:
  assumes a: "asked d i [n, k, v] st s" and sp: "spec_append k v st = Some (r, st')"
  shows "\<exists>s'. appendCommand i s = Some s' \<and> served d i s r st' s'"
proof -
  have av: "argv 1 i s = Some k" "argv 2 i s = Some v" "client_db i s = Some d"
    using askedD(2) [OF a, of 1] askedD(2) [OF a, of 2] askedD(6) [OF a] by simp_all
  obtain s1 where s1: "lookupKeyWrite d k s = Some (s1, db_dict (s_db s1 ! d) k)" "served d i s [] st s1" "found d k st s1"
    and w: "wrong_type (st k) \<longleftrightarrow> (\<exists>ob. db_dict (s_db s1 ! d) k = Some ob \<and> o_type ob \<noteq> REDIS_STRING)"
    and ob: "\<And>ob. \<not> wrong_type (st k) \<Longrightarrow> db_dict (s_db s1 ! d) k = Some ob \<Longrightarrow> obj_ok ob \<and> obj_bytes ob = old_text (st k)"
    using served_string [OF a] by metis
  show ?thesis
  proof (cases "db_dict (s_db s1 ! d) k")
    case None
    then have n: "st k = None" using found_None [OF s1(3)] by simp
    then have r: "storable v" "r = int_line (int (length v))" "st' = st(k \<mapsto> (Inl v, None))"
      using sp by (auto simp: spec_append_def Let_def split: if_splits)
    obtain x where x: "encode_arg v s1 = Some x" "obj_ok x" "obj_bytes x = v" using encode_arg_ok [OF r(1)] by blast
    obtain s2 s3 where "dbAdd d k x s1 = Some s2" "signalModifiedKey d k s2 = Some s3" "served d i s [] (st(k \<mapsto> (Inl v, None))) s3"
      using served_change [OF s1(2,3) x(2)] None n x(3) by auto
    then show ?thesis using None s1(1) av x r served_int [OF served_dirty, of d i s "[]" st' s3 "int (length v)" 1]
      by (simp add: appendCommand_def stringObjectLen_ok)
  next
    case (Some o1)
    have st: "st k \<noteq> None" using found_None [OF s1(3)] Some by simp
    show ?thesis
    proof (cases "wrong_type (st k)")
      case True
      then show ?thesis using sp s1(1) Some av w served_reply [OF s1(2), of shared_wrongtypeerr]
        by (auto simp: appendCommand_def spec_append_def Let_def)
    next
      case False
      let ?b = "old_text (st k) @ v"
      have o1: "obj_ok o1" "obj_bytes o1 = old_text (st k)" "o_type o1 = REDIS_STRING" using ob [OF False Some] w False Some by auto
      have l: "int (length ?b) < 2 ^ 63" using sp False by (auto simp: spec_append_def Let_def split: if_splits)
      show ?thesis
      proof (cases "length ?b > 512 * 1024 * 1024")
        case True
        then show ?thesis using sp s1(1) Some av False st o1 l served_error [OF s1(2), of too_long_error]
          by (auto simp: appendCommand_def spec_append_def Let_def stringObjectLen_ok checkStringLength_ok)
      next
        case short: False
        then have r: "r = int_line (int (length ?b))" "st' = st(k \<mapsto> (Inl ?b, old_expire (st k)))"
          using sp False st l by (auto simp: spec_append_def Let_def split: if_splits)
        have t: "append_text (old_text (st k)) v = Some ?b" using short by (intro append_text_ok) simp
        obtain s2 s3 where s3: "dbOverwrite d k (raw_string ?b) s1 = Some s2" "signalModifiedKey d k s2 = Some s3" "served d i s [] st' s3"
          using served_change [OF s1(2,3) raw_string_ok(1), of ?b] Some r(2) by (auto simp: old_expire_def)
        show ?thesis using s1(1) Some av o1 l short t s3(1,2) r(1) served_int [OF served_dirty [OF s3(3), of 1], of "int (length ?b)"]
          by (simp add: appendCommand_def stringObjectLen_ok checkStringLength_ok object_text_ok)
      qed
    qed
  qed
qed

lemma incr_overflows_iff:
  "LLONG_MIN \<le> v \<Longrightarrow> v \<le> LLONG_MAX \<Longrightarrow> LLONG_MIN \<le> n \<Longrightarrow> n \<le> LLONG_MAX \<Longrightarrow> incr_overflows v n \<longleftrightarrow> \<not> fits_long (v + n)"
  by (auto simp: incr_overflows_def fits_long_def c_limits)

lemma new_integer_ok:
  assumes "LLONG_MIN < n" and "n \<le> LLONG_MAX"
  shows "\<exists>x. createStringObjectFromLongLong True 0 n = Some x \<and>
    (let v = (case x of Own ob \<Rightarrow> ob | SharedInt m \<Rightarrow> createObject 0 REDIS_STRING (PtrLong m)) in obj_ok v \<and> obj_bytes v = dec_repr n)"
  using assms by (auto simp: createStringObjectFromLongLong_def int_object_ok)

lemma incrDecr_ok:
  assumes a: "asked d i (c # k # av) st s" and n: "LLONG_MIN \<le> n" "n \<le> LLONG_MAX" and sp: "spec_incr n k st = Some (r, st')"
  shows "\<exists>s'. incrDecrCommand n i s = Some s' \<and> served d i s r st' s'"
proof -
  have av: "argv 1 i s = Some k" "client_db i s = Some d" using askedD(2) [OF a, of 1] askedD(6) [OF a] by simp_all
  obtain s1 where s1: "lookupKeyWrite d k s = Some (s1, db_dict (s_db s1 ! d) k)" "served d i s [] st s1" "found d k st s1"
    and w: "wrong_type (st k) \<longleftrightarrow> (\<exists>ob. db_dict (s_db s1 ! d) k = Some ob \<and> o_type ob \<noteq> REDIS_STRING)"
    and ob: "\<And>ob. \<not> wrong_type (st k) \<Longrightarrow> db_dict (s_db s1 ! d) k = Some ob \<Longrightarrow> obj_ok ob \<and> obj_bytes ob = old_text (st k)"
    using served_string [OF a] by metis
  have st: "st k = None \<longleftrightarrow> db_dict (s_db s1 ! d) k = None" using found_None [OF s1(3)] .
  show ?thesis
  proof (cases "wrong_type (st k)")
    case True
    then show ?thesis using sp s1(1) av w served_reply [OF s1(2), of shared_wrongtypeerr] by (auto simp: incrDecrCommand_def spec_incr_def)
  next
    case False
    define val where "val = (if st k = None then Some 0 else number (old_text (st k)))"
    have conv: "getLongLongFromValue None (db_dict (s_db s1 ! d) k) s1 = Some (case val of Some m \<Rightarrow> ConvOk m | None \<Rightarrow> ErrNotInteger)"
      using st ob [OF False] servedD(7) [OF s1(2)]
      by (cases "db_dict (s_db s1 ! d) k") (auto simp: val_def getLongLongFromValue_ok getLongLongFromValue_absent converted_def split: option.splits)
    have sp': "(case val of None \<Rightarrow> Some (not_integer, st)
      | Some v \<Rightarrow> if \<not> fits_long (v + n) then Some (err_line (ascii_text ''increment or decrement would overflow''), st)
          else if v + n = LLONG_MIN then None
          else Some (int_line (v + n), st(k \<mapsto> (Inl (dec_repr (v + n)), old_expire (st k))))) = Some (r, st')"
      using sp False by (simp add: spec_incr_def val_def)
    have ty: "\<not> (db_dict (s_db s1 ! d) k \<noteq> None \<and> o_type (the (db_dict (s_db s1 ! d) k)) \<noteq> REDIS_STRING)" using w False by (cases "db_dict (s_db s1 ! d) k") auto
    show ?thesis
    proof (cases val)
      case None
      then show ?thesis using sp' s1(1) av conv ty served_error [OF s1(2), of "ascii_text ''value is not an integer or out of range''"]
        by (auto simp: incrDecrCommand_def not_integer_def conv_error_plain)
    next
      case (Some m)
      have m: "LLONG_MIN \<le> m" "m \<le> LLONG_MAX" using Some number_range by (auto simp: val_def c_limits split: if_splits)
      show ?thesis
      proof (cases "fits_long (m + n)")
        case False
        then show ?thesis
          using sp' s1(1) av conv ty Some incr_overflows_iff [OF m n] served_error [OF s1(2), of "ascii_text ''increment or decrement would overflow''"]
          by (auto simp: incrDecrCommand_def)
      next
        case fits: True
        then have r: "m + n \<noteq> LLONG_MIN" "r = int_line (m + n)" "st' = st(k \<mapsto> (Inl (dec_repr (m + n)), old_expire (st k)))"
          using sp' Some by (auto split: if_splits)
        obtain x where x: "createStringObjectFromLongLong True 0 (m + n) = Some x"
          and xv: "let v = (case x of Own ob \<Rightarrow> ob | SharedInt m \<Rightarrow> createObject 0 REDIS_STRING (PtrLong m)) in obj_ok v \<and> obj_bytes v = dec_repr (m + n)"
          using new_integer_ok [of "m + n"] fits r(1) by (auto simp: fits_long_def)
        define v where "v = (case x of Own ob \<Rightarrow> ob | SharedInt m \<Rightarrow> createObject 0 REDIS_STRING (PtrLong m))"
        have v: "obj_ok v" "obj_bytes v = dec_repr (m + n)" using xv unfolding v_def by (simp_all add: Let_def)
        obtain s2 s3 where s3: "(if db_dict (s_db s1 ! d) k = None then dbAdd d k v s1 else dbOverwrite d k v s1) = Some s2"
          "signalModifiedKey d k s2 = Some s3" "served d i s [] st' s3"
          using served_change [OF s1(2,3) v(1)] r(3) v(2) by (auto simp: old_expire_def)
        have s2: "(if db_dict (s_db s1 ! d) k \<noteq> None then dbOverwrite d k v s1 else dbAdd d k v s1) = Some s2"
          using s3(1) by (auto split: if_splits)
        have "incrDecrCommand n i s = Some (addReply_bytes (int_line (m + n)) i (add_dirty 1 s3))"
          using s1(1) av conv ty Some incr_overflows_iff [OF m n] fits x s2 s3(2) v object_text_ok [OF v(1)]
          unfolding incrDecrCommand_def int_line_def by (cases "db_dict (s_db s1 ! d) k") (auto simp: require_def simp flip: v_def)
        then show ?thesis using r(2) served_reply [OF served_dirty [OF s3(3), of 1], of "int_line (m + n)"] by simp
      qed
    qed
  qed
qed

lemma incr_commands_ok:
  "asked d i [c, k] st s \<Longrightarrow> spec_incr 1 k st = Some (r, st') \<Longrightarrow> \<exists>s'. incrCommand i s = Some s' \<and> served d i s r st' s'"
  "asked d i [c, k] st s \<Longrightarrow> spec_incr (-1) k st = Some (r, st') \<Longrightarrow> \<exists>s'. decrCommand i s = Some s' \<and> served d i s r st' s'"
  by (simp_all add: incrCommand_def decrCommand_def incrDecr_ok c_limits)

lemma incrby_commands_ok:
  assumes a: "asked d i [c, k, b] st s"
  shows "spec_incrby k b st = Some (r, st') \<Longrightarrow> \<exists>s'. incrbyCommand i s = Some s' \<and> served d i s r st' s'"
    "spec_decrby k b st = Some (r, st') \<Longrightarrow> \<exists>s'. decrbyCommand i s = Some s' \<and> served d i s r st' s'"
proof -
  have av: "argv 2 i s = Some b" using askedD(2) [OF a, of 2] by simp
  have conv: "getLongLongFromValue None (Some (raw_string b)) s = Some (converted None b)"
    using getLongLongFromValue_ok [OF askedD(5) [OF a] raw_string_ok(1), of None b] by simp
  note err = served_error [OF askedD(1) [OF a], of "ascii_text ''value is not an integer or out of range''"]
  show "\<exists>s'. incrbyCommand i s = Some s' \<and> served d i s r st' s'" if "spec_incrby k b st = Some (r, st')"
  proof (cases "number b")
    case None
    then show ?thesis using that av conv err by (auto simp: incrbyCommand_def spec_incrby_def converted_def not_integer_def conv_error_plain)
  next
    case (Some m)
    then show ?thesis using that av conv incrDecr_ok [OF a] number_range [of b m] by (auto simp: incrbyCommand_def spec_incrby_def converted_def)
  qed
  show "\<exists>s'. decrbyCommand i s = Some s' \<and> served d i s r st' s'" if "spec_decrby k b st = Some (r, st')"
  proof (cases "number b")
    case None
    then show ?thesis using that av conv err by (auto simp: decrbyCommand_def spec_decrby_def converted_def not_integer_def conv_error_plain)
  next
    case (Some m)
    then have m: "m \<noteq> LLONG_MIN" "spec_incr (- m) k st = Some (r, st')" using that by (auto simp: spec_decrby_def split: if_splits)
    have "LLONG_MIN \<le> - m" "- m \<le> LLONG_MAX" using number_range [OF Some] m(1) by (auto simp: c_limits)
    then show ?thesis using m av conv Some incrDecr_ok [OF a _ _ m(2)] by (auto simp: decrbyCommand_def converted_def require_def)
  qed
qed

section \<open>Several keys\<close>

definition mget_reply :: "(aval \<times> int option) option \<Rightarrow> byte list" where
  "mget_reply x = (if wrong_type x then shared_nullbulk else get_reply x)"

definition spec_mget :: "byte list list \<Rightarrow> astore \<Rightarrow> (byte list \<times> astore) option" where
  "spec_mget ks st = Some (42 # dec_nat (length ks) @ [13, 10] @ concat (map (\<lambda>k. mget_reply (st k)) ks), st)"

fun mset_store :: "byte list list \<Rightarrow> astore \<Rightarrow> astore" where
  "mset_store (k # v # kvs) st = mset_store kvs (st(k \<mapsto> (Inl v, None)))"
| "mset_store kvs st = st"

text \<open>The keys and the values of a list in which they alternate.\<close>

fun every_other :: "'a list \<Rightarrow> 'a list" where
  "every_other (x # y # xs) = x # every_other xs"
| "every_other xs = xs"

definition spec_mset :: "bool \<Rightarrow> byte list list \<Rightarrow> astore \<Rightarrow> (byte list \<times> astore) option" where
  "spec_mset nx kvs st =
     (if odd (length kvs) then Some (err_line (ascii_text ''wrong number of arguments for MSET''), st)
      else if \<not> list_all storable (every_other (tl kvs)) then None
      else if nx \<and> list_ex (\<lambda>k. st k \<noteq> None) (every_other kvs) then Some (shared_czero, st)
      else Some (if nx then shared_cone else shared_ok, mset_store kvs st))"

lemma mget_loop_ok:
  assumes "served d i s0 r st s"
  shows "\<exists>s'. mget_loop d ks i s = Some s' \<and> served d i s0 (r @ concat (map (\<lambda>k. mget_reply (st k)) ks)) st s'"
  using assms
proof (induction ks arbitrary: r s)
  case (Cons k ks)
  obtain s1 where s1: "lookupKeyRead d k s = Some (s1, db_dict (s_db s1 ! d) k)" "served d i s0 r st s1" "found d k st s1"
    using served_lookup [OF Cons.prems] by blast
  define s2 where "s2 = addReply_bytes (mget_reply (st k)) i s1"
  have "(case db_dict (s_db s1 ! d) k of
        None \<Rightarrow> Some (addReply_bytes shared_nullbulk i s1)
      | Some ob \<Rightarrow> if o_type ob \<noteq> REDIS_STRING then Some (addReply_bytes shared_nullbulk i s1)
          else do { b \<leftarrow> object_text ob; Some (reply_bulk b i s1) }) = Some s2"
  proof (cases "db_dict (s_db s1 ! d) k")
    case None
    then show ?thesis using found_facts(1) [OF s1(2,3)] by (simp add: s2_def mget_reply_def)
  next
    case (Some ob)
    then show ?thesis using found_facts(2,3) [OF s1(2,3) Some]
      by (cases "o_type ob = REDIS_STRING") (simp_all add: s2_def mget_reply_def reply_bulk_def object_text_ok)
  qed
  moreover have "served d i s0 (r @ mget_reply (st k)) st s2" unfolding s2_def by (rule served_reply [OF s1(2)])
  ultimately show ?case using Cons.IH [of "r @ mget_reply (st k)" s2] s1(1) by auto
qed simp

lemma mgetCommand_ok:
  assumes a: "asked d i (n # ks) st s" and sp: "spec_mget ks st = Some (r, st')"
  shows "\<exists>s'. mgetCommand i s = Some s' \<and> served d i s r st' s'"
proof -
  have "served d i s ([] @ 42 # dec_nat (length ks) @ [13, 10]) st (reply_multibulklen (length ks) i s)"
    unfolding reply_multibulklen_def by (rule served_reply [OF askedD(1) [OF a]])
  then show ?thesis using mget_loop_ok [of d i s _ st "reply_multibulklen (length ks) i s" ks] askedD(4) [OF a, of 1] askedD(6) [OF a] sp
    by (fastforce simp: mgetCommand_def spec_mget_def)
qed

lemma busy_loop_ok:
  assumes "served d i s0 r st s" and "even (length kvs)"
  shows "\<exists>s' n. busy_loop d kvs b s = Some (s', n) \<and> served d i s0 r st s' \<and> b \<le> n \<and> (n > b \<longleftrightarrow> list_ex (\<lambda>k. st k \<noteq> None) (every_other kvs))"
  using assms
proof (induction d kvs b s rule: busy_loop.induct)
  case (1 d k v kvs b s)
  obtain s1 where s1: "lookupKeyWrite d k s = Some (s1, db_dict (s_db s1 ! d) k)" "served d i s0 r st s1" "found d k st s1"
    using served_lookup [OF 1(2)] by blast
  have f: "st k = None \<longleftrightarrow> db_dict (s_db s1 ! d) k = None" by (rule found_None [OF s1(3)])
  obtain s' n where "busy_loop d kvs (if db_dict (s_db s1 ! d) k \<noteq> None then b + 1 else b) s1 = Some (s', n)" "served d i s0 r st s'"
    "(if db_dict (s_db s1 ! d) k \<noteq> None then b + 1 else b) \<le> n"
    "n > (if db_dict (s_db s1 ! d) k \<noteq> None then b + 1 else b) \<longleftrightarrow> list_ex (\<lambda>k. st k \<noteq> None) (every_other kvs)"
    using 1(1) [of "(s1, db_dict (s_db s1 ! d) k)" s1 "db_dict (s_db s1 ! d) k"] s1(1,2) 1(3) by auto
  then show ?case using s1(1) f by (cases "db_dict (s_db s1 ! d) k = None") auto
qed auto

lemma mset_loop_ok:
  assumes "served d i s0 r st s" and "list_all storable (every_other (tl kvs))" and "even (length kvs)"
  shows "\<exists>s'. mset_loop d kvs s = Some s' \<and> served d i s0 r (mset_store kvs st) s'"
  using assms
proof (induction kvs arbitrary: st s rule: every_other.induct)
  case (1 k v kvs)
  have v: "storable v" "list_all storable (every_other (tl kvs))"
    using 1(3) by (cases kvs; cases "tl kvs"; simp)+
  obtain x where x: "encode_arg v s = Some x" "obj_ok x" "obj_bytes x = v" using encode_arg_ok [OF v(1)] by blast
  obtain s1 where s1: "setKey d k x s = Some s1" "served d i s0 r (st(k \<mapsto> (Inl v, None))) s1"
    using served_setKey [OF 1(2) x(2)] x(3) by blast
  have "even (length kvs)" using 1(4) by simp
  then obtain s2 where "mset_loop d kvs s1 = Some s2" "served d i s0 r (mset_store kvs (st(k \<mapsto> (Inl v, None)))) s2"
    using 1(1) [OF s1(2) v(2)] by blast
  then show ?case using s1(1) x(1) by (simp del: fun_upd_apply)
qed auto

lemma msetGeneric_ok:
  assumes a: "asked d i (n # kvs) st s" and sp: "spec_mset nx kvs st = Some (r, st')"
  shows "\<exists>s'. msetGenericCommand nx i s = Some s' \<and> served d i s r st' s'"
proof -
  note s = askedD(1) [OF a]
  have av: "argc i s = Some (Suc (length kvs))" "args_from 1 i s = Some kvs" "client_db i s = Some d"
    using askedD(3,6) [OF a] askedD(4) [OF a, of 1] by simp_all
  show ?thesis
  proof (cases "odd (length kvs)")
    case True
    then show ?thesis using sp av served_error [OF s, of "ascii_text ''wrong number of arguments for MSET''"]
      by (auto simp: msetGenericCommand_def spec_mset_def)
  next
    case False
    then have ev: "even (length kvs)" "\<not> Suc (length kvs) mod 2 = 0" by (simp, presburger)
    have v: "list_all storable (every_other (tl kvs))" using sp False by (auto simp: spec_mset_def split: if_splits)
    obtain s1 b where s1: "(if nx then busy_loop d kvs 0 s else Some (s, 0)) = Some (s1, b)" "served d i s [] st s1"
      "b > 0 \<longleftrightarrow> nx \<and> list_ex (\<lambda>k. st k \<noteq> None) (every_other kvs)"
      using busy_loop_ok [OF s ev(1), of 0] s by (cases nx) auto
    show ?thesis
    proof (cases "b > 0")
      case True
      then show ?thesis using sp av ev s1 v served_reply [OF s1(2), of shared_czero] by (auto simp: msetGenericCommand_def spec_mset_def)
    next
      case nb: False
      obtain s2 where s2: "mset_loop d kvs s1 = Some s2" "served d i s [] (mset_store kvs st) s2"
        using mset_loop_ok [OF s1(2) v ev(1)] by blast
      show ?thesis using sp av ev s1(1,3) nb v s2(1) served_reply [OF served_dirty [OF s2(2)], where b = "if nx then shared_cone else shared_ok"]
        by (auto simp: msetGenericCommand_def spec_mset_def)
    qed
  qed
qed

section \<open>Bits and ranges\<close>

definition zero_padded :: "byte list \<Rightarrow> nat \<Rightarrow> byte list" where
  "zero_padded b n = b @ replicate (n - length b) 0"

definition bit_of :: "byte list \<Rightarrow> nat \<Rightarrow> bool" where
  "bit_of b n \<longleftrightarrow> n div 8 < length b \<and> bit (b ! (n div 8)) (7 - n mod 8)"

definition with_bit :: "byte list \<Rightarrow> nat \<Rightarrow> bool \<Rightarrow> byte list" where
  "with_bit b n on =
     (let p = zero_padded b (n div 8 + 1);
          x = p ! (n div 8)
      in p[n div 8 := (if on then set_bit (7 - n mod 8) x else unset_bit (7 - n mod 8) x)])"

definition bit_error :: "byte list" where
  "bit_error = err_line (ascii_text ''bit is not an integer or out of range'')"

text \<open>The bit offset in an argument.\<close>

definition bit_offset :: "byte list \<Rightarrow> nat option" where
  "bit_offset a = (case number a of None \<Rightarrow> None | Some n \<Rightarrow> if n < 0 \<or> n \<ge> 2 ^ 32 then None else Some (nat n))"

definition spec_setbit :: "byte list \<Rightarrow> byte list \<Rightarrow> byte list \<Rightarrow> astore \<Rightarrow> (byte list \<times> astore) option" where
  "spec_setbit k a b st =
     (case bit_offset a of
        None \<Rightarrow> Some (err_line bit_offset_error, st)
      | Some n \<Rightarrow>
          if number b \<noteq> Some 0 \<and> number b \<noteq> Some 1 then Some (bit_error, st)
          else if wrong_type (st k) then Some (shared_wrongtypeerr, st)
          else if length (old_text (st k)) \<ge> 2 ^ 30 then None
          else Some (if bit_of (old_text (st k)) n then shared_cone else shared_czero,
                     st(k \<mapsto> (Inl (with_bit (old_text (st k)) n (number b = Some 1)), old_expire (st k)))))"

definition spec_getbit :: "byte list \<Rightarrow> byte list \<Rightarrow> astore \<Rightarrow> (byte list \<times> astore) option" where
  "spec_getbit k a st =
     (case bit_offset a of
        None \<Rightarrow> Some (err_line bit_offset_error, st)
      | Some n \<Rightarrow>
          Some (if wrong_type (st k) then shared_wrongtypeerr
                else if bit_of (old_text (st k)) n then shared_cone else shared_czero, st))"

lemma getBitOffset_ok:
  assumes "\<not> s_erange s"
  shows "getBitOffsetFromArgument a s = Some (case bit_offset a of Some n \<Rightarrow> ConvOk (int n) | None \<Rightarrow> ErrCustom bit_offset_error)"
proof -
  have div: "(n div 8 \<ge> 512 * 1024 * 1024) = (n \<ge> 2 ^ 32)" for n :: int by auto
  show ?thesis
    using getLongLongFromValue_ok [OF assms raw_string_ok(1), of "Some bit_offset_error" a]
    by (auto simp: getBitOffsetFromArgument_def converted_def bit_offset_def div split: option.splits)
qed

lemma bit_mask_and: "(x AND bit_mask n \<noteq> 0) = bit x (7 - n mod 8)"
proof -
  have "x AND bit_mask n = (if bit x (7 - n mod 8) then bit_mask n else 0)"
    by (rule bit_word_eqI) (auto simp: bit_mask_def bit_simps)
  moreover have "bit_mask n \<noteq> 0"
  proof
    assume "bit_mask n = 0"
    then have "bit (bit_mask n) (7 - n mod 8) = bit (0 :: byte) (7 - n mod 8)" by simp
    then show False by (simp add: bit_mask_def bit_simps)
  qed
  ultimately show ?thesis by simp
qed

lemma bit_mask_put:
  "(x AND NOT (bit_mask n)) OR (if on then bit_mask n else 0) = (if on then set_bit (7 - n mod 8) x else unset_bit (7 - n mod 8) x)"
  by (rule bit_word_eqI) (auto simp: bit_mask_def bit_simps)

lemma grow_ok: "length b < 2 ^ 30 \<Longrightarrow> n \<le> 2 ^ 29 \<Longrightarrow> \<exists>q. sdsgrowzero (sds_of b) n = Some q \<and> sds_str q = zero_padded b n"
  using sdsgrowzero_rep [of "sds_of b" b n] by (auto simp: sds_rep_iff sds_of_def sds_ok_def sds_str_def zero_padded_def)

lemma set_bit_at_ok:
  assumes "length b < 2 ^ 30" and "n < 2 ^ 32"
  shows "set_bit_at b n on = Some (with_bit b n on, bit_of b n)"
proof -
  let ?p = "zero_padded b (n div 8 + 1)"
  obtain q where q: "sdsgrowzero (sds_of b) (n div 8 + 1) = Some q" "sds_str q = ?p"
    using grow_ok [OF assms(1), of "n div 8 + 1"] less_mult_imp_div_less [of n "2 ^ 29" 8] assms(2) by auto
  have l: "n div 8 < length ?p" by (simp add: zero_padded_def)
  have "bit (?p ! (n div 8)) (7 - n mod 8) = bit_of b n" by (auto simp: zero_padded_def bit_of_def nth_append)
  then show ?thesis using q l
    by (simp add: set_bit_at_def mem_byte_def mem_write_def bit_mask_and bit_mask_put with_bit_def Let_def upd_conv_take_nth_drop)
qed

lemma setbitCommand_ok:
  assumes a: "asked d i [n, k, x, b] st s" and sp: "spec_setbit k x b st = Some (r, st')"
  shows "\<exists>s'. setbitCommand i s = Some s' \<and> served d i s r st' s'"
proof -
  note s = askedD(1) [OF a]
  have av: "argv 1 i s = Some k" "argv 2 i s = Some x" "argv 3 i s = Some b" "client_db i s = Some d"
    using askedD(2) [OF a, of 1] askedD(2) [OF a, of 2] askedD(2) [OF a, of 3] askedD(6) [OF a] by simp_all
  note off = getBitOffset_ok [OF askedD(5) [OF a], of x]
  let ?e = "ascii_text ''bit is not an integer or out of range''"
  have val: "getLongFromArg (Some ?e) b s = Some (converted (Some ?e) b)" by (rule getLongFromArg_ok [OF askedD(5) [OF a]])
  show ?thesis
  proof (cases "bit_offset x")
    case None
    then show ?thesis using sp av off served_error [OF s, of bit_offset_error] by (auto simp: setbitCommand_def spec_setbit_def conv_error_plain)
  next
    case (Some m)
    have m: "m < 2 ^ 32" using Some by (auto simp: bit_offset_def split: option.splits if_splits)
    show ?thesis
    proof (cases "number b = Some 0 \<or> number b = Some 1")
      case False
      then show ?thesis using sp av off Some val served_error [OF s, of ?e]
        by (auto simp: setbitCommand_def spec_setbit_def bit_error_def conv_error_plain converted_def split: option.splits)
    next
      case True
      then obtain o1 where o1: "number b = Some o1" "o1 = 0 \<or> o1 = 1" by auto
      obtain s1 where s1: "lookupKeyWrite d k s = Some (s1, db_dict (s_db s1 ! d) k)" "served d i s [] st s1" "found d k st s1"
        and w: "wrong_type (st k) \<longleftrightarrow> (\<exists>ob. db_dict (s_db s1 ! d) k = Some ob \<and> o_type ob \<noteq> REDIS_STRING)"
        and tx: "\<not> wrong_type (st k) \<Longrightarrow> (case db_dict (s_db s1 ! d) k of None \<Rightarrow> Some [] | Some ob \<Rightarrow> object_text ob) = Some (old_text (st k))"
        using served_string [OF a] by metis
      show ?thesis
      proof (cases "wrong_type (st k)")
        case True
        then show ?thesis using sp av off Some val o1 s1(1) w served_reply [OF s1(2), of shared_wrongtypeerr]
          by (auto simp: setbitCommand_def spec_setbit_def converted_def)
      next
        case False
        let ?b = "with_bit (old_text (st k)) m (o1 = 1)"
        have l: "length (old_text (st k)) < 2 ^ 30" and r: "r = (if bit_of (old_text (st k)) m then shared_cone else shared_czero)"
          "st' = st(k \<mapsto> (Inl ?b, old_expire (st k)))"
          using sp Some True False o1 by (auto simp: spec_setbit_def split: if_splits)
        obtain s2 s3 where s3: "(if db_dict (s_db s1 ! d) k = None then dbAdd d k (raw_string ?b) s1 else dbOverwrite d k (raw_string ?b) s1) = Some s2"
          "signalModifiedKey d k s2 = Some s3" "served d i s [] st' s3"
          using served_change [OF s1(2,3) raw_string_ok(1), of ?b] r(2) by (auto simp: old_expire_def)
        have ty: "\<not> (db_dict (s_db s1 ! d) k \<noteq> None \<and> o_type (the (db_dict (s_db s1 ! d) k)) \<noteq> REDIS_STRING)" using w False by (cases "db_dict (s_db s1 ! d) k") auto
        have "setbitCommand i s = Some (addReply_bytes r i (add_dirty 1 s3))"
          using av off Some val o1 s1(1) ty tx [OF False] set_bit_at_ok [OF l m] s3(1,2) r(1)
          by (auto simp: setbitCommand_def converted_def)
        then show ?thesis using served_reply [OF served_dirty [OF s3(3), of 1], of r] by simp
      qed
    qed
  qed
qed

lemma getbitCommand_ok:
  assumes a: "asked d i [n, k, x] st s" and sp: "spec_getbit k x st = Some (r, st')"
  shows "\<exists>s'. getbitCommand i s = Some s' \<and> served d i s r st' s'"
proof -
  have av: "argv 1 i s = Some k" "argv 2 i s = Some x" using askedD(2) [OF a, of 1] askedD(2) [OF a, of 2] by simp_all
  note off = getBitOffset_ok [OF askedD(5) [OF a], of x]
  show ?thesis
  proof (cases "bit_offset x")
    case None
    then show ?thesis using sp av off served_error [OF askedD(1) [OF a], of bit_offset_error]
      by (auto simp: getbitCommand_def spec_getbit_def conv_error_plain)
  next
    case (Some m)
    have st': "st' = st" "r = (if wrong_type (st k) then shared_wrongtypeerr else if bit_of (old_text (st k)) m then shared_cone else shared_czero)"
      using sp Some by (auto simp: spec_getbit_def)
    obtain s1 where s1: "lookupKeyReadOrReply i k shared_czero s = Some (s1, db_dict (s_db s1 ! d) k)"
      "served d i s (if st k = None then [] @ shared_czero else []) st s1" "found d k st s1"
      using served_lookupOrReply [OF askedD(1) [OF a]] by blast
    show ?thesis
    proof (cases "db_dict (s_db s1 ! d) k")
      case None
      then have "st k = None" using found_facts(1) [OF s1(2,3)] by simp
      then show ?thesis using None s1 av off Some st' by (simp add: getbitCommand_def bit_of_def)
    next
      case ob: (Some ob)
      note f = found_facts(2,3) [OF s1(2,3) ob]
      show ?thesis
      proof (cases "o_type ob = REDIS_STRING")
        case True
        have sv: "served d i s [] st s1" using s1(2) f(2) True by simp
        show ?thesis using s1(1) av off Some ob True f(2) st' served_reply [OF sv, of r]
          by (auto simp: getbitCommand_def object_text_ok mem_byte_def bit_mask_and bit_of_def split: if_splits)
      next
        case False
        have sv: "served d i s [] st s1" using s1(2) f(1) False by simp
        show ?thesis using s1(1) av off Some ob False f(1) st' served_reply [OF sv, of shared_wrongtypeerr] by (simp add: getbitCommand_def)
      qed
    qed
  qed
qed

text \<open>Overwriting from an offset on, after padding with zeros; and the clipped inclusive range.\<close>

definition overwritten :: "byte list \<Rightarrow> nat \<Rightarrow> byte list \<Rightarrow> byte list" where
  "overwritten b n v = (let p = zero_padded b (n + length v) in take n p @ v @ drop (n + length v) p)"

definition spec_setrange :: "byte list \<Rightarrow> byte list \<Rightarrow> byte list \<Rightarrow> astore \<Rightarrow> (byte list \<times> astore) option" where
  "spec_setrange k a v st =
     (case number a of
        None \<Rightarrow> Some (not_integer, st)
      | Some n \<Rightarrow>
          if n < 0 then Some (err_line (ascii_text ''offset is out of range''), st)
          else if wrong_type (st k) then Some (shared_wrongtypeerr, st)
          else if v = [] then Some (int_line (int (length (old_text (st k)))), st)
          else if n + int (length v) \<ge> 2 ^ 63 \<or> length (old_text (st k)) \<ge> 2 ^ 30 then None
          else if n + int (length v) > 512 * 1024 * 1024 then Some (err_line too_long_error, st)
          else let b = overwritten (old_text (st k)) (nat n) v
               in Some (int_line (int (length b)), st(k \<mapsto> (Inl b, old_expire (st k)))))"

definition sub_range :: "byte list \<Rightarrow> int \<Rightarrow> int \<Rightarrow> byte list" where
  "sub_range b f e =
     (let n = int (length b);
          f = max 0 (if f < 0 then n + f else f);
          e = min (n - 1) (max 0 (if e < 0 then n + e else e))
      in if f > e then [] else take (nat (e - f + 1)) (drop (nat f) b))"

text \<open>An end behind the string that is not seen to be there, as only its low 32 bits are compared
  with the length.\<close>

definition unclipped :: "int \<Rightarrow> nat \<Rightarrow> bool" where
  "unclipped e n \<longleftrightarrow> 2 ^ 32 \<le> e \<and> to_u32 e < int n"

definition spec_getrange :: "byte list \<Rightarrow> byte list \<Rightarrow> byte list \<Rightarrow> astore \<Rightarrow> (byte list \<times> astore) option" where
  "spec_getrange k a b st =
     (case (number a, number b) of
        (Some f, Some e) \<Rightarrow>
          if wrong_type (st k) then Some (shared_wrongtypeerr, st)
          else if unclipped e (length (old_text (st k))) \<or> length (old_text (st k)) \<ge> 2 ^ 32 then None
          else Some (bulk_bytes (sub_range (old_text (st k)) f e), st)
      | _ \<Rightarrow> Some (not_integer, st))"

lemma set_range_at_ok:
  assumes "length b < 2 ^ 30" and "0 \<le> n" and "n + int (length v) \<le> 2 ^ 29"
  shows "set_range_at b n v = Some (overwritten b (nat n) v)"
proof -
  have "int (nat n + length v) \<le> int (2 ^ 29)" using assms(2,3) by simp
  then have le: "nat n + length v \<le> 2 ^ 29" by (simp only: of_nat_le_iff)
  have l: "nat (to_u64 (n + int (length v))) = nat n + length v" using assms by simp
  obtain q where q: "sdsgrowzero (sds_of b) (nat n + length v) = Some q" "sds_str q = zero_padded b (nat n + length v)"
    using grow_ok [OF assms(1) le] by blast
  then show ?thesis by (simp add: set_range_at_def l mem_write_def overwritten_def zero_padded_def)
qed

lemma setrangeCommand_ok:
  assumes a: "asked d i [n, k, x, v] st s" and sp: "spec_setrange k x v st = Some (r, st')"
  shows "\<exists>s'. setrangeCommand i s = Some s' \<and> served d i s r st' s'"
proof -
  note s = askedD(1) [OF a]
  have av: "argv 1 i s = Some k" "argv 2 i s = Some x" "argv 3 i s = Some v" "client_db i s = Some d"
    using askedD(2) [OF a, of 1] askedD(2) [OF a, of 2] askedD(2) [OF a, of 3] askedD(6) [OF a] by simp_all
  have conv: "getLongFromArg None x s = Some (converted None x)" by (rule getLongFromArg_ok [OF askedD(5) [OF a]])
  show ?thesis
  proof (cases "number x")
    case None
    then show ?thesis using sp av conv served_error [OF s, of "ascii_text ''value is not an integer or out of range''"]
      by (auto simp: setrangeCommand_def spec_setrange_def converted_def not_integer_def conv_error_plain)
  next
    case (Some m)
    show ?thesis
    proof (cases "m < 0")
      case True
      then show ?thesis using sp av conv Some served_error [OF s, of "ascii_text ''offset is out of range''"]
        by (auto simp: setrangeCommand_def spec_setrange_def converted_def)
    next
      case pos: False
      obtain s1 where s1: "lookupKeyWrite d k s = Some (s1, db_dict (s_db s1 ! d) k)" "served d i s [] st s1" "found d k st s1"
        and w: "wrong_type (st k) \<longleftrightarrow> (\<exists>ob. db_dict (s_db s1 ! d) k = Some ob \<and> o_type ob \<noteq> REDIS_STRING)"
        and tx: "\<not> wrong_type (st k) \<Longrightarrow> (case db_dict (s_db s1 ! d) k of None \<Rightarrow> Some [] | Some ob \<Rightarrow> object_text ob) = Some (old_text (st k))"
        and ob: "\<And>ob. \<not> wrong_type (st k) \<Longrightarrow> db_dict (s_db s1 ! d) k = Some ob \<Longrightarrow> obj_ok ob \<and> obj_bytes ob = old_text (st k)"
        using served_string [OF a] by metis
      show ?thesis
      proof (cases "wrong_type (st k)")
        case True
        then show ?thesis using sp av conv Some pos s1(1) w served_reply [OF s1(2), of shared_wrongtypeerr]
          by (auto simp: setrangeCommand_def spec_setrange_def converted_def)
      next
        case str: False
        have ty: "\<not> (db_dict (s_db s1 ! d) k \<noteq> None \<and> o_type (the (db_dict (s_db s1 ! d) k)) \<noteq> REDIS_STRING)"
          using w str by (cases "db_dict (s_db s1 ! d) k") auto
        show ?thesis
        proof (cases "v = []")
          case True
          have r: "st' = st" "r = int_line (int (length (old_text (st k))))" using sp Some pos str True by (auto simp: spec_setrange_def)
          show ?thesis
          proof (cases "db_dict (s_db s1 ! d) k")
            case None
            then have "old_text (st k) = []" using found_None [OF s1(3)] by simp
            then show ?thesis using None av conv Some pos s1(1) True r served_reply [OF s1(2), of shared_czero]
              by (simp add: setrangeCommand_def converted_def int_line_0)
          next
            case o1: (Some o1)
            then show ?thesis using av conv Some pos s1(1) True r ty ob [OF str o1] served_int [OF s1(2), of "int (length (old_text (st k)))"]
              by (auto simp: setrangeCommand_def converted_def stringObjectLen_ok)
          qed
        next
          case ne: False
          have l: "m + int (length v) < 2 ^ 63" "length (old_text (st k)) < 2 ^ 30"
            using sp Some pos str ne by (auto simp: spec_setrange_def split: if_splits)
          have chk: "checkStringLength (to_u64 (m + int (length v))) \<longleftrightarrow> m + int (length v) \<le> 512 * 1024 * 1024"
            using l pos by (simp add: checkStringLength_ok)
          show ?thesis
          proof (cases "m + int (length v) > 512 * 1024 * 1024")
            case True
            then show ?thesis using sp av conv Some pos s1(1) ty ne str chk l served_error [OF s1(2), of too_long_error]
              by (auto simp: setrangeCommand_def spec_setrange_def converted_def)
          next
            case short: False
            let ?b = "overwritten (old_text (st k)) (nat m) v"
            have r: "r = int_line (int (length ?b))" "st' = st(k \<mapsto> (Inl ?b, old_expire (st k)))"
              using sp Some pos str ne l short by (auto simp: spec_setrange_def Let_def)
            have set: "set_range_at (old_text (st k)) m v = Some ?b" using set_range_at_ok [OF l(2), of m v] pos short by simp
            obtain s2 s3 where s3: "(if db_dict (s_db s1 ! d) k = None then dbAdd d k (raw_string ?b) s1 else dbOverwrite d k (raw_string ?b) s1) = Some s2"
              "signalModifiedKey d k s2 = Some s3" "served d i s [] st' s3"
              using served_change [OF s1(2,3) raw_string_ok(1), of ?b] r(2) by (auto simp: old_expire_def)
            have "setrangeCommand i s = Some (reply_longlong (int (length ?b)) i (add_dirty 1 s3))"
              using av conv Some pos s1(1) ty ne tx [OF str] set s3(1,2) chk short
              by (cases "db_dict (s_db s1 ! d) k") (auto simp: setrangeCommand_def converted_def)
            then show ?thesis using served_int [OF served_dirty [OF s3(3), of 1], of "int (length ?b)"] r(1) by simp
          qed
        qed
      qed
    qed
  qed
qed

lemma range_indices_ok:
  assumes "\<not> unclipped e (length b)" and "length b < 2 ^ 32"
  shows "(case range_indices f e (int (length b)) of (f', e') \<Rightarrow>
      if f' > e' then Some [] else mem_read (b @ [0]) (nat f') (nat (e' - f' + 1))) = Some (sub_range b f e)"
proof -
  define n where "n = int (length b)"
  define f' where "f' = max 0 (if f < 0 then n + f else f)"
  define e1 where "e1 = max 0 (if e < 0 then n + e else e)"
  have n: "0 \<le> n" "n < 2 ^ 32" using assms(2) by (simp_all add: n_def)
  have e1: "0 \<le> e1" by (simp add: e1_def)
  have u: "to_u32 e1 \<ge> n \<longleftrightarrow> e1 \<ge> n"
  proof (cases "e1 < 2 ^ 32")
    case True
    then show ?thesis using e1 by simp
  next
    case False
    then have "e1 = e" "2 ^ 32 \<le> e" using n by (auto simp: e1_def max_def split: if_splits)
    then show ?thesis using assms(1) n False by (simp add: unclipped_def n_def)
  qed
  have ri: "range_indices f e n = (f', if e1 \<ge> n then n - 1 else e1)"
    using u unfolding f'_def e1_def by (auto simp: range_indices_def Let_def max_def)
  define e' where "e' = (if e1 \<ge> n then n - 1 else e1)"
  have mn: "min (n - 1) e1 = e'" by (auto simp: e'_def)
  have sub: "sub_range b f e = (if f' > e' then [] else take (nat (e' - f' + 1)) (drop (nat f') b))"
    unfolding sub_range_def Let_def n_def [symmetric] f'_def [symmetric] e1_def [symmetric] mn ..
  have "mem_read (b @ [0]) (nat f') (nat (e' - f' + 1)) = Some (take (nat (e' - f' + 1)) (drop (nat f') b))" if "f' \<le> e'"
  proof -
    have "0 \<le> f'" "e' < n" using e1 by (auto simp: f'_def e'_def)
    then have "nat f' + nat (e' - f' + 1) \<le> length b" using that by (simp add: n_def)
    then show ?thesis by (simp add: mem_read_def)
  qed
  then show ?thesis unfolding sub ri n_def [symmetric] e'_def [symmetric] by simp
qed

text \<open>In the case left open the code reads behind the block of the string.\<close>

lemma unclipped_overread:
  assumes "unclipped e (length b)" and "0 \<le> f" and "f \<le> e" and "length b < 2 ^ 31"
  shows "range_indices f e (int (length b)) = (f, e) \<and> mem_read (b @ [0]) (nat f) (nat (e - f + 1)) = None"
proof -
  have e: "2 ^ 32 \<le> e" "to_u32 e < int (length b)" using assms(1) by (simp_all add: unclipped_def)
  then have "range_indices f e (int (length b)) = (f, e)" using assms(2) by (simp add: range_indices_def Let_def)
  moreover have "length (b @ [0]) < nat f + nat (e - f + 1)" using e(1) assms(2-4) by simp
  ultimately show ?thesis by (simp add: mem_read_def)
qed

lemma bulk_empty: "bulk_bytes [] = shared_emptybulk"
  by (simp add: bulk_bytes_def shared_emptybulk_def reply_line_def dec_nat.simps digit_char_def ascii_text_def)

lemma getrangeCommand_ok:
  assumes a: "asked d i [n, k, x, y] st s" and sp: "spec_getrange k x y st = Some (r, st')"
  shows "\<exists>s'. getrangeCommand i s = Some s' \<and> served d i s r st' s'"
proof -
  note s = askedD(1) [OF a]
  have av: "argv 1 i s = Some k" "argv 2 i s = Some x" "argv 3 i s = Some y"
    using askedD(2) [OF a, of 1] askedD(2) [OF a, of 2] askedD(2) [OF a, of 3] by simp_all
  have conv: "getLongFromArg None x s = Some (converted None x)" "getLongFromArg None y s = Some (converted None y)"
    by (rule getLongFromArg_ok [OF askedD(5) [OF a]])+
  show ?thesis
  proof (cases "number x = None \<or> number y = None")
    case True
    then show ?thesis using sp av conv served_error [OF s, of "ascii_text ''value is not an integer or out of range''"]
      by (auto simp: getrangeCommand_def spec_getrange_def converted_def not_integer_def conv_error_plain split: option.splits)
  next
    case False
    then obtain f e where fe: "number x = Some f" "number y = Some e" by auto
    obtain s1 where s1: "lookupKeyReadOrReply i k shared_emptybulk s = Some (s1, db_dict (s_db s1 ! d) k)"
      "served d i s (if st k = None then [] @ shared_emptybulk else []) st s1" "found d k st s1"
      using served_lookupOrReply [OF s] by blast
    show ?thesis
    proof (cases "db_dict (s_db s1 ! d) k")
      case None
      then have n: "st k = None" using found_facts(1) [OF s1(2,3)] by simp
      have "r = shared_emptybulk" "st' = st" using sp fe n by (auto simp: spec_getrange_def sub_range_def bulk_empty Let_def split: if_splits)
      then show ?thesis using None s1 av conv fe n by (simp add: getrangeCommand_def converted_def)
    next
      case (Some ob)
      note f = found_facts(2,3) [OF s1(2,3) Some]
      show ?thesis
      proof (cases "o_type ob = REDIS_STRING")
        case False
        have sv: "served d i s [] st s1" using s1(2) f(1) False by simp
        show ?thesis using s1(1) av conv fe Some False f(1) sp served_reply [OF sv, of shared_wrongtypeerr]
          by (auto simp: getrangeCommand_def converted_def spec_getrange_def)
      next
        case True
        have sv: "served d i s [] st s1" using s1(2) f(2) True by simp
        let ?b = "obj_bytes ob"
        have l: "\<not> unclipped e (length ?b)" "length ?b < 2 ^ 32" "r = bulk_bytes (sub_range ?b f e)" "st' = st"
          using sp fe f(2) True by (auto simp: spec_getrange_def split: if_splits)
        obtain f' e' where ri: "range_indices f e (int (length ?b)) = (f', e')" by fastforce
        have rd: "(if f' > e' then Some [] else mem_read (?b @ [0]) (nat f') (nat (e' - f' + 1))) = Some (sub_range ?b f e)"
          using range_indices_ok [OF l(1,2), of f] ri by simp
        show ?thesis
        proof (cases "f' > e'")
          case True
          then show ?thesis using s1(1) av conv fe Some f(2) \<open>o_type ob = REDIS_STRING\<close> l(3,4) ri rd served_reply [OF sv, of shared_emptybulk]
            by (simp add: getrangeCommand_def converted_def object_text_ok bulk_empty)
        next
          case False
          then show ?thesis using s1(1) av conv fe Some f(2) \<open>o_type ob = REDIS_STRING\<close> l(3,4) ri rd served_bulk [OF sv, of "sub_range ?b f e"]
            by (simp add: getrangeCommand_def converted_def object_text_ok)
        qed
      qed
    qed
  qed
qed

end
