(* ===== verification/StringSpec.thy ===== *)
theory StringSpec
  imports StringOps
begin

text \<open>
  The string commands, and the commands on keys and expires that fit it, refine the abstract store; DEL,
  PERSIST and EXPIRE do so on keys whose expires have not passed. And the requests that leave it.
\<close>

section \<open>Commands on keys of any type\<close>








section \<open>Deletion and expires\<close>


















section \<open>The refinement\<close>






lemma demo_master: "w = None \<or> w = Some 2000 \<Longrightarrow> master (demo_server av w)"
  by (auto simp: master_def demo_server_def db_ok_def less_Suc_eq nth_Cons split: nat.splits if_splits)



section \<open>Where the commands leave the specification\<close>

lemma getrange_reads_past_end:
  assumes a: "asked d i [n, k, x, y] st s" and "number x = Some f" and "number y = Some e" and "st k = Some (Inl b, w)"
    and "unclipped e (length b)" and "0 \<le> f" and "f \<le> e" and "length b < 2 ^ 31"
  shows "getrangeCommand i s = None"
proof -
  note s = askedD(1) [OF a]
  have av: "argv 1 i s = Some k" "argv 2 i s = Some x" "argv 3 i s = Some y"
    using askedD(2) [OF a, of 1] askedD(2) [OF a, of 2] askedD(2) [OF a, of 3] by simp_all
  have conv: "getLongFromArg None x s = Some (converted None x)" "getLongFromArg None y s = Some (converted None y)"
    by (rule getLongFromArg_ok [OF askedD(5) [OF a]])+
  obtain s1 where s1: "lookupKeyReadOrReply i k shared_emptybulk s = Some (s1, db_dict (s_db s1 ! d) k)"
    "served d i s (if st k = None then [] @ shared_emptybulk else []) st s1" "found d k st s1"
    using served_lookupOrReply [OF s] by blast
  obtain ob where ob: "db_dict (s_db s1 ! d) k = Some ob" using found_None [OF s1(3)] assms(4) by auto
  then have "abs_val ob = Inl b" using s1(3) assms(4) by (simp add: found_def)
  then have ty: "o_type ob = REDIS_STRING" "obj_bytes ob = b" by (auto simp: abs_val_def split: if_splits)
  have "obj_ok ob" using found_facts(3) [OF s1(2,3) ob ty(1)] by simp
  then have tx: "object_text ob = Some b" using object_text_ok ty(2) by simp
  show ?thesis
    using av conv assms(2,3,7) s1(1) ob ty(1) tx unclipped_overread [OF assms(5-8)]
    by (simp add: getrangeCommand_def converted_def)
qed

text \<open>C7: SETRANGE with an offset so large that the sum with the length of the value is not a
  \<^verbatim>\<open>long long\<close> passes the test of the maximal size, and has no defined result.\<close>

theorem setrange_size_test_overflows:
  assumes "master s" and "s_clients s i = Some c" and "REDIS_CLOSE_AFTER_REPLY \<notin> k_flags c" and "k_db c < length (s_db s)"
    and "k_argv c = [n, k, a, v]" and "number a = Some m" and "0 \<le> m" and "m + int (length v) \<ge> 2 ^ 63" and "length v < 2 ^ 30"
    and "live (k_db c) s k = None"
  shows "checkStringLength (to_u64 (m + int (length v))) \<and> setrangeCommand i s = None"
proof -
  have a: "asked (k_db c) i [n, k, a, v] (live (k_db c) s) s" using served_start [OF assms(1-4)] assms(2,5) by (simp add: asked_def)
  have av: "argv 1 i s = Some k" "argv 2 i s = Some a" "argv 3 i s = Some v" "client_db i s = Some (k_db c)"
    using askedD(2) [OF a, of 1] askedD(2) [OF a, of 2] askedD(2) [OF a, of 3] askedD(6) [OF a] by simp_all
  have conv: "getLongFromArg None a s = Some (ConvOk m)" using getLongFromArg_ok [OF askedD(5) [OF a], of None a] assms(6) by (simp add: converted_def)
  have m: "m \<le> LLONG_MAX" using number_range [OF assms(6)] by simp
  then have ne: "v \<noteq> []" using assms(8) by (auto simp: c_limits)
  have u: "to_u64 (m + int (length v)) = m + int (length v)" using assms(7,9) m by (simp add: c_limits)
  have "(m + int (length v) + 2 ^ 63 - 2 ^ 64) mod 2 ^ 64 = m + int (length v) + 2 ^ 63 - 2 ^ 64"
    by (rule mod_pos_pos_trivial) (use assms(8,9) m in \<open>simp_all add: c_limits\<close>)
  then have wrap: "(m + int (length v) + 2 ^ 63) mod 2 ^ 64 = m + int (length v) + 2 ^ 63 - 2 ^ 64"
    by (metis minus_mod_self2)
  have chk: "checkStringLength (m + int (length v))"
    using assms(9) m wrap by (simp add: checkStringLength_def to_s64_def c_limits)
  obtain s1 where s1: "lookupKeyWrite (k_db c) k s = Some (s1, db_dict (s_db s1 ! k_db c) k)" "served (k_db c) i s [] (live (k_db c) s) s1"
    "found (k_db c) k (live (k_db c) s) s1" using served_lookup [OF askedD(1) [OF a]] by blast
  have none: "db_dict (s_db s1 ! k_db c) k = None" using found_None [OF s1(3)] assms(10) by simp
  have big: "2 ^ 63 \<le> nat (m + int (length v))" using assms(8) by (simp add: le_nat_iff)
  have "sdsgrowzero (sds_of []) (nat (m + int (length v))) = None"
    using big by (simp add: sdsgrowzero_def sds_of_def sdsMakeRoomFor_def fits_int_def SDS_MAX_PREALLOC_def Let_def require_def)
  then have "set_range_at [] m v = None" by (simp add: set_range_at_def u)
  then show ?thesis using av conv assms(7) s1(1) none ne chk u by (simp add: setrangeCommand_def)
qed

text \<open>C8: A key whose expire has passed, but which no command has looked up since, is made live again, with its
  old value, by PERSIST, as PERSIST does not test whether the key has expired.\<close>

theorem persist_revives_expired:
  assumes "master s" and "s_clients s i = Some c" and "k_db c < length (s_db s)" and "k_argv c = [n, k]"
    and "db_dict (s_db s ! k_db c) k = Some v" and "db_expires (s_db s ! k_db c) k = Some w" and "w < s_time s"
  shows "live (k_db c) s k = None \<and>
    (\<exists>s'. persistCommand i s = Some s' \<and> live (k_db c) s' k = Some (abs_val v, None))"
proof -
  have av: "argv 1 i s = Some k" "client_db i s = Some (k_db c)" using assms by (simp_all add: argv_def client_db_def require_def)
  have rm: "removeExpire (k_db c) k s = Some (put (k_db c) k (Some (v, None)) s, True)"
    using removeExpire_put [OF assms(3,5)] assms(6) by simp
  have "live (k_db c) (add_dirty 1 (addReply_bytes shared_cone i (put (k_db c) k (Some (v, None)) s))) k = Some (abs_val v, None)"
    using assms(3) content_put [OF assms(3), of k "Some (v, None)" "k_db c" k]
    by (simp add: live_def entry_def add_dirty_def addReply_bytes_def content_def)
  moreover have "live (k_db c) s k = None" using assms(5-7) by (simp add: live_def content_def entry_def)
  ultimately show ?thesis using av rm assms(5) by (simp add: persistCommand_def dbExists_def)
qed

lemma persist_revives_expired_witness:
  "\<exists>s'. live 0 ((demo_server [[112], [107]] (Some 2000))\<lparr>s_time := 3000\<rparr>) [107] = None \<and>
     persistCommand 0 ((demo_server [[112], [107]] (Some 2000))\<lparr>s_time := 3000\<rparr>) = Some s' \<and>
     live 0 s' [107] = Some (Inl [118], None)"
proof -
  let ?s = "(demo_server [[112], [107]] (Some 2000))\<lparr>s_time := 3000\<rparr>"
  have "master ?s" using demo_master [of "Some 2000" "[[112], [107]]"] by (simp add: master_def)
  then show ?thesis
    using persist_revives_expired [of ?s 0 "new_client\<lparr>k_argv := [[112], [107]]\<rparr>" "[112]" "[107]" "raw_string [118]" 2000]
    by (auto simp: demo_server_def new_client_def)
qed

lemma setrange_size_test_overflows_witness:
  "checkStringLength (to_u64 (LLONG_MAX + int (length [120 :: byte]))) \<and>
     setrangeCommand 0 (demo_server [[115], [106], dec_repr LLONG_MAX, [120]] None) = None"
proof -
  have "number (dec_repr LLONG_MAX) = Some LLONG_MAX" by (rule number_dec_repr) (simp_all add: c_limits)
  then show ?thesis
    by (intro setrange_size_test_overflows [of _ _ "new_client\<lparr>k_argv := [[115], [106], dec_repr LLONG_MAX, [120]]\<rparr>" "[115]" "[106]"])
      (simp_all add: demo_master, simp_all add: demo_server_def new_client_def c_limits live_def content_def entry_def)
qed

end
