(* ===== verification/Typed.thy ===== *)
theory Typed
  imports ServerRun
begin

text \<open>
  A type for the state of the server: only keys have expires, an integer-encoded value is a
  \<^verbatim>\<open>long\<close>, and every client is on a data base. Commands keep it, so that the assertions of the key
  space about expires never fail.
\<close>

section \<open>Typed states\<close>

definition value_ok :: "robj \<Rightarrow> bool" where
  "value_ok v \<longleftrightarrow> (case o_ptr v of PtrLong n \<Rightarrow> fits_long n | PtrSds b \<Rightarrow> True)"

definition typed_db :: "redisDb \<Rightarrow> bool" where
  "typed_db db \<longleftrightarrow> (\<forall>k. db_dict db k = None \<longrightarrow> db_expires db k = None) \<and> (\<forall>k v. db_dict db k = Some v \<longrightarrow> value_ok v)"

definition typed :: "redisServer \<Rightarrow> bool" where
  "typed s \<longleftrightarrow> s_db s \<noteq> [] \<and> (\<forall>d < length (s_db s). typed_db (s_db s ! d)) \<and>
     (\<forall>i c. s_clients s i = Some c \<longrightarrow> k_db c < length (s_db s))"

named_theorems typed_dests \<open>operations that keep a state typed\<close>

lemma typed_upd_db:
  assumes "typed s" and "d < length (s_db s) \<Longrightarrow> typed_db (s_db s ! d) \<Longrightarrow> typed_db (f (s_db s ! d))"
  shows "typed (upd_db d f s)"
proof -
  have "typed_db (s_db (upd_db d f s) ! e)" if "e < length (s_db s)" for e
    using assms that by (cases "e = d") (auto simp: typed_def)
  moreover have "s_db (upd_db d f s) \<noteq> []" using assms(1) by (simp add: typed_def upd_db_def)
  ultimately show ?thesis using assms(1) by (simp add: typed_def)
qed

lemma typed_upd_client: "typed s \<Longrightarrow> (\<And>c. s_clients s i = Some c \<Longrightarrow> k_db (f c) = k_db c) \<Longrightarrow> typed (upd_client i f s)"
  by (auto simp: typed_def)

lemma typed_same: "typed s \<Longrightarrow> s_db s' = s_db s \<Longrightarrow> s_clients s' = s_clients s \<Longrightarrow> typed s'"
  by (simp add: typed_def)

lemma typed_steps [simp]:
  "typed s \<Longrightarrow> typed (addReply_bytes b i s)" "typed s \<Longrightarrow> typed (add_dirty n s)" "typed s \<Longrightarrow> typed (add_feed on f s)"
  "typed s \<Longrightarrow> typed (propagateExpire d k s)" "typed s \<Longrightarrow> typed (s\<lparr>s_commands := cmds\<rparr>)"
  by (auto simp: addReply_bytes_def add_dirty_def add_feed_def propagateExpire_def Let_def intro: typed_upd_client elim: typed_same)

lemma typed_replies [simp]:
  "typed s \<Longrightarrow> typed (reply_error m i s)" "typed s \<Longrightarrow> typed (reply_longlong n i s)" "typed s \<Longrightarrow> typed (reply_bulk b i s)"
  "typed s \<Longrightarrow> typed (reply_multibulklen l i s)"
  by (simp_all add: reply_error_def reply_longlong_def reply_bulk_def reply_multibulklen_def)

lemma typed_clients [simp]:
  "typed s \<Longrightarrow> typed (upd_client i (\<lambda>c. c\<lparr>k_argv := av, k_cmd := cmd\<rparr>) s)" "typed s \<Longrightarrow> typed (upd_client i (\<lambda>c. c\<lparr>k_cmd := cmd\<rparr>) s)"
  by (auto intro: typed_upd_client)

lemma typed_fold_mark: "typed s \<Longrightarrow> typed (fold (\<lambda>i. upd_client i mark_dirty) l s)"
  by (induction l arbitrary: s) (simp_all add: typed_upd_client mark_dirty_def)

lemma typed_signal [typed_dests]: "signalModifiedKey d k s = Some s' \<Longrightarrow> typed s \<Longrightarrow> typed s'"
  by (auto simp: signalModifiedKey_def touchWatchedKey_def typed_fold_mark elim!: bindE split: option.splits)

lemma typed_dbAdd: "dbAdd d k v s = Some s' \<Longrightarrow> typed s \<Longrightarrow> value_ok v \<Longrightarrow> typed s'"
  by (auto simp: dbAdd_def typed_db_def elim!: bindE intro!: typed_upd_db)

lemma typed_dbOverwrite: "dbOverwrite d k v s = Some s' \<Longrightarrow> typed s \<Longrightarrow> value_ok v \<Longrightarrow> typed s'"
  by (auto simp: dbOverwrite_def typed_db_def elim!: bindE intro!: typed_upd_db)

lemma typed_dbDelete [simp]: "typed s \<Longrightarrow> typed (fst (dbDelete d k s))"
  by (auto simp: dbDelete_def typed_db_def intro!: typed_upd_db)

lemma typed_dbDelete_pair [typed_dests]: "dbDelete d k s = (s', b) \<Longrightarrow> typed s \<Longrightarrow> typed s'"
  using typed_dbDelete [of s d k] by simp

lemma typed_removeExpire [typed_dests]: "removeExpire d k s = Some (s', b) \<Longrightarrow> typed s \<Longrightarrow> typed s'"
  by (auto simp: removeExpire_def typed_db_def elim!: bindE intro!: typed_upd_db)

lemma typed_setExpire [typed_dests]: "setExpire d k w s = Some s' \<Longrightarrow> typed s \<Longrightarrow> typed s'"
  by (auto simp: setExpire_def typed_db_def elim!: bindE intro!: typed_upd_db)

lemma typed_expireIfNeeded [typed_dests]: "expireIfNeeded d k s = Some (s', b) \<Longrightarrow> typed s \<Longrightarrow> typed s'"
  by (auto simp: expireIfNeeded_def elim!: bindE split: if_split_asm dest!: typed_dbDelete_pair)

lemma typed_lookup [typed_dests]:
  "lookupKeyRead d k s = Some (s', ob) \<Longrightarrow> typed s \<Longrightarrow> typed s'" "lookupKeyWrite d k s = Some (s', ob) \<Longrightarrow> typed s \<Longrightarrow> typed s'"
  "lookupKeyReadOrReply i k m s = Some (s', ob) \<Longrightarrow> typed s \<Longrightarrow> typed s'" "lookupKeyWriteOrReply i k m s = Some (s', ob) \<Longrightarrow> typed s \<Longrightarrow> typed s'"
  by (auto simp: lookupKeyRead_def lookupKeyWrite_def lookupKeyReadOrReply_def lookupKeyWriteOrReply_def elim!: bindE dest!: typed_expireIfNeeded)

lemma typed_select [typed_dests]: "selectDb i n s = Some s' \<Longrightarrow> typed s \<Longrightarrow> typed s'"
  by (auto simp: selectDb_def typed_def split: if_split_asm)

lemma typed_rewrite [typed_dests]: "rewriteClientCommandVector av i s = Some s' \<Longrightarrow> typed s \<Longrightarrow> typed s'"
  by (auto simp: rewriteClientCommandVector_def lookupCommand_def elim!: bindE)

section \<open>Values\<close>

lemma value_ok_raw [simp]: "value_ok (raw_string b)"
  by (simp add: value_ok_def raw_string_def createStringObject_def createObject_def)

lemma value_ok_int [simp]: "fits_long n \<Longrightarrow> value_ok (createObject 0 ty (PtrLong n))"
  by (simp add: value_ok_def createObject_def)

lemma string2l_fits: "string2l LLONG_MIN LLONG_MAX b = Some n \<Longrightarrow> fits_long n"
  by (auto simp: string2l_def fits_long_def split: option.splits if_split_asm)

lemma value_ok_encode: "encode_arg a s = Some v \<Longrightarrow> value_ok v"
  by (auto simp: encode_arg_def tryObjectEncoding_def raw_string_def createStringObject_def createObject_def value_ok_def
      dest!: string2l_fits elim!: bindE split: option.splits if_split_asm)

lemma value_ok_new: "createStringObjectFromLongLong True 0 n = Some x \<Longrightarrow> fits_long n \<Longrightarrow>
    value_ok (case x of SharedInt m \<Rightarrow> createObject 0 REDIS_STRING (PtrLong m) | Own ob \<Rightarrow> ob)"
  by (auto simp: createStringObjectFromLongLong_def value_ok_def createObject_def fits_long_def split: if_split_asm)

lemma value_ok_found: "lookupKeyWriteOrReply i k m s = Some (s', Some ob) \<Longrightarrow> typed s \<Longrightarrow> value_ok ob"
  "lookupKeyWrite d k s = Some (s', Some ob) \<Longrightarrow> typed s \<Longrightarrow> d < length (s_db s) \<Longrightarrow> value_ok ob"
proof -
  have w: "lookupKeyWrite d k s = Some (s', Some ob) \<Longrightarrow> typed s \<Longrightarrow> d < length (s_db s) \<Longrightarrow> value_ok ob" for d k s s'
  proof -
    assume l: "lookupKeyWrite d k s = Some (s', Some ob)" and t: "typed s" and d: "d < length (s_db s)"
    have "typed s'" using typed_lookup(2) [OF l t] .
    moreover have "db_dict (s_db s' ! d) k = Some ob" using l by (auto simp: lookupKeyWrite_def lookupKey_def elim!: bindE)
    moreover have "length (s_db s') = length (s_db s)" using tells_lookup(2) [OF l tells_refl d] tells_length by blast
    ultimately show "value_ok ob" using d by (auto simp: typed_def typed_db_def)
  qed
  then show "lookupKeyWrite d k s = Some (s', Some ob) \<Longrightarrow> typed s \<Longrightarrow> d < length (s_db s) \<Longrightarrow> value_ok ob" .
  show "lookupKeyWriteOrReply i k m s = Some (s', Some ob) \<Longrightarrow> typed s \<Longrightarrow> value_ok ob"
    using w by (auto simp: lookupKeyWriteOrReply_def client_db_def elim!: bindE)
qed

lemma typed_setKey: "setKey d k v s = Some s' \<Longrightarrow> typed s \<Longrightarrow> value_ok v \<Longrightarrow> typed s'"
  by (auto simp: setKey_def elim!: bindE split: if_split_asm dest!: typed_dests typed_dbAdd typed_dbOverwrite)

section \<open>Commands keep states typed\<close>

lemma getGeneric_typed: "getGenericCommand i s = Some (s', ok) \<Longrightarrow> typed s \<Longrightarrow> typed s'"
  by (auto simp: getGenericCommand_def elim!: bindE split: option.splits if_split_asm dest!: typed_dests)

lemma mget_loop_typed: "mget_loop d ks i s = Some s' \<Longrightarrow> typed s \<Longrightarrow> typed s'"
  by (induction ks arbitrary: s) (auto elim!: bindE split: option.splits if_split_asm dest!: typed_dests)

lemma busy_loop_typed: "busy_loop d kvs n s = Some (s', m) \<Longrightarrow> typed s \<Longrightarrow> typed s'"
  by (induction kvs arbitrary: n s rule: induct_list012) (auto elim!: bindE split: if_split_asm dest!: typed_dests)

lemma mset_loop_typed: "mset_loop d kvs s = Some s' \<Longrightarrow> typed s \<Longrightarrow> typed s'"
  by (induction kvs arbitrary: s rule: induct_list012) (auto elim!: bindE dest!: typed_setKey simp: value_ok_encode)

lemma del_loop_typed: "del_loop d ks n s = Some (s', m) \<Longrightarrow> typed s \<Longrightarrow> typed s'"
  by (induction ks arbitrary: n s) (auto elim!: bindE split: prod.splits bool.splits dest!: typed_dests)

lemma not_typedE: "\<not> typed s \<Longrightarrow> typed s \<Longrightarrow> False"
  by simp

lemma string_commands_typed:
  "setGenericCommand nx k v e i s = Some s' \<Longrightarrow> value_ok v \<Longrightarrow> typed s \<Longrightarrow> typed s'"
  "getsetCommand i s = Some s' \<Longrightarrow> typed s \<Longrightarrow> typed s'"
  "setbitCommand i s = Some s' \<Longrightarrow> typed s \<Longrightarrow> typed s'"
  "getbitCommand i s = Some s' \<Longrightarrow> typed s \<Longrightarrow> typed s'"
  "setrangeCommand i s = Some s' \<Longrightarrow> typed s \<Longrightarrow> typed s'"
  "getrangeCommand i s = Some s' \<Longrightarrow> typed s \<Longrightarrow> typed s'"
  "mgetCommand i s = Some s' \<Longrightarrow> typed s \<Longrightarrow> typed s'"
  "msetGenericCommand nx i s = Some s' \<Longrightarrow> typed s \<Longrightarrow> typed s'"
  "incrDecrCommand n i s = Some s' \<Longrightarrow> typed s \<Longrightarrow> typed s'"
  "appendCommand i s = Some s' \<Longrightarrow> typed s \<Longrightarrow> typed s'"
  "strlenCommand i s = Some s' \<Longrightarrow> typed s \<Longrightarrow> typed s'"
  by (auto simp: string_command_defs elim!: bindE split: option.splits if_split_asm conv_reply.splits prod.splits)
    (assumption | rule typed_steps typed_replies value_ok_raw
      | erule typed_dests getGeneric_typed mget_loop_typed busy_loop_typed mset_loop_typed value_ok_encode value_ok_new
      | erule typed_setKey typed_dbAdd typed_dbOverwrite | erule not_typedE)+

lemma key_commands_typed:
  "delCommand i s = Some s' \<Longrightarrow> typed s \<Longrightarrow> typed s'"
  "existsCommand i s = Some s' \<Longrightarrow> typed s \<Longrightarrow> typed s'"
  "selectCommand i s = Some s' \<Longrightarrow> typed s \<Longrightarrow> typed s'"
  "dbsizeCommand i s = Some s' \<Longrightarrow> typed s \<Longrightarrow> typed s'"
  "typeCommand i s = Some s' \<Longrightarrow> typed s \<Longrightarrow> typed s'"
  "expireGenericCommand k a off i s = Some s' \<Longrightarrow> typed s \<Longrightarrow> typed s'"
  "ttlCommand i s = Some s' \<Longrightarrow> typed s \<Longrightarrow> typed s'"
  "persistCommand i s = Some s' \<Longrightarrow> typed s \<Longrightarrow> typed s'"
  "pingCommand i s = Some s' \<Longrightarrow> typed s \<Longrightarrow> typed s'"
  "echoCommand i s = Some s' \<Longrightarrow> typed s \<Longrightarrow> typed s'"
  by (auto simp: key_command_defs persistCommand_def elim!: bindE split: option.splits if_split_asm conv_reply.splits prod.splits)
    (assumption | rule typed_steps typed_replies typed_dbDelete | erule typed_dests del_loop_typed | erule not_typedE)+

lemma rename_typed:
  assumes "renameGenericCommand nx i s = Some s'" and t: "typed s"
  shows "typed s'"
  using assms(1) value_ok_found(1) [OF _ t] t
  by (auto simp: renameGenericCommand_def elim!: bindE split: option.splits if_split_asm)
    (assumption | rule typed_steps typed_replies typed_dbDelete | erule typed_dests | erule typed_dbAdd | erule not_typedE)+

lemma move_typed:
  assumes m: "moveCommand i s = Some s'" and t: "typed s"
  shows "typed s'"
proof -
  have v: "value_ok ob" if "lookupKeyWrite d k s1 = Some (s2, Some ob)" "typed s1" "selectDb i (int d) s0 = Some s1" for d k s0 s1 s2 ob
    using value_ok_found(2) [OF that(1,2)] that(3) by (auto simp: selectDb_def split: if_split_asm)
  show ?thesis
    using m t
    by (auto simp: moveCommand_def elim!: bindE split: option.splits if_split_asm)
      (assumption | rule typed_steps typed_replies typed_dbDelete | erule typed_dests | erule typed_dbAdd | erule v | erule not_typedE)+
qed

lemma typed_emptied:
  assumes "typed s" and "length (s_db s') = length (s_db s)"
    and "\<And>d. d < length (s_db s) \<Longrightarrow> s_db s' ! d = s_db s ! d \<or> db_expires (s_db s' ! d) = Map.empty \<and> db_dict (s_db s' ! d) = Map.empty"
    and "\<And>i c'. s_clients s' i = Some c' \<Longrightarrow> \<exists>c. s_clients s i = Some c \<and> k_db c' = k_db c"
  shows "typed s'"
proof -
  have "typed_db (s_db s' ! d)" if "d < length (s_db s')" for d
    using assms(1,2) assms(3) [of d] that by (auto simp: typed_def typed_db_def)
  moreover have "s_db s' \<noteq> []" using assms(1,2) by (auto simp: typed_def)
  ultimately show ?thesis using assms(1,2,4) unfolding typed_def by metis
qed

lemma typed_touch: "typed s \<Longrightarrow> typed (touchWatchedKeysOnFlush n s)"
  by (rule typed_emptied) (auto simp: touchWatchedKeysOnFlush_def mark_dirty_def)

lemma flush_typed:
  "flushdbCommand i s = Some s' \<Longrightarrow> typed s \<Longrightarrow> typed s'" "flushallCommand i s = Some s' \<Longrightarrow> typed s \<Longrightarrow> typed s'"
proof -
  assume "flushdbCommand i s = Some s'" and t: "typed s"
  then obtain d n where s': "s' = addReply_bytes shared_ok i (upd_db d (\<lambda>db. db\<lparr>db_dict := Map.empty, db_expires := Map.empty\<rparr>)
      (touchWatchedKeysOnFlush (int d) (add_dirty n s)))"
    by (auto simp: flushdbCommand_def signalFlushedDb_def elim!: bindE)
  show "typed s'" unfolding s' by (intro typed_steps(1) typed_upd_db typed_touch typed_steps(2) t) (simp add: typed_db_def)
next
  assume f: "flushallCommand i s = Some s'" and t: "typed s"
  define s1 where "s1 = fst (emptyDb (touchWatchedKeysOnFlush (-1) s))"
  have "typed s1" by (rule typed_emptied [OF typed_touch [OF t]]) (auto simp: s1_def emptyDb_def)
  then have s2: "typed (addReply_bytes b i (add_dirty n s1))" for b n by simp
  have "typed (add_dirty 1 ((addReply_bytes b i (add_dirty n s1))\<lparr>s_dirty := m\<rparr>))" for b n m
    by (intro typed_steps(2) typed_same [OF s2]) simp_all
  then show "typed s'" using f s2 by (auto simp: flushallCommand_def signalFlushedDb_def s1_def Let_def split: prod.splits if_split_asm)
qed

lemma watch_commands_typed:
  "unwatchAllKeys i s = Some s' \<Longrightarrow> typed s \<Longrightarrow> typed s'" "watch_loop ks i s = Some s' \<Longrightarrow> typed s \<Longrightarrow> typed s'"
proof -
  have "unwatch_loop i ws s = Some s' \<Longrightarrow> typed s \<Longrightarrow> typed s'" for ws
  proof (induction ws arbitrary: s)
    case (Cons kd ws)
    obtain k d where kd: "kd = (k, d)" by fastforce
    obtain l where "unwatch_loop i ws (upd_client i (\<lambda>c. c\<lparr>k_watched := tl (k_watched c)\<rparr>)
        (upd_db d (\<lambda>db. db\<lparr>db_watched := (db_watched db)(k := if remove1 i l = [] then None else Some (remove1 i l))\<rparr>) s)) = Some s'"
      using Cons.prems(1) unfolding kd by (auto elim!: bindE)
    moreover have "typed (upd_client i (\<lambda>c. c\<lparr>k_watched := tl (k_watched c)\<rparr>)
        (upd_db d (\<lambda>db. db\<lparr>db_watched := (db_watched db)(k := if remove1 i l = [] then None else Some (remove1 i l))\<rparr>) s))"
      by (intro typed_upd_client typed_upd_db Cons.prems(2)) (simp_all add: typed_db_def)
    ultimately show ?case using Cons.IH by blast
  qed simp
  then show "unwatchAllKeys i s = Some s' \<Longrightarrow> typed s \<Longrightarrow> typed s'" by (auto simp: unwatchAllKeys_def elim!: bindE)
  have one: "watchForKey k i s = Some s' \<Longrightarrow> typed s \<Longrightarrow> typed s'" for k s s'
    by (auto simp: watchForKey_def elim!: bindE intro!: typed_upd_client typed_upd_db simp: typed_db_def split: if_split_asm)
  show "watch_loop ks i s = Some s' \<Longrightarrow> typed s \<Longrightarrow> typed s'"
    by (induction ks arbitrary: s) (auto elim!: bindE dest!: one)
qed

lemma run_proc_typed:
  assumes p: "modelled p" and run: "run_proc oth p i s = Some s'" and t: "typed s"
  shows "typed s'"
proof -
  have set: "setGenericCommand nx k v e i s = Some s' \<Longrightarrow> encode_arg a s = Some v \<Longrightarrow> typed s'" for nx k v e a
    using string_commands_typed(1) value_ok_encode t by blast
  have cl: "typed (addReply_bytes b i (upd_client i (\<lambda>c. c\<lparr>k_flags := F c\<rparr>) s))" if "typed s" for b F s
    using that by (intro typed_steps(1) typed_upd_client) auto
  have clm: "typed (clear_multi_flags i (initClientMultiState i (freeClientMultiState i s)))"
    unfolding clear_multi_flags_def initClientMultiState_def freeClientMultiState_def using t by (intro typed_upd_client) auto
  show ?thesis
    using run t clm p
    by (cases p)
      (auto simp: run_proc_def getCommand_def setCommand_def setnxCommand_def setexCommand_def msetCommand_def msetnxCommand_def renameCommand_def
        renamenxCommand_def incrCommand_def decrCommand_def incrbyCommand_def decrbyCommand_def expireCommand_def expireatCommand_def multiCommand_def
        discardCommand_def watchCommand_def unwatchCommand_def modelled_def elim!: bindE split: conv_reply.splits if_split_asm
        dest!: set string_commands_typed(2-) key_commands_typed rename_typed move_typed flush_typed getGeneric_typed watch_commands_typed
        intro!: cl)
qed

section \<open>Requests and runs\<close>

lemma call_with_typed:
  assumes "call_with run i s = Some s'" and "typed s" and "\<And>c cmd s1. s_clients s i = Some c \<Longrightarrow> k_cmd c = Some cmd \<Longrightarrow> run (c_proc cmd) i s = Some s1 \<Longrightarrow> typed s1"
  shows "typed s'"
  using assms by (auto simp: call_with_def elim!: bindE)

lemma exec_loop_typed: "\<forall>m \<in> set ms. modelled (c_proc (m_cmd m)) \<Longrightarrow> exec_loop oth ms i s = Some s' \<Longrightarrow> typed s \<Longrightarrow> typed s'"
proof (induction ms arbitrary: s)
  case (Cons m ms)
  let ?s = "upd_client i (\<lambda>c. c\<lparr>k_argv := m_argv m, k_cmd := Some (m_cmd m)\<rparr>) s"
  obtain s1 where s1: "call_with (run_proc oth) i ?s = Some s1" "exec_loop oth ms i s1 = Some s'" using Cons.prems(2) by (auto elim!: bindE)
  have t: "typed ?s" using Cons.prems(3) by simp
  have "typed s1"
    by (rule call_with_typed [OF s1(1) t]) (use Cons.prems(1) in \<open>auto intro: run_proc_typed [OF _ _ t]\<close>)
  then show ?case using Cons.IH [OF _ s1(2)] Cons.prems(1) by simp
qed simp

lemma leave_typed: "typed s \<Longrightarrow> typed (clear_multi_flags i (initClientMultiState i (freeClientMultiState i s)))"
  unfolding clear_multi_flags_def initClientMultiState_def freeClientMultiState_def by (intro typed_upd_client) auto

text \<open>Unwatching keys leaves queues alone.\<close>

lemma unwatchAllKeys_queue:
  assumes "unwatchAllKeys i s = Some s'"
  shows "map_option k_mstate (s_clients s' j) = map_option k_mstate (s_clients s j)"
proof -
  have "unwatch_loop i ws s = Some s' \<Longrightarrow> map_option k_mstate (s_clients s' j) = map_option k_mstate (s_clients s j)" for ws s
  proof (induction ws arbitrary: s)
    case (Cons kd ws)
    obtain k d where kd: "kd = (k, d)" by fastforce
    obtain l where "unwatch_loop i ws (upd_client i (\<lambda>c. c\<lparr>k_watched := tl (k_watched c)\<rparr>)
        (upd_db d (\<lambda>db. db\<lparr>db_watched := (db_watched db)(k := if remove1 i l = [] then None else Some (remove1 i l))\<rparr>) s)) = Some s'"
      using Cons.prems(1) unfolding kd by (auto elim!: bindE)
    from Cons.IH [OF this] show ?case by (simp add: option.map_comp o_def)
  qed simp
  then show ?thesis using assms by (auto simp: unwatchAllKeys_def elim!: bindE)
qed

lemma execCommand_typed:
  assumes exec: "execCommand oth i s = Some s'" and t: "typed s" and q: "queue_ok modelled s"
  shows "typed s'"
proof (cases "has_flag REDIS_MULTI i s \<and> \<not> has_flag REDIS_DIRTY_CAS i s")
  case False
  then show ?thesis
    using exec t leave_typed [OF t, of i] by (auto simp: execCommand_def elim!: bindE split: if_split_asm dest!: watch_commands_typed(1))
next
  case True
  then obtain s1 s2 c s3 where s1: "execCommandReplicateMulti i s = Some s1" and s2: "unwatchAllKeys i s1 = Some s2" and c: "s_clients s2 i = Some c"
    and s3: "exec_loop oth (k_mstate c) i (reply_multibulklen (length (k_mstate c)) i s2) = Some s3"
    and s': "s' = add_dirty 1 (clear_multi_flags i (initClientMultiState i (freeClientMultiState i
        (upd_client i (\<lambda>c'. c'\<lparr>k_argv := k_argv c, k_cmd := k_cmd c\<rparr>) s3))))"
    using exec by (auto simp: execCommand_def elim!: bindE)
  have "typed s1" using s1 t by (auto simp: execCommandReplicateMulti_def elim!: bindE)
  moreover have "s_clients s1 = s_clients s" using s1 by (auto simp: execCommandReplicateMulti_def add_feed_def elim!: bindE)
  ultimately have "typed s2" and "map_option k_mstate (s_clients s i) = Some (k_mstate c)"
    using watch_commands_typed(1) [OF s2] unwatchAllKeys_queue [OF s2, of i] c by simp_all
  moreover from this have "\<forall>m \<in> set (k_mstate c). modelled (c_proc (m_cmd m))" using q by (auto simp: queue_ok_def)
  ultimately have "typed s3" using exec_loop_typed [OF _ s3] by simp
  then show ?thesis unfolding s' by (intro typed_steps(2) leave_typed typed_clients(1))
qed

lemma run_command_typed:
  assumes "modelled p" and "run_command oth p i s = Some s'" and "typed s" and "queue_ok modelled s"
  shows "typed s'"
  using assms run_proc_typed execCommand_typed by (cases "p = ExecCommand") (auto simp: run_command_def)

lemma dispatch_typed:
  assumes p: "modelled (c_proc cmd)" and run: "dispatch oth cmd i s = Some s'" and t: "typed s" and q: "queue_ok modelled s"
    and cmd: "\<And>c. s_clients s i = Some c \<Longrightarrow> k_cmd c = Some cmd"
  shows "typed s'"
proof -
  have "typed s1" if "queueMultiCommand i s = Some s1" for s1
    using that t by (auto simp: queueMultiCommand_def elim!: bindE intro!: typed_upd_client)
  moreover have "call oth i s = Some s' \<Longrightarrow> typed s'"
    unfolding call_def by (erule call_with_typed [OF _ t]) (use cmd p q t in \<open>auto intro: run_command_typed\<close>)
  ultimately show ?thesis using run by (auto simp: dispatch_def elim!: bindE split: if_split_asm)
qed

lemma processCommand_typed:
  assumes req: "\<And>p. requested i s = Some p \<Longrightarrow> modelled p" and m0: "s_maxmemory s = 0" and run: "processCommand oth evict i s = Some (r, s')"
    and t: "typed s" and q0: "queue_ok modelled s"
  shows "typed s'"
proof -
  have q: "typed (upd_client i (\<lambda>c. c\<lparr>k_flags := F c\<rparr>) s)" if "typed s" for F s using that by (intro typed_upd_client) auto
  have look: "lookupCommand n s = Some (s1, f) \<Longrightarrow> typed s1" for n s1 f using t by (auto simp: lookupCommand_def elim!: bindE)
  obtain name where name: "argv 0 i s = Some name" using run by (auto simp: processCommand_def elim!: bindE)
  show ?thesis
  proof (cases "dictSdsKeyCaseCompare name (ascii_text ''quit'')")
    case True
    then show ?thesis using run name q [of "addReply_bytes shared_ok i s"] t by (auto simp: processCommand_def)
  next
    case False
    obtain s0 found where l: "lookupCommand name s = Some (s0, found)" using run name False by (auto simp: processCommand_def elim!: bindE)
    define s1 where "s1 = upd_client i (\<lambda>c. c\<lparr>k_cmd := found\<rparr>) s0"
    have t1: "typed s1" using look [OF l] by (simp add: s1_def)
    obtain cmds where s0: "s0 = s\<lparr>s_commands := cmds\<rparr>" using l by (auto simp: lookupCommand_def elim!: bindE)
    have q1: "queue_ok modelled s1" and m1: "s_maxmemory s1 = 0" using q0 m0 by (auto simp: s1_def s0 queue_ok_def)
    obtain n where n: "argc i s1 = Some n" using run name False l by (auto simp: processCommand_def s1_def elim!: bindE)
    show ?thesis
    proof (cases found)
      case None
      then show ?thesis using run name False l t1 n by (auto simp: processCommand_def s1_def)
    next
      case (Some cmd)
      show ?thesis
      proof (cases "bad_arity cmd n")
        case True
        then show ?thesis using run name False l t1 n Some by (auto simp: processCommand_def s1_def)
      next
        case False
        then obtain c s2 oom where m: "s_clients s1 i = Some c" "memory_test evict cmd c s1 = Some (s2, oom)"
          and r: "case refusal cmd oom c s2 of Some e \<Rightarrow> s' = addReply_bytes e i s2 | None \<Rightarrow> dispatch oth cmd i s2 = Some s'"
          using run name \<open>\<not> dictSdsKeyCaseCompare name (ascii_text ''quit'')\<close> l n Some
          by (auto simp: processCommand_def s1_def elim!: bindE split: option.splits)
        have s2: "s2 = s1" using memory_test_ok [OF m(2) m1] .
        have "modelled (c_proc cmd)" using req name l Some by (simp add: requested_def)
        moreover have "\<And>c. s_clients s1 i = Some c \<Longrightarrow> k_cmd c = Some cmd" using Some by (auto simp: s1_def)
        ultimately have "dispatch oth cmd i s1 = Some s' \<Longrightarrow> typed s'" using dispatch_typed [OF _ _ t1 q1] by blast
        then show ?thesis using r t1 unfolding s2 by (auto split: option.splits)
      qed
    qed
  qed
qed

lemma expire_lookups_typed: "expire_lookups d n draws e s = Some (s', e', draws') \<Longrightarrow> typed s \<Longrightarrow> typed s'"
  by (induction d n draws e s rule: expire_lookups.induct) (auto split: if_split_asm list.splits option.splits)

lemma expire_rounds_typed: "expire_rounds d late n draws s = Some (s', draws', b) \<Longrightarrow> typed s \<Longrightarrow> typed s'"
proof (induction d late n draws s rule: expire_rounds.induct)
  case (1 d late n draws s)
  obtain s1 m ds where l: "expire_lookups d (min (card (dom (db_expires (s_db s ! d)))) EXPIRELOOKUPS) draws 0 s = Some (s1, m, ds)"
    using 1(2) by (subst (asm) expire_rounds.simps) (auto split: option.splits)
  have t: "typed s1" using expire_lookups_typed [OF l 1(3)] .
  show ?case
  proof (cases "((n + 1) mod 256 = 0 \<and> late (n + 1)) \<or> \<not> m > EXPIRELOOKUPS div 4")
    case True
    then show ?thesis using 1(2) t by (subst (asm) expire_rounds.simps) (auto simp: l split: if_splits)
  next
    case False
    have "expire_rounds d late (n + 1) ds s1 = Some (s', draws', b)"
      using 1(2) False by (subst (asm) expire_rounds.simps) (auto simp: l split: if_splits)
    from 1(1) [OF l _ _ _ _ this t] False show ?thesis by auto
  qed
qed

lemma activeExpireCycle_typed: "activeExpireCycle late draws s = Some s' \<Longrightarrow> typed s \<Longrightarrow> typed s'"
proof -
  have "expire_dbs ds late draws s = Some s' \<Longrightarrow> typed s \<Longrightarrow> typed s'" for ds
    by (induction ds arbitrary: draws s) (auto elim!: bindE split: if_split_asm dest!: expire_rounds_typed)
  then show "activeExpireCycle late draws s = Some s' \<Longrightarrow> typed s \<Longrightarrow> typed s'" unfolding activeExpireCycle_def by blast
qed

lemma sys_step_typed:
  assumes "sys_step oth evict modelled s s'" and t: "typed s" and q: "queue_ok modelled s" and m: "s_maxmemory s = 0"
  shows "typed s'"
  using assms(1)
proof cases
  case (receive i av)
  then show ?thesis using t by (auto intro: typed_upd_client)
next
  case (request i r)
  then show ?thesis using processCommand_typed [OF _ m _ t q] by blast
next
  case (connect i)
  then show ?thesis using t by (auto simp: createClient_def typed_def new_client_def elim!: bindE split: if_split_asm)
next
  case (disconnect i)
  then obtain s1 where "unwatchAllKeys i s = Some s1" "s' = s1\<lparr>s_clients := (s_clients s1)(i := None)\<rparr>"
    by (auto simp: freeClient_def elim!: bindE)
  then show ?thesis using watch_commands_typed(1) [of i s s1] t by (auto simp: typed_def split: if_split_asm)
next
  case (sent i n)
  then show ?thesis using t by (auto intro: typed_upd_client)
next
  case (tick x)
  then show ?thesis using t by (simp add: typed_def)
next
  case (expire late draws)
  then show ?thesis using activeExpireCycle_typed t by blast
qed

lemma typed_no_assert:
  assumes "typed s" and "d < length (s_db s)"
  shows "getExpire d k s \<noteq> None" "expireIfNeeded d k s \<noteq> None" "lookupKeyRead d k s \<noteq> None"
proof -
  have "db_dict (s_db s ! d) k = None \<Longrightarrow> db_expires (s_db s ! d) k = None" using assms by (simp add: typed_def typed_db_def)
  then show "getExpire d k s \<noteq> None" by (auto simp: getExpire_def require_def split: option.splits)
  then show "expireIfNeeded d k s \<noteq> None" by (auto simp: expireIfNeeded_def)
  then show "lookupKeyRead d k s \<noteq> None" by (auto simp: lookupKeyRead_def)
qed

lemma run_typed:
  assumes "rtranclp (sys_step oth evict modelled) s0 s" and "typed s0" and "state_ok modelled s0" and "s_maxmemory s0 = 0"
  shows "typed s \<and> state_ok modelled s \<and> s_maxmemory s = 0"
  using assms(1)
proof induction
  case (step s s')
  then have "keeps False s s'" "state_ok modelled s'" using sys_step_ok [where strict = False, unfolded admits_simps] by blast+
  then show ?case using sys_step_typed [OF step(2)] step(3) keeps_mem [of False s s'] by (simp add: state_ok_def)
qed (use assms in simp)

text \<open>C6: On a server without a memory limit, through any interleaving of requests for modelled commands, clients that
  come and go, the passing of time and active expiry, only keys that exist have expires, integer-encoded
  values are \<^verbatim>\<open>long\<close> values and clients are on data bases that exist, if it was so at first; so the assertion of
  \<^verbatim>\<open>getExpire\<close> never fails and every key can be looked up. Requests for commands of other files do not occur in these
  runs, and nothing is assumed of them. The watch tables and the queues have to be in order at first, as they are in
  every reachable state.\<close>

theorem runs_stay_typed:
  assumes "typed s0" and "state_ok modelled s0" and "s_maxmemory s0 = 0" and "rtranclp (sys_step oth evict modelled) s0 s"
  shows "(\<forall>d < length (s_db s). \<forall>k v. (db_dict (s_db s ! d) k = None \<longrightarrow> db_expires (s_db s ! d) k = None) \<and>
            (\<forall>n. db_dict (s_db s ! d) k = Some v \<longrightarrow> o_ptr v = PtrLong n \<longrightarrow> LLONG_MIN \<le> n \<and> n \<le> LLONG_MAX)) \<and>
         (\<forall>i c. s_clients s i = Some c \<longrightarrow> k_db c < length (s_db s)) \<and>
         (\<forall>d < length (s_db s). \<forall>k. getExpire d k s \<noteq> None \<and> expireIfNeeded d k s \<noteq> None \<and> lookupKeyRead d k s \<noteq> None)"
proof -
  have t: "typed s" using run_typed [OF assms(4,1-3)] by blast
  have v: "LLONG_MIN \<le> n \<and> n \<le> LLONG_MAX" if "d < length (s_db s)" "db_dict (s_db s ! d) k = Some v" "o_ptr v = PtrLong n" for d k v n
    using t that by (force simp: typed_def typed_db_def value_ok_def fits_long_def)
  have e: "db_expires (s_db s ! d) k = None" if "d < length (s_db s)" "db_dict (s_db s ! d) k = None" for d k
    using t that by (simp add: typed_def typed_db_def)
  have c: "k_db c < length (s_db s)" if "s_clients s i = Some c" for i c using t that by (simp add: typed_def)
  show ?thesis using v e c typed_no_assert [OF t] by blast
qed

text \<open>Client 0 gives the key an expire of ten seconds; then four thousand pass.\<close>

definition demo_expire :: redisServer where
  "demo_expire = demo_start
     \<lparr>s_commands := dictCreate\<lparr>ht0 := \<lparr>ht_table = [[(ascii_text ''expire'', redis_command ''expire'' ExpireCommand 3 {} None 0 0 0)]],
        ht_size = 1, ht_mask = 0, ht_used = 1\<rparr>\<rparr>,
      s_clients := [0 \<mapsto> new_client]\<rparr>"

lemma runs_stay_typed_witness:
  "\<exists>s. rtranclp (sys_step (\<lambda>n i s. None) (\<lambda>s. None) modelled) demo_expire s \<and> db_expires (s_db s ! 0) [107] = Some 1010 \<and> s_time s = 5000 \<and>
     getExpire 0 [107] s \<noteq> None \<and> expireIfNeeded 0 [107] s \<noteq> None \<and> lookupKeyRead 0 [107] s \<noteq> None"
proof -
  let ?R = "rtranclp (sys_step (\<lambda>n i s. None) (\<lambda>s. None) modelled) demo_expire"
  have t: "typed demo_expire" by (auto simp: typed_def typed_db_def value_ok_def demo_expire_def demo_start_def new_client_def raw_string_def createStringObject_def createObject_def split: if_splits)
  have "watch_ok demo_expire" by (rule watch_okI) (auto simp: demo_expire_def demo_start_def watches_def new_client_def split: if_splits)
  then have ok: "state_ok modelled demo_expire" "s_maxmemory demo_expire = 0"
    by (auto simp: state_ok_def queue_ok_def demo_expire_def demo_start_def demo_server_def new_client_def split: if_splits)
  define s1 where "s1 = upd_client 0 (\<lambda>c. c\<lparr>k_argv := [ascii_text ''expire'', [107], [49, 48]]\<rparr>) demo_expire"
  have r1: "?R s1" unfolding s1_def by (rule r_into_rtranclp) (rule receive)
  have l: "lookupCommand (ascii_text ''expire'') s1 = Some (s1, Some (redis_command ''expire'' ExpireCommand 3 {} None 0 0 0))"
    by (simp add: lookupCommand_def dictFetchValue_def dictFind_def s1_def upd_client_def demo_expire_def step_if_rehashing_def dictIsRehashing_def
      dictCreate_def u_dictInit_def search_tables_def probe_def bucket_def ht_def dictCompareHashKeys_def commandTableDictType_def
      ascii_text_def entry_at_def dictSdsKeyCaseCompare_def c_str_def strcaseeq_def tolower_def)
  have a: "argv 0 0 s1 = Some (ascii_text ''expire'')" by (simp add: argv_def s1_def demo_expire_def require_def)
  then have req: "requested 0 s1 = Some ExpireCommand" using l by (simp add: requested_def redis_command_def)
  have ten: "getLongFromArg None [49, 48] s = Some (ConvOk 10)" if "\<not> s_erange s" for s
    using that by (simp add: getLongFromArg_def getLongFromObjectOrReply_def getLongLongFromObjectOrReply_def getLongLongFromObject_def createStringObject_def
        createObject_def c_str_def strtoll_def isspace_def isdigit_def digit_val_def c_limits)
  have "\<exists>s2. processCommand (\<lambda>n i s. None) (\<lambda>s. None) 0 s1 = Some (True, s2) \<and> db_expires (s_db s2 ! 0) [107] = Some 1010 \<and> s_time s2 = 1000"
    using a l ten by (simp add: processCommand_def, simp add: s1_def demo_expire_def demo_start_def demo_server_def new_client_def
        dictSdsKeyCaseCompare_def c_str_def strcaseeq_def tolower_def ascii_text_def argc_def bad_arity_def redis_command_def memory_test_def
        refusal_def dispatch_def has_flag_def call_def call_with_def run_command_def run_proc_def expireCommand_def expireGenericCommand_def argv_def fits_long_def c_limits
        client_db_def require_def upd_client_def upd_db_def addReply_bytes_def add_feed_def setExpire_def dbExists_def signalModifiedKey_def
        touchWatchedKey_def mark_dirty_def add_dirty_def)
  then obtain s2 where s2: "processCommand (\<lambda>n i s. None) (\<lambda>s. None) 0 s1 = Some (True, s2)" "db_expires (s_db s2 ! 0) [107] = Some 1010" "s_time s2 = 1000"
    by blast
  have r2: "?R s2" by (rule rtranclp.rtrancl_into_rtrancl [OF r1 request [OF s2(1)]]) (simp add: req modelled_def)
  have r3: "?R (s2\<lparr>s_time := 5000\<rparr>)" by (rule rtranclp.rtrancl_into_rtrancl [OF r2 tick]) (simp add: s2(3))
  have "0 < length (s_db (s2\<lparr>s_time := 5000\<rparr>))" using run_typed [OF r3 t ok] by (simp add: typed_def)
  then show ?thesis using runs_stay_typed [OF t ok r3] r3 s2(2) by (intro exI [of _ "s2\<lparr>s_time := 5000\<rparr>"]) simp
qed

end
