(* ===== verification/Zipmap.thy ===== *)
theory Zipmap
  imports Interfaces "HOL-Library.AList"
begin

text \<open>
  Model of \<^verbatim>\<open>src/webserver/redis/src/zipmap.c\<close>: a map of strings to strings in one block of
  memory. A zipmap is the byte list of its block, a pointer into it is an offset, every read
  and write is checked against the block, and lengths of type \<^verbatim>\<open>unsigned int\<close> wrap at 32 bits. A
  key or value passed as a pointer and a length is a byte list. The host is little-endian.

  The printer \<^verbatim>\<open>zipmapRepr\<close> and the self test are not modelled.
\<close>

section \<open>Lengths\<close>

definition ZIPMAP_BIGLEN :: nat where "ZIPMAP_BIGLEN = 254"
definition ZIPMAP_END :: byte where "ZIPMAP_END = 255"
definition ZIPMAP_VALUE_MAX_FREE :: nat where "ZIPMAP_VALUE_MAX_FREE = 4"

definition uint32 :: "nat \<Rightarrow> nat" where "uint32 n = n mod 2 ^ 32"

definition usub32 :: "nat \<Rightarrow> nat \<Rightarrow> nat" where "usub32 m n = nat (to_u32 (int m - int n))"

definition ZIPMAP_LEN_BYTES :: "nat \<Rightarrow> nat" where
  "ZIPMAP_LEN_BYTES l = (if l < ZIPMAP_BIGLEN then 1 else 4 + 1)"

definition zipmapNew :: "byte list option" where
  "zipmapNew = do { zm \<leftarrow> mem_write (zmalloc 2) 0 [0]; mem_write zm 1 [ZIPMAP_END] }"

definition zipmapDecodeLength :: "byte list \<Rightarrow> nat \<Rightarrow> nat option" where
  "zipmapDecodeLength zm p =
     do { b \<leftarrow> mem_byte zm p;
          if unat b < ZIPMAP_BIGLEN then Some (unat b)
          else do { bs \<leftarrow> mem_read zm (p + 1) 4; Some (nat (le_uint bs)) } }"

text \<open>The block after the length is written, and the number of bytes it takes. Called with a null
  pointer the function is \<open>ZIPMAP_LEN_BYTES\<close>.\<close>

definition zipmapEncodeLength :: "byte list \<Rightarrow> nat \<Rightarrow> nat \<Rightarrow> (byte list \<times> nat) option" where
  "zipmapEncodeLength zm p len =
     (if len < ZIPMAP_BIGLEN then do { zm \<leftarrow> mem_write zm p [word_of_nat len]; Some (zm, 1) }
      else do { zm \<leftarrow> mem_write zm p [word_of_nat ZIPMAP_BIGLEN];
                zm \<leftarrow> mem_write zm (p + 1) (le_bytes 4 (int len));
                Some (zm, 1 + 4) })"

section \<open>Lookup\<close>

text \<open>The loop of \<^verbatim>\<open>zipmapLookupRaw\<close>: \<open>k\<close> is the entry found so far and \<open>want\<close> says whether the
  caller wants the size, so that the scan goes on after the key is found. Without a key nothing is
  found. The result is the entry and the position where the scan stopped.\<close>

function lookup_scan :: "byte list \<Rightarrow> byte list option \<Rightarrow> bool \<Rightarrow> nat option \<Rightarrow> nat \<Rightarrow> (nat option \<times> nat) option" where
  "lookup_scan zm key want k p =
     do { b \<leftarrow> mem_byte zm p;
          if b = ZIPMAP_END then Some (k, p)
          else do {
            l \<leftarrow> zipmapDecodeLength zm p;
            llen \<leftarrow> Some (ZIPMAP_LEN_BYTES l);
            same \<leftarrow> (if key \<noteq> None \<and> k = None \<and> l = length (the key)
                     then do { bs \<leftarrow> mem_read zm (p + llen) l; Some (bs = the key) } else Some False);
            if same \<and> \<not> want then Some (Some p, p)
            else do {
              k \<leftarrow> Some (if same then Some p else k);
              q \<leftarrow> Some (p + (llen + l));
              vl \<leftarrow> zipmapDecodeLength zm q;
              q \<leftarrow> Some (q + ZIPMAP_LEN_BYTES vl);
              free \<leftarrow> mem_byte zm q;
              lookup_scan zm key want k (q + (vl + 1 + unat free)) } } }"
  by pat_completeness auto
termination
  by (relation "measure (\<lambda>(zm, key, want, k, p). length zm - p)")
    (auto simp: mem_byte_def split: if_splits)

declare lookup_scan.simps [simp del]

text \<open>The entry of the key, and the size of the zipmap, which callers may ask for.\<close>

definition zipmapLookupRaw :: "byte list \<Rightarrow> byte list option \<Rightarrow> bool \<Rightarrow> (nat option \<times> nat) option" where
  "zipmapLookupRaw zm key want =
     do { (k, p) \<leftarrow> lookup_scan zm key want None 1; Some (k, uint32 (p + 1)) }"

definition zipmapRequiredLength :: "nat \<Rightarrow> nat \<Rightarrow> nat" where
  "zipmapRequiredLength klen vlen =
     (let l = uint32 (klen + vlen + 3);
          l = (if klen \<ge> ZIPMAP_BIGLEN then uint32 (l + 4) else l)
      in (if vlen \<ge> ZIPMAP_BIGLEN then uint32 (l + 4) else l))"

definition zipmapRawKeyLength :: "byte list \<Rightarrow> nat \<Rightarrow> nat option" where
  "zipmapRawKeyLength zm p = do { l \<leftarrow> zipmapDecodeLength zm p; Some (uint32 (ZIPMAP_LEN_BYTES l + l)) }"

definition zipmapRawValueLength :: "byte list \<Rightarrow> nat \<Rightarrow> nat option" where
  "zipmapRawValueLength zm p =
     do { l \<leftarrow> zipmapDecodeLength zm p;
          used \<leftarrow> Some (ZIPMAP_LEN_BYTES l);
          free \<leftarrow> mem_byte zm (p + used);
          Some (uint32 (used + (unat free + 1 + l))) }"

definition zipmapRawEntryLength :: "byte list \<Rightarrow> nat \<Rightarrow> nat option" where
  "zipmapRawEntryLength zm p =
     do { l \<leftarrow> zipmapRawKeyLength zm p; v \<leftarrow> zipmapRawValueLength zm (p + l); Some (uint32 (l + v)) }"

definition zipmapResize :: "byte list \<Rightarrow> nat \<Rightarrow> byte list option" where
  "zipmapResize zm len = mem_write (zrealloc zm len) (usub32 len 1) [ZIPMAP_END]"

section \<open>Update and removal\<close>

text \<open>The counter of entries in the first byte.\<close>

definition count_entry :: "byte list \<Rightarrow> byte \<Rightarrow> byte list option" where
  "count_entry zm incr =
     do { n \<leftarrow> mem_byte zm 0; if unat n < ZIPMAP_BIGLEN then mem_write zm 0 [n + incr] else Some zm }"

text \<open>Room for the entry: the block, the offset of the entry, the room there, the size of the
  block, and whether the key was there.\<close>

definition make_room :: "byte list \<Rightarrow> byte list \<Rightarrow> nat \<Rightarrow> (byte list \<times> nat \<times> nat \<times> nat \<times> bool) option" where
  "make_room zm key reqlen =
     do { (found, zmlen) \<leftarrow> zipmapLookupRaw zm (Some key) True;
          case found of
            None \<Rightarrow> do {
              zm \<leftarrow> zipmapResize zm (uint32 (zmlen + reqlen));
              zm \<leftarrow> count_entry zm 1;
              Some (zm, zmlen - 1, reqlen, uint32 (zmlen + reqlen), False) }
          | Some p \<Rightarrow> do {
              freelen \<leftarrow> zipmapRawEntryLength zm p;
              if freelen < reqlen then do {
                zm \<leftarrow> zipmapResize zm (uint32 (usub32 zmlen freelen + reqlen));
                zm \<leftarrow> mem_move zm (p + reqlen) (p + freelen) (usub32 zmlen (p + freelen + 1));
                Some (zm, p, reqlen, uint32 (usub32 zmlen freelen + reqlen), True) }
              else Some (zm, p, freelen, zmlen, True) } }"

text \<open>Surplus room is cut off, unless it is a few bytes, whose number goes before the value.\<close>

definition cut_room :: "byte list \<Rightarrow> nat \<Rightarrow> nat \<Rightarrow> nat \<Rightarrow> nat \<Rightarrow> (byte list \<times> nat) option" where
  "cut_room zm p freelen reqlen zmlen =
     (let empty = usub32 freelen reqlen in
      if empty \<ge> ZIPMAP_VALUE_MAX_FREE then do {
        zm \<leftarrow> mem_move zm (p + reqlen) (p + freelen) (usub32 zmlen (p + freelen + 1));
        zm \<leftarrow> zipmapResize zm (usub32 zmlen empty);
        Some (zm, 0) }
      else Some (zm, empty))"

definition zipmapSet :: "byte list \<Rightarrow> byte list \<Rightarrow> byte list \<Rightarrow> (byte list \<times> bool) option" where
  "zipmapSet zm key val =
     do { reqlen \<leftarrow> Some (zipmapRequiredLength (length key) (length val));
          (zm, p, freelen, zmlen, present) \<leftarrow> make_room zm key reqlen;
          (zm, vempty) \<leftarrow> cut_room zm p freelen reqlen zmlen;
          (zm, n) \<leftarrow> zipmapEncodeLength zm p (length key);
          p \<leftarrow> Some (p + n);
          zm \<leftarrow> mem_write zm p key;
          p \<leftarrow> Some (p + length key);
          (zm, n) \<leftarrow> zipmapEncodeLength zm p (length val);
          p \<leftarrow> Some (p + n);
          zm \<leftarrow> mem_write zm p [word_of_nat vempty];
          zm \<leftarrow> mem_write zm (p + 1) val;
          Some (zm, present) }"

definition zipmapDel :: "byte list \<Rightarrow> byte list \<Rightarrow> (byte list \<times> bool) option" where
  "zipmapDel zm key =
     do { (found, zmlen) \<leftarrow> zipmapLookupRaw zm (Some key) True;
          case found of
            Some p \<Rightarrow> do {
              freelen \<leftarrow> zipmapRawEntryLength zm p;
              zm \<leftarrow> mem_move zm p (p + freelen) (usub32 zmlen (p + freelen + 1));
              zm \<leftarrow> zipmapResize zm (usub32 zmlen freelen);
              zm \<leftarrow> count_entry zm (- 1);
              Some (zm, True) }
          | None \<Rightarrow> Some (zm, False) }"

section \<open>Reading\<close>

definition zipmapRewind :: "nat" where "zipmapRewind = 1"

text \<open>The key, the value and the position of the next entry; a string is its offset and length.\<close>

definition zipmapNext :: "byte list \<Rightarrow> nat \<Rightarrow> ((nat \<times> nat) \<times> (nat \<times> nat) \<times> nat) option option" where
  "zipmapNext zm p =
     do { b \<leftarrow> mem_byte zm p;
          if b = ZIPMAP_END then Some None
          else do {
            klen \<leftarrow> zipmapDecodeLength zm p;
            key \<leftarrow> Some (p + ZIPMAP_LEN_BYTES klen);
            n \<leftarrow> zipmapRawKeyLength zm p;
            p \<leftarrow> Some (p + n);
            vlen \<leftarrow> zipmapDecodeLength zm p;
            val \<leftarrow> Some (p + 1 + ZIPMAP_LEN_BYTES vlen);
            n \<leftarrow> zipmapRawValueLength zm p;
            Some (Some ((key, klen), (val, vlen), p + n)) } }"

definition zipmapGet :: "byte list \<Rightarrow> byte list \<Rightarrow> (nat \<times> nat) option option" where
  "zipmapGet zm key =
     do { (found, _) \<leftarrow> zipmapLookupRaw zm (Some key) False;
          case found of
            None \<Rightarrow> Some None
          | Some p \<Rightarrow> do {
              n \<leftarrow> zipmapRawKeyLength zm p;
              vlen \<leftarrow> zipmapDecodeLength zm (p + n);
              Some (Some (p + n + ZIPMAP_LEN_BYTES vlen + 1, vlen)) } }"

definition zipmapExists :: "byte list \<Rightarrow> byte list \<Rightarrow> bool option" where
  "zipmapExists zm key = do { (found, _) \<leftarrow> zipmapLookupRaw zm (Some key) False; Some (found \<noteq> None) }"

text \<open>The loop over the entries that counts them. It has no result where lengths that wrap to zero would keep it
  at one entry.\<close>

function count_loop :: "byte list \<Rightarrow> nat \<Rightarrow> nat \<Rightarrow> nat option" where
  "count_loop zm p len =
     do { r \<leftarrow> zipmapNext zm p;
          case r of
            None \<Rightarrow> Some len
          | Some (_, _, q) \<Rightarrow> (if p < q then count_loop zm q (uint32 (len + 1)) else None) }"
  by pat_completeness auto
termination
  by (relation "measure (\<lambda>(zm, p, len). length zm - p)")
    (auto simp: zipmapNext_def mem_byte_def bind_Some_iff split: if_splits)

declare count_loop.simps [simp del]

definition zipmapLen :: "byte list \<Rightarrow> (byte list \<times> nat) option" where
  "zipmapLen zm =
     do { b \<leftarrow> mem_byte zm 0;
          if unat b < ZIPMAP_BIGLEN then Some (zm, unat b)
          else do {
            len \<leftarrow> count_loop zm zipmapRewind 0;
            zm \<leftarrow> (if len < ZIPMAP_BIGLEN then mem_write zm 0 [word_of_nat len] else Some zm);
            Some (zm, len) } }"

definition zipmapBlobLen :: "byte list \<Rightarrow> nat option" where
  "zipmapBlobLen zm = do { (_, totlen) \<leftarrow> zipmapLookupRaw zm None True; Some totlen }"

end
