(* ===== verification/ZipmapSpec.thy ===== *)
theory ZipmapSpec
  imports Zipmap
begin

text \<open>
  The meaning of a zipmap as the list of its bindings: the layout of the entries, the lookup over
  it, and the effect of an update and a removal on it.
\<close>

section \<open>Layout\<close>

text \<open>An entry is a key, a value and the free bytes after the value.\<close>

type_synonym zentry = "byte list \<times> byte list \<times> byte list"

definition zlen :: "nat \<Rightarrow> byte list" where
  "zlen l = (if l < 254 then [word_of_nat l] else 254 # le_bytes 4 (int l))"

definition zent :: "zentry \<Rightarrow> byte list" where
  "zent e = (case e of (k, v, f) \<Rightarrow> zlen (length k) @ k @ zlen (length v) @ [word_of_nat (length f)] @ v @ f)"

definition zents :: "zentry list \<Rightarrow> byte list" where
  "zents es = concat (map zent es)"

definition zent_ok :: "zentry \<Rightarrow> bool" where
  "zent_ok e \<longleftrightarrow> (case e of (k, v, f) \<Rightarrow> length k < 2 ^ 32 \<and> length v < 2 ^ 32 \<and> length f < 4)"

definition binding :: "zentry \<Rightarrow> byte list \<times> byte list" where
  "binding e = (case e of (k, v, f) \<Rightarrow> (k, v))"

definition zm_rep :: "byte list \<Rightarrow> zentry list \<Rightarrow> bool" where
  "zm_rep zm es \<longleftrightarrow> (\<exists>n. zm = n # zents es @ [255] \<and> (unat n < 254 \<longrightarrow> unat n = length es)) \<and>
     list_all zent_ok es \<and> distinct (map fst es) \<and> length zm < 2 ^ 32"

lemma zents_simps [simp]: "zents [] = []" "zents (e # es) = zent e @ zents es" "zents (es @ es') = zents es @ zents es'"
  by (simp_all add: zents_def)

lemma length_zlen [simp]: "length (zlen l) = ZIPMAP_LEN_BYTES l"
  by (simp add: zlen_def ZIPMAP_LEN_BYTES_def ZIPMAP_BIGLEN_def)

lemma zlen_bytes: "1 \<le> ZIPMAP_LEN_BYTES l" "ZIPMAP_LEN_BYTES l \<le> 5"
  by (simp_all add: ZIPMAP_LEN_BYTES_def)

lemma length_zent: "length (zent (k, v, f)) =
    ZIPMAP_LEN_BYTES (length k) + length k + (ZIPMAP_LEN_BYTES (length v) + 1 + length v + length f)"
  by (simp add: zent_def)

lemma uint32_id [simp]: "n < 2 ^ 32 \<Longrightarrow> uint32 n = n"
  by (simp add: uint32_def)

lemma usub32_id [simp]: "n \<le> m \<Longrightarrow> m < 2 ^ 32 \<Longrightarrow> usub32 m n = m - n"
  by (simp add: usub32_def nat_diff_distrib' flip: of_nat_diff)

section \<open>Lengths\<close>

lemma unat_byte [simp]: "l < 256 \<Longrightarrow> unat (word_of_nat l :: byte) = l"
  by (simp add: unat_of_nat)

lemma zlen_head:
  assumes "l < 2 ^ 32"
  obtains b r where "zlen l = b # r" and "b \<noteq> 255" and "unat b = (if l < 254 then l else 254)"
proof (cases "l < 254")
  case True
  have "(word_of_nat l :: byte) \<noteq> 255"
  proof
    assume "(word_of_nat l :: byte) = 255"
    then have "unat (word_of_nat l :: byte) = unat (255 :: byte)" by (rule arg_cong)
    with True show False by simp
  qed
  with True show ?thesis by (intro that [of "word_of_nat l" "[]"]) (simp_all add: zlen_def)
next
  case False
  then show ?thesis by (intro that [of 254 "le_bytes 4 (int l)"]) (simp_all add: zlen_def)
qed

lemma decode_zlen:
  assumes "l < 2 ^ 32"
  shows "zipmapDecodeLength (pre @ zlen l @ post) (length pre) = Some l"
proof (cases "l < 254")
  case True
  then show ?thesis by (simp add: zipmapDecodeLength_def zlen_def ZIPMAP_BIGLEN_def)
next
  case False
  have "le_uint (le_bytes 4 (int l)) = int l" using assms by (intro le_uint_le_bytes_id) simp_all
  then show ?thesis using False mem_read_append [of "pre @ [254]" "length pre + 1" "le_bytes 4 (int l)" 4 post]
    by (simp add: zipmapDecodeLength_def zlen_def ZIPMAP_BIGLEN_def del: le_bytes_numeral)
qed

lemma encode_zlen:
  assumes "l < 2 ^ 32" and "length old = ZIPMAP_LEN_BYTES l"
  shows "zipmapEncodeLength (pre @ old @ post) (length pre) l = Some (pre @ zlen l @ post, ZIPMAP_LEN_BYTES l)"
proof (cases "l < 254")
  case True
  then show ?thesis using assms by (simp add: zipmapEncodeLength_def zlen_def ZIPMAP_LEN_BYTES_def ZIPMAP_BIGLEN_def mem_write_def)
next
  case False
  then obtain a b where old: "old = a # b" "length b = 4" using assms(2) by (cases old) (auto simp: ZIPMAP_LEN_BYTES_def ZIPMAP_BIGLEN_def)
  then show ?thesis using False
    by (simp add: zipmapEncodeLength_def zlen_def ZIPMAP_LEN_BYTES_def ZIPMAP_BIGLEN_def mem_write_def)
qed

section \<open>Lookup\<close>

text \<open>The offset of the entry of a key.\<close>

fun zpos :: "byte list \<Rightarrow> nat \<Rightarrow> zentry list \<Rightarrow> nat option" where
  "zpos key off [] = None"
| "zpos key off (e # es) = (if fst e = key then Some off else zpos key (off + length (zent e)) es)"

lemma zpos_None: "key \<notin> fst ` set es \<Longrightarrow> zpos key off es = None"
  by (induction es arbitrary: off) auto

lemma zpos_split: "key \<notin> fst ` set es1 \<Longrightarrow> zpos key off (es1 @ (key, v, f) # es2) = Some (off + length (zents es1))"
  by (induction es1 arbitrary: off) (auto simp: add.assoc)

lemma lookup_scan_entry:
  assumes "zent_ok (k, v, f)"
  shows "lookup_scan (pre @ zent (k, v, f) @ post) key want found (length pre) =
    (let same = (key \<noteq> None \<and> found = None \<and> the key = k) in
     if same \<and> \<not> want then Some (Some (length pre), length pre)
     else lookup_scan (pre @ zent (k, v, f) @ post) key want (if same then Some (length pre) else found)
            (length pre + length (zent (k, v, f))))"
proof -
  have ok: "length k < 2 ^ 32" "length v < 2 ^ 32" "length f < 4" using assms by (simp_all add: zent_ok_def)
  define zm where "zm = pre @ zent (k, v, f) @ post"
  define p where "p = length pre"
  define kl vl where "kl = ZIPMAP_LEN_BYTES (length k)" and "vl = ZIPMAP_LEN_BYTES (length v)"
  obtain b r where b: "zlen (length k) = b # r" "b \<noteq> 255" using zlen_head [OF ok(1)] by blast
  have c: "mem_byte zm p = Some b" using b by (simp add: zm_def p_def zent_def)
  have d: "zipmapDecodeLength zm p = Some (length k)"
    using decode_zlen [OF ok(1), of pre "k @ zlen (length v) @ [word_of_nat (length f)] @ v @ f @ post"] by (simp add: zm_def p_def zent_def)
  have m: "mem_read zm (p + kl) (length k) = Some k"
    using mem_read_append [of "pre @ zlen (length k)" "length pre + ZIPMAP_LEN_BYTES (length k)" k "length k"
        "zlen (length v) @ [word_of_nat (length f)] @ v @ f @ post"] by (simp add: zm_def p_def kl_def zent_def)
  have e: "zipmapDecodeLength zm (p + (kl + length k)) = Some (length v)"
    using decode_zlen [OF ok(2), of "pre @ zlen (length k) @ k" "[word_of_nat (length f)] @ v @ f @ post"]
    by (simp add: zm_def p_def kl_def zent_def)
  have g: "mem_byte zm (p + (kl + length k) + vl) = Some (word_of_nat (length f))"
    using mem_byte_append [of "pre @ zlen (length k) @ k @ zlen (length v)" _ "word_of_nat (length f)" "v @ f @ post"]
    by (simp add: zm_def p_def kl_def vl_def zent_def add.assoc)
  have same: "(if key \<noteq> None \<and> found = None \<and> length k = length (the key) then
        do { bs \<leftarrow> mem_read zm (p + kl) (length k); Some (bs = the key) } else Some False) =
      Some (key \<noteq> None \<and> found = None \<and> the key = k)"
    using m by auto
  have u: "unat (word_of_nat (length f) :: byte) = length f" using ok(3) by simp
  have len: "p + length (zent (k, v, f)) = p + (kl + length k) + vl + (length v + 1 + length f)"
    by (simp add: length_zent kl_def vl_def)
  have "lookup_scan zm key want found p =
    (let same = (key \<noteq> None \<and> found = None \<and> the key = k) in
     if same \<and> \<not> want then Some (Some p, p)
     else lookup_scan zm key want (if same then Some p else found) (p + length (zent (k, v, f))))"
    unfolding len
    by (subst lookup_scan.simps) (simp only: c d b(2) ZIPMAP_END_def Option.bind.bind_lunit if_False same e g u Let_def flip: kl_def vl_def)
  then show ?thesis unfolding zm_def p_def .
qed

lemma lookup_scan_entries:
  assumes "list_all zent_ok es" and "distinct (map fst es)" and "found \<noteq> None \<Longrightarrow> the key \<notin> fst ` set es"
  shows "lookup_scan (pre @ zents es @ 255 # post) key want found (length pre) =
    (case (if key = None \<or> found \<noteq> None then None else zpos (the key) (length pre) es) of
       Some p \<Rightarrow> Some (Some p, if want then length pre + length (zents es) else p)
     | None \<Rightarrow> Some (found, length pre + length (zents es)))"
  using assms
proof (induction es arbitrary: pre found)
  case Nil
  then show ?case by (subst lookup_scan.simps) (auto simp: ZIPMAP_END_def split: option.splits)
next
  case (Cons e es)
  obtain k v f where e: "e = (k, v, f)" by (cases e)
  have step: "lookup_scan ((pre @ zent e) @ zents es @ 255 # post) key want found' (length (pre @ zent e)) =
    (case (if key = None \<or> found' \<noteq> None then None else zpos (the key) (length (pre @ zent e)) es) of
       Some p \<Rightarrow> Some (Some p, if want then length (pre @ zent e) + length (zents es) else p)
     | None \<Rightarrow> Some (found', length (pre @ zent e) + length (zents es)))" if "found' \<noteq> None \<Longrightarrow> the key \<notin> fst ` set es" for found'
    using Cons.IH [of found' "pre @ zent e"] Cons.prems that by simp
  have "lookup_scan (pre @ zent e @ zents es @ 255 # post) key want found (length pre) =
    (let same = (key \<noteq> None \<and> found = None \<and> the key = k) in
     if same \<and> \<not> want then Some (Some (length pre), length pre)
     else lookup_scan (pre @ zent e @ zents es @ 255 # post) key want (if same then Some (length pre) else found)
            (length pre + length (zent e)))"
    unfolding e using Cons.prems(1) e by (intro lookup_scan_entry) simp
  then show ?case using step [of "Some (length pre)"] step [of found] Cons.prems e
    by (cases key) (auto simp: Let_def zpos_None add.assoc split: option.split)
qed

lemma zm_repD:
  assumes "zm_rep zm es"
  obtains n where "zm = [n] @ zents es @ 255 # []" "unat n < 254 \<longrightarrow> unat n = length es" "list_all zent_ok es" "distinct (map fst es)"
    "length zm < 2 ^ 32" "length zm = length (zents es) + 2"
  using assms by (auto simp: zm_rep_def)

lemma lookup_raw:
  assumes "zm_rep zm es"
  shows "zipmapLookupRaw zm key want =
    (case (if key = None then None else zpos (the key) 1 es) of
       Some p \<Rightarrow> Some (Some p, if want then length zm else uint32 (p + 1))
     | None \<Rightarrow> Some (None, length zm))"
proof -
  from assms obtain n where z: "zm = [n] @ zents es @ 255 # []" "list_all zent_ok es" "distinct (map fst es)" "length zm < 2 ^ 32"
    by (rule zm_repD)
  have "lookup_scan zm key want None 1 =
    (case (if key = None then None else zpos (the key) 1 es) of
       Some p \<Rightarrow> Some (Some p, if want then 1 + length (zents es) else p)
     | None \<Rightarrow> Some (None, 1 + length (zents es)))"
    using lookup_scan_entries [OF z(2,3), of None key "[n]" "[]" want] z(1) by (auto split: option.splits)
  then show ?thesis using z(1,4) by (auto simp: zipmapLookupRaw_def split: option.splits if_split_asm)
qed

section \<open>Making room\<close>

lemma key_split:
  assumes "key \<in> fst ` set es" and "distinct (map fst es)"
  obtains es1 v f es2 where "es = es1 @ (key, v, f) # es2" and "key \<notin> fst ` set es1" and "key \<notin> fst ` set es2"
proof -
  obtain e where e: "e \<in> set es" "fst e = key" using assms(1) by auto
  obtain es1 es2 where s: "es = es1 @ e # es2" using split_list [OF e(1)] by blast
  moreover obtain v f where "e = (key, v, f)" using e(2) by (cases e) auto
  ultimately show ?thesis using that assms(2) by auto
qed

lemma raw_lengths:
  assumes "zent_ok (k, v, f)" and "length (pre @ zent (k, v, f) @ post) < 2 ^ 32"
  shows "zipmapRawKeyLength (pre @ zent (k, v, f) @ post) (length pre) = Some (ZIPMAP_LEN_BYTES (length k) + length k)"
    and "zipmapDecodeLength (pre @ zent (k, v, f) @ post) (length pre + (ZIPMAP_LEN_BYTES (length k) + length k)) = Some (length v)"
    and "zipmapRawValueLength (pre @ zent (k, v, f) @ post) (length pre + (ZIPMAP_LEN_BYTES (length k) + length k)) =
      Some (ZIPMAP_LEN_BYTES (length v) + 1 + length v + length f)"
    and "zipmapRawEntryLength (pre @ zent (k, v, f) @ post) (length pre) = Some (length (zent (k, v, f)))"
proof -
  have ok: "length k < 2 ^ 32" "length v < 2 ^ 32" "length f < 4" using assms by (simp_all add: zent_ok_def)
  define zm where "zm = pre @ zent (k, v, f) @ post"
  define kl vl where "kl = ZIPMAP_LEN_BYTES (length k)" and "vl = ZIPMAP_LEN_BYTES (length v)"
  have small: "kl + length k + (vl + 1 + length v + length f) < 2 ^ 32" using assms(2) by (simp add: kl_def vl_def length_zent)
  have d: "zipmapDecodeLength zm (length pre) = Some (length k)"
    using decode_zlen [OF ok(1), of pre "k @ zlen (length v) @ [word_of_nat (length f)] @ v @ f @ post"] by (simp add: zm_def zent_def)
  have e: "zipmapDecodeLength zm (length pre + (kl + length k)) = Some (length v)"
    using decode_zlen [OF ok(2), of "pre @ zlen (length k) @ k" "[word_of_nat (length f)] @ v @ f @ post"]
    by (simp add: zm_def kl_def zent_def)
  have g: "mem_byte zm (length pre + (kl + length k) + vl) = Some (word_of_nat (length f))"
    using mem_byte_append [of "pre @ zlen (length k) @ k @ zlen (length v)" _ "word_of_nat (length f)" "v @ f @ post"]
    by (simp add: zm_def kl_def vl_def zent_def add.assoc)
  have K: "zipmapRawKeyLength zm (length pre) = Some (kl + length k)"
    using small by (simp add: zipmapRawKeyLength_def d flip: kl_def)
  have V: "zipmapRawValueLength zm (length pre + (kl + length k)) = Some (vl + 1 + length v + length f)"
    using small ok(3) by (simp add: zipmapRawValueLength_def e g flip: vl_def)
  have "zipmapRawEntryLength zm (length pre) = Some (length (zent (k, v, f)))"
    using small by (simp add: zipmapRawEntryLength_def K V length_zent flip: kl_def vl_def)
  then show "zipmapRawKeyLength (pre @ zent (k, v, f) @ post) (length pre) = Some (ZIPMAP_LEN_BYTES (length k) + length k)"
    and "zipmapDecodeLength (pre @ zent (k, v, f) @ post) (length pre + (ZIPMAP_LEN_BYTES (length k) + length k)) = Some (length v)"
    and "zipmapRawValueLength (pre @ zent (k, v, f) @ post) (length pre + (ZIPMAP_LEN_BYTES (length k) + length k)) =
      Some (ZIPMAP_LEN_BYTES (length v) + 1 + length v + length f)"
    and "zipmapRawEntryLength (pre @ zent (k, v, f) @ post) (length pre) = Some (length (zent (k, v, f)))"
    using K V e unfolding zm_def kl_def vl_def by simp_all
qed

lemma required_length:
  "length (zent (k, v, [])) < 2 ^ 32 \<Longrightarrow> zipmapRequiredLength (length k) (length v) = length (zent (k, v, []))"
  by (auto simp: zipmapRequiredLength_def length_zent ZIPMAP_LEN_BYTES_def ZIPMAP_BIGLEN_def Let_def)

text \<open>\<^verbatim>\<open>zipmapResize\<close> to a larger and to a smaller size.\<close>

lemma resize_larger:
  assumes "0 < d" and "length (pre @ [255 :: byte]) + d < 2 ^ 32"
  shows "\<exists>r. length r = d \<and> zipmapResize (pre @ [255]) (length (pre @ [255]) + d) = Some (pre @ r @ [255])"
proof -
  let ?r = "255 # replicate (d - 1) uninit"
  have "zrealloc (pre @ [255]) (length (pre @ [255]) + d) = (pre @ ?r) @ [uninit]"
    using assms(1) by (cases d) (simp_all add: zrealloc_def replicate_append_same)
  moreover have "usub32 (length (pre @ [255 :: byte]) + d) 1 = length (pre @ ?r)" using assms by simp
  ultimately have "zipmapResize (pre @ [255]) (length (pre @ [255]) + d) = Some ((pre @ ?r) @ [255])"
    by (simp add: zipmapResize_def mem_write_def ZIPMAP_END_def)
  then show ?thesis using assms(1) by (intro exI [of _ ?r]) simp
qed

lemma resize_smaller:
  assumes "length pre + 1 < 2 ^ 32" and "r \<noteq> []"
  shows "zipmapResize (pre @ r) (length pre + 1) = Some (pre @ [255])"
proof -
  have "zrealloc (pre @ r) (length pre + 1) = pre @ [hd r]" using assms(2) by (cases r) (simp_all add: zrealloc_def)
  then show ?thesis using assms(1) by (simp add: zipmapResize_def mem_write_def ZIPMAP_END_def)
qed

lemma move_up:
  assumes "length r = d"
  shows "\<exists>g. length g = length b + d \<and>
    mem_move (a @ b @ c @ r @ z) (length a + (length b + d)) (length a + length b) (length c) = Some (a @ g @ c @ z)"
proof -
  have "mem_read (a @ b @ c @ r @ z) (length a + length b) (length c) = Some c"
    using mem_read_append [of "a @ b" _ c _ "r @ z"] by simp
  moreover have "mem_write (a @ b @ c @ r @ z) (length a + (length b + d)) c =
      Some (a @ take (length b + d) (b @ c @ r @ z) @ c @ z)"
    using assms by (simp add: mem_write_def)
  ultimately show ?thesis using assms by (intro exI [of _ "take (length b + d) (b @ c @ r @ z)"]) (simp add: mem_move_def)
qed

lemma move_down:
  assumes "length b' \<le> length b" and "b' = take (length b') b"
  shows "\<exists>r. length r = length b - length b' \<and>
    mem_move (a @ b @ c @ z) (length a + length b') (length a + length b) (length c) = Some (a @ b' @ c @ r @ z)"
proof -
  have m: "mem_read (a @ b @ c @ z) (length a + length b) (length c) = Some c"
    using mem_read_append [of "a @ b" _ c _ z] by simp
  let ?r = "drop (length b' + length c) (b @ c)"
  have "mem_write (a @ b @ c @ z) (length a + length b') c = Some (a @ b' @ c @ ?r @ z)"
    using assms by (simp add: mem_write_def)
  then show ?thesis using m assms(1) by (intro exI [of _ ?r]) (simp add: mem_move_def)
qed

section \<open>Update\<close>

lemma split_bytes:
  assumes "length xs = m + n"
  obtains a b where "xs = a @ b" and "length a = m" and "length b = n"
  using that [of "take m xs" "drop m xs"] assms by simp

text \<open>The room for an entry: bytes of any content between the entries before and after it.\<close>

lemma zm_write_entry:
  assumes "length room = length (zent (key, val, [])) + ve" and "ve < 4" and "length key < 2 ^ 32" and "length val < 2 ^ 32"
  shows "\<exists>f. length f = ve \<and>
     do { (zm, n) \<leftarrow> zipmapEncodeLength (pre @ room @ post) (length pre) (length key);
          p \<leftarrow> Some (length pre + n);
          zm \<leftarrow> mem_write zm p key;
          p \<leftarrow> Some (p + length key);
          (zm, n) \<leftarrow> zipmapEncodeLength zm p (length val);
          p \<leftarrow> Some (p + n);
          zm \<leftarrow> mem_write zm p [word_of_nat ve];
          zm \<leftarrow> mem_write zm (p + 1) val;
          Some (zm, present) } = Some (pre @ zent (key, val, f) @ post, present)"
proof -
  define kl vl where "kl = ZIPMAP_LEN_BYTES (length key)" and "vl = ZIPMAP_LEN_BYTES (length val)"
  have len: "length room = kl + (length key + (vl + (1 + (length val + ve))))"
    using assms(1) by (simp add: length_zent kl_def vl_def)
  obtain a r1 where 1: "room = a @ r1" "length a = kl" "length r1 = length key + (vl + (1 + (length val + ve)))" using len by (rule split_bytes)
  obtain b r2 where 2: "r1 = b @ r2" "length b = length key" "length r2 = vl + (1 + (length val + ve))" using 1(3) by (rule split_bytes)
  obtain c r3 where 3: "r2 = c @ r3" "length c = vl" "length r3 = 1 + (length val + ve)" using 2(3) by (rule split_bytes)
  obtain d r4 where 4: "r3 = d @ r4" "length d = 1" "length r4 = length val + ve" using 3(3) by (rule split_bytes)
  obtain e f where 5: "r4 = e @ f" "length e = length val" "length f = ve" using 4(3) by (rule split_bytes)
  have room: "room = a @ b @ c @ d @ e @ f" by (simp only: 1(1) 2(1) 3(1) 4(1) 5(1) append_assoc)
  note l = 1(2) 2(2) 3(2) 4(2) 5(2,3)
  have s1: "zipmapEncodeLength (pre @ room @ post) (length pre) (length key) =
      Some (pre @ zlen (length key) @ b @ c @ d @ e @ f @ post, kl)"
    using encode_zlen [OF assms(3), of a pre "b @ c @ d @ e @ f @ post"] l(1) by (simp add: room kl_def)
  have s2: "mem_write (pre @ zlen (length key) @ b @ c @ d @ e @ f @ post) (length pre + kl) key =
      Some (pre @ zlen (length key) @ key @ c @ d @ e @ f @ post)"
    using mem_write_append [OF refl l(2) [symmetric], of "pre @ zlen (length key)" "c @ d @ e @ f @ post"] by (simp add: kl_def)
  have s3: "zipmapEncodeLength (pre @ zlen (length key) @ key @ c @ d @ e @ f @ post) (length pre + kl + length key) (length val) =
      Some (pre @ zlen (length key) @ key @ zlen (length val) @ d @ e @ f @ post, vl)"
    using encode_zlen [OF assms(4), of c "pre @ zlen (length key) @ key" "d @ e @ f @ post"] l(3) by (simp add: kl_def vl_def add.assoc)
  have s4: "mem_write (pre @ zlen (length key) @ key @ zlen (length val) @ d @ e @ f @ post) (length pre + kl + length key + vl) [word_of_nat ve] =
      Some (pre @ zlen (length key) @ key @ zlen (length val) @ [word_of_nat ve] @ e @ f @ post)"
    using mem_write_append [OF refl, of "[word_of_nat ve]" d "pre @ zlen (length key) @ key @ zlen (length val)" "e @ f @ post"] l(4)
    by (simp add: kl_def vl_def add.assoc)
  have s5: "mem_write (pre @ zlen (length key) @ key @ zlen (length val) @ [word_of_nat ve] @ e @ f @ post) (length pre + kl + length key + vl + 1) val =
      Some (pre @ zent (key, val, f) @ post)"
    using mem_write_append [OF refl l(5) [symmetric], of "pre @ zlen (length key) @ key @ zlen (length val) @ [word_of_nat ve]" "f @ post"] l(6)
    by (simp add: kl_def vl_def zent_def add.assoc)
  show ?thesis
    by (intro exI [of _ f] conjI l(6)) (simp only: s1 s2 s3 s4 s5 Option.bind.bind_lunit prod.case)
qed

lemma count_entry_up:
  assumes "unat n < 254 \<longrightarrow> unat n = l"
  shows "\<exists>n'. count_entry ([n] @ r) 1 = Some ([n'] @ r) \<and> (unat n' < 254 \<longrightarrow> unat n' = Suc l)"
proof (cases "unat n < 254")
  case True
  then have "unat (n + 1) = unat n + 1" by (simp add: unat_word_ariths(1))
  then show ?thesis using True assms by (simp add: count_entry_def ZIPMAP_BIGLEN_def mem_write_def)
qed (simp add: count_entry_def ZIPMAP_BIGLEN_def)

lemma count_entry_down:
  assumes "unat n < 254 \<longrightarrow> unat n = Suc l"
  shows "\<exists>n'. count_entry ([n] @ r) (- 1) = Some ([n'] @ r) \<and> (unat n' < 254 \<longrightarrow> unat n' = l)"
proof (cases "unat n < 254")
  case True
  then have "n \<noteq> 0" using assms by auto
  then have "unat (n - 1) = unat n - 1" using unat_minus_one by blast
  then show ?thesis using True assms by (simp add: count_entry_def ZIPMAP_BIGLEN_def mem_write_def)
qed (simp add: count_entry_def ZIPMAP_BIGLEN_def)

text \<open>The result of \<open>make_room\<close>: the entries before the new one, the room, the entries after it.\<close>

definition room_ready :: "zentry list \<Rightarrow> zentry list \<Rightarrow> byte \<Rightarrow> byte list \<Rightarrow> nat \<Rightarrow> (byte list \<times> nat \<times> nat \<times> nat \<times> bool) option \<Rightarrow> bool \<Rightarrow> bool" where
  "room_ready es1 es2 n room reqlen r present \<longleftrightarrow>
     r = Some ([n] @ zents es1 @ room @ zents es2 @ [255], length ([n] @ zents es1), length room,
       length ([n] @ zents es1 @ room @ zents es2 @ [255]), present) \<and> reqlen \<le> length room"

lemma make_room_new:
  assumes z: "zm_rep zm es" and "key \<notin> fst ` set es" and "3 \<le> reqlen" and "length zm + reqlen < 2 ^ 32"
  shows "\<exists>n room. room_ready es [] n room reqlen (make_room zm key reqlen) False \<and> length room = reqlen \<and> (unat n < 254 \<longrightarrow> unat n = Suc (length es))"
proof -
  obtain n where n: "zm = [n] @ zents es @ [255]" "unat n < 254 \<longrightarrow> unat n = length es" "length zm = length (zents es) + 2"
    using z by (auto elim: zm_repD)
  have l: "zipmapLookupRaw zm (Some key) True = Some (None, length zm)" using lookup_raw [OF z] zpos_None [OF assms(2)] by simp
  obtain r where r: "length r = reqlen" "zipmapResize zm (length zm + reqlen) = Some ([n] @ zents es @ r @ [255])"
    using resize_larger [of reqlen "[n] @ zents es"] assms(3,4) n(1) by auto
  obtain n' where n': "count_entry ([n] @ zents es @ r @ [255]) 1 = Some ([n'] @ zents es @ r @ [255])" "unat n' < 254 \<longrightarrow> unat n' = Suc (length es)"
    using count_entry_up [OF n(2)] by blast
  have "make_room zm key reqlen = Some ([n'] @ zents es @ r @ [255], length zm - 1, reqlen, length zm + reqlen, False)"
    using assms(4) r(2) n'(1) by (simp add: make_room_def l)
  then show ?thesis using r(1) n' n(3) by (intro exI [of _ n'] exI [of _ r]) (simp add: room_ready_def)
qed

lemma make_room_old:
  assumes z: "zm_rep zm (es1 @ (key, v, f) # es2)" and "length zm + reqlen < 2 ^ 32"
  shows "\<exists>n room. room_ready es1 es2 n room reqlen (make_room zm key reqlen) True \<and>
    length room = max reqlen (length (zent (key, v, f))) \<and> (unat n < 254 \<longrightarrow> unat n = Suc (length es1 + length es2))"
proof -
  let ?e = "zent (key, v, f)"
  obtain n where n: "zm = [n] @ zents es1 @ ?e @ zents es2 @ [255]" "unat n < 254 \<longrightarrow> unat n = Suc (length es1 + length es2)"
    and d: "key \<notin> fst ` set es1" and ok: "zent_ok (key, v, f)" and len: "length zm < 2 ^ 32"
    using z by (auto elim!: zm_repD)
  define p where "p = length ([n] @ zents es1)"
  have pos: "zpos key 1 (es1 @ (key, v, f) # es2) = Some p" using zpos_split [OF d, of 1] by (simp add: p_def)
  have l: "zipmapLookupRaw zm (Some key) True = Some (Some p, length zm)" using lookup_raw [OF z] pos by simp
  have e: "zipmapRawEntryLength zm p = Some (length ?e)"
    using raw_lengths(4) [OF ok, of "[n] @ zents es1" "zents es2 @ [255]"] len by (simp add: n(1) p_def)
  have zl: "length zm = p + length ?e + length (zents es2) + 1" by (simp add: n(1) p_def)
  show ?thesis
  proof (cases "length ?e < reqlen")
    case False
    then have "make_room zm key reqlen = Some (zm, p, length ?e, length zm, True)" by (simp add: make_room_def l e)
    then have "room_ready es1 es2 n ?e reqlen (make_room zm key reqlen) True" using False n(1) by (simp add: room_ready_def p_def)
    then show ?thesis using False n(2) by (intro exI [of _ n] exI [of _ ?e]) simp
  next
    case True
    define d where "d = reqlen - length ?e"
    have new: "uint32 (usub32 (length zm) (length ?e) + reqlen) = length zm + d"
      using True zl len assms(2) by (simp add: d_def)
    have tail: "usub32 (length zm) (p + length ?e + 1) = length (zents es2)" using zl len by simp
    obtain r where r: "length r = d" "zipmapResize zm (length zm + d) = Some ([n] @ zents es1 @ ?e @ zents es2 @ r @ [255])"
      using resize_larger [of d "[n] @ zents es1 @ ?e @ zents es2"] True assms(2) n(1) by (auto simp: d_def)
    obtain g where g: "length g = length ?e + d"
      "mem_move (([n] @ zents es1) @ ?e @ zents es2 @ r @ [255]) (p + (length ?e + d)) (p + length ?e) (length (zents es2)) =
         Some (([n] @ zents es1) @ g @ zents es2 @ [255])"
      using move_up [OF r(1), of ?e "[n] @ zents es1" "zents es2" "[255]"] unfolding p_def by blast
    have req: "reqlen = length ?e + d" using True by (simp add: d_def)
    have "make_room zm key reqlen = Some ([n] @ zents es1 @ g @ zents es2 @ [255], p, reqlen, length zm + d, True)"
      using r(2) g(2) [folded req] True new tail by (simp add: make_room_def l e)
    then have "room_ready es1 es2 n g reqlen (make_room zm key reqlen) True" using g(1) zl by (simp add: room_ready_def p_def req)
    then show ?thesis using g(1) req True n(2) by (intro exI [of _ n] exI [of _ g]) simp
  qed
qed

lemma cut_room_ready:
  assumes r: "room_ready es1 es2 n room reqlen (Some (zm, p, freelen, zmlen, present)) pr" and "length zm < 2 ^ 32"
  shows "\<exists>room' ve. cut_room zm p freelen reqlen zmlen = Some ([n] @ zents es1 @ room' @ zents es2 @ [255], ve) \<and>
    length room' = reqlen + ve \<and> ve < 4"
proof -
  have zm: "zm = [n] @ zents es1 @ room @ zents es2 @ [255]" and p: "p = length ([n] @ zents es1)" "freelen = length room" "zmlen = length zm"
    and le: "reqlen \<le> length room" using r by (auto simp: room_ready_def)
  have e: "usub32 freelen reqlen = length room - reqlen" using le p assms(2) zm by simp
  show ?thesis
  proof (cases "length room - reqlen \<ge> ZIPMAP_VALUE_MAX_FREE")
    case False
    then show ?thesis using le by (intro exI [of _ room] exI [of _ "length room - reqlen"])
      (simp add: cut_room_def e Let_def zm ZIPMAP_VALUE_MAX_FREE_def)
  next
    case True
    define room' where "room' = take reqlen room"
    have l: "length room' = reqlen" "room' = take (length room') room" using le by (simp_all add: room'_def)
    have tail: "usub32 zmlen (p + freelen + 1) = length (zents es2)" using p assms(2) zm by simp
    obtain q where q: "length q = length room - reqlen"
      "mem_move zm (p + reqlen) (p + freelen) (length (zents es2)) = Some ([n] @ zents es1 @ room' @ zents es2 @ q @ [255])"
      using move_down [of room' room "[n] @ zents es1" "zents es2" "[255]"] l le p(1,2) zm by auto
    have small: "usub32 zmlen (length room - reqlen) = length ([n] @ zents es1 @ room' @ zents es2) + 1"
      using p assms(2) zm le l by simp
    have "zipmapResize ([n] @ zents es1 @ room' @ zents es2 @ q @ [255]) (usub32 zmlen (length room - reqlen)) =
        Some ([n] @ zents es1 @ room' @ zents es2 @ [255])"
      using resize_smaller [of "[n] @ zents es1 @ room' @ zents es2" "q @ [255]"] small assms(2) zm le l by simp
    then have "cut_room zm p freelen reqlen zmlen = Some ([n] @ zents es1 @ room' @ zents es2 @ [255], 0)"
      using True q(2) tail by (simp add: cut_room_def e Let_def)
    then show ?thesis using l(1) by (intro exI [of _ room'] exI [of _ 0]) simp
  qed
qed

definition zcost :: "byte list \<Rightarrow> byte list \<Rightarrow> nat" where
  "zcost key val = length (zent (key, val, []))"

lemma zcost_bounds: "3 \<le> zcost key val" "length key < zcost key val" "length val < zcost key val"
  by (simp_all add: zcost_def length_zent ZIPMAP_LEN_BYTES_def)

text \<open>Once there is room, the update writes the entry between the others.\<close>

lemma set_in_room:
  assumes room: "room_ready es1 es2 n room (zcost key val) (make_room zm key (zcost key val)) present"
    and "length ([n] @ zents es1 @ room @ zents es2 @ [255]) < 2 ^ 32" and "zcost key val < 2 ^ 32"
  shows "\<exists>f. length f < 4 \<and> zipmapSet zm key val = Some ([n] @ zents (es1 @ (key, val, f) # es2) @ [255], present) \<and>
    length f \<le> length room - zcost key val"
proof -
  obtain zm1 p freelen zmlen pr where m: "make_room zm key (zcost key val) = Some (zm1, p, freelen, zmlen, pr)"
    using room by (auto simp: room_ready_def)
  note r = room [unfolded m]
  have zm1: "zm1 = [n] @ zents es1 @ room @ zents es2 @ [255]" "p = length ([n] @ zents es1)" "pr = present" "freelen = length room"
    using r by (auto simp: room_ready_def)
  obtain room' ve where c: "cut_room zm1 p freelen (zcost key val) zmlen = Some ([n] @ zents es1 @ room' @ zents es2 @ [255], ve)"
    "length room' = zcost key val + ve" "ve < 4"
    using cut_room_ready [OF r] assms(2) zm1(1) by auto
  have le: "ve \<le> length room - zcost key val"
  proof -
    have "ve = 0 \<or> ve = usub32 freelen (zcost key val)" using c(1) by (auto simp: cut_room_def Let_def bind_Some_iff split: if_splits)
    then show ?thesis using zm1(4) r assms(2) by (auto simp: room_ready_def)
  qed
  have lens: "length key < 2 ^ 32" "length val < 2 ^ 32" using zcost_bounds(2) [of key val] zcost_bounds(3) [of val key] assms(3) by simp_all
  define pre where "pre = [n] @ zents es1"
  obtain f where f: "length f = ve"
     "do { (zm, n) \<leftarrow> zipmapEncodeLength (pre @ room' @ zents es2 @ [255]) (length pre) (length key);
          p \<leftarrow> Some (length pre + n);
          zm \<leftarrow> mem_write zm p key;
          p \<leftarrow> Some (p + length key);
          (zm, n) \<leftarrow> zipmapEncodeLength zm p (length val);
          p \<leftarrow> Some (p + n);
          zm \<leftarrow> mem_write zm p [word_of_nat ve];
          zm \<leftarrow> mem_write zm (p + 1) val;
          Some (zm, present) } = Some (pre @ zent (key, val, f) @ zents es2 @ [255], present)"
    using zm_write_entry [OF c(2) [unfolded zcost_def] c(3) lens, of pre "zents es2 @ [255]" present] by blast
  have "zipmapRequiredLength (length key) (length val) = zcost key val" using required_length assms(3) by (simp add: zcost_def)
  moreover have "cut_room zm1 (length pre) freelen (zcost key val) zmlen = Some (pre @ room' @ zents es2 @ [255], ve)"
    using c(1) by (simp add: pre_def zm1(2))
  moreover have p: "p = length pre" by (simp add: pre_def zm1(2))
  ultimately have "zipmapSet zm key val = Some (pre @ zent (key, val, f) @ zents es2 @ [255], present)"
    unfolding zipmapSet_def using f(2) by (simp add: m zm1(3) p)
  then show ?thesis using f(1) c(3) le by (intro exI [of _ f]) (simp add: pre_def)
qed

section \<open>The operations on the list of bindings\<close>

lemma zm_repI:
  assumes "zm = [n] @ zents es @ [255]" and "unat n < 254 \<longrightarrow> unat n = length es" and "list_all zent_ok es" and "distinct (map fst es)"
    and "length zm < 2 ^ 32"
  shows "zm_rep zm es"
  using assms by (auto simp: zm_rep_def)

lemma length_zent_free: "length (zent (key, val, f)) = zcost key val + length f"
  by (simp add: length_zent zcost_def)

lemma update_bindings_old:
  "key \<notin> fst ` set es1 \<Longrightarrow> map binding (es1 @ (key, val, f) # es2) = AList.update key val (map binding (es1 @ (key, v, g) # es2))"
  by (induction es1) (auto simp: binding_def)

lemma update_bindings_new:
  "key \<notin> fst ` set es \<Longrightarrow> map binding (es @ [(key, val, f)]) = AList.update key val (map binding es)"
  by (induction es) (auto simp: binding_def)

lemma zipmapSet_rep:
  assumes z: "zm_rep zm es" and small: "length zm + zcost key val < 2 ^ 32"
  shows "\<exists>zm' es'. zipmapSet zm key val = Some (zm', key \<in> fst ` set es) \<and> zm_rep zm' es' \<and>
    map binding es' = AList.update key val (map binding es) \<and> length zm' \<le> length zm + zcost key val"
proof -
  have lens: "length key < 2 ^ 32" "length val < 2 ^ 32" "zcost key val < 2 ^ 32"
    using zcost_bounds(2) [of key val] zcost_bounds(3) [of val key] small by simp_all
  have len: "length zm = length (zents es) + 2" and d: "distinct (map fst es)" using z by (auto elim: zm_repD)
  show ?thesis
  proof (cases "key \<in> fst ` set es")
    case False
    obtain n room where r: "room_ready es [] n room (zcost key val) (make_room zm key (zcost key val)) False"
      and room: "length room = zcost key val" "unat n < 254 \<longrightarrow> unat n = Suc (length es)"
      using make_room_new [OF z False zcost_bounds(1) small] by blast
    obtain f where f: "length f < 4" "zipmapSet zm key val = Some ([n] @ zents (es @ [(key, val, f)]) @ [255], False)" "f = []"
      using set_in_room [OF r _ lens(3)] room(1) small len by auto
    have "zm_rep ([n] @ zents (es @ [(key, val, f)]) @ [255]) (es @ [(key, val, f)])"
      using z False room(2) lens small len f(3)
      by (intro zm_repI) (auto simp: zm_rep_def zent_ok_def length_zent_free list_all_iff)
    then show ?thesis using f False len update_bindings_new [OF False, of val f]
      by (intro exI [of _ "[n] @ zents (es @ [(key, val, f)]) @ [255]"] exI [of _ "es @ [(key, val, f)]"])
        (simp add: length_zent_free)
  next
    case True
    then obtain es1 v g es2 where es: "es = es1 @ (key, v, g) # es2" "key \<notin> fst ` set es1" "key \<notin> fst ` set es2"
      by (rule key_split [OF _ d])
    obtain n room where r: "room_ready es1 es2 n room (zcost key val) (make_room zm key (zcost key val)) True"
      and room: "length room = max (zcost key val) (length (zent (key, v, g)))" "unat n < 254 \<longrightarrow> unat n = Suc (length es1 + length es2)"
      using make_room_old [OF z [unfolded es] small] by blast
    have "length room \<le> zcost key val + length (zent (key, v, g))" by (simp add: room(1))
    then have fits: "length ([n] @ zents es1 @ room @ zents es2 @ [255]) < 2 ^ 32" using small len es(1) by simp
    obtain f where f: "length f < 4" "zipmapSet zm key val = Some ([n] @ zents (es1 @ (key, val, f) # es2) @ [255], True)"
      "length f \<le> length room - zcost key val"
      using set_in_room [OF r _ lens(3)] fits by blast
    have le: "length ([n] @ zents (es1 @ (key, val, f) # es2) @ [255]) \<le> length zm + zcost key val"
      using f(3) room(1) len es(1) by (simp add: length_zent_free)
    have "zm_rep ([n] @ zents (es1 @ (key, val, f) # es2) @ [255]) (es1 @ (key, val, f) # es2)"
      using z room(2) lens small f(1) le unfolding es(1)
      by (intro zm_repI) (auto simp: zm_rep_def zent_ok_def)
    moreover have t: "(key \<in> fst ` set es) = True" using True by simp
    ultimately show ?thesis using f(2) le update_bindings_old [OF es(2), of val f es2 v g] unfolding t by (auto simp: es(1))
  qed
qed

lemma zipmapDel_rep:
  assumes z: "zm_rep zm es"
  shows "\<exists>zm' es'. zipmapDel zm key = Some (zm', key \<in> fst ` set es) \<and> zm_rep zm' es' \<and>
    map binding es' = AList.delete key (map binding es) \<and> length zm' \<le> length zm"
proof (cases "key \<in> fst ` set es")
  case False
  then have "map binding es = AList.delete key (map binding es)"
    by (induction es) (auto simp: binding_def AList.delete_eq)
  then show ?thesis using lookup_raw [OF z, of "Some key" True] zpos_None [OF False] False z
    by (intro exI [of _ zm] exI [of _ es]) (simp add: zipmapDel_def)
next
  case True
  have d: "distinct (map fst es)" using z by (auto elim: zm_repD)
  from True obtain es1 v g es2 where es: "es = es1 @ (key, v, g) # es2" "key \<notin> fst ` set es1" "key \<notin> fst ` set es2"
    by (rule key_split [OF _ d])
  let ?e = "zent (key, v, g)"
  obtain n where n: "zm = [n] @ zents es1 @ ?e @ zents es2 @ [255]" "unat n < 254 \<longrightarrow> unat n = Suc (length es1 + length es2)"
    and ok: "zent_ok (key, v, g)" and len: "length zm < 2 ^ 32"
    using z es(1) by (auto elim!: zm_repD)
  define p where "p = length ([n] @ zents es1)"
  have pos: "zpos key 1 es = Some p" using zpos_split [OF es(2), of 1] es(1) by (simp add: p_def)
  have l: "zipmapLookupRaw zm (Some key) True = Some (Some p, length zm)" using lookup_raw [OF z] pos by simp
  have e: "zipmapRawEntryLength zm p = Some (length ?e)"
    using raw_lengths(4) [OF ok, of "[n] @ zents es1" "zents es2 @ [255]"] len by (simp add: n(1) p_def)
  have zl: "length zm = p + length ?e + length (zents es2) + 1" by (simp add: n(1) p_def)
  have tail: "usub32 (length zm) (p + length ?e + 1) = length (zents es2)" using zl len by simp
  obtain q where q: "mem_move zm p (p + length ?e) (length (zents es2)) = Some ([n] @ zents es1 @ zents es2 @ q @ [255])"
    using move_down [of "[]" ?e "[n] @ zents es1" "zents es2" "[255]"] n(1) p_def by auto
  have "usub32 (length zm) (length ?e) = length ([n] @ zents es1 @ zents es2) + 1" using zl len by (simp add: p_def)
  then have s: "zipmapResize ([n] @ zents es1 @ zents es2 @ q @ [255]) (usub32 (length zm) (length ?e)) = Some ([n] @ zents es1 @ zents es2 @ [255])"
    using resize_smaller [of "[n] @ zents es1 @ zents es2" "q @ [255]"] len n(1) by simp
  obtain n' where n': "count_entry ([n] @ zents es1 @ zents es2 @ [255]) (- 1) = Some ([n'] @ zents es1 @ zents es2 @ [255])"
    "unat n' < 254 \<longrightarrow> unat n' = length es1 + length es2"
    using count_entry_down [OF n(2)] by blast
  let ?z = "[n'] @ zents (es1 @ es2) @ [255]"
  have "zipmapDel zm key = Some (?z, True)" using q tail s n'(1) by (simp add: zipmapDel_def l e)
  moreover have "zm_rep ?z (es1 @ es2)"
    using z n'(2) len n(1) unfolding es(1) by (intro zm_repI) (auto simp: zm_rep_def)
  moreover have "map binding (es1 @ es2) = AList.delete key (map binding es)"
  proof -
    have "AList.delete key (map binding es') = map binding es'" if "key \<notin> fst ` set es'" for es'
      using that by (induction es') (auto simp: binding_def AList.delete_eq)
    then show ?thesis using es by (simp add: AList.delete_eq binding_def)
  qed
  moreover have "length ?z \<le> length zm" using n(1) by simp
  ultimately show ?thesis using True by (intro exI [of _ ?z] exI [of _ "es1 @ es2"]) simp
qed

section \<open>Reading\<close>

lemma zipmapNext_end: "zipmapNext (pre @ 255 # post) (length pre) = Some None"
  by (simp add: zipmapNext_def ZIPMAP_END_def)

text \<open>What the iterator returns points at the key and the value of the entry.\<close>

lemma zipmapNext_entry:
  assumes ok: "zent_ok (k, v, f)" and len: "length (pre @ zent (k, v, f) @ post) < 2 ^ 32"
  shows "\<exists>kp vp. zipmapNext (pre @ zent (k, v, f) @ post) (length pre) =
      Some (Some ((kp, length k), (vp, length v), length pre + length (zent (k, v, f)))) \<and>
    mem_read (pre @ zent (k, v, f) @ post) kp (length k) = Some k \<and> mem_read (pre @ zent (k, v, f) @ post) vp (length v) = Some v"
proof -
  have o: "length k < 2 ^ 32" using ok by (simp add: zent_ok_def)
  define zm where "zm = pre @ zent (k, v, f) @ post"
  define kl vl where "kl = ZIPMAP_LEN_BYTES (length k)" and "vl = ZIPMAP_LEN_BYTES (length v)"
  note raw = raw_lengths [OF ok len, folded zm_def kl_def vl_def]
  obtain b r where b: "zlen (length k) = b # r" "b \<noteq> 255" using zlen_head [OF o] by blast
  have c: "mem_byte zm (length pre) = Some b" using b by (simp add: zm_def zent_def)
  have d: "zipmapDecodeLength zm (length pre) = Some (length k)"
    using decode_zlen [OF o, of pre "k @ zlen (length v) @ [word_of_nat (length f)] @ v @ f @ post"] by (simp add: zm_def zent_def)
  have mk: "mem_read zm (length pre + kl) (length k) = Some k"
    using mem_read_append [OF refl refl, of "pre @ zlen (length k)" k "zlen (length v) @ [word_of_nat (length f)] @ v @ f @ post"]
    by (simp add: zm_def kl_def zent_def)
  have mv: "mem_read zm (length pre + (kl + length k) + 1 + vl) (length v) = Some v"
    using mem_read_append [OF _ refl, of "pre @ zlen (length k) @ k @ zlen (length v) @ [word_of_nat (length f)]"
        "length pre + (kl + length k) + 1 + vl" v "f @ post"]
    by (simp add: zm_def kl_def vl_def zent_def add.assoc)
  have "zipmapNext zm (length pre) = Some (Some ((length pre + kl, length k), (length pre + (kl + length k) + 1 + vl, length v),
      length pre + length (zent (k, v, f))))"
    using b(2) by (simp add: zipmapNext_def c d raw ZIPMAP_END_def length_zent flip: kl_def vl_def)
  then show ?thesis using mk mv unfolding zm_def by blast
qed

text \<open>The bindings that a loop over \<open>zipmapNext\<close> visits.\<close>

function zipmap_items :: "byte list \<Rightarrow> nat \<Rightarrow> (byte list \<times> byte list) list option" where
  "zipmap_items zm p =
     do { r \<leftarrow> zipmapNext zm p;
          case r of
            None \<Rightarrow> Some []
          | Some ((kp, klen), (vp, vlen), q) \<Rightarrow>
              if p < q then do { k \<leftarrow> mem_read zm kp klen; v \<leftarrow> mem_read zm vp vlen; kvs \<leftarrow> zipmap_items zm q; Some ((k, v) # kvs) }
              else None }"
  by pat_completeness auto
termination
  by (relation "measure (\<lambda>(zm, p). length zm - p)")
    (auto simp: zipmapNext_def mem_byte_def bind_Some_iff split: if_splits)

declare zipmap_items.simps [simp del]

lemma zent_pos: "0 < length (zent e)"
  by (cases e) (simp add: length_zent)

lemma zipmap_items_entries:
  assumes "list_all zent_ok es" and "length (pre @ zents es @ [255]) < 2 ^ 32"
  shows "zipmap_items (pre @ zents es @ [255]) (length pre) = Some (map binding es)"
  using assms
proof (induction es arbitrary: pre)
  case Nil
  then show ?case using zipmapNext_end [of pre "[]"] by (subst zipmap_items.simps) simp
next
  case (Cons e es)
  obtain k v f where e: "e = (k, v, f)" by (cases e)
  have IH: "zipmap_items (pre @ zent e @ zents es @ [255]) (length pre + length (zent e)) = Some (map binding es)"
    using Cons.IH [of "pre @ zent e"] Cons.prems by simp
  obtain kp vp where n: "zipmapNext (pre @ zent e @ zents es @ [255]) (length pre) = Some (Some ((kp, length k), (vp, length v), length pre + length (zent e)))"
    "mem_read (pre @ zent e @ zents es @ [255]) kp (length k) = Some k" "mem_read (pre @ zent e @ zents es @ [255]) vp (length v) = Some v"
    using zipmapNext_entry [of k v f pre "zents es @ [255]"] Cons.prems e by auto
  show ?case using zent_pos [of e] by (subst zipmap_items.simps) (simp add: n IH e [symmetric], simp add: e binding_def)
qed

lemma count_loop_entries:
  assumes "list_all zent_ok es" and "length (pre @ zents es @ [255]) < 2 ^ 32" and "l + length es < 2 ^ 32"
  shows "count_loop (pre @ zents es @ [255]) (length pre) l = Some (l + length es)"
  using assms
proof (induction es arbitrary: pre l)
  case Nil
  then show ?case using zipmapNext_end [of pre "[]"] by (subst count_loop.simps) simp
next
  case (Cons e es)
  obtain k v f where e: "e = (k, v, f)" by (cases e)
  have IH: "count_loop (pre @ zent e @ zents es @ [255]) (length pre + length (zent e)) (l + 1) = Some (l + 1 + length es)"
    using Cons.IH [of "pre @ zent e" "l + 1"] Cons.prems by simp
  obtain kp vp where n: "zipmapNext (pre @ zent e @ zents es @ [255]) (length pre) = Some (Some ((kp, length k), (vp, length v), length pre + length (zent e)))"
    using zipmapNext_entry [of k v f pre "zents es @ [255]"] Cons.prems e by auto
  show ?case using zent_pos [of e] Cons.prems(3) IH by (subst count_loop.simps) (simp add: n)
qed

definition zm_map :: "byte list \<Rightarrow> byte list \<Rightarrow> byte list option" where
  "zm_map zm = (case zipmap_items zm zipmapRewind of Some kvs \<Rightarrow> map_of kvs | None \<Rightarrow> Map.empty)"

lemma items_rep: "zm_rep zm es \<Longrightarrow> zipmap_items zm zipmapRewind = Some (map binding es)"
  using zipmap_items_entries [of es "[n]" for n] by (auto simp: zm_rep_def zipmapRewind_def)

lemma zm_map_rep: "zm_rep zm es \<Longrightarrow> zm_map zm = map_of (map binding es)"
  using items_rep [of zm es] by (simp add: zm_map_def)

lemma map_of_bindings_None: "map_of (map binding es) key = None \<longleftrightarrow> key \<notin> fst ` set es"
  by (induction es) (auto simp: binding_def)

lemma map_of_bindings_split:
  "key \<notin> fst ` set es1 \<Longrightarrow> map_of (map binding (es1 @ (key, v, f) # es2)) key = Some v"
  by (induction es1) (auto simp: binding_def)

text \<open>A lookup by the code, with the bytes of the value.\<close>

definition zipmap_fetch :: "byte list \<Rightarrow> byte list \<Rightarrow> (byte list \<times> byte list option) option" where
  "zipmap_fetch zm key =
     do { r \<leftarrow> zipmapGet zm key;
          case r of None \<Rightarrow> Some (zm, None) | Some (p, n) \<Rightarrow> do { v \<leftarrow> mem_read zm p n; Some (zm, Some v) } }"

lemma zipmapGet_rep:
  assumes z: "zm_rep zm es"
  shows "zipmap_fetch zm key = Some (zm, map_of (map binding es) key)" and "zipmapExists zm key = Some (map_of (map binding es) key \<noteq> None)"
proof -
  have "zipmap_fetch zm key = Some (zm, map_of (map binding es) key) \<and> zipmapExists zm key = Some (map_of (map binding es) key \<noteq> None)"
  proof (cases "key \<in> fst ` set es")
    case False
    then show ?thesis using lookup_raw [OF z, of "Some key" False] zpos_None [OF False] map_of_bindings_None [of es key]
      by (simp add: zipmap_fetch_def zipmapGet_def zipmapExists_def)
  next
    case True
    have d: "distinct (map fst es)" using z by (auto elim: zm_repD)
    from True obtain es1 v g es2 where es: "es = es1 @ (key, v, g) # es2" "key \<notin> fst ` set es1" "key \<notin> fst ` set es2"
      by (rule key_split [OF _ d])
    obtain n where n: "zm = ([n] @ zents es1) @ zent (key, v, g) @ zents es2 @ [255]"
      and ok: "zent_ok (key, v, g)" and len: "length zm < 2 ^ 32"
      using z es(1) by (auto elim!: zm_repD)
    define pre where "pre = [n] @ zents es1"
    have zm: "zm = pre @ zent (key, v, g) @ zents es2 @ [255]" by (simp add: n pre_def)
    have pos: "zpos key 1 es = Some (length pre)" using zpos_split [OF es(2), of 1] es(1) by (simp add: pre_def)
    have l: "zipmapLookupRaw zm (Some key) False = Some (Some (length pre), uint32 (length pre + 1))" using lookup_raw [OF z] pos by simp
    note raw = raw_lengths [OF ok, of pre "zents es2 @ [255]", folded zm]
    have mv: "mem_read zm (length pre + (ZIPMAP_LEN_BYTES (length key) + length key) + ZIPMAP_LEN_BYTES (length v) + 1) (length v) = Some v"
      using mem_read_append [OF refl refl, of "pre @ zlen (length key) @ key @ zlen (length v) @ [word_of_nat (length g)]" v "g @ zents es2 @ [255]"]
      by (simp add: zm zent_def add.assoc)
    have "zipmapGet zm key = Some (Some (length pre + (ZIPMAP_LEN_BYTES (length key) + length key) + ZIPMAP_LEN_BYTES (length v) + 1, length v))"
      using len by (simp add: zipmapGet_def l raw)
    then show ?thesis using mv l map_of_bindings_split [OF es(2)] es(1) by (simp add: zipmap_fetch_def zipmapExists_def)
  qed
  then show "zipmap_fetch zm key = Some (zm, map_of (map binding es) key)" and "zipmapExists zm key = Some (map_of (map binding es) key \<noteq> None)"
    by simp_all
qed

lemma zipmapLen_rep:
  assumes z: "zm_rep zm es" and "length es < 2 ^ 32"
  shows "\<exists>zm'. zipmapLen zm = Some (zm', length es) \<and> zm_rep zm' es \<and> length zm' = length zm"
proof -
  obtain n where n: "zm = [n] @ zents es @ [255]" "unat n < 254 \<longrightarrow> unat n = length es" "list_all zent_ok es" "distinct (map fst es)"
    "length zm < 2 ^ 32" using z by (auto elim: zm_repD)
  show ?thesis
  proof (cases "unat n < 254")
    case True
    then show ?thesis using n z by (intro exI [of _ zm]) (simp add: zipmapLen_def ZIPMAP_BIGLEN_def)
  next
    case False
    have c: "count_loop zm zipmapRewind 0 = Some (length es)"
      using count_loop_entries [OF n(3), of "[n]" 0] n(1,5) assms(2) by (simp add: zipmapRewind_def)
    show ?thesis
    proof (cases "length es < 254")
      case True
      have "zm_rep ([word_of_nat (length es)] @ zents es @ [255]) es" using n(3-5) True by (intro zm_repI [OF refl]) (simp_all add: n(1))
      then show ?thesis using c True False n(1) by (simp add: zipmapLen_def ZIPMAP_BIGLEN_def mem_write_def)
    next
      case False
      then show ?thesis using c \<open>\<not> unat n < 254\<close> n(1) z by (simp add: zipmapLen_def ZIPMAP_BIGLEN_def)
    qed
  qed
qed

lemma zipmapBlobLen_rep: "zm_rep zm es \<Longrightarrow> zipmapBlobLen zm = Some (length zm)"
  by (simp add: zipmapBlobLen_def lookup_raw)

lemma zipmapNew_rep: "zipmapNew = Some [0, 255]" "zm_rep [0, 255] []"
  by (simp add: zipmapNew_def mem_write_def zmalloc_def numeral_2_eq_2 ZIPMAP_END_def) (simp add: zm_rep_def)

section \<open>Zipmaps as a map representation\<close>

interpretation zm_impl: map_impl zipmap_fetch
  "\<lambda>zm k v. map_option (\<lambda>(zm, u). (zm, \<not> u)) (zipmapSet zm k v)" zipmapDel "[0, 255]" "\<lambda>zm. \<exists>es. zm_rep zm es" zm_map id
  "\<lambda>k v. True" "\<lambda>k. True" length zcost "2 ^ 32"
proof unfold_locales
  show "\<exists>es. zm_rep [0, 255] es" using zipmapNew_rep(2) by blast
  show "zm_map [0, 255] = Map.empty" using zm_map_rep [OF zipmapNew_rep(2)] by simp
next
  fix s k v
  assume "\<exists>es. zm_rep s es" and small: "length s + zcost k v < 2 ^ 32"
  then obtain es where es: "zm_rep s es" by blast
  from zipmapSet_rep [OF this small] obtain zm es' where u: "zipmapSet s k v = Some (zm, k \<in> fst ` set es)" "zm_rep zm es'"
    "map binding es' = AList.update k v (map binding es)" "length zm \<le> length s + zcost k v" by blast
  then show "\<exists>s'. map_option (\<lambda>(zm, u). (zm, \<not> u)) (zipmapSet s k v) = Some (s', zm_map s (id k) = None) \<and> (\<exists>es. zm_rep s' es) \<and>
      zm_map s' = (zm_map s)(id k \<mapsto> v) \<and> length s' \<le> length s + zcost k v"
    using map_of_bindings_None [of es k] by (auto simp: zm_map_rep [OF es] zm_map_rep [OF u(2)] update_conv')
next
  fix s k
  assume "\<exists>es. zm_rep s es"
  then obtain es where es: "zm_rep s es" by blast
  then show "\<exists>s'. zipmap_fetch s k = Some (s', zm_map s (id k)) \<and> (\<exists>es. zm_rep s' es) \<and> zm_map s' = zm_map s"
    using zipmapGet_rep(1) [OF es, of k] zm_map_rep [OF es] by auto
  from zipmapDel_rep [OF es, of k] obtain zm es' where d: "zipmapDel s k = Some (zm, k \<in> fst ` set es)" "zm_rep zm es'"
    "map binding es' = AList.delete k (map binding es)" by blast
  then show "\<exists>s'. zipmapDel s k = Some (s', zm_map s (id k) \<noteq> None) \<and> (\<exists>es. zm_rep s' es) \<and> zm_map s' = (zm_map s)(id k := None)"
    using map_of_bindings_None [of es k] by (auto simp: zm_map_rep [OF es] zm_map_rep [OF d(2)] delete_conv')
qed

section \<open>Sequences of operations\<close>

datatype zm_op = ZSet "byte list" "byte list" | ZDel "byte list" | ZGet "byte list" | ZExists "byte list" | ZLen | ZItems

datatype zm_answer = ZBool bool | ZVal "byte list option" | ZNum nat | ZBindings "(byte list \<times> byte list) list"

fun zm_exec :: "zm_op \<Rightarrow> byte list \<Rightarrow> (byte list \<times> zm_answer) option" where
  "zm_exec (ZSet k v) zm = do { (zm, b) \<leftarrow> zipmapSet zm k v; Some (zm, ZBool b) }"
| "zm_exec (ZDel k) zm = do { (zm, b) \<leftarrow> zipmapDel zm k; Some (zm, ZBool b) }"
| "zm_exec (ZGet k) zm = do { (zm, v) \<leftarrow> zipmap_fetch zm k; Some (zm, ZVal v) }"
| "zm_exec (ZExists k) zm = do { b \<leftarrow> zipmapExists zm k; Some (zm, ZBool b) }"
| "zm_exec ZLen zm = do { (zm, n) \<leftarrow> zipmapLen zm; Some (zm, ZNum n) }"
| "zm_exec ZItems zm = do { kvs \<leftarrow> zipmap_items zm zipmapRewind; Some (zm, ZBindings kvs) }"

fun alist_exec :: "zm_op \<Rightarrow> (byte list \<times> byte list) list \<Rightarrow> (byte list \<times> byte list) list \<times> zm_answer" where
  "alist_exec (ZSet k v) kvs = (AList.update k v kvs, ZBool (map_of kvs k \<noteq> None))"
| "alist_exec (ZDel k) kvs = (AList.delete k kvs, ZBool (map_of kvs k \<noteq> None))"
| "alist_exec (ZGet k) kvs = (kvs, ZVal (map_of kvs k))"
| "alist_exec (ZExists k) kvs = (kvs, ZBool (map_of kvs k \<noteq> None))"
| "alist_exec ZLen kvs = (kvs, ZNum (length kvs))"
| "alist_exec ZItems kvs = (kvs, ZBindings kvs)"

fun zm_run :: "zm_op list \<Rightarrow> byte list \<Rightarrow> (byte list \<times> zm_answer list) option" where
  "zm_run [] zm = Some (zm, [])"
| "zm_run (x # xs) zm = do { (zm, a) \<leftarrow> zm_exec x zm; (zm, as) \<leftarrow> zm_run xs zm; Some (zm, a # as) }"

fun alist_run :: "zm_op list \<Rightarrow> (byte list \<times> byte list) list \<Rightarrow> (byte list \<times> byte list) list \<times> zm_answer list" where
  "alist_run [] kvs = (kvs, [])"
| "alist_run (x # xs) kvs = (let (kvs, a) = alist_exec x kvs; (kvs, as) = alist_run xs kvs in (kvs, a # as))"

fun op_cost :: "zm_op \<Rightarrow> nat" where
  "op_cost (ZSet k v) = zcost k v"
| "op_cost _ = 0"

lemma entries_fit: "zm_rep zm es \<Longrightarrow> length es < 2 ^ 32"
proof -
  assume "zm_rep zm es"
  then have "length (zents es) < 2 ^ 32" by (auto elim: zm_repD)
  moreover have "length es \<le> length (zents es)"
  proof (induction es)
    case (Cons e es)
    then show ?case using zent_pos [of e] by (cases "zent e") auto
  qed simp
  ultimately show ?thesis by simp
qed

lemma zm_exec_rep:
  assumes z: "zm_rep zm es" and small: "length zm + op_cost x < 2 ^ 32"
  shows "\<exists>zm' es'. zm_exec x zm = Some (zm', snd (alist_exec x (map binding es))) \<and> zm_rep zm' es' \<and>
    map binding es' = fst (alist_exec x (map binding es)) \<and> length zm' \<le> length zm + op_cost x"
proof (cases x)
  case (ZSet k v)
  then show ?thesis using zipmapSet_rep [OF z, of k v] small map_of_bindings_None [of es k] by auto
next
  case (ZDel k)
  then show ?thesis using zipmapDel_rep [OF z, of k] map_of_bindings_None [of es k] by auto
next
  case ZLen
  then show ?thesis using zipmapLen_rep [OF z entries_fit [OF z]] by auto
qed (use z zipmapGet_rep [OF z] items_rep [OF z] in auto)

lemma zm_run_rep:
  "zm_rep zm es \<Longrightarrow> length zm + sum_list (map op_cost xs) < 2 ^ 32 \<Longrightarrow>
     \<exists>zm' es'. zm_run xs zm = Some (zm', snd (alist_run xs (map binding es))) \<and> zm_rep zm' es' \<and>
       map binding es' = fst (alist_run xs (map binding es))"
proof (induction xs arbitrary: zm es)
  case (Cons x xs)
  obtain zm1 es1 where 1: "zm_exec x zm = Some (zm1, snd (alist_exec x (map binding es)))" "zm_rep zm1 es1"
    "map binding es1 = fst (alist_exec x (map binding es))" "length zm1 \<le> length zm + op_cost x"
    using zm_exec_rep [OF Cons.prems(1), of x] Cons.prems(2) by auto
  obtain zm2 es2 where "zm_run xs zm1 = Some (zm2, snd (alist_run xs (map binding es1)))" "zm_rep zm2 es2"
    "map binding es2 = fst (alist_run xs (map binding es1))"
    using Cons.IH [OF 1(2)] 1(4) Cons.prems(2) by auto
  then show ?case using 1 by (auto simp: split_beta Let_def)
qed auto

text \<open>C19: Any sequence of updates, removals, lookups and iterations of a zipmap that fits 4 GB
  answers as the association list does that keeps the order of insertion, stays inside its block,
  and its size is what \<open>zipmapBlobLen\<close> reports.\<close>

theorem zipmap_refines_alist:
  assumes "2 + sum_list (map op_cost xs) < 2 ^ 32"
  shows "\<exists>zm. do { zm \<leftarrow> zipmapNew; zm_run xs zm } = Some (zm, snd (alist_run xs [])) \<and>
    zipmap_items zm zipmapRewind = Some (fst (alist_run xs [])) \<and> zipmapBlobLen zm = Some (length zm)"
proof -
  obtain zm es where "zm_run xs [0, 255] = Some (zm, snd (alist_run xs []))" and z: "zm_rep zm es" and "map binding es = fst (alist_run xs [])"
    using zm_run_rep [OF zipmapNew_rep(2), of xs] assms by auto
  then show ?thesis using items_rep [OF z] zipmapBlobLen_rep [OF z] by (simp add: zipmapNew_rep(1))
qed

lemma zipmap_refines_alist_witness:
  "\<exists>zm. do { zm \<leftarrow> zipmapNew; zm_run [ZSet [97] [1, 2], ZSet [98] [3], ZSet [97] [4], ZDel [98], ZGet [97], ZLen] zm } =
      Some (zm, [ZBool False, ZBool False, ZBool True, ZBool True, ZVal (Some [4]), ZNum 1]) \<and>
    zipmap_items zm zipmapRewind = Some [([97], [4])]"
  using zipmap_refines_alist [of "[ZSet [97] [1, 2], ZSet [98] [3], ZSet [97] [4], ZDel [98], ZGet [97], ZLen]"]
  by (auto simp: zcost_def length_zent ZIPMAP_LEN_BYTES_def ZIPMAP_BIGLEN_def AList.delete_eq)

text \<open>A lookup in a zipmap after any sequence of updates returns the last value given to the key.\<close>

lemma zipmap_built_fetch:
  assumes "2 + sum_list (map (\<lambda>(k, v). zcost k v) kvs) < 2 ^ 32"
  shows "\<exists>zm zm'. update_all (\<lambda>zm k v. map_option (\<lambda>(zm, u). (zm, \<not> u)) (zipmapSet zm k v)) [0, 255] kvs = Some zm \<and>
    zipmap_fetch zm k = Some (zm', map_of (rev kvs) k)"
  using zm_impl.built_lookup [of kvs k] assms by (simp add: zm_impl.total_cost_def)

end
