(* ===== verification/SetType.thy ===== *)
theory SetType
  imports Intset DictTypes
begin

text \<open>
  Model of the set objects of \<^verbatim>\<open>src/webserver/redis/src/t_set.c\<close>: a set of string objects is an
  integer set while all members are integers and there are few of them, and a hash table
  otherwise. The operations are composed of those of \<open>Intset\<close> and \<open>Dict\<close>; the loops of SINTER and
  of SUNION and SDIFF over set objects are included.

  Members are valid string objects (\<open>key_obj\<close>). \<open>cr\<close> is \<^verbatim>\<open>dict_can_resize\<close> and \<open>lim\<close> is
  \<^verbatim>\<open>server.set_max_intset_entries\<close>. Reference counts are left out: a table holds one reference to
  each of its keys, which \<open>Dict\<close> records as freed when the key is removed.
\<close>

section \<open>Set objects\<close>

datatype set_obj = SetIntset intset | SetHT "(key_obj, unit) dict"

definition createSetObject :: set_obj where "createSetObject = SetHT dictCreate"
definition createIntsetObject :: set_obj where "createIntsetObject = SetIntset intsetNew"

text \<open>The integer that a member stands for.\<close>

definition key_int :: "key_obj \<Rightarrow> int option option" where
  "key_int k = isObjectRepresentableAsLongLong (obj_of_key k)"

text \<open>The object of an integer, used as a key. Hashing it prints it, which for the least
  \<^verbatim>\<open>long long\<close> is undefined.\<close>

definition int_key :: "int \<Rightarrow> key_obj option" where
  "int_key n =
     do { r \<leftarrow> createStringObjectFromLongLong True 0 n;
          ob \<leftarrow> Some (case r of Own ob \<Rightarrow> ob | SharedInt m \<Rightarrow> createObject 0 REDIS_STRING (PtrLong m));
          require (obj_ok ob);
          Some (key_of_obj ob) }"

text \<open>An argument of a command as a key: as it is, and after \<^verbatim>\<open>tryObjectEncoding\<close>.\<close>

definition raw_key :: "byte list \<Rightarrow> key_obj" where
  "raw_key b = key_of_obj (createStringObject 0 b)"

definition arg_key :: "int \<Rightarrow> byte list \<Rightarrow> key_obj option" where
  "arg_key maxmemory b =
     do { r \<leftarrow> tryObjectEncoding True maxmemory (createStringObject 0 b);
          ob \<leftarrow> Some (case r of Own ob \<Rightarrow> ob | SharedInt m \<Rightarrow> createObject 0 REDIS_STRING (PtrLong m));
          require (obj_ok ob);
          Some (key_of_obj ob) }"

definition setTypeCreate :: "key_obj \<Rightarrow> set_obj option" where
  "setTypeCreate k = do { n \<leftarrow> key_int k; Some (if n \<noteq> None then createIntsetObject else createSetObject) }"

definition setTypeSize :: "set_obj \<Rightarrow> nat" where
  "setTypeSize s = (case s of SetHT d \<Rightarrow> dictSize d | SetIntset is \<Rightarrow> intsetLen is)"

section \<open>Iterators\<close>

datatype set_iter = IterHT "(key_obj, unit) dictIterator" | IterIntset nat

datatype set_elem = EleObj key_obj | EleInt int

definition setTypeInitIterator :: "set_obj \<Rightarrow> set_iter" where
  "setTypeInitIterator s = (case s of SetHT _ \<Rightarrow> IterHT dictGetIterator | SetIntset _ \<Rightarrow> IterIntset 0)"

definition setTypeReleaseIterator :: "set_obj \<Rightarrow> set_iter \<Rightarrow> set_obj" where
  "setTypeReleaseIterator s it =
     (case (s, it) of (SetHT d, IterHT di) \<Rightarrow> SetHT (dictReleaseIterator d di) | _ \<Rightarrow> s)"

text \<open>The set, the iterator and the next member, \<open>None\<close> at the end. An iterator is of the encoding
  of its set.\<close>

definition setTypeNext :: "set_obj \<Rightarrow> set_iter \<Rightarrow> (set_obj \<times> set_iter \<times> set_elem option) option" where
  "setTypeNext s it =
     (case (s, it) of
        (SetHT d, IterHT di) \<Rightarrow>
          do { (d, di, e) \<leftarrow> dictNext d di; Some (SetHT d, IterHT di, map_option (\<lambda>e. EleObj (fst e)) e) }
      | (SetIntset is, IterIntset i) \<Rightarrow>
          do { v \<leftarrow> intsetGet is i; Some (s, IterIntset (i + 1), map_option EleInt v) }
      | _ \<Rightarrow> None)"

definition elem_key :: "set_elem \<Rightarrow> key_obj option" where
  "elem_key e = (case e of EleObj k \<Rightarrow> Some k | EleInt n \<Rightarrow> int_key n)"

definition setTypeNextObject :: "set_obj \<Rightarrow> set_iter \<Rightarrow> (set_obj \<times> set_iter \<times> key_obj option) option" where
  "setTypeNextObject s it =
     do { (s, it, e) \<leftarrow> setTypeNext s it;
          case e of None \<Rightarrow> Some (s, it, None) | Some e \<Rightarrow> do { k \<leftarrow> elem_key e; Some (s, it, Some k) } }"

text \<open>\<open>rnd\<close> are the values that \<^verbatim>\<open>random()\<close> returns.\<close>

definition setTypeRandomElement :: "nat list \<Rightarrow> set_obj \<Rightarrow> (set_obj \<times> set_elem) option" where
  "setTypeRandomElement rnd s =
     (case s of
        SetHT d \<Rightarrow> do { (d, e) \<leftarrow> dictGetRandomKey setDictType d rnd; e \<leftarrow> e; Some (SetHT d, EleObj (fst e)) }
      | SetIntset is \<Rightarrow> (case rnd of [] \<Rightarrow> None | r # _ \<Rightarrow> do { v \<leftarrow> intsetRandom r is; Some (s, EleInt v) }))"

section \<open>Conversion\<close>

text \<open>The loop over the integer set from index \<open>i\<close>.\<close>

function convert_loop :: "bool \<Rightarrow> intset \<Rightarrow> nat \<Rightarrow> (key_obj, unit) dict \<Rightarrow> (key_obj, unit) dict option" where
  "convert_loop cr is i d =
     do { v \<leftarrow> intsetGet is i;
          case v of
            None \<Rightarrow> Some d
          | Some n \<Rightarrow> do {
              k \<leftarrow> int_key n;
              (d, rc) \<leftarrow> dictAdd setDictType cr d k ();
              require (rc = DICT_OK);
              convert_loop cr is (i + 1) d } }"
  by pat_completeness auto
termination
  by (relation "measure (\<lambda>(cr, is, i, d). is_length is - i)") (auto simp: intsetGet_def split: if_splits)

declare convert_loop.simps [simp del]

definition setTypeConvert :: "bool \<Rightarrow> set_obj \<Rightarrow> set_obj option" where
  "setTypeConvert cr s =
     (case s of
        SetHT _ \<Rightarrow> None
      | SetIntset is \<Rightarrow>
          do { d \<leftarrow> convert_loop cr is 0 (fst (dictExpand dictCreate (intsetLen is))); Some (SetHT d) })"

section \<open>Members\<close>

definition setTypeAdd :: "bool \<Rightarrow> nat \<Rightarrow> set_obj \<Rightarrow> key_obj \<Rightarrow> (set_obj \<times> bool) option" where
  "setTypeAdd cr lim s k =
     (case s of
        SetHT d \<Rightarrow> do { (d, rc) \<leftarrow> dictAdd setDictType cr d k (); Some (SetHT d, rc = DICT_OK) }
      | SetIntset is \<Rightarrow> do {
          v \<leftarrow> key_int k;
          case v of
            Some n \<Rightarrow> do {
              (is, success) \<leftarrow> intsetAdd is n;
              if success then do {
                s \<leftarrow> (if intsetLen is > lim then setTypeConvert cr (SetIntset is) else Some (SetIntset is));
                Some (s, True) }
              else Some (SetIntset is, False) }
          | None \<Rightarrow> do {
              s \<leftarrow> setTypeConvert cr s;
              case s of
                SetHT d \<Rightarrow> do {
                  (d, rc) \<leftarrow> dictAdd setDictType cr d k ();
                  require (rc = DICT_OK);
                  Some (SetHT d, True) }
              | SetIntset _ \<Rightarrow> None } })"

definition setTypeRemove :: "bool \<Rightarrow> set_obj \<Rightarrow> key_obj \<Rightarrow> (set_obj \<times> bool) option" where
  "setTypeRemove cr s k =
     (case s of
        SetHT d \<Rightarrow> do {
          (d, rc) \<leftarrow> dictDelete setDictType d k;
          if rc = DICT_OK then Some (SetHT (if htNeedsResize d then fst (dictResize cr d) else d), True)
          else Some (SetHT d, False) }
      | SetIntset is \<Rightarrow> do {
          v \<leftarrow> key_int k;
          case v of
            Some n \<Rightarrow> do { (is, success) \<leftarrow> intsetRemove is n; Some (SetIntset is, success) }
          | None \<Rightarrow> Some (s, False) })"

definition setTypeIsMember :: "set_obj \<Rightarrow> key_obj \<Rightarrow> (set_obj \<times> bool) option" where
  "setTypeIsMember s k =
     (case s of
        SetHT d \<Rightarrow> do { (d, r) \<leftarrow> dictFind setDictType d k; Some (SetHT d, r \<noteq> None) }
      | SetIntset is \<Rightarrow> do {
          v \<leftarrow> key_int k;
          case v of Some n \<Rightarrow> do { b \<leftarrow> intsetFind is n; Some (s, b) } | None \<Rightarrow> Some (s, False) })"

section \<open>SINTER, SUNION and SDIFF\<close>

text \<open>A set object is reached through a pointer; \<open>st\<close> is the heap of set objects. \<open>other_has\<close> is the
  test of one element against another set.\<close>

type_synonym set_heap = "nat \<Rightarrow> set_obj"

definition qsortCompareSetsByCardinality :: "set_heap \<Rightarrow> nat \<Rightarrow> nat \<Rightarrow> int" where
  "qsortCompareSetsByCardinality st p q = to_s32 (to_u64 (int (setTypeSize (st p)) - int (setTypeSize (st q))))"

definition other_has :: "set_elem \<Rightarrow> set_obj \<Rightarrow> (set_obj \<times> bool) option" where
  "other_has e s =
     (case e of
        EleInt n \<Rightarrow>
          (case s of
             SetIntset is \<Rightarrow> do { b \<leftarrow> intsetFind is n; Some (s, b) }
           | SetHT _ \<Rightarrow> do { k \<leftarrow> int_key n; setTypeIsMember s k })
      | EleObj k \<Rightarrow>
          (case (o_ptr (obj_of_key k), s) of
             (PtrLong n, SetIntset is) \<Rightarrow> do {
               b \<leftarrow> intsetFind is n;
               if \<not> b then Some (s, False) else setTypeIsMember s k }
           | _ \<Rightarrow> setTypeIsMember s k))"

text \<open>The inner loop of SINTER over the sets but the first; the set that is iterated is skipped.\<close>

fun in_others :: "nat \<Rightarrow> nat list \<Rightarrow> set_elem \<Rightarrow> set_heap \<Rightarrow> (set_heap \<times> bool) option" where
  "in_others p0 [] e st = Some (st, True)"
| "in_others p0 (p # ps) e st =
     (if p = p0 then in_others p0 ps e st
      else do {
        (s, b) \<leftarrow> other_has e (st p);
        st \<leftarrow> Some (st(p := s));
        if b then in_others p0 ps e st else Some (st, False) })"

text \<open>The outer loop, with \<open>n\<close> rounds: the elements sent to the client, or collected in \<open>dst\<close>.\<close>

fun sinter_loop ::
  "bool \<Rightarrow> nat \<Rightarrow> nat \<Rightarrow> nat list \<Rightarrow> nat \<Rightarrow> set_iter \<Rightarrow> set_heap \<Rightarrow> set_obj option \<Rightarrow>
     (set_heap \<times> set_elem list \<times> set_obj option) option" where
  "sinter_loop cr lim p0 ps 0 it st dst = None"
| "sinter_loop cr lim p0 ps (Suc n) it st dst =
     do { (s, it, e) \<leftarrow> setTypeNext (st p0) it;
          st \<leftarrow> Some (st(p0 := s));
          case e of
            None \<Rightarrow> Some (st(p0 := setTypeReleaseIterator s it), [], dst)
          | Some e \<Rightarrow> do {
              (st, all) \<leftarrow> in_others p0 ps e st;
              if \<not> all then sinter_loop cr lim p0 ps n it st dst
              else (case dst of
                  None \<Rightarrow> do {
                    (st, out, dst) \<leftarrow> sinter_loop cr lim p0 ps n it st dst;
                    Some (st, e # out, dst) }
                | Some t \<Rightarrow> do {
                    k \<leftarrow> elem_key e;
                    (t, _) \<leftarrow> setTypeAdd cr lim t k;
                    sinter_loop cr lim p0 ps n it st (Some t) }) } }"

text \<open>Sorting by cardinality, then the loops. With \<open>store\<close> the result is a new set. The sort here is stable;
  \<^verbatim>\<open>qsort\<close> may leave sets of equal size in another order, and \<^verbatim>\<open>qsortCompareSetsByCardinality\<close> returns the difference of
  two sizes as an \<^verbatim>\<open>int\<close>, which has the right sign for sizes below \<open>2 ^ 31\<close>. Only the order of the replies depends on it.\<close>

definition sinter_sets :: "bool \<Rightarrow> nat \<Rightarrow> bool \<Rightarrow> nat list \<Rightarrow> set_heap \<Rightarrow> (set_heap \<times> set_elem list \<times> set_obj option) option" where
  "sinter_sets cr lim store ps st =
     (case sort_key (\<lambda>p. setTypeSize (st p)) ps of
        [] \<Rightarrow> None
      | p0 # ps \<Rightarrow> sinter_loop cr lim p0 ps (setTypeSize (st p0) + 1) (setTypeInitIterator (st p0)) st
                   (if store then Some createIntsetObject else None))"

datatype set_op = REDIS_OP_UNION | REDIS_OP_DIFF

text \<open>The loop over one set: every element is added to the result or removed from it.\<close>

fun combine_loop ::
  "bool \<Rightarrow> nat \<Rightarrow> bool \<Rightarrow> nat \<Rightarrow> set_iter \<Rightarrow> set_obj \<Rightarrow> set_obj \<Rightarrow> int \<Rightarrow> (set_obj \<times> set_obj \<times> int) option" where
  "combine_loop cr lim add 0 it s dst cardinality = None"
| "combine_loop cr lim add (Suc n) it s dst cardinality =
     do { (s, it, k) \<leftarrow> setTypeNextObject s it;
          case k of
            None \<Rightarrow> Some (setTypeReleaseIterator s it, dst, cardinality)
          | Some k \<Rightarrow>
              if add then do {
                (dst, new) \<leftarrow> setTypeAdd cr lim dst k;
                combine_loop cr lim add n it s dst (if new then cardinality + 1 else cardinality) }
              else do {
                (dst, gone) \<leftarrow> setTypeRemove cr dst k;
                combine_loop cr lim add n it s dst (if gone then cardinality - 1 else cardinality) } }"

text \<open>The loop over the sets; a key that does not exist is \<open>None\<close>.\<close>

fun sunion_diff_loop ::
  "bool \<Rightarrow> nat \<Rightarrow> set_op \<Rightarrow> bool \<Rightarrow> nat option list \<Rightarrow> set_heap \<Rightarrow> set_obj \<Rightarrow> int \<Rightarrow> (set_heap \<times> set_obj \<times> int) option" where
  "sunion_diff_loop cr lim oper first [] st dst cardinality = Some (st, dst, cardinality)"
| "sunion_diff_loop cr lim oper first (None # ps) st dst cardinality =
     (if oper = REDIS_OP_DIFF \<and> first then Some (st, dst, cardinality)
      else sunion_diff_loop cr lim oper False ps st dst cardinality)"
| "sunion_diff_loop cr lim oper first (Some p # ps) st dst cardinality =
     do { (s, dst, cardinality) \<leftarrow> combine_loop cr lim (oper = REDIS_OP_UNION \<or> first) (setTypeSize (st p) + 1)
            (setTypeInitIterator (st p)) (st p) dst cardinality;
          st \<leftarrow> Some (st(p := s));
          if oper = REDIS_OP_DIFF \<and> cardinality = 0 then Some (st, dst, cardinality)
          else sunion_diff_loop cr lim oper False ps st dst cardinality }"

definition sunion_diff_sets :: "bool \<Rightarrow> nat \<Rightarrow> set_op \<Rightarrow> nat option list \<Rightarrow> set_heap \<Rightarrow> (set_heap \<times> set_obj \<times> int) option" where
  "sunion_diff_sets cr lim oper ps st = sunion_diff_loop cr lim oper True ps st createIntsetObject 0"

end
