(* ===== verification/SetSpec.thy ===== *)
theory SetSpec
  imports SetType
begin

text \<open>
  Set objects as sets of byte strings: the invariant and the effect of every operation, whichever
  encoding the object has and however often it changes.
\<close>

section \<open>Abstraction\<close>

definition elems :: "set_obj \<Rightarrow> byte list set" where
  "elems s = (case s of SetIntset is \<Rightarrow> dec_repr ` set (intset_vals is) | SetHT d \<Rightarrow> dom (dict_map key_text d))"

definition set_ok :: "set_obj \<Rightarrow> bool" where
  "set_ok s \<longleftrightarrow> (case s of
     SetIntset is \<Rightarrow> intset_ok is \<and> (\<forall>n \<in> set (intset_vals is). LLONG_MIN < n \<and> n \<le> LLONG_MAX)
   | SetHT d \<Rightarrow> dict_ok setDictType key_text d)"

text \<open>Texts that members can have: all but that of the least \<^verbatim>\<open>long long\<close>.\<close>

definition printable :: "byte list \<Rightarrow> bool" where
  "printable b \<longleftrightarrow> b \<noteq> dec_repr LLONG_MIN"

lemma printable_hd: "hd b \<noteq> ch_minus \<Longrightarrow> printable b"
  by (auto simp: printable_def dec_repr_def c_limits)

lemma key_text_printable: "printable (key_text k)" if "\<exists>n. o_ptr (obj_of_key k) = PtrLong n"
  using obj_of_key_ok [of k] that dec_repr_inject by (auto simp: printable_def key_text_def obj_ok_def obj_bytes_def)

lemma key_of_obj_text: "obj_ok ob \<Longrightarrow> key_text (key_of_obj ob) = obj_bytes ob \<and> obj_of_key (key_of_obj ob) = ob"
  by (simp add: key_text_def key_of_obj_inverse)

lemma key_int_text: "key_int k = Some (string2ll (key_text k))"
proof (cases "o_ptr (obj_of_key k)")
  case (PtrSds s)
  then show ?thesis using obj_of_key_ok [of k]
    by (simp add: key_int_def isObjectRepresentableAsLongLong_def key_text_def obj_bytes_def obj_ok_def)
next
  case (PtrLong n)
  then show ?thesis using obj_of_key_ok [of k] string2ll_dec_repr [of "dec_repr n" n]
    by (simp add: key_int_def isObjectRepresentableAsLongLong_def key_text_def obj_bytes_def obj_ok_def)
qed

lemma key_int_Some: "string2ll (key_text k) = Some n \<longleftrightarrow> LLONG_MIN \<le> n \<and> n \<le> LLONG_MAX \<and> key_text k = dec_repr n"
  by (rule string2ll_dec_repr)

lemma int_key_ok:
  assumes "LLONG_MIN < n" and "n \<le> LLONG_MAX"
  shows "\<exists>k. int_key n = Some k \<and> key_text k = dec_repr n"
proof -
  let ?ob = "createObject 0 REDIS_STRING (PtrLong n)"
  have ok: "obj_ok ?ob" using assms by (simp add: obj_ok_def createObject_def)
  have "int_key n = Some (key_of_obj ?ob)" using assms ok by (simp add: int_key_def createStringObjectFromLongLong_def)
  then show ?thesis using key_of_obj_text [OF ok] by (simp add: obj_bytes_def createObject_def)
qed

lemma dec_repr_inj:
  assumes eq: "dec_repr v = dec_repr w"
  shows "v = w"
proof -
  have digits: "dec_nat n \<noteq> ch_minus # q" for n q using dec_nat_digits [of n] by (auto simp: isdigit_def)
  have inj: "dec_nat m = dec_nat n \<Longrightarrow> m = n" for m n by (metis dec_nat_dval of_nat_eq_iff)
  have sign: "v < 0 \<longleftrightarrow> w < 0"
  proof (rule ccontr)
    assume "\<not> (v < 0 \<longleftrightarrow> w < 0)"
    then consider "v < 0" "\<not> w < 0" | "\<not> v < 0" "w < 0" by blast
    then show False
    proof cases
      case 1
      then show False using digits [of "nat w" "dec_nat (nat (- v))"] eq by (simp add: dec_repr_def)
    next
      case 2
      then show False using digits [of "nat v" "dec_nat (nat (- w))"] eq by (simp add: dec_repr_def)
    qed
  qed
  show ?thesis
  proof (cases "v < 0")
    case True
    then have "nat (- v) = nat (- w)" using eq sign by (intro inj) (simp add: dec_repr_def)
    then show ?thesis using True sign by simp
  next
    case False
    then have "nat v = nat w" using eq sign by (intro inj) (simp add: dec_repr_def)
    then show ?thesis using False sign by simp
  qed
qed

lemma dec_repr_image: "dec_repr n \<in> dec_repr ` A \<longleftrightarrow> n \<in> A"
  using dec_repr_inj by auto

lemma not_int_text: "string2ll t = None \<Longrightarrow> \<forall>n \<in> A. LLONG_MIN < n \<and> n \<le> LLONG_MAX \<Longrightarrow> t \<notin> dec_repr ` A"
  using string2ll_None [of t] less_imp_le by blast

lemma text_in_ints: "key_text k \<in> dec_repr ` A \<longleftrightarrow> (\<exists>n. key_text k = dec_repr n \<and> n \<in> A)"
  by auto

lemma card_elems: "set_ok s \<Longrightarrow> card (elems s) = setTypeSize s"
proof (cases s)
  case (SetIntset "is")
  assume "set_ok s"
  then have "intset_ok is" using SetIntset by (simp add: set_ok_def)
  moreover have "inj_on dec_repr (set (intset_vals is))" by (intro inj_onI) (rule dec_repr_inj)
  ultimately show ?thesis using SetIntset by (simp add: elems_def setTypeSize_def card_image card_intset_vals intsetLen_def)
qed (simp add: elems_def setTypeSize_def set_ok_def dictSize_card [symmetric])

lemma finite_elems: "finite (elems s)"
  by (cases s) (simp_all add: elems_def finite_dict_map)

lemma setDict_unit: "dictSetHashVal setDictType v = v"
  by (simp add: setDictType_def dictSetHashVal_def)

section \<open>Conversion\<close>

lemma intsetGet_ok: "intset_ok is \<Longrightarrow> intsetGet is i = Some (if i < is_length is then Some (intset_vals is ! i) else None)"
  using u_intsetGet_rep [OF intset_ok_rep, of "is" i] by (simp add: intsetGet_def)

lemma convert_loop_ok:
  assumes "intset_ok is" and "\<forall>n \<in> set (intset_vals is). LLONG_MIN < n \<and> n \<le> LLONG_MAX" and "is_length is < 2 ^ 28"
    and "dict_ok setDictType key_text d" and "dom (dict_map key_text d) = dec_repr ` set (take i (intset_vals is))" and "i \<le> is_length is"
  shows "\<exists>d'. convert_loop cr is i d = Some d' \<and> dict_ok setDictType key_text d' \<and>
    dom (dict_map key_text d') = dec_repr ` set (intset_vals is)"
  using assms
proof (induction "is_length is - i" arbitrary: i d)
  case 0
  then show ?case by (subst convert_loop.simps) (simp add: intsetGet_ok)
next
  case (Suc m)
  let ?xs = "intset_vals is"
  have i: "i < is_length is" and m: "m = is_length is - (i + 1)" using Suc.hyps(2) by simp_all
  have d: "distinct ?xs" using Suc.prems(1) by (simp add: intset_ok_def strict_sorted_iff)
  have n: "LLONG_MIN < ?xs ! i" "?xs ! i \<le> LLONG_MAX" using Suc.prems(2) i by simp_all
  obtain k where k: "int_key (?xs ! i) = Some k" "key_text k = dec_repr (?xs ! i)" using int_key_ok [OF n] by blast
  have "?xs ! i \<notin> set (take i ?xs)" using d i by (auto simp: in_set_conv_nth nth_eq_iff_index_eq)
  then have new: "dict_map key_text d (key_text k) = None"
    using Suc.prems(5) k(2) dec_repr_image [of "?xs ! i" "set (take i ?xs)"] by (metis domIff)
  have "dictSize d = card (dec_repr ` set (take i ?xs))" using dictSize_card [OF Suc.prems(4)] Suc.prems(5) by simp
  also have "\<dots> \<le> i" using card_image_le [of "set (take i ?xs)" dec_repr] card_length [of "take i ?xs"] by simp
  finally have sz: "dictSize d < 2 ^ 28" using i Suc.prems(3) by simp
  obtain d' where d': "dictAdd setDictType cr d k () = Some (d', DICT_OK)" "dict_ok setDictType key_text d'"
    "dict_map key_text d' = (dict_map key_text d)(key_text k \<mapsto> ())"
    using dictAdd_ok [OF set_law Suc.prems(4) sz, of cr k "()"] new by auto
  have dom': "dom (dict_map key_text d') = dec_repr ` set (take (i + 1) ?xs)"
    using d'(3) Suc.prems(5) k(2) i by (simp add: take_Suc_conv_app_nth)
  obtain d'' where "convert_loop cr is (i + 1) d' = Some d''" "dict_ok setDictType key_text d''" "dom (dict_map key_text d'') = dec_repr ` set ?xs"
    using Suc.hyps(1) [OF m Suc.prems(1-3) d'(2) dom'] i by auto
  then show ?case using i k(1) d'(1) by (subst convert_loop.simps) (simp add: intsetGet_ok Suc.prems(1))
qed

lemma setTypeConvert_ok:
  assumes "set_ok (SetIntset is)" and "is_length is < 2 ^ 28"
  shows "\<exists>d. setTypeConvert cr (SetIntset is) = Some (SetHT d) \<and> set_ok (SetHT d) \<and> elems (SetHT d) = elems (SetIntset is)"
proof -
  have ok: "intset_ok is" "\<forall>n \<in> set (intset_vals is). LLONG_MIN < n \<and> n \<le> LLONG_MAX" using assms(1) by (simp_all add: set_ok_def)
  define d0 :: "(key_obj, unit) dict" where "d0 = fst (dictExpand dictCreate (intsetLen is))"
  have c: "tables_ok setDictType (dictCreate :: (key_obj, unit) dict)" "dict_map key_text (dictCreate :: (key_obj, unit) dict) = Map.empty"
    "dict_ok setDictType key_text (dictCreate :: (key_obj, unit) dict)"
    using dictCreate_ok [OF refl, of setDictType key_text] by (auto simp: dict_ok_def)
  have "\<not> dictIsRehashing (dictCreate :: (key_obj, unit) dict)" "ht_used (ht0 (dictCreate :: (key_obj, unit) dict)) \<le> intsetLen is" "intsetLen is \<le> 2 ^ 29"
    using assms(2) by (simp_all add: dictCreate_def u_dictInit_def dictIsRehashing_def u_dictReset_def intsetLen_def)
  then have "tables_ok setDictType d0 \<and> same dictCreate d0"
    unfolding d0_def using dictExpand_ok [OF c(1), of "intsetLen is"] by force
  then have d0: "dict_ok setDictType key_text d0" "dict_map key_text d0 = Map.empty"
    using dict_ok_same [OF c(3)] c(2) by auto
  obtain d where "convert_loop cr is 0 d0 = Some d" "dict_ok setDictType key_text d" "dom (dict_map key_text d) = dec_repr ` set (intset_vals is)"
    using convert_loop_ok [OF ok assms(2) d0(1), of 0 cr] d0(2) by auto
  then show ?thesis by (simp add: setTypeConvert_def set_ok_def elems_def flip: d0_def)
qed

section \<open>Members\<close>

lemma ht_add:
  assumes "set_ok (SetHT d)" and "card (elems (SetHT d)) < 2 ^ 28"
  shows "\<exists>d'. dictAdd setDictType cr d k () = Some (d', if key_text k \<in> elems (SetHT d) then DICT_ERR else DICT_OK) \<and>
    set_ok (SetHT d') \<and> elems (SetHT d') = insert (key_text k) (elems (SetHT d))"
proof -
  have ok: "dict_ok setDictType key_text d" using assms(1) by (simp add: set_ok_def)
  have sz: "dictSize d < 2 ^ 28" using assms card_elems [OF assms(1)] by (simp add: setTypeSize_def)
  show ?thesis using dictAdd_ok [OF set_law ok sz, of cr k "()"] by (auto simp: elems_def set_ok_def domIff)
qed

lemma setTypeAdd_ok:
  assumes s: "set_ok s" and small: "card (elems s) < 2 ^ 27" and p: "printable (key_text k)"
  shows "\<exists>s'. setTypeAdd cr lim s k = Some (s', key_text k \<notin> elems s) \<and> set_ok s' \<and> elems s' = insert (key_text k) (elems s)"
proof (cases s)
  case (SetHT d)
  then show ?thesis using ht_add [of d cr k] s small by (auto simp: setTypeAdd_def)
next
  case (SetIntset "is")
  have ok: "intset_ok is" "\<forall>n \<in> set (intset_vals is). LLONG_MIN < n \<and> n \<le> LLONG_MAX" using s SetIntset by (simp_all add: set_ok_def)
  have len: "is_length is < 2 ^ 27" using card_elems [OF s] small SetIntset by (simp add: setTypeSize_def intsetLen_def)
  show ?thesis
  proof (cases "string2ll (key_text k)")
    case None
    have out: "key_text k \<notin> elems s"
      using not_int_text [OF None ok(2)] SetIntset by (simp add: elems_def)
    obtain d where d: "setTypeConvert cr s = Some (SetHT d)" "set_ok (SetHT d)" "elems (SetHT d) = elems s"
      using setTypeConvert_ok [of "is" cr] s len SetIntset by auto
    obtain d' where "dictAdd setDictType cr d k () = Some (d', DICT_OK)" "set_ok (SetHT d')" "elems (SetHT d') = insert (key_text k) (elems s)"
      using ht_add [OF d(2), of cr k] d(3) small out by auto
    then show ?thesis using None out d(1) SetIntset by (simp add: setTypeAdd_def key_int_text)
  next
    case (Some n)
    then have n: "LLONG_MIN < n" "n \<le> LLONG_MAX" "key_text k = dec_repr n"
      using key_int_Some [of k n] p by (auto simp: printable_def order.order_iff_strict)
    have i64: "is_int64 n" using n by (simp add: is_int64_bounds c_limits)
    obtain is' where a: "intsetAdd is n = Some (is', n \<notin> set (intset_vals is))" "intset_ok is'" "set (intset_vals is') = insert n (set (intset_vals is))"
      using intset_add_ok [OF ok(1) _ i64] len by auto
    have ok': "set_ok (SetIntset is')" "elems (SetIntset is') = insert (key_text k) (elems s)"
      using a ok(2) n SetIntset by (simp_all add: set_ok_def elems_def)
    have mem: "key_text k \<in> elems s \<longleftrightarrow> n \<in> set (intset_vals is)" using n(3) SetIntset dec_repr_image [of n] by (simp add: elems_def)
    have "card (elems (SetIntset is')) \<le> Suc (card (elems s))" using ok'(2) finite_elems [of s] by (simp add: card_insert_if)
    then have "is_length is' < 2 ^ 28" using small card_elems [OF ok'(1)] by (simp add: setTypeSize_def intsetLen_def)
    from setTypeConvert_ok [OF ok'(1) this, of cr] show ?thesis
      using Some a(1) SetIntset ok' mem by (auto simp: setTypeAdd_def key_int_text)
  qed
qed

lemma setTypeRemove_ok:
  assumes s: "set_ok s" and small: "card (elems s) < 2 ^ 28" and p: "printable (key_text k)"
  shows "\<exists>s'. setTypeRemove cr s k = Some (s', key_text k \<in> elems s) \<and> set_ok s' \<and> elems s' = elems s - {key_text k}"
proof (cases s)
  case (SetHT d)
  have ok: "dict_ok setDictType key_text d" using s SetHT by (simp add: set_ok_def)
  obtain d' where d': "dictDelete setDictType d k = Some (d', if dict_map key_text d (key_text k) = None then DICT_ERR else DICT_OK)"
    "dict_ok setDictType key_text d'" "dict_map key_text d' = (dict_map key_text d)(key_text k := None)"
    using dictGenericDelete_ok [OF set_law ok, of k False] by (auto simp: dictDelete_def)
  have "dictSize d' \<le> dictSize d"
    using dictSize_card [OF d'(2)] dictSize_card [OF ok] d'(3) finite_dict_map [of key_text d] by (simp add: card_Diff1_le)
  then have "dictSize d' < 2 ^ 28" using card_elems [OF s] small SetHT by (simp add: setTypeSize_def)
  from dictResize_ok [OF d'(2) this, of cr] show ?thesis using d' SetHT
    by (auto simp: setTypeRemove_def set_ok_def elems_def domIff)
next
  case (SetIntset "is")
  have ok: "intset_ok is" "\<forall>n \<in> set (intset_vals is). LLONG_MIN < n \<and> n \<le> LLONG_MAX" using s SetIntset by (simp_all add: set_ok_def)
  show ?thesis
  proof (cases "string2ll (key_text k)")
    case None
    then have "key_text k \<notin> elems s" using not_int_text [OF None ok(2)] SetIntset by (simp add: elems_def)
    then show ?thesis using None s SetIntset by (simp add: setTypeRemove_def key_int_text)
  next
    case (Some n)
    then have n: "LLONG_MIN < n" "n \<le> LLONG_MAX" "key_text k = dec_repr n"
      using key_int_Some [of k n] p by (auto simp: printable_def order.order_iff_strict)
    have "is_int64 n" "is_length is < 2 ^ 29" using n card_elems [OF s] small SetIntset by (simp_all add: is_int64_bounds c_limits setTypeSize_def intsetLen_def)
    then obtain is' where "intsetRemove is n = Some (is', n \<in> set (intset_vals is))" "intset_ok is'" "set (intset_vals is') = set (intset_vals is) - {n}"
      using intset_remove_ok [OF ok(1)] by blast
    moreover have "dec_repr ` (A - {n}) = dec_repr ` A - {dec_repr n}" for A using dec_repr_inj by auto
    ultimately show ?thesis using Some n(3) ok(2) SetIntset dec_repr_image [of n]
      by (auto simp: setTypeRemove_def key_int_text set_ok_def elems_def)
  qed
qed

lemma setTypeIsMember_ok:
  assumes s: "set_ok s" and small: "card (elems s) < 2 ^ 28" and p: "printable (key_text k)"
  shows "\<exists>s'. setTypeIsMember s k = Some (s', key_text k \<in> elems s) \<and> set_ok s' \<and> elems s' = elems s"
proof (cases s)
  case (SetHT d)
  have ok: "dict_ok setDictType key_text d" using s SetHT by (simp add: set_ok_def)
  obtain d' r where f: "dictFind setDictType d k = Some (d', r)" "dict_ok setDictType key_text d'" "dict_map key_text d' = dict_map key_text d"
    and r: "case r of None \<Rightarrow> dict_map key_text d (key_text k) = None
      | Some r \<Rightarrow> points_to setDictType key_text d' k r \<and> (\<exists>e. entry_at d' r = Some e \<and> dict_map key_text d (key_text k) = Some (snd e))"
    using dictFind_ok [OF set_law ok, of k] by blast
  from r have "r = None \<longleftrightarrow> dict_map key_text d (key_text k) = None" by (cases r) auto
  with f show ?thesis using SetHT by (auto simp: setTypeIsMember_def set_ok_def elems_def domIff)
next
  case (SetIntset "is")
  have ok: "intset_ok is" "\<forall>n \<in> set (intset_vals is). LLONG_MIN < n \<and> n \<le> LLONG_MAX" using s SetIntset by (simp_all add: set_ok_def)
  show ?thesis
  proof (cases "string2ll (key_text k)")
    case None
    then have "key_text k \<notin> elems s" using not_int_text [OF None ok(2)] SetIntset by (simp add: elems_def)
    then show ?thesis using None s SetIntset by (simp add: setTypeIsMember_def key_int_text)
  next
    case (Some n)
    then have n: "LLONG_MIN < n" "n \<le> LLONG_MAX" "key_text k = dec_repr n"
      using key_int_Some [of k n] p by (auto simp: printable_def order.order_iff_strict)
    have "is_int64 n" "is_length is < 2 ^ 29" using n card_elems [OF s] small SetIntset by (simp_all add: is_int64_bounds c_limits setTypeSize_def intsetLen_def)
    then show ?thesis using Some n(3) s SetIntset intset_find_ok [OF ok(1)] dec_repr_image [of n]
      by (simp add: setTypeIsMember_def key_int_text elems_def)
  qed
qed

section \<open>Set objects as a set representation\<close>

lemma raw_key_text: "key_text (raw_key b) = b"
  using key_of_obj_text [of "createStringObject 0 b"]
  by (simp add: raw_key_def createStringObject_def createObject_def obj_ok_def obj_bytes_def)

lemma arg_key_ok:
  assumes "printable b"
  shows "\<exists>k. arg_key m b = Some k \<and> key_text k = b"
proof (cases "string2ll b")
  case None
  then have "arg_key m b = Some (key_of_obj (createStringObject 0 b))"
    by (simp add: arg_key_def tryObjectEncoding_def createStringObject_def createObject_def string2l_long obj_ok_def)
  then show ?thesis using raw_key_text by (simp add: raw_key_def)
next
  case (Some n)
  let ?ob = "createObject 0 REDIS_STRING (PtrLong n)"
  have n: "LLONG_MIN \<le> n" "n \<le> LLONG_MAX" "b = dec_repr n" using Some string2ll_dec_repr by blast+
  moreover have "n \<noteq> LLONG_MIN" using assms n(3) by (auto simp: printable_def)
  ultimately have ok: "obj_ok ?ob" by (simp add: obj_ok_def createObject_def)
  then have "arg_key m b = Some (key_of_obj ?ob)" using Some
    by (simp add: arg_key_def tryObjectEncoding_def createStringObject_def createObject_def string2l_long)
  then show ?thesis using key_of_obj_text [OF ok] n(3) by (simp add: obj_bytes_def createObject_def)
qed

definition sadd :: "bool \<Rightarrow> nat \<Rightarrow> set_obj \<Rightarrow> byte list \<Rightarrow> (set_obj \<times> bool) option" where
  "sadd cr lim s b = do { k \<leftarrow> arg_key 0 b; setTypeAdd cr lim s k }"

definition sismember :: "set_obj \<Rightarrow> byte list \<Rightarrow> (set_obj \<times> bool) option" where
  "sismember s b = do { k \<leftarrow> arg_key 0 b; setTypeIsMember s k }"

lemma intset_empty: "set_ok createIntsetObject" "elems createIntsetObject = {}"
  using intset_ok_New by (simp_all add: createIntsetObject_def set_ok_def elems_def)

interpretation set_object: set_impl "sadd cr lim" "\<lambda>s b. setTypeRemove cr s (raw_key b)" sismember createIntsetObject set_ok elems printable "2 ^ 27"
  for cr lim
proof unfold_locales
  fix s v
  assume s: "set_ok s" and v: "printable v"
  obtain k where k: "arg_key 0 v = Some k" "key_text k = v" using arg_key_ok [OF v] by blast
  show "card (elems s) + 1 < 2 ^ 27 \<Longrightarrow> \<exists>s'. sadd cr lim s v = Some (s', v \<notin> elems s) \<and> set_ok s' \<and> elems s' = insert v (elems s)"
    using setTypeAdd_ok [OF s, of k cr lim] k v by (simp add: sadd_def)
  show "card (elems s) < 2 ^ 27 \<Longrightarrow> \<exists>s'. setTypeRemove cr s (raw_key v) = Some (s', v \<in> elems s) \<and> set_ok s' \<and> elems s' = elems s - {v}"
    using setTypeRemove_ok [OF s, of "raw_key v" cr] v by (simp add: raw_key_text)
  show "card (elems s) < 2 ^ 27 \<Longrightarrow> \<exists>s'. sismember s v = Some (s', v \<in> elems s) \<and> set_ok s' \<and> elems s' = elems s"
    using setTypeIsMember_ok [OF s, of k] k v by (auto simp: sismember_def)
qed (use intset_empty finite_elems in auto)

section \<open>Iteration\<close>

definition elem_text :: "set_elem \<Rightarrow> byte list" where
  "elem_text e = (case e of EleObj k \<Rightarrow> key_text k | EleInt n \<Rightarrow> dec_repr n)"

definition elem_ok :: "set_elem \<Rightarrow> bool" where
  "elem_ok e = (case e of EleObj k \<Rightarrow> True | EleInt n \<Rightarrow> LLONG_MIN < n \<and> n \<le> LLONG_MAX)"

text \<open>The texts of the members still to come.\<close>

fun pending :: "set_obj \<Rightarrow> set_iter \<Rightarrow> byte list list" where
  "pending (SetIntset is) (IterIntset i) = map dec_repr (drop i (intset_vals is))"
| "pending (SetHT d) (IterHT di) = map (\<lambda>e. key_text (fst e)) (iter_rest d di)"
| "pending _ _ = []"

fun iter_fits :: "set_obj \<Rightarrow> set_iter \<Rightarrow> bool" where
  "iter_fits (SetIntset is) (IterIntset i) = True"
| "iter_fits (SetHT d) (IterHT di) = iter_ok d di"
| "iter_fits _ _ = False"

lemma elem_key_ok: "elem_ok e \<Longrightarrow> \<exists>k. elem_key e = Some k \<and> key_text k = elem_text e"
  using int_key_ok by (cases e) (auto simp: elem_ok_def elem_key_def elem_text_def)

lemma only_iterators_ok: "only_iterators d d' \<Longrightarrow> set_ok (SetHT d) \<Longrightarrow> set_ok (SetHT d') \<and> elems (SetHT d') = elems (SetHT d)"
proof -
  assume o: "only_iterators d d'" and ok: "set_ok (SetHT d)"
  have "dict_ents d' = dict_ents d" using only_iterators_simps(2,3) [OF o] by (simp add: dict_ents_def)
  with ok only_iterators_simps(5) [OF o] show ?thesis by (simp add: set_ok_def dict_ok_def elems_def dict_map_def)
qed

lemma setTypeNext_ok:
  assumes "set_ok s" and "iter_fits s it"
  shows "\<exists>s' it'. set_ok s' \<and> elems s' = elems s \<and> (case pending s it of
       [] \<Rightarrow> setTypeNext s it = Some (s', it', None)
     | t # ts \<Rightarrow> \<exists>e. setTypeNext s it = Some (s', it', Some e) \<and> elem_text e = t \<and> elem_ok e \<and> iter_fits s' it' \<and> pending s' it' = ts)"
proof (cases s)
  case (SetIntset "is")
  then obtain i where it: "it = IterIntset i" using assms(2) by (cases it) auto
  have ok: "intset_ok is" "\<forall>n \<in> set (intset_vals is). LLONG_MIN < n \<and> n \<le> LLONG_MAX" using assms(1) SetIntset by (simp_all add: set_ok_def)
  show ?thesis
  proof (cases "i < is_length is")
    case True
    then have "drop i (intset_vals is) = intset_vals is ! i # drop (Suc i) (intset_vals is)" by (simp add: Cons_nth_drop_Suc)
    moreover have "elem_ok (EleInt (intset_vals is ! i))" using ok(2) True by (simp add: elem_ok_def)
    ultimately show ?thesis using SetIntset it True assms(1)
      by (intro exI [of _ s] exI [of _ "IterIntset (i + 1)"]) (simp add: setTypeNext_def intsetGet_ok [OF ok(1)] elem_text_def)
  next
    case False
    then show ?thesis using SetIntset it assms(1)
      by (intro exI [of _ s] exI [of _ "IterIntset (i + 1)"]) (simp add: setTypeNext_def intsetGet_ok [OF ok(1)])
  qed
next
  case (SetHT d)
  then obtain di where it: "it = IterHT di" and di: "iter_ok d di" using assms(2) by (cases it) auto
  have "tables_ok setDictType d" using assms(1) SetHT by (simp add: set_ok_def dict_ok_def)
  from dictNext_ok [OF this di] obtain d' di' where d': "only_iterators d d'" and n: "case iter_rest d di of
      [] \<Rightarrow> dictNext d di = Some (d', di', None)
    | e # es \<Rightarrow> dictNext d di = Some (d', di', Some e) \<and> iter_ok d' di' \<and> iter_rest d' di' = es"
    by (auto simp: next_spec_def)
  have same: "set_ok (SetHT d')" "elems (SetHT d') = elems s" using only_iterators_ok [OF d'] assms(1) SetHT by simp_all
  show ?thesis
  proof (cases "iter_rest d di")
    case Nil
    then show ?thesis using n same SetHT it by (intro exI [of _ "SetHT d'"] exI [of _ "IterHT di'"]) (simp add: setTypeNext_def)
  next
    case (Cons e es)
    then show ?thesis using n same SetHT it
      by (intro exI [of _ "SetHT d'"] exI [of _ "IterHT di'"]) (simp add: setTypeNext_def elem_text_def elem_ok_def)
  qed
qed

lemma pending_init:
  assumes "set_ok s"
  shows "iter_fits s (setTypeInitIterator s)" and "distinct (pending s (setTypeInitIterator s))"
    and "set (pending s (setTypeInitIterator s)) = elems s" and "length (pending s (setTypeInitIterator s)) = setTypeSize s"
proof -
  have "iter_fits s (setTypeInitIterator s) \<and> distinct (pending s (setTypeInitIterator s)) \<and> set (pending s (setTypeInitIterator s)) = elems s"
  proof (cases s)
    case (SetIntset "is")
    then have "distinct (intset_vals is)" using assms by (simp add: set_ok_def intset_ok_def strict_sorted_iff)
    moreover have "inj_on dec_repr A" for A by (intro inj_onI) (rule dec_repr_inj)
    ultimately show ?thesis using SetIntset by (simp add: setTypeInitIterator_def distinct_map elems_def)
  next
    case (SetHT d)
    have r: "iter_rest d dictGetIterator = dict_ents d" "iter_ok d dictGetIterator"
      by (simp_all add: iter_rest_def dictGetIterator_def dict_ents_def ents_def ht_def iter_ok_def)
    have "distinct (map (\<lambda>e. key_text (fst e)) (dict_ents d))" using assms SetHT by (simp add: set_ok_def dict_ok_def)
    moreover have "dom (dict_map key_text d) = set (map (\<lambda>e. key_text (fst e)) (dict_ents d))"
      by (simp add: dict_map_def dom_map_of_conv_image_fst image_image)
    ultimately show ?thesis using SetHT r by (simp add: setTypeInitIterator_def elems_def)
  qed
  then show "iter_fits s (setTypeInitIterator s)" "distinct (pending s (setTypeInitIterator s))"
    and e: "set (pending s (setTypeInitIterator s)) = elems s" and "length (pending s (setTypeInitIterator s)) = setTypeSize s"
    using card_elems [OF assms] distinct_card [of "pending s (setTypeInitIterator s)"] by auto
qed

lemma release_ok: "set_ok s \<Longrightarrow> set_ok (setTypeReleaseIterator s it) \<and> elems (setTypeReleaseIterator s it) = elems s"
proof (cases s; cases it)
  fix d di
  assume "set_ok s" and "s = SetHT d" and "it = IterHT di"
  moreover have "only_iterators d (dictReleaseIterator d di)"
    using only_iterators_refl [of d] by (auto simp: dictReleaseIterator_def only_iterators_def)
  ultimately show ?thesis using only_iterators_ok by (simp add: setTypeReleaseIterator_def)
qed (simp_all add: setTypeReleaseIterator_def)

section \<open>SINTER\<close>

definition heap_ok :: "nat set \<Rightarrow> set_heap \<Rightarrow> bool" where
  "heap_ok P st \<longleftrightarrow> (\<forall>p \<in> P. set_ok (st p) \<and> card (elems (st p)) < 2 ^ 27 \<and> (\<forall>t \<in> elems (st p). printable t))"

definition same_sets :: "nat set \<Rightarrow> set_heap \<Rightarrow> set_heap \<Rightarrow> bool" where
  "same_sets P st st' \<longleftrightarrow> heap_ok P st' \<and> (\<forall>p \<in> P. elems (st' p) = elems (st p))"

lemma same_sets_trans: "same_sets P a b \<Longrightarrow> same_sets P b c \<Longrightarrow> same_sets P a c"
  by (simp add: same_sets_def)

lemma same_sets_upd: "heap_ok P st \<Longrightarrow> set_ok s \<Longrightarrow> elems s = elems (st p) \<Longrightarrow> same_sets P st (st(p := s))"
  by (simp add: same_sets_def heap_ok_def)

lemma other_has_ok:
  assumes e: "elem_ok e" and s: "set_ok s" and small: "card (elems s) < 2 ^ 27" and p: "printable (elem_text e)"
  shows "\<exists>s'. other_has e s = Some (s', elem_text e \<in> elems s) \<and> set_ok s' \<and> elems s' = elems s"
proof (cases e)
  case (EleInt n)
  have n: "LLONG_MIN < n" "n \<le> LLONG_MAX" using e EleInt by (simp_all add: elem_ok_def)
  obtain k where k: "int_key n = Some k" "key_text k = dec_repr n" using int_key_ok [OF n] by blast
  show ?thesis
  proof (cases s)
    case (SetIntset "is")
    have "is_int64 n" "is_length is < 2 ^ 29" "intset_ok is"
      using n card_elems [OF s] small SetIntset s by (simp_all add: is_int64_bounds c_limits setTypeSize_def intsetLen_def set_ok_def)
    then show ?thesis using EleInt SetIntset s intset_find_ok [of "is" n] dec_repr_image [of n] by (simp add: other_has_def elem_text_def elems_def)
  next
    case (SetHT d)
    then show ?thesis using EleInt k setTypeIsMember_ok [OF s, of k] small p by (simp add: other_has_def elem_text_def)
  qed
next
  case (EleObj k)
  have t: "elem_text e = key_text k" using EleObj by (simp add: elem_text_def)
  obtain s' where m: "setTypeIsMember s k = Some (s', key_text k \<in> elems s)" "set_ok s'" "elems s' = elems s"
    using setTypeIsMember_ok [OF s, of k] small p t by auto
  show ?thesis
  proof (cases "\<exists>n is. o_ptr (obj_of_key k) = PtrLong n \<and> s = SetIntset is")
    case True
    then obtain n "is" where n: "o_ptr (obj_of_key k) = PtrLong n" "s = SetIntset is" by blast
    then have kt: "key_text k = dec_repr n" "LLONG_MIN < n" "n \<le> LLONG_MAX"
      using obj_of_key_ok [of k] by (simp_all add: key_text_def obj_bytes_def obj_ok_def)
    have "is_int64 n" "is_length is < 2 ^ 29" "intset_ok is"
      using kt card_elems [OF s] small n(2) s by (simp_all add: is_int64_bounds c_limits setTypeSize_def intsetLen_def set_ok_def)
    then have "intsetFind is n = Some (key_text k \<in> elems s)"
      using intset_find_ok [of "is" n] dec_repr_image [of n] kt(1) n(2) by (simp add: elems_def)
    then show ?thesis using EleObj n m s t by (auto simp: other_has_def)
  next
    case False
    then show ?thesis using EleObj m t by (auto simp: other_has_def split: obj_ptr.splits set_obj.splits)
  qed
qed

lemma in_others_ok:
  assumes "heap_ok P st" and "set ps \<subseteq> P" and "elem_ok e" and "printable (elem_text e)"
  shows "\<exists>st'. in_others p0 ps e st = Some (st', \<forall>p \<in> set ps - {p0}. elem_text e \<in> elems (st p)) \<and> same_sets P st st' \<and> st' p0 = st p0"
  using assms
proof (induction ps arbitrary: st)
  case (Cons p ps)
  show ?case
  proof (cases "p = p0")
    case True
    then show ?thesis using Cons by simp
  next
    case False
    have "set_ok (st p)" "card (elems (st p)) < 2 ^ 27" using Cons.prems(1,2) by (auto simp: heap_ok_def)
    from other_has_ok [OF Cons.prems(3) this Cons.prems(4)] obtain s where
      s: "other_has e (st p) = Some (s, elem_text e \<in> elems (st p))" "set_ok s" "elems s = elems (st p)" by blast
    have same: "same_sets P st (st(p := s))" by (rule same_sets_upd [OF Cons.prems(1) s(2,3)])
    show ?thesis
    proof (cases "elem_text e \<in> elems (st p)")
      case False
      then show ?thesis using s(1) same \<open>p \<noteq> p0\<close> by auto
    next
      case True
      have sub: "set ps \<subseteq> P" using Cons.prems(2) by simp
      have "heap_ok P (st(p := s))" using same by (simp add: same_sets_def)
      from Cons.IH [OF this _ Cons.prems(3,4)] sub obtain st' where
        st': "in_others p0 ps e (st(p := s)) = Some (st', \<forall>q \<in> set ps - {p0}. elem_text e \<in> elems ((st(p := s)) q))"
        "same_sets P (st(p := s)) st'" "st' p0 = (st(p := s)) p0" by blast
      have "(\<forall>q \<in> set ps - {p0}. elem_text e \<in> elems ((st(p := s)) q)) = (\<forall>q \<in> set (p # ps) - {p0}. elem_text e \<in> elems (st q))"
        using s(3) True False by auto
      moreover have "in_others p0 (p # ps) e st = in_others p0 ps e (st(p := s))" using s(1) True \<open>p \<noteq> p0\<close> by simp
      moreover have "(st(p := s)) p0 = st p0" using \<open>p \<noteq> p0\<close> by simp
      ultimately show ?thesis using st'(1,3) same_sets_trans [OF same st'(2)] by (intro exI [of _ st']) (simp del: fun_upd_apply in_others.simps)
    qed
  qed
qed (simp add: same_sets_def)

text \<open>What the loop sends: the members of the first set that all others have, in order.\<close>

definition common :: "nat \<Rightarrow> nat list \<Rightarrow> set_heap \<Rightarrow> byte list list \<Rightarrow> byte list list" where
  "common p0 ps st ts = filter (\<lambda>t. \<forall>p \<in> set ps - {p0}. t \<in> elems (st p)) ts"

lemma common_same: "same_sets P st st' \<Longrightarrow> set ps \<subseteq> P \<Longrightarrow> common p0 ps st' ts = common p0 ps st ts"
  unfolding common_def same_sets_def by (intro filter_cong) auto

lemma sinter_loop_ok:
  assumes "heap_ok P st" and "insert p0 (set ps) \<subseteq> P" and "iter_fits (st p0) it" and "\<forall>t \<in> set (pending (st p0) it). printable t"
    and "length (pending (st p0) it) < n" and "\<And>t. dst = Some t \<Longrightarrow> set_ok t \<and> card (elems t) + length (pending (st p0) it) < 2 ^ 27"
  shows "\<exists>st' out dst'. sinter_loop cr lim p0 ps n it st dst = Some (st', out, dst') \<and> same_sets P st st' \<and>
    map elem_text out = (if dst = None then common p0 ps st (pending (st p0) it) else []) \<and>
    (case dst of None \<Rightarrow> dst' = None
     | Some t \<Rightarrow> \<exists>t'. dst' = Some t' \<and> set_ok t' \<and> elems t' = elems t \<union> set (common p0 ps st (pending (st p0) it)))"
  using assms
proof (induction n arbitrary: st it dst)
  case (Suc n)
  have s0: "set_ok (st p0)" using Suc.prems(1,2) by (auto simp: heap_ok_def)
  from setTypeNext_ok [OF s0 Suc.prems(3)] obtain s it' where s: "set_ok s" "elems s = elems (st p0)"
    and n: "case pending (st p0) it of [] \<Rightarrow> setTypeNext (st p0) it = Some (s, it', None)
     | t # ts \<Rightarrow> \<exists>e. setTypeNext (st p0) it = Some (s, it', Some e) \<and> elem_text e = t \<and> elem_ok e \<and> iter_fits s it' \<and> pending s it' = ts"
    by blast
  let ?st = "st(p0 := s)"
  have same0: "same_sets P st ?st" by (rule same_sets_upd [OF Suc.prems(1) s])
  show ?case
  proof (cases "pending (st p0) it")
    case Nil
    have "same_sets P st (st(p0 := setTypeReleaseIterator s it'))"
      using release_ok [OF s(1), of it'] s(2) by (intro same_sets_upd [OF Suc.prems(1)]) simp_all
    then show ?thesis using n Nil Suc.prems(6) by (auto simp: common_def split: option.splits)
  next
    case (Cons t ts)
    then obtain e where e: "setTypeNext (st p0) it = Some (s, it', Some e)" "elem_text e = t" "elem_ok e" "iter_fits s it'" "pending s it' = ts"
      using n by auto
    have p: "printable (elem_text e)" "\<forall>t \<in> set ts. printable t" using Suc.prems(4) Cons e(2) by simp_all
    have h1: "heap_ok P ?st" using same0 by (simp add: same_sets_def)
    obtain st1 where st1: "in_others p0 ps e ?st = Some (st1, \<forall>p \<in> set ps - {p0}. elem_text e \<in> elems (?st p))" "same_sets P ?st st1" "st1 p0 = ?st p0"
      using in_others_ok [OF h1 _ e(3) p(1), of ps p0] Suc.prems(2) by blast
    define hit where "hit \<longleftrightarrow> (\<forall>p \<in> set ps - {p0}. t \<in> elems (st p))"
    have hit: "(\<forall>p \<in> set ps - {p0}. elem_text e \<in> elems (?st p)) = hit" by (auto simp: hit_def e(2))
    have same1: "same_sets P st st1" by (rule same_sets_trans [OF same0 st1(2)])
    have st1p: "heap_ok P st1" "iter_fits (st1 p0) it'" "pending (st1 p0) it' = ts" using same1 st1(3) e(4,5) by (simp_all add: same_sets_def)
    have com: "common p0 ps st (pending (st p0) it) = (if hit then [t] else []) @ common p0 ps st1 ts"
      using common_same [OF same1, of ps p0] Suc.prems(2) Cons by (simp add: common_def hit_def)
    have run: "sinter_loop cr lim p0 ps (Suc n) it st dst =
      (if \<not> hit then sinter_loop cr lim p0 ps n it' st1 dst
       else (case dst of
           None \<Rightarrow> do { (st, out, dst) \<leftarrow> sinter_loop cr lim p0 ps n it' st1 dst; Some (st, e # out, dst) }
         | Some t \<Rightarrow> do { k \<leftarrow> elem_key e; (t, _) \<leftarrow> setTypeAdd cr lim t k; sinter_loop cr lim p0 ps n it' st1 (Some t) }))"
      using e(1) st1(1) hit by simp
    have len: "length (pending (st1 p0) it') < n" using Suc.prems(5) Cons st1p(3) by simp
    note IH = Suc.IH [OF st1p(1) Suc.prems(2) st1p(2) _ len, unfolded st1p(3), OF p(2)]
    show ?thesis
    proof (cases dst)
      case None
      obtain st' out where "sinter_loop cr lim p0 ps n it' st1 None = Some (st', out, None)" "same_sets P st1 st'" "map elem_text out = common p0 ps st1 ts"
        using IH [of None] by auto
      then show ?thesis using run com None e(2) same_sets_trans [OF same1] by (cases hit) auto
    next
      case (Some d)
      have d: "set_ok d" "card (elems d) + Suc (length ts) < 2 ^ 27" using Suc.prems(6) [OF Some] Cons by simp_all
      show ?thesis
      proof (cases hit)
        case False
        obtain st' t' where "sinter_loop cr lim p0 ps n it' st1 (Some d) = Some (st', [], Some t')" "same_sets P st1 st'" "set_ok t'"
          "elems t' = elems d \<union> set (common p0 ps st1 ts)"
          using IH [of "Some d"] d by auto
        then show ?thesis using run com Some False same_sets_trans [OF same1] by auto
      next
        case True
        obtain k where k: "elem_key e = Some k" "key_text k = t" using elem_key_ok [OF e(3)] e(2) by blast
        obtain d' where d': "setTypeAdd cr lim d k = Some (d', t \<notin> elems d)" "set_ok d'" "elems d' = insert t (elems d)"
          using setTypeAdd_ok [OF d(1), of k cr lim] d(2) p(1) k(2) e(2) by auto
        have "card (elems d') + length ts < 2 ^ 27" using d(2) d'(3) finite_elems [of d] by (simp add: card_insert_if)
        then obtain st' t' where "sinter_loop cr lim p0 ps n it' st1 (Some d') = Some (st', [], Some t')" "same_sets P st1 st'" "set_ok t'"
          "elems t' = elems d' \<union> set (common p0 ps st1 ts)"
          using IH [of "Some d'"] d'(2) by auto
        then show ?thesis using run com Some True k(1) d' same_sets_trans [OF same1] by auto
      qed
    qed
  qed
qed simp

section \<open>SUNION and SDIFF\<close>

lemma combine_loop_ok:
  assumes "set_ok s" and "iter_fits s it" and "\<forall>t \<in> set (pending s it). printable t" and "length (pending s it) < n"
    and "set_ok dst" and "card (elems dst) + (if add then length (pending s it) else 0) < 2 ^ 27"
  shows "\<exists>s' dst'. combine_loop cr lim add n it s dst (int (card (elems dst))) = Some (s', dst', int (card (elems dst'))) \<and>
    set_ok s' \<and> elems s' = elems s \<and> set_ok dst' \<and>
    elems dst' = (if add then elems dst \<union> set (pending s it) else elems dst - set (pending s it))"
  using assms
proof (induction n arbitrary: s it dst)
  case (Suc n)
  from setTypeNext_ok [OF Suc.prems(1,2)] obtain s1 it' where s: "set_ok s1" "elems s1 = elems s"
    and n: "case pending s it of [] \<Rightarrow> setTypeNext s it = Some (s1, it', None)
     | t # ts \<Rightarrow> \<exists>e. setTypeNext s it = Some (s1, it', Some e) \<and> elem_text e = t \<and> elem_ok e \<and> iter_fits s1 it' \<and> pending s1 it' = ts"
    by blast
  show ?case
  proof (cases "pending s it")
    case Nil
    then show ?thesis using n release_ok [OF s(1), of it'] s(2) Suc.prems(5) by (auto simp: setTypeNextObject_def)
  next
    case (Cons t ts)
    then obtain e where e: "setTypeNext s it = Some (s1, it', Some e)" "elem_text e = t" "elem_ok e" "iter_fits s1 it'" "pending s1 it' = ts"
      using n by auto
    obtain k where k: "elem_key e = Some k" "key_text k = t" using elem_key_ok [OF e(3)] e(2) by blast
    have p: "printable t" "\<forall>t \<in> set ts. printable t" using Suc.prems(3) Cons by simp_all
    have nx: "setTypeNextObject s it = Some (s1, it', Some k)" using e(1) k(1) by (simp add: setTypeNextObject_def)
    have len: "length (pending s1 it') < n" using Suc.prems(4) Cons e(5) by simp
    note IH = Suc.IH [OF s(1) e(4) _ len, unfolded e(5), OF p(2)]
    show ?thesis
    proof (cases add)
      case True
      have small: "card (elems dst) + Suc (length ts) < 2 ^ 27" using Suc.prems(6) True Cons by simp
      obtain d where d: "setTypeAdd cr lim dst k = Some (d, t \<notin> elems dst)" "set_ok d" "elems d = insert t (elems dst)"
        using setTypeAdd_ok [OF Suc.prems(5), of k cr lim] small p(1) k(2) by auto
      have c: "(if t \<notin> elems dst then int (card (elems dst)) + 1 else int (card (elems dst))) = int (card (elems d))"
        using d(3) finite_elems [of dst] by (simp add: card_insert_if)
      have "card (elems d) + length ts < 2 ^ 27" using small d(3) finite_elems [of dst] by (simp add: card_insert_if)
      then obtain s' d' where "combine_loop cr lim add n it' s1 d (int (card (elems d))) = Some (s', d', int (card (elems d')))"
        "set_ok s'" "elems s' = elems s1" "set_ok d'" "elems d' = elems d \<union> set ts"
        using IH [OF d(2)] True by auto
      then show ?thesis using nx True d(1,3) c s(2) Cons by simp
    next
      case False
      have small: "card (elems dst) < 2 ^ 28" using Suc.prems(6) by (simp split: if_splits)
      obtain d where d: "setTypeRemove cr dst k = Some (d, t \<in> elems dst)" "set_ok d" "elems d = elems dst - {t}"
        using setTypeRemove_ok [OF Suc.prems(5) small, of k cr] p(1) k(2) by auto
      have dcard: "card (elems dst) = card (elems d) + (if t \<in> elems dst then 1 else 0)"
        using d(3) card_Suc_Diff1 [OF finite_elems, of t dst] by (cases "t \<in> elems dst") simp_all
      have c: "(if t \<in> elems dst then int (card (elems dst)) - 1 else int (card (elems dst))) = int (card (elems d))"
        using dcard by simp
      have "card (elems d) < 2 ^ 27" using Suc.prems(6) False dcard by (simp split: if_splits)
      then obtain s' d' where "combine_loop cr lim add n it' s1 d (int (card (elems d))) = Some (s', d', int (card (elems d')))"
        "set_ok s'" "elems s' = elems s1" "set_ok d'" "elems d' = elems d - set ts"
        using IH [OF d(2)] False by auto
      moreover have "elems dst - {t} - set ts = elems dst - set (t # ts)" by auto
      ultimately show ?thesis using nx False d(1,3) c s(2) Cons by simp
    qed
  qed
qed simp

definition members :: "set_heap \<Rightarrow> nat option \<Rightarrow> byte list set" where
  "members st ref = (case ref of None \<Rightarrow> {} | Some p \<Rightarrow> elems (st p))"

definition pointers :: "nat option list \<Rightarrow> nat set" where
  "pointers ps = {p. Some p \<in> set ps}"

lemma members_same:
  assumes "same_sets P st st'" and "pointers ps \<subseteq> P" and "x \<in> set ps"
  shows "members st' x = members st x"
proof (cases x)
  case (Some p)
  then have "p \<in> P" using assms(2,3) by (auto simp: pointers_def)
  then show ?thesis using assms(1) Some by (simp add: members_def same_sets_def)
qed (simp add: members_def)

definition combined :: "set_op \<Rightarrow> byte list set \<Rightarrow> byte list set \<Rightarrow> byte list set" where
  "combined oper A B = (case oper of REDIS_OP_UNION \<Rightarrow> A \<union> B | REDIS_OP_DIFF \<Rightarrow> A - B)"

lemma combine_set_ok:
  assumes h: "heap_ok P st" and p: "p \<in> P" and d: "set_ok dst" and small: "card (elems dst) + card (elems (st p)) < 2 ^ 27"
  shows "\<exists>s dst'. combine_loop cr lim add (setTypeSize (st p) + 1) (setTypeInitIterator (st p)) (st p) dst (int (card (elems dst))) =
      Some (s, dst', int (card (elems dst'))) \<and> same_sets P st (st(p := s)) \<and> set_ok dst' \<and>
    elems dst' = (if add then elems dst \<union> elems (st p) else elems dst - elems (st p))"
proof -
  have s: "set_ok (st p)" "\<forall>t \<in> elems (st p). printable t" using h p by (auto simp: heap_ok_def)
  note it = pending_init [OF s(1)]
  have pr: "\<forall>t \<in> set (pending (st p) (setTypeInitIterator (st p))). printable t" using s(2) it(3) by simp
  have len: "length (pending (st p) (setTypeInitIterator (st p))) < setTypeSize (st p) + 1" using it(4) by simp
  have fits: "card (elems dst) + (if add then length (pending (st p) (setTypeInitIterator (st p))) else 0) < 2 ^ 27"
    using it(4) card_elems [OF s(1)] small by simp
  obtain s1 d1 where r: "combine_loop cr lim add (setTypeSize (st p) + 1) (setTypeInitIterator (st p)) (st p) dst (int (card (elems dst))) =
      Some (s1, d1, int (card (elems d1)))" "set_ok s1" "elems s1 = elems (st p)" "set_ok d1"
    "elems d1 = (if add then elems dst \<union> elems (st p) else elems dst - elems (st p))"
    using combine_loop_ok [OF s(1) it(1) pr len d fits, of cr lim] unfolding it(3) by blast
  then show ?thesis using same_sets_upd [OF h r(2,3)] by blast
qed

lemma sunion_diff_loop_ok:
  assumes "heap_ok P st" and "pointers ps \<subseteq> P" and "set_ok dst"
    and "card (elems dst) + sum_list (map (\<lambda>x. card (members st x)) ps) < 2 ^ 27"
  shows "\<exists>st' dst'. sunion_diff_loop cr lim oper False ps st dst (int (card (elems dst))) = Some (st', dst', int (card (elems dst'))) \<and>
    same_sets P st st' \<and> set_ok dst' \<and> elems dst' = combined oper (elems dst) (\<Union>x \<in> set ps. members st x)"
  using assms
proof (induction ps arbitrary: st dst)
  case Nil
  then show ?case by (auto simp: same_sets_def combined_def split: set_op.splits)
next
  case (Cons x ps)
  have sub: "pointers ps \<subseteq> P" using Cons.prems(2) by (auto simp: pointers_def)
  show ?case
  proof (cases x)
    case None
    then show ?thesis using Cons.IH [OF Cons.prems(1) sub Cons.prems(3)] Cons.prems(4) by (simp add: members_def)
  next
    case (Some p)
    have p: "p \<in> P" using Cons.prems(2) Some by (auto simp: pointers_def)
    have small: "card (elems dst) + card (elems (st p)) < 2 ^ 27" using Cons.prems(4) Some by (simp add: members_def)
    obtain s d where c: "combine_loop cr lim (oper = REDIS_OP_UNION) (setTypeSize (st p) + 1) (setTypeInitIterator (st p)) (st p) dst (int (card (elems dst))) =
        Some (s, d, int (card (elems d)))" "same_sets P st (st(p := s))" "set_ok d"
      "elems d = (if oper = REDIS_OP_UNION then elems dst \<union> elems (st p) else elems dst - elems (st p))"
      using combine_set_ok [OF Cons.prems(1) p Cons.prems(3) small] by blast
    let ?st = "st(p := s)"
    have dc: "elems d = combined oper (elems dst) (elems (st p))" using c(4) by (cases oper) (simp_all add: combined_def)
    have mem: "members ?st y = members st y" if "y \<in> set ps" for y
      by (rule members_same [OF c(2) sub that])
    have U: "(\<Union>y \<in> set ps. members ?st y) = (\<Union>y \<in> set ps. members st y)" "map (\<lambda>x. card (members ?st x)) ps = map (\<lambda>x. card (members st x)) ps"
      using mem by simp_all
    have all: "combined oper (elems d) (\<Union>y \<in> set ps. members st y) = combined oper (elems dst) (\<Union>y \<in> set (x # ps). members st y)"
      using dc Some by (cases oper) (auto simp: combined_def members_def)
    show ?thesis
    proof (cases "oper = REDIS_OP_DIFF \<and> card (elems d) = 0")
      case True
      then have "elems d = {}" using finite_elems [of d] by simp
      then have "combined oper (elems dst) (\<Union>y \<in> set (x # ps). members st y) = elems d" using all True by (simp add: combined_def)
      then show ?thesis using True c Some by auto
    next
      case False
      have "card (elems d) \<le> card (elems dst) + card (elems (st p))"
      proof (cases oper)
        case REDIS_OP_UNION
        then show ?thesis using dc by (simp add: combined_def card_Un_le)
      next
        case REDIS_OP_DIFF
        then have "card (elems d) \<le> card (elems dst)" using dc finite_elems [of dst] by (simp add: combined_def card_mono)
        then show ?thesis by simp
      qed
      then have "card (elems d) + sum_list (map (\<lambda>x. card (members ?st x)) ps) < 2 ^ 27" using Cons.prems(4) Some unfolding U(2) by (simp add: members_def)
      moreover have "heap_ok P ?st" using c(2) by (simp add: same_sets_def)
      ultimately obtain st' d' where r: "sunion_diff_loop cr lim oper False ps ?st d (int (card (elems d))) = Some (st', d', int (card (elems d')))"
        "same_sets P ?st st'" "set_ok d'" "elems d' = combined oper (elems d) (\<Union>y \<in> set ps. members ?st y)"
        using Cons.IH [OF _ sub c(3), of ?st] by blast
      have "sunion_diff_loop cr lim oper False (x # ps) st dst (int (card (elems dst))) = sunion_diff_loop cr lim oper False ps ?st d (int (card (elems d)))"
        using c(1) False Some by (auto simp del: fun_upd_apply)
      then show ?thesis using r same_sets_trans [OF c(2) r(2)] all U(1) by auto
    qed
  qed
qed

section \<open>Sequences of calls\<close>

datatype 'a set_call = AddCall 'a | RemoveCall 'a | MemberCall 'a

fun set_calls ::
  "('s \<Rightarrow> 'a \<Rightarrow> ('s \<times> bool) option) \<Rightarrow> ('s \<Rightarrow> 'a \<Rightarrow> ('s \<times> bool) option) \<Rightarrow> ('s \<Rightarrow> 'a \<Rightarrow> ('s \<times> bool) option) \<Rightarrow>
     'a set_call list \<Rightarrow> 's \<Rightarrow> ('s \<times> bool list) option" where
  "set_calls add remove member [] s = Some (s, [])"
| "set_calls add remove member (x # xs) s =
     do { (s, b) \<leftarrow> (case x of AddCall v \<Rightarrow> add s v | RemoveCall v \<Rightarrow> remove s v | MemberCall v \<Rightarrow> member s v);
          (s, bs) \<leftarrow> set_calls add remove member xs s;
          Some (s, b # bs) }"

fun set_answers :: "'a set_call list \<Rightarrow> 'a set \<Rightarrow> 'a set \<times> bool list" where
  "set_answers [] A = (A, [])"
| "set_answers (x # xs) A =
     (let (A, b) = (case x of AddCall v \<Rightarrow> (insert v A, v \<notin> A) | RemoveCall v \<Rightarrow> (A - {v}, v \<in> A) | MemberCall v \<Rightarrow> (A, v \<in> A));
          (A, bs) = set_answers xs A in (A, b # bs))"

fun call_value :: "'a set_call \<Rightarrow> 'a" where
  "call_value (AddCall v) = v" | "call_value (RemoveCall v) = v" | "call_value (MemberCall v) = v"

context set_impl begin

lemma set_calls_law:
  "invar s \<Longrightarrow> \<forall>x \<in> set xs. valid (call_value x) \<Longrightarrow> card (elems s) + length xs < cap \<Longrightarrow>
     \<exists>s'. set_calls add remove member xs s = Some (s', snd (set_answers xs (elems s))) \<and> invar s' \<and> elems s' = fst (set_answers xs (elems s))"
proof (induction xs arbitrary: s)
  case (Cons x xs)
  have v: "valid (call_value x)" using Cons.prems(2) by simp
  have c: "card (elems s) + 1 < cap" "card (elems s) < cap" using Cons.prems(3) by simp_all
  have f: "finite (elems s)" by (rule fin_law [OF Cons.prems(1)])
  have step: "\<exists>s1. (case x of AddCall v \<Rightarrow> add s v | RemoveCall v \<Rightarrow> remove s v | MemberCall v \<Rightarrow> member s v) =
      Some (s1, snd (case x of AddCall v \<Rightarrow> (insert v (elems s), v \<notin> elems s) | RemoveCall v \<Rightarrow> (elems s - {v}, v \<in> elems s) | MemberCall v \<Rightarrow> (elems s, v \<in> elems s))) \<and>
      invar s1 \<and> elems s1 = fst (case x of AddCall v \<Rightarrow> (insert v (elems s), v \<notin> elems s) | RemoveCall v \<Rightarrow> (elems s - {v}, v \<in> elems s) | MemberCall v \<Rightarrow> (elems s, v \<in> elems s)) \<and>
      card (elems s1) \<le> card (elems s) + 1"
  proof (cases x)
    case (AddCall a)
    then show ?thesis using add_law [OF Cons.prems(1) _ c(1), of a] v f by (auto simp: card_insert_if)
  next
    case (RemoveCall a)
    then show ?thesis using remove_law [OF Cons.prems(1) _ c(2), of a] v f by (auto simp: card_Diff_singleton_if)
  next
    case (MemberCall a)
    then show ?thesis using member_law [OF Cons.prems(1) _ c(2), of a] v by auto
  qed
  then obtain s1 where s1: "(case x of AddCall v \<Rightarrow> add s v | RemoveCall v \<Rightarrow> remove s v | MemberCall v \<Rightarrow> member s v) =
      Some (s1, snd (case x of AddCall v \<Rightarrow> (insert v (elems s), v \<notin> elems s) | RemoveCall v \<Rightarrow> (elems s - {v}, v \<in> elems s) | MemberCall v \<Rightarrow> (elems s, v \<in> elems s)))"
    "invar s1" "elems s1 = fst (case x of AddCall v \<Rightarrow> (insert v (elems s), v \<notin> elems s) | RemoveCall v \<Rightarrow> (elems s - {v}, v \<in> elems s) | MemberCall v \<Rightarrow> (elems s, v \<in> elems s))"
    "card (elems s1) \<le> card (elems s) + 1" by blast
  obtain s2 where s2: "set_calls add remove member xs s1 = Some (s2, snd (set_answers xs (elems s1)))" "invar s2" "elems s2 = fst (set_answers xs (elems s1))"
    using Cons.IH [OF s1(2)] Cons.prems(2,3) s1(4) by auto
  have "set_calls add remove member (x # xs) s =
      Some (s2, snd (case x of AddCall v \<Rightarrow> (insert v (elems s), v \<notin> elems s) | RemoveCall v \<Rightarrow> (elems s - {v}, v \<in> elems s) | MemberCall v \<Rightarrow> (elems s, v \<in> elems s)) #
        snd (set_answers xs (elems s1)))"
    using s1(1) s2(1) by simp
  then show ?case using s1(3) s2(2,3) by (simp add: split_beta Let_def)
qed simp

end

section \<open>Properties\<close>

text \<open>C20: A set object answers any sequence of SADD, SREM and SISMEMBER of members as the set of their texts does,
  while it starts as an integer set, widens it, and becomes a hash table when a member is not an integer or when it
  grows past the configured size.\<close>

theorem set_object_refines_set:
  assumes "\<forall>x \<in> set xs. printable (call_value x)" and "length xs < 2 ^ 27"
  shows "\<exists>s. set_calls (sadd cr lim) (\<lambda>s b. setTypeRemove cr s (raw_key b)) sismember xs createIntsetObject = Some (s, snd (set_answers xs {})) \<and>
    elems s = fst (set_answers xs {}) \<and> setTypeSize s = card (fst (set_answers xs {}))"
  using set_object.set_calls_law [of createIntsetObject xs cr lim] assms card_elems by (fastforce simp: intset_empty)

lemma set_object_refines_set_witness:
  "\<exists>s. set_calls (sadd True 2) (\<lambda>s b. setTypeRemove True s (raw_key b)) sismember
      [AddCall [53], AddCall [97], AddCall [53], RemoveCall [53], MemberCall [53], MemberCall [97]] createIntsetObject =
        Some (s, [True, True, False, True, False, True]) \<and> elems s = {[97]}"
proof -
  have p: "printable [53]" "printable [97]" by (simp_all add: printable_hd)
  show ?thesis
    using set_object_refines_set [of "[AddCall [53], AddCall [97], AddCall [53], RemoveCall [53], MemberCall [53], MemberCall [97]]" True 2] p
    by auto
qed

text \<open>C21: SINTER sends, each once, exactly the members that all the given sets have, and SINTERSTORE builds a set of them,
  whatever the encodings of the sets, also when a set is given more than once; the sets keep their members.\<close>

theorem sinter_sets_correct:
  assumes "heap_ok (set ps) st" and "ps \<noteq> []"
  shows "\<exists>st' out st'' d. sinter_sets cr lim False ps st = Some (st', out, None) \<and> distinct (map elem_text out) \<and>
      set (map elem_text out) = (\<Inter>p \<in> set ps. elems (st p)) \<and> same_sets (set ps) st st' \<and>
    sinter_sets cr lim True ps st = Some (st'', [], Some d) \<and> set_ok d \<and> elems d = (\<Inter>p \<in> set ps. elems (st p)) \<and>
      same_sets (set ps) st st''"
proof -
  define qs where "qs = sort_key (\<lambda>p. setTypeSize (st p)) ps"
  have qs: "set qs = set ps" by (simp add: qs_def)
  obtain p0 rest where q: "qs = p0 # rest" using assms(2) by (cases qs) (auto simp: qs_def dest: arg_cong [where f = length])
  let ?it = "setTypeInitIterator (st p0)"
  have s: "set_ok (st p0)" "\<forall>t \<in> elems (st p0). printable t" "card (elems (st p0)) < 2 ^ 27" using assms(1) qs q by (auto simp: heap_ok_def)
  note it = pending_init [OF s(1)]
  have sub: "insert p0 (set rest) \<subseteq> set ps" using qs q by auto
  have c: "set (common p0 rest st (pending (st p0) ?it)) = (\<Inter>p \<in> set ps. elems (st p))"
    using it(3) qs q unfolding common_def by (auto simp flip: qs)
  have len: "length (pending (st p0) ?it) < setTypeSize (st p0) + 1" using it(4) by simp
  have pr: "\<forall>t \<in> set (pending (st p0) ?it). printable t" using s(2) it(3) by simp
  have run: "sinter_sets cr lim store ps st = sinter_loop cr lim p0 rest (setTypeSize (st p0) + 1) ?it st (if store then Some createIntsetObject else None)" for store
    using q by (simp add: sinter_sets_def flip: qs_def del: sinter_loop.simps)
  note L = sinter_loop_ok [OF assms(1) sub it(1) pr len]
  obtain st' out where 1: "sinter_sets cr lim False ps st = Some (st', out, None)" "same_sets (set ps) st st'"
    "map elem_text out = common p0 rest st (pending (st p0) ?it)"
    using L [of None cr lim] run [of False] by (auto simp del: sinter_loop.simps)
  have "card (elems createIntsetObject) + length (pending (st p0) ?it) < 2 ^ 27" using it(4) s(3) card_elems [OF s(1)] intset_empty by simp
  then obtain st'' d where 2: "sinter_sets cr lim True ps st = Some (st'', [], Some d)" "same_sets (set ps) st st''" "set_ok d"
    "elems d = set (common p0 rest st (pending (st p0) ?it))"
    using L [of "Some createIntsetObject" cr lim] run [of True] intset_empty by (auto simp del: sinter_loop.simps)
  have "distinct (common p0 rest st (pending (st p0) ?it))" using it(2) by (simp add: common_def)
  then show ?thesis using 1 2 c
    by (intro exI [of _ st'] exI [of _ out] exI [of _ st''] exI [of _ d]) (simp del: set_map)
qed

text \<open>C22: SUNION and SDIFF compute the union of the given sets and the difference of the first and the others, keys that do
  not exist counting as empty sets, and the number of members they send is that of the result.\<close>

theorem sunion_diff_sets_correct:
  assumes "heap_ok (pointers ps) st" and "sum_list (map (\<lambda>x. card (members st x)) ps) < 2 ^ 27"
  shows "\<exists>st' d. sunion_diff_sets cr lim oper ps st = Some (st', d, int (card (elems d))) \<and> set_ok d \<and> same_sets (pointers ps) st st' \<and>
    elems d = (case oper of
        REDIS_OP_UNION \<Rightarrow> (\<Union>x \<in> set ps. members st x)
      | REDIS_OP_DIFF \<Rightarrow> (case ps of [] \<Rightarrow> {} | x # xs \<Rightarrow> members st x - (\<Union>y \<in> set xs. members st y)))"
proof (cases ps)
  case Nil
  then show ?thesis using intset_empty by (auto simp: sunion_diff_sets_def same_sets_def heap_ok_def pointers_def split: set_op.splits)
next
  case (Cons x xs)
  have e: "set_ok createIntsetObject" "elems createIntsetObject = {}" using intset_empty by simp_all
  have xs: "pointers xs \<subseteq> pointers ps" using Cons by (auto simp: pointers_def)
  show ?thesis
  proof (cases oper)
    case REDIS_OP_UNION
    have "sunion_diff_loop cr lim oper True ps st createIntsetObject 0 = sunion_diff_loop cr lim oper False ps st createIntsetObject 0"
      using REDIS_OP_UNION Cons by (cases x) simp_all
    then show ?thesis
      using sunion_diff_loop_ok [OF assms(1) subset_refl e(1), of cr lim oper] assms(2) e(2) REDIS_OP_UNION
      by (auto simp: sunion_diff_sets_def combined_def simp del: sunion_diff_loop.simps)
  next
    case REDIS_OP_DIFF
    show ?thesis
    proof (cases x)
      case None
      then show ?thesis using REDIS_OP_DIFF Cons e assms(1) by (auto simp: sunion_diff_sets_def same_sets_def members_def)
    next
      case (Some p)
      have p: "p \<in> pointers ps" using Cons Some by (simp add: pointers_def)
      have small: "card (elems createIntsetObject) + card (elems (st p)) < 2 ^ 27" using assms(2) Cons Some e(2) by (simp add: members_def)
      obtain s d where c: "combine_loop cr lim True (setTypeSize (st p) + 1) (setTypeInitIterator (st p)) (st p) createIntsetObject 0 =
          Some (s, d, int (card (elems d)))" "same_sets (pointers ps) st (st(p := s))" "set_ok d" "elems d = elems (st p)"
        using combine_set_ok [OF assms(1) p e(1) small, of cr lim True] e(2) by (auto simp del: combine_loop.simps)
      let ?st = "st(p := s)"
      have mem: "members ?st y = members st y" if "y \<in> set xs" for y
        by (rule members_same [OF c(2) xs that])
      have U: "(\<Union>y \<in> set xs. members ?st y) = (\<Union>y \<in> set xs. members st y)" "map (\<lambda>x. card (members ?st x)) xs = map (\<lambda>x. card (members st x)) xs"
        using mem by simp_all
      have fit: "card (elems d) + sum_list (map (\<lambda>x. card (members ?st x)) xs) < 2 ^ 27" using assms(2) Cons Some c(4) unfolding U(2) by (simp add: members_def)
      have h: "heap_ok (pointers ps) ?st" using c(2) by (simp add: same_sets_def)
      obtain st' d' where r: "sunion_diff_loop cr lim oper False xs ?st d (int (card (elems d))) = Some (st', d', int (card (elems d')))"
        "same_sets (pointers ps) ?st st'" "set_ok d'" "elems d' = combined oper (elems d) (\<Union>y \<in> set xs. members ?st y)"
        using sunion_diff_loop_ok [OF h xs c(3) fit] by blast
      have run: "sunion_diff_sets cr lim oper ps st =
        (if card (elems d) = 0 then Some (?st, d, int (card (elems d))) else sunion_diff_loop cr lim oper False xs ?st d (int (card (elems d))))"
        using c(1) Cons Some REDIS_OP_DIFF by (simp add: sunion_diff_sets_def del: combine_loop.simps fun_upd_apply)
      have res: "(case oper of REDIS_OP_UNION \<Rightarrow> (\<Union>x \<in> set ps. members st x)
        | REDIS_OP_DIFF \<Rightarrow> (case ps of [] \<Rightarrow> {} | x # xs \<Rightarrow> members st x - (\<Union>y \<in> set xs. members st y))) = elems d - (\<Union>y \<in> set xs. members st y)"
        using Cons Some REDIS_OP_DIFF c(4) by (simp add: members_def)
      show ?thesis
      proof (cases "card (elems d) = 0")
        case True
        then have "elems d = {}" using finite_elems [of d] by simp
        then show ?thesis unfolding res using run True c(2,3) by simp
      next
        case False
        then show ?thesis unfolding res using run r same_sets_trans [OF c(2) r(2)] U(1) REDIS_OP_DIFF by (simp add: combined_def)
      qed
    qed
  qed
qed

text \<open>A heap with the sets of 5 and 9 and of 9 alone for the witnesses.\<close>

definition demo_heap :: set_heap where
  "demo_heap p = SetIntset (if p = 0 then demo_intset else \<lparr>is_encoding = 2, is_length = Suc 0, is_contents = [9, 0]\<rparr>)"

lemma demo_heap_ok: "heap_ok P demo_heap" "elems (demo_heap 0) = {[53], [57]}" "elems (demo_heap (Suc 0)) = {[57]}"
proof -
  let ?i = "\<lparr>is_encoding = 2, is_length = Suc 0, is_contents = [9, 0]\<rparr>"
  have v: "intset_vals ?i = [9]" by (simp add: intset_vals_def slot_def le_sint_def upt_rec)
  have i: "intset_ok ?i" by (simp add: intset_ok_def v INTSET_ENC_defs)
  have d: "dec_repr 5 = [53]" "dec_repr 9 = [57]" by (simp_all add: dec_repr_def dec_nat.simps digit_char_def)
  show e: "elems (demo_heap 0) = {[53], [57]}" "elems (demo_heap (Suc 0)) = {[57]}"
    by (simp_all add: elems_def demo_heap_def demo_intset_vals v d)
  have "elems (demo_heap p) = (if p = 0 then {[53], [57]} else {[57]})" "set_ok (demo_heap p)" for p
    using e(1) demo_intset_ok i by (simp_all add: demo_heap_def elems_def v d set_ok_def demo_intset_vals c_limits)
  then show "heap_ok P demo_heap" by (simp add: heap_ok_def printable_hd)
qed

lemma sinter_sets_correct_witness:
  "\<exists>st' out. sinter_sets True 512 False [0, 1] demo_heap = Some (st', out, None) \<and> set (map elem_text out) = {[57]}"
  using sinter_sets_correct [of "[0, 1]" demo_heap True 512] demo_heap_ok by auto

lemma sunion_diff_sets_correct_witness:
  "\<exists>st' d. sunion_diff_sets True 512 REDIS_OP_DIFF [Some 0, None, Some 1] demo_heap = Some (st', d, 1) \<and> elems d = {[53]}"
proof -
  have "elems d = {[53]} \<Longrightarrow> card (elems d) = 1" for d by simp
  then show ?thesis
    using sunion_diff_sets_correct [of "[Some 0, None, Some 1]" demo_heap True 512 REDIS_OP_DIFF] demo_heap_ok
    by (auto simp: members_def)
qed

end
