(* ===== verification/Rdb.thy ===== *)
theory Rdb
  imports Lzf SdsText Object
begin

text \<open>
  The primitives of the dump file, \<^verbatim>\<open>src/webserver/redis/src/rdb.c\<close>: lengths, times and string
  objects, written to a stdio stream and read from it.

  A stream that is written to has bytes on the disk and bytes in the buffer of the library, and a
  disk with a number of bytes left; the buffer is written out when a write fills it. A stream that
  is read is the list of bytes still to come. The null stream, to which the code writes in order to
  learn the size of an object, is \<open>None\<close>. Sizes are returned in an \<^verbatim>\<open>int\<close>, whose
  overflow is undefined. The hash table of the compressor is not initialised: \<open>ht s\<close> is what it
  holds when \<open>s\<close> is compressed. The host is little-endian.
\<close>

section \<open>Streams\<close>

record wfile =
  w_disk :: "byte list"
  w_buf :: "byte list"
  w_room :: nat
  w_limit :: nat

definition stdio_flush :: "wfile \<Rightarrow> wfile \<times> bool" where
  "stdio_flush f =
     (f\<lparr>w_disk := w_disk f @ take (w_room f) (w_buf f), w_buf := [], w_room := w_room f - length (w_buf f)\<rparr>,
      length (w_buf f) \<le> w_room f)"

definition stdio_fwrite :: "byte list \<Rightarrow> wfile \<Rightarrow> wfile \<times> bool" where
  "stdio_fwrite p f =
     (let f' = f\<lparr>w_buf := w_buf f @ p\<rparr> in
      if p = [] then (f, False) else if length (w_buf f') < w_limit f then (f', True) else stdio_flush f')"

definition stdio_fread :: "nat \<Rightarrow> byte list \<Rightarrow> (byte list \<times> byte list) option" where
  "stdio_fread n bs = (if n = 0 \<or> length bs < n then None else Some (take n bs, drop n bs))"

section \<open>Writing\<close>

text \<open>A function that writes to a stream and returns the number of bytes, or -1.\<close>

type_synonym wr = "wfile option \<Rightarrow> (wfile option \<times> int) option"

definition fits_s32 :: "int \<Rightarrow> bool" where
  "fits_s32 n \<longleftrightarrow> INT32_MIN \<le> n \<and> n \<le> INT32_MAX"

definition rdbWriteRaw :: "byte list \<Rightarrow> wr" where
  "rdbWriteRaw p fp =
     (case fp of
        None \<Rightarrow> Some (None, to_s32 (int (length p)))
      | Some f \<Rightarrow> (case stdio_fwrite p f of (f, ok) \<Rightarrow> Some (Some f, if ok then to_s32 (int (length p)) else -1)))"

text \<open>The idiom \<^verbatim>\<open>if ((n = A) == -1) return -1; nwritten += n;\<close> of two writes.\<close>

definition wseq :: "wr \<Rightarrow> wr \<Rightarrow> wr" where
  "wseq A B fp =
     do { (fp, n) \<leftarrow> A fp;
          if n = -1 then Some (fp, -1)
          else do {
            (fp, m) \<leftarrow> B fp;
            if m = -1 then Some (fp, -1)
            else do { require (fits_s32 (n + m)); Some (fp, n + m) } } }"

definition wnothing :: wr where "wnothing fp = Some (fp, 0)"

definition rdbSaveType :: "byte \<Rightarrow> wr" where
  "rdbSaveType ty = rdbWriteRaw [ty]"

definition rdbSaveTime :: "int \<Rightarrow> wr" where
  "rdbSaveTime t = rdbWriteRaw (le_bytes 4 (to_s32 t))"

definition REDIS_RDB_6BITLEN :: byte where "REDIS_RDB_6BITLEN = 0"
definition REDIS_RDB_14BITLEN :: byte where "REDIS_RDB_14BITLEN = 1"
definition REDIS_RDB_32BITLEN :: byte where "REDIS_RDB_32BITLEN = 2"
definition REDIS_RDB_ENCVAL :: byte where "REDIS_RDB_ENCVAL = 3"
definition REDIS_RDB_LENERR :: nat where "REDIS_RDB_LENERR = 2 ^ 32 - 1"
definition REDIS_RDB_ENC_INT8 :: byte where "REDIS_RDB_ENC_INT8 = 0"
definition REDIS_RDB_ENC_INT16 :: byte where "REDIS_RDB_ENC_INT16 = 1"
definition REDIS_RDB_ENC_INT32 :: byte where "REDIS_RDB_ENC_INT32 = 2"
definition REDIS_RDB_ENC_LZF :: byte where "REDIS_RDB_ENC_LZF = 3"

text \<open>The argument is converted to \<^verbatim>\<open>uint32_t\<close>; a length of 32 bits is written in network order.\<close>

definition rdbSaveLen :: "nat \<Rightarrow> wr" where
  "rdbSaveLen n =
     (let len = n mod 2 ^ 32 in
      if len < 2 ^ 6 then rdbWriteRaw [word_of_nat len OR push_bit 6 REDIS_RDB_6BITLEN]
      else if len < 2 ^ 14 then
        rdbWriteRaw [word_of_nat (len div 2 ^ 8) OR push_bit 6 REDIS_RDB_14BITLEN, word_of_nat len]
      else wseq (rdbWriteRaw [push_bit 6 REDIS_RDB_32BITLEN]) (rdbWriteRaw (rev (le_bytes 4 (int len)))))"

text \<open>The bytes of the encoding; \<open>None\<close> is the result 0.\<close>

definition rdbEncodeInteger :: "int \<Rightarrow> byte list option" where
  "rdbEncodeInteger v =
     (if v \<ge> - (2 ^ 7) \<and> v \<le> 2 ^ 7 - 1 then
        Some ((push_bit 6 REDIS_RDB_ENCVAL OR REDIS_RDB_ENC_INT8) # le_bytes 1 v)
      else if v \<ge> - (2 ^ 15) \<and> v \<le> 2 ^ 15 - 1 then
        Some ((push_bit 6 REDIS_RDB_ENCVAL OR REDIS_RDB_ENC_INT16) # le_bytes 2 v)
      else if v \<ge> - (2 ^ 31) \<and> v \<le> 2 ^ 31 - 1 then
        Some ((push_bit 6 REDIS_RDB_ENCVAL OR REDIS_RDB_ENC_INT32) # le_bytes 4 v)
      else None)"

text \<open>The byte after the string is a NUL when the string is an sds. The other blocks that are saved
  as strings hold a byte at which \<^verbatim>\<open>strtoll\<close> stops.\<close>

definition rdbTryIntegerEncoding :: "byte list \<Rightarrow> byte list option option" where
  "rdbTryIntegerEncoding s =
     (case strtoll s of
        (v, k, _) \<Rightarrow>
          if (s @ [0]) ! k \<noteq> 0 then Some None
          else do {
            buf \<leftarrow> ll2string 32 v;
            if buf \<noteq> s then Some None else Some (rdbEncodeInteger v) })"

definition rdbSaveLzfStringObject :: "(byte list \<Rightarrow> nat \<Rightarrow> int) \<Rightarrow> byte list \<Rightarrow> wr" where
  "rdbSaveLzfStringObject ht s fp =
     (if length s \<le> 4 then Some (fp, 0)
      else do {
        outlen \<leftarrow> Some (length s - 4);
        (out, comprlen) \<leftarrow> lzf_compress s (length s mod 2 ^ 32) (ht s) (zmalloc (outlen + 1)) (outlen mod 2 ^ 32);
        if comprlen = 0 then Some (fp, 0)
        else wseq (rdbWriteRaw [push_bit 6 REDIS_RDB_ENCVAL OR REDIS_RDB_ENC_LZF])
               (wseq (rdbSaveLen comprlen)
               (wseq (rdbSaveLen (length s))
                     (rdbWriteRaw (take comprlen out)))) fp })"

definition save_verbatim :: "byte list \<Rightarrow> wr" where
  "save_verbatim s = wseq (rdbSaveLen (length s)) (if s = [] then wnothing else rdbWriteRaw s)"

text \<open>\<open>compression\<close> is \<^verbatim>\<open>server.rdbcompression\<close>.\<close>

definition rdbSaveRawString :: "bool \<Rightarrow> (byte list \<Rightarrow> nat \<Rightarrow> int) \<Rightarrow> byte list \<Rightarrow> wr" where
  "rdbSaveRawString compression ht s fp =
     do { enc \<leftarrow> (if length s \<le> 11 then rdbTryIntegerEncoding s else Some None);
          case enc of
            Some buf \<Rightarrow> rdbWriteRaw buf fp
          | None \<Rightarrow>
              if compression \<and> length s > 20 then do {
                (fp, n) \<leftarrow> rdbSaveLzfStringObject ht s fp;
                if n = -1 then Some (fp, -1) else if n > 0 then Some (fp, n) else save_verbatim s fp }
              else save_verbatim s fp }"

definition rdbSaveLongLongAsStringObject :: "int \<Rightarrow> wr" where
  "rdbSaveLongLongAsStringObject v fp =
     (case rdbEncodeInteger v of
        Some buf \<Rightarrow> rdbWriteRaw buf fp
      | None \<Rightarrow> do {
          buf \<leftarrow> ll2string 32 v;
          require (length buf < 32);
          wseq (rdbSaveLen (length buf)) (rdbWriteRaw buf) fp })"

definition rdbSaveStringObject :: "bool \<Rightarrow> (byte list \<Rightarrow> nat \<Rightarrow> int) \<Rightarrow> obj_ptr \<Rightarrow> wr" where
  "rdbSaveStringObject compression ht p =
     (case p of PtrLong n \<Rightarrow> rdbSaveLongLongAsStringObject n | PtrSds s \<Rightarrow> rdbSaveRawString compression ht s)"

text \<open>The contents of the object behind a pointer.\<close>

definition ref_ptr :: "obj_ref \<Rightarrow> obj_ptr" where
  "ref_ptr r = (case r of SharedInt n \<Rightarrow> PtrLong n | Own ob \<Rightarrow> o_ptr ob)"

section \<open>Reading\<close>

text \<open>A function that reads from a stream: its result and the bytes left, or the reason why there is
  none: the result \<^verbatim>\<open>NULL\<close>, a panic, or a type of object that is not modelled.\<close>

datatype rdb_error = RdbNull | RdbPanic | RdbNotModelled

type_synonym 'a rd = "byte list \<Rightarrow> (rdb_error + 'a \<times> byte list) option"

definition rreturn :: "'a \<Rightarrow> 'a rd" where "rreturn x bs = Some (Inr (x, bs))"

definition rfail :: "rdb_error \<Rightarrow> 'a rd" where "rfail e bs = Some (Inl e)"

definition rbind :: "'a rd \<Rightarrow> ('a \<Rightarrow> 'b rd) \<Rightarrow> 'b rd" where
  "rbind m f bs = do { r \<leftarrow> m bs; case r of Inl e \<Rightarrow> Some (Inl e) | Inr (x, bs) \<Rightarrow> f x bs }"

definition rlift :: "'a option \<Rightarrow> 'a rd" where
  "rlift x bs = map_option (\<lambda>x. Inr (x, bs)) x"

definition rread :: "nat \<Rightarrow> byte list rd" where
  "rread n bs = Some (case stdio_fread n bs of None \<Rightarrow> Inl RdbNull | Some r \<Rightarrow> Inr r)"

definition rdbLoadType :: "byte list \<Rightarrow> int \<times> byte list" where
  "rdbLoadType bs = (case stdio_fread 1 bs of None \<Rightarrow> (-1, []) | Some (t, bs) \<Rightarrow> (uint (hd t), bs))"

definition rdbLoadTime :: "byte list \<Rightarrow> int \<times> byte list" where
  "rdbLoadTime bs = (case stdio_fread 4 bs of None \<Rightarrow> (-1, []) | Some (t, bs) \<Rightarrow> (le_sint t, bs))"

text \<open>Whether the length is an encoding type, the length, and the rest.\<close>

definition rdbLoadLen :: "byte list \<Rightarrow> (bool \<times> nat) \<times> byte list" where
  "rdbLoadLen bs =
     (case stdio_fread 1 bs of
        None \<Rightarrow> ((False, REDIS_RDB_LENERR), [])
      | Some (b, bs) \<Rightarrow>
          let b0 = hd b; ty = drop_bit 6 (b0 AND 0xC0) in
          if ty = REDIS_RDB_6BITLEN then ((False, unat (b0 AND 0x3F)), bs)
          else if ty = REDIS_RDB_ENCVAL then ((True, unat (b0 AND 0x3F)), bs)
          else if ty = REDIS_RDB_14BITLEN then
            (case stdio_fread 1 bs of
               None \<Rightarrow> ((False, REDIS_RDB_LENERR), [])
             | Some (b, bs) \<Rightarrow> ((False, unat (b0 AND 0x3F) * 2 ^ 8 + unat (hd b)), bs))
          else
            (case stdio_fread 4 bs of
               None \<Rightarrow> ((False, REDIS_RDB_LENERR), [])
             | Some (b, bs) \<Rightarrow> ((False, nat (le_uint (rev b))), bs)))"

text \<open>The length of a value, where an encoding type is not looked at: failure is the result \<^verbatim>\<open>NULL\<close>.\<close>

definition load_count :: "nat rd" where
  "load_count bs =
     (case rdbLoadLen bs of ((_, len), bs) \<Rightarrow> if len = REDIS_RDB_LENERR then Some (Inl RdbNull) else Some (Inr (len, bs)))"

definition rdbLoadIntegerObject :: "nat \<Rightarrow> bool \<Rightarrow> obj_ref rd" where
  "rdbLoadIntegerObject enctype encode =
     rbind
       (if enctype = unat REDIS_RDB_ENC_INT8 then rbind (rread 1) (\<lambda>enc. rreturn (le_sint enc))
        else if enctype = unat REDIS_RDB_ENC_INT16 then rbind (rread 2) (\<lambda>enc. rreturn (le_sint enc))
        else if enctype = unat REDIS_RDB_ENC_INT32 then rbind (rread 4) (\<lambda>enc. rreturn (le_sint enc))
        else rfail RdbPanic)
       (\<lambda>v. if encode then rlift (createStringObjectFromLongLong True 0 v)
            else rbind (rlift (sdsfromlonglong v)) (\<lambda>s. rreturn (Own (createStringObject 0 (take (sds_len s) (sds_buf s))))))"

text \<open>The decompressor need not fill the string, which starts out zero. The length of a string is kept
  in an \<^verbatim>\<open>int\<close>.\<close>

definition rdbLoadLzfStringObject :: "obj_ref rd" where
  "rdbLoadLzfStringObject =
     rbind load_count (\<lambda>clen. rbind load_count (\<lambda>len. rbind (rlift (require (fits_int len))) (\<lambda>_. rbind (rread clen) (\<lambda>c.
       rbind (rlift (lzf_decompress c clen (replicate len 0) len)) (\<lambda>(val, n).
         case n of
           Inl _ \<Rightarrow> rfail RdbNull
         | Inr n \<Rightarrow> if n = 0 then rfail RdbNull else rreturn (Own (createStringObject 0 val)))))))"

definition rdbGenericLoadStringObject :: "bool \<Rightarrow> obj_ref rd" where
  "rdbGenericLoadStringObject encode bs =
     (case rdbLoadLen bs of
        ((isencoded, len), bs) \<Rightarrow>
          if isencoded then
            (if len = unat REDIS_RDB_ENC_INT8 \<or> len = unat REDIS_RDB_ENC_INT16 \<or> len = unat REDIS_RDB_ENC_INT32
             then rdbLoadIntegerObject len encode bs
             else if len = unat REDIS_RDB_ENC_LZF then rdbLoadLzfStringObject bs
             else rfail RdbPanic bs)
          else if len = REDIS_RDB_LENERR then rfail RdbNull bs
          else if len = 0 then rreturn (Own (createStringObject 0 [])) bs
          else rbind (rlift (require (fits_int len))) (\<lambda>_.
                 rbind (rread len) (\<lambda>val. rreturn (Own (createStringObject 0 val)))) bs)"

definition rdbLoadStringObject :: "obj_ref rd" where
  "rdbLoadStringObject = rdbGenericLoadStringObject False"

definition rdbLoadEncodedStringObject :: "obj_ref rd" where
  "rdbLoadEncodedStringObject = rdbGenericLoadStringObject True"

end
