(* ===== verification/RdbText.thy ===== *)
theory RdbText
  imports Rdb LzfRound
begin

text \<open>
  Strings in the dump file: what the writing functions write, in whatever stream, and that the
  reading functions read it back.
\<close>

section \<open>What is written\<close>

text \<open>\<open>f'\<close> is \<open>f\<close> with \<open>xs\<close> added to what was written so far.\<close>

definition extends :: "wfile \<Rightarrow> byte list \<Rightarrow> wfile \<Rightarrow> bool" where
  "extends f xs f' \<longleftrightarrow> w_disk f' @ w_buf f' = w_disk f @ w_buf f @ xs \<and>
     length (w_disk f') + w_room f' = length (w_disk f) + w_room f \<and> w_limit f' = w_limit f"

definition has_room :: "wfile \<Rightarrow> nat \<Rightarrow> bool" where
  "has_room f n \<longleftrightarrow> length (w_buf f) + n \<le> w_room f"

text \<open>\<open>A\<close> writes \<open>xs\<close>: it says so without a stream, it adds \<open>xs\<close> to a stream with room for it, and it
  fails or adds \<open>xs\<close> in any case.\<close>

definition writes :: "wr \<Rightarrow> byte list \<Rightarrow> bool" where
  "writes A xs \<longleftrightarrow> (length xs < 2 ^ 31 \<longrightarrow>
     A None = Some (None, int (length xs)) \<and>
     (\<forall>f. \<exists>f' n. A (Some f) = Some (Some f', n) \<and>
        (n = int (length xs) \<and> extends f xs f' \<or> n = -1 \<and> \<not> has_room f (length xs))))"

lemma extends_room: "extends f xs f' \<Longrightarrow> has_room f' n \<longleftrightarrow> has_room f (length xs + n)"
proof -
  assume e: "extends f xs f'"
  then have "length (w_disk f' @ w_buf f') = length (w_disk f @ w_buf f @ xs)" by (simp add: extends_def)
  then show ?thesis using e by (simp add: extends_def has_room_def) linarith
qed

lemma extends_trans: "extends f xs g \<Longrightarrow> extends g ys h \<Longrightarrow> extends f (xs @ ys) h"
  by (simp add: extends_def)

lemma writes_cong: "writes A xs \<Longrightarrow> (\<And>fp. length xs < 2 ^ 31 \<Longrightarrow> B fp = A fp) \<Longrightarrow> writes B xs"
  by (simp add: writes_def)

lemma stdio_flush_ok:
  "stdio_flush f = (f', ok) \<Longrightarrow> ok \<and> extends f [] f' \<or> \<not> ok \<and> \<not> has_room f 0"
  by (auto simp: stdio_flush_def extends_def has_room_def)

lemma stdio_fwrite_ok:
  assumes "xs \<noteq> []" and w: "stdio_fwrite xs f = (f', ok)"
  shows "ok \<and> extends f xs f' \<or> \<not> ok \<and> \<not> has_room f (length xs)"
proof -
  let ?g = "f\<lparr>w_buf := w_buf f @ xs\<rparr>"
  have g: "extends f xs ?g" by (simp add: extends_def)
  show ?thesis
  proof (cases "length (w_buf ?g) < w_limit f")
    case True
    then show ?thesis using w assms(1) g by (auto simp: stdio_fwrite_def Let_def)
  next
    case False
    then have "stdio_flush ?g = (f', ok)" using w assms(1) by (simp add: stdio_fwrite_def Let_def)
    from stdio_flush_ok [OF this] extends_trans [OF g, of "[]" f'] extends_room [OF g, of 0] show ?thesis by auto
  qed
qed

lemma writes_raw:
  assumes "xs \<noteq> []"
  shows "writes (rdbWriteRaw xs) xs"
  unfolding writes_def
proof (intro impI conjI allI)
  assume l: "length xs < 2 ^ 31"
  then have n: "to_s32 (int (length xs)) = int (length xs)" by simp
  then show "rdbWriteRaw xs None = Some (None, int (length xs))" by (simp add: rdbWriteRaw_def)
  fix f
  obtain f' ok where w: "stdio_fwrite xs f = (f', ok)" by fastforce
  moreover have "ok \<and> extends f xs f' \<or> \<not> ok \<and> \<not> has_room f (length xs)" by (rule stdio_fwrite_ok [OF assms w])
  then show "\<exists>f' n. rdbWriteRaw xs (Some f) = Some (Some f', n) \<and>
      (n = int (length xs) \<and> extends f xs f' \<or> n = - 1 \<and> \<not> has_room f (length xs))"
    using n w by (cases ok) (simp_all add: rdbWriteRaw_def)
qed

lemma writes_nothing: "writes wnothing []"
  by (auto simp: writes_def wnothing_def extends_def)

lemma writes_seq:
  assumes A: "writes A xs" and B: "writes B ys"
  shows "writes (wseq A B) (xs @ ys)"
proof (cases "length (xs @ ys) < 2 ^ 31")
  case True
  then have l: "length xs < 2 ^ 31" "length ys < 2 ^ 31" "int (length xs) + int (length ys) < 2 ^ 31" by simp_all
  have fits: "fits_s32 (int (length xs) + int (length ys))" using l(3) by (simp add: fits_s32_def c_limits)
  have an: "A None = Some (None, int (length xs))" "B None = Some (None, int (length ys))"
    using A B l unfolding writes_def by blast+
  have n: "wseq A B None = Some (None, int (length (xs @ ys)))" using fits by (simp add: wseq_def an)
  have "\<exists>f' n. wseq A B (Some f) = Some (Some f', n) \<and>
      (n = int (length (xs @ ys)) \<and> extends f (xs @ ys) f' \<or> n = -1 \<and> \<not> has_room f (length (xs @ ys)))" for f
  proof -
    obtain g m where g: "A (Some f) = Some (Some g, m)" "m = int (length xs) \<and> extends f xs g \<or> m = -1 \<and> \<not> has_room f (length xs)"
      using A l(1) unfolding writes_def by blast
    show ?thesis
    proof (cases "m = -1")
      case True
      then have "\<not> has_room f (length (xs @ ys))" using g(2) by (auto simp: has_room_def)
      then show ?thesis using g(1) True by (simp add: wseq_def)
    next
      case False
      then have m: "m = int (length xs)" "extends f xs g" using g(2) by simp_all
      obtain h k where h: "B (Some g) = Some (Some h, k)" "k = int (length ys) \<and> extends g ys h \<or> k = -1 \<and> \<not> has_room g (length ys)"
        using B l(2) unfolding writes_def by blast
      show ?thesis
      proof (cases "k = -1")
        case True
        then have "\<not> has_room f (length (xs @ ys))" using h(2) extends_room [OF m(2)] by auto
        then show ?thesis using g(1) h(1) False True by (simp add: wseq_def)
      next
        case neq: False
        then have "k = int (length ys)" "extends g ys h" using h(2) by simp_all
        then show ?thesis using g(1) h(1) False neq m fits extends_trans [OF m(2)] by (simp add: wseq_def)
      qed
    qed
  qed
  then show ?thesis using n unfolding writes_def by blast
qed (simp add: writes_def)

section \<open>What is read\<close>

text \<open>The encoding \<open>xs\<close> read by \<open>R\<close> gives a result with \<open>P\<close>, whatever follows it.\<close>

definition reads :: "'a rd \<Rightarrow> byte list \<Rightarrow> ('a \<Rightarrow> bool) \<Rightarrow> bool" where
  "reads R xs P \<longleftrightarrow> (\<forall>rest. \<exists>x. R (xs @ rest) = Some (Inr (x, rest)) \<and> P x)"

lemma reads_bind:
  assumes "reads R xs P" and "\<And>x. P x \<Longrightarrow> reads (F x) ys Q"
  shows "reads (rbind R F) (xs @ ys) Q"
  unfolding reads_def
proof
  fix rest
  obtain x where x: "R (xs @ ys @ rest) = Some (Inr (x, ys @ rest))" "P x" using assms(1) unfolding reads_def by blast
  obtain y where "F x (ys @ rest) = Some (Inr (y, rest))" "Q y" using assms(2) [OF x(2)] unfolding reads_def by blast
  then show "\<exists>y. rbind R F ((xs @ ys) @ rest) = Some (Inr (y, rest)) \<and> Q y" using x(1) by (simp add: rbind_def)
qed

lemma reads_return: "P x \<Longrightarrow> reads (rreturn x) [] P"
  by (simp add: reads_def rreturn_def)

lemma reads_lift: "m = Some x \<Longrightarrow> P x \<Longrightarrow> reads (rlift m) [] P"
  by (simp add: reads_def rlift_def)

lemma reads_read: "xs \<noteq> [] \<Longrightarrow> n = length xs \<Longrightarrow> reads (rread n) xs (\<lambda>x. x = xs)"
  by (simp add: reads_def rread_def stdio_fread_def)

lemma reads_mono: "reads R xs P \<Longrightarrow> (\<And>x. P x \<Longrightarrow> Q x) \<Longrightarrow> reads R xs Q"
  unfolding reads_def by blast

lemma reads_bind0: "reads R [] P \<Longrightarrow> (\<And>x. P x \<Longrightarrow> reads (F x) ys Q) \<Longrightarrow> reads (rbind R F) ys Q"
  using reads_bind [of R "[]" P F ys Q] by simp

lemma reads_bind_end: "reads R xs P \<Longrightarrow> (\<And>x. P x \<Longrightarrow> reads (F x) [] Q) \<Longrightarrow> reads (rbind R F) xs Q"
  using reads_bind [of R xs P F "[]" Q] by simp

section \<open>Lengths\<close>

definition len_bytes :: "nat \<Rightarrow> byte list" where
  "len_bytes n =
     (if n < 2 ^ 6 then [word_of_nat n]
      else if n < 2 ^ 14 then [word_of_nat (64 + n div 2 ^ 8), word_of_nat n]
      else word_of_nat 128 # rev (le_bytes 4 (int n)))"

lemma length_len_bytes: "1 \<le> length (len_bytes n)" "length (len_bytes n) \<le> 5"
  by (simp_all add: len_bytes_def)

text \<open>The two top bits of a byte and the others.\<close>

lemma unat_drop_6: "unat (drop_bit 6 b :: byte) = unat b div 64"
  by (simp add: drop_bit_eq_div unat_div_distrib)

lemma top_bits: "drop_bit 6 (b AND 0xC0) = (word_of_nat (unat b div 64) :: byte)"
proof -
  have "drop_bit 6 (b AND 0xC0) = drop_bit 6 b AND (drop_bit 6 0xC0 :: byte)" by (rule drop_bit_and)
  also have "\<dots> = drop_bit 6 b AND mask 2" by (simp add: mask_eq_exp_minus_1)
  also have "\<dots> = drop_bit 6 b" by (rule bit_eqI) (auto simp: bit_simps dest: bit_imp_le_length)
  also have "\<dots> = word_of_nat (unat (drop_bit 6 b))" by simp
  finally show ?thesis unfolding unat_drop_6 .
qed

lemma low_bits: "unat (b AND 0x3F :: byte) = unat b mod 64"
proof -
  have "b AND 0x3F = take_bit 6 b" by (simp add: take_bit_eq_mask mask_eq_exp_minus_1)
  then show ?thesis by (simp add: take_bit_eq_mod unat_mod_distrib)
qed

lemma set_top_bit:
  assumes "n < 64"
  shows "(word_of_nat n :: byte) OR 64 = word_of_nat (64 + n)"
proof -
  have "take_bit 6 n = n" using assms by (simp add: take_bit_eq_mod)
  then have "(word_of_nat n :: byte) = take_bit 6 (word_of_nat n)" by (simp add: take_bit_of_nat)
  moreover have "take_bit 6 x AND push_bit 6 y = 0" for x y :: byte by (rule bit_eqI) (auto simp: bit_simps)
  ultimately have "(word_of_nat n :: byte) AND push_bit 6 1 = 0" by metis
  then show ?thesis using disjunctive_add_eq_or [of "word_of_nat n :: byte" 64] by (simp add: add.commute)
qed

lemma unat_small_byte: "n < 256 \<Longrightarrow> unat (word_of_nat n :: byte) = n"
  by (simp add: unsigned_of_nat take_bit_eq_mod)

lemmas rdb_len_defs = REDIS_RDB_6BITLEN_def REDIS_RDB_14BITLEN_def REDIS_RDB_32BITLEN_def REDIS_RDB_ENCVAL_def

lemma writes_len: "n < 2 ^ 32 \<Longrightarrow> writes (rdbSaveLen n) (len_bytes n)"
proof -
  assume n: "n < 2 ^ 32"
  consider "n < 2 ^ 6" | "2 ^ 6 \<le> n" "n < 2 ^ 14" | "2 ^ 14 \<le> n" by linarith
  then show ?thesis
  proof cases
    case 1
    then show ?thesis using writes_raw [of "[word_of_nat n]"] by (simp add: rdbSaveLen_def len_bytes_def rdb_len_defs)
  next
    case 2
    have "n div 256 < 64" using 2(2) by simp
    from set_top_bit [OF this] 2 show ?thesis using writes_raw [of "[word_of_nat (64 + n div 2 ^ 8), word_of_nat n]"]
      by (simp add: rdbSaveLen_def len_bytes_def rdb_len_defs)
  next
    case 3
    have "writes (wseq (rdbWriteRaw [128]) (rdbWriteRaw (rev (le_bytes 4 (int n))))) ([128] @ rev (le_bytes 4 (int n)))"
      by (intro writes_seq writes_raw) simp_all
    then show ?thesis using 3 n by (simp add: rdbSaveLen_def len_bytes_def rdb_len_defs)
  qed
qed

lemma fread_1: "stdio_fread (Suc 0) (b # bs) = Some ([b], bs)"
  by (simp add: stdio_fread_def)

lemma load_len_Cons:
  "rdbLoadLen (b # bs) =
     (if unat b div 64 = 0 then ((False, unat b mod 64), bs)
      else if unat b div 64 = 3 then ((True, unat b mod 64), bs)
      else if unat b div 64 = 1 then
        (case stdio_fread 1 bs of None \<Rightarrow> ((False, REDIS_RDB_LENERR), [])
         | Some (c, bs) \<Rightarrow> ((False, unat b mod 64 * 2 ^ 8 + unat (hd c)), bs))
      else (case stdio_fread 4 bs of None \<Rightarrow> ((False, REDIS_RDB_LENERR), [])
         | Some (c, bs) \<Rightarrow> ((False, nat (le_uint (rev c))), bs)))"
proof -
  define q where "q = unat b div 64"
  have q: "q < 4" using unsigned_less [of b, where ?'a = nat] by (simp add: q_def)
  have eq: "(word_of_nat q :: byte) = word_of_nat k \<longleftrightarrow> q = k" if "k < 4" for k
  proof
    assume "(word_of_nat q :: byte) = word_of_nat k"
    then have "unat (word_of_nat q :: byte) = unat (word_of_nat k :: byte)" by simp
    then show "q = k" using q that by (simp only: unat_small_byte)
  qed simp
  have T: "drop_bit 6 (b AND 0xC0) = (word_of_nat q :: byte)" using top_bits [of b] by (simp only: q_def)
  show ?thesis using eq [of 0] eq [of 1] eq [of 3] low_bits [of b]
    by (simp add: rdbLoadLen_def fread_1 Let_def T rdb_len_defs flip: q_def del: drop_bit_and split: option.splits)
qed

lemma load_len:
  assumes n: "n < 2 ^ 32"
  shows "rdbLoadLen (len_bytes n @ rest) = ((False, n), rest)"
proof -
  consider "n < 2 ^ 6" | "2 ^ 6 \<le> n" "n < 2 ^ 14" | "2 ^ 14 \<le> n" by linarith
  then show ?thesis
  proof cases
    case 1
    then have "unat (word_of_nat n :: byte) = n" by (simp add: unat_small_byte)
    then show ?thesis using 1 by (simp add: len_bytes_def load_len_Cons)
  next
    case 2
    have h: "64 + n div 2 ^ 8 < 128" "64 \<le> 64 + n div 2 ^ 8" using 2(2) by simp_all
    have u: "unat (word_of_nat (64 + n div 2 ^ 8) :: byte) = 64 + n div 2 ^ 8" using h by (intro unat_small_byte) simp
    have "(64 + n div 2 ^ 8) div 64 = 1" "(64 + n div 2 ^ 8) mod 64 = n div 2 ^ 8" using h by simp_all
    moreover have "unat (word_of_nat n :: byte) = n mod 256" by (simp add: unsigned_of_nat take_bit_eq_mod)
    ultimately show ?thesis using 2 u by (simp add: len_bytes_def load_len_Cons fread_1 del: of_nat_add)
  next
    case 3
    have "stdio_fread 4 (rev (le_bytes 4 (int n)) @ rest) = Some (rev (le_bytes 4 (int n)), rest)"
      by (simp add: stdio_fread_def)
    moreover have "le_uint (le_bytes 4 (int n)) = int n" using n by (intro le_uint_le_bytes_id) simp_all
    ultimately show ?thesis using 3 by (simp add: len_bytes_def load_len_Cons del: le_bytes_numeral)
  qed
qed

lemma reads_count: "n < 2 ^ 32 - 1 \<Longrightarrow> reads load_count (len_bytes n) (\<lambda>x. x = n)"
  by (simp add: reads_def load_count_def load_len REDIS_RDB_LENERR_def)

section \<open>Integers\<close>

text \<open>The encoding type and the number of bytes of an integer.\<close>

definition int_width :: "int \<Rightarrow> nat" where
  "int_width v = (if - 128 \<le> v \<and> v < 128 then 1 else if - 32768 \<le> v \<and> v < 32768 then 2 else 4)"

definition int_enc :: "int \<Rightarrow> nat" where
  "int_enc v = (if int_width v = 1 then 0 else if int_width v = 2 then 1 else 2)"

definition int_bytes :: "int \<Rightarrow> byte list" where
  "int_bytes v = word_of_nat (192 + int_enc v) # le_bytes (int_width v) v"

lemma encode_integer: "rdbEncodeInteger v = (if - (2 ^ 31) \<le> v \<and> v < 2 ^ 31 then Some (int_bytes v) else None)"
  by (auto simp: rdbEncodeInteger_def int_bytes_def int_enc_def int_width_def rdb_len_defs
      REDIS_RDB_ENC_INT8_def REDIS_RDB_ENC_INT16_def REDIS_RDB_ENC_INT32_def simp del: le_bytes_numeral)

lemma length_int_bytes: "int_bytes v \<noteq> []" "length (int_bytes v) \<le> 5"
  by (simp_all add: int_bytes_def int_width_def)

lemma le_sint_width: "- (2 ^ 31) \<le> v \<Longrightarrow> v < 2 ^ 31 \<Longrightarrow> le_sint (le_bytes (int_width v) v) = v"
  by (rule le_sint_le_bytes) (auto simp: int_width_def)

lemma load_enc: "t < 64 \<Longrightarrow> rdbLoadLen (word_of_nat (192 + t) # bs) = ((True, t), bs)"
proof -
  assume t: "t < 64"
  have u: "unat (word_of_nat (192 + t) :: byte) = 192 + t" using t by (intro unat_small_byte) simp
  have "(192 + t) mod 64 = (192 mod 64 + t) mod 64" by (rule mod_add_left_eq [symmetric])
  moreover have "(192 + t) div 64 = 3" using t by linarith
  ultimately have "(192 + t) div 64 = 3" "(192 + t) mod 64 = t" using t by simp_all
  then show ?thesis using u by (simp add: load_len_Cons del: of_nat_add)
qed

lemma contents_newlen: "sdsnewlen (Some p) (length p) = Some s \<Longrightarrow> take (sds_len s) (sds_buf s) = p"
  by (auto simp: sdsnewlen_def mem_read_def bind_Some_iff mem_write_Some)

lemma from_longlong:
  assumes "- (2 ^ 31) \<le> v" and "v < 2 ^ 31"
  shows "\<exists>s. sdsfromlonglong v = Some s \<and> take (sds_len s) (sds_buf s) = dec_repr v"
proof -
  have p: "(if v < 0 then 45 # ll_digits (if v < 0 then - v else v) [] else ll_digits (if v < 0 then - v else v) []) = dec_repr v"
    by (simp add: dec_repr_def ll_digits_dec_nat)
  have "length (dec_repr v) \<le> 20" by (rule length_dec_repr) (use assms in \<open>simp_all add: c_limits\<close>)
  then have "\<exists>s. sdsnewlen (Some (dec_repr v)) (length (dec_repr v)) = Some s"
    by (simp add: sdsnewlen_def mem_read_def mem_write_def fits_int_def)
  then show ?thesis using p assms contents_newlen by (auto simp: sdsfromlonglong_def Let_def c_limits)
qed

lemma reads_integer:
  assumes v: "- (2 ^ 31) \<le> v" "v < 2 ^ 31"
  shows "reads (rdbLoadIntegerObject (int_enc v) e) (le_bytes (int_width v) v) (\<lambda>r. ref_bytes r = dec_repr v)"
proof -
  have R: "reads (if int_enc v = unat REDIS_RDB_ENC_INT8 then rbind (rread 1) (\<lambda>enc. rreturn (le_sint enc))
        else if int_enc v = unat REDIS_RDB_ENC_INT16 then rbind (rread 2) (\<lambda>enc. rreturn (le_sint enc))
        else if int_enc v = unat REDIS_RDB_ENC_INT32 then rbind (rread 4) (\<lambda>enc. rreturn (le_sint enc))
        else rfail RdbPanic) (le_bytes (int_width v) v) (\<lambda>x. x = v)" (is "reads ?R _ _")
  proof -
    have "?R = rbind (rread (int_width v)) (\<lambda>enc. rreturn (le_sint enc))"
      by (simp add: int_enc_def int_width_def REDIS_RDB_ENC_INT8_def REDIS_RDB_ENC_INT16_def REDIS_RDB_ENC_INT32_def)
    moreover have "reads (rbind (rread (int_width v)) (\<lambda>enc. rreturn (le_sint enc))) (le_bytes (int_width v) v) (\<lambda>x. x = v)"
      using le_sint_width [OF v]
      by (intro reads_bind_end [OF reads_read]) (auto intro: reads_return simp: int_width_def simp del: le_bytes_numeral split: if_splits)
    ultimately show ?thesis by simp
  qed
  obtain s where s: "sdsfromlonglong v = Some s" "take (sds_len s) (sds_buf s) = dec_repr v" using from_longlong [OF v] by blast
  have "LLONG_MIN \<le> v" "v \<le> LLONG_MAX" using v by (simp_all add: c_limits)
  then obtain r where r: "createStringObjectFromLongLong True 0 v = Some r" "ref_bytes r = dec_repr v"
    by (cases "0 \<le> v \<and> v < REDIS_SHARED_INTEGERS") (auto simp: createStringObjectFromLongLong_def createObject_def obj_bytes_def)
  show ?thesis unfolding rdbLoadIntegerObject_def
  proof (rule reads_bind_end [OF R])
    fix x
    assume x: "x = v"
    show "reads (if e then rlift (createStringObjectFromLongLong True 0 x)
        else rbind (rlift (sdsfromlonglong x)) (\<lambda>s. rreturn (Own (createStringObject 0 (take (sds_len s) (sds_buf s))))))
      [] (\<lambda>r. ref_bytes r = dec_repr v)"
    proof (cases e)
      case True
      then show ?thesis using reads_lift [OF r(1)] r(2) x by simp
    next
      case False
      have "reads (rbind (rlift (sdsfromlonglong v)) (\<lambda>s. rreturn (Own (createStringObject 0 (take (sds_len s) (sds_buf s)))))) []
          (\<lambda>r. ref_bytes r = dec_repr v)"
        by (rule reads_bind0 [OF reads_lift [where P = "\<lambda>x. x = s", OF s(1) refl]], rule reads_return) (use s in \<open>simp add: createStringObject_def createObject_def obj_bytes_def\<close>)
      then show ?thesis using False x by simp
    qed
  qed
qed

section \<open>Strings\<close>

text \<open>\<open>A\<close> writes an encoding of at most \<open>n\<close> bytes that \<open>R\<close> reads back with a result with \<open>P\<close>.\<close>

definition codec :: "wr \<Rightarrow> 'a rd \<Rightarrow> ('a \<Rightarrow> bool) \<Rightarrow> nat \<Rightarrow> bool" where
  "codec A R P n \<longleftrightarrow> (\<exists>xs. writes A xs \<and> reads R xs P \<and> length xs \<le> n)"

lemma codecI: "writes A xs \<Longrightarrow> reads R xs P \<Longrightarrow> length xs \<le> n \<Longrightarrow> codec A R P n"
  unfolding codec_def by blast

lemma codec_mono: "codec A R P n \<Longrightarrow> (\<And>x. P x \<Longrightarrow> Q x) \<Longrightarrow> n \<le> m \<Longrightarrow> codec A R Q m"
  unfolding codec_def using reads_mono [where P = P and Q = Q] order_trans by meson

lemma dval_less: "list_all isdigit ds \<Longrightarrow> 0 \<le> v \<Longrightarrow> dval v ds < (v + 1) * 10 ^ length ds"
proof (induction ds arbitrary: v)
  case (Cons d ds)
  then have d: "0 \<le> digit_val d" "digit_val d \<le> 9" using isdigit_val by auto
  then have "dval (10 * v + digit_val d) ds < (10 * v + digit_val d + 1) * 10 ^ length ds" using Cons by simp
  also have "\<dots> \<le> (10 * v + 10) * 10 ^ length ds" using d by (intro mult_right_mono) simp_all
  finally show ?case by (simp add: algebra_simps)
qed simp

lemma strtoll_short:
  assumes "length s \<le> 11" and "strtoll s = (v, k, ov)"
  shows "LLONG_MIN < v" and "v \<le> LLONG_MAX"
proof -
  define r where "r = drop (length (takeWhile isspace s)) s"
  define ds where "ds = takeWhile isdigit (drop (if r \<noteq> [] \<and> (hd r = 45 \<or> hd r = 43) then 1 else 0) r)"
  have dg: "list_all isdigit ds" unfolding ds_def list_all_iff by (auto dest: set_takeWhileD)
  have "length ds \<le> 11" using assms(1) length_takeWhile_le [of isdigit "drop (if r \<noteq> [] \<and> (hd r = 45 \<or> hd r = 43) then 1 else 0) r"]
    by (simp add: ds_def r_def)
  then have "(10 :: int) ^ length ds \<le> 10 ^ 11" by (intro power_increasing) simp_all
  then have b: "0 \<le> dval 0 ds" "dval 0 ds < 100000000000" using dval_less [OF dg, of 0] dval_mono [OF dg, of 0] by simp_all
  define n where "n = (if r \<noteq> [] \<and> hd r = 45 then - dval 0 ds else dval 0 ds)"
  have n: "- 100000000000 < n" "n < 100000000000" using b by (simp_all add: n_def)
  have "fst (strtoll s) = (if ds = [] then 0 else if n < LLONG_MIN then LLONG_MIN else if n > LLONG_MAX then LLONG_MAX else n)"
    unfolding strtoll_def Let_def r_def [symmetric] ds_def [symmetric] n_def [symmetric] by simp
  then have "v = 0 \<or> v = n" using assms(2) n by (auto simp: c_limits split: if_splits)
  then show "LLONG_MIN < v" "v \<le> LLONG_MAX" using n by (auto simp: c_limits)
qed

lemma try_integer:
  assumes "length s \<le> 11"
  shows "rdbTryIntegerEncoding s = Some None \<or>
    (\<exists>v. rdbTryIntegerEncoding s = Some (Some (int_bytes v)) \<and> s = dec_repr v \<and> - (2 ^ 31) \<le> v \<and> v < 2 ^ 31)"
proof -
  obtain v k ov where st: "strtoll s = (v, k, ov)" by (cases "strtoll s")
  have "ll2string 32 v = Some (dec_repr v)" using strtoll_short [OF assms st] by (intro ll2string_full) simp_all
  then show ?thesis by (auto simp: rdbTryIntegerEncoding_def st encode_integer split: if_splits)
qed

lemma codec_integer:
  assumes v: "- (2 ^ 31) \<le> v" "v < 2 ^ 31"
  shows "codec (rdbWriteRaw (int_bytes v)) (rdbGenericLoadStringObject e) (\<lambda>r. ref_bytes r = dec_repr v) 5"
proof (rule codecI)
  show "writes (rdbWriteRaw (int_bytes v)) (int_bytes v)" by (rule writes_raw) (rule length_int_bytes)
  have "rdbGenericLoadStringObject e (int_bytes v @ rest) = rdbLoadIntegerObject (int_enc v) e (le_bytes (int_width v) v @ rest)" for rest
    by (simp add: rdbGenericLoadStringObject_def int_bytes_def load_enc int_enc_def REDIS_RDB_ENC_INT8_def REDIS_RDB_ENC_INT16_def
        REDIS_RDB_ENC_INT32_def del: le_bytes_numeral of_nat_add)
  then show "reads (rdbGenericLoadStringObject e) (int_bytes v) (\<lambda>r. ref_bytes r = dec_repr v)"
    using reads_integer [OF v, of e] by (simp add: reads_def)
qed (rule length_int_bytes)

lemma codec_verbatim:
  assumes "length s < 2 ^ 31"
  shows "codec (save_verbatim s) (rdbGenericLoadStringObject e) (\<lambda>r. ref_bytes r = s) (length s + 5)"
proof (rule codecI)
  have n: "length s < 2 ^ 32" "length s < 2 ^ 32 - 1" using assms by simp_all
  show "writes (save_verbatim s) (len_bytes (length s) @ s)"
    unfolding save_verbatim_def
    by (rule writes_seq [OF writes_len [OF n(1)]]) (use writes_raw [of s] writes_nothing in auto)
  have "rdbGenericLoadStringObject e (len_bytes (length s) @ s @ rest) = Some (Inr (Own (createStringObject 0 s), rest))" for rest
    using assms reads_read [of s "length s", unfolded reads_def]
    by (auto simp: rdbGenericLoadStringObject_def load_len [OF n(1)] REDIS_RDB_LENERR_def rreturn_def rbind_def rlift_def fits_int_def require_def)
  then show "reads (rdbGenericLoadStringObject e) (len_bytes (length s) @ s) (\<lambda>r. ref_bytes r = s)"
    by (simp add: reads_def createStringObject_def createObject_def obj_bytes_def)
  show "length (len_bytes (length s) @ s) \<le> length s + 5" using length_len_bytes by simp
qed

text \<open>Uninitialised entries of the compressor's table are addresses.\<close>

definition stack_ok :: "(byte list \<Rightarrow> nat \<Rightarrow> int) \<Rightarrow> bool" where
  "stack_ok ht \<longleftrightarrow> (\<forall>s i. ht s i < 2 ^ 63)"

lemma reads_count_val:
  "0 < n \<Longrightarrow> n < 2 ^ 31 \<Longrightarrow> reads load_count (len_bytes n) (\<lambda>x. x = n)"
  by (rule reads_count) simp

lemma lzf_codec:
  assumes s: "20 < length s" "length s < 2 ^ 31" and ht: "stack_ok ht"
  shows "(\<forall>fp. rdbSaveLzfStringObject ht s fp = Some (fp, 0)) \<or>
    codec (rdbSaveLzfStringObject ht s) (rdbGenericLoadStringObject e) (\<lambda>r. ref_bytes r = s) (length s + 7)"
proof -
  let ?n = "length s"
  let ?buf = "replicate ?n (0 :: byte)"
  have m: "?n mod 2 ^ 32 = ?n" "(?n - 4) mod 2 ^ 32 = ?n - 4" using s by simp_all
  have pre: "2 \<le> ?n" "?n < 2 ^ 32" "(?n - 4) + 1 \<le> length (zmalloc (?n - 4 + 1))" "length ?buf = ?n" using s by simp_all
  obtain out k where c: "lzf_compress s ?n (ht s) (zmalloc (?n - 4 + 1)) (?n - 4) = Some (out, k)" "k \<le> ?n - 4"
    "length out = ?n - 4 + 1" "0 < k \<longrightarrow> lzf_decompress (take k out) k ?buf ?n = Some (s, Inr ?n)"
    using decompress_compressed [where htab = "ht s", OF pre(1-3) _ pre(4)] ht by (auto simp: stack_ok_def)
  show ?thesis
  proof (cases "k = 0")
    case True
    then show ?thesis using c(1) s m by (simp add: rdbSaveLzfStringObject_def)
  next
    case False
    let ?A = "wseq (rdbWriteRaw [push_bit 6 REDIS_RDB_ENCVAL OR REDIS_RDB_ENC_LZF]) (wseq (rdbSaveLen k) (wseq (rdbSaveLen ?n) (rdbWriteRaw (take k out))))"
    let ?xs = "[195] @ len_bytes k @ len_bytes ?n @ take k out"
    have run: "rdbSaveLzfStringObject ht s fp = ?A fp" for fp
      using False c(1) s m by (simp add: rdbSaveLzfStringObject_def)
    have ne: "take k out \<noteq> []" "length (take k out) = k" using False c(2,3) s by auto
    have "writes ?A ?xs"
    proof (intro writes_seq)
      show "writes (rdbWriteRaw [push_bit 6 REDIS_RDB_ENCVAL OR REDIS_RDB_ENC_LZF]) [195]"
        using writes_raw [of "[195]"] by (simp add: rdb_len_defs REDIS_RDB_ENC_LZF_def)
      show "writes (rdbWriteRaw (take k out)) (take k out)" by (rule writes_raw [OF ne(1)])
    qed (use writes_len [of k] writes_len [of ?n] c(2) s in simp_all)
    then have W: "writes (rdbSaveLzfStringObject ht s) ?xs" by (rule writes_cong) (rule run)
    have k: "0 < k" "k < 2 ^ 31" "0 < ?n" using False c(2) s by linarith+
    have "reads rdbLoadLzfStringObject (len_bytes k @ len_bytes ?n @ [] @ take k out @ []) (\<lambda>r. ref_bytes r = s)"
      unfolding rdbLoadLzfStringObject_def
    proof (rule reads_bind [OF reads_count_val [OF k(1,2)]], rule reads_bind [OF reads_count_val [OF k(3) s(2)]], rule reads_bind)
      fix x y
      assume xy: "x = k" "y = ?n"
      show "reads (rlift (require (fits_int y))) [] (\<lambda>u. True)" using xy s by (intro reads_lift [of _ "()"]) (simp_all add: fits_int_def)
      show "reads (rbind (rread x) (\<lambda>c. rbind (rlift (lzf_decompress c x (replicate y 0) y)) (\<lambda>(val, n).
         case n of Inl _ \<Rightarrow> rfail RdbNull | Inr n \<Rightarrow> if n = 0 then rfail RdbNull else rreturn (Own (createStringObject 0 val)))))
        (take k out @ []) (\<lambda>r. ref_bytes r = s)"
      proof (rule reads_bind)
        show "reads (rread x) (take k out) (\<lambda>c. c = take k out)" using reads_read [OF ne(1)] ne(2) xy by simp
        fix c'
        assume "c' = take k out"
        then have d: "lzf_decompress c' x (replicate y 0) y = Some (s, Inr ?n)" using c(4) k(1) xy by simp
        show "reads (rbind (rlift (lzf_decompress c' x (replicate y 0) y)) (\<lambda>(val, n).
         case n of Inl _ \<Rightarrow> rfail RdbNull | Inr n \<Rightarrow> if n = 0 then rfail RdbNull else rreturn (Own (createStringObject 0 val))))
        [] (\<lambda>r. ref_bytes r = s)"
          by (rule reads_bind0 [OF reads_lift [where P = "\<lambda>p. p = (s, Inr ?n)", OF d refl]])
            (use s in \<open>auto intro!: reads_return simp: createStringObject_def createObject_def obj_bytes_def\<close>)
      qed
    qed
    then have R: "reads rdbLoadLzfStringObject (len_bytes k @ len_bytes ?n @ take k out) (\<lambda>r. ref_bytes r = s)" by simp
    have L: "rdbLoadLen (195 # bs) = ((True, 3), bs)" for bs using load_enc [of 3 bs] by simp
    then have "rdbGenericLoadStringObject e (?xs @ rest) = rdbLoadLzfStringObject ((len_bytes k @ len_bytes ?n @ take k out) @ rest)" for rest
      by (simp add: rdbGenericLoadStringObject_def REDIS_RDB_ENC_INT8_def REDIS_RDB_ENC_INT16_def REDIS_RDB_ENC_INT32_def REDIS_RDB_ENC_LZF_def)
    then have "reads (rdbGenericLoadStringObject e) ?xs (\<lambda>r. ref_bytes r = s)" using R unfolding reads_def by presburger
    moreover have "length ?xs \<le> ?n + 7" using length_len_bytes [of k] length_len_bytes [of ?n] ne(2) c(2) s by simp
    ultimately show ?thesis using codecI [OF W] by blast
  qed
qed

lemma writes_result:
  "writes A xs \<Longrightarrow> xs \<noteq> [] \<Longrightarrow> length xs < 2 ^ 31 \<Longrightarrow> \<exists>fp' n. A fp = Some (fp', n) \<and> (n = -1 \<or> n > 0)"
  by (cases fp) (fastforce simp: writes_def)+

lemma reads_nonempty: "reads (rdbGenericLoadStringObject e) xs P \<Longrightarrow> xs \<noteq> []"
proof
  assume r: "reads (rdbGenericLoadStringObject e) xs P" and "xs = []"
  then obtain x where "rdbGenericLoadStringObject e ([] @ []) = Some (Inr (x, []))" unfolding reads_def by blast
  then show False by (simp add: rdbGenericLoadStringObject_def rdbLoadLen_def stdio_fread_def REDIS_RDB_LENERR_def rfail_def)
qed

lemma codec_cong: "codec A R P n \<Longrightarrow> (\<And>fp. B fp = A fp) \<Longrightarrow> codec B R P n"
  unfolding codec_def using writes_cong [of A _ B] by blast

lemma codec_raw_string:
  assumes s: "length s < 2 ^ 31 - 16" and ht: "stack_ok ht"
  shows "codec (rdbSaveRawString c ht s) (rdbGenericLoadStringObject e) (\<lambda>r. ref_bytes r = s) (length s + 7)"
proof -
  have l: "length s < 2 ^ 31" using s by simp
  have V: "codec (save_verbatim s) (rdbGenericLoadStringObject e) (\<lambda>r. ref_bytes r = s) (length s + 7)"
    using codec_verbatim [OF l] by (rule codec_mono) simp_all
  consider v where "length s \<le> 11" "rdbTryIntegerEncoding s = Some (Some (int_bytes v))" "s = dec_repr v" "- (2 ^ 31) \<le> v" "v < 2 ^ 31"
    | "length s \<le> 11" "rdbTryIntegerEncoding s = Some None" | "11 < length s"
    using try_integer [of s] by (cases "length s \<le> 11") auto
  then show ?thesis
  proof cases
    case (1 v)
    have "codec (rdbWriteRaw (int_bytes v)) (rdbGenericLoadStringObject e) (\<lambda>r. ref_bytes r = s) (length s + 7)"
      using codec_integer [OF 1(4,5)] by (rule codec_mono) (simp_all add: 1(3))
    then show ?thesis by (rule codec_cong) (simp add: rdbSaveRawString_def 1(1,2))
  next
    case 2
    from V show ?thesis by (rule codec_cong) (use 2 in \<open>simp add: rdbSaveRawString_def\<close>)
  next
    case 3
    show ?thesis
    proof (cases "c \<and> 20 < length s")
      case False
      from V show ?thesis by (rule codec_cong) (use 3 False in \<open>auto simp: rdbSaveRawString_def\<close>)
    next
      case True
      then have run: "rdbSaveRawString c ht s fp = do { (fp, n) \<leftarrow> rdbSaveLzfStringObject ht s fp;
          if n = -1 then Some (fp, -1) else if n > 0 then Some (fp, n) else save_verbatim s fp }" for fp
        using 3 by (simp add: rdbSaveRawString_def)
      from lzf_codec [OF _ l ht, of e] True consider "\<forall>fp. rdbSaveLzfStringObject ht s fp = Some (fp, 0)"
        | "codec (rdbSaveLzfStringObject ht s) (rdbGenericLoadStringObject e) (\<lambda>r. ref_bytes r = s) (length s + 7)" by blast
      then show ?thesis
      proof cases
        case 1
        from V show ?thesis by (rule codec_cong) (simp add: run 1)
      next
        case 2
        then obtain xs where xs: "writes (rdbSaveLzfStringObject ht s) xs" "reads (rdbGenericLoadStringObject e) xs (\<lambda>r. ref_bytes r = s)"
          "length xs \<le> length s + 7" unfolding codec_def by blast
        have "rdbSaveRawString c ht s fp = rdbSaveLzfStringObject ht s fp" for fp
        proof -
          obtain fp' n where "rdbSaveLzfStringObject ht s fp = Some (fp', n)" "n = -1 \<or> n > 0"
            using writes_result [OF xs(1) reads_nonempty [OF xs(2)], of fp] xs(3) s by auto
          then show ?thesis by (auto simp: run)
        qed
        with 2 show ?thesis by (rule codec_cong)
      qed
    qed
  qed
qed

text \<open>Objects that can be saved.\<close>

definition ptr_text :: "obj_ptr \<Rightarrow> byte list" where
  "ptr_text p = (case p of PtrSds s \<Rightarrow> s | PtrLong n \<Rightarrow> dec_repr n)"

definition ptr_ok :: "obj_ptr \<Rightarrow> bool" where
  "ptr_ok p \<longleftrightarrow> (case p of PtrSds s \<Rightarrow> length s < 2 ^ 31 - 16 | PtrLong n \<Rightarrow> LLONG_MIN < n \<and> n \<le> LLONG_MAX)"

lemma length_ptr_text: "ptr_ok p \<Longrightarrow> length (ptr_text p) < 2 ^ 31 - 16"
proof (cases p)
  case (PtrLong n)
  moreover assume "ptr_ok p"
  ultimately have "length (dec_repr n) \<le> 20" using length_dec_repr [of n] by (simp add: ptr_ok_def)
  then show ?thesis using PtrLong by (simp add: ptr_text_def)
qed (simp add: ptr_ok_def ptr_text_def)

lemma codec_string_object:
  assumes p: "ptr_ok p" and ht: "stack_ok ht"
  shows "codec (rdbSaveStringObject c ht p) (rdbGenericLoadStringObject e) (\<lambda>r. ref_bytes r = ptr_text p) (length (ptr_text p) + 7)"
proof (cases p)
  case (PtrSds s)
  then show ?thesis using codec_raw_string [OF _ ht, of s c e] p by (simp add: rdbSaveStringObject_def ptr_text_def ptr_ok_def)
next
  case (PtrLong n)
  have n: "LLONG_MIN < n" "n \<le> LLONG_MAX" using p PtrLong by (simp_all add: ptr_ok_def)
  have t: "ptr_text p = dec_repr n" using PtrLong by (simp add: ptr_text_def)
  show ?thesis
  proof (cases "- (2 ^ 31) \<le> n \<and> n < 2 ^ 31")
    case True
    then have "codec (rdbWriteRaw (int_bytes n)) (rdbGenericLoadStringObject e) (\<lambda>r. ref_bytes r = dec_repr n) 5"
      by (intro codec_integer) simp_all
    then have "codec (rdbWriteRaw (int_bytes n)) (rdbGenericLoadStringObject e) (\<lambda>r. ref_bytes r = ptr_text p) (length (ptr_text p) + 7)"
      unfolding t by (rule codec_mono) simp_all
    then show ?thesis by (rule codec_cong) (use True PtrLong in \<open>simp add: rdbSaveStringObject_def rdbSaveLongLongAsStringObject_def encode_integer\<close>)
  next
    case False
    have len: "length (dec_repr n) \<le> 20" using length_dec_repr [of n] n by simp
    have "codec (save_verbatim (dec_repr n)) (rdbGenericLoadStringObject e) (\<lambda>r. ref_bytes r = dec_repr n) (length (dec_repr n) + 5)"
      by (rule codec_verbatim) (use len in simp)
    then have "codec (save_verbatim (dec_repr n)) (rdbGenericLoadStringObject e) (\<lambda>r. ref_bytes r = ptr_text p) (length (ptr_text p) + 7)"
      unfolding t by (rule codec_mono) simp_all
    moreover have "rdbSaveStringObject c ht p fp = save_verbatim (dec_repr n) fp" for fp
    proof -
      have "dec_repr n \<noteq> []" by (simp add: dec_repr_def)
      moreover have "ll2string 32 n = Some (dec_repr n)" using n by (intro ll2string_full) simp_all
      ultimately show ?thesis using False PtrLong len
        by (auto simp: rdbSaveStringObject_def rdbSaveLongLongAsStringObject_def save_verbatim_def encode_integer)
    qed
    ultimately show ?thesis by (rule codec_cong)
  qed
qed

section \<open>The round trip of a string object\<close>

text \<open>C27: Any string object, on a stream or on none, whatever the compressor's uninitialised hash table
  holds: saving it without a stream tells its size; with room for it, its bytes are written; and the
  bytes, whatever follows them, are read back as an object with the same text and nothing more is
  read, whether or not the reader encodes integers.\<close>

theorem rdb_string_roundtrip:
  assumes "ptr_ok p" and "stack_ok ht"
  shows "\<exists>xs. length xs \<le> length (ptr_text p) + 7 \<and>
      rdbSaveStringObject c ht p None = Some (None, int (length xs)) \<and>
      (\<forall>f. \<exists>f' n. rdbSaveStringObject c ht p (Some f) = Some (Some f', n) \<and>
         (if n = -1 then \<not> has_room f (length xs) else n = int (length xs) \<and> extends f xs f')) \<and>
      (\<forall>rest. \<exists>r. rdbGenericLoadStringObject e (xs @ rest) = Some (Inr (r, rest)) \<and> ref_bytes r = ptr_text p)"
proof -
  obtain xs where xs: "writes (rdbSaveStringObject c ht p) xs" "reads (rdbGenericLoadStringObject e) xs (\<lambda>r. ref_bytes r = ptr_text p)"
    "length xs \<le> length (ptr_text p) + 7"
    using codec_string_object [OF assms, of c e] unfolding codec_def by blast
  have "length xs < 2 ^ 31" using xs(3) length_ptr_text [OF assms(1)] by simp
  then have w: "rdbSaveStringObject c ht p None = Some (None, int (length xs))"
    "\<forall>f. \<exists>f' n. rdbSaveStringObject c ht p (Some f) = Some (Some f', n) \<and>
       (n = int (length xs) \<and> extends f xs f' \<or> n = -1 \<and> \<not> has_room f (length xs))"
    using xs(1) unfolding writes_def by blast+
  have "\<exists>f' n. rdbSaveStringObject c ht p (Some f) = Some (Some f', n) \<and>
         (if n = -1 then \<not> has_room f (length xs) else n = int (length xs) \<and> extends f xs f')" for f
  proof -
    obtain f' n where fn: "rdbSaveStringObject c ht p (Some f) = Some (Some f', n)"
      "n = int (length xs) \<and> extends f xs f' \<or> n = -1 \<and> \<not> has_room f (length xs)" using w(2) by blast
    then have "if n = -1 then \<not> has_room f (length xs) else n = int (length xs) \<and> extends f xs f'" by (cases "n = -1") auto
    then show ?thesis using fn(1) by blast
  qed
  then show ?thesis using w(1) xs(2,3) unfolding reads_def by blast
qed

theorem rdb_string_roundtrip_witness:
  "\<exists>xs. length xs \<le> 13 \<and> rdbSaveStringObject True (\<lambda>s i. 0) (PtrSds [49, 50, 51, 52, 53, 54]) None = Some (None, int (length xs)) \<and>
     (\<forall>rest. \<exists>r. rdbGenericLoadStringObject True (xs @ rest) = Some (Inr (r, rest)) \<and> ref_bytes r = [49, 50, 51, 52, 53, 54])"
  using rdb_string_roundtrip [of "PtrSds [49, 50, 51, 52, 53, 54]" "\<lambda>s i. 0" True True]
  by (force simp: ptr_ok_def ptr_text_def stack_ok_def)

end
