(* ===== verification/ListType.thy ===== *)
theory ListType
  imports Ziplist DictTypes
begin

text \<open>
  Model of the list objects of \<^verbatim>\<open>src/webserver/redis/src/t_list.c\<close>: a list of string objects is a
  ziplist while it is short and its elements are, and a linked list otherwise. The operations on
  objects and the parts of the commands that work on the object, once it is looked up.

  A linked list (\<^verbatim>\<open>adlist.c\<close>) is the list of its values, and a node is its index. Values that
  come from a command are objects after \<^verbatim>\<open>tryObjectEncoding\<close>. \<open>maxval\<close> and \<open>maxent\<close> are
  \<^verbatim>\<open>server.list_max_ziplist_value\<close> and \<^verbatim>\<open>server.list_max_ziplist_entries\<close>. Reference counts are
  left out.
\<close>

section \<open>List objects\<close>

datatype list_obj = ListZip "byte list" | ListLinked "obj_ref list"

definition createListObject :: list_obj where "createListObject = ListLinked []"
definition createZiplistObject :: "list_obj option" where "createZiplistObject = map_option ListZip ziplistNew"

text \<open>The object behind a pointer, and the sds of its decoded form.\<close>

definition ref_obj :: "obj_ref \<Rightarrow> robj" where
  "ref_obj r = (case r of SharedInt n \<Rightarrow> createObject 0 REDIS_STRING (PtrLong n) | Own ob \<Rightarrow> ob)"

definition decoded_sds :: "obj_ref \<Rightarrow> byte list option" where
  "decoded_sds r = map_option obj_sds (getDecodedObject 0 (ref_obj r))"

definition listTypeLength :: "list_obj \<Rightarrow> (list_obj \<times> nat) option" where
  "listTypeLength s =
     (case s of
        ListZip zl \<Rightarrow> map_option (\<lambda>(zl, n). (ListZip zl, n)) (ziplistLen zl)
      | ListLinked xs \<Rightarrow> Some (s, length xs))"

text \<open>The node at an index, counted from the end when the index is negative.\<close>

definition listIndex :: "obj_ref list \<Rightarrow> int \<Rightarrow> nat option option" where
  "listIndex xs index =
     (if index < 0 then do {
        require (index > INT32_MIN);
        k \<leftarrow> Some (nat ((- index) - 1));
        Some (if k < length xs then Some (length xs - 1 - k) else None) }
      else Some (if nat index < length xs then Some (nat index) else None))"

section \<open>Iterators\<close>

text \<open>The position of an iterator is a pointer into the ziplist or a node; an entry is such a position.
  \<open>to_tail\<close> says whether the direction is \<^verbatim>\<open>REDIS_TAIL\<close>.\<close>

datatype list_iter = IterZip "nat option" | IterNode "nat option"

definition listTypeInitIterator :: "list_obj \<Rightarrow> int \<Rightarrow> list_iter option" where
  "listTypeInitIterator s index =
     (case s of
        ListZip zl \<Rightarrow> map_option IterZip (ziplistIndex zl index)
      | ListLinked xs \<Rightarrow> map_option IterNode (listIndex xs index))"

text \<open>The node after or before the node at an index.\<close>

definition node_next :: "bool \<Rightarrow> 'a list \<Rightarrow> nat \<Rightarrow> nat option" where
  "node_next to_tail xs i =
     (if to_tail then (if i + 1 < length xs then Some (i + 1) else None) else if i = 0 then None else Some (i - 1))"

definition listTypeNext :: "bool \<Rightarrow> list_obj \<Rightarrow> list_iter \<Rightarrow> (nat option \<times> list_iter) option" where
  "listTypeNext to_tail s it =
     (case (s, it) of
        (ListZip zl, IterZip zi) \<Rightarrow>
          (case zi of
             None \<Rightarrow> Some (None, it)
           | Some p \<Rightarrow> do { q \<leftarrow> (if to_tail then ziplistNext zl p else ziplistPrev zl p); Some (Some p, IterZip q) })
      | (ListLinked xs, IterNode ln) \<Rightarrow>
          (case ln of None \<Rightarrow> Some (None, it) | Some i \<Rightarrow> Some (Some i, IterNode (node_next to_tail xs i)))
      | _ \<Rightarrow> None)"

definition zval_obj :: "zval \<Rightarrow> obj_ref option" where
  "zval_obj v =
     (case v of ZStr s \<Rightarrow> Some (Own (createStringObject 0 s)) | ZInt n \<Rightarrow> createStringObjectFromLongLong True 0 n)"

definition listTypeGet :: "list_obj \<Rightarrow> nat \<Rightarrow> obj_ref option option" where
  "listTypeGet s entry =
     (case s of
        ListZip zl \<Rightarrow> do {
          v \<leftarrow> ziplistGet zl (Some entry);
          case v of None \<Rightarrow> Some None | Some v \<Rightarrow> map_option Some (zval_obj v) }
      | ListLinked xs \<Rightarrow> do { require (entry < length xs); Some (Some (xs ! entry)) })"

definition listTypeInsert :: "list_obj \<Rightarrow> nat \<Rightarrow> obj_ref \<Rightarrow> bool \<Rightarrow> list_obj option" where
  "listTypeInsert s entry v to_tail =
     (case s of
        ListZip zl \<Rightarrow> do {
          t \<leftarrow> decoded_sds v;
          if to_tail then do {
            next \<leftarrow> ziplistNext zl entry;
            map_option ListZip (case next of None \<Rightarrow> ziplistPush zl t False | Some q \<Rightarrow> ziplistInsert zl q t) }
          else map_option ListZip (ziplistInsert zl entry t) }
      | ListLinked xs \<Rightarrow>
          (let i = (if to_tail then entry + 1 else entry) in Some (ListLinked (take i xs @ v # drop i xs))))"

text \<open>Compared with an entry of a ziplist the object is raw, which the code asserts.\<close>

definition listTypeEqual :: "list_obj \<Rightarrow> nat \<Rightarrow> obj_ref \<Rightarrow> bool option" where
  "listTypeEqual s entry ob =
     (case s of
        ListZip zl \<Rightarrow> do { require (encoding_raw (ref_obj ob)); ziplistCompare zl entry (obj_sds (ref_obj ob)) }
      | ListLinked xs \<Rightarrow> do { require (entry < length xs); equalStringObjects False (ref_obj ob) (ref_obj (xs ! entry)) })"

text \<open>The list and the position of the iterator after the deletion.\<close>

definition listTypeDelete :: "bool \<Rightarrow> list_obj \<Rightarrow> nat \<Rightarrow> (list_obj \<times> list_iter) option" where
  "listTypeDelete to_tail s entry =
     (case s of
        ListZip zl \<Rightarrow> do {
          (zl, p) \<leftarrow> ziplistDelete zl entry;
          zi \<leftarrow> (if to_tail then Some (Some p) else ziplistPrev zl p);
          Some (ListZip zl, IterZip zi) }
      | ListLinked xs \<Rightarrow>
          (let xs' = take entry xs @ drop (entry + 1) xs in
           Some (ListLinked xs', IterNode (if to_tail then (if entry < length xs' then Some entry else None)
             else if entry = 0 then None else Some (entry - 1)))))"

section \<open>Conversion\<close>

text \<open>The loop over the entries; \<open>acc\<close> is the linked list built so far.\<close>

partial_function (option) convert_entries :: "list_obj \<Rightarrow> list_iter \<Rightarrow> obj_ref list \<Rightarrow> obj_ref list option" where
  "convert_entries s it acc =
     do { (e, it) \<leftarrow> listTypeNext True s it;
          case e of
            None \<Rightarrow> Some acc
          | Some p \<Rightarrow> do { v \<leftarrow> listTypeGet s p; case v of None \<Rightarrow> None | Some v \<Rightarrow> convert_entries s it (acc @ [v]) } }"

declare convert_entries.simps [code]

definition listTypeConvert :: "list_obj \<Rightarrow> list_obj option" where
  "listTypeConvert s = do { it \<leftarrow> listTypeInitIterator s 0; xs \<leftarrow> convert_entries s it []; Some (ListLinked xs) }"

definition listTypeTryConversion :: "nat \<Rightarrow> list_obj \<Rightarrow> obj_ref \<Rightarrow> list_obj option" where
  "listTypeTryConversion maxval s v =
     (case s of
        ListLinked _ \<Rightarrow> Some s
      | ListZip _ \<Rightarrow>
          if encoding_raw (ref_obj v) \<and> length (obj_sds (ref_obj v)) > maxval then listTypeConvert s else Some s)"

section \<open>Push and pop\<close>

definition listTypePush :: "nat \<Rightarrow> nat \<Rightarrow> list_obj \<Rightarrow> obj_ref \<Rightarrow> bool \<Rightarrow> list_obj option" where
  "listTypePush maxval maxent s v to_head =
     do { s \<leftarrow> listTypeTryConversion maxval s v;
          s \<leftarrow> (case s of
                ListZip zl \<Rightarrow> do {
                  (zl, n) \<leftarrow> ziplistLen zl;
                  if n \<ge> maxent then listTypeConvert (ListZip zl) else Some (ListZip zl) }
              | ListLinked _ \<Rightarrow> Some s);
          case s of
            ListZip zl \<Rightarrow> do { t \<leftarrow> decoded_sds v; map_option ListZip (ziplistPush zl t to_head) }
          | ListLinked xs \<Rightarrow> Some (ListLinked (if to_head then v # xs else xs @ [v])) }"

definition listTypePop :: "list_obj \<Rightarrow> bool \<Rightarrow> (list_obj \<times> obj_ref option) option" where
  "listTypePop s from_head =
     (case s of
        ListZip zl \<Rightarrow> do {
          p \<leftarrow> ziplistIndex zl (if from_head then 0 else -1);
          v \<leftarrow> ziplistGet zl p;
          (case (v, p) of
             (Some v, Some p) \<Rightarrow> do {
               ob \<leftarrow> zval_obj v;
               (zl, _) \<leftarrow> ziplistDelete zl p;
               Some (ListZip zl, Some ob) }
           | _ \<Rightarrow> Some (s, None)) }
      | ListLinked xs \<Rightarrow>
          Some (if xs = [] then (s, None)
                else if from_head then (ListLinked (tl xs), Some (hd xs))
                else (ListLinked (butlast xs), Some (last xs))))"

section \<open>Commands on a list object\<close>

text \<open>LINDEX: the object sent, \<open>None\<close> for a null reply.\<close>

definition lindex_object :: "list_obj \<Rightarrow> int \<Rightarrow> obj_ref option option" where
  "lindex_object s index =
     (case s of
        ListZip zl \<Rightarrow> do {
          p \<leftarrow> ziplistIndex zl index;
          v \<leftarrow> ziplistGet zl p;
          case v of None \<Rightarrow> Some None | Some v \<Rightarrow> map_option Some (zval_obj v) }
      | ListLinked xs \<Rightarrow> do { ln \<leftarrow> listIndex xs index; Some (map_option (\<lambda>i. xs ! i) ln) })"

text \<open>LSET: whether the index is in range.\<close>

definition lset_object :: "nat \<Rightarrow> list_obj \<Rightarrow> int \<Rightarrow> obj_ref \<Rightarrow> (list_obj \<times> bool) option" where
  "lset_object maxval s index v =
     do { s \<leftarrow> listTypeTryConversion maxval s v;
          case s of
            ListZip zl \<Rightarrow> do {
              p \<leftarrow> ziplistIndex zl index;
              case p of
                None \<Rightarrow> Some (s, False)
              | Some p \<Rightarrow> do {
                  (zl, p) \<leftarrow> ziplistDelete zl p;
                  t \<leftarrow> decoded_sds v;
                  zl \<leftarrow> ziplistInsert zl p t;
                  Some (ListZip zl, True) } }
          | ListLinked xs \<Rightarrow> do {
              ln \<leftarrow> listIndex xs index;
              Some (case ln of None \<Rightarrow> (s, False) | Some i \<Rightarrow> (ListLinked (xs[i := v]), True)) } }"

text \<open>LINSERT: whether the reference value was found.\<close>

partial_function (option) linsert_loop :: "list_obj \<Rightarrow> list_iter \<Rightarrow> obj_ref \<Rightarrow> obj_ref \<Rightarrow> bool \<Rightarrow> (list_obj \<times> bool) option" where
  "linsert_loop s it refval v to_tail =
     do { (e, it) \<leftarrow> listTypeNext True s it;
          case e of
            None \<Rightarrow> Some (s, False)
          | Some p \<Rightarrow> do {
              eq \<leftarrow> listTypeEqual s p refval;
              if eq then map_option (\<lambda>s. (s, True)) (listTypeInsert s p v to_tail)
              else linsert_loop s it refval v to_tail } }"

declare linsert_loop.simps [code]

definition linsert_object :: "nat \<Rightarrow> nat \<Rightarrow> list_obj \<Rightarrow> obj_ref \<Rightarrow> obj_ref \<Rightarrow> bool \<Rightarrow> (list_obj \<times> bool) option" where
  "linsert_object maxval maxent s refval v to_tail =
     do { s \<leftarrow> listTypeTryConversion maxval s v;
          it \<leftarrow> listTypeInitIterator s 0;
          (s, inserted) \<leftarrow> linsert_loop s it refval v to_tail;
          s \<leftarrow> (case s of
                ListZip zl \<Rightarrow>
                  if inserted then do {
                    (zl, n) \<leftarrow> ziplistLen zl;
                    if n > maxent then listTypeConvert (ListZip zl) else Some (ListZip zl) }
                  else Some s
              | ListLinked _ \<Rightarrow> Some s);
          Some (s, inserted) }"

text \<open>The indexes of LRANGE and LTRIM against a list of length \<open>llen\<close>: \<open>None\<close> is an empty range.\<close>

definition clip_range :: "int \<Rightarrow> int \<Rightarrow> int \<Rightarrow> (int \<times> int) option" where
  "clip_range llen start end =
     (let start = (if start < 0 then llen + start else start);
          end = (if end < 0 then llen + end else end);
          start = (if start < 0 then 0 else start)
      in if start > end \<or> start \<ge> llen then None else Some (start, if end \<ge> llen then llen - 1 else end))"

text \<open>The loop of LRANGE over a ziplist: the objects sent. The pointer is null after the last entry.\<close>

fun range_zip :: "byte list \<Rightarrow> nat option \<Rightarrow> nat \<Rightarrow> obj_ref list option" where
  "range_zip zl p 0 = Some []"
| "range_zip zl p (Suc n) =
     (case p of
        None \<Rightarrow> None
      | Some p \<Rightarrow> do {
          v \<leftarrow> ziplistGet zl (Some p);
          v \<leftarrow> v;
          ob \<leftarrow> zval_obj v;
          q \<leftarrow> ziplistNext zl p;
          obs \<leftarrow> range_zip zl q n;
          Some (ob # obs) })"

definition lrange_object :: "list_obj \<Rightarrow> int \<Rightarrow> int \<Rightarrow> (list_obj \<times> obj_ref list) option" where
  "lrange_object s start end =
     do { (s, n) \<leftarrow> listTypeLength s;
          llen \<leftarrow> Some (to_s32 (int n));
          case clip_range llen start end of
            None \<Rightarrow> Some (s, [])
          | Some (start, end) \<Rightarrow>
              (let rangelen = nat (end - start + 1) in
               case s of
                 ListZip zl \<Rightarrow> do {
                   p \<leftarrow> ziplistIndex zl start;
                   obs \<leftarrow> range_zip zl p rangelen;
                   Some (s, obs) }
               | ListLinked xs \<Rightarrow> do {
                   ln \<leftarrow> listIndex xs (if start > llen div 2 then start - llen else start);
                   i \<leftarrow> ln;
                   require (i + rangelen \<le> length xs);
                   Some (s, take rangelen (drop i xs)) }) }"

text \<open>How many elements LTRIM removes at the two ends.\<close>

definition trim_counts :: "int \<Rightarrow> int \<Rightarrow> int \<Rightarrow> int \<times> int" where
  "trim_counts llen start end =
     (case clip_range llen start end of None \<Rightarrow> (llen, 0) | Some (start, end) \<Rightarrow> (start, llen - end - 1))"

definition ltrim_object :: "list_obj \<Rightarrow> int \<Rightarrow> int \<Rightarrow> list_obj option" where
  "ltrim_object s start end =
     do { (s, n) \<leftarrow> listTypeLength s;
          llen \<leftarrow> Some (to_s32 (int n));
          (ltrim, rtrim) \<leftarrow> Some (trim_counts llen start end);
          case s of
            ListZip zl \<Rightarrow> do {
              zl \<leftarrow> ziplistDeleteRange zl 0 (nat ltrim);
              zl \<leftarrow> ziplistDeleteRange zl (- rtrim) (nat rtrim);
              Some (ListZip zl) }
          | ListLinked xs \<Rightarrow> do {
              require (nat ltrim + nat rtrim \<le> length xs);
              Some (ListLinked (take (length xs - nat ltrim - nat rtrim) (drop (nat ltrim) xs))) } }"

text \<open>LREM: the loop, with the number of elements removed so far; \<open>toremove\<close> 0 removes all.\<close>

partial_function (option) lrem_loop :: "bool \<Rightarrow> obj_ref \<Rightarrow> int \<Rightarrow> list_obj \<Rightarrow> list_iter \<Rightarrow> int \<Rightarrow> (list_obj \<times> int) option" where
  "lrem_loop to_tail ob toremove s it removed =
     do { (e, it) \<leftarrow> listTypeNext to_tail s it;
          case e of
            None \<Rightarrow> Some (s, removed)
          | Some p \<Rightarrow> do {
              eq \<leftarrow> listTypeEqual s p ob;
              if eq then do {
                (s, it) \<leftarrow> listTypeDelete to_tail s p;
                if toremove \<noteq> 0 \<and> removed + 1 = toremove then Some (s, removed + 1)
                else lrem_loop to_tail ob toremove s it (removed + 1) }
              else lrem_loop to_tail ob toremove s it removed } }"

declare lrem_loop.simps [code]

definition lrem_object :: "list_obj \<Rightarrow> int \<Rightarrow> obj_ref \<Rightarrow> (list_obj \<times> int) option" where
  "lrem_object s toremove ob =
     do { ob \<leftarrow> (case s of
             ListZip _ \<Rightarrow> map_option Own (getDecodedObject 0 (ref_obj ob))
           | ListLinked _ \<Rightarrow> Some ob);
          require (toremove > INT32_MIN);
          to_tail \<leftarrow> Some (toremove \<ge> 0);
          it \<leftarrow> listTypeInitIterator s (if to_tail then 0 else -1);
          lrem_loop to_tail ob \<bar>toremove\<bar> s it 0 }"

end
