(* ===== verification/ListSpec.thy ===== *)
theory ListSpec
  imports ListType ZiplistSpec SetSpec
begin

text \<open>
  List objects as lists of byte strings: the effect of every operation and of the commands'
  work on the object, whichever encoding the object has and whenever it changes.
\<close>

section \<open>Abstraction\<close>

definition ref_ok :: "obj_ref \<Rightarrow> bool" where "ref_ok r \<longleftrightarrow> obj_ok (ref_obj r)"

lemma ref_text: "ref_bytes r = obj_bytes (ref_obj r)"
  by (cases r) (simp_all add: ref_obj_def createObject_def obj_bytes_def)

lemma decoded_sds_ok: "ref_ok r \<Longrightarrow> decoded_sds r = Some (ref_bytes r)"
  by (cases "o_ptr (ref_obj r)")
    (auto simp: ref_ok_def decoded_sds_def getDecodedObject_def ref_text obj_ok_def obj_bytes_def ll2string_full
      createStringObject_def createObject_def incrRefCount_def obj_sds_def)

lemma obj_sds_raw: "encoding_raw ob \<Longrightarrow> obj_sds ob = obj_bytes ob"
  by (auto simp: encoding_raw_def obj_sds_def obj_bytes_def split: obj_ptr.splits)

lemma zval_obj_ok:
  assumes "zval_ok v" and "printable (ztext v)"
  shows "\<exists>r. zval_obj v = Some r \<and> ref_ok r \<and> ref_bytes r = ztext v"
proof (cases v)
  case (ZStr s)
  then show ?thesis by (simp add: zval_obj_def ref_ok_def ref_obj_def createStringObject_def createObject_def obj_ok_def obj_bytes_def)
next
  case (ZInt n)
  then have n: "LLONG_MIN \<le> n" "n \<le> LLONG_MAX" "n \<noteq> LLONG_MIN" using assms by (auto simp: printable_def)
  then show ?thesis using ZInt
    by (cases "0 \<le> n \<and> n < REDIS_SHARED_INTEGERS")
      (auto simp: zval_obj_def createStringObjectFromLongLong_def ref_ok_def ref_obj_def createObject_def obj_ok_def obj_bytes_def)
qed

text \<open>\<open>s\<close> stands for the texts \<open>ts\<close>; \<open>pos\<close> gives the place of each of them. Where values of more than 239
  bytes are never put into a ziplist, no entry of it has a wide length field.\<close>

definition list_rep :: "nat \<Rightarrow> list_obj \<Rightarrow> (nat \<Rightarrow> nat) \<Rightarrow> byte list list \<Rightarrow> bool" where
  "list_rep maxval s pos ts \<longleftrightarrow> (\<forall>t \<in> set ts. printable t) \<and> (case s of
     ListZip zl \<Rightarrow> \<exists>es. zl_rep zl es \<and> texts es = ts \<and> pos = zl_pos es \<and> (maxval \<le> 239 \<longrightarrow> slim es)
   | ListLinked xs \<Rightarrow> (\<forall>x \<in> set xs. ref_ok x) \<and> map ref_bytes xs = ts \<and> pos = id)"

definition is_zip :: "list_obj \<Rightarrow> bool" where
  "is_zip s \<longleftrightarrow> (case s of ListZip _ \<Rightarrow> True | ListLinked _ \<Rightarrow> False)"

definition iter_at :: "list_obj \<Rightarrow> nat option \<Rightarrow> list_iter" where
  "iter_at s j = (case s of ListZip _ \<Rightarrow> IterZip j | ListLinked _ \<Rightarrow> IterNode j)"

lemma list_rep_zipE:
  assumes "list_rep maxval (ListZip zl) pos ts"
  obtains es where "zl_rep zl es" and "texts es = ts" and "pos = zl_pos es" and "\<forall>t \<in> set ts. printable t" and "maxval \<le> 239 \<longrightarrow> slim es"
  using assms by (auto simp: list_rep_def)

lemma list_rep_linkedE:
  assumes "list_rep maxval (ListLinked xs) pos ts"
  obtains "\<forall>x \<in> set xs. ref_ok x" and "map ref_bytes xs = ts" and "pos = id" and "\<forall>t \<in> set ts. printable t"
  using assms by (auto simp: list_rep_def)

lemma list_rep_printable: "list_rep maxval s pos ts \<Longrightarrow> \<forall>t \<in> set ts. printable t"
  by (simp add: list_rep_def)

lemma texts_nth: "n < length es \<Longrightarrow> texts es ! n = ztext (snd (es ! n))"
  by (simp add: texts_def)

lemma zl_rep_zval_ok: "zl_rep zl es \<Longrightarrow> n < length es \<Longrightarrow> zval_ok (snd (es ! n))"
proof -
  have "ents_ok pl es \<Longrightarrow> n < length es \<Longrightarrow> zval_ok (snd (es ! n))" for pl
    by (induction es arbitrary: pl n) (auto simp: nth_Cons split: nat.splits)
  then show "zl_rep zl es \<Longrightarrow> n < length es \<Longrightarrow> zval_ok (snd (es ! n))" using zl_rep_ok by blast
qed

section \<open>Length and iteration\<close>

lemma list_length_ok:
  assumes "list_rep maxval s pos ts"
  shows "\<exists>s'. listTypeLength s = Some (s', length ts) \<and> list_rep maxval s' pos ts \<and> is_zip s' = is_zip s"
proof (cases s)
  case (ListZip zl)
  then obtain es where es: "zl_rep zl es" "texts es = ts" "pos = zl_pos es" "maxval \<le> 239 \<longrightarrow> slim es" using assms by (auto elim: list_rep_zipE)
  then show ?thesis using ziplistLen_ok [OF es(1)] list_rep_printable [OF assms] ListZip
    by (auto simp: listTypeLength_def list_rep_def is_zip_def)
next
  case (ListLinked xs)
  then show ?thesis using assms by (auto simp: listTypeLength_def elim: list_rep_linkedE)
qed

lemma listIndex_ok: "INT32_MIN < i \<Longrightarrow> listIndex xs i = Some (index_pos (length xs) i)"
  by (auto simp: listIndex_def index_pos_def require_def)

lemma init_ok:
  assumes "list_rep maxval s pos ts" and "INT32_MIN < i"
  shows "listTypeInitIterator s i = Some (iter_at s (map_option pos (index_pos (length ts) i)))"
proof (cases s)
  case (ListZip zl)
  then obtain es where es: "zl_rep zl es" "texts es = ts" "pos = zl_pos es" "maxval \<le> 239 \<longrightarrow> slim es" using assms(1) by (auto elim: list_rep_zipE)
  then have "length es = length ts" by auto
  then show ?thesis using ListZip es ziplistIndex_ok [OF es(1) assms(2)] by (simp add: listTypeInitIterator_def iter_at_def)
next
  case (ListLinked xs)
  then have "length xs = length ts" "pos = id" using assms(1) by (auto elim: list_rep_linkedE)
  then show ?thesis using ListLinked listIndex_ok [OF assms(2), of xs] by (simp add: listTypeInitIterator_def iter_at_def option.map_id)
qed

lemma next_ok:
  assumes "list_rep maxval s pos ts" and n: "n < length ts"
  shows "listTypeNext to_tail s (iter_at s (Some (pos n))) = Some (Some (pos n), iter_at s (map_option pos (node_next to_tail ts n)))"
proof (cases s)
  case (ListZip zl)
  then obtain es where es: "zl_rep zl es" "texts es = ts" "pos = zl_pos es" "maxval \<le> 239 \<longrightarrow> slim es" using assms(1) by (auto elim: list_rep_zipE)
  then have l: "length es = length ts" by auto
  show ?thesis using ListZip es ziplistNext_ok [OF es(1), of n] ziplistPrev_ok [OF es(1), of n] n l
    by (simp add: listTypeNext_def iter_at_def node_next_def)
next
  case (ListLinked xs)
  then have "length xs = length ts" "pos = id" using assms(1) by (auto elim: list_rep_linkedE)
  then show ?thesis using ListLinked by (simp add: listTypeNext_def iter_at_def node_next_def option.map_id)
qed

lemma next_none: "listTypeNext to_tail s (iter_at s None) = Some (None, iter_at s None)"
  by (cases s) (simp_all add: listTypeNext_def iter_at_def)

lemma get_ok:
  assumes "list_rep maxval s pos ts" and n: "n < length ts"
  shows "\<exists>r. listTypeGet s (pos n) = Some (Some r) \<and> ref_ok r \<and> ref_bytes r = ts ! n"
proof (cases s)
  case (ListZip zl)
  then obtain es where es: "zl_rep zl es" "texts es = ts" "pos = zl_pos es" "maxval \<le> 239 \<longrightarrow> slim es" using assms(1) by (auto elim: list_rep_zipE)
  then have l: "n < length es" using n by auto
  have t: "ztext (snd (es ! n)) = ts ! n" using es(2) l texts_nth by metis
  have "printable (ztext (snd (es ! n)))" using list_rep_printable [OF assms(1)] n t by simp
  from zval_obj_ok [OF zl_rep_zval_ok [OF es(1) l] this] show ?thesis
    using ListZip es(3) ziplistGet_ok [OF es(1) l] t by (auto simp: listTypeGet_def)
next
  case (ListLinked xs)
  then have "\<forall>x \<in> set xs. ref_ok x" "map ref_bytes xs = ts" "pos = id" using assms(1) by (auto elim: list_rep_linkedE)
  then show ?thesis using ListLinked n by (auto simp: listTypeGet_def require_def)
qed

text \<open>Texts that are compared right with the entries of a linked list: those that are not a number up to a NUL byte.\<close>

definition plain :: "byte list \<Rightarrow> bool" where "plain t \<longleftrightarrow> 0 \<notin> set t \<or> string2ll (c_str t) = None"

lemma plain_raw_int:
  assumes "plain t" and "LLONG_MIN \<le> n" and "n \<le> LLONG_MAX"
  shows "c_str t = dec_repr n \<longleftrightarrow> t = dec_repr n"
proof (cases "0 \<in> set t")
  case True
  then have "c_str t \<noteq> dec_repr n" using assms string2ll_None [of "c_str t" n] by (auto simp: plain_def)
  moreover have "t \<noteq> dec_repr n" using True dec_repr_no_nul [of n] by auto
  ultimately show ?thesis by blast
qed (simp add: c_str_id)

lemma equal_plain:
  assumes "obj_ok a" and "obj_ok b" and "plain (obj_bytes a)" and "plain (obj_bytes b)"
  shows "equalStringObjects False a b = Some (obj_bytes a = obj_bytes b)"
proof -
  have cmp: "list_cmp xs ys = 0 \<longleftrightarrow> xs = ys" for xs ys using list_cmp_spec by blast
  have "equalStringObjects False a b = Some (obj_bytes a = obj_bytes b)" if "o_ptr a = PtrSds t" "o_ptr b = PtrLong n" for t n
    using assms that plain_raw_int [of t n]
    by (auto simp: equalStringObjects_def compareStringObjects_def obj_ok_def obj_bytes_def ll2string_full strcmp_def cmp
        c_str_id dec_repr_no_nul)
  moreover have "equalStringObjects False a b = Some (obj_bytes a = obj_bytes b)" if "o_ptr a = PtrLong n" "o_ptr b = PtrSds t" for t n
    using assms that plain_raw_int [of t n]
    by (auto simp: equalStringObjects_def compareStringObjects_def obj_ok_def obj_bytes_def ll2string_full strcmp_def cmp
        c_str_id dec_repr_no_nul)
  ultimately show ?thesis
    using equal_text [OF assms(1,2)] assms(1,2)
    by (cases "o_ptr a"; cases "o_ptr b") (auto simp: encoding_raw_def obj_bytes_def dec_repr_no_nul)
qed

lemma list_equal_ok:
  assumes "list_rep maxval s pos ts" and n: "n < length ts" and ob: "ref_ok ob" "is_zip s \<Longrightarrow> encoding_raw (ref_obj ob)"
    and p: "\<not> is_zip s \<Longrightarrow> plain (ref_bytes ob) \<and> plain (ts ! n)"
  shows "listTypeEqual s (pos n) ob = Some (ts ! n = ref_bytes ob)"
proof (cases s)
  case (ListZip zl)
  then obtain es where es: "zl_rep zl es" "texts es = ts" "pos = zl_pos es" "maxval \<le> 239 \<longrightarrow> slim es" using assms(1) by (auto elim: list_rep_zipE)
  then have l: "n < length es" using n by auto
  show ?thesis using ListZip es ziplistCompare_ok [OF es(1) l] ob
    by (simp add: listTypeEqual_def is_zip_def require_def obj_sds_raw ref_text)
next
  case (ListLinked xs)
  then have x: "\<forall>x \<in> set xs. ref_ok x" "map ref_bytes xs = ts" "pos = id" using assms(1) by (auto elim: list_rep_linkedE)
  then have l: "n < length xs" "ref_bytes (xs ! n) = ts ! n" using n by auto
  then have "obj_ok (ref_obj ob)" "obj_ok (ref_obj (xs ! n))" using x(1) ob(1) by (simp_all add: ref_ok_def)
  from equal_plain [OF this] show ?thesis using ListLinked l x(3) p
    by (auto simp: listTypeEqual_def is_zip_def require_def ref_text [symmetric])
qed

lemma list_delete_ok:
  assumes r: "list_rep maxval s pos ts" and n: "n < length ts" and bd: "2 * zl_cost ts + 64 < 2 ^ 31"
  shows "\<exists>s' pos' it. listTypeDelete to_tail s (pos n) = Some (s', it) \<and> list_rep maxval s' pos' (take n ts @ drop (n + 1) ts) \<and>
    is_zip s' = is_zip s \<and> pos' n = pos n \<and>
    it = iter_at s' (if to_tail then (if is_zip s \<or> n + 1 < length ts then Some (pos n) else None)
                     else if n = 0 then None else Some (pos' (n - 1)))"
proof -
  have p: "\<forall>t \<in> set (take n ts @ drop (n + 1) ts). printable t"
    using list_rep_printable [OF r] by (auto dest: in_set_takeD in_set_dropD)
  show ?thesis
  proof (cases s)
    case (ListZip zl)
    then obtain es where es: "zl_rep zl es" "texts es = ts" "pos = zl_pos es" "maxval \<le> 239 \<longrightarrow> slim es"
      using r by (auto elim: list_rep_zipE)
    then have l: "n < length es" using n by auto
    have "2 * zl_cost (texts es) + 64 < 2 ^ 31" using bd es(2) by simp
    from delete_ok [OF es(1) l this, of 1] obtain zl' es' where d: "u_ziplistDelete zl (zl_pos es n) 1 = Some zl'" "zl_rep zl' es'"
      "texts es' = take n (texts es) @ drop (n + 1) (texts es)" "take n es' = take n es" "slim es \<longrightarrow> slim es'" by blast
    have "length (texts es') = length es - 1" unfolding d(3) using l by simp
    then have "n \<le> length es'" using l by simp
    from ziplistPrev_ok [OF d(2) this] have "ziplistPrev zl' (zl_pos es n) = Some (if n = 0 then None else Some (zl_pos es' (n - 1)))"
      using d(4) by (simp add: zl_pos_def)
    then show ?thesis using ListZip es d p
      by (intro exI [of _ "ListZip zl'"] exI [of _ "zl_pos es'"])
        (auto simp: listTypeDelete_def ziplistDelete_def list_rep_def is_zip_def iter_at_def zl_pos_def)
  next
    case (ListLinked xs)
    then have x: "\<forall>x \<in> set xs. ref_ok x" "map ref_bytes xs = ts" "pos = id" using r by (auto elim: list_rep_linkedE)
    then have "list_rep maxval (ListLinked (take n xs @ drop (n + 1) xs)) id (take n ts @ drop (n + 1) ts)"
      using p by (auto simp: list_rep_def take_map drop_map dest: in_set_takeD in_set_dropD)
    then show ?thesis using ListLinked x n
      by (intro exI [of _ "ListLinked (take n xs @ drop (n + 1) xs)"] exI [of _ id])
        (auto simp: listTypeDelete_def is_zip_def iter_at_def Let_def)
  qed
qed

section \<open>Conversion and push\<close>

lemma convert_entries_ok:
  assumes "list_rep maxval s pos ts" and "n \<le> length ts" and "map ref_bytes acc = take n ts" and "\<forall>x \<in> set acc. ref_ok x"
  shows "\<exists>xs. convert_entries s (iter_at s (if n < length ts then Some (pos n) else None)) acc = Some xs \<and>
    map ref_bytes xs = ts \<and> (\<forall>x \<in> set xs. ref_ok x)"
  using assms
proof (induction "length ts - n" arbitrary: n acc)
  case 0
  then show ?case by (subst convert_entries.simps) (simp add: next_none)
next
  case (Suc m)
  then have n: "n < length ts" by simp
  obtain r where r: "listTypeGet s (pos n) = Some (Some r)" "ref_ok r" "ref_bytes r = ts ! n" using get_ok [OF Suc.prems(1) n] by blast
  have "\<exists>xs. convert_entries s (iter_at s (if n + 1 < length ts then Some (pos (n + 1)) else None)) (acc @ [r]) = Some xs \<and>
      map ref_bytes xs = ts \<and> (\<forall>x \<in> set xs. ref_ok x)"
    using Suc.hyps(2) Suc.prems n r by (intro Suc.hyps(1)) (auto simp: take_Suc_conv_app_nth)
  moreover have "map_option pos (node_next True ts n) = (if n + 1 < length ts then Some (pos (n + 1)) else None)" by (simp add: node_next_def)
  ultimately show ?case using n r(1) next_ok [OF Suc.prems(1) n, of True] by (subst convert_entries.simps) simp
qed

lemma list_convert_ok:
  assumes r: "list_rep maxval s pos ts"
  shows "\<exists>xs. listTypeConvert s = Some (ListLinked xs) \<and> list_rep maxval (ListLinked xs) id ts"
proof -
  have "map_option pos (index_pos (length ts) 0) = (if 0 < length ts then Some (pos 0) else None)" by (simp add: index_pos_def)
  then have it: "listTypeInitIterator s 0 = Some (iter_at s (if 0 < length ts then Some (pos 0) else None))"
    using init_ok [OF r, of 0] by (simp add: c_limits)
  obtain xs where "convert_entries s (iter_at s (if 0 < length ts then Some (pos 0) else None)) [] = Some xs"
    "map ref_bytes xs = ts" "\<forall>x \<in> set xs. ref_ok x" using convert_entries_ok [OF r, of 0 "[]"] by auto
  then show ?thesis using it list_rep_printable [OF r] by (simp add: listTypeConvert_def list_rep_def del: length_greater_0_conv)
qed

text \<open>A value that does not make a ziplist a linked list: an integer, or not too long.\<close>

definition fits_zip :: "nat \<Rightarrow> obj_ref \<Rightarrow> bool" where
  "fits_zip maxval v \<longleftrightarrow> \<not> (encoding_raw (ref_obj v) \<and> length (obj_sds (ref_obj v)) > maxval)"

lemma try_conversion_ok:
  assumes r: "list_rep maxval s pos ts"
  shows "\<exists>s' pos'. listTypeTryConversion maxval s v = Some s' \<and> list_rep maxval s' pos' ts \<and> (is_zip s' \<longrightarrow> fits_zip maxval v)"
proof (cases s)
  case (ListZip zl)
  then show ?thesis
    using list_convert_ok [OF r] r
    by (cases "encoding_raw (ref_obj v) \<and> length (obj_sds (ref_obj v)) > maxval")
      (auto simp: listTypeTryConversion_def fits_zip_def is_zip_def)
next
  case (ListLinked xs)
  then show ?thesis using r by (auto simp: listTypeTryConversion_def is_zip_def)
qed

lemma fits_zip_short:
  assumes "fits_zip maxval v" and "ref_ok v" and "maxval \<le> 239"
  shows "length (ref_bytes v) \<le> 239"
proof (cases "o_ptr (ref_obj v)")
  case (PtrSds t)
  then show ?thesis using assms by (simp add: fits_zip_def encoding_raw_def obj_sds_def ref_text obj_bytes_def)
next
  case (PtrLong n)
  then have "LLONG_MIN \<le> n" "n \<le> LLONG_MAX" using assms(2) by (simp_all add: ref_ok_def obj_ok_def)
  then show ?thesis using PtrLong length_dec_repr [of n] by (simp add: ref_text obj_bytes_def)
qed

lemma list_push_ok:
  assumes r: "list_rep maxval s pos ts" and v: "ref_ok v" "printable (ref_bytes v)" and bd: "2 * zl_cost ts + length (ref_bytes v) + 64 < 2 ^ 32"
  shows "\<exists>s' pos'. listTypePush maxval maxent s v to_head = Some s' \<and>
    list_rep maxval s' pos' (if to_head then ref_bytes v # ts else ts @ [ref_bytes v])"
proof -
  obtain s1 pos1 where s1: "listTypeTryConversion maxval s v = Some s1" "list_rep maxval s1 pos1 ts" "is_zip s1 \<longrightarrow> fits_zip maxval v"
    using try_conversion_ok [OF r] by blast
  define grow where "grow = (\<lambda>s. case s of
                ListZip zl \<Rightarrow> do {
                  (zl, n) \<leftarrow> ziplistLen zl;
                  if n \<ge> maxent then listTypeConvert (ListZip zl) else Some (ListZip zl) }
              | ListLinked _ \<Rightarrow> Some s)"
  have "\<exists>s2 pos2. grow s1 = Some s2 \<and> list_rep maxval s2 pos2 ts \<and> (is_zip s2 \<longrightarrow> is_zip s1)"
  proof (cases s1)
    case (ListZip zl)
    then obtain es where es: "zl_rep zl es" "texts es = ts" "maxval \<le> 239 \<longrightarrow> slim es" using s1(2) by (auto elim: list_rep_zipE)
    obtain zl' where zl': "ziplistLen zl = Some (zl', length es)" "zl_rep zl' es" using ziplistLen_ok [OF es(1)] by blast
    then have "list_rep maxval (ListZip zl') (zl_pos es) ts" using es list_rep_printable [OF r] by (auto simp: list_rep_def)
    moreover obtain xs where "listTypeConvert (ListZip zl') = Some (ListLinked xs)" "list_rep maxval (ListLinked xs) id ts"
      using list_convert_ok [OF calculation] by blast
    ultimately show ?thesis using ListZip zl'(1) by (cases "maxent \<le> length es") (auto simp: grow_def is_zip_def)
  qed (use s1(2) in \<open>auto simp: grow_def\<close>)
  then obtain s2 pos2 where s2: "grow s1 = Some s2" "list_rep maxval s2 pos2 ts" "is_zip s2 \<longrightarrow> is_zip s1" by blast
  have run: "listTypePush maxval maxent s v to_head = (case s2 of
            ListZip zl \<Rightarrow> do { t \<leftarrow> decoded_sds v; map_option ListZip (ziplistPush zl t to_head) }
          | ListLinked xs \<Rightarrow> Some (ListLinked (if to_head then v # xs else xs @ [v])))"
    using s1(1) s2(1) by (simp add: listTypePush_def grow_def)
  show ?thesis
  proof (cases s2)
    case (ListZip zl)
    then obtain es where es: "zl_rep zl es" "texts es = ts" "maxval \<le> 239 \<longrightarrow> slim es" using s2(2) by (auto elim: list_rep_zipE)
    have sh: "maxval \<le> 239 \<longrightarrow> length (ref_bytes v) \<le> 239" using ListZip s1(3) s2(3) fits_zip_short [OF _ v(1)] by (auto simp: is_zip_def)
    have "2 * zl_cost (texts es) + length (ref_bytes v) + 64 < 2 ^ 32" using bd es(2) by simp
    from push_ok [OF es(1) this, of to_head] obtain zl' es' where "ziplistPush zl (ref_bytes v) to_head = Some zl'" "zl_rep zl' es'"
      "texts es' = (if to_head then ref_bytes v # texts es else texts es @ [ref_bytes v])"
      "slim es \<and> length (ref_bytes v) \<le> 239 \<longrightarrow> slim es'" by blast
    moreover have "list_rep maxval (ListZip zl') (zl_pos es') (texts es')" using calculation list_rep_printable [OF r] v(2) es(2,3) sh
      by (auto simp: list_rep_def)
    ultimately show ?thesis using run ListZip decoded_sds_ok [OF v(1)] es(2) by auto
  next
    case (ListLinked xs)
    then have "\<forall>x \<in> set xs. ref_ok x" "map ref_bytes xs = ts" "\<forall>t \<in> set ts. printable t" using s2(2) by (auto elim: list_rep_linkedE)
    then have "list_rep maxval (ListLinked (if to_head then v # xs else xs @ [v])) id (if to_head then ref_bytes v # ts else ts @ [ref_bytes v])"
      using v by (auto simp: list_rep_def)
    then show ?thesis using run ListLinked by auto
  qed
qed

section \<open>Pop and index\<close>

lemma list_pop_ok:
  assumes r: "list_rep maxval s pos ts" and bd: "2 * zl_cost ts + 64 < 2 ^ 31"
  shows "\<exists>s' pos' v. listTypePop s from_head = Some (s', v) \<and>
    list_rep maxval s' pos' (if ts = [] then [] else if from_head then tl ts else butlast ts) \<and>
    map_option ref_bytes v = (if ts = [] then None else Some (if from_head then hd ts else last ts))"
proof (cases s)
  case (ListZip zl)
  then obtain es where es: "zl_rep zl es" "texts es = ts" "pos = zl_pos es" "maxval \<le> 239 \<longrightarrow> slim es" using r by (auto elim: list_rep_zipE)
  then have l: "length es = length ts" by auto
  define n where "n = (if from_head then 0 else length ts - 1)"
  have ix: "ziplistIndex zl (if from_head then 0 else -1) = Some (if ts = [] then None else Some (pos n))"
    using ziplistIndex_ok [OF es(1), of "if from_head then 0 else -1"] es(3) l
    by (cases ts) (auto simp: index_pos_def n_def c_limits nat_diff_distrib)
  show ?thesis
  proof (cases "ts = []")
    case True
    then show ?thesis using ListZip ix r by (auto simp: listTypePop_def ziplistGet_def)
  next
    case False
    then have n: "n < length ts" by (simp add: n_def)
    have g: "ziplistGet zl (Some (pos n)) = Some (Some (snd (es ! n)))" using ziplistGet_ok [OF es(1), of n] n l es(3) by simp
    have t: "ztext (snd (es ! n)) = ts ! n" using texts_nth [of n es] n l es(2) by simp
    have "printable (ztext (snd (es ! n)))" using list_rep_printable [OF r] n t by simp
    with zl_rep_zval_ok [OF es(1), of n] obtain ob where ob: "zval_obj (snd (es ! n)) = Some ob" "ref_bytes ob = ts ! n"
      using zval_obj_ok n l t by metis
    obtain s' pos' it where d: "listTypeDelete True s (pos n) = Some (s', it)" "list_rep maxval s' pos' (take n ts @ drop (n + 1) ts)"
      using list_delete_ok [OF r n bd, of True] by blast
    then obtain zl' p where zd: "ziplistDelete zl (pos n) = Some (zl', p)" "s' = ListZip zl'"
      using ListZip by (auto simp: listTypeDelete_def bind_Some_iff)
    have "take n ts @ drop (n + 1) ts = (if from_head then tl ts else butlast ts)" "ts ! n = (if from_head then hd ts else last ts)"
      using False by (simp_all add: n_def drop_Suc hd_conv_nth last_conv_nth butlast_conv_take)
    then show ?thesis using ListZip ix g ob zd d(2) False by (auto simp: listTypePop_def)
  qed
next
  case (ListLinked xs)
  then have x: "\<forall>x \<in> set xs. ref_ok x" "map ref_bytes xs = ts" "\<forall>t \<in> set ts. printable t" using r by (auto elim: list_rep_linkedE)
  have e: "xs = [] \<longleftrightarrow> ts = []" using x(2) by auto
  show ?thesis
  proof (cases "ts = []")
    case True
    then show ?thesis using ListLinked e r by (auto simp: listTypePop_def)
  next
    case False
    have "list_rep maxval (ListLinked (tl xs)) id (tl ts)" "list_rep maxval (ListLinked (butlast xs)) id (butlast ts)"
    proof -
      have sub: "set (tl xs) \<subseteq> set xs" "set (butlast xs) \<subseteq> set xs" "set (tl ts) \<subseteq> set ts" "set (butlast ts) \<subseteq> set ts"
        using list.set_sel(2) [of xs] list.set_sel(2) [of ts] False e by (auto dest: in_set_butlastD)
      then show "list_rep maxval (ListLinked (tl xs)) id (tl ts)" "list_rep maxval (ListLinked (butlast xs)) id (butlast ts)"
        using x by (auto simp: list_rep_def map_tl [symmetric] map_butlast simp del: map_tl)
    qed
    moreover have "ref_bytes (hd xs) = hd ts" "ref_bytes (last xs) = last ts" using x(2) False e by (auto simp: hd_map last_map)
    ultimately show ?thesis using ListLinked False e by (auto simp: listTypePop_def)
  qed
qed

lemma lindex_ok:
  assumes r: "list_rep maxval s pos ts" and i: "INT32_MIN < i"
  shows "\<exists>v. lindex_object s i = Some v \<and> map_option ref_bytes v = map_option (\<lambda>n. ts ! n) (index_pos (length ts) i)"
proof (cases s)
  case (ListZip zl)
  then obtain es where es: "zl_rep zl es" "texts es = ts" "pos = zl_pos es" "maxval \<le> 239 \<longrightarrow> slim es" using r by (auto elim: list_rep_zipE)
  then have l: "length es = length ts" by auto
  note ix = ziplistIndex_ok [OF es(1) i]
  show ?thesis
  proof (cases "index_pos (length ts) i")
    case None
    then show ?thesis using ListZip ix l by (simp add: lindex_object_def ziplistGet_def)
  next
    case (Some n)
    then have n: "n < length ts" by (rule index_pos_less)
    obtain v where "listTypeGet s (pos n) = Some (Some v)" "ref_bytes v = ts ! n" using get_ok [OF r n] by blast
    then show ?thesis using ListZip ix l Some es(3) by (simp add: lindex_object_def listTypeGet_def)
  qed
next
  case (ListLinked xs)
  then have "map ref_bytes xs = ts" using r by (auto elim: list_rep_linkedE)
  then show ?thesis using ListLinked listIndex_ok [OF i, of xs] index_pos_less [of "length xs" i]
    by (cases "index_pos (length xs) i") (auto simp: lindex_object_def)
qed

section \<open>LRANGE and LTRIM\<close>

text \<open>The elements from \<open>start\<close> to \<open>end\<close>, counted from the end of the list when negative.\<close>

definition range_of :: "int \<Rightarrow> int \<Rightarrow> byte list list \<Rightarrow> byte list list" where
  "range_of start end ts =
     (let n = int (length ts);
          a = nat (if start < 0 then n + start else start);
          b = (if end < 0 then n + end else end)
      in take (nat (b + 1) - a) (drop a ts))"

lemma clip_range_ok:
  "clip_range (int (length ts)) start end = None \<Longrightarrow> range_of start end ts = []"
  "clip_range (int (length ts)) start end = Some (a, b) \<Longrightarrow> 0 \<le> a \<and> a \<le> b \<and> b < int (length ts) \<and>
     range_of start end ts = take (nat (b - a + 1)) (drop (nat a) ts)"
proof -
  define n where "n = length ts"
  define a0 where "a0 = (if start < 0 then int n + start else start)"
  define b0 where "b0 = (if end < 0 then int n + end else end)"
  have c: "clip_range (int n) start end =
      (if max 0 a0 > b0 \<or> max 0 a0 \<ge> int n then None else Some (max 0 a0, min b0 (int n - 1)))"
    unfolding clip_range_def Let_def a0_def b0_def by (auto simp: max_def min_def)
  have R: "range_of start end ts = take (nat (b0 + 1) - nat a0) (drop (nat a0) ts)"
    by (simp add: range_of_def Let_def a0_def b0_def n_def)
  show "clip_range (int (length ts)) start end = None \<Longrightarrow> range_of start end ts = []"
  proof -
    assume "clip_range (int (length ts)) start end = None"
    then have "max 0 a0 > b0 \<or> max 0 a0 \<ge> int n" using c by (auto simp: n_def split: if_splits)
    then have "nat (b0 + 1) - nat a0 = 0 \<or> length ts \<le> nat a0" by (auto simp: n_def max_def split: if_splits)
    then show ?thesis unfolding R by auto
  qed
  assume "clip_range (int (length ts)) start end = Some (a, b)"
  then have ab: "a = max 0 a0" "b = min b0 (int n - 1)" "max 0 a0 \<le> b0" "max 0 a0 < int n"
    using c by (auto simp: n_def split: if_splits)
  have ax: "0 \<le> a" "a \<le> b" "b < int n" using ab by auto
  have na: "nat a0 = nat a" using ab by auto
  have "take (nat (b0 + 1) - nat a) (drop (nat a) ts) = take (nat (b - a + 1)) (drop (nat a) ts)"
  proof (cases "b0 < int n")
    case True
    then have "nat (b0 + 1) - nat a = nat (b - a + 1)" using ab by auto
    then show ?thesis by simp
  next
    case False
    then have "length (drop (nat a) ts) \<le> nat (b0 + 1) - nat a" "length (drop (nat a) ts) \<le> nat (b - a + 1)"
      using ab by (auto simp: n_def)
    then show ?thesis by simp
  qed
  then show "0 \<le> a \<and> a \<le> b \<and> b < int (length ts) \<and> range_of start end ts = take (nat (b - a + 1)) (drop (nat a) ts)"
    using ax na by (simp add: R n_def)
qed

lemma range_zip_ok:
  assumes "list_rep maxval (ListZip zl) pos ts" and "n + k \<le> length ts"
  shows "\<exists>obs. range_zip zl (if n < length ts then Some (pos n) else None) k = Some obs \<and> map ref_bytes obs = take k (drop n ts)"
  using assms
proof (induction k arbitrary: n)
  case (Suc k)
  then have n: "n < length ts" by simp
  obtain r where r: "listTypeGet (ListZip zl) (pos n) = Some (Some r)" "ref_bytes r = ts ! n" using get_ok [OF Suc.prems(1) n] by blast
  then obtain v where v: "ziplistGet zl (Some (pos n)) = Some (Some v)" "zval_obj v = Some r"
    by (auto simp: listTypeGet_def bind_Some_iff split: option.splits)
  have nx: "ziplistNext zl (pos n) = Some (if n + 1 < length ts then Some (pos (n + 1)) else None)"
    using next_ok [OF Suc.prems(1) n, of True] by (auto simp: listTypeNext_def iter_at_def node_next_def bind_Some_iff)
  obtain obs where "range_zip zl (if n + 1 < length ts then Some (pos (n + 1)) else None) k = Some obs" "map ref_bytes obs = take k (drop (n + 1) ts)"
    using Suc.IH [of "n + 1"] Suc.prems by auto
  then show ?case using n r(2) v nx by (simp add: Cons_nth_drop_Suc [symmetric])
qed simp

lemma lrange_ok:
  assumes r: "list_rep maxval s pos ts" and len: "length ts < 2 ^ 31"
  shows "\<exists>s' obs. lrange_object s start end = Some (s', obs) \<and> list_rep maxval s' pos ts \<and> map ref_bytes obs = range_of start end ts"
proof -
  obtain s1 where s1: "listTypeLength s = Some (s1, length ts)" "list_rep maxval s1 pos ts" "is_zip s1 = is_zip s" using list_length_ok [OF r] by blast
  have ll: "to_s32 (int (length ts)) = int (length ts)" using len by simp
  show ?thesis
  proof (cases "clip_range (int (length ts)) start end")
    case None
    then show ?thesis using s1 ll clip_range_ok(1) [OF None] by (simp add: lrange_object_def)
  next
    case (Some ab)
    obtain a b where ab: "ab = (a, b)" by (cases ab)
    then have R: "0 \<le> a" "a \<le> b" "b < int (length ts)" "range_of start end ts = take (nat (b - a + 1)) (drop (nat a) ts)"
      using clip_range_ok(2) Some by blast+
    have n: "nat a < length ts" "nat a + nat (b - a + 1) \<le> length ts" using R(1-3) by linarith+
    show ?thesis
    proof (cases s1)
      case (ListZip zl)
      then obtain es where es: "zl_rep zl es" "texts es = ts" "pos = zl_pos es" "maxval \<le> 239 \<longrightarrow> slim es" using s1(2) by (auto elim: list_rep_zipE)
      have l: "length es = length ts" using es(2) by auto
      have ix: "ziplistIndex zl a = Some (Some (pos (nat a)))"
        using ziplistIndex_ok [OF es(1), of a] R(1) n(1) es(3) l by (simp add: index_pos_def c_limits)
      obtain obs where "range_zip zl (Some (pos (nat a))) (nat (b - a + 1)) = Some obs" "map ref_bytes obs = take (nat (b - a + 1)) (drop (nat a) ts)"
        using range_zip_ok [of maxval zl pos ts "nat a" "nat (b - a + 1)"] s1(2) n ListZip by auto
      then show ?thesis using s1 ll Some ab ListZip ix R(4) by (simp add: lrange_object_def Let_def)
    next
      case (ListLinked xs)
      then have x: "map ref_bytes xs = ts" using s1(2) by (auto elim: list_rep_linkedE)
      have lx: "length xs = length ts" using x by auto
      let ?i = "if a > int (length ts) div 2 then a - int (length ts) else a"
      have ix: "index_pos (length xs) ?i = Some (nat a)" using R(1) n(1) lx by (auto simp: index_pos_def)
      have "INT32_MIN < ?i" using R(1) len by (auto simp: c_limits)
      from listIndex_ok [OF this, of xs] have "listIndex xs ?i = Some (Some (nat a))" using ix by simp
      moreover have "map ref_bytes (take (nat (b - a + 1)) (drop (nat a) xs)) = take (nat (b - a + 1)) (drop (nat a) ts)"
        using x by (simp add: take_map drop_map flip: x)
      ultimately show ?thesis using s1 ll Some ab ListLinked R(4) n lx
        by (cases "a > int (length ts) div 2") (simp_all add: lrange_object_def Let_def require_def)
    qed
  qed
qed

lemma delete_range_ok:
  assumes "zl_rep zl es" and "INT32_MIN < i" and "i \<le> INT32_MAX" and "2 * zl_cost (texts es) + 64 < 2 ^ 31"
  shows "\<exists>zl' es'. ziplistDeleteRange zl i k = Some zl' \<and> zl_rep zl' es' \<and>
    texts es' = (case index_pos (length es) i of None \<Rightarrow> texts es | Some n \<Rightarrow> take n (texts es) @ drop (n + k) (texts es)) \<and>
    (slim es \<longrightarrow> slim es')"
proof -
  have i: "to_s32 i = i" using assms(2,3) by (simp add: c_limits)
  show ?thesis
  proof (cases "index_pos (length es) i")
    case None
    then show ?thesis using i ziplistIndex_ok [OF assms(1,2)] assms(1) by (auto simp: ziplistDeleteRange_def)
  next
    case (Some n)
    then show ?thesis using i ziplistIndex_ok [OF assms(1,2)] delete_ok [OF assms(1) index_pos_less [OF Some] assms(4), of k]
      by (auto simp: ziplistDeleteRange_def)
  qed
qed

lemma trim_zip:
  assumes es: "zl_rep zl es" and bd: "2 * zl_cost (texts es) + 64 < 2 ^ 31" and lr: "l + r \<le> length es" "length es < 2147483647"
  shows "\<exists>zl1 zl2 es2. ziplistDeleteRange zl 0 l = Some zl1 \<and> ziplistDeleteRange zl1 (- int r) r = Some zl2 \<and> zl_rep zl2 es2 \<and>
    texts es2 = take (length es - l - r) (drop l (texts es)) \<and> (slim es \<longrightarrow> slim es2)"
proof -
  have z: "INT32_MIN < 0" "0 \<le> INT32_MAX" by (simp_all add: c_limits)
  obtain zl1 es1 where 1: "ziplistDeleteRange zl 0 l = Some zl1" "zl_rep zl1 es1"
    "texts es1 = (case index_pos (length es) 0 of None \<Rightarrow> texts es | Some n \<Rightarrow> take n (texts es) @ drop (n + l) (texts es))" "slim es \<longrightarrow> slim es1"
    using delete_range_ok [OF es z bd, of l] by blast
  have t1: "texts es1 = drop l (texts es)"
  proof (cases "es = []")
    case True
    then show ?thesis using 1(3) by (simp add: index_pos_def)
  next
    case False
    then have "index_pos (length es) 0 = Some 0" by (simp add: index_pos_def)
    then show ?thesis using 1(3) by simp
  qed
  have le1: "length es1 = length es - l" using arg_cong [OF t1, of length] by simp
  have "zl_cost (drop l (texts es)) \<le> zl_cost (texts es)" using zl_cost_take_drop [of 0 l "texts es"] by simp
  then have z1: "2 * zl_cost (texts es1) + 64 < 2 ^ 31" using bd by (simp add: t1)
  have "int r < 2147483647" using lr by linarith
  then have z2: "INT32_MIN < - int r" "- int r \<le> INT32_MAX" by (simp_all add: c_limits)
  obtain zl2 es2 where 2: "ziplistDeleteRange zl1 (- int r) r = Some zl2" "zl_rep zl2 es2"
    "texts es2 = (case index_pos (length es1) (- int r) of None \<Rightarrow> texts es1 | Some n \<Rightarrow> take n (texts es1) @ drop (n + r) (texts es1))" "slim es1 \<longrightarrow> slim es2"
    using delete_range_ok [OF 1(2) z2 z1] by blast
  have "texts es2 = take (length es - l - r) (drop l (texts es))"
  proof (cases "r = 0")
    case True
    then have "texts es2 = texts es1" using 2(3) by (cases "es1 = []") (simp_all add: index_pos_def)
    then show ?thesis using t1 True by simp
  next
    case False
    then have "index_pos (length es1) (- int r) = Some (length es - l - r)" using le1 lr(1) by (simp add: index_pos_def nat_diff_distrib)
    then show ?thesis using 2(3) t1 lr(1) by simp
  qed
  then show ?thesis using 1(1,4) 2(1,2,4) by blast
qed

lemma trim_counts_ok:
  "\<exists>l r. trim_counts (int (length ts)) start end = (int l, int r) \<and> l + r \<le> length ts \<and>
     range_of start end ts = take (length ts - l - r) (drop l ts)"
proof (cases "clip_range (int (length ts)) start end")
  case None
  then show ?thesis using clip_range_ok(1) [OF None] by (intro exI [of _ "length ts"] exI [of _ 0]) (simp add: trim_counts_def)
next
  case (Some ab)
  obtain a b where ab: "ab = (a, b)" by (cases ab)
  then have c: "0 \<le> a" "a \<le> b" "b < int (length ts)" "range_of start end ts = take (nat (b - a + 1)) (drop (nat a) ts)"
    using clip_range_ok(2) Some by blast+
  define r where "r = nat (int (length ts) - b - 1)"
  have r: "int r = int (length ts) - b - 1" using c by (simp add: r_def)
  then have "length ts - nat a - r = nat (b - a + 1)" "nat a + r \<le> length ts" using c by linarith+
  then show ?thesis using Some ab c r by (intro exI [of _ "nat a"] exI [of _ r]) (simp add: trim_counts_def)
qed

lemma ltrim_ok:
  assumes r: "list_rep maxval s pos ts" and bd: "2 * zl_cost ts + 64 < 2 ^ 31" and len: "length ts < 2147483647"
  shows "\<exists>s' pos'. ltrim_object s start end = Some s' \<and> list_rep maxval s' pos' (range_of start end ts)"
proof -
  obtain s1 where s1: "listTypeLength s = Some (s1, length ts)" "list_rep maxval s1 pos ts" "is_zip s1 = is_zip s" using list_length_ok [OF r] by blast
  have ll: "to_s32 (int (length ts)) = int (length ts)" using len by simp
  obtain l k where lr: "trim_counts (int (length ts)) start end = (int l, int k)" "l + k \<le> length ts"
    "range_of start end ts = take (length ts - l - k) (drop l ts)" using trim_counts_ok by blast
  have p: "\<forall>t \<in> set (range_of start end ts). printable t"
    unfolding lr(3) using list_rep_printable [OF r] by (auto dest: in_set_takeD in_set_dropD)
  show ?thesis
  proof (cases s1)
    case (ListZip zl)
    then obtain es where es: "zl_rep zl es" "texts es = ts" "maxval \<le> 239 \<longrightarrow> slim es" using s1(2) by (auto elim: list_rep_zipE)
    have le: "length es = length ts" using es(2) by auto
    then obtain zl1 zl2 es2 where z: "ziplistDeleteRange zl 0 l = Some zl1" "ziplistDeleteRange zl1 (- int k) k = Some zl2" "zl_rep zl2 es2"
      "texts es2 = range_of start end ts" "slim es \<longrightarrow> slim es2"
      using trim_zip [OF es(1), of l k] bd lr(2,3) len unfolding es(2) le by auto
    have "list_rep maxval (ListZip zl2) (zl_pos es2) (range_of start end ts)" using z(3-5) p es(3) by (auto simp: list_rep_def)
    moreover have "ltrim_object s start end = Some (ListZip zl2)"
      using s1(1) ListZip z(1,2) lr(1) by (simp add: ltrim_object_def ll)
    ultimately show ?thesis by blast
  next
    case (ListLinked xs)
    then have x: "\<forall>x \<in> set xs. ref_ok x" "map ref_bytes xs = ts" using s1(2) by (auto elim: list_rep_linkedE)
    have lx: "length xs = length ts" using x(2) by auto
    have "map ref_bytes (take (length xs - l - k) (drop l xs)) = range_of start end ts"
      unfolding lr(3) unfolding x(2) [symmetric] by (simp add: take_map drop_map)
    then have "list_rep maxval (ListLinked (take (length xs - l - k) (drop l xs))) id (range_of start end ts)"
      using x(1) p by (auto simp: list_rep_def dest: in_set_takeD in_set_dropD)
    moreover have "ltrim_object s start end = Some (ListLinked (take (length xs - l - k) (drop l xs)))"
      using s1(1) ListLinked lr(1,2) lx by (simp add: ltrim_object_def ll require_def)
    ultimately show ?thesis by blast
  qed
qed

section \<open>LREM\<close>

text \<open>Removal of the first \<open>k\<close> occurrences, or of all, and their number.\<close>

fun rem_first :: "nat option \<Rightarrow> 'a \<Rightarrow> 'a list \<Rightarrow> 'a list \<times> nat" where
  "rem_first k t [] = ([], 0)"
| "rem_first k t (x # xs) =
     (if k = Some 0 then (x # xs, 0)
      else if x = t then (case rem_first (map_option (\<lambda>k. k - 1) k) t xs of (ys, n) \<Rightarrow> (ys, n + 1))
      else (case rem_first k t xs of (ys, n) \<Rightarrow> (x # ys, n)))"

definition left_to_remove :: "int \<Rightarrow> int \<Rightarrow> nat option" where
  "left_to_remove toremove removed = (if toremove = 0 then None else Some (nat (toremove - removed)))"

lemma rem_first_0: "rem_first (Some 0) t xs = (xs, 0)"
  by (cases xs) simp_all

lemma left_Suc: "removed < toremove \<or> toremove = 0 \<Longrightarrow>
    map_option (\<lambda>k. k - 1) (left_to_remove toremove removed) = left_to_remove toremove (removed + 1) \<and>
    left_to_remove toremove removed \<noteq> Some 0"
  by (auto simp: left_to_remove_def nat_diff_distrib)

lemma cost_delete: "zl_cost (take n ts @ drop (n + 1) ts) \<le> zl_cost ts"
  using zl_cost_take_drop [of n "n + 1" ts] by simp

text \<open>An iterator towards the tail that stands before the element \<open>n\<close>. Past the last entry of a ziplist it may
  be null or point to the end.\<close>

definition at_tail :: "list_obj \<Rightarrow> (nat \<Rightarrow> nat) \<Rightarrow> byte list list \<Rightarrow> nat \<Rightarrow> list_iter \<Rightarrow> bool" where
  "at_tail s pos ts n it \<longleftrightarrow> n \<le> length ts \<and>
     (it = iter_at s (Some (pos n)) \<and> (n < length ts \<or> is_zip s) \<or> it = iter_at s None \<and> n = length ts)"

lemma end_of_zip:
  assumes "list_rep maxval s pos ts" and "is_zip s" and "encoding_raw (ref_obj ob)"
  shows "listTypeNext True s (iter_at s (Some (pos (length ts)))) = Some (Some (pos (length ts)), iter_at s None)"
    and "listTypeEqual s (pos (length ts)) ob = Some False"
proof -
  obtain zl where zl: "s = ListZip zl" using assms(2) by (cases s) (auto simp: is_zip_def)
  then obtain es where es: "zl_rep zl es" "texts es = ts" "pos = zl_pos es" "maxval \<le> 239 \<longrightarrow> slim es" using assms(1) by (auto elim: list_rep_zipE)
  have "length es = length ts" using es(2) by auto
  then have "mem_byte zl (pos (length ts)) = Some ZIP_END" using at_end [OF es(1)] es(3) by (simp add: zl_pos_def)
  then show "listTypeNext True s (iter_at s (Some (pos (length ts)))) = Some (Some (pos (length ts)), iter_at s None)"
    and "listTypeEqual s (pos (length ts)) ob = Some False"
    using zl assms(3) by (simp_all add: listTypeNext_def iter_at_def ziplistNext_def listTypeEqual_def ziplistCompare_def require_def)
qed

lemma lrem_tail_ok:
  assumes "list_rep maxval s pos ts" and "at_tail s pos ts n it" and "ref_ok ob" and "is_zip s \<Longrightarrow> encoding_raw (ref_obj ob)"
    and "plain (ref_bytes ob)" and "\<forall>t \<in> set ts. plain t" and "2 * zl_cost ts + 64 < 2 ^ 31" and "removed < toremove \<or> toremove = 0"
    and "rem_first (left_to_remove toremove removed) (ref_bytes ob) (drop n ts) = (ys, k)"
  shows "\<exists>s' pos'. lrem_loop True ob toremove s it removed = Some (s', removed + int k) \<and> list_rep maxval s' pos' (take n ts @ ys)"
  using assms
proof (induction "length ts - n" arbitrary: s pos ts n it removed ys k)
  case 0
  then have n: "n = length ts" "ys = []" "k = 0" by (auto simp: at_tail_def)
  note r = "0.prems"(1)
  show ?case
  proof (cases "it = iter_at s None")
    case True
    then show ?thesis using n r by (subst lrem_loop.simps) (auto simp: next_none)
  next
    case False
    then have z: "it = iter_at s (Some (pos n))" "is_zip s" using "0.prems"(2) n by (auto simp: at_tail_def)
    note e = end_of_zip [OF r z(2) "0.prems"(4) [OF z(2)], folded n(1)]
    have "lrem_loop True ob toremove s it removed = Some (s, removed)"
      using e z(1) by (subst lrem_loop.simps) (simp add: lrem_loop.simps [of _ _ _ s "iter_at s None"] next_none)
    then show ?thesis using n r by auto
  qed
next
  case (Suc m)
  then have n: "n < length ts" by simp
  note r = Suc.prems(1)
  have it: "it = iter_at s (Some (pos n))" using Suc.prems(2) n by (auto simp: at_tail_def)
  have nx: "listTypeNext True s it = Some (Some (pos n), iter_at s (if n + 1 < length ts then Some (pos (n + 1)) else None))"
    using next_ok [OF r n, of True] it by (simp add: node_next_def)
  have eq: "listTypeEqual s (pos n) ob = Some (ts ! n = ref_bytes ob)"
    using Suc.prems(3-6) n by (intro list_equal_ok [OF r n]) auto
  note left = left_Suc [OF Suc.prems(8)]
  have dr: "drop n ts = ts ! n # drop (n + 1) ts" using n by (simp add: Cons_nth_drop_Suc)
  show ?case
  proof (cases "ts ! n = ref_bytes ob")
    case False
    then obtain zs where zs: "ys = ts ! n # zs" "rem_first (left_to_remove toremove removed) (ref_bytes ob) (drop (n + 1) ts) = (zs, k)"
      using Suc.prems(9) left dr by (auto split: prod.splits)
    have "at_tail s pos ts (n + 1) (iter_at s (if n + 1 < length ts then Some (pos (n + 1)) else None))"
      using n by (auto simp: at_tail_def)
    moreover have "m = length ts - (n + 1)" using Suc.hyps(2) by simp
    ultimately obtain s' pos' where
      "lrem_loop True ob toremove s (iter_at s (if n + 1 < length ts then Some (pos (n + 1)) else None)) removed = Some (s', removed + int k)"
      "list_rep maxval s' pos' (take (n + 1) ts @ zs)" using Suc.hyps(1) [OF _ r _ Suc.prems(3-8) zs(2)] by blast
    then show ?thesis using False nx eq zs(1) n by (subst lrem_loop.simps) (auto simp: take_Suc_conv_app_nth)
  next
    case True
    define ts' where "ts' = take n ts @ drop (n + 1) ts"
    obtain s1 pos1 it1 where d: "listTypeDelete True s (pos n) = Some (s1, it1)" "list_rep maxval s1 pos1 ts'" "is_zip s1 = is_zip s" "pos1 n = pos n"
      "it1 = iter_at s1 (if is_zip s \<or> n + 1 < length ts then Some (pos n) else None)"
      using list_delete_ok [OF r n Suc.prems(7), of True] by (auto simp: ts'_def)
    obtain j where j: "k = j + 1" "rem_first (left_to_remove toremove (removed + 1)) (ref_bytes ob) (drop (n + 1) ts) = (ys, j)"
      using Suc.prems(9) left dr True by (auto split: prod.splits)
    have ln: "length ts' = length ts - 1" "take n ts' = take n ts" "drop n ts' = drop (n + 1) ts" using n by (simp_all add: ts'_def)
    show ?thesis
    proof (cases "toremove \<noteq> 0 \<and> removed + 1 = toremove")
      case last: True
      then have "left_to_remove toremove (removed + 1) = Some 0" by (simp add: left_to_remove_def)
      then have "j = 0" "ys = drop (n + 1) ts" using j(2) by (simp_all add: rem_first_0)
      then show ?thesis using True nx eq d(1,2) last j(1) by (subst lrem_loop.simps) (auto simp: ts'_def)
    next
      case more: False
      have a: "at_tail s1 pos1 ts' n it1" using d(3-5) n ln(1) by (auto simp: at_tail_def)
      have m: "m = length ts' - n" using Suc.hyps(2) n ln(1) by simp
      have pl: "\<forall>t \<in> set ts'. plain t" using Suc.prems(6) by (auto simp: ts'_def dest: in_set_takeD in_set_dropD)
      have c: "2 * zl_cost ts' + 64 < 2 ^ 31" using cost_delete [of n ts] Suc.prems(7) by (simp add: ts'_def)
      have lt: "removed + 1 < toremove \<or> toremove = 0" using more Suc.prems(8) by auto
      have raw: "is_zip s1 \<Longrightarrow> encoding_raw (ref_obj ob)" using Suc.prems(4) d(3) by simp
      from Suc.hyps(1) [OF m d(2) a Suc.prems(3) raw Suc.prems(5) pl c lt, of ys j] j(2) ln(2,3) obtain s' pos' where
        "lrem_loop True ob toremove s1 it1 (removed + 1) = Some (s', removed + 1 + int j)" "list_rep maxval s' pos' (take n ts @ ys)" by auto
      then show ?thesis using True nx eq d(1) more j(1) by (subst lrem_loop.simps) auto
    qed
  qed
qed

lemma lrem_head_ok:
  assumes "list_rep maxval s pos ts" and "c \<le> length ts" and "it = iter_at s (if c = 0 then None else Some (pos (c - 1)))" and "ref_ok ob"
    and "is_zip s \<Longrightarrow> encoding_raw (ref_obj ob)"
    and "plain (ref_bytes ob)" and "\<forall>t \<in> set ts. plain t" and "2 * zl_cost ts + 64 < 2 ^ 31" and "removed < toremove \<or> toremove = 0"
    and "rem_first (left_to_remove toremove removed) (ref_bytes ob) (rev (take c ts)) = (ys, k)"
  shows "\<exists>s' pos'. lrem_loop False ob toremove s it removed = Some (s', removed + int k) \<and> list_rep maxval s' pos' (rev ys @ drop c ts)"
  using assms
proof (induction c arbitrary: s pos ts it removed ys k)
  case 0
  then show ?case by (subst lrem_loop.simps) (auto simp: next_none)
next
  case (Suc n)
  note r = Suc.prems(1)
  have n: "n < length ts" using Suc.prems(2) by simp
  have nx: "listTypeNext False s it = Some (Some (pos n), iter_at s (if n = 0 then None else Some (pos (n - 1))))"
    using next_ok [OF r n, of False] Suc.prems(3) by (simp add: node_next_def)
  have eq: "listTypeEqual s (pos n) ob = Some (ts ! n = ref_bytes ob)"
    using Suc.prems(4-7) n by (intro list_equal_ok [OF r n]) auto
  note left = left_Suc [OF Suc.prems(9)]
  have rv: "rev (take (Suc n) ts) = ts ! n # rev (take n ts)" using n by (simp add: take_Suc_conv_app_nth)
  show ?case
  proof (cases "ts ! n = ref_bytes ob")
    case False
    then obtain zs where zs: "ys = ts ! n # zs" "rem_first (left_to_remove toremove removed) (ref_bytes ob) (rev (take n ts)) = (zs, k)"
      using Suc.prems(10) left rv by (auto split: prod.splits)
    have "n \<le> length ts" using n by simp
    from Suc.IH [OF r this refl Suc.prems(4-9) zs(2)] obtain s' pos' where
      "lrem_loop False ob toremove s (iter_at s (if n = 0 then None else Some (pos (n - 1)))) removed = Some (s', removed + int k)"
      "list_rep maxval s' pos' (rev zs @ drop n ts)" by blast
    then show ?thesis using False nx eq zs(1) n by (subst lrem_loop.simps) (auto simp: Cons_nth_drop_Suc)
  next
    case True
    define ts' where "ts' = take n ts @ drop (n + 1) ts"
    obtain s1 pos1 it1 where d: "listTypeDelete False s (pos n) = Some (s1, it1)" "list_rep maxval s1 pos1 ts'" "is_zip s1 = is_zip s"
      "it1 = iter_at s1 (if n = 0 then None else Some (pos1 (n - 1)))"
      using list_delete_ok [OF r n Suc.prems(8), of False] by (auto simp: ts'_def)
    obtain j where j: "k = j + 1" "rem_first (left_to_remove toremove (removed + 1)) (ref_bytes ob) (rev (take n ts)) = (ys, j)"
      using Suc.prems(10) left rv True by (auto split: prod.splits)
    have ln: "n \<le> length ts'" "take n ts' = take n ts" "drop n ts' = drop (Suc n) ts" using n by (simp_all add: ts'_def)
    show ?thesis
    proof (cases "toremove \<noteq> 0 \<and> removed + 1 = toremove")
      case last: True
      then have "left_to_remove toremove (removed + 1) = Some 0" by (simp add: left_to_remove_def)
      then have "j = 0" "ys = rev (take n ts)" using j(2) by (simp_all add: rem_first_0)
      then show ?thesis using True nx eq d(1,2) last j(1) by (subst lrem_loop.simps) (auto simp: ts'_def)
    next
      case more: False
      have pl: "\<forall>t \<in> set ts'. plain t" using Suc.prems(7) by (auto simp: ts'_def dest: in_set_takeD in_set_dropD)
      have c: "2 * zl_cost ts' + 64 < 2 ^ 31" using cost_delete [of n ts] Suc.prems(8) by (simp add: ts'_def)
      have lt: "removed + 1 < toremove \<or> toremove = 0" using more Suc.prems(9) by auto
      have raw: "is_zip s1 \<Longrightarrow> encoding_raw (ref_obj ob)" using Suc.prems(5) d(3) by simp
      from Suc.IH [OF d(2) ln(1) d(4) Suc.prems(4) raw Suc.prems(6) pl c lt, of ys j] j(2) ln(2,3) obtain s' pos' where
        "lrem_loop False ob toremove s1 it1 (removed + 1) = Some (s', removed + 1 + int j)" "list_rep maxval s' pos' (rev ys @ drop (Suc n) ts)" by auto
      then show ?thesis using True nx eq d(1) more j(1) by (subst lrem_loop.simps) auto
    qed
  qed
qed

text \<open>LREM: the first \<open>n\<close> occurrences, the last \<open>- n\<close> ones, or all.\<close>

definition lrem_of :: "int \<Rightarrow> 'a \<Rightarrow> 'a list \<Rightarrow> 'a list \<times> nat" where
  "lrem_of n t ts =
     (if n = 0 then rem_first None t ts
      else if n > 0 then rem_first (Some (nat n)) t ts
      else (case rem_first (Some (nat (- n))) t (rev ts) of (ys, k) \<Rightarrow> (rev ys, k)))"

lemma lrem_ok:
  assumes r: "list_rep maxval s pos ts" and ob: "ref_ok ob" "plain (ref_bytes ob)" and pl: "\<forall>t \<in> set ts. plain t"
    and bd: "2 * zl_cost ts + 64 < 2 ^ 31" and n: "INT32_MIN < n" and out: "lrem_of n (ref_bytes ob) ts = (ys, k)"
  shows "\<exists>s' pos'. lrem_object s n ob = Some (s', int k) \<and> list_rep maxval s' pos' ys"
proof -
  define enc where "enc = (case s of ListZip _ \<Rightarrow> map_option Own (getDecodedObject 0 (ref_obj ob)) | ListLinked _ \<Rightarrow> Some ob)"
  obtain ob' where ob': "enc = Some ob'" "ref_ok ob'" "ref_bytes ob' = ref_bytes ob" "is_zip s \<Longrightarrow> encoding_raw (ref_obj ob')"
  proof (cases s)
    case (ListZip zl)
    obtain d where d: "getDecodedObject 0 (ref_obj ob) = Some d" "obj_bytes d = obj_bytes (ref_obj ob)" "encoding_raw d"
      using getDecodedObject_bytes [of "ref_obj ob" 0] ob(1) by (auto simp: ref_ok_def)
    have ok: "obj_ok (ref_obj ob)" using ob(1) by (simp add: ref_ok_def)
    then have "o_type d = REDIS_STRING" using d(1)
      by (auto simp: getDecodedObject_def obj_ok_def createStringObject_def createObject_def incrRefCount_def split: obj_ptr.splits if_splits)
    then have "obj_ok d" using d(3) by (auto simp: obj_ok_def encoding_raw_def split: obj_ptr.splits)
    then show thesis using that [of "Own d"] ListZip d by (simp add: enc_def ref_ok_def ref_obj_def ref_text)
  next
    case (ListLinked xs)
    then show thesis using that [of ob] ob(1) by (simp add: enc_def is_zip_def)
  qed
  have run: "lrem_object s n ob = do { it \<leftarrow> listTypeInitIterator s (if n \<ge> 0 then 0 else -1); lrem_loop (n \<ge> 0) ob' \<bar>n\<bar> s it 0 }"
    using ob'(1) n by (simp add: lrem_object_def require_def enc_def [symmetric])
  have lt: "0 < \<bar>n\<bar> \<or> \<bar>n\<bar> = 0" by auto
  have pl': "plain (ref_bytes ob')" using ob(2) ob'(3) by simp
  have i: "INT32_MIN < (0 :: int)" "INT32_MIN < (-1 :: int)" by (simp_all add: c_limits)
  show ?thesis
  proof (cases "n \<ge> 0")
    case True
    define it where "it = iter_at s (map_option pos (index_pos (length ts) 0))"
    have "at_tail s pos ts 0 it" by (auto simp: it_def at_tail_def index_pos_def)
    moreover have "rem_first (left_to_remove \<bar>n\<bar> 0) (ref_bytes ob') (drop 0 ts) = (ys, k)"
      using out True ob'(3) by (auto simp: lrem_of_def left_to_remove_def split: if_splits)
    ultimately obtain s' pos' where "lrem_loop True ob' \<bar>n\<bar> s it 0 = Some (s', 0 + int k)" "list_rep maxval s' pos' (take 0 ts @ ys)"
      using lrem_tail_ok [OF r _ ob'(2,4) pl' pl bd lt] by blast
    then show ?thesis using run True init_ok [OF r i(1)] by (auto simp: it_def)
  next
    case False
    define it where "it = iter_at s (if length ts = 0 then None else Some (pos (length ts - 1)))"
    have "map_option pos (index_pos (length ts) (-1)) = (if length ts = 0 then None else Some (pos (length ts - 1)))"
      by (cases ts) (auto simp: index_pos_def nat_diff_distrib)
    then have init: "listTypeInitIterator s (-1) = Some it" using init_ok [OF r i(2)] by (simp add: it_def)
    obtain zs where zs: "rem_first (left_to_remove \<bar>n\<bar> 0) (ref_bytes ob') (rev (take (length ts) ts)) = (zs, k)" "ys = rev zs"
      using out False ob'(3) by (auto simp: lrem_of_def left_to_remove_def split: prod.splits)
    obtain s' pos' where "lrem_loop False ob' \<bar>n\<bar> s it 0 = Some (s', 0 + int k)" "list_rep maxval s' pos' (rev zs @ drop (length ts) ts)"
      using lrem_head_ok [OF r order_refl it_def ob'(2,4) pl' pl bd lt zs(1)] by blast
    then show ?thesis using run False init zs(2) by auto
  qed
qed

section \<open>LSET and LINSERT\<close>

text \<open>A text that may go anywhere into a ziplist: entries have no wide length fields, or it takes at least four
  bytes, as a text of two bytes or more and an integer do (\<open>insert_ok\<close>).\<close>

definition enough :: "nat \<Rightarrow> byte list \<Rightarrow> bool" where
  "enough maxval t \<longleftrightarrow> maxval \<le> 239 \<or> 2 \<le> length t \<or> (case zval_of t of ZInt n \<Rightarrow> True | ZStr u \<Rightarrow> False)"

lemma new_size_large:
  assumes "2 \<le> length t \<or> (case zval_of t of ZInt n \<Rightarrow> True | ZStr u \<Rightarrow> False)"
  shows "4 \<le> new_size es n t"
proof -
  have "3 \<le> length (zhead (zval_of t)) + length (payload (zval_of t))"
  proof (cases "zval_of t")
    case (ZStr u)
    then have "u = t" by (auto simp: zval_of_def split: option.splits prod.splits)
    then show ?thesis using ZStr assms zhead_nonempty [of "ZStr t"] by simp
  next
    case (ZInt v)
    then show ?thesis using zhead_nonempty [of "ZInt v"] by (simp add: zint_width_def)
  qed
  then show ?thesis by (auto simp: new_size_def prev_field_def)
qed

lemma zip_insert_ok:
  assumes es: "zl_rep zl es" "texts es = ts" "maxval \<le> 239 \<longrightarrow> slim es" and n: "n \<le> length ts"
    and t: "enough maxval t" "printable t" "maxval \<le> 239 \<longrightarrow> length t \<le> 239" and p: "\<forall>t \<in> set ts. printable t"
    and bd: "2 * zl_cost ts + length t + 64 < 2 ^ 32"
  shows "\<exists>zl' pos'. ziplistInsert zl (zl_pos es n) t = Some zl' \<and> list_rep maxval (ListZip zl') pos' (take n ts @ t # drop n ts)"
proof -
  have n': "n \<le> length es" "2 * zl_cost (texts es) + length t + 64 < 2 ^ 32" using n es(2) bd by auto
  have sz: "4 \<le> new_size es n t" if "n < length es" "fst (es ! n)"
    using es(3) t(1) that new_size_large [of t es n] by (auto simp: slim_def enough_def)
  from insert_ok [OF es(1) n'(1) sz n'(2)] obtain zl' es' where
    "u_ziplistInsert zl (zl_pos es n) t = Some zl'" "zl_rep zl' es'" "texts es' = take n (texts es) @ t # drop n (texts es)"
    "slim es \<and> length t \<le> 239 \<longrightarrow> slim es'" by blast
  moreover have "\<forall>u \<in> set (take n ts @ t # drop n ts). printable u" using p t(2) by (auto dest: in_set_takeD in_set_dropD)
  ultimately show ?thesis using es(2,3) t(3) unfolding list_rep_def ziplistInsert_def by auto
qed

lemma lset_ok:
  assumes r: "list_rep maxval s pos ts" and v: "ref_ok v" "printable (ref_bytes v)" "enough maxval (ref_bytes v)" and i: "INT32_MIN < i"
    and bd: "2 * zl_cost ts + length (ref_bytes v) + 64 < 2 ^ 31"
  shows "\<exists>s' pos'. lset_object maxval s i v = Some (s', index_pos (length ts) i \<noteq> None) \<and>
    list_rep maxval s' pos' (case index_pos (length ts) i of None \<Rightarrow> ts | Some n \<Rightarrow> ts[n := ref_bytes v])"
proof -
  obtain s1 pos1 where s1: "listTypeTryConversion maxval s v = Some s1" "list_rep maxval s1 pos1 ts" "is_zip s1 \<longrightarrow> fits_zip maxval v"
    using try_conversion_ok [OF r] by blast
  have c: "2 * zl_cost ts + 64 < 2 ^ 31" using bd by simp
  show ?thesis
  proof (cases s1)
    case (ListZip zl)
    then obtain es where es: "zl_rep zl es" "texts es = ts" "pos1 = zl_pos es" "maxval \<le> 239 \<longrightarrow> slim es" using s1(2) by (auto elim: list_rep_zipE)
    have l: "length es = length ts" using es(2) by auto
    show ?thesis
    proof (cases "index_pos (length ts) i")
      case None
      then show ?thesis using s1 ListZip ziplistIndex_ok [OF es(1) i] l by (auto simp: lset_object_def)
    next
      case (Some n)
      then have n: "n < length ts" by (rule index_pos_less)
      have "2 * zl_cost (texts es) + 64 < 2 ^ 31" using c es(2) by simp
      from delete_ok [OF es(1) _ this, of n 1] n l obtain zl' es' where d: "u_ziplistDelete zl (zl_pos es n) 1 = Some zl'" "zl_rep zl' es'"
        "texts es' = take n ts @ drop (n + 1) ts" "take n es' = take n es" "slim es \<longrightarrow> slim es'" using es(2) by auto
      have sh: "maxval \<le> 239 \<longrightarrow> length (ref_bytes v) \<le> 239" "maxval \<le> 239 \<longrightarrow> slim es'"
        using ListZip s1(3) fits_zip_short [OF _ v(1)] d(5) es(4) by (auto simp: is_zip_def)
      have p: "\<forall>t \<in> set (take n ts @ drop (n + 1) ts). printable t"
        using list_rep_printable [OF r] by (auto dest: in_set_takeD in_set_dropD)
      have c': "2 * zl_cost (take n ts @ drop (n + 1) ts) + length (ref_bytes v) + 64 < 2 ^ 32" "n \<le> length (take n ts @ drop (n + 1) ts)"
        using bd cost_delete [of n ts] n by auto
      obtain zl2 pos2 where "ziplistInsert zl' (zl_pos es' n) (ref_bytes v) = Some zl2"
        "list_rep maxval (ListZip zl2) pos2 (take n (take n ts @ drop (n + 1) ts) @ ref_bytes v # drop n (take n ts @ drop (n + 1) ts))"
        using zip_insert_ok [OF d(2,3) sh(2) c'(2) v(3,2) sh(1) p c'(1)] by blast
      moreover have "zl_pos es' n = zl_pos es n" using d(4) by (simp add: zl_pos_def)
      moreover have "take n (take n ts @ drop (n + 1) ts) @ ref_bytes v # drop n (take n ts @ drop (n + 1) ts) = ts[n := ref_bytes v]"
        using n by (simp add: upd_conv_take_nth_drop)
      ultimately show ?thesis using s1(1) ListZip ziplistIndex_ok [OF es(1) i] l Some d(1) decoded_sds_ok [OF v(1)]
        by (auto simp: lset_object_def ziplistDelete_def)
    qed
  next
    case (ListLinked xs)
    then have x: "\<forall>x \<in> set xs. ref_ok x" "map ref_bytes xs = ts" "\<forall>t \<in> set ts. printable t" using s1(2) by (auto elim: list_rep_linkedE)
    have l: "length xs = length ts" using x(2) by auto
    have "list_rep maxval (ListLinked (xs[n := v])) id (ts[n := ref_bytes v])" for n
      using x v(1,2) by (auto simp: list_rep_def map_update dest!: set_update_subset_insert [THEN subsetD])
    then show ?thesis using s1 ListLinked listIndex_ok [OF i, of xs] l
      by (cases "index_pos (length ts) i") (auto simp: lset_object_def)
  qed
qed

text \<open>The text next to the first occurrence of another.\<close>

fun linsert_of :: "bool \<Rightarrow> 'a \<Rightarrow> 'a \<Rightarrow> 'a list \<Rightarrow> 'a list \<times> bool" where
  "linsert_of to_tail ref t [] = ([], False)"
| "linsert_of to_tail ref t (x # xs) =
     (if x = ref then (if to_tail then x # t # xs else t # x # xs, True)
      else (case linsert_of to_tail ref t xs of (ys, b) \<Rightarrow> (x # ys, b)))"

lemma list_insert_ok:
  assumes r: "list_rep maxval s pos ts" and n: "n < length ts" and v: "ref_ok v" "printable (ref_bytes v)" "enough maxval (ref_bytes v)"
    and fz: "is_zip s \<longrightarrow> fits_zip maxval v"
    and bd: "2 * zl_cost ts + length (ref_bytes v) + 64 < 2 ^ 31"
  shows "\<exists>s' pos'. listTypeInsert s (pos n) v to_tail = Some s' \<and>
    list_rep maxval s' pos' (take (if to_tail then n + 1 else n) ts @ ref_bytes v # drop (if to_tail then n + 1 else n) ts)"
proof (cases s)
  case (ListZip zl)
  then obtain es where es: "zl_rep zl es" "texts es = ts" "pos = zl_pos es" "maxval \<le> 239 \<longrightarrow> slim es" using r by (auto elim: list_rep_zipE)
  have l: "length es = length ts" using es(2) by auto
  have c: "2 * zl_cost ts + length (ref_bytes v) + 64 < 2 ^ 32" using bd by simp
  have sh: "maxval \<le> 239 \<longrightarrow> length (ref_bytes v) \<le> 239" using ListZip fz fits_zip_short [OF _ v(1)] by (auto simp: is_zip_def)
  note ins = zip_insert_ok [OF es(1,2,4) _ v(3,2) sh list_rep_printable [OF r] c]
  show ?thesis
  proof (cases "to_tail \<and> n + 1 = length ts")
    case True
    have "2 * zl_cost (texts es) + length (ref_bytes v) + 64 < 2 ^ 32" using c es(2) by simp
    from push_ok [OF es(1) this, of False] obtain zl' es' where p: "ziplistPush zl (ref_bytes v) False = Some zl'" "zl_rep zl' es'"
      "texts es' = ts @ [ref_bytes v]" "slim es \<and> length (ref_bytes v) \<le> 239 \<longrightarrow> slim es'" using es(2) by auto
    then have "list_rep maxval (ListZip zl') (zl_pos es') (ts @ [ref_bytes v])" using list_rep_printable [OF r] v(2) es(4) sh by (auto simp: list_rep_def)
    then show ?thesis using True ListZip es(3) p(1) ziplistNext_ok [OF es(1), of n] n l decoded_sds_ok [OF v(1)]
      by (auto simp: listTypeInsert_def)
  next
    case False
    then show ?thesis using ListZip es(3) ziplistNext_ok [OF es(1), of n] n l decoded_sds_ok [OF v(1)] ins [of "n + 1"] ins [of n]
      by (auto simp: listTypeInsert_def)
  qed
next
  case (ListLinked xs)
  then have x: "\<forall>x \<in> set xs. ref_ok x" "map ref_bytes xs = ts" "\<forall>t \<in> set ts. printable t" using r by (auto elim: list_rep_linkedE)
  have "pos n = n" using r ListLinked by (auto elim: list_rep_linkedE)
  moreover have "list_rep maxval (ListLinked (take k xs @ v # drop k xs)) id (take k ts @ ref_bytes v # drop k ts)" for k
    using x v(1,2) by (auto simp: list_rep_def take_map drop_map dest: in_set_takeD in_set_dropD)
  ultimately show ?thesis using ListLinked by (auto simp: listTypeInsert_def Let_def)
qed

lemma linsert_loop_ok:
  assumes r: "list_rep maxval s pos ts" and v: "ref_ok v" "printable (ref_bytes v)" "enough maxval (ref_bytes v)"
    and fz: "is_zip s \<longrightarrow> fits_zip maxval v"
    and rf: "ref_ok rf" "encoding_raw (ref_obj rf)" "plain (ref_bytes rf)" and pl: "\<forall>t \<in> set ts. plain t"
    and bd: "2 * zl_cost ts + length (ref_bytes v) + 64 < 2 ^ 31" and n: "n \<le> length ts"
    and out: "linsert_of to_tail (ref_bytes rf) (ref_bytes v) (drop n ts) = (ys, b)"
  shows "\<exists>s' pos'. linsert_loop s (iter_at s (if n < length ts then Some (pos n) else None)) rf v to_tail = Some (s', b) \<and>
    list_rep maxval s' pos' (take n ts @ ys)"
  using n out
proof (induction "length ts - n" arbitrary: n ys)
  case 0
  then show ?case using r by (subst linsert_loop.simps) (auto simp: next_none)
next
  case (Suc m)
  then have n: "n < length ts" by simp
  have nx: "listTypeNext True s (iter_at s (Some (pos n))) = Some (Some (pos n), iter_at s (if n + 1 < length ts then Some (pos (n + 1)) else None))"
    using next_ok [OF r n, of True] by (simp add: node_next_def)
  have eq: "listTypeEqual s (pos n) rf = Some (ts ! n = ref_bytes rf)"
    using rf pl n by (intro list_equal_ok [OF r n]) auto
  have dr: "drop n ts = ts ! n # drop (n + 1) ts" using n by (simp add: Cons_nth_drop_Suc)
  show ?case
  proof (cases "ts ! n = ref_bytes rf")
    case True
    obtain s' pos' where i: "listTypeInsert s (pos n) v to_tail = Some s'"
      "list_rep maxval s' pos' (take (if to_tail then n + 1 else n) ts @ ref_bytes v # drop (if to_tail then n + 1 else n) ts)"
      using list_insert_ok [OF r n v fz bd] by blast
    have "take n ts @ ys = take (if to_tail then n + 1 else n) ts @ ref_bytes v # drop (if to_tail then n + 1 else n) ts" "b"
      using Suc.prems(2) True dr n by (auto simp: take_Suc_conv_app_nth Cons_nth_drop_Suc split: if_splits)
    then show ?thesis using i nx eq True n by (subst linsert_loop.simps) auto
  next
    case False
    then obtain zs where zs: "ys = ts ! n # zs" "linsert_of to_tail (ref_bytes rf) (ref_bytes v) (drop (n + 1) ts) = (zs, b)"
      using Suc.prems(2) dr by (auto split: prod.splits)
    have "m = length ts - (n + 1)" "n + 1 \<le> length ts" using Suc.hyps(2) n by simp_all
    from Suc.hyps(1) [OF this zs(2)] obtain s' pos' where
      "linsert_loop s (iter_at s (if n + 1 < length ts then Some (pos (n + 1)) else None)) rf v to_tail = Some (s', b)"
      "list_rep maxval s' pos' (take (n + 1) ts @ zs)" by blast
    then show ?thesis using nx eq False n zs(1) by (subst linsert_loop.simps) (auto simp: take_Suc_conv_app_nth)
  qed
qed

lemma linsert_ok:
  assumes r: "list_rep maxval s pos ts" and v: "ref_ok v" "printable (ref_bytes v)" "enough maxval (ref_bytes v)"
    and rf: "ref_ok rf" "encoding_raw (ref_obj rf)" "plain (ref_bytes rf)" and pl: "\<forall>t \<in> set ts. plain t"
    and bd: "2 * zl_cost ts + length (ref_bytes v) + 64 < 2 ^ 31"
    and out: "linsert_of to_tail (ref_bytes rf) (ref_bytes v) ts = (ys, b)"
  shows "\<exists>s' pos'. linsert_object maxval maxent s rf v to_tail = Some (s', b) \<and> list_rep maxval s' pos' ys"
proof -
  obtain s1 pos1 where s1: "listTypeTryConversion maxval s v = Some s1" "list_rep maxval s1 pos1 ts" "is_zip s1 \<longrightarrow> fits_zip maxval v"
    using try_conversion_ok [OF r] by blast
  have "map_option pos1 (index_pos (length ts) 0) = (if 0 < length ts then Some (pos1 0) else None)" by (simp add: index_pos_def)
  then have it: "listTypeInitIterator s1 0 = Some (iter_at s1 (if 0 < length ts then Some (pos1 0) else None))"
    using init_ok [OF s1(2), of 0] by (simp add: c_limits)
  obtain s2 pos2 where s2: "linsert_loop s1 (iter_at s1 (if 0 < length ts then Some (pos1 0) else None)) rf v to_tail = Some (s2, b)"
    "list_rep maxval s2 pos2 ys" using linsert_loop_ok [OF s1(2) v s1(3) rf pl bd, of 0 to_tail ys b] out by auto
  define grow where "grow = (case s2 of
                ListZip zl \<Rightarrow>
                  if b then do {
                    (zl, n) \<leftarrow> ziplistLen zl;
                    if n > maxent then listTypeConvert (ListZip zl) else Some (ListZip zl) }
                  else Some s2
              | ListLinked _ \<Rightarrow> Some s2)"
  have run: "linsert_object maxval maxent s rf v to_tail = do { s \<leftarrow> grow; Some (s, b) }"
    using s1(1) it s2(1) unfolding grow_def by (simp add: linsert_object_def del: length_greater_0_conv)
  show ?thesis
  proof (cases s2)
    case (ListZip zl)
    then obtain es where es: "zl_rep zl es" "texts es = ys" "maxval \<le> 239 \<longrightarrow> slim es" using s2(2) by (auto elim: list_rep_zipE)
    obtain zl' where zl': "ziplistLen zl = Some (zl', length es)" "zl_rep zl' es" using ziplistLen_ok [OF es(1)] by blast
    then have z: "list_rep maxval (ListZip zl') (zl_pos es) ys" using es list_rep_printable [OF s2(2)] by (auto simp: list_rep_def)
    obtain xs where "listTypeConvert (ListZip zl') = Some (ListLinked xs)" "list_rep maxval (ListLinked xs) id ys"
      using list_convert_ok [OF z] by blast
    then show ?thesis using run ListZip zl'(1) z s2(2) by (auto simp: grow_def)
  next
    case (ListLinked xs)
    then show ?thesis using run s2(2) by (auto simp: grow_def)
  qed
qed

section \<open>Sequences of commands\<close>

text \<open>An argument of a command, encoded as an integer when it is one.\<close>

definition arg_ref :: "int \<Rightarrow> byte list \<Rightarrow> obj_ref option" where
  "arg_ref maxmemory b = tryObjectEncoding True maxmemory (createStringObject 0 b)"

lemma arg_ref_ok:
  assumes "printable b"
  shows "\<exists>r. arg_ref m b = Some r \<and> ref_ok r \<and> ref_bytes r = b"
proof (cases "string2ll b")
  case None
  then show ?thesis
    by (simp add: arg_ref_def tryObjectEncoding_def createStringObject_def createObject_def string2l_long ref_ok_def ref_obj_def obj_ok_def obj_bytes_def)
next
  case (Some n)
  then have n: "LLONG_MIN \<le> n" "n \<le> LLONG_MAX" "b = dec_repr n" using string2ll_dec_repr by blast+
  then have "n \<noteq> LLONG_MIN" using assms by (auto simp: printable_def)
  then show ?thesis using Some n
    by (cases "m = 0 \<and> 0 \<le> n \<and> n < REDIS_SHARED_INTEGERS")
      (auto simp: arg_ref_def tryObjectEncoding_def createStringObject_def createObject_def string2l_long ref_ok_def ref_obj_def obj_ok_def obj_bytes_def)
qed

lemma raw_arg: "ref_ok (Own (createStringObject 0 b))" "ref_bytes (Own (createStringObject 0 b)) = b"
  "encoding_raw (ref_obj (Own (createStringObject 0 b)))"
  by (simp_all add: ref_ok_def ref_obj_def createStringObject_def createObject_def obj_ok_def obj_bytes_def encoding_raw_def)

datatype list_op = LPush "byte list" bool | LPop bool | LLen | LIndex int | LRange int int | LTrim int int | LRem int "byte list"
  | LSet int "byte list" | LInsert bool "byte list" "byte list"

datatype list_answer = LDone | LNum int | LFlag bool | LText "byte list option" | LTexts "byte list list"

text \<open>The work of the commands on an object, with \<open>mem\<close>, \<open>maxval\<close> and \<open>maxent\<close> the settings of the server.\<close>

fun lobj_exec :: "int \<Rightarrow> nat \<Rightarrow> nat \<Rightarrow> list_op \<Rightarrow> list_obj \<Rightarrow> (list_obj \<times> list_answer) option" where
  "lobj_exec mem maxval maxent (LPush b h) s = do { v \<leftarrow> arg_ref mem b; s \<leftarrow> listTypePush maxval maxent s v h; Some (s, LDone) }"
| "lobj_exec mem maxval maxent (LPop h) s = do { (s, v) \<leftarrow> listTypePop s h; Some (s, LText (map_option ref_bytes v)) }"
| "lobj_exec mem maxval maxent LLen s = do { (s, n) \<leftarrow> listTypeLength s; Some (s, LNum (int n)) }"
| "lobj_exec mem maxval maxent (LIndex i) s = do { v \<leftarrow> lindex_object s i; Some (s, LText (map_option ref_bytes v)) }"
| "lobj_exec mem maxval maxent (LRange a b) s = do { (s, obs) \<leftarrow> lrange_object s a b; Some (s, LTexts (map ref_bytes obs)) }"
| "lobj_exec mem maxval maxent (LTrim a b) s = do { s \<leftarrow> ltrim_object s a b; Some (s, LDone) }"
| "lobj_exec mem maxval maxent (LRem n b) s = do { v \<leftarrow> arg_ref mem b; (s, k) \<leftarrow> lrem_object s n v; Some (s, LNum k) }"
| "lobj_exec mem maxval maxent (LSet i b) s =
     do { v \<leftarrow> arg_ref mem b; (s, k) \<leftarrow> lset_object maxval s i v; Some (s, LFlag k) }"
| "lobj_exec mem maxval maxent (LInsert t r b) s =
     do { v \<leftarrow> arg_ref mem b;
          (s, k) \<leftarrow> linsert_object maxval maxent s (Own (createStringObject 0 r)) v t;
          Some (s, LFlag k) }"

fun texts_exec :: "list_op \<Rightarrow> byte list list \<Rightarrow> byte list list \<times> list_answer" where
  "texts_exec (LPush b h) ts = (if h then b # ts else ts @ [b], LDone)"
| "texts_exec (LPop h) ts =
     (if ts = [] then ([], LText None) else if h then (tl ts, LText (Some (hd ts))) else (butlast ts, LText (Some (last ts))))"
| "texts_exec LLen ts = (ts, LNum (int (length ts)))"
| "texts_exec (LIndex i) ts = (ts, LText (map_option (\<lambda>n. ts ! n) (index_pos (length ts) i)))"
| "texts_exec (LRange a b) ts = (ts, LTexts (range_of a b ts))"
| "texts_exec (LTrim a b) ts = (range_of a b ts, LDone)"
| "texts_exec (LRem n b) ts = (case lrem_of n b ts of (ys, k) \<Rightarrow> (ys, LNum (int k)))"
| "texts_exec (LSet i b) ts =
     (case index_pos (length ts) i of None \<Rightarrow> (ts, LFlag False) | Some n \<Rightarrow> (ts[n := b], LFlag True))"
| "texts_exec (LInsert t r b) ts = (case linsert_of t r b ts of (ys, f) \<Rightarrow> (ys, LFlag f))"

fun lobj_run :: "int \<Rightarrow> nat \<Rightarrow> nat \<Rightarrow> list_op list \<Rightarrow> list_obj \<Rightarrow> (list_obj \<times> list_answer list) option" where
  "lobj_run mem maxval maxent [] s = Some (s, [])"
| "lobj_run mem maxval maxent (x # xs) s =
     do { (s, a) \<leftarrow> lobj_exec mem maxval maxent x s; (s, as) \<leftarrow> lobj_run mem maxval maxent xs s; Some (s, a # as) }"

fun texts_run :: "list_op list \<Rightarrow> byte list list \<Rightarrow> byte list list \<times> list_answer list" where
  "texts_run [] ts = (ts, [])"
| "texts_run (x # xs) ts = (let (ts, a) = texts_exec x ts; (ts, as) = texts_run xs ts in (ts, a # as))"

text \<open>Arguments: the indexes are not the least \<^verbatim>\<open>int\<close>; the texts are not the least \<^verbatim>\<open>long long\<close> and are
  not a number up to a NUL byte; and where values longer than 239 bytes may be in a ziplist, a text that may go into the
  middle of it has two bytes at least or is stored as an integer.\<close>

definition text_ok :: "byte list \<Rightarrow> bool" where "text_ok b \<longleftrightarrow> printable b \<and> plain b"

fun lop_ok :: "nat \<Rightarrow> list_op \<Rightarrow> bool" where
  "lop_ok maxval (LPush b h) \<longleftrightarrow> text_ok b"
| "lop_ok maxval (LIndex i) \<longleftrightarrow> INT32_MIN < i"
| "lop_ok maxval (LRem n b) \<longleftrightarrow> INT32_MIN < n \<and> text_ok b"
| "lop_ok maxval (LSet i b) \<longleftrightarrow> INT32_MIN < i \<and> text_ok b \<and> enough maxval b"
| "lop_ok maxval (LInsert t r b) \<longleftrightarrow> plain r \<and> text_ok b \<and> enough maxval b"
| "lop_ok maxval _ \<longleftrightarrow> True"

fun lop_cost :: "list_op \<Rightarrow> nat" where
  "lop_cost (LPush b h) = length b + 14"
| "lop_cost (LSet i b) = length b + 14"
| "lop_cost (LInsert t r b) = length b + 14"
| "lop_cost _ = 0"

text \<open>No command makes the list longer than its cost.\<close>

lemma zl_cost_rem_first: "rem_first k t ts = (ys, n) \<Longrightarrow> zl_cost ys \<le> zl_cost ts \<and> set ys \<subseteq> set ts"
proof (induction ts arbitrary: k ys n)
  case (Cons x xs)
  consider "k = Some 0" | "k \<noteq> Some 0" "x = t" | "k \<noteq> Some 0" "x \<noteq> t" by blast
  then show ?case
  proof cases
    case 1
    then show ?thesis using Cons.prems by simp
  next
    case 2
    then obtain m where "rem_first (map_option (\<lambda>k. k - 1) k) t xs = (ys, m)" using Cons.prems by (auto split: prod.splits)
    from Cons.IH [OF this] show ?thesis by auto
  next
    case 3
    then obtain zs where "rem_first k t xs = (zs, n)" "ys = x # zs" using Cons.prems by (auto split: prod.splits)
    with Cons.IH [OF this(1)] show ?thesis by auto
  qed
qed simp

lemma zl_cost_rev: "zl_cost (rev ts) = zl_cost ts"
  by (simp add: zl_cost_def rev_map [symmetric])

lemma lrem_of_shrinks:
  assumes "lrem_of n t ts = (ys, k)"
  shows "zl_cost ys \<le> zl_cost ts \<and> set ys \<subseteq> set ts"
proof (cases "n \<ge> 0")
  case True
  then obtain c where "rem_first c t ts = (ys, k)" using assms by (auto simp: lrem_of_def split: if_splits)
  then show ?thesis by (rule zl_cost_rem_first)
next
  case False
  then obtain zs where "rem_first (Some (nat (- n))) t (rev ts) = (zs, k)" "ys = rev zs"
    using assms by (auto simp: lrem_of_def split: prod.splits)
  with zl_cost_rem_first [OF this(1)] show ?thesis by (simp add: zl_cost_rev)
qed

lemma range_of_shrinks: "zl_cost (range_of a b ts) \<le> zl_cost ts \<and> set (range_of a b ts) \<subseteq> set ts"
proof -
  have "zl_cost (take m xs) \<le> zl_cost xs" for m xs
    by (metis append_take_drop_id zl_cost_simps(3) le_add1)
  then have "zl_cost (take m (drop k ts)) \<le> zl_cost ts" for m k
    using zl_cost_take_drop [of 0 k ts] order_trans by fastforce
  then show ?thesis by (auto simp: range_of_def Let_def dest: in_set_takeD in_set_dropD)
qed

lemma linsert_of_grows: "linsert_of tt r b ts = (ys, f) \<Longrightarrow> zl_cost ys \<le> zl_cost ts + length b + 14 \<and> set ys \<subseteq> insert b (set ts)"
proof (induction ts arbitrary: ys)
  case (Cons x xs)
  show ?case
  proof (cases "x = r")
    case True
    then show ?thesis using Cons.prems by (auto split: if_splits)
  next
    case False
    then obtain zs where "linsert_of tt r b xs = (zs, f)" "ys = x # zs" using Cons.prems by (auto split: prod.splits)
    with Cons.IH [OF this(1)] show ?thesis by auto
  qed
qed auto

lemma zl_cost_update: "n < length ts \<Longrightarrow> zl_cost (ts[n := b]) \<le> zl_cost ts + length b + 14"
proof -
  assume n: "n < length ts"
  then have "ts[n := b] = take n ts @ b # drop (Suc n) ts" by (rule upd_conv_take_nth_drop)
  then show ?thesis using cost_delete [of n ts] by simp
qed

lemma zl_cost_ends: "zl_cost (tl ts) \<le> zl_cost ts" "zl_cost (butlast ts) \<le> zl_cost ts"
  by (cases ts; simp) (cases ts rule: rev_cases; simp)

lemma texts_exec_step:
  assumes "lop_ok maxval x" and "\<forall>t \<in> set ts. text_ok t" and "texts_exec x ts = (ts', a)"
  shows "zl_cost ts' \<le> zl_cost ts + lop_cost x" and "\<forall>t \<in> set ts'. text_ok t"
proof -
  have "zl_cost ts' \<le> zl_cost ts + lop_cost x \<and> (\<forall>t \<in> set ts'. text_ok t)"
  proof (cases x)
    case (LPop h)
    then have "ts' = [] \<or> ts \<noteq> [] \<and> (ts' = tl ts \<or> ts' = butlast ts)" using assms(3) by (auto split: if_splits)
    moreover have "set (tl ts) \<subseteq> set ts" if "ts \<noteq> []" using list.set_sel(2) [OF that] by blast
    moreover have "set (butlast ts) \<subseteq> set ts" using in_set_butlastD by fast
    ultimately show ?thesis using assms(2) zl_cost_ends [of ts] zl_cost_simps(1) by fastforce
  next
    case (LTrim c d)
    then show ?thesis using assms(2,3) range_of_shrinks [of c d ts] by auto
  next
    case (LRem n b)
    then obtain k where "lrem_of n b ts = (ts', k)" using assms(3) by (auto split: prod.splits)
    then show ?thesis using assms(2) lrem_of_shrinks by fastforce
  next
    case (LSet i b)
    show ?thesis
    proof (cases "index_pos (length ts) i")
      case None
      then show ?thesis using LSet assms(2,3) by simp
    next
      case (Some n)
      then have "ts' = ts[n := b]" "n < length ts" using LSet assms(3) index_pos_less by auto
      then show ?thesis using LSet assms(1,2) zl_cost_update [of n ts b] set_update_subset_insert [of ts n b] by auto
    qed
  next
    case (LInsert t r b)
    then obtain f where "linsert_of t r b ts = (ts', f)" using assms(3) by (auto split: prod.splits)
    then show ?thesis using assms(1,2) linsert_of_grows [of t r b ts ts' f] LInsert by auto
  qed (use assms in \<open>auto split: if_splits\<close>)
  then show "zl_cost ts' \<le> zl_cost ts + lop_cost x" "\<forall>t \<in> set ts'. text_ok t" by blast+
qed

lemma length_le_cost: "14 * length ts \<le> zl_cost ts"
  by (induction ts) auto

lemma lobj_exec_ok:
  assumes r: "list_rep maxval s pos ts" and pl: "\<forall>t \<in> set ts. text_ok t" and ok: "lop_ok maxval x"
    and bd: "2 * zl_cost ts + 2 * lop_cost x + 64 < 2 ^ 31"
  shows "\<exists>s' pos'. lobj_exec mem maxval maxent x s = Some (s', snd (texts_exec x ts)) \<and> list_rep maxval s' pos' (fst (texts_exec x ts))"
proof -
  have b: "2 * zl_cost ts + 64 < 2 ^ 31" using bd by simp
  have len: "length ts < 2147483647" "length ts < 2 ^ 31" using b length_le_cost [of ts] by simp_all
  have pl': "\<forall>t \<in> set ts. plain t" using pl by (simp add: text_ok_def)
  show ?thesis
  proof (cases x)
    case (LPush t h)
    then obtain v where v: "arg_ref mem t = Some v" "ref_ok v" "ref_bytes v = t" using ok arg_ref_ok [of t mem] by (auto simp: text_ok_def)
    have "printable (ref_bytes v)" "2 * zl_cost ts + length (ref_bytes v) + 64 < 2 ^ 32" using LPush ok bd v(3) by (simp_all add: text_ok_def)
    from list_push_ok [OF r v(2) this, of maxent h] show ?thesis using LPush v by auto
  next
    case (LPop h)
    obtain s' pos' v where p: "listTypePop s h = Some (s', v)" "list_rep maxval s' pos' (if ts = [] then [] else if h then tl ts else butlast ts)"
      "map_option ref_bytes v = (if ts = [] then None else Some (if h then hd ts else last ts))" using list_pop_ok [OF r b] by blast
    show ?thesis using LPop p by (cases "ts = []"; cases h) auto
  next
    case LLen
    then show ?thesis using list_length_ok [OF r] by auto
  next
    case (LIndex i)
    then show ?thesis using lindex_ok [OF r, of i] ok r by auto
  next
    case (LRange c d)
    then show ?thesis using lrange_ok [OF r len(2), of c d] by auto
  next
    case (LTrim c d)
    then show ?thesis using ltrim_ok [OF r b len(1), of c d] by auto
  next
    case (LRem n t)
    then obtain v where v: "arg_ref mem t = Some v" "ref_ok v" "ref_bytes v = t" using ok arg_ref_ok [of t mem] by (auto simp: text_ok_def)
    obtain ys k where yk: "lrem_of n t ts = (ys, k)" by (cases "lrem_of n t ts")
    have "plain (ref_bytes v)" "INT32_MIN < n" "lrem_of n (ref_bytes v) ts = (ys, k)" using LRem ok v(3) yk by (simp_all add: text_ok_def)
    from lrem_ok [OF r v(2) this(1) pl' b this(2,3)] show ?thesis using LRem v(1) yk by auto
  next
    case (LSet i t)
    then obtain v where v: "arg_ref mem t = Some v" "ref_ok v" "ref_bytes v = t" using ok arg_ref_ok [of t mem] by (auto simp: text_ok_def)
    have "printable (ref_bytes v)" "enough maxval (ref_bytes v)" "INT32_MIN < i" "2 * zl_cost ts + length (ref_bytes v) + 64 < 2 ^ 31"
      using LSet ok v(3) bd by (simp_all add: text_ok_def)
    from lset_ok [OF r v(2) this] show ?thesis using LSet v(1,3) by (cases "index_pos (length ts) i") auto
  next
    case (LInsert tt rf t)
    then obtain v where v: "arg_ref mem t = Some v" "ref_ok v" "ref_bytes v = t" using ok arg_ref_ok [of t mem] by (auto simp: text_ok_def)
    let ?rf = "Own (createStringObject 0 rf)"
    obtain ys f where yf: "linsert_of tt rf t ts = (ys, f)" by (cases "linsert_of tt rf t ts")
    have p: "printable (ref_bytes v)" "enough maxval (ref_bytes v)" "2 * zl_cost ts + length (ref_bytes v) + 64 < 2 ^ 31"
      "linsert_of tt (ref_bytes ?rf) (ref_bytes v) ts = (ys, f)" "plain (ref_bytes ?rf)"
      using LInsert ok v(3) bd yf raw_arg(2) [of rf] by (simp_all add: text_ok_def)
    from linsert_ok [OF r v(2) p(1,2) raw_arg(1,3) p(5) pl' p(3,4), of maxent] show ?thesis using LInsert v(1) yf by auto
  qed
qed

lemma lobj_run_ok:
  assumes "list_rep maxval s pos ts" and "\<forall>t \<in> set ts. text_ok t" and "\<forall>x \<in> set xs. lop_ok maxval x"
    and "2 * zl_cost ts + 2 * sum_list (map lop_cost xs) + 64 < 2 ^ 31"
  shows "\<exists>s' pos'. lobj_run mem maxval maxent xs s = Some (s', snd (texts_run xs ts)) \<and> list_rep maxval s' pos' (fst (texts_run xs ts))"
  using assms
proof (induction xs arbitrary: s pos ts)
  case (Cons x xs)
  obtain ts1 a where t: "texts_exec x ts = (ts1, a)" by (cases "texts_exec x ts")
  have x: "lop_ok maxval x" "2 * zl_cost ts + 2 * lop_cost x + 64 < 2 ^ 31" using Cons.prems(3,4) by simp_all
  obtain s1 pos1 where 1: "lobj_exec mem maxval maxent x s = Some (s1, a)" "list_rep maxval s1 pos1 ts1"
    using lobj_exec_ok [OF Cons.prems(1,2) x, of mem maxent] t by auto
  note st = texts_exec_step [OF x(1) Cons.prems(2) t]
  have "2 * zl_cost ts1 + 2 * sum_list (map lop_cost xs) + 64 < 2 ^ 31" using st(1) Cons.prems(4) by simp
  from Cons.IH [OF 1(2) st(2) _ this] Cons.prems(3) obtain s2 pos2 where
    "lobj_run mem maxval maxent xs s1 = Some (s2, snd (texts_run xs ts1))" "list_rep maxval s2 pos2 (fst (texts_run xs ts1))" by auto
  then show ?case using 1(1) t by (auto simp: Let_def split: prod.splits)
qed auto

text \<open>C24: A list object answers any sequence of pushes, pops, LLEN, LINDEX, LRANGE, LTRIM, LREM, LSET and LINSERT as the
  list of its texts does, whatever the limits of the ziplist (\<open>maxval\<close>, \<open>maxent\<close>) are and whenever it becomes a linked
  list. Excluded are: texts that are a number up to a NUL byte, which LREM and LINSERT compare differently in the two
  encodings (C26); one-byte and empty values of LSET and LINSERT that are not digits where values of more than 239
  bytes are let into a ziplist (\<open>maxval\<close> is 64 by default), as they may destroy a byte of it (C33); the text of the
  least \<^verbatim>\<open>long long\<close> and the least \<^verbatim>\<open>int\<close> as an index, whose negation overflows; and sequences that insert 1 GB of text and more.\<close>

theorem list_object_refines_list:
  assumes "\<forall>x \<in> set xs. lop_ok maxval x" and "2 * sum_list (map lop_cost xs) + 64 < 2 ^ 31"
  shows "\<exists>s. do { s \<leftarrow> createZiplistObject; lobj_run mem maxval maxent xs s } = Some (s, snd (texts_run xs []))"
proof -
  obtain zl where zl: "ziplistNew = Some zl" "zl_rep zl []" using ziplistNew_ok by blast
  then have r: "list_rep maxval (ListZip zl) (zl_pos []) []" by (auto simp: list_rep_def intro!: exI [of _ "[]"])
  have "\<forall>t \<in> set []. text_ok t" "2 * zl_cost [] + 2 * sum_list (map lop_cost xs) + 64 < 2 ^ 31" using assms(2) by simp_all
  from lobj_run_ok [OF r this(1) assms(1) this(2), of mem maxent] obtain s' where
    "lobj_run mem maxval maxent xs (ListZip zl) = Some (s', snd (texts_run xs []))" by blast
  then show ?thesis unfolding createZiplistObject_def zl(1) by simp
qed

text \<open>A push, LINSERT of a text with a NUL byte before an element, LSET of a one-byte text, and the conversion that a
  fourth element causes, with LREM and LRANGE after it.\<close>

lemma list_object_refines_list_witness:
  "\<exists>s. do { s \<leftarrow> createZiplistObject; lobj_run 0 64 3 [LPush [97] False, LPush [98, 98] True, LInsert False [97] [99, 0, 99],
       LSet 0 [100], LPush [97] False, LRem (-1) [97], LRange 0 (-1)] s } =
     Some (s, [LDone, LDone, LFlag True, LFlag True, LDone, LNum 1, LTexts [[100], [99, 0, 99], [97]]])"
proof -
  have n: "string2ll [99] = None" by (simp add: string2ll_def isdigit_def digit_val_def c_limits Let_def to_u64_def)
  have h: "\<forall>x \<in> set [LPush [97] False, LPush [98, 98] True, LInsert False [97] [99, 0, 99], LSet 0 [100], LPush [97] False,
      LRem (-1) [97], LRange 0 (-1)]. lop_ok 64 x"
    using n by (auto simp: text_ok_def plain_def c_str_def enough_def c_limits intro!: printable_hd)
  show ?thesis using list_object_refines_list [OF h, of 0 3] by (simp add: index_pos_def lrem_of_def range_of_def Let_def)
qed

section \<open>NUL bytes\<close>

definition nul_text :: "byte list" where "nul_text = [49, 48, 0, 120]"

lemma nul_args:
  "arg_ref 0 nul_text = Some (Own (createStringObject 0 nul_text))" "arg_ref 0 [49, 48] = Some (SharedInt 10)"
proof -
  have "string2ll nul_text = None" by (simp add: string2ll_def nul_text_def isdigit_def digit_val_def c_limits Let_def to_u64_def)
  then show "arg_ref 0 nul_text = Some (Own (createStringObject 0 nul_text))"
    by (simp add: arg_ref_def tryObjectEncoding_def createStringObject_def createObject_def string2l_long)
  have "dec_repr 10 = [49, 48]" by (simp add: dec_repr_def dec_nat.simps digit_char_def)
  then have "string2ll [49, 48] = Some 10" using string2ll_dec_repr [of "[49, 48]" 10] by (simp add: c_limits)
  then show "arg_ref 0 [49, 48] = Some (SharedInt 10)"
    by (simp add: arg_ref_def tryObjectEncoding_def createStringObject_def createObject_def string2l_long REDIS_SHARED_INTEGERS_def)
qed

lemma ten_text: "dec_repr 10 = [49, 48]"
  by (simp add: dec_repr_def dec_nat.simps digit_char_def)

lemma nul_equal: "equalStringObjects False (ref_obj (SharedInt 10)) (createStringObject 0 nul_text) = Some True"
proof -
  have "ll2string 128 10 = Some [49, 48]" using ll2string_full [of 10 128] ten_text by (simp add: c_limits)
  then show ?thesis
    by (simp add: equalStringObjects_def compareStringObjects_def ref_obj_def createStringObject_def createObject_def strcmp_def c_str_def nul_text_def)
qed

text \<open>C26: LREM of the integer 10 removes from a linked list the element whose bytes are \<open>10\<close>, NUL, \<open>x\<close>,
  and keeps it in a ziplist.\<close>

theorem lrem_depends_on_encoding:
  "\<exists>x ten s. arg_ref 0 [49, 48, 0, 120] = Some x \<and> arg_ref 0 [49, 48] = Some ten \<and>
     lrem_object (ListLinked [x]) 0 ten = Some (ListLinked [], 1) \<and>
     do { s \<leftarrow> createZiplistObject; s \<leftarrow> listTypePush 64 512 s x False; lrem_object s 0 ten } = Some (s, 0)"
proof -
  let ?x = "Own (createStringObject 0 nul_text)"
  have L: "lrem_object (ListLinked [?x]) 0 (SharedInt 10) = Some (ListLinked [], 1)"
    using nul_equal
    by (simp add: lrem_object_def require_def c_limits listTypeInitIterator_def listIndex_def lrem_loop.simps [of _ _ _ _ "IterNode _"]
        listTypeNext_def node_next_def listTypeEqual_def ref_obj_def listTypeDelete_def)
  obtain zl where zl: "ziplistNew = Some zl" "zl_rep zl []" using ziplistNew_ok by blast
  obtain zl1 where zl1: "ziplistLen zl = Some (zl1, 0)" "zl_rep zl1 []" using ziplistLen_ok [OF zl(2)] by auto
  obtain zl2 es where zl2: "ziplistPush zl1 nul_text False = Some zl2" "zl_rep zl2 es" "texts es = [nul_text]"
    using push_ok [OF zl1(2), of nul_text False] by (auto simp: nul_text_def)
  have x: "ref_ok ?x" "encoding_raw (ref_obj ?x)" "obj_sds (ref_obj ?x) = nul_text" "decoded_sds ?x = Some nul_text"
    using raw_arg [of nul_text] decoded_sds_ok [of ?x] obj_sds_raw [of "ref_obj ?x"] by (simp_all add: ref_text)
  have push: "listTypePush 64 512 (ListZip zl) ?x False = Some (ListZip zl2)"
    using zl1(1) zl2(1) x(3,4) by (simp add: listTypePush_def listTypeTryConversion_def nul_text_def)
  have r: "list_rep 512 (ListZip zl2) (zl_pos es) [nul_text]"
    using zl2(2,3) printable_hd [of nul_text] by (auto simp: list_rep_def nul_text_def)
  let ?ten = "Own (createStringObject 0 [49, 48])"
  have dec: "getDecodedObject 0 (ref_obj (SharedInt 10)) = Some (createStringObject 0 [49, 48])"
    using ll2string_full [of 10 32] ten_text by (simp add: getDecodedObject_def ref_obj_def createObject_def c_limits)
  have it: "listTypeInitIterator (ListZip zl2) 0 = Some (iter_at (ListZip zl2) (Some (zl_pos es 0)))"
    using init_ok [OF r, of 0] by (simp add: index_pos_def c_limits)
  have nx: "listTypeNext True (ListZip zl2) (iter_at (ListZip zl2) (Some (zl_pos es 0))) = Some (Some (zl_pos es 0), iter_at (ListZip zl2) None)"
    using next_ok [OF r, of 0 True] by (simp add: node_next_def)
  have "listTypeEqual (ListZip zl2) (zl_pos es 0) ?ten = Some (nul_text = [49, 48])"
    using list_equal_ok [OF r _ raw_arg(1) raw_arg(3), of 0 "[49, 48]"] raw_arg(2) [of "[49, 48]"] by (simp add: is_zip_def)
  then have "lrem_loop True ?ten 0 (ListZip zl2) (iter_at (ListZip zl2) (Some (zl_pos es 0))) 0 = Some (ListZip zl2, 0)"
    using nx next_none [of True "ListZip zl2"]
    by (subst lrem_loop.simps) (simp add: nul_text_def lrem_loop.simps [of _ _ _ _ "iter_at _ None"])
  then have Z: "lrem_object (ListZip zl2) 0 (SharedInt 10) = Some (ListZip zl2, 0)"
    using dec it by (simp add: lrem_object_def require_def c_limits)
  have "do { s \<leftarrow> createZiplistObject; s \<leftarrow> listTypePush 64 512 s ?x False; lrem_object s 0 (SharedInt 10) } = Some (ListZip zl2, 0)"
    unfolding createZiplistObject_def zl(1) using push Z by simp
  then show ?thesis using L nul_args unfolding nul_text_def by blast
qed

end
