(* ===== verification/HashType.thy ===== *)
theory HashType
  imports SetType ListType Zipmap
begin

text \<open>
  Model of the hash objects of \<^verbatim>\<open>src/webserver/redis/src/t_hash.c\<close>: a map of string objects to string
  objects is a zipmap while it is small, and a hash table otherwise. The hash type operations, and the
  parts of the commands that work on the object, once it is looked up or created.

  Keys and values are string objects. A key that enters a hash table is hashed, for which an
  integer-encoded one is printed: \<open>dict_key\<close> has no result for the one integer whose printing is
  undefined. \<open>cr\<close> is \<^verbatim>\<open>dict_can_resize\<close>, \<open>mem\<close> is \<^verbatim>\<open>server.maxmemory\<close>, and \<open>maxval\<close> and \<open>maxent\<close>
  are \<^verbatim>\<open>server.hash_max_zipmap_value\<close> and \<^verbatim>\<open>server.hash_max_zipmap_entries\<close>. Reference counts are
  left out.
\<close>

section \<open>Hash objects\<close>

datatype hash_obj = HashZip "byte list" | HashHT "(key_obj, robj) dict"

definition createHashObject :: "hash_obj option" where
  "createHashObject = map_option HashZip zipmapNew"

definition dict_key :: "robj \<Rightarrow> key_obj option" where
  "dict_key ob = do { require (obj_ok ob); Some (key_of_obj ob) }"

text \<open>The contents of a decoded object, and an object after \<^verbatim>\<open>tryObjectEncoding\<close>.\<close>

definition object_sds :: "robj \<Rightarrow> byte list option" where
  "object_sds ob = map_option obj_sds (getDecodedObject 0 ob)"

definition encode_object :: "int \<Rightarrow> robj \<Rightarrow> robj option" where
  "encode_object mem ob = map_option ref_obj (tryObjectEncoding True mem ob)"

section \<open>Conversion\<close>

text \<open>The loop over the entries of the zipmap. That \<^verbatim>\<open>dictAdd\<close> may refuse a key is not looked at.\<close>

partial_function (option) convert_hash_loop ::
  "bool \<Rightarrow> int \<Rightarrow> byte list \<Rightarrow> nat \<Rightarrow> (key_obj, robj) dict \<Rightarrow> (key_obj, robj) dict option" where
  "convert_hash_loop cr mem zm p d =
     do { r \<leftarrow> zipmapNext zm p;
          case r of
            None \<Rightarrow> Some d
          | Some ((key, klen), (val, vlen), p) \<Rightarrow> do {
              key \<leftarrow> mem_read zm key klen;
              val \<leftarrow> mem_read zm val vlen;
              keyobj \<leftarrow> encode_object mem (createStringObject 0 key);
              valobj \<leftarrow> encode_object mem (createStringObject 0 val);
              k \<leftarrow> dict_key keyobj;
              (d, _) \<leftarrow> dictAdd hashDictType cr d k valobj;
              convert_hash_loop cr mem zm p d } }"

declare convert_hash_loop.simps [code]

definition convertToRealHash :: "bool \<Rightarrow> int \<Rightarrow> hash_obj \<Rightarrow> hash_obj option" where
  "convertToRealHash cr mem h =
     (case h of
        HashHT _ \<Rightarrow> None
      | HashZip zm \<Rightarrow> do { d \<leftarrow> convert_hash_loop cr mem zm zipmapRewind dictCreate; Some (HashHT d) })"

definition hashTypeTryConversion :: "bool \<Rightarrow> int \<Rightarrow> nat \<Rightarrow> hash_obj \<Rightarrow> robj list \<Rightarrow> hash_obj option" where
  "hashTypeTryConversion cr mem maxval h argv =
     (case h of
        HashHT _ \<Rightarrow> Some h
      | HashZip _ \<Rightarrow>
          if list_ex (\<lambda>a. encoding_raw a \<and> length (obj_sds a) > maxval) argv then convertToRealHash cr mem h else Some h)"

definition hashTypeTryObjectEncoding :: "int \<Rightarrow> hash_obj \<Rightarrow> robj \<Rightarrow> robj option" where
  "hashTypeTryObjectEncoding mem h ob = (case h of HashHT _ \<Rightarrow> encode_object mem ob | HashZip _ \<Rightarrow> Some ob)"

section \<open>Reading\<close>

text \<open>What is found: an object of the table, or a string inside the zipmap.\<close>

datatype hash_found = FoundObj robj | FoundStr nat nat

definition hashTypeGet :: "hash_obj \<Rightarrow> robj \<Rightarrow> (hash_obj \<times> hash_found option) option" where
  "hashTypeGet h key =
     (case h of
        HashZip zm \<Rightarrow> do {
          t \<leftarrow> object_sds key;
          found \<leftarrow> zipmapGet zm t;
          Some (h, map_option (\<lambda>(v, vlen). FoundStr v vlen) found) }
      | HashHT d \<Rightarrow> do {
          k \<leftarrow> dict_key key;
          (d, de) \<leftarrow> dictFind hashDictType d k;
          case de of
            None \<Rightarrow> Some (HashHT d, None)
          | Some de \<Rightarrow> do { e \<leftarrow> entry_at d de; Some (HashHT d, Some (FoundObj (snd e))) } })"

text \<open>What is found as an object.\<close>

definition found_object :: "hash_obj \<Rightarrow> hash_found \<Rightarrow> robj option" where
  "found_object h x =
     (case x of
        FoundObj ob \<Rightarrow> Some ob
      | FoundStr v vlen \<Rightarrow>
          (case h of HashZip zm \<Rightarrow> do { s \<leftarrow> mem_read zm v vlen; Some (createStringObject 0 s) } | HashHT _ \<Rightarrow> None))"

text \<open>What is found as it is sent to a client.\<close>

definition found_sds :: "hash_obj \<Rightarrow> hash_found \<Rightarrow> byte list option" where
  "found_sds h x =
     (case x of
        FoundObj ob \<Rightarrow> object_sds ob
      | FoundStr v vlen \<Rightarrow> (case h of HashZip zm \<Rightarrow> mem_read zm v vlen | HashHT _ \<Rightarrow> None))"

definition hashTypeGetObject :: "hash_obj \<Rightarrow> robj \<Rightarrow> (hash_obj \<times> robj option) option" where
  "hashTypeGetObject h key =
     do { (h, x) \<leftarrow> hashTypeGet h key;
          case x of None \<Rightarrow> Some (h, None) | Some x \<Rightarrow> do { ob \<leftarrow> found_object h x; Some (h, Some ob) } }"

definition hashTypeExists :: "hash_obj \<Rightarrow> robj \<Rightarrow> (hash_obj \<times> bool) option" where
  "hashTypeExists h key =
     (case h of
        HashZip zm \<Rightarrow> do { t \<leftarrow> object_sds key; b \<leftarrow> zipmapExists zm t; Some (h, b) }
      | HashHT d \<Rightarrow> do { k \<leftarrow> dict_key key; (d, de) \<leftarrow> dictFind hashDictType d k; Some (HashHT d, de \<noteq> None) })"

definition hashTypeLength :: "hash_obj \<Rightarrow> (hash_obj \<times> nat) option" where
  "hashTypeLength h =
     (case h of
        HashZip zm \<Rightarrow> do { (zm, n) \<leftarrow> zipmapLen zm; Some (HashZip zm, n) }
      | HashHT d \<Rightarrow> Some (h, dictSize d))"

section \<open>Update and deletion\<close>

definition hashTypeSet :: "bool \<Rightarrow> int \<Rightarrow> nat \<Rightarrow> hash_obj \<Rightarrow> robj \<Rightarrow> robj \<Rightarrow> (hash_obj \<times> bool) option" where
  "hashTypeSet cr mem maxent h key val =
     (case h of
        HashZip zm \<Rightarrow> do {
          k \<leftarrow> object_sds key;
          v \<leftarrow> object_sds val;
          (zm, update) \<leftarrow> zipmapSet zm k v;
          (zm, n) \<leftarrow> zipmapLen zm;
          h \<leftarrow> (if n > maxent then convertToRealHash cr mem (HashZip zm) else Some (HashZip zm));
          Some (h, update) }
      | HashHT d \<Rightarrow> do {
          k \<leftarrow> dict_key key;
          (d, inserted) \<leftarrow> dictReplace hashDictType cr d k val;
          Some (HashHT d, \<not> inserted) })"

definition hashTypeDelete :: "bool \<Rightarrow> hash_obj \<Rightarrow> robj \<Rightarrow> (hash_obj \<times> bool) option" where
  "hashTypeDelete cr h key =
     (case h of
        HashZip zm \<Rightarrow> do { k \<leftarrow> object_sds key; (zm, deleted) \<leftarrow> zipmapDel zm k; Some (HashZip zm, deleted) }
      | HashHT d \<Rightarrow> do {
          k \<leftarrow> dict_key key;
          (d, rc) \<leftarrow> dictDelete hashDictType d k;
          if rc = DICT_OK then Some (HashHT (if htNeedsResize d then fst (dictResize cr d) else d), True)
          else Some (HashHT d, False) })"

section \<open>Iterators\<close>

datatype hash_iter = HIterZip nat | HIterHT "(key_obj, robj) dictIterator"

text \<open>The entry at the position of an iterator, and the two parts of it.\<close>

datatype hash_entry = EntryStr "nat \<times> nat" "nat \<times> nat" | EntryObj key_obj robj

datatype hash_part = REDIS_HASH_KEY | REDIS_HASH_VALUE

definition hashTypeInitIterator :: "hash_obj \<Rightarrow> hash_iter" where
  "hashTypeInitIterator h = (case h of HashZip _ \<Rightarrow> HIterZip zipmapRewind | HashHT _ \<Rightarrow> HIterHT dictGetIterator)"

definition hashTypeReleaseIterator :: "hash_obj \<Rightarrow> hash_iter \<Rightarrow> hash_obj" where
  "hashTypeReleaseIterator h it =
     (case (h, it) of (HashHT d, HIterHT di) \<Rightarrow> HashHT (dictReleaseIterator d di) | _ \<Rightarrow> h)"

definition hashTypeNext :: "hash_obj \<Rightarrow> hash_iter \<Rightarrow> (hash_obj \<times> hash_iter \<times> hash_entry option) option" where
  "hashTypeNext h it =
     (case (h, it) of
        (HashZip zm, HIterZip zi) \<Rightarrow> do {
          r \<leftarrow> zipmapNext zm zi;
          Some (case r of None \<Rightarrow> (h, it, None) | Some (k, v, zi) \<Rightarrow> (h, HIterZip zi, Some (EntryStr k v))) }
      | (HashHT d, HIterHT di) \<Rightarrow> do {
          (d, di, de) \<leftarrow> dictNext d di;
          Some (HashHT d, HIterHT di, map_option (\<lambda>(k, v). EntryObj k v) de) }
      | _ \<Rightarrow> None)"

definition hashTypeCurrent :: "hash_entry \<Rightarrow> hash_part \<Rightarrow> hash_found" where
  "hashTypeCurrent e what =
     (case e of
        EntryStr (k, klen) (v, vlen) \<Rightarrow> if what = REDIS_HASH_KEY then FoundStr k klen else FoundStr v vlen
      | EntryObj k v \<Rightarrow> if what = REDIS_HASH_KEY then FoundObj (obj_of_key k) else FoundObj v)"

definition hashTypeCurrentObject :: "hash_obj \<Rightarrow> hash_entry \<Rightarrow> hash_part \<Rightarrow> robj option" where
  "hashTypeCurrentObject h e what = found_object h (hashTypeCurrent e what)"

section \<open>Commands on a hash object\<close>

text \<open>HSET: whether the field was there.\<close>

definition hset_object ::
  "bool \<Rightarrow> int \<Rightarrow> nat \<Rightarrow> nat \<Rightarrow> hash_obj \<Rightarrow> robj \<Rightarrow> robj \<Rightarrow> (hash_obj \<times> bool) option" where
  "hset_object cr mem maxval maxent h key val =
     do { h \<leftarrow> hashTypeTryConversion cr mem maxval h [key, val];
          key \<leftarrow> hashTypeTryObjectEncoding mem h key;
          val \<leftarrow> hashTypeTryObjectEncoding mem h val;
          hashTypeSet cr mem maxent h key val }"

text \<open>HSETNX: whether the field was set.\<close>

definition hsetnx_object ::
  "bool \<Rightarrow> int \<Rightarrow> nat \<Rightarrow> nat \<Rightarrow> hash_obj \<Rightarrow> robj \<Rightarrow> robj \<Rightarrow> (hash_obj \<times> bool) option" where
  "hsetnx_object cr mem maxval maxent h key val =
     do { h \<leftarrow> hashTypeTryConversion cr mem maxval h [key, val];
          (h, there) \<leftarrow> hashTypeExists h key;
          if there then Some (h, False)
          else do {
            key \<leftarrow> hashTypeTryObjectEncoding mem h key;
            val \<leftarrow> hashTypeTryObjectEncoding mem h val;
            (h, _) \<leftarrow> hashTypeSet cr mem maxent h key val;
            Some (h, True) } }"

text \<open>HMSET: the loop over the pairs of arguments.\<close>

fun hmset_loop :: "bool \<Rightarrow> int \<Rightarrow> nat \<Rightarrow> hash_obj \<Rightarrow> (robj \<times> robj) list \<Rightarrow> hash_obj option" where
  "hmset_loop cr mem maxent h [] = Some h"
| "hmset_loop cr mem maxent h ((key, val) # args) =
     do { key \<leftarrow> hashTypeTryObjectEncoding mem h key;
          val \<leftarrow> hashTypeTryObjectEncoding mem h val;
          (h, _) \<leftarrow> hashTypeSet cr mem maxent h key val;
          hmset_loop cr mem maxent h args }"

definition hmset_object ::
  "bool \<Rightarrow> int \<Rightarrow> nat \<Rightarrow> nat \<Rightarrow> hash_obj \<Rightarrow> (robj \<times> robj) list \<Rightarrow> hash_obj option" where
  "hmset_object cr mem maxval maxent h args =
     do { h \<leftarrow> hashTypeTryConversion cr mem maxval h (concat (map (\<lambda>(k, v). [k, v]) args));
          hmset_loop cr mem maxent h args }"

text \<open>HINCRBY with an increment that is a number already.\<close>

datatype hincr_reply = HincrOk int | HincrNotInteger | HincrOverflow

definition hincrby_object ::
  "bool \<Rightarrow> bool \<Rightarrow> int \<Rightarrow> nat \<Rightarrow> hash_obj \<Rightarrow> robj \<Rightarrow> int \<Rightarrow> (hash_obj \<times> hincr_reply) option" where
  "hincrby_object erange cr mem maxent h key incr =
     do { (h, current) \<leftarrow> hashTypeGetObject h key;
          value \<leftarrow> (case current of None \<Rightarrow> Some (Some 0) | Some ob \<Rightarrow> getLongLongFromObject erange (Some ob));
          case value of
            None \<Rightarrow> Some (h, HincrNotInteger)
          | Some oldvalue \<Rightarrow>
              if incr < 0 \<and> oldvalue < 0 \<and> incr < LLONG_MIN - oldvalue \<or>
                 incr > 0 \<and> oldvalue > 0 \<and> incr > LLONG_MAX - oldvalue
              then Some (h, HincrOverflow)
              else do {
                new \<leftarrow> createStringObjectFromLongLong True 0 (oldvalue + incr);
                key \<leftarrow> hashTypeTryObjectEncoding mem h key;
                (h, _) \<leftarrow> hashTypeSet cr mem maxent h key (ref_obj new);
                Some (h, HincrOk (oldvalue + incr)) } }"

text \<open>HGET and the loop of HMGET: what is sent, \<open>None\<close> for a null reply. For a key that does not exist
  HMGET has no object.\<close>

definition hget_object :: "hash_obj \<Rightarrow> robj \<Rightarrow> (hash_obj \<times> byte list option) option" where
  "hget_object h key =
     do { (h, x) \<leftarrow> hashTypeGet h key;
          case x of None \<Rightarrow> Some (h, None) | Some x \<Rightarrow> do { t \<leftarrow> found_sds h x; Some (h, Some t) } }"

fun hmget_object :: "hash_obj option \<Rightarrow> robj list \<Rightarrow> (hash_obj option \<times> byte list option list) option" where
  "hmget_object h [] = Some (h, [])"
| "hmget_object None (key # keys) = do { (h, ts) \<leftarrow> hmget_object None keys; Some (h, None # ts) }"
| "hmget_object (Some h) (key # keys) =
     do { (h, t) \<leftarrow> hget_object h key; (h, ts) \<leftarrow> hmget_object (Some h) keys; Some (h, t # ts) }"

text \<open>HDEL: how many fields were deleted, and whether the hash became empty, which ends the loop.\<close>

fun hdel_object :: "bool \<Rightarrow> hash_obj \<Rightarrow> robj list \<Rightarrow> nat \<Rightarrow> (hash_obj \<times> nat \<times> bool) option" where
  "hdel_object cr h [] deleted = Some (h, deleted, False)"
| "hdel_object cr h (key # keys) deleted =
     do { (h, gone) \<leftarrow> hashTypeDelete cr h key;
          if gone then do {
            (h, n) \<leftarrow> hashTypeLength h;
            if n = 0 then Some (h, deleted + 1, True) else hdel_object cr h keys (deleted + 1) }
          else hdel_object cr h keys deleted }"

text \<open>HKEYS, HVALS and HGETALL: the strings sent. \<open>parts\<close> are the parts that are asked for, in order.\<close>

partial_function (option) hgetall_loop ::
  "hash_part list \<Rightarrow> hash_obj \<Rightarrow> hash_iter \<Rightarrow> byte list list \<Rightarrow> (hash_obj \<times> hash_iter \<times> byte list list) option" where
  "hgetall_loop parts h it sent =
     do { (h, it, e) \<leftarrow> hashTypeNext h it;
          case e of
            None \<Rightarrow> Some (h, it, sent)
          | Some e \<Rightarrow> do {
              ts \<leftarrow> those (map (\<lambda>what. found_sds h (hashTypeCurrent e what)) parts);
              hgetall_loop parts h it (sent @ ts) } }"

declare hgetall_loop.simps [code]

definition hgetall_object :: "hash_part list \<Rightarrow> hash_obj \<Rightarrow> (hash_obj \<times> byte list list) option" where
  "hgetall_object parts h =
     do { (h, it, ts) \<leftarrow> hgetall_loop parts h (hashTypeInitIterator h) [];
          Some (hashTypeReleaseIterator h it, ts) }"

end
