(* ===== verification/HashSpec.thy ===== *)
theory HashSpec
  imports HashType SetSpec ListSpec ZipmapSpec StringOps
begin

text \<open>
  Hash objects as maps of byte strings: the effect of every operation and of the commands' work on
  the object, whichever encoding the object has and whenever it changes.
\<close>

section \<open>Abstraction\<close>

text \<open>The text map of a table, and an object that stands for the map \<open>m\<close>. \<open>c\<close> bounds the bytes that
  were stored in the object, counted as a zipmap would take them.\<close>

definition table_texts :: "(key_obj, robj) dict \<Rightarrow> byte list \<Rightarrow> byte list option" where
  "table_texts d k = map_option obj_bytes (dict_map key_text d k)"

definition table_ok :: "(key_obj, robj) dict \<Rightarrow> bool" where
  "table_ok d \<longleftrightarrow> dict_ok hashDictType key_text d \<and> (\<forall>k v. dict_map key_text d k = Some v \<longrightarrow> obj_ok v)"

definition printable_map :: "(byte list \<Rightarrow> byte list option) \<Rightarrow> bool" where
  "printable_map m \<longleftrightarrow> (\<forall>k v. m k = Some v \<longrightarrow> printable k \<and> printable v)"

definition hash_rep :: "nat \<Rightarrow> hash_obj \<Rightarrow> (byte list \<Rightarrow> byte list option) \<Rightarrow> bool" where
  "hash_rep c h m \<longleftrightarrow> printable_map m \<and> 3 * card (dom m) \<le> c \<and> c < 2 ^ 29 \<and>
     (case h of
        HashZip zm \<Rightarrow> \<exists>es. zm_rep zm es \<and> m = map_of (map binding es) \<and> length zm \<le> c + 2
      | HashHT d \<Rightarrow> table_ok d \<and> m = table_texts d)"

lemma object_sds_ok: "obj_ok ob \<Longrightarrow> object_sds ob = Some (obj_bytes ob)"
  by (cases "o_ptr ob")
    (auto simp: object_sds_def getDecodedObject_def obj_ok_def obj_bytes_def obj_sds_def ll2string_full
      incrRefCount_def createStringObject_def createObject_def)

lemma dict_key_ok: "obj_ok ob \<Longrightarrow> dict_key ob = Some (key_of_obj ob) \<and> key_text (key_of_obj ob) = obj_bytes ob"
  using key_of_obj_text [of ob] by (simp add: dict_key_def require_def)

lemma encode_ok:
  assumes "obj_ok ob" and "printable (obj_bytes ob)"
  shows "\<exists>ob'. encode_object mem ob = Some ob' \<and> obj_ok ob' \<and> obj_bytes ob' = obj_bytes ob"
proof (cases "o_ptr ob")
  case (PtrLong n)
  then show ?thesis using assms by (simp add: encode_object_def tryObjectEncoding_def ref_obj_def)
next
  case (PtrSds s)
  then have s: "obj_bytes ob = s" "o_type ob = REDIS_STRING" using assms by (simp_all add: obj_bytes_def obj_ok_def)
  show ?thesis
  proof (cases "string2ll s")
    case None
    then show ?thesis using assms PtrSds s by (auto simp: encode_object_def tryObjectEncoding_def ref_obj_def string2l_long)
  next
    case (Some n)
    then have n: "LLONG_MIN \<le> n" "n \<le> LLONG_MAX" "s = dec_repr n" using string2ll_dec_repr by blast+
    then have "n \<noteq> LLONG_MIN" using assms(2) s(1) by (auto simp: printable_def)
    then show ?thesis using assms PtrSds s n Some
      by (auto simp: encode_object_def tryObjectEncoding_def ref_obj_def string2l_long obj_ok_def obj_bytes_def createObject_def)
  qed
qed

lemma raw_object: "obj_ok (createStringObject 0 b)" "obj_bytes (createStringObject 0 b) = b"
  by (simp_all add: createStringObject_def createObject_def obj_ok_def obj_bytes_def)

lemma hashDict_dup: "dictSetHashVal hashDictType v = v" "dictSetHashKey hashDictType k = k"
  by (simp_all add: hashDictType_def dictSetHashVal_def dictSetHashKey_def)

lemma table_size: "table_ok d \<Longrightarrow> dictSize d = card (dom (table_texts d))"
proof -
  assume "table_ok d"
  then have "dictSize d = card (dom (dict_map key_text d))" using dictSize_card table_ok_def by blast
  then show ?thesis by (simp add: table_texts_def dom_def)
qed

lemma finite_table: "finite (dom (table_texts d))"
  using finite_dict_map [of key_text d] by (simp add: table_texts_def dom_def)

lemma finite_rep: "hash_rep c h m \<Longrightarrow> finite (dom m)"
  using finite_table by (auto simp: hash_rep_def finite_dom_map_of split: hash_obj.splits)

section \<open>Conversion\<close>

lemma table_replace:
  assumes "table_ok d" and "dictSize d < 2 ^ 28" and "obj_ok v"
  shows "\<exists>d'. dictReplace hashDictType cr d k v = Some (d', table_texts d (key_text k) = None) \<and> table_ok d' \<and>
    table_texts d' = (table_texts d)(key_text k \<mapsto> obj_bytes v)"
proof -
  obtain d' where d': "dictReplace hashDictType cr d k v = Some (d', dict_map key_text d (key_text k) = None)"
    "dict_ok hashDictType key_text d'" "dict_map key_text d' = (dict_map key_text d)(key_text k \<mapsto> v)"
    using dictReplace_ok [OF hash_law _ assms(2), of cr k v] assms(1) by (auto simp: table_ok_def hashDict_dup)
  then have "table_ok d'" "table_texts d' = (table_texts d)(key_text k \<mapsto> obj_bytes v)"
    using assms by (auto simp: table_ok_def table_texts_def)
  then show ?thesis using d'(1) by (simp add: table_texts_def)
qed

lemma table_add_new:
  assumes "table_ok d" and "dictSize d < 2 ^ 28" and "obj_ok v" and "table_texts d (key_text k) = None"
  shows "\<exists>d'. dictAdd hashDictType cr d k v = Some (d', DICT_OK) \<and> table_ok d' \<and>
    table_texts d' = (table_texts d)(key_text k \<mapsto> obj_bytes v)"
proof -
  have new: "dict_map key_text d (key_text k) = None" using assms(4) by (simp add: table_texts_def)
  obtain d' where d': "dictAdd hashDictType cr d k v = Some (d', DICT_OK)"
    "dict_ok hashDictType key_text d'" "dict_map key_text d' = (dict_map key_text d)(key_text k \<mapsto> v)"
    using dictAdd_ok [OF hash_law _ assms(2), of cr k v] assms(1) new by (auto simp: table_ok_def hashDict_dup)
  then have "table_ok d'" "table_texts d' = (table_texts d)(key_text k \<mapsto> obj_bytes v)"
    using assms by (auto simp: table_ok_def table_texts_def)
  then show ?thesis using d'(1) by blast
qed

lemma convert_hash_loop_ok:
  assumes "list_all zent_ok es" and "distinct (map fst es)" and "printable_map (map_of (map binding es))"
    and "length (pre @ zents es @ [255]) < 2 ^ 32" and "table_ok d" and "dom (table_texts d) \<inter> fst ` set es = {}"
    and "card (dom (table_texts d)) + length es < 2 ^ 28"
  shows "\<exists>d'. convert_hash_loop cr mem (pre @ zents es @ [255]) (length pre) d = Some d' \<and> table_ok d' \<and>
    table_texts d' = table_texts d ++ map_of (map binding es)"
  using assms
proof (induction es arbitrary: pre d)
  case Nil
  then show ?case using zipmapNext_end [of pre "[]"] by (subst convert_hash_loop.simps) simp
next
  case (Cons e es)
  obtain k v f where e: "e = (k, v, f)" by (cases e)
  let ?zm = "pre @ zents (e # es) @ [255]"
  have zm: "?zm = pre @ zent (k, v, f) @ zents es @ [255]" "?zm = (pre @ zent e) @ zents es @ [255]" using e by simp_all
  have ok: "zent_ok (k, v, f)" "length (pre @ zent (k, v, f) @ zents es @ [255]) < 2 ^ 32" using Cons.prems(1,4) e by simp_all
  obtain kp vp where nx: "zipmapNext ?zm (length pre) = Some (Some ((kp, length k), (vp, length v), length (pre @ zent e)))"
    "mem_read ?zm kp (length k) = Some k" "mem_read ?zm vp (length v) = Some v"
    using zipmapNext_entry [OF ok] e unfolding zm(1) by auto
  have "map_of (map binding (e # es)) k = Some v" using e by (simp add: binding_def)
  then have pr: "printable k" "printable v" using Cons.prems(3) unfolding printable_map_def by blast+
  obtain ko where ko: "encode_object mem (createStringObject 0 k) = Some ko" "obj_ok ko" "obj_bytes ko = k"
    using encode_ok [of "createStringObject 0 k" mem] raw_object [of k] pr(1) by auto
  obtain vo where vo: "encode_object mem (createStringObject 0 v) = Some vo" "obj_ok vo" "obj_bytes vo = v"
    using encode_ok [of "createStringObject 0 v" mem] raw_object [of v] pr(2) by auto
  have kt: "dict_key ko = Some (key_of_obj ko)" "key_text (key_of_obj ko) = k" using dict_key_ok [OF ko(2)] ko(3) by simp_all
  have new: "table_texts d (key_text (key_of_obj ko)) = None" using Cons.prems(6) e kt(2) by (auto simp: domIff)
  have sz: "dictSize d < 2 ^ 28" using table_size [OF Cons.prems(5)] Cons.prems(7) by simp
  obtain d1 where d1: "dictAdd hashDictType cr d (key_of_obj ko) vo = Some (d1, DICT_OK)" "table_ok d1"
    "table_texts d1 = (table_texts d)(k \<mapsto> v)"
    using table_add_new [OF Cons.prems(5) sz vo(2) new, of cr] kt(2) vo(3) by auto
  have k: "k \<notin> fst ` set es" using Cons.prems(2) e by auto
  have pm: "printable_map (map_of (map binding es))" unfolding printable_map_def
  proof (intro allI impI)
    fix k' v'
    assume m: "map_of (map binding es) k' = Some v'"
    then have "k' \<noteq> k" using k map_of_bindings_None [of es k] by auto
    then have "map_of (map binding (e # es)) k' = Some v'" using m e by (simp add: binding_def)
    then show "printable k' \<and> printable v'" using Cons.prems(3) unfolding printable_map_def by blast
  qed
  have card: "card (dom (table_texts d1)) + length es < 2 ^ 28"
    using Cons.prems(7) card_insert_le_m1 [of "Suc (card (dom (table_texts d)))" "dom (table_texts d)" k] d1(3) finite_table [of d]
    by (simp add: card_insert_if split: if_splits)
  have disj: "dom (table_texts d1) \<inter> fst ` set es = {}" using d1(3) Cons.prems(6) k by auto
  have len: "length ((pre @ zent e) @ zents es @ [255]) < 2 ^ 32" using ok(2) e by simp
  obtain d' where d': "convert_hash_loop cr mem ((pre @ zent e) @ zents es @ [255]) (length (pre @ zent e)) d1 = Some d'" "table_ok d'"
    "table_texts d' = table_texts d1 ++ map_of (map binding es)"
    using Cons.IH [OF _ _ pm len d1(2) disj card] Cons.prems(1,2) by auto
  have "convert_hash_loop cr mem ?zm (length pre) d = Some d'"
    by (subst convert_hash_loop.simps) (use nx ko(1) vo(1) kt(1) d1(1) d'(1) zm(2) in simp)
  moreover have "table_texts d' = table_texts d ++ map_of (map binding (e # es))"
    using d'(3) d1(3) k e map_of_bindings_None [of es k] by (simp add: binding_def map_add_upd_left domIff)
  ultimately show ?case using d'(2) by blast
qed

lemma empty_table: "table_ok dictCreate" "table_texts dictCreate = Map.empty"
  using dictCreate_ok [OF refl, of hashDictType key_text] by (auto simp: table_ok_def table_texts_def fun_eq_iff)

lemma rep_count: "zm_rep zm es \<Longrightarrow> card (dom (map_of (map binding es))) = length es"
proof -
  assume "zm_rep zm es"
  then have "distinct (map fst es)" by (auto elim: zm_repD)
  then have "card (fst ` set es) = length es" using distinct_card [of "map fst es"] by simp
  moreover have "dom (map_of (map binding es)) = fst ` set es" by (intro set_eqI) (metis domIff map_of_bindings_None)
  ultimately show ?thesis by simp
qed

lemma convertToRealHash_ok:
  assumes r: "hash_rep c (HashZip zm) m"
  shows "\<exists>d. convertToRealHash cr mem (HashZip zm) = Some (HashHT d) \<and> hash_rep c (HashHT d) m"
proof -
  obtain es where z: "zm_rep zm es" and m: "m = map_of (map binding es)" using r by (auto simp: hash_rep_def)
  obtain n where n: "zm = [n] @ zents es @ [255]" "list_all zent_ok es" "distinct (map fst es)" "length zm < 2 ^ 32"
    using z by (auto elim: zm_repD)
  have "length es < 2 ^ 28" using rep_count [OF z] r m by (simp add: hash_rep_def)
  then obtain d where "convert_hash_loop cr mem ([n] @ zents es @ [255]) (length [n]) dictCreate = Some d" "table_ok d" "table_texts d = m"
    using convert_hash_loop_ok [OF n(2,3), of "[n]" dictCreate cr mem] n(1,4) r m empty_table by (auto simp: hash_rep_def)
  then show ?thesis using r n(1) by (auto simp: convertToRealHash_def zipmapRewind_def hash_rep_def)
qed

section \<open>Operations\<close>

text \<open>A map after some bindings were added or removed.\<close>

lemma rep_grow:
  assumes "hash_rep c h m" and "printable k" and "printable v" and "c + zcost k v < 2 ^ 29"
  shows "printable_map (m(k \<mapsto> v)) \<and> 3 * card (dom (m(k \<mapsto> v))) \<le> c + zcost k v"
proof -
  have "card (dom (m(k \<mapsto> v))) \<le> card (dom m) + 1" using finite_rep [OF assms(1)] by (simp add: card_insert_if)
  moreover have "3 * card (dom m) \<le> c" "printable_map m" using assms(1) by (simp_all add: hash_rep_def)
  ultimately show ?thesis using zcost_bounds(1) [of k v] assms(2,3) by (auto simp: printable_map_def)
qed

lemma rep_shrink: "hash_rep c h m \<Longrightarrow> printable_map (m(k := None)) \<and> 3 * card (dom (m(k := None))) \<le> c"
proof -
  assume r: "hash_rep c h m"
  then have "card (dom (m(k := None))) \<le> card (dom m)" using finite_rep [OF r] by (simp add: card_Diff1_le)
  then show ?thesis using r by (auto simp: hash_rep_def printable_map_def)
qed

lemma rep_mono: "hash_rep c h m \<Longrightarrow> c \<le> c' \<Longrightarrow> c' < 2 ^ 29 \<Longrightarrow> hash_rep c' h m"
  by (auto simp: hash_rep_def split: hash_obj.splits)

lemma rep_zip: "printable_map m \<Longrightarrow> 3 * card (dom m) \<le> c \<Longrightarrow> c < 2 ^ 29 \<Longrightarrow> zm_rep zm es \<Longrightarrow> m = map_of (map binding es) \<Longrightarrow>
    length zm \<le> c + 2 \<Longrightarrow> hash_rep c (HashZip zm) m"
  by (auto simp: hash_rep_def)

lemma rep_table: "printable_map m \<Longrightarrow> 3 * card (dom m) \<le> c \<Longrightarrow> c < 2 ^ 29 \<Longrightarrow> table_ok d \<Longrightarrow> table_texts d = m \<Longrightarrow> hash_rep c (HashHT d) m"
  by (auto simp: hash_rep_def)

lemma rep_zipE:
  assumes "hash_rep c (HashZip zm) m"
  obtains es where "zm_rep zm es" and "m = map_of (map binding es)" and "length zm \<le> c + 2" and "card (dom m) = length es"
    and "c < 2 ^ 29" and "length es < 2 ^ 32"
  using assms rep_count entries_fit by (auto simp: hash_rep_def)

lemma rep_tableE:
  assumes "hash_rep c (HashHT d) m"
  obtains "table_ok d" and "table_texts d = m" and "dictSize d = card (dom m)" and "dictSize d < 2 ^ 28" and "c < 2 ^ 29"
  using assms table_size by (auto simp: hash_rep_def)

lemma map_of_update: "map_of (AList.update k v kvs) = (map_of kvs)(k \<mapsto> v)"
  by (simp add: update_conv')

lemma map_of_delete: "map_of (AList.delete k kvs) = (map_of kvs)(k := None)"
  by (simp add: delete_conv')

lemma hashTypeLength_ok:
  assumes r: "hash_rep c h m"
  shows "\<exists>h'. hashTypeLength h = Some (h', card (dom m)) \<and> hash_rep c h' m"
proof (cases h)
  case (HashZip zm)
  then obtain es where es: "zm_rep zm es" "m = map_of (map binding es)" "length zm \<le> c + 2" "card (dom m) = length es" "length es < 2 ^ 32"
    using r by (auto elim: rep_zipE)
  obtain zm' where "zipmapLen zm = Some (zm', length es)" "zm_rep zm' es" "length zm' = length zm"
    using zipmapLen_rep [OF es(1,5)] by blast
  then show ?thesis using r es HashZip by (auto simp: hashTypeLength_def hash_rep_def)
next
  case (HashHT d)
  then show ?thesis using r rep_tableE [of c d m] by (auto simp: hashTypeLength_def)
qed

lemma hashTypeSet_ok:
  assumes r: "hash_rep c h m" and k: "obj_ok k" "printable (obj_bytes k)" and v: "obj_ok v" "printable (obj_bytes v)"
    and c: "c + zcost (obj_bytes k) (obj_bytes v) < 2 ^ 29"
  shows "\<exists>h'. hashTypeSet cr mem maxent h k v = Some (h', m (obj_bytes k) \<noteq> None) \<and>
    hash_rep (c + zcost (obj_bytes k) (obj_bytes v)) h' (m(obj_bytes k \<mapsto> obj_bytes v))"
proof (cases h)
  case (HashZip zm)
  let ?k = "obj_bytes k" and ?v = "obj_bytes v"
  obtain es where es: "zm_rep zm es" "m = map_of (map binding es)" "length zm \<le> c + 2"
    using rep_zipE [OF r [unfolded HashZip]] by blast
  have "length zm + zcost ?k ?v < 2 ^ 32" using es(3) c by simp
  then obtain zm1 es1 where s: "zipmapSet zm ?k ?v = Some (zm1, ?k \<in> fst ` set es)" "zm_rep zm1 es1"
    "map binding es1 = AList.update ?k ?v (map binding es)" "length zm1 \<le> length zm + zcost ?k ?v"
    using zipmapSet_rep [OF es(1)] by blast
  have r1: "hash_rep (c + zcost ?k ?v) (HashZip zm1) (m(?k \<mapsto> ?v))"
  proof (rule rep_zip [OF _ _ c s(2)])
    show "m(?k \<mapsto> ?v) = map_of (map binding es1)" unfolding s(3) map_of_update es(2) ..
    show "length zm1 \<le> c + zcost ?k ?v + 2" using s(4) es(3) by linarith
  qed (use rep_grow [OF r k(2) v(2) c] in blast)+
  then obtain h2 where "hashTypeLength (HashZip zm1) = Some (h2, card (dom (m(?k \<mapsto> ?v))))" and r2: "hash_rep (c + zcost ?k ?v) h2 (m(?k \<mapsto> ?v))"
    using hashTypeLength_ok by blast
  then obtain zm2 n where l: "zipmapLen zm1 = Some (zm2, n)" "h2 = HashZip zm2"
    unfolding hashTypeLength_def by (simp add: bind_Some_iff) blast
  obtain d where "convertToRealHash cr mem (HashZip zm2) = Some (HashHT d)" "hash_rep (c + zcost ?k ?v) (HashHT d) (m(?k \<mapsto> ?v))"
    using convertToRealHash_ok r2 l(2) by blast
  moreover have "?k \<in> fst ` set es \<longleftrightarrow> m ?k \<noteq> None" by (simp add: es(2) map_of_bindings_None del: not_None_eq)
  ultimately show ?thesis using HashZip s(1) l r2
    by (simp add: hashTypeSet_def object_sds_ok [OF k(1)] object_sds_ok [OF v(1)])
next
  case (HashHT d)
  then have d: "table_ok d" "table_texts d = m" "dictSize d < 2 ^ 28" using rep_tableE [OF r [unfolded HashHT]] by blast+
  have kt: "dict_key k = Some (key_of_obj k)" "key_text (key_of_obj k) = obj_bytes k" using dict_key_ok [OF k(1)] by simp_all
  obtain d' where "dictReplace hashDictType cr d (key_of_obj k) v = Some (d', m (obj_bytes k) = None)" "table_ok d'"
    "table_texts d' = m(obj_bytes k \<mapsto> obj_bytes v)"
    using table_replace [OF d(1,3) v(1), of cr "key_of_obj k"] d(2) kt(2) by auto
  moreover from this have "hash_rep (c + zcost (obj_bytes k) (obj_bytes v)) (HashHT d') (m(obj_bytes k \<mapsto> obj_bytes v))"
    using rep_grow [OF r k(2) v(2) c] c rep_table by blast
  ultimately show ?thesis using HashHT kt by (simp add: hashTypeSet_def)
qed

lemma hashTypeDelete_ok:
  assumes r: "hash_rep c h m" and k: "obj_ok k"
  shows "\<exists>h'. hashTypeDelete cr h k = Some (h', m (obj_bytes k) \<noteq> None) \<and> hash_rep c h' (m(obj_bytes k := None))"
proof (cases h)
  case (HashZip zm)
  let ?k = "obj_bytes k"
  obtain es where es: "zm_rep zm es" "m = map_of (map binding es)" "length zm \<le> c + 2" "c < 2 ^ 29"
    using rep_zipE [OF r [unfolded HashZip]] by blast
  obtain zm1 es1 where s: "zipmapDel zm ?k = Some (zm1, ?k \<in> fst ` set es)" "zm_rep zm1 es1"
    "map binding es1 = AList.delete ?k (map binding es)" "length zm1 \<le> length zm"
    using zipmapDel_rep [OF es(1)] by blast
  have "hash_rep c (HashZip zm1) (m(?k := None))"
  proof (rule rep_zip [OF _ _ es(4) s(2)])
    show "m(?k := None) = map_of (map binding es1)" unfolding s(3) map_of_delete es(2) ..
    show "length zm1 \<le> c + 2" using s(4) es(3) by linarith
  qed (use rep_shrink [OF r, of ?k] in blast)+
  moreover have "?k \<in> fst ` set es \<longleftrightarrow> m ?k \<noteq> None" by (simp add: es(2) map_of_bindings_None del: not_None_eq)
  ultimately show ?thesis using HashZip s(1) by (simp add: hashTypeDelete_def object_sds_ok [OF k])
next
  case (HashHT d)
  then have d: "table_ok d" "table_texts d = m" "dictSize d < 2 ^ 28" "dictSize d = card (dom m)" "c < 2 ^ 29" using rep_tableE [OF r [unfolded HashHT]] by blast+
  have dok: "dict_ok hashDictType key_text d" using d(1) by (simp add: table_ok_def)
  have kt: "dict_key k = Some (key_of_obj k)" "key_text (key_of_obj k) = obj_bytes k" using dict_key_ok [OF k(1)] by simp_all
  obtain d' where d': "dictDelete hashDictType d (key_of_obj k) =
      Some (d', if dict_map key_text d (obj_bytes k) = None then DICT_ERR else DICT_OK)"
    "dict_ok hashDictType key_text d'" "dict_map key_text d' = (dict_map key_text d)(obj_bytes k := None)"
    using dictGenericDelete_ok [OF hash_law dok, of "key_of_obj k" False] kt(2) by (auto simp: dictDelete_def)
  have t': "table_ok d'" "table_texts d' = m(obj_bytes k := None)"
    using d' d(1,2) by (auto simp: table_ok_def table_texts_def)
  have "card (dom (m(obj_bytes k := None))) \<le> card (dom m)" using finite_rep [OF r] by (simp add: card_Diff1_le)
  then have "dictSize d' < 2 ^ 28" using table_size [OF t'(1)] t'(2) d(3,4) by simp
  from dictResize_ok [OF d'(2) this, of cr]
  have t2: "table_ok (fst (dictResize cr d'))" "table_texts (fst (dictResize cr d')) = m(obj_bytes k := None)"
    using t' by (simp_all add: table_ok_def table_texts_def fun_eq_iff)
  have rep: "hash_rep c (HashHT d') (m(obj_bytes k := None))" "hash_rep c (HashHT (fst (dictResize cr d'))) (m(obj_bytes k := None))"
    using rep_shrink [OF r, of "obj_bytes k"] d(5) t' t2 rep_table by blast+
  have "dict_map key_text d (obj_bytes k) = None \<longleftrightarrow> m (obj_bytes k) = None" using d(2) by (auto simp: table_texts_def)
  then show ?thesis using HashHT d'(1) kt(1) rep by (auto simp: hashTypeDelete_def)
qed

text \<open>What is found is the value of the key, as an object and as the bytes that are sent.\<close>

definition found_ok :: "hash_obj \<Rightarrow> hash_found option \<Rightarrow> byte list option \<Rightarrow> bool" where
  "found_ok h x t \<longleftrightarrow> (case x of None \<Rightarrow> t = None
     | Some x \<Rightarrow> \<exists>ob. found_object h x = Some ob \<and> obj_ok ob \<and> t = Some (obj_bytes ob) \<and> found_sds h x = t)"

lemma hashTypeGet_ok:
  assumes r: "hash_rep c h m" and k: "obj_ok k"
  shows "\<exists>h' x. hashTypeGet h k = Some (h', x) \<and> hash_rep c h' m \<and> found_ok h' x (m (obj_bytes k))"
proof (cases h)
  case (HashZip zm)
  let ?k = "obj_bytes k"
  obtain es where es: "zm_rep zm es" "m = map_of (map binding es)" using rep_zipE [OF r [unfolded HashZip]] by blast
  have f: "zipmap_fetch zm ?k = Some (zm, m ?k)" using zipmapGet_rep(1) [OF es(1), of ?k] unfolding es(2) .
  then obtain x where x: "zipmapGet zm ?k = Some x" by (auto simp: zipmap_fetch_def bind_Some_iff)
  show ?thesis
  proof (cases x)
    case None
    then show ?thesis using r HashZip x f by (auto simp: hashTypeGet_def object_sds_ok [OF k] zipmap_fetch_def found_ok_def)
  next
    case (Some q)
    obtain v n where q: "q = (v, n)" by (cases q)
    then obtain t where t: "mem_read zm v n = Some t" "m ?k = Some t" using f x Some by (cases "mem_read zm v n") (simp_all add: zipmap_fetch_def)
    then show ?thesis using r HashZip x Some q raw_object [of t]
      by (auto simp: hashTypeGet_def object_sds_ok [OF k] found_ok_def found_object_def found_sds_def)
  qed
next
  case (HashHT d)
  have d: "table_ok d" "table_texts d = m" "c < 2 ^ 29" using rep_tableE [OF r [unfolded HashHT]] by blast+
  have kt: "dict_key k = Some (key_of_obj k)" "key_text (key_of_obj k) = obj_bytes k" using dict_key_ok [OF k(1)] by simp_all
  have dok: "dict_ok hashDictType key_text d" using d(1) by (simp add: table_ok_def)
  obtain d' x where f: "dictFind hashDictType d (key_of_obj k) = Some (d', x)" "dict_ok hashDictType key_text d'" "dict_map key_text d' = dict_map key_text d"
    and x: "case x of None \<Rightarrow> dict_map key_text d (obj_bytes k) = None
      | Some x \<Rightarrow> \<exists>e. entry_at d' x = Some e \<and> dict_map key_text d (obj_bytes k) = Some (snd e)"
    using dictFind_ok [OF hash_law dok, of "key_of_obj k"] kt(2) by (fastforce split: option.splits)
  have t': "table_ok d'" "table_texts d' = m" using f(2,3) d(1,2) by (auto simp: table_ok_def table_texts_def fun_eq_iff)
  then have r': "hash_rep c (HashHT d') m" using r rep_table [of m c d'] by (simp add: hash_rep_def)
  have m: "m (obj_bytes k) = map_option obj_bytes (dict_map key_text d (obj_bytes k))" using d(2) by (auto simp: table_texts_def)
  show ?thesis
  proof (cases x)
    case None
    then show ?thesis using HashHT kt(1) f(1) r' x m by (simp add: hashTypeGet_def found_ok_def)
  next
    case (Some y)
    then obtain e where e: "entry_at d' y = Some e" "dict_map key_text d (obj_bytes k) = Some (snd e)" using x by auto
    have "obj_ok (snd e)" using d(1) e(2) unfolding table_ok_def by blast
    then show ?thesis using HashHT kt(1) f(1) r' Some e m
      by (simp add: hashTypeGet_def found_ok_def found_object_def found_sds_def object_sds_ok)
  qed
qed

lemma hget_object_ok:
  assumes "hash_rep c h m" and "obj_ok k"
  shows "\<exists>h'. hget_object h k = Some (h', m (obj_bytes k)) \<and> hash_rep c h' m"
proof -
  obtain h' x where g: "hashTypeGet h k = Some (h', x)" "hash_rep c h' m" "found_ok h' x (m (obj_bytes k))"
    using hashTypeGet_ok [OF assms] by blast
  then show ?thesis by (cases x) (auto simp: hget_object_def found_ok_def)
qed

lemma hashTypeGetObject_ok:
  assumes "hash_rep c h m" and "obj_ok k"
  shows "\<exists>h' x. hashTypeGetObject h k = Some (h', x) \<and> hash_rep c h' m \<and> m (obj_bytes k) = map_option obj_bytes x \<and> pred_option obj_ok x"
proof -
  obtain h' x where g: "hashTypeGet h k = Some (h', x)" "hash_rep c h' m" "found_ok h' x (m (obj_bytes k))"
    using hashTypeGet_ok [OF assms] by blast
  then show ?thesis by (cases x) (auto simp: hashTypeGetObject_def found_ok_def)
qed

lemma hashTypeExists_ok:
  assumes r: "hash_rep c h m" and k: "obj_ok k"
  shows "\<exists>h'. hashTypeExists h k = Some (h', m (obj_bytes k) \<noteq> None) \<and> hash_rep c h' m"
proof (cases h)
  case (HashZip zm)
  obtain es where es: "zm_rep zm es" "m = map_of (map binding es)" using rep_zipE [OF r [unfolded HashZip]] by blast
  have "zipmapExists zm (obj_bytes k) = Some (m (obj_bytes k) \<noteq> None)" using zipmapGet_rep(2) [OF es(1)] unfolding es(2) .
  then show ?thesis using r HashZip by (simp add: hashTypeExists_def object_sds_ok [OF k])
next
  case (HashHT d)
  obtain h' x where g: "hashTypeGet h k = Some (h', x)" "hash_rep c h' m" "found_ok h' x (m (obj_bytes k))"
    using hashTypeGet_ok [OF r k] by blast
  have kt: "dict_key k = Some (key_of_obj k)" using dict_key_ok [OF k(1)] by simp
  obtain d' y where y: "dictFind hashDictType d (key_of_obj k) = Some (d', y)"
    using g(1) HashHT kt by (auto simp: hashTypeGet_def bind_Some_iff)
  then have f: "dictFind hashDictType d (key_of_obj k) = Some (d', y)" "h' = HashHT d'" "y = None \<longleftrightarrow> x = None"
    using g(1) HashHT kt by (cases y; auto simp: hashTypeGet_def bind_Some_iff)+
  have "x = None \<longleftrightarrow> m (obj_bytes k) = None" using g(3) by (cases x) (auto simp: found_ok_def)
  then show ?thesis using g(2) HashHT kt f by (auto simp: hashTypeExists_def)
qed

lemma tryConversion_ok: "hash_rep c h m \<Longrightarrow> \<exists>h'. hashTypeTryConversion cr mem maxval h args = Some h' \<and> hash_rep c h' m"
  using convertToRealHash_ok by (cases h) (fastforce simp: hashTypeTryConversion_def)+

lemma tryEncoding_ok:
  "printable b \<Longrightarrow> \<exists>ob'. hashTypeTryObjectEncoding mem h (createStringObject 0 b) = Some ob' \<and> obj_ok ob' \<and> obj_bytes ob' = b"
  using encode_ok [of "createStringObject 0 b" mem] raw_object [of b] by (cases h) (simp_all add: hashTypeTryObjectEncoding_def)

section \<open>Iterators\<close>

text \<open>The bindings still to come.\<close>

fun hash_pending :: "hash_obj \<Rightarrow> hash_iter \<Rightarrow> (byte list \<times> byte list) list" where
  "hash_pending (HashZip zm) (HIterZip p) = (case zipmap_items zm p of Some kvs \<Rightarrow> kvs | None \<Rightarrow> [])"
| "hash_pending (HashHT d) (HIterHT di) = map (\<lambda>(k, v). (key_text k, obj_bytes v)) (iter_rest d di)"
| "hash_pending _ _ = []"

fun hash_iter_fits :: "hash_obj \<Rightarrow> hash_iter \<Rightarrow> bool" where
  "hash_iter_fits (HashZip zm) (HIterZip p) \<longleftrightarrow>
     (\<exists>pre es. zm = pre @ zents es @ [255] \<and> p = length pre \<and> list_all zent_ok es \<and> length zm < 2 ^ 32)"
| "hash_iter_fits (HashHT d) (HIterHT di) \<longleftrightarrow> iter_ok d di \<and> (\<forall>(k, v) \<in> set (iter_rest d di). obj_ok v)"
| "hash_iter_fits _ _ = False"

definition part_text :: "byte list \<times> byte list \<Rightarrow> hash_part \<Rightarrow> byte list" where
  "part_text kv what = (if what = REDIS_HASH_KEY then fst kv else snd kv)"

lemma only_iterators_table: "only_iterators d d' \<Longrightarrow> hash_rep c (HashHT d) m \<Longrightarrow> hash_rep c (HashHT d') m"
proof -
  assume o: "only_iterators d d'" and r: "hash_rep c (HashHT d) m"
  have "dict_map key_text d' = dict_map key_text d" using only_iterators_simps(2,3) [OF o] by (simp add: dict_map_def dict_ents_def)
  moreover have "dict_ok hashDictType key_text d' = dict_ok hashDictType key_text d"
    using only_iterators_simps(2,3,5) [OF o] by (simp add: dict_ok_def dict_ents_def)
  ultimately have "table_ok d' = table_ok d" "table_texts d' = table_texts d" by (auto simp: table_ok_def table_texts_def)
  then show ?thesis using r by (auto simp: hash_rep_def)
qed

lemma hashTypeNext_ok:
  assumes r: "hash_rep c h m" and f: "hash_iter_fits h it"
  shows "\<exists>h' it'. hash_rep c h' m \<and> (case hash_pending h it of
       [] \<Rightarrow> hashTypeNext h it = Some (h', it', None)
     | kv # kvs \<Rightarrow> \<exists>e. hashTypeNext h it = Some (h', it', Some e) \<and> hash_iter_fits h' it' \<and> hash_pending h' it' = kvs \<and>
         (\<forall>what. found_sds h' (hashTypeCurrent e what) = Some (part_text kv what)))"
proof (cases h)
  case (HashZip zm)
  then obtain p pre es where p: "it = HIterZip p" "zm = pre @ zents es @ [255]" "p = length pre" "list_all zent_ok es" "length zm < 2 ^ 32"
    using f by (cases it) auto
  have items: "zipmap_items zm p = Some (map binding es)" using zipmap_items_entries p(2-5) by blast
  show ?thesis
  proof (cases es)
    case Nil
    then have "zipmapNext zm p = Some None" using zipmapNext_end [of pre "[]"] p(2,3) by simp
    then show ?thesis using r HashZip p(1) items Nil by (auto simp: hashTypeNext_def)
  next
    case (Cons e es')
    obtain k v x where e: "e = (k, v, x)" by (cases e)
    have zm: "zm = pre @ zent (k, v, x) @ zents es' @ [255]" "zm = (pre @ zent e) @ zents es' @ [255]" using p(2) Cons e by simp_all
    have "zent_ok (k, v, x)" using p(4) Cons e by simp
    then obtain kp vp where nx: "zipmapNext zm p = Some (Some ((kp, length k), (vp, length v), length (pre @ zent e)))"
      "mem_read zm kp (length k) = Some k" "mem_read zm vp (length v) = Some v"
      using zipmapNext_entry [of k v x pre "zents es' @ [255]"] p(3,5) e unfolding zm(1) by auto
    have fits: "hash_iter_fits h (HIterZip (length (pre @ zent e)))"
      unfolding HashZip hash_iter_fits.simps
      by (rule exI [of _ "pre @ zent e"], rule exI [of _ es']) (use zm(2) p(4,5) Cons in simp)
    have "zipmap_items zm (length (pre @ zent e)) = Some (map binding es')"
      using zipmap_items_entries [of es' "pre @ zent e"] p(4,5) Cons unfolding zm(2) by simp
    then have "hash_pending h (HIterZip (length (pre @ zent e))) = map binding es'" using HashZip by simp
    moreover have "found_sds h (hashTypeCurrent (EntryStr (kp, length k) (vp, length v)) what) = Some (part_text (k, v) what)" for what
      using nx HashZip by (simp add: found_sds_def hashTypeCurrent_def part_text_def)
    moreover have "hashTypeNext h it = Some (h, HIterZip (length (pre @ zent e)), Some (EntryStr (kp, length k) (vp, length v)))"
      using nx(1) HashZip p(1) by (simp add: hashTypeNext_def)
    moreover have "hash_pending h it = (k, v) # map binding es'" using HashZip p(1) items Cons e by (simp add: binding_def)
    ultimately show ?thesis using r fits
      by (intro exI [of _ h] exI [of _ "HIterZip (length (pre @ zent e))"]) (simp del: hash_iter_fits.simps hash_pending.simps length_append)
  qed
next
  case (HashHT d)
  then obtain di where it: "it = HIterHT di" and di: "iter_ok d di" "\<forall>(k, v) \<in> set (iter_rest d di). obj_ok v" using f by (cases it) auto
  have "tables_ok hashDictType d" using r HashHT by (simp add: hash_rep_def table_ok_def dict_ok_def)
  from dictNext_ok [OF this di(1)] obtain d' di' where d': "only_iterators d d'" and n: "case iter_rest d di of
      [] \<Rightarrow> dictNext d di = Some (d', di', None)
    | e # es \<Rightarrow> dictNext d di = Some (d', di', Some e) \<and> iter_ok d' di' \<and> iter_rest d' di' = es"
    by (auto simp: next_spec_def)
  have r': "hash_rep c (HashHT d') m" using only_iterators_table [OF d'] r HashHT by simp
  show ?thesis
  proof (cases "iter_rest d di")
    case Nil
    then show ?thesis using n r' HashHT it
      by (intro exI [of _ "HashHT d'"] exI [of _ "HIterHT di'"]) (simp add: hashTypeNext_def)
  next
    case (Cons e es)
    obtain k v where e: "e = (k, v)" by (cases e)
    have v: "obj_ok v" using di(2) Cons e by simp
    have "found_sds (HashHT d') (hashTypeCurrent (EntryObj k v) what) = Some (part_text (key_text k, obj_bytes v) what)" for what
      using object_sds_ok [OF v] object_sds_ok [OF obj_of_key_ok [of k]]
      by (simp add: found_sds_def hashTypeCurrent_def part_text_def key_text_def)
    then show ?thesis using n r' HashHT it Cons e di(2)
      by (intro exI [of _ "HashHT d'"] exI [of _ "HIterHT di'"]) (simp add: hashTypeNext_def)
  qed
qed

lemma hash_pending_init:
  assumes r: "hash_rep c h m"
  shows "hash_iter_fits h (hashTypeInitIterator h) \<and> distinct (map fst (hash_pending h (hashTypeInitIterator h))) \<and>
    map_of (hash_pending h (hashTypeInitIterator h)) = m"
proof (cases h)
  case (HashZip zm)
  obtain es where es: "zm_rep zm es" "m = map_of (map binding es)" using rep_zipE [OF r [unfolded HashZip]] by blast
  obtain n where n: "zm = [n] @ zents es @ [255]" "list_all zent_ok es" "distinct (map fst es)" "length zm < 2 ^ 32"
    using es(1) by (auto elim: zm_repD)
  have fits: "hash_iter_fits h (hashTypeInitIterator h)"
    unfolding HashZip hashTypeInitIterator_def hash_obj.case hash_iter_fits.simps
    by (rule exI [of _ "[n]"], rule exI [of _ es]) (use n in \<open>simp add: zipmapRewind_def\<close>)
  have "fst \<circ> binding = fst" by (auto simp: fun_eq_iff binding_def split: prod.splits)
  then show ?thesis using fits n(3) es(2) items_rep [OF es(1)] HashZip by (simp add: hashTypeInitIterator_def)
next
  case (HashHT d)
  have d: "table_ok d" "table_texts d = m" using rep_tableE [OF r [unfolded HashHT]] by blast+
  have i: "iter_rest d dictGetIterator = dict_ents d" "iter_ok d dictGetIterator"
    by (simp_all add: iter_rest_def dictGetIterator_def dict_ents_def ents_def ht_def iter_ok_def)
  have ks: "distinct (map (\<lambda>e. key_text (fst e)) (dict_ents d))" using d(1) by (simp add: table_ok_def dict_ok_def)
  have m: "map_of (map (\<lambda>(k, v). (key_text k, obj_bytes v)) (dict_ents d)) = table_texts d"
  proof -
    have eq: "map (\<lambda>(k, v). (key_text k, obj_bytes v)) (dict_ents d) =
        map (\<lambda>(k, v). (k, obj_bytes v)) (map (\<lambda>e. (key_text (fst e), snd e)) (dict_ents d))" by (simp add: case_prod_beta comp_def)
    show ?thesis unfolding eq map_of_map by (simp add: table_texts_def dict_map_def fun_eq_iff)
  qed
  have "obj_ok v" if "(k, v) \<in> set (dict_ents d)" for k v
  proof -
    have "dict_map key_text d (key_text k) = Some v"
      unfolding dict_map_def using that ks by (intro map_of_is_SomeI) (force simp: comp_def)+
    then show ?thesis using d(1) unfolding table_ok_def by blast
  qed
  then show ?thesis using HashHT i ks m d(2)
    by (auto simp: hashTypeInitIterator_def case_prod_beta comp_def)
qed

lemma hash_release_ok: "hash_rep c h m \<Longrightarrow> hash_rep c (hashTypeReleaseIterator h it) m"
proof (cases h; cases it)
  fix d di
  assume "hash_rep c h m" and "h = HashHT d" and "it = HIterHT di"
  moreover have "only_iterators d (dictReleaseIterator d di)"
    using only_iterators_refl [of d] by (auto simp: dictReleaseIterator_def only_iterators_def)
  ultimately show ?thesis using only_iterators_table by (simp add: hashTypeReleaseIterator_def)
qed (simp_all add: hashTypeReleaseIterator_def)

section \<open>Commands\<close>

text \<open>The commands that work on a hash, and their answers.\<close>

datatype hash_op =
    HSet "byte list" "byte list"
  | HSetnx "byte list" "byte list"
  | HMset "(byte list \<times> byte list) list"
  | HIncrby "byte list" int
  | HGet "byte list"
  | HMget "byte list list"
  | HDel "byte list list"
  | HLen
  | HExists "byte list"
  | HGetall "hash_part list"

datatype hash_answer =
    HDone | HBool bool | HNum nat | HText "byte list option" | HTexts "byte list option list"
  | HIncr hincr_reply | HDeleted nat bool | HSent "byte list list"

abbreviation raw :: "byte list \<Rightarrow> robj" where "raw \<equiv> createStringObject 0"

fun hash_exec :: "bool \<Rightarrow> int \<Rightarrow> nat \<Rightarrow> nat \<Rightarrow> hash_op \<Rightarrow> hash_obj \<Rightarrow> (hash_obj \<times> hash_answer) option" where
  "hash_exec cr mem maxval maxent (HSet k v) h =
     do { (h, update) \<leftarrow> hset_object cr mem maxval maxent h (raw k) (raw v); Some (h, HBool update) }"
| "hash_exec cr mem maxval maxent (HSetnx k v) h =
     do { (h, done) \<leftarrow> hsetnx_object cr mem maxval maxent h (raw k) (raw v); Some (h, HBool done) }"
| "hash_exec cr mem maxval maxent (HMset kvs) h =
     do { h \<leftarrow> hmset_object cr mem maxval maxent h (map (\<lambda>(k, v). (raw k, raw v)) kvs); Some (h, HDone) }"
| "hash_exec cr mem maxval maxent (HIncrby k n) h =
     do { (h, r) \<leftarrow> hincrby_object False cr mem maxent h (raw k) n; Some (h, HIncr r) }"
| "hash_exec cr mem maxval maxent (HGet k) h = do { (h, t) \<leftarrow> hget_object h (raw k); Some (h, HText t) }"
| "hash_exec cr mem maxval maxent (HMget ks) h =
     do { (h, ts) \<leftarrow> hmget_object (Some h) (map raw ks); h \<leftarrow> h; Some (h, HTexts ts) }"
| "hash_exec cr mem maxval maxent (HDel ks) h =
     do { (h, n, emptied) \<leftarrow> hdel_object cr h (map raw ks) 0; Some (h, HDeleted n emptied) }"
| "hash_exec cr mem maxval maxent HLen h = do { (h, n) \<leftarrow> hashTypeLength h; Some (h, HNum n) }"
| "hash_exec cr mem maxval maxent (HExists k) h = do { (h, b) \<leftarrow> hashTypeExists h (raw k); Some (h, HBool b) }"
| "hash_exec cr mem maxval maxent (HGetall parts) h = do { (h, ts) \<leftarrow> hgetall_object parts h; Some (h, HSent ts) }"

fun hash_run :: "bool \<Rightarrow> int \<Rightarrow> nat \<Rightarrow> nat \<Rightarrow> hash_op list \<Rightarrow> hash_obj \<Rightarrow> (hash_obj \<times> hash_answer list) option" where
  "hash_run cr mem maxval maxent [] h = Some (h, [])"
| "hash_run cr mem maxval maxent (x # xs) h =
     do { (h, a) \<leftarrow> hash_exec cr mem maxval maxent x h; (h, as) \<leftarrow> hash_run cr mem maxval maxent xs h; Some (h, a # as) }"

text \<open>The specification on maps of texts: HINCRBY, the next map, and the answers that are right.\<close>

definition incr_result :: "int \<Rightarrow> byte list option \<Rightarrow> hincr_reply" where
  "incr_result n t =
     (case (case t of None \<Rightarrow> Some 0 | Some t \<Rightarrow> number t) of
        None \<Rightarrow> HincrNotInteger
      | Some v \<Rightarrow> if LLONG_MIN \<le> v + n \<and> v + n \<le> LLONG_MAX then HincrOk (v + n) else HincrOverflow)"

fun map_step :: "hash_op \<Rightarrow> (byte list \<Rightarrow> byte list option) \<Rightarrow> byte list \<Rightarrow> byte list option" where
  "map_step (HSet k v) m = m(k \<mapsto> v)"
| "map_step (HSetnx k v) m = (if m k = None then m(k \<mapsto> v) else m)"
| "map_step (HMset kvs) m = m ++ map_of (rev kvs)"
| "map_step (HIncrby k n) m = (case incr_result n (m k) of HincrOk r \<Rightarrow> m(k \<mapsto> dec_repr r) | _ \<Rightarrow> m)"
| "map_step (HDel ks) m = m |` (- set ks)"
| "map_step _ m = m"

fun map_allows :: "hash_op \<Rightarrow> (byte list \<Rightarrow> byte list option) \<Rightarrow> hash_answer \<Rightarrow> bool" where
  "map_allows (HSet k v) m a \<longleftrightarrow> a = HBool (m k \<noteq> None)"
| "map_allows (HSetnx k v) m a \<longleftrightarrow> a = HBool (m k = None)"
| "map_allows (HMset kvs) m a \<longleftrightarrow> a = HDone"
| "map_allows (HIncrby k n) m a \<longleftrightarrow> a = HIncr (incr_result n (m k))"
| "map_allows (HGet k) m a \<longleftrightarrow> a = HText (m k)"
| "map_allows (HMget ks) m a \<longleftrightarrow> a = HTexts (map m ks)"
| "map_allows (HDel ks) m a \<longleftrightarrow> a = HDeleted (card (set ks \<inter> dom m)) (set ks \<inter> dom m \<noteq> {} \<and> dom m \<subseteq> set ks)"
| "map_allows HLen m a \<longleftrightarrow> a = HNum (card (dom m))"
| "map_allows (HExists k) m a \<longleftrightarrow> a = HBool (m k \<noteq> None)"
| "map_allows (HGetall parts) m a \<longleftrightarrow>
     (\<exists>kvs. distinct (map fst kvs) \<and> map_of kvs = m \<and> a = HSent (concat (map (\<lambda>kv. map (part_text kv) parts) kvs)))"

fun map_answers :: "hash_op list \<Rightarrow> (byte list \<Rightarrow> byte list option) \<Rightarrow> hash_answer list \<Rightarrow> bool" where
  "map_answers [] m as \<longleftrightarrow> as = []"
| "map_answers (x # xs) m as \<longleftrightarrow> (case as of [] \<Rightarrow> False | a # as \<Rightarrow> map_allows x m a \<and> map_answers xs (map_step x m) as)"

text \<open>Commands whose texts can be printed and read, and the bytes they may add to a zipmap.\<close>

fun op_safe :: "hash_op \<Rightarrow> (byte list \<Rightarrow> byte list option) \<Rightarrow> bool" where
  "op_safe (HSet k v) m \<longleftrightarrow> printable k \<and> printable v"
| "op_safe (HSetnx k v) m \<longleftrightarrow> printable k \<and> printable v"
| "op_safe (HMset kvs) m \<longleftrightarrow> list_all (\<lambda>(k, v). printable k \<and> printable v) kvs"
| "op_safe (HIncrby k n) m \<longleftrightarrow> printable k \<and> LLONG_MIN \<le> n \<and> n \<le> LLONG_MAX \<and> incr_result n (m k) \<noteq> HincrOk LLONG_MIN"
| "op_safe _ m \<longleftrightarrow> True"

fun ops_safe :: "hash_op list \<Rightarrow> (byte list \<Rightarrow> byte list option) \<Rightarrow> bool" where
  "ops_safe [] m = True"
| "ops_safe (x # xs) m \<longleftrightarrow> op_safe x m \<and> ops_safe xs (map_step x m)"

fun hop_cost :: "hash_op \<Rightarrow> nat" where
  "hop_cost (HSet k v) = zcost k v"
| "hop_cost (HSetnx k v) = zcost k v"
| "hop_cost (HMset kvs) = sum_list (map (\<lambda>(k, v). zcost k v) kvs)"
| "hop_cost (HIncrby k n) = zcost k (replicate 20 0)"
| "hop_cost _ = 0"

lemma hset_object_ok:
  assumes r: "hash_rep c h m" and p: "printable k" "printable v" and c: "c + zcost k v < 2 ^ 29"
  shows "\<exists>h'. hset_object cr mem maxval maxent h (raw k) (raw v) = Some (h', m k \<noteq> None) \<and> hash_rep (c + zcost k v) h' (m(k \<mapsto> v))"
proof -
  obtain h1 where h1: "hashTypeTryConversion cr mem maxval h [raw k, raw v] = Some h1" "hash_rep c h1 m" using tryConversion_ok [OF r] by blast
  obtain ko where ko: "hashTypeTryObjectEncoding mem h1 (raw k) = Some ko" "obj_ok ko" "obj_bytes ko = k" using tryEncoding_ok [OF p(1)] by blast
  obtain vo where vo: "hashTypeTryObjectEncoding mem h1 (raw v) = Some vo" "obj_ok vo" "obj_bytes vo = v" using tryEncoding_ok [OF p(2)] by blast
  show ?thesis using hashTypeSet_ok [OF h1(2) ko(2) _ vo(2), of cr mem maxent] ko vo h1(1) p c by (auto simp: hset_object_def)
qed

lemma hsetnx_object_ok:
  assumes r: "hash_rep c h m" and p: "printable k" "printable v" and c: "c + zcost k v < 2 ^ 29"
  shows "\<exists>h'. hsetnx_object cr mem maxval maxent h (raw k) (raw v) = Some (h', m k = None) \<and>
    hash_rep (c + zcost k v) h' (if m k = None then m(k \<mapsto> v) else m)"
proof -
  obtain h1 where h1: "hashTypeTryConversion cr mem maxval h [raw k, raw v] = Some h1" "hash_rep c h1 m" using tryConversion_ok [OF r] by blast
  obtain h2 where h2: "hashTypeExists h1 (raw k) = Some (h2, m k \<noteq> None)" "hash_rep c h2 m"
    using hashTypeExists_ok [OF h1(2) raw_object(1)] raw_object(2) by metis
  show ?thesis
  proof (cases "m k = None")
    case True
    obtain ko where ko: "hashTypeTryObjectEncoding mem h2 (raw k) = Some ko" "obj_ok ko" "obj_bytes ko = k" using tryEncoding_ok [OF p(1)] by blast
    obtain vo where vo: "hashTypeTryObjectEncoding mem h2 (raw v) = Some vo" "obj_ok vo" "obj_bytes vo = v" using tryEncoding_ok [OF p(2)] by blast
    show ?thesis using hashTypeSet_ok [OF h2(2) ko(2) _ vo(2), of cr mem maxent] ko vo h1(1) h2(1) p c True
      by (auto simp: hsetnx_object_def)
  next
    case False
    then have "hash_rep (c + zcost k v) h2 m" using rep_mono [OF h2(2) _ c] by simp
    then show ?thesis using h1(1) h2(1) False by (auto simp: hsetnx_object_def)
  qed
qed

lemma hmset_loop_ok:
  "hash_rep c h m \<Longrightarrow> list_all (\<lambda>(k, v). printable k \<and> printable v) kvs \<Longrightarrow> c + sum_list (map (\<lambda>(k, v). zcost k v) kvs) < 2 ^ 29 \<Longrightarrow>
   \<exists>h'. hmset_loop cr mem maxent h (map (\<lambda>(k, v). (raw k, raw v)) kvs) = Some h' \<and>
     hash_rep (c + sum_list (map (\<lambda>(k, v). zcost k v) kvs)) h' (m ++ map_of (rev kvs))"
proof (induction kvs arbitrary: c h m)
  case (Cons kv kvs)
  obtain k v where kv: "kv = (k, v)" by (cases kv)
  have p: "printable k" "printable v" using Cons.prems(2) kv by simp_all
  obtain ko where ko: "hashTypeTryObjectEncoding mem h (raw k) = Some ko" "obj_ok ko" "obj_bytes ko = k" using tryEncoding_ok [OF p(1)] by blast
  obtain vo where vo: "hashTypeTryObjectEncoding mem h (raw v) = Some vo" "obj_ok vo" "obj_bytes vo = v" using tryEncoding_ok [OF p(2)] by blast
  have c: "c + zcost k v < 2 ^ 29" using Cons.prems(3) kv by simp
  obtain h1 b where h1: "hashTypeSet cr mem maxent h ko vo = Some (h1, b)" "hash_rep (c + zcost k v) h1 (m(k \<mapsto> v))"
    using hashTypeSet_ok [OF Cons.prems(1) ko(2) _ vo(2), of cr mem maxent] ko(3) vo(3) p c by auto
  have "(m(k \<mapsto> v)) ++ map_of (rev kvs) = m ++ map_of (rev (kv # kvs))"
    using kv by (auto simp: fun_eq_iff map_add_def split: option.splits)
  moreover obtain h' where "hmset_loop cr mem maxent h1 (map (\<lambda>(k, v). (raw k, raw v)) kvs) = Some h'"
    "hash_rep (c + zcost k v + sum_list (map (\<lambda>(k, v). zcost k v) kvs)) h' (m(k \<mapsto> v) ++ map_of (rev kvs))"
  proof -
    have "list_all (\<lambda>(k, v). printable k \<and> printable v) kvs" "c + zcost k v + sum_list (map (\<lambda>(k, v). zcost k v) kvs) < 2 ^ 29"
      using Cons.prems(2,3) kv by simp_all
    then show thesis using Cons.IH [OF h1(2)] that by blast
  qed
  ultimately show ?case using ko(1) vo(1) h1(1) kv by (simp add: add.assoc)
qed simp

lemma hmset_object_ok:
  assumes r: "hash_rep c h m" and p: "list_all (\<lambda>(k, v). printable k \<and> printable v) kvs" and c: "c + sum_list (map (\<lambda>(k, v). zcost k v) kvs) < 2 ^ 29"
  shows "\<exists>h'. hmset_object cr mem maxval maxent h (map (\<lambda>(k, v). (raw k, raw v)) kvs) = Some h' \<and>
    hash_rep (c + sum_list (map (\<lambda>(k, v). zcost k v) kvs)) h' (m ++ map_of (rev kvs))"
proof -
  obtain h1 where h1: "hashTypeTryConversion cr mem maxval h (concat (map (\<lambda>(k, v). [k, v]) (map (\<lambda>(k, v). (raw k, raw v)) kvs))) = Some h1"
    "hash_rep c h1 m" using tryConversion_ok [OF r] by blast
  show ?thesis using hmset_loop_ok [OF h1(2) p c, of cr mem maxent] h1(1) by (auto simp: hmset_object_def)
qed

lemma getLongLong_text:
  "obj_ok ob \<Longrightarrow> getLongLongFromObject False (Some ob) = Some (number (obj_bytes ob))"
  using getLongLong_ok [of ob None]
  by (auto simp: getLongLongFromObjectOrReply_def converted_def split: option.splits)

lemma number_long: "number b = Some n \<Longrightarrow> LLONG_MIN \<le> n \<and> n \<le> LLONG_MAX"
  by (rule number_range)

lemma incr_overflow:
  assumes "LLONG_MIN \<le> v" and "v \<le> LLONG_MAX" and "LLONG_MIN \<le> n" and "n \<le> LLONG_MAX"
  shows "(n < 0 \<and> v < 0 \<and> n < LLONG_MIN - v \<or> n > 0 \<and> v > 0 \<and> n > LLONG_MAX - v) \<longleftrightarrow> \<not> (LLONG_MIN \<le> v + n \<and> v + n \<le> LLONG_MAX)"
  using assms by (auto simp: c_limits)

lemma from_long:
  assumes "LLONG_MIN < r" and "r \<le> LLONG_MAX"
  shows "\<exists>x. createStringObjectFromLongLong True 0 r = Some x \<and> obj_ok (ref_obj x) \<and> obj_bytes (ref_obj x) = dec_repr r"
  using assms by (auto simp: createStringObjectFromLongLong_def ref_obj_def createObject_def obj_ok_def obj_bytes_def c_limits)

lemma zcost_mono: "length v \<le> length w \<Longrightarrow> zcost k v \<le> zcost k w"
  by (auto simp: zcost_def length_zent ZIPMAP_LEN_BYTES_def)

lemma printable_long: "LLONG_MIN < r \<Longrightarrow> printable (dec_repr r)"
  using dec_repr_inj by (auto simp: printable_def)

lemma hincrby_object_ok:
  assumes r: "hash_rep c h m" and p: "printable k" and n: "LLONG_MIN \<le> n" "n \<le> LLONG_MAX" and fits: "incr_result n (m k) \<noteq> HincrOk LLONG_MIN"
    and c: "c + zcost k (replicate 20 0) < 2 ^ 29"
  shows "\<exists>h'. hincrby_object False cr mem maxent h (raw k) n = Some (h', incr_result n (m k)) \<and>
    hash_rep (c + zcost k (replicate 20 0)) h' (case incr_result n (m k) of HincrOk r \<Rightarrow> m(k \<mapsto> dec_repr r) | _ \<Rightarrow> m)"
proof -
  let ?z = "zcost k (replicate 20 0)"
  obtain h1 x where h1: "hashTypeGetObject h (raw k) = Some (h1, x)" "hash_rep c h1 m" "m k = map_option obj_bytes x" "pred_option obj_ok x"
    using hashTypeGetObject_ok [OF r raw_object(1)] raw_object(2) by metis
  have val: "(case x of None \<Rightarrow> Some (Some 0) | Some ob \<Rightarrow> getLongLongFromObject False (Some ob)) =
      Some (case m k of None \<Rightarrow> Some 0 | Some t \<Rightarrow> number t)"
    using h1(3,4) getLongLong_text by (cases x) simp_all
  show ?thesis
  proof (cases "case m k of None \<Rightarrow> Some 0 | Some t \<Rightarrow> number t")
    case None
    then have "incr_result n (m k) = HincrNotInteger" by (simp add: incr_result_def)
    then show ?thesis using h1(1) val None rep_mono [OF h1(2) _ c] by (simp add: hincrby_object_def)
  next
    case (Some v)
    have v: "LLONG_MIN \<le> v" "v \<le> LLONG_MAX"
      using Some number_long by (auto simp: c_limits split: option.splits)
    show ?thesis
    proof (cases "LLONG_MIN \<le> v + n \<and> v + n \<le> LLONG_MAX")
      case False
      then have "incr_result n (m k) = HincrOverflow" using Some by (simp add: incr_result_def)
      then show ?thesis using h1(1) val Some rep_mono [OF h1(2) _ c] False incr_overflow [OF v n] by (simp add: hincrby_object_def)
    next
      case True
      then have res: "incr_result n (m k) = HincrOk (v + n)" using Some by (simp add: incr_result_def)
      then have vn: "LLONG_MIN < v + n" "v + n \<le> LLONG_MAX" using True fits by auto
      obtain x where x: "createStringObjectFromLongLong True 0 (v + n) = Some x" "obj_ok (ref_obj x)" "obj_bytes (ref_obj x) = dec_repr (v + n)"
        using from_long [OF vn] by blast
      obtain ko where ko: "hashTypeTryObjectEncoding mem h1 (raw k) = Some ko" "obj_ok ko" "obj_bytes ko = k" using tryEncoding_ok [OF p] by blast
      have "zcost k (dec_repr (v + n)) \<le> ?z" using length_dec_repr [of "v + n"] vn by (intro zcost_mono) simp
      then have z: "c + zcost k (dec_repr (v + n)) \<le> c + ?z" "c + zcost k (dec_repr (v + n)) < 2 ^ 29" using c by simp_all
      obtain h2 b where h2: "hashTypeSet cr mem maxent h1 ko (ref_obj x) = Some (h2, b)"
        "hash_rep (c + zcost k (dec_repr (v + n))) h2 (m(k \<mapsto> dec_repr (v + n)))"
        using hashTypeSet_ok [OF h1(2) ko(2) _ x(2), of cr mem maxent] ko(3) x(3) p printable_long [OF vn(1)] z(2) by auto
      have "hash_rep (c + ?z) h2 (m(k \<mapsto> dec_repr (v + n)))" using rep_mono [OF h2(2) z(1) c] .
      moreover have "hincrby_object False cr mem maxent h (raw k) n = Some (h2, HincrOk (v + n))"
        unfolding hincrby_object_def h1(1) using val Some True incr_overflow [OF v n] x(1) ko(1) h2(1) by simp
      ultimately show ?thesis using res by simp
    qed
  qed
qed

lemma hmget_object_ok:
  "hash_rep c h m \<Longrightarrow> \<exists>h'. hmget_object (Some h) (map raw ks) = Some (Some h', map m ks) \<and> hash_rep c h' m"
proof (induction ks arbitrary: h)
  case (Cons k ks)
  obtain h1 where h1: "hget_object h (raw k) = Some (h1, m k)" "hash_rep c h1 m"
    using hget_object_ok [OF Cons.prems raw_object(1)] raw_object(2) by metis
  show ?case using Cons.IH [OF h1(2)] h1(1) by auto
qed simp

lemma hdel_object_ok:
  assumes "hash_rep c h m"
  shows "\<exists>h'. hdel_object cr h (map raw ks) n =
      Some (h', n + card (set ks \<inter> dom m), set ks \<inter> dom m \<noteq> {} \<and> dom m \<subseteq> set ks) \<and> hash_rep c h' (m |` (- set ks))"
  using assms
proof (induction ks arbitrary: h m n)
  case (Cons k ks)
  obtain h1 where h1: "hashTypeDelete cr h (raw k) = Some (h1, m k \<noteq> None)" "hash_rep c h1 (m(k := None))"
    using hashTypeDelete_ok [OF Cons.prems raw_object(1)] raw_object(2) by metis
  have m: "(m(k := None)) |` (- set ks) = m |` (- set (k # ks))" by (auto simp: restrict_map_def fun_eq_iff)
  show ?case
  proof (cases "m k = None")
    case True
    then have "m(k := None) = m" "set (k # ks) \<inter> dom m = set ks \<inter> dom m" "dom m \<subseteq> set (k # ks) \<longleftrightarrow> dom m \<subseteq> set ks" by auto
    then show ?thesis using Cons.IH [OF h1(2), of n] h1(1) m True by auto
  next
    case False
    have fin: "finite (dom m)" using finite_rep [OF Cons.prems] .
    have split: "set (k # ks) \<inter> dom m = insert k (set ks \<inter> dom (m(k := None)))" using False by auto
    have card: "card (set (k # ks) \<inter> dom m) = Suc (card (set ks \<inter> dom (m(k := None))))"
      unfolding split using fin by (subst card_insert_disjoint) auto
    obtain h2 where h2: "hashTypeLength h1 = Some (h2, card (dom (m(k := None))))" "hash_rep c h2 (m(k := None))"
      using hashTypeLength_ok [OF h1(2)] by blast
    have zero: "card (dom (m(k := None))) = 0 \<longleftrightarrow> dom (m(k := None)) = {}" using fin by simp
    show ?thesis
    proof (cases "dom (m(k := None)) = {}")
      case True
      then have "m(k := None) = Map.empty" by (simp add: dom_def fun_eq_iff)
      moreover from this have "m |` (- set (k # ks)) = Map.empty" using m by (metis restrict_map_empty)
      moreover have "dom m \<subseteq> set (k # ks)" "set (k # ks) \<inter> dom m \<noteq> {}" using True False by auto
      moreover have "set ks \<inter> dom (m(k := None)) = {}" using True by blast
      then have "card (set (k # ks) \<inter> dom m) = 1" using card by (simp del: dom_fun_upd)
      ultimately show ?thesis using h1(1) h2 False by (simp del: dom_fun_upd)
    next
      case ne: False
      obtain h3 where h3: "hdel_object cr h2 (map raw ks) (n + 1) =
          Some (h3, n + 1 + card (set ks \<inter> dom (m(k := None))), set ks \<inter> dom (m(k := None)) \<noteq> {} \<and> dom (m(k := None)) \<subseteq> set ks)"
        "hash_rep c h3 (m(k := None) |` (- set ks))" using Cons.IH [OF h2(2), of "n + 1"] by blast
      have "set ks \<inter> dom (m(k := None)) \<noteq> {} \<and> dom (m(k := None)) \<subseteq> set ks \<longleftrightarrow> set (k # ks) \<inter> dom m \<noteq> {} \<and> dom m \<subseteq> set (k # ks)"
        using ne False by auto
      moreover have "hdel_object cr h (map raw (k # ks)) n = hdel_object cr h2 (map raw ks) (n + 1)"
        using h1(1) h2(1) False ne zero by (simp del: dom_fun_upd)
      ultimately show ?thesis using h3 m card by (simp del: dom_fun_upd)
    qed
  qed
qed (simp add: restrict_map_def)

lemma hgetall_loop_ok:
  assumes "hash_rep c h m" and "hash_iter_fits h it"
  shows "\<exists>h' it'. hgetall_loop parts h it sent =
      Some (h', it', sent @ concat (map (\<lambda>kv. map (part_text kv) parts) (hash_pending h it))) \<and> hash_rep c h' m"
  using assms
proof (induction "hash_pending h it" arbitrary: h it sent)
  case Nil
  then show ?case using hashTypeNext_ok [OF Nil.prems] by (subst hgetall_loop.simps) force
next
  case (Cons kv kvs)
  obtain h1 it1 e where n: "hash_rep c h1 m" "hashTypeNext h it = Some (h1, it1, Some e)" "hash_iter_fits h1 it1" "kvs = hash_pending h1 it1"
    "\<forall>what. found_sds h1 (hashTypeCurrent e what) = Some (part_text kv what)"
    using hashTypeNext_ok [OF Cons.prems] unfolding Cons.hyps(2) [symmetric] by (auto simp del: hash_pending.simps hash_iter_fits.simps)
  have "those (map (\<lambda>what. found_sds h1 (hashTypeCurrent e what)) parts) = Some (map (part_text kv) parts)"
    using n(5) by (induction parts) simp_all
  then show ?case using Cons.hyps(1) [OF n(4,1,3), of "sent @ map (part_text kv) parts"] n(2,4) Cons.hyps(2)
    by (subst hgetall_loop.simps) (auto simp flip: Cons.hyps(2))
qed

lemma hgetall_object_ok:
  assumes "hash_rep c h m"
  shows "\<exists>h' ts. hgetall_object parts h = Some (h', ts) \<and> hash_rep c h' m \<and> map_allows (HGetall parts) m (HSent ts)"
proof -
  note i = hash_pending_init [OF assms]
  obtain h1 it1 where l: "hgetall_loop parts h (hashTypeInitIterator h) [] =
      Some (h1, it1, concat (map (\<lambda>kv. map (part_text kv) parts) (hash_pending h (hashTypeInitIterator h))))" "hash_rep c h1 m"
    using hgetall_loop_ok [OF assms, of "hashTypeInitIterator h" parts "[]"] i by auto
  then show ?thesis using i hash_release_ok [OF l(2), of it1] by (auto simp: hgetall_object_def)
qed

lemma hash_exec_ok:
  assumes r: "hash_rep c h m" and s: "op_safe x m" and c: "c + hop_cost x < 2 ^ 29"
  shows "\<exists>h' a. hash_exec cr mem maxval maxent x h = Some (h', a) \<and> map_allows x m a \<and> hash_rep (c + hop_cost x) h' (map_step x m)"
proof (cases x)
  case (HSet k v)
  then show ?thesis using hset_object_ok [OF r, of k v cr mem maxval maxent] s c by auto
next
  case (HSetnx k v)
  then show ?thesis using hsetnx_object_ok [OF r, of k v cr mem maxval maxent] s c by auto
next
  case (HMset kvs)
  then show ?thesis using hmset_object_ok [OF r, of kvs cr mem maxval maxent] s c by auto
next
  case (HIncrby k n)
  then obtain h' where "hincrby_object False cr mem maxent h (raw k) n = Some (h', incr_result n (m k))"
    "hash_rep (c + zcost k (replicate 20 0)) h' (map_step x m)"
    using hincrby_object_ok [OF r, of k n cr mem maxent] s c by auto
  then show ?thesis using HIncrby by simp
next
  case (HGet k)
  then show ?thesis using hget_object_ok [OF r raw_object(1), of k] raw_object(2) [of k] by auto
next
  case (HMget ks)
  then show ?thesis using hmget_object_ok [OF r, of ks] by auto
next
  case (HDel ks)
  then show ?thesis using hdel_object_ok [OF r, of cr ks 0] by auto
next
  case HLen
  then show ?thesis using hashTypeLength_ok [OF r] by auto
next
  case (HExists k)
  then show ?thesis using hashTypeExists_ok [OF r raw_object(1), of k] raw_object(2) [of k] by auto
next
  case (HGetall parts)
  then show ?thesis using hgetall_object_ok [OF r, of parts] by (auto simp del: map_allows.simps)
qed

lemma hash_run_ok:
  "hash_rep c h m \<Longrightarrow> ops_safe xs m \<Longrightarrow> c + sum_list (map hop_cost xs) < 2 ^ 29 \<Longrightarrow>
     \<exists>h' as. hash_run cr mem maxval maxent xs h = Some (h', as) \<and> map_answers xs m as"
proof (induction xs arbitrary: c h m)
  case (Cons x xs)
  have c: "c + hop_cost x < 2 ^ 29" "c + hop_cost x + sum_list (map hop_cost xs) < 2 ^ 29" and s: "op_safe x m" "ops_safe xs (map_step x m)"
    using Cons.prems(2,3) by simp_all
  obtain h1 a where h1: "hash_exec cr mem maxval maxent x h = Some (h1, a)" "map_allows x m a" "hash_rep (c + hop_cost x) h1 (map_step x m)"
    using hash_exec_ok [OF Cons.prems(1) s(1) c(1)] by blast
  obtain h2 as where "hash_run cr mem maxval maxent xs h1 = Some (h2, as)" "map_answers xs (map_step x m) as"
    using Cons.IH [OF h1(3) s(2) c(2)] by blast
  then show ?case using h1 by (auto simp del: map_allows.simps map_step.simps hash_exec.simps)
qed simp

section \<open>Refinement\<close>

text \<open>C25: A hash object answers any sequence of HSET, HSETNX, HMSET, HINCRBY, HGET, HMGET, HDEL, HLEN,
  HEXISTS and HGETALL as a finite map of texts does, whatever the limits of the zipmap are and whenever it becomes a
  hash table. HGETALL sends every binding of the map once. HINCRBY is run with an \<^verbatim>\<open>errno\<close> that is not \<^verbatim>\<open>ERANGE\<close> (the code does
  not reset it, \<^verbatim>\<open>object.c:404\<close>), and no field or value is the text of the least \<^verbatim>\<open>long long\<close>; less than 512 MB are inserted.\<close>

theorem hash_object_refines_map:
  assumes "ops_safe xs Map.empty" and "sum_list (map hop_cost xs) < 2 ^ 29"
  shows "\<exists>h as. do { h \<leftarrow> createHashObject; hash_run cr mem maxval maxent xs h } = Some (h, as) \<and> map_answers xs Map.empty as"
proof -
  have "hash_rep 0 (HashZip [0, 255]) Map.empty"
    using zipmapNew_rep(2) by (auto simp: hash_rep_def printable_map_def intro: exI [of _ "[]"])
  then show ?thesis using hash_run_ok [of 0 "HashZip [0, 255]" Map.empty xs] assms unfolding createHashObject_def zipmapNew_rep(1) by simp
qed

lemma hash_object_refines_map_witness:
  "\<exists>h. do { h \<leftarrow> createHashObject; hash_run True 0 64 1
        [HSet [97] [49], HIncrby [97] 5, HSet [98] [50], HGet [97], HDel [[98], [99]], HLen] h } =
     Some (h, [HBool False, HIncr (HincrOk 6), HBool False, HText (Some (dec_repr 6)), HDeleted 1 False, HNum 1])"
proof -
  have n: "incr_result 5 (Some [49]) = HincrOk 6"
    by (simp add: incr_result_def number_def strtoll_def isspace_def isdigit_def digit_val_def Let_def c_limits)
  have p: "printable [97]" "printable [98]" "printable [49]" "printable [50]" by (rule printable_hd, simp)+
  have "set [[98], [99]] \<inter> dom [[97 :: byte] \<mapsto> dec_repr 6, [98] \<mapsto> [50 :: byte]] = {[98]}" by auto
  then have dom: "set [[98], [99]] \<inter> dom [[97] \<mapsto> dec_repr 6, [98] \<mapsto> [50 :: byte]] = {[98 :: byte]}" .
  let ?xs = "[HSet [97] [49], HIncrby [97] 5, HSet [98] [50], HGet [97], HDel [[98], [99]], HLen]"
  have safe: "ops_safe ?xs Map.empty" using p n by (simp add: c_limits)
  have cost: "sum_list (map hop_cost ?xs) < 2 ^ 29" by (simp add: zcost_def length_zent ZIPMAP_LEN_BYTES_def ZIPMAP_BIGLEN_def)
  obtain h as where r: "do { h \<leftarrow> createHashObject; hash_run True 0 64 1 ?xs h } = Some (h, as)" and a: "map_answers ?xs Map.empty as"
    using hash_object_refines_map [OF safe cost, of True 0 64 1] by blast
  have "as = [HBool False, HIncr (HincrOk 6), HBool False, HText (Some (dec_repr 6)), HDeleted 1 False, HNum 1]"
    using a n dom by (auto split: list.splits)
  then show ?thesis using r by blast
qed

end
