(* ===== verification/Requests.thy ===== *)
theory Requests
  imports ServerRun ProtocolSpec
begin

text \<open>
  From the bytes on a socket to executed commands: \<^verbatim>\<open>readQueryFromClient\<close> and \<^verbatim>\<open>processInputBuffer\<close> of
  \<^verbatim>\<open>src/webserver/redis/src/networking.c\<close> run with \<^verbatim>\<open>processCommand\<close> of \<^verbatim>\<open>redis.c\<close>.
\<close>

section \<open>Commands of a connection\<close>

text \<open>The two models have the fields of one \<^verbatim>\<open>redisClient\<close>: the arguments and the flags are in both.\<close>

definition client_command ::
  "(string \<Rightarrow> nat \<Rightarrow> redisServer \<Rightarrow> redisServer option) \<Rightarrow> (redisServer \<Rightarrow> (redisServer \<times> bool) option) \<Rightarrow> nat \<Rightarrow>
     'a pclient_scheme \<Rightarrow> redisServer \<Rightarrow> (bool \<times> 'a pclient_scheme \<times> redisServer) option" where
  "client_command oth evict i c s =
     do { (ok, s) \<leftarrow> processCommand oth evict i (upd_client i (\<lambda>k. k\<lparr>k_argv := p_argv c\<rparr>) s);
          k \<leftarrow> s_clients s i;
          Some (ok, c\<lparr>p_argv := k_argv k, p_flags := k_flags k\<rparr>, s) }"

definition blocked_or_closing :: "client_flag set \<Rightarrow> bool" where
  "blocked_or_closing fl \<longleftrightarrow> REDIS_BLOCKED \<in> fl \<or> REDIS_IO_WAIT \<in> fl \<or> REDIS_CLOSE_AFTER_REPLY \<in> fl"

text \<open>Requests executed one after the other. There is no result if one does not return \<^verbatim>\<open>REDIS_OK\<close>, or blocks the client or asks to
  close it.\<close>

fun requests_run ::
  "(string \<Rightarrow> nat \<Rightarrow> redisServer \<Rightarrow> redisServer option) \<Rightarrow> (redisServer \<Rightarrow> (redisServer \<times> bool) option) \<Rightarrow> nat \<Rightarrow>
     byte list list list \<Rightarrow> redisServer \<Rightarrow> redisServer option" where
  "requests_run oth evict i [] s = Some s"
| "requests_run oth evict i (cmd # cmds) s =
     do { (ok, s) \<leftarrow> processCommand oth evict i (upd_client i (\<lambda>k. k\<lparr>k_argv := cmd\<rparr>) s);
          k \<leftarrow> s_clients s i;
          require (ok \<and> \<not> blocked_or_closing (k_flags k));
          requests_run oth evict i cmds s }"

lemma requests_run_runs: "requests_run oth evict i cmds s = Some s' \<Longrightarrow> runs (client_command oth evict i) s cmds s'"
proof (induction cmds arbitrary: s)
  case (Cons cmd cmds)
  obtain s1 k where s1: "processCommand oth evict i (upd_client i (\<lambda>k. k\<lparr>k_argv := cmd\<rparr>) s) = Some (True, s1)" "s_clients s1 i = Some k"
    "\<not> blocked_or_closing (k_flags k)" "requests_run oth evict i cmds s1 = Some s'"
    using Cons.prems by (auto simp: require_def elim!: bindE split: if_split_asm)
  have "\<exists>c'. client_command oth evict i c s = Some (True, c', s1) \<and> p_querybuf c' = p_querybuf c \<and> live c'"
    if "live c \<and> p_argv c = cmd" for c :: "'a pclient_scheme"
    using that s1(1-3) by (auto simp: client_command_def live_def blocked_or_closing_def)
  then show ?case using Cons.IH [OF s1(4)] by auto
qed simp

text \<open>C17: A client with an empty query buffer sends requests of at most 64 KB each (a longer one can be refused), all of which the
  server would execute one after the other without blocking the client or closing it. However the bytes of the requests
  are cut into packets, reading the packets leads the server to the same state as executing the requests in order, and
  the client is left idle with an empty query buffer.\<close>

theorem requests_roundtrip:
  assumes "requests_run oth evict i cmds s = Some s'" and "idle c" and "list_all request_ok cmds" and "concat packets = enc_cmds cmds"
    and "list_all (\<lambda>buf. buf \<noteq> [] \<and> length buf \<le> REDIS_IOBUF_LEN) packets"
    and "REDIS_INLINE_MAX_SIZE + REDIS_IOBUF_LEN \<le> client_max_querybuf_len"
  shows "\<exists>c'. read_packets client_max_querybuf_len (client_command oth evict i) packets c s = Some (Some c', s') \<and> idle c'"
  by (rule packets_executed [OF requests_run_runs [OF assms(1)] assms(2-6)])

text \<open>\<^verbatim>\<open>GET k\<close> and \<^verbatim>\<open>DEL k\<close> in three packets, the first cut inside a length and the second after the first request and a
  byte.\<close>

definition demo_gets :: redisServer where
  "demo_gets = (demo_server [] None)
     \<lparr>s_commands := dictCreate\<lparr>ht0 := \<lparr>ht_table = [[(ascii_text ''get'', redis_command ''get'' GetCommand 2 {} None 0 0 0),
        (ascii_text ''del'', redis_command ''del'' DelCommand (-2) {} None 0 0 0)]], ht_size = 1, ht_mask = 0, ht_used = 2\<rparr>\<rparr>\<rparr>"

lemma gets_lookup:
  "s_commands s = s_commands demo_gets \<Longrightarrow> lookupCommand [71, 69, 84] s = Some (s, Some (redis_command ''get'' GetCommand 2 {} None 0 0 0))"
  "s_commands s = s_commands demo_gets \<Longrightarrow> lookupCommand [68, 69, 76] s = Some (s, Some (redis_command ''del'' DelCommand (-2) {} None 0 0 0))"
  by (simp_all add: lookupCommand_def dictFetchValue_def dictFind_def demo_gets_def step_if_rehashing_def dictIsRehashing_def
      dictCreate_def u_dictInit_def search_tables_def probe_def bucket_def ht_def dictCompareHashKeys_def commandTableDictType_def
      ascii_text_def entry_at_def dictSdsKeyCaseCompare_def c_str_def strcaseeq_def tolower_def)

lemma demo_gets_run: "\<exists>s' k. requests_run (\<lambda>n i s. None) (\<lambda>s. None) 0 [[[71, 69, 84], [107]], [[68, 69, 76], [107]]] demo_gets = Some s' \<and>
     content s' 0 [107] = None \<and> s_clients s' 0 = Some k \<and> k_out k = [36, 49, 13, 10, 118, 13, 10, 58, 49, 13, 10]"
proof -
  note defs = dictSdsKeyCaseCompare_def c_str_def strcaseeq_def tolower_def ascii_text_def argc_def argv_def bad_arity_def redis_command_def memory_test_def
    refusal_def dispatch_def has_flag_def call_def call_with_def run_command_def run_proc_def args_from_def client_db_def require_def
    upd_client_def upd_db_def addReply_bytes_def add_feed_def demo_server_def new_client_def
  let ?p = "processCommand (\<lambda>n i s. None) (\<lambda>s. None) 0"
  let ?in = "\<lambda>av. upd_client 0 (\<lambda>k. k\<lparr>k_argv := av\<rparr>)"
  define s0 where "s0 = ?in [[71, 69, 84], [107]] demo_gets"
  have l0: "lookupCommand [71, 69, 84] s0 = Some (s0, Some (redis_command ''get'' GetCommand 2 {} None 0 0 0))"
    by (rule gets_lookup) (simp add: s0_def)
  have ob: "o_type (raw_string [118]) = REDIS_STRING" "object_text (raw_string [118]) = Some [118]"
    by (simp_all add: raw_string_def createStringObject_def createObject_def object_text_def getDecodedObject_def incrRefCount_def)
  have bulk: "bulk_bytes [118] = [36, 49, 13, 10, 118, 13, 10]" by (simp add: bulk_bytes_def dec_nat.simps digit_char_def)
  define k where "k = new_client\<lparr>k_argv := [[71, 69, 84], [107]], k_cmd := Some (redis_command ''get'' GetCommand 2 {} None 0 0 0),
    k_out := [36, 49, 13, 10, 118, 13, 10]\<rparr>"
  define s1 where "s1 = s0\<lparr>s_clients := (s_clients s0)(0 \<mapsto> k)\<rparr>"
  have s1: "?p s0 = Some (True, s1)"
    using l0 by (simp add: processCommand_def defs) (simp add: s1_def k_def s0_def demo_gets_def defs getCommand_def getGenericCommand_def ob bulk
      reply_bulk_def lookupKeyReadOrReply_def lookupKeyRead_def expireIfNeeded_def getExpire_def lookupKey_def)
  have ck: "s_clients s1 0 = Some k" "k_flags k = {}" by (simp_all add: s1_def k_def new_client_def)
  define s2 where "s2 = ?in [[68, 69, 76], [107]] s1"
  have l2: "lookupCommand [68, 69, 76] s2 = Some (s2, Some (redis_command ''del'' DelCommand (-2) {} None 0 0 0))"
    by (rule gets_lookup) (simp add: s2_def s1_def s0_def)
  have "\<exists>s3 k. ?p s2 = Some (True, s3) \<and> content s3 0 [107] = None \<and> s_clients s3 0 = Some k \<and>
      k_out k = [36, 49, 13, 10, 118, 13, 10, 58, 49, 13, 10] \<and> k_flags k = {}"
    using l2 by (simp add: processCommand_def defs) (simp add: s2_def s1_def k_def s0_def demo_gets_def defs delCommand_def reply_line_def shared_cone_def dec_repr_def dec_nat.simps digit_char_def
      dbDelete_def signalModifiedKey_def touchWatchedKey_def mark_dirty_def add_dirty_def reply_longlong_def content_def)
  then obtain s3 k' where "?p s2 = Some (True, s3)" "content s3 0 [107] = None" "s_clients s3 0 = Some k'"
    "k_out k' = [36, 49, 13, 10, 118, 13, 10, 58, 49, 13, 10]" "k_flags k' = {}" by blast
  then show ?thesis
    using s1 ck by (simp add: require_def blocked_or_closing_def flip: s0_def s2_def)
qed

lemma requests_roundtrip_witness:
  "\<exists>c' s' k. read_packets 100000 (client_command (\<lambda>n i s. None) (\<lambda>s. None) 0)
       [[42, 50, 13, 10, 36], [51, 13, 10, 71, 69, 84, 13, 10, 36, 49, 13, 10, 107, 13, 10, 42],
        [50, 13, 10, 36, 51, 13, 10, 68, 69, 76, 13, 10, 36, 49, 13, 10, 107, 13, 10]] (new_pclient []) demo_gets = Some (Some c', s') \<and>
     idle c' \<and> content s' 0 [107] = None \<and> s_clients s' 0 = Some k \<and> k_out k = [36, 49, 13, 10, 118, 13, 10, 58, 49, 13, 10]"
proof -
  let ?cmds = "[[[71, 69, 84], [107]], [[68, 69, 76], [107]]]"
  let ?ps = "[[42, 50, 13, 10, 36], [51, 13, 10, 71, 69, 84, 13, 10, 36, 49, 13, 10, 107, 13, 10, 42],
        [50, 13, 10, 36, 51, 13, 10, 68, 69, 76, 13, 10, 36, 49, 13, 10, 107, 13, 10]]"
  obtain s' k where r: "requests_run (\<lambda>n i s. None) (\<lambda>s. None) 0 ?cmds demo_gets = Some s'"
    and s': "content s' 0 [107] = None" "s_clients s' 0 = Some k" "k_out k = [36, 49, 13, 10, 118, 13, 10, 58, 49, 13, 10]"
    using demo_gets_run by blast
  have "\<exists>c'. read_packets 100000 (client_command (\<lambda>n i s. None) (\<lambda>s. None) 0) ?ps (new_pclient []) demo_gets = Some (Some c', s') \<and> idle c'"
    by (rule requests_roundtrip [OF r idle_new])
      (simp_all add: request_ok_def enc_cmds_def enc_cmd_def enc_args_def enc_arg_def crlf_bytes_def dec_nat.simps
        digit_char_def REDIS_INLINE_MAX_SIZE_def REDIS_IOBUF_LEN_def)
  then show ?thesis using s' by blast
qed

end
