(* ===== verification/Spec2Isabelle.thy ===== *)
theory Spec2Isabelle
  imports RPrelude Endian Interfaces Util Glob Sds SdsText Intset Dict Object DictTypes Ziplist ZiplistRep ZiplistOps ZiplistDel ZiplistList ZiplistSpec Lzf LzfSpec LzfRound Reply ReplySpec Protocol ProtocolSpec Server KeySpace TString Multi KeySpec Cron MultiSpec ServerRun Store StringOps StringSpec Typed Zipmap ZipmapSpec SetType SetSpec Rdb RdbText ListType ListSpec HashType HashSpec Requests
begin

text \<open>
  Verification library of the key-value server in \<^verbatim>\<open>src/webserver/redis/src\<close> (Redis 2.4.15), the
  part of the repository written in C. The rest (an iOS client, Python scripts that fill the store
  and send notifications) only talks to this server; its third-party dependencies
  (\<^verbatim>\<open>redis/deps\<close>) are not part of the library.

  Bytes from a socket are collected in a query buffer, cut into requests (\<^verbatim>\<open>networking.c\<close>) and
  executed by \<^verbatim>\<open>processCommand\<close> (\<^verbatim>\<open>redis.c\<close>), which looks the command up, refuses it, queues it in
  a transaction (\<^verbatim>\<open>multi.c\<close>) or calls it. Commands read and write the key space (\<^verbatim>\<open>db.c\<close>), a hash
  table (\<^verbatim>\<open>dict.c\<close>) of objects (\<^verbatim>\<open>object.c\<close>): strings (\<^verbatim>\<open>t_string.c\<close> over \<^verbatim>\<open>sds.c\<close>), lists (\<^verbatim>\<open>t_list.c\<close>
  over \<^verbatim>\<open>ziplist.c\<close>), sets (\<^verbatim>\<open>t_set.c\<close> over \<^verbatim>\<open>intset.c\<close> and \<^verbatim>\<open>dict.c\<close>), hashes (\<^verbatim>\<open>t_hash.c\<close> over
  \<^verbatim>\<open>zipmap.c\<close> and \<^verbatim>\<open>dict.c\<close>). Their replies go to a buffer and a list of objects that a socket
  handler drains (\<^verbatim>\<open>networking.c\<close>). Keys with an expire are deleted when they are looked up or by
  a periodic cycle (\<^verbatim>\<open>redis.c\<close>). The data set is saved to a dump file and loaded from it (\<^verbatim>\<open>rdb.c\<close>),
  with strings compressed by LZF (\<^verbatim>\<open>lzf_c.c\<close>, \<^verbatim>\<open>lzf_d.c\<close>).

  \<^bold>\<open>The theories.\<close>

  The base.
  \<^item> \<open>RPrelude\<close>: conventions, little-endian integers, checked memory, ranges and conversions of C
    integers, the lemma collections.
  \<^item> \<open>Interfaces\<close>: the contracts between components as locales: \<open>map_impl\<close>, which \<open>DictTypes\<close> interprets for
    the key space and for hash tables and \<open>ZipmapSpec\<close> for zipmaps, and \<open>set_impl\<close>, which \<open>Intset\<close> and
    \<open>SetSpec\<close> interpret for integer sets and set objects.
  \<^item> \<open>Endian\<close>: \<^verbatim>\<open>endian.c\<close>, \<^verbatim>\<open>endian.h\<close>. \<open>Util\<close>: the number conversions of \<^verbatim>\<open>util.c\<close>; \<^verbatim>\<open>string2ll\<close> accepts
    exactly what \<^verbatim>\<open>ll2string\<close> prints. \<open>Glob\<close>: \<^verbatim>\<open>stringmatchlen\<close> of \<^verbatim>\<open>util.c\<close>, against a grammar of
    patterns, with the two kinds of patterns on which it leaves its arguments. \<open>Sds\<close>, \<open>SdsText\<close>: \<^verbatim>\<open>sds.c\<close>, each operation on the invariant \<open>sds_ok\<close> and the
    abstraction \<open>sds_str\<close>, and the round trip of the quoted form.

  Containers.
  \<^item> \<open>Intset\<close>: \<^verbatim>\<open>intset.c\<close>: search, insertion with upgrade of the width, removal, against sorted lists.
  \<^item> \<open>Dict\<close>: \<^verbatim>\<open>dict.c\<close>: chained tables with incremental rehashing, against finite maps; termination of
    rehashing; iterators. \<open>DictTypes\<close>: the \<^verbatim>\<open>dictType\<close> tables and the resize policy of \<^verbatim>\<open>redis.c\<close>.
  \<^item> \<open>Ziplist\<close>: \<^verbatim>\<open>ziplist.c\<close> on a checked block. \<open>ZiplistRep\<close> gives blocks a meaning as a list of
    entries and proves the cascade of updates right; \<open>ZiplistOps\<close> and \<open>ZiplistDel\<close> prove insertion
    and deletion; \<open>ZiplistList\<close> reads it as a list of byte strings; \<open>ZiplistSpec\<close> has the
    refinement of lists by any sequence of operations, and the insertion that loses a byte
    before an entry with a length field wider than needed; lists of short texts never have one.
  \<^item> \<open>Zipmap\<close>: \<^verbatim>\<open>zipmap.c\<close> on a checked block; \<open>ZipmapSpec\<close> has the refinement of association lists.
  \<^item> \<open>Lzf\<close>: \<^verbatim>\<open>lzf_c.c\<close>, \<^verbatim>\<open>lzf_d.c\<close>; \<open>LzfSpec\<close> the format as tokens and the safety of the decompressor;
    \<open>LzfRound\<close> the round trip and the byte the compressor writes too many.

  Objects.
  \<^item> \<open>Object\<close>: string objects of \<^verbatim>\<open>object.c\<close>: encodings, comparison, conversion to numbers.
  \<^item> \<open>SetType\<close>: set objects of \<^verbatim>\<open>t_set.c\<close> and the loops of SINTER, SUNION and SDIFF; \<open>SetSpec\<close> refines
    sets of texts through every change of encoding.
  \<^item> \<open>HashType\<close>: hash objects of \<^verbatim>\<open>t_hash.c\<close> and what the hash commands do with them; \<open>HashSpec\<close> refines
    maps of texts.
  \<^item> \<open>ListType\<close>: list objects of \<^verbatim>\<open>t_list.c\<close> and what the list commands do with them; \<open>ListSpec\<close> refines
    lists of texts, and shows where the two encodings differ.

  Connections.
  \<^item> \<open>Reply\<close>: the output side of \<^verbatim>\<open>networking.c\<close> with the store of shared objects; \<open>ReplySpec\<close>: bytes sent
    and queued are the replies in order, and the socket handler drains them.
  \<^item> \<open>Protocol\<close>: the input side of \<^verbatim>\<open>networking.c\<close>; \<open>ProtocolSpec\<close>: requests arrive unchanged however the
    bytes are cut into packets, and the limit that is tested against too much. \<open>Requests\<close>, which joins
    it to the commands below: the bytes of requests lead to the state that \<^verbatim>\<open>processCommand\<close> leads to.

  Commands.
  \<^item> \<open>Server\<close>: the state that commands share (\<^verbatim>\<open>redis.h\<close>): data bases, clients, the command table, and
    the reply primitives. The data bases are finite maps, which \<open>Dict\<close> shows hash tables to be.
  \<^item> \<open>KeySpace\<close>: \<^verbatim>\<open>db.c\<close>: access, expires, the hooks for watched keys, the commands on keys of any type.
  \<^item> \<open>TString\<close>: \<^verbatim>\<open>t_string.c\<close>, all commands.
  \<^item> \<open>Multi\<close>: \<^verbatim>\<open>processCommand\<close> and \<^verbatim>\<open>call\<close> of \<^verbatim>\<open>redis.c\<close>, MULTI, EXEC, DISCARD, WATCH and UNWATCH.
  \<^item> \<open>Cron\<close>: \<^verbatim>\<open>activeExpireCycle\<close> of \<^verbatim>\<open>redis.c\<close>.
  \<^item> \<open>KeySpec\<close>: every command but MOVE and PERSIST tells the clients that watch a key it changes.
    \<open>MultiSpec\<close>, \<open>ServerRun\<close>: the watch tables are consistent in every state that the modelled commands
    lead to, and EXEC runs a transaction only if the watched keys are as they were, unless MOVE or
    PERSIST were called.
  \<^item> \<open>Store\<close>: the abstract store, a map of live keys to texts and expires; \<open>StringOps\<close>: each string
    command as a function of it; \<open>StringSpec\<close>: the commands on keys and expires, the refinement, and
    the requests that leave it.
  \<^item> \<open>Typed\<close>: expires and integer encodings are well formed in every state of a run.

  The dump file.
  \<^item> \<open>Rdb\<close>: \<^verbatim>\<open>rdb.c\<close>: types, times, lengths and strings written to a stdio stream and read from it.
    \<open>RdbText\<close>: what is written and that it is read back.

  \<^bold>\<open>Conventions, parameters and bounds.\<close>

  \<open>None\<close> is behaviour that C leaves undefined, or a failed assertion: a theorem that a function
  returns \<open>Some\<close> is a safety theorem. Error codes and null pointers are values of option or sum types.
  Integers of the code that can wrap or overflow are kept at their width, or converted by \<open>to_s32\<close>,
  \<open>to_u32\<close>, \<open>to_s64\<close> and \<open>to_u64\<close>, or tested. Loops are recursive functions; those whose end is not
  plain have fuel, larger by one than the size of what they consume, so that running out of it would
  show as \<open>None\<close> (or are \<open>partial_function\<close>, where not returning is \<open>None\<close>).

  Parameters of the definitions stand for what the code gets from elsewhere: the hash functions (the
  \<^verbatim>\<open>dictType\<close>, with laws that \<open>DictTypes\<close> proves of the real ones), \<^verbatim>\<open>dict_can_resize\<close> (\<open>cr\<close>), the limits
  of the configuration (\<open>lim\<close>, \<open>maxval\<close>, \<open>maxent\<close>), random keys and the clock in the periodic cycle
  (\<open>draws\<close>, \<open>late\<close>), results of system calls (\<open>os_ae\<close>, the results of \<^verbatim>\<open>read\<close> and \<^verbatim>\<open>write\<close>), the content
  of memory that is not initialised (\<open>ht\<close>, the bytes a block grows by), the commands of files that are
  not modelled at the level of requests (\<open>oth\<close>) and \<^verbatim>\<open>freeMemoryIfNeeded\<close> (\<open>evict\<close>). Nothing is assumed
  of the last two: the runs of \<open>ServerRun\<close> and \<open>Typed\<close> have requests for modelled commands only, on a
  server without a memory limit.

  Sizes. Theorems on intsets assume fewer than 2 to the 27 elements (the length in bytes is an
  unsigned 32 bit product); on ziplists and zipmaps, blocks of less than 2 to the 32 bytes, which
  follows from the bounds on the number and length of their strings; strings are shorter than 2 to
  the 31, since \<^verbatim>\<open>sdshdr\<close> has fields of type int.

  \<^bold>\<open>Not modelled.\<close>

  \<^item> Sorted sets (\<^verbatim>\<open>t_zset.c\<close>): their scores are doubles that are printed and parsed by libc. SORT
    (\<^verbatim>\<open>sort.c\<close>, \<^verbatim>\<open>pqsort.c\<close>) depends on them too.
  \<^item> The lookups and replies around the operations on list, set and hash objects in \<^verbatim>\<open>t_list.c\<close>,
    \<^verbatim>\<open>t_set.c\<close> and \<^verbatim>\<open>t_hash.c\<close>, and the blocking list commands: in the model of requests the commands of
    these files are the parameter \<open>oth\<close>.
  \<^item> Publish and subscribe, the slow log (\<^verbatim>\<open>pubsub.c\<close>, \<^verbatim>\<open>slowlog.c\<close>), which keep lists of their own.
  \<^item> Virtual memory (\<^verbatim>\<open>vm.c\<close>): threads and a swap file; the model is of a server that runs without it.
  \<^item> The event loop and its system calls (\<^verbatim>\<open>ae*.c\<close>, \<^verbatim>\<open>anet.c\<close>, \<^verbatim>\<open>syncio.c\<close>), background threads (\<^verbatim>\<open>bio.c\<close>),
    replication (\<^verbatim>\<open>replication.c\<close>), the append only file (\<^verbatim>\<open>aof.c\<close>), \<^verbatim>\<open>fork\<close> for background saving,
    configuration and diagnostics (\<^verbatim>\<open>config.c\<close>, \<^verbatim>\<open>debug.c\<close>, \<^verbatim>\<open>release.c\<close>), the allocator (\<^verbatim>\<open>zmalloc.c\<close>) and
    running out of memory, which aborts the server.
  \<^item> The tools \<^verbatim>\<open>redis-cli\<close>, \<^verbatim>\<open>redis-benchmark\<close>, \<^verbatim>\<open>redis-check-aof\<close>, \<^verbatim>\<open>redis-check-dump\<close>; the libraries
    hiredis, linenoise and jemalloc under \<^verbatim>\<open>deps\<close>; the iOS client and the scripts.
\<close>

end
